(* ===== verification/Prelude.thy ===== *)
theory Prelude
  imports Main "HOL-Library.Word" "HOL-Library.Monad_Syntax" "HOL-Library.Multiset"
begin

text \<open>
  Shared vocabulary of the development.

  Pointers that the containers only store and compare (\<^verbatim>\<open>void*\<close>) are natural
  numbers with \<open>NULL = 0\<close>.  A handle argument that the C code tests against \<open>NULL\<close>
  is an \<open>option\<close>.  A computation that may run into undefined behaviour or a failed
  \<^verbatim>\<open>assert\<close> (a read or write outside an array, for instance) returns an \<open>option\<close> whose
  \<open>None\<close> is that event, and is written with the do-notation of \<open>Monad_Syntax\<close>; a
  theorem that such a computation returns \<open>Some\<close> is a memory-safety theorem.
  Results of \<^verbatim>\<open>malloc\<close> are boolean arguments, one for each call whose result is tested.
\<close>

unbundle bit_operations_syntax

type_synonym ptr = nat
type_synonym u8 = "8 word"
type_synonym u16 = "16 word"
type_synonym u32 = "32 word"
type_synonym u64 = "64 word"

abbreviation (input) NULL :: ptr where "NULL \<equiv> 0"

definition tolower :: "u8 \<Rightarrow> u8" where
  \<comment> \<open>of the C locale\<close>
  "tolower c = (if 65 \<le> c \<and> c \<le> 90 then c + 32 else c)"

named_theorems mem_simps \<open>reads and writes of checked memory\<close>

text \<open>A comparison callback that orders data by a key.\<close>

definition cmp_by :: "(ptr \<Rightarrow> 'k::linorder) \<Rightarrow> (ptr \<Rightarrow> ptr \<Rightarrow> int) \<Rightarrow> bool" where
  \<comment> \<open>the caller's comparison orders the data by a key\<close>
  "cmp_by key cmp \<longleftrightarrow> (\<forall>x y. (cmp x y < 0 \<longleftrightarrow> key x < key y) \<and> (cmp x y = 0 \<longleftrightarrow> key x = key y))"

section \<open>Checked memory\<close>

definition rd :: "'a list \<Rightarrow> nat \<Rightarrow> 'a option" where
  "rd xs i = (if i < length xs then Some (xs ! i) else None)"

definition wr :: "'a list \<Rightarrow> nat \<Rightarrow> 'a \<Rightarrow> 'a list option" where
  "wr xs i v = (if i < length xs then Some (xs[i := v]) else None)"

definition rdi :: "'a list \<Rightarrow> int \<Rightarrow> 'a option" where
  \<comment> \<open>an access with an index of type \<^verbatim>\<open>int\<close>\<close>
  "rdi xs i = (if 0 \<le> i then rd xs (nat i) else None)"

definition wri :: "'a list \<Rightarrow> int \<Rightarrow> 'a \<Rightarrow> 'a list option" where
  "wri xs i v = (if 0 \<le> i then wr xs (nat i) v else None)"

definition rd_n :: "'a list \<Rightarrow> nat \<Rightarrow> nat \<Rightarrow> 'a list option" where
  \<comment> \<open>the source of a \<^verbatim>\<open>memcpy\<close> of \<open>n\<close> bytes starting at offset \<open>i\<close>\<close>
  "rd_n xs i n = (if i + n \<le> length xs then Some (take n (drop i xs)) else None)"

definition blit :: "'a list \<Rightarrow> nat \<Rightarrow> 'a list \<Rightarrow> 'a list option" where
  \<comment> \<open>the destination of a \<^verbatim>\<open>memcpy\<close> of all of \<open>src\<close> to offset \<open>i\<close>\<close>
  "blit xs i src = (if i + length src \<le> length xs
     then Some (take i xs @ src @ drop (i + length src) xs) else None)"

fun foldM :: "('a \<Rightarrow> 's \<Rightarrow> 's option) \<Rightarrow> 'a list \<Rightarrow> 's \<Rightarrow> 's option" where
  \<comment> \<open>a counting loop\<close>
  "foldM f [] s = Some s"
| "foldM f (x # xs) s = do { s' \<leftarrow> f x s; foldM f xs s' }"

definition c_assert :: "bool \<Rightarrow> unit option" where
  "c_assert b = (if b then Some () else None)"

lemma rd_Some [mem_simps, simp]: "i < length xs \<Longrightarrow> rd xs i = Some (xs ! i)"
  by (simp add: rd_def)

lemma wr_Some [mem_simps, simp]: "i < length xs \<Longrightarrow> wr xs i v = Some (xs[i := v])"
  by (simp add: wr_def)

lemma rdi_Some [mem_simps, simp]: "0 \<le> i \<Longrightarrow> nat i < length xs \<Longrightarrow> rdi xs i = Some (xs ! nat i)"
  by (simp add: rdi_def)

lemma wri_Some [mem_simps, simp]: "0 \<le> i \<Longrightarrow> nat i < length xs \<Longrightarrow> wri xs i v = Some (xs[nat i := v])"
  by (simp add: wri_def)

lemma rd_eq_Some: "rd xs i = Some v \<longleftrightarrow> i < length xs \<and> xs ! i = v"
  by (auto simp: rd_def)

lemma wr_eq_Some: "wr xs i v = Some ys \<longleftrightarrow> i < length xs \<and> ys = xs[i := v]"
  by (auto simp: wr_def)

lemma rd_n_eq_Some:
  "rd_n xs i n = Some ys \<longleftrightarrow> i + n \<le> length xs \<and> ys = take n (drop i xs)"
  by (auto simp: rd_n_def)

lemma rd_n_Some [mem_simps]: "i + n \<le> length xs \<Longrightarrow> rd_n xs i n = Some (take n (drop i xs))"
  by (simp add: rd_n_def)

lemma blit_eq_Some:
  "blit xs i src = Some ys \<longleftrightarrow>
     i + length src \<le> length xs \<and> ys = take i xs @ src @ drop (i + length src) xs"
  by (auto simp: blit_def)

lemma blit_Some [mem_simps]:
  "i + length src \<le> length xs \<Longrightarrow> blit xs i src = Some (take i xs @ src @ drop (i + length src) xs)"
  by (simp add: blit_def)

lemma length_blit: "blit xs i src = Some ys \<Longrightarrow> length ys = length xs"
  by (auto simp: blit_def split: if_splits)

lemma nth_blit:
  assumes "i + length src \<le> length xs" and "j < length xs"
  shows "(take i xs @ src @ drop (i + length src) xs) ! j =
    (if i \<le> j \<and> j < i + length src then src ! (j - i) else xs ! j)"
  using assms by (auto simp: nth_append min_def)

lemma c_assert_eq_Some [simp]: "c_assert b = Some u \<longleftrightarrow> b"
  by (simp add: c_assert_def)

lemma c_assert_True [simp]: "b \<Longrightarrow> c_assert b = Some ()"
  by (simp add: c_assert_def)

lemma c_assert_False [simp]: "c_assert False = None"
  by (simp add: c_assert_def)

lemmas mem_elims = rd_eq_Some wr_eq_Some rd_n_eq_Some blit_eq_Some

lemma foldM_append: "foldM f (xs @ ys) s = do { s' \<leftarrow> foldM f xs s; foldM f ys s' }"
  by (induction xs arbitrary: s) (auto split: bind_split)

lemma foldM_inv:
  assumes "\<And>x s. x \<in> set xs \<Longrightarrow> I s \<Longrightarrow> \<exists>s'. f x s = Some s' \<and> I s'" "I s"
  shows "\<exists>s'. foldM f xs s = Some s' \<and> I s'"
  using assms
proof (induction xs arbitrary: s)
  case (Cons x xs)
  then obtain s1 where "f x s = Some s1" "I s1" by (metis list.set_intros(1))
  then show ?case using Cons by (metis foldM.simps(2) list.set_intros(2) Option.bind_lunit)
qed simp

section \<open>Lists\<close>

lemma mset_swap_nth:
  "i < length xs \<Longrightarrow> j < length xs \<Longrightarrow> mset (xs[i := xs ! j, j := xs ! i]) = mset xs"
  by (rule mset_swap)

lemma set_eq_nth: "set xs = {xs ! i |i. i < length xs}"
  by (auto simp: in_set_conv_nth)

lemma rot_mod:
  fixes x :: nat
  assumes "a < n"
  shows "(x + a) mod n = (if x mod n + a < n then x mod n + a else x mod n + a - n)"
proof -
  define y where "y = x mod n"
  have y: "y < n" using assms by (simp add: y_def)
  have e: "(x + a) mod n = (y + a) mod n" unfolding y_def by (rule mod_add_left_eq [symmetric])
  have "(y + a) mod n = (if y + a < n then y + a else y + a - n)"
  proof (cases "y + a < n")
    case False
    then have "(y + a) mod n = (y + a - n) mod n" by (intro le_mod_geq) simp
    also have "\<dots> = y + a - n" using y assms by (intro mod_less) simp
    finally show ?thesis using False by simp
  qed simp
  then show ?thesis using e by (simp only: y_def)
qed

lemma rot_inj:
  fixes x :: nat
  assumes "a < n" "b < n" "(x + a) mod n = (x + b) mod n"
  shows "a = b"
proof -
  define y where "y = x mod n"
  have "y < n" using assms by (simp add: y_def)
  moreover have "(if y + a < n then y + a else y + a - n) = (if y + b < n then y + b else y + b - n)"
    using assms(3) by (simp only: rot_mod [OF assms(1)] rot_mod [OF assms(2)] y_def)
  ultimately show ?thesis using assms(1,2) by (simp split: if_splits)
qed

lemma find_cong_on:
  assumes "\<And>j. j \<in> set xs \<Longrightarrow> P j = Q j"
  shows "find P xs = find Q xs"
  using assms by (induction xs) auto

lemma find_Some_unique:
  assumes "find P xs = None" "i \<in> set xs" "\<And>j. j \<in> set xs \<Longrightarrow> Q j = (P j \<or> j = i)"
  shows "find Q xs = Some i"
  using assms by (induction xs) (auto split: if_splits)

lemma find_bound: "find P xs = Some x \<Longrightarrow> x \<in> set xs \<and> P x"
  by (auto simp: find_Some_iff)

section \<open>Words\<close>

lemma all_u8:
  assumes "\<forall>n \<in> set [0..<256]. P (word_of_nat n :: u8)"
  shows "P w"
proof -
  have "unat w \<in> set [0..<256]" using unsigned_less [of w] by simp
  with assms have "P (word_of_nat (unat w))" by blast
  then show ?thesis by simp
qed

lemma xor_right_cancel:
  fixes p q r :: "'a::len word"
  shows "p XOR q = r XOR q \<longleftrightarrow> p = r"
  by (metis xor.assoc xor_self_eq xor.right_neutral)

lemma xor_exchange:
  fixes p q r s :: "'a::len word"
  assumes "p XOR q = r XOR s"
  shows "p XOR r = q XOR s"
proof (rule bit_word_eqI)
  fix n
  have "bit (p XOR q) n = bit (r XOR s) n" by (simp only: assms)
  then show "bit (p XOR r) n = bit (q XOR s) n" by (auto simp: bit_xor_iff)
qed

lemma xor_eq_0D:
  fixes p q :: "'a::len word"
  shows "p XOR q = 0 \<Longrightarrow> p = q"
  using xor_right_cancel [of p q q] by simp

text \<open>Little-endian bytes of a 32-bit word.\<close>

definition le32 :: "u32 \<Rightarrow> u8 list" where
  "le32 w = [ucast w, ucast (drop_bit 8 w), ucast (drop_bit 16 w), ucast (drop_bit 24 w)]"

definition of_le32 :: "u8 list \<Rightarrow> u32" where
  "of_le32 bs = ucast (bs ! 0) OR push_bit 8 (ucast (bs ! 1)) OR push_bit 16 (ucast (bs ! 2))
     OR push_bit 24 (ucast (bs ! 3))"

lemma length_le32 [simp]: "length (le32 w) = 4"
  by (simp add: le32_def)

lemma of_le32_le32 [simp]: "of_le32 (le32 w) = w"
proof (rule bit_word_eqI)
  fix n
  assume "n < LENGTH(32)"
  then consider "n < 8" | "8 \<le> n" "n < 16" | "16 \<le> n" "n < 24" | "24 \<le> n" "n < 32"
    by (auto; linarith)
  then show "bit (of_le32 (le32 w)) n = bit w n"
    by cases (auto simp: of_le32_def le32_def bit_simps)
qed

end
