(* ===== verification/Base_Array.thy ===== *)
theory Base_Array
  imports Prelude
begin

text \<open>
  \<^verbatim>\<open>base/array.c\<close>: a fixed-capacity, unordered array of pointers.  Deletion moves the last
  element into the hole, so the contents are a multiset and the order is not kept.
\<close>

section \<open>State and operations\<close>

record array_t =
  ar_count :: int
  ar_size :: int
  ar_data :: "ptr list"

definition array_create :: "bool \<Rightarrow> bool \<Rightarrow> int \<Rightarrow> array_t option" where
  "array_create ok1 ok2 sz =
     (if sz \<le> 0 then None else if \<not> ok1 then None else if \<not> ok2 then None
      else Some \<lparr>ar_count = 0, ar_size = sz, ar_data = replicate (nat sz) NULL\<rparr>)"

fun array_add :: "array_t option \<Rightarrow> ptr \<Rightarrow> (array_t option \<times> int) option" where
  "array_add None d = Some (None, -1)"
| "array_add (Some a) d =
     (if d = NULL then Some (Some a, -1)
      else if ar_count a \<ge> ar_size a then Some (Some a, -1)
      else do {
        xs \<leftarrow> wr (ar_data a) (nat (ar_count a)) d;
        Some (Some (a\<lparr>ar_data := xs, ar_count := ar_count a + 1\<rparr>), 0) })"

function array_index :: "ptr list \<Rightarrow> int \<Rightarrow> ptr \<Rightarrow> int \<Rightarrow> int option option" where
  \<comment> \<open>the for loop of \<^verbatim>\<open>array_del\<close> and \<^verbatim>\<open>array_has\<close>: the first index holding \<open>d\<close>\<close>
  "array_index xs n d index =
     (if index < n then do {
        x \<leftarrow> rd xs (nat index);
        if x = d then Some (Some index) else array_index xs n d (index + 1) }
      else Some None)"
  by pat_completeness auto
termination by (relation "measure (\<lambda>(xs, n, d, i). nat (n - i))") auto

declare array_index.simps [simp del]

fun array_del :: "array_t option \<Rightarrow> ptr \<Rightarrow> (array_t option \<times> int) option" where
  "array_del None d = Some (None, -1)"
| "array_del (Some a) d =
     (if d = NULL then Some (Some a, -1)
      else do {
        r \<leftarrow> array_index (ar_data a) (ar_count a) d 0;
        (case r of
           None \<Rightarrow> Some (Some a, 0)
         | Some index \<Rightarrow> do {
             l \<leftarrow> rd (ar_data a) (nat (ar_count a - 1));
             xs \<leftarrow> wr (ar_data a) (nat index) l;
             ys \<leftarrow> wr xs (nat (ar_count a - 1)) NULL;
             Some (Some (a\<lparr>ar_data := ys, ar_count := ar_count a - 1\<rparr>), 0) }) })"

fun array_has :: "array_t option \<Rightarrow> ptr \<Rightarrow> int option" where
  "array_has None d = Some (-1)"
| "array_has (Some a) d =
     (if d = NULL then Some (-1)
      else do {
        r \<leftarrow> array_index (ar_data a) (ar_count a) d 0;
        Some (case r of None \<Rightarrow> -1 | Some i \<Rightarrow> 0) })"

fun array_count :: "array_t option \<Rightarrow> int" where
  "array_count None = -1"
| "array_count (Some a) = ar_count a"

fun array_loop :: "array_t option \<Rightarrow> (ptr \<Rightarrow> 's \<Rightarrow> 's) \<Rightarrow> 's \<Rightarrow> 's \<times> int" where
  "array_loop None func args = (args, -1)"
| "array_loop (Some a) func args =
     (if ar_count a \<le> 0 then (args, -1)
      else (fold func (take (nat (ar_count a)) (ar_data a)) args, 0))"

section \<open>The contents as a multiset\<close>

definition array_wf :: "array_t \<Rightarrow> bool" where
  "array_wf a \<longleftrightarrow> 0 \<le> ar_count a \<and> ar_count a \<le> ar_size a \<and> ar_size a = int (length (ar_data a))
     \<and> NULL \<notin> set (take (nat (ar_count a)) (ar_data a))"

definition array_elems :: "array_t \<Rightarrow> ptr multiset" where
  "array_elems a = mset (take (nat (ar_count a)) (ar_data a))"

lemma array_create_wf: "array_create ok1 ok2 n = Some a \<Longrightarrow> array_wf a \<and> array_elems a = {#}"
  by (auto simp: array_create_def array_wf_def array_elems_def split: if_splits)

lemma array_index_eq:
  assumes "n \<le> int (length xs)" "0 \<le> i"
  shows "array_index xs n d i = Some (map_option int (find (\<lambda>j. xs ! j = d) [nat i..<nat n]))"
  using assms
proof (induction xs n d i rule: array_index.induct)
  case (1 xs n d i)
  show ?case
  proof (cases "i < n")
    case True
    then have "[nat i..<nat n] = nat i # [nat (i + 1)..<nat n]"
      using 1(3) by (simp add: upt_conv_Cons nat_add_distrib)
    moreover have "nat i < length xs" using True 1 by simp
    ultimately show ?thesis
      using True 1 by (subst array_index.simps) (simp add: rd_def)
  next
    case False
    then show ?thesis by (subst array_index.simps) simp
  qed
qed

lemma array_has_iff:
  assumes "array_wf a"
  shows "array_has (Some a) d = Some (if d \<in># array_elems a then 0 else -1)"
proof -
  let ?n = "nat (ar_count a)"
  have "\<not> (\<exists>j. j \<in> set [0..<?n] \<and> ar_data a ! j = d) \<longleftrightarrow> d \<notin> set (take ?n (ar_data a))"
    using assms by (auto simp: in_set_conv_nth array_wf_def)
  then show ?thesis
    using assms array_index_eq [of "ar_count a" "ar_data a" 0 d]
    by (auto simp: array_wf_def array_elems_def find_None_iff split: option.splits)
       (auto simp: find_Some_iff in_set_conv_nth)
qed

lemma array_add_elems:
  assumes "array_wf a" "d \<noteq> NULL" "ar_count a < ar_size a"
  shows "\<exists>a'. array_add (Some a) d = Some (Some a', 0) \<and> array_wf a' \<and> array_elems a' = add_mset d (array_elems a)
     \<and> ar_size a' = ar_size a"
  using assms by (auto simp: array_wf_def array_elems_def wr_def nat_add_distrib take_Suc_conv_app_nth)

lemma take_swap_last:
  assumes "j < n" "n \<le> length xs"
  shows "add_mset (xs ! j) (mset (take (n - 1) (xs[j := xs ! (n - 1), n - 1 := z]))) = mset (take n xs)"
proof -
  let ?ys = "take n xs"
  have l: "last ?ys = xs ! (n - 1)" using assms by (subst last_conv_nth) auto
  have ys: "take (n - 1) (xs[j := xs ! (n - 1), n - 1 := z]) = butlast (?ys[j := last ?ys])"
    using assms by (intro nth_equalityI)
      (auto simp: nth_list_update nth_butlast l)
  have "mset (?ys[j := last ?ys, n - 1 := ?ys ! j]) = mset ?ys"
    using assms mset_swap [of "n - 1" ?ys j] by (simp add: l)
  moreover have "?ys[j := last ?ys, n - 1 := ?ys ! j] = butlast (?ys[j := last ?ys]) @ [?ys ! j]"
    using assms by (intro nth_equalityI) (auto simp: nth_list_update nth_append nth_butlast)
  ultimately have "mset (butlast (?ys[j := last ?ys])) + {#?ys ! j#} = mset ?ys"
    by simp
  then show ?thesis unfolding ys using assms by simp
qed

lemma array_del_elems:
  assumes "array_wf a" "d \<noteq> NULL"
  shows "\<exists>a'. array_del (Some a) d = Some (Some a', 0) \<and> array_wf a' \<and> array_elems a' = array_elems a - {#d#}
     \<and> ar_size a' = ar_size a"
proof (cases "find (\<lambda>j. ar_data a ! j = d) [0..<nat (ar_count a)]")
  case None
  then have "d \<notin># array_elems a"
    by (auto simp: array_elems_def find_None_iff in_set_conv_nth)
  with None assms array_index_eq [of "ar_count a" "ar_data a" 0 d] show ?thesis
    by (simp add: array_wf_def)
next
  case (Some j)
  then have j: "j < nat (ar_count a)" "ar_data a ! j = d" by (auto simp: find_Some_iff)
  let ?n = "nat (ar_count a)" and ?xs = "ar_data a"
  let ?a = "a\<lparr>ar_data := ?xs[j := ?xs ! (?n - 1), ?n - 1 := NULL], ar_count := ar_count a - 1\<rparr>"
  have n: "nat (ar_count a - 1) = ?n - 1" "?n \<le> length ?xs" using assms j by (auto simp: array_wf_def)
  have del: "array_del (Some a) d = Some (Some ?a, 0)"
    using Some j n assms array_index_eq [of "ar_count a" ?xs 0 d] by (simp add: array_wf_def rd_def wr_def)
  have m: "add_mset d (array_elems ?a) = array_elems a"
    using take_swap_last [OF j(1) n(2)] j(2) by (simp add: array_elems_def n)
  have "NULL \<notin># array_elems ?a"
  proof -
    have "NULL \<notin># array_elems a" using assms(1) by (simp add: array_elems_def array_wf_def)
    then show ?thesis unfolding m [symmetric] by simp
  qed
  then have "array_wf ?a" using assms j by (auto simp: array_wf_def array_elems_def)
  moreover have "array_elems ?a = array_elems a - {#d#}" unfolding m [symmetric] by simp
  ultimately show ?thesis using del by (intro exI [of _ ?a]) simp
qed

end
