(* ===== verification/Base_Bitset.thy ===== *)
theory Base_Bitset
  imports Prelude
begin

text \<open>
  \<^verbatim>\<open>base/bitset.c\<close>: a fixed-size bit set stored in bytes.  Bits are written by masking a
  byte; \<open>bit_count\<close> adds up a table of nibble weights.  The invariant says that the array
  has the rounded-up number of bytes and that the padding bits of the last byte are zero,
  which is what makes the byte-wise count the number of members.
\<close>

section \<open>State and operations\<close>

record bit_t =
  bit_data :: "u8 list"
  bit_size :: int
  byte_size :: int

definition BIT_BYTES :: "int \<Rightarrow> int" where
  "BIT_BYTES len = ((len + 8 - 1) AND (NOT (8 - 1))) div 8"

definition bit_create :: "bool \<Rightarrow> bool \<Rightarrow> int \<Rightarrow> bit_t option" where
  \<comment> \<open>\<open>ok1\<close>, \<open>ok2\<close>: the two allocations; a negative byte count is a \<^verbatim>\<open>size_t\<close> no allocation meets\<close>
  "bit_create ok1 ok2 sz =
     (if \<not> ok1 then None
      else let n = BIT_BYTES sz in
        if \<not> ok2 \<or> n < 0 then None
        else Some \<lparr>bit_data = replicate (nat n) 0, bit_size = sz, byte_size = n\<rparr>)"

fun bit_set :: "bit_t option \<Rightarrow> int \<Rightarrow> bit_t option" where
  "bit_set None index = None"
| "bit_set (Some b) index =
     (if index < 0 \<or> index \<ge> bit_size b then Some b
      else let i = nat (index div 8); k = nat (index mod 8) in
        Some (b\<lparr>bit_data := (bit_data b)[i := (bit_data b ! i) OR push_bit k 1]\<rparr>))"

fun bit_reset :: "bit_t option \<Rightarrow> int \<Rightarrow> bit_t option" where
  "bit_reset None index = None"
| "bit_reset (Some b) index =
     (if index < 0 \<or> index \<ge> bit_size b then Some b
      else let i = nat (index div 8); k = nat (index mod 8) in
        Some (b\<lparr>bit_data := (bit_data b)[i := (bit_data b ! i) AND NOT (push_bit k 1)]\<rparr>))"

fun bit_isset :: "bit_t option \<Rightarrow> int \<Rightarrow> int" where
  "bit_isset None index = -1"
| "bit_isset (Some b) index =
     (if index < 0 \<or> index \<ge> bit_size b then -1
      else let i = nat (index div 8); k = nat (index mod 8) in
        if (bit_data b ! i) AND push_bit k 1 \<noteq> 0 then 0 else -1)"

definition nibble_count :: "int list" where
  "nibble_count = [0, 1, 1, 2, 1, 2, 2, 3, 1, 2, 2, 3, 2, 3, 3, 4]"

fun bit_count_loop :: "u8 list \<Rightarrow> int \<Rightarrow> int" where
  "bit_count_loop [] acc = acc"
| "bit_count_loop (x # xs) acc =
     bit_count_loop xs (acc + (nibble_count ! unat (x AND 0x0f) + nibble_count ! unat (drop_bit 4 x)))"

fun bit_count :: "bit_t option \<Rightarrow> int" where
  "bit_count None = -1"
| "bit_count (Some b) = bit_count_loop (take (nat (byte_size b)) (bit_data b)) 0"

section \<open>Invariant\<close>

definition bit_wf :: "bit_t \<Rightarrow> bool" where
  "bit_wf b \<longleftrightarrow> byte_size b = int (length (bit_data b)) \<and> byte_size b = BIT_BYTES (bit_size b)
     \<and> (\<forall>i k. i < length (bit_data b) \<longrightarrow> k < 8 \<longrightarrow> bit_size b \<le> int (8 * i + k)
           \<longrightarrow> \<not> bit (bit_data b ! i) k)"

definition bit_members :: "bit_t \<Rightarrow> int set" where
  "bit_members b = {i. bit_isset (Some b) i = 0}"

lemma BIT_BYTES_eq: "BIT_BYTES len = (len + 7) div 8"
proof -
  have "x AND NOT (mask 3) = push_bit 3 (drop_bit 3 x)" for x :: int
    by (rule bit_eqI) (auto simp: bit_simps)
  then show ?thesis
    by (simp add: BIT_BYTES_def mask_eq_exp_minus_1 push_bit_eq_mult drop_bit_eq_div)
qed

lemma bit_index_bound:
  assumes "bit_wf b" and "0 \<le> i" and "i < bit_size b"
  shows "nat (i div 8) < length (bit_data b)"
proof -
  have "i div 8 < (bit_size b + 7) div 8" using assms(3) by presburger
  with assms show ?thesis by (auto simp: bit_wf_def BIT_BYTES_eq)
qed

lemma bit_isset_iff:
  "bit_isset (Some b) i = 0 \<longleftrightarrow>
     0 \<le> i \<and> i < bit_size b \<and> bit (bit_data b ! nat (i div 8)) (nat (i mod 8))"
  by (auto simp: Let_def bit_iff_and_push_bit_not_eq_0)

declare bit_isset.simps(2) [simp del]

lemma bit_create_wf:
  assumes "bit_create ok1 ok2 sz = Some b"
  shows "bit_wf b \<and> bit_members b = {} \<and> bit_size b = sz"
proof -
  from assms have b: "b = \<lparr>bit_data = replicate (nat (BIT_BYTES sz)) 0, bit_size = sz, byte_size = BIT_BYTES sz\<rparr>"
    and pos: "0 \<le> BIT_BYTES sz"
    by (auto simp: bit_create_def Let_def split: if_splits)
  have wf: "bit_wf b" using pos by (simp add: b bit_wf_def)
  have "bit_isset (Some b) i \<noteq> 0" for i
    using bit_index_bound [OF wf, of i] by (auto simp: b bit_isset_iff)
  with wf show ?thesis by (simp add: b bit_members_def)
qed

lemma div8_mod8_eq:
  assumes "0 \<le> (i::int)" "0 \<le> j" "nat (i div 8) = nat (j div 8)" "nat (i mod 8) = nat (j mod 8)"
  shows "i = j"
proof -
  from assms have "i div 8 = j div 8" "i mod 8 = j mod 8" by (auto simp: eq_nat_nat_iff)
  then show ?thesis by (metis div_mult_mod_eq)
qed

lemma bit_wf_update:
  assumes "bit_wf b" "i < length (bit_data b)"
    and "\<And>k. k < 8 \<Longrightarrow> bit_size b \<le> int (8 * i + k) \<Longrightarrow> \<not> bit w k"
  shows "bit_wf (b\<lparr>bit_data := (bit_data b)[i := w]\<rparr>)"
  using assms by (auto simp: bit_wf_def nth_list_update)

lemma bit_set_eq:
  assumes "0 \<le> i" "i < bit_size b"
  shows "bit_set (Some b) i = Some (b\<lparr>bit_data := (bit_data b)[nat (i div 8) :=
    (bit_data b ! nat (i div 8)) OR push_bit (nat (i mod 8)) 1]\<rparr>)"
  using assms by (simp add: Let_def)

lemma bit_reset_eq:
  assumes "0 \<le> i" "i < bit_size b"
  shows "bit_reset (Some b) i = Some (b\<lparr>bit_data := (bit_data b)[nat (i div 8) :=
    (bit_data b ! nat (i div 8)) AND NOT (push_bit (nat (i mod 8)) 1)]\<rparr>)"
  using assms by (simp add: Let_def)

lemma bit_of_pow: "bit (push_bit n (1 :: u8)) k \<longleftrightarrow> k = n \<and> n < 8"
  by (auto simp: bit_exp_iff)

lemma bit_padding:
  assumes "bit_wf b" "i < length (bit_data b)" "k < 8" "bit_size b \<le> int (8 * i + k)"
  shows "\<not> bit (bit_data b ! i) k"
  using assms unfolding bit_wf_def by blast

lemma bit_set_wf:
  assumes "bit_wf b" and "0 \<le> i" and "i < bit_size b" and "bit_set (Some b) i = Some b'"
  shows "bit_wf b'"
proof -
  have "k = nat (i mod 8) \<Longrightarrow> \<not> bit_size b \<le> int (8 * nat (i div 8) + k)" for k
    using assms(2,3) by (simp add: algebra_simps)
  then have "bit_wf (b\<lparr>bit_data := (bit_data b)[nat (i div 8) :=
    (bit_data b ! nat (i div 8)) OR push_bit (nat (i mod 8)) 1]\<rparr>)"
    using bit_index_bound [OF assms(1-3)] bit_padding [OF assms(1)]
    by (intro bit_wf_update assms(1)) (auto simp: bit_or_iff bit_of_pow simp del: push_bit_of_1)
  with assms(4) show ?thesis unfolding bit_set_eq [OF assms(2,3)] by simp
qed

lemma bit_reset_wf:
  assumes "bit_wf b" and "0 \<le> i" and "i < bit_size b" and "bit_reset (Some b) i = Some b'"
  shows "bit_wf b'"
proof -
  have "bit_wf (b\<lparr>bit_data := (bit_data b)[nat (i div 8) :=
    (bit_data b ! nat (i div 8)) AND NOT (push_bit (nat (i mod 8)) 1)]\<rparr>)"
    using bit_index_bound [OF assms(1-3)] bit_padding [OF assms(1)]
    by (intro bit_wf_update assms(1)) (auto simp: bit_and_iff)
  with assms(4) show ?thesis unfolding bit_reset_eq [OF assms(2,3)] by simp
qed

lemma bit_update_members:
  assumes "bit_wf b" "0 \<le> i" "i < bit_size b"
    and "\<And>k. k < 8 \<Longrightarrow> k \<noteq> nat (i mod 8) \<Longrightarrow> bit w k \<longleftrightarrow> bit (bit_data b ! nat (i div 8)) k"
  shows "bit_members (b\<lparr>bit_data := (bit_data b)[nat (i div 8) := w]\<rparr>) =
    (if bit w (nat (i mod 8)) then insert i (bit_members b) else bit_members b - {i})" (is "?L = ?R")
proof (rule set_eqI)
  fix j
  have *: "j \<in> ?L \<longleftrightarrow> 0 \<le> j \<and> j < bit_size b \<and> bit ((bit_data b)[nat (i div 8) := w] ! nat (j div 8)) (nat (j mod 8))"
    by (simp add: bit_members_def bit_isset_iff)
  have **: "j \<in> bit_members b \<longleftrightarrow> 0 \<le> j \<and> j < bit_size b \<and> bit (bit_data b ! nat (j div 8)) (nat (j mod 8))"
    by (simp add: bit_members_def bit_isset_iff)
  have k: "nat (j mod 8) < 8" by simp
  show "j \<in> ?L \<longleftrightarrow> j \<in> ?R"
  proof (cases "j = i")
    case True
    with * assms bit_index_bound [OF assms(1-3)] show ?thesis by simp
  next
    case False
    show ?thesis
    proof (cases "0 \<le> j \<and> nat (j div 8) = nat (i div 8)")
      case True
      with False assms(2) have "nat (j mod 8) \<noteq> nat (i mod 8)" using div8_mod8_eq by blast
      with True * ** False assms(4) [OF k] bit_index_bound [OF assms(1-3)] show ?thesis by auto
    next
      case out: False
      with * ** False show ?thesis by auto
    qed
  qed
qed

lemma bit_set_members:
  assumes "bit_wf b" and "0 \<le> i" and "i < bit_size b" and "bit_set (Some b) i = Some b'"
  shows "bit_members b' = insert i (bit_members b)"
  using assms(4) bit_update_members [OF assms(1-3), of "(bit_data b ! nat (i div 8)) OR push_bit (nat (i mod 8)) 1"]
  unfolding bit_set_eq [OF assms(2,3)]
  by (auto simp: bit_or_iff bit_of_pow simp del: push_bit_of_1)

lemma bit_reset_members:
  assumes "bit_wf b" and "0 \<le> i" and "i < bit_size b" and "bit_reset (Some b) i = Some b'"
  shows "bit_members b' = bit_members b - {i}"
  using assms(4) bit_update_members [OF assms(1-3), of "(bit_data b ! nat (i div 8)) AND NOT (push_bit (nat (i mod 8)) 1)"]
  unfolding bit_reset_eq [OF assms(2,3)]
  by (auto simp: bit_and_iff bit_not_iff bit_of_pow simp del: push_bit_of_1)

section \<open>The population count\<close>

definition popcount :: "u8 \<Rightarrow> int" where
  "popcount x = int (length (filter (bit x) [0..<8]))"

lemma nibble_count_bits:
  assumes "m < 16"
  shows "nibble_count ! m = int (length (filter (bit m) [0..<4]))"
proof -
  have "\<forall>m \<in> set [0..<16]. nibble_count ! m = int (length (filter (bit m) [0..<4]))"
    by code_simp
  with assms show ?thesis by simp
qed

lemma nibble_count_popcount:
  "nibble_count ! unat (x AND 0x0f) + nibble_count ! unat (drop_bit 4 x) = popcount x"
proof -
  have lo: "unat (x AND 0x0f) = take_bit 4 (unat x)"
    using unsigned_take_bit_eq [of 4 x] by (simp add: take_bit_eq_mask [of 4 x] mask_eq_exp_minus_1)
  have hi: "unat (drop_bit 4 x) = drop_bit 4 (unat x)"
    by (rule unat_drop_bit_eq)
  have "take_bit 4 (unat x) < 2 ^ 4" by (rule take_bit_nat_less_exp)
  then have l: "nibble_count ! unat (x AND 0x0f) = int (length (filter (bit x) [0..<4]))"
    by (simp add: lo nibble_count_bits bit_take_bit_iff bit_unsigned_iff) (intro arg_cong [where f = length] filter_cong; auto simp: bit_take_bit_iff bit_unsigned_iff)
  have "unat x < 256" using unsigned_less [of x] by simp
  then have "drop_bit 4 (unat x) < 16" by (simp add: drop_bit_eq_div)
  then have h: "nibble_count ! unat (drop_bit 4 x) = int (length (filter (\<lambda>k. bit x (4 + k)) [0..<4]))"
    by (simp add: hi nibble_count_bits bit_drop_bit_eq bit_unsigned_iff cong: filter_cong)
  have "[0..<8] = [0..<4] @ map ((+) 4) [0..<4]" by (simp add: upt_rec)
  then have "length (filter (bit x) [0..<8]) =
      length (filter (bit x) [0..<4]) + length (filter (\<lambda>k. bit x (4 + k)) [0..<4])"
    by (simp only: filter_append length_append filter_map length_map o_def)
  then show ?thesis by (simp only: l h popcount_def of_nat_add)
qed

lemma bit_count_loop_eq: "bit_count_loop xs acc = acc + sum_list (map popcount xs)"
  by (induction xs arbitrary: acc) (auto simp: nibble_count_popcount)

lemma popcount_card: "popcount x = int (card {k. k < 8 \<and> bit x k})"
proof -
  have "{k. k < 8 \<and> bit x k} = set (filter (bit x) [0..<8])" by auto
  then show ?thesis by (simp add: popcount_def distinct_card del: set_filter)
qed

lemma bytes_card:
  "int (card {n. n < 8 * length xs \<and> bit (xs ! (n div 8)) (n mod 8)}) = sum_list (map popcount xs)"
proof (induction xs rule: rev_induct)
  case Nil
  then show ?case by simp
next
  case (snoc x xs)
  let ?A = "{n. n < 8 * length xs \<and> bit (xs ! (n div 8)) (n mod 8)}"
  let ?B = "(\<lambda>k. 8 * length xs + k) ` {k. k < 8 \<and> bit x k}"
  have "{n. n < 8 * length (xs @ [x]) \<and> bit ((xs @ [x]) ! (n div 8)) (n mod 8)} = ?A \<union> ?B" (is "?L = _")
  proof (rule set_eqI)
    fix n
    show "n \<in> ?L \<longleftrightarrow> n \<in> ?A \<union> ?B"
    proof (cases "n < 8 * length xs")
      case True
      then show ?thesis by (auto simp: nth_append)
    next
      case False
      then obtain k where k: "n = 8 * length xs + k" by (metis le_add_diff_inverse not_less)
      then show ?thesis by (cases "k < 8") (auto simp: nth_append)
    qed
  qed
  moreover have "card (?A \<union> ?B) = card ?A + card ?B"
    by (rule card_Un_disjoint) auto
  moreover have "card ?B = card {k. k < 8 \<and> bit x k}"
    by (rule card_image) (auto simp: inj_on_def)
  ultimately show ?case using snoc.IH by (simp add: popcount_card)
qed

lemma bit_members_image:
  assumes "bit_wf b"
  shows "bit_members b = int ` {n. n < 8 * length (bit_data b) \<and> bit (bit_data b ! (n div 8)) (n mod 8)}"
    (is "_ = int ` ?N")
proof (rule set_eqI)
  fix i
  show "i \<in> bit_members b \<longleftrightarrow> i \<in> int ` ?N"
  proof
    assume "i \<in> bit_members b"
    then have i: "0 \<le> i" "i < bit_size b" "bit (bit_data b ! nat (i div 8)) (nat (i mod 8))"
      by (auto simp: bit_members_def bit_isset_iff)
    then have "nat (i div 8) = nat i div 8" "nat (i mod 8) = nat i mod 8"
      by (simp_all add: nat_div_distrib nat_mod_distrib)
    with bit_index_bound [OF assms, of i] i have "nat i div 8 < length (bit_data b)"
      and "bit (bit_data b ! (nat i div 8)) (nat i mod 8)" by simp_all
    moreover from this(1) have "nat i < 8 * length (bit_data b)"
      using div_less_iff_less_mult [of 8 "nat i" "length (bit_data b)"] by (simp add: mult.commute)
    ultimately have "nat i \<in> ?N" by (intro CollectI conjI)
    moreover have "i = int (nat i)" using i(1) by simp
    ultimately show "i \<in> int ` ?N" by (rule image_eqI [rotated])
  next
    assume "i \<in> int ` ?N"
    then obtain n where n: "i = int n" "n < 8 * length (bit_data b)" "bit (bit_data b ! (n div 8)) (n mod 8)"
      by auto
    have "int (8 * (n div 8) + n mod 8) < bit_size b"
    proof (rule ccontr)
      assume "\<not> int (8 * (n div 8) + n mod 8) < bit_size b"
      moreover have "n div 8 < length (bit_data b)" using n(2) by auto
      moreover have "n mod 8 < 8" by simp
      ultimately have "\<not> bit (bit_data b ! (n div 8)) (n mod 8)"
        using assms unfolding bit_wf_def by (metis linorder_not_less)
      with n(3) show False by simp
    qed
    moreover have "nat (int n div 8) = n div 8" "nat (int n mod 8) = n mod 8"
      by (simp_all add: nat_div_distrib nat_mod_distrib)
    ultimately show "i \<in> bit_members b"
      using n(1,3) by (simp add: bit_members_def bit_isset_iff)
  qed
qed

lemma bit_count_members: "bit_wf b \<Longrightarrow> bit_count (Some b) = int (card (bit_members b))"
  by (simp add: bit_count_loop_eq bit_members_image card_image bytes_card)
     (simp add: bit_wf_def)

section \<open>Properties\<close>

text \<open>A bit set behaves as a finite set of indices: setting and resetting an index insert and
  remove it (and do nothing outside the declared size), the padding bits stay zero, and the
  table-driven population count of the bytes is the cardinality of the set.\<close>

lemma bitset_refines_set:
  assumes "bit_wf b" and "0 \<le> i" and "i < bit_size b"
  shows "\<exists>s r. bit_set (Some b) i = Some s \<and> bit_reset (Some b) i = Some r
    \<and> bit_wf s \<and> bit_members s = insert i (bit_members b)
    \<and> bit_wf r \<and> bit_members r = bit_members b - {i}
    \<and> bit_count (Some s) = int (card (insert i (bit_members b)))
    \<and> bit_count (Some r) = int (card (bit_members b - {i}))"
proof -
  obtain s r where s: "bit_set (Some b) i = Some s" and r: "bit_reset (Some b) i = Some r"
    using assms by (simp add: Let_def)
  show ?thesis
    using s r bit_set_wf [OF assms s] bit_reset_wf [OF assms r]
      bit_set_members [OF assms s] bit_reset_members [OF assms r]
    by (simp add: bit_count_members del: bit_count.simps)
qed

lemma bitset_refines_set_witness:
  "\<exists>b s r. bit_create True True 10 = Some b \<and> bit_set (Some b) 9 = Some s \<and> bit_reset (Some b) 9 = Some r
    \<and> bit_members s = insert 9 (bit_members b) \<and> bit_count (Some s) = int (card (insert 9 (bit_members b)))"
proof -
  obtain b where b: "bit_create True True 10 = Some b" and wf: "bit_wf b" and sz: "bit_size b = 10"
    using bit_create_wf [of True True 10] by (auto simp: bit_create_def Let_def BIT_BYTES_eq)
  show ?thesis using bitset_refines_set [OF wf, of 9] b sz by auto
qed

end
