(* ===== verification/Base_Buffer.thy ===== *)
theory Base_Buffer
  imports Prelude
begin

text \<open>
  \<^verbatim>\<open>base/buffer.c\<close>: the linear byte buffer of a connection.  Bytes between \<open>read_pos\<close> and
  \<open>write_pos\<close> are pending; when \<open>read_pos\<close> passes half of the buffer they are moved to the
  front with \<^verbatim>\<open>memcpy\<close>, whose source and destination must not overlap.  The locale
  \<open>byte_fifo\<close> states what the connections rely on; the buffer is its instance.
\<close>

section \<open>State and operations\<close>

record buffer_t =
  b_mem :: "u8 list"
  b_size :: int
  b_read :: int
  b_write :: int
  b_drift :: int

definition buffer_create :: "bool \<Rightarrow> int \<Rightarrow> (int \<Rightarrow> u8 list option) \<Rightarrow> buffer_t option option" where
  \<comment> \<open>\<open>malloc_func\<close> gives the memory block (of unknown contents) or fails\<close>
  "buffer_create ok sz malloc_func =
     (if sz \<le> 0 then Some None
      else do {
        c_assert ok;
        m \<leftarrow> malloc_func sz;
        Some (Some \<lparr>b_mem = m, b_size = sz, b_read = 0, b_write = 0, b_drift = sz div 2\<rparr>) })"

fun buffer_read_len :: "buffer_t option \<Rightarrow> int" where
  "buffer_read_len None = -1"
| "buffer_read_len (Some cb) = (if b_write cb > b_read cb then b_write cb - b_read cb else 0)"

fun buffer_write_len :: "buffer_t option \<Rightarrow> int" where
  "buffer_write_len None = -1"
| "buffer_write_len (Some cb) = b_size cb - b_write cb"

definition buffer_drift :: "buffer_t \<Rightarrow> buffer_t option" where
  \<comment> \<open>the shift at the end of \<^verbatim>\<open>buffer_read_nocopy\<close>; \<^verbatim>\<open>memcpy\<close> needs disjoint blocks\<close>
  "buffer_drift cb =
     (if b_read cb > b_drift cb then do {
        let n = nat (b_write cb - b_read cb);
        c_assert (n \<le> nat (b_read cb));
        shift \<leftarrow> rd_n (b_mem cb) (nat (b_read cb)) n;
        m \<leftarrow> blit (b_mem cb) 0 shift;
        Some (cb\<lparr>b_mem := m, b_write := b_write cb - b_read cb, b_read := 0\<rparr>) }
      else Some cb)"

function buffer_read_nocopy :: "buffer_t option \<Rightarrow> int \<Rightarrow> (buffer_t option \<times> int) option" where
  "buffer_read_nocopy cb len =
     (case cb of None \<Rightarrow> Some (None, -1)
      | Some b \<Rightarrow>
        if len < 0 then Some (cb, -1)
        else if len > buffer_read_len cb then buffer_read_nocopy cb (buffer_read_len cb)
        else do {
          let b1 = b\<lparr>b_read := b_read b + len\<rparr>;
          c_assert (b_write b1 \<ge> b_read b1);
          b2 \<leftarrow> buffer_drift b1;
          Some (Some b2, len) })"
  by pat_completeness auto
termination
  by (relation "measure (\<lambda>(cb, len). nat (len - buffer_read_len cb))") auto

function buffer_read :: "buffer_t option \<Rightarrow> bool \<Rightarrow> int \<Rightarrow> (buffer_t option \<times> u8 list \<times> int) option" where
  \<comment> \<open>\<open>dest\<close>: the destination is not \<open>NULL\<close>; the bytes it receives are in the result\<close>
  "buffer_read cb dest len =
     (case cb of None \<Rightarrow> Some (None, [], -1)
      | Some b \<Rightarrow>
        if \<not> dest \<or> len < 0 then Some (cb, [], -1)
        else if len = 0 then Some (cb, [], 0)
        else if len > buffer_read_len cb then buffer_read cb dest (buffer_read_len cb)
        else do {
          bytes \<leftarrow> rd_n (b_mem b) (nat (b_read b)) (nat len);
          (cb', r) \<leftarrow> buffer_read_nocopy cb len;
          Some (cb', bytes, r) })"
  by pat_completeness auto
termination
  by (relation "measure (\<lambda>(cb, dest, len). nat (len - buffer_read_len cb))") auto

function buffer_peek :: "buffer_t option \<Rightarrow> bool \<Rightarrow> int \<Rightarrow> (u8 list \<times> int) option" where
  "buffer_peek cb dest len =
     (case cb of None \<Rightarrow> Some ([], -1)
      | Some b \<Rightarrow>
        if len < 0 \<or> \<not> dest then Some ([], -1)
        else if len = 0 then Some ([], 0)
        else if len > buffer_read_len cb then buffer_peek cb dest (buffer_read_len cb)
        else do {
          bytes \<leftarrow> rd_n (b_mem b) (nat (b_read b)) (nat len);
          Some (bytes, len) })"
  by pat_completeness auto
termination
  by (relation "measure (\<lambda>(cb, dest, len). nat (len - buffer_read_len cb))") auto

function buffer_write_nocopy :: "buffer_t option \<Rightarrow> int \<Rightarrow> (buffer_t option \<times> int) option" where
  "buffer_write_nocopy cb len =
     (if buffer_write_len cb < len then buffer_write_nocopy cb (buffer_write_len cb)
      else if len < 0 then Some (cb, -1)
      else (case cb of None \<Rightarrow> None
        | Some b \<Rightarrow> do {
            let b1 = b\<lparr>b_write := b_write b + len\<rparr>;
            c_assert (b_write b1 \<le> b_size b1);
            Some (Some b1, len) }))"
  by pat_completeness auto
termination
  by (relation "measure (\<lambda>(cb, len). nat (len - buffer_write_len cb))") auto

function buffer_write :: "buffer_t option \<Rightarrow> u8 list option \<Rightarrow> int \<Rightarrow> (buffer_t option \<times> int) option" where
  \<comment> \<open>\<open>src\<close>: \<open>None\<close> is \<open>NULL\<close>; \<open>len\<close> may not exceed the block it points to\<close>
  "buffer_write cb src len =
     (case (cb, src) of
        (Some b, Some s) \<Rightarrow>
          if len < 0 then Some (cb, -1)
          else if len = 0 then Some (cb, 0)
          else if buffer_write_len cb < len then buffer_write cb src (buffer_write_len cb)
          else do {
            bytes \<leftarrow> rd_n s 0 (nat len);
            m \<leftarrow> blit (b_mem b) (nat (b_write b)) bytes;
            buffer_write_nocopy (Some (b\<lparr>b_mem := m\<rparr>)) len }
      | _ \<Rightarrow> Some (cb, -1))"
  by pat_completeness auto
termination
  by (relation "measure (\<lambda>(cb, src, len). nat (len - buffer_write_len cb))") auto

fun buffer_reset :: "buffer_t option \<Rightarrow> buffer_t option \<times> int" where
  "buffer_reset None = (None, -1)"
| "buffer_reset (Some cb) = (Some (cb\<lparr>b_read := 0, b_write := 0\<rparr>), 0)"

declare buffer_read_nocopy.simps [simp del] buffer_read.simps [simp del] buffer_peek.simps [simp del]
  buffer_write_nocopy.simps [simp del] buffer_write.simps [simp del]

section \<open>The pending bytes\<close>

definition buffer_inv :: "buffer_t \<Rightarrow> bool" where
  "buffer_inv b \<longleftrightarrow> 0 \<le> b_read b \<and> b_read b \<le> b_drift b \<and> b_read b \<le> b_write b \<and> b_write b \<le> b_size b
     \<and> b_size b = int (length (b_mem b)) \<and> b_drift b = b_size b div 2 \<and> 0 < b_size b"

definition buffer_content :: "buffer_t \<Rightarrow> u8 list" where
  "buffer_content b = take (nat (b_write b - b_read b)) (drop (nat (b_read b)) (b_mem b))"

lemma buffer_content_nat:
  "0 \<le> b_read b \<Longrightarrow> buffer_content b = take (nat (b_write b) - nat (b_read b)) (drop (nat (b_read b)) (b_mem b))"
  unfolding buffer_content_def by (rule arg_cong [where f = "\<lambda>n. take n _"]) arith

lemma take_drop_written:
  "r \<le> w \<Longrightarrow> w \<le> length m \<Longrightarrow>
     take (w + length xs - r) (drop r (take w m @ xs @ ys)) = take (w - r) (drop r m) @ xs"
  by (simp add: drop_take)

lemma length_buffer_content:
  "buffer_inv b \<Longrightarrow> int (length (buffer_content b)) = b_write b - b_read b"
  by (auto simp: buffer_inv_def buffer_content_def)

lemma buffer_read_len_content:
  "buffer_inv b \<Longrightarrow> buffer_read_len (Some b) = int (length (buffer_content b))"
  by (simp add: length_buffer_content) (auto simp: buffer_inv_def)

lemma buffer_create_inv:
  assumes "buffer_create ok sz malloc_func = Some (Some b)"
    and "\<And>n m. malloc_func n = Some m \<Longrightarrow> length m = nat n"
  shows "buffer_inv b \<and> buffer_content b = []"
  using assms by (auto simp: buffer_create_def bind_eq_Some_conv buffer_inv_def buffer_content_def split: if_splits)

text \<open>Half the size is enough for the shift: what is pending then fits in front of it.\<close>

lemma buffer_drift_ok:
  assumes "0 \<le> b_read b" "b_read b \<le> b_write b" "b_write b \<le> b_size b"
    "b_size b = int (length (b_mem b))" "b_drift b = b_size b div 2" "0 < b_size b"
  shows "\<exists>b'. buffer_drift b = Some b' \<and> buffer_inv b' \<and> buffer_content b' = buffer_content b \<and> b_size b' = b_size b"
proof (cases "b_read b > b_drift b")
  case False
  then show ?thesis using assms by (auto simp: buffer_drift_def buffer_inv_def)
next
  case True
  let ?n = "nat (b_write b - b_read b)"
  have n: "?n \<le> nat (b_read b)" using assms True by (simp; linarith)
  moreover have "nat (b_read b) + ?n \<le> length (b_mem b)" using assms by linarith
  moreover have "length (take ?n (drop (nat (b_read b)) (b_mem b))) = ?n" using assms by (auto; linarith)
  ultimately show ?thesis
    using assms True by (auto simp: buffer_drift_def Let_def rd_n_def blit_def buffer_inv_def buffer_content_def)
qed

lemma buffer_read_nocopy_ok:
  assumes "buffer_inv b" "0 \<le> len"
  shows "\<exists>b'. buffer_read_nocopy (Some b) len = Some (Some b', min len (int (length (buffer_content b))))
    \<and> buffer_inv b' \<and> buffer_content b' = drop (nat len) (buffer_content b) \<and> b_size b' = b_size b"
proof -
  have direct: "\<exists>b'. buffer_read_nocopy (Some b) l = Some (Some b', l)
      \<and> buffer_inv b' \<and> buffer_content b' = drop (nat l) (buffer_content b) \<and> b_size b' = b_size b"
    if l: "0 \<le> l" "l \<le> int (length (buffer_content b))" for l
  proof -
    let ?b = "b\<lparr>b_read := b_read b + l\<rparr>"
    have lw: "l \<le> b_write b - b_read b" using l(2) length_buffer_content [OF assms(1)] by simp
    have "buffer_content ?b = drop (nat l) (buffer_content b)"
      using l(1) lw assms(1)
      by (simp add: buffer_content_nat buffer_inv_def drop_take nat_add_distrib add.commute)
    moreover obtain b' where "buffer_drift ?b = Some b'" "buffer_inv b'" "buffer_content b' = buffer_content ?b"
        "b_size b' = b_size b"
      using buffer_drift_ok [of ?b] l(1) lw assms(1) by (auto simp: buffer_inv_def)
    ultimately show ?thesis
      using l lw buffer_read_len_content [OF assms(1)]
      by (subst buffer_read_nocopy.simps) (simp add: Let_def not_less)
  qed
  show ?thesis
  proof (cases "len \<le> int (length (buffer_content b))")
    case True
    then show ?thesis using direct [OF assms(2)] by (simp add: min_def)
  next
    case False
    then have "buffer_read_nocopy (Some b) len = buffer_read_nocopy (Some b) (int (length (buffer_content b)))"
      using buffer_read_len_content [OF assms(1)] assms(2) by (subst buffer_read_nocopy.simps) simp
    then show ?thesis using direct [of "int (length (buffer_content b))"] False by (simp add: min_def)
  qed
qed

lemma buffer_read_ok:
  assumes "buffer_inv b" "0 \<le> len"
  shows "\<exists>b'. buffer_read (Some b) True len =
      Some (Some b', take (nat len) (buffer_content b), min len (int (length (buffer_content b))))
    \<and> buffer_inv b' \<and> buffer_content b' = drop (nat len) (buffer_content b)"
proof -
  let ?c = "buffer_content b"
  have direct: "\<exists>b'. buffer_read (Some b) True l = Some (Some b', take (nat l) ?c, l)
      \<and> buffer_inv b' \<and> buffer_content b' = drop (nat l) ?c"
    if l: "0 \<le> l" "l \<le> int (length ?c)" for l
  proof (cases "l = 0")
    case True
    then show ?thesis using assms by (subst buffer_read.simps) simp
  next
    case False
    have lw: "l \<le> b_write b - b_read b" using l(2) length_buffer_content [OF assms(1)] by simp
    obtain b' where b': "buffer_read_nocopy (Some b) l = Some (Some b', l)" "buffer_inv b'"
        "buffer_content b' = drop (nat l) ?c"
      using buffer_read_nocopy_ok [OF assms(1) l(1)] l(2) by (auto simp: min_def)
    have "rd_n (b_mem b) (nat (b_read b)) (nat l) = Some (take (nat l) ?c)"
      using l(1) lw assms(1) by (auto simp: rd_n_def buffer_content_def buffer_inv_def min_def)
    with b' l False show ?thesis
      using buffer_read_len_content [OF assms(1)] by (subst buffer_read.simps) simp
  qed
  show ?thesis
  proof (cases "len \<le> int (length ?c)")
    case True
    then show ?thesis using direct [OF assms(2)] by (simp add: min_def)
  next
    case False
    then have "buffer_read (Some b) True len = buffer_read (Some b) True (int (length ?c))"
      using buffer_read_len_content [OF assms(1)] assms(2) by (subst buffer_read.simps) simp
    then show ?thesis using direct [of "int (length ?c)"] False by (simp add: min_def)
  qed
qed

lemma buffer_write_nocopy_ok:
  assumes "0 \<le> len" "len \<le> b_size b - b_write b"
  shows "buffer_write_nocopy (Some b) len = Some (Some (b\<lparr>b_write := b_write b + len\<rparr>), len)"
  using assms by (subst buffer_write_nocopy.simps) simp

lemma buffer_write_ok:
  assumes "buffer_inv b"
  shows "\<exists>b'. buffer_write (Some b) (Some s) (int (length s)) =
      Some (Some b', min (int (length s)) (buffer_write_len (Some b)))
    \<and> buffer_inv b' \<and> buffer_content b' = buffer_content b @ take (nat (buffer_write_len (Some b))) s
    \<and> b_size b' = b_size b \<and> b_write b' = b_write b + min (int (length s)) (buffer_write_len (Some b))"
proof -
  let ?r = "b_size b - b_write b"
  have direct: "\<exists>b'. buffer_write (Some b) (Some s) l = Some (Some b', l)
      \<and> buffer_inv b' \<and> buffer_content b' = buffer_content b @ take (nat l) s \<and> b_size b' = b_size b
      \<and> b_write b' = b_write b + l"
    if l: "0 \<le> l" "l \<le> ?r" "l \<le> int (length s)" for l
  proof (cases "l = 0")
    case True
    then show ?thesis using assms by (subst buffer_write.simps) simp
  next
    case False
    let ?m = "take (nat (b_write b)) (b_mem b) @ take (nat l) s @ drop (nat (b_write b) + nat l) (b_mem b)"
    let ?b = "b\<lparr>b_mem := ?m, b_write := b_write b + l\<rparr>"
    have fit: "nat (b_write b) + length (take (nat l) s) \<le> length (b_mem b)"
      using l assms by (auto simp: buffer_inv_def)
    have w: "buffer_write (Some b) (Some s) l = Some (Some ?b, l)"
      using l False fit buffer_write_nocopy_ok [of l "b\<lparr>b_mem := ?m\<rparr>"]
      by (subst buffer_write.simps) (simp add: rd_n_def blit_def)
    have pos: "0 \<le> b_read b" "0 \<le> b_write b" "nat (b_read b) \<le> nat (b_write b)"
      "nat (b_write b) \<le> length (b_mem b)" using assms by (auto simp: buffer_inv_def)
    have len: "length (take (nat l) s) = nat l" using l by auto
    have "take (nat (b_write b) + nat l - nat (b_read b)) (drop (nat (b_read b)) ?m) =
        take (nat (b_write b) - nat (b_read b)) (drop (nat (b_read b)) (b_mem b)) @ take (nat l) s"
      using take_drop_written [OF pos(3,4), of "take (nat l) s", unfolded len] .
    then have "buffer_content ?b = buffer_content b @ take (nat l) s"
      using pos(1,2) l(1) by (simp add: buffer_content_nat nat_add_distrib del: take_append drop_append)
    moreover have "buffer_inv ?b" using l assms by (auto simp: buffer_inv_def)
    ultimately show ?thesis using w by auto
  qed
  have room: "0 \<le> ?r" using assms by (auto simp: buffer_inv_def)
  show ?thesis
  proof (cases "int (length s) \<le> ?r")
    case True
    then show ?thesis using direct [of "int (length s)"] room by (simp add: min_def)
  next
    case False
    then have "buffer_write (Some b) (Some s) (int (length s)) = buffer_write (Some b) (Some s) ?r"
      using room by (subst buffer_write.simps) auto
    then show ?thesis using direct [of ?r] room False by (simp add: min_def)
  qed
qed

section \<open>The interface of a byte queue\<close>

text \<open>
  What the connections rely on: a bounded queue of bytes.  \<open>put\<close> accepts a prefix of what it is
  given, as much as there is room for, \<open>get\<close> takes a prefix of what is pending.
\<close>

locale byte_fifo =
  fixes inv :: "'b \<Rightarrow> bool"
    and content :: "'b \<Rightarrow> u8 list"
    and room :: "'b \<Rightarrow> int"
    and put :: "'b \<Rightarrow> u8 list \<Rightarrow> ('b \<times> int) option"
    and get :: "'b \<Rightarrow> int \<Rightarrow> ('b \<times> u8 list) option"
  assumes room_nonneg: "inv b \<Longrightarrow> 0 \<le> room b"
    and put_law: "inv b \<Longrightarrow> \<exists>b'. put b s = Some (b', min (int (length s)) (room b)) \<and> inv b'
       \<and> content b' = content b @ take (nat (room b)) s"
    and get_law: "inv b \<Longrightarrow> 0 \<le> n \<Longrightarrow> \<exists>b'. get b n = Some (b', take (nat n) (content b)) \<and> inv b'
       \<and> content b' = drop (nat n) (content b)"
begin

text \<open>A run of puts and gets: \<open>Inl s\<close> puts \<open>s\<close>, \<open>Inr n\<close> gets at most \<open>n\<close> bytes; the result
  collects the bytes that were accepted and the bytes that came out.\<close>

fun fifo_run :: "'b \<Rightarrow> (u8 list + nat) list \<Rightarrow> ('b \<times> u8 list \<times> u8 list) option" where
  "fifo_run b [] = Some (b, [], [])"
| "fifo_run b (Inl s # ops) = (case put b s of None \<Rightarrow> None
     | Some (b', n) \<Rightarrow> (case fifo_run b' ops of None \<Rightarrow> None
       | Some (b'', i, out) \<Rightarrow> Some (b'', take (nat n) s @ i, out)))"
| "fifo_run b (Inr n # ops) = (case get b (int n) of None \<Rightarrow> None
     | Some (b', got) \<Rightarrow> (case fifo_run b' ops of None \<Rightarrow> None
       | Some (b'', i, out) \<Rightarrow> Some (b'', i, got @ out)))"

lemma fifo_run_stream:
  assumes "inv b"
  shows "\<exists>b' i out. fifo_run b ops = Some (b', i, out) \<and> inv b' \<and> content b @ i = out @ content b'"
  using assms
proof (induction b ops rule: fifo_run.induct)
  case (1 b)
  then show ?case by simp
next
  case (2 b s ops)
  obtain b1 where b1: "put b s = Some (b1, min (int (length s)) (room b))" "inv b1"
      "content b1 = content b @ take (nat (room b)) s"
    using put_law [OF 2(2)] by blast
  have "take (nat (min (int (length s)) (room b))) s = take (nat (room b)) s"
    using room_nonneg [OF 2(2)] by (simp add: min_def)
  then show ?case using 2(1) [OF b1(1)] b1 by fastforce
next
  case (3 b n ops)
  obtain b1 where b1: "get b (int n) = Some (b1, take n (content b))" "inv b1" "content b1 = drop n (content b)"
    using get_law [OF 3(2), of "int n"] by auto
  then obtain b' i out where r: "fifo_run b1 ops = Some (b', i, out)" "inv b'" "content b1 @ i = out @ content b'"
    using 3(1) [OF b1(1)] by blast
  have "content b @ i = take n (content b) @ content b1 @ i" by (simp add: b1(3))
  with r b1 show ?case by auto
qed

end

definition buffer_put :: "buffer_t \<Rightarrow> u8 list \<Rightarrow> (buffer_t \<times> int) option" where
  "buffer_put b s = do { (cb, n) \<leftarrow> buffer_write (Some b) (Some s) (int (length s)); b' \<leftarrow> cb; Some (b', n) }"

definition buffer_get :: "buffer_t \<Rightarrow> int \<Rightarrow> (buffer_t \<times> u8 list) option" where
  "buffer_get b n = do { (cb, s, r) \<leftarrow> buffer_read (Some b) True n; b' \<leftarrow> cb; Some (b', s) }"

interpretation bf: byte_fifo buffer_inv buffer_content "\<lambda>b. buffer_write_len (Some b)" buffer_put buffer_get
proof unfold_locales
  fix b s
  assume "buffer_inv b"
  then show "0 \<le> buffer_write_len (Some b)" by (simp add: buffer_inv_def)
  show "\<exists>b'. buffer_put b s = Some (b', min (int (length s)) (buffer_write_len (Some b))) \<and> buffer_inv b'
       \<and> buffer_content b' = buffer_content b @ take (nat (buffer_write_len (Some b))) s"
    using buffer_write_ok [OF \<open>buffer_inv b\<close>, of s] by (auto simp: buffer_put_def)
next
  fix b n
  assume "buffer_inv b" "0 \<le> (n :: int)"
  then show "\<exists>b'. buffer_get b n = Some (b', take (nat n) (buffer_content b)) \<and> buffer_inv b'
       \<and> buffer_content b' = drop (nat n) (buffer_content b)"
    using buffer_read_ok [of b n] by (auto simp: buffer_get_def)
qed

section \<open>Properties\<close>

text \<open>C29: The connection buffer is a byte queue: whatever sequence of writes and reads is run on a
  well-formed buffer, no assertion fails, no access leaves the buffer and the half-size shift never
  copies between overlapping blocks, and the bytes read followed by the bytes still pending are the
  bytes that were pending at the start followed by the bytes the writes accepted.\<close>

theorem buffer_stream_integrity:
  assumes "buffer_inv b"
  shows "\<exists>b' accepted out. bf.fifo_run b ops = Some (b', accepted, out) \<and> buffer_inv b'
     \<and> buffer_content b @ accepted = out @ buffer_content b'"
  using bf.fifo_run_stream [OF assms] .

theorem buffer_stream_integrity_witness:
  "\<exists>b b' accepted out. buffer_create True 4 (\<lambda>n. Some (replicate (nat n) 9)) = Some (Some b)
     \<and> bf.fifo_run b [Inl [1, 2, 3], Inr 2, Inl [4, 5, 6], Inr 9] = Some (b', accepted, out)
     \<and> accepted = out @ buffer_content b'"
proof -
  obtain b where c: "buffer_create True 4 (\<lambda>n. Some (replicate (nat n) 9)) = Some (Some b)"
    by (simp add: buffer_create_def)
  then have "buffer_inv b" "buffer_content b = []" using buffer_create_inv [OF c] by auto
  then show ?thesis
    using buffer_stream_integrity [of b "[Inl [1, 2, 3], Inr 2, Inl [4, 5, 6], Inr 9]"] c by auto
qed

text \<open>A read returns the oldest pending bytes, as many as asked for or as there are, and a write
  stores as many bytes as there is room for; both report the count.\<close>

lemma buffer_read_write_spec:
  assumes "buffer_inv b" and "0 \<le> n"
  shows "\<exists>r w. buffer_read (Some b) True n =
        Some (Some r, take (nat n) (buffer_content b), min n (int (length (buffer_content b))))
     \<and> buffer_content r = drop (nat n) (buffer_content b) \<and> buffer_inv r
     \<and> buffer_write (Some b) (Some s) (int (length s)) =
        Some (Some w, min (int (length s)) (b_size b - b_write b))
     \<and> buffer_content w = buffer_content b @ take (nat (b_size b - b_write b)) s \<and> buffer_inv w"
  using buffer_read_ok [OF assms] buffer_write_ok [OF assms(1), of s] by fastforce

lemma buffer_read_write_spec_witness:
  "\<exists>b w. buffer_create True 4 (\<lambda>n. Some (replicate (nat n) 9)) = Some (Some b)
     \<and> buffer_write (Some b) (Some [1, 2, 3, 4, 5]) 5 = Some (Some w, 4)
     \<and> buffer_content w = [1, 2, 3, 4]"
proof -
  obtain b where c: "buffer_create True 4 (\<lambda>n. Some (replicate (nat n) 9)) = Some (Some b)"
    and sz: "b_size b = 4" "b_write b = 0"
    by (simp add: buffer_create_def)
  then have i: "buffer_inv b" "buffer_content b = []" using buffer_create_inv [OF c] by auto
  from buffer_read_write_spec [OF i(1), of 1 "[1, 2, 3, 4, 5]"] c i sz show ?thesis by auto
qed

end
