(* ===== verification/Base_Conhash.thy ===== *)
theory Base_Conhash
  imports Prelude
begin

text \<open>
  \<^verbatim>\<open>base/conhash.c\<close>: consistent hashing.  The nodes hang on an intrusive circular list kept in
  increasing order of their hash values; it is modelled by the list of its entries from the
  list head on.  \<open>conhash_minimal_disruption\<close> is what makes the hashing consistent.
\<close>

section \<open>State and operations\<close>

record 'n conhash_node_t =
  cn_data :: 'n
  cn_hash :: u32

record ('k, 'n) conhash_t =
  node_list :: "'n conhash_node_t list"
  key_hash :: "'k \<Rightarrow> u32"
  node_hash :: "'n \<Rightarrow> u32"

definition conhash_create :: "('k \<Rightarrow> u32) option \<Rightarrow> ('n \<Rightarrow> u32) option \<Rightarrow> bool \<Rightarrow> ('k, 'n) conhash_t option" where
  "conhash_create kh nh ok = (case (kh, nh) of
     (Some kh, Some nh) \<Rightarrow> if \<not> ok then None else Some \<lparr>node_list = [], key_hash = kh, node_hash = nh\<rparr>
   | _ \<Rightarrow> None)"

fun conhash_place :: "'n conhash_node_t \<Rightarrow> 'n conhash_node_t list \<Rightarrow> 'n conhash_node_t list option" where
  \<comment> \<open>the walk of \<^verbatim>\<open>conhash_add\<close>; \<open>None\<close> is an equal hash value\<close>
  "conhash_place new [] = Some [new]"
| "conhash_place new (n # ns) =
     (if cn_hash n = cn_hash new then None
      else if cn_hash n > cn_hash new then Some (new # n # ns)
      else map_option ((#) n) (conhash_place new ns))"

fun conhash_add :: "bool \<Rightarrow> ('k, 'n) conhash_t option \<Rightarrow> 'n option \<Rightarrow> (('k, 'n) conhash_t option \<times> int) option" where
  \<comment> \<open>the allocation of the node is not tested\<close>
  "conhash_add ok (Some ch) (Some node) = do {
     c_assert ok;
     Some (case conhash_place \<lparr>cn_data = node, cn_hash = node_hash ch node\<rparr> (node_list ch) of
       None \<Rightarrow> (Some ch, -1)
     | Some l \<Rightarrow> (Some (ch\<lparr>node_list := l\<rparr>), 0)) }"
| "conhash_add ok ch node = Some (ch, -1)"

fun conhash_unlink :: "u32 \<Rightarrow> 'n conhash_node_t list \<Rightarrow> 'n conhash_node_t list" where
  "conhash_unlink v [] = []"
| "conhash_unlink v (n # ns) = (if cn_hash n = v then ns else n # conhash_unlink v ns)"

fun conhash_erase :: "('k, 'n) conhash_t option \<Rightarrow> 'n option \<Rightarrow> ('k, 'n) conhash_t option" where
  "conhash_erase (Some ch) (Some node) = Some (ch\<lparr>node_list := conhash_unlink (node_hash ch node) (node_list ch)\<rparr>)"
| "conhash_erase ch node = ch"

fun conhash_seek :: "u32 \<Rightarrow> 'n conhash_node_t list \<Rightarrow> 'n option" where
  "conhash_seek v [] = None"
| "conhash_seek v (n # ns) = (if cn_hash n \<ge> v then Some (cn_data n) else conhash_seek v ns)"

fun conhash_node :: "('k, 'n) conhash_t option \<Rightarrow> 'k option \<Rightarrow> 'n option" where
  "conhash_node (Some ch) (Some key) =
     (case node_list ch of
        [] \<Rightarrow> None
      | n # _ \<Rightarrow> (case conhash_seek (key_hash ch key) (node_list ch) of
          Some d \<Rightarrow> Some d
        | None \<Rightarrow> Some (cn_data n)))"
| "conhash_node ch key = None"

section \<open>The ring\<close>

definition conhash_ok :: "('k, 'n) conhash_t \<Rightarrow> bool" where
  "conhash_ok ch \<longleftrightarrow> sorted_wrt (<) (map cn_hash (node_list ch)) \<and>
     (\<forall>n \<in> set (node_list ch). cn_hash n = node_hash ch (cn_data n))"

definition ring_owner :: "'n conhash_node_t list \<Rightarrow> u32 \<Rightarrow> 'n option" where
  "ring_owner l v = (case conhash_seek v l of Some d \<Rightarrow> Some d
     | None \<Rightarrow> (case l of [] \<Rightarrow> None | n # _ \<Rightarrow> Some (cn_data n)))"

lemma conhash_node_owner: "conhash_node (Some ch) (Some k) = ring_owner (node_list ch) (key_hash ch k)"
  by (auto simp: ring_owner_def split: list.split option.split)

declare conhash_node.simps [simp del]

lemma conhash_seek_append:
  "conhash_seek v (xs @ ys) = (case conhash_seek v xs of Some d \<Rightarrow> Some d | None \<Rightarrow> conhash_seek v ys)"
  by (induction xs) auto

lemma conhash_seek_None: "conhash_seek v l = None \<longleftrightarrow> (\<forall>n \<in> set l. cn_hash n < v)"
  by (induction l) auto

lemma ring_owner_insert:
  assumes "sorted_wrt (<) (map cn_hash (xs @ n # ys))"
  shows "ring_owner (xs @ n # ys) v = ring_owner (xs @ ys) v \<or> ring_owner (xs @ n # ys) v = Some (cn_data n)"
  by (cases xs) (auto simp: ring_owner_def conhash_seek_append split: option.splits list.splits)

lemma conhash_place_Some:
  "conhash_place new l = Some l' \<Longrightarrow> sorted_wrt (<) (map cn_hash l) \<Longrightarrow>
     \<exists>xs ys. l = xs @ ys \<and> l' = xs @ new # ys \<and> sorted_wrt (<) (map cn_hash l')"
proof (induction l arbitrary: l')
  case (Cons n ns)
  show ?case
  proof (cases "cn_hash n > cn_hash new")
    case True
    then have "l' = new # n # ns" using Cons.prems(1) by (auto split: if_splits)
    moreover have "sorted_wrt (<) (map cn_hash (new # n # ns))" using True Cons.prems(2) by auto
    ultimately show ?thesis by (intro exI [of _ "[]"] exI [of _ "n # ns"]) simp
  next
    case False
    with Cons.prems obtain l1 where l1: "conhash_place new ns = Some l1" "l' = n # l1" "cn_hash n < cn_hash new"
      by (auto split: if_splits)
    then obtain xs ys where "ns = xs @ ys" "l1 = xs @ new # ys" "sorted_wrt (<) (map cn_hash l1)"
      using Cons by auto
    then show ?thesis using l1 Cons.prems(2) by (intro exI [of _ "n # xs"] exI [of _ ys]) auto
  qed
qed simp

lemma conhash_place_None:
  "sorted_wrt (<) (map cn_hash l) \<Longrightarrow> conhash_place new l = None \<longleftrightarrow> cn_hash new \<in> cn_hash ` set l"
  by (induction l) auto

lemma conhash_unlink_split:
  "v \<in> cn_hash ` set l \<Longrightarrow> \<exists>xs n ys. l = xs @ n # ys \<and> cn_hash n = v \<and> conhash_unlink v l = xs @ ys"
proof (induction l)
  case (Cons a l)
  show ?case
  proof (cases "cn_hash a = v")
    case True
    then show ?thesis by (intro exI [of _ "[]"]) auto
  next
    case False
    with Cons obtain xs n ys where "l = xs @ n # ys" "cn_hash n = v" "conhash_unlink v l = xs @ ys" by auto
    then show ?thesis using False by (intro exI [of _ "a # xs"]) auto
  qed
qed simp

lemma conhash_unlink_none: "v \<notin> cn_hash ` set l \<Longrightarrow> conhash_unlink v l = l"
  by (induction l) auto

lemma conhash_create_ok: "conhash_create (Some kh) (Some nh) True = Some ch \<Longrightarrow> conhash_ok ch"
  by (auto simp: conhash_create_def conhash_ok_def)

text \<open>A key belongs to the node with the least hash value not below its own, or else to the node
  with the least hash value of all.\<close>

lemma conhash_node_successor:
  assumes "conhash_ok ch" "n \<in> set (node_list ch)" "key_hash ch k \<le> cn_hash n"
    and "\<And>m. m \<in> set (node_list ch) \<Longrightarrow> key_hash ch k \<le> cn_hash m \<Longrightarrow> cn_hash n \<le> cn_hash m"
  shows "conhash_node (Some ch) (Some k) = Some (cn_data n)"
proof -
  obtain xs ys where l: "node_list ch = xs @ n # ys" using assms(2) by (meson split_list)
  have "\<forall>m \<in> set xs. cn_hash m < cn_hash n" using assms(1) l by (auto simp: conhash_ok_def sorted_wrt_append)
  then have "\<forall>m \<in> set xs. cn_hash m < key_hash ch k"
    using assms(4) l by (metis Un_iff linorder_not_le set_append)
  then have "conhash_seek (key_hash ch k) xs = None" by (simp add: conhash_seek_None)
  then show ?thesis using assms(3) by (simp add: conhash_node_owner ring_owner_def l conhash_seek_append)
qed

lemma conhash_add_spec:
  assumes "conhash_ok ch"
  shows "\<exists>ch1 ret. conhash_add True (Some ch) (Some n) = Some (Some ch1, ret) \<and> conhash_ok ch1 \<and>
      (ret = -1 \<longleftrightarrow> node_hash ch n \<in> cn_hash ` set (node_list ch)) \<and>
      (\<forall>k. conhash_node (Some ch1) (Some k) = conhash_node (Some ch) (Some k) \<or>
           ret = 0 \<and> conhash_node (Some ch1) (Some k) = Some n)"
proof -
  let ?l = "node_list ch" and ?new = "\<lparr>cn_data = n, cn_hash = node_hash ch n\<rparr>"
  have s: "sorted_wrt (<) (map cn_hash ?l)" and h: "\<forall>n \<in> set ?l. cn_hash n = node_hash ch (cn_data n)"
    using assms by (auto simp: conhash_ok_def)
  show ?thesis
  proof (cases "conhash_place ?new ?l")
    case None
    then show ?thesis using assms conhash_place_None [OF s, of ?new] by auto
  next
    case (Some l)
    obtain xs ys where l: "?l = xs @ ys" "l = xs @ ?new # ys" "sorted_wrt (<) (map cn_hash l)"
      using conhash_place_Some [OF Some s] by auto
    have "ring_owner l v = ring_owner ?l v \<or> ring_owner l v = Some n" for v
      using ring_owner_insert [of xs ?new ys v] l by simp
    moreover have "conhash_ok (ch\<lparr>node_list := l\<rparr>)" using l h by (auto simp: conhash_ok_def)
    ultimately show ?thesis using Some conhash_place_None [OF s, of ?new] by (auto simp: conhash_node_owner)
  qed
qed

lemma conhash_erase_spec:
  assumes "conhash_ok ch"
  shows "\<exists>ch2. conhash_erase (Some ch) (Some n) = Some ch2 \<and> conhash_ok ch2 \<and>
      node_hash ch n \<notin> cn_hash ` set (node_list ch2) \<and>
      (\<forall>k m. conhash_node (Some ch) (Some k) = Some m \<longrightarrow> node_hash ch m \<noteq> node_hash ch n \<longrightarrow>
         conhash_node (Some ch2) (Some k) = Some m)"
proof -
  let ?l = "node_list ch" and ?new = "\<lparr>cn_data = n, cn_hash = node_hash ch n\<rparr>"
  have s: "sorted_wrt (<) (map cn_hash ?l)" and h: "\<forall>n \<in> set ?l. cn_hash n = node_hash ch (cn_data n)"
    using assms by (auto simp: conhash_ok_def)
  show ?thesis
  proof (cases "node_hash ch n \<in> cn_hash ` set ?l")
    case False
    then show ?thesis using assms by (auto simp: conhash_unlink_none)
  next
    case True
    then obtain xs e ys where l: "?l = xs @ e # ys" "cn_hash e = node_hash ch n"
      "conhash_unlink (node_hash ch n) ?l = xs @ ys"
      using conhash_unlink_split by metis
    have "ring_owner (xs @ ys) v = Some m"
      if "ring_owner ?l v = Some m" "node_hash ch m \<noteq> node_hash ch n" for v m
      using ring_owner_insert [of xs e ys v] s l h that by auto
    moreover have "conhash_ok (ch\<lparr>node_list := xs @ ys\<rparr>)" using l s h by (auto simp: conhash_ok_def sorted_wrt_append)
    moreover have "cn_hash e \<notin> cn_hash ` set (xs @ ys)" using s l(1) by (auto simp: sorted_wrt_append)
    ultimately show ?thesis using l by (auto simp: conhash_node_owner)
  qed
qed

text \<open>C33: adding a node keeps the ring sorted and moves keys only to the new node, and it is refused
  exactly when a node of the same hash value is there; erasing moves only keys of the nodes
  with the erased hash value.\<close>
theorem conhash_minimal_disruption:
  assumes "conhash_ok ch"
  shows "(\<exists>ch1 ret. conhash_add True (Some ch) (Some n) = Some (Some ch1, ret) \<and> conhash_ok ch1 \<and>
      (ret = -1 \<longleftrightarrow> node_hash ch n \<in> cn_hash ` set (node_list ch)) \<and>
      (\<forall>k. conhash_node (Some ch1) (Some k) = conhash_node (Some ch) (Some k) \<or>
           ret = 0 \<and> conhash_node (Some ch1) (Some k) = Some n)) \<and>
    (\<exists>ch2. conhash_erase (Some ch) (Some n) = Some ch2 \<and> conhash_ok ch2 \<and>
      node_hash ch n \<notin> cn_hash ` set (node_list ch2) \<and>
      (\<forall>k m. conhash_node (Some ch) (Some k) = Some m \<longrightarrow> node_hash ch m \<noteq> node_hash ch n \<longrightarrow>
         conhash_node (Some ch2) (Some k) = Some m))"
  using conhash_add_spec [OF assms] conhash_erase_spec [OF assms] by blast

definition ring_example :: "(nat, u32) conhash_t" where
  "ring_example = \<lparr>node_list = [\<lparr>cn_data = 10, cn_hash = 10\<rparr>, \<lparr>cn_data = 40, cn_hash = 40\<rparr>],
     key_hash = word_of_nat, node_hash = \<lambda>n. n\<rparr>"

lemma conhash_minimal_disruption_witness:
  "(\<exists>ch1 ret. conhash_add True (Some ring_example) (Some 20) = Some (Some ch1, ret) \<and> conhash_ok ch1 \<and>
      (ret = -1 \<longleftrightarrow> node_hash ring_example 20 \<in> cn_hash ` set (node_list ring_example)) \<and>
      (\<forall>k. conhash_node (Some ch1) (Some k) = conhash_node (Some ring_example) (Some k) \<or>
           ret = 0 \<and> conhash_node (Some ch1) (Some k) = Some 20)) \<and>
    (\<exists>ch2. conhash_erase (Some ring_example) (Some 20) = Some ch2 \<and> conhash_ok ch2 \<and>
      node_hash ring_example 20 \<notin> cn_hash ` set (node_list ch2) \<and>
      (\<forall>k m. conhash_node (Some ring_example) (Some k) = Some m \<longrightarrow> node_hash ring_example m \<noteq> node_hash ring_example 20 \<longrightarrow>
         conhash_node (Some ch2) (Some k) = Some m))"
  by (rule conhash_minimal_disruption) (simp add: ring_example_def conhash_ok_def)

end
