(* ===== verification/Base_Hash.thy ===== *)
theory Base_Hash
  imports Prelude
begin

text \<open>
  \<^verbatim>\<open>base/hash.c\<close>: the chained hash table and the Jenkins hash.  A bucket is the list of the
  data of its chain, from the head.  The two function pointers of the table are fields of the
  record; a null data pointer is \<open>None\<close>.  The contract that the callers' functions have to
  meet, comparison an equivalence that the hash respects, is the locale \<open>hash_element\<close>.
\<close>

section \<open>State and operations\<close>

record 'd hash_t =
  m_size :: int
  m_count :: int
  m_hash_func :: "'d \<Rightarrow> u32"
  m_cmp_func :: "'d \<Rightarrow> 'd \<Rightarrow> int"
  m_table :: "'d list list"

definition hash_create :: "('d \<Rightarrow> u32) option \<Rightarrow> ('d \<Rightarrow> 'd \<Rightarrow> int) option \<Rightarrow> int \<Rightarrow> bool \<Rightarrow> bool \<Rightarrow> 'd hash_t option" where
  "hash_create h c hint_size ok1 ok2 =
     (case (h, c) of
        (Some h, Some c) \<Rightarrow>
          if hint_size \<le> 0 then None
          else if \<not> ok1 then None
          else if \<not> ok2 then None
          else Some \<lparr>m_size = hint_size, m_count = 0, m_hash_func = h, m_cmp_func = c,
                     m_table = replicate (nat hint_size) []\<rparr>
      | _ \<Rightarrow> None)"

definition hash_index :: "'d hash_t \<Rightarrow> 'd \<Rightarrow> nat" where
  \<comment> \<open>\<open>m_size\<close> is converted to unsigned for the remainder\<close>
  "hash_index t d = unat (m_hash_func t d mod word_of_int (m_size t))"

fun chain_find :: "('d \<Rightarrow> 'd \<Rightarrow> int) \<Rightarrow> 'd list \<Rightarrow> 'd \<Rightarrow> 'd option" where
  "chain_find cmp [] d = None"
| "chain_find cmp (x # xs) d = (if cmp x d = 0 then Some x else chain_find cmp xs d)"

fun hash_clean :: "'d hash_t option \<Rightarrow> 'd hash_t option \<times> int" where
  "hash_clean None = (None, -1)"
| "hash_clean (Some t) = (Some (t\<lparr>m_table := map (\<lambda>_. []) (m_table t)\<rparr>), 0)"

fun hash_loop :: "'d hash_t option \<Rightarrow> ('d \<Rightarrow> 's \<Rightarrow> 's) option \<Rightarrow> 's \<Rightarrow> 's \<times> int" where
  \<comment> \<open>the callback's effect on its argument is threaded through the buckets in index order\<close>
  "hash_loop (Some t) (Some f) s = (fold (\<lambda>chain. fold f chain) (m_table t) s, 0)"
| "hash_loop _ _ s = (s, -1)"

fun hash_insert :: "bool \<Rightarrow> 'd hash_t option \<Rightarrow> 'd option \<Rightarrow> ('d hash_t option \<times> int) option" where
  "hash_insert ok (Some t) (Some d) = do {
     let index = hash_index t d;
     chain \<leftarrow> rd (m_table t) index;
     if chain_find (m_cmp_func t) chain d \<noteq> None then Some (Some t, -1)
     else if \<not> ok then Some (Some t, -1)
     else do {
       tab \<leftarrow> wr (m_table t) index (chain @ [d]);
       Some (Some (t\<lparr>m_table := tab, m_count := m_count t + 1\<rparr>), 0) } }"
| "hash_insert ok t d = Some (t, -1)"

fun chain_remove :: "('d \<Rightarrow> 'd \<Rightarrow> int) \<Rightarrow> bool \<Rightarrow> 'd list \<Rightarrow> 'd \<Rightarrow> ('d list \<times> 'd) option" where
  \<comment> \<open>\<open>first\<close>: no node precedes; the bucket pointer is then cleared, which drops what follows\<close>
  "chain_remove cmp first [] d = None"
| "chain_remove cmp first (x # xs) d =
     (if cmp x d = 0 then Some (if first then [] else xs, x)
      else map_option (\<lambda>(ys, r). (x # ys, r)) (chain_remove cmp False xs d))"

fun hash_remove :: "'d hash_t option \<Rightarrow> 'd option \<Rightarrow> ('d hash_t option \<times> 'd option) option" where
  "hash_remove (Some t) (Some d) = do {
     let index = hash_index t d;
     chain \<leftarrow> rd (m_table t) index;
     (case chain_remove (m_cmp_func t) True chain d of
        None \<Rightarrow> Some (Some t, None)
      | Some (chain', r) \<Rightarrow> do {
          tab \<leftarrow> wr (m_table t) index chain';
          Some (Some (t\<lparr>m_table := tab, m_count := m_count t - 1\<rparr>), Some r) }) }"
| "hash_remove t d = Some (t, None)"

fun hash_count :: "'d hash_t option \<Rightarrow> int" where
  "hash_count None = -1"
| "hash_count (Some t) = m_count t"

fun hash_find :: "'d hash_t option \<Rightarrow> 'd option \<Rightarrow> 'd option option" where
  "hash_find (Some t) (Some d) = do {
     chain \<leftarrow> rd (m_table t) (hash_index t d);
     Some (chain_find (m_cmp_func t) chain d) }"
| "hash_find t d = Some None"

section \<open>The contract of the callers' functions\<close>

fun distinct_wrt :: "('d \<Rightarrow> 'd \<Rightarrow> int) \<Rightarrow> 'd list \<Rightarrow> bool" where
  "distinct_wrt cmp [] \<longleftrightarrow> True"
| "distinct_wrt cmp (x # xs) \<longleftrightarrow> (\<forall>y \<in> set xs. cmp x y \<noteq> 0) \<and> distinct_wrt cmp xs"

definition hash_wf :: "'d hash_t \<Rightarrow> bool" where
  "hash_wf t \<longleftrightarrow> 0 < m_size t \<and> m_size t < 2 ^ 31 \<and> length (m_table t) = nat (m_size t)"

definition hash_ok :: "'d hash_t \<Rightarrow> bool" where
  \<comment> \<open>every datum is in its own bucket, no chain holds two equal ones, and the count is right\<close>
  "hash_ok t \<longleftrightarrow> hash_wf t
     \<and> (\<forall>i < length (m_table t). \<forall>x \<in> set (m_table t ! i). hash_index t x = i)
     \<and> (\<forall>i < length (m_table t). distinct_wrt (m_cmp_func t) (m_table t ! i))
     \<and> m_count t = int (sum_list (map length (m_table t)))"

definition hash_lookup :: "'d hash_t \<Rightarrow> 'd \<Rightarrow> 'd option" where
  \<comment> \<open>the abstract table: the stored datum equal to a probe\<close>
  "hash_lookup t d = chain_find (m_cmp_func t) (m_table t ! hash_index t d) d"

lemma hash_index_bound:
  assumes "hash_wf t"
  shows "hash_index t d < length (m_table t)"
proof -
  have u: "unat (word_of_int (m_size t) :: u32) = nat (m_size t)"
    using assms by (simp add: hash_wf_def unsigned_of_int take_bit_int_eq_self)
  then have "hash_index t d = unat (m_hash_func t d) mod nat (m_size t)"
    by (simp add: hash_index_def unat_mod_distrib)
  then show ?thesis using assms by (simp add: hash_wf_def)
qed

lemma hash_find_lookup:
  assumes "hash_wf t"
  shows "hash_find (Some t) (Some d) = Some (hash_lookup t d)"
  using hash_index_bound [OF assms] by (simp add: hash_lookup_def)

lemma chain_find_append:
  "chain_find cmp (xs @ [d]) e =
     (case chain_find cmp xs e of Some x \<Rightarrow> Some x | None \<Rightarrow> if cmp d e = 0 then Some d else None)"
  by (induction xs) auto

lemma chain_find_None: "chain_find cmp xs d = None \<longleftrightarrow> (\<forall>x \<in> set xs. cmp x d \<noteq> 0)"
  by (induction xs) auto

lemma chain_find_Some: "chain_find cmp xs d = Some x \<Longrightarrow> x \<in> set xs \<and> cmp x d = 0"
  by (induction xs) (auto split: if_splits)

lemma distinct_wrt_append:
  "distinct_wrt cmp (xs @ [d]) \<longleftrightarrow> distinct_wrt cmp xs \<and> (\<forall>x \<in> set xs. cmp x d \<noteq> 0)"
  by (induction xs) auto

lemma chain_remove_spec:
  "chain_remove cmp first xs d = (case xs of [] \<Rightarrow> None
     | x # ys \<Rightarrow> if cmp x d = 0 then Some (if first then [] else ys, x)
       else map_option (\<lambda>(zs, r). (x # zs, r)) (chain_remove cmp False ys d))"
  by (cases xs) auto

lemma chain_remove_None: "chain_remove cmp b xs d = None \<longleftrightarrow> chain_find cmp xs d = None"
  by (induction xs arbitrary: b) auto

lemma sum_list_update_len:
  "i < length xs \<Longrightarrow>
     int (sum_list (map length (xs[i := ys]))) = int (sum_list (map length xs)) - int (length (xs ! i)) + int (length ys)"
proof (induction xs arbitrary: i)
  case (Cons x xs)
  then show ?case by (cases i) auto
qed simp

locale hash_element =
  fixes hash :: "'d \<Rightarrow> u32" and cmp :: "'d \<Rightarrow> 'd \<Rightarrow> int"
  assumes cmp_refl: "cmp x x = 0"
    and cmp_sym: "cmp x y = 0 \<Longrightarrow> cmp y x = 0"
    and cmp_trans: "cmp x y = 0 \<Longrightarrow> cmp y z = 0 \<Longrightarrow> cmp x z = 0"
    and hash_cmp: "cmp x y = 0 \<Longrightarrow> hash x = hash y"
begin

definition uses :: "'d hash_t \<Rightarrow> bool" where
  "uses t \<longleftrightarrow> hash_ok t \<and> m_hash_func t = hash \<and> m_cmp_func t = cmp"

lemma index_cmp: "uses t \<Longrightarrow> cmp x y = 0 \<Longrightarrow> hash_index t x = hash_index t y"
  using hash_cmp [of x y] by (simp add: uses_def hash_index_def)

lemma create_uses:
  assumes "0 < sz" "sz < 2 ^ 31"
  obtains t where "hash_create (Some hash) (Some cmp) sz True True = Some t" "uses t"
    "\<And>d. hash_lookup t d = None"
proof -
  let ?t = "\<lparr>m_size = sz, m_count = 0, m_hash_func = hash, m_cmp_func = cmp, m_table = replicate (nat sz) []\<rparr>"
  have wf: "hash_wf ?t" using assms by (simp add: hash_wf_def)
  have "hash_lookup ?t d = None" for d
    using hash_index_bound [OF wf, of d] by (simp add: hash_lookup_def)
  moreover have "uses ?t" using wf by (simp add: uses_def hash_ok_def sum_list_replicate)
  ultimately show thesis using that assms by (simp add: hash_create_def)
qed

lemma insert_spec:
  assumes "uses t"
  obtains t' ret where "hash_insert True (Some t) (Some d) = Some (Some t', ret)" "uses t'"
    "ret = (if hash_lookup t d = None then 0 else -1)"
    "\<And>e. hash_lookup t' e = (if hash_lookup t d = None \<and> cmp d e = 0 then Some d else hash_lookup t e)"
    "m_count t' = m_count t + (if hash_lookup t d = None then 1 else 0)"
proof -
  let ?i = "hash_index t d" and ?n = "length (m_table t)"
  have ok: "hash_ok t" and c: "m_cmp_func t = cmp" using assms by (auto simp: uses_def)
  have i: "?i < ?n" using ok by (simp add: hash_ok_def hash_index_bound)
  show thesis
  proof (cases "hash_lookup t d")
    case (Some x)
    then have "hash_insert True (Some t) (Some d) = Some (Some t, -1)"
      using i by (simp add: hash_lookup_def)
    with that [of t "-1"] assms Some show thesis by simp
  next
    case None
    let ?t = "t\<lparr>m_table := (m_table t)[?i := m_table t ! ?i @ [d]], m_count := m_count t + 1\<rparr>"
    have none: "\<forall>x \<in> set (m_table t ! ?i). cmp x d \<noteq> 0"
      using None by (simp add: hash_lookup_def c chain_find_None)
    have idx: "hash_index ?t e = hash_index t e" for e by (simp add: hash_index_def)
    have "hash_insert True (Some t) (Some d) = Some (Some ?t, 0)"
      using None i by (simp add: hash_lookup_def Let_def)
    moreover have "uses ?t"
    proof -
      have p1: "\<forall>j < ?n. \<forall>x \<in> set ((m_table t)[?i := m_table t ! ?i @ [d]] ! j). hash_index t x = j"
        using ok i by (auto simp: hash_ok_def nth_list_update)
      have p2: "\<forall>j < ?n. distinct_wrt cmp ((m_table t)[?i := m_table t ! ?i @ [d]] ! j)"
        using ok none c i by (simp add: hash_ok_def nth_list_update distinct_wrt_append)
      have p3: "m_count t + 1 = int (sum_list (map length ((m_table t)[?i := m_table t ! ?i @ [d]])))"
        using ok sum_list_update_len [OF i, of "m_table t ! ?i @ [d]"] by (simp add: hash_ok_def)
      have p4: "hash_wf ?t" using ok by (simp add: hash_ok_def hash_wf_def)
      have p5: "m_hash_func t = hash" using assms by (simp add: uses_def)
      have sel: "m_table ?t = (m_table t)[?i := m_table t ! ?i @ [d]]" "m_cmp_func ?t = cmp"
        "m_count ?t = m_count t + 1" using c by simp_all
      have "hash_ok ?t"
        unfolding hash_ok_def idx sel length_list_update by (intro conjI p1 p2 p3 p4)
      then show ?thesis unfolding uses_def by (simp add: c p5)
    qed
    moreover have "hash_lookup ?t e = (if hash_lookup t d = None \<and> cmp d e = 0 then Some d else hash_lookup t e)" for e
    proof (cases "cmp d e = 0")
      case True
      then have "hash_index t e = ?i" using index_cmp [OF assms, of d e] by simp
      moreover have "chain_find cmp (m_table t ! ?i) e = None"
        using none True cmp_trans cmp_sym by (metis chain_find_None)
      ultimately show ?thesis using True None i by (simp add: hash_lookup_def idx c chain_find_append)
    next
      case False
      then show ?thesis
        using i by (auto simp: hash_lookup_def idx c chain_find_append nth_list_update split: option.split)
    qed
    ultimately show thesis using that [of ?t 0] None by simp
  qed
qed

lemma find_equal: "uses t \<Longrightarrow> cmp x y = 0 \<Longrightarrow> hash_lookup t x = hash_lookup t y"
proof -
  assume t: "uses t" and xy: "cmp x y = 0"
  have "cmp z x = 0 \<longleftrightarrow> cmp z y = 0" for z using xy cmp_sym cmp_trans by metis
  then have "chain_find cmp zs x = chain_find cmp zs y" for zs by (induction zs) auto
  then show ?thesis using t index_cmp [OF t xy] by (simp add: hash_lookup_def uses_def)
qed

end

text \<open>What removal does: it unlinks the datum when another precedes it in its chain, and cuts off
  the whole chain when it is the first.\<close>

lemma chain_remove_first:
  "cmp x d = 0 \<Longrightarrow> chain_remove cmp True (x # xs) d = Some ([], x)"
  by simp

lemma chain_remove_later:
  assumes "chain_find cmp xs d = Some x"
  shows "\<exists>ys zs. xs = ys @ x # zs \<and> (\<forall>y \<in> set ys. cmp y d \<noteq> 0) \<and> chain_remove cmp False xs d = Some (ys @ zs, x)"
  using assms
proof (induction xs)
  case (Cons a xs)
  show ?case
  proof (cases "cmp a d = 0")
    case True
    then show ?thesis using Cons.prems by (intro exI [of _ "[]"] exI [of _ xs]) auto
  next
    case False
    then obtain ys zs where "xs = ys @ x # zs" "\<forall>y \<in> set ys. cmp y d \<noteq> 0"
      "chain_remove cmp False xs d = Some (ys @ zs, x)" using Cons by auto
    then show ?thesis using False by (intro exI [of _ "a # ys"] exI [of _ zs]) auto
  qed
qed simp

lemma distinct_wrt_mid:
  "distinct_wrt cmp (ys @ x # zs) \<Longrightarrow> distinct_wrt cmp (ys @ zs) \<and> (\<forall>z \<in> set zs. cmp x z \<noteq> 0)
     \<and> (\<forall>y \<in> set ys. cmp y x \<noteq> 0)"
  by (induction ys) auto

lemma chain_find_app:
  "chain_find cmp (xs @ ys) e = (case chain_find cmp xs e of Some x \<Rightarrow> Some x | None \<Rightarrow> chain_find cmp ys e)"
  by (induction xs) auto

context hash_element
begin

lemma chain_find_del:
  assumes "distinct_wrt cmp (ys @ x # zs)"
  shows "chain_find cmp (ys @ zs) e = (if cmp x e = 0 then None else chain_find cmp (ys @ x # zs) e)"
proof (cases "cmp x e = 0")
  case True
  have "chain_find cmp (ys @ zs) e = None"
    unfolding chain_find_None
  proof
    fix w
    assume w: "w \<in> set (ys @ zs)"
    show "cmp w e \<noteq> 0"
    proof
      assume "cmp w e = 0"
      then have "cmp w x = 0" "cmp x w = 0" using True cmp_sym cmp_trans by metis+
      then show False using w distinct_wrt_mid [OF assms] by auto
    qed
  qed
  then show ?thesis using True by simp
next
  case False
  then show ?thesis by (simp add: chain_find_app split: option.split)
qed

lemma remove_spec:
  assumes "uses t" "hash_lookup t d = Some z" "m_table t ! hash_index t d = x # xs"
  obtains t' where "hash_remove (Some t) (Some d) = Some (Some t', Some z)" "m_count t' = m_count t - 1"
    "\<And>e. hash_find (Some t') (Some e) = Some (
       if cmp x d = 0 \<and> hash_index t e = hash_index t d then None
       else if cmp z e = 0 then None else hash_lookup t e)"
proof -
  let ?i = "hash_index t d"
  have ok: "hash_ok t" and c: "m_cmp_func t = cmp" using assms by (auto simp: uses_def)
  have wf: "hash_wf t" using ok by (simp add: hash_ok_def)
  have i: "?i < length (m_table t)" using hash_index_bound [OF wf] .
  have dist: "distinct_wrt cmp (x # xs)"
    using ok i assms(3) c unfolding hash_ok_def by metis
  obtain chain where rm: "chain_remove cmp True (x # xs) d = Some (chain, z)"
    and find: "chain_find cmp chain e = (if cmp x d = 0 then None else if cmp z e = 0 then None
                 else chain_find cmp (x # xs) e)" for e
  proof (cases "cmp x d = 0")
    case True
    then have "z = x" using assms(2,3) by (simp add: hash_lookup_def c)
    then show thesis using that [of "[]"] True by simp
  next
    case False
    then have "chain_find cmp xs d = Some z" using assms(2,3) by (simp add: hash_lookup_def c)
    then obtain ys zs where xs: "xs = ys @ z # zs" "chain_remove cmp False xs d = Some (ys @ zs, z)"
      using chain_remove_later [of cmp xs d z] by auto
    have "distinct_wrt cmp ((x # ys) @ z # zs)" using dist xs by simp
    from chain_find_del [OF this] show thesis using that [of "x # ys @ zs"] xs False by simp
  qed
  let ?t = "t\<lparr>m_table := (m_table t)[?i := chain], m_count := m_count t - 1\<rparr>"
  have idx: "hash_index ?t e = hash_index t e" for e by (simp add: hash_index_def)
  have ie: "hash_index t e < length (m_table t)" for e using hash_index_bound [OF wf] .
  have cz: "cmp z e = 0 \<Longrightarrow> hash_index t e = ?i" for e
    using assms(2) index_cmp [OF assms(1)] chain_find_Some [of cmp _ d z] by (metis c hash_lookup_def)
  have "hash_find (Some ?t) (Some e) = Some (
       if cmp x d = 0 \<and> hash_index t e = hash_index t d then None
       else if cmp z e = 0 then None else hash_lookup t e)" for e
    using find [of e] ie [of e] i cz [of e] assms(3)
    by (auto simp: idx hash_lookup_def c nth_list_update)
  moreover have "hash_remove (Some t) (Some d) = Some (Some ?t, Some z)"
    using i assms(3) rm by (simp add: c Let_def)
  ultimately show thesis using that [of ?t] by simp
qed

end

fun hash_insert_all :: "'d hash_t option \<Rightarrow> 'd list \<Rightarrow> ('d hash_t option \<times> int list) option" where
  "hash_insert_all t [] = Some (t, [])"
| "hash_insert_all t (d # ds) = do {
     (t1, r) \<leftarrow> hash_insert True t (Some d);
     (t2, rs) \<leftarrow> hash_insert_all t1 ds;
     Some (t2, r # rs) }"

context hash_element
begin

lemma insert_all_spec:
  assumes "uses t"
  shows "\<exists>t' rs. hash_insert_all (Some t) ds = Some (Some t', rs) \<and> uses t' \<and>
    m_count t' = m_count t + int (length (filter (\<lambda>r. r = 0) rs)) \<and>
    (\<forall>e. hash_lookup t' e = (case hash_lookup t e of Some x \<Rightarrow> Some x | None \<Rightarrow> find (\<lambda>x. cmp x e = 0) ds))"
  using assms
proof (induction ds arbitrary: t)
  case (Cons d ds)
  obtain t1 r where t1: "hash_insert True (Some t) (Some d) = Some (Some t1, r)" "uses t1"
    "r = (if hash_lookup t d = None then 0 else -1)"
    "\<And>e. hash_lookup t1 e = (if hash_lookup t d = None \<and> cmp d e = 0 then Some d else hash_lookup t e)"
    "m_count t1 = m_count t + (if hash_lookup t d = None then 1 else 0)"
    using insert_spec [OF Cons.prems] by metis
  obtain t2 rs where t2: "hash_insert_all (Some t1) ds = Some (Some t2, rs)" "uses t2"
    "m_count t2 = m_count t1 + int (length (filter (\<lambda>r. r = 0) rs))"
    "\<And>e. hash_lookup t2 e = (case hash_lookup t1 e of Some x \<Rightarrow> Some x | None \<Rightarrow> find (\<lambda>x. cmp x e = 0) ds)"
    using Cons.IH [OF t1(2)] by blast
  have "hash_lookup t2 e = (case hash_lookup t e of Some x \<Rightarrow> Some x | None \<Rightarrow> find (\<lambda>x. cmp x e = 0) (d # ds))" for e
    using t2(4) [of e] t1(4) [of e] find_equal [OF Cons.prems, of d e]
    by (auto split: option.splits if_splits)
  moreover have "m_count t2 = m_count t + int (length (filter (\<lambda>r. r = 0) (r # rs)))"
    using t2(3) t1(3,5) by simp
  ultimately show ?case using t1(1) t2(1,2) by auto
qed (auto split: option.split)

end

section \<open>The Jenkins hash\<close>
section \<open>The Jenkins hash\<close>

definition JHASH_GOLDEN_RATIO :: u32 where
  "JHASH_GOLDEN_RATIO = 0x9e3779b9"

definition mix_line :: "(u32 \<Rightarrow> u32) \<Rightarrow> u32 \<Rightarrow> u32 \<Rightarrow> u32 \<Rightarrow> u32" where
  \<comment> \<open>a line of the macro, \<open>x -= y; x -= z; x ^= f z\<close>\<close>
  "mix_line f x y z = (let x = x - y; x = x - z in x XOR f z)"

definition jhash_mix :: "u32 \<times> u32 \<times> u32 \<Rightarrow> u32 \<times> u32 \<times> u32" where
  "jhash_mix s = (let (a, b, c) = s;
     a = mix_line (drop_bit 13) a b c;
     b = mix_line (push_bit 8) b c a;
     c = mix_line (drop_bit 13) c a b;
     a = mix_line (drop_bit 12) a b c;
     b = mix_line (push_bit 16) b c a;
     c = mix_line (drop_bit 5) c a b;
     a = mix_line (drop_bit 3) a b c;
     b = mix_line (push_bit 10) b c a;
     c = mix_line (drop_bit 15) c a b
     in (a, b, c))"

definition kbyte :: "u8 list \<Rightarrow> nat \<Rightarrow> nat \<Rightarrow> u32 option" where
  \<comment> \<open>\<open>(uint32_t) k[i] << s\<close>\<close>
  "kbyte k i s = do { x \<leftarrow> rd k i; Some (push_bit s (ucast x)) }"

definition kword :: "u8 list \<Rightarrow> nat \<Rightarrow> u32 option" where
  "kword k i = do { x0 \<leftarrow> kbyte k i 0; x1 \<leftarrow> kbyte k (i + 1) 8; x2 \<leftarrow> kbyte k (i + 2) 16; x3 \<leftarrow> kbyte k (i + 3) 24;
     Some (x0 + x1 + x2 + x3) }"

fun jhash_blocks :: "u8 list \<Rightarrow> nat \<Rightarrow> u32 \<times> u32 \<times> u32 \<Rightarrow> (u8 list \<times> nat \<times> (u32 \<times> u32 \<times> u32)) option" where
  \<comment> \<open>\<open>k\<close>: the memory from the moving key pointer on\<close>
  "jhash_blocks k len (a, b, c) =
     (if len \<ge> 12 then do {
        x \<leftarrow> kword k 0; y \<leftarrow> kword k 4; z \<leftarrow> kword k 8;
        jhash_blocks (drop 12 k) (len - 12) (jhash_mix (a + x, b + y, c + z)) }
      else Some (k, len, (a, b, c)))"

declare jhash_blocks.simps [simp del]

definition jhash_case :: "u8 list \<Rightarrow> nat \<Rightarrow> u32 \<times> u32 \<times> u32 \<Rightarrow> (u32 \<times> u32 \<times> u32) option" where
  \<comment> \<open>one label of the switch\<close>
  "jhash_case k n s = (let (a, b, c) = s in
     if n = 11 then do { x \<leftarrow> kbyte k 10 24; Some (a, b, c + x) }
     else if n = 10 then do { x \<leftarrow> kbyte k 9 16; Some (a, b, c + x) }
     else if n = 9 then do { x \<leftarrow> kbyte k 8 8; Some (a, b, c + x) }
     else if n = 8 then do { x \<leftarrow> kbyte k 7 24; Some (a, b + x, c) }
     else if n = 7 then do { x \<leftarrow> kbyte k 6 16; Some (a, b + x, c) }
     else if n = 6 then do { x \<leftarrow> kbyte k 5 8; Some (a, b + x, c) }
     else if n = 5 then do { x \<leftarrow> kbyte k 4 0; Some (a, b + x, c) }
     else if n = 4 then do { x \<leftarrow> kbyte k 3 24; Some (a + x, b, c) }
     else if n = 3 then do { x \<leftarrow> kbyte k 2 16; Some (a + x, b, c) }
     else if n = 2 then do { x \<leftarrow> kbyte k 1 8; Some (a + x, b, c) }
     else if n = 1 then do { x \<leftarrow> kbyte k 0 0; Some (a + x, b, c) }
     else Some (a, b, c))"

fun jhash_tail :: "u8 list \<Rightarrow> nat \<Rightarrow> u32 \<times> u32 \<times> u32 \<Rightarrow> (u32 \<times> u32 \<times> u32) option" where
  \<comment> \<open>the labels fall through down to 1\<close>
  "jhash_tail k 0 s = Some s"
| "jhash_tail k (Suc n) s = do { s' \<leftarrow> jhash_case k (Suc n) s; jhash_tail k n s' }"

definition hash_jhash :: "u8 list \<Rightarrow> u32 \<Rightarrow> u32 option" where
  "hash_jhash key len = do {
     (k, n, (a, b, c)) \<leftarrow> jhash_blocks key (unat len) (JHASH_GOLDEN_RATIO, JHASH_GOLDEN_RATIO, 99989);
     s \<leftarrow> jhash_tail k n (a, b, c + len);
     Some (snd (snd (jhash_mix s))) }"

text \<open>Safety and locality of the hash.\<close>

lemma kbyte_Some: "i < length k \<Longrightarrow> kbyte k i s = Some (push_bit s (ucast (k ! i)))"
  by (simp add: kbyte_def)

lemma kword_Some:
  "i + 3 < length k \<Longrightarrow> kword k i = Some (ucast (k ! i) + push_bit 8 (ucast (k ! (i + 1)))
     + push_bit 16 (ucast (k ! (i + 2))) + push_bit 24 (ucast (k ! (i + 3))))"
  by (simp add: kword_def kbyte_Some)

lemma kbyte_take: "i < n \<Longrightarrow> n \<le> length k \<Longrightarrow> kbyte (take n k) i s = kbyte k i s"
  by (simp add: kbyte_Some)

lemma kword_take: "i + 3 < n \<Longrightarrow> n \<le> length k \<Longrightarrow> kword (take n k) i = kword k i"
  by (simp add: kword_def kbyte_take)

lemma jhash_blocks_safe:
  "n \<le> length k \<Longrightarrow> \<exists>m s'. jhash_blocks k n s = Some (drop m k, n - m, s') \<and> n - m < 12 \<and> m \<le> n
     \<and> jhash_blocks (take n k) n s = Some (take (n - m) (drop m k), n - m, s')"
proof (induction k n s rule: jhash_blocks.induct)
  case (1 k n a b c)
  show ?case
  proof (cases "n \<ge> 12")
    case False
    then show ?thesis
      by (intro exI [of _ 0]) (subst jhash_blocks.simps, simp, subst jhash_blocks.simps, simp)
  next
    case True
    then have w: "kword (take n k) i = kword k i \<and> kword k i \<noteq> None" if "i \<in> {0, 4, 8}" for i
      using 1(2) that by (auto simp: kword_take kword_Some)
    obtain x y z where xyz: "kword k 0 = Some x" "kword k 4 = Some y" "kword k 8 = Some z"
      using w [of 0] w [of 4] w [of 8] by auto
    have len: "n - 12 \<le> length (drop 12 k)" using 1(2) by simp
    obtain m s' where m:
      "jhash_blocks (drop 12 k) (n - 12) (jhash_mix (a + x, b + y, c + z)) = Some (drop m (drop 12 k), n - 12 - m, s')"
      "n - 12 - m < 12" "m \<le> n - 12"
      "jhash_blocks (take (n - 12) (drop 12 k)) (n - 12) (jhash_mix (a + x, b + y, c + z))
         = Some (take (n - 12 - m) (drop m (drop 12 k)), n - 12 - m, s')"
      using 1(1) [OF True xyz len] by blast
    have "jhash_blocks k n (a, b, c) = Some (drop (12 + m) k, n - (12 + m), s')"
      by (subst jhash_blocks.simps) (use True xyz m(1) in \<open>simp add: ac_simps\<close>)
    moreover have "jhash_blocks (take n k) n (a, b, c) = Some (take (n - (12 + m)) (drop (12 + m) k), n - (12 + m), s')"
      by (subst jhash_blocks.simps) (use True xyz m(4) w in \<open>simp add: ac_simps drop_take\<close>)
    ultimately show ?thesis using m(2,3) True by (intro exI [of _ "12 + m"] exI [of _ s']) auto
  qed
qed

lemma jhash_case_safe:
  assumes "n \<le> length k" "n \<le> m" "m \<le> length k"
  shows "jhash_case k n s \<noteq> None" and "jhash_case (take m k) n s = jhash_case k n s"
  using assms by (auto simp: jhash_case_def kbyte_Some kbyte_take Let_def simp del: length_greater_0_conv split: prod.splits)

lemma jhash_tail_safe:
  assumes "n \<le> m" "m \<le> length k"
  shows "jhash_tail k n s \<noteq> None \<and> jhash_tail (take m k) n s = jhash_tail k n s"
  using assms
proof (induction n arbitrary: s)
  case (Suc n)
  then obtain s' where "jhash_case k (Suc n) s = Some s'"
    using jhash_case_safe(1) [of "Suc n" k "Suc n" s] by auto
  then show ?case using Suc jhash_case_safe(2) [of "Suc n" k m s] by auto
qed simp

text \<open>Mixing loses nothing: every line of the mix can be undone.\<close>

definition mix_a :: "(u32 \<Rightarrow> u32) \<Rightarrow> u32 \<times> u32 \<times> u32 \<Rightarrow> u32 \<times> u32 \<times> u32" where
  "mix_a f s = (case s of (a, b, c) \<Rightarrow> (mix_line f a b c, b, c))"

definition rot3 :: "u32 \<times> u32 \<times> u32 \<Rightarrow> u32 \<times> u32 \<times> u32" where
  "rot3 s = (case s of (a, b, c) \<Rightarrow> (b, c, a))"

lemma mix_a_inj: "inj (mix_a f)"
  by (rule injI) (auto simp: mix_a_def mix_line_def Let_def xor_right_cancel split: prod.splits)

lemma rot3_inj: "inj rot3"
  by (rule injI) (auto simp: rot3_def split: prod.splits)

lemma jhash_mix_steps:
  "jhash_mix = rot3 \<circ> mix_a (drop_bit 15) \<circ> rot3 \<circ> mix_a (push_bit 10) \<circ> rot3 \<circ> mix_a (drop_bit 3)
     \<circ> rot3 \<circ> mix_a (drop_bit 5) \<circ> rot3 \<circ> mix_a (push_bit 16) \<circ> rot3 \<circ> mix_a (drop_bit 12)
     \<circ> rot3 \<circ> mix_a (drop_bit 13) \<circ> rot3 \<circ> mix_a (push_bit 8) \<circ> rot3 \<circ> mix_a (drop_bit 13)"
proof (rule ext)
  fix s :: "u32 \<times> u32 \<times> u32"
  obtain a b c where "s = (a, b, c)" by (cases s)
  then show "jhash_mix s = (rot3 \<circ> mix_a (drop_bit 15) \<circ> rot3 \<circ> mix_a (push_bit 10) \<circ> rot3 \<circ> mix_a (drop_bit 3)
     \<circ> rot3 \<circ> mix_a (drop_bit 5) \<circ> rot3 \<circ> mix_a (push_bit 16) \<circ> rot3 \<circ> mix_a (drop_bit 12)
     \<circ> rot3 \<circ> mix_a (drop_bit 13) \<circ> rot3 \<circ> mix_a (push_bit 8) \<circ> rot3 \<circ> mix_a (drop_bit 13)) s"
    by (simp only: jhash_mix_def Let_def mix_a_def rot3_def comp_apply prod.case)
qed

lemma jhash_mix_inj: "inj jhash_mix"
  unfolding jhash_mix_steps by (intro inj_compose mix_a_inj rot3_inj)

text \<open>The same hash over integers, which evaluates without word arithmetic.\<close>

definition int_mix :: "(int \<Rightarrow> int) \<Rightarrow> int \<times> int \<times> int \<Rightarrow> int \<times> int \<times> int" where
  "int_mix f s = (case s of (a, b, c) \<Rightarrow> (b, c, ((a - b - c) mod 4294967296) XOR (f c mod 4294967296)))"

text \<open>As a code equation it waits for its operands: an operand that is not a number yet leaves the
  conditional undecided.\<close>

lemma int_mix_code [code]:
  "int_mix f (a, b, c) = (let d = ((a - b - c) mod 4294967296) XOR (f c mod 4294967296) in
     if d = 0 then (b, c, 0) else (b, c, d))"
  by (simp add: int_mix_def Let_def)

definition int_jhash_mix :: "int \<times> int \<times> int \<Rightarrow> int \<times> int \<times> int" where
  "int_jhash_mix = int_mix (\<lambda>z. z mod 4294967296 div 32768) \<circ> int_mix (\<lambda>z. z * 1024) \<circ> int_mix (\<lambda>z. z mod 4294967296 div 8)
     \<circ> int_mix (\<lambda>z. z mod 4294967296 div 32) \<circ> int_mix (\<lambda>z. z * 65536) \<circ> int_mix (\<lambda>z. z mod 4294967296 div 4096)
     \<circ> int_mix (\<lambda>z. z mod 4294967296 div 8192) \<circ> int_mix (\<lambda>z. z * 256) \<circ> int_mix (\<lambda>z. z mod 4294967296 div 8192)"

definition words3 :: "int \<times> int \<times> int \<Rightarrow> u32 \<times> u32 \<times> u32" where
  "words3 s = (case s of (a, b, c) \<Rightarrow> (word_of_int a, word_of_int b, word_of_int c))"

lemma word_of_int_mod32: "word_of_int (x mod 4294967296) = (word_of_int x :: u32)"
  by (simp add: word_of_int_eq_iff take_bit_eq_mod)

lemma drop_bit_word_of_int32: "drop_bit n (word_of_int z :: u32) = word_of_int (z mod 4294967296 div 2 ^ n)"
proof -
  have "uint (drop_bit n (word_of_int z :: u32)) = z mod 4294967296 div 2 ^ n"
    unfolding unsigned_drop_bit_eq drop_bit_eq_div [where 'a = int] by (simp add: unsigned_of_int take_bit_eq_mod)
  then show ?thesis by (metis word_of_int_uint)
qed

lemma push_bit_word_of_int32: "push_bit n (word_of_int z :: u32) = word_of_int (z * 2 ^ n)"
  by (simp add: push_bit_eq_mult)

lemma int_mix_words:
  assumes "\<And>z. f (word_of_int z) = word_of_int (g z)"
  shows "words3 (int_mix g s) = rot3 (mix_a f (words3 s))"
proof (cases s)
  case (fields a b c)
  have "word_of_int ((a - b - c) mod 4294967296 XOR g c mod 4294967296) =
     (word_of_int ((a - b - c) mod 4294967296) XOR word_of_int (g c mod 4294967296) :: u32)"
    by (simp only: word_wi_log_defs)
  then show ?thesis
    using fields by (simp add: int_mix_def words3_def rot3_def mix_a_def mix_line_def Let_def assms word_of_int_mod32)
qed

lemma int_mix_drop: "words3 (int_mix (\<lambda>z. z mod 4294967296 div m) s) = rot3 (mix_a (drop_bit n) (words3 s))"
  if "m = 2 ^ n"
  using int_mix_words [of "drop_bit n" "\<lambda>z. z mod 4294967296 div m" s] by (simp add: that drop_bit_word_of_int32)

lemma int_mix_push: "words3 (int_mix (\<lambda>z. z * m) s) = rot3 (mix_a (push_bit n) (words3 s))"
  if "m = 2 ^ n"
  using int_mix_words [of "push_bit n" "\<lambda>z. z * m" s] by (simp only: that push_bit_word_of_int32)

lemma int_jhash_mix_words: "words3 (int_jhash_mix s) = jhash_mix (words3 s)"
  unfolding int_jhash_mix_def jhash_mix_steps comp_apply
  by (simp only: int_mix_drop [where m = 32768 and n = 15] int_mix_push [where m = 1024 and n = 10]
      int_mix_drop [where m = 8 and n = 3] int_mix_drop [where m = 32 and n = 5]
      int_mix_push [where m = 65536 and n = 16] int_mix_drop [where m = 4096 and n = 12]
      int_mix_drop [where m = 8192 and n = 13] int_mix_push [where m = 256 and n = 8] power_numeral
      Num.pow.simps Num.sqr.simps Num.mult_num_simps Num.add_num_simps num.simps)

lemma jhash_mix_code [code]:
  "jhash_mix s = words3 (int_jhash_mix (case s of (a, b, c) \<Rightarrow> (uint a, uint b, uint c)))"
  by (cases s) (simp add: int_jhash_mix_words, simp add: words3_def)

lemma word_bytes_sum:
  "ucast (ucast w :: u8) + push_bit 8 (ucast (ucast (drop_bit 8 w) :: u8))
     + push_bit 16 (ucast (ucast (drop_bit 16 w) :: u8)) + push_bit 24 (ucast (ucast (drop_bit 24 w) :: u8)) = (w :: u32)"
  (is "?a + ?b + ?c + ?d = w")
proof -
  have ab: "?a + ?b = ?a OR ?b"
    by (rule disjunctive_add_eq_or, rule bit_word_eqI) (auto simp: bit_simps)
  moreover have "(?a OR ?b) + ?c = (?a OR ?b) OR ?c"
    by (rule disjunctive_add_eq_or, rule bit_word_eqI) (auto simp: bit_simps)
  moreover have "(?a OR ?b OR ?c) + ?d = (?a OR ?b OR ?c) OR ?d"
    by (rule disjunctive_add_eq_or, rule bit_word_eqI) (auto simp: bit_simps)
  moreover have "?a OR ?b OR ?c OR ?d = of_le32 (le32 w)"
    by (simp add: of_le32_def le32_def ac_simps)
  ultimately show ?thesis by (simp add: or.assoc)
qed

lemma kword_le32: "kword (le32 w @ ys) 0 = Some w" "length xs = 4 \<Longrightarrow> kword (xs @ le32 w @ ys) 4 = Some w"
  "length xs = 8 \<Longrightarrow> kword (xs @ le32 w @ ys) 8 = Some w"
  by (simp_all add: kword_def kbyte_def rd_def nth_append le32_def word_bytes_sum)

lemma hash_jhash_12:
  "hash_jhash (le32 x @ le32 y @ le32 z) 12 =
     Some (snd (snd (jhash_mix (case jhash_mix (JHASH_GOLDEN_RATIO + x, JHASH_GOLDEN_RATIO + y, 99989 + z) of
       (a, b, c) \<Rightarrow> (a, b, c + 12)))))"
proof -
  let ?k = "le32 x @ le32 y @ le32 z"
  have 0: "jhash_blocks [] 0 s = Some ([], 0, s)" for s
    by (cases s; simp only:) (subst jhash_blocks.simps, simp)
  have "kword ?k 8 = Some z" using kword_le32(3) [of "le32 x @ le32 y" z "[]"] by simp
  then have "jhash_blocks ?k 12 (JHASH_GOLDEN_RATIO, JHASH_GOLDEN_RATIO, 99989)
      = Some ([], 0, jhash_mix (JHASH_GOLDEN_RATIO + x, JHASH_GOLDEN_RATIO + y, 99989 + z))"
    by (subst jhash_blocks.simps) (simp add: kword_le32 0)
  then show ?thesis by (simp add: hash_jhash_def split: prod.split)
qed

definition int_hash12 :: "int \<Rightarrow> int \<Rightarrow> int \<Rightarrow> int" where
  "int_hash12 x y z = snd (snd (int_jhash_mix (case int_jhash_mix (2654435769 + x, 2654435769 + y, 99989 + z) of
       (a, b, c) \<Rightarrow> (a, b, c + 12))))"

lemma int_hash12: "hash_jhash (le32 (word_of_int x) @ le32 (word_of_int y) @ le32 (word_of_int z)) 12
   = Some (word_of_int (int_hash12 x y z))"
proof -
  obtain a b c where m: "int_jhash_mix (2654435769 + x, 2654435769 + y, 99989 + z) = (a, b, c)"
    by (cases "int_jhash_mix (2654435769 + x, 2654435769 + y, 99989 + z)")
  have "jhash_mix (words3 (2654435769 + x, 2654435769 + y, 99989 + z)) = words3 (a, b, c)"
    using int_jhash_mix_words m by metis
  then have 1: "jhash_mix (JHASH_GOLDEN_RATIO + word_of_int x, JHASH_GOLDEN_RATIO + word_of_int y, 99989 + word_of_int z)
      = words3 (a, b, c)"
    by (simp add: words3_def JHASH_GOLDEN_RATIO_def)
  have 2: "jhash_mix (words3 (a, b, c + 12)) = words3 (int_jhash_mix (a, b, c + 12))"
    by (simp add: int_jhash_mix_words)
  obtain u v w where i: "int_jhash_mix (a, b, c + 12) = (u, v, w)" by (cases "int_jhash_mix (a, b, c + 12)")
  show ?thesis using 2 unfolding hash_jhash_12 1 int_hash12_def m by (simp add: words3_def i)
qed

text \<open>C32: with a comparison that is an equivalence the hash respects, a table created with any positive
  size and filled by any sequence of insertions answers every probe with the first inserted
  datum equal to it (later equal ones are refused), and its count is the number of accepted ones.\<close>
theorem hash_insert_find_spec:
  assumes "hash_element hash cmp" "0 < sz" "sz < 2 ^ 31"
  shows "\<exists>t t' rs. hash_create (Some hash) (Some cmp) sz True True = Some t \<and>
    hash_insert_all (Some t) ds = Some (Some t', rs) \<and>
    hash_count (Some t') = int (length (filter (\<lambda>r. r = 0) rs)) \<and>
    (\<forall>e. hash_find (Some t') (Some e) = Some (find (\<lambda>x. cmp x e = 0) ds))"
proof -
  obtain t where t: "hash_create (Some hash) (Some cmp) sz True True = Some t"
    "hash_element.uses hash cmp t" "\<And>d. hash_lookup t d = None"
    using hash_element.create_uses [OF assms] by metis
  obtain t' rs where t': "hash_insert_all (Some t) ds = Some (Some t', rs)" "hash_element.uses hash cmp t'"
    "m_count t' = m_count t + int (length (filter (\<lambda>r. r = 0) rs))"
    "\<And>e. hash_lookup t' e = (case hash_lookup t e of Some x \<Rightarrow> Some x | None \<Rightarrow> find (\<lambda>x. cmp x e = 0) ds)"
    using hash_element.insert_all_spec [OF assms(1) t(2), of ds] by blast
  have "hash_wf t'" using t'(2) by (simp add: hash_element.uses_def [OF assms(1)] hash_ok_def)
  moreover have "m_count t = 0" using t(1) assms(2) by (auto simp: hash_create_def)
  ultimately show ?thesis using t t' by (auto simp: hash_find_lookup simp del: hash_find.simps)
qed

definition key_hash :: "u32 \<Rightarrow> u32" where "key_hash k = k XOR 5"
definition key_cmp :: "u32 \<Rightarrow> u32 \<Rightarrow> int" where "key_cmp k l = (if k < l then -1 else if l < k then 1 else 0)"

lemma key_element: "hash_element key_hash key_cmp"
  by unfold_locales (auto simp: key_cmp_def key_hash_def split: if_splits)

lemma hash_insert_find_spec_witness:
  "\<exists>t t' rs. hash_create (Some key_hash) (Some key_cmp) 4 True True = Some t \<and>
    hash_insert_all (Some t) [1, 5, 9, 5] = Some (Some t', rs) \<and>
    hash_count (Some t') = int (length (filter (\<lambda>r. r = 0) rs)) \<and>
    (\<forall>e. hash_find (Some t') (Some e) = Some (find (\<lambda>x. key_cmp x e = 0) [1, 5, 9, 5]))"
  by (rule hash_insert_find_spec [OF key_element]) auto

text \<open>removal returns the stored datum, lowers the count by one and unlinks only that datum when
  another one precedes it in its bucket, but when it is the first of its bucket every datum
  of the bucket becomes unreachable.\<close>
lemma hash_remove_spec:
  assumes "hash_element (m_hash_func t) (m_cmp_func t)" "hash_ok t"
    and "hash_lookup t d = Some z" "m_table t ! hash_index t d = x # xs"
  shows "\<exists>t'. hash_remove (Some t) (Some d) = Some (Some t', Some z) \<and>
    hash_count (Some t') = hash_count (Some t) - 1 \<and>
    (\<forall>e. hash_find (Some t') (Some e) = Some (
       if m_cmp_func t x d = 0 \<and> hash_index t e = hash_index t d then None
       else if m_cmp_func t z e = 0 then None else hash_lookup t e))"
proof -
  have "hash_element.uses (m_hash_func t) (m_cmp_func t) t"
    using assms(2) by (simp add: hash_element.uses_def [OF assms(1)])
  from hash_element.remove_spec [OF assms(1) this assms(3,4)] show ?thesis by (metis hash_count.simps(2))
qed

lemma hash_remove_spec_witness:
  defines "t \<equiv> \<lparr>m_size = 4, m_count = 2, m_hash_func = key_hash, m_cmp_func = key_cmp,
     m_table = [[1, 5], [], [], []]\<rparr>"
  shows "\<exists>t'. hash_remove (Some t) (Some 1) = Some (Some t', Some 1) \<and>
    hash_count (Some t') = hash_count (Some t) - 1 \<and>
    (\<forall>e. hash_find (Some t') (Some e) = Some (
       if m_cmp_func t 1 1 = 0 \<and> hash_index t e = hash_index t 1 then None
       else if m_cmp_func t 1 e = 0 then None else hash_lookup t e))"
proof (rule hash_remove_spec [of t 1 1 1 "[5]"])
  show "hash_element (m_hash_func t) (m_cmp_func t)" by (simp add: t_def key_element)
  show "hash_ok t"
    unfolding t_def by code_simp
  show "hash_lookup t 1 = Some 1" unfolding t_def by code_simp
  show "m_table t ! hash_index t 1 = [1, 5]" unfolding t_def by code_simp
qed

text \<open>the Jenkins hash of a key of a given length reads the key's bytes and nothing beyond them.\<close>
lemma hash_jhash_safe:
  assumes "unat len \<le> length key"
  shows "\<exists>h. hash_jhash key len = Some h \<and> hash_jhash (take (unat len) key) len = Some h"
proof -
  obtain m s' where m: "jhash_blocks key (unat len) (JHASH_GOLDEN_RATIO, JHASH_GOLDEN_RATIO, 99989)
      = Some (drop m key, unat len - m, s')" "m \<le> unat len"
    "jhash_blocks (take (unat len) key) (unat len) (JHASH_GOLDEN_RATIO, JHASH_GOLDEN_RATIO, 99989)
      = Some (take (unat len - m) (drop m key), unat len - m, s')"
    using jhash_blocks_safe [OF assms] by blast
  obtain a b c where s': "s' = (a, b, c)" by (cases s')
  obtain s where "jhash_tail (drop m key) (unat len - m) (a, b, c + len) = Some s"
    "jhash_tail (take (unat len - m) (drop m key)) (unat len - m) (a, b, c + len) = Some s"
    using jhash_tail_safe [of "unat len - m" "unat len - m" "drop m key" "(a, b, c + len)"] assms diff_le_mono [OF assms, of m]
    by auto
  then show ?thesis using m s' by (simp add: hash_jhash_def)
qed

lemma hash_jhash_safe_witness:
  "\<exists>h. hash_jhash [1, 2, 3, 4, 5] 3 = Some h \<and> hash_jhash (take (unat (3 :: u32)) [1, 2, 3, 4, 5]) 3 = Some h"
  by (rule hash_jhash_safe) simp

end
