(* ===== verification/Base_Heap.thy ===== *)
theory Base_Heap
  imports Prelude
begin

text \<open>
  \<^verbatim>\<open>base/heap.c\<close>: the binary minimum heap with a key table through which callers erase and update
  entries.  Data pointers are values of a type \<open>'d\<close> with \<open>None\<close> for the null pointer.  Two
  things are kept apart: the heap order, which needs a comparison that is a total preorder
  (locale \<open>heap_order\<close>), and the bookkeeping of the keys.
\<close>

section \<open>State and operations\<close>

record 'd hnode =
  hn_data :: "'d option"
  hn_key :: int

record 'd heap_t =
  hp_array :: "'d hnode list"
  hp_cap :: nat
  hp_size :: nat
  hp_cmp :: "'d \<Rightarrow> 'd \<Rightarrow> int"
  hp_next :: int
  hp_keys :: "int list"

definition HEAP_DEFAULT_SIZE :: nat where "HEAP_DEFAULT_SIZE = 16"

definition HEAP_PARENT :: "nat \<Rightarrow> nat" where "HEAP_PARENT pos = (pos - 1) div 2"
definition HEAP_LEFT_CHILD :: "nat \<Rightarrow> nat" where "HEAP_LEFT_CHILD pos = 2 * pos + 1"
definition HEAP_RIGHT_CHILD :: "nat \<Rightarrow> nat" where "HEAP_RIGHT_CHILD pos = 2 * pos + 2"

definition hnode_init :: "'d hnode" where
  "hnode_init = \<lparr>hn_data = None, hn_key = -1\<rparr>"

definition heap_create :: "('d \<Rightarrow> 'd \<Rightarrow> int) \<Rightarrow> bool \<Rightarrow> bool \<Rightarrow> bool \<Rightarrow> 'd heap_t option" where
  "heap_create cmp ok1 ok2 ok3 =
     (if ok1 \<and> ok2 \<and> ok3 then
        Some \<lparr>hp_array = replicate HEAP_DEFAULT_SIZE hnode_init, hp_cap = HEAP_DEFAULT_SIZE, hp_size = 0,
              hp_cmp = cmp, hp_next = 0, hp_keys = replicate HEAP_DEFAULT_SIZE (-1)\<rparr>
      else None)"

definition heap_swap :: "'d heap_t \<Rightarrow> nat \<Rightarrow> nat \<Rightarrow> 'd heap_t option" where
  "heap_swap h pos1 pos2 = do {
     n1 \<leftarrow> rd (hp_array h) pos1;
     n2 \<leftarrow> rd (hp_array h) pos2;
     ks \<leftarrow> wri (hp_keys h) (hn_key n1) (int pos2);
     ks \<leftarrow> wri ks (hn_key n2) (int pos1);
     Some (h\<lparr>hp_array := (hp_array h)[pos1 := n2, pos2 := n1], hp_keys := ks\<rparr>) }"

definition heap_full :: "'d heap_t \<Rightarrow> int" where
  "heap_full h = (if hp_cap h = hp_size h then 0 else -1)"

definition heap_realloc :: "bool \<Rightarrow> bool \<Rightarrow> 'd heap_t \<Rightarrow> ('d heap_t \<times> int) option" where
  "heap_realloc ok1 ok2 h =
     (if \<not> ok1 \<or> \<not> ok2 then Some (h, -1)
      else do {
        as \<leftarrow> rd_n (hp_array h) 0 (hp_cap h);
        ks \<leftarrow> rd_n (hp_keys h) 0 (hp_cap h);
        Some (h\<lparr>hp_array := as @ replicate (hp_cap h) hnode_init,
                hp_keys := ks @ replicate (hp_cap h) (-1), hp_cap := hp_cap h * 2\<rparr>, 0) })"

partial_function (option) next_key_loop :: "int list \<Rightarrow> nat \<Rightarrow> int \<Rightarrow> nat \<Rightarrow> int option" where
  "next_key_loop ks cap stop key =
     (if int key \<noteq> stop then do {
        v \<leftarrow> rd ks key;
        if v < 0 then Some (int key) else next_key_loop ks cap stop ((key + 1) mod cap) }
      else Some (int cap))"

declare next_key_loop.simps [code]

definition heap_set_next_key :: "'d heap_t \<Rightarrow> 'd heap_t option" where
  "heap_set_next_key h = do {
     k \<leftarrow> next_key_loop (hp_keys h) (hp_cap h) (hp_next h) (nat (hp_next h + 1) mod hp_cap h);
     Some (h\<lparr>hp_next := k\<rparr>) }"

definition heap_compare :: "'d heap_t \<Rightarrow> nat \<Rightarrow> nat \<Rightarrow> int option" where
  \<comment> \<open>\<open>cmp_func(array[p].data, array[q].data)\<close>; a null pointer is not given to the comparison\<close>
  "heap_compare h p q = do {
     x \<leftarrow> rd (hp_array h) p; y \<leftarrow> rd (hp_array h) q;
     a \<leftarrow> hn_data x; b \<leftarrow> hn_data y;
     Some (hp_cmp h a b) }"

lemma heap_swap_frame:
  "heap_swap h p q = Some h' \<Longrightarrow> hp_size h' = hp_size h \<and> hp_cap h' = hp_cap h \<and> hp_cmp h' = hp_cmp h
     \<and> hp_next h' = hp_next h \<and> length (hp_array h') = length (hp_array h) \<and> length (hp_keys h') = length (hp_keys h)"
  by (auto simp: heap_swap_def wri_def wr_def bind_eq_Some_conv split: if_splits)

function heap_rotdown :: "'d heap_t \<Rightarrow> nat \<Rightarrow> 'd heap_t option" where
  "heap_rotdown h pos =
     (if pos < hp_size h then
        (let left = HEAP_LEFT_CHILD pos; right = HEAP_RIGHT_CHILD pos in
         if left \<ge> hp_size h then Some h
         else if right \<ge> hp_size h then do {
           c \<leftarrow> heap_compare h left pos;
           if c < 0 then do { h' \<leftarrow> heap_swap h pos left; heap_rotdown h' left } else Some h }
         else do {
           c \<leftarrow> heap_compare h left right;
           if c < 0 then do {
             c \<leftarrow> heap_compare h left pos;
             if c < 0 then do { h' \<leftarrow> heap_swap h pos left; heap_rotdown h' left } else Some h }
           else do {
             c \<leftarrow> heap_compare h right pos;
             if c < 0 then do { h' \<leftarrow> heap_swap h pos right; heap_rotdown h' right } else Some h } })
      else Some h)"
  by pat_completeness auto
termination
  by (relation "measure (\<lambda>(h, pos). hp_size h - pos)")
    (auto dest!: heap_swap_frame simp: HEAP_LEFT_CHILD_def HEAP_RIGHT_CHILD_def)

declare heap_rotdown.simps [simp del]

function heap_rotup :: "'d heap_t \<Rightarrow> nat \<Rightarrow> 'd heap_t option" where
  \<comment> \<open>the loop at the end of \<^verbatim>\<open>heap_insert\<close>\<close>
  "heap_rotup h pos =
     (if pos > 0 then do {
        let pos_up = HEAP_PARENT pos;
        c \<leftarrow> heap_compare h pos pos_up;
        if c \<ge> 0 then Some h
        else do { h' \<leftarrow> heap_swap h pos pos_up; heap_rotup h' pos_up } }
      else Some h)"
  by pat_completeness auto
termination by (relation "measure snd") (auto simp: HEAP_PARENT_def)

declare heap_rotup.simps [simp del]

fun heap_insert :: "bool \<Rightarrow> bool \<Rightarrow> 'd heap_t option \<Rightarrow> 'd option \<Rightarrow> ('d heap_t option \<times> int) option" where
  "heap_insert ok1 ok2 (Some h) (Some d) = do {
     (h, r) \<leftarrow> (if heap_full h = 0 then heap_realloc ok1 ok2 h else Some (h, 0));
     if r < 0 then Some (Some h, -1)
     else do {
       let res = hp_next h;
       as \<leftarrow> wr (hp_array h) (hp_size h) \<lparr>hn_data = Some d, hn_key = res\<rparr>;
       let h = h\<lparr>hp_array := as, hp_size := hp_size h + 1\<rparr>;
       ks \<leftarrow> wri (hp_keys h) res (int (hp_size h - 1));
       h \<leftarrow> heap_set_next_key (h\<lparr>hp_keys := ks\<rparr>);
       h \<leftarrow> heap_rotup h (hp_size h - 1);
       Some (Some h, res) } }"
| "heap_insert ok1 ok2 h d = Some (h, -1)"

fun heap_erase :: "'d heap_t option \<Rightarrow> int \<Rightarrow> ('d heap_t option \<times> 'd option) option" where
  "heap_erase None key = Some (None, None)"
| "heap_erase (Some h) key = do {
     index \<leftarrow> rdi (hp_keys h) key;
     if index < 0 then Some (Some h, None)
     else do {
       n \<leftarrow> rdi (hp_array h) index;
       let h = (if hp_next h = int (hp_cap h) then h\<lparr>hp_next := key\<rparr> else h);
       c_assert (hp_size h > 0);
       h \<leftarrow> heap_swap h (nat index) (hp_size h - 1);
       h \<leftarrow> heap_rotdown (h\<lparr>hp_size := hp_size h - 1\<rparr>) (nat index);
       ks \<leftarrow> wri (hp_keys h) key (-1);
       Some (Some (h\<lparr>hp_keys := ks\<rparr>), hn_data n) } }"

fun heap_update :: "'d heap_t option \<Rightarrow> int \<Rightarrow> 'd option \<Rightarrow> 'd heap_t option option" where
  "heap_update (Some h) key (Some d) = do {
     index \<leftarrow> rdi (hp_keys h) key;
     if index < 0 then Some (Some h)
     else do {
       n \<leftarrow> rdi (hp_array h) index;
       as \<leftarrow> wri (hp_array h) index (n\<lparr>hn_data := Some d\<rparr>);
       h \<leftarrow> heap_rotdown (h\<lparr>hp_array := as\<rparr>) (nat index);
       Some (Some h) } }"
| "heap_update h key d = Some h"

fun heap_size :: "'d heap_t option \<Rightarrow> int" where
  "heap_size None = -1"
| "heap_size (Some h) = int (hp_size h)"

fun heap_top :: "'d heap_t option \<Rightarrow> 'd option option" where
  "heap_top None = Some None"
| "heap_top (Some h) = (if hp_size h > 0 then do { n \<leftarrow> rd (hp_array h) 0; Some (hn_data n) } else Some None)"

fun heap_pop :: "'d heap_t option \<Rightarrow> ('d heap_t option \<times> 'd option) option" where
  "heap_pop None = Some (None, None)"
| "heap_pop (Some h) =
     (if hp_size h = 0 then Some (Some h, None)
      else do {
        n \<leftarrow> rd (hp_array h) 0;
        h \<leftarrow> heap_swap h 0 (hp_size h - 1);
        h \<leftarrow> heap_rotdown (h\<lparr>hp_size := hp_size h - 1\<rparr>) 0;
        Some (Some h, hn_data n) })"

section \<open>Key bookkeeping\<close>

definition heap_inv :: "'d heap_t \<Rightarrow> bool" where
  \<comment> \<open>the table is as long as its capacity says, and every live node is where its key points\<close>
  "heap_inv h \<longleftrightarrow> length (hp_array h) = hp_cap h \<and> length (hp_keys h) = hp_cap h \<and> hp_size h \<le> hp_cap h \<and> 0 < hp_cap h
     \<and> (\<forall>i < hp_size h. hn_data (hp_array h ! i) \<noteq> None \<and> 0 \<le> hn_key (hp_array h ! i) \<and>
          nat (hn_key (hp_array h ! i)) < hp_cap h \<and> hp_keys h ! nat (hn_key (hp_array h ! i)) = int i)"

definition heap_next_ok :: "'d heap_t \<Rightarrow> bool" where
  \<comment> \<open>the next key is free, or there is none and the heap is full\<close>
  "heap_next_ok h \<longleftrightarrow> (if hp_next h = int (hp_cap h) then hp_size h = hp_cap h
     else 0 \<le> hp_next h \<and> nat (hp_next h) < hp_cap h \<and> hp_keys h ! nat (hp_next h) < 0)"

definition heap_exact_but :: "nat set \<Rightarrow> 'd heap_t \<Rightarrow> bool" where
  \<comment> \<open>only keys of live nodes are in use, those in \<open>S\<close> apart\<close>
  "heap_exact_but S h \<longleftrightarrow> (\<forall>k < hp_cap h. k \<notin> S \<longrightarrow> 0 \<le> hp_keys h ! k \<longrightarrow>
     nat (hp_keys h ! k) < hp_size h \<and> hn_key (hp_array h ! nat (hp_keys h ! k)) = int k)"

abbreviation heap_exact :: "'d heap_t \<Rightarrow> bool" where
  "heap_exact \<equiv> heap_exact_but {}"

lemmas heap_exact_def = heap_exact_but_def [of "{}", simplified]

definition heap_nodes :: "'d heap_t \<Rightarrow> 'd hnode multiset" where
  "heap_nodes h = mset (take (hp_size h) (hp_array h))"

definition hval :: "'d heap_t \<Rightarrow> nat \<Rightarrow> 'd" where
  "hval h i = the (hn_data (hp_array h ! i))"

lemma heap_inv_node:
  assumes "heap_inv h" "i < hp_size h"
  shows "i < length (hp_array h)" "hn_data (hp_array h ! i) = Some (hval h i)"
    "0 \<le> hn_key (hp_array h ! i)" "nat (hn_key (hp_array h ! i)) < length (hp_keys h)"
    "hp_keys h ! nat (hn_key (hp_array h ! i)) = int i"
  using assms by (auto simp: heap_inv_def hval_def)

lemma heap_key_inj:
  assumes "heap_inv h" "i < hp_size h" "j < hp_size h" "hn_key (hp_array h ! i) = hn_key (hp_array h ! j)"
  shows "i = j"
proof -
  have "int i = int j"
    by (rule box_equals [OF _ heap_inv_node(5) [OF assms(1,2)] heap_inv_node(5) [OF assms(1,3)]])
      (simp only: assms(4))
  then show ?thesis by simp
qed

lemma heap_compare_live:
  "heap_inv h \<Longrightarrow> p < hp_size h \<Longrightarrow> q < hp_size h \<Longrightarrow> heap_compare h p q = Some (hp_cmp h (hval h p) (hval h q))"
  using heap_inv_node(1,2) [of h p] heap_inv_node(1,2) [of h q] by (simp add: heap_compare_def)

lemma heap_swap_live:
  assumes inv: "heap_inv h" and p: "p < hp_size h" and q: "q < hp_size h"
  obtains h' where "heap_swap h p q = Some h'" "heap_inv h'" "heap_nodes h' = heap_nodes h"
    "hval h' = (hval h)(p := hval h q, q := hval h p)"
    "hp_array h' = (hp_array h)[p := hp_array h ! q, q := hp_array h ! p]"
    "\<And>S. heap_exact_but S h \<Longrightarrow> heap_exact_but S h'" "\<And>k. hp_keys h' ! k < 0 \<longleftrightarrow> hp_keys h ! k < 0"
proof -
  let ?a = "hp_array h" and ?n = "hp_size h"
  note np = heap_inv_node [OF inv p] and nq = heap_inv_node [OF inv q]
  define kp kq where "kp = nat (hn_key (?a ! p))" and "kq = nat (hn_key (?a ! q))"
  have kpq: "kp = kq \<longleftrightarrow> p = q"
    using heap_key_inj [OF inv p q] np(3) nq(3) by (auto simp: kp_def kq_def)
  let ?h = "h\<lparr>hp_array := ?a[p := ?a ! q, q := ?a ! p], hp_keys := (hp_keys h)[kp := int q, kq := int p]\<rparr>"
  have lens: "length ?a = hp_cap h" "length (hp_keys h) = hp_cap h" "?n \<le> hp_cap h" "0 < hp_cap h"
    using inv by (auto simp: heap_inv_def)
  have nth: "hp_array ?h ! i = (if i = q then ?a ! p else if i = p then ?a ! q else ?a ! i)" if "i < hp_cap h" for i
    using that lens by (auto simp: nth_list_update)
  have key: "nat (hn_key (?a ! i)) = kp \<longleftrightarrow> i = p" "nat (hn_key (?a ! i)) = kq \<longleftrightarrow> i = q" if "i < ?n" for i
    using heap_key_inj [OF inv that p] heap_key_inj [OF inv that q] np(3) nq(3) heap_inv_node(3) [OF inv that]
    by (auto simp: kp_def kq_def)
  have "heap_swap h p q = Some ?h"
    using np nq by (simp add: heap_swap_def kp_def kq_def)
  moreover have "heap_inv ?h"
  proof -
    have "hn_data (hp_array ?h ! i) \<noteq> None \<and> 0 \<le> hn_key (hp_array ?h ! i) \<and>
          nat (hn_key (hp_array ?h ! i)) < hp_cap h \<and> hp_keys ?h ! nat (hn_key (hp_array ?h ! i)) = int i" if i: "i < ?n" for i
    proof -
      note ni = heap_inv_node [OF inv i]
      consider "i = q" | "i = p" "i \<noteq> q" | "i \<noteq> p" "i \<noteq> q" by blast
      then show ?thesis
      proof cases
        case 1
        then show ?thesis using np nq lens i kpq
          by (auto simp: nth kp_def [symmetric] kq_def [symmetric] nth_list_update)
      next
        case 2
        then show ?thesis using np nq lens i kpq
          by (auto simp: nth kp_def [symmetric] kq_def [symmetric] nth_list_update)
      next
        case 3
        then show ?thesis using ni lens i key [OF i] by (auto simp: nth nth_list_update)
      qed
    qed
    then show ?thesis using lens by (simp add: heap_inv_def)
  qed
  moreover have "heap_nodes ?h = heap_nodes h"
  proof -
    have "take ?n (?a[p := ?a ! q, q := ?a ! p]) = (take ?n ?a)[p := take ?n ?a ! q, q := take ?n ?a ! p]"
      using p q by (simp add: take_update_swap)
    then show ?thesis using mset_swap_nth [of p "take ?n ?a" q] p q lens by (simp add: heap_nodes_def)
  qed
  moreover have "hval ?h = (hval h)(p := hval h q, q := hval h p)"
    using p q lens by (auto simp: hval_def fun_eq_iff nth_list_update)
  moreover have sgn: "hp_keys ?h ! k < 0 \<longleftrightarrow> hp_keys h ! k < 0" for k
  proof -
    have "\<not> hp_keys h ! kp < 0" "\<not> hp_keys h ! kq < 0" "kp < length (hp_keys h)" "kq < length (hp_keys h)"
      using np(4,5) nq(4,5) by (simp_all add: kp_def kq_def)
    then show ?thesis by (auto simp: nth_list_update)
  qed
  moreover have "heap_exact_but S ?h" if ex: "heap_exact_but S h" for S
    unfolding heap_exact_but_def
  proof (intro allI impI)
    fix k
    assume k: "k < hp_cap ?h" "0 \<le> hp_keys ?h ! k" and kS: "k \<notin> S"
    then have old: "0 \<le> hp_keys h ! k" using sgn [of k] by linarith
    then have e: "nat (hp_keys h ! k) < ?n" "hn_key (?a ! nat (hp_keys h ! k)) = int k"
      using ex k(1) kS by (auto simp: heap_exact_but_def)
    have kk: "k = kp \<Longrightarrow> hn_key (?a ! p) = int k" "k = kq \<Longrightarrow> hn_key (?a ! q) = int k"
      using np(3) nq(3) by (auto simp: kp_def kq_def)
    show "nat (hp_keys ?h ! k) < hp_size ?h \<and> hn_key (hp_array ?h ! nat (hp_keys ?h ! k)) = int k"
    proof (cases "k = kp \<or> k = kq")
      case True
      then show ?thesis using kk p q lens k(1) kpq by (auto simp: nth_list_update)
    next
      case False
      then have "nat (hp_keys h ! k) \<noteq> p" "nat (hp_keys h ! k) \<noteq> q"
        using key [OF e(1)] e(2) by auto
      then show ?thesis using False e by (simp add: nth_list_update)
    qed
  qed
  ultimately show thesis using that [of ?h] by simp
qed

section \<open>Sifting\<close>

definition heap_child :: "'d heap_t \<Rightarrow> nat \<Rightarrow> nat option" where
  \<comment> \<open>the child that \<^verbatim>\<open>_heap_rotdown\<close> compares with its parent\<close>
  "heap_child h pos =
     (if 2 * pos + 1 \<ge> hp_size h then None
      else if 2 * pos + 2 \<ge> hp_size h then Some (2 * pos + 1)
      else if hp_cmp h (hval h (2 * pos + 1)) (hval h (2 * pos + 2)) < 0 then Some (2 * pos + 1)
      else Some (2 * pos + 2))"

lemma heap_rotdown_unfold:
  assumes "heap_inv h" "pos < hp_size h"
  shows "heap_rotdown h pos = (case heap_child h pos of None \<Rightarrow> Some h
     | Some c \<Rightarrow> if hp_cmp h (hval h c) (hval h pos) < 0
         then do { h' \<leftarrow> heap_swap h pos c; heap_rotdown h' c } else Some h)"
  by (subst heap_rotdown.simps)
    (use assms in \<open>simp add: heap_child_def HEAP_LEFT_CHILD_def HEAP_RIGHT_CHILD_def Let_def heap_compare_live not_le\<close>)

lemma heap_child_Some: "heap_child h pos = Some c \<Longrightarrow> c < hp_size h \<and> pos < c \<and> HEAP_PARENT c = pos"
  by (auto simp: heap_child_def HEAP_PARENT_def split: if_splits)

lemma HEAP_PARENT_iff: "0 < i \<Longrightarrow> HEAP_PARENT i = pos \<longleftrightarrow> i = 2 * pos + 1 \<or> i = 2 * pos + 2"
  unfolding HEAP_PARENT_def by presburger

lemma HEAP_PARENT_less: "0 < i \<Longrightarrow> HEAP_PARENT i < i"
  unfolding HEAP_PARENT_def by presburger

lemma heap_rotdown_live:
  assumes "heap_inv h"
  shows "\<exists>h'. heap_rotdown h pos = Some h' \<and> heap_inv h' \<and> heap_nodes h' = heap_nodes h \<and>
    hp_size h' = hp_size h \<and> hp_cap h' = hp_cap h \<and> hp_cmp h' = hp_cmp h \<and> hp_next h' = hp_next h \<and>
    (\<forall>S. heap_exact_but S h \<longrightarrow> heap_exact_but S h') \<and> (\<forall>k. hp_keys h' ! k < 0 \<longleftrightarrow> hp_keys h ! k < 0) \<and>
    (\<forall>i \<ge> hp_size h. hp_array h' ! i = hp_array h ! i)"
  using assms
proof (induction "hp_size h - pos" arbitrary: h pos rule: less_induct)
  case less
  show ?case
  proof (cases "pos < hp_size h")
    case False
    then show ?thesis using less.prems by (subst heap_rotdown.simps) simp
  next
    case True
    note unf = heap_rotdown_unfold [OF less.prems True]
    show ?thesis
    proof (cases "\<exists>c. heap_child h pos = Some c \<and> hp_cmp h (hval h c) (hval h pos) < 0")
      case False
      then have "heap_rotdown h pos = Some h" using unf by (auto split: option.split)
      then show ?thesis using less.prems by simp
    next
      case swap: True
      then obtain c where c: "heap_child h pos = Some c" "hp_cmp h (hval h c) (hval h pos) < 0" by auto
      note cs = heap_child_Some [OF c(1)]
      obtain h1 where h1: "heap_swap h pos c = Some h1" "heap_inv h1" "heap_nodes h1 = heap_nodes h"
        "hp_array h1 = (hp_array h)[pos := hp_array h ! c, c := hp_array h ! pos]"
        "\<And>S. heap_exact_but S h \<Longrightarrow> heap_exact_but S h1" "\<And>k. hp_keys h1 ! k < 0 \<longleftrightarrow> hp_keys h ! k < 0"
        using heap_swap_live [OF less.prems True, of c] cs by metis
      note fr = heap_swap_frame [OF h1(1)]
      have "hp_size h1 - c < hp_size h - pos" using cs True fr by linarith
      from less.hyps [OF this h1(2)] obtain h' where h': "heap_rotdown h1 c = Some h'" "heap_inv h'"
        "heap_nodes h' = heap_nodes h1" "hp_size h' = hp_size h1" "hp_cap h' = hp_cap h1" "hp_cmp h' = hp_cmp h1"
        "hp_next h' = hp_next h1" "\<forall>S. heap_exact_but S h1 \<longrightarrow> heap_exact_but S h'"
        "\<forall>k. hp_keys h' ! k < 0 \<longleftrightarrow> hp_keys h1 ! k < 0" "\<forall>i \<ge> hp_size h1. hp_array h' ! i = hp_array h1 ! i"
        by blast
      have "heap_rotdown h pos = Some h'" using unf c h1(1) h'(1) by simp
      moreover have "\<forall>i \<ge> hp_size h. hp_array h' ! i = hp_array h ! i"
        using h'(10) h1(4) fr cs True by (auto simp: nth_list_update)
      ultimately show ?thesis using h' h1 fr by auto
    qed
  qed
qed

lemma heap_rotup_live:
  assumes "heap_inv h" "pos < hp_size h"
  shows "\<exists>h'. heap_rotup h pos = Some h' \<and> heap_inv h' \<and> heap_nodes h' = heap_nodes h \<and>
    hp_size h' = hp_size h \<and> hp_cap h' = hp_cap h \<and> hp_cmp h' = hp_cmp h \<and> hp_next h' = hp_next h \<and>
    (\<forall>S. heap_exact_but S h \<longrightarrow> heap_exact_but S h') \<and> (\<forall>k. hp_keys h' ! k < 0 \<longleftrightarrow> hp_keys h ! k < 0)"
  using assms
proof (induction pos arbitrary: h rule: less_induct)
  case (less pos)
  show ?case
  proof (cases "0 < pos \<and> hp_cmp h (hval h pos) (hval h (HEAP_PARENT pos)) < 0")
    case False
    then have "heap_rotup h pos = Some h"
      by (subst heap_rotup.simps) (use less.prems HEAP_PARENT_less [of pos] in \<open>auto simp: Let_def heap_compare_live\<close>)
    then show ?thesis using less.prems by simp
  next
    case True
    let ?u = "HEAP_PARENT pos"
    have u: "?u < pos" "?u < hp_size h" using HEAP_PARENT_less [of pos] True less.prems(2) by auto
    obtain h1 where h1: "heap_swap h pos ?u = Some h1" "heap_inv h1" "heap_nodes h1 = heap_nodes h"
      "\<And>S. heap_exact_but S h \<Longrightarrow> heap_exact_but S h1" "\<And>k. hp_keys h1 ! k < 0 \<longleftrightarrow> hp_keys h ! k < 0"
      using heap_swap_live [OF less.prems u(2)] by metis
    note fr = heap_swap_frame [OF h1(1)]
    have "heap_rotup h pos = heap_rotup h1 ?u"
      by (subst heap_rotup.simps) (use True less.prems u h1(1) in \<open>simp add: Let_def heap_compare_live\<close>)
    then show ?thesis using less.IH [OF u(1) h1(2)] u(2) fr h1(3-5) by auto
  qed
qed

section \<open>Heap order\<close>

locale heap_order =
  fixes cmp :: "'d \<Rightarrow> 'd \<Rightarrow> int"
  assumes asym: "cmp x y < 0 \<Longrightarrow> \<not> cmp y x < 0"
    and trans: "\<not> cmp y x < 0 \<Longrightarrow> \<not> cmp z y < 0 \<Longrightarrow> \<not> cmp z x < 0"
begin

abbreviation le :: "'d \<Rightarrow> 'd \<Rightarrow> bool" where "le x y \<equiv> \<not> cmp y x < 0"

definition ordered :: "'d heap_t \<Rightarrow> bool" where
  "ordered h \<longleftrightarrow> hp_cmp h = cmp \<and> (\<forall>i. 0 < i \<longrightarrow> i < hp_size h \<longrightarrow> le (hval h (HEAP_PARENT i)) (hval h i))"

definition ordered_below :: "'d heap_t \<Rightarrow> nat \<Rightarrow> bool" where
  \<comment> \<open>ordered, but for the entry at \<open>pos\<close> being too big\<close>
  "ordered_below h pos \<longleftrightarrow> hp_cmp h = cmp \<and> (\<forall>i. 0 < i \<longrightarrow> i < hp_size h \<longrightarrow>
     (if HEAP_PARENT i = pos then 0 < pos \<longrightarrow> le (hval h (HEAP_PARENT pos)) (hval h i)
      else le (hval h (HEAP_PARENT i)) (hval h i)))"

definition ordered_above :: "'d heap_t \<Rightarrow> nat \<Rightarrow> bool" where
  \<comment> \<open>ordered, but for the entry at \<open>pos\<close> being too small\<close>
  "ordered_above h pos \<longleftrightarrow> hp_cmp h = cmp \<and> (\<forall>i. 0 < i \<longrightarrow> i < hp_size h \<longrightarrow>
     (i \<noteq> pos \<longrightarrow> le (hval h (HEAP_PARENT i)) (hval h i)) \<and>
     (HEAP_PARENT i = pos \<longrightarrow> 0 < pos \<longrightarrow> le (hval h (HEAP_PARENT pos)) (hval h i)))"

lemma le_less: "cmp x y < 0 \<Longrightarrow> le x y"
  using asym by blast

lemma le_refl: "le x x"
  using asym by blast

lemma child_least:
  assumes "hp_cmp h = cmp" "heap_child h pos = Some c" "0 < i" "i < hp_size h" "HEAP_PARENT i = pos"
  shows "le (hval h c) (hval h i)"
  using assms HEAP_PARENT_iff [OF assms(3), of pos] le_less le_refl
  by (auto simp: heap_child_def split: if_splits)

lemma rotdown_ordered:
  assumes "heap_inv h" "ordered_below h pos" "heap_rotdown h pos = Some h'"
  shows "ordered h'"
  using assms
proof (induction "hp_size h - pos" arbitrary: h pos rule: less_induct)
  case less
  have c0: "hp_cmp h = cmp" using less.prems(2) by (simp add: ordered_below_def)
  show ?case
  proof (cases "pos < hp_size h")
    case False
    then have "h' = h" using less.prems(3) by (subst (asm) heap_rotdown.simps) simp
    moreover have "HEAP_PARENT i \<noteq> pos" if "0 < i" "i < hp_size h" for i
      using HEAP_PARENT_less [OF that(1)] that(2) False by linarith
    ultimately show ?thesis using less.prems(2) by (simp add: ordered_def ordered_below_def)
  next
    case True
    note unf = heap_rotdown_unfold [OF less.prems(1) True]
    consider "heap_child h pos = None" | c where "heap_child h pos = Some c" "le (hval h pos) (hval h c)"
      | c where "heap_child h pos = Some c" "cmp (hval h c) (hval h pos) < 0"
      by (cases "heap_child h pos") auto
    then show ?thesis
    proof cases
      case 1
      then have "h' = h" using unf less.prems(3) by simp
      moreover have "HEAP_PARENT i \<noteq> pos" if "0 < i" "i < hp_size h" for i
        using 1 that HEAP_PARENT_iff [OF that(1), of pos] by (auto simp: heap_child_def split: if_splits)
      ultimately show ?thesis using less.prems(2) by (simp add: ordered_def ordered_below_def)
    next
      case (2 c)
      then have "h' = h" using unf less.prems(3) c0 by simp
      moreover have "le (hval h pos) (hval h i)" if "0 < i" "i < hp_size h" "HEAP_PARENT i = pos" for i
        using trans [OF 2(2) child_least [OF c0 2(1) that]] .
      moreover have "le (hval h (HEAP_PARENT i)) (hval h i)" if "0 < i" "i < hp_size h" "HEAP_PARENT i \<noteq> pos" for i
        using less.prems(2) that by (simp add: ordered_below_def)
      ultimately show ?thesis using c0 unfolding ordered_def by metis
    next
      case (3 c)
      note cs = heap_child_Some [OF 3(1)]
      obtain h1 where h1: "heap_swap h pos c = Some h1" "heap_inv h1"
        "hval h1 = (hval h)(pos := hval h c, c := hval h pos)"
        using heap_swap_live [OF less.prems(1) True, of c] cs by metis
      note fr = heap_swap_frame [OF h1(1)]
      have "hp_size h1 - c < hp_size h - pos" using cs True fr by linarith
      moreover have "heap_rotdown h1 c = Some h'" using unf less.prems(3) 3 c0 h1(1) by simp
      moreover have "ordered_below h1 c"
        unfolding ordered_below_def
      proof (intro conjI allI impI)
        show "hp_cmp h1 = cmp" using fr c0 by simp
        fix i
        assume i: "0 < i" "i < hp_size h1"
        then have i': "i < hp_size h" using fr by simp
        have p: "HEAP_PARENT i < i" "HEAP_PARENT c = pos" "c \<noteq> pos" using HEAP_PARENT_less [OF i(1)] cs by auto
        have ob: "if HEAP_PARENT i = pos then 0 < pos \<longrightarrow> le (hval h (HEAP_PARENT pos)) (hval h i)
          else le (hval h (HEAP_PARENT i)) (hval h i)"
          using less.prems(2) i(1) i' by (simp add: ordered_below_def)
        have obc: "0 < pos \<longrightarrow> le (hval h (HEAP_PARENT pos)) (hval h c)"
          using less.prems(2) cs by (auto simp: ordered_below_def)
        have pp: "0 < pos \<longrightarrow> HEAP_PARENT pos < pos" using HEAP_PARENT_less by blast
        show "if HEAP_PARENT i = c then 0 < c \<longrightarrow> le (hval h1 (HEAP_PARENT c)) (hval h1 i)
          else le (hval h1 (HEAP_PARENT i)) (hval h1 i)"
        proof (cases "HEAP_PARENT i = c")
          case True
          then show ?thesis using ob p cs unfolding h1(3) by (auto split: if_splits)
        next
          case np: False
          have "le (hval h1 (HEAP_PARENT i)) (hval h1 i)"
          proof (cases "HEAP_PARENT i = pos")
            case True
            have "le (hval h c) (hval h i)" using child_least [OF c0 3(1) i(1) i' True] .
            then show ?thesis using True p le_less [OF 3(2)] unfolding h1(3) by auto
          next
            case False
            then show ?thesis using ob np p obc pp i(1) unfolding h1(3) by auto
          qed
          then show ?thesis using np by simp
        qed
      qed
      ultimately show ?thesis using less.hyps [OF _ h1(2)] by blast
    qed
  qed
qed

lemma rotup_ordered:
  assumes "heap_inv h" "pos < hp_size h" "ordered_above h pos" "heap_rotup h pos = Some h'"
  shows "ordered h'"
  using assms
proof (induction pos arbitrary: h rule: less_induct)
  case (less pos)
  have c0: "hp_cmp h = cmp" using less.prems(3) by (simp add: ordered_above_def)
  show ?case
  proof (cases "0 < pos \<and> cmp (hval h pos) (hval h (HEAP_PARENT pos)) < 0")
    case False
    then have "heap_rotup h pos = Some h"
      by (subst heap_rotup.simps) (use less.prems HEAP_PARENT_less [of pos] c0 in \<open>auto simp: Let_def heap_compare_live\<close>)
    then show ?thesis using less.prems(3,4) False by (auto simp: ordered_def ordered_above_def)
  next
    case True
    let ?u = "HEAP_PARENT pos"
    have u: "?u < pos" "?u < hp_size h" using HEAP_PARENT_less [of pos] True less.prems(2) by auto
    obtain h1 where h1: "heap_swap h pos ?u = Some h1" "heap_inv h1"
      "hval h1 = (hval h)(pos := hval h ?u, ?u := hval h pos)"
      using heap_swap_live [OF less.prems(1,2) u(2)] by metis
    note fr = heap_swap_frame [OF h1(1)]
    have "heap_rotup h1 ?u = Some h'"
      using less.prems(4)
      by (subst (asm) heap_rotup.simps) (use True less.prems(1,2) u h1(1) c0 in \<open>simp add: Let_def heap_compare_live\<close>)
    moreover have "ordered_above h1 ?u"
      unfolding ordered_above_def
    proof (intro conjI allI impI)
      show "hp_cmp h1 = cmp" using fr c0 by simp
    next
      fix i
      assume i: "0 < i" "i < hp_size h1" "i \<noteq> ?u"
      have p: "HEAP_PARENT i < i" using HEAP_PARENT_less [OF i(1)] .
      have oa: "i \<noteq> pos \<longrightarrow> le (hval h (HEAP_PARENT i)) (hval h i)"
        "HEAP_PARENT i = pos \<longrightarrow> le (hval h ?u) (hval h i)"
        using less.prems(3) i fr True by (auto simp: ordered_above_def)
      show "le (hval h1 (HEAP_PARENT i)) (hval h1 i)"
      proof (cases "i = pos")
        case True
        then show ?thesis using le_less \<open>0 < pos \<and> _\<close> u unfolding h1(3) by auto
      next
        case ip: False
        show ?thesis
        proof (cases "HEAP_PARENT i = ?u")
          case True
          have "le (hval h pos) (hval h i)"
            using trans [OF le_less [OF conjunct2 [OF \<open>0 < pos \<and> _\<close>]]] oa(1) ip True by simp
          then show ?thesis using True ip i(3) u unfolding h1(3) by auto
        next
          case False
          then show ?thesis using oa ip i(3) u p unfolding h1(3) by auto
        qed
      qed
    next
      fix i
      assume i: "0 < i" "i < hp_size h1" "HEAP_PARENT i = ?u" "0 < ?u"
      have uu: "HEAP_PARENT ?u < ?u" using HEAP_PARENT_less [OF i(4)] .
      have up: "le (hval h (HEAP_PARENT ?u)) (hval h ?u)"
        using less.prems(3) u i(4) by (auto simp: ordered_above_def)
      have "le (hval h (HEAP_PARENT ?u)) (hval h i)" if "i \<noteq> pos"
      proof -
        have "le (hval h (HEAP_PARENT i)) (hval h i)"
          using less.prems(3) i(1,2) fr that by (simp add: ordered_above_def)
        then show ?thesis unfolding i(3) by (rule trans [OF up])
      qed
      then show "le (hval h1 (HEAP_PARENT ?u)) (hval h1 i)"
        using up uu u i(3) HEAP_PARENT_less [OF i(1)] unfolding h1(3) by auto
    qed
    ultimately show ?thesis using less.IH [OF u(1) h1(2)] u(2) fr by auto
  qed
qed

lemma ordered_top:
  assumes "ordered h" "i < hp_size h"
  shows "le (hval h 0) (hval h i)"
  using assms(2)
proof (induction i rule: less_induct)
  case (less i)
  show ?case
  proof (cases "0 < i")
    case True
    then have "HEAP_PARENT i < i" by (rule HEAP_PARENT_less)
    then show ?thesis using trans [OF less.IH] assms(1) True less.prems by (auto simp: ordered_def)
  next
    case False
    then show ?thesis using asym by auto
  qed
qed

end

section \<open>Insertion\<close>

lemma next_key_loop_spec:
  assumes "stop < cap" "length ks = cap" "(key + d) mod cap = stop" "d < cap"
  shows "\<exists>r. next_key_loop ks cap (int stop) (key mod cap) = Some r \<and>
    (r = int cap \<and> (\<forall>i < d. 0 \<le> ks ! ((key + i) mod cap)) \<or>
     0 \<le> r \<and> nat r < cap \<and> ks ! nat r < 0)"
  using assms(3,4)
proof (induction d arbitrary: key)
  case 0
  then show ?case by (subst next_key_loop.simps) simp
next
  case (Suc d)
  have lt: "key mod cap < length ks" using assms(1,2) by simp
  show ?case
  proof (cases "key mod cap = stop")
    case True
    have "(key + 0) mod cap = (key + Suc d) mod cap" using True Suc.prems(1) by simp
    then have False using rot_inj [of 0 cap "Suc d" key] Suc.prems(2) assms(1) by simp
    then show ?thesis ..
  next
    case False
    show ?thesis
    proof (cases "ks ! (key mod cap) < 0")
      case True
      then show ?thesis using False lt assms(2) by (subst next_key_loop.simps) auto
    next
      case nonneg: False
      have e: "next_key_loop ks cap (int stop) (key mod cap) = next_key_loop ks cap (int stop) (Suc key mod cap)"
        by (subst next_key_loop.simps) (use False lt nonneg in \<open>simp add: mod_simps\<close>)
      have "(Suc key + d) mod cap = stop" using Suc.prems(1) by simp
      from Suc.IH [OF this] obtain r where r: "next_key_loop ks cap (int stop) (Suc key mod cap) = Some r"
        "r = int cap \<and> (\<forall>i < d. 0 \<le> ks ! ((Suc key + i) mod cap)) \<or> 0 \<le> r \<and> nat r < cap \<and> ks ! nat r < 0"
        using Suc.prems(2) by auto
      have "(\<forall>i < d. 0 \<le> ks ! ((Suc key + i) mod cap)) \<Longrightarrow> (\<forall>i < Suc d. 0 \<le> ks ! ((key + i) mod cap))"
        using nonneg by (auto simp: less_Suc_eq_0_disj)
      then show ?thesis using e r by auto
    qed
  qed
qed

lemma heap_set_next_key_spec:
  assumes "0 \<le> hp_next h" "nat (hp_next h) < hp_cap h" "length (hp_keys h) = hp_cap h"
    and "0 \<le> hp_keys h ! nat (hp_next h)"
  obtains r where "heap_set_next_key h = Some (h\<lparr>hp_next := r\<rparr>)"
    "r = int (hp_cap h) \<and> (\<forall>k < hp_cap h. 0 \<le> hp_keys h ! k) \<or>
     0 \<le> r \<and> nat r < hp_cap h \<and> hp_keys h ! nat r < 0"
proof -
  define s c where "s = nat (hp_next h)" and "c = hp_cap h"
  have s: "s < c" "hp_next h = int s" using assms by (auto simp: s_def c_def)
  have d: "(Suc s + (c - 1)) mod c = s" "c - 1 < c" using s by auto
  obtain r where r: "next_key_loop (hp_keys h) c (int s) (Suc s mod c) = Some r"
    "r = int c \<and> (\<forall>i < c - 1. 0 \<le> hp_keys h ! ((Suc s + i) mod c)) \<or> 0 \<le> r \<and> nat r < c \<and> hp_keys h ! nat r < 0"
    using next_key_loop_spec [OF s(1) assms(3) [folded c_def] d] by blast
  have "0 \<le> hp_keys h ! k" if "k < c" "\<forall>i < c - 1. 0 \<le> hp_keys h ! ((Suc s + i) mod c)" for k
  proof (cases "k = s")
    case True
    then show ?thesis using assms(4) by (simp add: s_def)
  next
    case False
    define i where "i = (if s < k then k - Suc s else k + c - Suc s)"
    have "i < c - 1" "Suc s + i = k \<or> Suc s + i = k + c" using False that(1) s(1) by (auto simp: i_def)
    then have "i < c - 1" "(Suc s + i) mod c = k" using that(1) by auto
    then show ?thesis using that(2) by auto
  qed
  moreover have "heap_set_next_key h = Some (h\<lparr>hp_next := r\<rparr>)"
    using r(1) s by (simp add: heap_set_next_key_def c_def nat_add_distrib)
  ultimately show thesis using that r(2) by (auto simp: c_def)
qed

lemma heap_full_keys:
  assumes "heap_inv h" "hp_size h = hp_cap h" "k < hp_cap h"
  shows "0 \<le> hp_keys h ! k"
proof -
  let ?f = "\<lambda>i. nat (hn_key (hp_array h ! i))"
  have "inj_on ?f {..< hp_cap h}"
  proof (rule inj_onI)
    fix i j assume ij: "i \<in> {..< hp_cap h}" "j \<in> {..< hp_cap h}" "?f i = ?f j"
    have l: "i < hp_size h" "j < hp_size h" using ij(1,2) assms(2) by auto
    have "hn_key (hp_array h ! i) = hn_key (hp_array h ! j)"
      using ij(3) eq_nat_nat_iff [OF heap_inv_node(3) [OF assms(1) l(1)] heap_inv_node(3) [OF assms(1) l(2)]] by (rule iffD1 [rotated])
    then show "i = j" by (rule heap_key_inj [OF assms(1) l])
  qed
  moreover have "?f ` {..< hp_cap h} \<subseteq> {..< hp_cap h}"
    using assms(1,2) by (auto simp: heap_inv_def)
  ultimately have "?f ` {..< hp_cap h} = {..< hp_cap h}" by (intro endo_inj_surj) auto
  then have "k \<in> ?f ` {..< hp_cap h}" using assms(3) by blast
  then obtain i where i: "i < hp_size h" "k = ?f i" using assms(2) by auto
  show ?thesis unfolding i(2) heap_inv_node(5) [OF assms(1) i(1)] by simp
qed

lemma heap_exact_full:
  assumes "heap_inv h" "heap_exact h" "\<forall>k < hp_cap h. 0 \<le> hp_keys h ! k"
  shows "hp_size h = hp_cap h"
proof -
  let ?g = "\<lambda>k. nat (hp_keys h ! k)"
  have "inj_on ?g {..< hp_cap h}"
  proof (rule inj_onI)
    fix k l assume "k \<in> {..< hp_cap h}" "l \<in> {..< hp_cap h}" "?g k = ?g l"
    then show "k = l" using assms(2,3) unfolding heap_exact_def by (metis lessThan_iff of_nat_eq_iff)
  qed
  moreover have "?g ` {..< hp_cap h} \<subseteq> {..< hp_size h}"
    using assms(2,3) by (auto simp: heap_exact_def)
  ultimately have "card {..< hp_cap h} \<le> card {..< hp_size h}" by (rule card_inj_on_le) simp
  then show ?thesis using assms(1) by (simp add: heap_inv_def)
qed

definition heap_room :: "'d heap_t \<Rightarrow> 'd heap_t" where
  \<comment> \<open>the heap after the growth at the start of an insertion\<close>
  "heap_room h = (if hp_size h = hp_cap h then h\<lparr>hp_array := hp_array h @ replicate (hp_cap h) hnode_init,
     hp_keys := hp_keys h @ replicate (hp_cap h) (-1), hp_cap := hp_cap h * 2\<rparr> else h)"

lemma heap_room_live:
  assumes "heap_inv h" "heap_next_ok h"
  shows "heap_inv (heap_room h)" "hp_size (heap_room h) < hp_cap (heap_room h)"
    "0 \<le> hp_next h" "nat (hp_next h) < hp_cap (heap_room h)" "hp_keys (heap_room h) ! nat (hp_next h) < 0"
    "heap_exact h \<Longrightarrow> heap_exact (heap_room h)" "heap_nodes (heap_room h) = heap_nodes h"
    "i < hp_size h \<Longrightarrow> hval (heap_room h) i = hval h i"
    "hp_size (heap_room h) = hp_size h" "hp_cmp (heap_room h) = hp_cmp h" "hp_next (heap_room h) = hp_next h"
proof -
  have lens: "length (hp_array h) = hp_cap h" "length (hp_keys h) = hp_cap h" "hp_size h \<le> hp_cap h" "0 < hp_cap h"
    using assms(1) by (auto simp: heap_inv_def)
  have full: "hp_next h = int (hp_cap h)" if "hp_size h = hp_cap h"
    using heap_full_keys [OF assms(1) that] assms(2) that by (force simp: heap_next_ok_def split: if_splits)
  show "heap_inv (heap_room h)" using assms(1) by (auto simp: heap_inv_def heap_room_def nth_append)
  show "hp_size (heap_room h) < hp_cap (heap_room h)" using lens by (auto simp: heap_room_def)
  show "0 \<le> hp_next h" using assms(2) by (auto simp: heap_next_ok_def split: if_splits)
  show "nat (hp_next h) < hp_cap (heap_room h)" "hp_keys (heap_room h) ! nat (hp_next h) < 0"
    using assms(2) full lens by (auto simp: heap_room_def heap_next_ok_def nth_append split: if_splits)
  show "heap_exact (heap_room h)" if "heap_exact h"
  proof -
    have "nat (hp_keys h ! k) < hp_cap h" if "k < hp_cap h" "0 \<le> hp_keys h ! k" for k
      using \<open>heap_exact h\<close> that lens(3) by (force simp: heap_exact_def)
    then show ?thesis using that lens by (auto simp: heap_exact_def heap_room_def nth_append)
  qed
  show "heap_nodes (heap_room h) = heap_nodes h" using lens by (simp add: heap_nodes_def heap_room_def)
  show "hval (heap_room h) i = hval h i" if "i < hp_size h"
    using that lens by (simp add: hval_def heap_room_def nth_append)
qed (auto simp: heap_room_def)

lemma heap_insert_live:
  assumes "heap_inv h" "heap_next_ok h"
  obtains h1 h2 h' where
    "heap_insert True True (Some h) (Some d) = Some (Some h', hp_next h)"
    "heap_inv h2" "heap_rotup h2 (hp_size h) = Some h'" "hp_size h2 = hp_size h + 1" "hp_cmp h2 = hp_cmp h"
    "\<And>i. i < hp_size h \<Longrightarrow> hval h2 i = hval h i" "hval h2 (hp_size h) = d"
    "heap_inv h'" "hp_size h' = hp_size h + 1" "hp_cmp h' = hp_cmp h"
    "heap_nodes h' = add_mset \<lparr>hn_data = Some d, hn_key = hp_next h\<rparr> (heap_nodes h)"
    "heap_exact h \<Longrightarrow> heap_exact h' \<and> heap_next_ok h'"
proof -
  note room = heap_room_live [OF assms]
  define g n k where "g = heap_room h" and "n = hp_size h" and "k = nat (hp_next h)"
  have lens: "length (hp_array g) = hp_cap g" "length (hp_keys g) = hp_cap g" "n < hp_cap g" "hp_size g = n"
    using room(1,2,9) by (auto simp: heap_inv_def g_def n_def)
  have k: "hp_next h = int k" "k < hp_cap g" "hp_keys g ! k < 0" "hp_next g = int k"
    using room(3,4,5,11) by (auto simp: k_def g_def)
  let ?node = "\<lparr>hn_data = Some d, hn_key = int k\<rparr>"
  define p where "p = g\<lparr>hp_array := (hp_array g)[n := ?node], hp_size := n + 1, hp_keys := (hp_keys g)[k := int n]\<rparr>"
  obtain r where r: "heap_set_next_key p = Some (p\<lparr>hp_next := r\<rparr>)"
    "r = int (hp_cap p) \<and> (\<forall>k < hp_cap p. 0 \<le> hp_keys p ! k) \<or> 0 \<le> r \<and> nat r < hp_cap p \<and> hp_keys p ! nat r < 0"
    by (rule heap_set_next_key_spec [of p]) (use k lens in \<open>auto simp: p_def\<close>)
  define h2 where "h2 = p\<lparr>hp_next := r\<rparr>"
  have key_ne: "nat (hn_key (hp_array g ! i)) \<noteq> k" if "i < n" for i
    using heap_inv_node(5) [OF room(1), of i, folded g_def] that lens(4) k(3) by auto
  have inv2: "heap_inv h2"
  proof -
    have "hn_data (hp_array h2 ! i) \<noteq> None \<and> 0 \<le> hn_key (hp_array h2 ! i) \<and>
          nat (hn_key (hp_array h2 ! i)) < hp_cap h2 \<and> hp_keys h2 ! nat (hn_key (hp_array h2 ! i)) = int i" if "i < n + 1" for i
    proof (cases "i = n")
      case True
      then show ?thesis using lens k by (simp add: h2_def p_def)
    next
      case False
      then have i: "i < hp_size g" using that lens by simp
      show ?thesis
        using heap_inv_node [OF room(1) [folded g_def] i] False key_ne [of i] that lens by (simp add: h2_def p_def)
    qed
    then show ?thesis using lens by (simp add: heap_inv_def h2_def p_def)
  qed
  have exact2: "heap_exact h2" if "heap_exact h"
  proof -
    have ex: "heap_exact g" using room(6) that by (simp add: g_def)
    then show ?thesis using lens k by (auto simp: heap_exact_def h2_def p_def nth_list_update less_Suc_eq)
  qed
  have size2: "hp_size h2 = n + 1" "n < hp_size h2" by (simp_all add: h2_def p_def)
  obtain h' where h': "heap_rotup h2 n = Some h'" "heap_inv h'" "heap_nodes h' = heap_nodes h2"
    "hp_size h' = n + 1" "hp_cap h' = hp_cap h2" "hp_cmp h' = hp_cmp h2" "hp_next h' = hp_next h2"
    "\<forall>S. heap_exact_but S h2 \<longrightarrow> heap_exact_but S h'" "\<forall>k. hp_keys h' ! k < 0 \<longleftrightarrow> hp_keys h2 ! k < 0"
    using heap_rotup_live [OF inv2 size2(2)] size2(1) by auto
  have exec: "heap_insert True True (Some h) (Some d) = Some (Some h', hp_next h)"
  proof -
    have "(if heap_full h = 0 then heap_realloc True True h else Some (h, 0)) = Some (g, 0)"
      using assms(1) by (simp add: heap_full_def heap_realloc_def g_def heap_room_def rd_n_def heap_inv_def)
    then show ?thesis using lens k r(1) h'(1) by (simp add: Let_def p_def h2_def)
  qed
  have nodes2: "heap_nodes h2 = add_mset ?node (heap_nodes h)"
    using lens room(7) by (simp add: heap_nodes_def h2_def p_def g_def take_Suc_conv_app_nth)
  have next': "heap_next_ok h'" if "heap_exact h"
  proof -
    have "hp_size h' = hp_cap h'" if "\<forall>k < hp_cap h'. 0 \<le> hp_keys h' ! k"
      using heap_exact_full [OF h'(2) _ that] h'(8) exact2 \<open>heap_exact h\<close> by blast
    moreover have "(0 \<le> hp_keys h' ! k) = (0 \<le> hp_keys h2 ! k)" for k
      using h'(9) by (metis not_le)
    moreover have "hp_next h' = r" "hp_cap h' = hp_cap p" "hp_keys h2 = hp_keys p"
      using h'(5,7) by (simp_all add: h2_def)
    ultimately show ?thesis using r(2) h'(9) by (auto simp: heap_next_ok_def)
  qed
  show thesis
  proof (rule that [OF exec inv2])
    show "heap_rotup h2 (hp_size h) = Some h'" using h'(1) by (simp add: n_def)
    show "hp_size h2 = hp_size h + 1" using size2 by (simp add: n_def)
    show "hp_cmp h2 = hp_cmp h" using room(10) by (simp add: h2_def p_def g_def)
    then show "hp_cmp h' = hp_cmp h" using h'(6) by simp
    show "hval h2 i = hval h i" if "i < hp_size h" for i
      using room(8) [OF that] that by (simp add: hval_def h2_def p_def n_def g_def)
    show "hval h2 (hp_size h) = d" using lens by (simp add: hval_def h2_def p_def n_def)
    show "heap_inv h'" by (rule h'(2))
    show "hp_size h' = hp_size h + 1" using h'(4) by (simp add: n_def)
    show "heap_nodes h' = add_mset \<lparr>hn_data = Some d, hn_key = hp_next h\<rparr> (heap_nodes h)"
      using h'(3) nodes2 k(1) by simp
    show "heap_exact h' \<and> heap_next_ok h'" if "heap_exact h" using that h'(8) exact2 next' by blast
  qed
qed

section \<open>Removal\<close>

lemma heap_shrink_inv:
  assumes "heap_inv h" "0 < hp_size h"
  shows "heap_inv (h\<lparr>hp_size := hp_size h - 1\<rparr>)"
  using assms by (auto simp: heap_inv_def)

lemma heap_shrink_nodes:
  assumes "heap_inv h" "0 < hp_size h"
  shows "heap_nodes h = add_mset (hp_array h ! (hp_size h - 1)) (heap_nodes (h\<lparr>hp_size := hp_size h - 1\<rparr>))"
proof -
  obtain n where n: "hp_size h = Suc n" using assms(2) by (cases "hp_size h") auto
  then have "n < length (hp_array h)" using assms(1) by (simp add: heap_inv_def)
  then show ?thesis using n by (simp add: heap_nodes_def take_Suc_conv_app_nth)
qed

lemma heap_pop_live:
  assumes "heap_inv h" "0 < hp_size h"
  obtains h1 h' where "heap_pop (Some h) = Some (Some h', Some (hval h 0))"
    "heap_inv h1" "heap_rotdown h1 0 = Some h'" "hp_size h1 = hp_size h - 1" "hp_cmp h1 = hp_cmp h"
    "\<And>i. 0 < i \<Longrightarrow> i < hp_size h - 1 \<Longrightarrow> hval h1 i = hval h i"
    "heap_inv h'" "hp_size h' = hp_size h - 1" "hp_cmp h' = hp_cmp h"
    "heap_nodes h = add_mset (hp_array h ! 0) (heap_nodes h')"
proof -
  let ?n = "hp_size h - 1"
  have n: "?n < hp_size h" using assms(2) by simp
  obtain s where s: "heap_swap h 0 ?n = Some s" "heap_inv s" "heap_nodes s = heap_nodes h"
    "hval s = (hval h)(0 := hval h ?n, ?n := hval h 0)"
    "hp_array s = (hp_array h)[0 := hp_array h ! ?n, ?n := hp_array h ! 0]"
    using heap_swap_live [OF assms n] by metis
  note fr = heap_swap_frame [OF s(1)]
  define h1 where "h1 = s\<lparr>hp_size := ?n\<rparr>"
  have inv1: "heap_inv h1" using heap_shrink_inv [OF s(2)] fr assms(2) by (simp add: h1_def)
  have nodes1: "heap_nodes h = add_mset (hp_array h ! 0) (heap_nodes h1)"
    using heap_shrink_nodes [OF s(2)] fr assms s(3,5) heap_inv_node(1) [OF assms(1) n] by (simp add: h1_def)
  obtain h' where h': "heap_rotdown h1 0 = Some h'" "heap_inv h'" "heap_nodes h' = heap_nodes h1"
    "hp_size h' = hp_size h1" "hp_cmp h' = hp_cmp h1"
    using heap_rotdown_live [OF inv1, of 0] by auto
  have "heap_pop (Some h) = Some (Some h', Some (hval h 0))"
    using assms s(1) h'(1) fr heap_inv_node(1,2) [OF assms] by (simp add: h1_def)
  moreover have "hval h1 i = hval h i" if "0 < i" "i < ?n" for i
    using s(4) that by (simp add: h1_def hval_def fun_eq_iff)
  ultimately show thesis using that [of h' h1] inv1 h' nodes1 fr by (simp add: h1_def)
qed

lemma heap_erase_live:
  assumes inv: "heap_inv h" and ex: "heap_exact h" and nx: "heap_next_ok h"
    and k: "k < hp_cap h" "0 \<le> hp_keys h ! k"
  obtains h' n where "heap_erase (Some h) (int k) = Some (Some h', hn_data n)" "hn_key n = int k"
    "heap_nodes h = add_mset n (heap_nodes h')" "heap_inv h'" "heap_exact h'" "heap_next_ok h'" "hp_cap h' = hp_cap h"
proof -
  define i m where "i = nat (hp_keys h ! k)" and "m = hp_size h - 1"
  have i: "i < hp_size h" "hn_key (hp_array h ! i) = int k" "hp_keys h ! k = int i"
    using ex k by (auto simp: heap_exact_def i_def)
  then have m: "m < hp_size h" "0 < hp_size h" by (auto simp: m_def)
  define g where "g = (if hp_next h = int (hp_cap h) then h\<lparr>hp_next := int k\<rparr> else h)"
  have g: "heap_inv g" "heap_exact g" "hp_size g = hp_size h" "hp_array g = hp_array h" "hp_keys g = hp_keys h"
    "hp_cap g = hp_cap h" "heap_nodes g = heap_nodes h"
    using inv ex by (auto simp: g_def heap_inv_def heap_exact_def heap_nodes_def)
  obtain s where s: "heap_swap g i m = Some s" "heap_inv s" "heap_nodes s = heap_nodes h"
    "hp_array s = (hp_array h)[i := hp_array h ! m, m := hp_array h ! i]" "heap_exact s"
    "\<And>k. hp_keys s ! k < 0 \<longleftrightarrow> hp_keys h ! k < 0"
    using heap_swap_live [OF g(1), of i m] i(1) m(1) g by metis
  note fr = heap_swap_frame [OF s(1)]
  have last: "hn_key (hp_array s ! m) = int k"
    using i(2) heap_inv_node(1) [OF inv m(1)] by (simp add: s(4))
  define t where "t = s\<lparr>hp_size := m\<rparr>"
  have inv_t: "heap_inv t" using heap_shrink_inv [OF s(2)] fr g m by (simp add: t_def m_def)
  have nodes_t: "heap_nodes h = add_mset (hp_array s ! m) (heap_nodes t)"
    using heap_shrink_nodes [OF s(2)] fr g m s(3) by (simp add: t_def m_def)
  have other: "hn_key x \<noteq> int k" if x: "x \<in># heap_nodes t" for x
  proof -
    obtain j where "j < m" "x = hp_array s ! j"
      using x heap_inv_node(1) [OF inv m(1)] by (auto simp: heap_nodes_def t_def in_set_conv_nth)
    then show ?thesis using heap_key_inj [OF s(2), of j m] last fr g m by auto
  qed
  have ext: "heap_exact_but {k} t"
  proof -
    have "nat (hp_keys s ! j) < m" if j: "j < hp_cap s" "j \<noteq> k" "0 \<le> hp_keys s ! j" for j
    proof -
      have "nat (hp_keys s ! j) < hp_size s" "hn_key (hp_array s ! nat (hp_keys s ! j)) = int j"
        using s(5) j by (auto simp: heap_exact_def)
      moreover have "nat (hp_keys s ! j) \<noteq> m" using calculation(2) last j(2) by auto
      ultimately show ?thesis using fr g by (simp add: m_def)
    qed
    then show ?thesis using s(5) by (simp add: heap_exact_def heap_exact_but_def t_def)
  qed
  obtain u where u: "heap_rotdown t i = Some u" "heap_inv u" "heap_nodes u = heap_nodes t" "hp_size u = m"
    "hp_cap u = hp_cap h" "hp_next u = hp_next g" "heap_exact_but {k} u" "\<And>k. hp_keys u ! k < 0 \<longleftrightarrow> hp_keys h ! k < 0"
    using heap_rotdown_live [OF inv_t, of i] ext fr g(6) s(6) by (auto simp: t_def)
  define v where "v = u\<lparr>hp_keys := (hp_keys u)[k := -1]\<rparr>"
  have lens: "length (hp_keys u) = hp_cap h" using u(2,5) by (simp add: heap_inv_def)
  have "heap_erase (Some h) (int k) = Some (Some v, hn_data (hp_array h ! i))"
  proof -
    have "rdi (hp_keys h) (int k) = Some (int i)" "rdi (hp_array h) (int i) = Some (hp_array h ! i)"
      "wri (hp_keys u) (int k) (-1) = Some ((hp_keys u)[k := -1])" "c_assert (0 < hp_size g) = Some ()"
      "hp_size g - 1 = m" "hp_size s - 1 = m"
      using k i inv g m lens fr heap_inv_node(1) [OF inv i(1)] by (simp_all add: heap_inv_def m_def)
    then show ?thesis
      using s(1) u(1)
      by (simp only: heap_erase.simps Option.bind_lunit Let_def g_def [symmetric] nat_int t_def [symmetric] v_def of_nat_less_0_iff if_False)
  qed
  moreover have "heap_inv v"
  proof -
    have "nat (hn_key (hp_array u ! j)) \<noteq> k" if "j < m" for j
    proof -
      have j: "j < hp_size u" using that u(4) by simp
      then have "hp_array u ! j \<in># heap_nodes t"
        using u(3) [symmetric] heap_inv_node(1) [OF u(2) j] by (auto simp: heap_nodes_def in_set_conv_nth)
      then show ?thesis using other heap_inv_node(3) [OF u(2) j] by fastforce
    qed
    then have "(hp_keys u)[k := -1] ! nat (hn_key (hp_array u ! j)) = hp_keys u ! nat (hn_key (hp_array u ! j))" if "j < m" for j
      using that by (metis nth_list_update_neq)
    then show ?thesis using u(2,4) by (simp add: heap_inv_def v_def)
  qed
  moreover have "heap_exact v"
    using u(7) lens u(5) k(1) by (auto simp: heap_exact_def heap_exact_but_def v_def nth_list_update split: if_splits)
  moreover have "heap_next_ok v"
    using nx k lens u(5,6,8) by (auto simp: heap_next_ok_def v_def g_def nth_list_update split: if_splits)
  moreover have "heap_nodes h = add_mset (hp_array h ! i) (heap_nodes v)"
  proof -
    have "hp_array s ! m = hp_array h ! i" using heap_inv_node(1) [OF inv m(1)] by (simp add: s(4))
    then show ?thesis using nodes_t u(3) by (simp add: v_def heap_nodes_def)
  qed
  ultimately show thesis using that [of v "hp_array h ! i"] i(2) u(5) by (simp add: v_def)
qed

section \<open>Keys as handles\<close>

definition heap_good :: "'d heap_t \<Rightarrow> bool" where
  "heap_good h \<longleftrightarrow> heap_inv h \<and> heap_exact h \<and> heap_next_ok h"

definition heap_map :: "'d heap_t \<Rightarrow> int \<Rightarrow> 'd option" where
  "heap_map h k = (if 0 \<le> k \<and> nat k < hp_cap h \<and> 0 \<le> hp_keys h ! nat k
     then hn_data (hp_array h ! nat (hp_keys h ! nat k)) else None)"

lemma heap_map_iff:
  assumes "heap_inv h" "heap_exact h"
  shows "heap_map h k = Some d \<longleftrightarrow> \<lparr>hn_data = Some d, hn_key = k\<rparr> \<in># heap_nodes h"
proof
  assume "heap_map h k = Some d"
  then have k: "0 \<le> k" "nat k < hp_cap h" "0 \<le> hp_keys h ! nat k" and d: "hn_data (hp_array h ! nat (hp_keys h ! nat k)) = Some d"
    by (auto simp: heap_map_def split: if_splits)
  define i where "i = nat (hp_keys h ! nat k)"
  have i: "i < hp_size h" "hn_key (hp_array h ! i) = k" using assms(2) k by (auto simp: heap_exact_def i_def)
  then have "hp_array h ! i = \<lparr>hn_data = Some d, hn_key = k\<rparr>" using d by (simp add: i_def)
  moreover have "hp_array h ! i \<in># heap_nodes h"
    using i(1) heap_inv_node(1) [OF assms(1) i(1)] by (auto simp: heap_nodes_def in_set_conv_nth)
  ultimately show "\<lparr>hn_data = Some d, hn_key = k\<rparr> \<in># heap_nodes h" by simp
next
  assume "\<lparr>hn_data = Some d, hn_key = k\<rparr> \<in># heap_nodes h"
  then obtain i where i: "i < hp_size h" "hp_array h ! i = \<lparr>hn_data = Some d, hn_key = k\<rparr>"
    by (auto simp: heap_nodes_def in_set_conv_nth)
  have "length (hp_keys h) = hp_cap h" using assms(1) by (simp add: heap_inv_def)
  then have k: "0 \<le> k" "nat k < hp_cap h" and e: "hp_keys h ! nat k = int i"
    using heap_inv_node(3) [OF assms(1) i(1)] heap_inv_node(4) [OF assms(1) i(1)]
      heap_inv_node(5) [OF assms(1) i(1)] unfolding i(2) hnode.simps by (simp_all only:)
  from k show "heap_map h k = Some d" unfolding heap_map_def e nat_int i(2) by simp
qed

lemma heap_map_ext:
  assumes "\<And>d. f = Some d \<longleftrightarrow> g = Some d"
  shows "f = g"
  using assms by (metis not_None_eq)

lemma mset_distinct_notin:
  assumes "distinct xs" "mset xs = add_mset a M"
  shows "a \<notin># M"
proof -
  have "count (add_mset a M) a \<le> 1"
    using assms(1) unfolding distinct_count_atmost_1 assms(2) [symmetric] by (metis le_numeral_extra(3,4) zero_le_one)
  then show ?thesis by (simp add: not_in_iff)
qed

lemma heap_keys_distinct:
  assumes "heap_inv h" "heap_nodes h = add_mset n N" "y \<in># N"
  shows "hn_key n \<noteq> hn_key y"
proof
  assume e: "hn_key n = hn_key y"
  have "distinct (map hn_key (take (hp_size h) (hp_array h)))"
    using heap_key_inj [OF assms(1)] heap_inv_node(1) [OF assms(1)] by (auto simp: distinct_conv_nth)
  moreover have "mset (map hn_key (take (hp_size h) (hp_array h))) = add_mset (hn_key n) (image_mset hn_key N)"
    using assms(2) by (simp add: heap_nodes_def)
  ultimately have "hn_key n \<notin># image_mset hn_key N"
    by (rule mset_distinct_notin)
  then show False using e assms(3) by auto
qed

text \<open>C27: keys are handles: as long as entries leave only through \<^verbatim>\<open>heap_erase\<close>, an insertion returns an
  unused key and binds it to the datum, an erasure by key removes exactly the datum
  inserted under it and nothing else, and no access leaves the arrays, growth included.\<close>
theorem heap_keys_refine_map:
  assumes "heap_good h" "k < hp_cap h"
  shows "(\<exists>h' key. heap_insert True True (Some h) (Some d) = Some (Some h', key) \<and> heap_good h' \<and>
      heap_map h key = None \<and> heap_map h' = (heap_map h)(key \<mapsto> d)) \<and>
    (\<exists>h'. heap_erase (Some h) (int k) = Some (Some h', heap_map h (int k)) \<and> heap_good h' \<and>
      heap_map h' = (heap_map h)(int k := None))"
proof
  have g: "heap_inv h" "heap_exact h" "heap_next_ok h" using assms(1) by (auto simp: heap_good_def)
  obtain h' where h': "heap_insert True True (Some h) (Some d) = Some (Some h', hp_next h)" "heap_inv h'"
    "heap_nodes h' = add_mset \<lparr>hn_data = Some d, hn_key = hp_next h\<rparr> (heap_nodes h)" "heap_exact h'" "heap_next_ok h'"
    using heap_insert_live [OF g(1,3), of d] g(2) by metis
  have new: "\<lparr>hn_data = x, hn_key = hp_next h\<rparr> \<notin># heap_nodes h" for x
    using heap_keys_distinct [OF h'(2,3), of "\<lparr>hn_data = x, hn_key = hp_next h\<rparr>"] by auto
  have "heap_map h (hp_next h) = None"
    using heap_map_iff [OF g(1,2)] new by (metis not_None_eq)
  moreover have "heap_map h' = (heap_map h)(hp_next h \<mapsto> d)"
  proof
    fix j
    show "heap_map h' j = ((heap_map h)(hp_next h \<mapsto> d)) j"
      by (rule heap_map_ext)
        (use new in \<open>auto simp: heap_map_iff [OF h'(2,4)] heap_map_iff [OF g(1,2)] h'(3)\<close>)
  qed
  ultimately show "\<exists>h' key. heap_insert True True (Some h) (Some d) = Some (Some h', key) \<and> heap_good h' \<and>
      heap_map h key = None \<and> heap_map h' = (heap_map h)(key \<mapsto> d)"
    using h' by (auto simp: heap_good_def simp del: heap_insert.simps)
next
  have g: "heap_inv h" "heap_exact h" "heap_next_ok h" using assms(1) by (auto simp: heap_good_def)
  show "\<exists>h'. heap_erase (Some h) (int k) = Some (Some h', heap_map h (int k)) \<and> heap_good h' \<and>
      heap_map h' = (heap_map h)(int k := None)"
  proof (cases "0 \<le> hp_keys h ! k")
    case False
    then have "heap_erase (Some h) (int k) = Some (Some h, None)" "heap_map h (int k) = None"
      using g(1) assms(2) by (simp_all add: heap_inv_def heap_map_def)
    then show ?thesis using assms(1) by (auto simp: fun_eq_iff simp del: heap_erase.simps)
  next
    case True
    obtain h' n where h': "heap_erase (Some h) (int k) = Some (Some h', hn_data n)" "hn_key n = int k"
      "heap_nodes h = add_mset n (heap_nodes h')" "heap_inv h'" "heap_exact h'" "heap_next_ok h'"
      using heap_erase_live [OF g assms(2) True] by metis
    have live: "hn_data x \<noteq> None" if x: "x \<in># heap_nodes h" for x
      using x g(1) by (auto simp: heap_nodes_def heap_inv_def in_set_conv_nth)
    have "hn_data n \<noteq> None" by (rule live) (simp add: h'(3))
    then obtain d where d: "n = \<lparr>hn_data = Some d, hn_key = int k\<rparr>" using h'(2) by (cases n) auto
    have old: "\<lparr>hn_data = x, hn_key = int k\<rparr> \<notin># heap_nodes h'" for x
      using heap_keys_distinct [OF g(1) h'(3), of "\<lparr>hn_data = x, hn_key = int k\<rparr>"] h'(2) by auto
    have "heap_map h (int k) = hn_data n"
      using heap_map_iff [OF g(1,2), of "int k" d] h'(3) d by simp
    moreover have "heap_map h' = (heap_map h)(int k := None)"
    proof
      fix j
      show "heap_map h' j = ((heap_map h)(int k := None)) j"
        by (rule heap_map_ext)
          (use old in \<open>auto simp: heap_map_iff [OF h'(4,5)] heap_map_iff [OF g(1,2)] h'(3) d\<close>)
    qed
    ultimately show ?thesis using h' by (auto simp: heap_good_def simp del: heap_erase.simps)
  qed
qed

lemma heap_create_good:
  assumes "heap_create cmp True True True = Some h"
  shows "heap_good h" "hp_size h = 0" "hp_cmp h = cmp" "heap_nodes h = {#}" "hp_cap h = 16"
  using assms by (auto simp: heap_create_def heap_good_def heap_inv_def heap_exact_def heap_next_ok_def
    heap_nodes_def HEAP_DEFAULT_SIZE_def)

lemma heap_keys_refine_map_witness:
  defines "h \<equiv> the (heap_create (\<lambda>x y. int x - int y) True True True)"
  shows "(\<exists>h' key. heap_insert True True (Some h) (Some (7 :: nat)) = Some (Some h', key) \<and> heap_good h' \<and>
      heap_map h key = None \<and> heap_map h' = (heap_map h)(key \<mapsto> 7)) \<and>
    (\<exists>h'. heap_erase (Some h) (int 3) = Some (Some h', heap_map h (int 3)) \<and> heap_good h' \<and>
      heap_map h' = (heap_map h)(int 3 := None))"
proof (rule heap_keys_refine_map)
  have "heap_create (\<lambda>x y. int x - int y) True True True = Some h" by (simp add: h_def heap_create_def)
  from heap_create_good(1,5) [OF this] show "heap_good h" "3 < hp_cap h" by auto
qed

section \<open>Sorting\<close>

context heap_order
begin

lemma insert_ordered:
  assumes "heap_inv h" "heap_next_ok h" "ordered h" "heap_insert True True (Some h) (Some d) = Some (Some h', key)"
  shows "ordered h'"
proof -
  obtain h2 h'' where h2: "heap_insert True True (Some h) (Some d) = Some (Some h'', hp_next h)"
    "heap_inv h2" "heap_rotup h2 (hp_size h) = Some h''" "hp_size h2 = hp_size h + 1" "hp_cmp h2 = hp_cmp h"
    "\<And>i. i < hp_size h \<Longrightarrow> hval h2 i = hval h i"
    using heap_insert_live [OF assms(1,2), of d] by metis
  have "ordered_above h2 (hp_size h)"
    unfolding ordered_above_def
  proof (intro conjI allI impI)
    show "hp_cmp h2 = cmp" using h2(5) assms(3) by (simp add: ordered_def)
    fix i
    assume i: "0 < i" "i < hp_size h2"
    note p = HEAP_PARENT_less [OF i(1)]
    show "le (hval h2 (HEAP_PARENT i)) (hval h2 i)" if "i \<noteq> hp_size h"
      using assms(3) i that h2(4,6) p by (auto simp: ordered_def)
    show "le (hval h2 (HEAP_PARENT (hp_size h))) (hval h2 i)" if "HEAP_PARENT i = hp_size h"
      using i p that h2(4) by auto
  qed
  then show ?thesis using rotup_ordered [OF h2(2) _ _ h2(3)] h2(1,4) assms(4) by simp
qed

lemma pop_ordered:
  assumes "heap_inv h" "ordered h" "0 < hp_size h"
  obtains h' d where "heap_pop (Some h) = Some (Some h', Some d)" "heap_inv h'" "ordered h'"
    "hp_size h' = hp_size h - 1" "\<exists>key. heap_nodes h = add_mset \<lparr>hn_data = Some d, hn_key = key\<rparr> (heap_nodes h')"
    "\<And>x. x \<in># heap_nodes h \<Longrightarrow> le d (the (hn_data x))"
proof -
  obtain h1 h' where h1: "heap_pop (Some h) = Some (Some h', Some (hval h 0))"
    "heap_inv h1" "heap_rotdown h1 0 = Some h'" "hp_size h1 = hp_size h - 1" "hp_cmp h1 = hp_cmp h"
    "\<And>i. 0 < i \<Longrightarrow> i < hp_size h - 1 \<Longrightarrow> hval h1 i = hval h i"
    "heap_inv h'" "hp_size h' = hp_size h - 1"
    "heap_nodes h = add_mset (hp_array h ! 0) (heap_nodes h')"
    using heap_pop_live [OF assms(1,3)] by metis
  have "ordered_below h1 0"
    unfolding ordered_below_def
  proof (intro conjI allI impI)
    show "hp_cmp h1 = cmp" using h1(5) assms(2) by (simp add: ordered_def)
    fix i
    assume i: "0 < i" "i < hp_size h1"
    note p = HEAP_PARENT_less [OF i(1)]
    show "if HEAP_PARENT i = 0 then 0 < (0::nat) \<longrightarrow> le (hval h1 (HEAP_PARENT 0)) (hval h1 i)
       else le (hval h1 (HEAP_PARENT i)) (hval h1 i)"
      using i p h1(4,6) assms(2) by (auto simp: ordered_def)
  qed
  from rotdown_ordered [OF h1(2) this h1(3)] have ord: "ordered h'" .
  have "le (hval h 0) (the (hn_data x))" if x: "x \<in># heap_nodes h" for x
  proof -
    obtain i where "i < hp_size h" "x = hp_array h ! i" using x by (auto simp: heap_nodes_def in_set_conv_nth)
    then show ?thesis using ordered_top [OF assms(2)] by (simp add: hval_def)
  qed
  moreover have "hp_array h ! 0 = \<lparr>hn_data = Some (hval h 0), hn_key = hn_key (hp_array h ! 0)\<rparr>"
    using heap_inv_node(2) [OF assms(1,3)] by (cases "hp_array h ! 0") simp
  ultimately show thesis using that [OF h1(1,7) ord h1(8)] h1(9) by metis
qed

end

fun heap_fill :: "'d list \<Rightarrow> 'd heap_t option \<Rightarrow> 'd heap_t option option" where
  "heap_fill [] h = Some h"
| "heap_fill (x # xs) h = do { (h', key) \<leftarrow> heap_insert True True h (Some x); heap_fill xs h' }"

fun heap_drain :: "nat \<Rightarrow> 'd heap_t option \<Rightarrow> ('d heap_t option \<times> 'd option list) option" where
  "heap_drain 0 h = Some (h, [])"
| "heap_drain (Suc n) h = do { (h1, d) \<leftarrow> heap_pop h; (h2, ds) \<leftarrow> heap_drain n h1; Some (h2, d # ds) }"

definition heap_values :: "'d heap_t \<Rightarrow> 'd multiset" where
  "heap_values h = image_mset (\<lambda>n. the (hn_data n)) (heap_nodes h)"

context heap_order
begin

lemma fill_ordered:
  assumes "heap_good h" "ordered h"
  shows "\<exists>h'. heap_fill xs (Some h) = Some (Some h') \<and> heap_good h' \<and> ordered h' \<and>
    heap_values h' = mset xs + heap_values h \<and> hp_size h' = length xs + hp_size h"
  using assms
proof (induction xs arbitrary: h)
  case (Cons x xs)
  have g: "heap_inv h" "heap_exact h" "heap_next_ok h" using Cons.prems(1) by (auto simp: heap_good_def)
  obtain h1 where h1: "heap_insert True True (Some h) (Some x) = Some (Some h1, hp_next h)" "heap_inv h1"
    "hp_size h1 = hp_size h + 1" "heap_nodes h1 = add_mset \<lparr>hn_data = Some x, hn_key = hp_next h\<rparr> (heap_nodes h)"
    "heap_exact h1 \<and> heap_next_ok h1"
    using heap_insert_live [OF g(1,3), of x] g(2) by metis
  have "heap_good h1" "ordered h1"
    using h1(2,5) insert_ordered [OF g(1,3) Cons.prems(2) h1(1)] by (auto simp: heap_good_def)
  from Cons.IH [OF this] show ?case
    using h1(1,3,4) by (auto simp: heap_values_def simp del: heap_insert.simps)
qed simp

lemma drain_sorted:
  assumes "heap_inv h" "ordered h" "hp_size h = n"
  shows "\<exists>h' ds. heap_drain n (Some h) = Some (Some h', map Some ds) \<and> mset ds = heap_values h \<and>
    sorted_wrt le ds \<and> hp_size h' = 0"
  using assms
proof (induction n arbitrary: h)
  case 0
  then show ?case by (simp add: heap_values_def heap_nodes_def)
next
  case (Suc n)
  obtain h1 d key where h1: "heap_pop (Some h) = Some (Some h1, Some d)" "heap_inv h1" "ordered h1" "hp_size h1 = n"
    "heap_nodes h = add_mset \<lparr>hn_data = Some d, hn_key = key\<rparr> (heap_nodes h1)"
    "\<And>x. x \<in># heap_nodes h \<Longrightarrow> le d (the (hn_data x))"
    using pop_ordered [OF Suc.prems(1,2)] Suc.prems(3) by (metis diff_Suc_1 zero_less_Suc)
  obtain h' ds where h': "heap_drain n (Some h1) = Some (Some h', map Some ds)" "mset ds = heap_values h1"
    "sorted_wrt le ds" "hp_size h' = 0"
    using Suc.IH [OF h1(2-4)] by blast
  have "le d x" if "x \<in> set ds" for x
  proof -
    have "x \<in># heap_values h1" using that h'(2) by (metis set_mset_mset)
    then show ?thesis using h1(5,6) by (auto simp: heap_values_def)
  qed
  moreover have "mset (d # ds) = heap_values h" using h'(2) h1(5) by (simp add: heap_values_def)
  ultimately show ?case using h1(1) h' by (intro exI [of _ h'] exI [of _ "d # ds"]) (simp del: heap_pop.simps)
qed

end

text \<open>C28: with a comparison that is a total preorder, inserting any number of data, across the growth
  of the arrays, and popping as many gives them back as a permutation sorted by it.\<close>
theorem heap_sorts:
  assumes "heap_order cmp" "heap_create cmp True True True = Some h"
  shows "\<exists>h1 h2 ds. heap_fill xs (Some h) = Some (Some h1) \<and>
    heap_drain (length xs) (Some h1) = Some (Some h2, map Some ds) \<and>
    mset ds = mset xs \<and> sorted_wrt (\<lambda>x y. \<not> cmp y x < 0) ds \<and> heap_size (Some h2) = 0"
proof -
  note c = heap_create_good [OF assms(2)]
  have "heap_order.ordered cmp h" using c by (simp add: heap_order.ordered_def [OF assms(1)])
  from heap_order.fill_ordered [OF assms(1) c(1) this, of xs]
  obtain h1 where h1: "heap_fill xs (Some h) = Some (Some h1)" "heap_good h1" "heap_order.ordered cmp h1"
    "heap_values h1 = mset xs" "hp_size h1 = length xs"
    using c(2,4) by (auto simp: heap_values_def)
  then show ?thesis
    using heap_order.drain_sorted [OF assms(1) _ h1(3,5)] by (auto simp: heap_good_def)
qed

lemma int_heap_order: "heap_order (\<lambda>x y. x - y :: int)"
  by unfold_locales auto

lemma heap_sorts_witness:
  "\<exists>h1 h2 ds. heap_fill [3, 1, 2, 1] (heap_create (\<lambda>x y. x - y :: int) True True True) = Some (Some h1) \<and>
    heap_drain (length [3, 1, 2, 1 :: int]) (Some h1) = Some (Some h2, map Some ds) \<and>
    mset ds = mset [3, 1, 2, 1] \<and> sorted_wrt (\<lambda>x y. \<not> y - x < 0) ds \<and> heap_size (Some h2) = 0"
proof -
  obtain h where h: "heap_create (\<lambda>x y. x - y :: int) True True True = Some h" by (simp add: heap_create_def)
  show ?thesis unfolding h by (rule heap_sorts [OF int_heap_order h])
qed

fun heap_rounds :: "nat \<Rightarrow> int heap_t option \<Rightarrow> int heap_t option option" where
  "heap_rounds 0 h = Some h"
| "heap_rounds (Suc n) h = do {
     (h1, key) \<leftarrow> heap_insert True True h (Some 5);
     (h2, d) \<leftarrow> heap_pop h1;
     heap_rounds n h2 }"

text \<open>popping never frees a key, so a heap that is filled and emptied one entry at a time runs out
  of its 16 keys: the seventeenth insertion writes beyond the key table of an empty heap.\<close>
lemma heap_pop_leaks_keys:
  "do { h \<leftarrow> heap_rounds 16 (heap_create (\<lambda>x y. x - y) True True True);
        Some (heap_size h, Option.is_none (heap_insert True True h (Some 5))) } = Some (0, True)"
  by code_simp

text \<open>erasing sifts the moved entry down only: after it the heap may be out of order and the next
  pops come out unsorted.\<close>
lemma heap_erase_breaks_order:
  "do { h \<leftarrow> heap_fill [1, 10, 2, 11, 12, 4, 3] (heap_create (\<lambda>x y. x - y :: int) True True True);
        (h, d) \<leftarrow> heap_erase h 3;
        (h, ds) \<leftarrow> heap_drain 6 h;
        Some (d, ds) } = Some (Some 11, [Some 1, Some 2, Some 4, Some 3, Some 10, Some 12])"
  by code_simp

end
