(* ===== verification/Base_Idtable.thy ===== *)
theory Base_Idtable
  imports Prelude
begin

text \<open>
  \<^verbatim>\<open>base/idtable.c\<close>: a fixed-capacity table from non-negative ids to pointers with open
  addressing.  The three do-while loops that walk the slots cyclically from \<open>id % count\<close> are
  one partial function, \<open>idtable_probe\<close>, with the loop's stop test as an argument; it is shown
  to return and to visit every slot once.  While nothing is removed every entry can be reached
  on its probe path (\<open>idt_inv\<close>) and the table behaves as a finite map; removal breaks the path.
\<close>

section \<open>State and operations\<close>

record node_t =
  nid :: int
  nptr :: ptr

record idtable_t =
  tb_nodes :: "node_t list"
  tb_count :: int

definition IDTS_INVALID_ID :: int where "IDTS_INVALID_ID = -1"

definition idtable_create :: "bool \<Rightarrow> bool \<Rightarrow> int \<Rightarrow> idtable_t option option" where
  "idtable_create ok1 ok2 max_count = do {
     c_assert (max_count > 0);
     Some (if \<not> ok1 then None else if \<not> ok2 then None
       else Some \<lparr>tb_nodes = replicate (nat max_count) \<lparr>nid = IDTS_INVALID_ID, nptr = NULL\<rparr>,
                  tb_count = max_count\<rparr>) }"

partial_function (option) idtable_probe ::
  "(node_t \<Rightarrow> bool) \<Rightarrow> node_t list \<Rightarrow> nat \<Rightarrow> nat \<Rightarrow> nat \<Rightarrow> nat option option" where
  "idtable_probe stop ns cnt index i = do {
     n \<leftarrow> rd ns i;
     if stop n then Some (Some i)
     else (let i' = (i + 1) mod cnt in
       if index \<noteq> i' then idtable_probe stop ns cnt index i' else Some None) }"

declare idtable_probe.simps [code]

fun idtable_add :: "idtable_t option \<Rightarrow> int \<Rightarrow> ptr \<Rightarrow> (idtable_t option \<times> int) option" where
  "idtable_add None key p = Some (None, -1)"
| "idtable_add (Some t) key p =
     (if key < 0 \<or> p = NULL then Some (Some t, -1)
      else do {
        let index = nat (key mod tb_count t);
        r \<leftarrow> idtable_probe (\<lambda>n. nid n = IDTS_INVALID_ID) (tb_nodes t) (nat (tb_count t)) index index;
        (case r of
           None \<Rightarrow> Some (Some t, -1)
         | Some i \<Rightarrow> do {
             ns \<leftarrow> wr (tb_nodes t) i \<lparr>nid = key, nptr = p\<rparr>;
             Some (Some (t\<lparr>tb_nodes := ns\<rparr>), 0) }) })"

fun idtable_get :: "idtable_t option \<Rightarrow> int \<Rightarrow> ptr option" where
  "idtable_get None key = Some NULL"
| "idtable_get (Some t) key =
     (if key < 0 then Some NULL
      else do {
        let index = nat (key mod tb_count t);
        r \<leftarrow> idtable_probe (\<lambda>n. nid n = key \<or> nid n = IDTS_INVALID_ID) (tb_nodes t) (nat (tb_count t)) index index;
        (case r of
           None \<Rightarrow> Some NULL
         | Some i \<Rightarrow> do {
             n \<leftarrow> rd (tb_nodes t) i;
             Some (if nid n = key then nptr n else NULL) }) })"

fun idtable_remove :: "idtable_t option \<Rightarrow> int \<Rightarrow> idtable_t option option" where
  "idtable_remove None key = Some None"
| "idtable_remove (Some t) key =
     (if key < 0 then Some (Some t)
      else do {
        let index = nat (key mod tb_count t);
        r \<leftarrow> idtable_probe (\<lambda>n. nid n = IDTS_INVALID_ID \<or> nid n = key) (tb_nodes t) (nat (tb_count t)) index index;
        (case r of
           None \<Rightarrow> Some (Some t)
         | Some i \<Rightarrow> do {
             n \<leftarrow> rd (tb_nodes t) i;
             if nid n = IDTS_INVALID_ID then Some (Some t)
             else do {
               ns \<leftarrow> wr (tb_nodes t) i \<lparr>nid = IDTS_INVALID_ID, nptr = NULL\<rparr>;
               Some (Some (t\<lparr>tb_nodes := ns\<rparr>)) } }) })"

fun idtable_cleanup :: "idtable_t option \<Rightarrow> idtable_t option" where
  "idtable_cleanup None = None"
| "idtable_cleanup (Some t) =
     Some (t\<lparr>tb_nodes := map (\<lambda>i. if int i < tb_count t then \<lparr>nid = IDTS_INVALID_ID, nptr = NULL\<rparr>
                                   else tb_nodes t ! i) [0..<length (tb_nodes t)]\<rparr>)"

text \<open>\<open>func\<close> acts on a state of the caller (\<^verbatim>\<open>arg\<close>) and stops the loop with a non-zero result.\<close>

fun idtable_loop_from ::
  "(ptr \<Rightarrow> 's \<Rightarrow> 's \<times> int) \<Rightarrow> node_t list \<Rightarrow> nat \<Rightarrow> nat list \<Rightarrow> 's \<Rightarrow> ('s \<times> int) option" where
  "idtable_loop_from func ns cnt [] arg = Some (arg, 0)"
| "idtable_loop_from func ns cnt (i # is) arg = do {
     n \<leftarrow> rd ns (i mod cnt);
     if nid n \<noteq> IDTS_INVALID_ID
     then (case func (nptr n) arg of (arg', ret) \<Rightarrow>
       if ret \<noteq> 0 then Some (arg', ret) else idtable_loop_from func ns cnt is arg')
     else idtable_loop_from func ns cnt is arg }"

fun idtable_loop ::
  "idtable_t option \<Rightarrow> (ptr \<Rightarrow> 's \<Rightarrow> 's \<times> int) \<Rightarrow> 's \<Rightarrow> int \<Rightarrow> ('s \<times> int) option" where
  "idtable_loop None func arg start = Some (arg, 0)"
| "idtable_loop (Some t) func arg start =
     (let cnt = nat (tb_count t); st = nat (\<bar>start\<bar> mod tb_count t) in
      idtable_loop_from func (tb_nodes t) cnt [st ..< cnt + st] arg)"

section \<open>The probe loop\<close>

definition idt_wf :: "idtable_t \<Rightarrow> bool" where
  "idt_wf t \<longleftrightarrow> tb_count t = int (length (tb_nodes t)) \<and> 0 < length (tb_nodes t)"

definition probe_path :: "nat \<Rightarrow> nat \<Rightarrow> nat \<Rightarrow> nat list" where
  "probe_path cnt index k = map (\<lambda>d. (index + d) mod cnt) [k..<cnt]"

lemma probe_path_Cons:
  "k < cnt \<Longrightarrow> probe_path cnt index k = (index + k) mod cnt # probe_path cnt index (Suc k)"
  by (simp add: probe_path_def upt_conv_Cons)

lemma probe_path_Nil: "probe_path cnt index cnt = []"
  by (simp add: probe_path_def)

lemma probe_wrap:
  assumes "index < cnt" "k < cnt"
  shows "(index + Suc k) mod cnt = index \<longleftrightarrow> Suc k = cnt"
proof
  assume "(index + Suc k) mod cnt = index"
  show "Suc k = cnt"
  proof (rule ccontr)
    assume "Suc k \<noteq> cnt"
    with assms have sk: "Suc k < cnt" by simp
    show False
    proof (cases "index + Suc k < cnt")
      case True
      with \<open>(index + Suc k) mod cnt = index\<close> show False by simp
    next
      case False
      with sk assms have "(index + Suc k) mod cnt = index + Suc k - cnt" by (simp add: mod_if)
      with \<open>(index + Suc k) mod cnt = index\<close> sk False show False by simp
    qed
  qed
next
  assume "Suc k = cnt"
  then show "(index + Suc k) mod cnt = index" using assms by simp
qed

lemma idtable_probe_eq:
  assumes "cnt = length ns" "index < cnt" "k < cnt"
  shows "idtable_probe stop ns cnt index ((index + k) mod cnt) =
    Some (find (\<lambda>i. stop (ns ! i)) (probe_path cnt index k))"
  using assms(3)
proof (induction "cnt - k" arbitrary: k)
  case 0
  then show ?case by simp
next
  case (Suc m)
  let ?i = "(index + k) mod cnt"
  have i: "?i < length ns" using mod_less_divisor [of cnt "index + k"] assms(1,2) by linarith
  have next_i: "(?i + 1) mod cnt = (index + Suc k) mod cnt"
    by (simp add: mod_simps)
  then have next_i': "(?i + Suc 0) mod cnt = (index + Suc k) mod cnt" by simp
  show ?case
  proof (cases "Suc k = cnt")
    case True
    then have "(index + Suc k) mod cnt = index" using probe_wrap assms Suc.prems by blast
    then have w: "(?i + 1) mod cnt = index" unfolding next_i .
    show ?thesis
      by (subst idtable_probe.simps)
         (use i w True Suc.prems in \<open>simp add: probe_path_Cons [of k] probe_path_Nil Let_def\<close>)
  next
    case False
    then have ne: "index \<noteq> (index + Suc k) mod cnt" using probe_wrap [OF assms(2) Suc.prems] by auto
    from False Suc.prems have sk: "Suc k < cnt" by simp
    have IH: "idtable_probe stop ns cnt index ((index + Suc k) mod cnt) =
        Some (find (\<lambda>i. stop (ns ! i)) (probe_path cnt index (Suc k)))"
      using Suc.hyps(1) [of "Suc k"] Suc.hyps(2) sk by simp
    show ?thesis
      by (subst idtable_probe.simps)
         (use i ne IH Suc.prems in \<open>simp add: probe_path_Cons [of k] Let_def next_i' del: add_Suc_right\<close>)
  qed
qed

abbreviation slot_path :: "idtable_t \<Rightarrow> int \<Rightarrow> nat list" where
  "slot_path t key \<equiv> probe_path (length (tb_nodes t)) (nat (key mod tb_count t)) 0"

lemma probe_start:
  assumes "idt_wf t" "0 \<le> key"
  shows "idtable_probe stop (tb_nodes t) (nat (tb_count t)) (nat (key mod tb_count t)) (nat (key mod tb_count t)) =
    Some (find (\<lambda>i. stop (tb_nodes t ! i)) (slot_path t key))"
proof -
  let ?cnt = "length (tb_nodes t)" and ?ix = "nat (key mod tb_count t)"
  have "?ix < ?cnt" using assms by (auto simp: idt_wf_def nat_less_iff)
  moreover have "(?ix + 0) mod ?cnt = ?ix" using calculation by simp
  ultimately show ?thesis
    using idtable_probe_eq [of ?cnt "tb_nodes t" ?ix 0 stop] assms by (simp add: idt_wf_def)
qed

lemma path_bound: "idt_wf t \<Longrightarrow> i \<in> set (slot_path t key) \<Longrightarrow> i < length (tb_nodes t)"
  by (auto simp: probe_path_def idt_wf_def)

lemma path_covers:
  assumes "idt_wf t" "0 \<le> key" "i < length (tb_nodes t)"
  shows "i \<in> set (slot_path t key)"
proof -
  let ?n = "length (tb_nodes t)" and ?x = "nat (key mod tb_count t)"
  have x: "?x < ?n" using assms by (auto simp: idt_wf_def nat_less_iff)
  let ?d = "if ?x \<le> i then i - ?x else i + ?n - ?x"
  have "?d < ?n" using x assms(3) by auto
  moreover have "(?x + ?d) mod ?n = i" using x assms(3) by auto
  ultimately show ?thesis by (force simp: probe_path_def)
qed

section \<open>The table as a map, while nothing is removed\<close>

definition idt_inv :: "idtable_t \<Rightarrow> bool" where
  "idt_inv t \<longleftrightarrow> idt_wf t
     \<and> (\<forall>n \<in> set (tb_nodes t). nid n \<noteq> -1 \<longrightarrow> 0 \<le> nid n \<and> nptr n \<noteq> NULL)
     \<and> (\<forall>d < length (tb_nodes t). \<forall>k \<ge> 0. nid (tb_nodes t ! (slot_path t k ! d)) = k \<longrightarrow>
          (\<forall>e < d. nid (tb_nodes t ! (slot_path t k ! e)) \<noteq> -1))"

lemma idt_inv_wf: "idt_inv t \<Longrightarrow> idt_wf t"
  by (simp add: idt_inv_def)

lemma length_slot_path [simp]: "length (slot_path t key) = length (tb_nodes t)"
  by (simp add: probe_path_def)

lemma idtable_get_find:
  assumes "idt_inv t" "0 \<le> key"
  shows "idtable_get (Some t) key = Some (case find (\<lambda>i. nid (tb_nodes t ! i) = key) (slot_path t key) of
     None \<Rightarrow> NULL | Some i \<Rightarrow> nptr (tb_nodes t ! i))"
proof -
  note wf = idt_inv_wf [OF assms(1)]
  let ?P = "\<lambda>i. nid (tb_nodes t ! i) = key" and ?xs = "slot_path t key"
  let ?Q = "\<lambda>i. nid (tb_nodes t ! i) = key \<or> nid (tb_nodes t ! i) = -1"
  have g: "idtable_get (Some t) key = (case find ?Q ?xs of None \<Rightarrow> Some NULL
     | Some i \<Rightarrow> Some (if ?P i then nptr (tb_nodes t ! i) else NULL))"
    using assms(2) probe_start [OF wf assms(2)] path_bound [OF wf]
    by (auto simp: IDTS_INVALID_ID_def Let_def split: option.splits dest: find_bound)
  show ?thesis
  proof (cases "find ?P ?xs")
    case None
    then have "\<forall>i \<in> set ?xs. \<not> ?P i" by (simp add: find_None_iff)
    then show ?thesis by (auto simp: g None simp del: idtable_get.simps split: option.splits dest: find_bound)
  next
    case (Some i)
    then obtain d where d: "d < length ?xs" "?P (?xs ! d)" "i = ?xs ! d" "\<forall>e<d. \<not> ?P (?xs ! e)"
      by (auto simp: find_Some_iff)
    have "\<forall>e<d. nid (tb_nodes t ! (?xs ! e)) \<noteq> -1"
      using assms d(1,2) by (simp add: idt_inv_def)
    with d have "find ?Q ?xs = Some i" by (auto simp: find_Some_iff)
    with d show ?thesis by (simp add: g Some del: idtable_get.simps)
  qed
qed

declare idtable_get.simps(2) [simp del]

lemma idtable_create_inv:
  "idtable_create ok1 ok2 n = Some (Some t) \<Longrightarrow> idt_inv t"
  by (auto simp: idtable_create_def idt_inv_def idt_wf_def IDTS_INVALID_ID_def probe_path_def bind_eq_Some_conv
      split: if_splits)

text \<open>Where an insertion goes, and what it does to every lookup.\<close>

lemma idtable_add_slot:
  assumes "idt_inv t" "0 \<le> key" "p \<noteq> NULL"
  shows "idtable_add (Some t) key p = Some (case find (\<lambda>i. nid (tb_nodes t ! i) = -1) (slot_path t key) of
     None \<Rightarrow> (Some t, -1)
   | Some i \<Rightarrow> (Some (t\<lparr>tb_nodes := (tb_nodes t)[i := \<lparr>nid = key, nptr = p\<rparr>]\<rparr>), 0))"
  using assms probe_start [OF idt_inv_wf [OF assms(1)] assms(2)] path_bound [OF idt_inv_wf [OF assms(1)]]
  by (auto simp: IDTS_INVALID_ID_def Let_def split: option.splits dest!: find_bound)

lemma idt_inv_path:
  assumes "idt_inv t" "d < length (tb_nodes t)" "0 \<le> k" "nid (tb_nodes t ! (slot_path t k ! d)) = k" "e < d"
  shows "nid (tb_nodes t ! (slot_path t k ! e)) \<noteq> -1"
  using assms unfolding idt_inv_def by blast

lemma idt_inv_upd:
  assumes inv: "idt_inv t" and key: "0 \<le> key" and p: "p \<noteq> NULL"
    and f: "find (\<lambda>i. nid (tb_nodes t ! i) = -1) (slot_path t key) = Some i"
  shows "idt_inv (t\<lparr>tb_nodes := (tb_nodes t)[i := \<lparr>nid = key, nptr = p\<rparr>]\<rparr>)" (is "idt_inv ?t")
proof -
  let ?n = "length (tb_nodes t)"
  note wf = idt_inv_wf [OF inv]
  from f obtain d where d: "d < ?n" "i = slot_path t key ! d" "nid (tb_nodes t ! i) = -1"
    and before: "\<forall>e<d. nid (tb_nodes t ! (slot_path t key ! e)) \<noteq> -1"
    by (auto simp: find_Some_iff)
  have i: "i < ?n" using path_bound [OF wf] f find_bound by metis
  have at: "nid ((tb_nodes t)[i := \<lparr>nid = key, nptr = p\<rparr>] ! j) = (if j = i then key else nid (tb_nodes t ! j))"
    for j using i by (simp add: nth_list_update)
  have inj: "slot_path t k ! a = slot_path t k ! b \<Longrightarrow> a < ?n \<Longrightarrow> b < ?n \<Longrightarrow> a = b" for k a b
  proof -
    have "distinct (slot_path t k)"
      unfolding probe_path_def distinct_map by (auto simp: inj_on_def dest: rot_inj)
    then show "slot_path t k ! a = slot_path t k ! b \<Longrightarrow> a < ?n \<Longrightarrow> b < ?n \<Longrightarrow> a = b"
      by (simp add: nth_eq_iff_index_eq)
  qed
  have "nid (tb_nodes ?t ! (slot_path t k ! e)) \<noteq> -1"
    if a: "a < ?n" "0 \<le> k" "nid (tb_nodes ?t ! (slot_path t k ! a)) = k" "e < a" for a k e
  proof (cases "slot_path t k ! a = i")
    case True
    with a(3) at have "k = key" by simp
    with True d inj a(1) have "a = d" by metis
    with before a(4) \<open>k = key\<close> key show ?thesis by (simp add: at)
  next
    case False
    with a(3) have "nid (tb_nodes t ! (slot_path t k ! a)) = k" by (simp add: at)
    from idt_inv_path [OF inv a(1,2) this a(4)] key show ?thesis by (simp add: at)
  qed
  moreover have "\<forall>n \<in> set (tb_nodes ?t). nid n \<noteq> -1 \<longrightarrow> 0 \<le> nid n \<and> nptr n \<noteq> NULL"
    using inv key p unfolding idt_inv_def by (auto dest!: set_update_subset_insert [THEN subsetD])
  ultimately show ?thesis using wf by (auto simp: idt_inv_def idt_wf_def)
qed

lemma idtable_get_upd:
  assumes inv: "idt_inv t" and key: "0 \<le> key" and p: "p \<noteq> NULL" and k: "0 \<le> k"
    and f: "find (\<lambda>i. nid (tb_nodes t ! i) = -1) (slot_path t key) = Some i"
  shows "idtable_get (Some (t\<lparr>tb_nodes := (tb_nodes t)[i := \<lparr>nid = key, nptr = p\<rparr>]\<rparr>)) k =
    (if k = key \<and> idtable_get (Some t) key = Some NULL then Some p else idtable_get (Some t) k)"
proof -
  let ?t = "t\<lparr>tb_nodes := (tb_nodes t)[i := \<lparr>nid = key, nptr = p\<rparr>]\<rparr>"
  note wf = idt_inv_wf [OF inv] and inv' = idt_inv_upd [OF inv key p f]
  have free: "nid (tb_nodes t ! i) = -1" and ip: "i \<in> set (slot_path t key)" using find_bound [OF f] by auto
  have i: "i < length (tb_nodes t)" using path_bound [OF wf ip] .
  have get': "idtable_get (Some ?t) k = Some (case find (\<lambda>j. nid (tb_nodes ?t ! j) = k) (slot_path t k) of
     None \<Rightarrow> NULL | Some j \<Rightarrow> nptr (tb_nodes ?t ! j))"
    using idtable_get_find [OF inv' k] by simp
  have used: "nptr (tb_nodes t ! j) \<noteq> NULL" if "nid (tb_nodes t ! j) = key" "j \<in> set (slot_path t key)" for j
    using that key inv path_bound [OF wf that(2)] by (force simp: idt_inv_def)
  show ?thesis
  proof (cases "k = key")
    case False
    then have "find (\<lambda>j. nid (tb_nodes ?t ! j) = k) (slot_path t k) = find (\<lambda>j. nid (tb_nodes t ! j) = k) (slot_path t k)"
      using i free k by (intro find_cong_on) (auto simp: nth_list_update)
    with False show ?thesis
      using i free k get' by (auto simp: idtable_get_find [OF inv k] nth_list_update split: option.splits dest!: find_bound)
  next
    case True
    show ?thesis
    proof (cases "find (\<lambda>j. nid (tb_nodes t ! j) = key) (slot_path t key)")
      case None
      then have "find (\<lambda>j. nid (tb_nodes ?t ! j) = key) (slot_path t key) = Some i"
        using i by (intro find_Some_unique [OF None ip]) (auto simp: nth_list_update)
      with None True i get' show ?thesis by (simp add: idtable_get_find [OF inv key])
    next
      case (Some j)
      then obtain a where a: "a < length (tb_nodes t)" "nid (tb_nodes t ! (slot_path t key ! a)) = key"
        "j = slot_path t key ! a" "\<forall>e<a. nid (tb_nodes t ! (slot_path t key ! e)) \<noteq> key"
        by (auto simp: find_Some_iff)
      have ji: "j \<noteq> i" using a free key by auto
      have "slot_path t key ! e \<noteq> i" if "e < a" for e
        using idt_inv_path [OF inv a(1) key a(2) that] free by auto
      then have "find (\<lambda>j. nid (tb_nodes ?t ! j) = key) (slot_path t key) = Some j"
        using a i ji by (auto simp: find_Some_iff nth_list_update intro!: exI [of _ a])
      with Some True i ji used [of j] find_bound [OF Some] show ?thesis
        using get' by (simp add: idtable_get_find [OF inv key])
    qed
  qed
qed

section \<open>Properties\<close>

text \<open>C34: As long as nothing is removed the table is a finite map of bounded capacity: adding an
  entry terminates without leaving the array, either fails exactly when every slot is taken,
  leaving the table as it was, or stores the pointer so that a lookup of the id finds it (an id
  that was already there keeps its first pointer) and no other lookup changes; the probe
  invariant is kept.\<close>

theorem idtable_add_refines_map:
  assumes "idt_inv t" and "0 \<le> key" and "p \<noteq> NULL"
  shows "(\<exists>t'. idtable_add (Some t) key p = Some (Some t', 0) \<and> idt_inv t'
            \<and> (\<exists>n \<in> set (tb_nodes t). nid n = -1)
            \<and> (\<forall>k. idtable_get (Some t') k =
                 (if k = key \<and> idtable_get (Some t) key = Some NULL then Some p else idtable_get (Some t) k)))
       \<or> (idtable_add (Some t) key p = Some (Some t, -1) \<and> (\<forall>n \<in> set (tb_nodes t). nid n \<noteq> -1))"
proof (cases "find (\<lambda>i. nid (tb_nodes t ! i) = -1) (slot_path t key)")
  case None
  have "nid (tb_nodes t ! i) \<noteq> -1" if "i < length (tb_nodes t)" for i
    using None path_covers [OF idt_inv_wf [OF assms(1)] assms(2) that] by (auto simp: find_None_iff)
  with None idtable_add_slot [OF assms] show ?thesis by (auto simp: in_set_conv_nth)
next
  case (Some i)
  let ?t = "t\<lparr>tb_nodes := (tb_nodes t)[i := \<lparr>nid = key, nptr = p\<rparr>]\<rparr>"
  have "idtable_get (Some ?t) k =
      (if k = key \<and> idtable_get (Some t) key = Some NULL then Some p else idtable_get (Some t) k)" for k
    using idtable_get_upd [OF assms _ Some, of k] assms(2)
    by (cases "0 \<le> k") (auto simp: idtable_get.simps)
  moreover have "tb_nodes t ! i \<in> set (tb_nodes t)" "nid (tb_nodes t ! i) = -1"
    using find_bound [OF Some] path_bound [OF idt_inv_wf [OF assms(1)]] by auto
  ultimately show ?thesis
    using idtable_add_slot [OF assms] Some idt_inv_upd [OF assms Some] by auto
qed

theorem idtable_add_refines_map_witness:
  "\<exists>t t'. idtable_create True True 4 = Some (Some t) \<and> idt_inv t
     \<and> idtable_add (Some t) 6 77 = Some (Some t', 0) \<and> idtable_get (Some t') 6 = Some 77"
proof -
  obtain t where c: "idtable_create True True 4 = Some (Some t)" and inv: "idt_inv t"
    and ns: "tb_nodes t = replicate 4 \<lparr>nid = -1, nptr = 0\<rparr>"
    using idtable_create_inv [of True True 4] by (auto simp: idtable_create_def IDTS_INVALID_ID_def)
  have g: "idtable_get (Some t) 6 = Some NULL"
    using idtable_get_find [OF inv, of 6] path_bound [OF idt_inv_wf [OF inv]]
    by (auto simp: ns split: option.splits dest!: find_bound)
  show ?thesis
    using idtable_add_refines_map [OF inv, of 6 77] c inv g by (auto simp: ns)
qed

text \<open>Removing an id empties its slot without moving later entries of the same probe path, so an
  entry that was added and never removed can no longer be found: ids 1 and 5 collide in a table
  of four slots, and after 1 is removed the lookup of 5 returns \<open>NULL\<close> although its entry is
  still stored.\<close>

lemma idtable_remove_loses_entry:
  "do { t0 \<leftarrow> idtable_create True True 4;
        (t1, r1) \<leftarrow> idtable_add t0 1 11;
        (t2, r2) \<leftarrow> idtable_add t1 5 55;
        g2 \<leftarrow> idtable_get t2 5;
        t3 \<leftarrow> idtable_remove t2 1;
        g3 \<leftarrow> idtable_get t3 5;
        Some (r1, r2, g2, g3, map_option tb_nodes t3) }
   = Some (0, 0, 55, NULL, Some [\<lparr>nid = -1, nptr = 0\<rparr>, \<lparr>nid = -1, nptr = 0\<rparr>, \<lparr>nid = 5, nptr = 55\<rparr>,
       \<lparr>nid = -1, nptr = 0\<rparr>])"
  by code_simp

end
