(* ===== verification/Base_Kv.thy ===== *)
theory Base_Kv
  imports Base_Hash
begin

text \<open>
  \<^verbatim>\<open>base/kv.c\<close>: key-value pairs on top of the hash table.  Keys, values and nodes are addresses,
  and the nodes live in a store.  What the table hashes and compares are the \<^verbatim>\<open>void*\<close> it is
  given: the address of the node on insertion, the address of the key in a search.
\<close>

section \<open>State and operations\<close>

record kv_node_t =
  kv_key :: ptr
  kv_value :: ptr

record kv_t =
  kv_table :: "ptr hash_t"
  kv_nodes :: "ptr \<Rightarrow> kv_node_t option"

definition as_ptr :: "ptr \<Rightarrow> ptr option" where
  "as_ptr p = (if p = NULL then None else Some p)"

definition kv_create :: "(ptr \<Rightarrow> u32) option \<Rightarrow> (ptr \<Rightarrow> ptr \<Rightarrow> int) option \<Rightarrow> int \<Rightarrow> bool \<Rightarrow> bool \<Rightarrow> kv_t option" where
  "kv_create hash cmp hint_size ok1 ok2 =
     map_option (\<lambda>t. \<lparr>kv_table = t, kv_nodes = \<lambda>_. None\<rparr>) (hash_create hash cmp hint_size ok1 ok2)"

fun kv_insert :: "ptr \<Rightarrow> bool \<Rightarrow> kv_t option \<Rightarrow> ptr \<Rightarrow> ptr \<Rightarrow> (kv_t option \<times> int) option" where
  \<comment> \<open>\<open>node\<close>: the address \<^verbatim>\<open>malloc\<close> gives for the node, written to without a test; a node the table
     refuses is not freed\<close>
  "kv_insert node ok None key v = Some (None, -1)"
| "kv_insert node ok (Some kv) key v =
     (if key = NULL then Some (Some kv, -1)
      else do {
        c_assert (node \<noteq> NULL);
        let nodes = (kv_nodes kv)(node \<mapsto> \<lparr>kv_key = key, kv_value = v\<rparr>);
        (t, r) \<leftarrow> hash_insert ok (Some (kv_table kv)) (as_ptr node);
        t' \<leftarrow> t;
        Some (Some (kv\<lparr>kv_table := t', kv_nodes := nodes\<rparr>), r) })"

fun kv_find :: "kv_t option \<Rightarrow> ptr \<Rightarrow> ptr option" where
  \<comment> \<open>the test of \<open>kv\<close> is written \<open>!key\<close>; a null table is left to \<^verbatim>\<open>hash_find\<close>\<close>
  "kv_find kv key =
     (if key = NULL \<or> key = NULL then Some NULL
      else do {
        r \<leftarrow> hash_find (map_option kv_table kv) (as_ptr key);
        (case (r, kv) of
           (Some p, Some kv) \<Rightarrow> do { node \<leftarrow> kv_nodes kv p; Some (kv_value node) }
         | _ \<Rightarrow> Some NULL) })"

fun kv_erase :: "kv_t option \<Rightarrow> ptr \<Rightarrow> (kv_t option \<times> ptr) option" where
  "kv_erase None key = Some (None, NULL)"
| "kv_erase (Some kv) key =
     (if key = NULL then Some (Some kv, NULL)
      else do {
        (t, r) \<leftarrow> hash_remove (Some (kv_table kv)) (as_ptr key);
        t' \<leftarrow> t;
        (case r of
           None \<Rightarrow> Some (Some (kv\<lparr>kv_table := t'\<rparr>), NULL)
         | Some p \<Rightarrow> do {
             node \<leftarrow> kv_nodes kv p;
             Some (Some (kv\<lparr>kv_table := t', kv_nodes := (kv_nodes kv)(p := None)\<rparr>), kv_value node) }) })"

definition kv_count :: "kv_t option \<Rightarrow> int" where
  "kv_count kv = hash_count (map_option kv_table kv)"

definition kv_clean :: "kv_t option \<Rightarrow> kv_t option \<times> int" where
  "kv_clean kv = (let (t, r) = hash_clean (map_option kv_table kv) in
     (case (kv, t) of (Some k, Some t) \<Rightarrow> (Some (k\<lparr>kv_table := t\<rparr>), r) | _ \<Rightarrow> (kv, r)))"

definition kv_loop :: "kv_t option \<Rightarrow> (ptr \<Rightarrow> ptr \<Rightarrow> 's \<Rightarrow> 's) option \<Rightarrow> 's \<Rightarrow> 's option" where
  "kv_loop kv f s = (case (kv, f) of
     (Some kv, Some f) \<Rightarrow>
        fst (hash_loop (Some (kv_table kv))
          (Some (\<lambda>p so. do { s \<leftarrow> so; node \<leftarrow> kv_nodes kv p; Some (f (kv_key node) (kv_value node) s) })) (Some s))
   | _ \<Rightarrow> Some s)"

section \<open>Searches by key\<close>

text \<open>with callbacks that tell keys apart by address, the pair just inserted under a key is not
  found under it, because the table was keyed by the node.\<close>
lemma kv_find_misses_inserted:
  assumes "hash_element hash cmp" "\<And>p q. cmp p q = 0 \<longleftrightarrow> p = q"
    and "kv_create (Some hash) (Some cmp) sz True True = Some kv" "0 < sz" "sz < 2 ^ 31"
    and "key \<noteq> NULL" "node \<noteq> NULL" "node \<noteq> key"
  shows "\<exists>kv'. kv_insert node True (Some kv) key v = Some (Some kv', 0) \<and> kv_count (Some kv') = 1 \<and>
    kv_find (Some kv') key = Some NULL \<and> kv_find (Some kv') node = Some v"
proof -
  obtain t where t: "hash_create (Some hash) (Some cmp) sz True True = Some t" "hash_element.uses hash cmp t"
    "\<And>d. hash_lookup t d = None"
    using hash_element.create_uses [OF assms(1,4,5)] by metis
  then have kv: "kv_table kv = t" using assms(3) by (auto simp: kv_create_def)
  obtain t' where t': "hash_insert True (Some t) (Some node) = Some (Some t', 0)" "hash_element.uses hash cmp t'"
    "\<And>e. hash_lookup t' e = (if cmp node e = 0 then Some node else None)" "m_count t' = m_count t + 1"
    by (rule hash_element.insert_spec [OF assms(1) t(2), of node, unfolded t(3)]) simp
  have "hash_wf t'" using t'(2) by (simp add: hash_element.uses_def [OF assms(1)] hash_ok_def)
  moreover have "m_count t = 0" using t(1) assms(4) by (auto simp: hash_create_def)
  ultimately have count: "m_count t' = 1" and find: "\<And>e. hash_find (Some t') (Some e) = Some (if cmp node e = 0 then Some node else None)"
    using t'(3,4) by (simp_all add: hash_find_lookup del: hash_find.simps)
  let ?kv = "kv\<lparr>kv_table := t', kv_nodes := (kv_nodes kv)(node \<mapsto> \<lparr>kv_key = key, kv_value = v\<rparr>)\<rparr>"
  have "kv_insert node True (Some kv) key v = Some (Some ?kv, 0)"
    using t'(1) assms(6,7) kv by (simp add: as_ptr_def Let_def del: hash_insert.simps)
  moreover have "kv_find (Some ?kv) key = Some NULL" "kv_find (Some ?kv) node = Some v"
    using find [of key] find [of node] assms(2,6-8) by (simp_all add: as_ptr_def del: hash_find.simps)
  ultimately show ?thesis using count by (auto simp: kv_count_def)
qed

lemma kv_find_misses_inserted_witness:
  "\<exists>kv'. kv_insert 200 True (Some \<lparr>kv_table = \<lparr>m_size = 4, m_count = 0, m_hash_func = \<lambda>_. 0,
      m_cmp_func = \<lambda>p q. int p - int q, m_table = replicate 4 []\<rparr>, kv_nodes = \<lambda>_. None\<rparr>) 100 7 = Some (Some kv', 0) \<and>
    kv_count (Some kv') = 1 \<and> kv_find (Some kv') 100 = Some NULL \<and> kv_find (Some kv') 200 = Some 7"
  by (rule kv_find_misses_inserted [where hash = "\<lambda>_. 0" and cmp = "\<lambda>p q. int p - int q" and sz = 4])
    (auto simp: kv_create_def hash_create_def hash_element_def)

end
