(* ===== verification/Base_List.thy ===== *)
theory Base_List
  imports Prelude
begin

text \<open>
  \<^verbatim>\<open>base/list.h\<close>: the intrusive circular list.  A node is two links inside the structure that is kept in the list; the
  links live in a memory of addresses.  A list is its head, a node of its own.
\<close>

section \<open>State and operations\<close>

record list_head =
  lh_next :: ptr
  lh_prev :: ptr

type_synonym links = "ptr \<rightharpoonup> list_head"

definition upd_link :: "ptr \<Rightarrow> (list_head \<Rightarrow> list_head) \<Rightarrow> links \<Rightarrow> links option" where
  "upd_link a f m = do { k \<leftarrow> m a; Some (m(a \<mapsto> f k)) }"

definition INIT_LIST_HEAD :: "ptr \<Rightarrow> links \<Rightarrow> links option" where
  "INIT_LIST_HEAD p m = do { m \<leftarrow> upd_link p (\<lambda>k. k\<lparr>lh_next := p\<rparr>) m; upd_link p (\<lambda>k. k\<lparr>lh_prev := p\<rparr>) m }"

definition list_add_between :: "ptr \<Rightarrow> ptr \<Rightarrow> ptr \<Rightarrow> links \<Rightarrow> links option" where
  \<comment> \<open>\<^verbatim>\<open>__list_add\<close>\<close>
  "list_add_between n p q m = do {
     m \<leftarrow> upd_link q (\<lambda>k. k\<lparr>lh_prev := n\<rparr>) m;
     m \<leftarrow> upd_link n (\<lambda>k. k\<lparr>lh_next := q\<rparr>) m;
     m \<leftarrow> upd_link n (\<lambda>k. k\<lparr>lh_prev := p\<rparr>) m;
     upd_link p (\<lambda>k. k\<lparr>lh_next := n\<rparr>) m }"

definition list_add :: "ptr \<Rightarrow> ptr \<Rightarrow> links \<Rightarrow> links option" where
  "list_add n h m = do { k \<leftarrow> m h; list_add_between n h (lh_next k) m }"

definition list_add_tail :: "ptr \<Rightarrow> ptr \<Rightarrow> links \<Rightarrow> links option" where
  "list_add_tail n h m = do { k \<leftarrow> m h; list_add_between n (lh_prev k) h m }"

definition list_del_between :: "ptr \<Rightarrow> ptr \<Rightarrow> links \<Rightarrow> links option" where
  \<comment> \<open>\<^verbatim>\<open>__list_del\<close>\<close>
  "list_del_between p q m = do {
     m \<leftarrow> upd_link q (\<lambda>k. k\<lparr>lh_prev := p\<rparr>) m;
     upd_link p (\<lambda>k. k\<lparr>lh_next := q\<rparr>) m }"

definition list_del :: "ptr \<Rightarrow> links \<Rightarrow> links option" where
  "list_del e m = do {
     k \<leftarrow> m e;
     m \<leftarrow> list_del_between (lh_prev k) (lh_next k) m;
     m \<leftarrow> upd_link e (\<lambda>k. k\<lparr>lh_next := NULL\<rparr>) m;
     upd_link e (\<lambda>k. k\<lparr>lh_prev := NULL\<rparr>) m }"

definition list_del_init :: "ptr \<Rightarrow> links \<Rightarrow> links option" where
  "list_del_init e m = do { k \<leftarrow> m e; m \<leftarrow> list_del_between (lh_prev k) (lh_next k) m; INIT_LIST_HEAD e m }"

definition list_move :: "ptr \<Rightarrow> ptr \<Rightarrow> links \<Rightarrow> links option" where
  "list_move e h m = do { k \<leftarrow> m e; m \<leftarrow> list_del_between (lh_prev k) (lh_next k) m; list_add e h m }"

definition list_move_tail :: "ptr \<Rightarrow> ptr \<Rightarrow> links \<Rightarrow> links option" where
  "list_move_tail e h m = do { k \<leftarrow> m e; m \<leftarrow> list_del_between (lh_prev k) (lh_next k) m; list_add_tail e h m }"

definition list_empty :: "ptr \<Rightarrow> links \<Rightarrow> bool option" where
  "list_empty h m = do { k \<leftarrow> m h; Some (lh_next k = h) }"

definition list_not_in_link :: "ptr \<Rightarrow> links \<Rightarrow> bool option" where
  "list_not_in_link h m = do { k \<leftarrow> m h; Some (lh_next k = NULL \<and> lh_prev k = NULL) }"

definition list_splice_at :: "ptr \<Rightarrow> ptr \<Rightarrow> links \<Rightarrow> links option" where
  \<comment> \<open>\<^verbatim>\<open>__list_splice\<close>\<close>
  "list_splice_at l h m = do {
     k \<leftarrow> m l;
     j \<leftarrow> m h;
     let first = lh_next k;
     let last = lh_prev k;
     let at = lh_next j;
     m \<leftarrow> upd_link first (\<lambda>k. k\<lparr>lh_prev := h\<rparr>) m;
     m \<leftarrow> upd_link h (\<lambda>k. k\<lparr>lh_next := first\<rparr>) m;
     m \<leftarrow> upd_link last (\<lambda>k. k\<lparr>lh_next := at\<rparr>) m;
     upd_link at (\<lambda>k. k\<lparr>lh_prev := last\<rparr>) m }"

definition list_splice :: "ptr \<Rightarrow> ptr \<Rightarrow> links \<Rightarrow> links option" where
  "list_splice l h m = do { e \<leftarrow> list_empty l m; if \<not> e then list_splice_at l h m else Some m }"

definition list_splice_init :: "ptr \<Rightarrow> ptr \<Rightarrow> links \<Rightarrow> links option" where
  "list_splice_init l h m = do {
     e \<leftarrow> list_empty l m;
     if \<not> e then do { m \<leftarrow> list_splice_at l h m; INIT_LIST_HEAD l m } else Some m }"

partial_function (option) list_for_each :: "ptr \<Rightarrow> ptr \<Rightarrow> links \<Rightarrow> ptr list option" where
  \<comment> \<open>the nodes that \<^verbatim>\<open>list_for_each\<close> visits from \<open>pos\<close> on\<close>
  "list_for_each pos h m =
     (if pos = h then Some [] else do { k \<leftarrow> m pos; ps \<leftarrow> list_for_each (lh_next k) h m; Some (pos # ps) })"

partial_function (option) list_for_each_prev :: "ptr \<Rightarrow> ptr \<Rightarrow> links \<Rightarrow> ptr list option" where
  "list_for_each_prev pos h m =
     (if pos = h then Some [] else do { k \<leftarrow> m pos; ps \<leftarrow> list_for_each_prev (lh_prev k) h m; Some (pos # ps) })"

section \<open>What the links hold\<close>

definition nxt :: "links \<Rightarrow> ptr \<Rightarrow> ptr option" where "nxt m a = map_option lh_next (m a)"
definition prv :: "links \<Rightarrow> ptr \<Rightarrow> ptr option" where "prv m a = map_option lh_prev (m a)"

fun lseg :: "links \<Rightarrow> ptr \<Rightarrow> ptr list \<Rightarrow> ptr \<Rightarrow> bool" where
  \<comment> \<open>from \<open>a\<close> over the nodes of the list to \<open>b\<close>, in both directions\<close>
  "lseg m a [] b \<longleftrightarrow> nxt m a = Some b \<and> prv m b = Some a"
| "lseg m a (x # xs) b \<longleftrightarrow> nxt m a = Some x \<and> prv m x = Some a \<and> lseg m x xs b"

definition circ :: "links \<Rightarrow> ptr \<Rightarrow> ptr list \<Rightarrow> bool" where
  \<comment> \<open>the list with head \<open>h\<close> holds the nodes \<open>xs\<close>\<close>
  "circ m h xs \<longleftrightarrow> distinct (h # xs) \<and> lseg m h xs h"

definition agree :: "links \<Rightarrow> links \<Rightarrow> ptr set \<Rightarrow> bool" where
  \<comment> \<open>no node outside \<open>A\<close> has changed\<close>
  "agree m m' A \<longleftrightarrow> (\<forall>a. a \<in> A \<or> m' a = m a)"

lemma nxt_upd [simp]: "nxt (m(a \<mapsto> k)) b = (if b = a then Some (lh_next k) else nxt m b)"
  by (simp add: nxt_def)

lemma prv_upd [simp]: "prv (m(a \<mapsto> k)) b = (if b = a then Some (lh_prev k) else prv m b)"
  by (simp add: prv_def)

lemma nxt_Some: "nxt m a = Some b \<longleftrightarrow> (\<exists>k. m a = Some k \<and> lh_next k = b)"
  by (auto simp: nxt_def)

lemma prv_Some: "prv m a = Some b \<longleftrightarrow> (\<exists>k. m a = Some k \<and> lh_prev k = b)"
  by (auto simp: prv_def)

lemma lseg_append: "lseg m a (xs @ x # ys) b \<longleftrightarrow> lseg m a xs x \<and> lseg m x ys b"
  by (induction xs arbitrary: a) auto

lemma lseg_cong:
  assumes "\<And>y. y \<in> set (a # xs) \<Longrightarrow> nxt m' y = nxt m y" "\<And>y. y \<in> set (xs @ [b]) \<Longrightarrow> prv m' y = prv m y"
  shows "lseg m' a xs b = lseg m a xs b"
  using assms by (induction xs arbitrary: a) auto

lemma lseg_first: "lseg m a xs b \<Longrightarrow> nxt m a = Some (List.hd (xs @ [b]))"
  by (cases xs) auto

lemma lseg_last: "lseg m a xs b \<Longrightarrow> prv m b = Some (List.last (a # xs))"
  by (induction xs arbitrary: a) auto

lemma lseg_mem: "lseg m a xs b \<Longrightarrow> y \<in> set (a # xs @ [b]) \<Longrightarrow> m y \<noteq> None"
  by (induction xs arbitrary: a) (auto simp: nxt_Some prv_Some)

lemma circ_frame:
  assumes "circ m h xs" "agree m m' A" "A \<inter> set (h # xs) = {}"
  shows "circ m' h xs"
proof -
  have "m' y = m y" if "y \<in> set (h # xs)" for y using that assms(2,3) unfolding agree_def by blast
  then have "lseg m' h xs h = lseg m h xs h" by (intro lseg_cong) (auto simp: nxt_def prv_def)
  then show ?thesis using assms(1) by (simp add: circ_def)
qed

lemma circ_dom: "circ m h xs \<Longrightarrow> y \<in> set (h # xs) \<Longrightarrow> m y \<noteq> None"
  unfolding circ_def using lseg_mem [of m h xs h y] by auto

section \<open>The elementary changes\<close>

lemma set_next:
  assumes "m a \<noteq> None"
  shows "\<exists>m'. upd_link a (\<lambda>k. k\<lparr>lh_next := v\<rparr>) m = Some m' \<and> nxt m' = (nxt m)(a := Some v) \<and> prv m' = prv m
    \<and> agree m m' {a} \<and> dom m' = dom m"
proof -
  obtain k where "m a = Some k" using assms by blast
  then show ?thesis by (intro exI [of _ "m(a \<mapsto> k\<lparr>lh_next := v\<rparr>)"]) (auto simp: upd_link_def agree_def nxt_def prv_def)
qed

lemma set_prev:
  assumes "m a \<noteq> None"
  shows "\<exists>m'. upd_link a (\<lambda>k. k\<lparr>lh_prev := v\<rparr>) m = Some m' \<and> nxt m' = nxt m \<and> prv m' = (prv m)(a := Some v)
    \<and> agree m m' {a} \<and> dom m' = dom m"
proof -
  obtain k where "m a = Some k" using assms by blast
  then show ?thesis by (intro exI [of _ "m(a \<mapsto> k\<lparr>lh_prev := v\<rparr>)"]) (auto simp: upd_link_def agree_def nxt_def prv_def)
qed

lemma agree_trans: "agree m m1 A \<Longrightarrow> agree m1 m2 B \<Longrightarrow> agree m m2 (A \<union> B)"
  unfolding agree_def by (metis UnCI)

lemma agree_mono: "agree m m' A \<Longrightarrow> A \<subseteq> B \<Longrightarrow> agree m m' B"
  unfolding agree_def by blast

lemma dom_None: "dom m' = dom m \<Longrightarrow> m' a = None \<longleftrightarrow> m a = None"
  by (metis domIff)

lemma add_between_effect:
  assumes "m n \<noteq> None" "m p \<noteq> None" "m q \<noteq> None"
  shows "\<exists>m'. list_add_between n p q m = Some m' \<and> nxt m' = (nxt m)(n := Some q, p := Some n)
    \<and> prv m' = (prv m)(q := Some n, n := Some p) \<and> agree m m' {n, p, q} \<and> dom m' = dom m"
proof -
  obtain m1 where 1: "upd_link q (\<lambda>k. k\<lparr>lh_prev := n\<rparr>) m = Some m1" "nxt m1 = nxt m" "prv m1 = (prv m)(q := Some n)"
    "agree m m1 {q}" "dom m1 = dom m" using set_prev [of m q n, OF assms(3)] by blast
  have "m1 n \<noteq> None" using assms(1) dom_None [OF 1(5)] by simp
  from set_next [of m1 n q, OF this] obtain m2 where 2: "upd_link n (\<lambda>k. k\<lparr>lh_next := q\<rparr>) m1 = Some m2" "nxt m2 = (nxt m1)(n := Some q)"
    "prv m2 = prv m1" "agree m1 m2 {n}" "dom m2 = dom m1" by blast
  have "m2 n \<noteq> None" using assms(1) dom_None [OF 1(5)] dom_None [OF 2(5)] by simp
  from set_prev [of m2 n p, OF this] obtain m3 where 3: "upd_link n (\<lambda>k. k\<lparr>lh_prev := p\<rparr>) m2 = Some m3" "nxt m3 = nxt m2"
    "prv m3 = (prv m2)(n := Some p)" "agree m2 m3 {n}" "dom m3 = dom m2" by blast
  have "m3 p \<noteq> None" using assms(2) dom_None [OF 1(5)] dom_None [OF 2(5)] dom_None [OF 3(5)] by simp
  from set_next [of m3 p n, OF this] obtain m4 where 4: "upd_link p (\<lambda>k. k\<lparr>lh_next := n\<rparr>) m3 = Some m4" "nxt m4 = (nxt m3)(p := Some n)"
    "prv m4 = prv m3" "agree m3 m4 {p}" "dom m4 = dom m3" by blast
  have "agree m m4 {n, p, q}"
    using agree_trans [OF agree_trans [OF agree_trans [OF 1(4) 2(4)] 3(4)] 4(4)] by (simp add: insert_commute)
  then show ?thesis using 1 2 3 4 by (simp add: list_add_between_def)
qed

lemma del_between_effect:
  assumes "m p \<noteq> None" "m q \<noteq> None"
  shows "\<exists>m'. list_del_between p q m = Some m' \<and> nxt m' = (nxt m)(p := Some q) \<and> prv m' = (prv m)(q := Some p)
    \<and> agree m m' {p, q} \<and> dom m' = dom m"
proof -
  obtain m1 where 1: "upd_link q (\<lambda>k. k\<lparr>lh_prev := p\<rparr>) m = Some m1" "nxt m1 = nxt m" "prv m1 = (prv m)(q := Some p)"
    "agree m m1 {q}" "dom m1 = dom m" using set_prev [of m q p, OF assms(2)] by blast
  have "m1 p \<noteq> None" using assms(1) dom_None [OF 1(5)] by simp
  from set_next [of m1 p q, OF this] obtain m2 where 2: "upd_link p (\<lambda>k. k\<lparr>lh_next := q\<rparr>) m1 = Some m2" "nxt m2 = (nxt m1)(p := Some q)"
    "prv m2 = prv m1" "agree m1 m2 {p}" "dom m2 = dom m1" by blast
  have "agree m m2 {p, q}" using agree_trans [OF 1(4) 2(4)] by (simp add: insert_commute)
  then show ?thesis using 1 2 by (simp add: list_del_between_def)
qed

lemma lseg_insert:
  assumes "lseg m a (l @ r) b" "distinct (a # l @ r)" "b \<notin> set (l @ r)" "x \<notin> set (a # l @ r @ [b])"
    and p: "p = List.last (a # l)" and q: "q = List.hd (r @ [b])"
    and n': "nxt m' = (nxt m)(x := Some q, p := Some x)" and p': "prv m' = (prv m)(q := Some x, x := Some p)"
  shows "lseg m' a (l @ x # r) b"
proof -
  have keep: "lseg m' c zs d = lseg m c zs d" if "x \<notin> set (c # zs @ [d])" "p \<notin> set (c # zs)" "q \<notin> set (zs @ [d])" for c zs d
    by (rule lseg_cong) (use that n' p' in auto)
  have left: "lseg m' a l x"
  proof (cases l rule: rev_cases)
    case Nil
    then show ?thesis using assms(4) p n' p' by auto
  next
    case (snoc l' c)
    then have m: "lseg m a l' c" using assms(1) by (simp add: lseg_append)
    have "q \<notin> set l" using assms(2,3) q by (cases r) auto
    then have "lseg m' a l' c = lseg m a l' c" using assms(2,4) p snoc by (intro keep) auto
    then show ?thesis using m snoc p assms(2,4) n' p' by (auto simp: lseg_append)
  qed
  have right: "lseg m' x r b"
  proof (cases r)
    case Nil
    then show ?thesis using assms(4) p q n' p' by auto
  next
    case (Cons c r')
    then have m: "lseg m c r' b" using assms(1) by (simp add: lseg_append)
    have "p \<notin> set r" using assms(2) p by (cases l rule: rev_cases) auto
    then have "lseg m' c r' b = lseg m c r' b" using assms(2,3,4) q Cons by (intro keep) auto
    moreover have "c \<noteq> x" "p \<noteq> x" using assms(4) Cons p by (cases l rule: rev_cases; auto)+
    ultimately show ?thesis using m Cons q n' p' by auto
  qed
  show ?thesis using left right by (simp add: lseg_append)
qed

lemma lseg_remove:
  assumes "lseg m a (l @ x # r) b" "distinct (a # l @ x # r)" "b \<notin> set (l @ x # r)"
    and p: "p = List.last (a # l)" and q: "q = List.hd (r @ [b])"
    and n': "\<And>y. y \<noteq> x \<Longrightarrow> nxt m' y = ((nxt m)(p := Some q)) y" and p': "\<And>y. y \<noteq> x \<Longrightarrow> prv m' y = ((prv m)(q := Some p)) y"
  shows "lseg m' a (l @ r) b"
proof -
  have m: "lseg m a l x" "lseg m x r b" using assms(1) by (simp_all add: lseg_append)
  have px: "p \<noteq> x" "p \<notin> set r" using assms(2) p by (cases l rule: rev_cases; auto)+
  have qx: "q \<noteq> x" "q \<notin> set l" using assms(2,3) q by (cases r; auto)+
  have keep: "lseg m' c zs d = lseg m c zs d" if k: "x \<notin> set (c # zs @ [d])" "p \<notin> set (c # zs)" "q \<notin> set (zs @ [d])" for c zs d
  proof (rule lseg_cong)
    fix y
    assume "y \<in> set (c # zs)"
    then have "y \<noteq> x" "y \<noteq> p" using k by auto
    then show "nxt m' y = nxt m y" using n' by simp
  next
    fix y
    assume "y \<in> set (zs @ [d])"
    then have "y \<noteq> x" "y \<noteq> q" using k by auto
    then show "prv m' y = prv m y" using p' by simp
  qed
  have left: "lseg m' a l' c" if "l = l' @ [c]" for l' c
  proof -
    have "lseg m' a l' c = lseg m a l' c" using assms(2) p qx that by (intro keep) auto
    then show ?thesis using m(1) that by (simp add: lseg_append)
  qed
  have right: "lseg m' c r' b" if "r = c # r'" for c r'
  proof -
    have "lseg m' c r' b = lseg m c r' b" using assms(2,3) q px that by (intro keep) auto
    then show ?thesis using m(2) that by simp
  qed
  have join: "nxt m' p = Some q" "prv m' q = Some p" using n' [OF px(1)] p' [OF qx(1)] by simp_all
  show ?thesis
  proof (cases l rule: rev_cases)
    case l: Nil
    show ?thesis using l join p q right by (cases r) auto
  next
    case l: (snoc l' c)
    have "lseg m' c r b" using l join p q right by (cases r) auto
    then show ?thesis using left [OF l] l by (simp add: lseg_append)
  qed
qed

section \<open>Adding, removing, moving\<close>

lemma circ_insert:
  assumes "circ m h (l @ r)" "x \<notin> set (h # l @ r)" "m x \<noteq> None"
  shows "\<exists>m'. list_add_between x (List.last (h # l)) (List.hd (r @ [h])) m = Some m' \<and> circ m' h (l @ x # r)
    \<and> agree m m' (set (x # h # l @ r)) \<and> dom m' = dom m"
proof -
  let ?p = "List.last (h # l)" and ?q = "List.hd (r @ [h])"
  have in': "?p \<in> set (h # l @ r)" "?q \<in> set (h # l @ r)" by (auto simp: hd_append)
  have "m ?p \<noteq> None" "m ?q \<noteq> None" using circ_dom [OF assms(1)] in' by blast+
  from add_between_effect [OF assms(3) this] obtain m' where m': "list_add_between x ?p ?q m = Some m'"
    "nxt m' = (nxt m)(x := Some ?q, ?p := Some x)" "prv m' = (prv m)(?q := Some x, x := Some ?p)" "agree m m' {x, ?p, ?q}" "dom m' = dom m"
    by blast
  have "lseg m' h (l @ x # r) h"
    by (rule lseg_insert [OF _ _ _ _ refl refl m'(2,3)]) (use assms(1,2) in \<open>auto simp: circ_def\<close>)
  then have "circ m' h (l @ x # r)" using assms(1,2) by (auto simp: circ_def)
  moreover have "agree m m' (set (x # h # l @ r))" by (rule agree_mono [OF m'(4)]) (use in' in auto)
  ultimately show ?thesis using m'(1,5) by blast
qed

lemma list_add_circ:
  assumes "circ m h xs" "x \<notin> set (h # xs)" "m x \<noteq> None"
  shows "\<exists>m'. list_add x h m = Some m' \<and> circ m' h (x # xs) \<and> agree m m' (set (x # h # xs)) \<and> dom m' = dom m"
proof -
  have "nxt m h = Some (List.hd (xs @ [h]))" using assms(1) by (simp add: circ_def lseg_first)
  then show ?thesis using circ_insert [of m h "[]" xs x] assms by (auto simp: list_add_def nxt_Some)
qed

lemma list_add_tail_circ:
  assumes "circ m h xs" "x \<notin> set (h # xs)" "m x \<noteq> None"
  shows "\<exists>m'. list_add_tail x h m = Some m' \<and> circ m' h (xs @ [x]) \<and> agree m m' (set (x # h # xs)) \<and> dom m' = dom m"
proof -
  have "prv m h = Some (List.last (h # xs))" using assms(1) by (simp only: circ_def lseg_last)
  then show ?thesis using circ_insert [of m h xs "[]" x] assms by (auto simp: list_add_tail_def prv_Some)
qed

lemma circ_unlink:
  \<comment> \<open>what \<^verbatim>\<open>__list_del\<close> does, whatever then happens to the links of \<open>x\<close> itself\<close>
  assumes "circ m h (l @ x # r)"
  shows "\<exists>k m'. m x = Some k \<and> list_del_between (lh_prev k) (lh_next k) m = Some m'
    \<and> (\<forall>m2. agree m' m2 {x} \<longrightarrow> circ m2 h (l @ r)) \<and> agree m m' (set (h # l @ r)) \<and> dom m' = dom m"
proof -
  let ?p = "List.last (h # l)" and ?q = "List.hd (r @ [h])"
  have sg: "lseg m h l x" "lseg m x r h" and d: "distinct (h # l @ x # r)" using assms by (auto simp: circ_def lseg_append)
  have in': "?p \<in> set (h # l @ r)" "?q \<in> set (h # l @ r)" by (auto simp: hd_append)
  obtain k where k: "m x = Some k" "lh_next k = ?q" "lh_prev k = ?p"
    using lseg_first [OF sg(2)] lseg_last [OF sg(1)] by (auto simp: nxt_Some prv_Some)
  have "?p \<in> set (h # l @ x # r)" "?q \<in> set (h # l @ x # r)" using in' by auto
  then have "m ?p \<noteq> None" "m ?q \<noteq> None" using circ_dom [OF assms] by blast+
  from del_between_effect [OF this] obtain m' where m': "list_del_between ?p ?q m = Some m'"
    "nxt m' = (nxt m)(?p := Some ?q)" "prv m' = (prv m)(?q := Some ?p)" "agree m m' {?p, ?q}" "dom m' = dom m" by blast
  have "circ m2 h (l @ r)" if "agree m' m2 {x}" for m2
  proof -
    have m2: "nxt m2 y = ((nxt m)(?p := Some ?q)) y" "prv m2 y = ((prv m)(?q := Some ?p)) y" if "y \<noteq> x" for y
      using \<open>agree m' m2 {x}\<close> that m'(2,3) unfolding agree_def nxt_def prv_def by (metis empty_iff insertE)+
    have "lseg m2 h (l @ r) h"
      by (rule lseg_remove [OF _ _ _ refl refl m2]) (use assms in \<open>auto simp: circ_def\<close>)
    then show ?thesis using d by (auto simp: circ_def)
  qed
  moreover have "agree m m' (set (h # l @ r))" by (rule agree_mono [OF m'(4)]) (use in' in auto)
  ultimately show ?thesis using k m'(1,5) by auto
qed

lemma list_del_circ:
  assumes "circ m h (l @ x # r)"
  shows "\<exists>m'. list_del x m = Some m' \<and> circ m' h (l @ r) \<and> list_not_in_link x m' = Some True
    \<and> agree m m' (set (h # l @ x # r)) \<and> dom m' = dom m"
proof -
  obtain k m1 where 1: "m x = Some k" "list_del_between (lh_prev k) (lh_next k) m = Some m1" "\<forall>m2. agree m1 m2 {x} \<longrightarrow> circ m2 h (l @ r)"
    "agree m m1 (set (h # l @ r))" "dom m1 = dom m" using circ_unlink [OF assms] by blast
  have "m1 x \<noteq> None" using 1(1) dom_None [OF 1(5)] by simp
  then obtain k1 where k1: "m1 x = Some k1" by blast
  let ?m = "m1(x \<mapsto> k1\<lparr>lh_next := NULL, lh_prev := NULL\<rparr>)"
  have "list_del x m = Some ?m" using 1(1,2) k1 by (simp add: list_del_def upd_link_def)
  moreover have a: "agree m1 ?m {x}" by (simp add: agree_def)
  moreover have "agree m ?m (set (h # l @ x # r))" using agree_trans [OF 1(4) a] by (auto simp: agree_def)
  moreover have "list_not_in_link x ?m = Some True" by (simp add: list_not_in_link_def)
  moreover have "dom ?m = dom m" using 1(5) k1 by (auto simp: dom_def)
  ultimately show ?thesis using 1(3) by blast
qed

lemma list_move_circ:
  assumes "circ m h (l @ x # r)"
  shows "\<exists>m'. list_move x h m = Some m' \<and> circ m' h (x # l @ r) \<and> agree m m' (set (h # l @ x # r)) \<and> dom m' = dom m"
proof -
  obtain k m1 where 1: "m x = Some k" "list_del_between (lh_prev k) (lh_next k) m = Some m1" "\<forall>m2. agree m1 m2 {x} \<longrightarrow> circ m2 h (l @ r)"
    "agree m m1 (set (h # l @ r))" "dom m1 = dom m" using circ_unlink [OF assms] by blast
  have x: "m1 x \<noteq> None" using 1(1) dom_None [OF 1(5)] by simp
  have nin: "x \<notin> set (h # l @ r)" using assms by (auto simp: circ_def)
  have c: "circ m1 h (l @ r)" using 1(3) by (simp add: agree_def)
  from list_add_circ [OF c nin x] obtain m' where m': "list_add x h m1 = Some m'" "circ m' h (x # l @ r)"
    "agree m1 m' (set (x # h # l @ r))" "dom m' = dom m1" by blast
  have "agree m m' (set (h # l @ x # r))" using agree_trans [OF 1(4) m'(3)] by (auto simp: agree_def)
  then show ?thesis using 1(1,2,5) m' by (simp add: list_move_def)
qed

lemma list_move_tail_circ:
  assumes "circ m h (l @ x # r)"
  shows "\<exists>m'. list_move_tail x h m = Some m' \<and> circ m' h (l @ r @ [x]) \<and> agree m m' (set (h # l @ x # r)) \<and> dom m' = dom m"
proof -
  obtain k m1 where 1: "m x = Some k" "list_del_between (lh_prev k) (lh_next k) m = Some m1" "\<forall>m2. agree m1 m2 {x} \<longrightarrow> circ m2 h (l @ r)"
    "agree m m1 (set (h # l @ r))" "dom m1 = dom m" using circ_unlink [OF assms] by blast
  have x: "m1 x \<noteq> None" using 1(1) dom_None [OF 1(5)] by simp
  have nin: "x \<notin> set (h # l @ r)" using assms by (auto simp: circ_def)
  have c: "circ m1 h (l @ r)" using 1(3) by (simp add: agree_def)
  from list_add_tail_circ [OF c nin x] obtain m' where m': "list_add_tail x h m1 = Some m'" "circ m' h ((l @ r) @ [x])"
    "agree m1 m' (set (x # h # l @ r))" "dom m' = dom m1" by blast
  have "agree m m' (set (h # l @ x # r))" using agree_trans [OF 1(4) m'(3)] by (auto simp: agree_def)
  then show ?thesis using 1(1,2,5) m' by (simp add: list_move_tail_def)
qed

lemma list_del_init_circ:
  assumes "circ m h (l @ x # r)"
  shows "\<exists>m'. list_del_init x m = Some m' \<and> circ m' h (l @ r) \<and> circ m' x []"
proof -
  obtain k m1 where 1: "m x = Some k" "list_del_between (lh_prev k) (lh_next k) m = Some m1" "\<forall>m2. agree m1 m2 {x} \<longrightarrow> circ m2 h (l @ r)"
    "dom m1 = dom m" using circ_unlink [OF assms] by blast
  have "m1 x \<noteq> None" using 1(1) dom_None [OF 1(4)] by simp
  then obtain k1 where k1: "m1 x = Some k1" by blast
  let ?m = "m1(x \<mapsto> k1\<lparr>lh_next := x, lh_prev := x\<rparr>)"
  have "list_del_init x m = Some ?m" using 1(1,2) k1 by (simp add: list_del_init_def INIT_LIST_HEAD_def upd_link_def)
  moreover have "circ ?m x []" by (simp add: circ_def)
  moreover have "circ ?m h (l @ r)" using 1(3) by (simp add: agree_def)
  ultimately show ?thesis by blast
qed

section \<open>Walking, emptiness\<close>

lemma list_empty_circ:
  assumes "circ m h xs"
  shows "list_empty h m = Some (xs = [])"
proof -
  have "nxt m h = Some (List.hd (xs @ [h]))" using assms by (simp add: circ_def lseg_first)
  moreover have "List.hd (xs @ [h]) = h \<longleftrightarrow> xs = []" using assms by (cases xs) (auto simp: circ_def)
  ultimately show ?thesis by (auto simp: list_empty_def nxt_Some)
qed

lemma for_each_lseg:
  assumes "lseg m a xs h" "h \<notin> set xs" "nxt m a = Some p"
  shows "list_for_each p h m = Some xs"
  using assms
proof (induction xs arbitrary: a p)
  case Nil
  then show ?case by (subst list_for_each.simps) simp
next
  case (Cons x xs)
  then have p: "p = x" "lseg m x xs h" "x \<noteq> h" by auto
  have "\<exists>q. nxt m x = Some q" using lseg_first [OF p(2)] by blast
  then obtain q where q: "nxt m x = Some q" by blast
  then have "list_for_each q h m = Some xs" using Cons.IH [OF p(2)] Cons.prems(2) by simp
  then show ?case using p q by (subst list_for_each.simps) (auto simp: nxt_Some)
qed

lemma for_each_prev_lseg:
  assumes "lseg m h xs b" "h \<notin> set xs" "prv m b = Some p"
  shows "list_for_each_prev p h m = Some (List.rev xs)"
  using assms
proof (induction xs arbitrary: b p rule: rev_induct)
  case Nil
  then show ?case by (subst list_for_each_prev.simps) simp
next
  case (snoc x xs)
  then have p: "p = x" "lseg m h xs x" "x \<noteq> h" by (auto simp: lseg_append)
  have "\<exists>q. prv m x = Some q" using lseg_last [OF p(2)] by blast
  then obtain q where q: "prv m x = Some q" by blast
  then have "list_for_each_prev q h m = Some (List.rev xs)" using snoc.IH [OF p(2)] snoc.prems(2) by simp
  then show ?case using p q by (subst list_for_each_prev.simps) (auto simp: prv_Some)
qed

lemma list_walks_circ:
  assumes "circ m h xs"
  shows "\<exists>k. m h = Some k \<and> list_for_each (lh_next k) h m = Some xs \<and> list_for_each_prev (lh_prev k) h m = Some (List.rev xs)"
proof -
  have s: "lseg m h xs h" "h \<notin> set xs" using assms by (simp_all add: circ_def)
  obtain k where k: "m h = Some k" using circ_dom [OF assms, of h] by auto
  then have "nxt m h = Some (lh_next k)" "prv m h = Some (lh_prev k)" by (simp_all add: nxt_def prv_def)
  then show ?thesis using k for_each_lseg [OF s] for_each_prev_lseg [OF s] by blast
qed

section \<open>Splicing\<close>

lemma lseg_change_ends:
  assumes "lseg m a (x # xs) b" "distinct (x # xs)" "a \<notin> set (x # xs)" "b \<notin> set (x # xs)"
    and f: "nxt m' c = Some x" "prv m' x = Some c" and l: "nxt m' (List.last (x # xs)) = Some d" "prv m' d = Some (List.last (x # xs))"
    and keep: "\<And>y. y \<in> set (butlast (x # xs)) \<Longrightarrow> nxt m' y = nxt m y" "\<And>y. y \<in> set xs \<Longrightarrow> prv m' y = prv m y"
  shows "lseg m' c (x # xs) d"
proof (cases xs rule: rev_cases)
  case Nil
  then show ?thesis using f l by simp
next
  case (snoc ys z)
  have "lseg m x ys z" using assms(1) snoc by (simp add: lseg_append)
  moreover have "lseg m' x ys z = lseg m x ys z"
    by (rule lseg_cong; rule keep) (use snoc in \<open>auto simp: butlast_append\<close>)
  ultimately show ?thesis using f l snoc by (simp add: lseg_append)
qed

lemma list_splice_circ:
  assumes "circ m h xs" "circ m l ys" "set (h # xs) \<inter> set (l # ys) = {}"
  shows "\<exists>m'. list_splice l h m = Some m' \<and> circ m' h (ys @ xs) \<and> dom m' = dom m"
proof (cases ys)
  case Nil
  then show ?thesis using assms list_empty_circ [OF assms(2)] by (simp add: list_splice_def)
next
  case (Cons y zs)
  let ?t = "List.last ys" and ?at = "List.hd (xs @ [h])"
  have ne: "ys \<noteq> []" using Cons by simp
  have s: "lseg m h xs h" "lseg m l ys l" "distinct (h # xs)" "distinct (l # ys)" using assms by (simp_all add: circ_def)
  have "nxt m l = Some y" "prv m l = Some ?t" using lseg_first [OF s(2)] lseg_last [OF s(2)] Cons by simp_all
  then obtain k where k: "m l = Some k" "lh_next k = y" "lh_prev k = ?t" by (auto simp: nxt_Some prv_Some)
  obtain j where j: "m h = Some j" "lh_next j = ?at" using lseg_first [OF s(1)] by (auto simp: nxt_Some)
  have mem: "?t \<in> set ys" "y \<in> set ys" "?at \<in> set (h # xs)" using Cons by (auto simp: hd_append)
  then have md: "m y \<noteq> None" "m h \<noteq> None" "m ?t \<noteq> None" "m ?at \<noteq> None"
    using circ_dom [OF assms(1)] circ_dom [OF assms(2)] by (simp_all add: list.set_intros)
  from set_prev [of m y h, OF md(1)] obtain m1 where 1: "upd_link y (\<lambda>k. k\<lparr>lh_prev := h\<rparr>) m = Some m1" "nxt m1 = nxt m"
    "prv m1 = (prv m)(y := Some h)" "dom m1 = dom m" by blast
  have "m1 h \<noteq> None" using md(2) dom_None [OF 1(4)] by simp
  from set_next [of m1 h y, OF this] obtain m2 where 2: "upd_link h (\<lambda>k. k\<lparr>lh_next := y\<rparr>) m1 = Some m2" "nxt m2 = (nxt m1)(h := Some y)"
    "prv m2 = prv m1" "dom m2 = dom m1" by blast
  have "m2 ?t \<noteq> None" using md(3) dom_None [OF 1(4)] dom_None [OF 2(4)] by simp
  from set_next [of m2 ?t ?at, OF this] obtain m3 where 3: "upd_link ?t (\<lambda>k. k\<lparr>lh_next := ?at\<rparr>) m2 = Some m3"
    "nxt m3 = (nxt m2)(?t := Some ?at)" "prv m3 = prv m2" "dom m3 = dom m2" by blast
  have "m3 ?at \<noteq> None" using md(4) dom_None [OF 1(4)] dom_None [OF 2(4)] dom_None [OF 3(4)] by simp
  from set_prev [of m3 ?at ?t, OF this] obtain m4 where 4: "upd_link ?at (\<lambda>k. k\<lparr>lh_prev := ?t\<rparr>) m3 = Some m4"
    "nxt m4 = nxt m3" "prv m4 = (prv m3)(?at := Some ?t)" "dom m4 = dom m3" by blast
  have n4: "nxt m4 = (nxt m)(h := Some y, ?t := Some ?at)" and p4: "prv m4 = (prv m)(y := Some h, ?at := Some ?t)"
    using 1 2 3 4 by simp_all
  have ap: "set (h # xs) \<inter> set ys = {}" using assms(3) by auto
  have apart: "a \<in> set (h # xs) \<Longrightarrow> a \<notin> set ys" for a using ap by (meson disjoint_iff)
  have off: "h \<notin> set ys" "?at \<notin> set ys" "?t \<notin> set (h # xs)" "y \<notin> set (h # xs)"
    using apart [of h] apart [OF mem(3)] apart [of ?t] apart [of y] mem(1,2) by (simp, metis, metis, metis)
  have run: "list_splice l h m = Some m4"
    using list_empty_circ [OF assms(2)] ne k j 1(1) 2(1) 3(1) 4(1) by (simp add: list_splice_def list_splice_at_def)
  have "lseg m4 h (y # zs) ?at"
  proof (rule lseg_change_ends [of m l y zs l])
    show "lseg m l (y # zs) l" "distinct (y # zs)" "l \<notin> set (y # zs)" "l \<notin> set (y # zs)" using s Cons by auto
    show "nxt m4 h = Some y" "prv m4 y = Some h" using n4 p4 off mem Cons by auto
    show "nxt m4 (List.last (y # zs)) = Some ?at" "prv m4 ?at = Some (List.last (y # zs))" using n4 p4 Cons by simp_all
    show "nxt m4 v = nxt m v" if "v \<in> set (butlast (y # zs))" for v
    proof -
      have v: "v \<in> set (butlast ys)" using that Cons by simp
      have "ys = butlast ys @ [?t]" using ne by simp
      then have "distinct (butlast ys @ [?t])" using s(4) by simp
      then have "v \<in> set ys" "v \<noteq> ?t" using v in_set_butlastD [OF v] by auto
      then show ?thesis using n4 off(1) by auto
    qed
    show "prv m4 v = prv m v" if "v \<in> set zs" for v
    proof -
      have "v \<noteq> y" "v \<noteq> ?at" using that s(4) Cons off(2) by auto
      then show ?thesis using p4 by simp
    qed
  qed
  then have left: "lseg m4 h ys ?at" using Cons by simp
  have "lseg m4 h (ys @ xs) h"
  proof (cases xs)
    case Nil
    then show ?thesis using left by simp
  next
    case xs: (Cons x xs')
    then have m: "lseg m x xs' h" using s(1) by simp
    have "lseg m4 x xs' h = lseg m x xs' h"
    proof (rule lseg_cong)
      show "nxt m4 v = nxt m v" if "v \<in> set (x # xs')" for v
      proof -
        have "v \<noteq> h" "v \<noteq> ?t" using that xs s(3) off(3) by auto
        then show ?thesis using n4 by simp
      qed
      show "prv m4 v = prv m v" if "v \<in> set (xs' @ [h])" for v
      proof -
        have "v \<noteq> y" "v \<noteq> ?at" using that xs s(3) off(4) by auto
        then show ?thesis using p4 by simp
      qed
    qed
    then show ?thesis using left m xs by (simp add: lseg_append)
  qed
  moreover have "distinct (h # ys @ xs)" using s(3,4) ap by auto
  moreover have "dom m4 = dom m" using 1(4) 2(4) 3(4) 4(4) by simp
  ultimately show ?thesis using run by (simp add: circ_def)
qed

lemma list_splice_init_circ:
  assumes "circ m h xs" "circ m l ys" "set (h # xs) \<inter> set (l # ys) = {}"
  shows "\<exists>m'. list_splice_init l h m = Some m' \<and> circ m' h (ys @ xs) \<and> circ m' l []"
proof -
  obtain m1 where 1: "list_splice l h m = Some m1" "circ m1 h (ys @ xs)" "dom m1 = dom m" using list_splice_circ [OF assms] by blast
  show ?thesis
  proof (cases "ys = []")
    case True
    then show ?thesis using assms list_empty_circ [OF assms(2)] by (simp add: list_splice_init_def)
  next
    case False
    then have at: "list_splice_at l h m = Some m1" using 1(1) list_empty_circ [OF assms(2)] by (simp add: list_splice_def)
    have "m1 l \<noteq> None" using circ_dom [OF assms(2), of l] dom_None [OF 1(3)] by simp
    then obtain k where k: "m1 l = Some k" by blast
    let ?m = "m1(l \<mapsto> k\<lparr>lh_next := l, lh_prev := l\<rparr>)"
    have "list_splice_init l h m = Some ?m"
      using at k False list_empty_circ [OF assms(2)] by (simp add: list_splice_init_def INIT_LIST_HEAD_def upd_link_def)
    moreover have "circ ?m h (ys @ xs)"
      by (rule circ_frame [OF 1(2), of _ "{l}"]) (use assms in \<open>auto simp: agree_def circ_def\<close>)
    moreover have "circ ?m l []" by (simp add: circ_def)
    ultimately show ?thesis by blast
  qed
qed

text \<open>C7: the operations on the links are the operations on the sequence of nodes that both directions of the walk give:
  \<^verbatim>\<open>list_add\<close> puts a node in front, \<^verbatim>\<open>list_add_tail\<close> behind, \<^verbatim>\<open>list_del\<close> takes it out and \<^verbatim>\<open>list_move\<close> brings it to the
  front, wherever it is, and the node that was deleted is no longer in a list.\<close>

theorem list_refines_sequence:
  assumes "circ m h (l @ x # r)" "y \<notin> set (h # l @ x # r)" "m y \<noteq> None"
  shows "(\<exists>m'. list_add y h m = Some m' \<and> circ m' h (y # l @ x # r))
    \<and> (\<exists>m'. list_add_tail y h m = Some m' \<and> circ m' h (l @ x # r @ [y]))
    \<and> (\<exists>m'. list_del x m = Some m' \<and> circ m' h (l @ r) \<and> list_not_in_link x m' = Some True)
    \<and> (\<exists>m'. list_move x h m = Some m' \<and> circ m' h (x # l @ r))
    \<and> (\<exists>k. m h = Some k \<and> list_for_each (lh_next k) h m = Some (l @ x # r)
        \<and> list_for_each_prev (lh_prev k) h m = Some (List.rev (l @ x # r)))"
  using list_add_circ [OF assms] list_add_tail_circ [OF assms] list_del_circ [OF assms(1)] list_move_circ [OF assms(1)]
    list_walks_circ [OF assms(1)] by (intro conjI) fastforce+

lemma list_refines_sequence_witness:
  "\<exists>m'. list_move 3 1 [1 \<mapsto> \<lparr>lh_next = 2, lh_prev = 3\<rparr>, 2 \<mapsto> \<lparr>lh_next = 3, lh_prev = 1\<rparr>,
      3 \<mapsto> \<lparr>lh_next = 1, lh_prev = 2\<rparr>, 4 \<mapsto> \<lparr>lh_next = 0, lh_prev = 0\<rparr>] = Some m' \<and> circ m' 1 [3, 2]"
  using list_refines_sequence [of "[1 \<mapsto> \<lparr>lh_next = 2, lh_prev = 3\<rparr>, 2 \<mapsto> \<lparr>lh_next = 3, lh_prev = 1\<rparr>,
    3 \<mapsto> \<lparr>lh_next = 1, lh_prev = 2\<rparr>, 4 \<mapsto> \<lparr>lh_next = 0, lh_prev = 0\<rparr>]" 1 "[2]" 3 "[]" 4]
  by (simp add: circ_def)

end
