(* ===== verification/Base_Rbtree.thy ===== *)
theory Base_Rbtree
  imports Prelude
begin

text \<open>
  \<^verbatim>\<open>base/rbtree.c\<close>: the red-black tree with parent pointers.  The memory of the tree is a
  map from addresses to nodes; a read or write through a null or freed pointer is \<open>None\<close>, and
  so is a loop that does not end.  \<open>insert_case\<close> and \<open>delete_case\<close> take the side that the two
  mirrored branches of the source differ in.  The addresses \<^verbatim>\<open>MALLOC\<close> returns are arguments.

  The proofs follow a tree whose nodes carry their addresses.  A focus in it is a context (the
  frames up to the root) and a subtree; the pointer operations are related to such trees once
  (reading, colouring, rotating, linking), and the loops are then arguments about trees.
\<close>

section \<open>State and memory access\<close>

definition RBTREE_BLACK :: int where "RBTREE_BLACK = 0"
definition RBTREE_RED :: int where "RBTREE_RED = 1"

record rbnode =
  n_parent :: ptr
  n_left :: ptr
  n_right :: ptr
  n_data :: ptr
  n_color :: int

record rbtree_t =
  rb_root :: ptr
  rb_cmp :: "ptr \<Rightarrow> ptr \<Rightarrow> int"
  rb_mem :: "ptr \<Rightarrow> rbnode option" \<comment> \<open>the allocated nodes\<close>

definition node :: "rbtree_t \<Rightarrow> ptr \<Rightarrow> rbnode option" where
  "node t p = (if p = NULL then None else rb_mem t p)"

definition fld :: "(rbnode \<Rightarrow> 'a) \<Rightarrow> rbtree_t \<Rightarrow> ptr \<Rightarrow> 'a option" where
  \<comment> \<open>\<^verbatim>\<open>p->f\<close>\<close>
  "fld f t p = map_option f (node t p)"

definition upd :: "rbtree_t \<Rightarrow> ptr \<Rightarrow> (rbnode \<Rightarrow> rbnode) \<Rightarrow> rbtree_t option" where
  \<comment> \<open>an assignment to a member of \<open>*p\<close>\<close>
  "upd t p f = do { n \<leftarrow> node t p; Some (t\<lparr>rb_mem := (rb_mem t)(p \<mapsto> f n)\<rparr>) }"

definition release :: "rbtree_t \<Rightarrow> ptr \<Rightarrow> rbtree_t option" where
  \<comment> \<open>\<^verbatim>\<open>FREE(p)\<close>\<close>
  "release t p = do { n \<leftarrow> node t p; Some (t\<lparr>rb_mem := (rb_mem t)(p := None)\<rparr>) }"

datatype side = Lt | Rt

fun opp :: "side \<Rightarrow> side" where
  "opp Lt = Rt"
| "opp Rt = Lt"

fun child :: "side \<Rightarrow> rbnode \<Rightarrow> ptr" where
  "child Lt n = n_left n"
| "child Rt n = n_right n"

section \<open>Walks and rotations\<close>

definition rbtree_create :: "bool \<Rightarrow> (ptr \<Rightarrow> ptr \<Rightarrow> int) \<Rightarrow> rbtree_t option" where
  "rbtree_create ok cmp = (if \<not> ok then None else Some \<lparr>rb_root = NULL, rb_cmp = cmp, rb_mem = (\<lambda>p. None)\<rparr>)"

partial_function (option) min_walk :: "rbtree_t \<Rightarrow> ptr \<Rightarrow> ptr option" where
  "min_walk t p = do { l \<leftarrow> fld n_left t p; if l \<noteq> NULL then min_walk t l else Some p }"

definition rbtree_min_node :: "rbtree_t \<Rightarrow> ptr \<Rightarrow> ptr option" where
  "rbtree_min_node t p = (if p \<noteq> NULL then min_walk t p else Some NULL)"

partial_function (option) next_walk :: "rbtree_t \<Rightarrow> ptr \<Rightarrow> ptr \<Rightarrow> ptr option" where
  "next_walk t source dest =
     (if dest = NULL then Some dest
      else do {
        r \<leftarrow> fld n_right t dest;
        if source = r then do { d \<leftarrow> fld n_parent t dest; next_walk t dest d } else Some dest })"

definition rbtree_next_node :: "rbtree_t \<Rightarrow> ptr \<Rightarrow> ptr option" where
  "rbtree_next_node t p =
     (if p = NULL then Some NULL
      else do {
        r \<leftarrow> fld n_right t p;
        if r \<noteq> NULL then rbtree_min_node t r
        else do { d \<leftarrow> fld n_parent t p; next_walk t p d } })"

definition rbtree_rotl :: "rbtree_t \<Rightarrow> ptr \<Rightarrow> rbtree_t option" where
  "rbtree_rotl t x = do {
     y \<leftarrow> fld n_right t x;
     b \<leftarrow> fld n_left t y;
     t \<leftarrow> upd t x (\<lambda>n. n\<lparr>n_right := b\<rparr>);
     b \<leftarrow> fld n_left t y;
     t \<leftarrow> (if b \<noteq> NULL then upd t b (\<lambda>n. n\<lparr>n_parent := x\<rparr>) else Some t);
     p \<leftarrow> fld n_parent t x;
     t \<leftarrow> upd t y (\<lambda>n. n\<lparr>n_parent := p\<rparr>);
     t \<leftarrow> (if x = rb_root t then do {
            t \<leftarrow> upd t y (\<lambda>n. n\<lparr>n_parent := NULL\<rparr>);
            Some (t\<lparr>rb_root := y\<rparr>) }
          else do {
            p \<leftarrow> fld n_parent t x;
            l \<leftarrow> fld n_left t p;
            if x = l then upd t p (\<lambda>n. n\<lparr>n_left := y\<rparr>) else upd t p (\<lambda>n. n\<lparr>n_right := y\<rparr>) });
     t \<leftarrow> upd t y (\<lambda>n. n\<lparr>n_left := x\<rparr>);
     upd t x (\<lambda>n. n\<lparr>n_parent := y\<rparr>) }"

definition rbtree_rotr :: "rbtree_t \<Rightarrow> ptr \<Rightarrow> rbtree_t option" where
  "rbtree_rotr t y = do {
     x \<leftarrow> fld n_left t y;
     b \<leftarrow> fld n_right t x;
     t \<leftarrow> upd t y (\<lambda>n. n\<lparr>n_left := b\<rparr>);
     b \<leftarrow> fld n_right t x;
     t \<leftarrow> (if b \<noteq> NULL then upd t b (\<lambda>n. n\<lparr>n_parent := y\<rparr>) else Some t);
     p \<leftarrow> fld n_parent t y;
     t \<leftarrow> upd t x (\<lambda>n. n\<lparr>n_parent := p\<rparr>);
     t \<leftarrow> (if y = rb_root t then do {
            t \<leftarrow> upd t x (\<lambda>n. n\<lparr>n_parent := NULL\<rparr>);
            Some (t\<lparr>rb_root := x\<rparr>) }
          else do {
            p \<leftarrow> fld n_parent t y;
            l \<leftarrow> fld n_left t p;
            if y = l then upd t p (\<lambda>n. n\<lparr>n_left := x\<rparr>) else upd t p (\<lambda>n. n\<lparr>n_right := x\<rparr>) });
     t \<leftarrow> upd t x (\<lambda>n. n\<lparr>n_right := y\<rparr>);
     upd t y (\<lambda>n. n\<lparr>n_parent := x\<rparr>) }"

fun rot :: "side \<Rightarrow> rbtree_t \<Rightarrow> ptr \<Rightarrow> rbtree_t option" where
  "rot Lt t p = rbtree_rotl t p"
| "rot Rt t p = rbtree_rotr t p"

definition set_color :: "rbtree_t \<Rightarrow> ptr \<Rightarrow> int \<Rightarrow> rbtree_t option" where
  "set_color t p c = upd t p (\<lambda>n. n\<lparr>n_color := c\<rparr>)"

section \<open>Insertion\<close>

definition insert_case3 :: "side \<Rightarrow> rbtree_t \<Rightarrow> ptr \<Rightarrow> rbtree_t option" where
  \<comment> \<open>3. the uncle is black and \<open>z\<close> is the child on side \<open>s\<close> of its parent\<close>
  "insert_case3 s t z = do {
     p \<leftarrow> fld n_parent t z;
     t \<leftarrow> set_color t p RBTREE_BLACK;
     p \<leftarrow> fld n_parent t z;
     g \<leftarrow> fld n_parent t p;
     t \<leftarrow> set_color t g RBTREE_RED;
     p \<leftarrow> fld n_parent t z;
     g \<leftarrow> fld n_parent t p;
     rot (opp s) t g }"

definition insert_case :: "side \<Rightarrow> rbtree_t \<Rightarrow> ptr \<Rightarrow> (rbtree_t \<times> ptr) option" where
  \<comment> \<open>the body of the loop for a red parent that is the child on side \<open>s\<close>\<close>
  "insert_case s t z = do {
     p \<leftarrow> fld n_parent t z;
     g \<leftarrow> fld n_parent t p;
     y \<leftarrow> fld (child (opp s)) t g;
     red \<leftarrow> (if y \<noteq> NULL then fld (\<lambda>n. n_color n = RBTREE_RED) t y else Some False);
     if red then do {
       t \<leftarrow> set_color t y RBTREE_BLACK;
       p \<leftarrow> fld n_parent t z;
       t \<leftarrow> set_color t p RBTREE_BLACK;
       g \<leftarrow> fld n_parent t p;
       t \<leftarrow> set_color t g RBTREE_RED;
       Some (t, g) }
     else do {
       c \<leftarrow> fld (child (opp s)) t p;
       (t, z) \<leftarrow> (if z = c then do { t \<leftarrow> rot s t p; Some (t, p) } else Some (t, z));
       t \<leftarrow> insert_case3 s t z;
       Some (t, z) } }"

partial_function (option) insert_adjust_loop :: "rbtree_t \<Rightarrow> ptr \<Rightarrow> rbtree_t option" where
  "insert_adjust_loop t z =
     (if z = rb_root t then Some t
      else do {
        p \<leftarrow> fld n_parent t z;
        c \<leftarrow> fld n_color t p;
        if c = RBTREE_RED then do {
          g \<leftarrow> fld n_parent t p;
          l \<leftarrow> fld n_left t g;
          (t, z) \<leftarrow> insert_case (if p = l then Lt else Rt) t z;
          insert_adjust_loop t z }
        else Some t })"

definition rbtree_insert_adjust :: "rbtree_t \<Rightarrow> ptr \<Rightarrow> (rbtree_t \<times> int) option" where
  "rbtree_insert_adjust t z =
     (if z = NULL then Some (t, -1)
      else do {
        t \<leftarrow> insert_adjust_loop t z;
        t \<leftarrow> set_color t (rb_root t) RBTREE_BLACK;
        Some (t, 0) })"

partial_function (option) insert_search :: "rbtree_t \<Rightarrow> ptr \<Rightarrow> ptr \<Rightarrow> ptr \<Rightarrow> ptr option option" where
  \<comment> \<open>the parent of the new node; the inner \<open>None\<close>: an equal datum was found\<close>
  "insert_search t data parent dest =
     (if parent = NULL then Some (Some dest)
      else do {
        n \<leftarrow> node t parent;
        if rb_cmp t data (n_data n) = 0 then Some None
        else if rb_cmp t data (n_data n) < 0 then insert_search t data (n_left n) parent
        else insert_search t data (n_right n) parent })"

definition rbtree_insert :: "rbtree_t option \<Rightarrow> ptr \<Rightarrow> ptr \<Rightarrow> (rbtree_t option \<times> int) option" where
  \<comment> \<open>\<open>m\<close>: what \<^verbatim>\<open>MALLOC\<close> returns\<close>
  "rbtree_insert tree m data = (case tree of
     None \<Rightarrow> Some (None, -1)
   | Some t \<Rightarrow>
       if data = NULL then Some (Some t, -1)
       else if rb_root t = NULL then
         (if m = NULL then Some (Some t, -1)
          else Some (Some (t\<lparr>rb_root := m, rb_mem := (rb_mem t)(m \<mapsto>
            \<lparr>n_parent = NULL, n_left = NULL, n_right = NULL, n_data = data, n_color = RBTREE_BLACK\<rparr>)\<rparr>), 0))
       else do {
         r \<leftarrow> insert_search t data (rb_root t) NULL;
         (case r of
            None \<Rightarrow> Some (Some t, -1)
          | Some dest \<Rightarrow>
              if m = NULL then Some (Some t, -1)
              else do {
                let t = t\<lparr>rb_mem := (rb_mem t)(m \<mapsto>
                  \<lparr>n_parent = dest, n_left = NULL, n_right = NULL, n_data = data, n_color = RBTREE_RED\<rparr>)\<rparr>;
                d \<leftarrow> fld n_data t dest;
                if rb_cmp t data d = 0 then None
                else do {
                  t \<leftarrow> (if rb_cmp t data d < 0 then upd t dest (\<lambda>n. n\<lparr>n_left := m\<rparr>)
                       else upd t dest (\<lambda>n. n\<lparr>n_right := m\<rparr>));
                  (t, ret) \<leftarrow> rbtree_insert_adjust t m;
                  Some (Some t, ret) } }) })"

section \<open>Search\<close>

partial_function (option) rbtree_find_node :: "rbtree_t \<Rightarrow> ptr \<Rightarrow> ptr \<Rightarrow> ptr option" where
  "rbtree_find_node t p data =
     (if p = NULL \<or> data = NULL then Some NULL
      else do {
        n \<leftarrow> node t p;
        if rb_cmp t data (n_data n) = 0 then Some p
        else if rb_cmp t data (n_data n) < 0 then rbtree_find_node t (n_left n) data
        else rbtree_find_node t (n_right n) data })"

definition rbtree_find :: "rbtree_t option \<Rightarrow> ptr \<Rightarrow> ptr option" where
  "rbtree_find tree data = (case tree of
     None \<Rightarrow> Some NULL
   | Some t \<Rightarrow>
       if data = NULL \<or> rb_root t = NULL then Some NULL
       else do {
         p \<leftarrow> rbtree_find_node t (rb_root t) data;
         if p \<noteq> NULL then fld n_data t p else Some NULL })"

section \<open>Deletion\<close>

definition is_black :: "rbtree_t \<Rightarrow> ptr \<Rightarrow> bool option" where
  \<comment> \<open>\<^verbatim>\<open>!p || RBTREE_BLACK == p->color\<close>\<close>
  "is_black t p = (if p = NULL then Some True else fld (\<lambda>n. n_color n = RBTREE_BLACK) t p)"

definition delete_case1 :: "side \<Rightarrow> rbtree_t \<Rightarrow> ptr \<Rightarrow> ptr \<Rightarrow> (rbtree_t \<times> ptr) option" where
  \<comment> \<open>1. the brother \<open>w\<close> is red\<close>
  "delete_case1 s t parent w = do {
     t \<leftarrow> set_color t w RBTREE_BLACK;
     t \<leftarrow> set_color t parent RBTREE_RED;
     t \<leftarrow> rot s t parent;
     w \<leftarrow> fld (child (opp s)) t parent;
     Some (t, w) }"

definition delete_case3 :: "side \<Rightarrow> rbtree_t \<Rightarrow> ptr \<Rightarrow> ptr \<Rightarrow> (rbtree_t \<times> ptr) option" where
  \<comment> \<open>3. the brother's outer child is black\<close>
  "delete_case3 s t parent w = do {
     n \<leftarrow> fld (child s) t w;
     t \<leftarrow> set_color t n RBTREE_BLACK;
     t \<leftarrow> set_color t w RBTREE_RED;
     t \<leftarrow> rot (opp s) t w;
     w \<leftarrow> fld (child (opp s)) t parent;
     Some (t, w) }"

definition delete_case4 :: "side \<Rightarrow> rbtree_t \<Rightarrow> ptr \<Rightarrow> ptr \<Rightarrow> rbtree_t option" where
  \<comment> \<open>4. the brother's outer child is red\<close>
  "delete_case4 s t parent w = do {
     c \<leftarrow> fld n_color t parent;
     t \<leftarrow> set_color t w c;
     t \<leftarrow> set_color t parent RBTREE_BLACK;
     f \<leftarrow> fld (child (opp s)) t w;
     t \<leftarrow> set_color t f RBTREE_BLACK;
     rot s t parent }"

definition delete_case234 :: "side \<Rightarrow> rbtree_t \<Rightarrow> ptr \<Rightarrow> ptr \<Rightarrow> (rbtree_t \<times> ptr \<times> ptr) option" where
  "delete_case234 s t parent w = do {
     l \<leftarrow> fld n_left t w;
     bl \<leftarrow> is_black t l;
     r \<leftarrow> fld n_right t w;
     br \<leftarrow> (if bl then is_black t r else Some False);
     if bl \<and> br then do {
       t \<leftarrow> set_color t w RBTREE_RED;
       p \<leftarrow> fld n_parent t parent;
       Some (t, parent, p) }
     else do {
       f \<leftarrow> fld (child (opp s)) t w;
       b \<leftarrow> is_black t f;
       (t, w) \<leftarrow> (if b then delete_case3 s t parent w else Some (t, w));
       t \<leftarrow> delete_case4 s t parent w;
       Some (t, rb_root t, parent) } }"

definition delete_case :: "side \<Rightarrow> rbtree_t \<Rightarrow> ptr \<Rightarrow> (rbtree_t \<times> ptr \<times> ptr) option" where
  \<comment> \<open>the body of the loop for \<open>x\<close> the child of \<open>parent\<close> on side \<open>s\<close>: the new \<open>x\<close> and \<open>parent\<close>\<close>
  "delete_case s t parent = do {
     w \<leftarrow> fld (child (opp s)) t parent;
     red \<leftarrow> fld (\<lambda>n. n_color n = RBTREE_RED) t w;
     (t, w) \<leftarrow> (if red then delete_case1 s t parent w else Some (t, w));
     delete_case234 s t parent w }"

partial_function (option) delete_adjust_loop :: "rbtree_t \<Rightarrow> ptr \<Rightarrow> ptr \<Rightarrow> (rbtree_t \<times> ptr) option" where
  "delete_adjust_loop t x parent =
     (if x = rb_root t then Some (t, x)
      else do {
        b \<leftarrow> is_black t x;
        if \<not> b then Some (t, x)
        else do {
          l \<leftarrow> fld n_left t parent;
          r \<leftarrow> fld n_right t parent;
          if x = l \<and> r \<noteq> NULL then do { (t, x, parent) \<leftarrow> delete_case Lt t parent; delete_adjust_loop t x parent }
          else if x = r \<and> l \<noteq> NULL then do { (t, x, parent) \<leftarrow> delete_case Rt t parent; delete_adjust_loop t x parent }
          else delete_adjust_loop t x parent } })"

definition rbtree_delete_adjust :: "rbtree_t \<Rightarrow> ptr \<Rightarrow> ptr \<Rightarrow> rbtree_t option" where
  "rbtree_delete_adjust t x parent = do {
     (t, x) \<leftarrow> delete_adjust_loop t x parent;
     if x \<noteq> NULL then set_color t x RBTREE_BLACK else Some t }"

definition delete_finish :: "rbtree_t \<Rightarrow> ptr \<Rightarrow> ptr \<Rightarrow> ptr \<Rightarrow> rbtree_t option" where
  \<comment> \<open>the unlinked node \<open>x\<close> goes; \<open>ch\<close> took its place below \<open>p\<close>\<close>
  "delete_finish t x ch p = do {
     c \<leftarrow> fld n_color t x;
     t \<leftarrow> (if c = RBTREE_BLACK then rbtree_delete_adjust t ch p else Some t);
     release t x }"

definition delete_leaf :: "rbtree_t \<Rightarrow> ptr \<Rightarrow> rbtree_t option" where
  \<comment> \<open>1. the node has no child\<close>
  "delete_leaf t x =
     (if rb_root t = x then do { t \<leftarrow> release t x; Some (t\<lparr>rb_root := NULL\<rparr>) }
      else do {
        p \<leftarrow> fld n_parent t x;
        r \<leftarrow> fld n_right t p;
        t \<leftarrow> (if r = x then upd t p (\<lambda>n. n\<lparr>n_right := NULL\<rparr>) else upd t p (\<lambda>n. n\<lparr>n_left := NULL\<rparr>));
        delete_finish t x NULL p })"

definition delete_inner :: "rbtree_t \<Rightarrow> ptr \<Rightarrow> rbtree_t option" where
  \<comment> \<open>2. the node has two children: its successor's datum moves in and the successor goes\<close>
  "delete_inner t x = do {
     next \<leftarrow> rbtree_next_node t x;
     if next = NULL then None
     else do {
       d \<leftarrow> fld n_data t next;
       t \<leftarrow> upd t x (\<lambda>n. n\<lparr>n_data := d\<rparr>);
       p \<leftarrow> fld n_parent t next;
       ch \<leftarrow> fld n_right t next;
       l \<leftarrow> fld n_left t p;
       r \<leftarrow> fld n_right t p;
       t \<leftarrow> (if next = l \<and> ch \<noteq> NULL then do { t \<leftarrow> upd t p (\<lambda>n. n\<lparr>n_left := ch\<rparr>); upd t ch (\<lambda>n. n\<lparr>n_parent := p\<rparr>) }
            else if next = l \<and> ch = NULL then upd t p (\<lambda>n. n\<lparr>n_left := NULL\<rparr>)
            else if next = r \<and> ch \<noteq> NULL then do { t \<leftarrow> upd t p (\<lambda>n. n\<lparr>n_right := ch\<rparr>); upd t ch (\<lambda>n. n\<lparr>n_parent := p\<rparr>) }
            else if next = r \<and> ch = NULL then upd t p (\<lambda>n. n\<lparr>n_right := NULL\<rparr>)
            else Some t);
       delete_finish t next ch p } }"

definition delete_single :: "rbtree_t \<Rightarrow> ptr \<Rightarrow> rbtree_t option" where
  \<comment> \<open>3. the node has one child\<close>
  "delete_single t x = do {
     p \<leftarrow> fld n_parent t x;
     l \<leftarrow> fld n_left t x;
     ch \<leftarrow> (if l \<noteq> NULL then Some l else fld n_right t x);
     if x = rb_root t then do {
       t \<leftarrow> upd t x (\<lambda>n. n\<lparr>n_parent := NULL\<rparr>);
       t \<leftarrow> upd t x (\<lambda>n. n\<lparr>n_color := RBTREE_BLACK\<rparr>);
       c \<leftarrow> node t ch;
       t \<leftarrow> upd t x (\<lambda>n. n\<lparr>n_left := n_left c\<rparr>);
       t \<leftarrow> upd t x (\<lambda>n. n\<lparr>n_right := n_right c\<rparr>);
       t \<leftarrow> upd t x (\<lambda>n. n\<lparr>n_data := n_data c\<rparr>);
       t \<leftarrow> (if n_left c \<noteq> NULL then upd t (n_left c) (\<lambda>n. n\<lparr>n_parent := x\<rparr>) else Some t);
       t \<leftarrow> (if n_right c \<noteq> NULL then upd t (n_right c) (\<lambda>n. n\<lparr>n_parent := x\<rparr>) else Some t);
       release t ch }
     else do {
       t \<leftarrow> upd t ch (\<lambda>n. n\<lparr>n_parent := p\<rparr>);
       pl \<leftarrow> fld n_left t p;
       t \<leftarrow> (if x = pl then upd t p (\<lambda>n. n\<lparr>n_left := ch\<rparr>) else upd t p (\<lambda>n. n\<lparr>n_right := ch\<rparr>));
       delete_finish t x ch p } }"

definition rbtree_delete_node :: "rbtree_t \<Rightarrow> ptr \<Rightarrow> rbtree_t option" where
  "rbtree_delete_node t x =
     (if x = NULL then Some t
      else do {
        l \<leftarrow> fld n_left t x;
        r \<leftarrow> fld n_right t x;
        if l = NULL \<and> r = NULL then delete_leaf t x
        else if l \<noteq> NULL \<and> r \<noteq> NULL then delete_inner t x
        else delete_single t x })"

definition rbtree_delete :: "rbtree_t option \<Rightarrow> ptr \<Rightarrow> (rbtree_t option \<times> ptr) option" where
  "rbtree_delete tree data = (case tree of
     None \<Rightarrow> Some (None, NULL)
   | Some t \<Rightarrow>
       if data = NULL \<or> rb_root t = NULL then Some (Some t, NULL)
       else do {
         p \<leftarrow> rbtree_find_node t (rb_root t) data;
         if p = NULL then Some (Some t, NULL)
         else do {
           res \<leftarrow> fld n_data t p;
           t \<leftarrow> rbtree_delete_node t p;
           Some (Some t, res) } })"

section \<open>Traversal and release\<close>

partial_function (option) rbtree_loop_node :: "rbtree_t \<Rightarrow> (ptr \<Rightarrow> 's \<Rightarrow> 's) \<Rightarrow> ptr \<Rightarrow> 's \<Rightarrow> 's option" where
  "rbtree_loop_node t func p s =
     (if p \<noteq> NULL then do {
        n \<leftarrow> node t p;
        s \<leftarrow> (if n_left n \<noteq> NULL then rbtree_loop_node t func (n_left n) s else Some s);
        let s = func (n_data n) s;
        if n_right n \<noteq> NULL then rbtree_loop_node t func (n_right n) s else Some s }
      else Some s)"

definition rbtree_loop :: "rbtree_t option \<Rightarrow> (ptr \<Rightarrow> 's \<Rightarrow> 's) \<Rightarrow> 's \<Rightarrow> 's option" where
  \<comment> \<open>\<open>'s\<close>: what the callback acts on; it does not reach the tree\<close>
  "rbtree_loop tree func s = (case tree of
     None \<Rightarrow> Some s
   | Some t \<Rightarrow> if rb_root t = NULL then Some s else rbtree_loop_node t func (rb_root t) s)"

partial_function (option) rbtree_release_node :: "rbtree_t \<Rightarrow> ptr \<Rightarrow> rbtree_t option" where
  "rbtree_release_node t p =
     (if p \<noteq> NULL then do {
        l \<leftarrow> fld n_left t p;
        t \<leftarrow> (if l \<noteq> NULL then rbtree_release_node t l else Some t);
        r \<leftarrow> fld n_right t p;
        t \<leftarrow> (if r \<noteq> NULL then rbtree_release_node t r else Some t);
        release t p }
      else Some t)"

definition rbtree_release :: "rbtree_t option \<Rightarrow> (ptr \<Rightarrow> rbnode option) option" where
  \<comment> \<open>the nodes still allocated when the tree is gone\<close>
  "rbtree_release tree = (case tree of
     None \<Rightarrow> Some (\<lambda>p. None)
   | Some t \<Rightarrow>
       if rb_root t \<noteq> NULL then map_option rb_mem (rbtree_release_node t (rb_root t)) else Some (rb_mem t))"

section \<open>Trees with addresses\<close>

datatype rbt = Tip | Nd ptr bool rbt ptr rbt \<comment> \<open>address, redness, left, datum, right\<close>

fun addr :: "rbt \<Rightarrow> ptr" where
  "addr Tip = NULL"
| "addr (Nd a c l d r) = a"

fun red :: "rbt \<Rightarrow> bool" where
  "red Tip = False"
| "red (Nd a c l d r) = c"

definition col :: "bool \<Rightarrow> int" where
  "col c = (if c then RBTREE_RED else RBTREE_BLACK)"

fun inord :: "rbt \<Rightarrow> (ptr \<times> ptr) list" where
  \<comment> \<open>addresses with their data, from left to right\<close>
  "inord Tip = []"
| "inord (Nd a c l d r) = inord l @ (a, d) # inord r"

fun nodes :: "ptr \<Rightarrow> rbt \<Rightarrow> (ptr \<times> rbnode) set" where
  \<comment> \<open>the nodes in memory of a tree below the node at \<open>p\<close>\<close>
  "nodes p Tip = {}"
| "nodes p (Nd a c l d r) =
     insert (a, \<lparr>n_parent = p, n_left = addr l, n_right = addr r, n_data = d, n_color = col c\<rparr>) (nodes a l \<union> nodes a r)"

abbreviation addrs :: "rbt \<Rightarrow> ptr list" where "addrs T \<equiv> map fst (inord T)"

definition holds :: "rbtree_t \<Rightarrow> rbt \<Rightarrow> ptr set \<Rightarrow> bool" where
  \<comment> \<open>the memory is the tree and the unlinked nodes \<open>X\<close>\<close>
  "holds t T X \<longleftrightarrow> rb_root t = addr T \<and> distinct (addrs T) \<and> NULL \<notin> set (addrs T) \<and> NULL \<notin> X
     \<and> (\<forall>a n. (a, n) \<in> nodes NULL T \<longrightarrow> rb_mem t a = Some n)
     \<and> dom (rb_mem t) = set (addrs T) \<union> X \<and> X \<inter> set (addrs T) = {}"

fun mk :: "side \<Rightarrow> ptr \<Rightarrow> bool \<Rightarrow> ptr \<Rightarrow> rbt \<Rightarrow> rbt \<Rightarrow> rbt" where
  \<comment> \<open>a node with \<open>x\<close> on side \<open>s\<close> and \<open>y\<close> on the other\<close>
  "mk Lt a c d x y = Nd a c x d y"
| "mk Rt a c d x y = Nd a c y d x"

datatype frame = Fr side ptr bool ptr rbt \<comment> \<open>a node without its child on the side\<close>

fun plug :: "frame list \<Rightarrow> rbt \<Rightarrow> rbt" where
  \<comment> \<open>the innermost frame is first\<close>
  "plug [] T = T"
| "plug (Fr s a c d y # k) T = plug k (mk s a c d T y)"

fun top :: "frame list \<Rightarrow> ptr" where
  "top [] = NULL"
| "top (Fr s a c d y # k) = a"

fun knodes :: "frame list \<Rightarrow> ptr \<Rightarrow> (ptr \<times> rbnode) set" where
  "knodes [] h = {}"
| "knodes (Fr Lt a c d y # k) h =
     insert (a, \<lparr>n_parent = top k, n_left = h, n_right = addr y, n_data = d, n_color = col c\<rparr>) (nodes a y \<union> knodes k a)"
| "knodes (Fr Rt a c d y # k) h =
     insert (a, \<lparr>n_parent = top k, n_left = addr y, n_right = h, n_data = d, n_color = col c\<rparr>) (nodes a y \<union> knodes k a)"

fun kl :: "frame list \<Rightarrow> (ptr \<times> ptr) list" where
  "kl [] = []"
| "kl (Fr Lt a c d y # k) = kl k"
| "kl (Fr Rt a c d y # k) = kl k @ inord y @ [(a, d)]"

fun kr :: "frame list \<Rightarrow> (ptr \<times> ptr) list" where
  "kr [] = []"
| "kr (Fr Lt a c d y # k) = (a, d) # inord y @ kr k"
| "kr (Fr Rt a c d y # k) = kr k"

lemma mk_opp [simp]: "mk (opp s) a c d x y = mk s a c d y x"
  by (cases s) simp_all

lemma opp_opp [simp]: "opp (opp s) = s"
  by (cases s) simp_all

lemma addr_mk [simp]: "addr (mk s a c d x y) = a" and red_mk [simp]: "red (mk s a c d x y) = c"
  by (cases s; simp)+

lemma mk_not_Tip [simp]: "mk s a c d x y \<noteq> Tip"
  by (cases s) simp_all

lemma inord_plug: "inord (plug k T) = kl k @ inord T @ kr k"
proof (induction k arbitrary: T)
  case (Cons f k)
  obtain s a c d y where "f = Fr s a c d y" by (cases f)
  then show ?case using Cons by (cases s) simp_all
qed simp

lemma nodes_plug: "nodes NULL (plug k T) = knodes k (addr T) \<union> nodes (top k) T"
proof (induction k arbitrary: T)
  case (Cons f k)
  obtain s a c d y where "f = Fr s a c d y" by (cases f)
  then show ?case using Cons by (cases s) auto
qed simp

lemma addr_plug: "addr (plug k T) = (if k = [] then addr T else addr (plug k Tip))"
proof (induction k arbitrary: T)
  case (Cons f k)
  obtain s a c d y where f: "f = Fr s a c d y" by (cases f)
  show ?case using Cons [of "mk s a c d T y"] Cons [of "mk s a c d Tip y"] f by simp
qed simp

lemma nodes_addr: "(a, n) \<in> nodes p T \<Longrightarrow> a \<in> set (addrs T)"
  by (induction T arbitrary: p) auto

lemma knodes_addr: "(a, n) \<in> knodes k h \<Longrightarrow> a \<in> fst ` set (kl k) \<or> a \<in> fst ` set (kr k)"
  by (induction k h rule: knodes.induct) (use nodes_addr in force)+

lemma addr_Tip: "NULL \<notin> set (addrs T) \<Longrightarrow> addr T = NULL \<longleftrightarrow> T = Tip"
  by (cases T) auto

lemma addr_in: "T \<noteq> Tip \<Longrightarrow> addr T \<in> set (addrs T)"
  by (cases T) auto

lemma top_in: "k \<noteq> [] \<Longrightarrow> top k \<in> fst ` set (kl k) \<or> top k \<in> fst ` set (kr k)"
  by (cases k rule: kl.cases) auto

section \<open>Pointer operations on a focus\<close>

lemma holds_node:
  assumes "holds t (plug k (Nd a c l d r)) X"
  shows "node t a = Some \<lparr>n_parent = top k, n_left = addr l, n_right = addr r, n_data = d, n_color = col c\<rparr>"
  using assms by (auto simp: holds_def node_def nodes_plug inord_plug)

lemma holds_fld:
  assumes "holds t (plug k (mk s a c d x y)) X"
  shows "fld n_parent t a = Some (top k)" and "fld (child s) t a = Some (addr x)" and "fld (child (opp s)) t a = Some (addr y)"
    and "fld n_data t a = Some d" and "fld n_color t a = Some (col c)"
    and "fld (\<lambda>n. n_color n = z) t a = Some (col c = z)"
  using assms by (cases s; simp add: fld_def holds_node)+

lemma col_eq [simp]: "col c = RBTREE_RED \<longleftrightarrow> c" "col c = RBTREE_BLACK \<longleftrightarrow> \<not> c" "RBTREE_RED \<noteq> RBTREE_BLACK" "RBTREE_BLACK \<noteq> RBTREE_RED"
  by (simp_all add: col_def RBTREE_RED_def RBTREE_BLACK_def)

lemma color_col: "RBTREE_RED = col True" "RBTREE_BLACK = col False"
  by (simp_all add: col_def)

lemma other_nodes:
  assumes "distinct (addrs (plug k (Nd a c l d r)))" "(b, n) \<in> knodes k a \<union> nodes a l \<union> nodes a r"
  shows "b \<noteq> a"
proof -
  have "b \<in> fst ` set (kl k) \<or> b \<in> fst ` set (kr k) \<or> b \<in> set (addrs l) \<or> b \<in> set (addrs r)"
    using assms(2) nodes_addr [of b n a l] nodes_addr [of b n a r] knodes_addr [of b n k a] by blast
  moreover have "a \<notin> fst ` set (kl k)" "a \<notin> fst ` set (kr k)" "a \<notin> set (addrs l)" "a \<notin> set (addrs r)"
    using assms(1) by (auto simp: inord_plug)
  ultimately show ?thesis by blast
qed

fun redirect :: "frame list \<Rightarrow> ptr \<Rightarrow> rbnode \<Rightarrow> rbnode" where
  \<comment> \<open>the innermost frame's node when its child in the focus becomes \<open>h\<close>\<close>
  "redirect [] h n = n"
| "redirect (Fr Lt a c d y # k) h n = n\<lparr>n_left := h\<rparr>"
| "redirect (Fr Rt a c d y # k) h n = n\<lparr>n_right := h\<rparr>"

abbreviation kaddrs :: "frame list \<Rightarrow> ptr set" where "kaddrs k \<equiv> fst ` set (kl k) \<union> fst ` set (kr k)"

lemma addrs_plug: "set (addrs (plug k S)) = kaddrs k \<union> set (addrs S)"
  by (auto simp: inord_plug)

lemma distinct_plug: "distinct (addrs (plug k S)) \<Longrightarrow> kaddrs k \<inter> set (addrs S) = {}"
  by (simp add: inord_plug) blast

lemma knodes_hole:
  assumes "(q, n) \<in> knodes k h'" "distinct (addrs (plug k S))"
  shows "if q = top k then \<exists>n'. (q, n') \<in> knodes k h \<and> n = redirect k h' n' else (q, n) \<in> knodes k h"
proof (cases k)
  case (Cons f k')
  obtain s a c d y where f: "f = Fr s a c d y" by (cases f)
  have "a \<notin> set (addrs y)" "a \<notin> kaddrs k'"
    using assms(2) unfolding Cons f by (cases s; force simp: inord_plug)+
  then have "\<not> ((a, n) \<in> nodes a y \<union> knodes k' a)" for n
    using nodes_addr [of a n a y] knodes_addr [of a n k' a] by blast
  then show ?thesis using assms(1) unfolding Cons f by (cases s) auto
qed (use assms in simp)

lemma top_plug: "k \<noteq> [] \<Longrightarrow> top k \<in> kaddrs k"
  using top_in by blast

lemma holds_nodes: "holds t (plug k S) X \<Longrightarrow> (q, n) \<in> knodes k (addr S) \<or> (q, n) \<in> nodes (top k) S \<Longrightarrow> rb_mem t q = Some n"
  unfolding holds_def by (auto simp: nodes_plug)

lemma replace_focus:
  \<comment> \<open>what has to be shown when the focus \<open>S\<close> becomes \<open>S'\<close>\<close>
  assumes h: "holds t (plug k S) X"
    and top: "k \<noteq> [] \<Longrightarrow> rb_mem t' (top k) = map_option (redirect k (addr S')) (rb_mem t (top k))"
    and new: "\<And>q n. (q, n) \<in> nodes (top k) S' \<Longrightarrow> rb_mem t' q = Some n"
    and rest: "\<And>q. q \<in> kaddrs k \<Longrightarrow> q \<noteq> top k \<Longrightarrow> rb_mem t' q = rb_mem t q"
    and root: "rb_root t' = (if k = [] then addr S' else rb_root t)"
    and shape: "distinct (addrs (plug k S'))" "NULL \<notin> set (addrs S')" "NULL \<notin> X'" "X' \<inter> set (addrs (plug k S')) = {}"
      "dom (rb_mem t') = set (addrs (plug k S')) \<union> X'"
  shows "holds t' (plug k S') X'"
proof -
  have "rb_mem t' q = Some n" if "(q, n) \<in> nodes NULL (plug k S')" for q n
  proof -
    from that consider "(q, n) \<in> nodes (top k) S'" | "(q, n) \<in> knodes k (addr S')" by (auto simp: nodes_plug)
    then show ?thesis
    proof cases
      case 2
      then have k: "k \<noteq> []" by auto
      note hole = knodes_hole [OF 2 shape(1), of "addr S"]
      show ?thesis
      proof (cases "q = top k")
        case True
        then obtain n' where "(q, n') \<in> knodes k (addr S)" "n = redirect k (addr S') n'" using hole by auto
        then show ?thesis using holds_nodes [OF h, of q n'] top [OF k] True by simp
      next
        case False
        then have "rb_mem t q = Some n" using hole holds_nodes [OF h, of q n] by auto
        moreover have "q \<in> kaddrs k" using knodes_addr [OF 2] by blast
        ultimately show ?thesis using rest False by simp
      qed
    qed (rule new)
  qed
  moreover have "NULL \<notin> kaddrs k" using h unfolding holds_def addrs_plug by blast
  moreover have "rb_root t' = addr (plug k S')"
    using root h addr_plug [of k S] addr_plug [of k S'] by (auto simp: holds_def)
  ultimately show ?thesis using shape unfolding holds_def addrs_plug by blast
qed

lemma holds_distinct:
  assumes "holds t (plug k S) X"
  shows "distinct (addrs S)" "NULL \<notin> set (addrs S)" "kaddrs k \<inter> set (addrs S) = {}" "NULL \<notin> kaddrs k"
    "X \<inter> set (addrs S) = {}" "X \<inter> kaddrs k = {}" "NULL \<notin> X" "dom (rb_mem t) = kaddrs k \<union> set (addrs S) \<union> X"
    "distinct (map fst (kl k @ kr k))"
  using assms distinct_plug [of k S] by (auto simp: holds_def addrs_plug inord_plug)

lemma root_plug: "k \<noteq> [] \<Longrightarrow> addr (plug k S) \<in> kaddrs k"
proof (induction k arbitrary: S)
  case (Cons f k)
  obtain s a c d y where f: "f = Fr s a c d y" by (cases f)
  have "kaddrs k \<subseteq> kaddrs (f # k)" "a \<in> kaddrs (f # k)" by (cases s; auto simp: f)+
  then show ?case using Cons.IH [of "mk s a c d S y"] f by (cases "k = []") auto
qed simp

lemma frames: "k \<noteq> [] \<Longrightarrow> \<exists>s a c d y k'. k = Fr s a c d y # k'"
  by (cases k; cases "hd k") auto

lemma knodes_top: "\<exists>n. (a, n) \<in> knodes (Fr s a c d y # k) h \<and> redirect (Fr s a c d y # k) h n = n"
proof (cases s)
  case Lt
  show ?thesis
    by (rule exI [of _ "\<lparr>n_parent = top k, n_left = h, n_right = addr y, n_data = d, n_color = col c\<rparr>"]) (simp add: Lt)
next
  case Rt
  show ?thesis
    by (rule exI [of _ "\<lparr>n_parent = top k, n_left = addr y, n_right = h, n_data = d, n_color = col c\<rparr>"]) (simp add: Rt)
qed

lemma holds_top:
  assumes "holds t (plug k S) X" "k \<noteq> []"
  obtains n where "rb_mem t (top k) = Some n" "redirect k (addr S) n = n" "top k \<noteq> NULL" "top k \<notin> set (addrs S)"
    "rb_root t \<notin> set (addrs S)" "rb_root t \<noteq> NULL" "node t (top k) = Some n"
proof -
  obtain s a c d y k' where k: "k = Fr s a c d y # k'" using frames [OF assms(2)] by blast
  obtain n where n: "(a, n) \<in> knodes k (addr S)" "redirect k (addr S) n = n" using knodes_top unfolding k by blast
  have top: "top k = a" by (simp add: k)
  have in_k: "a \<in> kaddrs k" "rb_root t \<in> kaddrs k"
    using top_plug [OF assms(2)] root_plug [OF assms(2), of S] assms(1) top by (auto simp: holds_def)
  have m: "rb_mem t a = Some n" using holds_nodes [OF assms(1), of a n] n(1) by blast
  have "q \<noteq> NULL \<and> q \<notin> set (addrs S)" if "q \<in> kaddrs k" for q
    using that holds_distinct(3,4) [OF assms(1)] by (metis IntI emptyE)
  then have ne: "a \<noteq> NULL" "rb_root t \<noteq> NULL" "a \<notin> set (addrs S)" "rb_root t \<notin> set (addrs S)" using in_k by simp_all
  show thesis
    by (rule that [of n]) (use m n(2) ne in \<open>simp_all add: node_def top del: redirect.simps\<close>)
qed

lemma top_notin: "holds t (plug k S) X \<Longrightarrow> k \<noteq> [] \<Longrightarrow> q \<in> set (addrs S) \<Longrightarrow> q \<noteq> top k"
  using holds_top [of t k S X] by metis

lemma recolor:
  assumes "holds t (plug k (mk s a c d x y)) X"
  obtains t' where "set_color t a (col c') = Some t'" "holds t' (plug k (mk s a c' d x y)) X" "rb_cmp t' = rb_cmp t"
proof -
  have "\<exists>t'. set_color t a (col c') = Some t' \<and> holds t' (plug k (Nd a c' l d r)) X \<and> rb_cmp t' = rb_cmp t"
    if h: "holds t (plug k (Nd a c l d r)) X" for l r
  proof -
    let ?n = "\<lparr>n_parent = top k, n_left = addr l, n_right = addr r, n_data = d, n_color = col c'\<rparr>"
    let ?t = "t\<lparr>rb_mem := (rb_mem t)(a \<mapsto> ?n)\<rparr>"
    note hd = holds_distinct [OF h]
    have old: "node t a = Some \<lparr>n_parent = top k, n_left = addr l, n_right = addr r, n_data = d, n_color = col c\<rparr>"
      by (rule holds_node [OF h])
    have "holds ?t (plug k (Nd a c' l d r)) X"
    proof (rule replace_focus [OF h])
      fix q n
      assume "(q, n) \<in> nodes (top k) (Nd a c' l d r)"
      then have "(q, n) = (a, ?n) \<or> (q, n) \<in> nodes (top k) (Nd a c l d r) \<and> q \<noteq> a"
        using nodes_addr hd(1) by (cases "q = a") (auto; fastforce)+
      then show "rb_mem ?t q = Some n" using holds_nodes [OF h] by auto
    next
      assume "k \<noteq> []"
      then obtain n where "rb_mem t (top k) = Some n" "redirect k (addr (Nd a c l d r)) n = n" "top k \<notin> set (addrs (Nd a c l d r))"
        by (rule holds_top [OF h])
      then show "rb_mem ?t (top k) = map_option (redirect k (addr (Nd a c' l d r))) (rb_mem t (top k))" by auto
    next
      show "rb_root ?t = (if k = [] then addr (Nd a c' l d r) else rb_root t)" using h by (simp add: holds_def)
    qed (use h hd old in \<open>auto simp: holds_def inord_plug\<close>)
    moreover have "set_color t a (col c') = Some ?t"
      using old by (simp add: set_color_def upd_def)
    ultimately show ?thesis by auto
  qed
  then show thesis using assms that by (cases s) (simp; blast)+
qed

lemma parent_node:
  assumes "holds t (plug k S) X" "k \<noteq> []" "S \<noteq> Tip"
  obtains s p cp dp sib k' where "k = Fr s p cp dp sib # k'" "p \<noteq> 0" "p \<notin> set (addrs S)" "addr sib \<noteq> addr S"
    "rb_mem t p = Some \<lparr>n_parent = top k', n_left = (if s = Lt then addr S else addr sib),
       n_right = (if s = Lt then addr sib else addr S), n_data = dp, n_color = col cp\<rparr>"
proof -
  obtain s p cp dp sib k' where k: "k = Fr s p cp dp sib # k'" using frames [OF assms(2)] by blast
  have np: "node t p = Some \<lparr>n_parent = top k', n_left = (if s = Lt then addr S else addr sib),
      n_right = (if s = Lt then addr sib else addr S), n_data = dp, n_color = col cp\<rparr>"
    using holds_node [of t k' p cp S dp sib X] holds_node [of t k' p cp sib dp S X] assms(1) by (cases s) (simp_all add: k)
  obtain "top k \<notin> set (addrs S)" by (rule holds_top [OF assms(1,2)])
  moreover have "addr sib \<noteq> addr S"
  proof (cases "sib = Tip")
    case True
    then show ?thesis using holds_distinct(2) [OF assms(1)] assms(3) addr_Tip [of S] by auto
  next
    case False
    then have "addr sib \<in> kaddrs k" using addr_in [OF False] by (cases s) (auto simp: k)
    then show ?thesis using holds_distinct(3) [OF assms(1)] addr_in [OF assms(3)] by (metis IntI emptyE)
  qed
  ultimately show thesis using that [of s p cp dp sib k'] np k by (simp add: node_def split: if_splits)
qed

definition nod :: "side \<Rightarrow> ptr \<Rightarrow> ptr \<Rightarrow> ptr \<Rightarrow> ptr \<Rightarrow> bool \<Rightarrow> rbnode" where
  \<comment> \<open>a node with its child on side \<open>s\<close> first\<close>
  "nod s p x y d c = \<lparr>n_parent = p, n_left = (if s = Lt then x else y), n_right = (if s = Lt then y else x),
     n_data = d, n_color = col c\<rparr>"

lemma holds_nod: "holds t (plug k (mk s a c d x y)) X \<Longrightarrow> rb_mem t a = Some (nod s (top k) (addr x) (addr y) d c) \<and> a \<noteq> 0"
  using holds_node [of t k a c x d y X] holds_node [of t k a c y d x X]
  by (cases s) (auto simp: node_def nod_def split: if_splits)

lemma nodes_mk: "nodes p (mk s a c d x y) = insert (a, nod s p (addr x) (addr y) d c) (nodes a x \<union> nodes a y)"
  by (cases s) (auto simp: nod_def)

lemma addrs_mk: "fst ` set (inord (mk s a c d x y)) = insert a (set (addrs x) \<union> set (addrs y))"
  by (cases s) auto

lemma mk_Nd: "x \<noteq> Tip \<Longrightarrow> \<exists>a c d l r. x = mk s a c d l r"
  by (cases x; cases s) auto

lemma mk_red: "red T \<Longrightarrow> \<exists>s a d l r. T = mk s a True d l r"
  by (cases T) (auto intro: exI [of _ Lt])

lemma rot_eval:
  assumes h: "holds t (plug k (mk s x c dx A (mk s y cy dy B C))) X"
  shows "\<exists>t'. rot s t x = Some t' \<and> rb_cmp t' = rb_cmp t \<and> rb_root t' = (if k = [] then y else rb_root t)
    \<and> rb_mem t' = (\<lambda>q. if q = x then Some (nod s y (addr A) (addr B) dx c)
        else if q = y then Some (nod s (top k) x (addr C) dy cy)
        else if B \<noteq> Tip \<and> q = addr B then map_option (\<lambda>n. n\<lparr>n_parent := x\<rparr>) (rb_mem t q)
        else if k \<noteq> [] \<and> q = top k then map_option (redirect k y) (rb_mem t q)
        else rb_mem t q)"
proof -
  let ?S = "mk s x c dx A (mk s y cy dy B C)"
  have nx: "rb_mem t x = Some (nod s (top k) (addr A) y dx c)" "x \<noteq> 0" using holds_nod [OF h] by simp_all
  have ny: "rb_mem t y = Some (nod s x (addr B) (addr C) dy cy)" "y \<noteq> 0"
    using holds_nod [of t "Fr (opp s) x c dx A # k" s y cy dy B C X] h by simp_all
  have nb: "rb_mem t b = Some (nod s y (addr B1) (addr B2) db cb) \<and> b \<noteq> 0" if "B = mk s b cb db B1 B2" for b cb B1 db B2
    using holds_nod [of t "Fr s y cy dy C # Fr (opp s) x c dx A # k" s b cb db B1 B2 X] h that by simp
  note hd = holds_distinct [OF h]
  have d: "x \<noteq> y" "B \<noteq> Tip \<Longrightarrow> addr B \<noteq> x \<and> addr B \<noteq> y"
    using hd(1,2) addr_in [of B] by (cases s; force)+
  show ?thesis
  proof (cases "k = []")
    case True
    then have root: "rb_root t = x" using h by (simp add: holds_def)
    show ?thesis
    proof (cases "B = Tip")
      case B: True
      show ?thesis using nx ny d(1) d(1) [symmetric] root True B
        by (cases s) (simp_all add: rbtree_rotl_def rbtree_rotr_def fld_def upd_def node_def nod_def fun_eq_iff)
    next
      case B: False
      then obtain b cb db B1 B2 where "B = mk s b cb db B1 B2" using mk_Nd by blast
      then have nb': "rb_mem t b = Some (nod s y (addr B1) (addr B2) db cb)" "b \<noteq> 0" "addr B = b" "B \<noteq> Tip"
        using nb by auto
      then have "b \<noteq> x" "b \<noteq> y" using d by auto
      note ne = this d(1)
      show ?thesis using nx ny nb' ne ne [symmetric] root True
        by (cases s) (simp_all add: rbtree_rotl_def rbtree_rotr_def fld_def upd_def node_def nod_def fun_eq_iff)
    qed
  next
    case False
    have root: "rb_root t \<noteq> x" by (rule holds_top [OF h False]) (auto simp: addrs_mk)
    obtain s' p cp dp sib k' where k: "k = Fr s' p cp dp sib # k'" "p \<noteq> 0" "addr sib \<noteq> x"
      and notin: "p \<notin> set (addrs ?S)" and np: "rb_mem t p = Some \<lparr>n_parent = top k', n_left = (if s' = Lt then x else addr sib),
         n_right = (if s' = Lt then addr sib else x), n_data = dp, n_color = col cp\<rparr>"
      by (rule parent_node [OF h False]) auto
    have dp: "p \<noteq> x" "p \<noteq> y" "p \<noteq> addr B" using notin k(2) addr_in [of B] by (cases "B = Tip"; auto simp: addrs_mk)+
    show ?thesis
    proof (cases "B = Tip")
      case B: True
      note ne = d(1) dp(1,2) root k(3)
      show ?thesis using nx ny ne ne [symmetric] k(1,2) np B
        by (cases s; cases s') (simp_all add: rbtree_rotl_def rbtree_rotr_def fld_def upd_def node_def nod_def fun_eq_iff)
    next
      case B: False
      then obtain b cb db B1 B2 where "B = mk s b cb db B1 B2" using mk_Nd by blast
      then have nb': "rb_mem t b = Some (nod s y (addr B1) (addr B2) db cb)" "b \<noteq> 0" "addr B = b" "B \<noteq> Tip"
        using nb by auto
      then have "b \<noteq> x" "b \<noteq> y" "p \<noteq> b" using d dp by auto
      note ne = this d(1) dp(1,2) root k(3)
      show ?thesis
      proof (cases s)
        case Lt
        show ?thesis
        proof (cases s')
          case Lt
          show ?thesis using nx ny nb' ne ne [symmetric] k(1,2) np unfolding \<open>s = Lt\<close> Lt
            by (simp add: rbtree_rotl_def fld_def upd_def node_def nod_def fun_eq_iff)
        next
          case Rt
          show ?thesis using nx ny nb' ne ne [symmetric] k(1,2) np unfolding \<open>s = Lt\<close> Rt
            by (simp add: rbtree_rotl_def fld_def upd_def node_def nod_def fun_eq_iff)
        qed
      next
        case Rt
        show ?thesis
        proof (cases s')
          case Lt
          show ?thesis using nx ny nb' ne ne [symmetric] k(1,2) np unfolding \<open>s = Rt\<close> Lt
            by (simp add: rbtree_rotr_def fld_def upd_def node_def nod_def fun_eq_iff)
        next
          case Rt
          show ?thesis using nx ny nb' ne ne [symmetric] k(1,2) np unfolding \<open>s = Rt\<close> Rt
            by (simp add: rbtree_rotr_def fld_def upd_def node_def nod_def fun_eq_iff)
        qed
      qed
    qed
  qed
qed

lemma reparent: "(q, n) \<in> nodes p' T \<Longrightarrow> distinct (addrs T) \<Longrightarrow>
  if q = addr T then \<exists>n'. (q, n') \<in> nodes p T \<and> n = n'\<lparr>n_parent := p'\<rparr> else (q, n) \<in> nodes p T"
  using nodes_addr by (cases T) (fastforce split: if_splits)+

lemma rot_spec:
  assumes h: "holds t (plug k (mk s x c dx A (mk s y cy dy B C))) X"
  obtains t' where "rot s t x = Some t'" "holds t' (plug k (mk s y cy dy (mk s x c dx A B) C)) X" "rb_cmp t' = rb_cmp t"
proof -
  let ?S = "mk s x c dx A (mk s y cy dy B C)" and ?S' = "mk s y cy dy (mk s x c dx A B) C"
  obtain t' where t': "rot s t x = Some t'" "rb_cmp t' = rb_cmp t" "rb_root t' = (if k = [] then y else rb_root t)"
    and m: "rb_mem t' = (\<lambda>q. if q = x then Some (nod s y (addr A) (addr B) dx c)
        else if q = y then Some (nod s (top k) x (addr C) dy cy)
        else if B \<noteq> Tip \<and> q = addr B then map_option (\<lambda>n. n\<lparr>n_parent := x\<rparr>) (rb_mem t q)
        else if k \<noteq> [] \<and> q = top k then map_option (redirect k y) (rb_mem t q)
        else rb_mem t q)"
    using rot_eval [OF h] by blast
  note hd = holds_distinct [OF h]
  have ino: "inord ?S' = inord ?S" by (cases s) simp_all
  have old: "rb_mem t q = Some n" if "(q, n) \<in> nodes (top k) ?S" for q n by (rule holds_nodes [OF h]) (use that in blast)
  have dist: "x \<noteq> y" "x \<notin> set (addrs B)" "y \<notin> set (addrs B)" "x \<notin> set (addrs A)" "y \<notin> set (addrs A)" 
     "x \<notin> set (addrs C)" "y \<notin> set (addrs C)" "distinct (addrs B)" "set (addrs A) \<inter> set (addrs B) = {}" "set (addrs C) \<inter> set (addrs B) = {}"
  proof -
    have "distinct (x # y # addrs A @ addrs B @ addrs C)" using hd(1) by (cases s) auto
    then show "x \<noteq> y" "x \<notin> set (addrs B)" "y \<notin> set (addrs B)" "x \<notin> set (addrs A)" "y \<notin> set (addrs A)" 
     "x \<notin> set (addrs C)" "y \<notin> set (addrs C)" "distinct (addrs B)" "set (addrs A) \<inter> set (addrs B) = {}" "set (addrs C) \<inter> set (addrs B) = {}"
      by (simp_all, blast+)
  qed
  have S: "set (addrs ?S) = {x, y} \<union> set (addrs A) \<union> set (addrs B) \<union> set (addrs C)" by (auto simp: addrs_mk)
  have notop: "k \<noteq> [] \<Longrightarrow> q \<in> set (addrs ?S) \<Longrightarrow> q \<noteq> top k" for q by (rule top_notin [OF h])
  have aB: "B \<noteq> Tip \<Longrightarrow> addr B \<in> set (addrs B)" by (rule addr_in)
  have other: "rb_mem t' q = rb_mem t q" if "q \<noteq> x" "q \<noteq> y" "B \<noteq> Tip \<Longrightarrow> q \<noteq> addr B" "k \<noteq> [] \<Longrightarrow> q \<noteq> top k" for q
    using that by (auto simp: m)
  have "holds t' (plug k ?S') X"
  proof (rule replace_focus [OF h])
    fix q n
    assume "(q, n) \<in> nodes (top k) ?S'"
    then consider "q = x" "n = nod s y (addr A) (addr B) dx c" | "q = y" "n = nod s (top k) x (addr C) dy cy"
      | "(q, n) \<in> nodes x B" | "(q, n) \<in> nodes x A \<union> nodes y C" by (auto simp: nodes_mk)
    then show "rb_mem t' q = Some n"
    proof cases
      case 3
      then have q: "q \<in> set (addrs B)" using nodes_addr by blast
      have "B \<noteq> Tip" using 3 by auto
      have fr: "rb_mem t' q = (if q = addr B then map_option (\<lambda>n. n\<lparr>n_parent := x\<rparr>) (rb_mem t q) else rb_mem t q)"
      proof -
        have "q \<noteq> x" "q \<noteq> y" using q dist(2,3) by blast+
        moreover have "k = [] \<or> q \<noteq> top k" using notop [of q] q S by blast
        ultimately show ?thesis using \<open>B \<noteq> Tip\<close> by (auto simp: m)
      qed
      show ?thesis using reparent [OF 3, of y] dist(8) old fr by (auto simp: nodes_mk split: if_splits)
    next
      case 4
      then have q: "q \<in> set (addrs A) \<union> set (addrs C)" using nodes_addr by blast
      have fr: "rb_mem t' q = rb_mem t q"
        by (rule other) (use q notop [of q] dist(4-7,9,10) aB S in blast)+
      show ?thesis using 4 old fr by (auto simp: nodes_mk)
    qed (use m dist in auto)
  next
    assume "k \<noteq> []"
    then obtain "top k \<notin> set (addrs ?S)" by (rule holds_top [OF h])
    then show "rb_mem t' (top k) = map_option (redirect k (addr ?S')) (rb_mem t (top k))"
      using \<open>k \<noteq> []\<close> aB unfolding S by (auto simp: m)
  next
    fix q
    assume "q \<in> kaddrs k" "q \<noteq> top k"
    then have q: "q \<notin> set (addrs ?S)" using hd(3) by blast
    show "rb_mem t' q = rb_mem t q" by (rule other) (use q \<open>q \<noteq> top k\<close> aB S in blast)+
  next
    show "rb_root t' = (if k = [] then addr ?S' else rb_root t)" using t'(3) by simp
  next
    have "(rb_mem t' q = None) = (rb_mem t q = None)" for q
      using old [of x] old [of y] by (auto simp: m nodes_mk)
    then have "dom (rb_mem t') = dom (rb_mem t)" by (auto simp: dom_def)
    then show "dom (rb_mem t') = set (addrs (plug k ?S')) \<union> X" using h by (simp add: holds_def inord_plug ino)
  qed (use h in \<open>simp_all add: holds_def inord_plug ino\<close>)
  then show thesis using that t' by blast
qed

section \<open>The colour invariants\<close>

fun bh :: "rbt \<Rightarrow> nat" where
  "bh Tip = 0"
| "bh (Nd a c l d r) = bh l + (if c then 0 else 1)"

fun invh :: "rbt \<Rightarrow> bool" where
  \<comment> \<open>the same number of black nodes on every path down\<close>
  "invh Tip \<longleftrightarrow> True"
| "invh (Nd a c l d r) \<longleftrightarrow> invh l \<and> invh r \<and> bh l = bh r"

fun invc :: "rbt \<Rightarrow> bool" where
  \<comment> \<open>no red node below a red node\<close>
  "invc Tip \<longleftrightarrow> True"
| "invc (Nd a c l d r) \<longleftrightarrow> invc l \<and> invc r \<and> (c \<longrightarrow> \<not> red l \<and> \<not> red r)"

fun kinvh :: "frame list \<Rightarrow> nat \<Rightarrow> bool" where
  "kinvh [] h \<longleftrightarrow> True"
| "kinvh (Fr s a c d y # k) h \<longleftrightarrow> invh y \<and> bh y = h \<and> kinvh k (h + (if c then 0 else 1))"

fun kinvc :: "frame list \<Rightarrow> bool \<Rightarrow> bool" where
  "kinvc [] b \<longleftrightarrow> True"
| "kinvc (Fr s a c d y # k) b \<longleftrightarrow> invc y \<and> (c \<longrightarrow> \<not> b \<and> \<not> red y) \<and> kinvc k c"

fun kroot :: "frame list \<Rightarrow> bool" where
  "kroot [] \<longleftrightarrow> True"
| "kroot (Fr s a c d y # k) \<longleftrightarrow> (if k = [] then \<not> c else kroot k)"

lemma inv_mk [simp]:
  "invh (mk s a c d x y) \<longleftrightarrow> invh x \<and> invh y \<and> bh x = bh y"
  "invc (mk s a c d x y) \<longleftrightarrow> invc x \<and> invc y \<and> (c \<longrightarrow> \<not> red x \<and> \<not> red y)"
  "invh (mk s a c d x y) \<Longrightarrow> bh (mk s a c d x y) = bh x + (if c then 0 else 1)"
  by (cases s; auto)+

lemma invh_plug: "invh (plug k T) \<longleftrightarrow> invh T \<and> kinvh k (bh T)"
proof (induction k arbitrary: T)
  case (Cons f k)
  obtain s a c d y where "f = Fr s a c d y" by (cases f)
  then show ?case using Cons.IH [of "mk s a c d T y"] by (cases s) auto
qed simp

lemma invc_plug: "invc (plug k T) \<longleftrightarrow> invc T \<and> kinvc k (red T)"
proof (induction k arbitrary: T)
  case (Cons f k)
  obtain s a c d y where "f = Fr s a c d y" by (cases f)
  then show ?case using Cons.IH [of "mk s a c d T y"] by (cases s) auto
qed simp

lemma plug_Tip: "plug k T = Tip \<longleftrightarrow> k = [] \<and> T = Tip"
proof (induction k arbitrary: T)
  case (Cons f k)
  obtain s a c d y where "f = Fr s a c d y" by (cases f)
  then show ?case using Cons.IH [of "mk s a c d T y"] by simp
qed simp

lemma red_plug: "red (plug k T) \<longleftrightarrow> (if k = [] then red T else \<not> kroot k)"
proof (induction k arbitrary: T)
  case (Cons f k)
  obtain s a c d y where "f = Fr s a c d y" by (cases f)
  then show ?case using Cons.IH [of "mk s a c d T y"] by simp
qed simp

lemma kinvc_black: "kinvc k b \<Longrightarrow> kinvc k False"
  by (cases k; cases "hd k") auto

section \<open>Insertion restores them\<close>

lemmas recolor_black = recolor [where c' = False, folded color_col]
lemmas recolor_red = recolor [where c' = True, folded color_col]

lemma holds_focus:
  \<comment> \<open>the reads at the focus and its parent\<close>
  assumes "holds t (plug (Fr s p cp dp y # k) (mk s' z c d A B)) X"
  shows "fld n_parent t z = Some p" and "fld (child (opp s)) t p = Some (addr y)" and "fld (child s) t p = Some z"
    and "fld n_parent t p = Some (top k)" and "fld n_color t p = Some (col cp)" and "z \<noteq> addr y" and "z \<noteq> NULL" and "p \<noteq> NULL"
    and "z \<noteq> rb_root t"
proof -
  let ?z = "mk s' z c d A B"
  have hp: "holds t (plug k (mk s p cp dp ?z y)) X" using assms by simp
  show "fld n_parent t z = Some p" using holds_fld(1) [OF assms] by simp
  show "fld (child (opp s)) t p = Some (addr y)" "fld (child s) t p = Some z" "fld n_parent t p = Some (top k)"
    "fld n_color t p = Some (col cp)" using holds_fld [OF hp] by simp_all
  show "z \<noteq> NULL" "p \<noteq> NULL" using holds_nod [OF assms] holds_nod [OF hp] by simp_all
  obtain s1 p1 cp1 dp1 sib1 k1 where "Fr s p cp dp y # k = Fr s1 p1 cp1 dp1 sib1 # k1" "addr sib1 \<noteq> addr ?z"
    by (rule parent_node [OF assms]) auto
  then show "z \<noteq> addr y" by simp
  show "z \<noteq> rb_root t" by (rule holds_top [OF assms]) (auto simp: addrs_mk)
qed

lemma insert_case_recolor:
  assumes h: "holds t (plug (Fr s1 p True dp sib # Fr s g False dg (mk s3 y True dy Y1 Y2) # k) (mk s2 z True dz A B)) X"
  obtains t' where "insert_case s t z = Some (t', g)" "rb_cmp t' = rb_cmp t"
    "holds t' (plug k (mk s g True dg (mk s1 p False dp (mk s2 z True dz A B) sib) (mk s3 y False dy Y1 Y2))) X"
proof -
  let ?Z = "mk s2 z True dz A B" and ?Y = "\<lambda>c. mk s3 y c dy Y1 Y2"
  have h1: "holds t (plug (Fr s g False dg (?Y True) # k) (mk s1 p True dp ?Z sib)) X" using h by simp
  have h2: "holds t (plug (Fr (opp s) g False dg (mk s1 p True dp ?Z sib) # k) (?Y True)) X" using h by simp
  note f = holds_focus [OF h] holds_focus [OF h1] holds_focus [OF h2] holds_fld(5,6) [OF h2]
  obtain t1 where t1: "set_color t y RBTREE_BLACK = Some t1" "rb_cmp t1 = rb_cmp t"
    "holds t1 (plug (Fr (opp s) g False dg (mk s1 p True dp ?Z sib) # k) (?Y False)) X"
    by (rule recolor_black [OF h2])
  have h3: "holds t1 (plug (Fr s1 p True dp sib # Fr s g False dg (?Y False) # k) ?Z) X"
    "holds t1 (plug (Fr s g False dg (?Y False) # k) (mk s1 p True dp ?Z sib)) X" using t1(3) by simp_all
  obtain t2 where t2: "set_color t1 p RBTREE_BLACK = Some t2" "rb_cmp t2 = rb_cmp t1"
    "holds t2 (plug (Fr s g False dg (?Y False) # k) (mk s1 p False dp ?Z sib)) X"
    by (rule recolor_black [OF h3(2)])
  have h4: "holds t2 (plug k (mk s g False dg (mk s1 p False dp ?Z sib) (?Y False))) X" using t2(3) by simp
  obtain t3 where t3: "set_color t2 g RBTREE_RED = Some t3" "rb_cmp t3 = rb_cmp t2"
    "holds t3 (plug k (mk s g True dg (mk s1 p False dp ?Z sib) (?Y False))) X"
    by (rule recolor_red [OF h4])
  have "insert_case s t z = Some (t3, g)"
    using f t1(1) t2(1) t3(1) holds_focus(1) [OF h3(1)] holds_focus(1) [OF t2(3)]
    by (simp add: insert_case_def)
  then show thesis using that t1(2) t2(2) t3(2,3) by simp
qed

lemma focus_color:
  assumes "holds t (plug k y) X"
  shows "(if addr y \<noteq> NULL then fld (\<lambda>n. n_color n = RBTREE_RED) t (addr y) else Some False) = Some (red y)"
    and "is_black t (addr y) = Some (\<not> red y)"
proof -
  have "(if addr y \<noteq> NULL then fld (\<lambda>n. n_color n = RBTREE_RED) t (addr y) else Some False) = Some (red y)
    \<and> is_black t (addr y) = Some (\<not> red y)"
  proof (cases "y = Tip")
    case False
    then obtain a c d l r where y: "y = mk Lt a c d l r" using mk_Nd by blast
    then have h: "holds t (plug k (mk Lt a c d l r)) X" using assms by simp
    show ?thesis using holds_fld(6) [OF h] holds_nod [OF h] y by (simp add: is_black_def)
  qed (simp add: is_black_def)
  then show "(if addr y \<noteq> NULL then fld (\<lambda>n. n_color n = RBTREE_RED) t (addr y) else Some False) = Some (red y)"
    "is_black t (addr y) = Some (\<not> red y)" by simp_all
qed

lemma insert_case3_ok:
  assumes h: "holds t (plug (Fr s p True dp sib # Fr s g False dg unc # k) (mk s2 z True dz A B)) X"
  obtains t' where "insert_case3 s t z = Some t'" "rb_cmp t' = rb_cmp t"
    "holds t' (plug k (mk s p False dp (mk s2 z True dz A B) (mk s g True dg sib unc))) X"
proof -
  let ?Z = "mk s2 z True dz A B"
  have h1: "holds t (plug (Fr s g False dg unc # k) (mk s p True dp ?Z sib)) X" using h by simp
  obtain t1 where t1: "set_color t p RBTREE_BLACK = Some t1" "rb_cmp t1 = rb_cmp t"
    "holds t1 (plug (Fr s g False dg unc # k) (mk s p False dp ?Z sib)) X"
    by (rule recolor_black [OF h1])
  have h2: "holds t1 (plug (Fr s p False dp sib # Fr s g False dg unc # k) ?Z) X"
    "holds t1 (plug k (mk s g False dg (mk s p False dp ?Z sib) unc)) X" using t1(3) by simp_all
  obtain t2 where t2: "set_color t1 g RBTREE_RED = Some t2" "rb_cmp t2 = rb_cmp t1"
    "holds t2 (plug k (mk s g True dg (mk s p False dp ?Z sib) unc)) X"
    by (rule recolor_red [OF h2(2)])
  have h3: "holds t2 (plug (Fr s p False dp sib # Fr s g True dg unc # k) ?Z) X"
    "holds t2 (plug (Fr s g True dg unc # k) (mk s p False dp ?Z sib)) X"
    "holds t2 (plug k (mk (opp s) g True dg unc (mk (opp s) p False dp sib ?Z))) X" using t2(3) by simp_all
  obtain t3 where t3: "rot (opp s) t2 g = Some t3" "rb_cmp t3 = rb_cmp t2"
    "holds t3 (plug k (mk (opp s) p False dp (mk (opp s) g True dg unc sib) ?Z)) X"
    by (rule rot_spec [OF h3(3)])
  have "insert_case3 s t z = Some t3"
    using holds_focus(1) [OF h] t1(1) holds_focus(1) [OF h2(1)] holds_focus(1) [OF t1(3)] t2(1) holds_focus(1) [OF h3(1)]
      holds_focus(1) [OF h3(2)] t3(1)
    by (simp add: insert_case3_def)
  then show thesis using that t1(2) t2(2) t3(2,3) by simp
qed

lemma insert_case_black:
  \<comment> \<open>the reads of the loop body when the uncle is black\<close>
  assumes h: "holds t (plug (Fr s1 p True dp sib # Fr s g False dg unc # k) (mk s2 z True dz A B)) X" and "\<not> red unc"
  shows "insert_case s t z = (if s1 = s then do { t' \<leftarrow> insert_case3 s t z; Some (t', z) }
     else do { t1 \<leftarrow> rot s t p; t' \<leftarrow> insert_case3 s t1 p; Some (t', p) })"
proof -
  have h1: "holds t (plug (Fr s g False dg unc # k) (mk s1 p True dp (mk s2 z True dz A B) sib)) X"
    "holds t (plug (Fr (opp s) g False dg (mk s1 p True dp (mk s2 z True dz A B) sib) # k) unc) X" using h by simp_all
  note f = holds_focus [OF h] holds_focus [OF h1(1)]
  have r: "addr unc \<noteq> NULL \<Longrightarrow> fld (\<lambda>n. n_color n = RBTREE_RED) t (addr unc) = Some False"
    using focus_color(1) [OF h1(2)] assms(2) by simp
  show ?thesis
  proof (cases "s1 = s")
    case True
    then show ?thesis using f by (simp add: insert_case_def r)
  next
    case False
    then have "opp s = s1" by (cases s; cases s1) auto
    then show ?thesis using f False by (simp add: insert_case_def r)
  qed
qed

lemma insert_case_outer:
  assumes h: "holds t (plug (Fr s p True dp sib # Fr s g False dg unc # k) (mk s2 z True dz A B)) X" and "\<not> red unc"
  obtains t' where "insert_case s t z = Some (t', z)" "rb_cmp t' = rb_cmp t"
    "holds t' (plug k (mk s p False dp (mk s2 z True dz A B) (mk s g True dg sib unc))) X"
proof -
  obtain t' where "insert_case3 s t z = Some t'" "rb_cmp t' = rb_cmp t"
    "holds t' (plug k (mk s p False dp (mk s2 z True dz A B) (mk s g True dg sib unc))) X" by (rule insert_case3_ok [OF h])
  then show thesis using that insert_case_black [OF assms] by simp
qed

lemma insert_case_inner:
  assumes h: "holds t (plug (Fr (opp s) p True dp sib # Fr s g False dg unc # k) (mk s z True dz A B)) X" and "\<not> red unc"
  obtains t' where "insert_case s t z = Some (t', p)" "rb_cmp t' = rb_cmp t"
    "holds t' (plug k (mk s z False dz (mk s p True dp sib A) (mk s g True dg B unc))) X"
proof -
  have h1: "holds t (plug (Fr s g False dg unc # k) (mk s p True dp sib (mk s z True dz A B))) X" using h by simp
  obtain t1 where t1: "rot s t p = Some t1" "holds t1 (plug (Fr s g False dg unc # k) (mk s z True dz (mk s p True dp sib A) B)) X"
    "rb_cmp t1 = rb_cmp t" by (rule rot_spec [OF h1])
  have h2: "holds t1 (plug (Fr s z True dz B # Fr s g False dg unc # k) (mk s p True dp sib A)) X" using t1(2) by simp
  obtain t' where t': "insert_case3 s t1 p = Some t'" "rb_cmp t' = rb_cmp t1"
    "holds t' (plug k (mk s z False dz (mk s p True dp sib A) (mk s g True dg B unc))) X" by (rule insert_case3_ok [OF h2])
  have "opp s \<noteq> s" by (cases s) auto
  then show thesis using that insert_case_black [OF assms] t1 t' by simp
qed

lemma child_fun: "child Lt = n_left" "child Rt = n_right"
  by (auto simp: fun_eq_iff)

lemma child_side:
  assumes "holds t (plug (Fr s p cp dp y # k) (mk s' z c d A B)) X"
  shows "\<exists>l. fld n_left t p = Some l \<and> (z = l \<longleftrightarrow> s = Lt)"
  using holds_focus(2,3,6) [OF assms] by (cases s) (auto simp: child_fun)

lemma adjust_stops:
  "holds t (plug (Fr s p False dp y # k) (mk s' z c d A B)) X \<Longrightarrow> insert_adjust_loop t z = Some t"
  using holds_focus(1,5,9) by (subst insert_adjust_loop.simps) fastforce

lemma insert_adjust_loop_ok:
  assumes "holds t (plug k (mk s2 z True dz A B)) X" "invh (plug k (mk s2 z True dz A B))"
    "invc (mk s2 z True dz A B)" "kinvc k False" "kroot k"
  shows "\<exists>t' T'. insert_adjust_loop t z = Some t' \<and> rb_cmp t' = rb_cmp t \<and> holds t' T' X \<and> invh T' \<and> invc T' \<and> T' \<noteq> Tip
    \<and> inord T' = inord (plug k (mk s2 z True dz A B))"
  using assms
proof (induction "length k" arbitrary: t k s2 z dz A B rule: less_induct)
  case less
  let ?Z = "mk s2 z True dz A B"
  show ?case
  proof (cases k)
    case Nil
    then have "insert_adjust_loop t z = Some t"
      using less.prems(1) by (subst insert_adjust_loop.simps) (simp add: holds_def)
    then show ?thesis using less.prems Nil by (intro exI [of _ t] exI [of _ ?Z]) simp
  next
    case (Cons f k1)
    obtain s1 p cp dp sib where k: "k = Fr s1 p cp dp sib # k1" using Cons by (cases f) auto
    note h = less.prems(1) [unfolded k]
    note f = holds_focus [OF h]
    show ?thesis
    proof (cases cp)
      case False
      then have "insert_adjust_loop t z = Some t" using f by (subst insert_adjust_loop.simps) simp
      moreover have "kinvc k True" using less.prems(4) False by (simp add: k)
      ultimately show ?thesis
        using less.prems by (intro exI [of _ t] exI [of _ "plug k ?Z"]) (simp add: invc_plug plug_Tip)
    next
      case True
      have "k1 \<noteq> []" using less.prems(5) True by (auto simp: k)
      then obtain s g cg dg unc k2 where k1: "k1 = Fr s g cg dg unc # k2" using frames by blast
      have inv: "\<not> cg" "invc sib" "\<not> red sib" "invc unc" "kinvc k2 False" "kroot k2" "k2 = [] \<or> kroot k2"
        using less.prems(4,5) True by (auto simp: k k1 split: if_splits)
      have ih: "invh A" "invh B" "invh sib" "invh unc" "bh A = bh B" "bh sib = bh A" "bh unc = bh A" "kinvh k2 (bh A + 1)"
        using less.prems(2) True inv(1) by (auto simp: invh_plug k k1)
      have ic: "invc A" "invc B" "\<not> red A" "\<not> red B" using less.prems(3) by auto
      have kk: "k = Fr s1 p True dp sib # Fr s g False dg unc # k2" using k k1 True inv(1) by simp
      have h: "holds t (plug (Fr s1 p True dp sib # Fr s g False dg unc # k2) ?Z) X" using less.prems(1) unfolding kk .
      have hp: "holds t (plug (Fr s g False dg unc # k2) (mk s1 p True dp ?Z sib)) X" using h by simp
      have step: "insert_adjust_loop t z = do { (t, z) \<leftarrow> insert_case s t z; insert_adjust_loop t z }"
      proof -
        obtain l where "fld n_left t g = Some l" "p = l \<longleftrightarrow> s = Lt" using child_side [OF hp] by blast
        then show ?thesis using f True holds_focus [OF hp] by (cases s) (subst insert_adjust_loop.simps; simp)+
      qed
      show ?thesis
      proof (cases "red unc")
        case red: True
        then obtain s3 y Y1 dy Y2 where unc: "unc = mk s3 y True dy Y1 Y2" using mk_red by blast
        obtain t1 where t1: "insert_case s t z = Some (t1, g)" "rb_cmp t1 = rb_cmp t"
          "holds t1 (plug k2 (mk s g True dg (mk s1 p False dp ?Z sib) (mk s3 y False dy Y1 Y2))) X"
          by (rule insert_case_recolor [OF h [unfolded unc]])
        let ?G = "mk s g True dg (mk s1 p False dp ?Z sib) (mk s3 y False dy Y1 Y2)"
        have "length k2 < length k" by (simp add: kk)
        moreover have "invh (plug k2 ?G)" using ih by (auto simp: invh_plug unc)
        moreover have "invc ?G" using ic inv by (auto simp: unc)
        moreover have "inord (plug k2 ?G) = inord (plug k ?Z)" unfolding kk unc by (cases s; cases s1; cases s3) (simp_all add: inord_plug)
        ultimately show ?thesis using less.hyps [of k2, OF _ t1(3)] inv(5,6) step t1(1,2) by simp
      next
        case black: False
        show ?thesis
        proof (cases "s1 = s")
          case True
          obtain t1 where t1: "insert_case s t z = Some (t1, z)" "rb_cmp t1 = rb_cmp t"
            "holds t1 (plug k2 (mk s p False dp ?Z (mk s g True dg sib unc))) X"
            by (rule insert_case_outer [OF h [unfolded True] black])
          let ?T = "plug k2 (mk s p False dp ?Z (mk s g True dg sib unc))"
          have "insert_adjust_loop t1 z = Some t1"
            by (rule adjust_stops [of t1 s p dp "mk s g True dg sib unc" k2 s2 z True dz A B X]) (use t1(3) in simp)
          moreover have "invh ?T" "invc ?T" using ih ic inv black by (auto simp: invh_plug invc_plug)
          moreover have "inord ?T = inord (plug k ?Z)" unfolding kk True by (cases s) (simp_all add: inord_plug)
          ultimately show ?thesis using step t1 by (intro exI [of _ t1] exI [of _ ?T]) (simp add: plug_Tip)
        next
          case False
          then have s1: "s1 = opp s" by (cases s; cases s1) auto
          obtain A' B' where Z: "?Z = mk s z True dz A' B'" "{A', B'} = {A, B}" by (cases s; cases s2) auto
          obtain t1 where t1: "insert_case s t z = Some (t1, p)" "rb_cmp t1 = rb_cmp t"
            "holds t1 (plug k2 (mk s z False dz (mk s p True dp sib A') (mk s g True dg B' unc))) X"
            by (rule insert_case_inner [OF h [unfolded s1 Z(1)] black])
          let ?T = "plug k2 (mk s z False dz (mk s p True dp sib A') (mk s g True dg B' unc))"
          have "insert_adjust_loop t1 p = Some t1"
            by (rule adjust_stops [of t1 s z dz "mk s g True dg B' unc" k2 s p True dp sib A' X]) (use t1(3) in simp)
          moreover have "invh ?T" "invc ?T" using Z(2) ih ic inv black by (auto simp: invh_plug invc_plug doubleton_eq_iff)
          moreover have "inord ?T = inord (plug k ?Z)" unfolding kk s1 Z(1) by (cases s) (simp_all add: inord_plug)
          ultimately show ?thesis using step t1 by (intro exI [of _ t1] exI [of _ ?T]) (simp add: plug_Tip)
        qed
      qed
    qed
  qed
qed

section \<open>The sorted set it holds\<close>

abbreviation data :: "rbt \<Rightarrow> ptr list" where "data T \<equiv> map snd (inord T)"

definition rb_tree :: "(ptr \<Rightarrow> 'k::linorder) \<Rightarrow> rbtree_t \<Rightarrow> rbt \<Rightarrow> bool" where
  "rb_tree key t T \<longleftrightarrow> holds t T {} \<and> invh T \<and> invc T \<and> \<not> red T \<and> NULL \<notin> set (data T)
     \<and> sorted_wrt (\<lambda>x y. key x < key y) (data T) \<and> cmp_by key (rb_cmp t)"

lemma sides:
  \<comment> \<open>where the data around a node of a sorted tree lie\<close>
  assumes "sorted_wrt (\<lambda>x y. key x < key y) (data (plug k (Nd a c l d r)))"
  shows "\<forall>x \<in> set (data l). key x < key d" "\<forall>x \<in> set (data r). key d < key x" "\<forall>x \<in> snd ` set (kl k). key x < key d"
    "\<forall>x \<in> snd ` set (kr k). key d < key x"
  using assms by (auto simp: inord_plug sorted_wrt_append)

lemma search_down:
  \<comment> \<open>the step to a child\<close>
  "plug k (Nd a c l d r) = plug (Fr Lt a c d r # k) l" "plug k (Nd a c l d r) = plug (Fr Rt a c d l # k) r"
  by simp_all

lemma insert_search_ok:
  assumes "holds t (plug k S) X" "cmp_by key (rb_cmp t)" "sorted_wrt (\<lambda>x y. key x < key y) (data (plug k S))"
    and "\<forall>x \<in> snd ` set (kl k). key x < key d" "\<forall>x \<in> snd ` set (kr k). key d < key x"
  shows "(insert_search t d (addr S) (top k) = Some None \<and> (\<exists>x \<in> set (data S). key x = key d)) \<or>
    (\<exists>k'. insert_search t d (addr S) (top k) = Some (Some (top k')) \<and> plug k' Tip = plug k S \<and> (k' = [] \<longrightarrow> k = [] \<and> S = Tip)
      \<and> (\<forall>x \<in> snd ` set (kl k'). key x < key d) \<and> (\<forall>x \<in> snd ` set (kr k'). key d < key x))"
  using assms
proof (induction S arbitrary: k)
  case Tip
  have "insert_search t d (addr Tip) (top k) = Some (Some (top k))" by (subst insert_search.simps) simp
  then show ?case using Tip by (intro disjI2 exI [of _ k]) simp
next
  case (Nd a c l e r)
  have n: "node t a = Some \<lparr>n_parent = top k, n_left = addr l, n_right = addr r, n_data = e, n_color = col c\<rparr>" "a \<noteq> 0"
    using holds_node [OF Nd.prems(1)] by (auto simp: node_def split: if_splits)
  have c: "(rb_cmp t d e < 0) = (key d < key e)" "(rb_cmp t d e = 0) = (key d = key e)"
    using Nd.prems(2) by (simp_all add: cmp_by_def)
  note s = sides [OF Nd.prems(3)]
  consider "key d = key e" | "key d < key e" | "key e < key d" by fastforce
  then show ?case
  proof cases
    case 1
    then have "insert_search t d (addr (Nd a c l e r)) (top k) = Some None"
      using n c by (subst insert_search.simps) simp
    then show ?thesis using 1 by (intro disjI1) auto
  next
    case 2
    then have e: "insert_search t d (addr (Nd a c l e r)) (top k) = insert_search t d (addr l) (top (Fr Lt a c e r # k))"
      using n c by (subst insert_search.simps) simp
    have "\<forall>x \<in> snd ` set (kr (Fr Lt a c e r # k)). key d < key x" using 2 s(2) Nd.prems(5) by fastforce
    then show ?thesis using Nd.IH(1) [of "Fr Lt a c e r # k"] Nd.prems unfolding e by (auto simp del: kr.simps)
  next
    case 3
    then have e: "insert_search t d (addr (Nd a c l e r)) (top k) = insert_search t d (addr r) (top (Fr Rt a c e l # k))"
      using n c by (subst insert_search.simps) auto
    have "\<forall>x \<in> snd ` set (kl (Fr Rt a c e l # k)). key x < key d" using 3 s(1) Nd.prems(4) by fastforce
    then show ?thesis using Nd.IH(2) [of "Fr Rt a c e l # k"] Nd.prems unfolding e by (auto simp del: kl.simps)
  qed
qed

lemma find_node_ok:
  assumes "holds t (plug k S) X" "cmp_by key (rb_cmp t)" "sorted_wrt (\<lambda>x y. key x < key y) (data (plug k S))" "d \<noteq> NULL"
  shows "(rbtree_find_node t (addr S) d = Some NULL \<and> (\<forall>x \<in> set (data S). key x \<noteq> key d)) \<or>
    (\<exists>k' a c l e r. rbtree_find_node t (addr S) d = Some a \<and> plug k' (Nd a c l e r) = plug k S \<and> key e = key d \<and> e \<in> set (data S))"
  using assms
proof (induction S arbitrary: k)
  case Tip
  have "rbtree_find_node t (addr Tip) d = Some NULL" by (subst rbtree_find_node.simps) simp
  then show ?case by simp
next
  case (Nd a c l e r)
  have n: "node t a = Some \<lparr>n_parent = top k, n_left = addr l, n_right = addr r, n_data = e, n_color = col c\<rparr>" "a \<noteq> 0"
    using holds_node [OF Nd.prems(1)] by (auto simp: node_def split: if_splits)
  have c: "(rb_cmp t d e < 0) = (key d < key e)" "(rb_cmp t d e = 0) = (key d = key e)"
    using Nd.prems(2) by (simp_all add: cmp_by_def)
  note s = sides [OF Nd.prems(3)]
  consider "key d = key e" | "key d < key e" | "key e < key d" by fastforce
  then show ?case
  proof cases
    case 1
    then have "rbtree_find_node t (addr (Nd a c l e r)) d = Some a"
      using n c Nd.prems(4) by (subst rbtree_find_node.simps) simp
    then show ?thesis using 1 by (intro disjI2 exI [of _ k]) auto
  next
    case 2
    then have e: "rbtree_find_node t (addr (Nd a c l e r)) d = rbtree_find_node t (addr l) d"
      using n c Nd.prems(4) by (subst rbtree_find_node.simps) simp
    have "\<forall>x \<in> set (data r). key x \<noteq> key d" "key e \<noteq> key d" using 2 s(2) by force+
    moreover have "set (data (Nd a c l e r)) = set (data l) \<union> {e} \<union> set (data r)" by auto
    moreover note Nd.IH(1) [of "Fr Lt a c e r # k", unfolded plug.simps mk.simps, OF Nd.prems]
    ultimately show ?thesis unfolding e by blast
  next
    case 3
    then have e: "rbtree_find_node t (addr (Nd a c l e r)) d = rbtree_find_node t (addr r) d"
      using n c Nd.prems(4) by (subst rbtree_find_node.simps) auto
    have "\<forall>x \<in> set (data l). key x \<noteq> key d" "key e \<noteq> key d" using 3 s(1) by force+
    moreover have "set (data (Nd a c l e r)) = set (data l) \<union> {e} \<union> set (data r)" by auto
    moreover note Nd.IH(2) [of "Fr Rt a c e l # k", unfolded plug.simps mk.simps, OF Nd.prems]
    ultimately show ?thesis unfolding e by blast
  qed
qed

lemma insert_adjust_ok:
  assumes "holds t (plug k (mk s2 z True dz A B)) X" "invh (plug k (mk s2 z True dz A B))"
    "invc (mk s2 z True dz A B)" "kinvc k False" "kroot k"
  obtains t' T' where "rbtree_insert_adjust t z = Some (t', 0)" "rb_cmp t' = rb_cmp t" "holds t' T' X" "invh T'" "invc T'" "\<not> red T'"
    "inord T' = inord (plug k (mk s2 z True dz A B))"
proof -
  obtain t1 T1 where 1: "insert_adjust_loop t z = Some t1" "rb_cmp t1 = rb_cmp t" "holds t1 T1 X" "invh T1" "invc T1" "T1 \<noteq> Tip"
    "inord T1 = inord (plug k (mk s2 z True dz A B))" using insert_adjust_loop_ok [OF assms] by blast
  obtain s a c d l r where T1: "T1 = mk s a c d l r" using mk_Nd [OF 1(6), of Lt] by blast
  have h: "holds t1 (plug [] (mk s a c d l r)) X" using 1(3) T1 by simp
  obtain t2 where t2: "set_color t1 a RBTREE_BLACK = Some t2" "rb_cmp t2 = rb_cmp t1" "holds t2 (plug [] (mk s a False d l r)) X"
    by (rule recolor_black [OF h])
  have "rb_root t1 = a" using 1(3) T1 by (simp add: holds_def)
  then have "rbtree_insert_adjust t z = Some (t2, 0)"
    using 1(1) t2(1) holds_nod [OF assms(1)] by (simp add: rbtree_insert_adjust_def)
  moreover have "inord (mk s a False d l r) = inord T1" by (cases s) (simp_all add: T1)
  ultimately show thesis using that [of t2 "mk s a False d l r"] t2 1 by (simp add: T1)
qed

lemma link_leaf:
  assumes h: "holds t (plug k Tip) X" and k: "k = Fr s p cp dp y # k1" and m: "m \<noteq> NULL" "rb_mem t m = None"
  obtains t' where "upd (t\<lparr>rb_mem := (rb_mem t)(m \<mapsto> \<lparr>n_parent = p, n_left = NULL, n_right = NULL, n_data = d, n_color = RBTREE_RED\<rparr>)\<rparr>) p
      (if s = Lt then (\<lambda>n. n\<lparr>n_left := m\<rparr>) else (\<lambda>n. n\<lparr>n_right := m\<rparr>)) = Some t'"
    "rb_cmp t' = rb_cmp t" "holds t' (plug k (mk Lt m True d Tip Tip)) X"
proof -
  let ?N = "\<lparr>n_parent = p, n_left = NULL, n_right = NULL, n_data = d, n_color = RBTREE_RED\<rparr>"
  have k0: "k \<noteq> []" by (simp add: k)
  obtain n where n: "rb_mem t p = Some n" "p \<noteq> NULL" by (rule holds_top [OF h k0]) (use k that in simp)
  let ?t = "t\<lparr>rb_mem := (rb_mem t)(m \<mapsto> ?N, p \<mapsto> redirect k m n)\<rparr>"
  note hd = holds_distinct [OF h]
  have mfree: "m \<notin> kaddrs k" "m \<notin> X" using m(2) hd(8) by (auto simp: domIff dest: sym)
  have "p \<noteq> m" using n m by auto
  then have e: "upd (t\<lparr>rb_mem := (rb_mem t)(m \<mapsto> ?N)\<rparr>) p (if s = Lt then (\<lambda>n. n\<lparr>n_left := m\<rparr>) else (\<lambda>n. n\<lparr>n_right := m\<rparr>)) = Some ?t"
    using n k by (cases s) (simp_all add: upd_def node_def)
  have "holds ?t (plug k (Nd m True Tip d Tip)) X"
  proof (rule replace_focus [OF h])
    show "rb_mem ?t (top k) = map_option (redirect k (addr (Nd m True Tip d Tip))) (rb_mem t (top k))" using n k by simp
    show "rb_mem ?t q = Some n'" if "(q, n') \<in> nodes (top k) (Nd m True Tip d Tip)" for q n'
      using that \<open>p \<noteq> m\<close> k by (simp add: color_col)
    show "rb_mem ?t q = rb_mem t q" if "q \<in> kaddrs k" "q \<noteq> top k" for q using that mfree k by auto
    show "rb_root ?t = (if k = [] then addr (Nd m True Tip d Tip) else rb_root t)" using k0 by simp
    show "distinct (addrs (plug k (Nd m True Tip d Tip)))" using hd(9) mfree by (auto simp: inord_plug)
    show "NULL \<notin> set (addrs (Nd m True Tip d Tip))" "NULL \<notin> X" using m hd(7) by simp_all
    show "X \<inter> set (addrs (plug k (Nd m True Tip d Tip))) = {}" using hd(6) mfree unfolding addrs_plug by auto
    show "dom (rb_mem ?t) = set (addrs (plug k (Nd m True Tip d Tip))) \<union> X"
      using hd(8) n(1) unfolding addrs_plug by auto
  qed
  then show thesis using that e by simp
qed

lemma rb_treeD:
  assumes "rb_tree key t T"
  shows "holds t T {}" "invh T" "invc T" "\<not> red T" "NULL \<notin> set (data T)" "sorted_wrt (\<lambda>x y. key x < key y) (data T)"
    "cmp_by key (rb_cmp t)" "rb_root t = addr T" "rb_root t = NULL \<longleftrightarrow> T = Tip"
  using assms addr_Tip [of T] by (auto simp: rb_tree_def holds_def)

text \<open>C5: Insertion into a red-black tree: with a fresh node (or a failed allocation) it returns
  and keeps the tree a sorted red-black tree.  A datum with a new key is added and nothing else
  changes in the set; when an equal key is present or the allocation fails, the result is -1 and
  the tree is untouched.\<close>
theorem rbtree_insert_spec:
  assumes "rb_tree key t T" "d \<noteq> NULL" "m = NULL \<or> rb_mem t m = None"
  shows "\<exists>t' T'. rb_tree key t' T' \<and> rbtree_insert (Some t) m d =
      Some (Some t', if m = NULL \<or> (\<exists>x \<in> set (data T). key x = key d) then -1 else 0)
    \<and> (if m = NULL \<or> (\<exists>x \<in> set (data T). key x = key d) then t' = t \<and> T' = T
       else set (data T') = insert d (set (data T)) \<and> set (addrs T') = insert m (set (addrs T)))"
proof -
  note T = rb_treeD [OF assms(1)]
  show ?thesis
  proof (cases "T = Tip")
    case True
    then have root: "rb_root t = NULL" using T(9) by simp
    let ?t = "t\<lparr>rb_root := m, rb_mem := (rb_mem t)(m \<mapsto> \<lparr>n_parent = NULL, n_left = NULL, n_right = NULL, n_data = d, n_color = RBTREE_BLACK\<rparr>)\<rparr>"
    have "rb_tree key ?t (Nd m False Tip d Tip)" if "m \<noteq> NULL"
      using that T(1,7) assms(2) True by (simp add: rb_tree_def holds_def color_col)
    then show ?thesis
      using root True assms(1,2) by (cases "m = NULL") (auto simp: rbtree_insert_def intro!: exI [of _ T] exI [of _ "Nd m False Tip d Tip"])
  next
    case False
    then have root: "rb_root t \<noteq> NULL" using T(9) by simp
    from insert_search_ok [of t "[]" T "{}" key d]
    consider "insert_search t d (rb_root t) NULL = Some None" "\<exists>x \<in> set (data T). key x = key d"
      | k where "insert_search t d (rb_root t) NULL = Some (Some (top k))" "plug k Tip = T" "k \<noteq> []"
        "\<forall>x \<in> snd ` set (kl k). key x < key d" "\<forall>x \<in> snd ` set (kr k). key d < key x"
      using T False by auto
    then show ?thesis
    proof cases
      case 1
      then show ?thesis using root assms(1,2) by (auto simp: rbtree_insert_def intro!: exI [of _ T])
    next
      case 2
      obtain s p cp dp y k1 where k: "k = Fr s p cp dp y # k1" using frames [OF 2(3)] by blast
      have new: "\<not> (\<exists>x \<in> set (data T). key x = key d)"
        using 2(4,5) unfolding 2(2) [symmetric] by (fastforce simp: inord_plug)
      show ?thesis
      proof (cases "m = NULL")
        case True
        then show ?thesis using 2(1) root assms(1,2) new by (auto simp: rbtree_insert_def intro!: exI [of _ T])
      next
        case m: False
        have h: "holds t (plug k Tip) {}" using T(1) 2(2) by simp
        have hp: "holds t (plug k1 (mk s p cp dp Tip y)) {}" using h by (simp add: k)
        have free: "rb_mem t m = None" using assms(3) m by simp
        obtain t1 where t1: "upd (t\<lparr>rb_mem := (rb_mem t)(m \<mapsto> \<lparr>n_parent = p, n_left = NULL, n_right = NULL, n_data = d, n_color = RBTREE_RED\<rparr>)\<rparr>) p
            (if s = Lt then (\<lambda>n. n\<lparr>n_left := m\<rparr>) else (\<lambda>n. n\<lparr>n_right := m\<rparr>)) = Some t1"
          "rb_cmp t1 = rb_cmp t" "holds t1 (plug k (mk Lt m True d Tip Tip)) {}"
          by (rule link_leaf [OF h k m free])
        have inv: "invh (plug k (mk Lt m True d Tip Tip))" "invc (mk Lt m True d Tip Tip)" "kinvc k False" "kroot k"
          using T(2,3,4) invh_plug [of k Tip] invc_plug [of k Tip] red_plug [of k Tip] 2(2,3) by (simp_all add: invh_plug)
        obtain t2 T2 where t2: "rbtree_insert_adjust t1 m = Some (t2, 0)" "rb_cmp t2 = rb_cmp t1" "holds t2 T2 {}" "invh T2" "invc T2"
          "\<not> red T2" "inord T2 = inord (plug k (mk Lt m True d Tip Tip))"
          by (rule insert_adjust_ok [OF t1(3) inv])
        have side: "key d < key dp \<longleftrightarrow> s = Lt" "key d \<noteq> key dp" using 2(4,5) by (cases s; force simp: k)+
        have c: "(rb_cmp t d dp < 0) = (s = Lt)" "rb_cmp t d dp \<noteq> 0" using T(7) side by (simp_all add: cmp_by_def)
        have "p \<noteq> m" using holds_nod [OF hp] free by auto
        then have "fld n_data (t\<lparr>rb_mem := (rb_mem t)(m \<mapsto> \<lparr>n_parent = p, n_left = NULL, n_right = NULL, n_data = d, n_color = RBTREE_RED\<rparr>)\<rparr>) p = Some dp"
          using holds_nod [OF hp] by (simp add: fld_def node_def nod_def)
        then have "rbtree_insert (Some t) m d = Some (Some t2, 0)"
          using 2(1) k root assms(2) m c t1(1) t2(1) by (cases s) (simp_all add: rbtree_insert_def Let_def)
        moreover have "rb_tree key t2 T2"
          using t2 t1(2) T(5,6,7) 2(4,5) assms(2) unfolding 2(2) [symmetric]
          by (auto simp: rb_tree_def inord_plug sorted_wrt_append)
        moreover have "set (data T2) = insert d (set (data T))" "set (addrs T2) = insert m (set (addrs T))"
          unfolding 2(2) [symmetric] t2(7) by (auto simp: inord_plug)
        ultimately show ?thesis using m new by auto
      qed
    qed
  qed
qed

section \<open>Deletion restores the invariants\<close>

lemma delete_case1_ok:
  assumes h: "holds t (plug k (mk s p cp dp Z (mk s w True dw A B))) X"
  obtains t' where "delete_case1 s t p w = Some (t', addr A)" "rb_cmp t' = rb_cmp t"
    "holds t' (plug (Fr s w False dw B # k) (mk s p True dp Z A)) X"
proof -
  have h1: "holds t (plug (Fr (opp s) p cp dp Z # k) (mk s w True dw A B)) X" using h by simp
  obtain t1 where t1: "set_color t w RBTREE_BLACK = Some t1" "rb_cmp t1 = rb_cmp t"
    "holds t1 (plug (Fr (opp s) p cp dp Z # k) (mk s w False dw A B)) X" by (rule recolor_black [OF h1])
  have h2: "holds t1 (plug k (mk s p cp dp Z (mk s w False dw A B))) X" using t1(3) by simp
  obtain t2 where t2: "set_color t1 p RBTREE_RED = Some t2" "rb_cmp t2 = rb_cmp t1"
    "holds t2 (plug k (mk s p True dp Z (mk s w False dw A B))) X" by (rule recolor_red [OF h2])
  obtain t3 where t3: "rot s t2 p = Some t3" "holds t3 (plug k (mk s w False dw (mk s p True dp Z A) B)) X" "rb_cmp t3 = rb_cmp t2"
    by (rule rot_spec [OF t2(3)])
  have h3: "holds t3 (plug (Fr s w False dw B # k) (mk s p True dp Z A)) X" using t3(2) by simp
  have "delete_case1 s t p w = Some (t3, addr A)"
    using t1(1) t2(1) t3(1) holds_fld(3) [OF h3] by (simp add: delete_case1_def)
  then show thesis using that h3 t1(2) t2(2) t3(3) by simp
qed

lemma delete_case3_ok:
  assumes h: "holds t (plug k (mk s p cp dp Z (mk s w False dw (mk s v True dv A B) C))) X"
  obtains t' where "delete_case3 s t p w = Some (t', v)" "rb_cmp t' = rb_cmp t"
    "holds t' (plug k (mk s p cp dp Z (mk s v False dv A (mk s w True dw B C)))) X"
proof -
  let ?k = "Fr (opp s) p cp dp Z # k"
  have h0: "holds t (plug ?k (mk s w False dw (mk s v True dv A B) C)) X"
    "holds t (plug (Fr s w False dw C # ?k) (mk s v True dv A B)) X" using h by simp_all
  obtain t1 where t1: "set_color t v RBTREE_BLACK = Some t1" "rb_cmp t1 = rb_cmp t"
    "holds t1 (plug (Fr s w False dw C # ?k) (mk s v False dv A B)) X" by (rule recolor_black [OF h0(2)])
  have h1: "holds t1 (plug ?k (mk s w False dw (mk s v False dv A B) C)) X" using t1(3) by simp
  obtain t2 where t2: "set_color t1 w RBTREE_RED = Some t2" "rb_cmp t2 = rb_cmp t1"
    "holds t2 (plug ?k (mk s w True dw (mk s v False dv A B) C)) X" by (rule recolor_red [OF h1])
  have h2: "holds t2 (plug ?k (mk (opp s) w True dw C (mk (opp s) v False dv B A))) X" using t2(3) by simp
  obtain t3 where t3: "rot (opp s) t2 w = Some t3" "rb_cmp t3 = rb_cmp t2"
    "holds t3 (plug ?k (mk (opp s) v False dv (mk (opp s) w True dw C B) A)) X" by (rule rot_spec [OF h2])
  have h3: "holds t3 (plug k (mk s p cp dp Z (mk s v False dv A (mk s w True dw B C)))) X" using t3(3) by simp
  have "delete_case3 s t p w = Some (t3, v)"
    using holds_fld(2) [OF h0(1)] t1(1) t2(1) t3(1) holds_fld(3) [OF h3] by (simp add: delete_case3_def)
  then show thesis using that h3 t1(2) t2(2) t3(2) by simp
qed

lemma delete_case4_ok:
  assumes h: "holds t (plug k (mk s p cp dp Z (mk s w cw dw A (mk s f cf df B C)))) X"
  obtains t' where "delete_case4 s t p w = Some t'" "rb_cmp t' = rb_cmp t"
    "holds t' (plug k (mk s w cp dw (mk s p False dp Z A) (mk s f False df B C))) X"
proof -
  let ?F = "\<lambda>c. mk s f c df B C"
  have h0: "holds t (plug (Fr (opp s) p cp dp Z # k) (mk s w cw dw A (?F cf))) X" using h by simp
  obtain t1 where t1: "set_color t w (col cp) = Some t1" "holds t1 (plug (Fr (opp s) p cp dp Z # k) (mk s w cp dw A (?F cf))) X"
    "rb_cmp t1 = rb_cmp t" by (rule recolor [OF h0])
  have h1: "holds t1 (plug k (mk s p cp dp Z (mk s w cp dw A (?F cf)))) X" using t1(2) by simp
  obtain t2 where t2: "set_color t1 p RBTREE_BLACK = Some t2" "rb_cmp t2 = rb_cmp t1"
    "holds t2 (plug k (mk s p False dp Z (mk s w cp dw A (?F cf)))) X" by (rule recolor_black [OF h1])
  have h2: "holds t2 (plug (Fr (opp s) p False dp Z # k) (mk s w cp dw A (?F cf))) X"
    "holds t2 (plug (Fr (opp s) w cp dw A # Fr (opp s) p False dp Z # k) (?F cf)) X" using t2(3) by simp_all
  obtain t3 where t3: "set_color t2 f RBTREE_BLACK = Some t3" "rb_cmp t3 = rb_cmp t2"
    "holds t3 (plug (Fr (opp s) w cp dw A # Fr (opp s) p False dp Z # k) (?F False)) X" by (rule recolor_black [OF h2(2)])
  have h3: "holds t3 (plug k (mk s p False dp Z (mk s w cp dw A (?F False)))) X" using t3(3) by simp
  obtain t4 where t4: "rot s t3 p = Some t4" "rb_cmp t4 = rb_cmp t3"
    "holds t4 (plug k (mk s w cp dw (mk s p False dp Z A) (?F False))) X" by (rule rot_spec [OF h3])
  have "delete_case4 s t p w = Some t4"
    using holds_fld(5) [OF h] t1(1) t2(1) holds_fld(3) [OF h2(1)] t3(1) t4(1) by (simp add: delete_case4_def)
  then show thesis using that t1(3) t2(2) t3(2) t4(2,3) by simp
qed

lemma delete_case234_ok:
  assumes h: "holds t (plug k (mk s p cp dp Z (mk s w False dw A B))) X"
    and inv: "invh Z" "invh A" "invh B" "bh A = bh Z" "bh B = bh Z" "invc Z" "invc A" "invc B" "\<not> red Z"
  shows "(\<exists>t'. delete_case234 s t p w = Some (t', p, top k) \<and> rb_cmp t' = rb_cmp t \<and> \<not> red A \<and> \<not> red B
      \<and> holds t' (plug k (mk s p cp dp Z (mk s w True dw A B))) X) \<or>
    (\<exists>t' T. delete_case234 s t p w = Some (t', rb_root t', p) \<and> rb_cmp t' = rb_cmp t \<and> holds t' (plug k T) X
      \<and> invh T \<and> bh T = bh Z + (if cp then 1 else 2) \<and> invc T \<and> red T = cp
      \<and> inord T = inord (mk s p cp dp Z (mk s w False dw A B)))"
proof -
  let ?W = "\<lambda>c. mk s w c dw A B"
  have hw: "holds t (plug (Fr (opp s) p cp dp Z # k) (?W False)) X" using h by simp
  have hA: "holds t (plug (Fr s w False dw B # Fr (opp s) p cp dp Z # k) A) X" using h by simp
  have hB: "holds t (plug (Fr (opp s) w False dw A # Fr (opp s) p cp dp Z # k) B) X" using h by simp
  note b = focus_color(2) [OF hA] focus_color(2) [OF hB] and f = holds_fld(2,3) [OF hw]
  have e: "delete_case234 s t p w = (if \<not> red A \<and> \<not> red B then do {
       t \<leftarrow> set_color t w RBTREE_RED;
       q \<leftarrow> fld n_parent t p;
       Some (t, p, q) }
     else do {
       (t, w) \<leftarrow> (if \<not> red B then delete_case3 s t p w else Some (t, w));
       t \<leftarrow> delete_case4 s t p w;
       Some (t, rb_root t, p) })"
    using b f by (cases s) (simp_all add: delete_case234_def child_fun)
  consider "\<not> red A" "\<not> red B" | "red B" | "red A" "\<not> red B" by blast
  then show ?thesis
  proof cases
    case 1
    obtain t1 where t1: "set_color t w RBTREE_RED = Some t1" "rb_cmp t1 = rb_cmp t"
      "holds t1 (plug (Fr (opp s) p cp dp Z # k) (?W True)) X" by (rule recolor_red [OF hw])
    have h1: "holds t1 (plug k (mk s p cp dp Z (?W True))) X" using t1(3) by simp
    have "delete_case234 s t p w = Some (t1, p, top k)" using e 1 t1(1) holds_fld(1) [OF h1] by simp
    then show ?thesis using t1(2) h1 1 by (intro disjI1) auto
  next
    case 2
    then obtain s' f df C0 D0 where "B = mk s' f True df C0 D0" using mk_red by blast
    then obtain C D where B: "B = mk s f True df C D" by (cases s; cases s') auto
    obtain t1 where t1: "delete_case4 s t p w = Some t1" "rb_cmp t1 = rb_cmp t"
      "holds t1 (plug k (mk s w cp dw (mk s p False dp Z A) (mk s f False df C D))) X"
      by (rule delete_case4_ok [OF h [unfolded B]])
    let ?T = "mk s w cp dw (mk s p False dp Z A) (mk s f False df C D)"
    have "delete_case234 s t p w = Some (t1, rb_root t1, p)" using e 2 t1(1) by simp
    moreover have "invh ?T \<and> bh ?T = bh Z + (if cp then 1 else 2) \<and> invc ?T \<and> red ?T = cp" using inv by (simp add: B)
    moreover have "inord ?T = inord (mk s p cp dp Z (?W False))" by (cases s) (simp_all add: B)
    ultimately show ?thesis using t1(2,3) by blast
  next
    case 3
    then obtain s' f df C0 D0 where "A = mk s' f True df C0 D0" using mk_red by blast
    then obtain C D where A: "A = mk s f True df C D" by (cases s; cases s') auto
    obtain t1 where t1: "delete_case3 s t p w = Some (t1, f)" "rb_cmp t1 = rb_cmp t"
      "holds t1 (plug k (mk s p cp dp Z (mk s f False df C (mk s w True dw D B)))) X"
      by (rule delete_case3_ok [OF h [unfolded A]])
    obtain t2 where t2: "delete_case4 s t1 p f = Some t2" "rb_cmp t2 = rb_cmp t1"
      "holds t2 (plug k (mk s f cp df (mk s p False dp Z C) (mk s w False dw D B))) X"
      by (rule delete_case4_ok [OF t1(3)])
    let ?T = "mk s f cp df (mk s p False dp Z C) (mk s w False dw D B)"
    have "delete_case234 s t p w = Some (t2, rb_root t2, p)" using e 3 t1(1) t2(1) by simp
    moreover have "invh ?T \<and> bh ?T = bh Z + (if cp then 1 else 2) \<and> invc ?T \<and> red ?T = cp" using inv 3 by (simp add: A)
    moreover have "inord ?T = inord (mk s p cp dp Z (?W False))" by (cases s) (simp_all add: A)
    ultimately show ?thesis using t1(2) t2(2,3) by (intro disjI2 exI [of _ t2] exI [of _ ?T]) simp
  qed
qed

fun blacken :: "rbt \<Rightarrow> rbt" where
  "blacken Tip = Tip"
| "blacken (Nd a c l d r) = Nd a False l d r"

definition deficient :: "rbtree_t \<Rightarrow> frame list \<Rightarrow> rbt \<Rightarrow> ptr set \<Rightarrow> bool" where
  \<comment> \<open>one black node is missing on the paths through the focus\<close>
  "deficient t k Z X \<longleftrightarrow> holds t (plug k Z) X \<and> invh Z \<and> invc (blacken Z) \<and> kinvh k (bh Z + 1) \<and> kinvc k False \<and> kroot k"

lemma blacken_mk [simp]: "blacken (mk s a c d x y) = mk s a False d x y"
  by (cases s) simp_all

lemma blacken_id: "\<not> red Z \<Longrightarrow> blacken Z = Z"
  by (cases Z) auto

lemma invc_blacken: "invc Z \<Longrightarrow> invc (blacken Z)"
  by (cases Z) auto

lemma deficient_stop:
  assumes "deficient t k Z X" "k = [] \<or> red Z"
  shows "delete_adjust_loop t (addr Z) p = Some (t, addr Z)"
proof (cases "k = []")
  case True
  then have "addr Z = rb_root t" using assms(1) by (simp add: deficient_def holds_def)
  then show ?thesis by (subst delete_adjust_loop.simps) simp
next
  case False
  have "is_black t (addr Z) = Some False"
    using focus_color(2) [of t k Z X] assms False by (simp add: deficient_def)
  then show ?thesis by (subst delete_adjust_loop.simps) simp
qed

lemma deficient_done:
  assumes "holds t (plug k T) X" "invh (plug k T)" "invc (plug k T)"
  shows "delete_adjust_loop t (rb_root t) p = Some (t, addr (plug k T)) \<and> deficient t [] (plug k T) X"
proof -
  have d: "deficient t [] (plug k T) X" using assms invc_blacken by (simp add: deficient_def)
  moreover have "rb_root t = addr (plug k T)" using assms(1) by (simp add: holds_def)
  ultimately show ?thesis using deficient_stop [OF d, of p] by simp
qed

lemma delete_step:
  \<comment> \<open>the loop enters the body for the right side\<close>
  assumes h: "holds t (plug (Fr s p cp dp W # k) Z) X" and "W \<noteq> Tip" "\<not> red Z"
  shows "delete_adjust_loop t (addr Z) p = do { (t, x, q) \<leftarrow> delete_case s t p; delete_adjust_loop t x q }"
proof -
  have hp: "holds t (plug k (mk s p cp dp Z W)) X" using h by simp
  have "addr W \<in> kaddrs (Fr s p cp dp W # k)" using addr_in [OF assms(2)] by (cases s) auto
  then have "addr W \<noteq> NULL" using holds_distinct(4) [OF h] by metis
  moreover have "addr Z \<noteq> addr W"
  proof (cases "Z = Tip")
    case False
    show ?thesis by (rule parent_node [OF h _ False]) auto
  qed (use calculation in simp)
  ultimately have W: "addr W \<noteq> NULL" "addr Z \<noteq> addr W" by simp_all
  have root: "addr Z \<noteq> rb_root t"
  proof (rule holds_top [OF h])
    assume "rb_root t \<notin> set (addrs Z)" "rb_root t \<noteq> NULL"
    then show ?thesis using addr_in [of Z] by (cases "Z = Tip") (simp, metis)
  qed simp
  have "is_black t (addr Z) = Some True" using focus_color(2) [OF h] assms(3) by simp
  then show ?thesis
    using W root holds_fld(2,3) [OF hp] by (cases s; subst delete_adjust_loop.simps) (simp_all add: child_fun)
qed

lemma delete_loop_ok:
  assumes "deficient t k Z X"
  shows "\<exists>t' k' Z'. delete_adjust_loop t (addr Z) (top k) = Some (t', addr Z') \<and> rb_cmp t' = rb_cmp t \<and> deficient t' k' Z' X
    \<and> (k' = [] \<or> red Z') \<and> inord (plug k' Z') = inord (plug k Z)"
  using assms
proof (induction k arbitrary: t Z)
  case Nil
  then show ?case using deficient_stop [of t "[]" Z X "top []"] by (intro exI [of _ t] exI [of _ "[]"] exI [of _ Z]) simp
next
  case (Cons f k)
  obtain s p cp dp W where f: "f = Fr s p cp dp W" by (cases f)
  show ?case
  proof (cases "red Z")
    case True
    then show ?thesis using deficient_stop [OF Cons.prems, of "top (f # k)"] Cons.prems by blast
  next
    case False
    have h: "holds t (plug (Fr s p cp dp W # k) Z) X" and inv: "invh Z" "invc Z" "invh W" "bh W = bh Z + 1" "invc W" "cp \<Longrightarrow> \<not> red W"
      and kinv: "kinvh k (bh Z + (if cp then 1 else 2))" "kinvc k cp" "kroot k" "k = [] \<Longrightarrow> \<not> cp"
      using Cons.prems False by (auto simp: deficient_def f blacken_id split: if_splits)
    have "W \<noteq> Tip" using inv(4) by auto
    then obtain w cw dw A B where W: "W = mk s w cw dw A B" using mk_Nd by blast
    have h0: "holds t (plug k (mk s p cp dp Z (mk s w cw dw A B))) X" using h W by simp
    note step = delete_step [OF h \<open>W \<noteq> Tip\<close> False]
    note rd = holds_fld(3) [OF h0] focus_color(1) [of t "Fr (opp s) p cp dp Z # k" W X]
    have w: "fld (\<lambda>n. n_color n = RBTREE_RED) t w = Some cw"
      using holds_fld(6) [of t "Fr (opp s) p cp dp Z # k" s w cw dw A B X RBTREE_RED] h0 by simp
    show ?thesis
    proof (cases cw)
      case black: False
      have body: "delete_case s t p = delete_case234 s t p w" using rd(1) w black by (simp add: delete_case_def)
      have i: "invh A" "invh B" "bh A = bh Z" "bh B = bh Z" "invc A" "invc B" using inv W black by auto
      from delete_case234_ok [OF h0 [unfolded black [THEN eq_False [THEN iffD2]]] inv(1) i(1-4) inv(2) i(5,6) False]
      show ?thesis
      proof (elim disjE exE conjE)
        fix t1
        assume 1: "delete_case234 s t p w = Some (t1, p, top k)" "rb_cmp t1 = rb_cmp t" "\<not> red A" "\<not> red B"
          "holds t1 (plug k (mk s p cp dp Z (mk s w True dw A B))) X"
        let ?Z = "mk s p cp dp Z (mk s w True dw A B)"
        have "deficient t1 k ?Z X"
          using 1 inv i kinv False by (auto simp: deficient_def kinvc_black)
        from Cons.IH [OF this] obtain t' k' Z' where 2: "delete_adjust_loop t1 p (top k) = Some (t', addr Z')" "rb_cmp t' = rb_cmp t1"
          "deficient t' k' Z' X" "k' = [] \<or> red Z'" "inord (plug k' Z') = inord (plug k ?Z)" by auto
        have "inord (plug k ?Z) = inord (plug (f # k) Z)" unfolding f W by (cases s) (simp_all add: inord_plug)
        then show ?thesis using 1 2 step body f by auto
      next
        fix t1 T
        assume 1: "delete_case234 s t p w = Some (t1, rb_root t1, p)" "rb_cmp t1 = rb_cmp t" "holds t1 (plug k T) X"
          "invh T" "bh T = bh Z + (if cp then 1 else 2)" "invc T" "red T = cp" "inord T = inord (mk s p cp dp Z (mk s w False dw A B))"
        have "inord (plug k T) = inord (plug (f # k) Z)" unfolding f W by (cases s) (simp_all add: inord_plug 1(8))
        moreover have "invh (plug k T)" "invc (plug k T)" using 1 kinv by (simp_all add: invh_plug invc_plug)
        ultimately show ?thesis using deficient_done [OF 1(3), of p] 1(1,2) step body f by fastforce
      qed
    next
      case redw: True
      have i: "invh A" "invh B" "bh A = bh Z + 1" "bh B = bh Z + 1" "invc A" "invc B" "\<not> red A" "\<not> red B" "\<not> cp" using inv W redw by auto
      then have "A \<noteq> Tip" by auto
      then obtain a da A1 A2 where A: "A = mk s a False da A1 A2" using mk_Nd [of A s] i(7) by auto
      obtain t1 where t1: "delete_case1 s t p w = Some (t1, addr A)" "rb_cmp t1 = rb_cmp t"
        "holds t1 (plug (Fr s w False dw B # k) (mk s p True dp Z A)) X"
        by (rule delete_case1_ok [OF h0 [unfolded redw [THEN eq_True [THEN iffD2]]]])
      let ?k = "Fr s w False dw B # k"
      have body: "delete_case s t p = delete_case234 s t1 p a" using rd(1) w redw t1(1) by (simp add: delete_case_def A)
      have ia: "invh A1" "invh A2" "bh A1 = bh Z" "bh A2 = bh Z" "invc A1" "invc A2" using i by (auto simp: A)
      from delete_case234_ok [OF t1(3) [unfolded A] inv(1) ia(1-4) inv(2) ia(5,6) False]
      show ?thesis
      proof (elim disjE exE conjE)
        fix t2
        assume 1: "delete_case234 s t1 p a = Some (t2, p, top ?k)" "rb_cmp t2 = rb_cmp t1" "\<not> red A1" "\<not> red A2"
          "holds t2 (plug ?k (mk s p True dp Z (mk s a True da A1 A2))) X"
        let ?Z = "mk s p True dp Z (mk s a True da A1 A2)"
        have d: "deficient t2 ?k ?Z X"
          using 1 inv i ia kinv False by (auto simp: deficient_def kinvc_black)
        have "inord (plug ?k ?Z) = inord (plug (f # k) Z)" unfolding f W A by (cases s) (simp_all add: inord_plug)
        then show ?thesis using deficient_stop [OF d, of "top ?k"] d 1 t1(2) step body f
          by (intro exI [of _ t2] exI [of _ ?k] exI [of _ ?Z]) simp
      next
        fix t2 T
        assume 1: "delete_case234 s t1 p a = Some (t2, rb_root t2, p)" "rb_cmp t2 = rb_cmp t1" "holds t2 (plug ?k T) X"
          "invh T" "bh T = bh Z + (if True then 1 else 2)" "invc T" "red T = True" "inord T = inord (mk s p True dp Z (mk s a False da A1 A2))"
        have "inord (plug ?k T) = inord (plug (f # k) Z)" unfolding f W A by (cases s) (simp_all add: inord_plug 1(8))
        moreover have "invh (plug ?k T)" "invc (plug ?k T)" using 1 kinv i by (simp_all add: invh_plug invc_plug)
        ultimately show ?thesis using deficient_done [OF 1(3), of p] 1(1,2) t1(2) step body f by fastforce
      qed
    qed
  qed
qed

lemma delete_adjust_ok:
  assumes "deficient t k Z X"
  obtains t' T' where "rbtree_delete_adjust t (addr Z) (top k) = Some t'" "rb_cmp t' = rb_cmp t" "holds t' T' X" "invh T'" "invc T'"
    "\<not> red T'" "inord T' = inord (plug k Z)"
proof -
  obtain t1 k1 Z1 where 1: "delete_adjust_loop t (addr Z) (top k) = Some (t1, addr Z1)" "rb_cmp t1 = rb_cmp t" "deficient t1 k1 Z1 X"
    "k1 = [] \<or> red Z1" "inord (plug k1 Z1) = inord (plug k Z)" using delete_loop_ok [OF assms] by blast
  have h: "holds t1 (plug k1 Z1) X" using 1(3) by (simp add: deficient_def)
  show thesis
  proof (cases "Z1 = Tip")
    case True
    then have "k1 = []" using 1(4) by auto
    then show thesis using that [of t1 Tip] 1 h True by (simp add: rbtree_delete_adjust_def)
  next
    case False
    then obtain a c d l r where Z1: "Z1 = mk Lt a c d l r" using mk_Nd by blast
    obtain t2 where t2: "set_color t1 a RBTREE_BLACK = Some t2" "rb_cmp t2 = rb_cmp t1" "holds t2 (plug k1 (mk Lt a False d l r)) X"
      by (rule recolor_black [OF h [unfolded Z1]])
    let ?T = "plug k1 (mk Lt a False d l r)"
    have "a \<noteq> NULL" using holds_nod [OF h [unfolded Z1]] by simp
    then have "rbtree_delete_adjust t (addr Z) (top k) = Some t2" using 1(1) t2(1) by (simp add: rbtree_delete_adjust_def Z1)
    moreover have "invh ?T" "invc ?T" "\<not> red ?T" using 1(3,4) by (auto simp: deficient_def Z1 invh_plug invc_plug red_plug)
    moreover have "inord ?T = inord (plug k Z)" using 1(5) by (simp add: Z1 inord_plug)
    ultimately show thesis using that [of t2 ?T] t2 1(2) by simp
  qed
qed

section \<open>Unlinking and freeing a node\<close>

definition unlinked :: "rbtree_t \<Rightarrow> frame list \<Rightarrow> rbt \<Rightarrow> rbtree_t" where
  \<comment> \<open>the focus is replaced by its child \<open>Z\<close>\<close>
  "unlinked t k Z = t\<lparr>rb_mem := (\<lambda>q. if q = top k then map_option (redirect k (addr Z)) (rb_mem t q)
     else if Z \<noteq> Tip \<and> q = addr Z then map_option (\<lambda>n. n\<lparr>n_parent := top k\<rparr>) (rb_mem t q) else rb_mem t q)\<rparr>"

lemma unlink_ok:
  assumes h: "holds t (plug k (mk s a c d Z Tip)) X" and k: "k \<noteq> []"
  shows "holds (unlinked t k Z) (plug k Z) (insert a X)" and "rb_mem (unlinked t k Z) a = rb_mem t a" and "a \<notin> X"
proof -
  let ?S = "mk s a c d Z Tip"
  note hd = holds_distinct [OF h]
  have aS: "set (addrs ?S) = insert a (set (addrs Z))" by (simp add: addrs_mk)
  have aZ: "a \<notin> set (addrs Z)" "distinct (addrs Z)" using hd(1) by (cases s; simp)+
  have top: "top k \<notin> set (addrs ?S)" "top k \<in> kaddrs k" using top_notin [OF h k] top_plug [OF k] by blast+
  have old: "rb_mem t q = Some n" if "(q, n) \<in> nodes a Z" for q n
    by (rule holds_nodes [OF h]) (use that in \<open>simp add: nodes_mk\<close>)
  have ain: "Z \<noteq> Tip \<Longrightarrow> addr Z \<in> set (addrs Z)" by (rule addr_in)
  show a: "rb_mem (unlinked t k Z) a = rb_mem t a"
  proof -
    have "a \<noteq> top k" "Z \<noteq> Tip \<Longrightarrow> a \<noteq> addr Z" using top(1) aS aZ(1) ain by blast+
    then show ?thesis by (auto simp: unlinked_def)
  qed
  show "a \<notin> X" using hd(5) aS by blast
  show "holds (unlinked t k Z) (plug k Z) (insert a X)"
  proof (rule replace_focus [OF h])
    show "rb_mem (unlinked t k Z) (top k) = map_option (redirect k (addr Z)) (rb_mem t (top k))" by (simp add: unlinked_def)
    fix q
    show "rb_mem (unlinked t k Z) q = Some n" if "(q, n) \<in> nodes (top k) Z" for n
    proof -
      have q: "q \<in> set (addrs Z)" using nodes_addr that by blast
      then have "q \<noteq> top k" using top(1) aS by blast
      moreover have "Z \<noteq> Tip" using that by auto
      ultimately show ?thesis using reparent [OF that aZ(2), of a] old by (auto simp: unlinked_def split: if_splits)
    qed
    show "rb_mem (unlinked t k Z) q = rb_mem t q" if "q \<in> kaddrs k" "q \<noteq> top k"
    proof -
      have "Z \<noteq> Tip \<Longrightarrow> q \<noteq> addr Z" using that(1) hd(3) aS ain by blast
      then show ?thesis using that(2) by (auto simp: unlinked_def)
    qed
  next
    show "rb_root (unlinked t k Z) = (if k = [] then addr Z else rb_root t)" using k by (simp add: unlinked_def)
    have "distinct (addrs (plug k ?S))" using h by (simp add: holds_def)
    then show "distinct (addrs (plug k Z))" by (cases s) (auto simp: inord_plug)
    show "NULL \<notin> set (addrs Z)" "NULL \<notin> insert a X" using hd(2,7) aS by auto
    have "a \<notin> kaddrs k" using hd(3) aS by blast
    then show "insert a X \<inter> set (addrs (plug k Z)) = {}" using hd(5,6) aS aZ(1) unfolding addrs_plug by blast
    have "dom (rb_mem (unlinked t k Z)) = dom (rb_mem t)" by (auto simp: unlinked_def split: if_splits)
    then show "dom (rb_mem (unlinked t k Z)) = set (addrs (plug k Z)) \<union> insert a X" using hd(8) aS unfolding addrs_plug by blast
  qed
qed

lemma release_ok:
  assumes "holds t T (insert a X)" "a \<notin> X"
  obtains t' where "release t a = Some t'" "holds t' T X" "rb_cmp t' = rb_cmp t"
proof -
  have "a \<in> dom (rb_mem t)" "a \<noteq> NULL" "a \<notin> set (addrs T)" using assms by (auto simp: holds_def)
  moreover have "holds (t\<lparr>rb_mem := (rb_mem t)(a := None)\<rparr>) T X"
    using assms calculation(3) nodes_addr [of a _ NULL T] unfolding holds_def by auto
  ultimately show thesis using that by (auto simp: release_def node_def)
qed

lemma unlinked_rebalance:
  assumes h: "holds t (plug k (mk s a c d Z Tip)) X" and k: "k \<noteq> []"
    and inv: "invh (plug k (mk s a c d Z Tip))" "invc (plug k (mk s a c d Z Tip))" "\<not> red (plug k (mk s a c d Z Tip))"
  obtains t' T' where "delete_finish (unlinked t k Z) a (addr Z) (top k) = Some t'"
    "rb_cmp t' = rb_cmp t" "holds t' T' X" "invh T'" "invc T'" "\<not> red T'" "inord T' = inord (plug k Z)"
proof -
  note u = unlink_ok [OF h k]
  have col: "fld n_color (unlinked t k Z) a = Some (col c)" using holds_nod [OF h] u(2) by (simp add: fld_def node_def nod_def)
  have cmp: "rb_cmp (unlinked t k Z) = rb_cmp t" by (simp add: unlinked_def)
  have "invh (mk s a c d Z Tip)" using inv(1) invh_plug by blast
  then have b: "bh (mk s a c d Z Tip) = (if c then 0 else 1)" "invh Z" "bh Z = 0" using inv_mk(3) [of s a c d Z Tip] by auto
  have i: "invh Z" "bh Z = 0" "invc Z" "kinvh k (if c then 0 else 1)" "kinvc k c" "kroot k" "c \<longrightarrow> \<not> red Z"
    using inv k b by (simp_all add: invh_plug invc_plug red_plug)
  show thesis
  proof (cases c)
    case True
    have T: "invh (plug k Z)" "invc (plug k Z)" "\<not> red (plug k Z)"
      using i True k kinvc_black by (auto simp: invh_plug invc_plug red_plug)
    obtain t' where "release (unlinked t k Z) a = Some t'" "holds t' (plug k Z) X" "rb_cmp t' = rb_cmp (unlinked t k Z)"
      by (rule release_ok [OF u(1,3)])
    then show thesis using that [of t' "plug k Z"] T cmp col True by (simp add: delete_finish_def)
  next
    case False
    have "deficient (unlinked t k Z) k Z (insert a X)"
      using u(1) i False invc_blacken by (simp add: deficient_def)
    then obtain t1 T1 where 1: "rbtree_delete_adjust (unlinked t k Z) (addr Z) (top k) = Some t1" "rb_cmp t1 = rb_cmp (unlinked t k Z)"
      "holds t1 T1 (insert a X)" "invh T1" "invc T1" "\<not> red T1" "inord T1 = inord (plug k Z)" by (rule delete_adjust_ok)
    obtain t' where "release t1 a = Some t'" "holds t' T1 X" "rb_cmp t' = rb_cmp t1" by (rule release_ok [OF 1(3) u(3)])
    then show thesis using that [of t' T1] 1 cmp col False by (simp add: delete_finish_def)
  qed
qed

lemma redirect_eq: "redirect (Fr s p cp dp y # k) h = (if s = Lt then (\<lambda>n. n\<lparr>n_left := h\<rparr>) else (\<lambda>n. n\<lparr>n_right := h\<rparr>))"
  by (cases s) (auto simp: fun_eq_iff)

lemma unlinked_Tip:
  assumes "rb_mem t p = Some n" "p \<noteq> NULL"
  shows "upd t p (redirect (Fr s p cp dp y # k) NULL) = Some (unlinked t (Fr s p cp dp y # k) Tip)"
  using assms by (auto simp: upd_def node_def unlinked_def fun_eq_iff)

lemma unlinked_child:
  assumes "rb_mem t p = Some n" "p \<noteq> NULL" "rb_mem t (addr Z) = Some m" "addr Z \<noteq> NULL" "Z \<noteq> Tip" "addr Z \<noteq> p"
  shows "do { t1 \<leftarrow> upd t p (redirect (Fr s p cp dp y # k) (addr Z)); upd t1 (addr Z) (\<lambda>n. n\<lparr>n_parent := p\<rparr>) } =
      Some (unlinked t (Fr s p cp dp y # k) Z)"
    and "do { t1 \<leftarrow> upd t (addr Z) (\<lambda>n. n\<lparr>n_parent := p\<rparr>); upd t1 p (redirect (Fr s p cp dp y # k) (addr Z)) } =
      Some (unlinked t (Fr s p cp dp y # k) Z)"
  using assms by (auto simp: upd_def node_def unlinked_def fun_eq_iff)

definition deletes :: "rbtree_t \<Rightarrow> rbt \<Rightarrow> rbtree_t option \<Rightarrow> ptr list \<Rightarrow> bool" where
  \<comment> \<open>the computation returns a tree with the data \<open>ds\<close> and one node less\<close>
  "deletes t T r ds \<longleftrightarrow> (\<exists>t' T' b. r = Some t' \<and> rb_cmp t' = rb_cmp t \<and> holds t' T' {} \<and> invh T' \<and> invc T' \<and> \<not> red T'
     \<and> data T' = ds \<and> b \<in> set (addrs T) \<and> set (addrs T') = set (addrs T) - {b})"

lemma deletes_cong:
  "deletes t1 T1 r ds \<Longrightarrow> rb_cmp t1 = rb_cmp t \<Longrightarrow> set (addrs T1) = set (addrs T) \<Longrightarrow> deletes t T r ds"
  by (simp only: deletes_def)

definition rb_shape :: "rbtree_t \<Rightarrow> rbt \<Rightarrow> bool" where
  "rb_shape t T \<longleftrightarrow> holds t T {} \<and> invh T \<and> invc T \<and> \<not> red T"

lemma unlinked_deletes:
  assumes "rb_shape t (plug k (mk s a c d Z Tip))" "k \<noteq> []"
  shows "deletes t (plug k (mk s a c d Z Tip)) (delete_finish (unlinked t k Z) a (addr Z) (top k))
    (map snd (kl k) @ data Z @ map snd (kr k))"
proof -
  note h = assms(1) [unfolded rb_shape_def]
  obtain t' T' where "delete_finish (unlinked t k Z) a (addr Z) (top k) = Some t'"
    "rb_cmp t' = rb_cmp t" "holds t' T' {}" "invh T'" "invc T'" "\<not> red T'" "inord T' = inord (plug k Z)"
    by (rule unlinked_rebalance [of t k s a c d Z "{}"]) (use h assms(2) in auto)
  moreover have "set (addrs (plug k Z)) = set (addrs (plug k (mk s a c d Z Tip))) - {a}" "a \<in> set (addrs (plug k (mk s a c d Z Tip)))"
    using holds_distinct(1,3) [of t k "mk s a c d Z Tip" "{}"] h by (cases s; force simp: inord_plug)+
  ultimately show ?thesis unfolding deletes_def
    by (intro exI [of _ t'] exI [of _ T'] exI [of _ a]) (simp add: inord_plug)
qed

lemma delete_leaf_ok:
  assumes "rb_shape t (plug k (Nd a c Tip d Tip))"
  shows "deletes t (plug k (Nd a c Tip d Tip)) (delete_leaf t a) (map snd (kl k) @ map snd (kr k))"
proof (cases "k = []")
  case True
  have h: "holds t (Nd a c Tip d Tip) {}" using assms unfolding rb_shape_def True plug.simps by blast
  have "release t a = Some (t\<lparr>rb_mem := (rb_mem t)(a := None)\<rparr>)" "rb_root t = a"
    using h by (auto simp: holds_def release_def node_def)
  moreover have "holds (t\<lparr>rb_mem := (rb_mem t)(a := None), rb_root := NULL\<rparr>) Tip {}" using h by (auto simp: holds_def)
  ultimately show ?thesis using True unfolding deletes_def
    by (intro exI [of _ "t\<lparr>rb_mem := (rb_mem t)(a := None), rb_root := NULL\<rparr>"] exI [of _ Tip] exI [of _ a]) (simp add: delete_leaf_def)
next
  case False
  obtain s p cp dp y k1 where k: "k = Fr s p cp dp y # k1" using frames [OF False] by blast
  have h: "holds t (plug (Fr s p cp dp y # k1) (mk Lt a c d Tip Tip)) {}" using assms by (simp add: rb_shape_def k)
  note f = holds_focus [OF h]
  obtain n where n: "rb_mem t p = Some n" "p \<noteq> NULL" by (rule holds_top [OF h]) (use that in simp_all)
  have "delete_leaf t a = delete_finish (unlinked t k Tip) a (addr Tip) (top k)"
    using f unlinked_Tip [OF n, of s cp dp y k1] by (cases s) (simp_all add: delete_leaf_def child_fun k redirect_eq)
  then show ?thesis using unlinked_deletes [of t k Lt a c d Tip] assms False by simp
qed

lemma black_Tip: "\<not> red T \<Longrightarrow> bh T = 0 \<Longrightarrow> T = Tip"
  by (cases T) auto

lemma delete_single_ok:
  assumes "rb_shape t (plug k (mk s a c d Z Tip))" "Z \<noteq> Tip"
  shows "deletes t (plug k (mk s a c d Z Tip)) (delete_single t a) (map snd (kl k) @ data Z @ map snd (kr k))"
proof -
  have h: "holds t (plug k (mk s a c d Z Tip)) {}" using assms(1) unfolding rb_shape_def by blast
  have hz: "holds t (plug (Fr s a c d Tip # k) Z) {}" using h by simp
  obtain z cz dz l r where Z: "Z = mk Lt z cz dz l r" using mk_Nd [OF assms(2)] by blast
  have nz: "rb_mem t z = Some \<lparr>n_parent = a, n_left = addr l, n_right = addr r, n_data = dz, n_color = col cz\<rparr>" "z \<noteq> NULL" "a \<noteq> z"
    using holds_nod [OF hz [unfolded Z]] holds_distinct(1) [OF h] by (cases s; auto simp: nod_def Z)+
  have na: "rb_mem t a = Some (nod s (top k) z NULL d c)" "a \<noteq> NULL" using holds_nod [OF h] by (simp_all add: Z)
  have ch: "fld n_left t a = Some (if s = Lt then z else NULL)" "fld n_right t a = Some (if s = Lt then NULL else z)"
    using na by (simp_all add: fld_def node_def nod_def)
  show ?thesis
  proof (cases "k = []")
    case True
    then have root: "a = rb_root t" "\<not> c" "invh Z" "bh Z = 0" "invc Z" using h assms(1) by (auto simp: rb_shape_def holds_def)
    then have cz: "cz" "bh l = 0" "bh r = 0" "invh l" "invh r" "invc l" "invc r" by (auto simp: Z split: if_splits)
    moreover have "\<not> red l" "\<not> red r" using root(5) cz(1) by (auto simp: Z)
    ultimately have lr: "l = Tip" "r = Tip" using black_Tip cz(2,3) by blast+
    let ?n = "\<lparr>n_parent = NULL, n_left = NULL, n_right = NULL, n_data = dz, n_color = RBTREE_BLACK\<rparr>"
    let ?t = "t\<lparr>rb_mem := (rb_mem t)(a \<mapsto> ?n, z := None)\<rparr>"
    have "delete_single t a = Some ?t"
      using na nz root(1) True lr by (cases s) (simp_all add: delete_single_def fld_def upd_def node_def nod_def release_def fun_upd_twist)
    moreover have "dom (rb_mem t) = {a, z}" using h True by (cases s) (auto simp: holds_def Z lr)
    then have "dom (rb_mem ?t) = {a}" using nz(3) by auto
    then have "holds ?t (Nd a False Tip dz Tip) {}" using na nz root(1) by (simp add: holds_def color_col)
    moreover have "set (addrs (plug k (mk s a c d Z Tip))) = {a, z}" using True by (cases s) (auto simp: Z lr)
    ultimately show ?thesis using True nz(3) unfolding deletes_def
      by (intro exI [of _ ?t] exI [of _ "Nd a False Tip dz Tip"] exI [of _ z]) (auto simp: Z lr)
  next
    case False
    obtain s1 p cp dp y k1 where k: "k = Fr s1 p cp dp y # k1" using frames [OF False] by blast
    note f = holds_focus [OF h [unfolded k]]
    obtain n where n: "rb_mem t p = Some n" "p \<noteq> NULL" by (rule holds_top [OF h False]) (use k that in simp)
    have "p \<noteq> z" "p \<noteq> a" using top_notin [OF h False, of z] top_notin [OF h False, of a] by (auto simp: k addrs_mk Z)
    then have pz: "addr Z \<noteq> p" "fld n_left (t\<lparr>rb_mem := (rb_mem t)(z \<mapsto> m)\<rparr>) p = fld n_left t p" for m
      by (auto simp: Z fld_def node_def)
    let ?z = "t\<lparr>rb_mem := (rb_mem t)(z \<mapsto> \<lparr>n_parent = p, n_left = addr l, n_right = addr r, n_data = dz, n_color = col cz\<rparr>)\<rparr>"
    have up: "upd t z (\<lambda>n. n\<lparr>n_parent := p\<rparr>) = Some ?z" using nz by (simp add: upd_def node_def)
    have "do { t1 \<leftarrow> upd t (addr Z) (\<lambda>n. n\<lparr>n_parent := p\<rparr>); upd t1 p (redirect (Fr s1 p cp dp y # k1) (addr Z)) } =
      Some (unlinked t (Fr s1 p cp dp y # k1) Z)" by (rule unlinked_child(2) [OF n _ _ assms(2) pz(1)]) (use nz in \<open>simp_all add: Z\<close>)
    then have u': "upd ?z p (redirect (Fr s1 p cp dp y # k1) z) = Some (unlinked t (Fr s1 p cp dp y # k1) Z)"
      using up by (simp add: Z)
    have "delete_single t a = delete_finish (unlinked t k Z) a (addr Z) (top k)"
      using f ch pz nz up u' unfolding k by (cases s; cases s1) (simp_all add: delete_single_def child_fun redirect_eq Z)
    then show ?thesis using unlinked_deletes [of t k s a c d Z] assms False by simp
  qed
qed

lemma plug_append: "plug (k2 @ k) T = plug k (plug k2 T)"
proof (induction k2 arbitrary: T)
  case (Cons f k2)
  obtain s a c d y where "f = Fr s a c d y" by (cases f)
  then show ?case using Cons by simp
qed simp

lemma kl_append: "kl (k2 @ k) = kl k @ kl k2" and kr_append: "kr (k2 @ k) = kr k2 @ kr k"
proof (induction k2)
  case (Cons f k2)
  obtain s a c d y where f: "f = Fr s a c d y" by (cases f)
  { case 1 then show ?case using Cons f by (cases s) simp_all }
  { case 2 then show ?case using Cons f by (cases s) simp_all }
qed simp_all

lemma min_walk_ok:
  assumes "holds t (plug k (Nd a c l d r)) X"
  shows "\<exists>k2 m cm dm mr. min_walk t a = Some m \<and> Nd a c l d r = plug k2 (Nd m cm Tip dm mr)
    \<and> (k2 = [] \<or> (\<exists>p cp dp y k3. k2 = Fr Lt p cp dp y # k3)) \<and> kl k2 = []"
  using assms
proof (induction l arbitrary: a c d r k)
  case Tip
  have "min_walk t a = Some a" using holds_fld(2) [of t k Lt a c d Tip r X] Tip
    by (subst min_walk.simps) (simp add: child_fun)
  then show ?case by (intro exI [of _ "[]"] exI [of _ a]) auto
next
  case (Nd b cb l1 e l2)
  have "b \<noteq> NULL" using holds_nod [of t "Fr Lt a c d r # k" Lt b cb e l1 l2 X] Nd.prems by simp
  then have w: "min_walk t a = min_walk t b" using holds_fld(2) [of t k Lt a c d "Nd b cb l1 e l2" r X] Nd.prems
    by (subst min_walk.simps) (simp add: child_fun)
  have "holds t (plug (Fr Lt a c d r # k) (Nd b cb l1 e l2)) X" using Nd.prems by simp
  from Nd.IH(1) [OF this] obtain k2 m cm dm mr where 1: "min_walk t b = Some m" "Nd b cb l1 e l2 = plug k2 (Nd m cm Tip dm mr)"
    "k2 = [] \<or> (\<exists>p cp dp y k3. k2 = Fr Lt p cp dp y # k3)" "kl k2 = []" by blast
  have "Nd a c (Nd b cb l1 e l2) d r = plug (k2 @ [Fr Lt a c d r]) (Nd m cm Tip dm mr)" by (simp add: plug_append 1(2) [symmetric])
  moreover have "\<exists>p cp dp y k3. k2 @ [Fr Lt a c d r] = Fr Lt p cp dp y # k3" using 1(3) by auto
  moreover have "kl (k2 @ [Fr Lt a c d r]) = []" using 1(4) by (simp add: kl_append)
  ultimately show ?case using 1(1) w by (intro exI [of _ "k2 @ [Fr Lt a c d r]"]) metis
qed

lemma relabel:
  assumes h: "holds t (plug k (Nd a c l d r)) X"
  shows "upd t a (\<lambda>n. n\<lparr>n_data := e\<rparr>) = Some (t\<lparr>rb_mem := (rb_mem t)(a \<mapsto>
      \<lparr>n_parent = top k, n_left = addr l, n_right = addr r, n_data = e, n_color = col c\<rparr>)\<rparr>)"
    and "holds (t\<lparr>rb_mem := (rb_mem t)(a \<mapsto>
      \<lparr>n_parent = top k, n_left = addr l, n_right = addr r, n_data = e, n_color = col c\<rparr>)\<rparr>) (plug k (Nd a c l e r)) X"
proof -
  let ?n = "\<lparr>n_parent = top k, n_left = addr l, n_right = addr r, n_data = e, n_color = col c\<rparr>"
  let ?t = "t\<lparr>rb_mem := (rb_mem t)(a \<mapsto> ?n)\<rparr>"
  note hd = holds_distinct [OF h]
  have old: "node t a = Some \<lparr>n_parent = top k, n_left = addr l, n_right = addr r, n_data = d, n_color = col c\<rparr>"
    by (rule holds_node [OF h])
  then show "upd t a (\<lambda>n. n\<lparr>n_data := e\<rparr>) = Some ?t" by (simp add: upd_def)
  show "holds ?t (plug k (Nd a c l e r)) X"
  proof (rule replace_focus [OF h])
    fix q n
    assume "(q, n) \<in> nodes (top k) (Nd a c l e r)"
    then have "(q, n) = (a, ?n) \<or> (q, n) \<in> nodes (top k) (Nd a c l d r) \<and> q \<noteq> a"
      using nodes_addr hd(1) by (cases "q = a") (auto; fastforce)+
    then show "rb_mem ?t q = Some n" using holds_nodes [OF h] by auto
  next
    assume "k \<noteq> []"
    then obtain n where "rb_mem t (top k) = Some n" "redirect k (addr (Nd a c l d r)) n = n" "top k \<notin> set (addrs (Nd a c l d r))"
      by (rule holds_top [OF h])
    then show "rb_mem ?t (top k) = map_option (redirect k (addr (Nd a c l e r))) (rb_mem t (top k))" by auto
  next
    show "rb_root ?t = (if k = [] then addr (Nd a c l e r) else rb_root t)" using h by (simp add: holds_def)
  qed (use h hd old in \<open>auto simp: holds_def inord_plug\<close>)
qed

lemma delete_inner_ok:
  assumes "rb_shape t (plug k (Nd a c l d r))" "l \<noteq> Tip" "r \<noteq> Tip"
  shows "deletes t (plug k (Nd a c l d r)) (delete_inner t a) (map snd (kl k) @ data l @ data r @ map snd (kr k))"
proof -
  have h: "holds t (plug k (Nd a c l d r)) {}" using assms(1) unfolding rb_shape_def by blast
  obtain b cb r1 e r2 where r: "r = Nd b cb r1 e r2" using assms(3) by (cases r) auto
  have hr: "holds t (plug (Fr Rt a c d l # k) (Nd b cb r1 e r2)) {}" using h r by simp
  obtain k2 m cm dm mr where w: "min_walk t b = Some m" "r = plug k2 (Nd m cm Tip dm mr)"
    "k2 = [] \<or> (\<exists>p cp dp y k3. k2 = Fr Lt p cp dp y # k3)" "kl k2 = []"
    using min_walk_ok [OF hr] r by blast
  let ?t = "t\<lparr>rb_mem := (rb_mem t)(a \<mapsto> \<lparr>n_parent = top k, n_left = addr l, n_right = addr r, n_data = dm, n_color = col c\<rparr>)\<rparr>"
  let ?T = "plug k (Nd a c l dm r)"
  define k3 where "k3 = k2 @ Fr Rt a c dm l # k"
  have T: "?T = plug k3 (mk Rt m cm dm mr Tip)" by (simp add: k3_def plug_append w(2) [symmetric])
  have T0: "plug k (Nd a c l d r) = plug (k2 @ Fr Rt a c d l # k) (mk Rt m cm dm mr Tip)" by (simp add: plug_append w(2) [symmetric])
  have shape: "rb_shape ?t (plug k3 (mk Rt m cm dm mr Tip))"
    using assms(1) relabel(2) [OF h, of dm] unfolding T [symmetric] rb_shape_def by (simp add: invh_plug invc_plug red_plug split: if_splits) auto
  then have h3: "holds ?t (plug k3 (mk Rt m cm dm mr Tip)) {}" by (simp add: rb_shape_def)
  have k3: "k3 \<noteq> []" by (simp add: k3_def)
  obtain s p cp dp y k4 where k4: "k3 = Fr s p cp dp y # k4" using frames [OF k3] by blast
  note f = holds_focus [OF h3 [unfolded k4]]
  obtain n where n: "rb_mem ?t p = Some n" "p \<noteq> NULL" by (rule holds_top [OF h3 k3]) (use k4 that in simp)
  have nxt: "rbtree_next_node t a = Some m"
    using holds_fld(2) [of t k Rt a c d r l "{}"] h holds_nod [of t k Rt a c d r l "{}"] holds_nod [of t "Fr Rt a c d l # k" Lt b cb e r1 r2 "{}"] hr w(1) r
    by (simp add: rbtree_next_node_def rbtree_min_node_def child_fun)
  have dm: "fld n_data t m = Some dm"
    using holds_fld(4) [of t "k2 @ Fr Rt a c d l # k" Rt m cm dm mr Tip "{}"] h unfolding T0 by simp
  have mr: "fld n_right ?t m = Some (addr mr)" using holds_fld(2) [OF h3] by (simp add: child_fun)
  have "delete_inner t a = delete_finish (unlinked ?t k3 mr) m (addr mr) (top k3)"
  proof (cases "mr = Tip")
    case True
    then show ?thesis
      using nxt dm relabel(1) [OF h, of dm] f mr unlinked_Tip [OF n, of s cp dp y k4] unfolding k4
      by (cases s) (auto simp: delete_inner_def child_fun redirect_eq)
  next
    case False
    then obtain z cz dz z1 z2 where z: "mr = mk Lt z cz dz z1 z2" using mk_Nd by blast
    have hz: "holds ?t (plug (Fr Rt m cm dm Tip # k3) (mk Lt z cz dz z1 z2)) {}" using h3 z by simp
    have "z \<noteq> p" using top_notin [OF h3 k3, of z] by (auto simp: k4 addrs_mk z)
    then have u: "do { t1 \<leftarrow> upd ?t p (redirect (Fr s p cp dp y # k4) (addr mr)); upd t1 (addr mr) (\<lambda>n. n\<lparr>n_parent := p\<rparr>) } =
        Some (unlinked ?t (Fr s p cp dp y # k4) mr)"
      using holds_nod [OF hz] z by (intro unlinked_child(1) [OF n]) auto
    show ?thesis
      using nxt dm relabel(1) [OF h, of dm] f mr u holds_nod [OF hz] unfolding k4
      by (cases s) (auto simp: delete_inner_def child_fun redirect_eq z)
  qed
  moreover have "deletes ?t ?T (delete_finish (unlinked ?t k3 mr) m (addr mr) (top k3)) (map snd (kl k3) @ data mr @ map snd (kr k3))"
    using unlinked_deletes [OF shape k3] T by simp
  moreover have "map snd (kl k3) @ data mr @ map snd (kr k3) = map snd (kl k) @ data l @ data r @ map snd (kr k)"
    using w(4) by (simp add: k3_def kl_append kr_append w(2) inord_plug)
  moreover have "set (addrs ?T) = set (addrs (plug k (Nd a c l d r)))" by (simp add: inord_plug)
  moreover have "rb_cmp ?t = rb_cmp t" by simp
  ultimately show ?thesis using deletes_cong by metis
qed

lemma delete_node_ok:
  assumes "rb_shape t (plug k (Nd a c l d r))"
  shows "deletes t (plug k (Nd a c l d r)) (rbtree_delete_node t a) (map snd (kl k) @ data l @ data r @ map snd (kr k))"
proof -
  have h: "holds t (plug k (Nd a c l d r)) {}" using assms unfolding rb_shape_def by blast
  have n: "fld n_left t a = Some (addr l)" "fld n_right t a = Some (addr r)" "a \<noteq> NULL"
    using holds_node [OF h] by (auto simp: fld_def node_def split: if_splits)
  have hl: "NULL \<notin> set (addrs l)" "NULL \<notin> set (addrs r)" using holds_distinct(2) [OF h] by auto
  note z = addr_Tip [OF hl(1)] addr_Tip [OF hl(2)]
  consider "l = Tip" "r = Tip" | "l \<noteq> Tip" "r \<noteq> Tip" | "l \<noteq> Tip" "r = Tip" | "l = Tip" "r \<noteq> Tip" by blast
  then show ?thesis
  proof cases
    case 1
    then show ?thesis using delete_leaf_ok [of t k a c d] assms n by (simp add: rbtree_delete_node_def)
  next
    case 2
    then show ?thesis using delete_inner_ok [OF assms] n z by (simp add: rbtree_delete_node_def)
  next
    case 3
    then show ?thesis using delete_single_ok [of t k Lt a c d l] assms n z by (simp add: rbtree_delete_node_def)
  next
    case 4
    then show ?thesis using delete_single_ok [of t k Rt a c d r] assms n z by (simp add: rbtree_delete_node_def)
  qed
qed

text \<open>C6: Deletion from a red-black tree returns and keeps the tree a sorted red-black tree: when a
  datum with the key is present it is returned, exactly it leaves the set and exactly one node is
  freed; otherwise the result is null and the tree is untouched.\<close>
theorem rbtree_delete_spec:
  assumes "rb_tree key t T" "d \<noteq> NULL"
  shows "if \<exists>x \<in> set (data T). key x = key d
    then \<exists>t' T' x b. rbtree_delete (Some t) d = Some (Some t', x) \<and> x \<in> set (data T) \<and> key x = key d
      \<and> rb_tree key t' T' \<and> set (data T') = set (data T) - {x} \<and> b \<in> set (addrs T) \<and> set (addrs T') = set (addrs T) - {b}
    else rbtree_delete (Some t) d = Some (Some t, NULL)"
proof (cases "T = Tip")
  case True
  then show ?thesis using rb_treeD(9) [OF assms(1)] assms(2) by (simp add: rbtree_delete_def)
next
  case False
  note T = rb_treeD [OF assms(1)]
  have root: "rb_root t \<noteq> NULL" "rb_root t = addr T" using T(8,9) False by simp_all
  have "(rbtree_find_node t (addr T) d = Some NULL \<and> (\<forall>x \<in> set (data T). key x \<noteq> key d)) \<or>
    (\<exists>k a c l e r. rbtree_find_node t (addr T) d = Some a \<and> plug k (Nd a c l e r) = T \<and> key e = key d \<and> e \<in> set (data T))"
    using find_node_ok [of t "[]" T "{}" key d] T(1,6,7) assms(2) by simp
  then consider "rbtree_find_node t (addr T) d = Some NULL" "\<forall>x \<in> set (data T). key x \<noteq> key d"
    | k a c l e r where "rbtree_find_node t (addr T) d = Some a" "plug k (Nd a c l e r) = T" "key e = key d" "e \<in> set (data T)"
    by blast
  then show ?thesis
  proof cases
    case 1
    then have "rbtree_delete (Some t) d = Some (Some t, NULL)" using root assms(2) by (simp add: rbtree_delete_def)
    then show ?thesis using 1(2) by auto
  next
    case 2
    have shape: "rb_shape t (plug k (Nd a c l e r))" using T unfolding rb_shape_def 2(2) by blast
    have h: "holds t (plug k (Nd a c l e r)) {}" using T(1) 2(2) by simp
    have n: "fld n_data t a = Some e" "a \<noteq> NULL" using holds_node [OF h] by (auto simp: fld_def node_def split: if_splits)
    obtain t' T' b where t': "rbtree_delete_node t a = Some t'" "rb_cmp t' = rb_cmp t" "holds t' T' {}" "invh T'" "invc T'" "\<not> red T'"
      "data T' = map snd (kl k) @ data l @ data r @ map snd (kr k)" "b \<in> set (addrs T)" "set (addrs T') = set (addrs T) - {b}"
      using delete_node_ok [OF shape] unfolding deletes_def 2(2) by blast
    have "rbtree_delete (Some t) d = Some (Some t', e)" using root assms(2) 2(1) n t'(1) by (simp add: rbtree_delete_def)
    moreover have dT: "data T = map snd (kl k) @ data l @ e # data r @ map snd (kr k)" unfolding 2(2) [symmetric] by (simp add: inord_plug)
    have "sorted_wrt (\<lambda>x y. key x < key y) (data T')" using T(6) unfolding t'(7) dT by (auto simp: sorted_wrt_append)
    then have "rb_tree key t' T'" using t' T(5,7) dT unfolding rb_tree_def by auto
    moreover have "e \<notin> set (data T')" using T(6) unfolding t'(7) dT by (auto simp: sorted_wrt_append)
    then have "set (data T') = set (data T) - {e}" unfolding dT t'(7) by auto
    ultimately show ?thesis using 2(3,4) t'(8,9) by auto
  qed
qed

lemma loop_node_ok:
  assumes "holds t (plug k S) X"
  shows "rbtree_loop_node t f (addr S) s = Some (fold f (data S) s)"
  using assms
proof (induction S arbitrary: k s)
  case Tip
  then show ?case by (subst rbtree_loop_node.simps) simp
next
  case (Nd a c l d r)
  have n: "node t a = Some \<lparr>n_parent = top k, n_left = addr l, n_right = addr r, n_data = d, n_color = col c\<rparr>" "a \<noteq> NULL"
    using holds_node [OF Nd.prems] by (auto simp: node_def split: if_splits)
  have hl: "NULL \<notin> set (addrs l)" "NULL \<notin> set (addrs r)" using holds_distinct(2) [OF Nd.prems] by auto
  note z = addr_Tip [OF hl(1)] addr_Tip [OF hl(2)]
  have il: "rbtree_loop_node t f (addr l) s = Some (fold f (data l) s)" for s
    using Nd.IH(1) [of "Fr Lt a c d r # k"] Nd.prems by simp
  have ir: "rbtree_loop_node t f (addr r) s = Some (fold f (data r) s)" for s
    using Nd.IH(2) [of "Fr Rt a c d l # k"] Nd.prems by simp
  show ?case using n z il ir by (subst rbtree_loop_node.simps) (cases "l = Tip"; cases "r = Tip"; simp)
qed

lemma release_step:
  assumes "a \<noteq> NULL" "fld n_left t a = Some l" "(if l \<noteq> NULL then rbtree_release_node t l else Some t) = Some t1"
    "fld n_right t1 a = Some r" "(if r \<noteq> NULL then rbtree_release_node t1 r else Some t1) = Some t2" "release t2 a = Some t3"
  shows "rbtree_release_node t a = Some t3"
  using assms by (subst rbtree_release_node.simps) simp

lemma release_node_ok:
  assumes "\<And>a n. (a, n) \<in> nodes p S \<Longrightarrow> rb_mem t a = Some n" "distinct (addrs S)" "NULL \<notin> set (addrs S)"
  shows "rbtree_release_node t (addr S) = Some (t\<lparr>rb_mem := rb_mem t |` (- set (addrs S))\<rparr>)"
  using assms
proof (induction S arbitrary: t p)
  case Tip
  have "rb_mem t |` (- {}) = rb_mem t" by (simp add: fun_eq_iff restrict_map_def)
  then show ?case by (subst rbtree_release_node.simps) simp
next
  case (Nd a c l d r)
  let ?m = "rb_mem t |` (- set (addrs l))" and ?m2 = "rb_mem t |` (- set (addrs l)) |` (- set (addrs r))"
  have ne: "a \<noteq> NULL" "a \<notin> set (addrs l)" "a \<notin> set (addrs r)" "set (addrs l) \<inter> set (addrs r) = {}"
    "NULL \<notin> set (addrs l)" "NULL \<notin> set (addrs r)" "distinct (addrs l)" "distinct (addrs r)" using Nd.prems(2,3) by auto
  have na: "rb_mem t a = Some \<lparr>n_parent = p, n_left = addr l, n_right = addr r, n_data = d, n_color = col c\<rparr>"
    using Nd.prems(1) by simp
  have l: "rbtree_release_node t (addr l) = Some (t\<lparr>rb_mem := ?m\<rparr>)"
    by (rule Nd.IH(1) [of a]) (use Nd.prems(1) ne in auto)
  have r: "rbtree_release_node (t\<lparr>rb_mem := ?m\<rparr>) (addr r) = Some (t\<lparr>rb_mem := ?m2\<rparr>)"
  proof -
    have "rb_mem (t\<lparr>rb_mem := ?m\<rparr>) b = Some n" if "(b, n) \<in> nodes a r" for b n
    proof -
      have "b \<notin> set (addrs l)" using nodes_addr [OF that] ne(4) by blast
      then show ?thesis using Nd.prems(1) [of b n] that by simp
    qed
    then show ?thesis using Nd.IH(2) [of a "t\<lparr>rb_mem := ?m\<rparr>"] ne by simp
  qed
  have al: "addr l = NULL \<Longrightarrow> ?m = rb_mem t" and ar: "addr r = NULL \<Longrightarrow> ?m2 = ?m"
    using addr_Tip [OF ne(5)] addr_Tip [OF ne(6)] by (auto simp: fun_eq_iff restrict_map_def)
  have m: "?m2(a := None) = rb_mem t |` (- set (addrs (Nd a c l d r)))" by (auto simp: fun_eq_iff restrict_map_def)
  have g: "fld n_left t a = Some (addr l)" "fld n_right (t\<lparr>rb_mem := ?m\<rparr>) a = Some (addr r)"
    "release (t\<lparr>rb_mem := ?m2\<rparr>) a = Some (t\<lparr>rb_mem := ?m2(a := None)\<rparr>)"
    using na ne(1-3) by (simp_all add: fld_def node_def release_def)
  have l': "(if addr l \<noteq> NULL then rbtree_release_node t (addr l) else Some t) = Some (t\<lparr>rb_mem := ?m\<rparr>)"
    using l al by (cases "addr l = NULL") simp_all
  have r': "(if addr r \<noteq> NULL then rbtree_release_node (t\<lparr>rb_mem := ?m\<rparr>) (addr r) else Some (t\<lparr>rb_mem := ?m\<rparr>)) = Some (t\<lparr>rb_mem := ?m2\<rparr>)"
    using r ar by (cases "addr r = NULL") simp_all
  show ?case unfolding m [symmetric] addr.simps by (rule release_step [OF ne(1) g(1) l' g(2) r' g(3)])
qed

text \<open>Search, traversal and release: \<open>rbtree_find\<close> returns the datum with the key asked for, or
  null when there is none; \<open>rbtree_loop\<close> calls the function on every datum once, in ascending order
  of the keys; releasing the tree frees every node (and none twice).\<close>
lemma rbtree_find_loop_release:
  assumes "rb_tree key t T" "d \<noteq> NULL"
  shows "(\<exists>x. rbtree_find (Some t) d = Some x \<and>
      (if \<exists>y \<in> set (data T). key y = key d then x \<in> set (data T) \<and> key x = key d else x = NULL))
    \<and> rbtree_loop (Some t) f s = Some (fold f (data T) s) \<and> sorted_wrt (\<lambda>x y. key x < key y) (data T)
    \<and> rbtree_release (Some t) = Some (\<lambda>p. None)"
proof -
  note T = rb_treeD [OF assms(1)]
  have h: "holds t (plug [] T) {}" using T(1) by simp
  have "\<exists>x. rbtree_find (Some t) d = Some x \<and>
      (if \<exists>y \<in> set (data T). key y = key d then x \<in> set (data T) \<and> key x = key d else x = NULL)"
  proof (cases "T = Tip")
    case False
    have "(rbtree_find_node t (addr T) d = Some NULL \<and> (\<forall>x \<in> set (data T). key x \<noteq> key d)) \<or>
      (\<exists>k a c l e r. rbtree_find_node t (addr T) d = Some a \<and> plug k (Nd a c l e r) = T \<and> key e = key d \<and> e \<in> set (data T))"
      using find_node_ok [of t "[]" T "{}" key d] T(1,6,7) assms(2) by simp
    then consider "rbtree_find_node t (addr T) d = Some NULL" "\<forall>x \<in> set (data T). key x \<noteq> key d"
      | k a c l e r where "rbtree_find_node t (addr T) d = Some a" "plug k (Nd a c l e r) = T" "key e = key d" "e \<in> set (data T)"
      by blast
    then show ?thesis
    proof cases
      case 1
      then show ?thesis using T(8,9) False assms(2) by (auto simp: rbtree_find_def)
    next
      case 2
      have hk: "holds t (plug k (Nd a c l e r)) {}" using T(1) 2(2) by simp
      have "fld n_data t a = Some e" "a \<noteq> NULL" using holds_node [OF hk] by (auto simp: fld_def node_def split: if_splits)
      then have "rbtree_find (Some t) d = Some e" using 2(1) T(8,9) False assms(2) by (simp add: rbtree_find_def)
      then show ?thesis using 2(3,4) by auto
    qed
  qed (use T(9) in \<open>simp add: rbtree_find_def\<close>)
  moreover have "rbtree_loop (Some t) f s = Some (fold f (data T) s)"
    using loop_node_ok [OF h, of f s] T(8,9) by (auto simp: rbtree_loop_def)
  moreover have "rbtree_release (Some t) = Some (\<lambda>p. None)"
  proof -
    have "rbtree_release_node t (addr T) = Some (t\<lparr>rb_mem := rb_mem t |` (- set (addrs T))\<rparr>)"
      by (rule release_node_ok [of NULL]) (use T(1) in \<open>auto simp: holds_def\<close>)
    moreover have "dom (rb_mem t) = set (addrs T)" using T(1) by (simp add: holds_def)
    then have "rb_mem t |` (- set (addrs T)) = (\<lambda>p. None)" by (auto simp: fun_eq_iff restrict_map_def domIff)
    ultimately show ?thesis using T(8,9) T(1) by (auto simp: rbtree_release_def holds_def)
  qed
  ultimately show ?thesis using T(6) by blast
qed

definition num_cmp :: "ptr \<Rightarrow> ptr \<Rightarrow> int" where
  "num_cmp x y = int x - int y"

definition two_nodes :: rbtree_t where
  \<comment> \<open>the datum 5 in a black root at 1 with the datum 7 in a red right child at 2\<close>
  "two_nodes = \<lparr>rb_root = 1, rb_cmp = num_cmp, rb_mem = [
     1 \<mapsto> \<lparr>n_parent = 0, n_left = 0, n_right = 2, n_data = 5, n_color = RBTREE_BLACK\<rparr>,
     2 \<mapsto> \<lparr>n_parent = 1, n_left = 0, n_right = 0, n_data = 7, n_color = RBTREE_RED\<rparr>]\<rparr>"

lemma two_nodes_tree: "rb_tree (\<lambda>x. x) two_nodes (Nd 1 False Tip 5 (Nd 2 True Tip 7 Tip))"
proof -
  have "cmp_by (\<lambda>x. x) num_cmp" by (auto simp: cmp_by_def num_cmp_def)
  then show ?thesis by (auto simp: rb_tree_def holds_def two_nodes_def color_col)
qed

theorem rbtree_insert_spec_witness:
  "\<exists>t T. rb_tree (\<lambda>x. x) t T \<and> rbtree_insert (Some two_nodes) 3 9 = Some (Some t, 0) \<and> set (data T) = {5, 7, 9}"
proof -
  have "rb_mem two_nodes 3 = None" by (simp add: two_nodes_def)
  then show ?thesis using rbtree_insert_spec [OF two_nodes_tree, of 9 3] by auto
qed

theorem rbtree_delete_spec_witness:
  "\<exists>t T. rb_tree (\<lambda>x. x) t T \<and> rbtree_delete (Some two_nodes) 5 = Some (Some t, 5) \<and> set (data T) = {7}"
  using rbtree_delete_spec [OF two_nodes_tree, of 5] by auto

lemma rbtree_find_loop_release_witness:
  "rbtree_find (Some two_nodes) 7 = Some 7 \<and> rbtree_find (Some two_nodes) 6 = Some NULL
     \<and> rbtree_loop (Some two_nodes) (#) [] = Some [7, 5] \<and> rbtree_release (Some two_nodes) = Some (\<lambda>p. None)"
  using rbtree_find_loop_release [OF two_nodes_tree, of 7 "(#)" "[]"] rbtree_find_loop_release [OF two_nodes_tree, of 6 "(#)" "[]"]
  by auto

end
