(* ===== verification/Base_Rbuffer.thy ===== *)
theory Base_Rbuffer
  imports Prelude
begin

text \<open>
  \<^verbatim>\<open>base/rbuffer.c\<close>: the ring buffer of length-prefixed messages behind the message bus.  The
  size is a power of two; \<open>read_pos\<close> and \<open>write_pos\<close> are free-running 32-bit counters whose
  difference is the number of bytes in use and whose low bits are offsets.  The code copies in
  up to four pieces around the end of the buffer; \<open>ring_put\<close> and \<open>ring_get\<close> are the
  circular accesses these pieces amount to.  The byte image of a length is little endian, as
  on the platforms the repository names for its buses.
\<close>

section \<open>State and operations\<close>

record rbuffer_t =
  r_size :: u32
  r_read :: u32
  r_write :: u32
  r_mem :: "u8 list"

definition ILOG2 :: "nat \<Rightarrow> nat" where
  \<comment> \<open>the highest of the 64 tested bits that is set, 0 for no bit\<close>
  "ILOG2 n = (case find (\<lambda>k. bit n k) (rev [0..<64]) of None \<Rightarrow> 0 | Some k \<Rightarrow> k)"

definition ROUNDUP_u32 :: "u32 \<Rightarrow> u32 option" where
  \<comment> \<open>a shift of an \<^verbatim>\<open>int\<close> by 32 is undefined; bit 31 is the one the supported compilers set\<close>
  "ROUNDUP_u32 n = (if n = 1 then Some 1
     else let k = ILOG2 (unat (n - 1)) + 1 in if k < 32 then Some (push_bit k 1) else None)"

definition ROUNDDOWN_u32 :: "u32 \<Rightarrow> u32" where
  "ROUNDDOWN_u32 n = push_bit (ILOG2 (unat n)) 1"

definition rbuffer_create :: "(nat \<Rightarrow> u8 list option) \<Rightarrow> u32 \<Rightarrow> rbuffer_t option option" where
  "rbuffer_create malloc sz = do {
     sz \<leftarrow> (if sz AND (sz - 1) \<noteq> 0 then ROUNDUP_u32 sz else Some sz);
     Some (case malloc (unat sz) of None \<Rightarrow> None
       | Some m \<Rightarrow> Some \<lparr>r_size = sz, r_read = 0, r_write = 0, r_mem = m\<rparr>) }"

definition rbuffer_head_size :: nat where
  \<comment> \<open>three 32-bit fields before the flexible array member\<close>
  "rbuffer_head_size = 12"

definition rbuffer_attach :: "u8 list option \<Rightarrow> rbuffer_t option" where
  \<comment> \<open>the block's first \<open>rbuffer_head_size\<close> bytes hold the fields; what follows the rounded-down
     size is never used\<close>
  "rbuffer_attach mem = (case mem of None \<Rightarrow> None
     | Some m \<Rightarrow>
       if length m < rbuffer_head_size then None
       else let sz0 = word_of_nat (length m - rbuffer_head_size) :: u32;
                sz = (if sz0 AND (sz0 - 1) \<noteq> 0 then ROUNDDOWN_u32 sz0 else sz0) in
         if sz = 0 then None
         else Some \<lparr>r_size = sz, r_read = 0, r_write = 0, r_mem = take (unat sz) (drop rbuffer_head_size m)\<rparr>)"

definition rbuffer_size :: "rbuffer_t option \<Rightarrow> u32" where
  "rbuffer_size r = (case r of None \<Rightarrow> 0 | Some r \<Rightarrow> r_size r)"

definition rbuffer_read_bytes :: "rbuffer_t \<Rightarrow> u32" where
  "rbuffer_read_bytes r =
     (if r_write r - r_read r \<ge> 4 then r_write r - r_read r - 4 else 0)"

definition rbuffer_write_bytes :: "rbuffer_t \<Rightarrow> u32" where
  "rbuffer_write_bytes r =
     (if r_write r - r_read r \<ge> r_size r - 4 then 0
      else r_size r - 4 - (r_write r - r_read r))"

definition rbuffer_peek :: "rbuffer_t option \<Rightarrow> bool \<Rightarrow> nat option \<Rightarrow> (u8 list \<times> nat option \<times> int) option" where
  \<comment> \<open>\<open>buf\<close>: the destination is not \<open>NULL\<close>; \<open>buf_size\<close>: its capacity, updated to the bytes read\<close>
  "rbuffer_peek r buf buf_size =
     (case (r, buf_size) of
        (Some r, Some cap) \<Rightarrow>
          if \<not> buf then Some ([], buf_size, -1)
          else if rbuffer_read_bytes r = 0 then Some ([], buf_size, -1)
          else do {
            let rpos = unat (r_read r AND (r_size r - 1));
            let read_to_tail = unat (r_size r - (r_read r AND (r_size r - 1)));
            let least = 4;
            let read_to_tail_least = (if read_to_tail < least then read_to_tail else least);
            l1 \<leftarrow> rd_n (r_mem r) rpos read_to_tail_least;
            l2 \<leftarrow> (if read_to_tail_least < least then rd_n (r_mem r) 0 (least - read_to_tail_least) else Some []);
            let read_len = of_le32 (l1 @ l2);
            if read_len > r_size r - 4 \<or> unat read_len > cap then Some ([], buf_size, -1)
            else do {
              bytes \<leftarrow> (if read_to_tail_least < least
                then rd_n (r_mem r) (least - read_to_tail_least) (unat read_len)
                else do {
                  let read_to_tail = read_to_tail - least;
                  let read_to_tail_bytes = (if unat read_len < read_to_tail then unat read_len else read_to_tail);
                  d1 \<leftarrow> rd_n (r_mem r) (unat ((r_read r + 4) AND (r_size r - 1))) read_to_tail_bytes;
                  d2 \<leftarrow> (if read_to_tail_bytes < unat read_len
                    then rd_n (r_mem r) 0 (unat read_len - read_to_tail_bytes) else Some []);
                  Some (d1 @ d2) });
              Some (bytes, Some (unat read_len), 0) } }
      | _ \<Rightarrow> Some ([], buf_size, -1))"

definition rbuffer_read ::
  "rbuffer_t option \<Rightarrow> bool \<Rightarrow> nat option \<Rightarrow> (rbuffer_t option \<times> u8 list \<times> nat option \<times> int) option" where
  "rbuffer_read r buf buf_size = do {
     (bytes, sz, ret) \<leftarrow> rbuffer_peek r buf buf_size;
     if ret = 0 then do {
       r' \<leftarrow> r;
       n \<leftarrow> sz;
       Some (Some (r'\<lparr>r_read := r_read r' + word_of_nat (4 + n)\<rparr>), bytes, sz, ret) }
     else Some (r, bytes, sz, ret) }"

definition rbuffer_write :: "rbuffer_t option \<Rightarrow> u8 list option \<Rightarrow> (rbuffer_t option \<times> int) option" where
  \<comment> \<open>\<open>buf\<close>: \<open>None\<close> is \<open>NULL\<close>, else the \<open>buf_size\<close> bytes to send\<close>
  "rbuffer_write r buf =
     (case (r, buf) of
        (Some r, Some bs) \<Rightarrow>
          if length bs = 0 then Some (Some r, 0)
          else if unat (rbuffer_write_bytes r) < length bs then Some (Some r, -1)
          else do {
            let len_size = 4;
            let nwrites = word_of_nat (length bs + len_size);
            let lenb = le32 (word_of_nat (length bs));
            let wpos = unat (r_write r AND (r_size r - 1));
            let write_to_tail = unat (r_size r - (r_write r AND (r_size r - 1)));
            let min_len_size = (if len_size < write_to_tail then len_size else write_to_tail);
            m1 \<leftarrow> blit (r_mem r) wpos (take min_len_size lenb);
            m2 \<leftarrow> (if min_len_size < len_size then blit m1 0 (drop min_len_size lenb) else Some m1);
            m4 \<leftarrow> (if write_to_tail > len_size then do {
                let write_to_tail = write_to_tail - len_size;
                let write_to_tail_bytes = (if length bs < write_to_tail then length bs else write_to_tail);
                m3 \<leftarrow> blit m2 (unat ((r_write r + 4) AND (r_size r - 1))) (take write_to_tail_bytes bs);
                if write_to_tail_bytes < length bs then blit m3 0 (drop write_to_tail_bytes bs) else Some m3 }
              else blit m2 (len_size - min_len_size) bs);
            Some (Some (r\<lparr>r_mem := m4, r_write := r_write r + nwrites\<rparr>), 0) }
      | _ \<Rightarrow> Some (r, -1))"

section \<open>Circular accesses\<close>

definition ring_get :: "u8 list \<Rightarrow> nat \<Rightarrow> nat \<Rightarrow> u8 list" where
  "ring_get m p n = map (\<lambda>i. m ! ((p + i) mod length m)) [0..<n]"

definition ring_off :: "u8 list \<Rightarrow> nat \<Rightarrow> nat \<Rightarrow> nat" where
  \<comment> \<open>how far offset \<open>j\<close> is ahead of position \<open>p\<close>\<close>
  "ring_off m p j = (j + length m - p mod length m) mod length m"

definition ring_put :: "u8 list \<Rightarrow> nat \<Rightarrow> u8 list \<Rightarrow> u8 list" where
  "ring_put m p bs = map (\<lambda>j. if ring_off m p j < length bs then bs ! ring_off m p j else m ! j) [0..<length m]"

lemma length_ring_put [simp]: "length (ring_put m p bs) = length m"
  by (simp add: ring_put_def)

lemma length_ring_get [simp]: "length (ring_get m p n) = n"
  by (simp add: ring_get_def)

lemma ring_off_cases:
  assumes "j < length m"
  shows "ring_off m p j = (if p mod length m \<le> j then j - p mod length m else j + length m - p mod length m)"
proof -
  define q n where "q = p mod length m" and "n = length m"
  have q: "q < n" "j < n" using assms by (auto simp: q_def n_def intro: mod_less_divisor)
  have "(j + n - q) mod n = (if q \<le> j then j - q else j + n - q)"
  proof (cases "q \<le> j")
    case True
    then have "j + n - q = n + (j - q)" by simp
    then have "(j + n - q) mod n = (j - q) mod n" by simp
    then show ?thesis using True q by simp
  qed (use q in simp)
  then show ?thesis by (simp only: ring_off_def q_def n_def)
qed

lemma ring_off_at:
  assumes "i < length m"
  shows "ring_off m p ((p + i) mod length m) = i"
proof -
  define q r n where "q = p mod length m" and "r = (p + i) mod length m" and "n = length m"
  have q: "q < n" "i < n" "r < length m" using assms by (auto simp: q_def n_def r_def intro: mod_less_divisor)
  have r: "r = (if q + i < n then q + i else q + i - n)"
    using rot_mod [OF assms, of p] by (simp only: q_def r_def n_def)
  have "ring_off m p r = (if q \<le> r then r - q else r + n - q)"
    using ring_off_cases [OF q(3), of p] by (simp only: q_def n_def)
  also have "\<dots> = i" using r q by (auto split: if_splits)
  finally show ?thesis by (simp only: r_def)
qed

lemma ring_at_off:
  assumes "j < length m"
  shows "(p + ring_off m p j) mod length m = j" and "ring_off m p j < length m"
proof -
  define q where "q = p mod length m"
  have q: "q < length m" using assms by (auto simp: q_def intro: mod_less_divisor)
  have o: "ring_off m p j = (if q \<le> j then j - q else j + length m - q)"
    using ring_off_cases [OF assms] by (simp add: q_def)
  show lt: "ring_off m p j < length m" using o q assms by auto
  show "(p + ring_off m p j) mod length m = j"
    unfolding rot_mod [OF lt] q_def [symmetric] using o q assms by auto
qed

lemma nth_ring_put:
  "j < length m \<Longrightarrow> ring_put m p bs ! j = (if ring_off m p j < length bs then bs ! ring_off m p j else m ! j)"
  by (simp add: ring_put_def)

lemma ring_off_len: "length m = length m' \<Longrightarrow> ring_off m p j = ring_off m' p j"
  by (simp add: ring_off_def)

lemma ring_put_mod: "ring_put m (p mod length m) bs = ring_put m p bs"
  by (simp add: ring_put_def ring_off_def)

lemma ring_put_Nil [simp]: "ring_put m p [] = m"
  by (rule nth_equalityI) (auto simp: nth_ring_put)

lemma ring_get_mod: "ring_get m (p mod length m) n = ring_get m p n"
  by (simp add: ring_get_def mod_simps)

lemma ring_get_put:
  assumes "length bs \<le> length m"
  shows "ring_get (ring_put m p bs) p (length bs) = bs"
proof (rule nth_equalityI)
  fix i
  assume "i < length (ring_get (ring_put m p bs) p (length bs))"
  then have i: "i < length bs" "i < length m" using assms by auto
  then have "(p + i) mod length m < length m" by (intro mod_less_divisor) linarith
  then show "ring_get (ring_put m p bs) p (length bs) ! i = bs ! i"
    using i by (simp add: ring_get_def nth_ring_put ring_off_at)
qed simp

lemma ring_get_put_before:
  assumes "a + length bs \<le> length m"
  shows "ring_get (ring_put m (p + a) bs) p a = ring_get m p a"
proof (rule nth_equalityI)
  fix i
  assume "i < length (ring_get (ring_put m (p + a) bs) p a)"
  then have i: "i < a" by simp
  show "ring_get (ring_put m (p + a) bs) p a ! i = ring_get m p a ! i"
  proof (cases "length bs = 0")
    case True
    then show ?thesis by simp
  next
    case False
    then have im: "i < length m" using i assms by linarith
    have "(p + i) mod length m = ((p + a) + (length m + i - a)) mod length m"
    proof -
      have "p + a + (length m + i - a) = (p + i) + length m" using i assms by linarith
      then show ?thesis by (simp only: mod_add_self2)
    qed
    moreover have "length m + i - a < length m" using i assms False by linarith
    ultimately have "ring_off m (p + a) ((p + i) mod length m) = length m + i - a"
      by (simp only: ring_off_at)
    moreover have "(p + i) mod length m < length m" using im by (intro mod_less_divisor) linarith
    moreover have "\<not> length m + i - a < length bs" using i assms by linarith
    ultimately show ?thesis using i by (simp add: ring_get_def nth_ring_put)
  qed
qed simp

lemma ring_get_add: "ring_get m p (a + b) = ring_get m p a @ ring_get m (p + a) b"
proof -
  have "[0..<a + b] = [0..<a] @ map (\<lambda>i. i + a) [0..<b]"
    using upt_add_eq_append [of 0 a b] map_add_upt [of a b] by (simp add: add.commute)
  then show ?thesis by (simp add: ring_get_def ac_simps)
qed

lemma ring_put_append:
  assumes "length as + length bs \<le> length m"
  shows "ring_put (ring_put m p as) (p + length as) bs = ring_put m p (as @ bs)"
proof (rule nth_equalityI)
  fix j
  assume "j < length (ring_put (ring_put m p as) (p + length as) bs)"
  then have j: "j < length m" by simp
  let ?d = "ring_off m p j" and ?e = "ring_off m (p + length as) j"
  have d: "?d < length m" "(p + ?d) mod length m = j" using ring_at_off [OF j] by auto
  have e: "?e = (if length as \<le> ?d then ?d - length as else ?d + length m - length as)"
  proof (cases "length as \<le> ?d")
    case True
    then have "(p + length as + (?d - length as)) mod length m = j" using d(2) by simp
    then show ?thesis using ring_off_at [of "?d - length as" m "p + length as"] d(1) True by simp
  next
    case False
    then have "p + length as + (?d + length m - length as) = (p + ?d) + length m" using assms by linarith
    then have "(p + length as + (?d + length m - length as)) mod length m = j" by (simp only: mod_add_self2 d(2))
    moreover have "?d + length m - length as < length m" using False d(1) by linarith
    ultimately show ?thesis using ring_off_at [of "?d + length m - length as" m "p + length as"] False by simp
  qed
  show "ring_put (ring_put m p as) (p + length as) bs ! j = ring_put m p (as @ bs) ! j"
    using j d(1) e assms
    by (auto simp: nth_ring_put nth_append ring_off_len [of "ring_put m p as" m])
qed simp

text \<open>A copy that does not run over the end is a circular access.\<close>

lemma blit_ring_put:
  assumes "p mod length m + length bs \<le> length m" "0 < length m"
  shows "blit m (p mod length m) bs = Some (ring_put m p bs)"
proof -
  have q: "p mod length m < length m" using assms by simp
  have "take (p mod length m) m @ bs @ drop (p mod length m + length bs) m = ring_put m p bs"
  proof (rule nth_equalityI)
    fix j
    assume "j < length (take (p mod length m) m @ bs @ drop (p mod length m + length bs) m)"
    then have j: "j < length m" using assms by simp
    then show "(take (p mod length m) m @ bs @ drop (p mod length m + length bs) m) ! j = ring_put m p bs ! j"
    proof -
      define q where "q = p mod length m"
      have q: "q < length m" "q + length bs \<le> length m" using assms by (simp_all add: q_def)
      have o: "ring_off m p j = (if q \<le> j then j - q else j + length m - q)"
        using ring_off_cases [OF j, of p] by (simp only: q_def)
      have "(take q m @ bs @ drop (q + length bs) m) ! j = (if q \<le> j \<and> j < q + length bs then bs ! (j - q) else m ! j)"
        by (rule nth_blit [OF q(2) j])
      then show ?thesis using o j q unfolding q_def [symmetric] nth_ring_put [OF j] by auto
    qed
  qed (use assms in simp)
  with assms show ?thesis by (simp add: blit_def)
qed

lemma rd_n_ring_get:
  assumes "p mod length m + n \<le> length m" "0 < length m"
  shows "rd_n m (p mod length m) n = Some (ring_get m p n)"
proof -
  have "take n (drop (p mod length m) m) = ring_get m p n"
  proof (rule nth_equalityI)
    fix i
    assume "i < length (take n (drop (p mod length m) m))"
    then have i: "i < n" "i < length m" using assms by auto
    then have "(p + i) mod length m = p mod length m + i" using rot_mod [OF i(2), of p] assms by simp
    then show "take n (drop (p mod length m) m) ! i = ring_get m p n ! i"
      using i assms by (simp add: ring_get_def)
  qed (use assms in simp)
  with assms show ?thesis by (simp add: rd_n_def)
qed

text \<open>The two-piece copies of the code, around the end of the buffer.\<close>

lemma ring_blit2:
  assumes "length xs \<le> length m" "0 < length m" "a = min (length xs) (length m - p mod length m)"
  obtains m1 where "blit m (p mod length m) (take a xs) = Some m1"
    and "(if a < length xs then blit m1 0 (drop a xs) else Some m1) = Some (ring_put m p xs)"
proof -
  let ?n = "length m"
  have q: "p mod ?n < ?n" using assms(2) by simp
  have la: "length (take a xs) = a" using assms(3) by simp
  have "a \<le> ?n - p mod ?n" unfolding assms(3) by (rule min.cobounded2)
  then have "p mod ?n + a \<le> ?n" using q by linarith
  then have b1: "blit m (p mod ?n) (take a xs) = Some (ring_put m p (take a xs))" (is "_ = Some ?m1")
    using assms(2) la by (intro blit_ring_put) (simp only:, simp)
  have "(if a < length xs then blit ?m1 0 (drop a xs) else Some ?m1) = Some (ring_put m p xs)"
  proof (cases "a < length xs")
    case True
    then have a: "a = ?n - p mod ?n" using assms(3) by auto
    have z: "(p + a) mod length ?m1 = 0"
    proof -
      have "p mod ?n + a = ?n" using a q by simp
      then have "(p mod ?n + a) mod ?n = 0" by simp
      then show ?thesis by (simp add: mod_add_left_eq)
    qed
    have "blit ?m1 ((p + a) mod length ?m1) (drop a xs) = Some (ring_put ?m1 (p + a) (drop a xs))"
    proof (rule blit_ring_put)
      show "(p + a) mod length ?m1 + length (drop a xs) \<le> length ?m1"
        unfolding z using assms(1) by simp
    qed (use assms(2) in simp)
    moreover have "ring_put ?m1 (p + a) (drop a xs) = ring_put m p xs"
      using ring_put_append [of "take a xs" "drop a xs" m p] assms(1) la by simp
    ultimately show ?thesis using True z by simp
  next
    case False
    then have "a = length xs" using assms(3) by simp
    then show ?thesis by simp
  qed
  with b1 show thesis by (rule that)
qed

lemma ring_rd2:
  assumes "l \<le> length m" "0 < length m" "a = min l (length m - p mod length m)"
  obtains d1 d2 where "rd_n m (p mod length m) a = Some d1"
    and "(if a < l then rd_n m 0 (l - a) else Some []) = Some d2" and "d1 @ d2 = ring_get m p l"
proof -
  let ?n = "length m"
  have q: "p mod ?n < ?n" using assms(2) by simp
  have "a \<le> ?n - p mod ?n" unfolding assms(3) by (rule min.cobounded2)
  then have "p mod ?n + a \<le> ?n" using q by linarith
  then have r1: "rd_n m (p mod ?n) a = Some (ring_get m p a)"
    using assms(2) by (intro rd_n_ring_get)
  show thesis
  proof (cases "a < l")
    case True
    then have a: "a = ?n - p mod ?n" using assms(3) by auto
    have z: "(p + a) mod ?n = 0"
    proof -
      have "p mod ?n + a = ?n" using a q by simp
      then have "(p mod ?n + a) mod ?n = 0" by simp
      then show ?thesis by (simp add: mod_add_left_eq)
    qed
    have "rd_n m ((p + a) mod ?n) (l - a) = Some (ring_get m (p + a) (l - a))"
      using assms z by (intro rd_n_ring_get) auto
    then have "(if a < l then rd_n m 0 (l - a) else Some []) = Some (ring_get m (p + a) (l - a))"
      using True z by simp
    then show thesis using that [OF r1] True ring_get_add [of m p a "l - a"] by simp
  next
    case False
    then have "a = l" using assms(3) by simp
    then show thesis using that [OF r1, of "[]"] by simp
  qed
qed

section \<open>The messages it holds\<close>

definition rb_inv :: "rbuffer_t \<Rightarrow> bool" where
  "rb_inv r \<longleftrightarrow> (\<exists>k. 2 \<le> k \<and> k < 32 \<and> r_size r = 2 ^ k) \<and> length (r_mem r) = unat (r_size r)"

definition rb_used :: "rbuffer_t \<Rightarrow> nat" where
  "rb_used r = unat (r_write r - r_read r)"

definition rb_bytes :: "rbuffer_t \<Rightarrow> u8 list" where
  "rb_bytes r = ring_get (r_mem r) (unat (r_read r)) (rb_used r)"

definition rb_enc :: "u8 list \<Rightarrow> u8 list" where
  "rb_enc m = le32 (word_of_nat (length m)) @ m"

definition rb_holds :: "rbuffer_t \<Rightarrow> u8 list list \<Rightarrow> bool" where
  "rb_holds r msgs \<longleftrightarrow> rb_inv r \<and> rb_used r \<le> unat (r_size r) \<and> rb_bytes r = concat (map rb_enc msgs)
     \<and> (\<forall>m \<in> set msgs. m \<noteq> [])"

lemma length_rb_enc [simp]: "length (rb_enc m) = 4 + length m"
  by (simp add: rb_enc_def)

lemma unat_u32_power:
  assumes "k < 32"
  shows "unat (2 ^ k :: u32) = 2 ^ k"
proof -
  have "(2 ^ k :: u32) = word_of_nat (2 ^ k)" by simp
  then have "unat (2 ^ k :: u32) = take_bit 32 (2 ^ k)" by (simp only: unsigned_of_nat) simp
  also have "(2::nat) ^ k < 2 ^ 32" by (rule power_strict_increasing) (use assms in auto)
  then have "take_bit 32 (2 ^ k :: nat) = 2 ^ k" by (simp only: take_bit_nat_eq_self_iff)
  finally show ?thesis .
qed

lemma rb_inv_size:
  assumes "rb_inv r"
  obtains k where "2 \<le> k" "k < 32" "r_size r = 2 ^ k" "unat (r_size r) = 2 ^ k" "length (r_mem r) = 2 ^ k"
proof -
  obtain k where k: "2 \<le> k" "k < 32" "r_size r = 2 ^ k" "length (r_mem r) = unat (r_size r)"
    using assms by (auto simp: rb_inv_def)
  then have "unat (r_size r) = 2 ^ k" by (simp add: unat_u32_power)
  with k that show thesis by simp
qed

lemma pow_bounds:
  assumes "2 \<le> k" "k < 32"
  shows "(4::nat) \<le> 2 ^ k" and "(2::nat) ^ k < 2 ^ 32"
proof -
  have "(2::nat) ^ 2 \<le> 2 ^ k" by (rule power_increasing) (use assms in auto)
  then show "(4::nat) \<le> 2 ^ k" by simp
  show "(2::nat) ^ k < 2 ^ 32" by (rule power_strict_increasing) (use assms in auto)
qed

lemma unat_mask:
  assumes "rb_inv r"
  shows "unat (p AND (r_size r - 1)) = unat p mod length (r_mem r)"
proof -
  obtain k where k: "2 \<le> k" "k < 32" "r_size r = 2 ^ k" "length (r_mem r) = 2 ^ k"
    using rb_inv_size [OF assms] by metis
  have "p AND (r_size r - 1) = take_bit k p" by (simp add: k take_bit_eq_mask mask_eq_exp_minus_1)
  then have "unat (p AND (r_size r - 1)) = take_bit k (unat p)" by (simp only: unsigned_take_bit_eq)
  then show ?thesis by (simp only: k take_bit_eq_mod)
qed

lemma unat_to_tail:
  assumes "rb_inv r"
  shows "unat (r_size r - (p AND (r_size r - 1))) = length (r_mem r) - unat p mod length (r_mem r)"
proof -
  obtain k where k: "unat (r_size r) = 2 ^ k" "length (r_mem r) = 2 ^ k" using rb_inv_size [OF assms] by metis
  have "unat (p AND (r_size r - 1)) \<le> unat (r_size r)"
    using unat_mask [OF assms, of p] k by (simp add: less_imp_le)
  then show ?thesis using unat_mask [OF assms, of p] k by (simp add: unat_sub_if_size)
qed

lemma unat_add_mod:
  fixes p :: u32
  assumes "rb_inv r"
  shows "unat (p + word_of_nat n) mod length (r_mem r) = (unat p + n) mod length (r_mem r)"
proof -
  obtain k where k: "k < 32" "length (r_mem r) = 2 ^ k" using rb_inv_size [OF assms] by metis
  have "(2::nat) ^ k dvd 2 ^ 32" by (rule le_imp_power_dvd) (use k in simp)
  then have "((unat p + n) mod 2 ^ 32) mod 2 ^ k = (unat p + n) mod 2 ^ k" by (rule mod_mod_cancel)
  moreover have "unat (p + word_of_nat n) = (unat p + n) mod 2 ^ 32"
    by (simp add: unat_word_ariths unsigned_of_nat take_bit_eq_mod mod_simps)
  ultimately show ?thesis by (simp only: k)
qed

lemma rb_read_used:
  assumes "rb_inv r"
  shows "(unat (r_read r) + rb_used r) mod length (r_mem r) = unat (r_write r) mod length (r_mem r)"
  using unat_add_mod [OF assms, of "r_read r" "rb_used r"] by (simp add: rb_used_def)

lemma mod_wrap4:
  fixes p :: nat
  assumes "4 \<le> n" "n - p mod n \<le> 4"
  shows "(p + 4) mod n = 4 - (n - p mod n)"
proof -
  define q where "q = p mod n"
  have q: "q < n" "n - q \<le> 4" using assms by (auto simp: q_def)
  show ?thesis
  proof (cases "n = 4")
    case True
    then have "(p + 4) mod n = q" by (simp add: q_def)
    also have "q = 4 - (n - q)" using True q by linarith
    finally show ?thesis by (simp only: q_def)
  next
    case False
    have "(p + 4) mod n = (if q + 4 < n then q + 4 else q + 4 - n)"
      unfolding q_def by (rule rot_mod) (use False assms in linarith)
    also have "\<dots> = q + 4 - n" using q by (intro if_not_P) linarith
    also have "\<dots> = 4 - (n - q)" using q by linarith
    finally show ?thesis by (simp only: q_def)
  qed
qed

section \<open>Writing\<close>

lemma rbuffer_write_bytes_unat:
  assumes "rb_inv r"
  shows "unat (rbuffer_write_bytes r) = unat (r_size r) - 4 - rb_used r"
proof -
  obtain k where k: "2 \<le> k" "k < 32" "unat (r_size r) = 2 ^ k" using rb_inv_size [OF assms] by metis
  have "4 \<le> unat (r_size r)" using k pow_bounds(1) by metis
  then have "unat (r_size r - 4) = unat (r_size r) - 4"
    by (simp add: unat_sub word_le_nat_alt)
  then show ?thesis
    by (simp add: rbuffer_write_bytes_def rb_used_def word_le_nat_alt unat_sub)
qed

lemma rbuffer_write_exec:
  assumes "rb_inv r" "bs \<noteq> []" "rb_used r + 4 + length bs \<le> unat (r_size r)"
  shows "rbuffer_write (Some r) (Some bs) =
    Some (Some (r\<lparr>r_mem := ring_put (r_mem r) (unat (r_write r)) (rb_enc bs),
                  r_write := r_write r + word_of_nat (length bs + 4)\<rparr>), 0)"
proof -
  define m n p where "m = r_mem r" and "n = length m" and "p = unat (r_write r)"
  define L where "L = le32 (word_of_nat (length bs))"
  have L: "length L = 4" by (simp add: L_def)
  obtain k where k: "2 \<le> k" "k < 32" "unat (r_size r) = 2 ^ k" "n = 2 ^ k"
    using rb_inv_size [OF assms(1)] by (metis m_def n_def)
  have n4: "4 \<le> n" using k pow_bounds(1) by metis
  have fit: "4 + length bs \<le> n" using assms(3) k by linarith
  define q where "q = p mod n"
  have q: "q < n" using n4 by (simp add: q_def)
  have wpos: "unat (r_write r AND (r_size r - 1)) = q"
    using unat_mask [OF assms(1), of "r_write r"] by (simp add: q_def p_def n_def m_def)
  have tail: "unat (r_size r - (r_write r AND (r_size r - 1))) = n - q"
    using unat_to_tail [OF assms(1), of "r_write r"] by (simp only: q_def p_def n_def m_def)
  have pos4: "unat ((r_write r + 4) AND (r_size r - 1)) = (p + 4) mod n"
    using unat_mask [OF assms(1), of "r_write r + 4"] unat_add_mod [OF assms(1), of "r_write r" 4]
    by (simp add: p_def n_def m_def)
  define a where "a = min 4 (n - q)"
  obtain m1 where m1: "blit m q (take a L) = Some m1"
    "(if a < 4 then blit m1 0 (drop a L) else Some m1) = Some (ring_put m p L)"
    using ring_blit2 [of L m a p] L n4 q_def a_def n_def by (metis (no_types, lifting) order.strict_trans2 zero_less_numeral)
  define m2 where "m2 = ring_put m p L"
  have len2: "length m2 = n" by (simp add: m2_def n_def)
  have put2: "ring_put m2 (p + 4) bs = ring_put m p (rb_enc bs)"
    using ring_put_append [of L bs m p] L fit by (simp add: m2_def rb_enc_def L_def n_def)
  have data: "(if n - q > 4 then do {
        m3 \<leftarrow> blit m2 ((p + 4) mod n) (take (min (length bs) (n - q - 4)) bs);
        if min (length bs) (n - q - 4) < length bs then blit m3 0 (drop (min (length bs) (n - q - 4)) bs) else Some m3 }
      else blit m2 (4 - a) bs) = Some (ring_put m2 (p + 4) bs)"
  proof (cases "n - q > 4")
    case True
    have e: "(p + 4) mod n = q + 4"
    proof -
      have "4 < n" using True by linarith
      then show ?thesis using rot_mod [of 4 n p] True by (simp add: q_def)
    qed
    have "min (length bs) (n - q - 4) = min (length bs) (length m2 - (p + 4) mod length m2)"
      unfolding len2 e by simp
    then obtain m3 where
      "blit m2 ((p + 4) mod length m2) (take (min (length bs) (n - q - 4)) bs) = Some m3"
      "(if min (length bs) (n - q - 4) < length bs then blit m3 0 (drop (min (length bs) (n - q - 4)) bs) else Some m3)
        = Some (ring_put m2 (p + 4) bs)"
      using ring_blit2 [of bs m2 "min (length bs) (n - q - 4)" "p + 4"] fit len2 n4 by auto
    then show ?thesis using True by (simp add: len2)
  next
    case False
    then have a: "a = n - q" by (simp add: a_def)
    have e: "(p + 4) mod n = 4 - a"
      using mod_wrap4 [OF n4, of p] a a_def by (simp add: q_def)
    have "blit m2 ((p + 4) mod length m2) bs = Some (ring_put m2 (p + 4) bs)"
    proof (rule blit_ring_put)
      show "(p + 4) mod length m2 + length bs \<le> length m2"
        unfolding len2 e using fit by linarith
    qed (use len2 n4 in linarith)
    then show ?thesis using False by (simp add: len2 e)
  qed
  have g: "\<not> unat (rbuffer_write_bytes r) < length bs"
    using rbuffer_write_bytes_unat [OF assms(1)] assms(3) by linarith
  have mins: "(if (4::nat) < n - q then 4 else n - q) = a"
    "(if length bs < n - q - 4 then length bs else n - q - 4) = min (length bs) (n - q - 4)"
    by (simp_all add: a_def)
  show ?thesis
    unfolding rbuffer_write_def option.case prod.case Let_def wpos tail pos4 mins L_def [symmetric] m_def [symmetric]
    using assms(2) g m1 data put2 by (simp add: m2_def [symmetric] p_def [symmetric])
qed

lemma rbuffer_write_full:
  assumes "rb_inv r" "bs \<noteq> []" "unat (r_size r) < rb_used r + 4 + length bs"
  shows "rbuffer_write (Some r) (Some bs) = Some (Some r, -1)"
proof -
  have "unat (rbuffer_write_bytes r) < length bs"
    using rbuffer_write_bytes_unat [OF assms(1)] assms(2,3) by (cases bs) auto
  then show ?thesis using assms(2) by (simp add: rbuffer_write_def)
qed

lemma rb_write_holds:
  assumes "rb_holds r ms" "bs \<noteq> []" "rb_used r + 4 + length bs \<le> unat (r_size r)"
  shows "rb_holds (r\<lparr>r_mem := ring_put (r_mem r) (unat (r_write r)) (rb_enc bs),
                     r_write := r_write r + word_of_nat (length bs + 4)\<rparr>) (ms @ [bs])" (is "rb_holds ?r _")
proof -
  have inv: "rb_inv r" and byt: "rb_bytes r = concat (map rb_enc ms)" and ne: "\<forall>m \<in> set ms. m \<noteq> []"
    using assms(1) by (auto simp: rb_holds_def)
  define m p n where "m = r_mem r" and "p = unat (r_read r)" and "n = rb_used r"
  obtain k where k: "k < 32" "unat (r_size r) = 2 ^ k" "length m = 2 ^ k"
    using rb_inv_size [OF inv] by (metis m_def)
  have fit: "n + length (rb_enc bs) \<le> length m" using assms(3) k by (simp add: n_def)
  have used: "rb_used ?r = n + (4 + length bs)"
  proof -
    have lt: "n + (4 + length bs) < 2 ^ 32" using fit k pow_bounds(2) [of k]
      by (metis add.commute le_less_trans length_rb_enc linorder_not_le power_strict_increasing one_less_numeral_iff semiring_norm(76) order.strict_trans1)
    have "word_of_nat n = r_write r - r_read r" by (simp add: n_def rb_used_def)
    then have "r_write r + word_of_nat (length bs + 4) - r_read r = word_of_nat (n + (4 + length bs))"
      by (simp only: of_nat_add) simp
    moreover have "unat (word_of_nat (n + (4 + length bs)) :: u32) = n + (4 + length bs)"
      using lt by (simp only: unsigned_of_nat) (simp add: take_bit_nat_eq_self)
    ultimately show ?thesis unfolding rb_used_def by (simp del: of_nat_add)
  qed
  have put: "ring_put m (unat (r_write r)) (rb_enc bs) = ring_put m (p + n) (rb_enc bs)"
    using rb_read_used [OF inv] ring_put_mod [of m "unat (r_write r)"] ring_put_mod [of m "p + n"]
    by (simp add: m_def p_def n_def)
  have "rb_bytes ?r = ring_get (ring_put m (p + n) (rb_enc bs)) p (n + length (rb_enc bs))"
    using used put by (simp add: rb_bytes_def m_def p_def)
  also have "\<dots> = ring_get m p n @ rb_enc bs"
    using ring_get_add [of _ p n] ring_get_put_before [OF fit] ring_get_put [of "rb_enc bs" m "p + n"] fit by simp
  finally have "rb_bytes ?r = concat (map rb_enc (ms @ [bs]))"
    using byt by (simp add: rb_bytes_def m_def p_def n_def)
  moreover have "rb_inv ?r" using inv by (simp add: rb_inv_def)
  ultimately show ?thesis using used assms(2,3) ne by (auto simp: rb_holds_def n_def)
qed

section \<open>Reading\<close>

lemma rb_used_encs:
  assumes "rb_holds r ms"
  shows "rb_used r = sum_list (map (\<lambda>m. 4 + length m) ms)"
proof -
  have "rb_used r = length (concat (map rb_enc ms))"
    using assms by (metis rb_bytes_def rb_holds_def length_ring_get)
  then show ?thesis by (simp add: length_concat comp_def)
qed

lemma rbuffer_read_bytes_unat: "unat (rbuffer_read_bytes r) = rb_used r - 4"
  by (simp add: rbuffer_read_bytes_def rb_used_def word_le_nat_alt unat_sub)

lemma rbuffer_peek_empty:
  assumes "rb_holds r []"
  shows "rbuffer_peek (Some r) True (Some cap) = Some ([], Some cap, -1)"
proof -
  have "unat (rbuffer_read_bytes r) = 0"
    using rb_used_encs [OF assms] by (simp add: rbuffer_read_bytes_unat)
  then show ?thesis by (simp add: rbuffer_peek_def unat_eq_zero)
qed

lemma ring_get_prefix:
  assumes "ring_get m p n = xs @ ys"
  shows "ring_get m p (length xs) = xs"
proof -
  have "n = length xs + length ys" using assms by (metis length_append length_ring_get)
  then show ?thesis using assms ring_get_add [of m p "length xs" "length ys"]
    by (metis append_eq_append_conv length_ring_get)
qed

lemma rbuffer_peek_exec:
  assumes "rb_holds r (x # xs)"
  shows "rbuffer_peek (Some r) True (Some cap) =
    (if length x \<le> cap then Some (x, Some (length x), 0) else Some ([], Some cap, -1))"
proof -
  have inv: "rb_inv r" and used: "rb_used r \<le> unat (r_size r)" and x: "x \<noteq> []"
    and byt: "rb_bytes r = rb_enc x @ concat (map rb_enc xs)"
    using assms by (auto simp: rb_holds_def)
  define m n p where "m = r_mem r" and "n = length m" and "p = unat (r_read r)"
  define L where "L = le32 (word_of_nat (length x))"
  have L: "length L = 4" by (simp add: L_def)
  obtain k where k: "2 \<le> k" "k < 32" "unat (r_size r) = 2 ^ k" "n = 2 ^ k"
    using rb_inv_size [OF inv] by (metis m_def n_def)
  have n4: "4 \<le> n" and n32: "n < 2 ^ 32" using k pow_bounds by metis+
  have fit: "4 + length x \<le> n"
    using rb_used_encs [OF assms] used k by simp
  have "ring_get m p (length (rb_enc x)) = rb_enc x"
    by (rule ring_get_prefix) (use byt in \<open>simp only: rb_bytes_def m_def p_def\<close>)
  then have "ring_get m p (4 + length x) = L @ x" by (simp add: rb_enc_def L_def)
  then have gL: "ring_get m p 4 = L" and gx: "ring_get m (p + 4) (length x) = x"
    using ring_get_add [of m p 4 "length x"] L by auto
  define q where "q = p mod n"
  have q: "q < n" using n4 by (simp add: q_def)
  have rpos: "unat (r_read r AND (r_size r - 1)) = q"
    using unat_mask [OF inv, of "r_read r"] by (simp add: q_def p_def n_def m_def)
  have tail: "unat (r_size r - (r_read r AND (r_size r - 1))) = n - q"
    using unat_to_tail [OF inv, of "r_read r"] by (simp only: q_def p_def n_def m_def)
  have pos4: "unat ((r_read r + 4) AND (r_size r - 1)) = (p + 4) mod n"
    using unat_mask [OF inv, of "r_read r + 4"] unat_add_mod [OF inv, of "r_read r" 4]
    by (simp add: p_def n_def m_def)
  define a where "a = min 4 (n - q)"
  obtain l1 l2 where l: "rd_n m q a = Some l1" "(if a < 4 then rd_n m 0 (4 - a) else Some []) = Some l2"
    "l1 @ l2 = L"
    using ring_rd2 [of 4 m a p] n4 q_def a_def n_def gL by (metis order.strict_trans2 zero_less_numeral)
  have len: "unat (of_le32 L) = length x"
    using fit n32 by (simp add: L_def unsigned_of_nat take_bit_nat_eq_self)
  have okl: "\<not> of_le32 L > r_size r - 4"
  proof -
    have "unat (r_size r - 4) = n - 4" using k n4 by (simp add: unat_sub word_le_nat_alt)
    then show ?thesis using len fit by (simp add: word_less_nat_alt)
  qed
  have data: "(if a < 4 then rd_n m (4 - a) (length x)
      else do {
        d1 \<leftarrow> rd_n m ((p + 4) mod n) (min (length x) (n - q - 4));
        d2 \<leftarrow> (if min (length x) (n - q - 4) < length x then rd_n m 0 (length x - min (length x) (n - q - 4)) else Some []);
        Some (d1 @ d2) }) = Some x"
  proof (cases "a < 4")
    case True
    then have a: "a = n - q" by (simp add: a_def)
    have e: "(p + 4) mod n = 4 - a"
      using mod_wrap4 [OF n4, of p] a a_def by (simp add: q_def)
    have "rd_n m ((p + 4) mod length m) (length x) = Some (ring_get m (p + 4) (length x))"
    proof (rule rd_n_ring_get)
      show "(p + 4) mod length m + length x \<le> length m"
        unfolding n_def [symmetric] e using fit by linarith
    qed (use n_def n4 in linarith)
    then show ?thesis using True gx by (simp add: n_def [symmetric] e)
  next
    case False
    have e: "min (length x) (n - q - 4) = min (length x) (length m - (p + 4) mod length m) \<or> n - q = 4"
    proof (cases "n - q = 4")
      case False
      then have "4 < n" "q + 4 < n" using \<open>\<not> a < 4\<close> by (auto simp: a_def)
      then have "(p + 4) mod n = q + 4" using rot_mod [of 4 n p] by (simp only: q_def) simp
      then show ?thesis by (simp add: n_def [symmetric])
    qed simp
    show ?thesis
    proof (cases "n - q = 4")
      case True
      have "(p + 4) mod n = 0"
        using mod_wrap4 [OF n4, of p] True by (simp add: q_def)
      moreover have "rd_n m ((p + 4) mod length m) (length x) = Some (ring_get m (p + 4) (length x))"
      proof (rule rd_n_ring_get)
        show "(p + 4) mod length m + length x \<le> length m"
          unfolding n_def [symmetric] calculation using fit by linarith
      qed (use n_def n4 in linarith)
      moreover have "rd_n m 0 0 = Some []" by (simp add: rd_n_def)
      ultimately show ?thesis using False True gx x by (simp add: n_def [symmetric])
    next
      case nq: False
      with e have e: "min (length x) (n - q - 4) = min (length x) (length m - (p + 4) mod length m)" by simp
      obtain d1 d2 where
        "rd_n m ((p + 4) mod length m) (min (length x) (n - q - 4)) = Some d1"
        "(if min (length x) (n - q - 4) < length x then rd_n m 0 (length x - min (length x) (n - q - 4)) else Some []) = Some d2"
        "d1 @ d2 = ring_get m (p + 4) (length x)"
        using ring_rd2 [OF _ _ e] fit n4 n_def by (metis (no_types, lifting) add_leE order.strict_trans2 zero_less_numeral)
      then show ?thesis using False gx by (simp add: n_def [symmetric])
    qed
  qed
  have g: "rbuffer_read_bytes r \<noteq> 0"
  proof -
    have "unat (rbuffer_read_bytes r) \<noteq> 0"
      using rb_used_encs [OF assms] x by (simp add: rbuffer_read_bytes_unat)
    then show ?thesis by auto
  qed
  have mins: "(if n - q < (4::nat) then n - q else 4) = a"
    "(if length x < n - q - 4 then length x else n - q - 4) = min (length x) (n - q - 4)"
    by (simp_all add: a_def)
  show ?thesis
    unfolding rbuffer_peek_def option.case prod.case Let_def rpos tail pos4 mins(1) m_def [symmetric]
      l(1,2) Option.bind_lunit l(3) len mins(2) data
    using g okl by simp
qed

lemma rb_read_holds:
  assumes "rb_holds r (x # xs)"
  shows "rb_holds (r\<lparr>r_read := r_read r + word_of_nat (4 + length x)\<rparr>) xs" (is "rb_holds ?r _")
proof -
  have inv: "rb_inv r" and used: "rb_used r \<le> unat (r_size r)" and ne: "\<forall>y \<in> set xs. y \<noteq> []"
    and byt: "ring_get (r_mem r) (unat (r_read r)) (rb_used r) = rb_enc x @ concat (map rb_enc xs)"
    using assms by (auto simp: rb_holds_def rb_bytes_def)
  define u where "u = rb_used r - (4 + length x)"
  have u: "rb_used r = (4 + length x) + u" using rb_used_encs [OF assms] by (simp add: u_def)
  have used': "rb_used ?r = u"
  proof -
    have "word_of_nat (rb_used r) = r_write r - r_read r" by (simp add: rb_used_def)
    then have "r_write r - (r_read r + word_of_nat (4 + length x)) = word_of_nat u"
      unfolding u of_nat_add by (simp add: algebra_simps)
    moreover have "rb_used r < 2 ^ 32" unfolding rb_used_def by (rule order.strict_trans2 [OF unsigned_less]) simp
    then have "u < 2 ^ 32" using u by linarith
    ultimately show ?thesis unfolding rb_used_def by (simp del: of_nat_add add: unsigned_of_nat take_bit_nat_eq_self)
  qed
  have "ring_get (r_mem r) (unat (r_read r) + (4 + length x)) u = concat (map rb_enc xs)"
    using byt ring_get_add [of "r_mem r" "unat (r_read r)" "4 + length x" u] u by simp
  moreover have "ring_get (r_mem r) (unat (r_read ?r)) u = ring_get (r_mem r) (unat (r_read r) + (4 + length x)) u"
    using unat_add_mod [OF inv, of "r_read r" "4 + length x"]
      ring_get_mod [of "r_mem r" "unat (r_read ?r)" u] ring_get_mod [of "r_mem r" "unat (r_read r) + (4 + length x)" u]
    by (simp del: of_nat_add)
  moreover have "rb_bytes ?r = ring_get (r_mem r) (unat (r_read ?r)) u"
    unfolding rb_bytes_def used' by simp
  ultimately have "rb_bytes ?r = concat (map rb_enc xs)" by simp
  moreover have "rb_inv ?r" using inv by (simp add: rb_inv_def)
  ultimately show ?thesis using used' u used ne by (simp add: rb_holds_def)
qed

section \<open>The queue of messages\<close>

datatype rb_op = RB_write "u8 list" | RB_read nat

definition rb_run1 :: "rbuffer_t \<Rightarrow> rb_op \<Rightarrow> (rbuffer_t \<times> u8 list \<times> int) option" where
  "rb_run1 r op = (case op of
     RB_write bs \<Rightarrow> do { (r', ret) \<leftarrow> rbuffer_write (Some r) (Some bs); r'' \<leftarrow> r'; Some (r'', [], ret) }
   | RB_read cap \<Rightarrow> do { (r', out, _, ret) \<leftarrow> rbuffer_read (Some r) True (Some cap); r'' \<leftarrow> r'; Some (r'', out, ret) })"

definition rb_spec1 :: "nat \<Rightarrow> u8 list list \<Rightarrow> rb_op \<Rightarrow> u8 list list \<times> u8 list \<times> int" where
  "rb_spec1 sz q op = (case op of
     RB_write bs \<Rightarrow>
       if bs = [] then (q, [], 0)
       else if sum_list (map (\<lambda>m. 4 + length m) q) + 4 + length bs \<le> sz then (q @ [bs], [], 0)
       else (q, [], -1)
   | RB_read cap \<Rightarrow> (case q of [] \<Rightarrow> (q, [], -1)
       | m # ms \<Rightarrow> if length m \<le> cap then (ms, m, 0) else (q, [], -1)))"

fun rb_run :: "rbuffer_t \<Rightarrow> rb_op list \<Rightarrow> (rbuffer_t \<times> (u8 list \<times> int) list) option" where
  "rb_run r [] = Some (r, [])"
| "rb_run r (op # ops) = do { (r1, o1) \<leftarrow> rb_run1 r op; (r2, os) \<leftarrow> rb_run r1 ops; Some (r2, o1 # os) }"

fun rb_spec :: "nat \<Rightarrow> u8 list list \<Rightarrow> rb_op list \<Rightarrow> u8 list list \<times> (u8 list \<times> int) list" where
  "rb_spec sz q [] = (q, [])"
| "rb_spec sz q (op # ops) = (let (q1, o1) = rb_spec1 sz q op; (q2, os) = rb_spec sz q1 ops in (q2, o1 # os))"

lemma rb_run1_refines:
  assumes "rb_holds r q"
  shows "\<exists>r'. rb_run1 r op = Some (r', snd (rb_spec1 (unat (r_size r)) q op)) \<and>
    rb_holds r' (fst (rb_spec1 (unat (r_size r)) q op)) \<and> r_size r' = r_size r"
proof (cases op)
  case (RB_write bs)
  have used: "rb_used r = sum_list (map (\<lambda>m. 4 + length m) q)" by (rule rb_used_encs [OF assms])
  have inv: "rb_inv r" using assms by (simp add: rb_holds_def)
  consider "bs = []" | "bs \<noteq> []" "rb_used r + 4 + length bs \<le> unat (r_size r)"
    | "bs \<noteq> []" "unat (r_size r) < rb_used r + 4 + length bs" by linarith
  then show ?thesis
  proof cases
    case 1
    then show ?thesis using assms RB_write by (simp add: rb_run1_def rb_spec1_def rbuffer_write_def)
  next
    case 2
    then show ?thesis
      using rbuffer_write_exec [OF inv 2] rb_write_holds [OF assms 2] RB_write
      unfolding used by (simp add: rb_run1_def rb_spec1_def)
  next
    case 3
    then show ?thesis
      using rbuffer_write_full [OF inv 3] RB_write assms
      unfolding used by (simp add: rb_run1_def rb_spec1_def)
  qed
next
  case (RB_read cap)
  show ?thesis
  proof (cases q)
    case Nil
    then show ?thesis
      using rbuffer_peek_empty [of r cap] assms RB_read by (simp add: rb_run1_def rb_spec1_def rbuffer_read_def)
  next
    case (Cons x xs)
    then show ?thesis
      using rbuffer_peek_exec [of r x xs cap] rb_read_holds [of r x xs] assms RB_read
      by (simp add: rb_run1_def rb_spec1_def rbuffer_read_def)
  qed
qed

lemma rb_run_refines:
  assumes "rb_holds r q"
  shows "\<exists>r'. rb_run r ops = Some (r', snd (rb_spec (unat (r_size r)) q ops)) \<and>
    rb_holds r' (fst (rb_spec (unat (r_size r)) q ops))"
  using assms
proof (induction ops arbitrary: r q)
  case (Cons op ops)
  obtain q1 o1 where s: "rb_spec1 (unat (r_size r)) q op = (q1, o1)" by (cases "rb_spec1 (unat (r_size r)) q op")
  obtain r1 where r1: "rb_run1 r op = Some (r1, o1)" "rb_holds r1 q1" "r_size r1 = r_size r"
    using rb_run1_refines [OF Cons.prems, of op] s by auto
  obtain r2 where "rb_run r1 ops = Some (r2, snd (rb_spec (unat (r_size r)) q1 ops))"
    "rb_holds r2 (fst (rb_spec (unat (r_size r)) q1 ops))"
    using Cons.IH [OF r1(2)] r1(3) by auto
  then show ?case using r1(1) s by (simp add: case_prod_unfold Let_def)
qed simp

lemma rb_fresh_holds:
  assumes "rb_inv r" "r_read r = r_write r"
  shows "rb_holds r []"
  using assms by (simp add: rb_holds_def rb_used_def rb_bytes_def ring_get_def)

section \<open>Creation\<close>

lemma find_rev_upt:
  assumes "k < m" "P k" "\<And>j. k < j \<Longrightarrow> j < m \<Longrightarrow> \<not> P j"
  shows "find P (rev [0..<m]) = Some k"
  using assms
proof (induction m)
  case (Suc m)
  then show ?case by (cases "k = m") (auto simp: less_Suc_eq)
qed simp

lemma bit_top:
  fixes n :: nat
  assumes "2 ^ k \<le> n" "n < 2 ^ (k + 1)"
  shows "bit n k" and "k < j \<Longrightarrow> \<not> bit n j"
proof -
  have "n div 2 ^ k = 1" using assms by (intro div_nat_eqI) auto
  then show "bit n k" by (simp add: bit_iff_odd)
  assume "k < j"
  then have "(2::nat) ^ (k + 1) \<le> 2 ^ j" by (intro power_increasing) auto
  then have "n < 2 ^ j" using assms by linarith
  then show "\<not> bit n j" by (simp add: bit_iff_odd)
qed

lemma ILOG2_eqI:
  assumes "2 ^ k \<le> n" "n < 2 ^ (k + 1)" "k < 64"
  shows "ILOG2 n = k"
  using find_rev_upt [of k 64 "bit n"] bit_top [OF assms(1,2)] assms(3) by (simp add: ILOG2_def)

lemma ilog2_ex:
  assumes "0 < (n::nat)" "n < 2 ^ 32"
  obtains k where "2 ^ k \<le> n" "n < 2 ^ (k + 1)" "k < 32"
proof -
  obtain k where k: "2 ^ k \<le> n" "n < 2 ^ (k + 1)" using ex_power_ivl1 [of 2 n] assms(1) by auto
  then have "(2::nat) ^ k < 2 ^ 32" using assms(2) by linarith
  then have "k < 32" by (rule power_less_imp_less_exp [rotated]) simp
  with k that show thesis by simp
qed

lemma rbuffer_create_size:
  assumes "4 \<le> unat sz" "unat sz \<le> 2 ^ 31" "\<And>n. \<exists>b. malloc n = Some b \<and> length b = n"
  obtains r where "rbuffer_create malloc sz = Some (Some r)" "rb_holds r []"
    "unat sz \<le> unat (r_size r)" "unat (r_size r) < 2 * unat sz"
proof -
  have fresh: "rb_holds \<lparr>r_size = 2 ^ k, r_read = 0, r_write = 0, r_mem = b\<rparr> []"
    if "2 \<le> k" "k < 32" "length b = 2 ^ k" for k b
    by (rule rb_fresh_holds) (use that in \<open>auto simp: rb_inv_def unat_u32_power\<close>)
  obtain k where k: "2 ^ k \<le> unat sz" "unat sz < 2 ^ (k + 1)" "k < 32"
    using ilog2_ex [of "unat sz"] assms(1) unsigned_less [of sz] by auto
  have k2: "2 \<le> k"
  proof (rule ccontr)
    assume "\<not> 2 \<le> k"
    then have "(2::nat) ^ (k + 1) \<le> 2 ^ 2" by (intro power_increasing) auto
    then show False using k(2) assms(1) by simp
  qed
  have pk: "unat (2 ^ k :: u32) = 2 ^ k" by (rule unat_u32_power [OF k(3)])
  show thesis
  proof (cases "unat sz = 2 ^ k")
    case True
    then have sz: "sz = 2 ^ k" using pk by (simp add: word_unat_eq_iff)
    have "(2 :: u32) ^ k AND mask k = 0"
      by (rule bit_word_eqI) (auto simp: bit_and_iff bit_exp_iff bit_mask_iff)
    then have "sz AND (sz - 1) = 0" unfolding sz mask_eq_exp_minus_1 .
    moreover obtain b where "malloc (2 ^ k) = Some b" "length b = 2 ^ k" using assms(3) by blast
    ultimately show thesis
      using that [of "\<lparr>r_size = 2 ^ k, r_read = 0, r_write = 0, r_mem = b\<rparr>"] fresh [OF k2 k(3)] pk
      unfolding sz by (simp add: rbuffer_create_def)
  next
    case False
    have u1: "unat (sz - 1) = unat sz - 1" using assms(1) by (simp add: unat_sub word_le_nat_alt)
    have b1: "2 ^ k \<le> unat (sz - 1)" "unat (sz - 1) < 2 ^ (k + 1)" using k False u1 by auto
    have "bit sz k" "bit (sz - 1) k"
      using bit_top(1) [OF k(1,2)] bit_top(1) [OF b1] by (auto simp: bit_unsigned_iff)
    then have "bit (sz AND (sz - 1)) k" by (simp add: bit_and_iff)
    then have nz: "sz AND (sz - 1) \<noteq> 0" by (metis bit_0_eq bot_apply bot_bool_def)
    have ne1: "sz \<noteq> 1" using assms(1) by auto
    have lg: "ILOG2 (unat (sz - 1)) = k" using ILOG2_eqI [OF b1] k(3) by simp
    have "k + 1 < 32"
    proof -
      have "(2::nat) ^ k < 2 ^ 31" using k(1) False assms(2) by linarith
      then have "k < 31" by (rule power_less_imp_less_exp [rotated]) simp
      then show ?thesis by simp
    qed
    moreover obtain b where "malloc (2 ^ (k + 1)) = Some b" "length b = 2 ^ (k + 1)" using assms(3) by blast
    moreover have "unat (2 ^ (k + 1) :: u32) = 2 ^ (k + 1)" by (rule unat_u32_power) fact
    moreover have "ROUNDUP_u32 sz = Some (2 ^ (k + 1))"
      using ne1 lg \<open>k + 1 < 32\<close> by (simp add: ROUNDUP_u32_def push_bit_eq_mult)
    ultimately show thesis
      using that [of "\<lparr>r_size = 2 ^ (k + 1), r_read = 0, r_write = 0, r_mem = b\<rparr>"] fresh [of "k + 1"] k2 nz k
        order.not_eq_order_implies_strict [OF False [symmetric] k(1)]
      unfolding rbuffer_create_def by simp
  qed
qed

text \<open>C14: a ring buffer created with 4 to 2 to the power 31 bytes gets the least power of two that
  holds them, and from then on behaves, for every sequence of writes and reads and across any
  number of wrap-arounds of its 32-bit positions, as a FIFO of whole messages: a write is accepted
  exactly when the message and its 4-byte prefix fit beside those queued, a read returns the
  oldest message unless the destination is too small, and no access leaves the buffer.\<close>
theorem rbuffer_refines_message_fifo:
  assumes "4 \<le> unat sz" "unat sz \<le> 2 ^ 31" "\<And>n. \<exists>b. malloc n = Some b \<and> length b = n"
  shows "\<exists>r r'. rbuffer_create malloc sz = Some (Some r) \<and>
    unat sz \<le> unat (r_size r) \<and> unat (r_size r) < 2 * unat sz \<and>
    rb_run r ops = Some (r', snd (rb_spec (unat (r_size r)) [] ops))"
  using rbuffer_create_size [OF assms] rb_run_refines [of _ "[]" ops] by metis

lemma rbuffer_refines_message_fifo_witness:
  "\<exists>r r'. rbuffer_create (\<lambda>n. Some (replicate n 0)) 10 = Some (Some r) \<and>
    unat (10 :: u32) \<le> unat (r_size r) \<and> unat (r_size r) < 2 * unat (10 :: u32) \<and>
    rb_run r [RB_write [1, 2, 3], RB_write [4, 5, 6, 7, 8], RB_write [9], RB_read 8] =
      Some (r', snd (rb_spec (unat (r_size r)) [] [RB_write [1, 2, 3], RB_write [4, 5, 6, 7, 8], RB_write [9], RB_read 8]))"
  by (rule rbuffer_refines_message_fifo) auto

text \<open>below the bound of 4 the capacity test underflows: a buffer created with 2 bytes accepts a
  one-byte message and stores outside its block.\<close>
lemma rbuffer_small_overflows:
  "do { r \<leftarrow> rbuffer_create (\<lambda>n. Some (replicate n 0)) 2; rbuffer_write r (Some [7]) } = None
   \<and> rbuffer_create (\<lambda>n. Some (replicate n 0)) 2 \<noteq> None"
  by (simp add: rbuffer_create_def rbuffer_write_def rbuffer_write_bytes_def blit_def le32_def)

end
