(* ===== verification/Base_Rqueue.thy ===== *)
theory Base_Rqueue
  imports Prelude
begin

text \<open>
  \<^verbatim>\<open>base/rqueue.c\<close>: a ring queue of pointers for one pushing and one popping thread.  The
  first part models the operations run to completion and shows that they are a bounded FIFO;
  the second splits them at their accesses to shared memory and interleaves the two threads.
\<close>

section \<open>State and operations\<close>

record rqueue_t =
  q_data :: "ptr list"
  q_read :: u32
  q_write :: u32
  q_size :: nat

definition rqueue_create :: "bool \<Rightarrow> (nat \<Rightarrow> ptr list option) \<Rightarrow> nat \<Rightarrow> rqueue_t option" where
  \<comment> \<open>the slots are not initialised: \<open>malloc\<close> gives their contents\<close>
  "rqueue_create ok malloc sz =
     (if \<not> ok then None
      else (case malloc sz of None \<Rightarrow> None
        | Some d \<Rightarrow> Some \<lparr>q_data = d, q_read = 0, q_write = 0, q_size = sz\<rparr>))"

definition next_pos :: "u32 \<Rightarrow> nat \<Rightarrow> u32 option" where
  \<comment> \<open>\<open>(pos + 1) % q->size\<close>: the 32-bit increment is widened to \<^verbatim>\<open>size_t\<close> and the remainder stored back;
     a zero size divides by zero\<close>
  "next_pos pos sz = (if sz = 0 then None else Some (word_of_nat (unat (pos + 1) mod sz)))"

definition rqueue_is_empty :: "rqueue_t option \<Rightarrow> int option" where
  "rqueue_is_empty q = (case q of None \<Rightarrow> None | Some q \<Rightarrow> Some (if q_read q = q_write q then 0 else -1))"

definition rqueue_is_full :: "rqueue_t option \<Rightarrow> int option" where
  "rqueue_is_full q = do {
     q \<leftarrow> q;
     c_assert (q_size q \<noteq> 0);
     Some (if unat (q_read q) = unat (q_write q + 1) mod q_size q then 0 else -1) }"

definition rqueue_push_back :: "rqueue_t option \<Rightarrow> ptr \<Rightarrow> (rqueue_t option \<times> ptr) option" where
  \<comment> \<open>run alone, the exchange always returns the position just read, so the loop body runs once\<close>
  "rqueue_push_back q d = do {
     full \<leftarrow> rqueue_is_full q;
     if full = 0 then Some (q, NULL)
     else do {
       q \<leftarrow> q;
       let pos = q_write q;
       nxt \<leftarrow> next_pos pos (q_size q);
       let q1 = q\<lparr>q_write := nxt\<rparr>;
       ds \<leftarrow> wr (q_data q1) (unat pos) d;
       Some (Some (q1\<lparr>q_data := ds\<rparr>), d) } }"

definition rqueue_pop_front :: "rqueue_t option \<Rightarrow> (rqueue_t option \<times> ptr) option" where
  "rqueue_pop_front q = do {
     e \<leftarrow> rqueue_is_empty q;
     if e = 0 then Some (q, NULL)
     else do {
       q \<leftarrow> q;
       let pos = q_read q;
       d \<leftarrow> rd (q_data q) (unat pos);
       nxt \<leftarrow> next_pos pos (q_size q);
       Some (Some (q\<lparr>q_read := nxt\<rparr>), d) } }"

definition rqueue_head :: "rqueue_t option \<Rightarrow> ptr option" where
  "rqueue_head q = do {
     e \<leftarrow> rqueue_is_empty q;
     if e = 0 then Some NULL
     else do { q \<leftarrow> q; rd (q_data q) (unat (q_read q)) } }"

section \<open>The queue it holds\<close>

definition rq_inv :: "rqueue_t \<Rightarrow> bool" where
  "rq_inv q \<longleftrightarrow> length (q_data q) = q_size q \<and> 0 < q_size q \<and> q_size q < 2 ^ 32
     \<and> unat (q_read q) < q_size q \<and> unat (q_write q) < q_size q"

definition rq_used :: "rqueue_t \<Rightarrow> nat" where
  "rq_used q = (unat (q_write q) + q_size q - unat (q_read q)) mod q_size q"

definition rq_list :: "rqueue_t \<Rightarrow> ptr list" where
  "rq_list q = map (\<lambda>i. q_data q ! ((unat (q_read q) + i) mod q_size q)) [0..<rq_used q]"

lemma unat_Suc_u32:
  assumes "unat (w :: u32) < n" "n < 2 ^ 32"
  shows "unat (w + 1) = Suc (unat w)"
proof -
  have "Suc (unat w) < 2 ^ 32" using assms by simp
  then show ?thesis by (simp add: unat_word_ariths)
qed

lemma next_pos_eq:
  assumes "unat pos < sz" "sz < 2 ^ 32"
  shows "\<exists>n. next_pos pos sz = Some n \<and> unat n = Suc (unat pos) mod sz"
proof -
  have "Suc (unat pos) mod sz < 2 ^ 32"
    using assms mod_less_divisor [of sz "Suc (unat pos)"] by linarith
  then have "unat (word_of_nat (Suc (unat pos) mod sz) :: u32) = Suc (unat pos) mod sz"
    by (simp add: unsigned_of_nat take_bit_nat_eq_self)
  then show ?thesis using assms by (simp add: next_pos_def unat_Suc_u32)
qed

lemma Suc_mod_cases:
  assumes "(x::nat) < n"
  shows "Suc x mod n = (if Suc x = n then 0 else Suc x)"
  using assms by auto

lemma rq_used_cases:
  assumes "rq_inv q"
  shows "rq_used q = (if unat (q_read q) \<le> unat (q_write q) then unat (q_write q) - unat (q_read q)
     else unat (q_write q) + q_size q - unat (q_read q))"
proof -
  let ?r = "unat (q_read q)" and ?w = "unat (q_write q)" and ?n = "q_size q"
  have b: "?r < ?n" "?w < ?n" using assms by (auto simp: rq_inv_def)
  show ?thesis
  proof (cases "?r \<le> ?w")
    case True
    then have "?w + ?n - ?r = ?n + (?w - ?r)" by simp
    then have "rq_used q = (?n + (?w - ?r)) mod ?n" by (simp only: rq_used_def)
    also have "\<dots> = ?w - ?r" using b by simp
    finally show ?thesis using True by simp
  qed (use b in \<open>simp add: rq_used_def\<close>)
qed

lemma rq_used_bound: "rq_inv q \<Longrightarrow> rq_used q < q_size q"
  by (simp add: rq_used_def rq_inv_def)

lemma rqueue_create_inv:
  assumes "rqueue_create ok malloc sz = Some q" "\<And>n d. malloc n = Some d \<Longrightarrow> length d = n"
    "0 < sz" "sz < 2 ^ 32"
  shows "rq_inv q \<and> rq_list q = [] \<and> q_size q = sz"
  using assms by (auto simp: rqueue_create_def rq_inv_def rq_list_def rq_used_def split: if_splits option.splits)

lemma rq_empty_iff:
  assumes "rq_inv q"
  shows "q_read q = q_write q \<longleftrightarrow> rq_used q = 0"
proof -
  have "unat (q_read q) < q_size q" "unat (q_write q) < q_size q" using assms by (auto simp: rq_inv_def)
  then show ?thesis by (auto simp: rq_used_cases [OF assms] word_unat_eq_iff)
qed

lemma rq_full_iff:
  assumes "rq_inv q"
  shows "unat (q_read q) = unat (q_write q + 1) mod q_size q \<longleftrightarrow> Suc (rq_used q) = q_size q"
proof -
  have b: "unat (q_read q) < q_size q" "unat (q_write q) < q_size q" "q_size q < 2 ^ 32" using assms by (auto simp: rq_inv_def)
  then have "unat (q_write q + 1) mod q_size q = (if Suc (unat (q_write q)) = q_size q then 0 else Suc (unat (q_write q)))"
    using unat_Suc_u32 [OF b(2,3)] Suc_mod_cases [OF b(2)] by simp
  then show ?thesis using b by (auto simp: rq_used_cases [OF assms])
qed

lemma rq_push_ok:
  assumes "rq_inv q"
  shows "if Suc (length (rq_list q)) = q_size q then rqueue_push_back (Some q) d = Some (Some q, NULL)
    else \<exists>q'. rqueue_push_back (Some q) d = Some (Some q', d) \<and> rq_inv q' \<and> rq_list q' = rq_list q @ [d]
      \<and> q_size q' = q_size q"
proof (cases "Suc (rq_used q) = q_size q")
  case True
  then show ?thesis using assms rq_full_iff [OF assms]
    by (auto simp: rqueue_push_back_def rqueue_is_full_def rq_list_def rq_inv_def)
next
  case False
  let ?n = "q_size q" and ?r = "unat (q_read q)" and ?w = "unat (q_write q)"
  have b: "?r < ?n" "?w < ?n" "?n < 2 ^ 32" "length (q_data q) = ?n" using assms by (auto simp: rq_inv_def)
  obtain nx where nx: "next_pos (q_write q) ?n = Some nx" "unat nx = Suc ?w mod ?n"
    using next_pos_eq [OF b(2,3)] by blast
  let ?q = "q\<lparr>q_write := nx, q_data := (q_data q)[?w := d]\<rparr>"
  have push: "rqueue_push_back (Some q) d = Some (Some ?q, d)"
    using False assms rq_full_iff [OF assms] nx b
    by (auto simp: rqueue_push_back_def rqueue_is_full_def rq_inv_def)
  have inv: "rq_inv ?q" using assms b nx by (simp add: rq_inv_def)
  have used: "rq_used ?q = Suc (rq_used q)"
    using False b nx Suc_mod_cases [OF b(2)] by (auto simp: rq_used_cases [OF assms] rq_used_cases [OF inv])
  have lt: "rq_used q < ?n" using rq_used_bound [OF assms] .
  have at: "(?r + i) mod ?n = ?w \<longleftrightarrow> i = rq_used q" if "i < ?n" for i
    using that b by (auto simp: rot_mod [OF that] rq_used_cases [OF assms])
  have old: "q_data ?q ! ((?r + i) mod ?n) = q_data q ! ((?r + i) mod ?n)" if "i < rq_used q" for i
    using at [of i] that lt by simp
  have new: "q_data ?q ! ((?r + rq_used q) mod ?n) = d"
    using at [OF lt] b(2,4) by simp
  have "rq_list ?q = map (\<lambda>i. q_data ?q ! ((?r + i) mod ?n)) ([0..<rq_used q] @ [rq_used q])"
    unfolding rq_list_def used by simp
  also have "\<dots> = rq_list q @ [d]"
    unfolding rq_list_def map_append using old new by (simp cong: map_cong)
  finally have "rq_list ?q = rq_list q @ [d]" .
  with push inv False show ?thesis by (simp add: rq_list_def [of q])
qed

lemma rq_pop_ok:
  assumes "rq_inv q"
  shows "case rq_list q of [] \<Rightarrow> rqueue_pop_front (Some q) = Some (Some q, NULL)
    | d # ds \<Rightarrow> (\<exists>q'. rqueue_pop_front (Some q) = Some (Some q', d) \<and> rq_inv q' \<and> rq_list q' = ds \<and> q_size q' = q_size q)"
proof (cases "rq_used q")
  case 0
  then show ?thesis using rq_empty_iff [OF assms]
    by (simp add: rq_list_def rqueue_pop_front_def rqueue_is_empty_def)
next
  case (Suc k)
  let ?n = "q_size q" and ?r = "unat (q_read q)" and ?w = "unat (q_write q)"
  have b: "?r < ?n" "?w < ?n" "?n < 2 ^ 32" "length (q_data q) = ?n" using assms by (auto simp: rq_inv_def)
  obtain nx where nx: "next_pos (q_read q) ?n = Some nx" "unat nx = Suc ?r mod ?n"
    using next_pos_eq [OF b(1,3)] by blast
  let ?q = "q\<lparr>q_read := nx\<rparr>"
  have pop: "rqueue_pop_front (Some q) = Some (Some ?q, q_data q ! ?r)"
    using Suc rq_empty_iff [OF assms] nx b by (simp add: rqueue_pop_front_def rqueue_is_empty_def)
  have inv: "rq_inv ?q" using assms b nx by (simp add: rq_inv_def)
  have used: "rq_used ?q = k"
    using Suc b nx Suc_mod_cases [OF b(1)] by (auto simp: rq_used_cases [OF assms] rq_used_cases [OF inv] split: if_splits)
  have "(Suc ?r mod ?n + i) mod ?n = (?r + Suc i) mod ?n" for i by (simp add: mod_simps)
  then have "rq_list q = q_data q ! ?r # rq_list ?q"
    using Suc used nx b by (simp add: rq_list_def upt_conv_Cons map_Suc_upt [symmetric] o_def del: upt_Suc)
  with pop inv show ?thesis by simp
qed

section \<open>Two threads\<close>

text \<open>
  The pusher and the popper cut at their shared accesses.  The pusher tests for room and loads
  its position, then publishes the next one with the atomic exchange, and only then stores the
  pointer; the popper tests for emptiness, loads position and pointer, then advances.  \<open>pushed\<close>
  and \<open>popped\<close> record the values whose push was published and the values pops returned.
\<close>

datatype push_pc = PushIdle | PushReady u32 ptr | PushPublished u32 ptr
datatype pop_pc = PopIdle | PopLoaded u32 ptr

record rq_sys =
  sq :: rqueue_t
  push_pc :: push_pc
  pop_pc :: pop_pc
  pushed :: "ptr list"
  popped :: "ptr list"

inductive rq_step :: "rq_sys \<Rightarrow> rq_sys \<Rightarrow> bool" where
  push_check: "push_pc s = PushIdle \<Longrightarrow> rqueue_is_full (Some (sq s)) = Some r \<Longrightarrow> r \<noteq> 0 \<Longrightarrow>
     rq_step s (s\<lparr>push_pc := PushReady (q_write (sq s)) d\<rparr>)"
| push_publish: "push_pc s = PushReady pos d \<Longrightarrow> next_pos pos (q_size (sq s)) = Some nxt \<Longrightarrow>
     q_write (sq s) = pos \<Longrightarrow>
     rq_step s (s\<lparr>sq := (sq s)\<lparr>q_write := nxt\<rparr>, push_pc := PushPublished pos d, pushed := pushed s @ [d]\<rparr>)"
| push_store: "push_pc s = PushPublished pos d \<Longrightarrow> wr (q_data (sq s)) (unat pos) d = Some ds \<Longrightarrow>
     rq_step s (s\<lparr>sq := (sq s)\<lparr>q_data := ds\<rparr>, push_pc := PushIdle\<rparr>)"
| pop_load: "pop_pc s = PopIdle \<Longrightarrow> rqueue_is_empty (Some (sq s)) = Some r \<Longrightarrow> r \<noteq> 0 \<Longrightarrow>
     rd (q_data (sq s)) (unat (q_read (sq s))) = Some d \<Longrightarrow>
     rq_step s (s\<lparr>pop_pc := PopLoaded (q_read (sq s)) d\<rparr>)"
| pop_advance: "pop_pc s = PopLoaded pos d \<Longrightarrow> next_pos pos (q_size (sq s)) = Some nxt \<Longrightarrow>
     q_read (sq s) = pos \<Longrightarrow>
     rq_step s (s\<lparr>sq := (sq s)\<lparr>q_read := nxt\<rparr>, pop_pc := PopIdle, popped := popped s @ [d]\<rparr>)"

inductive_cases rq_step_elim: "rq_step s s'"

definition rq_start :: "rqueue_t \<Rightarrow> rq_sys" where
  "rq_start q = \<lparr>sq = q, push_pc = PushIdle, pop_pc = PopIdle, pushed = [], popped = []\<rparr>"

inductive rq_reachable :: "rqueue_t \<Rightarrow> rq_sys \<Rightarrow> bool" for q where
  rq_init: "rq_reachable q (rq_start q)"
| rq_next: "rq_reachable q s \<Longrightarrow> rq_step s s' \<Longrightarrow> rq_reachable q s'"

text \<open>The positions are kept in range by every step of either thread.\<close>

definition rq_sys_inv :: "nat \<Rightarrow> rq_sys \<Rightarrow> bool" where
  "rq_sys_inv n s \<longleftrightarrow> rq_inv (sq s) \<and> q_size (sq s) = n
     \<and> (case push_pc s of PushIdle \<Rightarrow> True | PushReady pos d \<Rightarrow> unat pos < n | PushPublished pos d \<Rightarrow> unat pos < n)
     \<and> (case pop_pc s of PopIdle \<Rightarrow> True | PopLoaded pos d \<Rightarrow> unat pos < n)"

lemma next_pos_bound: "next_pos pos n = Some m \<Longrightarrow> n < 2 ^ 32 \<Longrightarrow> unat m < n"
proof -
  assume "next_pos pos n = Some m" and n: "n < 2 ^ 32"
  then have m: "m = word_of_nat (unat (pos + 1) mod n)" "0 < n" by (auto simp: next_pos_def split: if_splits)
  then have lt: "unat (pos + 1) mod n < n" by simp
  then have "unat (pos + 1) mod n < 2 ^ 32" using n by linarith
  with lt m show ?thesis by (simp add: unsigned_of_nat take_bit_nat_eq_self)
qed

lemma rq_step_inv: "rq_step s s' \<Longrightarrow> rq_sys_inv n s \<Longrightarrow> rq_sys_inv n s'"
  by (erule rq_step.cases)
     (auto simp: rq_sys_inv_def rq_inv_def wr_eq_Some dest!: next_pos_bound split: push_pc.splits pop_pc.splits)

lemma rq_start_inv: "rq_inv q \<Longrightarrow> rq_sys_inv (q_size q) (rq_start q)"
  by (simp add: rq_start_def rq_sys_inv_def)

lemma rq_reachable_inv: "rq_reachable q s \<Longrightarrow> rq_inv q \<Longrightarrow> rq_sys_inv (q_size q) s"
  by (induction rule: rq_reachable.induct) (blast intro: rq_start_inv rq_step_inv)+

section \<open>Properties\<close>

text \<open>C39: Run to completion, the ring queue is a FIFO that holds at most one pointer less than it has
  slots: a push appends or reports that the queue is full, a pop removes the oldest pointer, and
  neither leaves the array, across any number of wrap-arounds.\<close>

theorem rqueue_refines_fifo:
  assumes "rq_inv q"
  shows "(if Suc (length (rq_list q)) = q_size q then rqueue_push_back (Some q) d = Some (Some q, NULL)
      else \<exists>q'. rqueue_push_back (Some q) d = Some (Some q', d) \<and> rq_inv q' \<and> rq_list q' = rq_list q @ [d]
        \<and> q_size q' = q_size q)
   \<and> (case rq_list q of [] \<Rightarrow> rqueue_pop_front (Some q) = Some (Some q, NULL)
      | x # xs \<Rightarrow> (\<exists>q'. rqueue_pop_front (Some q) = Some (Some q', x) \<and> rq_inv q' \<and> rq_list q' = xs
          \<and> q_size q' = q_size q))"
  using rq_push_ok [OF assms] rq_pop_ok [OF assms] by blast

theorem rqueue_refines_fifo_witness:
  "\<exists>q q'. rqueue_create True (\<lambda>n. Some (replicate n 7)) 2 = Some q
     \<and> rqueue_push_back (Some q) 5 = Some (Some q', 5) \<and> rq_list q' = [5]"
proof -
  obtain q where c: "rqueue_create True (\<lambda>n. Some (replicate n 7)) 2 = Some q"
    by (simp add: rqueue_create_def)
  then have "rq_inv q" "rq_list q = []" "q_size q = 2" using rqueue_create_inv [OF c] by auto
  moreover from rqueue_refines_fifo [OF this(1), of 5] this
  obtain q' where "rqueue_push_back (Some q) 5 = Some (Some q', 5)" "rq_list q' = [5]" by (auto simp: rq_list_def)
  ultimately show ?thesis using c by blast
qed



text \<open>In every interleaving of the two threads the published positions stay inside the array, so
  the stores and loads of both threads are in bounds.\<close>

lemma rqueue_positions_in_bounds:
  assumes "rq_reachable q s" and "rq_inv q"
  shows "length (q_data (sq s)) = q_size q \<and> unat (q_read (sq s)) < q_size q \<and> unat (q_write (sq s)) < q_size q
     \<and> (push_pc s = PushPublished pos d \<longrightarrow> wr (q_data (sq s)) (unat pos) d \<noteq> None)"
  using rq_reachable_inv [OF assms] by (auto simp: rq_sys_inv_def rq_inv_def)

lemma rqueue_positions_in_bounds_witness:
  "unat (q_write (sq (rq_start \<lparr>q_data = [7, 7], q_read = 0, q_write = 0, q_size = 2\<rparr>))) < 2"
  using rqueue_positions_in_bounds [OF rq_init [of "\<lparr>q_data = [7, 7], q_read = 0, q_write = 0, q_size = 2\<rparr>"]]
  by (simp add: rq_inv_def)

end
