(* ===== verification/Base_Skiplist.thy ===== *)
theory Base_Skiplist
  imports Prelude
begin

text \<open>
  \<^verbatim>\<open>base/skiplist.c\<close>: a skip list of four levels whose links also count the elements they skip, so
  that elements can be found by rank.  The nodes live in a memory of addresses; the head is a node
  of its own, inside the list object.  \<open>rand\<close>, \<open>malloc\<close> and the comparison are arguments.  A list
  of nodes \<open>(address, level, datum)\<close> is what the memory holds; level \<open>i\<close> of the structure is the
  sublist of the nodes of level \<open>i\<close> and above, with their positions.
\<close>

section \<open>State and operations\<close>

definition MAX_SKIPLIST_LEVEL :: nat where "MAX_SKIPLIST_LEVEL = 4"

record sk_link =
  l_next :: ptr
  l_prev :: ptr
  l_span :: int

record sk_node =
  sn_link :: "sk_link list"
  sn_level :: nat
  sn_data :: ptr

record skiplist_t =
  sk_random :: "int list"
  sk_head :: ptr
  sk_mem :: "ptr \<rightharpoonup> sk_node"
  sk_cmp :: "ptr \<Rightarrow> ptr \<Rightarrow> int"

definition zero_links :: "sk_link list" where
  \<comment> \<open>the links after \<^verbatim>\<open>memset\<close>\<close>
  "zero_links = replicate MAX_SKIPLIST_LEVEL \<lparr>l_next = NULL, l_prev = NULL, l_span = 0\<rparr>"

definition lnk :: "(ptr \<rightharpoonup> sk_node) \<Rightarrow> ptr \<Rightarrow> nat \<Rightarrow> sk_link option" where
  "lnk m a i = do { n \<leftarrow> m a; rd (sn_link n) i }"

definition upd :: "(ptr \<rightharpoonup> sk_node) \<Rightarrow> ptr \<Rightarrow> nat \<Rightarrow> (sk_link \<Rightarrow> sk_link) \<Rightarrow> (ptr \<rightharpoonup> sk_node) option" where
  "upd m a i f = do {
     n \<leftarrow> m a;
     l \<leftarrow> rd (sn_link n) i;
     ls \<leftarrow> wr (sn_link n) i (f l);
     Some (m(a \<mapsto> n\<lparr>sn_link := ls\<rparr>)) }"

definition skiplist_create :: "ptr \<Rightarrow> (ptr \<Rightarrow> ptr \<Rightarrow> int) \<Rightarrow> int \<Rightarrow> skiplist_t option" where
  \<comment> \<open>\<open>a\<close>: the address of the head in the block from \<open>malloc\<close>, whose failure is not handled\<close>
  "skiplist_create a cmp level_coff = do {
     c_assert (a \<noteq> NULL);
     c_assert (\<forall>i \<in> set [0..<MAX_SKIPLIST_LEVEL]. - (2 ^ 31) \<le> level_coff ^ i \<and> level_coff ^ i < 2 ^ 31);
     Some \<lparr>sk_random = map (\<lambda>i. level_coff ^ i) [0..<MAX_SKIPLIST_LEVEL], sk_head = a,
       sk_mem = [a \<mapsto> \<lparr>sn_link = zero_links, sn_level = 0, sn_data = NULL\<rparr>], sk_cmp = cmp\<rparr> }"

fun level_loop :: "int list \<Rightarrow> int \<Rightarrow> nat list \<Rightarrow> nat option" where
  "level_loop random r [] = None"
| "level_loop random r (i # is) = do {
     x \<leftarrow> rd random i;
     if r < x then Some (MAX_SKIPLIST_LEVEL - 1 - i) else level_loop random r is }"

definition skiplist_rand_level :: "skiplist_t \<Rightarrow> int \<Rightarrow> nat option" where
  \<comment> \<open>\<open>rnd\<close>: the non-negative result of \<^verbatim>\<open>rand\<close>\<close>
  "skiplist_rand_level sl rnd = do {
     n \<leftarrow> rd (sk_random sl) (MAX_SKIPLIST_LEVEL - 1);
     c_assert (n \<noteq> 0);
     level_loop (sk_random sl) (rnd mod \<bar>n\<bar>) [0..<MAX_SKIPLIST_LEVEL] }"

definition skiplist_insert_node :: "(ptr \<rightharpoonup> sk_node) \<Rightarrow> ptr \<Rightarrow> ptr \<Rightarrow> nat \<Rightarrow> (ptr \<rightharpoonup> sk_node) option" where
  "skiplist_insert_node m prev node level = do {
     c_assert (prev \<noteq> NULL \<and> node \<noteq> NULL \<and> level < MAX_SKIPLIST_LEVEL);
     l \<leftarrow> lnk m prev level;
     m \<leftarrow> upd m prev level (\<lambda>k. k\<lparr>l_next := node\<rparr>);
     m \<leftarrow> upd m node level (\<lambda>k. k\<lparr>l_prev := prev, l_next := l_next l\<rparr>);
     if l_next l \<noteq> NULL then upd m (l_next l) level (\<lambda>k. k\<lparr>l_prev := node\<rparr>) else Some m }"

definition skiplist_erase_node :: "(ptr \<rightharpoonup> sk_node) \<Rightarrow> ptr \<Rightarrow> nat \<Rightarrow> (ptr \<rightharpoonup> sk_node) option" where
  "skiplist_erase_node m node level = do {
     c_assert (node \<noteq> NULL \<and> level < MAX_SKIPLIST_LEVEL);
     l \<leftarrow> lnk m node level;
     m \<leftarrow> (if l_prev l \<noteq> NULL then upd m (l_prev l) level (\<lambda>k. k\<lparr>l_next := l_next l\<rparr>) else Some m);
     if l_next l \<noteq> NULL then do {
       l' \<leftarrow> lnk m node level;
       upd m (l_next l) level (\<lambda>k. k\<lparr>l_prev := l_prev l, l_span := l_span k + (l_span l' - 1)\<rparr>) }
     else Some m }"

partial_function (option) insert_walk ::
  "(ptr \<Rightarrow> ptr \<Rightarrow> int) \<Rightarrow> (ptr \<rightharpoonup> sk_node) \<Rightarrow> nat \<Rightarrow> ptr \<Rightarrow> ptr \<Rightarrow> int \<Rightarrow> (ptr \<times> int) option" where
  \<comment> \<open>along a level to the last node not above \<open>x\<close>, adding up the spans\<close>
  "insert_walk cmp m level x prev span = do {
     l \<leftarrow> lnk m prev level;
     if l_next l = NULL then Some (prev, span)
     else do {
       n \<leftarrow> m (l_next l);
       if cmp (sn_data n) x \<le> 0 then do {
         k \<leftarrow> lnk m (l_next l) level;
         insert_walk cmp m level x (l_next l) (span + l_span k) }
       else Some (prev, span) } }"

fun insert_levels ::
  "(ptr \<Rightarrow> ptr \<Rightarrow> int) \<Rightarrow> ptr \<Rightarrow> nat \<Rightarrow> ptr \<Rightarrow> nat \<Rightarrow> ptr \<Rightarrow> (ptr \<rightharpoonup> sk_node) \<times> int list \<Rightarrow> ((ptr \<rightharpoonup> sk_node) \<times> int list) option" where
  \<comment> \<open>the loop over the levels, from the top; \<open>node\<close> has level \<open>lv\<close> and datum \<open>x\<close>\<close>
  "insert_levels cmp node lv x 0 prev (m, spans) = Some (m, spans)"
| "insert_levels cmp node lv x (Suc level) prev (m, spans) = do {
     (prev, sp) \<leftarrow> insert_walk cmp m level x prev 0;
     m \<leftarrow> (if level \<le> lv then skiplist_insert_node m prev node level
           else do {
             l \<leftarrow> lnk m prev level;
             if l_next l \<noteq> NULL then upd m (l_next l) level (\<lambda>k. k\<lparr>l_span := l_span k + 1\<rparr>) else Some m });
     spans \<leftarrow> wr spans level sp;
     insert_levels cmp node lv x level prev (m, spans) }"

definition insert_span :: "ptr \<Rightarrow> int list \<Rightarrow> nat \<Rightarrow> (ptr \<rightharpoonup> sk_node) \<Rightarrow> (ptr \<rightharpoonup> sk_node) option" where
  \<comment> \<open>the span of the new node and of its successor on level \<open>i\<close>\<close>
  "insert_span node spans i m = do {
     l \<leftarrow> lnk m node (i - 1);
     sp \<leftarrow> rd spans (i - 1);
     m \<leftarrow> upd m node i (\<lambda>k. k\<lparr>l_span := l_span l + sp\<rparr>);
     l \<leftarrow> lnk m node i;
     if l_next l \<noteq> NULL then upd m (l_next l) i (\<lambda>k. k\<lparr>l_span := l_span k - (l_span l - 1)\<rparr>) else Some m }"

definition skiplist_insert :: "skiplist_t option \<Rightarrow> ptr \<Rightarrow> int \<Rightarrow> ptr \<Rightarrow> (skiplist_t option \<times> int) option" where
  \<comment> \<open>\<open>a\<close>: the block from \<open>malloc\<close>, whose failure is not handled\<close>
  "skiplist_insert sl a rnd data = (case sl of
     None \<Rightarrow> Some (sl, -1)
   | Some s \<Rightarrow>
       if data = NULL then Some (sl, -1)
       else do {
         c_assert (a \<noteq> NULL);
         lv \<leftarrow> skiplist_rand_level s rnd;
         let m = (sk_mem s)(a \<mapsto> \<lparr>sn_link = zero_links, sn_level = lv, sn_data = data\<rparr>);
         (m, spans) \<leftarrow> insert_levels (sk_cmp s) a lv data MAX_SKIPLIST_LEVEL (sk_head s)
            (m, replicate MAX_SKIPLIST_LEVEL 0);
         m \<leftarrow> upd m a 0 (\<lambda>k. k\<lparr>l_span := 1\<rparr>);
         m \<leftarrow> foldM (insert_span a spans) [1..<lv + 1] m;
         Some (Some (s\<lparr>sk_mem := m\<rparr>), 0) })"

datatype sk_scan = Hit ptr int | Miss ptr int ptr

partial_function (option) find_scan ::
  "(ptr \<Rightarrow> ptr \<Rightarrow> int) \<Rightarrow> (ptr \<rightharpoonup> sk_node) \<Rightarrow> nat \<Rightarrow> ptr \<Rightarrow> ptr \<Rightarrow> int \<Rightarrow> sk_scan option" where
  \<comment> \<open>along a level: the node that is equal to \<open>x\<close>, or where to go down and the next node\<close>
  "find_scan cmp m level x prev span = do {
     l \<leftarrow> lnk m prev level;
     if l_next l = NULL then Some (Miss prev span NULL)
     else do {
       n \<leftarrow> m (l_next l);
       k \<leftarrow> lnk m (l_next l) level;
       if cmp (sn_data n) x = 0 then Some (Hit (l_next l) (span + l_span k))
       else if cmp (sn_data n) x < 0 then find_scan cmp m level x (l_next l) (span + l_span k)
       else Some (Miss prev span (l_next l)) } }"

fun find_levels ::
  "(ptr \<Rightarrow> ptr \<Rightarrow> int) \<Rightarrow> (ptr \<rightharpoonup> sk_node) \<Rightarrow> ptr \<Rightarrow> nat \<Rightarrow> ptr \<Rightarrow> int \<Rightarrow> ptr list \<Rightarrow> (ptr \<times> nat \<times> int \<times> ptr list) option option" where
  \<comment> \<open>the node, the level it is found on, its rank and the array \<open>change\<close>\<close>
  "find_levels cmp m x 0 prev span change = Some None"
| "find_levels cmp m x (Suc level) prev span change = do {
     r \<leftarrow> find_scan cmp m level x prev span;
     (case r of
        Hit a span \<Rightarrow> Some (Some (a, level, span, change))
      | Miss prev span b \<Rightarrow> do {
          change \<leftarrow> wr change level b;
          find_levels cmp m x level prev span change }) }"

definition skiplist_find_erase :: "skiplist_t option \<Rightarrow> ptr \<Rightarrow> bool \<Rightarrow> (skiplist_t option \<times> ptr \<times> int option) option" where
  \<comment> \<open>with the datum and the rank if it is found\<close>
  "skiplist_find_erase sl data erase = (case sl of
     None \<Rightarrow> Some (sl, NULL, None)
   | Some s \<Rightarrow>
       if data = NULL then Some (sl, NULL, None)
       else do {
         r \<leftarrow> find_levels (sk_cmp s) (sk_mem s) data MAX_SKIPLIST_LEVEL (sk_head s) 0 (replicate MAX_SKIPLIST_LEVEL NULL);
         (case r of
            None \<Rightarrow> Some (sl, NULL, None)
          | Some (a, level, span, change) \<Rightarrow> do {
              n \<leftarrow> sk_mem s a;
              if erase then do {
                m \<leftarrow> foldM (\<lambda>i m. skiplist_erase_node m a i) (rev [0..<level + 1]) (sk_mem s);
                let m = m(a := None);
                m \<leftarrow> foldM (\<lambda>i m. do {
                      b \<leftarrow> rd change i;
                      if b \<noteq> NULL then upd m b i (\<lambda>k. k\<lparr>l_span := l_span k - 1\<rparr>) else Some m }) [0..<MAX_SKIPLIST_LEVEL] m;
                Some (Some (s\<lparr>sk_mem := m\<rparr>), sn_data n, Some span) }
              else Some (sl, sn_data n, Some span) }) })"

definition skiplist_find :: "skiplist_t option \<Rightarrow> ptr \<Rightarrow> (ptr \<times> int option) option" where
  "skiplist_find sl data = map_option snd (skiplist_find_erase sl data False)"

definition skiplist_erase :: "skiplist_t option \<Rightarrow> ptr \<Rightarrow> (skiplist_t option \<times> ptr) option" where
  "skiplist_erase sl data = map_option (\<lambda>(sl, d, _). (sl, d)) (skiplist_find_erase sl data True)"

partial_function (option) rank_scan :: "(ptr \<rightharpoonup> sk_node) \<Rightarrow> nat \<Rightarrow> int \<Rightarrow> ptr \<Rightarrow> int \<Rightarrow> sk_scan option" where
  "rank_scan m level rank prev span = do {
     l \<leftarrow> lnk m prev level;
     if l_next l = NULL then Some (Miss prev span NULL)
     else do {
       k \<leftarrow> lnk m (l_next l) level;
       if span + l_span k = rank then Some (Hit (l_next l) (span + l_span k))
       else if span + l_span k < rank then rank_scan m level rank (l_next l) (span + l_span k)
       else Some (Miss prev span (l_next l)) } }"

fun rank_levels :: "(ptr \<rightharpoonup> sk_node) \<Rightarrow> int \<Rightarrow> nat \<Rightarrow> ptr \<Rightarrow> int \<Rightarrow> ptr option" where
  "rank_levels m rank 0 prev span = Some NULL"
| "rank_levels m rank (Suc level) prev span = do {
     r \<leftarrow> rank_scan m level rank prev span;
     (case r of Hit a _ \<Rightarrow> Some a | Miss prev span _ \<Rightarrow> rank_levels m rank level prev span) }"

definition skiplist_find_node_by_rank :: "skiplist_t option \<Rightarrow> int \<Rightarrow> ptr option" where
  "skiplist_find_node_by_rank sl rank = (case sl of
     None \<Rightarrow> Some NULL
   | Some s \<Rightarrow> if rank \<le> 0 then Some NULL else rank_levels (sk_mem s) rank MAX_SKIPLIST_LEVEL (sk_head s) 0)"

definition skiplist_find_by_rank :: "skiplist_t option \<Rightarrow> int \<Rightarrow> ptr option" where
  "skiplist_find_by_rank sl rank = (case sl of
     None \<Rightarrow> Some NULL
   | Some s \<Rightarrow>
       if rank \<le> 0 then Some NULL
       else do {
         a \<leftarrow> skiplist_find_node_by_rank sl rank;
         if a \<noteq> NULL then map_option sn_data (sk_mem s a) else Some NULL })"

partial_function (option) filter_loop ::
  "(sk_link \<Rightarrow> ptr) \<Rightarrow> (ptr \<rightharpoonup> sk_node) \<Rightarrow> ptr \<Rightarrow> (ptr \<Rightarrow> int) \<Rightarrow> ptr \<Rightarrow> ptr option" where
  \<comment> \<open>along the lowest level in the direction \<open>dir\<close>\<close>
  "filter_loop dir m head f node =
     (if node \<noteq> NULL \<and> node \<noteq> head then do {
        n \<leftarrow> m node;
        if f (sn_data n) = 0 then Some (sn_data n)
        else do { l \<leftarrow> lnk m node 0; filter_loop dir m head f (dir l) } }
      else Some NULL)"

definition skiplist_find_from_rank ::
  "(sk_link \<Rightarrow> ptr) \<Rightarrow> skiplist_t option \<Rightarrow> int \<Rightarrow> (ptr \<Rightarrow> int) option \<Rightarrow> ptr option" where
  "skiplist_find_from_rank dir sl rank f = (case sl of
     None \<Rightarrow> Some NULL
   | Some s \<Rightarrow>
       if rank \<le> 0 then Some NULL
       else do {
         a \<leftarrow> skiplist_find_node_by_rank sl rank;
         (case f of None \<Rightarrow> Some NULL | Some f \<Rightarrow> filter_loop dir (sk_mem s) (sk_head s) f a) })"

definition skiplist_find_from_rank_forward :: "skiplist_t option \<Rightarrow> int \<Rightarrow> (ptr \<Rightarrow> int) option \<Rightarrow> ptr option" where
  "skiplist_find_from_rank_forward = skiplist_find_from_rank l_next"

definition skiplist_find_from_rank_backward :: "skiplist_t option \<Rightarrow> int \<Rightarrow> (ptr \<Rightarrow> int) option \<Rightarrow> ptr option" where
  "skiplist_find_from_rank_backward = skiplist_find_from_rank l_prev"

function rank_list :: "(ptr \<rightharpoonup> sk_node) \<Rightarrow> ptr \<Rightarrow> int \<Rightarrow> int \<Rightarrow> ptr list \<Rightarrow> int \<Rightarrow> (ptr list \<times> int) option" where
  \<comment> \<open>from the index \<open>i\<close> on; \<open>list\<close> is the caller's array\<close>
  "rank_list m node end i list scope =
     (if node \<noteq> NULL \<and> i < end then do {
        n \<leftarrow> m node;
        list \<leftarrow> wri list i (sn_data n);
        l \<leftarrow> lnk m node 0;
        rank_list m (l_next l) end (i + 1) list (i + 1) }
      else Some (list, scope))"
  by pat_completeness auto
termination
  by (relation "measure (\<lambda>(m, node, end, i, list, scope). nat (end - i))") auto

declare rank_list.simps [simp del]

definition skiplist_find_list_by_rank :: "skiplist_t option \<Rightarrow> int \<Rightarrow> int option \<Rightarrow> ptr list option \<Rightarrow> (ptr list option \<times> int option \<times> int) option" where
  "skiplist_find_list_by_rank sl rank scope list = (case (sl, scope, list) of
     (Some s, Some end, Some xs) \<Rightarrow>
       if rank \<le> 0 then Some (list, scope, -1)
       else do {
         a \<leftarrow> skiplist_find_node_by_rank sl rank;
         if a \<noteq> NULL then do {
           (xs, sc) \<leftarrow> rank_list (sk_mem s) a end 0 xs end;
           Some (Some xs, Some sc, 0) }
         else Some (list, scope, -1) }
   | _ \<Rightarrow> Some (list, scope, -1))"

partial_function (option) size_walk :: "(ptr \<rightharpoonup> sk_node) \<Rightarrow> nat \<Rightarrow> ptr \<Rightarrow> int \<Rightarrow> (ptr \<times> int) option" where
  "size_walk m level prev span = do {
     l \<leftarrow> lnk m prev level;
     if l_next l = NULL then Some (prev, span)
     else do { k \<leftarrow> lnk m (l_next l) level; size_walk m level (l_next l) (span + l_span k) } }"

fun size_levels :: "(ptr \<rightharpoonup> sk_node) \<Rightarrow> nat \<Rightarrow> ptr \<Rightarrow> int \<Rightarrow> int option" where
  "size_levels m 0 prev span = Some span"
| "size_levels m (Suc level) prev span = do {
     (prev, span) \<leftarrow> size_walk m level prev span;
     size_levels m level prev span }"

definition skiplist_size :: "skiplist_t option \<Rightarrow> int option" where
  "skiplist_size sl = (case sl of None \<Rightarrow> Some (-1) | Some s \<Rightarrow> size_levels (sk_mem s) MAX_SKIPLIST_LEVEL (sk_head s) 0)"

partial_function (option) release_loop :: "ptr \<Rightarrow> (ptr \<rightharpoonup> sk_node) \<Rightarrow> ptr \<Rightarrow> (ptr \<rightharpoonup> sk_node) option" where
  "release_loop head m prev =
     (if prev = NULL then Some m
      else do {
        l \<leftarrow> lnk m prev 0;
        release_loop head (if prev \<noteq> head then m(prev := None) else m) (l_next l) })"

definition skiplist_release :: "skiplist_t option \<Rightarrow> (ptr \<rightharpoonup> sk_node) option" where
  \<comment> \<open>what is left of the memory; the head goes with the list object\<close>
  "skiplist_release sl = (case sl of None \<Rightarrow> Some Map.empty
   | Some s \<Rightarrow> map_option (\<lambda>m. m(sk_head s := None)) (release_loop (sk_head s) (sk_mem s) (sk_head s)))"

section \<open>The links of one level\<close>

definition links :: "(ptr \<rightharpoonup> sk_node) \<Rightarrow> nat \<Rightarrow> ptr \<Rightarrow> sk_link" where
  "links m i a = (case m a of None \<Rightarrow> \<lparr>l_next = NULL, l_prev = NULL, l_span = 0\<rparr> | Some n \<Rightarrow> sn_link n ! i)"

definition label :: "(ptr \<rightharpoonup> sk_node) \<Rightarrow> ptr \<Rightarrow> (nat \<times> ptr) option" where
  "label m a = map_option (\<lambda>n. (sn_level n, sn_data n)) (m a)"

lemma dom_label: "dom m = {a. label m a \<noteq> None}"
  by (auto simp: label_def)

definition wf_mem :: "(ptr \<rightharpoonup> sk_node) \<Rightarrow> bool" where
  "wf_mem m \<longleftrightarrow> (\<forall>a n. m a = Some n \<longrightarrow> length (sn_link n) = MAX_SKIPLIST_LEVEL)"

lemma lnk_ok: "wf_mem m \<Longrightarrow> label m a \<noteq> None \<Longrightarrow> i < MAX_SKIPLIST_LEVEL \<Longrightarrow> lnk m a i = Some (links m i a)"
  by (auto simp: lnk_def links_def label_def wf_mem_def)

lemma node_label: "label m a = Some (lv, d) \<Longrightarrow> \<exists>n. m a = Some n \<and> sn_level n = lv \<and> sn_data n = d"
  by (auto simp: label_def)

lemma upd_ok:
  assumes "wf_mem m" "label m a \<noteq> None" "i < MAX_SKIPLIST_LEVEL"
  shows "\<exists>m'. upd m a i f = Some m' \<and> wf_mem m' \<and> label m' = label m
    \<and> links m' = (links m)(i := (links m i)(a := f (links m i a)))"
proof -
  obtain n where n: "m a = Some n" "length (sn_link n) = MAX_SKIPLIST_LEVEL" using assms by (auto simp: label_def wf_mem_def)
  let ?m = "m(a \<mapsto> n\<lparr>sn_link := (sn_link n)[i := f (sn_link n ! i)]\<rparr>)"
  have "links ?m = (links m)(i := (links m i)(a := f (links m i a)))"
    using n assms(3) by (auto simp: fun_eq_iff links_def)
  moreover have "upd m a i f = Some ?m" using n assms(3) by (simp add: upd_def)
  moreover have "wf_mem ?m" "label ?m = label m" using n assms(1) by (auto simp: wf_mem_def label_def)
  ultimately show ?thesis by blast
qed

text \<open>A level from node \<open>a\<close> at position \<open>p\<close> on: positions and addresses of the nodes that follow.\<close>

fun seg :: "(ptr \<Rightarrow> sk_link) \<Rightarrow> nat \<times> ptr \<Rightarrow> (nat \<times> ptr) list \<Rightarrow> bool" where
  "seg v z [] \<longleftrightarrow> True"
| "seg v z (y # r) \<longleftrightarrow> l_next (v (snd z)) = snd y \<and> l_prev (v (snd y)) = snd z
     \<and> l_span (v (snd y)) = int (fst y) - int (fst z) \<and> seg v y r"

definition ends :: "(ptr \<Rightarrow> sk_link) \<Rightarrow> nat \<times> ptr \<Rightarrow> (nat \<times> ptr) list \<Rightarrow> bool" where
  "ends v z A \<longleftrightarrow> l_next (v (snd (last (z # A)))) = NULL"

abbreviation shift :: "(nat \<times> ptr) list \<Rightarrow> (nat \<times> ptr) list" where
  "shift A \<equiv> map (apfst Suc) A"

lemma seg_append: "seg v z (A @ B) \<longleftrightarrow> seg v z A \<and> seg v (last (z # A)) B"
  by (induction A arbitrary: z) auto

lemma ends_append: "ends v z (A @ B) \<longleftrightarrow> ends v (last (z # A)) B"
  by (cases B rule: rev_cases) (auto simp: ends_def)

lemma seg_shift: "seg v (apfst Suc z) (shift A) \<longleftrightarrow> seg v z A"
  by (induction A arbitrary: z) auto

lemma last_shift: "snd (last (z # shift A)) = snd (last (z # A))"
  by (cases A rule: rev_cases) auto

lemma ends_shift: "ends v z (shift A) \<longleftrightarrow> ends v z A"
  unfolding ends_def last_shift ..

lemma ends_snd: "snd y = snd z \<Longrightarrow> ends v y A = ends v z A"
  by (cases A rule: rev_cases) (auto simp: ends_def)

lemma seg_frame:
  assumes "seg v z A"
    and "\<And>c. c \<in> snd ` set A \<Longrightarrow> l_prev (v' c) = l_prev (v c) \<and> l_span (v' c) = l_span (v c)"
    and "\<And>c. c \<in> set (butlast (snd z # map snd A)) \<Longrightarrow> l_next (v' c) = l_next (v c)"
  shows "seg v' z A"
  using assms
proof (induction A arbitrary: z)
  case (Cons y A)
  have "seg v' y A" using Cons.prems by (intro Cons.IH) (auto split: if_splits)
  then show ?case using Cons.prems(1) Cons.prems(2) [of "snd y"] Cons.prems(3) [of "snd z"] by auto
qed simp

lemma seg_same:
  assumes "seg v z A" "\<And>c. c \<in> insert (snd z) (snd ` set A) \<Longrightarrow> v' c = v c"
  shows "seg v' z A"
proof (rule seg_frame [OF assms(1)])
  show "l_next (v' c) = l_next (v c)" if "c \<in> set (butlast (snd z # map snd A))" for c
    using in_set_butlastD [OF that] assms(2) [of c] by auto
qed (use assms(2) in auto)

definition addrs :: "(nat \<times> ptr) list \<Rightarrow> ptr list" where
  "addrs A = map snd A"

lemma addrs_simps [simp]: "addrs [] = []" "addrs (y # A) = snd y # addrs A" "addrs (A @ B) = addrs A @ addrs B"
  "addrs (shift A) = addrs A"
  by (auto simp: addrs_def)

lemma set_addrs: "set (addrs A) = snd ` set A"
  by (simp add: addrs_def)

text \<open>The changes that insertion and removal make to a level.\<close>

definition put :: "(ptr \<Rightarrow> sk_link) \<Rightarrow> ptr \<Rightarrow> ptr \<Rightarrow> ptr \<Rightarrow> sk_link" where
  "put v a x = (let b = l_next (v a); v = v(a := (v a)\<lparr>l_next := x\<rparr>); v = v(x := (v x)\<lparr>l_prev := a, l_next := b\<rparr>) in
     if b \<noteq> NULL then v(b := (v b)\<lparr>l_prev := x\<rparr>) else v)"

definition bump :: "int \<Rightarrow> (ptr \<Rightarrow> sk_link) \<Rightarrow> ptr \<Rightarrow> ptr \<Rightarrow> sk_link" where
  "bump d v b = (if b \<noteq> NULL then v(b := (v b)\<lparr>l_span := l_span (v b) + d\<rparr>) else v)"

definition respan :: "(ptr \<Rightarrow> sk_link) \<Rightarrow> ptr \<Rightarrow> int \<Rightarrow> ptr \<Rightarrow> sk_link" where
  "respan v x s = (let v = v(x := (v x)\<lparr>l_span := s\<rparr>) in bump (1 - s) v (l_next (v x)))"

definition cut :: "(ptr \<Rightarrow> sk_link) \<Rightarrow> ptr \<Rightarrow> ptr \<Rightarrow> sk_link" where
  "cut v x = (let a = l_prev (v x); b = l_next (v x); v = (if a \<noteq> NULL then v(a := (v a)\<lparr>l_next := b\<rparr>) else v) in
     if b \<noteq> NULL then v(b := (v b)\<lparr>l_prev := a, l_span := l_span (v b) + (l_span (v x) - 1)\<rparr>) else v)"

lemma last_in: "snd (last (z # A)) \<in> insert (snd z) (set (addrs A))"
  by (cases A rule: rev_cases) auto

lemma addr_butlast: "distinct (snd z # addrs A) \<Longrightarrow> c \<in> set (butlast (snd z # addrs A)) \<Longrightarrow> c \<noteq> snd (last (z # A))"
  by (cases A rule: rev_cases) (auto simp: butlast_append)

lemma seg_upto:
  assumes "seg v z A" "last (z # A) = (p, a)" "distinct (snd z # addrs A)"
    and "\<And>c. c \<in> insert (snd z) (set (addrs A)) \<Longrightarrow> c \<noteq> a \<Longrightarrow> w c = v c"
    and "l_prev (w a) = l_prev (v a)" "l_span (w a) = l_span (v a)"
  shows "seg w z A"
proof (rule seg_frame [OF assms(1)])
  show "l_prev (w c) = l_prev (v c) \<and> l_span (w c) = l_span (v c)" if "c \<in> snd ` set A" for c
    using that assms(4) [of c] assms(5,6) by (cases "c = a") (auto simp: set_addrs)
  show "l_next (w c) = l_next (v c)" if "c \<in> set (butlast (snd z # map snd A))" for c
    using in_set_butlastD [OF that] addr_butlast [OF assms(3), of c] that assms(2,4) by (auto simp: addrs_def)
qed

lemma put_ok:
  assumes "seg v z (A @ B)" "ends v z (A @ B)" and d: "distinct (snd z # addrs (A @ B) @ [x])"
    and n: "NULL \<notin> set (addrs (A @ B))" "x \<noteq> NULL"
    and a: "last (z # A) = (p, a)" and s: "s = int (Suc k) - int p"
  shows "seg (respan (put v a x) x s) z (A @ (Suc k, x) # shift B)"
    and "ends (respan (put v a x) x s) z (A @ (Suc k, x) # shift B)"
proof -
  define w where "w = respan (put v a x) x s"
  have A: "seg v z A" and B: "seg v (p, a) B" using assms(1) a by (auto simp: seg_append)
  have a_in: "a \<in> insert (snd z) (set (addrs A))" using last_in [of z A] a by simp
  have xA: "x \<noteq> snd z" "x \<notin> set (addrs A)" "x \<notin> set (addrs B)" "a \<notin> set (addrs B)" "x \<noteq> a" using d a_in by auto
  have dA: "distinct (snd z # addrs A)" using d by auto
  have "seg w z (A @ (Suc k, x) # shift B) \<and> ends w z (A @ (Suc k, x) # shift B)"
  proof (cases B)
    case Nil
    then have e: "l_next (v a) = NULL" using assms(2) a by (simp add: ends_def)
    have w: "w c = (if c = x then \<lparr>l_next = NULL, l_prev = a, l_span = s\<rparr> else if c = a then (v a)\<lparr>l_next := x\<rparr> else v c)" for c
      using e xA n by (auto simp: w_def respan_def put_def bump_def Let_def)
    have "seg w z A" using xA by (intro seg_upto [OF A a dA]) (auto simp: w)
    then show ?thesis using Nil a s xA by (simp add: seg_append ends_def w)
  next
    case (Cons y B')
    obtain q b where y: "y = (q, b)" by (cases y)
    have bn: "b \<noteq> NULL" "b \<noteq> x" "b \<noteq> a" "b \<noteq> snd z" "b \<notin> set (addrs A)" "b \<notin> set (addrs B')" using Cons y n xA d a_in by auto
    have b: "l_next (v a) = b" "l_prev (v b) = a" "l_span (v b) = int q - int p" "seg v (q, b) B'" using B Cons y by auto
    have w: "w c = (if c = x then \<lparr>l_next = b, l_prev = a, l_span = s\<rparr> else if c = a then (v a)\<lparr>l_next := x\<rparr>
        else if c = b then (v b)\<lparr>l_prev := x, l_span := l_span (v b) + (1 - s)\<rparr> else v c)" for c
      using b xA bn by (auto simp: w_def respan_def put_def bump_def Let_def)
    have 1: "seg w z A" using xA bn by (intro seg_upto [OF A a dA]) (auto simp: w)
    have B': "x \<notin> set (addrs B')" "a \<notin> set (addrs B')" using Cons y xA by auto
    have 2: "seg w (q, b) B'"
    proof (rule seg_frame [OF b(4)])
      show "l_prev (w c) = l_prev (v c) \<and> l_span (w c) = l_span (v c)" if "c \<in> snd ` set B'" for c
        using that B' bn by (auto simp: w set_addrs)
      show "l_next (w c) = l_next (v c)" if "c \<in> set (butlast (snd (q, b) # map snd B'))" for c
        using in_set_butlastD [OF that] B' bn by (auto simp: w set_addrs)
    qed
    have "ends v (q, b) B'" using assms(2) a Cons y ends_append [of v z A B] ends_append [of v "(p, a)" "[y]" B'] by simp
    moreover have "snd (last ((q, b) # B')) \<noteq> x" "snd (last ((q, b) # B')) \<noteq> a"
      using last_in [of "(q, b)" B'] B' bn by auto
    ultimately have 3: "ends w (q, b) B'" by (auto simp: ends_def w)
    have 4: "seg w (Suc q, b) (shift B')" using 2 seg_shift [of w "(q, b)" B'] by simp
    have "seg w z (A @ (Suc k, x) # shift B)"
      unfolding seg_append using 1 4 a Cons y b(3) s xA bn by (simp add: w)
    moreover have "ends w z (A @ (Suc k, x) # shift B)"
      using 3 Cons y ends_append [of w z "A @ [(Suc k, x), (Suc q, b)]" "shift B'"] ends_shift [of w "(Suc q, b)" B']
        ends_snd [of "(Suc q, b)" "(q, b)" w B'] by simp
    ultimately show ?thesis by blast
  qed
  then show "seg (respan (put v a x) x s) z (A @ (Suc k, x) # shift B)" "ends (respan (put v a x) x s) z (A @ (Suc k, x) # shift B)"
    by (simp_all add: w_def)
qed

lemma bump_ok:
  assumes "seg v z (A @ (q, b) # B)" "ends v z (A @ (q, b) # B)" "distinct (snd z # addrs (A @ (q, b) # B))" "b \<noteq> NULL"
    and a: "last (z # A) = (p, a)"
  shows "l_next (v a) = b" "seg (bump d v b) z A" "l_next (bump d v b a) = b" "l_prev (bump d v b b) = a"
    "l_span (bump d v b b) = int q - int p + d" "seg (bump d v b) (q, b) B" "ends (bump d v b) (q, b) B"
proof -
  let ?w = "v(b := (v b)\<lparr>l_span := l_span (v b) + d\<rparr>)"
  have w: "bump d v b = ?w" using assms(4) by (simp add: bump_def)
  have s: "seg v z A" "l_next (v a) = b" "l_prev (v b) = a" "l_span (v b) = int q - int p" "seg v (q, b) B"
    using assms(1) a by (simp_all add: seg_append)
  have d: "b \<noteq> snd z" "b \<notin> set (addrs A)" "b \<notin> set (addrs B)" using assms(3) by auto
  have "a \<noteq> b" using last_in [of z A] a d by auto
  then show "l_next (v a) = b" "l_next (bump d v b a) = b" "l_prev (bump d v b b) = a" "l_span (bump d v b b) = int q - int p + d"
    using s w by simp_all
  show "seg (bump d v b) z A" unfolding w by (rule seg_same [OF s(1)]) (use d set_addrs in auto)
  show "seg (bump d v b) (q, b) B" unfolding w
    by (rule seg_frame [OF s(5)]) (use d(3) set_addrs in auto)
  have "ends v (q, b) B" using assms(2) ends_append [of v z "A @ [(q, b)]" B] by simp
  then show "ends (bump d v b) (q, b) B" unfolding w by (auto simp: ends_def)
qed

lemma ends_mid: "ends v z (A @ y # B) \<longleftrightarrow> ends v y B"
  using ends_append [of v z "A @ [y]" B] by simp

lemma bump_up:
  assumes "seg v z (A @ B)" "ends v z (A @ B)" "distinct (snd z # addrs (A @ B))" "NULL \<notin> set (addrs B)" "last (z # A) = (p, a)"
  shows "seg (bump 1 v (l_next (v a))) z (A @ shift B) \<and> ends (bump 1 v (l_next (v a))) z (A @ shift B)"
proof (cases B)
  case Nil
  then have "l_next (v a) = NULL" using assms(2,5) by (simp add: ends_def)
  then show ?thesis using assms(1,2) Nil by (simp add: bump_def)
next
  case (Cons y B')
  obtain q b where y: "y = (q, b)" by (cases y)
  have b: "b \<noteq> NULL" using assms(4) Cons y by auto
  note r = bump_ok [OF assms(1-3) [unfolded Cons y] b assms(5)]
  have "seg (bump 1 v b) (Suc q, b) (shift B')" using r(6) seg_shift [of _ "(q, b)" B'] by simp
  moreover have "ends (bump 1 v b) (Suc q, b) (shift B')"
    using r(7) ends_shift [of _ "(Suc q, b)" B'] ends_snd [of "(Suc q, b)" "(q, b)" _ B'] by simp
  ultimately show ?thesis using r(1-5) assms(5) Cons y by (simp add: seg_append ends_mid)
qed

lemma bump_down:
  assumes "seg v z (A @ shift B)" "ends v z (A @ shift B)" "distinct (snd z # addrs (A @ B))" "NULL \<notin> set (addrs B)" "last (z # A) = (p, a)"
  shows "seg (bump (-1) v (l_next (v a))) z (A @ B) \<and> ends (bump (-1) v (l_next (v a))) z (A @ B)"
proof (cases B)
  case Nil
  then have "l_next (v a) = NULL" using assms(2,5) by (simp add: ends_def)
  then show ?thesis using assms(1,2) Nil by (simp add: bump_def)
next
  case (Cons y B')
  obtain q b where y: "y = (q, b)" by (cases y)
  have b: "b \<noteq> NULL" using assms(4) Cons y by auto
  have d: "distinct (snd z # addrs (A @ (Suc q, b) # shift B'))" using assms(3) Cons y by simp
  note r = bump_ok [OF assms(1,2) [unfolded Cons y, simplified] d b assms(5)]
  have "seg (bump (-1) v b) (q, b) B'" using r(6) seg_shift [of _ "(q, b)" B'] by simp
  moreover have "ends (bump (-1) v b) (q, b) B'"
    using r(7) ends_shift [of _ "(Suc q, b)" B'] ends_snd [of "(Suc q, b)" "(q, b)" _ B'] by simp
  ultimately show ?thesis using r(1-5) assms(5) Cons y by (simp add: seg_append ends_mid)
qed

lemma cut_ok:
  assumes "seg v z (A @ (Suc k, x) # shift B)" "ends v z (A @ (Suc k, x) # shift B)"
    and d: "distinct (snd z # addrs (A @ (Suc k, x) # B))" and n: "NULL \<notin> set (snd z # addrs (A @ B))"
    and a: "last (z # A) = (p, a)"
  shows "seg (cut v x) z (A @ B) \<and> ends (cut v x) z (A @ B)"
proof -
  define w where "w = cut v x"
  have s: "seg v z A" "l_next (v a) = x" "l_prev (v x) = a" "l_span (v x) = int (Suc k) - int p" "seg v (Suc k, x) (shift B)"
    using assms(1) a by (simp_all add: seg_append)
  have a_in: "a \<in> insert (snd z) (set (addrs A))" using last_in [of z A] a by simp
  have "a = NULL \<Longrightarrow> False" using a_in n by auto
  then have an: "a \<noteq> NULL" by blast
  have xA: "x \<noteq> snd z" "x \<notin> set (addrs A)" "x \<notin> set (addrs B)" "a \<notin> set (addrs B)" "x \<noteq> a" using d a_in by auto
  have dA: "distinct (snd z # addrs A)" using d by auto
  have e: "ends v (Suc k, x) (shift B)" using assms(2) by (simp add: ends_mid)
  have "seg w z (A @ B) \<and> ends w z (A @ B)"
  proof (cases B)
    case Nil
    then have "l_next (v x) = NULL" using e by (simp add: ends_def)
    then have w: "w = v(a := (v a)\<lparr>l_next := NULL\<rparr>)" using s an by (simp add: w_def cut_def Let_def)
    have "seg w z A" by (intro seg_upto [OF s(1) a dA]) (auto simp: w)
    then show ?thesis using Nil a by (simp add: ends_def w)
  next
    case (Cons y B')
    obtain q b where y: "y = (q, b)" by (cases y)
    have bn: "b \<noteq> NULL" "b \<noteq> x" "b \<noteq> a" "b \<noteq> snd z" "b \<notin> set (addrs A)" "b \<notin> set (addrs B')" using Cons y n xA d a_in by auto
    have b: "l_next (v x) = b" "l_span (v b) = int (Suc q) - int (Suc k)" "seg v (Suc q, b) (shift B')" using s(5) Cons y by auto
    have w: "w = v(a := (v a)\<lparr>l_next := b\<rparr>, b := (v b)\<lparr>l_prev := a, l_span := int q - int p\<rparr>)"
      using s b xA bn an by (auto simp: w_def cut_def Let_def)
    have 1: "seg w z A" using bn by (intro seg_upto [OF s(1) a dA]) (auto simp: w)
    have "seg v (q, b) B'" using b(3) seg_shift [of v "(q, b)" B'] by simp
    then have 2: "seg w (q, b) B'"
    proof (rule seg_frame)
      show "l_prev (w c) = l_prev (v c) \<and> l_span (w c) = l_span (v c)" if "c \<in> snd ` set B'" for c
        using that bn xA Cons y by (auto simp: w set_addrs)
      show "l_next (w c) = l_next (v c)" if "c \<in> set (butlast (snd (q, b) # map snd B'))" for c
        using in_set_butlastD [OF that] bn xA Cons y by (auto simp: w set_addrs)
    qed
    have "ends v (q, b) B'"
      using e Cons y ends_append [of v "(Suc k, x)" "[(Suc q, b)]" "shift B'"] ends_shift [of v "(Suc q, b)" B']
        ends_snd [of "(Suc q, b)" "(q, b)" v B'] by simp
    moreover have "snd (last ((q, b) # B')) \<noteq> a" using last_in [of "(q, b)" B'] bn xA Cons y by auto
    ultimately have 3: "ends w (q, b) B'" by (auto simp: ends_def w)
    have "seg w z (A @ B)" unfolding seg_append using 1 2 a Cons y bn by (simp add: w)
    then show ?thesis using 3 Cons y by (simp add: ends_mid)
  qed
  then show ?thesis by (simp add: w_def)
qed

section \<open>The operations on the memory\<close>

definition changes :: "(ptr \<rightharpoonup> sk_node) \<Rightarrow> (ptr \<rightharpoonup> sk_node) \<Rightarrow> nat \<Rightarrow> (ptr \<Rightarrow> sk_link) \<Rightarrow> bool" where
  \<comment> \<open>from \<open>m\<close> to \<open>m'\<close> only the links of level \<open>i\<close> change, to \<open>v\<close>\<close>
  "changes m m' i v \<longleftrightarrow> wf_mem m' \<and> label m' = label m \<and> links m' = (links m)(i := v)"

lemma changes_links: "changes m m' i v \<Longrightarrow> links m' j = (if j = i then v else links m j)"
  by (simp add: changes_def)

lemma changes_id: "wf_mem m \<Longrightarrow> changes m m i (links m i)"
  by (simp add: changes_def)

lemma upd_changes:
  "wf_mem m \<Longrightarrow> label m a \<noteq> None \<Longrightarrow> i < MAX_SKIPLIST_LEVEL \<Longrightarrow>
     \<exists>m'. upd m a i f = Some m' \<and> changes m m' i ((links m i)(a := f (links m i a)))"
  using upd_ok [of m a i f] by (auto simp: changes_def)

lemma changes_trans: "changes m m1 i v \<Longrightarrow> changes m1 m2 i w \<Longrightarrow> changes m m2 i w"
  by (auto simp: changes_def)

lemma bump_changes:
  assumes "wf_mem m" "b = NULL \<or> label m b \<noteq> None" "i < MAX_SKIPLIST_LEVEL"
  shows "\<exists>m'. (if b \<noteq> NULL then upd m b i (\<lambda>k. k\<lparr>l_span := l_span k + d\<rparr>) else Some m) = Some m'
    \<and> changes m m' i (bump d (links m i) b)"
  using upd_changes [OF assms(1) _ assms(3), of b "\<lambda>k. k\<lparr>l_span := l_span k + d\<rparr>"] changes_id [OF assms(1), of i] assms(2)
  by (auto simp: bump_def)

lemma insert_node_changes:
  assumes "wf_mem m" "i < MAX_SKIPLIST_LEVEL" "a \<noteq> NULL" "x \<noteq> NULL" "label m a \<noteq> None" "label m x \<noteq> None"
    and "l_next (links m i a) = NULL \<or> label m (l_next (links m i a)) \<noteq> None"
  shows "\<exists>m'. skiplist_insert_node m a x i = Some m' \<and> changes m m' i (put (links m i) a x)"
proof -
  let ?b = "l_next (links m i a)" and ?v1 = "(links m i)(a := (links m i a)\<lparr>l_next := x\<rparr>)"
  obtain m1 where m1: "upd m a i (\<lambda>k. k\<lparr>l_next := x\<rparr>) = Some m1" "changes m m1 i ?v1"
    using upd_changes [OF assms(1,5,2), of "\<lambda>k. k\<lparr>l_next := x\<rparr>"] by blast
  let ?v2 = "?v1(x := (?v1 x)\<lparr>l_prev := a, l_next := ?b\<rparr>)"
  obtain m2 where m2: "upd m1 x i (\<lambda>k. k\<lparr>l_prev := a, l_next := ?b\<rparr>) = Some m2" "changes m1 m2 i ?v2"
    using upd_changes [of m1 x i "\<lambda>k. k\<lparr>l_prev := a, l_next := ?b\<rparr>"] m1(2) assms(2,6) by (auto simp: changes_def)
  have l: "lnk m a i = Some (links m i a)" by (rule lnk_ok [OF assms(1,5,2)])
  have c: "changes m m2 i ?v2" by (rule changes_trans [OF m1(2) m2(2)])
  show ?thesis
  proof (cases "?b = NULL")
    case True
    then show ?thesis using l m1(1) m2(1) c assms(2-4) by (auto simp: skiplist_insert_node_def put_def Let_def)
  next
    case False
    obtain m3 where "upd m2 ?b i (\<lambda>k. k\<lparr>l_prev := x\<rparr>) = Some m3" "changes m2 m3 i (?v2(?b := (?v2 ?b)\<lparr>l_prev := x\<rparr>))"
      using upd_changes [of m2 ?b i "\<lambda>k. k\<lparr>l_prev := x\<rparr>"] c assms(2,7) False by (auto simp: changes_def)
    then show ?thesis using l m1(1) m2(1) changes_trans [OF c] False assms(2-4)
      by (auto simp: skiplist_insert_node_def put_def Let_def)
  qed
qed

lemma erase_node_changes:
  assumes "wf_mem m" "i < MAX_SKIPLIST_LEVEL" "x \<noteq> NULL" "label m x \<noteq> None"
    and "\<And>c. c \<in> {l_prev (links m i x), l_next (links m i x)} \<Longrightarrow> c = NULL \<or> label m c \<noteq> None"
  shows "\<exists>m'. skiplist_erase_node m x i = Some m' \<and> changes m m' i (cut (links m i) x)"
proof -
  let ?a = "l_prev (links m i x)" and ?b = "l_next (links m i x)"
  let ?v1 = "if ?a \<noteq> NULL then (links m i)(?a := (links m i ?a)\<lparr>l_next := ?b\<rparr>) else links m i"
  have "\<exists>m1. (if ?a \<noteq> NULL then upd m ?a i (\<lambda>k. k\<lparr>l_next := ?b\<rparr>) else Some m) = Some m1 \<and> changes m m1 i ?v1"
    using upd_changes [OF assms(1) _ assms(2), of ?a "\<lambda>k. k\<lparr>l_next := ?b\<rparr>"] changes_id [OF assms(1), of i] assms(5) [of ?a]
    by (cases "?a = NULL") auto
  then obtain m1 where m1: "(if ?a \<noteq> NULL then upd m ?a i (\<lambda>k. k\<lparr>l_next := ?b\<rparr>) else Some m) = Some m1" "changes m m1 i ?v1"
    by blast
  have l: "lnk m x i = Some (links m i x)" by (rule lnk_ok [OF assms(1,4,2)])
  have l1: "lnk m1 x i = Some (?v1 x)" using lnk_ok [of m1 x i] m1(2) assms(2,4) by (auto simp: changes_def)
  have sp: "l_span (?v1 x) = l_span (links m i x)" by simp
  show ?thesis
  proof (cases "?b = NULL")
    case True
    then show ?thesis using l m1 assms(2,3) by (auto simp: skiplist_erase_node_def cut_def Let_def)
  next
    case False
    let ?f = "\<lambda>k. k\<lparr>l_prev := ?a, l_span := l_span k + (l_span (links m i x) - 1)\<rparr>"
    obtain m2 where m2: "upd m1 ?b i ?f = Some m2" "changes m1 m2 i (?v1(?b := ?f (?v1 ?b)))"
      using upd_changes [of m1 ?b i ?f] m1(2) assms(2) assms(5) [of ?b] False by (auto simp: changes_def)
    have "cut (links m i) x = ?v1(?b := ?f (?v1 ?b))" using False by (auto simp: cut_def Let_def)
    then have "changes m m2 i (cut (links m i) x)" using changes_trans [OF m1(2) m2(2)] by simp
    moreover have "skiplist_erase_node m x i = Some m2"
      using l m1(1) l1 m2(1) False assms(2,3) unfolding skiplist_erase_node_def sp [symmetric] by simp
    ultimately show ?thesis by blast
  qed
qed

lemma span_shift: "(\<lambda>k. k\<lparr>l_span := l_span k - (s - 1)\<rparr>) = (\<lambda>k. k\<lparr>l_span := l_span k + (1 - s)\<rparr>)"
  by (simp add: algebra_simps)

lemma insert_span_changes:
  assumes "wf_mem m" "i < MAX_SKIPLIST_LEVEL" "0 < i" "label m x \<noteq> None" "i \<le> length spans"
    and "l_next (links m i x) = NULL \<or> label m (l_next (links m i x)) \<noteq> None"
  shows "\<exists>m'. insert_span x spans i m = Some m'
    \<and> changes m m' i (respan (links m i) x (l_span (links m (i - 1) x) + spans ! (i - 1)))"
proof -
  let ?s = "l_span (links m (i - 1) x) + spans ! (i - 1)"
  let ?v1 = "(links m i)(x := (links m i x)\<lparr>l_span := ?s\<rparr>)"
  obtain m1 where m1: "upd m x i (\<lambda>k. k\<lparr>l_span := ?s\<rparr>) = Some m1" "changes m m1 i ?v1"
    using upd_changes [OF assms(1,4,2), of "\<lambda>k. k\<lparr>l_span := ?s\<rparr>"] by blast
  have w1: "wf_mem m1" "label m1 = label m" "links m1 i = ?v1" using m1(2) by (auto simp: changes_def)
  have l: "lnk m x (i - 1) = Some (links m (i - 1) x)" using lnk_ok [OF assms(1,4), of "i - 1"] assms(2) by simp
  have l1: "lnk m1 x i = Some (?v1 x)" using lnk_ok [OF w1(1), of x i] w1 assms(2,4) by simp
  have n1: "l_next (?v1 x) = l_next (links m i x)" by simp
  obtain m2 where m2: "(if l_next (?v1 x) \<noteq> NULL then upd m1 (l_next (?v1 x)) i (\<lambda>k. k\<lparr>l_span := l_span k + (1 - ?s)\<rparr>) else Some m1) = Some m2"
      "changes m1 m2 i (bump (1 - ?s) ?v1 (l_next (?v1 x)))"
    using bump_changes [OF w1(1) _ assms(2), of "l_next (?v1 x)" "1 - ?s"] assms(6) w1(2,3) by auto
  have "insert_span x spans i m = Some m2"
    using l m1(1) l1 m2(1) assms(3,5) unfolding insert_span_def by (cases "l_next (links m i x) = NULL") (simp_all add: span_shift)
  moreover have "changes m m2 i (respan (links m i) x ?s)"
    using changes_trans [OF m1(2) m2(2)] by (simp add: respan_def Let_def)
  ultimately show ?thesis by blast
qed

section \<open>What the memory holds\<close>

fun lev :: "nat \<Rightarrow> nat \<Rightarrow> (ptr \<times> nat \<times> ptr) list \<Rightarrow> (nat \<times> ptr) list" where
  \<comment> \<open>the nodes on level \<open>i\<close>, with their positions counted from \<open>p\<close>\<close>
  "lev i p [] = []"
| "lev i p (n # ns) = (if i \<le> fst (snd n) then (p, fst n) # lev i (Suc p) ns else lev i (Suc p) ns)"

lemma lev_append [simp]: "lev i p (xs @ ys) = lev i p xs @ lev i (p + length xs) ys"
  by (induction xs arbitrary: p) auto

lemma lev_shift: "lev i (Suc p) ns = shift (lev i p ns)"
  by (induction ns arbitrary: p) auto

lemma set_lev: "set (addrs (lev i p ns)) \<subseteq> fst ` set ns"
  by (induction ns arbitrary: p) auto

lemma distinct_lev: "distinct (map fst ns) \<Longrightarrow> distinct (addrs (lev i p ns))"
  using set_lev by (induction ns arbitrary: p) fastforce+

lemma lev_mem: "c \<in> set (addrs (lev i p ns)) \<Longrightarrow> \<exists>lv d. (c, lv, d) \<in> set ns \<and> i \<le> lv"
proof (induction ns arbitrary: p)
  case (Cons n ns)
  obtain a l d where n: "n = (a, l, d)" by (cases n)
  have "c = a \<and> i \<le> l \<or> c \<in> set (addrs (lev i (Suc p) ns))" using Cons.prems n by (auto split: if_splits)
  then show ?case using Cons.IH n by fastforce
qed simp

lemma lev_ne: "(c, lv, d) \<in> set ns \<Longrightarrow> i \<le> lv \<Longrightarrow> lev i p ns \<noteq> []"
  by (induction ns arbitrary: p) auto

lemma last_lev0: "fst (last ((p, h) # lev 0 (Suc p) ns)) = p + length ns"
  by (induction ns arbitrary: p h) auto

text \<open>The last node of a level is also on the level below.\<close>

lemma lev_split: "\<exists>X Y. lev i p lo = X @ Y \<and> last (z # X) = last (z # lev (Suc i) p lo)"
proof (induction lo rule: rev_induct)
  case (snoc n lo)
  then obtain X Y where XY: "lev i p lo = X @ Y" "last (z # X) = last (z # lev (Suc i) p lo)" by blast
  show ?case
  proof (cases "Suc i \<le> fst (snd n)")
    case True
    then show ?thesis by (intro exI [of _ "lev i p (lo @ [n])"] exI [of _ "[]"]) simp
  next
    case False
    then show ?thesis using XY by (intro exI [of _ X] exI [of _ "Y @ lev i (p + length lo) [n]"]) simp
  qed
qed simp

definition sk_rep :: "(ptr \<rightharpoonup> sk_node) \<Rightarrow> ptr \<Rightarrow> (ptr \<times> nat \<times> ptr) list \<Rightarrow> nat \<Rightarrow> bool" where
  \<comment> \<open>the levels below \<open>L\<close> are in order\<close>
  "sk_rep m h ns L \<longleftrightarrow> wf_mem m \<and> NULL \<notin> set (h # map fst ns) \<and> distinct (h # map fst ns) \<and> label m h \<noteq> None
     \<and> (\<forall>(a, lv, d) \<in> set ns. label m a = Some (lv, d) \<and> lv < MAX_SKIPLIST_LEVEL)
     \<and> (\<forall>i < L. seg (links m i) (0, h) (lev i 1 ns) \<and> ends (links m i) (0, h) (lev i 1 ns))"

definition sk_holds :: "(ptr \<rightharpoonup> sk_node) \<Rightarrow> ptr \<Rightarrow> (ptr \<times> nat \<times> ptr) list \<Rightarrow> bool" where
  "sk_holds m h ns \<longleftrightarrow> sk_rep m h ns MAX_SKIPLIST_LEVEL \<and> dom m = insert h (fst ` set ns)"

abbreviation sk_data :: "(ptr \<times> nat \<times> ptr) list \<Rightarrow> ptr list" where
  "sk_data ns \<equiv> map (\<lambda>n. snd (snd n)) ns"

lemma sk_repD:
  assumes "sk_rep m h ns L"
  shows "wf_mem m" "h \<noteq> NULL" "NULL \<notin> fst ` set ns" "h \<notin> fst ` set ns" "distinct (map fst ns)" "label m h \<noteq> None"
    and "(a, lv, d) \<in> set ns \<Longrightarrow> label m a = Some (lv, d) \<and> lv < MAX_SKIPLIST_LEVEL"
    and "i < L \<Longrightarrow> seg (links m i) (0, h) (lev i 1 ns)" "i < L \<Longrightarrow> ends (links m i) (0, h) (lev i 1 ns)"
    and "distinct (h # addrs (lev i p ns))" "NULL \<notin> set (addrs (lev i p ns))"
    and "c \<in> set (addrs (lev i p ns)) \<Longrightarrow> label m c \<noteq> None"
proof -
  note s = assms [unfolded sk_rep_def]
  show "wf_mem m" "h \<noteq> NULL" "NULL \<notin> fst ` set ns" "h \<notin> fst ` set ns" "distinct (map fst ns)" "label m h \<noteq> None"
    "i < L \<Longrightarrow> seg (links m i) (0, h) (lev i 1 ns)" "i < L \<Longrightarrow> ends (links m i) (0, h) (lev i 1 ns)"
    using s by auto
  show l: "(a, lv, d) \<in> set ns \<Longrightarrow> label m a = Some (lv, d) \<and> lv < MAX_SKIPLIST_LEVEL" for a lv d using s by blast
  show "distinct (h # addrs (lev i p ns))" "NULL \<notin> set (addrs (lev i p ns))"
    using s set_lev [of i p ns] distinct_lev [of ns i p] by auto
  show "label m c \<noteq> None" if "c \<in> set (addrs (lev i p ns))" using lev_mem [OF that] l by fastforce
qed

lemma sk_rep_changes:
  assumes "sk_rep m h ns (Suc L)" "changes m m' L v"
  shows "sk_rep m' h ns L"
  using assms by (auto simp: sk_rep_def changes_def)

section \<open>Insertion\<close>

lemma seg_next:
  assumes "seg v z (A @ B)" "ends v z (A @ B)"
  shows "l_next (v (snd (last (z # A)))) = (case B of [] \<Rightarrow> NULL | y # _ \<Rightarrow> snd y)"
  using assms by (cases B) (auto simp: seg_append ends_def)

lemma insert_walk_ok:
  assumes "wf_mem m" "i < MAX_SKIPLIST_LEVEL" "seg (links m i) z (A @ B)" "ends (links m i) z (A @ B)"
    and "NULL \<notin> set (addrs (A @ B))" "label m (snd z) \<noteq> None"
    and "\<And>c. c \<in> set (addrs A) \<Longrightarrow> \<exists>lv d. label m c = Some (lv, d) \<and> cmp d x \<le> 0"
    and "B \<noteq> [] \<Longrightarrow> \<exists>lv d. label m (snd (hd B)) = Some (lv, d) \<and> \<not> cmp d x \<le> 0"
  shows "insert_walk cmp m i x (snd z) sp = Some (snd (last (z # A)), sp + int (fst (last (z # A))) - int (fst z))"
  using assms(3-7)
proof (induction A arbitrary: z sp)
  case Nil
  have l: "lnk m (snd z) i = Some (links m i (snd z))" using Nil.prems(4) assms(1,2) by (intro lnk_ok) auto
  show ?case
  proof (cases B)
    case Nil
    then show ?thesis using seg_next [of "links m i" z "[]" B] Nil.prems l by (subst insert_walk.simps) simp
  next
    case (Cons y B')
    then obtain lv d where d: "label m (snd y) = Some (lv, d)" "\<not> cmp d x \<le> 0" using assms(8) by auto
    then obtain n where n: "m (snd y) = Some n" "sn_data n = d" using node_label by blast
    show ?thesis using seg_next [of "links m i" z "[]" B] Nil.prems Cons l d n by (subst insert_walk.simps) simp
  qed
next
  case (Cons y A)
  obtain lv d where d: "label m (snd y) = Some (lv, d)" "cmp d x \<le> 0" using Cons.prems(5) [of "snd y"] by auto
  then obtain n where n: "m (snd y) = Some n" "sn_data n = d" using node_label by blast
  have l: "lnk m (snd z) i = Some (links m i (snd z))" using Cons.prems(4) assms(1,2) by (intro lnk_ok) auto
  have k: "lnk m (snd y) i = Some (links m i (snd y))" using d assms(1,2) by (intro lnk_ok) auto
  have e: "ends (links m i) y (A @ B)" using Cons.prems(2) ends_mid [of _ z "[]" y "A @ B"] by simp
  have sp: "l_next (links m i (snd z)) = snd y" "l_span (links m i (snd y)) = int (fst y) - int (fst z)" "seg (links m i) y (A @ B)"
    using Cons.prems(1) by simp_all
  have "insert_walk cmp m i x (snd y) (sp + l_span (links m i (snd y))) =
      Some (snd (last (y # A)), sp + l_span (links m i (snd y)) + int (fst (last (y # A))) - int (fst y))"
    using Cons.prems e sp(3) d by (intro Cons.IH) auto
  then show ?case using l k n d(2) sp(1,2) Cons.prems(3) by (subst insert_walk.simps) simp
qed

definition pred_of :: "ptr \<Rightarrow> nat \<Rightarrow> (ptr \<times> nat \<times> ptr) list \<Rightarrow> nat \<times> ptr" where
  \<comment> \<open>the last node of the list \<open>lo\<close> on level \<open>i\<close>, or the head\<close>
  "pred_of h i lo = last ((0, h) # lev i 1 lo)"

lemma insert_levels_ok:
  assumes "sk_rep m h (lo @ hi) L" "L \<le> MAX_SKIPLIST_LEVEL" "length spans = MAX_SKIPLIST_LEVEL"
    and "x \<noteq> NULL" "label m x \<noteq> None"
    and "\<forall>n \<in> set lo. cmp (snd (snd n)) d \<le> 0" "\<forall>n \<in> set hi. \<not> cmp (snd (snd n)) d \<le> 0"
  shows "\<exists>m' spans'. insert_levels cmp x lv d L (snd (pred_of h L lo)) (m, spans) = Some (m', spans')
    \<and> wf_mem m' \<and> label m' = label m \<and> length spans' = MAX_SKIPLIST_LEVEL
    \<and> (\<forall>j. links m' j = (if L \<le> j then links m j
         else if j \<le> lv then put (links m j) (snd (pred_of h j lo)) x
         else bump 1 (links m j) (l_next (links m j (snd (pred_of h j lo))))))
    \<and> (\<forall>j. spans' ! j = (if L \<le> j then spans ! j else int (fst (pred_of h j lo)) - int (fst (pred_of h (Suc j) lo))))"
  using assms(1-3,5)
proof (induction L arbitrary: m spans)
  case 0
  then show ?case by (auto dest: sk_repD)
next
  case (Suc L)
  note R = sk_repD [OF Suc.prems(1)]
  let ?v = "links m L" and ?B = "lev L (1 + length lo) hi"
  let ?a = "snd (pred_of h L lo)"
  have L: "L < MAX_SKIPLIST_LEVEL" using Suc.prems(2) by simp
  have seg: "seg ?v (0, h) (lev L 1 lo @ ?B)" "ends ?v (0, h) (lev L 1 lo @ ?B)" using R(8,9) [of L] by simp_all
  obtain X Y where XY: "lev L 1 lo = X @ Y" "last ((0, h) # X) = pred_of h (Suc L) lo" using lev_split unfolding pred_of_def by blast
  let ?z = "pred_of h (Suc L) lo"
  have Y: "last (?z # Y) = pred_of h L lo" using XY by (cases Y rule: rev_cases) (auto simp: pred_of_def [of h L])
  have seg': "seg ?v ?z (Y @ ?B)" "ends ?v ?z (Y @ ?B)"
    using seg XY seg_append [of ?v "(0, h)" X "Y @ ?B"] ends_append [of ?v "(0, h)" X "Y @ ?B"] by simp_all
  have lab: "label m (snd (pred_of h j lo)) \<noteq> None" for j
    using last_in [of "(0, h)" "lev j 1 lo"] R(6) R(12) [of "snd (pred_of h j lo)" j 1] by (auto simp: pred_of_def)
  have low: "\<exists>lv e. label m c = Some (lv, e) \<and> cmp e d \<le> 0" if "c \<in> set (addrs Y)" for c
  proof -
    have "c \<in> set (addrs (lev L 1 lo))" using that XY(1) by simp
    then obtain l e where "(c, l, e) \<in> set lo" using lev_mem by blast
    then show ?thesis using R(7) [of c l e] assms(6) by fastforce
  qed
  have high: "\<exists>lv e. label m (snd (hd ?B)) = Some (lv, e) \<and> \<not> cmp e d \<le> 0" if "?B \<noteq> []"
  proof -
    have "snd (hd ?B) \<in> set (addrs ?B)" using that by (cases ?B) auto
    then obtain l e where "(snd (hd ?B), l, e) \<in> set hi" using lev_mem by blast
    then show ?thesis using R(7) [of "snd (hd ?B)" l e] assms(7) by fastforce
  qed
  have walk: "insert_walk cmp m L d (snd ?z) 0 = Some (?a, int (fst (pred_of h L lo)) - int (fst ?z))"
  proof -
    have "NULL \<notin> set (addrs (Y @ ?B))" using R(11) [of L 1] XY(1) by simp
    then have "insert_walk cmp m L d (snd ?z) 0 = Some (snd (last (?z # Y)), 0 + int (fst (last (?z # Y))) - int (fst ?z))"
      using lab [of "Suc L"] low high by (intro insert_walk_ok [OF R(1) L seg']) blast+
    then show ?thesis using Y by simp
  qed
  have b: "l_next (?v ?a) = NULL \<or> label m (l_next (?v ?a)) \<noteq> None"
    using seg_next [OF seg] R(12) [of _ L 1] by (cases ?B) (auto simp: pred_of_def)
  let ?w = "if L \<le> lv then put ?v ?a x else bump 1 ?v (l_next (?v ?a))"
  have an: "?a \<noteq> NULL" using last_in [of "(0, h)" "lev L 1 lo"] R(2) R(11) [of L 1] unfolding pred_of_def by (metis addrs_simps(3) Un_iff insert_iff lev_append set_append snd_conv)
  have "\<exists>m1. (if L \<le> lv then skiplist_insert_node m ?a x L
       else do { l \<leftarrow> lnk m ?a L; if l_next l \<noteq> NULL then upd m (l_next l) L (\<lambda>k. k\<lparr>l_span := l_span k + 1\<rparr>) else Some m }) = Some m1
      \<and> changes m m1 L ?w"
    using insert_node_changes [OF R(1) L an assms(4) lab Suc.prems(4) b] bump_changes [OF R(1) b L, of 1] lnk_ok [OF R(1) lab L]
    by (cases "L \<le> lv") simp_all
  then obtain m1 where m1: "(if L \<le> lv then skiplist_insert_node m ?a x L
       else do { l \<leftarrow> lnk m ?a L; if l_next l \<noteq> NULL then upd m (l_next l) L (\<lambda>k. k\<lparr>l_span := l_span k + 1\<rparr>) else Some m }) = Some m1"
      "changes m m1 L ?w"
    by blast
  let ?sp = "spans[L := int (fst (pred_of h L lo)) - int (fst ?z)]"
  obtain m' spans' where IH: "insert_levels cmp x lv d L ?a (m1, ?sp) = Some (m', spans')" "wf_mem m'" "label m' = label m1"
      "length spans' = MAX_SKIPLIST_LEVEL"
      "\<forall>j. links m' j = (if L \<le> j then links m1 j
         else if j \<le> lv then put (links m1 j) (snd (pred_of h j lo)) x
         else bump 1 (links m1 j) (l_next (links m1 j (snd (pred_of h j lo)))))"
      "\<forall>j. spans' ! j = (if L \<le> j then ?sp ! j else int (fst (pred_of h j lo)) - int (fst (pred_of h (Suc j) lo)))"
    using Suc.IH [OF sk_rep_changes [OF Suc.prems(1) m1(2)], of ?sp] Suc.prems(2-4) m1(2) by (auto simp: changes_def)
  have "insert_levels cmp x lv d (Suc L) (snd ?z) (m, spans) = Some (m', spans')"
    using walk m1(1) IH(1) Suc.prems(3) L by simp
  moreover have "label m' = label m" using IH(3) m1(2) by (simp add: changes_def)
  moreover have "links m' j = (if Suc L \<le> j then links m j
         else if j \<le> lv then put (links m j) (snd (pred_of h j lo)) x
         else bump 1 (links m j) (l_next (links m j (snd (pred_of h j lo)))))" for j
    using IH(5) changes_links [OF m1(2), of j] by (cases "j = L") auto
  moreover have "spans' ! j = (if Suc L \<le> j then spans ! j else int (fst (pred_of h j lo)) - int (fst (pred_of h (Suc j) lo)))" for j
    using IH(6) Suc.prems(3) L by (cases "j = L") (auto simp: nth_list_update)
  ultimately show ?case using IH(2,4) by blast
qed

lemma respan_one: "respan v x 1 = v(x := (v x)\<lparr>l_span := 1\<rparr>)"
  by (auto simp: respan_def bump_def Let_def)

lemma put_next: "x \<noteq> a \<Longrightarrow> l_next (v a) \<noteq> x \<Longrightarrow> l_next (put v a x x) = l_next (v a)"
  by (auto simp: put_def Let_def)

lemma respan_span: "l_next (v x) \<noteq> x \<Longrightarrow> l_span (respan v x s x) = s"
  by (auto simp: respan_def bump_def Let_def)

lemma insert_spans_ok:
  assumes "wf_mem m" "n < MAX_SKIPLIST_LEVEL" "label m x \<noteq> None" "length spans = MAX_SKIPLIST_LEVEL"
    and "\<And>i. i \<le> n \<Longrightarrow> l_next (links m i x) = NULL \<or> label m (l_next (links m i x)) \<noteq> None"
    and "\<And>i. i \<le> n \<Longrightarrow> l_next (links m i x) \<noteq> x"
    and "l_span (links m 0 x) = s 0" "\<And>i. i < n \<Longrightarrow> spans ! i = s (Suc i) - s i"
  shows "\<exists>m'. foldM (insert_span x spans) [1..<n + 1] m = Some m' \<and> wf_mem m' \<and> label m' = label m
    \<and> (\<forall>j. links m' j = (if 1 \<le> j \<and> j \<le> n then respan (links m j) x (s j) else links m j))"
  using assms(2,5,6,8)
proof (induction n)
  case 0
  then show ?case using assms(1) by auto
next
  case (Suc n)
  obtain m1 where m1: "foldM (insert_span x spans) [1..<n + 1] m = Some m1" "wf_mem m1" "label m1 = label m"
      "\<forall>j. links m1 j = (if 1 \<le> j \<and> j \<le> n then respan (links m j) x (s j) else links m j)"
    using Suc by auto
  have "l_span (links m1 n x) = s n"
    using m1(4) assms(7) respan_span [of "links m n" x "s n"] Suc.prems(3) [of n] by (cases "n = 0") auto
  moreover have l: "links m1 (Suc n) = links m (Suc n)" using m1(4) by simp
  moreover have "spans ! n = s (Suc n) - s n" using Suc.prems(4) by simp
  ultimately obtain m2 where m2: "insert_span x spans (Suc n) m1 = Some m2" "changes m1 m2 (Suc n) (respan (links m (Suc n)) x (s (Suc n)))"
    using insert_span_changes [OF m1(2) Suc.prems(1), of x spans] assms(3,4) m1(3) Suc.prems(1) Suc.prems(2) [of "Suc n"] by auto
  have "foldM (insert_span x spans) [1..<Suc n + 1] m = Some m2" using m1(1) m2(1) by (simp add: foldM_append)
  moreover have "wf_mem m2" "label m2 = label m" using m2(2) m1(3) by (auto simp: changes_def)
  moreover have "links m2 j = (if 1 \<le> j \<and> j \<le> Suc n then respan (links m j) x (s j) else links m j)" for j
    using changes_links [OF m2(2), of j] m1(4) by (cases "j = Suc n") auto
  ultimately show ?case by blast
qed

lemma sk_holds_alloc:
  assumes "sk_holds m h ns" "m x = None" "length (sn_link n) = MAX_SKIPLIST_LEVEL"
  shows "sk_rep (m(x \<mapsto> n)) h ns MAX_SKIPLIST_LEVEL"
proof -
  have R: "sk_rep m h ns MAX_SKIPLIST_LEVEL" using assms(1) by (simp add: sk_holds_def)
  have fresh: "x \<notin> insert h (fst ` set ns)" using assms by (auto simp: sk_holds_def)
  have same: "links (m(x \<mapsto> n)) i c = links m i c" "label (m(x \<mapsto> n)) c = label m c" if "c \<noteq> x" for i c
    using that by (simp_all add: links_def label_def)
  have xl: "x \<notin> insert h (set (addrs (lev i 1 ns)))" for i using fresh set_lev [of i 1 ns] by auto
  show ?thesis
    unfolding sk_rep_def
  proof (intro conjI)
    show "wf_mem (m(x \<mapsto> n))" using R assms(3) by (auto simp: sk_rep_def wf_mem_def)
    show "\<forall>(a, lv, d) \<in> set ns. label (m(x \<mapsto> n)) a = Some (lv, d) \<and> lv < MAX_SKIPLIST_LEVEL"
    proof (intro ballI, clarify)
      fix a lv d assume a: "(a, lv, d) \<in> set ns"
      then have "a \<in> fst ` set ns" by (auto intro: rev_image_eqI)
      then have "a \<noteq> x" using fresh by auto
      then show "label (m(x \<mapsto> n)) a = Some (lv, d) \<and> lv < MAX_SKIPLIST_LEVEL" using sk_repD(7) [OF R a] same(2) by simp
    qed
    show "\<forall>i < MAX_SKIPLIST_LEVEL. seg (links (m(x \<mapsto> n)) i) (0, h) (lev i 1 ns) \<and> ends (links (m(x \<mapsto> n)) i) (0, h) (lev i 1 ns)"
    proof (intro allI impI conjI)
      fix i assume i: "i < MAX_SKIPLIST_LEVEL"
      show "seg (links (m(x \<mapsto> n)) i) (0, h) (lev i 1 ns)"
        by (rule seg_same [OF sk_repD(8) [OF R i]], rule same) (use xl [of i] set_addrs [of "lev i 1 ns"] in auto)
      have "snd (last ((0, h) # lev i 1 ns)) \<noteq> x" using last_in [of "(0, h)" "lev i 1 ns"] xl [of i] by auto
      then show "ends (links (m(x \<mapsto> n)) i) (0, h) (lev i 1 ns)"
        using sk_repD(9) [OF R i] same by (simp add: ends_def)
    qed
  qed (use R fresh same in \<open>auto simp: sk_rep_def\<close>)
qed

lemma insert_ok:
  assumes H: "sk_holds (sk_mem s) (sk_head s) (lo @ hi)" and x: "x \<noteq> NULL" "sk_mem s x = None" and d: "d \<noteq> NULL"
    and lv: "skiplist_rand_level s rnd = Some lv" "lv < MAX_SKIPLIST_LEVEL"
    and "\<forall>n \<in> set lo. sk_cmp s (snd (snd n)) d \<le> 0" "\<forall>n \<in> set hi. \<not> sk_cmp s (snd (snd n)) d \<le> 0"
  shows "\<exists>m'. skiplist_insert (Some s) x rnd d = Some (Some (s\<lparr>sk_mem := m'\<rparr>), 0) \<and> sk_holds m' (sk_head s) (lo @ (x, lv, d) # hi)"
proof -
  let ?h = "sk_head s" and ?k = "length lo"
  define m0 where "m0 = (sk_mem s)(x \<mapsto> \<lparr>sn_link = zero_links, sn_level = lv, sn_data = d\<rparr>)"
  have R0: "sk_rep m0 ?h (lo @ hi) MAX_SKIPLIST_LEVEL"
    unfolding m0_def by (rule sk_holds_alloc [OF H x(2)]) (simp add: zero_links_def)
  note R = sk_repD [OF R0]
  have lx: "label m0 x = Some (lv, d)" by (simp add: m0_def label_def)
  have fresh: "x \<notin> insert ?h (fst ` set (lo @ hi))" using H x(2) by (auto simp: sk_holds_def)
  have xl: "x \<notin> set (addrs (lev i p (lo @ hi)))" for i p using fresh set_lev [of i p "lo @ hi"] by auto
  define pa where "pa j = snd (pred_of ?h j lo)" for j
  define pos where "pos j = fst (pred_of ?h j lo)" for j
  have pp: "pred_of ?h j lo = (pos j, pa j)" for j by (simp add: pa_def pos_def)
  have top: "pred_of ?h MAX_SKIPLIST_LEVEL lo = (0, ?h)"
  proof -
    have "lev MAX_SKIPLIST_LEVEL 1 lo = []" using R(7) lev_mem [of _ MAX_SKIPLIST_LEVEL 1 lo]
      by (cases "lev MAX_SKIPLIST_LEVEL 1 lo") (auto, fastforce)
    then show ?thesis by (simp add: pred_of_def)
  qed
  have bot: "pos 0 = ?k" using last_lev0 [of 0 ?h lo] by (simp add: pos_def pred_of_def)
  obtain m1 spans where m1: "insert_levels (sk_cmp s) x lv d MAX_SKIPLIST_LEVEL ?h (m0, replicate MAX_SKIPLIST_LEVEL 0) = Some (m1, spans)"
      "wf_mem m1" "label m1 = label m0" "length spans = MAX_SKIPLIST_LEVEL"
      "\<And>j. links m1 j = (if MAX_SKIPLIST_LEVEL \<le> j then links m0 j
         else if j \<le> lv then put (links m0 j) (pa j) x else bump 1 (links m0 j) (l_next (links m0 j (pa j))))"
      "\<And>j. spans ! j = (if MAX_SKIPLIST_LEVEL \<le> j then replicate MAX_SKIPLIST_LEVEL 0 ! j else int (pos j) - int (pos (Suc j)))"
    using insert_levels_ok [OF R0, of "replicate MAX_SKIPLIST_LEVEL 0" x "sk_cmp s" d lv] x(1) lx assms(7,8) top
    unfolding pa_def pos_def by auto
  have seg: "seg (links m0 i) (0, ?h) (lev i 1 lo @ lev i (Suc ?k) hi)" "ends (links m0 i) (0, ?h) (lev i 1 lo @ lev i (Suc ?k) hi)"
    if "i < MAX_SKIPLIST_LEVEL" for i using R(8,9) [OF that] by simp_all
  have pa: "last ((0, ?h) # lev i 1 lo) = (pos i, pa i)" for i using pp [of i] by (simp add: pred_of_def)
  have nx: "l_next (links m0 i (pa i)) = NULL \<or> l_next (links m0 i (pa i)) \<in> set (addrs (lev i 1 (lo @ hi)))"
    if "i < MAX_SKIPLIST_LEVEL" for i
    using seg_next [OF seg [OF that]] pa [of i] by (cases "lev i (Suc ?k) hi") auto
  have px: "pa i \<noteq> x" for i using last_in [of "(0, ?h)" "lev i 1 lo"] pa [of i] xl [of i 1] fresh by auto
  have nxx: "l_next (links m0 i (pa i)) \<noteq> x" if "i < MAX_SKIPLIST_LEVEL" for i using nx [OF that] xl [of i 1] x(1) by auto
  have n1: "l_next (links m1 i x) = l_next (links m0 i (pa i))" if "i \<le> lv" for i
    using m1(5) [of i] put_next [of x "pa i" "links m0 i"] px [of i] nxx [of i] that lv(2) by auto
  obtain m2 where m2: "upd m1 x 0 (\<lambda>k. k\<lparr>l_span := 1\<rparr>) = Some m2" "changes m1 m2 0 (respan (links m1 0) x 1)"
    using upd_changes [OF m1(2), of x 0 "\<lambda>k. k\<lparr>l_span := 1\<rparr>"] m1(3) lx by (auto simp: respan_one MAX_SKIPLIST_LEVEL_def)
  have w2: "wf_mem m2" "label m2 = label m0" "\<And>j. links m2 j = (if j = 0 then respan (links m1 0) x 1 else links m1 j)"
    using m2(2) m1(3) by (auto simp: changes_def)
  have n2: "l_next (links m2 i x) = l_next (links m0 i (pa i))" if "i \<le> lv" for i
    using n1 [OF that] w2(3) [of i] by (cases "i = 0") (auto simp: respan_one)
  define s' where "s' j = int (Suc ?k) - int (pos j)" for j
  obtain m3 where m3: "foldM (insert_span x spans) [1..<lv + 1] m2 = Some m3" "wf_mem m3" "label m3 = label m0"
      "\<And>j. links m3 j = (if 1 \<le> j \<and> j \<le> lv then respan (links m2 j) x (s' j) else links m2 j)"
  proof -
    have "l_next (links m2 i x) = NULL \<or> label m2 (l_next (links m2 i x)) \<noteq> None" "l_next (links m2 i x) \<noteq> x" if "i \<le> lv" for i
      using n2 [OF that] nx [of i] nxx [of i] R(12) [of _ i 1] w2(2) that lv(2) by auto
    moreover have "l_span (links m2 0 x) = s' 0" using w2(3) [of 0] bot by (simp add: respan_one s'_def)
    moreover have "spans ! i = s' (Suc i) - s' i" if "i < lv" for i using m1(6) [of i] that lv(2) by (simp add: s'_def)
    ultimately show ?thesis using insert_spans_ok [OF w2(1) lv(2), of x spans s'] lx w2(2) m1(4) that by auto
  qed
  have final: "seg (links m3 i) (0, ?h) (lev i 1 (lo @ (x, lv, d) # hi)) \<and> ends (links m3 i) (0, ?h) (lev i 1 (lo @ (x, lv, d) # hi))"
    if i: "i < MAX_SKIPLIST_LEVEL" for i
  proof -
    have D: "distinct (snd (0 :: nat, ?h) # addrs (lev i 1 lo @ lev i (Suc ?k) hi) @ [x])" "NULL \<notin> set (addrs (lev i 1 lo @ lev i (Suc ?k) hi))"
      using R(10,11) [of i 1] xl [of i 1] fresh by auto
    show ?thesis
    proof (cases "i \<le> lv")
      case True
      have "links m3 i = respan (put (links m0 i) (pa i) x) x (s' i)"
        using m3(4) [of i] w2(3) [of i] m1(5) [of i] True i bot by (cases "i = 0") (auto simp: s'_def)
      then show ?thesis
        using put_ok [OF seg [OF i] D x(1) pa [of i], of "s' i" ?k] True by (simp add: s'_def lev_shift)
    next
      case False
      have "links m3 i = bump 1 (links m0 i) (l_next (links m0 i (pa i)))"
        using m3(4) [of i] w2(3) [of i] m1(5) [of i] False i by auto
      moreover have "seg (bump 1 (links m0 i) (l_next (links m0 i (pa i)))) (0, ?h) (lev i 1 lo @ shift (lev i (Suc ?k) hi))
         \<and> ends (bump 1 (links m0 i) (l_next (links m0 i (pa i)))) (0, ?h) (lev i 1 lo @ shift (lev i (Suc ?k) hi))"
        using D by (intro bump_up [OF seg [OF i] _ _ pa [of i]]) auto
      ultimately show ?thesis using False by (simp add: lev_shift)
    qed
  qed
  have rep: "sk_rep m3 ?h (lo @ (x, lv, d) # hi) MAX_SKIPLIST_LEVEL"
    unfolding sk_rep_def using m3(2,3) R0 lx x(1) lv(2) fresh final by (auto simp: sk_rep_def)
  have "dom m0 = insert ?h (fst ` set (lo @ (x, lv, d) # hi))" using H by (auto simp: sk_holds_def m0_def)
  then have "dom m3 = insert ?h (fst ` set (lo @ (x, lv, d) # hi))" using dom_label [of m3] dom_label [of m0] m3(3) by simp
  with rep have "sk_holds m3 ?h (lo @ (x, lv, d) # hi)" by (simp add: sk_holds_def)
  moreover have "skiplist_insert (Some s) x rnd d = Some (Some (s\<lparr>sk_mem := m3\<rparr>), 0)"
    using d x(1) lv(1) m1(1) m2(1) m3(1) by (simp add: skiplist_insert_def m0_def [symmetric])
  ultimately show ?thesis by blast
qed

section \<open>Search and removal\<close>

lemma lev_none: "\<forall>n \<in> set ns. fst (snd n) < i \<Longrightarrow> lev i p ns = []"
  by (induction ns arbitrary: p) auto

lemma find_scan_ok:
  assumes "wf_mem m" "i < MAX_SKIPLIST_LEVEL" "seg (links m i) z (A @ B)" "ends (links m i) z (A @ B)"
    and "NULL \<notin> set (addrs (A @ B))" "label m (snd z) \<noteq> None"
    and "\<And>c. c \<in> set (addrs A) \<Longrightarrow> \<exists>lv d. label m c = Some (lv, d) \<and> cmp d x < 0"
    and "B \<noteq> [] \<Longrightarrow> \<exists>lv d. label m (snd (hd B)) = Some (lv, d) \<and> \<not> cmp d x < 0 \<and> (cmp d x = 0 \<longleftrightarrow> hit)"
  shows "find_scan cmp m i x (snd z) sp = Some (case B of
       [] \<Rightarrow> Miss (snd (last (z # A))) (sp + int (fst (last (z # A))) - int (fst z)) NULL
     | y # _ \<Rightarrow> if hit then Hit (snd y) (sp + int (fst y) - int (fst z))
        else Miss (snd (last (z # A))) (sp + int (fst (last (z # A))) - int (fst z)) (snd y))"
  using assms(3-7)
proof (induction A arbitrary: z sp)
  case Nil
  have l: "lnk m (snd z) i = Some (links m i (snd z))" using Nil.prems(4) assms(1,2) by (intro lnk_ok) auto
  show ?case
  proof (cases B)
    case Nil
    then show ?thesis using seg_next [of "links m i" z "[]" B] Nil.prems l by (subst find_scan.simps) simp
  next
    case (Cons y B')
    then obtain lv d where d: "label m (snd y) = Some (lv, d)" "\<not> cmp d x < 0" "cmp d x = 0 \<longleftrightarrow> hit" using assms(8) by auto
    then obtain n where n: "m (snd y) = Some n" "sn_data n = d" using node_label by blast
    have k: "lnk m (snd y) i = Some (links m i (snd y))" using d assms(1,2) by (intro lnk_ok) auto
    show ?thesis using Nil.prems Cons l k d(2,3) n by (subst find_scan.simps) simp
  qed
next
  case (Cons y A)
  obtain lv d where d: "label m (snd y) = Some (lv, d)" "cmp d x < 0" using Cons.prems(5) [of "snd y"] by auto
  then obtain n where n: "m (snd y) = Some n" "sn_data n = d" using node_label by blast
  have l: "lnk m (snd z) i = Some (links m i (snd z))" using Cons.prems(4) assms(1,2) by (intro lnk_ok) auto
  have k: "lnk m (snd y) i = Some (links m i (snd y))" using d assms(1,2) by (intro lnk_ok) auto
  have e: "ends (links m i) y (A @ B)" using Cons.prems(2) ends_mid [of _ z "[]" y "A @ B"] by simp
  have sp: "l_next (links m i (snd z)) = snd y" "l_span (links m i (snd y)) = int (fst y) - int (fst z)" "seg (links m i) y (A @ B)"
    using Cons.prems(1) by simp_all
  have "label m (snd y) \<noteq> None" "NULL \<notin> set (addrs (A @ B))"
    "\<And>c. c \<in> set (addrs A) \<Longrightarrow> \<exists>lv d. label m c = Some (lv, d) \<and> cmp d x < 0"
    using Cons.prems(3,5) d(1) by auto
  note IH = Cons.IH [OF sp(3) e this(2,1,3), of "sp + l_span (links m i (snd y))"]
  show ?case using IH l k n d(2) sp(1,2) Cons.prems(3) by (subst find_scan.simps) (simp split: list.split)
qed

lemma find_levels_ok:
  assumes R: "sk_rep m h (lo @ eq @ hi) MAX_SKIPLIST_LEVEL" and "L \<le> MAX_SKIPLIST_LEVEL" "length change = MAX_SKIPLIST_LEVEL"
    and "\<forall>n \<in> set lo. cmp (snd (snd n)) x < 0" "\<forall>n \<in> set eq. cmp (snd (snd n)) x = 0" "\<forall>n \<in> set hi. cmp (snd (snd n)) x > 0"
    and "\<forall>n \<in> set eq. fst (snd n) < L"
  shows "\<exists>r. find_levels cmp m x L (snd (pred_of h L lo)) (int (fst (pred_of h L lo))) change = Some r
    \<and> (case r of None \<Rightarrow> eq = []
       | Some (a, l, sp, change') \<Rightarrow> \<exists>eq1 d eq2. eq = eq1 @ (a, l, d) # eq2 \<and> l < L \<and> (\<forall>n \<in> set eq. fst (snd n) \<le> l)
           \<and> sp = int (Suc (length (lo @ eq1))) \<and> length change' = MAX_SKIPLIST_LEVEL
           \<and> (\<forall>j. change' ! j = (if l < j \<and> j < L then l_next (links m j (snd (pred_of h j lo))) else change ! j)))"
  using assms(2,3,7)
proof (induction L arbitrary: change)
  case 0
  then show ?case by (cases eq) auto
next
  case (Suc L)
  note R = sk_repD [OF R]
  let ?B = "lev L (Suc (length lo)) (eq @ hi)"
  have L: "L < MAX_SKIPLIST_LEVEL" using Suc.prems(1) by simp
  have seg: "seg (links m L) (0, h) (lev L 1 lo @ ?B)" "ends (links m L) (0, h) (lev L 1 lo @ ?B)" using R(8,9) [OF L] by simp_all
  obtain X Y where XY: "lev L 1 lo = X @ Y" "last ((0, h) # X) = pred_of h (Suc L) lo" using lev_split unfolding pred_of_def by blast
  let ?z = "pred_of h (Suc L) lo"
  have Y: "last (?z # Y) = pred_of h L lo" using XY by (cases Y rule: rev_cases) (auto simp: pred_of_def [of h L])
  have seg': "seg (links m L) ?z (Y @ ?B)" "ends (links m L) ?z (Y @ ?B)"
    using seg XY seg_append [of "links m L" "(0, h)" X "Y @ ?B"] ends_append [of "links m L" "(0, h)" X "Y @ ?B"] by simp_all
  have lab: "label m (snd ?z) \<noteq> None"
    using last_in [of "(0, h)" "lev (Suc L) 1 lo"] R(6) R(12) [of "snd ?z" "Suc L" 1] by (auto simp: pred_of_def)
  have nn: "NULL \<notin> set (addrs (Y @ ?B))" using R(11) [of L 1] XY(1) by simp
  have low: "\<exists>lv e. label m c = Some (lv, e) \<and> cmp e x < 0" if "c \<in> set (addrs Y)" for c
  proof -
    have "c \<in> set (addrs (lev L 1 lo))" using that XY(1) by simp
    then obtain l e where "(c, l, e) \<in> set lo" using lev_mem by blast
    then show ?thesis using R(7) [of c l e] assms(4) by fastforce
  qed
  have scan: "find_scan cmp m L x (snd ?z) (int (fst ?z)) = Some (case ?B of
       [] \<Rightarrow> Miss (snd (last (?z # Y))) (int (fst ?z) + int (fst (last (?z # Y))) - int (fst ?z)) NULL
     | y # _ \<Rightarrow> if hit then Hit (snd y) (int (fst ?z) + int (fst y) - int (fst ?z))
        else Miss (snd (last (?z # Y))) (int (fst ?z) + int (fst (last (?z # Y))) - int (fst ?z)) (snd y))"
    if "?B \<noteq> [] \<Longrightarrow> \<exists>lv e. label m (snd (hd ?B)) = Some (lv, e) \<and> \<not> cmp e x < 0 \<and> (cmp e x = 0 \<longleftrightarrow> hit)" for hit
    using nn lab low that by (intro find_scan_ok [OF R(1) L seg']) blast+
  show ?case
  proof (cases "\<exists>n \<in> set eq. L \<le> fst (snd n)")
    case True
    then obtain eq1 n eq2 where e: "eq = eq1 @ n # eq2" "L \<le> fst (snd n)" "\<forall>u \<in> set eq1. \<not> L \<le> fst (snd u)"
      using split_list_first_prop [OF True] by blast
    obtain a l d where n: "n = (a, l, d)" by (cases n)
    have l: "l = L" using e(1,2) n Suc.prems(3) by auto
    have B: "?B = (Suc (length (lo @ eq1)), a) # lev L (Suc (Suc (length (lo @ eq1)))) (eq2 @ hi)"
      using lev_none [of eq1 L "Suc (length lo)"] e n by (simp add: not_le)
    have hit: "\<exists>lv e. label m (snd (hd ?B)) = Some (lv, e) \<and> \<not> cmp e x < 0 \<and> (cmp e x = 0 \<longleftrightarrow> True)"
      using R(7) [of a l d] e(1) n assms(5) B by auto
    have "find_scan cmp m L x (snd ?z) (int (fst ?z)) = Some (Hit a (int (Suc (length (lo @ eq1)))))"
      using scan [of True] hit unfolding B by simp
    then show ?thesis
      using e(1) n l Suc.prems(2,3)
      by (intro exI [of _ "Some (a, L, int (Suc (length (lo @ eq1))), change)"]) (auto simp: less_Suc_eq_le intro!: exI [of _ eq1])
  next
    case False
    then have none: "\<forall>n \<in> set eq. fst (snd n) < L" by (auto simp: not_le)
    have B: "?B = lev L (Suc (length (lo @ eq))) hi" using lev_none [OF none] by simp
    have miss: "\<exists>lv e. label m (snd (hd ?B)) = Some (lv, e) \<and> \<not> cmp e x < 0 \<and> (cmp e x = 0 \<longleftrightarrow> False)" if "?B \<noteq> []"
    proof -
      have "snd (hd ?B) \<in> set (addrs (lev L (Suc (length (lo @ eq))) hi))" using that B by (cases ?B) auto
      then obtain l e where "(snd (hd ?B), l, e) \<in> set hi" using lev_mem by blast
      then show ?thesis using R(7) [of "snd (hd ?B)" l e] assms(6) by fastforce
    qed
    let ?b = "l_next (links m L (snd (pred_of h L lo)))"
    have "find_scan cmp m L x (snd ?z) (int (fst ?z)) = Some (Miss (snd (pred_of h L lo)) (int (fst (pred_of h L lo))) ?b)"
      using scan [of False] miss seg_next [OF seg'] unfolding Y by (simp split: list.splits)
    then have go: "find_levels cmp m x (Suc L) (snd ?z) (int (fst ?z)) change =
        find_levels cmp m x L (snd (pred_of h L lo)) (int (fst (pred_of h L lo))) (change[L := ?b])"
      using Suc.prems(2) L by simp
    have "L \<le> MAX_SKIPLIST_LEVEL" "length (change[L := ?b]) = MAX_SKIPLIST_LEVEL" using Suc.prems by simp_all
    from Suc.IH [OF this none] obtain r where r: "find_levels cmp m x L (snd (pred_of h L lo)) (int (fst (pred_of h L lo))) (change[L := ?b]) = Some r"
        "(case r of None \<Rightarrow> eq = []
         | Some (a, l, sp, change') \<Rightarrow> \<exists>eq1 d eq2. eq = eq1 @ (a, l, d) # eq2 \<and> l < L \<and> (\<forall>n \<in> set eq. fst (snd n) \<le> l)
             \<and> sp = int (Suc (length (lo @ eq1))) \<and> length change' = MAX_SKIPLIST_LEVEL
             \<and> (\<forall>j. change' ! j = (if l < j \<and> j < L then l_next (links m j (snd (pred_of h j lo))) else change[L := ?b] ! j)))"
      by blast
    have "(\<forall>j. (if l < j \<and> j < L then l_next (links m j (snd (pred_of h j lo))) else change[L := ?b] ! j) =
        (if l < j \<and> j < Suc L then l_next (links m j (snd (pred_of h j lo))) else change ! j))" if "l < L" for l
      using that Suc.prems(2) L by (auto simp: nth_list_update less_Suc_eq)
    then show ?thesis using r unfolding go by (cases r) (auto, metis less_Suc_eq)
  qed
qed

lemma seg_other:
  assumes "seg v z A" "ends v z A" "a \<notin> insert (snd z) (set (addrs A))" "\<And>c. c \<noteq> a \<Longrightarrow> w c = v c"
  shows "seg w z A \<and> ends w z A"
proof
  show "seg w z A" by (rule seg_same [OF assms(1)], rule assms(4)) (use assms(3) set_addrs [of A] in auto)
  have "snd (last (z # A)) \<noteq> a" using last_in [of z A] assms(3) by auto
  then show "ends w z A" using assms(2,4) by (simp add: ends_def)
qed

lemma levels_ok:
  assumes "distinct is" "wf_mem m"
    and "\<And>i m1. i \<in> set is \<Longrightarrow> wf_mem m1 \<Longrightarrow> label m1 = label m \<Longrightarrow> links m1 i = links m i
      \<Longrightarrow> \<exists>m2. f i m1 = Some m2 \<and> changes m1 m2 i (g i)"
  shows "\<exists>m'. foldM f is m = Some m' \<and> wf_mem m' \<and> label m' = label m
    \<and> (\<forall>j. links m' j = (if j \<in> set is then g j else links m j))"
  using assms
proof (induction "is" arbitrary: m)
  case (Cons i "is")
  obtain m1 where m1: "f i m = Some m1" "changes m m1 i (g i)" using Cons.prems(2) Cons.prems(3) [of i m] by auto
  have w: "wf_mem m1" "label m1 = label m" "\<And>j. j \<noteq> i \<Longrightarrow> links m1 j = links m j" "links m1 i = g i"
    using m1(2) by (auto simp: changes_def)
  have "\<exists>m2. f j m3 = Some m2 \<and> changes m3 m2 j (g j)"
    if "j \<in> set is" "wf_mem m3" "label m3 = label m1" "links m3 j = links m1 j" for j m3
    using Cons.prems(1) that w(2) w(3) [of j] by (intro Cons.prems(3)) auto
  then obtain m' where "foldM f is m1 = Some m'" "wf_mem m'" "label m' = label m1"
      "\<forall>j. links m' j = (if j \<in> set is then g j else links m1 j)"
    using Cons.IH [of m1] Cons.prems(1) w(1) by auto
  then show ?case using m1(1) w Cons.prems(1) by auto
qed simp

lemma erase_levels_ok:
  assumes R: "sk_rep m h (A @ (a, l, d) # B) MAX_SKIPLIST_LEVEL"
  shows "\<exists>m'. foldM (\<lambda>i m. skiplist_erase_node m a i) (rev [0..<l + 1]) m = Some m' \<and> wf_mem m' \<and> label m' = label m
    \<and> (\<forall>j. links m' j = (if j \<le> l then cut (links m j) a else links m j))"
proof -
  note D = sk_repD [OF R]
  have a: "label m a = Some (l, d)" "l < MAX_SKIPLIST_LEVEL" "a \<noteq> NULL" using D(7) [of a l d] D(3) by auto
  have near: "c = NULL \<or> label m c \<noteq> None" if i: "i \<le> l" "c \<in> {l_prev (links m i a), l_next (links m i a)}" for i c
  proof -
    let ?A = "lev i 1 A" and ?B = "lev i (Suc (Suc (length A))) B"
    have s: "seg (links m i) (0, h) (?A @ (Suc (length A), a) # ?B)" "ends (links m i) (0, h) (?A @ (Suc (length A), a) # ?B)"
      using D(8,9) [of i] i(1) a(2) by simp_all
    have "l_prev (links m i a) = snd (last ((0, h) # ?A))" using s(1) by (simp add: seg_append)
    then have p: "label m (l_prev (links m i a)) \<noteq> None"
      using last_in [of "(0, h)" ?A] D(6) D(12) [of _ i 1] by auto
    have "l_next (links m i a) = (case ?B of [] \<Rightarrow> NULL | y # _ \<Rightarrow> snd y)"
      using seg_next [of "links m i" "(Suc (length A), a)" "[]" ?B] s by (simp add: seg_append ends_mid)
    then have "l_next (links m i a) = NULL \<or> label m (l_next (links m i a)) \<noteq> None"
      using D(12) [of _ i 1] i(1) by (cases ?B) auto
    then show ?thesis using p i(2) by auto
  qed
  have "\<exists>m2. skiplist_erase_node m1 a i = Some m2 \<and> changes m1 m2 i (cut (links m i) a)"
    if "i \<in> set (rev [0..<l + 1])" "wf_mem m1" "label m1 = label m" "links m1 i = links m i" for i m1
    using erase_node_changes [of m1 i a] near [of i] that a by auto
  then have "\<exists>m'. foldM (\<lambda>i m. skiplist_erase_node m a i) (rev [0..<l + 1]) m = Some m' \<and> wf_mem m' \<and> label m' = label m
    \<and> (\<forall>j. links m' j = (if j \<in> set (rev [0..<l + 1]) then cut (links m j) a else links m j))"
    by (intro levels_ok) (use D(1) in auto)
  moreover have "set (rev [0..<l + 1]) = {..l}" by auto
  ultimately show ?thesis by (simp only: atMost_iff)
qed

lemma less_span: "(\<lambda>k. k\<lparr>l_span := l_span k + -1\<rparr>) = (\<lambda>k. k\<lparr>l_span := l_span k - 1\<rparr>)"
  by (simp add: algebra_simps)

lemma change_ok:
  assumes "wf_mem m" "length change = MAX_SKIPLIST_LEVEL" "\<And>i. i < MAX_SKIPLIST_LEVEL \<Longrightarrow> change ! i = NULL \<or> label m (change ! i) \<noteq> None"
  shows "\<exists>m'. foldM (\<lambda>i m. do { b \<leftarrow> rd change i; if b \<noteq> NULL then upd m b i (\<lambda>k. k\<lparr>l_span := l_span k - 1\<rparr>) else Some m })
      [0..<MAX_SKIPLIST_LEVEL] m = Some m' \<and> wf_mem m' \<and> label m' = label m
    \<and> (\<forall>j < MAX_SKIPLIST_LEVEL. links m' j = bump (-1) (links m j) (change ! j))"
proof -
  have "\<exists>m2. (do { b \<leftarrow> rd change i; if b \<noteq> NULL then upd m1 b i (\<lambda>k. k\<lparr>l_span := l_span k - 1\<rparr>) else Some m1 }) = Some m2
      \<and> changes m1 m2 i (bump (-1) (links m i) (change ! i))"
    if "i \<in> set [0..<MAX_SKIPLIST_LEVEL]" "wf_mem m1" "label m1 = label m" "links m1 i = links m i" for i m1
    using bump_changes [of m1 "change ! i" i "-1", unfolded less_span] that assms(2) assms(3) [of i] by (simp split del: if_split)
  then have "\<exists>m'. foldM (\<lambda>i m. do { b \<leftarrow> rd change i; if b \<noteq> NULL then upd m b i (\<lambda>k. k\<lparr>l_span := l_span k - 1\<rparr>) else Some m })
      [0..<MAX_SKIPLIST_LEVEL] m = Some m' \<and> wf_mem m' \<and> label m' = label m
    \<and> (\<forall>j. links m' j = (if j \<in> set [0..<MAX_SKIPLIST_LEVEL] then bump (-1) (links m j) (change ! j) else links m j))"
    by (intro levels_ok) (use assms(1) in auto)
  then show ?thesis by auto
qed

text \<open>One level after the removal of the node \<open>a\<close>, whose links are gone: a level it was on, and one above.\<close>

lemma remove_low:
  assumes R: "sk_rep m h (X @ (a, l, d) # Y) MAX_SKIPLIST_LEVEL" and j: "j \<le> l" "j < MAX_SKIPLIST_LEVEL"
    and w: "\<And>c. c \<noteq> a \<Longrightarrow> w c = cut (links m j) a c"
  shows "seg w (0, h) (lev j 1 (X @ Y)) \<and> ends w (0, h) (lev j 1 (X @ Y))"
proof -
  note D = sk_repD [OF R]
  let ?A = "lev j 1 X" and ?C = "lev j (Suc (length X)) Y"
  obtain p b where pb: "last ((0, h) # ?A) = (p, b)" by (cases "last ((0, h) # ?A)")
  have e: "lev j 1 (X @ (a, l, d) # Y) = ?A @ (Suc (length X), a) # shift ?C" using j(1) by (simp flip: lev_shift)
  have n: "NULL \<notin> set (snd (0 :: nat, h) # addrs (?A @ ?C))" "distinct (snd (0 :: nat, h) # addrs (?A @ (Suc (length X), a) # ?C))"
    using D(2) D(10,11) [of j 1] unfolding e by auto
  have "seg (cut (links m j) a) (0, h) (?A @ ?C) \<and> ends (cut (links m j) a) (0, h) (?A @ ?C)"
    using cut_ok [OF D(8,9) [OF j(2), unfolded e] n(2,1) pb] .
  then have "seg w (0, h) (?A @ ?C) \<and> ends w (0, h) (?A @ ?C)"
    using n(2) w by (intro seg_other [of "cut (links m j) a" _ _ a w]) auto
  then show ?thesis by simp
qed

lemma remove_high:
  assumes R: "sk_rep m h (lo @ U @ (a, l, d) # V @ hi) MAX_SKIPLIST_LEVEL" and j: "l < j" "j < MAX_SKIPLIST_LEVEL"
    and low: "\<forall>n \<in> set (U @ V). fst (snd n) \<le> l" and w: "\<And>c. c \<noteq> a \<Longrightarrow> w c = links m j c"
    and b: "b = l_next (links m j (snd (pred_of h j lo)))"
  shows "b \<noteq> a" "b = NULL \<or> label m b \<noteq> None"
    and "seg (bump (-1) w b) (0, h) (lev j 1 (lo @ U @ V @ hi)) \<and> ends (bump (-1) w b) (0, h) (lev j 1 (lo @ U @ V @ hi))"
proof -
  note D = sk_repD [OF R]
  let ?L = "lo @ U @ (a, l, d) # V @ hi" and ?A = "lev j 1 lo" and ?B = "lev j (1 + length (lo @ U @ V)) hi"
  have up: "lev j p U = []" "lev j p V = []" for p using low j(1) by (auto intro!: lev_none dest!: bspec)
  have e: "lev j 1 ?L = ?A @ shift ?B" "lev j 1 (lo @ U @ V @ hi) = ?A @ ?B"
    using up j(1) by (simp_all add: add.assoc flip: lev_shift)
  obtain p c where pc: "last ((0, h) # ?A) = (p, c)" by (cases "last ((0, h) # ?A)")
  have a: "a \<notin> insert h (set (addrs (?A @ ?B)))"
    using D(4,5) set_lev [of j 1 lo] set_lev [of j "1 + length (lo @ U @ V)" hi] by auto
  note s = D(8,9) [OF j(2), unfolded e]
  have "b = (case shift ?B of [] \<Rightarrow> NULL | y # _ \<Rightarrow> snd y)" using seg_next [OF s] b by (simp add: pred_of_def)
  then have "b = NULL \<or> b \<in> set (addrs (shift ?B))" by (cases ?B) auto
  moreover have "label m c \<noteq> None" if "c \<in> set (addrs (shift ?B))" for c using D(12) [of c j 1] that unfolding e by simp
  moreover have "a \<noteq> NULL" using D(3) by auto
  ultimately show "b \<noteq> a" "b = NULL \<or> label m b \<noteq> None" using a by auto
  have "c \<noteq> a" using last_in [of "(0, h)" ?A] pc a by auto
  then have b': "b = l_next (w c)" using b w pc by (simp add: pred_of_def)
  have s': "seg w (0, h) (?A @ shift ?B) \<and> ends w (0, h) (?A @ shift ?B)"
    using s a w by (intro seg_other [of "links m j" _ _ a w]) auto
  have "distinct (snd (0 :: nat, h) # addrs (?A @ ?B))" "NULL \<notin> set (addrs ?B)" using D(10,11) [of j 1] unfolding e by simp_all
  from bump_down [OF conjunct1 [OF s'] conjunct2 [OF s'] this pc]
  show "seg (bump (-1) w b) (0, h) (lev j 1 (lo @ U @ V @ hi)) \<and> ends (bump (-1) w b) (0, h) (lev j 1 (lo @ U @ V @ hi))"
    unfolding e(2) b' .
qed

lemma remove_ok:
  assumes H: "sk_holds m h (lo @ U @ (a, l, d) # V @ hi)" and low: "\<forall>n \<in> set (U @ V). fst (snd n) \<le> l"
    and change: "length change = MAX_SKIPLIST_LEVEL"
      "\<forall>j < MAX_SKIPLIST_LEVEL. change ! j = (if l < j then l_next (links m j (snd (pred_of h j lo))) else NULL)"
  shows "\<exists>m1 m2. foldM (\<lambda>i m. skiplist_erase_node m a i) (rev [0..<l + 1]) m = Some m1
    \<and> foldM (\<lambda>i m. do { b \<leftarrow> rd change i; if b \<noteq> NULL then upd m b i (\<lambda>k. k\<lparr>l_span := l_span k - 1\<rparr>) else Some m })
        [0..<MAX_SKIPLIST_LEVEL] (m1(a := None)) = Some m2
    \<and> sk_holds m2 h (lo @ U @ V @ hi)"
proof -
  let ?all = "lo @ U @ (a, l, d) # V @ hi" and ?rest = "lo @ U @ V @ hi"
  have R0: "sk_rep m h ?all MAX_SKIPLIST_LEVEL" and dom: "dom m = insert h (fst ` set ?all)" using H by (simp_all add: sk_holds_def)
  note R = sk_repD [OF R0]
  have a: "a \<notin> fst ` set ?rest" "a \<noteq> h" using R(4,5) by auto
  obtain m1 where m1: "foldM (\<lambda>i m. skiplist_erase_node m a i) (rev [0..<l + 1]) m = Some m1" "wf_mem m1" "label m1 = label m"
      "\<And>j. links m1 j = (if j \<le> l then cut (links m j) a else links m j)"
    using erase_levels_ok [of m h "lo @ U" a l d "V @ hi"] R0 by auto
  define mf where "mf = m1(a := None)"
  have mf: "wf_mem mf" "\<And>c. c \<noteq> a \<Longrightarrow> label mf c = label m c" "\<And>j c. c \<noteq> a \<Longrightarrow> links mf j c = links m1 j c"
    using m1(2,3) by (auto simp: mf_def wf_mem_def links_def label_def fun_eq_iff)
  have keep: "links mf j c = links m j c" if "l < j" "c \<noteq> a" for j c using mf(3) [OF that(2)] m1(4) that(1) by simp
  have "change ! j = NULL \<or> label mf (change ! j) \<noteq> None" if j: "j < MAX_SKIPLIST_LEVEL" for j
  proof (cases "l < j")
    case True
    then have c: "change ! j = l_next (links m j (snd (pred_of h j lo)))" using change(2) j by simp
    show ?thesis using remove_high(1,2) [OF R0 True j low keep c] True mf(2) by auto
  qed (use change(2) j in simp)
  then obtain m2 where m2: "foldM (\<lambda>i m. do { b \<leftarrow> rd change i; if b \<noteq> NULL then upd m b i (\<lambda>k. k\<lparr>l_span := l_span k - 1\<rparr>) else Some m })
      [0..<MAX_SKIPLIST_LEVEL] mf = Some m2" "wf_mem m2" "label m2 = label mf"
      "\<And>j. j < MAX_SKIPLIST_LEVEL \<Longrightarrow> links m2 j = bump (-1) (links mf j) (change ! j)"
    using change_ok [OF mf(1) change(1)] by blast
  have final: "seg (links m2 j) (0, h) (lev j 1 ?rest) \<and> ends (links m2 j) (0, h) (lev j 1 ?rest)" if j: "j < MAX_SKIPLIST_LEVEL" for j
  proof (cases "l < j")
    case True
    then have c: "change ! j = l_next (links m j (snd (pred_of h j lo)))" using change(2) j by simp
    show ?thesis using remove_high(3) [OF R0 True j low keep c] True m2(4) [OF j] by simp
  next
    case False
    then have "links m2 j = links mf j" using m2(4) [OF j] change(2) j by (simp add: bump_def)
    then show ?thesis
      using remove_low [of m h "lo @ U" a l d "V @ hi" j "links m2 j"] R0 j False mf(3) m1(4) [of j] by simp
  qed
  have nodes: "\<forall>(c, lv, e) \<in> set ?rest. label m2 c = Some (lv, e) \<and> lv < MAX_SKIPLIST_LEVEL"
  proof (intro ballI, clarify)
    fix c lv e assume c: "(c, lv, e) \<in> set ?rest"
    then have "c \<noteq> a" using a(1) by (metis fst_conv image_eqI)
    moreover have "(c, lv, e) \<in> set ?all" using c by auto
    ultimately show "label m2 c = Some (lv, e) \<and> lv < MAX_SKIPLIST_LEVEL" using R(7) [of c lv e] m2(3) mf(2) by simp
  qed
  have "NULL \<notin> set (h # map fst ?rest)" "distinct (h # map fst ?rest)" "label m2 h \<noteq> None"
    using R(2-6) a(2) m2(3) mf(2) [of h] by auto
  then have "sk_rep m2 h ?rest MAX_SKIPLIST_LEVEL"
    unfolding sk_rep_def using m2(2) nodes final by blast
  moreover have "dom mf = dom m1 - {a}" by (auto simp: mf_def)
  moreover have "dom m2 = dom mf" "dom m1 = dom m" by (simp_all only: dom_label m2(3) m1(3))
  ultimately have "sk_rep m2 h ?rest MAX_SKIPLIST_LEVEL" "dom m2 = insert h (fst ` set ?rest)"
    using dom a by (simp, auto)
  then show ?thesis using m1(1) m2(1) unfolding mf_def sk_holds_def by blast
qed

section \<open>Ranks\<close>

text \<open>From the last node of \<open>lo\<close> on the level above, level \<open>L\<close> leads on to its own last node of \<open>lo\<close>.\<close>

lemma descend:
  assumes R: "sk_rep m h (lo @ hi) K" and L: "L < K"
  shows "\<exists>Y. seg (links m L) (pred_of h (Suc L) lo) (Y @ lev L (Suc (length lo)) hi)
    \<and> ends (links m L) (pred_of h (Suc L) lo) (Y @ lev L (Suc (length lo)) hi)
    \<and> last (pred_of h (Suc L) lo # Y) = pred_of h L lo \<and> set Y \<subseteq> set (lev L 1 lo)
    \<and> NULL \<notin> set (addrs (Y @ lev L (Suc (length lo)) hi))
    \<and> (\<forall>c \<in> insert (snd (pred_of h (Suc L) lo)) (set (addrs (Y @ lev L (Suc (length lo)) hi))). label m c \<noteq> None)"
proof -
  note D = sk_repD [OF R]
  let ?z = "pred_of h (Suc L) lo" and ?B = "lev L (Suc (length lo)) hi"
  obtain X Y where XY: "lev L 1 lo = X @ Y" "last ((0, h) # X) = ?z" using lev_split unfolding pred_of_def by blast
  have "last (?z # Y) = pred_of h L lo" using XY by (cases Y rule: rev_cases) (auto simp: pred_of_def [of h L])
  moreover have "seg (links m L) (0, h) (lev L 1 lo @ ?B)" "ends (links m L) (0, h) (lev L 1 lo @ ?B)"
    using D(8,9) [OF L] by simp_all
  then have "seg (links m L) ?z (Y @ ?B)" "ends (links m L) ?z (Y @ ?B)"
    using XY seg_append [of "links m L" "(0, h)" X "Y @ ?B"] ends_append [of "links m L" "(0, h)" X "Y @ ?B"] by simp_all
  moreover have "label m (snd ?z) \<noteq> None"
    using last_in [of "(0, h)" "lev (Suc L) 1 lo"] D(6) D(12) [of "snd ?z" "Suc L" 1] by (auto simp: pred_of_def)
  moreover have "label m c \<noteq> None" if "c \<in> set (addrs (Y @ ?B))" for c using D(12) [of c L 1] that XY(1) by simp
  moreover have "NULL \<notin> set (addrs (Y @ ?B))" using D(11) [of L 1] XY(1) by simp
  ultimately show ?thesis using XY(1) by (intro exI [of _ Y]) auto
qed

lemma rank_scan_ok:
  assumes "wf_mem m" "i < MAX_SKIPLIST_LEVEL" "seg (links m i) z (A @ B)" "ends (links m i) z (A @ B)"
    and "NULL \<notin> set (addrs (A @ B))" "\<forall>c \<in> insert (snd z) (set (addrs (A @ B))). label m c \<noteq> None"
    and "\<forall>y \<in> set A. fst y < r" "B \<noteq> [] \<Longrightarrow> r \<le> fst (hd B)"
  shows "rank_scan m i (int r) (snd z) (int (fst z)) = Some (case B of
       [] \<Rightarrow> Miss (snd (last (z # A))) (int (fst (last (z # A)))) NULL
     | y # _ \<Rightarrow> if fst y = r then Hit (snd y) (int r) else Miss (snd (last (z # A))) (int (fst (last (z # A)))) (snd y))"
  using assms(3-7)
proof (induction A arbitrary: z)
  case Nil
  have l: "lnk m (snd z) i = Some (links m i (snd z))" using Nil.prems(4) assms(1,2) by (intro lnk_ok) auto
  show ?case
  proof (cases B)
    case Nil
    then show ?thesis using seg_next [of "links m i" z "[]" B] Nil.prems l by (subst rank_scan.simps) simp
  next
    case (Cons y B')
    have k: "lnk m (snd y) i = Some (links m i (snd y))" using Nil.prems(4) Cons assms(1,2) by (intro lnk_ok) auto
    show ?thesis using Nil.prems Cons l k assms(8) by (subst rank_scan.simps) simp
  qed
next
  case (Cons y A)
  have l: "lnk m (snd z) i = Some (links m i (snd z))" using Cons.prems(4) assms(1,2) by (intro lnk_ok) auto
  have k: "lnk m (snd y) i = Some (links m i (snd y))" using Cons.prems(4) assms(1,2) by (intro lnk_ok) auto
  have e: "ends (links m i) y (A @ B)" using Cons.prems(2) ends_mid [of _ z "[]" y "A @ B"] by simp
  have IH: "rank_scan m i (int r) (snd y) (int (fst y)) = Some (case B of
       [] \<Rightarrow> Miss (snd (last (y # A))) (int (fst (last (y # A)))) NULL
     | u # _ \<Rightarrow> if fst u = r then Hit (snd u) (int r) else Miss (snd (last (y # A))) (int (fst (last (y # A)))) (snd u))"
    using Cons.prems e by (intro Cons.IH) auto
  show ?case using IH l k Cons.prems(1,3,5) by (subst rank_scan.simps) (simp split: list.split)
qed

lemma lev_pos: "y \<in> set (lev i p ns) \<Longrightarrow> p \<le> fst y \<and> fst y < p + length ns"
  by (induction ns arbitrary: p) (auto split: if_splits, force+)

lemma rank_levels_ok:
  assumes R: "sk_rep m h (lo @ hi) MAX_SKIPLIST_LEVEL" and "L \<le> MAX_SKIPLIST_LEVEL" "hi \<noteq> [] \<Longrightarrow> fst (snd (hd hi)) < L"
  shows "rank_levels m (int (Suc (length lo))) L (snd (pred_of h L lo)) (int (fst (pred_of h L lo)))
    = Some (if hi = [] then NULL else fst (hd hi))"
  using assms(2,3)
proof (induction L)
  case 0
  then show ?case by auto
next
  case (Suc L)
  let ?z = "pred_of h (Suc L) lo" and ?B = "lev L (Suc (length lo)) hi" and ?r = "Suc (length lo)"
  obtain Y where Y: "seg (links m L) ?z (Y @ ?B)" "ends (links m L) ?z (Y @ ?B)" "last (?z # Y) = pred_of h L lo"
      "set Y \<subseteq> set (lev L 1 lo)" "NULL \<notin> set (addrs (Y @ ?B))" "\<forall>c \<in> insert (snd ?z) (set (addrs (Y @ ?B))). label m c \<noteq> None"
    using descend [OF R, of L] Suc.prems(1) by auto
  have L: "L < MAX_SKIPLIST_LEVEL" using Suc.prems(1) by simp
  have A: "\<forall>y \<in> set Y. fst y < ?r" using Y(4) lev_pos [of _ L 1 lo] by fastforce
  have B: "?r \<le> fst (hd ?B)" if "?B \<noteq> []" using lev_pos [OF hd_in_set [OF that]] by simp
  note scan = rank_scan_ok [OF sk_repD(1) [OF R] L Y(1,2,5,6) A B, unfolded Y(3)]
  show ?case
  proof (cases "hi \<noteq> [] \<and> L \<le> fst (snd (hd hi))")
    case True
    then have "?B = (?r, fst (hd hi)) # tl ?B" by (cases hi) auto
    then show ?thesis using scan True by (cases ?B) auto
  next
    case False
    have "\<not> fst y = ?r" if "?B = y # B'" for y B'
    proof -
      have "y \<in> set (lev L (Suc ?r) (tl hi))" using False that by (cases hi) (auto split: if_splits)
      then show ?thesis using lev_pos by fastforce
    qed
    then show ?thesis using scan Suc.IH Suc.prems False by (cases ?B) (auto simp: not_le)
  qed
qed

lemma size_walk_ok:
  assumes "wf_mem m" "i < MAX_SKIPLIST_LEVEL" "seg (links m i) z A" "ends (links m i) z A"
    and "NULL \<notin> set (addrs A)" "\<forall>c \<in> insert (snd z) (set (addrs A)). label m c \<noteq> None"
  shows "size_walk m i (snd z) (int (fst z)) = Some (snd (last (z # A)), int (fst (last (z # A))))"
  using assms(3-6)
proof (induction A arbitrary: z)
  case Nil
  have "lnk m (snd z) i = Some (links m i (snd z))" using Nil.prems(4) assms(1,2) by (intro lnk_ok) auto
  then show ?case using Nil.prems(2) by (subst size_walk.simps) (simp add: ends_def)
next
  case (Cons y A)
  have l: "lnk m (snd z) i = Some (links m i (snd z))" "lnk m (snd y) i = Some (links m i (snd y))"
    using Cons.prems(4) assms(1,2) by (auto intro!: lnk_ok)
  have e: "ends (links m i) y A" using Cons.prems(2) ends_mid [of _ z "[]" y A] by simp
  have "size_walk m i (snd y) (int (fst y)) = Some (snd (last (y # A)), int (fst (last (y # A))))"
    using Cons.prems e by (intro Cons.IH) auto
  then show ?case using Cons.prems(1,3) l by (subst size_walk.simps) simp
qed

lemma size_levels_ok:
  assumes R: "sk_rep m h ns MAX_SKIPLIST_LEVEL" and "L \<le> MAX_SKIPLIST_LEVEL"
  shows "size_levels m L (snd (pred_of h L ns)) (int (fst (pred_of h L ns))) = Some (int (fst (pred_of h 0 ns)))"
  using assms(2)
proof (induction L)
  case (Suc L)
  have "size_walk m L (snd (pred_of h (Suc L) ns)) (int (fst (pred_of h (Suc L) ns))) = Some (snd (pred_of h L ns), int (fst (pred_of h L ns)))"
    using descend [of m h ns "[]" MAX_SKIPLIST_LEVEL L] R Suc.prems size_walk_ok [OF sk_repD(1) [OF R], of L "pred_of h (Suc L) ns"] by auto
  then show ?case using Suc by simp
qed simp

section \<open>Creation, release and lists of data\<close>

lemma pred_top:
  assumes "sk_rep m h (lo @ hi) L"
  shows "pred_of h MAX_SKIPLIST_LEVEL lo = (0, h)"
proof -
  have "\<forall>n \<in> set lo. fst (snd n) < MAX_SKIPLIST_LEVEL" using sk_repD(7) [OF assms] by fastforce
  then show ?thesis using lev_none by (simp add: pred_of_def)
qed

lemma pred_bottom: "fst (pred_of h 0 ns) = length ns"
  using last_lev0 [of 0 h ns] by (simp add: pred_of_def)

lemma create_holds:
  assumes "skiplist_create a cmp coff = Some s"
  shows "sk_holds (sk_mem s) (sk_head s) [] \<and> sk_cmp s = cmp \<and> sk_random s = map (\<lambda>i. coff ^ i) [0..<MAX_SKIPLIST_LEVEL]"
  using assms
  by (auto simp: skiplist_create_def c_assert_def sk_holds_def sk_rep_def wf_mem_def label_def ends_def links_def
      zero_links_def MAX_SKIPLIST_LEVEL_def split: if_splits bind_splits)

lemma sk_release_ok:
  assumes "wf_mem m" "seg (links m 0) z A" "ends (links m 0) z A" "NULL \<notin> set (snd z # addrs A)" "distinct (snd z # addrs A)"
    and "h \<notin> set (addrs A)" "\<forall>c \<in> set (snd z # addrs A). label m c \<noteq> None"
  shows "release_loop h m (snd z) = Some (m |` (- (set (snd z # addrs A) - {h})))"
  using assms
proof (induction A arbitrary: m z)
  case Nil
  have "lnk m (snd z) 0 = Some (links m 0 (snd z))" using Nil.prems by (intro lnk_ok) (auto simp: MAX_SKIPLIST_LEVEL_def)
  then show ?case using Nil.prems
    by (subst release_loop.simps, subst release_loop.simps) (auto simp: ends_def restrict_map_def fun_eq_iff)
next
  case (Cons y A)
  let ?m = "if snd z \<noteq> h then m(snd z := None) else m"
  have l: "lnk m (snd z) 0 = Some (links m 0 (snd z))" using Cons.prems by (intro lnk_ok) (auto simp: MAX_SKIPLIST_LEVEL_def)
  have s: "seg (links m 0) y A" "ends (links m 0) y A" "l_next (links m 0 (snd z)) = snd y"
    using Cons.prems(2,3) ends_mid [of _ z "[]" y A] by simp_all
  have same: "links ?m 0 c = links m 0 c" "label ?m c = label m c" if "c \<noteq> snd z" for c
    using that by (simp_all add: links_def label_def)
  have "seg (links ?m 0) y A \<and> ends (links ?m 0) y A"
    using s Cons.prems(5) same by (intro seg_other [of "links m 0" _ _ "snd z"]) auto
  moreover have "wf_mem ?m" using Cons.prems(1) by (auto simp: wf_mem_def)
  moreover have "\<forall>c \<in> set (snd y # addrs A). label ?m c \<noteq> None"
  proof
    fix c assume c: "c \<in> set (snd y # addrs A)"
    then have "c \<noteq> snd z" using Cons.prems(5) by auto
    moreover have "label m c \<noteq> None" using c Cons.prems(7) by auto
    ultimately show "label ?m c \<noteq> None" using same(2) by simp
  qed
  ultimately have "release_loop h ?m (snd y) = Some (?m |` (- (set (snd y # addrs A) - {h})))"
    using Cons.prems(4-6) by (intro Cons.IH) auto
  moreover have "?m |` (- (set (snd y # addrs A) - {h})) = m |` (- (set (snd z # addrs (y # A)) - {h}))"
    using Cons.prems(5,6) by (auto simp: restrict_map_def fun_eq_iff)
  ultimately show ?case using l s(3) Cons.prems(4) by (subst release_loop.simps) simp
qed

lemma addrs_lev0: "addrs (lev 0 p ns) = map fst ns"
  by (induction ns arbitrary: p) auto

lemma sk_release_spec:
  assumes "sk_holds (sk_mem s) (sk_head s) ns"
  shows "skiplist_release (Some s) = Some Map.empty"
proof -
  let ?m = "sk_mem s" and ?h = "sk_head s"
  have R: "sk_rep ?m ?h ns MAX_SKIPLIST_LEVEL" and dom: "dom ?m = insert ?h (fst ` set ns)" using assms by (simp_all add: sk_holds_def)
  note D = sk_repD [OF R]
  have e: "set (addrs (lev 0 1 ns)) = fst ` set ns" by (simp add: addrs_lev0)
  have "release_loop ?h ?m (snd (0 :: nat, ?h)) = Some (?m |` (- (set (snd (0 :: nat, ?h) # addrs (lev 0 1 ns)) - {?h})))"
    using D(2-6) D(8,9) [of 0] D(10) [of 0 1] D(12) [of _ 0 1] e
    by (intro sk_release_ok [OF D(1)]) (auto simp: MAX_SKIPLIST_LEVEL_def)
  moreover have "(?m |` (- (fst ` set ns - {?h})))(?h := None) = Map.empty"
    using dom by (fastforce simp: restrict_map_def fun_eq_iff)
  ultimately show ?thesis unfolding e [symmetric] by (simp add: skiplist_release_def)
qed

lemma rank_list_ok:
  assumes "wf_mem m" "seg (links m 0) z A" "ends (links m 0) z A" "NULL \<notin> set (addrs A)"
    and "\<forall>c \<in> set (snd z # addrs A). \<exists>lv. label m c = Some (lv, dat c)" "snd z \<noteq> NULL" "length xs \<ge> nat end" "i < nat end"
  shows "rank_list m (snd z) end (int i) xs sc = Some (let ds = take (nat end - i) (map dat (snd z # addrs A)) in
     (take i xs @ ds @ drop (i + length ds) xs, int (i + length ds)))"
  using assms
proof (induction A arbitrary: z i xs sc)
  case Nil
  then obtain n where n: "m (snd z) = Some n" "sn_data n = dat (snd z)" using node_label by fastforce
  have "lnk m (snd z) 0 = Some (links m 0 (snd z))" using Nil.prems by (intro lnk_ok) (auto simp: MAX_SKIPLIST_LEVEL_def)
  then show ?case using Nil.prems n
    by (subst rank_list.simps, subst rank_list.simps) (auto simp: ends_def wri_def wr_def upd_conv_take_nth_drop)
next
  case (Cons y A)
  obtain n where n: "m (snd z) = Some n" "sn_data n = dat (snd z)" using Cons.prems(5) node_label by fastforce
  have l: "lnk m (snd z) 0 = Some (links m 0 (snd z))" using Cons.prems by (intro lnk_ok) (auto simp: MAX_SKIPLIST_LEVEL_def)
  have s: "seg (links m 0) y A" "ends (links m 0) y A" "l_next (links m 0 (snd z)) = snd y"
    using Cons.prems(2,3) ends_mid [of _ z "[]" y A] by simp_all
  let ?xs = "xs[i := dat (snd z)]"
  have i: "i < length xs" "int i < end" using Cons.prems(7,8) by simp_all
  have step: "rank_list m (snd z) end (int i) xs sc = rank_list m (snd y) end (int (Suc i)) ?xs (int (Suc i))"
    using n l s(3) Cons.prems(6) i by (subst rank_list.simps) (simp add: wri_def wr_def add.commute)
  show ?case
  proof (cases "Suc i < nat end")
    case True
    have "rank_list m (snd y) end (int (Suc i)) ?xs (int (Suc i)) = Some (let ds = take (nat end - Suc i) (map dat (snd y # addrs A)) in
     (take (Suc i) ?xs @ ds @ drop (Suc i + length ds) ?xs, int (Suc i + length ds)))"
      using True Cons.prems s by (intro Cons.IH) auto
    moreover have "take (Suc i) ?xs = take i xs @ [dat (snd z)]" using Cons.prems(7,8) by (simp add: take_Suc_conv_app_nth)
    moreover have "nat end - i = Suc (nat end - Suc i)" using Cons.prems(8) by simp
    ultimately show ?thesis unfolding step by (simp add: Let_def)
  next
    case False
    then have "nat end - i = 1" using Cons.prems(8) by simp
    then show ?thesis unfolding step using False Cons.prems(7,8)
      by (subst rank_list.simps) (auto simp: Let_def upd_conv_take_nth_drop)
  qed
qed

section \<open>The sorted list\<close>

definition sk_sorted :: "(ptr \<Rightarrow> 'k::linorder) \<Rightarrow> skiplist_t \<Rightarrow> (ptr \<times> nat \<times> ptr) list \<Rightarrow> bool" where
  "sk_sorted key s ns \<longleftrightarrow> sk_holds (sk_mem s) (sk_head s) ns \<and> sorted (map key (sk_data ns)) \<and> cmp_by key (sk_cmp s)
     \<and> (\<exists>c > 0. sk_random s = map (\<lambda>i. c ^ i) [0..<MAX_SKIPLIST_LEVEL])"

lemma create_sorted:
  assumes "skiplist_create a cmp coff = Some s" "0 < coff" "cmp_by key cmp"
  shows "sk_sorted key s []"
  using create_holds [OF assms(1)] assms(2,3) by (auto simp: sk_sorted_def)

lemma rand_level_ok:
  assumes "sk_random s = map (\<lambda>i. c ^ i) [0..<MAX_SKIPLIST_LEVEL]" "0 < c" "0 \<le> rnd"
  shows "\<exists>lv < MAX_SKIPLIST_LEVEL. skiplist_rand_level s rnd = Some lv"
proof -
  have r: "sk_random s = [1, c, c ^ 2, c ^ 3]" using assms(1) by (simp add: MAX_SKIPLIST_LEVEL_def upt_rec power2_eq_square power3_eq_cube)
  have m: "rnd mod c ^ 3 < c ^ 3" "0 < c ^ 3" using assms(2) by simp_all
  have "[0..<MAX_SKIPLIST_LEVEL] = [0, 1, 2, 3]" by (simp add: MAX_SKIPLIST_LEVEL_def upt_rec)
  then show ?thesis using m unfolding skiplist_rand_level_def r by (auto simp: rd_def c_assert_def MAX_SKIPLIST_LEVEL_def numeral_3_eq_3)
qed

lemma sorted_three:
  assumes "sorted (map f ns)"
  shows "\<exists>lo eq hi. ns = lo @ eq @ hi \<and> (\<forall>n \<in> set lo. f n < k) \<and> (\<forall>n \<in> set eq. f n = k) \<and> (\<forall>n \<in> set hi. k < f n)"
  using assms
proof (induction ns)
  case (Cons n ns)
  then obtain lo eq hi where s: "ns = lo @ eq @ hi" "\<forall>n \<in> set lo. f n < k" "\<forall>n \<in> set eq. f n = k" "\<forall>n \<in> set hi. k < f n"
    by auto
  have le: "f n \<le> f u" if "u \<in> set ns" for u using Cons.prems that by auto
  consider "f n < k" | "f n = k" | "k < f n" by fastforce
  then show ?case
  proof cases
    case 1
    then show ?thesis using s by (intro exI [of _ "n # lo"] exI [of _ eq] exI [of _ hi]) auto
  next
    case 2
    then have "lo = []" using le s(1,2) by (cases lo) fastforce+
    then show ?thesis using s 2 by (intro exI [of _ "[]"] exI [of _ "n # eq"] exI [of _ hi]) auto
  next
    case 3
    then have "\<forall>u \<in> set ns. k < f u" using le by fastforce
    then have "lo = []" "eq = []" using s(1-3) order.asym by (cases lo, auto) (cases eq, auto)
    then show ?thesis using s 3 by (intro exI [of _ "[]"] exI [of _ "n # hi"]) auto
  qed
qed simp

lemma find_sorted:
  assumes S: "sk_sorted key s ns" and x: "x \<noteq> NULL"
  shows "\<exists>lo eq hi r. ns = lo @ eq @ hi \<and> (eq = [] \<longleftrightarrow> key x \<notin> key ` set (sk_data ns)) \<and> (\<forall>n \<in> set eq. key (snd (snd n)) = key x)
    \<and> find_levels (sk_cmp s) (sk_mem s) x MAX_SKIPLIST_LEVEL (sk_head s) 0 (replicate MAX_SKIPLIST_LEVEL NULL) = Some r
    \<and> (case r of None \<Rightarrow> eq = []
       | Some (a, l, sp, change) \<Rightarrow> \<exists>U d V. eq = U @ (a, l, d) # V \<and> (\<forall>n \<in> set (U @ V). fst (snd n) \<le> l)
           \<and> sp = int (Suc (length (lo @ U))) \<and> length change = MAX_SKIPLIST_LEVEL
           \<and> (\<forall>j < MAX_SKIPLIST_LEVEL. change ! j = (if l < j then l_next (links (sk_mem s) j (snd (pred_of (sk_head s) j lo))) else NULL)))"
proof -
  have sort: "sorted (map (\<lambda>n. key (snd (snd n))) ns)" and R: "sk_rep (sk_mem s) (sk_head s) ns MAX_SKIPLIST_LEVEL"
    and c: "cmp_by key (sk_cmp s)"
    using S by (simp_all add: sk_sorted_def sk_holds_def comp_def)
  obtain lo eq hi where e: "ns = lo @ eq @ hi" "\<forall>n \<in> set lo. key (snd (snd n)) < key x" "\<forall>n \<in> set eq. key (snd (snd n)) = key x"
      "\<forall>n \<in> set hi. key x < key (snd (snd n))"
    using sorted_three [OF sort, of "key x"] by blast
  have "\<forall>n \<in> set eq. fst (snd n) < MAX_SKIPLIST_LEVEL" using sk_repD(7) [OF R] e(1) by fastforce
  moreover have "\<forall>n \<in> set lo. sk_cmp s (snd (snd n)) x < 0" "\<forall>n \<in> set eq. sk_cmp s (snd (snd n)) x = 0" "\<forall>n \<in> set hi. sk_cmp s (snd (snd n)) x > 0"
    using e c unfolding cmp_by_def by (simp, simp, metis linorder_neqE order.asym)
  ultimately have "\<exists>r. find_levels (sk_cmp s) (sk_mem s) x MAX_SKIPLIST_LEVEL (snd (pred_of (sk_head s) MAX_SKIPLIST_LEVEL lo))
      (int (fst (pred_of (sk_head s) MAX_SKIPLIST_LEVEL lo))) (replicate MAX_SKIPLIST_LEVEL NULL) = Some r
    \<and> (case r of None \<Rightarrow> eq = []
       | Some (a, l, sp, change') \<Rightarrow> \<exists>U d V. eq = U @ (a, l, d) # V \<and> l < MAX_SKIPLIST_LEVEL \<and> (\<forall>n \<in> set eq. fst (snd n) \<le> l)
           \<and> sp = int (Suc (length (lo @ U))) \<and> length change' = MAX_SKIPLIST_LEVEL
           \<and> (\<forall>j. change' ! j = (if l < j \<and> j < MAX_SKIPLIST_LEVEL then l_next (links (sk_mem s) j (snd (pred_of (sk_head s) j lo)))
               else replicate MAX_SKIPLIST_LEVEL NULL ! j)))"
    using R e(1) by (intro find_levels_ok) auto
  moreover have "pred_of (sk_head s) MAX_SKIPLIST_LEVEL lo = (0, sk_head s)" using pred_top R e(1) by blast
  moreover have "eq = [] \<longleftrightarrow> key x \<notin> key ` set (sk_data ns)" using e by (cases eq) force+
  ultimately obtain r where r: "find_levels (sk_cmp s) (sk_mem s) x MAX_SKIPLIST_LEVEL (sk_head s) 0 (replicate MAX_SKIPLIST_LEVEL NULL) = Some r"
    "case r of None \<Rightarrow> eq = []
       | Some (a, l, sp, change') \<Rightarrow> \<exists>U d V. eq = U @ (a, l, d) # V \<and> l < MAX_SKIPLIST_LEVEL \<and> (\<forall>n \<in> set eq. fst (snd n) \<le> l)
           \<and> sp = int (Suc (length (lo @ U))) \<and> length change' = MAX_SKIPLIST_LEVEL
           \<and> (\<forall>j. change' ! j = (if l < j \<and> j < MAX_SKIPLIST_LEVEL then l_next (links (sk_mem s) j (snd (pred_of (sk_head s) j lo)))
               else replicate MAX_SKIPLIST_LEVEL NULL ! j))"
    and q: "eq = [] \<longleftrightarrow> key x \<notin> key ` set (sk_data ns)" by auto
  have "case r of None \<Rightarrow> eq = []
       | Some (a, l, sp, change) \<Rightarrow> \<exists>U d V. eq = U @ (a, l, d) # V \<and> (\<forall>n \<in> set (U @ V). fst (snd n) \<le> l)
           \<and> sp = int (Suc (length (lo @ U))) \<and> length change = MAX_SKIPLIST_LEVEL
           \<and> (\<forall>j < MAX_SKIPLIST_LEVEL. change ! j = (if l < j then l_next (links (sk_mem s) j (snd (pred_of (sk_head s) j lo))) else NULL))"
  proof (cases r)
    case (Some t)
    obtain a l sp ch where t: "t = (a, l, sp, ch)" by (cases t)
    obtain U d V where "eq = U @ (a, l, d) # V" "\<forall>n \<in> set eq. fst (snd n) \<le> l" "sp = int (Suc (length (lo @ U)))" "length ch = MAX_SKIPLIST_LEVEL"
      "\<forall>j. ch ! j = (if l < j \<and> j < MAX_SKIPLIST_LEVEL then l_next (links (sk_mem s) j (snd (pred_of (sk_head s) j lo)))
               else replicate MAX_SKIPLIST_LEVEL NULL ! j)"
      using r(2) Some t by auto
    then show ?thesis unfolding Some t by (simp, intro exI [of _ U] exI [of _ d] exI [of _ V]) simp
  qed (use r(2) in simp)
  then show ?thesis using e(1,3) q r(1) by blast
qed

lemma sorted_dropWhile:
  assumes "sorted (map f ns)"
  shows "\<forall>n \<in> set (dropWhile (\<lambda>n. f n \<le> k) ns). \<not> f n \<le> k"
  using assms
proof (induction ns)
  case (Cons n ns)
  show ?case
  proof (cases "f n \<le> k")
    case False
    have "\<not> f u \<le> k" if "u \<in> set ns" for u
    proof -
      have "f n \<le> f u" using Cons.prems that by simp
      then show ?thesis using False order_trans by blast
    qed
    then show ?thesis using False by simp
  next
    case True
    have "sorted (map f ns)" using Cons.prems by simp
    from Cons.IH [OF this] True show ?thesis by (simp only: dropWhile.simps if_True)
  qed
qed simp

lemma sorted_insert_mid:
  assumes "sorted (map f (X @ Y))" "\<And>n. n \<in> set X \<Longrightarrow> f n \<le> f u" "\<forall>n \<in> set Y. \<not> f n \<le> f u"
  shows "sorted (map f (X @ u # Y))"
  using assms by (auto simp: sorted_append not_le less_imp_le)

lemma by_rank_ok:
  assumes "sk_rep (sk_mem s) (sk_head s) (A @ (a, l, d) # B) MAX_SKIPLIST_LEVEL"
  shows "skiplist_find_by_rank (Some s) (int (length A) + 1) = Some d"
proof -
  note D = sk_repD [OF assms]
  have "label (sk_mem s) a = Some (l, d)" "a \<noteq> NULL" "l < MAX_SKIPLIST_LEVEL" using D(7) [of a l d] D(3) by auto
  then obtain n where n: "sk_mem s a = Some n" "sn_data n = d" using node_label by blast
  have "rank_levels (sk_mem s) (int (Suc (length A))) MAX_SKIPLIST_LEVEL (snd (pred_of (sk_head s) MAX_SKIPLIST_LEVEL A))
      (int (fst (pred_of (sk_head s) MAX_SKIPLIST_LEVEL A))) = Some (if (a, l, d) # B = [] then NULL else fst (hd ((a, l, d) # B)))"
    using \<open>l < MAX_SKIPLIST_LEVEL\<close> by (intro rank_levels_ok [OF assms]) auto
  then show ?thesis using n \<open>a \<noteq> NULL\<close> unfolding pred_top [OF assms]
    by (simp add: skiplist_find_by_rank_def skiplist_find_node_by_rank_def add.commute)
qed

lemma size_ok:
  assumes "sk_holds (sk_mem s) (sk_head s) ns"
  shows "skiplist_size (Some s) = Some (int (length ns))"
proof -
  have R: "sk_rep (sk_mem s) (sk_head s) ns MAX_SKIPLIST_LEVEL" using assms by (simp add: sk_holds_def)
  then show ?thesis
    using size_levels_ok [OF R, of MAX_SKIPLIST_LEVEL] pred_top [of "sk_mem s" "sk_head s" ns "[]"] by (simp add: skiplist_size_def pred_bottom)
qed

definition sk_example :: skiplist_t where
  \<comment> \<open>a list of three data, which are their own keys, on three levels\<close>
  "sk_example = \<lparr>sk_random = [1, 2, 4, 8], sk_head = 1,
     sk_mem = [1 \<mapsto> \<lparr>sn_link = [\<lparr>l_next = 2, l_prev = 0, l_span = 0\<rparr>, \<lparr>l_next = 3, l_prev = 0, l_span = 0\<rparr>,
           \<lparr>l_next = 0, l_prev = 0, l_span = 0\<rparr>, \<lparr>l_next = 0, l_prev = 0, l_span = 0\<rparr>], sn_level = 0, sn_data = 0\<rparr>,
         2 \<mapsto> \<lparr>sn_link = [\<lparr>l_next = 3, l_prev = 1, l_span = 1\<rparr>, \<lparr>l_next = 0, l_prev = 0, l_span = 0\<rparr>,
           \<lparr>l_next = 0, l_prev = 0, l_span = 0\<rparr>, \<lparr>l_next = 0, l_prev = 0, l_span = 0\<rparr>], sn_level = 0, sn_data = 5\<rparr>,
         3 \<mapsto> \<lparr>sn_link = [\<lparr>l_next = 4, l_prev = 2, l_span = 1\<rparr>, \<lparr>l_next = 0, l_prev = 1, l_span = 2\<rparr>,
           \<lparr>l_next = 0, l_prev = 0, l_span = 0\<rparr>, \<lparr>l_next = 0, l_prev = 0, l_span = 0\<rparr>], sn_level = 1, sn_data = 7\<rparr>,
         4 \<mapsto> \<lparr>sn_link = [\<lparr>l_next = 0, l_prev = 3, l_span = 1\<rparr>, \<lparr>l_next = 0, l_prev = 0, l_span = 0\<rparr>,
           \<lparr>l_next = 0, l_prev = 0, l_span = 0\<rparr>, \<lparr>l_next = 0, l_prev = 0, l_span = 0\<rparr>], sn_level = 0, sn_data = 9\<rparr>],
     sk_cmp = \<lambda>x y. int x - int y\<rparr>"

lemma sk_example_sorted: "sk_sorted (\<lambda>d. d) sk_example [(2, 0, 5), (3, 1, 7), (4, 0, 9)]"
proof -
  have "(\<forall>i < MAX_SKIPLIST_LEVEL. P i) \<longleftrightarrow> P 0 \<and> P 1 \<and> P 2 \<and> P 3" for P
    by (auto simp: MAX_SKIPLIST_LEVEL_def less_Suc_eq numeral_eq_Suc)
  then have "sk_rep (sk_mem sk_example) 1 [(2, 0, 5), (3, 1, 7), (4, 0, 9)] MAX_SKIPLIST_LEVEL"
    unfolding sk_rep_def by (simp add: sk_example_def wf_mem_def label_def links_def ends_def MAX_SKIPLIST_LEVEL_def)
  moreover have "dom (sk_mem sk_example) = {1, 2, 3, 4}" by (auto simp: sk_example_def)
  moreover have "cmp_by (\<lambda>d. d) (sk_cmp sk_example)" by (auto simp: cmp_by_def sk_example_def)
  moreover have "sk_random sk_example = map (\<lambda>i. 2 ^ i) [0..<MAX_SKIPLIST_LEVEL]"
    by (simp add: sk_example_def MAX_SKIPLIST_LEVEL_def upt_rec)
  moreover have "sk_head sk_example = 1" by (simp add: sk_example_def)
  ultimately show ?thesis by (auto simp: sk_sorted_def sk_holds_def intro!: exI [of _ 2])
qed

text \<open>C8: Insertion into a list that is sorted by a key returns 0 and leaves a sorted list, with links and
  spans in order on every level, in which the new node stands behind all nodes with the same or a lower
  key and before all others.\<close>

theorem skiplist_insert_spec:
  assumes "sk_sorted key s ns" "d \<noteq> NULL" "a \<noteq> NULL" "sk_mem s a = None" "0 \<le> rnd"
  shows "\<exists>s' lv. skiplist_insert (Some s) a rnd d = Some (Some s', 0)
    \<and> sk_sorted key s' (takeWhile (\<lambda>n. key (snd (snd n)) \<le> key d) ns @ (a, lv, d) # dropWhile (\<lambda>n. key (snd (snd n)) \<le> key d) ns)"
proof -
  let ?P = "\<lambda>n. key (snd (snd n)) \<le> key d"
  obtain c where S: "sk_holds (sk_mem s) (sk_head s) ns" "sorted (map key (sk_data ns))" "cmp_by key (sk_cmp s)"
    "0 < c" "sk_random s = map (\<lambda>i. c ^ i) [0..<MAX_SKIPLIST_LEVEL]"
    using assms(1) by (auto simp: sk_sorted_def)
  obtain lv where lv: "skiplist_rand_level s rnd = Some lv" "lv < MAX_SKIPLIST_LEVEL" using rand_level_ok [OF S(5,4) assms(5)] by blast
  have le: "sk_cmp s x y \<le> 0 \<longleftrightarrow> key x \<le> key y" for x y
    using S(3) unfolding cmp_by_def by (metis dual_order.order_iff_strict)
  have sort: "sorted (map (\<lambda>n. key (snd (snd n))) ns)" using S(2) by (simp add: comp_def)
  have hi: "\<forall>n \<in> set (dropWhile ?P ns). \<not> ?P n"
    using sort by (rule sorted_dropWhile)
  have "\<exists>m'. skiplist_insert (Some s) a rnd d = Some (Some (s\<lparr>sk_mem := m'\<rparr>), 0)
      \<and> sk_holds m' (sk_head s) (takeWhile ?P ns @ (a, lv, d) # dropWhile ?P ns)"
  proof -
    have "\<forall>n \<in> set (takeWhile ?P ns). sk_cmp s (snd (snd n)) d \<le> 0" "\<forall>n \<in> set (dropWhile ?P ns). \<not> sk_cmp s (snd (snd n)) d \<le> 0"
      unfolding le by (blast dest: set_takeWhileD, rule hi)
    moreover have "sk_holds (sk_mem s) (sk_head s) (takeWhile ?P ns @ dropWhile ?P ns)" using S(1) by simp
    ultimately show ?thesis by (intro insert_ok [OF _ assms(3,4,2) lv])
  qed
  then obtain m' where m': "skiplist_insert (Some s) a rnd d = Some (Some (s\<lparr>sk_mem := m'\<rparr>), 0)"
      "sk_holds m' (sk_head s) (takeWhile ?P ns @ (a, lv, d) # dropWhile ?P ns)" by blast
  note m'
  moreover have "sorted (map key (sk_data (takeWhile ?P ns @ (a, lv, d) # dropWhile ?P ns)))"
    unfolding map_map comp_def
  proof (rule sorted_insert_mid)
    show "sorted (map (\<lambda>n. key (snd (snd n))) (takeWhile ?P ns @ dropWhile ?P ns))" using sort unfolding takeWhile_dropWhile_id .
    show "key (snd (snd n)) \<le> key (snd (snd (a, lv, d)))" if "n \<in> set (takeWhile ?P ns)" for n
      using set_takeWhileD [OF that] by simp
    show "\<forall>n \<in> set (dropWhile ?P ns). \<not> key (snd (snd n)) \<le> key (snd (snd (a, lv, d)))" unfolding snd_conv by (rule hi)
  qed
  moreover have "sk_cmp (s\<lparr>sk_mem := m'\<rparr>) = sk_cmp s" "sk_random (s\<lparr>sk_mem := m'\<rparr>) = sk_random s" "sk_mem (s\<lparr>sk_mem := m'\<rparr>) = m'"
    "sk_head (s\<lparr>sk_mem := m'\<rparr>) = sk_head s" by simp_all
  ultimately have "sk_sorted key (s\<lparr>sk_mem := m'\<rparr>) (takeWhile ?P ns @ (a, lv, d) # dropWhile ?P ns)"
    using S(3-5) unfolding sk_sorted_def by metis
  then show ?thesis using m'(1) by blast
qed

theorem skiplist_insert_spec_witness:
  "\<exists>s' lv. skiplist_insert (Some sk_example) 8 5 7 = Some (Some s', 0)
     \<and> sk_sorted (\<lambda>d. d) s' [(2, 0, 5), (3, 1, 7), (8, lv, 7), (4, 0, 9)]"
proof -
  have "sk_mem sk_example 8 = None" by (simp add: sk_example_def)
  then show ?thesis using skiplist_insert_spec [OF sk_example_sorted, of 7 8 5] by simp
qed

text \<open>C9: Removal from a sorted list takes out exactly one node with the key that is asked for, frees it,
  and leaves the others sorted with links and spans in order; without such a node the list stays as it is.\<close>

theorem skiplist_erase_spec:
  assumes "sk_sorted key s ns" "x \<noteq> NULL"
  shows "(if key x \<in> key ` set (sk_data ns)
     then \<exists>s' X a lv d Y. ns = X @ (a, lv, d) # Y \<and> key d = key x \<and> skiplist_erase (Some s) x = Some (Some s', d) \<and> sk_sorted key s' (X @ Y)
     else skiplist_erase (Some s) x = Some (Some s, NULL))"
proof -
  obtain lo eq hi r where f: "ns = lo @ eq @ hi" "eq = [] \<longleftrightarrow> key x \<notin> key ` set (sk_data ns)" "\<forall>n \<in> set eq. key (snd (snd n)) = key x"
    "find_levels (sk_cmp s) (sk_mem s) x MAX_SKIPLIST_LEVEL (sk_head s) 0 (replicate MAX_SKIPLIST_LEVEL NULL) = Some r"
    "case r of None \<Rightarrow> eq = []
       | Some (a, l, sp, change) \<Rightarrow> \<exists>U d V. eq = U @ (a, l, d) # V \<and> (\<forall>n \<in> set (U @ V). fst (snd n) \<le> l)
           \<and> sp = int (Suc (length (lo @ U))) \<and> length change = MAX_SKIPLIST_LEVEL
           \<and> (\<forall>j < MAX_SKIPLIST_LEVEL. change ! j = (if l < j then l_next (links (sk_mem s) j (snd (pred_of (sk_head s) j lo))) else NULL))"
    using find_sorted [OF assms] by blast
  show ?thesis
  proof (cases r)
    case None
    then show ?thesis using f assms(2) by (simp add: skiplist_erase_def skiplist_find_erase_def)
  next
    case (Some t)
    then obtain a l sp change U d V where t: "r = Some (a, l, sp, change)" "eq = U @ (a, l, d) # V" "\<forall>n \<in> set (U @ V). fst (snd n) \<le> l"
      "length change = MAX_SKIPLIST_LEVEL"
      "\<forall>j < MAX_SKIPLIST_LEVEL. change ! j = (if l < j then l_next (links (sk_mem s) j (snd (pred_of (sk_head s) j lo))) else NULL)"
      using f(5) by (cases t) auto
    have H: "sk_holds (sk_mem s) (sk_head s) (lo @ U @ (a, l, d) # V @ hi)" using assms(1) f(1) t(2) by (simp add: sk_sorted_def)
    then have "sk_rep (sk_mem s) (sk_head s) (lo @ U @ (a, l, d) # V @ hi) MAX_SKIPLIST_LEVEL" by (simp add: sk_holds_def)
    then have "label (sk_mem s) a = Some (l, d)" using sk_repD(7) [of "sk_mem s" "sk_head s" _ MAX_SKIPLIST_LEVEL a l d] by simp
    then obtain n where n: "sk_mem s a = Some n" "sn_data n = d" using node_label by blast
    from remove_ok [OF H t(3-5)] obtain m1 m2 where m: "foldM (\<lambda>i m. skiplist_erase_node m a i) (rev [0..<l + 1]) (sk_mem s) = Some m1"
      "foldM (\<lambda>i m. do { b \<leftarrow> rd change i; if b \<noteq> NULL then upd m b i (\<lambda>k. k\<lparr>l_span := l_span k - 1\<rparr>) else Some m })
        [0..<MAX_SKIPLIST_LEVEL] (m1(a := None)) = Some m2" "sk_holds m2 (sk_head s) (lo @ U @ V @ hi)" by blast
    have "skiplist_erase (Some s) x = Some (Some (s\<lparr>sk_mem := m2\<rparr>), d)"
      using assms(2) f(4) t(1) n m(1,2) by (simp add: skiplist_erase_def skiplist_find_erase_def del: upt_Suc)
    moreover have "sk_sorted key (s\<lparr>sk_mem := m2\<rparr>) ((lo @ U) @ (V @ hi))"
      using assms(1) m(3) f(1) t(2) by (auto simp: sk_sorted_def sorted_append)
    moreover have "key d = key x" "ns = (lo @ U) @ (a, l, d) # (V @ hi)" using f(1,3) t(2) by simp_all
    moreover have "key x \<in> key ` set (sk_data ns)" using f(2) t(2) by blast
    ultimately show ?thesis unfolding if_P [OF \<open>key x \<in> key ` set (sk_data ns)\<close>] by blast
  qed
qed

theorem skiplist_erase_spec_witness:
  "\<exists>s'. skiplist_erase (Some sk_example) 7 = Some (Some s', 7) \<and> sk_sorted (\<lambda>d. d) s' [(2, 0, 5), (4, 0, 9)]"
proof -
  obtain s' X a lv d Y where r: "[(2, 0, 5), (3, 1, 7), (4, 0, 9)] = X @ (a, lv, d) # Y" "d = 7"
      "skiplist_erase (Some sk_example) 7 = Some (Some s', d)" "sk_sorted (\<lambda>d. d) s' (X @ Y)"
    using skiplist_erase_spec [OF sk_example_sorted, of 7] by auto
  from r(1,2) have "X @ Y = [(2, 0, 5), (4, 0, 9)]" by (auto simp: Cons_eq_append_conv)
  then show ?thesis using r(2-4) by auto
qed

text \<open>C10: A search in a sorted list finds a datum with the key that is asked for together with its rank,
  the number of its position counted from 1, at which the search by rank finds it again.\<close>

theorem skiplist_find_rank:
  assumes "sk_sorted key s ns" "x \<noteq> NULL"
  shows "(if key x \<in> key ` set (sk_data ns)
     then \<exists>i < length ns. key (sk_data ns ! i) = key x \<and> skiplist_find (Some s) x = Some (sk_data ns ! i, Some (int i + 1))
        \<and> skiplist_find_by_rank (Some s) (int i + 1) = Some (sk_data ns ! i)
     else skiplist_find (Some s) x = Some (NULL, None))"
proof -
  obtain lo eq hi r where f: "ns = lo @ eq @ hi" "eq = [] \<longleftrightarrow> key x \<notin> key ` set (sk_data ns)" "\<forall>n \<in> set eq. key (snd (snd n)) = key x"
    "find_levels (sk_cmp s) (sk_mem s) x MAX_SKIPLIST_LEVEL (sk_head s) 0 (replicate MAX_SKIPLIST_LEVEL NULL) = Some r"
    "case r of None \<Rightarrow> eq = []
       | Some (a, l, sp, change) \<Rightarrow> \<exists>U d V. eq = U @ (a, l, d) # V \<and> (\<forall>n \<in> set (U @ V). fst (snd n) \<le> l)
           \<and> sp = int (Suc (length (lo @ U))) \<and> length change = MAX_SKIPLIST_LEVEL
           \<and> (\<forall>j < MAX_SKIPLIST_LEVEL. change ! j = (if l < j then l_next (links (sk_mem s) j (snd (pred_of (sk_head s) j lo))) else NULL))"
    using find_sorted [OF assms] by blast
  show ?thesis
  proof (cases r)
    case None
    then show ?thesis using f assms(2) by (simp add: skiplist_find_def skiplist_find_erase_def)
  next
    case (Some t)
    then obtain a l change U d V where t: "r = Some (a, l, int (Suc (length (lo @ U))), change)" "eq = U @ (a, l, d) # V"
      using f(5) by (cases t) auto
    let ?i = "length (lo @ U)"
    have e: "ns = (lo @ U) @ (a, l, d) # (V @ hi)" using f(1) t(2) by simp
    have R: "sk_rep (sk_mem s) (sk_head s) ((lo @ U) @ (a, l, d) # (V @ hi)) MAX_SKIPLIST_LEVEL"
      using assms(1) unfolding e sk_sorted_def sk_holds_def by blast
    have "label (sk_mem s) a = Some (l, d)" using sk_repD(7) [OF R, of a l d] by simp
    then obtain n where n: "sk_mem s a = Some n" "sn_data n = d" using node_label by blast
    have d: "sk_data ns ! ?i = d" "?i < length ns" unfolding e by (simp_all add: nth_append)
    have "skiplist_find (Some s) x = Some (d, Some (int ?i + 1))"
      using assms(2) f(4) t(1) n by (simp add: skiplist_find_def skiplist_find_erase_def)
    moreover have "skiplist_find_by_rank (Some s) (int ?i + 1) = Some d" by (rule by_rank_ok [OF R])
    moreover have "key d = key x" using f(3) t(2) by simp
    moreover have k: "key x \<in> key ` set (sk_data ns)" using f(2) t(2) by blast
    ultimately show ?thesis unfolding if_P [OF k] using d by (intro exI [of _ ?i]) simp
  qed
qed

theorem skiplist_find_rank_witness:
  "skiplist_find (Some sk_example) 7 = Some (7, Some 2) \<and> skiplist_find_by_rank (Some sk_example) 2 = Some 7"
proof -
  obtain i where "i < 3" "[5, 7, 9] ! i = (7 :: ptr)" "skiplist_find (Some sk_example) 7 = Some ([5, 7, 9] ! i, Some (int i + 1))"
      "skiplist_find_by_rank (Some sk_example) (int i + 1) = Some ([5, 7, 9] ! i)"
    using skiplist_find_rank [OF sk_example_sorted, of 7] by auto
  moreover from this(1,2) have "i = 1" by (auto simp: nth_Cons' split: if_splits)
  ultimately show ?thesis by simp
qed

end
