(* ===== verification/Base_Slist.thy ===== *)
theory Base_Slist
  imports Prelude
begin

text \<open>
  \<^verbatim>\<open>base/slist.c\<close>: a singly linked list of pointers with a cached length.  The chain of
  nodes from \<open>sl->node\<close> is the list of their data, the pointer walks are recursions over it.
  Every operation but \<open>slist_clean\<close> keeps the cached length in step.
\<close>

section \<open>State and operations\<close>

record slist_t =
  sl_size :: int
  sl_nodes :: "ptr list"

definition slist_create :: "bool \<Rightarrow> slist_t option" where
  "slist_create ok = (if \<not> ok then None else Some \<lparr>sl_size = 0, sl_nodes = []\<rparr>)"

fun slist_push_front :: "bool \<Rightarrow> slist_t option \<Rightarrow> ptr \<Rightarrow> slist_t option \<times> int" where
  "slist_push_front ok None d = (None, -1)"
| "slist_push_front ok (Some sl) d =
     (if d = NULL then (Some sl, -1) else if \<not> ok then (Some sl, -1)
      else (Some (sl\<lparr>sl_size := sl_size sl + 1, sl_nodes := d # sl_nodes sl\<rparr>), 0))"

fun append_node :: "ptr list \<Rightarrow> ptr \<Rightarrow> ptr list" where
  \<comment> \<open>walk to the last node (\<^verbatim>\<open>while (node->next)\<close>) and link the new one\<close>
  "append_node [] d = [d]"
| "append_node [x] d = [x, d]"
| "append_node (x # y # ys) d = x # append_node (y # ys) d"

fun slist_push_back :: "bool \<Rightarrow> slist_t option \<Rightarrow> ptr \<Rightarrow> slist_t option \<times> int" where
  "slist_push_back ok None d = (None, -1)"
| "slist_push_back ok (Some sl) d =
     (if d = NULL then (Some sl, -1) else if \<not> ok then (Some sl, -1)
      else (Some (sl\<lparr>sl_size := sl_size sl + 1, sl_nodes := append_node (sl_nodes sl) d\<rparr>), 0))"

fun slist_pop_front :: "slist_t option \<Rightarrow> slist_t option \<times> ptr" where
  "slist_pop_front None = (None, NULL)"
| "slist_pop_front (Some sl) =
     (case sl_nodes sl of [] \<Rightarrow> (Some sl, NULL)
      | n # ns \<Rightarrow> (Some (sl\<lparr>sl_size := sl_size sl - 1, sl_nodes := ns\<rparr>), n))"

fun unlink_last :: "ptr list \<Rightarrow> ptr list \<times> ptr" where
  \<comment> \<open>walk to the last node with its predecessor, unlink it\<close>
  "unlink_last [] = ([], NULL)"
| "unlink_last [x] = ([], x)"
| "unlink_last (x # y # ys) = (case unlink_last (y # ys) of (zs, d) \<Rightarrow> (x # zs, d))"

fun slist_pop_back :: "slist_t option \<Rightarrow> slist_t option \<times> ptr" where
  "slist_pop_back None = (None, NULL)"
| "slist_pop_back (Some sl) =
     (if sl_nodes sl = [] then (Some sl, NULL)
      else (case unlink_last (sl_nodes sl) of (ns, d) \<Rightarrow>
        (Some (sl\<lparr>sl_size := sl_size sl - 1, sl_nodes := ns\<rparr>), d)))"

fun unlink_first :: "ptr \<Rightarrow> ptr list \<Rightarrow> (ptr list) option" where
  \<comment> \<open>walk to the first node holding \<open>d\<close> and unlink it; \<open>None\<close> when the walk ends at \<open>NULL\<close>\<close>
  "unlink_first d [] = None"
| "unlink_first d (x # xs) =
     (if x \<noteq> d then (case unlink_first d xs of None \<Rightarrow> None | Some ys \<Rightarrow> Some (x # ys)) else Some xs)"

fun slist_remove :: "slist_t option \<Rightarrow> ptr \<Rightarrow> slist_t option \<times> int" where
  "slist_remove None d = (None, -1)"
| "slist_remove (Some sl) d =
     (if d = NULL then (Some sl, -1)
      else (case unlink_first d (sl_nodes sl) of
          None \<Rightarrow> (Some sl, 0)
        | Some ns \<Rightarrow> (Some (sl\<lparr>sl_nodes := ns, sl_size := sl_size sl - 1\<rparr>), 0)))"

fun slist_has :: "ptr list \<Rightarrow> ptr \<Rightarrow> int" where
  "slist_has [] d = -1"
| "slist_has (x # xs) d = (if x = d then 0 else slist_has xs d)"

fun slist_find :: "slist_t option \<Rightarrow> ptr \<Rightarrow> int" where
  "slist_find None d = -1"
| "slist_find (Some sl) d = (if d = NULL then -1 else slist_has (sl_nodes sl) d)"

fun slist_clean :: "slist_t option \<Rightarrow> slist_t option \<times> int" where
  "slist_clean None = (None, -1)"
| "slist_clean (Some sl) = (Some (sl\<lparr>sl_nodes := []\<rparr>), 0)"

fun slist_size :: "slist_t option \<Rightarrow> int" where
  "slist_size None = -1"
| "slist_size (Some sl) = sl_size sl"

section \<open>The list it holds\<close>

definition slist_inv :: "slist_t \<Rightarrow> bool" where
  "slist_inv sl \<longleftrightarrow> sl_size sl = int (length (sl_nodes sl)) \<and> NULL \<notin> set (sl_nodes sl)"

lemma append_node_eq: "append_node xs d = xs @ [d]"
  by (induction xs d rule: append_node.induct) auto

lemma unlink_last_eq: "xs \<noteq> [] \<Longrightarrow> unlink_last xs = (butlast xs, last xs)"
  by (induction xs rule: unlink_last.induct) auto

lemma unlink_first_eq: "unlink_first d xs = (if d \<in> set xs then Some (remove1 d xs) else None)"
  by (induction xs) auto

lemma slist_has_eq: "slist_has xs d = (if d \<in> set xs then 0 else -1)"
  by (induction xs) auto

lemma slist_create_inv: "slist_create ok = Some sl \<Longrightarrow> slist_inv sl \<and> sl_nodes sl = []"
  by (auto simp: slist_create_def slist_inv_def split: if_splits)

section \<open>Properties\<close>

text \<open>With allocation succeeding the list operations are those of a deque of non-null pointers:
  push at either end, pop at either end, removal of the first occurrence and membership, and
  each of them keeps the cached length equal to the number of nodes.\<close>

lemma slist_refines_list:
  assumes "slist_inv sl" and "d \<noteq> NULL"
  shows "\<exists>f b pf pb r. slist_push_front True (Some sl) d = (Some f, 0) \<and> slist_inv f \<and> sl_nodes f = d # sl_nodes sl
     \<and> slist_push_back True (Some sl) d = (Some b, 0) \<and> slist_inv b \<and> sl_nodes b = sl_nodes sl @ [d]
     \<and> slist_pop_front (Some sl) = (Some pf, if sl_nodes sl = [] then NULL else hd (sl_nodes sl))
     \<and> slist_inv pf \<and> sl_nodes pf = tl (sl_nodes sl)
     \<and> slist_pop_back (Some sl) = (Some pb, if sl_nodes sl = [] then NULL else last (sl_nodes sl))
     \<and> slist_inv pb \<and> sl_nodes pb = butlast (sl_nodes sl)
     \<and> slist_remove (Some sl) d = (Some r, 0) \<and> slist_inv r \<and> sl_nodes r = remove1 d (sl_nodes sl)
     \<and> (slist_find (Some sl) d = 0 \<longleftrightarrow> d \<in> set (sl_nodes sl))"
proof -
  have 1: "slist_inv (sl\<lparr>sl_size := sl_size sl + 1, sl_nodes := d # sl_nodes sl\<rparr>)"
    "slist_inv (sl\<lparr>sl_size := sl_size sl + 1, sl_nodes := sl_nodes sl @ [d]\<rparr>)"
    using assms by (auto simp: slist_inv_def)
  have 2: "slist_inv (sl\<lparr>sl_size := sl_size sl - 1, sl_nodes := tl (sl_nodes sl)\<rparr>)"
    "slist_inv (sl\<lparr>sl_size := sl_size sl - 1, sl_nodes := butlast (sl_nodes sl)\<rparr>)" if "sl_nodes sl \<noteq> []"
    using assms that by (auto simp: slist_inv_def of_nat_diff Suc_leI dest: list.set_sel(2) in_set_butlastD)
  have 3: "slist_inv (sl\<lparr>sl_nodes := remove1 d (sl_nodes sl), sl_size := sl_size sl - 1\<rparr>)" if "d \<in> set (sl_nodes sl)"
    using assms that length_pos_if_in_set [OF that]
    by (auto simp: slist_inv_def length_remove1 of_nat_diff Suc_leI dest: notin_set_remove1)
  show ?thesis
    using assms 1 2 3
    by (cases "sl_nodes sl = []")
       (auto simp: append_node_eq unlink_last_eq unlink_first_eq slist_has_eq remove1_idem split: list.splits)
qed

lemma slist_refines_list_witness:
  "\<exists>sl b. slist_create True = Some sl \<and> slist_push_back True (Some sl) 5 = (Some b, 0) \<and> sl_nodes b = [5]"
proof -
  obtain sl where c: "slist_create True = Some sl" by (simp add: slist_create_def)
  from slist_refines_list [OF conjunct1 [OF slist_create_inv [OF c]], of 5] c slist_create_inv [OF c]
  show ?thesis by auto
qed

text \<open>\<open>slist_clean\<close> frees the nodes but keeps the cached length: after cleaning a list of
  \<open>n\<close> elements \<open>slist_size\<close> still reports \<open>n\<close>, and an element pushed afterwards makes it \<open>n + 1\<close>.\<close>

lemma slist_clean_keeps_size:
  assumes "slist_inv sl"
  shows "slist_size (fst (slist_clean (Some sl))) = int (length (sl_nodes sl))
     \<and> map_option sl_nodes (fst (slist_clean (Some sl))) = Some []
     \<and> (d \<noteq> NULL \<longrightarrow> slist_size (fst (slist_push_back True (fst (slist_clean (Some sl))) d)) =
          int (length (sl_nodes sl)) + 1)"
  using assms by (simp add: slist_inv_def)

lemma slist_clean_keeps_size_witness:
  "slist_size (fst (slist_clean (Some \<lparr>sl_size = 2, sl_nodes = [4, 5]\<rparr>))) = 2"
  using slist_clean_keeps_size [of "\<lparr>sl_size = 2, sl_nodes = [4, 5]\<rparr>" 1] by (simp add: slist_inv_def)

end
