(* ===== verification/Util_Time.thy ===== *)
theory Util_Time
  imports Prelude
begin

text \<open>
  \<^verbatim>\<open>util/util_time.c\<close>: comparison, sum and difference of \<^verbatim>\<open>struct timeval\<close> values and the date
  numbers of the log files.  Seconds and microseconds are unbounded integers: both fields
  are 64 bits wide and far from their bounds.  \<^verbatim>\<open>localtime_r\<close> is a parameter.
\<close>

record timeval =
  tv_sec :: int
  tv_usec :: int

record tm =
  tm_year :: int
  tm_mon :: int
  tm_mday :: int
  tm_hour :: int

definition util_hour_number :: "(int \<Rightarrow> tm) \<Rightarrow> int \<Rightarrow> u32" where
  "util_hour_number localtime time = (let now_tm = localtime time in
     word_of_int (tm_year now_tm + 1900) * 1000000
     + word_of_int (tm_mon now_tm + 1) * 10000
     + word_of_int (tm_mday now_tm) * 100
     + word_of_int (tm_hour now_tm))"

definition util_date_number :: "(int \<Rightarrow> tm) \<Rightarrow> int \<Rightarrow> u32" where
  "util_date_number localtime time = (let now_tm = localtime time in
     word_of_int (tm_year now_tm + 1900) * 10000
     + word_of_int (tm_mon now_tm + 1) * 100
     + word_of_int (tm_mday now_tm))"

definition util_time_compare :: "timeval \<Rightarrow> timeval \<Rightarrow> int" where
  "util_time_compare tv1 tv2 =
     (if tv_sec tv1 > tv_sec tv2 then 1
      else if tv_sec tv1 < tv_sec tv2 then -1
      else if tv_usec tv1 > tv_usec tv2 then 1
      else if tv_usec tv1 < tv_usec tv2 then -1
      else 0)"

function carry_usec :: "timeval \<Rightarrow> timeval" where
  \<comment> \<open>the while loop of \<^verbatim>\<open>util_time_add\<close>\<close>
  "carry_usec t = (if tv_usec t > 1000000
     then carry_usec \<lparr>tv_sec = tv_sec t + 1, tv_usec = tv_usec t - 1000000\<rparr> else t)"
  by pat_completeness auto
termination by (relation "measure (\<lambda>t. nat (tv_usec t))") auto

declare carry_usec.simps [simp del]

definition util_time_add :: "timeval \<Rightarrow> timeval \<Rightarrow> timeval" where
  "util_time_add tv1 tv2 = carry_usec \<lparr>tv_sec = tv_sec tv1 + tv_sec tv2, tv_usec = tv_usec tv1 + tv_usec tv2\<rparr>"

definition util_time_sub :: "timeval \<Rightarrow> timeval \<Rightarrow> timeval option" where
  "util_time_sub tv1 tv2 = do {
     c_assert (util_time_compare tv1 tv2 > 0);
     Some (if tv_usec tv1 < tv_usec tv2
       then \<lparr>tv_sec = tv_sec tv1 - tv_sec tv2 - 1, tv_usec = tv_usec tv1 + 1000000 - tv_usec tv2\<rparr>
       else \<lparr>tv_sec = tv_sec tv1 - tv_sec tv2, tv_usec = tv_usec tv1 - tv_usec tv2\<rparr>) }"

section \<open>Microseconds\<close>

definition tv_total :: "timeval \<Rightarrow> int" where
  "tv_total t = tv_sec t * 1000000 + tv_usec t"

definition tv_normal :: "timeval \<Rightarrow> bool" where
  "tv_normal t \<longleftrightarrow> 0 \<le> tv_usec t \<and> tv_usec t < 1000000"

lemma carry_usec_total: "tv_total (carry_usec t) = tv_total t"
  by (induction t rule: carry_usec.induct) (subst carry_usec.simps, simp add: tv_total_def)

lemma carry_usec_bounds:
  "0 \<le> tv_usec t \<Longrightarrow> 0 \<le> tv_usec (carry_usec t) \<and> tv_usec (carry_usec t) \<le> 1000000
     \<and> (0 < tv_usec t \<longrightarrow> 0 < tv_usec (carry_usec t))"
  by (induction t rule: carry_usec.induct) (subst (1 2 3) carry_usec.simps, simp)

lemma tv_compare_total:
  assumes "tv_normal t" "tv_normal u"
  shows "util_time_compare t u < 0 \<longleftrightarrow> tv_total t < tv_total u" and "util_time_compare t u > 0 \<longleftrightarrow> tv_total t > tv_total u"
  using assms by (auto simp: util_time_compare_def tv_total_def tv_normal_def)

text \<open>the sum of two normalised times is the right instant and the difference undoes it, but the
  microseconds of the sum are carried only above a million: a sum with exactly a million left over
  stays unnormalised, and then compares as earlier than the same instant written normally.\<close>
lemma util_time_add_spec:
  assumes "tv_normal t" "tv_normal u"
  shows "tv_total (util_time_add t u) = tv_total t + tv_total u \<and>
    (tv_normal (util_time_add t u) \<longleftrightarrow> tv_usec t + tv_usec u \<noteq> 1000000) \<and>
    (tv_usec t + tv_usec u = 1000000 \<longrightarrow>
       util_time_compare (util_time_add t u) \<lparr>tv_sec = tv_sec t + tv_sec u + 1, tv_usec = 0\<rparr> = -1) \<and>
    (tv_total u < tv_total t \<longrightarrow> (\<exists>d. util_time_sub t u = Some d \<and> tv_normal d \<and> tv_total d = tv_total t - tv_total u))"
proof -
  let ?s = "\<lparr>tv_sec = tv_sec t + tv_sec u, tv_usec = tv_usec t + tv_usec u\<rparr>"
  have "tv_total (util_time_add t u) = tv_total t + tv_total u"
    by (simp add: util_time_add_def carry_usec_total) (simp add: tv_total_def)
  moreover have "carry_usec ?s = (if tv_usec ?s > 1000000
      then \<lparr>tv_sec = tv_sec ?s + 1, tv_usec = tv_usec ?s - 1000000\<rparr> else ?s)"
    by (subst carry_usec.simps, subst carry_usec.simps) (use assms in \<open>simp add: tv_normal_def\<close>)
  moreover have "util_time_compare t u > 0" if "tv_total u < tv_total t"
    using tv_compare_total(2) [OF assms] that by simp
  ultimately show ?thesis
    using assms by (auto simp: util_time_add_def tv_normal_def util_time_compare_def util_time_sub_def tv_total_def)
qed

lemma util_time_add_spec_witness:
  "tv_total (util_time_add \<lparr>tv_sec = 1, tv_usec = 500000\<rparr> \<lparr>tv_sec = 1, tv_usec = 500000\<rparr>) = 3000000 \<and>
   \<not> tv_normal (util_time_add \<lparr>tv_sec = 1, tv_usec = 500000\<rparr> \<lparr>tv_sec = 1, tv_usec = 500000\<rparr>) \<and>
   util_time_compare (util_time_add \<lparr>tv_sec = 1, tv_usec = 500000\<rparr> \<lparr>tv_sec = 1, tv_usec = 500000\<rparr>)
     \<lparr>tv_sec = 3, tv_usec = 0\<rparr> = -1"
  using util_time_add_spec [of "\<lparr>tv_sec = 1, tv_usec = 500000\<rparr>" "\<lparr>tv_sec = 1, tv_usec = 500000\<rparr>"]
  by (simp add: tv_normal_def tv_total_def)

end
