(* ===== verification/Base_Timer.thy ===== *)
theory Base_Timer
  imports Base_Heap Util_Time
begin

text \<open>
  \<^verbatim>\<open>base/timer.c\<close>: timers on the heap of \<^verbatim>\<open>base/heap.c\<close>.  Every timer node is referenced from one
  heap entry only, so that the entry holds the node itself and a write through the node
  pointer is an update of the entry.  The clock and the callbacks are parameters: a callback
  gives its result and changes a state of its own (the header forbids it to unregister timers).
\<close>

section \<open>State and operations\<close>

record tnode =
  t_id :: int
  t_expire :: timeval
  t_interval :: timeval
  t_args :: ptr

definition TIMER_INVALID_ID :: int where "TIMER_INVALID_ID = -1"

definition timer_cmp :: "tnode \<Rightarrow> tnode \<Rightarrow> int" where
  "timer_cmp n1 n2 = util_time_compare (t_expire n1) (t_expire n2)"

type_synonym timerheap_t = "tnode heap_t"

definition timer_create_heap :: "bool \<Rightarrow> bool \<Rightarrow> bool \<Rightarrow> bool \<Rightarrow> timerheap_t option" where
  "timer_create_heap ok ok1 ok2 ok3 = (if ok then heap_create timer_cmp ok1 ok2 ok3 else None)"

definition heap_write :: "'d heap_t \<Rightarrow> int \<Rightarrow> ('d \<Rightarrow> 'd) \<Rightarrow> 'd heap_t option" where
  \<comment> \<open>a write through the data pointer of the entry at an index\<close>
  "heap_write h i f = do {
     n \<leftarrow> rdi (hp_array h) i;
     d \<leftarrow> hn_data n;
     as \<leftarrow> wri (hp_array h) i (n\<lparr>hn_data := Some (f d)\<rparr>);
     Some (h\<lparr>hp_array := as\<rparr>) }"

fun timer_register :: "timeval \<Rightarrow> bool \<Rightarrow> bool \<Rightarrow> timerheap_t option \<Rightarrow> timeval option \<Rightarrow> timeval option \<Rightarrow> bool \<Rightarrow> ptr \<Rightarrow>
    (timerheap_t option \<times> int) option" where
  \<comment> \<open>\<open>now\<close>: what \<^verbatim>\<open>gettimeofday\<close> returns; \<open>cb\<close>: a callback is given\<close>
  "timer_register now ok1 ok2 (Some timer) interval (Some delay) cb args =
     (if \<not> cb then Some (Some timer, TIMER_INVALID_ID)
      else do {
        let node = \<lparr>t_id = 0, t_expire = util_time_add now delay,
          t_interval = (case interval of Some i \<Rightarrow> i | None \<Rightarrow> \<lparr>tv_sec = 0, tv_usec = 0\<rparr>), t_args = args\<rparr>;
        (h, r) \<leftarrow> heap_insert ok1 ok2 (Some timer) (Some node);
        h \<leftarrow> h;
        if r < 0 then Some (Some h, TIMER_INVALID_ID)
        else do {
          i \<leftarrow> rdi (hp_keys h) r;
          h \<leftarrow> heap_write h i (\<lambda>n. n\<lparr>t_id := r\<rparr>);
          Some (Some h, r) } })"
| "timer_register now ok1 ok2 timer interval delay cb args = Some (timer, TIMER_INVALID_ID)"

definition timer_unregister :: "timerheap_t option \<Rightarrow> int \<Rightarrow> timerheap_t option option" where
  "timer_unregister timer timer_id =
     (if timer = None \<or> timer_id < 0 then Some timer
      else map_option fst (heap_erase timer timer_id))"

partial_function (option) timer_poll_loop ::
    "(tnode \<Rightarrow> 's \<Rightarrow> 's \<times> int) \<Rightarrow> timeval \<Rightarrow> timerheap_t \<Rightarrow> 's \<Rightarrow> (timerheap_t \<times> 's) option" where
  "timer_poll_loop cb now h s = do {
     top \<leftarrow> heap_top (Some h);
     (case top of None \<Rightarrow> Some (h, s)
      | Some n \<Rightarrow>
        if util_time_compare (t_expire n) now < 0 then
          (let (s', ret) = cb n s in
           if ret \<ge> 0 \<and> (tv_sec (t_interval n) > 0 \<or> tv_usec (t_interval n) > 0) then do {
             let n' = n\<lparr>t_expire := util_time_add now (t_interval n)\<rparr>;
             h1 \<leftarrow> heap_write h 0 (\<lambda>_. n');
             h2 \<leftarrow> heap_update (Some h1) (t_id n) (Some n');
             h2 \<leftarrow> h2;
             timer_poll_loop cb now h2 s' }
           else do {
             (h1, d) \<leftarrow> heap_pop (Some h);
             h1 \<leftarrow> h1;
             timer_poll_loop cb now h1 s' })
        else Some (h, s)) }"

declare timer_poll_loop.simps [code]

fun timer_poll :: "(tnode \<Rightarrow> 's \<Rightarrow> 's \<times> int) \<Rightarrow> timerheap_t option \<Rightarrow> timeval option \<Rightarrow> 's \<Rightarrow> (timerheap_t option \<times> 's) option" where
  "timer_poll cb (Some h) (Some now) s =
     (if heap_size (Some h) \<le> 0 then Some (Some h, s)
      else do { (h', s') \<leftarrow> timer_poll_loop cb now h s; Some (Some h', s') })"
| "timer_poll cb h now s = Some (h, s)"

section \<open>The comparison\<close>

interpretation timer_order: heap_order timer_cmp
  by unfold_locales (auto simp: timer_cmp_def util_time_compare_def split: if_splits)

definition timer_inv :: "timerheap_t \<Rightarrow> bool" where
  \<comment> \<open>a heap by expiry time whose nodes know their keys\<close>
  "timer_inv h \<longleftrightarrow> heap_inv h \<and> timer_order.ordered h \<and> (\<forall>n \<in># heap_nodes h. t_id (the (hn_data n)) = hn_key n)"

definition due :: "timeval \<Rightarrow> tnode \<Rightarrow> bool" where
  "due now n \<longleftrightarrow> util_time_compare (t_expire n) now < 0"

definition again :: "(tnode \<Rightarrow> int) \<Rightarrow> tnode \<Rightarrow> bool" where
  "again ret n \<longleftrightarrow> ret n \<ge> 0 \<and> (tv_sec (t_interval n) > 0 \<or> tv_usec (t_interval n) > 0)"

definition resched :: "timeval \<Rightarrow> tnode \<Rightarrow> tnode" where
  "resched now n = n\<lparr>t_expire := util_time_add now (t_interval n)\<rparr>"

lemma resched_not_due:
  assumes "tv_normal now" "0 \<le> tv_sec (t_interval n)" "tv_normal (t_interval n)" "again ret n"
  shows "\<not> due now (resched now n)"
proof -
  let ?i = "t_interval n"
  let ?s = "\<lparr>tv_sec = tv_sec now + tv_sec ?i, tv_usec = tv_usec now + tv_usec ?i\<rparr>"
  have "carry_usec ?s = (if tv_usec ?s > 1000000
      then \<lparr>tv_sec = tv_sec ?s + 1, tv_usec = tv_usec ?s - 1000000\<rparr> else ?s)"
    by (subst carry_usec.simps, subst carry_usec.simps) (use assms(1,3) in \<open>simp add: tv_normal_def\<close>)
  then show ?thesis
    using assms by (auto simp: due_def resched_def util_time_add_def util_time_compare_def again_def tv_normal_def)
qed

section \<open>Polling\<close>

lemma heap_update_top:
  assumes inv: "timer_inv h" and pos: "0 < hp_size h" and id: "t_id n' = t_id (hval h 0)"
  obtains h1 h2 N where "heap_write h 0 (\<lambda>_. n') = Some h1"
    "heap_update (Some h1) (t_id (hval h 0)) (Some n') = Some (Some h2)" "timer_inv h2"
    "heap_values h = add_mset (hval h 0) N" "heap_values h2 = add_mset n' N"
proof -
  have hi: "heap_inv h" and ord: "timer_order.ordered h"
    and ids: "\<forall>n \<in># heap_nodes h. t_id (the (hn_data n)) = hn_key n"
    using inv by (auto simp: timer_inv_def)
  note n0 = heap_inv_node [OF hi pos]
  let ?a = "hp_array h"
  let ?node = "(?a ! 0)\<lparr>hn_data := Some n'\<rparr>"
  define h1 where "h1 = h\<lparr>hp_array := ?a[0 := ?node]\<rparr>"
  have "?a ! 0 \<in># heap_nodes h" using pos n0(1) by (auto simp: heap_nodes_def in_set_conv_nth)
  then have key: "t_id (hval h 0) = hn_key (?a ! 0)" using ids by (simp add: hval_def)
  have wr1: "heap_write h 0 (\<lambda>_. n') = Some h1" using n0(1,2) by (simp add: heap_write_def h1_def)
  have arr1: "hp_array h1 ! i = (if i = 0 then ?node else ?a ! i)" for i
    using n0(1) by (simp add: h1_def nth_list_update)
  have hi1: "heap_inv h1"
    using hi by (auto simp: heap_inv_def arr1) (simp_all add: h1_def heap_inv_def)
  have "timer_order.ordered_below h1 0"
    using ord unfolding timer_order.ordered_below_def timer_order.ordered_def
    by (auto simp: hval_def arr1) (simp_all add: h1_def)
  moreover obtain h2 where h2: "heap_rotdown h1 0 = Some h2" "heap_inv h2" "heap_nodes h2 = heap_nodes h1"
    using heap_rotdown_live [OF hi1, of 0] by auto
  ultimately have ord2: "timer_order.ordered h2" using timer_order.rotdown_ordered [OF hi1] by blast
  have "heap_update (Some h1) (t_id (hval h 0)) (Some n') = Some (Some h2)"
  proof -
    have "hp_array h1 = (hp_array h1)[0 := (hp_array h1 ! 0)\<lparr>hn_data := Some n'\<rparr>]"
      using n0(1) by (simp add: h1_def)
    moreover have "rdi (hp_keys h1) (hn_key (?a ! 0)) = Some 0" using n0(3-5) by (simp add: h1_def)
    moreover have "0 < length (hp_array h1)" using n0(1) by (simp add: h1_def)
    ultimately show ?thesis using h2(1) by (simp add: key h1_def)
  qed
  moreover obtain xs where xs: "take (hp_size h) ?a = ?a ! 0 # xs"
    using pos n0(1) by (cases ?a; cases "hp_size h") auto
  then have t1: "take (hp_size h) (hp_array h1) = ?node # xs" using pos by (simp add: h1_def take_update_swap)
  define M where "M = mset xs"
  have N: "heap_nodes h = add_mset (?a ! 0) M" "heap_nodes h2 = add_mset ?node M"
    using xs t1 h2(3) by (simp_all add: heap_nodes_def M_def h1_def)
  moreover have "timer_inv h2"
    using h2(2) ord2 ids N id key by (auto simp: timer_inv_def)
  ultimately show thesis
    using that [OF wr1, of h2 "image_mset (\<lambda>n. the (hn_data n)) M"] by (simp add: heap_values_def hval_def)
qed

lemma timer_pop:
  assumes "timer_inv h" "0 < hp_size h"
  obtains h' where "heap_pop (Some h) = Some (Some h', Some (hval h 0))" "timer_inv h'"
    "heap_values h = add_mset (hval h 0) (heap_values h')"
proof -
  have hi: "heap_inv h" and ord: "timer_order.ordered h"
    and ids: "\<forall>n \<in># heap_nodes h. t_id (the (hn_data n)) = hn_key n"
    using assms(1) by (auto simp: timer_inv_def)
  obtain h' d key where h': "heap_pop (Some h) = Some (Some h', Some d)" "heap_inv h'" "timer_order.ordered h'"
    "heap_nodes h = add_mset \<lparr>hn_data = Some d, hn_key = key\<rparr> (heap_nodes h')"
    using timer_order.pop_ordered [OF hi ord assms(2)] by metis
  have "d = hval h 0" using heap_pop_live [OF hi assms(2)] h'(1) by (metis option.inject prod.inject)
  moreover have "timer_inv h'" using h'(2-4) ids by (auto simp: timer_inv_def)
  ultimately show thesis using that [of h'] h'(1,4) by (simp add: heap_values_def)
qed

definition log_call :: "(tnode \<Rightarrow> int) \<Rightarrow> tnode \<Rightarrow> tnode list \<Rightarrow> tnode list \<times> int" where
  \<comment> \<open>callbacks that record what is called\<close>
  "log_call ret n s = (s @ [n], ret n)"

definition sane_intervals :: "timerheap_t \<Rightarrow> bool" where
  "sane_intervals h \<longleftrightarrow> (\<forall>n \<in># heap_values h. 0 \<le> tv_sec (t_interval n) \<and> tv_normal (t_interval n))"

lemma top_least:
  assumes "timer_inv h" "0 < hp_size h" "x \<in># heap_values h"
  shows "\<not> timer_cmp x (hval h 0) < 0"
proof -
  obtain i where "i < hp_size h" "x = hval h i"
    using assms(3) by (auto simp: heap_values_def heap_nodes_def hval_def in_set_conv_nth)
  then show ?thesis using timer_order.ordered_top assms(1) by (auto simp: timer_inv_def)
qed

lemma due_trans: "\<not> due now n \<Longrightarrow> \<not> timer_cmp x n < 0 \<Longrightarrow> \<not> due now x"
  by (auto simp: due_def timer_cmp_def util_time_compare_def split: if_splits)

lemma timer_poll_loop_spec:
  assumes "timer_inv h" "sane_intervals h" "tv_normal now"
  shows "\<exists>h' fired. timer_poll_loop (log_call ret) now h s = Some (h', s @ fired) \<and> timer_inv h' \<and>
    mset fired = filter_mset (due now) (heap_values h) \<and> sorted_wrt (\<lambda>x y. \<not> timer_cmp y x < 0) fired \<and>
    heap_values h' = filter_mset (\<lambda>n. \<not> due now n) (heap_values h)
      + image_mset (resched now) (filter_mset (again ret) (mset fired))"
  using assms(1,2)
proof (induction "size (filter_mset (due now) (heap_values h))" arbitrary: h s rule: less_induct)
  case less
  have hi: "heap_inv h" using less.prems by (simp add: timer_inv_def)
  let ?n = "hval h 0"
  consider "hp_size h = 0" | "0 < hp_size h" "\<not> due now ?n" | "0 < hp_size h" "due now ?n" by blast
  then show ?case
  proof cases
    case 1
    then have "heap_values h = {#}" by (simp add: heap_values_def heap_nodes_def)
    moreover have "timer_poll_loop (log_call ret) now h s = Some (h, s @ [])"
      using 1 by (subst timer_poll_loop.simps) simp
    ultimately show ?thesis using less.prems(1) by (intro exI [of _ h] exI [of _ "[]"]) simp
  next
    case 2
    have "\<not> due now x" if "x \<in># heap_values h" for x
      using due_trans [OF 2(2) top_least [OF less.prems(1) 2(1) that]] .
    then have "filter_mset (due now) (heap_values h) = {#}" "filter_mset (\<lambda>n. \<not> due now n) (heap_values h) = heap_values h"
      by (auto simp: filter_mset_eq_conv)
    moreover have "timer_poll_loop (log_call ret) now h s = Some (h, s @ [])"
      using 2 heap_inv_node(1,2) [OF hi 2(1)] by (subst timer_poll_loop.simps) (simp add: due_def)
    ultimately show ?thesis using less.prems(1) by (intro exI [of _ h] exI [of _ "[]"]) simp
  next
    case 3
    have top: "heap_top (Some h) = Some (Some ?n)" using heap_inv_node(1,2) [OF hi 3(1)] 3(1) by simp
    have "\<exists>h2 N. timer_poll_loop (log_call ret) now h s = timer_poll_loop (log_call ret) now h2 (s @ [?n]) \<and> timer_inv h2 \<and>
        heap_values h = add_mset ?n N \<and>
        heap_values h2 = N + (if again ret ?n then {#resched now ?n#} else {#})"
    proof (cases "again ret ?n")
      case True
      obtain h1 h2 N where h: "heap_write h 0 (\<lambda>_. resched now ?n) = Some h1"
        "heap_update (Some h1) (t_id ?n) (Some (resched now ?n)) = Some (Some h2)" "timer_inv h2"
        "heap_values h = add_mset ?n N" "heap_values h2 = add_mset (resched now ?n) N"
        by (rule heap_update_top [OF less.prems(1) 3(1), of "resched now ?n"]) (simp add: resched_def)
      have "timer_poll_loop (log_call ret) now h s = timer_poll_loop (log_call ret) now h2 (s @ [?n])"
        using 3(2) True h(1,2)
        by (subst timer_poll_loop.simps, subst top) (simp add: due_def again_def log_call_def resched_def Let_def del: heap_update.simps)
      then show ?thesis using h True by auto
    next
      case False
      obtain h2 where h: "heap_pop (Some h) = Some (Some h2, Some ?n)" "timer_inv h2"
        "heap_values h = add_mset ?n (heap_values h2)"
        by (rule timer_pop [OF less.prems(1) 3(1)])
      have "timer_poll_loop (log_call ret) now h s = timer_poll_loop (log_call ret) now h2 (s @ [?n])"
        using 3(2) False h(1)
        by (subst timer_poll_loop.simps, subst top) (auto simp add: due_def again_def log_call_def Let_def simp del: heap_pop.simps)
      then show ?thesis using h False by auto
    qed
    then obtain h2 N where h2: "timer_poll_loop (log_call ret) now h s = timer_poll_loop (log_call ret) now h2 (s @ [?n])"
      "timer_inv h2" "heap_values h = add_mset ?n N"
      "heap_values h2 = N + (if again ret ?n then {#resched now ?n#} else {#})" by blast
    have nd: "again ret ?n \<Longrightarrow> \<not> due now (resched now ?n)"
      by (rule resched_not_due [OF assms(3)]) (use less.prems(2) h2(3) in \<open>auto simp: sane_intervals_def\<close>)
    have f2: "filter_mset (due now) (heap_values h2) = filter_mset (due now) N"
      "filter_mset (\<lambda>n. \<not> due now n) (heap_values h2) = filter_mset (\<lambda>n. \<not> due now n) N + (if again ret ?n then {#resched now ?n#} else {#})"
      using h2(4) nd by simp_all
    have "sane_intervals h2"
      using less.prems(2) h2(3,4) by (auto simp: sane_intervals_def resched_def)
    moreover have "size (filter_mset (due now) (heap_values h2)) < size (filter_mset (due now) (heap_values h))"
      using f2(1) h2(3) 3(2) by simp
    ultimately obtain h' fired where IH: "timer_poll_loop (log_call ret) now h2 (s @ [?n]) = Some (h', (s @ [?n]) @ fired)"
      "timer_inv h'" "mset fired = filter_mset (due now) (heap_values h2)"
      "sorted_wrt (\<lambda>x y. \<not> timer_cmp y x < 0) fired"
      "heap_values h' = filter_mset (\<lambda>n. \<not> due now n) (heap_values h2)
        + image_mset (resched now) (filter_mset (again ret) (mset fired))"
      using less.hyps [OF _ h2(2), of "s @ [?n]"] by blast
    have "\<not> timer_cmp x ?n < 0" if "x \<in> set fired" for x
    proof -
      have "x \<in># filter_mset (due now) N" using that IH(3) f2(1) by (metis set_mset_mset)
      then show ?thesis using top_least [OF less.prems(1) 3(1)] h2(3) by auto
    qed
    then show ?thesis
      using IH h2(1,3) f2 3(2) by (intro exI [of _ h'] exI [of _ "?n # fired"]) auto
  qed
qed

lemma timer_create_inv:
  assumes "timer_create_heap True True True True = Some h"
  shows "timer_inv h" "heap_good h" "heap_values h = {#}"
proof -
  have c: "heap_create timer_cmp True True True = Some h" using assms by (simp add: timer_create_heap_def)
  note g = heap_create_good [OF c]
  show "timer_inv h" using g by (simp add: timer_inv_def timer_order.ordered_def heap_good_def)
  show "heap_good h" "heap_values h = {#}" using g by (simp_all add: heap_values_def)
qed

lemma timer_register_spec:
  fixes now delay :: timeval and interval :: "timeval option" and args :: ptr
  assumes "timer_inv h" "heap_good h"
  defines "n \<equiv> \<lparr>t_id = hp_next h, t_expire = util_time_add now delay,
    t_interval = (case interval of Some i \<Rightarrow> i | None \<Rightarrow> \<lparr>tv_sec = 0, tv_usec = 0\<rparr>), t_args = args\<rparr>"
  obtains h' where "timer_register now True True (Some h) interval (Some delay) True args = Some (Some h', hp_next h)"
    "timer_inv h'" "heap_values h' = add_mset n (heap_values h)"
proof -
  have hi: "heap_inv h" "heap_next_ok h" and ord: "timer_order.ordered h"
    and ids: "\<forall>n \<in># heap_nodes h. t_id (the (hn_data n)) = hn_key n"
    using assms(1,2) by (auto simp: timer_inv_def heap_good_def)
  let ?k = "hp_next h" and ?n0 = "n\<lparr>t_id := 0\<rparr>"
  have k0: "0 \<le> ?k" using heap_room_live(3) [OF hi] .
  obtain h1 where h1: "heap_insert True True (Some h) (Some ?n0) = Some (Some h1, ?k)" "heap_inv h1"
    "heap_nodes h1 = add_mset \<lparr>hn_data = Some ?n0, hn_key = ?k\<rparr> (heap_nodes h)"
    using heap_insert_live [OF hi, of ?n0] by metis
  have ord1: "timer_order.ordered h1" by (rule timer_order.insert_ordered [OF hi ord h1(1)])
  obtain i where i: "i < hp_size h1" "hp_array h1 ! i = \<lparr>hn_data = Some ?n0, hn_key = ?k\<rparr>"
    using h1(3) by (metis (no_types, lifting) heap_nodes_def in_set_conv_nth length_take min_less_iff_conj nth_take set_mset_mset union_single_eq_member)
  note ni = heap_inv_node [OF h1(2) i(1)]
  define h2 where "h2 = h1\<lparr>hp_array := (hp_array h1)[i := \<lparr>hn_data = Some n, hn_key = ?k\<rparr>]\<rparr>"
  have arr2: "hp_array h2 ! j = (if j = i then \<lparr>hn_data = Some n, hn_key = ?k\<rparr> else hp_array h1 ! j)" for j
    using ni(1) by (simp add: h2_def nth_list_update)
  have inv2: "heap_inv h2"
    using h1(2) i by (auto simp: heap_inv_def arr2) (auto simp: h2_def heap_inv_def)
  have cmp2: "timer_cmp (hval h2 p) (hval h2 q) = timer_cmp (hval h1 p) (hval h1 q)" for p q
    using i(2) by (simp add: hval_def arr2 timer_cmp_def)
  have ord2: "timer_order.ordered h2"
    using ord1 unfolding timer_order.ordered_def cmp2 by (simp add: h2_def)
  have nodes2: "heap_nodes h2 = add_mset \<lparr>hn_data = Some n, hn_key = ?k\<rparr> (heap_nodes h)"
    using i ni(1) h1(3) by (simp add: heap_nodes_def h2_def take_update_swap mset_update)
  have "timer_inv h2"
    using inv2 ord2 nodes2 ids by (simp add: timer_inv_def n_def)
  moreover have "timer_register now True True (Some h) interval (Some delay) True args = Some (Some h2, ?k)"
  proof -
    have "rdi (hp_keys h1) ?k = Some (int i)" using ni(3-5) i(2) by simp
    moreover have "heap_write h1 (int i) (\<lambda>n. n\<lparr>t_id := ?k\<rparr>) = Some h2"
      using ni(1) i(2) by (simp add: heap_write_def h2_def n_def)
    ultimately show ?thesis using h1(1) k0 by (simp add: Let_def n_def del: heap_insert.simps)
  qed
  ultimately show thesis using that nodes2 by (simp add: heap_values_def)
qed


definition poll_now :: timeval where "poll_now = \<lparr>tv_sec = 15, tv_usec = 0\<rparr>"

definition poll_example :: timerheap_t where
  \<comment> \<open>a timer of 4 seconds registered at second 10\<close>
  "poll_example = the (do { (h, k) \<leftarrow> timer_register \<lparr>tv_sec = 10, tv_usec = 0\<rparr> True True (timer_create_heap True True True True)
     (Some \<lparr>tv_sec = 4, tv_usec = 0\<rparr>) (Some \<lparr>tv_sec = 4, tv_usec = 0\<rparr>) True 7; h })"

lemma poll_example_inv: "timer_inv poll_example \<and> sane_intervals poll_example"
proof -
  obtain h where h: "timer_create_heap True True True True = Some h" by (simp add: timer_create_heap_def heap_create_def)
  note c = timer_create_inv [OF h]
  obtain h' where "timer_register \<lparr>tv_sec = 10, tv_usec = 0\<rparr> True True (Some h) (Some \<lparr>tv_sec = 4, tv_usec = 0\<rparr>)
      (Some \<lparr>tv_sec = 4, tv_usec = 0\<rparr>) True 7 = Some (Some h', hp_next h)" "timer_inv h'"
    "heap_values h' = add_mset \<lparr>t_id = hp_next h, t_expire = util_time_add \<lparr>tv_sec = 10, tv_usec = 0\<rparr> \<lparr>tv_sec = 4, tv_usec = 0\<rparr>,
       t_interval = \<lparr>tv_sec = 4, tv_usec = 0\<rparr>, t_args = 7\<rparr> {#}"
    using timer_register_spec [OF c(1,2), where now = "\<lparr>tv_sec = 10, tv_usec = 0\<rparr>" and interval = "Some \<lparr>tv_sec = 4, tv_usec = 0\<rparr>"
      and delay = "\<lparr>tv_sec = 4, tv_usec = 0\<rparr>" and args = 7] unfolding c(3) option.case by blast
  then show ?thesis by (simp add: poll_example_def h sane_intervals_def tv_normal_def del: timer_register.simps)
qed


end
