(* ===== verification/Core_Coroutine.thy ===== *)
theory Core_Coroutine
  imports Prelude Base_Slist
begin

text \<open>
  \<^verbatim>\<open>core/coroutine.c\<close>: the scheduler of coroutines, with the units in a memory of addresses.  A machine
  context is of a type \<open>'k\<close>; \<open>start\<close> is the context that \<^verbatim>\<open>makecontext\<close> prepares for a function and its
  argument, and \<open>run k (c, w)\<close> is what the code of a coroutine does from the context \<open>k\<close> on to the
  scheduler and the rest of the world, until it yields in a new context or returns.
\<close>

section \<open>State and operations\<close>

definition CRT_INVALID_ID :: int where "CRT_INVALID_ID = -1"
definition CRT_DEAD :: int where "CRT_DEAD = 0"
definition CRT_INIT :: int where "CRT_INIT = 1"
definition CRT_RUNNING :: int where "CRT_RUNNING = 2"
definition CRT_SUSPEND :: int where "CRT_SUSPEND = 3"
definition CRT_DEFAULT_SIZE :: int where "CRT_DEFAULT_SIZE = 16"

lemmas crt_consts = CRT_INVALID_ID_def CRT_DEAD_def CRT_INIT_def CRT_RUNNING_def CRT_SUSPEND_def

record 'k crt_unit =
  cu_func :: ptr
  cu_arg :: ptr
  cu_ctx :: "'k option"
  cu_status :: int
  cu_stack :: int

record 'k crt_t =
  c_stack_size :: int
  c_current :: int
  c_count :: int
  c_capacity :: int
  c_units :: "ptr list"
  c_freelst :: slist_t
  c_mem :: "ptr \<rightharpoonup> 'k crt_unit"

record crt_env =
  \<comment> \<open>the results of \<^verbatim>\<open>MALLOC\<close>, \<^verbatim>\<open>VALLOC\<close>, \<^verbatim>\<open>mprotect\<close>, \<^verbatim>\<open>REALLOC\<close> and \<^verbatim>\<open>getpagesize\<close>\<close>
  e_unit :: ptr
  e_stack :: int
  e_prot :: int
  e_units :: bool
  e_page :: int

definition crt_create :: "bool \<Rightarrow> int \<Rightarrow> int \<Rightarrow> 'k crt_t option" where
  "crt_create ok page crt_stack_size = do {
     c_assert (crt_stack_size > 0);
     c_assert ok;
     l \<leftarrow> slist_create ok;
     Some \<lparr>c_stack_size = ((crt_stack_size - 1) div page + 1) * page, c_current = -1, c_count = 0,
       c_capacity = CRT_DEFAULT_SIZE, c_units = replicate (nat CRT_DEFAULT_SIZE) NULL, c_freelst = l, c_mem = Map.empty\<rparr> }"

definition crt_unit_create :: "crt_env \<Rightarrow> 'k crt_t \<Rightarrow> ptr \<Rightarrow> ptr \<Rightarrow> ('k crt_t \<times> ptr) option" where
  "crt_unit_create env c func arg = do {
     c_assert (e_unit env \<noteq> NULL);
     c_assert (e_stack env \<noteq> 0);
     c_assert (e_prot env = 0);
     Some (c\<lparr>c_mem := (c_mem c)(e_unit env \<mapsto> \<lparr>cu_func = func, cu_arg = arg, cu_ctx = None, cu_status = CRT_INIT,
       cu_stack = e_stack env + e_page env\<rparr>)\<rparr>, e_unit env) }"

fun crt_new_loop :: "'k crt_t \<Rightarrow> ptr \<Rightarrow> nat list \<Rightarrow> ('k crt_t \<times> int) option" where
  "crt_new_loop c cu [] = None"
| "crt_new_loop c cu (i # is) = do {
     let cid = (int i + c_count c) mod c_capacity c;
     u \<leftarrow> rdi (c_units c) cid;
     if u = NULL then do {
       us \<leftarrow> wri (c_units c) cid cu;
       Some (c\<lparr>c_units := us, c_count := c_count c + 1\<rparr>, cid) }
     else crt_new_loop c cu is }"

definition crt_place :: "bool \<Rightarrow> 'k crt_t \<Rightarrow> ptr \<Rightarrow> ('k crt_t \<times> int) option" where
  \<comment> \<open>in a larger array if all places are taken; \<open>ok\<close>: \<^verbatim>\<open>REALLOC\<close> succeeds\<close>
  "crt_place ok c cu =
     (if c_count c \<ge> c_capacity c then do {
        c_assert ok;
        us \<leftarrow> wri (c_units c @ replicate (nat (c_capacity c)) NULL) (c_capacity c) cu;
        Some (c\<lparr>c_units := us, c_capacity := c_capacity c * 2, c_count := c_count c + 1\<rparr>, c_capacity c) }
      else crt_new_loop c cu [0..<nat (c_capacity c)])"

definition crt_new :: "crt_env \<Rightarrow> 'k crt_t \<Rightarrow> ptr \<Rightarrow> ptr \<Rightarrow> ('k crt_t \<times> int) option" where
  "crt_new env c func arg = (case slist_pop_back (Some (c_freelst c)) of (l, cu) \<Rightarrow> do {
     l \<leftarrow> l;
     let c = c\<lparr>c_freelst := l\<rparr>;
     (c, cu) \<leftarrow> (if cu = NULL then crt_unit_create env c func arg
        else do { u \<leftarrow> c_mem c cu; Some (c\<lparr>c_mem := (c_mem c)(cu \<mapsto> u\<lparr>cu_status := CRT_INIT\<rparr>)\<rparr>, cu) });
     c_assert (cu \<noteq> NULL);
     crt_place (e_units env) c cu })"

definition crt_finish :: "bool \<Rightarrow> 'k crt_t \<Rightarrow> int \<Rightarrow> ptr \<Rightarrow> 'k crt_t option" where
  \<comment> \<open>what \<^verbatim>\<open>_crt_main\<close> does when the function of the coroutine has returned\<close>
  "crt_finish ok c cid cu = do {
     l \<leftarrow> fst (slist_push_back ok (Some (c_freelst c)) cu);
     us \<leftarrow> wri (c_units c) cid NULL;
     Some (c\<lparr>c_freelst := l, c_units := us, c_count := c_count c - 1, c_current := CRT_INVALID_ID\<rparr>) }"

definition crt_yield :: "'k crt_t \<Rightarrow> 'k \<Rightarrow> 'k crt_t option" where
  \<comment> \<open>called in the context \<open>k\<close>, where the coroutine goes on later\<close>
  "crt_yield c k = do {
     c_assert (c_current c \<ge> 0);
     cu \<leftarrow> rdi (c_units c) (c_current c);
     u \<leftarrow> c_mem c cu;
     Some (c\<lparr>c_mem := (c_mem c)(cu \<mapsto> u\<lparr>cu_status := CRT_SUSPEND, cu_ctx := Some k\<rparr>), c_current := -1\<rparr>) }"

definition crt_switch ::
  "('k \<Rightarrow> 'k crt_t \<times> 'w \<Rightarrow> (('k crt_t \<times> 'w) \<times> 'k option) option) \<Rightarrow> bool \<Rightarrow> int \<Rightarrow> ptr \<Rightarrow> 'k \<Rightarrow> 'k crt_t \<times> 'w \<Rightarrow> ('k crt_t \<times> 'w) option" where
  \<comment> \<open>\<^verbatim>\<open>swapcontext\<close> to the coroutine, up to the switch back; \<open>cid\<close> and \<open>cu\<close> are the variables of \<^verbatim>\<open>_crt_main\<close>\<close>
  "crt_switch run ok cid cu k s = do {
     ((c, w), r) \<leftarrow> run k s;
     (case r of
        Some k' \<Rightarrow> do { c \<leftarrow> crt_yield c k'; Some (c, w) }
      | None \<Rightarrow> do { c \<leftarrow> crt_finish ok c cid cu; Some (c, w) }) }"

definition crt_resume ::
  "(ptr \<Rightarrow> ptr \<Rightarrow> 'k) \<Rightarrow> ('k \<Rightarrow> 'k crt_t \<times> 'w \<Rightarrow> (('k crt_t \<times> 'w) \<times> 'k option) option) \<Rightarrow> bool \<Rightarrow> int \<Rightarrow> 'k crt_t \<times> 'w \<Rightarrow> ('k crt_t \<times> 'w) option" where
  "crt_resume start run ok cid s = (case s of (c, w) \<Rightarrow> do {
     c_assert (c_current c < 0 \<and> cid \<ge> 0 \<and> cid < c_capacity c);
     cu \<leftarrow> rdi (c_units c) cid;
     if cu = NULL then Some (c, w)
     else do {
       u \<leftarrow> c_mem c cu;
       let c' = c\<lparr>c_mem := (c_mem c)(cu \<mapsto> u\<lparr>cu_status := CRT_RUNNING\<rparr>), c_current := cid\<rparr>;
       if cu_status u = CRT_INIT then crt_switch run ok cid cu (start (cu_func u) (cu_arg u)) (c', w)
       else if cu_status u = CRT_SUSPEND then do { k \<leftarrow> cu_ctx u; crt_switch run ok cid cu k (c', w) }
       else None } })"

definition crt_status :: "'k crt_t \<Rightarrow> int \<Rightarrow> int option" where
  "crt_status c cid = do {
     c_assert (cid \<ge> 0 \<and> cid < c_capacity c);
     cu \<leftarrow> rdi (c_units c) cid;
     if cu = NULL then Some CRT_DEAD else map_option cu_status (c_mem c cu) }"

definition crt_current :: "'k crt_t \<Rightarrow> int" where
  "crt_current c = c_current c"

definition crt_current_stack_top :: "'k crt_t \<Rightarrow> int option" where
  "crt_current_stack_top c =
     (if c_current c \<ge> 0 then do {
        cu \<leftarrow> rdi (c_units c) (c_current c);
        u \<leftarrow> c_mem c cu;
        Some (cu_stack u + c_stack_size c) }
      else Some 0)"

fun release_units :: "ptr list \<Rightarrow> (ptr \<rightharpoonup> 'k crt_unit) \<Rightarrow> (ptr \<rightharpoonup> 'k crt_unit) option" where
  \<comment> \<open>\<^verbatim>\<open>_crt_unit_release\<close> on those that are not null; \<open>None\<close>: a unit is freed twice\<close>
  "release_units [] m = Some m"
| "release_units (cu # us) m = (if cu = NULL then release_units us m else do { u \<leftarrow> m cu; release_units us (m(cu := None)) })"

definition crt_release :: "'k crt_t option \<Rightarrow> (ptr \<rightharpoonup> 'k crt_unit) option" where
  \<comment> \<open>what is left of the units; the free list is popped until it is empty\<close>
  "crt_release c = (case c of None \<Rightarrow> Some Map.empty
   | Some c \<Rightarrow> do { m \<leftarrow> release_units (c_units c) (c_mem c); release_units (sl_nodes (c_freelst c)) m })"

section \<open>The table of units\<close>

definition live :: "'k crt_t \<Rightarrow> ptr list" where
  "live c = filter (\<lambda>u. u \<noteq> NULL) (c_units c)"

definition crt_held :: "'k crt_t \<Rightarrow> ptr list \<Rightarrow> bool" where
  \<comment> \<open>only the current coroutine is running, the others can be resumed; the units \<open>xs\<close> are in neither list\<close>
  "crt_held c xs \<longleftrightarrow> 0 < c_capacity c \<and> c_capacity c = int (length (c_units c)) \<and> c_count c = int (length (live c))
     \<and> slist_inv (c_freelst c) \<and> distinct (live c @ xs @ sl_nodes (c_freelst c)) \<and> dom (c_mem c) = set (live c @ xs @ sl_nodes (c_freelst c))
     \<and> c_current c < c_capacity c
     \<and> (\<forall>i < length (c_units c). c_units c ! i \<noteq> NULL \<longrightarrow> (\<exists>u. c_mem c (c_units c ! i) = Some u
          \<and> (if int i = c_current c then cu_status u = CRT_RUNNING
             else cu_status u = CRT_INIT \<or> cu_status u = CRT_SUSPEND \<and> cu_ctx u \<noteq> None)))
     \<and> (0 \<le> c_current c \<longrightarrow> c_units c ! nat (c_current c) \<noteq> NULL)"

definition crt_inv :: "'k crt_t \<Rightarrow> bool" where
  "crt_inv c \<longleftrightarrow> crt_held c []"

definition crt_slot :: "'k crt_t \<Rightarrow> nat \<Rightarrow> 'k crt_unit option" where
  \<comment> \<open>the coroutine with number \<open>i\<close>\<close>
  "crt_slot c i = (if i < length (c_units c) \<and> c_units c ! i \<noteq> NULL then c_mem c (c_units c ! i) else None)"

lemma distinct_nth_filter:
  assumes "distinct (filter P xs)" "i < length xs" "j < length xs" "xs ! i = xs ! j" "P (xs ! i)"
  shows "i = j"
  using assms
proof (induction xs arbitrary: i j)
  case (Cons x xs)
  have "xs ! k \<in> set xs" if "k < length xs" for k using that by simp
  then show ?case using Cons by (cases i; cases j) (fastforce split: if_splits)+
qed simp

lemma crt_create_inv:
  assumes "crt_create True page n = Some c"
  shows "crt_inv c \<and> c_current c = -1"
  using assms by (auto simp: crt_create_def c_assert_def slist_create_def crt_inv_def crt_held_def live_def CRT_DEFAULT_SIZE_def slist_inv_def
      nth_Cons' split: if_splits bind_splits)

lemma filter_at:
  assumes "i < length us"
  shows "filter P (us[i := x]) = filter P (take i us) @ filter P [x] @ filter P (drop (Suc i) us)"
    "filter P us = filter P (take i us) @ filter P [us ! i] @ filter P (drop (Suc i) us)"
proof -
  show "filter P (us[i := x]) = filter P (take i us) @ filter P [x] @ filter P (drop (Suc i) us)"
    using assms by (simp add: upd_conv_take_nth_drop)
  have "filter P us = filter P (take i us @ us ! i # drop (Suc i) us)" using id_take_nth_drop [OF assms] by simp
  then show "filter P us = filter P (take i us) @ filter P [us ! i] @ filter P (drop (Suc i) us)" by (simp split: if_splits)
qed

lemma place_held:
  assumes H: "crt_held c [cu]" and n: "n < length (c_units c)" "c_units c ! n = NULL"
    and u: "c_mem c cu = Some u" "cu_status u = CRT_INIT" "cu \<noteq> NULL"
  shows "crt_held (c\<lparr>c_units := (c_units c)[n := cu], c_count := c_count c + 1\<rparr>) []"
    "crt_slot (c\<lparr>c_units := (c_units c)[n := cu], c_count := c_count c + 1\<rparr>) = (crt_slot c)(n \<mapsto> u)"
proof -
  let ?c = "c\<lparr>c_units := (c_units c)[n := cu], c_count := c_count c + 1\<rparr>"
  let ?A = "filter (\<lambda>u. u \<noteq> NULL) (take n (c_units c))" and ?B = "filter (\<lambda>u. u \<noteq> NULL) (drop (Suc n) (c_units c))"
  have l: "live c = ?A @ ?B" "live ?c = ?A @ cu # ?B" using n u(3) filter_at [OF n(1), of "\<lambda>u. u \<noteq> NULL"] by (simp_all add: live_def)
  have "0 \<le> c_current c \<Longrightarrow> c_units c ! nat (c_current c) \<noteq> NULL" using H by (simp add: crt_held_def)
  then have "int n \<noteq> c_current c" using n by (metis nat_int of_nat_0_le_iff)
  then show "crt_held ?c []"
    using H n u unfolding crt_held_def l by (auto simp: nth_list_update)
  show "crt_slot ?c = (crt_slot c)(n \<mapsto> u)" using n u by (auto simp: crt_slot_def fun_eq_iff nth_list_update)
qed

lemma crt_retire:
  assumes H: "crt_held c []" and n: "n < length (c_units c)" "c_units c ! n = cu" "c_current c = int n"
    and l: "slist_inv l" "sl_nodes l = sl_nodes (c_freelst c) @ [cu]"
  shows "crt_held (c\<lparr>c_freelst := l, c_units := (c_units c)[n := NULL], c_count := c_count c - 1, c_current := -1\<rparr>) []"
proof -
  let ?c = "c\<lparr>c_freelst := l, c_units := (c_units c)[n := NULL], c_count := c_count c - 1, c_current := -1\<rparr>"
  let ?A = "filter (\<lambda>u. u \<noteq> NULL) (take n (c_units c))" and ?B = "filter (\<lambda>u. u \<noteq> NULL) (drop (Suc n) (c_units c))"
  have cu: "cu \<noteq> NULL" using H n by (auto simp: crt_held_def)
  have e: "live c = ?A @ cu # ?B" "live ?c = ?A @ ?B" using n cu filter_at [OF n(1), of "\<lambda>u. u \<noteq> NULL"] by (simp_all add: live_def)
  show ?thesis using H n l cu unfolding crt_held_def e by (auto simp: nth_list_update)
qed

section \<open>Creating a coroutine\<close>

lemma new_loop_ok:
  assumes "i \<in> set is" "c_capacity c > 0" "c_count c \<ge> 0" "c_capacity c = int (length (c_units c))"
    and "c_units c ! nat ((int i + c_count c) mod c_capacity c) = NULL"
  shows "\<exists>n < length (c_units c). c_units c ! n = NULL
    \<and> crt_new_loop c cu is = Some (c\<lparr>c_units := (c_units c)[n := cu], c_count := c_count c + 1\<rparr>, int n)"
  using assms
proof (induction "is")
  case (Cons j "is")
  let ?n = "(int j + c_count c) mod c_capacity c"
  have "0 \<le> ?n" "?n < c_capacity c" using Cons.prems(2) by simp_all
  then have b: "0 \<le> ?n" "nat ?n < length (c_units c)" using Cons.prems(4) by simp_all
  show ?case
  proof (cases "c_units c ! nat ?n = NULL")
    case True
    then show ?thesis using b by (intro exI [of _ "nat ?n"]) (simp add: Let_def rdi_def rd_def wri_def wr_def)
  next
    case False
    then have "i \<in> set is" using Cons.prems(1,5) by auto
    then show ?thesis using Cons False b by (simp add: Let_def rdi_def rd_def)
  qed
qed simp

lemma free_index:
  assumes "length (filter (\<lambda>u. u \<noteq> NULL) us) < length us" "0 \<le> k"
  shows "\<exists>i < length us. us ! nat ((int i + k) mod int (length us)) = NULL"
proof -
  obtain n where n: "n < length us" "us ! n = NULL"
    using assms(1) by (metis (mono_tags, lifting) filter_True in_set_conv_nth less_irrefl)
  let ?i = "nat ((int n - k) mod int (length us))"
  have "0 \<le> (int n - k) mod int (length us)" using n(1) by (intro pos_mod_sign) auto
  then have "int ?i = (int n - k) mod int (length us)" by simp
  then have "(int ?i + k) mod int (length us) = int n" using n(1) by (simp add: mod_simps)
  moreover have "(int n - k) mod int (length us) < int (length us)" using n(1) by (intro pos_mod_bound) auto
  then have "?i < length us" using n(1) by linarith
  ultimately show ?thesis using n by (intro exI [of _ ?i]) simp
qed

lemma crt_heldD:
  assumes "crt_held c xs"
  shows "0 < c_capacity c" "c_capacity c = int (length (c_units c))" "c_count c = int (length (live c))" "0 \<le> c_count c"
    "NULL \<notin> set (live c)"
  using assms by (auto simp: crt_held_def live_def)

lemma new_place_ok:
  assumes H: "crt_held c [cu]" and u: "c_mem c cu = Some u" "cu_status u = CRT_INIT" "cu \<noteq> NULL"
  shows "\<exists>c' n. crt_place True c cu = Some (c', int n) \<and> crt_held c' []
    \<and> crt_slot c n = None \<and> crt_slot c' = (crt_slot c)(n \<mapsto> u) \<and> c_current c' = c_current c \<and> c_freelst c' = c_freelst c"
proof (cases "c_count c \<ge> c_capacity c")
  case True
  note D = crt_heldD [OF H]
  let ?k = "length (c_units c)"
  let ?c = "c\<lparr>c_units := c_units c @ replicate ?k NULL, c_capacity := c_capacity c * 2\<rparr>"
  have l: "live ?c = live c" by (simp add: live_def)
  have slot: "crt_slot ?c = crt_slot c" by (auto simp: crt_slot_def fun_eq_iff nth_append)
  have nn: "c_units c ! nat (c_current c) \<noteq> NULL" "nat (c_current c) < ?k" if "0 \<le> c_current c"
    using H that by (auto simp: crt_held_def)
  have "crt_held ?c [cu]"
    using H D(1,2) nn unfolding crt_held_def l by (auto simp: nth_append)
  moreover have n: "?k < length (c_units ?c)" "c_units ?c ! ?k = NULL" using D(1,2) by (simp_all add: nth_append)
  moreover have "c_mem ?c cu = Some u" using u by simp
  ultimately have P: "crt_held (?c\<lparr>c_units := (c_units ?c)[?k := cu], c_count := c_count ?c + 1\<rparr>) []"
    "crt_slot (?c\<lparr>c_units := (c_units ?c)[?k := cu], c_count := c_count ?c + 1\<rparr>) = (crt_slot ?c)(?k \<mapsto> u)"
    using place_held [of ?c cu ?k u] u(2,3) by blast+
  show ?thesis using True P n u slot D(1,2)
    by (intro exI [of _ "?c\<lparr>c_units := (c_units ?c)[?k := cu], c_count := c_count ?c + 1\<rparr>"] exI [of _ ?k])
       (simp add: crt_place_def wri_def wr_def crt_slot_def [of c ?k])
next
  case False
  note D = crt_heldD [OF H]
  obtain i where i: "i < length (c_units c)" "c_units c ! nat ((int i + c_count c) mod c_capacity c) = NULL"
    using free_index [of "c_units c" "c_count c"] False D by (auto simp: live_def)
  obtain n where n: "n < length (c_units c)" "c_units c ! n = NULL"
      "crt_new_loop c cu [0..<nat (c_capacity c)] = Some (c\<lparr>c_units := (c_units c)[n := cu], c_count := c_count c + 1\<rparr>, int n)"
    using new_loop_ok [of i "[0..<nat (c_capacity c)]" c cu] i D by auto
  show ?thesis using False n place_held [OF H n(1,2) u]
    by (intro exI [of _ "c\<lparr>c_units := (c_units c)[n := cu], c_count := c_count c + 1\<rparr>"] exI [of _ n]) (simp add: crt_place_def crt_slot_def [of c n])
qed

definition env_ok :: "crt_env \<Rightarrow> 'k crt_t \<Rightarrow> bool" where
  \<comment> \<open>the system calls succeed and the block is new\<close>
  "env_ok env c \<longleftrightarrow> e_unit env \<noteq> NULL \<and> c_mem c (e_unit env) = None \<and> e_stack env \<noteq> 0 \<and> e_prot env = 0 \<and> e_units env"

lemma crt_new_ok:
  assumes I: "crt_inv c" and E: "env_ok env c"
  shows "\<exists>c' n u. crt_new env c f a = Some (c', int n) \<and> crt_inv c' \<and> c_current c' = c_current c
    \<and> crt_slot c n = None \<and> crt_slot c' = (crt_slot c)(n \<mapsto> u) \<and> cu_status u = CRT_INIT
    \<and> (if sl_nodes (c_freelst c) = [] then cu_func u = f \<and> cu_arg u = a
       else \<exists>v. c_mem c (last (sl_nodes (c_freelst c))) = Some v \<and> cu_func u = cu_func v \<and> cu_arg u = cu_arg v)"
proof (cases "sl_nodes (c_freelst c) = []")
  case True
  let ?u = "\<lparr>cu_func = f, cu_arg = a, cu_ctx = None, cu_status = CRT_INIT, cu_stack = e_stack env + e_page env\<rparr>"
  let ?c = "c\<lparr>c_mem := (c_mem c)(e_unit env \<mapsto> ?u)\<rparr>"
  have H: "crt_held c []" using I by (simp add: crt_inv_def)
  have fresh: "e_unit env \<notin> dom (c_mem c)" using E by (auto simp: env_ok_def)
  have at: "c_units c ! i \<noteq> e_unit env" if "i < length (c_units c)" for i
    using that H fresh E nth_mem [OF that] by (auto simp: crt_held_def live_def env_ok_def)
  have "crt_held ?c [e_unit env]"
    using H E fresh at True unfolding crt_held_def by (auto simp: live_def)
  moreover have "crt_slot ?c = crt_slot c" using at by (auto simp: crt_slot_def fun_eq_iff)
  moreover have "c_mem ?c (e_unit env) = Some ?u" "cu_status ?u = CRT_INIT" "e_unit env \<noteq> NULL" using E by (simp_all add: env_ok_def)
  ultimately obtain c' n where n: "crt_place True ?c (e_unit env) = Some (c', int n)" "crt_held c' []" "crt_slot c n = None"
    "crt_slot c' = (crt_slot c)(n \<mapsto> ?u)" "c_current c' = c_current c" using new_place_ok [of ?c "e_unit env" ?u] by auto
  have "crt_new env c f a = Some (c', int n)"
    using E True n(1) by (simp add: crt_new_def crt_unit_create_def env_ok_def Let_def)
  then show ?thesis using n True by (auto simp: crt_inv_def intro!: exI [of _ c'] exI [of _ n] exI [of _ ?u])
next
  case False
  let ?cu = "last (sl_nodes (c_freelst c))"
  let ?l = "(c_freelst c)\<lparr>sl_size := sl_size (c_freelst c) - 1, sl_nodes := butlast (sl_nodes (c_freelst c))\<rparr>"
  have H: "crt_held c []" using I by (simp add: crt_inv_def)
  have split: "sl_nodes (c_freelst c) = butlast (sl_nodes (c_freelst c)) @ [?cu]" using False by simp
  have "NULL \<notin> set (sl_nodes (c_freelst c))" using H by (simp add: crt_held_def slist_inv_def)
  then have cu: "?cu \<noteq> NULL" using last_in_set [OF False] by metis
  obtain v where v: "c_mem c ?cu = Some v" 
  proof -
    have "?cu \<in> dom (c_mem c)" using H last_in_set [OF False] by (simp add: crt_held_def)
    then show ?thesis using that by blast
  qed
  let ?c = "c\<lparr>c_freelst := ?l, c_mem := (c_mem c)(?cu \<mapsto> v\<lparr>cu_status := CRT_INIT\<rparr>)\<rparr>"
  have pop: "slist_pop_back (Some (c_freelst c)) = (Some ?l, ?cu)" using False by (simp add: unlink_last_eq)
  have l: "slist_inv ?l" using H False by (auto simp: crt_held_def slist_inv_def of_nat_diff Suc_leI dest: in_set_butlastD)
  have D: "distinct (live c @ sl_nodes (c_freelst c))" using H by (simp add: crt_held_def)
  have at: "c_units c ! i \<noteq> ?cu" if "i < length (c_units c)" for i
    using D nth_mem [OF that] cu False by (auto simp: live_def)
  have set: "set (sl_nodes (c_freelst c)) = insert ?cu (set (butlast (sl_nodes (c_freelst c))))" using arg_cong [OF split, of set] by simp
  have D': "distinct (live c @ butlast (sl_nodes (c_freelst c)))" "?cu \<notin> set (live c)" "?cu \<notin> set (butlast (sl_nodes (c_freelst c)))"
    using D [unfolded arg_cong [OF split, of "\<lambda>l. distinct (live c @ l)"]] by auto
  have "crt_held ?c [?cu]"
    using H D' l at set unfolding crt_held_def by (auto simp: live_def)
  moreover have "crt_slot ?c = crt_slot c" using at by (auto simp: crt_slot_def fun_eq_iff)
  moreover have "c_mem ?c ?cu = Some (v\<lparr>cu_status := CRT_INIT\<rparr>)" by simp
  ultimately obtain c' n where n: "crt_place True ?c ?cu = Some (c', int n)" "crt_held c' []" "crt_slot c n = None"
    "crt_slot c' = (crt_slot c)(n \<mapsto> v\<lparr>cu_status := CRT_INIT\<rparr>)" "c_current c' = c_current c"
    using new_place_ok [of ?c ?cu "v\<lparr>cu_status := CRT_INIT\<rparr>"] cu by auto
  have "crt_new env c f a = Some (c', int n)"
    using E v cu pop n(1) by (simp add: crt_new_def env_ok_def Let_def)
  then show ?thesis using n False v by (auto simp: crt_inv_def intro!: exI [of _ c'] exI [of _ n] exI [of _ "v\<lparr>cu_status := CRT_INIT\<rparr>"])
qed

section \<open>Running a coroutine\<close>

lemma crt_invD:
  assumes "crt_inv c"
  shows "c_capacity c = int (length (c_units c))" "0 < c_capacity c" "c_current c < c_capacity c"
    and "0 \<le> c_current c \<Longrightarrow> c_units c ! nat (c_current c) \<noteq> NULL"
    and "i < length (c_units c) \<Longrightarrow> c_units c ! i \<noteq> NULL \<Longrightarrow> \<exists>u. c_mem c (c_units c ! i) = Some u
          \<and> (if int i = c_current c then cu_status u = CRT_RUNNING
             else cu_status u = CRT_INIT \<or> cu_status u = CRT_SUSPEND \<and> cu_ctx u \<noteq> None)"
    and "i < length (c_units c) \<Longrightarrow> j < length (c_units c) \<Longrightarrow> c_units c ! i \<noteq> NULL \<Longrightarrow> c_units c ! i = c_units c ! j \<Longrightarrow> i = j"
  using assms distinct_nth_filter [of "\<lambda>u. u \<noteq> NULL" "c_units c" i j] by (auto simp: crt_inv_def crt_held_def live_def)

lemma crt_inv_status:
  \<comment> \<open>to or from the coroutine \<open>n\<close>\<close>
  assumes I: "crt_inv c" and n: "n < length (c_units c)" "c_units c ! n \<noteq> NULL"
    and u: "if q = int n then cu_status u = CRT_RUNNING else cu_status u = CRT_SUSPEND \<and> cu_ctx u \<noteq> None"
    and q: "q = int n \<and> c_current c = -1 \<or> q = -1 \<and> c_current c = int n"
  shows "crt_inv (c\<lparr>c_mem := (c_mem c)(c_units c ! n \<mapsto> u), c_current := q\<rparr>)"
proof -
  let ?c = "c\<lparr>c_mem := (c_mem c)(c_units c ! n \<mapsto> u), c_current := q\<rparr>"
  note D = crt_invD [OF I]
  have H: "crt_held c []" using I by (simp add: crt_inv_def)
  have l: "live ?c = live c" by (simp add: live_def)
  have "c_units c ! n \<in> set (live c)" using n by (simp add: live_def)
  then have dom: "dom (c_mem ?c) = dom (c_mem c)" using H by (auto simp: crt_held_def)
  have "\<exists>v. c_mem ?c (c_units c ! i) = Some v \<and> (if int i = q then cu_status v = CRT_RUNNING
             else cu_status v = CRT_INIT \<or> cu_status v = CRT_SUSPEND \<and> cu_ctx v \<noteq> None)"
    if i: "i < length (c_units c)" "c_units c ! i \<noteq> NULL" for i
  proof (cases "i = n")
    case True
    then show ?thesis using u q by auto
  next
    case False
    then have "c_units c ! i \<noteq> c_units c ! n" using D(6) i n by blast
    moreover have "int i \<noteq> c_current c" "int i \<noteq> q" using False q by auto
    ultimately show ?thesis using D(5) [OF i] by auto
  qed
  moreover have "q < c_capacity c" "0 \<le> q \<Longrightarrow> c_units c ! nat q \<noteq> NULL" using D(1-3) n q by auto
  ultimately show ?thesis using H unfolding crt_inv_def crt_held_def l dom by auto
qed

definition tame :: "('k \<Rightarrow> 'k crt_t \<times> 'w \<Rightarrow> (('k crt_t \<times> 'w) \<times> 'k option) option) \<Rightarrow> bool" where
  \<comment> \<open>the code of a coroutine comes to a point where it yields or returns, and uses the scheduler through its functions\<close>
  "tame run \<longleftrightarrow> (\<forall>k c w. crt_inv c \<and> 0 \<le> c_current c \<longrightarrow> (\<exists>c' w' r. run k (c, w) = Some ((c', w'), r) \<and> crt_inv c' \<and> c_current c' = c_current c
     \<and> c_units c' ! nat (c_current c) = c_units c ! nat (c_current c)))"

lemma switch_ok:
  assumes I: "crt_inv c" "c_current c = int n" and r: "tame run"
  shows "\<exists>c' w'. crt_switch run True (int n) (c_units c ! n) k (c, w) = Some (c', w') \<and> crt_inv c' \<and> c_current c' = -1
    \<and> (crt_status c' (int n) = Some CRT_SUSPEND \<or> crt_status c' (int n) = Some CRT_DEAD)"
proof -
  obtain d w' r where d: "run k (c, w) = Some ((d, w'), r)" "crt_inv d" "c_current d = int n" "c_units d ! n = c_units c ! n"
    using r I unfolding tame_def by (metis nat_int of_nat_0_le_iff)
  note D = crt_invD [OF d(2)]
  have n: "n < length (c_units d)" "c_units d ! n \<noteq> NULL" using D(1,3,4) d(3) by auto
  have rd: "rdi (c_units d) (int n) = Some (c_units d ! n)" using n by (simp add: rdi_def rd_def)
  obtain u where u: "c_mem d (c_units d ! n) = Some u" using D(5) [OF n] by blast
  show ?thesis
  proof (cases r)
    case (Some k')
    let ?d = "d\<lparr>c_mem := (c_mem d)(c_units d ! n \<mapsto> u\<lparr>cu_status := CRT_SUSPEND, cu_ctx := Some k'\<rparr>), c_current := -1\<rparr>"
    have "crt_inv ?d" using n d(3) by (intro crt_inv_status [OF d(2)]) auto
    moreover have "crt_status ?d (int n) = Some CRT_SUSPEND" using n rd D(1,3) d(3) by (simp add: crt_status_def c_assert_def)
    moreover have "crt_switch run True (int n) (c_units c ! n) k (c, w) = Some (?d, w')"
      using d rd u Some by (simp add: crt_switch_def crt_yield_def)
    ultimately show ?thesis by fastforce
  next
    case None
    let ?l = "(c_freelst d)\<lparr>sl_size := sl_size (c_freelst d) + 1, sl_nodes := sl_nodes (c_freelst d) @ [c_units d ! n]\<rparr>"
    let ?d = "d\<lparr>c_freelst := ?l, c_units := (c_units d)[n := NULL], c_count := c_count d - 1, c_current := -1\<rparr>"
    have "slist_inv (c_freelst d)" using d(2) by (simp add: crt_inv_def crt_held_def)
    then have "crt_inv ?d" using n d(2,3) unfolding crt_inv_def by (intro crt_retire) (auto simp: slist_inv_def)
    moreover have "crt_status ?d (int n) = Some CRT_DEAD" using n D(1,3) d(3) by (simp add: crt_status_def c_assert_def rdi_def rd_def)
    moreover have "crt_switch run True (int n) (c_units c ! n) k (c, w) = Some (?d, w')"
      using d n None by (simp add: crt_switch_def crt_finish_def append_node_eq wri_def wr_def CRT_INVALID_ID_def flip: d(4))
    ultimately show ?thesis by fastforce
  qed
qed

section \<open>Properties\<close>

definition crt_wf :: "'k crt_t \<Rightarrow> bool" where
  "crt_wf c \<longleftrightarrow> crt_inv c \<and> c_current c = -1"

text \<open>C18: Between calls of the scheduler no coroutine is running: resuming any number in the range returns to
  the main program with every unit again new or suspended in a saved context, and the coroutine that ran
  is suspended or, if its function returned, dead; a number without a coroutine changes nothing.\<close>

theorem crt_resume_type:
  assumes "crt_wf c" "0 \<le> n" "n < c_capacity c" "tame run"
  shows "\<exists>c' w'. crt_resume start run True n (c, w) = Some (c', w') \<and> crt_wf c'
    \<and> crt_status c' n \<in> {Some CRT_DEAD, Some CRT_SUSPEND} \<and> (crt_status c n = Some CRT_DEAD \<longrightarrow> c' = c \<and> w' = w)"
proof -
  have I: "crt_inv c" "c_current c = -1" using assms(1) by (simp_all add: crt_wf_def)
  obtain i where i: "n = int i" using assms(2) nonneg_int_cases by blast
  note D = crt_invD [OF I(1)]
  have l: "i < length (c_units c)" using D(1) assms(3) i by simp
  have rd: "rdi (c_units c) n = Some (c_units c ! i)" using i l by (simp add: rdi_def rd_def)
  show ?thesis
  proof (cases "c_units c ! i = NULL")
    case True
    then show ?thesis using I assms(1-3) rd by (simp add: crt_resume_def crt_status_def c_assert_def)
  next
    case False
    obtain u where u: "c_mem c (c_units c ! i) = Some u" "cu_status u = CRT_INIT \<or> cu_status u = CRT_SUSPEND \<and> cu_ctx u \<noteq> None"
      using D(5) [OF l False] I(2) by auto
    let ?c = "c\<lparr>c_mem := (c_mem c)(c_units c ! i \<mapsto> u\<lparr>cu_status := CRT_RUNNING\<rparr>), c_current := n\<rparr>"
    have J: "crt_inv ?c" using i I(2) False l by (intro crt_inv_status [OF I(1)]) auto
    obtain k where k: "crt_resume start run True n (c, w) = crt_switch run True n (c_units c ! i) k (?c, w)"
      using u rd False I(2) assms(2,3) by (auto simp: crt_resume_def c_assert_def crt_consts)
    have "crt_status c n \<noteq> Some CRT_DEAD" using u rd False assms(2,3) by (auto simp: crt_status_def c_assert_def crt_consts)
    moreover have "c_units ?c ! i = c_units c ! i" "c_current ?c = int i" using i by simp_all
    then obtain c' w' where "crt_switch run True n (c_units c ! i) k (?c, w) = Some (c', w')" "crt_inv c'" "c_current c' = -1"
      "crt_status c' n = Some CRT_SUSPEND \<or> crt_status c' n = Some CRT_DEAD"
      using switch_ok [OF J _ assms(4), of i k w] i by auto
    ultimately show ?thesis unfolding k by (auto simp: crt_wf_def)
  qed
qed

text \<open>C19: Creating a coroutine with the system calls succeeding always finds a place: it returns a number that
  was dead and is now a new coroutine, and no other number changes, whether the table has room or grows.\<close>

theorem crt_new_spec:
  assumes "crt_inv c" "env_ok env c"
  shows "\<exists>c' n u. crt_new env c f a = Some (c', int n) \<and> crt_inv c' \<and> c_current c' = c_current c
    \<and> crt_slot c n = None \<and> crt_slot c' = (crt_slot c)(n \<mapsto> u) \<and> cu_status u = CRT_INIT"
  using crt_new_ok [OF assms, of f a] by blast

text \<open>Once a coroutine has finished, the unit that it leaves behind makes the next coroutine run its
  function again: with a unit \<open>v\<close> last in the free list, the coroutine that \<^verbatim>\<open>crt_new\<close> creates for the
  function \<open>f\<close> and the argument \<open>a\<close> starts, when it is first resumed, the function of \<open>v\<close> on the argument of \<open>v\<close>.\<close>

lemma crt_new_runs_old_function:
  assumes "crt_wf c" "env_ok env c" "sl_nodes (c_freelst c) \<noteq> []" "c_mem c (last (sl_nodes (c_freelst c))) = Some v"
  shows "\<exists>c' c'' n cu. crt_new env c f a = Some (c', n)
    \<and> crt_resume start run True n (c', w) = crt_switch run True n cu (start (cu_func v) (cu_arg v)) (c'', w)"
proof -
  have I: "crt_inv c" "c_current c = -1" using assms(1) by (simp_all add: crt_wf_def)
  obtain c' n u where r: "crt_new env c f a = Some (c', int n)" "crt_inv c'" "c_current c' = c_current c"
    "crt_slot c' = (crt_slot c)(n \<mapsto> u)" "cu_status u = CRT_INIT" "cu_func u = cu_func v" "cu_arg u = cu_arg v"
    using crt_new_ok [OF I(1) assms(2), of f a] assms(3,4) by auto
  have s: "crt_slot c' n = Some u" using r(4) by simp
  then have "rdi (c_units c') (int n) = Some (c_units c' ! n)" "int n < c_capacity c'" "c_units c' ! n \<noteq> NULL" "c_mem c' (c_units c' ! n) = Some u"
    using crt_invD(1) [OF r(2)] by (auto simp: crt_slot_def rdi_def rd_def split: if_splits)
  then have "crt_resume start run True (int n) (c', w) = crt_switch run True (int n) (c_units c' ! n) (start (cu_func v) (cu_arg v))
      (c'\<lparr>c_mem := (c_mem c')(c_units c' ! n \<mapsto> u\<lparr>cu_status := CRT_RUNNING\<rparr>), c_current := int n\<rparr>, w)"
    using r(3,5-7) I(2) by (simp add: crt_resume_def c_assert_def)
  then show ?thesis using r(1) by blast
qed

section \<open>An example\<close>

text \<open>A coroutine that counts to three, twice yielding; a context is the number reached.\<close>

definition crt_demo :: "nat crt_t" where
  "crt_demo = \<lparr>c_stack_size = 8192, c_current = -1, c_count = 1, c_capacity = 2, c_units = [NULL, 7],
     c_freelst = \<lparr>sl_size = 1, sl_nodes = [9]\<rparr>,
     c_mem = [7 \<mapsto> \<lparr>cu_func = 100, cu_arg = 1, cu_ctx = None, cu_status = 1, cu_stack = 4096\<rparr>,
       9 \<mapsto> \<lparr>cu_func = 200, cu_arg = 2, cu_ctx = None, cu_status = 2, cu_stack = 16384\<rparr>]\<rparr>"

definition crt_env_demo :: crt_env where
  "crt_env_demo = \<lparr>e_unit = 5, e_stack = 65536, e_prot = 0, e_units = True, e_page = 4096\<rparr>"

definition count_run :: "nat \<Rightarrow> nat crt_t \<times> nat \<Rightarrow> ((nat crt_t \<times> nat) \<times> nat option) option" where
  "count_run k s = Some ((fst s, snd s + 1), if k < 3 then Some (k + 1) else None)"

lemma crt_demo_wf: "crt_wf crt_demo"
  by (auto simp: crt_wf_def crt_inv_def crt_held_def crt_demo_def live_def slist_inv_def CRT_INIT_def less_Suc_eq numeral_eq_Suc)

lemma tame_count: "tame count_run"
  by (simp add: tame_def count_run_def)

lemma crt_demo_env: "env_ok crt_env_demo crt_demo"
  by (simp add: env_ok_def crt_env_demo_def crt_demo_def)

theorem crt_resume_type_witness:
  "\<exists>c' w'. crt_resume (\<lambda>f a. a) count_run True 1 (crt_demo, 0) = Some (c', w') \<and> crt_wf c' \<and> crt_status c' 1 \<in> {Some 0, Some 3}"
  using crt_resume_type [OF crt_demo_wf _ _ tame_count, of 1 "\<lambda>f a. a" 0] by (auto simp: crt_consts crt_demo_def)

theorem crt_new_spec_witness:
  "\<exists>c' n u. crt_new crt_env_demo crt_demo 300 4 = Some (c', int n) \<and> crt_inv c' \<and> crt_slot crt_demo n = None
     \<and> crt_slot c' = (crt_slot crt_demo)(n \<mapsto> u) \<and> cu_status u = 1"
  using crt_new_spec [OF _ crt_demo_env, of 300 4] crt_demo_wf by (auto simp: crt_wf_def crt_consts)

lemma crt_new_runs_old_function_witness:
  "\<exists>c' c'' n cu. crt_new crt_env_demo crt_demo 300 4 = Some (c', n)
    \<and> crt_resume (\<lambda>f a. f) count_run True n (c', 0) = crt_switch count_run True n cu 200 (c'', 0)"
  using crt_new_runs_old_function [OF crt_demo_wf crt_demo_env, of "\<lparr>cu_func = 200, cu_arg = 2, cu_ctx = None, cu_status = 2, cu_stack = 16384\<rparr>" 300 4 "\<lambda>f a. f" count_run 0]
  by (simp add: crt_demo_def)

end
