(* ===== verification/Core_Fsm.thy ===== *)
theory Core_Fsm
  imports Base_Idtable Base_Hash
begin

text \<open>
  \<^verbatim>\<open>core/fsm.c\<close>: the table-driven state machine on top of \<^verbatim>\<open>base/idtable.c\<close> (status and event
  ids) and \<^verbatim>\<open>base/hash.c\<close> (rules).  The address of the element \<open>i\<close> of the status or event array
  is the pointer \<open>i + 1\<close>; an element that was never written is \<open>None\<close>.  A stored rule is never
  changed, so the rules table holds the rules themselves instead of their addresses.  The state
  that the callbacks reach through \<^verbatim>\<open>args\<close> is a value of type \<open>'s\<close> that they transform.
\<close>

section \<open>State and operations\<close>

definition FSM_WILDCARD_STATUS :: int where "FSM_WILDCARD_STATUS = -1"
definition FSM_OK :: int where "FSM_OK = 0"
definition FSM_FAIL :: int where "FSM_FAIL = -1"
definition FSM_EXISTED :: int where "FSM_EXISTED = -2"
definition FSM_NOT_EXISTED :: int where "FSM_NOT_EXISTED = -3"
definition FSM_FULL :: int where "FSM_FULL = -4"

record 's fsm_status_t =
  st_id :: int
  st_enter :: "('s \<Rightarrow> 's) option"
  st_exit :: "('s \<Rightarrow> 's) option"

record 's fsm_event_t =
  ev_id :: int
  ev_handle :: "'s \<Rightarrow> 's \<times> int"

record fsm_rule_t =
  in_status :: int
  in_event :: int
  in_ret_code :: int
  out_status :: int

record 's fsm_t =
  f_current :: int
  f_size :: int
  f_status_count :: int
  f_status :: "'s fsm_status_t option list"
  f_status_table :: idtable_t
  f_events_count :: int
  f_events :: "'s fsm_event_t option list"
  f_events_table :: idtable_t
  f_rules_count :: int
  f_rules :: "fsm_rule_t option list"
  f_rules_table :: "fsm_rule_t hash_t option"

definition fsm_rule_bytes :: "fsm_rule_t \<Rightarrow> u8 list" where
  "fsm_rule_bytes r = le32 (word_of_int (in_status r)) @ le32 (word_of_int (in_event r))
     @ le32 (word_of_int (in_ret_code r))"

definition fsm_rule_hash :: "fsm_rule_t \<Rightarrow> u32" where
  \<comment> \<open>the key is the twelve bytes of \<^verbatim>\<open>input\<close>, so the hash is always defined (\<open>fsm_rule_hash_defined\<close>)\<close>
  "fsm_rule_hash r = the (hash_jhash (fsm_rule_bytes r) 12)"

definition fsm_rule_cmp :: "fsm_rule_t \<Rightarrow> fsm_rule_t \<Rightarrow> int" where
  "fsm_rule_cmp r1 r2 =
     (if in_status r1 < in_status r2
       \<or> (in_status r1 = in_status r2 \<and> in_event r1 < in_event r2)
       \<or> (in_status r1 = in_status r2 \<and> in_event r1 = in_event r2 \<and> in_ret_code r1 < in_ret_code r2)
      then 1 else 0)"

definition FSM_STATUS_SIZE :: "int \<Rightarrow> int" where "FSM_STATUS_SIZE n = n"
definition FSM_EVENTS_SIZE :: "int \<Rightarrow> int" where "FSM_EVENTS_SIZE n = (n * (n - 1)) div 2"
definition FSM_RULES_SIZE :: "int \<Rightarrow> int" where "FSM_RULES_SIZE n = (n * (n - 1)) * 2"

definition fsm_create :: "int \<Rightarrow> bool \<Rightarrow> bool \<Rightarrow> bool \<Rightarrow> bool \<Rightarrow> bool \<Rightarrow> 's fsm_t option option" where
  \<comment> \<open>\<open>ok\<close>, \<open>oks\<close>, \<open>oke\<close>: the allocations of the machine, of the status and of the event array and
     their tables; \<open>okr\<close>, \<open>okt\<close>: of the rules table.  The result of the last allocation of the array
     is not tested; it is taken to succeed.  The products must fit an \<^verbatim>\<open>int\<close>.\<close>
  "fsm_create sz ok oks oke okr okt =
     (if sz \<le> 0 then Some None
      else do {
        c_assert ok;
        c_assert (FSM_RULES_SIZE sz * 3 < 2 ^ 31);
        st \<leftarrow> idtable_create oks oks (FSM_STATUS_SIZE sz);
        c_assert (st \<noteq> None);
        et \<leftarrow> idtable_create oke oke (FSM_EVENTS_SIZE sz);
        c_assert (et \<noteq> None);
        Some (Some \<lparr>f_current = FSM_WILDCARD_STATUS, f_size = sz,
          f_status_count = 0, f_status = replicate (nat (FSM_STATUS_SIZE sz)) None, f_status_table = the st,
          f_events_count = 0, f_events = replicate (nat (FSM_EVENTS_SIZE sz)) None, f_events_table = the et,
          f_rules_count = 0, f_rules = replicate (nat (FSM_RULES_SIZE sz)) None,
          f_rules_table = hash_create (Some fsm_rule_hash) (Some fsm_rule_cmp) (FSM_RULES_SIZE sz * 3) okr okt\<rparr>) })"

fun fsm_register_status ::
  "'s fsm_t option \<Rightarrow> int \<Rightarrow> ('s \<Rightarrow> 's) option \<Rightarrow> ('s \<Rightarrow> 's) option \<Rightarrow> ('s fsm_t option \<times> int) option" where
  "fsm_register_status None status enter exit = Some (None, FSM_FAIL)"
| "fsm_register_status (Some f) status enter exit =
     (if status \<le> 0 then Some (Some f, FSM_FAIL)
      else if f_status_count f \<ge> FSM_STATUS_SIZE (f_size f) then Some (Some f, FSM_FULL)
      else do {
        p \<leftarrow> idtable_get (Some (f_status_table f)) status;
        if p \<noteq> NULL then Some (Some f, FSM_EXISTED)
        else do {
          let i = nat (f_status_count f);
          sts \<leftarrow> wr (f_status f) i (Some \<lparr>st_id = status, st_enter = enter, st_exit = exit\<rparr>);
          (tb, ret) \<leftarrow> idtable_add (Some (f_status_table f)) status (i + 1);
          c_assert (ret = 0);
          Some (Some (f\<lparr>f_status_count := f_status_count f + 1, f_status := sts, f_status_table := the tb\<rparr>), FSM_OK) } })"

fun fsm_register_event ::
  "'s fsm_t option \<Rightarrow> int \<Rightarrow> ('s \<Rightarrow> 's \<times> int) \<Rightarrow> ('s fsm_t option \<times> int) option" where
  "fsm_register_event None event handle = Some (None, FSM_FAIL)"
| "fsm_register_event (Some f) event handle =
     (if event \<le> 0 then Some (Some f, FSM_FAIL)
      else if f_events_count f \<ge> FSM_EVENTS_SIZE (f_size f) then Some (Some f, FSM_FULL)
      else do {
        p \<leftarrow> idtable_get (Some (f_events_table f)) event;
        if p \<noteq> NULL then Some (Some f, FSM_EXISTED)
        else do {
          let i = nat (f_events_count f);
          evs \<leftarrow> wr (f_events f) i (Some \<lparr>ev_id = event, ev_handle = handle\<rparr>);
          (tb, ret) \<leftarrow> idtable_add (Some (f_events_table f)) event (i + 1);
          c_assert (ret = 0);
          Some (Some (f\<lparr>f_events_count := f_events_count f + 1, f_events := evs, f_events_table := the tb\<rparr>), FSM_OK) } })"

definition fsm_has_status :: "'s fsm_t \<Rightarrow> int \<Rightarrow> bool option" where
  "fsm_has_status f s = do { p \<leftarrow> idtable_get (Some (f_status_table f)) s; Some (p \<noteq> NULL) }"

fun fsm_register_rule ::
  "bool \<Rightarrow> 's fsm_t option \<Rightarrow> int \<Rightarrow> int \<Rightarrow> int \<Rightarrow> int \<Rightarrow> ('s fsm_t option \<times> int) option" where
  \<comment> \<open>\<open>ok\<close>: the allocation of the chain node\<close>
  "fsm_register_rule ok None event ret_code from_status to_status = Some (None, FSM_FAIL)"
| "fsm_register_rule ok (Some f) event ret_code from_status to_status =
     (if event < 0
        \<or> (from_status < 0 \<and> from_status \<noteq> FSM_WILDCARD_STATUS)
        \<or> (to_status < 0 \<and> to_status \<noteq> FSM_WILDCARD_STATUS) then Some (Some f, FSM_FAIL)
      else if f_rules_count f \<ge> FSM_RULES_SIZE (f_size f) then Some (Some f, FSM_FULL)
      else do {
        e \<leftarrow> idtable_get (Some (f_events_table f)) event;
        if e = NULL then Some (Some f, FSM_NOT_EXISTED)
        else do {
          hf \<leftarrow> fsm_has_status f from_status;
          ht \<leftarrow> fsm_has_status f to_status;
          if (from_status \<noteq> FSM_WILDCARD_STATUS \<and> \<not> hf) \<or> (to_status \<noteq> FSM_WILDCARD_STATUS \<and> \<not> ht)
          then Some (Some f, FSM_NOT_EXISTED)
          else do {
            let rule = \<lparr>in_status = from_status, in_event = event, in_ret_code = ret_code, out_status = to_status\<rparr>;
            rs \<leftarrow> wr (f_rules f) (nat (f_rules_count f)) (Some rule);
            (t, ret) \<leftarrow> hash_insert ok (f_rules_table f) (Some rule);
            if ret < 0 then Some (Some (f\<lparr>f_rules := rs, f_rules_table := t\<rparr>), FSM_EXISTED)
            else Some (Some (f\<lparr>f_rules_count := f_rules_count f + 1, f_rules := rs, f_rules_table := t\<rparr>), FSM_OK) } } })"

fun fsm_start :: "'s fsm_t option \<Rightarrow> int \<Rightarrow> ('s fsm_t option \<times> int) option" where
  "fsm_start None status = Some (None, FSM_FAIL)"
| "fsm_start (Some f) status = do {
     h \<leftarrow> fsm_has_status f status;
     Some (if \<not> h then (Some f, FSM_FAIL) else (Some (f\<lparr>f_current := status\<rparr>), FSM_OK)) }"

definition fsm_deref :: "'a option list \<Rightarrow> ptr \<Rightarrow> 'a option" where
  \<comment> \<open>read the array element that a table entry points to\<close>
  "fsm_deref xs p = do { c_assert (p \<noteq> NULL); x \<leftarrow> rd xs (p - 1); x }"

definition fsm_call :: "('s \<Rightarrow> 's) option \<Rightarrow> 's \<Rightarrow> 's" where
  "fsm_call cb s = (case cb of None \<Rightarrow> s | Some g \<Rightarrow> g s)"

definition fsm_enter_rule :: "'s fsm_t \<Rightarrow> fsm_rule_t \<Rightarrow> 's \<Rightarrow> ('s fsm_t \<times> 's) option" where
  "fsm_enter_rule f rule s =
     (if out_status rule = f_current f \<or> out_status rule = FSM_WILDCARD_STATUS then Some (f, s)
      else do {
        p \<leftarrow> idtable_get (Some (f_status_table f)) (f_current f);
        st \<leftarrow> fsm_deref (f_status f) p;
        let s1 = fsm_call (st_exit st) s;
        let f' = f\<lparr>f_current := if out_status rule = FSM_WILDCARD_STATUS then f_current f else out_status rule\<rparr>;
        q \<leftarrow> idtable_get (Some (f_status_table f')) (f_current f');
        st' \<leftarrow> fsm_deref (f_status f') q;
        Some (f', fsm_call (st_enter st') s1) })"

fun fsm_trigger :: "'s fsm_t option \<Rightarrow> int \<Rightarrow> 's \<Rightarrow> ('s fsm_t option \<times> 's \<times> int) option" where
  "fsm_trigger None event s = Some (None, s, FSM_FAIL)"
| "fsm_trigger (Some f) event s = do {
     p \<leftarrow> idtable_get (Some (f_events_table f)) event;
     if p = NULL then Some (Some f, s, FSM_NOT_EXISTED)
     else do {
       ev \<leftarrow> fsm_deref (f_events f) p;
       let (s1, ret) = ev_handle ev s;
       let tmp = \<lparr>in_status = f_current f, in_event = event, in_ret_code = ret, out_status = 0\<rparr>;
       r1 \<leftarrow> hash_find (f_rules_table f) (Some tmp);
       r \<leftarrow> (case r1 of Some rule \<Rightarrow> Some (Some rule)
             | None \<Rightarrow> hash_find (f_rules_table f) (Some (tmp\<lparr>in_status := FSM_WILDCARD_STATUS\<rparr>)));
       (case r of
          None \<Rightarrow> Some (Some f, s1, FSM_NOT_EXISTED)
        | Some rule \<Rightarrow> do { (f', s2) \<leftarrow> fsm_enter_rule f rule s1; Some (Some f', s2, FSM_OK) }) } }"

section \<open>Invariant\<close>

lemma fsm_rule_hash_defined:
  "hash_jhash (fsm_rule_bytes r) 12 = Some (word_of_int (int_hash12 (in_status r) (in_event r) (in_ret_code r)))"
  by (simp add: fsm_rule_bytes_def int_hash12)

lemma fsm_rule_hash_code [code]:
  "fsm_rule_hash r = word_of_int (int_hash12 (in_status r) (in_event r) (in_ret_code r))"
  by (simp add: fsm_rule_hash_def fsm_rule_hash_defined)

definition idt_free :: "idtable_t \<Rightarrow> nat" where
  "idt_free t = length (filter (\<lambda>n. nid n = -1) (tb_nodes t))"

definition tab_ok :: "idtable_t \<Rightarrow> int \<Rightarrow> 'a option list \<Rightarrow> bool" where
  \<comment> \<open>the table indexes the first \<open>n\<close> elements of the array, all of them written\<close>
  "tab_ok t n xs \<longleftrightarrow> idt_inv t \<and> 0 \<le> n \<and> n \<le> int (length xs) \<and> length (tb_nodes t) = length xs
     \<and> int (idt_free t) = int (length xs) - n
     \<and> (\<forall>i < nat n. xs ! i \<noteq> None)
     \<and> (\<forall>k p. idtable_get (Some t) k = Some p \<and> p \<noteq> NULL \<longrightarrow> p \<le> nat n)"

definition fsm_known :: "'s fsm_t \<Rightarrow> int \<Rightarrow> bool" where
  "fsm_known f s \<longleftrightarrow> fsm_has_status f s = Some True"

definition fsm_inv :: "'s fsm_t \<Rightarrow> bool" where
  "fsm_inv f \<longleftrightarrow> 0 < f_size f
     \<and> tab_ok (f_status_table f) (f_status_count f) (f_status f) \<and> int (length (f_status f)) = FSM_STATUS_SIZE (f_size f)
     \<and> tab_ok (f_events_table f) (f_events_count f) (f_events f) \<and> int (length (f_events f)) = FSM_EVENTS_SIZE (f_size f)
     \<and> 0 \<le> f_rules_count f \<and> int (length (f_rules f)) = FSM_RULES_SIZE (f_size f)
     \<and> (\<exists>t. f_rules_table f = Some t \<and> hash_wf t
          \<and> (\<forall>chain \<in> set (m_table t). \<forall>r \<in> set chain. out_status r \<noteq> FSM_WILDCARD_STATUS \<longrightarrow> fsm_known f (out_status r)))
     \<and> (f_current f \<noteq> FSM_WILDCARD_STATUS \<longrightarrow> fsm_known f (f_current f))"

lemma tab_get:
  assumes "tab_ok t n xs"
  obtains p where "idtable_get (Some t) k = Some p" "p \<noteq> NULL \<Longrightarrow> 0 \<le> k \<and> p - 1 < nat n \<and> (\<exists>x. fsm_deref xs p = Some x)"
proof (cases "0 \<le> k")
  case False
  then show thesis using that [of NULL] by (simp add: idtable_get.simps)
next
  case True
  have inv: "idt_inv t" using assms by (simp add: tab_ok_def)
  obtain p where p: "idtable_get (Some t) k = Some p" using idtable_get_find [OF inv True] by blast
  have "p - 1 < nat n \<and> (\<exists>x. fsm_deref xs p = Some x)" if "p \<noteq> NULL"
  proof -
    have "p \<le> nat n" using assms p that unfolding tab_ok_def by blast
    then have n: "p - 1 < nat n" using that by simp
    then have "xs ! (p - 1) \<noteq> None" using assms unfolding tab_ok_def by blast
    moreover have "p - 1 < length xs" using n assms by (auto simp: tab_ok_def)
    ultimately show ?thesis using n that by (auto simp: fsm_deref_def)
  qed
  with that p True show thesis by blast
qed

lemma filter_length_update:
  "i < length xs \<Longrightarrow> P (xs ! i) \<Longrightarrow> \<not> P v \<Longrightarrow> Suc (length (filter P (xs[i := v]))) = length (filter P xs)"
proof (induction xs arbitrary: i)
  case (Cons x xs)
  then show ?case by (cases i) auto
qed simp

lemma tab_add:
  assumes ok: "tab_ok t n xs" and k: "0 \<le> k" and n: "n < int (length xs)" and new: "idtable_get (Some t) k = Some NULL"
  obtains t' where "idtable_add (Some t) k (nat n + 1) = Some (Some t', 0)" "tab_ok t' (n + 1) (xs[nat n := Some v])"
    "\<And>j. idtable_get (Some t') j = (if j = k then Some (nat n + 1) else idtable_get (Some t) j)"
proof -
  have inv: "idt_inv t" and wf: "idt_wf t" and n0: "0 \<le> n" using ok by (auto simp: tab_ok_def idt_inv_def)
  have "filter (\<lambda>n. nid n = -1) (tb_nodes t) \<noteq> []"
    using ok n by (auto simp: tab_ok_def idt_free_def)
  then obtain m where "m \<in> set (tb_nodes t)" "nid m = -1" by (auto simp: filter_empty_conv)
  then obtain a where a: "a < length (tb_nodes t)" "nid (tb_nodes t ! a) = -1" by (auto simp: in_set_conv_nth)
  obtain i where f: "find (\<lambda>i. nid (tb_nodes t ! i) = -1) (slot_path t k) = Some i"
    using path_covers [OF wf k a(1)] a(2)
    by (cases "find (\<lambda>i. nid (tb_nodes t ! i) = -1) (slot_path t k)") (auto simp: find_None_iff)
  let ?t = "t\<lparr>tb_nodes := (tb_nodes t)[i := \<lparr>nid = k, nptr = nat n + 1\<rparr>]\<rparr>"
  have i: "i < length (tb_nodes t)" "nid (tb_nodes t ! i) = -1"
    using find_bound [OF f] path_bound [OF wf] by auto
  have get: "idtable_get (Some ?t) j = (if j = k then Some (nat n + 1) else idtable_get (Some t) j)" for j
    using idtable_get_upd [OF inv k _ _ f, of "nat n + 1" j] new k by (cases "0 \<le> j") (auto simp: idtable_get.simps)
  have free: "int (idt_free ?t) = int (length xs) - (n + 1)"
    using ok filter_length_update [OF i(1), of "\<lambda>n. nid n = -1" "\<lparr>nid = k, nptr = nat n + 1\<rparr>"] i k
    by (simp add: tab_ok_def idt_free_def)
  have n1: "nat (n + 1) = Suc (nat n)" using n0 by simp
  have full: "\<forall>j < nat (n + 1). xs[nat n := Some v] ! j \<noteq> None"
    using ok n n0 by (auto simp: tab_ok_def n1 less_Suc_eq nth_list_update)
  have ptrs: "\<forall>k' p. idtable_get (Some ?t) k' = Some p \<and> p \<noteq> NULL \<longrightarrow> p \<le> nat (n + 1)"
  proof (intro allI impI)
    fix k' p
    assume p: "idtable_get (Some ?t) k' = Some p \<and> p \<noteq> NULL"
    show "p \<le> nat (n + 1)"
    proof (cases "k' = k")
      case True
      with p get show ?thesis using n1 by simp
    next
      case False
      then have "idtable_get (Some t) k' = Some p" using p get [of k'] by (simp only: if_False)
      with p ok have "p \<le> nat n" unfolding tab_ok_def by blast
      then show ?thesis using n1 by simp
    qed
  qed
  have "tab_ok ?t (n + 1) (xs[nat n := Some v])"
    unfolding tab_ok_def
    using idt_inv_upd [OF inv k _ f, of "nat n + 1"] n0 n free full ptrs ok by (simp add: tab_ok_def del: idtable_get.simps)
  moreover have "idtable_add (Some t) k (nat n + 1) = Some (Some ?t, 0)"
    using idtable_add_slot [OF inv k, of "nat n + 1"] f by simp
  ultimately show thesis using that get by blast
qed

lemma has_status_total:
  assumes "fsm_inv f"
  shows "fsm_has_status f s = Some (fsm_known f s)"
proof -
  have ok: "tab_ok (f_status_table f) (f_status_count f) (f_status f)" using assms by (simp add: fsm_inv_def)
  obtain p where "idtable_get (Some (f_status_table f)) s = Some p" using tab_get [OF ok, of s] by blast
  then show ?thesis by (simp add: fsm_known_def fsm_has_status_def)
qed

lemma known_deref:
  assumes "fsm_inv f" "fsm_known f s"
  obtains p st where "idtable_get (Some (f_status_table f)) s = Some p" "fsm_deref (f_status f) p = Some st" "0 \<le> s"
proof -
  have ok: "tab_ok (f_status_table f) (f_status_count f) (f_status f)" using assms by (simp add: fsm_inv_def)
  obtain p where p: "idtable_get (Some (f_status_table f)) s = Some p"
     "p \<noteq> NULL \<Longrightarrow> 0 \<le> s \<and> p - 1 < nat (f_status_count f) \<and> (\<exists>x. fsm_deref (f_status f) p = Some x)"
    using tab_get [OF ok, of s] by blast
  moreover have "p \<noteq> NULL" using assms(2) p(1) by (simp add: fsm_known_def fsm_has_status_def)
  ultimately show thesis using that by blast
qed

lemma register_status_ok:
  assumes "fsm_inv f"
  obtains f' ret where "fsm_register_status (Some f) status en ex = Some (Some f', ret)" "fsm_inv f'"
    "f_current f' = f_current f" "\<And>s. fsm_known f' s \<longleftrightarrow> fsm_known f s \<or> (s = status \<and> ret = FSM_OK)"
proof (cases "status \<le> 0 \<or> f_status_count f \<ge> FSM_STATUS_SIZE (f_size f) \<or> fsm_known f status")
  case True
  obtain p where p: "idtable_get (Some (f_status_table f)) status = Some p" "p \<noteq> NULL \<longleftrightarrow> fsm_known f status"
    using has_status_total [OF assms, of status] by (auto simp: fsm_has_status_def bind_eq_Some_conv)
  have "\<exists>ret. fsm_register_status (Some f) status en ex = Some (Some f, ret) \<and> ret \<noteq> FSM_OK"
    using True p by (auto simp: FSM_FAIL_def FSM_OK_def FSM_FULL_def FSM_EXISTED_def)
  then show thesis using that [of f] assms by blast
next
  case False
  have ok: "tab_ok (f_status_table f) (f_status_count f) (f_status f)"
    and len: "int (length (f_status f)) = FSM_STATUS_SIZE (f_size f)" using assms by (auto simp: fsm_inv_def)
  have new: "idtable_get (Some (f_status_table f)) status = Some NULL"
    using False has_status_total [OF assms, of status]
    by (auto simp: fsm_has_status_def bind_eq_Some_conv)
  have lt: "f_status_count f < int (length (f_status f))" using False len by simp
  let ?v = "\<lparr>st_id = status, st_enter = en, st_exit = ex\<rparr>"
  obtain t' where t': "idtable_add (Some (f_status_table f)) status (nat (f_status_count f) + 1) = Some (Some t', 0)"
    "tab_ok t' (f_status_count f + 1) ((f_status f)[nat (f_status_count f) := Some ?v])"
    "\<And>j. idtable_get (Some t') j = (if j = status then Some (nat (f_status_count f) + 1)
       else idtable_get (Some (f_status_table f)) j)"
    using tab_add [OF ok _ lt new, of ?v] False by (metis less_le not_le)
  let ?f = "f\<lparr>f_status_count := f_status_count f + 1,
    f_status := (f_status f)[nat (f_status_count f) := Some ?v], f_status_table := t'\<rparr>"
  have known: "fsm_known ?f s \<longleftrightarrow> fsm_known f s \<or> s = status" for s
    by (simp add: fsm_known_def fsm_has_status_def t'(3))
  have idx: "nat (f_status_count f) < length (f_status f)" using lt ok by (auto simp: tab_ok_def)
  have "fsm_inv ?f" using assms t'(2) unfolding fsm_inv_def known by fastforce
  moreover have "fsm_register_status (Some f) status en ex = Some (Some ?f, FSM_OK)"
    using False new t'(1) idx by (simp add: Let_def del: idtable_add.simps)
  ultimately show thesis using that known by simp
qed

lemma register_event_ok:
  assumes "fsm_inv f"
  obtains f' ret where "fsm_register_event (Some f) event handle = Some (Some f', ret)" "fsm_inv f'"
    "f_current f' = f_current f" "\<And>s. fsm_known f' s \<longleftrightarrow> fsm_known f s"
proof -
  have ok: "tab_ok (f_events_table f) (f_events_count f) (f_events f)"
    and len: "int (length (f_events f)) = FSM_EVENTS_SIZE (f_size f)" using assms by (auto simp: fsm_inv_def)
  obtain p where p: "idtable_get (Some (f_events_table f)) event = Some p" using tab_get [OF ok, of event] by blast
  show thesis
  proof (cases "event \<le> 0 \<or> f_events_count f \<ge> FSM_EVENTS_SIZE (f_size f) \<or> p \<noteq> NULL")
    case True
    then have "\<exists>ret. fsm_register_event (Some f) event handle = Some (Some f, ret)" using p by auto
    then show thesis using that [of f] assms by blast
  next
    case False
    then have new: "idtable_get (Some (f_events_table f)) event = Some NULL" using p by simp
    have lt: "f_events_count f < int (length (f_events f))" using False len by simp
    let ?v = "\<lparr>ev_id = event, ev_handle = handle\<rparr>"
    obtain t' where t': "idtable_add (Some (f_events_table f)) event (nat (f_events_count f) + 1) = Some (Some t', 0)"
      "tab_ok t' (f_events_count f + 1) ((f_events f)[nat (f_events_count f) := Some ?v])"
      using tab_add [OF ok _ lt new, of ?v] False by (metis less_le not_le)
    let ?f = "f\<lparr>f_events_count := f_events_count f + 1,
      f_events := (f_events f)[nat (f_events_count f) := Some ?v], f_events_table := t'\<rparr>"
    have known: "fsm_known ?f s \<longleftrightarrow> fsm_known f s" for s by (simp add: fsm_known_def fsm_has_status_def)
    have idx: "nat (f_events_count f) < length (f_events f)" using lt ok by (auto simp: tab_ok_def)
    have "fsm_inv ?f" using assms t'(2) unfolding fsm_inv_def known by fastforce
    moreover have "fsm_register_event (Some f) event handle = Some (Some ?f, FSM_OK)"
      using False new t'(1) idx by (simp add: Let_def del: idtable_add.simps)
    ultimately show thesis using that known by simp
  qed
qed

lemma register_rule_ok:
  assumes "fsm_inv f"
  obtains f' ret where "fsm_register_rule ok (Some f) event rc from to = Some (Some f', ret)" "fsm_inv f'"
    "f_current f' = f_current f" "f_status_table f' = f_status_table f"
proof -
  have tab: "tab_ok (f_events_table f) (f_events_count f) (f_events f)"
    and rl: "int (length (f_rules f)) = FSM_RULES_SIZE (f_size f)" "0 \<le> f_rules_count f"
    using assms by (auto simp: fsm_inv_def)
  obtain t where t: "f_rules_table f = Some t" "hash_wf t"
    "\<forall>chain \<in> set (m_table t). \<forall>r \<in> set chain. out_status r \<noteq> FSM_WILDCARD_STATUS \<longrightarrow> fsm_known f (out_status r)"
    using assms unfolding fsm_inv_def by blast
  obtain p where p: "idtable_get (Some (f_events_table f)) event = Some p" using tab_get [OF tab, of event] by blast
  let ?r = "\<lparr>in_status = from, in_event = event, in_ret_code = rc, out_status = to\<rparr>"
  show thesis
  proof (cases "event < 0 \<or> (from < 0 \<and> from \<noteq> FSM_WILDCARD_STATUS) \<or> (to < 0 \<and> to \<noteq> FSM_WILDCARD_STATUS)
      \<or> f_rules_count f \<ge> FSM_RULES_SIZE (f_size f) \<or> p = NULL
      \<or> (from \<noteq> FSM_WILDCARD_STATUS \<and> \<not> fsm_known f from) \<or> (to \<noteq> FSM_WILDCARD_STATUS \<and> \<not> fsm_known f to)")
    case True
    then have "\<exists>ret. fsm_register_rule ok (Some f) event rc from to = Some (Some f, ret)"
      using p by (auto simp: has_status_total [OF assms])
    then show thesis using that [of f] assms by blast
  next
    case False
    let ?rs = "(f_rules f)[nat (f_rules_count f) := Some ?r]"
    have idx: "nat (f_rules_count f) < length (f_rules f)" using False rl by auto
    have i: "hash_index t ?r < length (m_table t)" using hash_index_bound [OF t(2)] .
    obtain t' ret where ins: "hash_insert ok (Some t) (Some ?r) = Some (Some t', ret)" "hash_wf t'"
      "\<And>chain r. chain \<in> set (m_table t') \<Longrightarrow> r \<in> set chain \<Longrightarrow> r = ?r \<or> (\<exists>c \<in> set (m_table t). r \<in> set c)"
    proof (cases "chain_find (m_cmp_func t) (m_table t ! hash_index t ?r) ?r \<noteq> None \<or> \<not> ok")
      case True
      then have "hash_insert ok (Some t) (Some ?r) = Some (Some t, -1)" using i by (auto simp: Let_def)
      then show thesis using that t(2) by blast
    next
      case False
      let ?t = "t\<lparr>m_table := (m_table t)[hash_index t ?r := m_table t ! hash_index t ?r @ [?r]], m_count := m_count t + 1\<rparr>"
      have "hash_insert ok (Some t) (Some ?r) = Some (Some ?t, 0)" using False i by (simp add: Let_def)
      moreover have "hash_wf ?t" using t(2) by (simp add: hash_wf_def)
      moreover have "r = ?r \<or> (\<exists>c \<in> set (m_table t). r \<in> set c)"
        if m: "chain \<in> set (m_table ?t)" "r \<in> set chain" for chain r
      proof -
        have "chain = m_table t ! hash_index t ?r @ [?r] \<or> chain \<in> set (m_table t)"
          using m(1) set_update_subset_insert by fastforce
        then show ?thesis using m(2) nth_mem [OF i] by auto
      qed
      ultimately show thesis using that by blast
    qed
    let ?f = "\<lambda>c. f\<lparr>f_rules_count := c, f_rules := ?rs, f_rules_table := Some t'\<rparr>"
    have known: "fsm_known (?f c) s \<longleftrightarrow> fsm_known f s" for c s by (simp add: fsm_known_def fsm_has_status_def)
    have outs: "\<forall>chain \<in> set (m_table t'). \<forall>r \<in> set chain. out_status r \<noteq> FSM_WILDCARD_STATUS \<longrightarrow> fsm_known f (out_status r)"
      using ins(3) t(3) False by fastforce
    have inv: "fsm_inv (?f c)" if "0 \<le> c" for c
      using assms that outs ins(2) unfolding fsm_inv_def known by simp
    have res: "fsm_register_rule ok (Some f) event rc from to = Some (if ret < 0 then (Some (?f (f_rules_count f)), FSM_EXISTED)
        else (Some (?f (f_rules_count f + 1)), FSM_OK))"
      using False p idx ins(1) t(1) by (auto simp: has_status_total [OF assms] Let_def simp del: hash_insert.simps)
    show thesis
    proof (cases "ret < 0")
      case True
      then show thesis using that [of "?f (f_rules_count f)" FSM_EXISTED] res inv [of "f_rules_count f"] rl(2) by simp
    next
      case False
      then show thesis using that [of "?f (f_rules_count f + 1)" FSM_OK] res inv [of "f_rules_count f + 1"] rl(2) by simp
    qed
  qed
qed

lemma fsm_start_ok:
  assumes "fsm_inv f"
  shows "fsm_start (Some f) s = Some (if fsm_known f s then (Some (f\<lparr>f_current := s\<rparr>), FSM_OK) else (Some f, FSM_FAIL))"
    and "fsm_known f s \<Longrightarrow> fsm_inv (f\<lparr>f_current := s\<rparr>)"
    and "fsm_known f s \<Longrightarrow> s \<noteq> FSM_WILDCARD_STATUS"
proof -
  have known: "fsm_known (f\<lparr>f_current := s\<rparr>) x \<longleftrightarrow> fsm_known f x" for x by (simp add: fsm_known_def fsm_has_status_def)
  show "fsm_start (Some f) s = Some (if fsm_known f s then (Some (f\<lparr>f_current := s\<rparr>), FSM_OK) else (Some f, FSM_FAIL))"
    by (simp add: has_status_total [OF assms])
  show "fsm_inv (f\<lparr>f_current := s\<rparr>)" if "fsm_known f s"
  proof -
    let ?f = "f\<lparr>f_current := s\<rparr>"
    have sel: "f_size ?f = f_size f" "f_status_table ?f = f_status_table f" "f_status_count ?f = f_status_count f"
      "f_status ?f = f_status f" "f_events_table ?f = f_events_table f" "f_events_count ?f = f_events_count f"
      "f_events ?f = f_events f" "f_rules_count ?f = f_rules_count f" "f_rules ?f = f_rules f"
      "f_rules_table ?f = f_rules_table f" "f_current ?f = s"
      by simp_all
    show ?thesis using assms that unfolding fsm_inv_def known sel by blast
  qed
  show "s \<noteq> FSM_WILDCARD_STATUS" if "fsm_known f s"
    by (rule known_deref [OF assms that]) (simp add: FSM_WILDCARD_STATUS_def)
qed

text \<open>What an event does: the rule that the two lookups find, and the transition it causes.\<close>

definition fsm_rule_for :: "'s fsm_t \<Rightarrow> int \<Rightarrow> int \<Rightarrow> fsm_rule_t option" where
  "fsm_rule_for f event ret = (case f_rules_table f of None \<Rightarrow> None | Some t \<Rightarrow>
     (case hash_lookup t \<lparr>in_status = f_current f, in_event = event, in_ret_code = ret, out_status = 0\<rparr> of
        Some r \<Rightarrow> Some r
      | None \<Rightarrow> hash_lookup t \<lparr>in_status = FSM_WILDCARD_STATUS, in_event = event, in_ret_code = ret, out_status = 0\<rparr>))"

definition fsm_event_of :: "'s fsm_t \<Rightarrow> int \<Rightarrow> 's fsm_event_t option" where
  "fsm_event_of f event = (case idtable_get (Some (f_events_table f)) event of None \<Rightarrow> None
     | Some p \<Rightarrow> if p = NULL then None else fsm_deref (f_events f) p)"

definition fsm_status_of :: "'s fsm_t \<Rightarrow> int \<Rightarrow> 's fsm_status_t option" where
  "fsm_status_of f s = (case idtable_get (Some (f_status_table f)) s of None \<Rightarrow> None
     | Some p \<Rightarrow> if p = NULL then None else fsm_deref (f_status f) p)"

definition fsm_step :: "'s fsm_t \<Rightarrow> int \<Rightarrow> 's \<Rightarrow> int \<times> 's \<times> int" where
  \<comment> \<open>the abstract transition: new current status, new state of the callbacks, result\<close>
  "fsm_step f event s = (case fsm_event_of f event of
     None \<Rightarrow> (f_current f, s, FSM_NOT_EXISTED)
   | Some ev \<Rightarrow> (case ev_handle ev s of (s1, ret) \<Rightarrow>
       (case fsm_rule_for f event ret of
          None \<Rightarrow> (f_current f, s1, FSM_NOT_EXISTED)
        | Some r \<Rightarrow>
            if out_status r \<in> {f_current f, FSM_WILDCARD_STATUS} then (f_current f, s1, FSM_OK)
            else (out_status r,
                  fsm_call (st_enter (the (fsm_status_of f (out_status r))))
                    (fsm_call (st_exit (the (fsm_status_of f (f_current f)))) s1), FSM_OK))))"

lemma rule_for_known:
  assumes "fsm_inv f" "fsm_rule_for f event ret = Some r" "out_status r \<noteq> FSM_WILDCARD_STATUS"
  shows "fsm_known f (out_status r)"
proof -
  obtain t where t: "f_rules_table f = Some t" "hash_wf t"
    "\<forall>chain \<in> set (m_table t). \<forall>r \<in> set chain. out_status r \<noteq> FSM_WILDCARD_STATUS \<longrightarrow> fsm_known f (out_status r)"
    using assms unfolding fsm_inv_def by blast
  obtain d where "hash_lookup t d = Some r"
    using assms(2) t(1) by (auto simp: fsm_rule_for_def split: option.splits)
  then have "r \<in> set (m_table t ! hash_index t d)" by (auto simp: hash_lookup_def dest: chain_find_Some)
  then show ?thesis using t(3) assms(3) nth_mem [OF hash_index_bound [OF t(2), of d]] by blast
qed

lemma enter_rule_ok:
  assumes "fsm_inv f" "fsm_known f (f_current f)" "out_status r \<noteq> FSM_WILDCARD_STATUS \<Longrightarrow> fsm_known f (out_status r)"
  shows "fsm_enter_rule f r s = Some (
    if out_status r \<in> {f_current f, FSM_WILDCARD_STATUS} then (f, s)
    else (f\<lparr>f_current := out_status r\<rparr>, fsm_call (st_enter (the (fsm_status_of f (out_status r))))
           (fsm_call (st_exit (the (fsm_status_of f (f_current f)))) s)))"
proof (cases "out_status r \<in> {f_current f, FSM_WILDCARD_STATUS}")
  case False
  obtain p st where p: "idtable_get (Some (f_status_table f)) (f_current f) = Some p" "fsm_deref (f_status f) p = Some st"
    using known_deref [OF assms(1,2)] by metis
  obtain q st' where q: "idtable_get (Some (f_status_table f)) (out_status r) = Some q" "fsm_deref (f_status f) q = Some st'"
    using known_deref [OF assms(1)] assms(3) False by (metis insertCI)
  have nn: "p \<noteq> NULL" "q \<noteq> NULL" using p(2) q(2) by (auto simp: fsm_deref_def bind_eq_Some_conv)
  show ?thesis using False p q nn by (simp add: fsm_enter_rule_def fsm_status_of_def Let_def)
qed (auto simp: fsm_enter_rule_def)

lemma trigger_ok:
  assumes "fsm_inv f" "fsm_known f (f_current f)"
  shows "fsm_trigger (Some f) event s = (case fsm_step f event s of (c, s', ret) \<Rightarrow>
    Some (Some (f\<lparr>f_current := c\<rparr>), s', ret))"
    and "fsm_known f (fst (fsm_step f event s))"
proof -
  have tab: "tab_ok (f_events_table f) (f_events_count f) (f_events f)" using assms(1) by (simp add: fsm_inv_def)
  obtain t where t: "f_rules_table f = Some t" "hash_wf t" using assms(1) unfolding fsm_inv_def by blast
  obtain p where p: "idtable_get (Some (f_events_table f)) event = Some p"
    "p \<noteq> NULL \<Longrightarrow> \<exists>x. fsm_deref (f_events f) p = Some x" using tab_get [OF tab, of event] by metis
  have sel: "f\<lparr>f_current := f_current f\<rparr> = f" by simp
  have kn: "fsm_known f (out_status r)"
    if "fsm_rule_for f event ret = Some r" "out_status r \<noteq> FSM_WILDCARD_STATUS" for r ret
    using rule_for_known [OF assms(1) that] .
  show "fsm_trigger (Some f) event s = (case fsm_step f event s of (c, s', ret) \<Rightarrow>
    Some (Some (f\<lparr>f_current := c\<rparr>), s', ret))"
  proof (cases "p = NULL")
    case True
    then show ?thesis using p by (simp add: fsm_step_def fsm_event_of_def)
  next
    case False
    then obtain ev where ev: "fsm_deref (f_events f) p = Some ev" using p(2) by blast
    obtain s1 ret where h: "ev_handle ev s = (s1, ret)" by (cases "ev_handle ev s")
    have find: "do { r1 \<leftarrow> hash_find (f_rules_table f) (Some \<lparr>in_status = f_current f, in_event = event, in_ret_code = ret, out_status = 0\<rparr>);
       (case r1 of Some rule \<Rightarrow> Some (Some rule)
             | None \<Rightarrow> hash_find (f_rules_table f) (Some \<lparr>in_status = FSM_WILDCARD_STATUS, in_event = event, in_ret_code = ret, out_status = 0\<rparr>)) }
       = Some (fsm_rule_for f event ret)"
      using t by (simp add: fsm_rule_for_def hash_find_lookup del: hash_find.simps split: option.split)
    have "fsm_trigger (Some f) event s = (case fsm_rule_for f event ret of
          None \<Rightarrow> Some (Some f, s1, FSM_NOT_EXISTED)
        | Some rule \<Rightarrow> do { (f', s2) \<leftarrow> fsm_enter_rule f rule s1; Some (Some f', s2, FSM_OK) })"
      using p(1) False ev h find by (simp add: Let_def bind_assoc [symmetric] del: bind_assoc hash_find.simps)
    then show ?thesis
      using p(1) False ev h enter_rule_ok [OF assms] kn
      by (auto simp: fsm_step_def fsm_event_of_def split: option.split)
  qed
  show "fsm_known f (fst (fsm_step f event s))"
    using assms(2) kn by (auto simp: fsm_step_def split: option.split prod.split)
qed

section \<open>Runs\<close>

datatype 's fsm_op =
    OpStatus int "('s \<Rightarrow> 's) option" "('s \<Rightarrow> 's) option"
  | OpEvent int "'s \<Rightarrow> 's \<times> int"
  | OpRule bool int int int int
  | OpStart int
  | OpTrigger int

fun fsm_exec :: "'s fsm_op \<Rightarrow> 's fsm_t option \<times> 's \<Rightarrow> (('s fsm_t option \<times> 's) \<times> int) option" where
  "fsm_exec (OpStatus i en ex) (f, s) = do { (f', r) \<leftarrow> fsm_register_status f i en ex; Some ((f', s), r) }"
| "fsm_exec (OpEvent i h) (f, s) = do { (f', r) \<leftarrow> fsm_register_event f i h; Some ((f', s), r) }"
| "fsm_exec (OpRule ok e rc a b) (f, s) = do { (f', r) \<leftarrow> fsm_register_rule ok f e rc a b; Some ((f', s), r) }"
| "fsm_exec (OpStart i) (f, s) = do { (f', r) \<leftarrow> fsm_start f i; Some ((f', s), r) }"
| "fsm_exec (OpTrigger e) (f, s) = do { (f', s', r) \<leftarrow> fsm_trigger f e s; Some ((f', s'), r) }"

fun fsm_run :: "'s fsm_op list \<Rightarrow> 's fsm_t option \<times> 's \<Rightarrow> (('s fsm_t option \<times> 's) \<times> int list) option" where
  "fsm_run [] c = Some (c, [])"
| "fsm_run (a # as) c = do { (c1, r) \<leftarrow> fsm_exec a c; (c2, rs) \<leftarrow> fsm_run as c1; Some (c2, r # rs) }"

lemma tab_create:
  assumes c: "idtable_create b b k = Some (Some t)"
  shows "tab_ok t 0 (replicate (nat k) None)"
proof -
  have t: "tb_nodes t = replicate (nat k) \<lparr>nid = -1, nptr = NULL\<rparr>"
    using c by (auto simp: idtable_create_def IDTS_INVALID_ID_def bind_eq_Some_conv split: if_splits)
  note inv = idtable_create_inv [OF c]
  have "idtable_get (Some t) j = Some NULL" for j
  proof (cases "0 \<le> j")
    case True
    have "nid (tb_nodes t ! i) \<noteq> j" if "i \<in> set (slot_path t j)" for i
      using path_bound [OF idt_inv_wf [OF inv] that] True by (simp add: t)
    then have "find (\<lambda>i. nid (tb_nodes t ! i) = j) (slot_path t j) = None"
      unfolding find_None_iff by blast
    then show ?thesis unfolding idtable_get_find [OF inv True] by simp
  qed (simp add: idtable_get.simps)
  then show ?thesis
    using inv by (simp add: tab_ok_def idt_free_def t)
qed

lemma fsm_create_inv:
  assumes "fsm_create n ok oks oke True True = Some (Some f)"
  shows "fsm_inv f" "f_current f = FSM_WILDCARD_STATUS"
proof -
  obtain st et where n: "0 < n" "FSM_RULES_SIZE n * 3 < 2 ^ 31"
    and st: "idtable_create oks oks (FSM_STATUS_SIZE n) = Some (Some st)"
    and et: "idtable_create oke oke (FSM_EVENTS_SIZE n) = Some (Some et)"
    and f: "f = \<lparr>f_current = FSM_WILDCARD_STATUS, f_size = n,
          f_status_count = 0, f_status = replicate (nat (FSM_STATUS_SIZE n)) None, f_status_table = st,
          f_events_count = 0, f_events = replicate (nat (FSM_EVENTS_SIZE n)) None, f_events_table = et,
          f_rules_count = 0, f_rules = replicate (nat (FSM_RULES_SIZE n)) None,
          f_rules_table = hash_create (Some fsm_rule_hash) (Some fsm_rule_cmp) (FSM_RULES_SIZE n * 3) True True\<rparr>"
    using assms by (auto simp: fsm_create_def bind_eq_Some_conv split: if_splits)
  have k: "0 < FSM_EVENTS_SIZE n" using et by (auto simp: idtable_create_def bind_eq_Some_conv)
  have "0 < FSM_RULES_SIZE n" using k by (auto simp: FSM_EVENTS_SIZE_def FSM_RULES_SIZE_def)
  then show "fsm_inv f"
    using n tab_create [OF st] tab_create [OF et] k
    by (auto simp: fsm_inv_def f FSM_STATUS_SIZE_def hash_create_def hash_wf_def)
  show "f_current f = FSM_WILDCARD_STATUS" by (simp add: f)
qed

lemma fsm_exec_ok:
  assumes "fsm_inv f" "fsm_known f (f_current f) \<or> (\<forall>e. a \<noteq> OpTrigger e)"
  shows "\<exists>f' s' r. fsm_exec a (Some f, s) = Some ((Some f', s'), r) \<and> fsm_inv f' \<and>
    (fsm_known f (f_current f) \<longrightarrow> fsm_known f' (f_current f'))"
proof (cases a)
  case (OpStatus i en ex)
  obtain f' ret where "fsm_register_status (Some f) i en ex = Some (Some f', ret)" "fsm_inv f'"
    "f_current f' = f_current f" "\<And>s. fsm_known f' s \<longleftrightarrow> fsm_known f s \<or> (s = i \<and> ret = FSM_OK)"
    using register_status_ok [OF assms(1), of i en ex] by metis
  then show ?thesis using OpStatus by simp
next
  case (OpEvent i h)
  obtain f' ret where "fsm_register_event (Some f) i h = Some (Some f', ret)" "fsm_inv f'"
    "f_current f' = f_current f" "\<And>s. fsm_known f' s \<longleftrightarrow> fsm_known f s"
    using register_event_ok [OF assms(1), of i h] by metis
  then show ?thesis using OpEvent by simp
next
  case (OpRule ok e rc x y)
  obtain f' ret where "fsm_register_rule ok (Some f) e rc x y = Some (Some f', ret)" "fsm_inv f'"
    "f_current f' = f_current f" "f_status_table f' = f_status_table f"
    using register_rule_ok [OF assms(1), of ok e rc x y] by metis
  then show ?thesis using OpRule by (simp add: fsm_known_def fsm_has_status_def)
next
  case (OpStart i)
  have k: "fsm_known (f\<lparr>f_current := i\<rparr>) i \<longleftrightarrow> fsm_known f i" by (simp add: fsm_known_def fsm_has_status_def)
  show ?thesis
  proof (cases "fsm_known f i")
    case True
    then show ?thesis using OpStart fsm_start_ok(1,2) [OF assms(1), of i] k by simp
  next
    case False
    then show ?thesis using OpStart fsm_start_ok(1) [OF assms(1), of i] assms(1) by simp
  qed
next
  case (OpTrigger e)
  then have cur: "fsm_known f (f_current f)" using assms(2) by simp
  obtain c s' ret where st: "fsm_step f e s = (c, s', ret)" by (cases "fsm_step f e s")
  have kn: "fsm_known f c" using trigger_ok(2) [OF assms(1) cur, of e s] st by simp
  have k: "fsm_known (f\<lparr>f_current := c\<rparr>) c" using kn by (simp add: fsm_known_def fsm_has_status_def)
  show ?thesis
    using OpTrigger trigger_ok(1) [OF assms(1) cur, of e s] st fsm_start_ok(2) [OF assms(1) kn] k by simp
qed

lemma fsm_run_ok:
  assumes "fsm_inv f" "fsm_known f (f_current f) \<or> (\<forall>e. OpTrigger e \<notin> set as)"
  shows "\<exists>f' s' rs. fsm_run as (Some f, s) = Some ((Some f', s'), rs) \<and> fsm_inv f' \<and>
    (fsm_known f (f_current f) \<longrightarrow> fsm_known f' (f_current f'))"
  using assms
proof (induction as arbitrary: f s)
  case (Cons a as)
  have "fsm_known f (f_current f) \<or> (\<forall>e. a \<noteq> OpTrigger e)" using Cons.prems(2) by auto
  from fsm_exec_ok [OF Cons.prems(1) this, of s] obtain f1 s1 r where
    1: "fsm_exec a (Some f, s) = Some ((Some f1, s1), r)" "fsm_inv f1"
       "fsm_known f (f_current f) \<longrightarrow> fsm_known f1 (f_current f1)" by blast
  have "fsm_known f1 (f_current f1) \<or> (\<forall>e. OpTrigger e \<notin> set as)" using Cons.prems(2) 1(3) by auto
  from Cons.IH [OF 1(2) this, of s1] obtain f2 s2 rs where
    "fsm_run as (Some f1, s1) = Some ((Some f2, s2), rs)" "fsm_inv f2"
    "fsm_known f1 (f_current f1) \<longrightarrow> fsm_known f2 (f_current f2)" by blast
  then show ?case using 1 by auto
qed simp

section \<open>Properties\<close>

text \<open>C26: A machine built by any sequence of registrations and then started never runs into a failed
  assertion or a stray pointer, whatever registrations, starts and events follow: the run
  returns, and the current status stays a registered one.\<close>
theorem fsm_started_runs_safely:
  assumes "fsm_create n ok oks oke True True = Some (Some f0)"
    and "\<forall>e. OpTrigger e \<notin> set regs"
    and "fsm_run (regs @ [OpStart s0]) (Some f0, s) = Some ((Some f1, s1), rs)" "last rs = FSM_OK"
  shows "\<exists>f2 s2 rs2 p. fsm_run as (Some f1, s1) = Some ((Some f2, s2), rs2) \<and>
    f_current f2 \<noteq> FSM_WILDCARD_STATUS \<and>
    idtable_get (Some (f_status_table f2)) (f_current f2) = Some p \<and> p \<noteq> NULL"
proof -
  have run_append: "fsm_run (xs @ ys) c = do { (c1, r1) \<leftarrow> fsm_run xs c; (c2, r2) \<leftarrow> fsm_run ys c1; Some (c2, r1 @ r2) }"
    for xs ys and c :: "'a fsm_t option \<times> 'a"
    by (induction xs arbitrary: c) (auto split: bind_split prod.split)
  note f0 = fsm_create_inv [OF assms(1)]
  obtain g u r1 where 1: "fsm_run regs (Some f0, s) = Some ((Some g, u), r1)" "fsm_inv g"
    using fsm_run_ok [OF f0(1) disjI2 [OF assms(2)], of s] by blast
  have "fsm_start (Some g) s0 = Some (Some f1, FSM_OK)" "fsm_known g s0"
    using assms(3,4) 1(1) fsm_start_ok(1) [OF 1(2), of s0]
    by (auto simp: run_append bind_eq_Some_conv FSM_OK_def FSM_FAIL_def simp del: fsm_start.simps split: if_splits)
  then have "f1 = g\<lparr>f_current := s0\<rparr>" "fsm_known g s0"
    using fsm_start_ok(1) [OF 1(2), of s0] by (simp_all del: fsm_start.simps)
  then have f1: "fsm_inv f1" "fsm_known f1 (f_current f1)"
    using fsm_start_ok(2) [OF 1(2), of s0] by (auto simp: fsm_known_def fsm_has_status_def)
  obtain f2 s2 rs2 where 2: "fsm_run as (Some f1, s1) = Some ((Some f2, s2), rs2)" "fsm_inv f2"
     "fsm_known f2 (f_current f2)"
    using fsm_run_ok [OF f1(1) disjI1 [OF f1(2)], of as s1] f1(2) by blast
  obtain p st where p: "idtable_get (Some (f_status_table f2)) (f_current f2) = Some p"
     "fsm_deref (f_status f2) p = Some st" "0 \<le> f_current f2"
    using known_deref [OF 2(2,3)] by metis
  have "p \<noteq> NULL" using p(2) by (auto simp: fsm_deref_def bind_eq_Some_conv)
  with 2(1) p show ?thesis by (auto simp: FSM_WILDCARD_STATUS_def)
qed

definition fsm_demo :: "int \<Rightarrow> (nat fsm_t option \<times> nat) option" where
  \<comment> \<open>two statuses and one event; the only rule is for status 2 and result 0; started in status 1\<close>
  "fsm_demo i = do {
     f \<leftarrow> fsm_create 2 True True True True True;
     (c, rs) \<leftarrow> fsm_run [OpStatus 1 None (Some (\<lambda>s. s + 10)), OpStatus 2 (Some (\<lambda>s. s * 2)) None,
        OpEvent 1 (\<lambda>s. (s, int s)), OpRule True 1 0 2 2, OpStart i] (f, 1);
     c_assert (rs = [0, 0, 0, 0, 0]);
     Some c }"

lemma fsm_started_runs_safely_witness:
  "\<exists>f1 s1 f2 s2 rs2 p. fsm_demo 2 = Some (Some f1, s1) \<and>
    fsm_run [OpTrigger 1, OpTrigger 3, OpStart 7, OpTrigger 1] (Some f1, s1) = Some ((Some f2, s2), rs2) \<and>
    f_current f2 \<noteq> FSM_WILDCARD_STATUS \<and>
    idtable_get (Some (f_status_table f2)) (f_current f2) = Some p \<and> p \<noteq> NULL"
proof -
  let ?regs = "[OpStatus 1 None (Some (\<lambda>s. s + 10)), OpStatus 2 (Some (\<lambda>s. s * 2)) None,
        OpEvent 1 (\<lambda>s. (s, int s)), OpRule True 1 0 2 2] :: nat fsm_op list"
  have "case fsm_demo 2 of None \<Rightarrow> False | Some (f, s) \<Rightarrow> \<not> Option.is_none f"
    by code_simp
  then obtain f1 s1 where d: "fsm_demo 2 = Some (Some f1, s1)"
    by (auto split: option.splits simp: Option.is_none_def)
  then obtain f0 rs where f: "fsm_create 2 True True True True True = Some f0"
    "fsm_run (?regs @ [OpStart 2]) (f0, 1) = Some ((Some f1, s1), rs)" "rs = [0, 0, 0, 0, 0]"
    by (auto simp: fsm_demo_def bind_eq_Some_conv simp del: fsm_run.simps)
  then obtain f00 where "f0 = Some f00"
    by (cases f0) (auto simp: fsm_create_def bind_eq_Some_conv)
  with f have "fsm_create 2 True True True True True = Some (Some f00)"
    "fsm_run (?regs @ [OpStart 2]) (Some f00, 1) = Some ((Some f1, s1), rs)" "last rs = FSM_OK"
    by (auto simp: FSM_OK_def)
  from fsm_started_runs_safely [OF this(1) _ this(2,3), of "[OpTrigger 1, OpTrigger 3, OpStart 7, OpTrigger 1]"] d
  show ?thesis by auto
qed

text \<open>The comparison of rules yields 0 for every pair whose first is not the smaller one, so distinct
  rules of a bucket are taken for equal.  In a machine whose only rule is for status 2 and
  result 0, an event with result 1 in status 1 follows that rule into status 2, and the rule
  that was meant for status 1 and result 1 cannot be registered.\<close>
lemma fsm_rule_cmp_confuses_rules:
  "(\<forall>r1 r2. fsm_rule_cmp r1 r2 = 0 \<or> fsm_rule_cmp r2 r1 = 0) \<and>
   map_option (\<lambda>(f, s). (map_option f_current f, s)) (fsm_demo 1) = Some (Some 1, 1) \<and>
   (do { (f, s) \<leftarrow> fsm_demo 1; (f', s', ret) \<leftarrow> fsm_trigger f 1 s; Some (map_option f_current f', s', ret) })
     = Some (Some 2, 22, FSM_OK) \<and>
   (do { (f, s) \<leftarrow> fsm_demo 1; (f', ret) \<leftarrow> fsm_register_rule True f 1 1 1 1; Some ret }) = Some FSM_EXISTED"
proof (intro conjI)
  show "\<forall>r1 r2. fsm_rule_cmp r1 r2 = 0 \<or> fsm_rule_cmp r2 r1 = 0" by (auto simp: fsm_rule_cmp_def)
next
  show "map_option (\<lambda>(f, s). (map_option f_current f, s)) (fsm_demo 1) = Some (Some 1, 1)" by code_simp
next
  show "(do { (f, s) \<leftarrow> fsm_demo 1; (f', s', ret) \<leftarrow> fsm_trigger f 1 s; Some (map_option f_current f', s', ret) })
     = Some (Some 2, 22, FSM_OK)" by code_simp
next
  show "(do { (f, s) \<leftarrow> fsm_demo 1; (f', ret) \<leftarrow> fsm_register_rule True f 1 1 1 1; Some ret }) = Some FSM_EXISTED" by code_simp
qed

end
