(* ===== verification/Logic_Dirty.thy ===== *)
theory Logic_Dirty
  imports Prelude Base_Hash
begin

text \<open>
  \<^verbatim>\<open>logic/dirty.c\<close>: the check of GBK text for forbidden words, which are found through an index of the
  first characters and a hash table.  The file is an argument, as the bytes that it holds.  A word is
  the bytes that were written to its array; the table holds the entries that were filled.  The tables
  \<^verbatim>\<open>hash\<close> and \<^verbatim>\<open>index\<close> are functions, the index being that of bytes.
\<close>

section \<open>State and operations\<close>

definition MAX_DIRTY_WORDS_LEN :: nat where "MAX_DIRTY_WORDS_LEN = 32"
definition MAX_DIRTY_WORDS_COUNT :: nat where "MAX_DIRTY_WORDS_COUNT = 1024 * 16"
definition MAX_DIRTY_WORDS_HASH_COUNT :: nat where "MAX_DIRTY_WORDS_HASH_COUNT = 1024 * 16 * 3"
definition MAX_SOURCE_WORDS_LEN :: int where "MAX_SOURCE_WORDS_LEN = 1024 * 8"
definition DIRTY_REPLACE_CHAR :: u8 where "DIRTY_REPLACE_CHAR = 42"
definition GB_SPEC_CHAR :: u8 where "GB_SPEC_CHAR = 0x80"

record dirty_t =
  d_word :: "u8 list"
  d_prev :: int
  d_next :: int

record dirty_ctx_t =
  d_table :: "dirty_t list"
  d_hash :: "nat \<Rightarrow> int"
  d_index :: "u8 \<Rightarrow> u8 \<Rightarrow> u32"

definition SET_DIRTY_FLAG :: "u32 \<Rightarrow> nat \<Rightarrow> u32" where "SET_DIRTY_FLAG index len = index OR push_bit len 1"
definition RESET_DIRTY_FLAG :: "u32 \<Rightarrow> nat \<Rightarrow> u32" where "RESET_DIRTY_FLAG index len = index AND NOT (push_bit len 1)"
definition CHECK_DIRTY_FLAG :: "u32 \<Rightarrow> nat \<Rightarrow> u32" where "CHECK_DIRTY_FLAG index len = index AND push_bit len 1"

text \<open>The functions of the C library that the code uses.\<close>

fun strnlen :: "u8 list \<Rightarrow> nat \<Rightarrow> nat option" where
  "strnlen s 0 = Some 0"
| "strnlen [] (Suc n) = None"
| "strnlen (c # s) (Suc n) = (if c = 0 then Some 0 else map_option Suc (strnlen s n))"

fun strneq :: "u8 list \<Rightarrow> u8 list \<Rightarrow> nat \<Rightarrow> bool option" where
  \<comment> \<open>\<^verbatim>\<open>strncmp(s, t, n) == 0\<close>\<close>
  "strneq s t 0 = Some True"
| "strneq (c # s) (d # t) (Suc n) = (if c \<noteq> d then Some False else if c = 0 then Some True else strneq s t n)"
| "strneq _ _ (Suc n) = None"

fun fgets :: "nat \<Rightarrow> u8 list \<Rightarrow> u8 list \<times> u8 list" where
  \<comment> \<open>the line, of \<open>n\<close> bytes at most, and what is left of the file\<close>
  "fgets 0 f = ([], f)"
| "fgets (Suc n) [] = ([], [])"
| "fgets (Suc n) (c # f) = (if c = 10 then ([c], f) else (case fgets n f of (l, r) \<Rightarrow> (c # l, r)))"

fun lower_loop :: "nat list \<Rightarrow> u8 list \<Rightarrow> u8 list option" where
  "lower_loop [] w = Some w"
| "lower_loop (i # is) w = do {
     n \<leftarrow> strnlen w MAX_DIRTY_WORDS_LEN;
     if i < n then do { c \<leftarrow> rd w i; w \<leftarrow> wr w i (tolower c); lower_loop is w } else Some w }"

partial_function (option) trim_loop :: "u8 list \<Rightarrow> u8 list option" where
  "trim_loop w = do {
     len \<leftarrow> strnlen w MAX_DIRTY_WORDS_LEN;
     c \<leftarrow> rdi w (int len - 1);
     if c = 13 \<or> c = 10 then do { w \<leftarrow> wri w (int len - 1) 0; trim_loop w } else Some w }"

partial_function (option) table_loop :: "u8 list \<Rightarrow> dirty_t list \<Rightarrow> dirty_t list option" where
  "table_loop f tab =
     (if f = [] then Some tab
      else (case fgets (MAX_DIRTY_WORDS_LEN - 1) f of (l, f) \<Rightarrow> do {
        w \<leftarrow> lower_loop [0..<MAX_DIRTY_WORDS_LEN] (l @ [0]);
        w \<leftarrow> trim_loop w;
        let tab = tab @ [\<lparr>d_word = w, d_prev = -1, d_next = -1\<rparr>];
        if length tab \<ge> MAX_DIRTY_WORDS_COUNT then Some tab else table_loop f tab }))"

definition dirty_init_table :: "bool \<Rightarrow> u8 list option \<Rightarrow> dirty_ctx_t option option" where
  \<comment> \<open>\<open>cfg\<close>: the bytes of the file, \<open>None\<close> if there is no name or it cannot be opened\<close>
  "dirty_init_table ok cfg = (case cfg of
     None \<Rightarrow> Some None
   | Some f \<Rightarrow> if \<not> ok then Some None
      else do { tab \<leftarrow> table_loop f []; Some (Some \<lparr>d_table = tab, d_hash = (\<lambda>_. 0), d_index = (\<lambda>_ _. 0)\<rparr>) })"

definition hash_bucket :: "u8 list \<Rightarrow> nat \<Rightarrow> nat option" where
  \<comment> \<open>\<^verbatim>\<open>hash_jhash(s, len) % MAX_DIRTY_WORDS_HASH_COUNT\<close>, where the macro has no parentheses\<close>
  "hash_bucket s len = do { hkey \<leftarrow> hash_jhash s (of_nat len); Some (unat hkey mod 1024 * 16 * 3) }"

partial_function (option) chain_end :: "dirty_t list \<Rightarrow> int \<Rightarrow> int option" where
  "chain_end tab windex = do {
     d \<leftarrow> rdi tab windex;
     if d_next d \<ge> 0 then chain_end tab (d_next d) else Some windex }"

definition hash_place :: "nat \<Rightarrow> dirty_ctx_t \<Rightarrow> dirty_ctx_t option" where
  \<comment> \<open>the entry \<open>i\<close>\<close>
  "hash_place i ctx = do {
     d \<leftarrow> rd (d_table ctx) i;
     len \<leftarrow> strnlen (d_word d) MAX_DIRTY_WORDS_LEN;
     hindex \<leftarrow> hash_bucket (d_word d) len;
     c_assert (hindex < MAX_DIRTY_WORDS_HASH_COUNT);
     if d_hash ctx hindex < 0 then Some (ctx\<lparr>d_hash := (d_hash ctx)(hindex := int i)\<rparr>)
     else do {
       windex \<leftarrow> chain_end (d_table ctx) (d_hash ctx hindex);
       e \<leftarrow> rdi (d_table ctx) windex;
       tab \<leftarrow> wri (d_table ctx) windex (e\<lparr>d_next := int i\<rparr>);
       d \<leftarrow> rd tab i;
       tab \<leftarrow> wr tab i (d\<lparr>d_prev := windex\<rparr>);
       Some (ctx\<lparr>d_table := tab\<rparr>) } }"

definition dirty_init_hash :: "dirty_ctx_t \<Rightarrow> dirty_ctx_t option" where
  "dirty_init_hash ctx = foldM hash_place [0..<length (d_table ctx)] (ctx\<lparr>d_hash := (\<lambda>_. -1)\<rparr>)"

fun index_loop :: "dirty_t list \<Rightarrow> (u8 \<Rightarrow> u8 \<Rightarrow> u32) \<Rightarrow> ((u8 \<Rightarrow> u8 \<Rightarrow> u32) \<times> int) option" where
  "index_loop [] index = Some (index, 0)"
| "index_loop (d # tab) index = do {
     len \<leftarrow> strnlen (d_word d) MAX_DIRTY_WORDS_LEN;
     c \<leftarrow> rd (d_word d) 0;
     if c < GB_SPEC_CHAR then index_loop tab (index(0 := (index 0)(c := SET_DIRTY_FLAG (index 0 c) len)))
     else if len \<ge> 2 then do {
       e \<leftarrow> rd (d_word d) 1;
       index_loop tab (index(c := (index c)(e := SET_DIRTY_FLAG (index c e) len))) }
     else Some (index, -1) }"

definition dirty_init_index :: "dirty_ctx_t \<Rightarrow> (dirty_ctx_t \<times> int) option" where
  "dirty_init_index ctx = do { (index, r) \<leftarrow> index_loop (d_table ctx) (\<lambda>_ _. 0); Some (ctx\<lparr>d_index := index\<rparr>, r) }"

definition dirty_create :: "bool \<Rightarrow> u8 list option \<Rightarrow> dirty_ctx_t option option" where
  "dirty_create ok cfg = do {
     ctx \<leftarrow> dirty_init_table ok cfg;
     (case ctx of
        None \<Rightarrow> Some None
      | Some ctx \<Rightarrow> do {
          ctx \<leftarrow> dirty_init_hash ctx;
          (ctx, ret) \<leftarrow> dirty_init_index ctx;
          c_assert (ret = 0);
          Some (Some ctx) }) }"

definition dirty_reload :: "bool \<Rightarrow> dirty_ctx_t option \<Rightarrow> u8 list option \<Rightarrow> (dirty_ctx_t option \<times> int) option" where
  "dirty_reload ok ctx cfg = do {
     r \<leftarrow> dirty_create ok cfg;
     (case r of None \<Rightarrow> Some (ctx, -1) | Some new \<Rightarrow> Some (Some new, 0)) }"

partial_function (option) find_loop :: "dirty_t list \<Rightarrow> u8 list \<Rightarrow> nat \<Rightarrow> int \<Rightarrow> int option" where
  "find_loop tab src len windex =
     (if windex < 0 then Some (-1)
      else do {
        d \<leftarrow> rdi tab windex;
        e \<leftarrow> strneq (d_word d) src len;
        if e then Some 0 else find_loop tab src len (d_next d) })"

definition dirty_hash_find :: "dirty_ctx_t \<Rightarrow> u8 list \<Rightarrow> nat \<Rightarrow> int option" where
  \<comment> \<open>for a context and a source; the test \<^verbatim>\<open>ctx->index[hindex] < 0\<close> compares an address and never holds\<close>
  "dirty_hash_find ctx src len =
     (if len = 0 then Some (-1)
      else do {
        hindex \<leftarrow> hash_bucket src len;
        c_assert (hindex < MAX_DIRTY_WORDS_HASH_COUNT);
        find_loop (d_table ctx) src len (d_hash ctx hindex) })"

definition lowcase_loop :: "u8 list \<Rightarrow> int \<Rightarrow> u8 list \<Rightarrow> u8 list option" where
  \<comment> \<open>to the static array \<open>low\<close>\<close>
  "lowcase_loop src len low = foldM (\<lambda>i low. do { c \<leftarrow> rd src i; wr low i (tolower c) }) [0..<nat len] low"

fun word_loop :: "dirty_ctx_t \<Rightarrow> u8 list \<Rightarrow> nat \<Rightarrow> nat list \<Rightarrow> u32 \<Rightarrow> nat option option" where
  \<comment> \<open>the first length \<open>k\<close> at which a word is found; \<open>src\<close>, of \<open>n\<close> bytes, starts at the word\<close>
  "word_loop ctx src n [] key = Some None"
| "word_loop ctx src n (k # ks) key =
     (if k > n then Some None
      else if CHECK_DIRTY_FLAG key k = 0 then word_loop ctx src n ks key
      else do {
        r \<leftarrow> dirty_hash_find ctx src k;
        if r = 0 then Some (Some k)
        else let key = RESET_DIRTY_FLAG key k in if key = 0 then Some None else word_loop ctx src n ks key })"

definition first_char :: "dirty_ctx_t \<Rightarrow> u8 list \<Rightarrow> nat \<Rightarrow> nat \<Rightarrow> (u32 \<times> nat) option option" where
  \<comment> \<open>the index and the length of the character at \<open>i\<close>; \<open>Some None\<close>: half a character\<close>
  "first_char ctx low i len = do {
     c \<leftarrow> rd low i;
     if c < GB_SPEC_CHAR then Some (Some (d_index ctx 0 c, 1))
     else if i + 1 < len then do { e \<leftarrow> rd low (i + 1); Some (Some (d_index ctx c e, 2)) }
     else Some None }"

partial_function (option) check_loop :: "dirty_ctx_t \<Rightarrow> u8 list \<Rightarrow> nat \<Rightarrow> nat \<Rightarrow> nat \<Rightarrow> int option" where
  \<comment> \<open>\<open>step\<close> is the variable of the \<^verbatim>\<open>for\<close>; the body declares and sets another one of this name\<close>
  "check_loop ctx low len step i =
     (if \<not> i < len then Some 0
      else do {
        r \<leftarrow> first_char ctx low i len;
        (case r of
           None \<Rightarrow> Some (-2)
         | Some (key, inner_step) \<Rightarrow>
             if key = 0 then check_loop ctx low len step (i + step)
             else do {
               k \<leftarrow> word_loop ctx (drop i low) (len - i) [1..<MAX_DIRTY_WORDS_LEN] key;
               (case k of Some _ \<Rightarrow> Some (-1) | None \<Rightarrow> check_loop ctx low len step (i + step)) }) })"

definition dirty_check :: "dirty_ctx_t option \<Rightarrow> u8 list option \<Rightarrow> int \<Rightarrow> u8 list \<Rightarrow> int option" where
  \<comment> \<open>\<open>low\<close>: what the static array holds before\<close>
  "dirty_check ctx src len low = (case (ctx, src) of
     (Some ctx, Some src) \<Rightarrow>
       if len > MAX_SOURCE_WORDS_LEN then Some (-3)
       else do { low \<leftarrow> lowcase_loop src len low; check_loop ctx low (nat len) 0 0 }
   | _ \<Rightarrow> Some (-3))"

partial_function (option) replace_loop :: "dirty_ctx_t \<Rightarrow> u8 list \<Rightarrow> nat \<Rightarrow> nat \<Rightarrow> u8 list \<Rightarrow> (u8 list \<times> int) option" where
  "replace_loop ctx low len i src =
     (if \<not> i < len then Some (src, 0)
      else do {
        r \<leftarrow> first_char ctx low i len;
        (case r of
           None \<Rightarrow> Some (src, -1)
         | Some (key, step) \<Rightarrow>
             if key = 0 then replace_loop ctx low len (i + step) src
             else do {
               k \<leftarrow> word_loop ctx (drop i low) (len - i) [1..<MAX_DIRTY_WORDS_LEN] key;
               (case k of
                  Some k \<Rightarrow> do {
                    src \<leftarrow> foldM (\<lambda>j src. wr src (i + j) DIRTY_REPLACE_CHAR) [0..<k] src;
                    replace_loop ctx low len (i + k) src }
                | None \<Rightarrow> replace_loop ctx low len (i + step) src) }) })"

definition dirty_replace :: "dirty_ctx_t option \<Rightarrow> u8 list option \<Rightarrow> int \<Rightarrow> u8 list \<Rightarrow> (u8 list option \<times> int) option" where
  "dirty_replace ctx src len low = (case (ctx, src) of
     (Some ctx, Some s) \<Rightarrow>
       if len > MAX_SOURCE_WORDS_LEN then Some (src, -1)
       else do {
         low \<leftarrow> lowcase_loop s len low;
         (s, r) \<leftarrow> replace_loop ctx low (nat len) 0 s;
         Some (Some s, r) }
   | _ \<Rightarrow> Some (src, -1))"

definition dirty_release :: "dirty_ctx_t option \<Rightarrow> dirty_ctx_t option \<times> int" where
  \<comment> \<open>with what is left allocated\<close>
  "dirty_release ctx = (None, 0)"

section \<open>What the tables hold\<close>

definition word_ok :: "u8 list \<Rightarrow> bool" where
  \<comment> \<open>a word that the table can hold: a whole character at least\<close>
  "word_ok w \<longleftrightarrow> w \<noteq> [] \<and> length w < MAX_DIRTY_WORDS_LEN \<and> 0 \<notin> set w \<and> (hd w < GB_SPEC_CHAR \<or> 2 \<le> length w)"

definition bucket :: "u8 list \<Rightarrow> nat" where
  "bucket w = the (hash_bucket w (length w))"

fun chain :: "dirty_t list \<Rightarrow> int \<Rightarrow> nat list \<Rightarrow> bool" where
  "chain tab h [] \<longleftrightarrow> h < 0"
| "chain tab h (i # is) \<longleftrightarrow> h = int i \<and> i < length tab \<and> chain tab (d_next (tab ! i)) is"

definition same_head :: "u8 list \<Rightarrow> u8 list \<Rightarrow> bool" where
  \<comment> \<open>the same first character\<close>
  "same_head w s \<longleftrightarrow> hd w = hd s \<and> (hd s < GB_SPEC_CHAR \<or> w ! 1 = s ! 1)"

definition flagged :: "u8 list list \<Rightarrow> u8 list \<Rightarrow> nat \<Rightarrow> bool" where
  "flagged W s k \<longleftrightarrow> (\<exists>w \<in> set W. length w = k \<and> same_head w s)"

definition listed :: "u8 list list \<Rightarrow> u8 list \<Rightarrow> bool" where
  \<comment> \<open>a word or, in the same bucket, the beginning of one\<close>
  "listed W s \<longleftrightarrow> (\<exists>w \<in> set W. bucket w = bucket s \<and> take (length s) w = s)"

definition hash_rep :: "dirty_ctx_t \<Rightarrow> u8 list list \<Rightarrow> nat \<Rightarrow> bool" where
  \<comment> \<open>the chains hold the first \<open>n\<close> words\<close>
  "hash_rep ctx W n \<longleftrightarrow> length (d_table ctx) = length W \<and> (\<forall>i < length W. word_ok (W ! i) \<and> (\<exists>r. d_word (d_table ctx ! i) = W ! i @ 0 # r))
     \<and> (\<forall>b. chain (d_table ctx) (d_hash ctx b) (filter (\<lambda>j. bucket (W ! j) = b) [0..<n])) \<and> (\<forall>i \<in> {n..<length W}. d_next (d_table ctx ! i) = -1)"

definition flag_rep :: "(u8 \<Rightarrow> u8 \<Rightarrow> u32) \<Rightarrow> u8 list list \<Rightarrow> bool" where
  "flag_rep index W \<longleftrightarrow> (\<forall>c e k. k < MAX_DIRTY_WORDS_LEN \<longrightarrow>
     (c < GB_SPEC_CHAR \<longrightarrow> (bit (index 0 c) k \<longleftrightarrow> flagged W [c] k)) \<and> (\<not> c < GB_SPEC_CHAR \<longrightarrow> (bit (index c e) k \<longleftrightarrow> flagged W [c, e] k)))"

definition dirty_rep :: "dirty_ctx_t \<Rightarrow> u8 list list \<Rightarrow> bool" where
  "dirty_rep ctx W \<longleftrightarrow> hash_rep ctx W (length W) \<and> flag_rep (d_index ctx) W"

section \<open>The hash table\<close>

lemma hash_bucket_ok:
  assumes "k \<le> length s" "length s < 2 ^ 31"
  shows "hash_bucket s k = Some (bucket (take k s)) \<and> bucket (take k s) < MAX_DIRTY_WORDS_HASH_COUNT"
proof -
  have k: "unat (of_nat k :: u32) = k" using assms by (simp add: unat_of_nat)
  obtain h where h: "hash_jhash s (of_nat k) = Some h" "hash_jhash (take k s) (of_nat k) = Some h"
    using hash_jhash_safe [of "of_nat k" s] assms(1) k by auto
  have "bucket (take k s) = unat h mod 1024 * 16 * 3" using h(2) assms(1) by (simp add: bucket_def hash_bucket_def min_absorb2)
  moreover have "unat h mod 1024 < 1024" by simp
  ultimately show ?thesis using h(1) by (simp add: hash_bucket_def MAX_DIRTY_WORDS_HASH_COUNT_def)
qed

lemma strneq_ok:
  assumes "0 \<notin> set w" "0 \<notin> set (take k s)" "k \<le> length s"
  shows "strneq (w @ 0 # r) s k = Some (take k w = take k s)"
  using assms
proof (induction k arbitrary: w s)
  case (Suc k)
  obtain d s' where s: "s = d # s'" using Suc.prems(3) by (cases s) auto
  show ?case using Suc s by (cases w) auto
qed simp

lemma find_loop_ok:
  assumes "chain tab h is" "0 \<notin> set (take k s)" "k \<le> length s"
    and "\<And>i. i \<in> set is \<Longrightarrow> 0 \<notin> set (W ! i) \<and> (\<exists>r. d_word (tab ! i) = W ! i @ 0 # r)"
  shows "find_loop tab s k h = Some (if \<exists>i \<in> set is. take k (W ! i) = take k s then 0 else -1)"
  using assms(1,4)
proof (induction "is" arbitrary: h)
  case (Cons i "is")
  obtain r where r: "0 \<notin> set (W ! i)" "d_word (tab ! i) = W ! i @ 0 # r" using Cons.prems(2) [of i] by auto
  have "find_loop tab s k (d_next (tab ! i)) = Some (if \<exists>i \<in> set is. take k (W ! i) = take k s then 0 else -1)"
    using Cons.prems by (intro Cons.IH) auto
  then show ?case using Cons.prems(1) r strneq_ok [OF r(1) assms(2,3)] by (subst find_loop.simps) simp
qed (simp add: find_loop.simps)

lemma hash_find_ok:
  assumes R: "hash_rep ctx W (length W)" and k: "0 < k" "k \<le> length s" "0 \<notin> set (take k s)" "length s < 2 ^ 31"
  shows "dirty_hash_find ctx s k = Some (if listed W (take k s) then 0 else -1)"
proof -
  let ?b = "bucket (take k s)" and ?is = "filter (\<lambda>j. bucket (W ! j) = bucket (take k s)) [0..<length W]"
  have "find_loop (d_table ctx) s k (d_hash ctx ?b) = Some (if \<exists>i \<in> set ?is. take k (W ! i) = take k s then 0 else -1)"
  proof (rule find_loop_ok)
    show "chain (d_table ctx) (d_hash ctx ?b) ?is" using R by (simp add: hash_rep_def)
    show "0 \<notin> set (W ! i) \<and> (\<exists>r. d_word (d_table ctx ! i) = W ! i @ 0 # r)" if "i \<in> set ?is" for i
      using R that by (simp add: hash_rep_def word_ok_def)
  qed (use k in auto)
  moreover have "(\<exists>i \<in> set ?is. take k (W ! i) = take k s) \<longleftrightarrow> listed W (take k s)"
    using k(2) by (auto simp: listed_def min_absorb2 in_set_conv_nth intro: nth_mem)
  ultimately show ?thesis using hash_bucket_ok [OF k(2,4)] k(1) by (simp add: dirty_hash_find_def)
qed

section \<open>The search for a word\<close>

lemma check_flag: "k < 32 \<Longrightarrow> CHECK_DIRTY_FLAG key k = 0 \<longleftrightarrow> \<not> bit key k"
  using bit_eq_iff [of "key AND push_bit k 1" 0] by (auto simp: CHECK_DIRTY_FLAG_def bit_simps)

lemma reset_flag: "k < 32 \<Longrightarrow> bit (RESET_DIRTY_FLAG key k) j \<longleftrightarrow> bit key j \<and> j \<noteq> k"
  by (auto simp: RESET_DIRTY_FLAG_def bit_simps dest: bit_imp_le_length)

lemma set_flag: "k < 32 \<Longrightarrow> bit (SET_DIRTY_FLAG key k) j \<longleftrightarrow> bit key j \<or> j = k"
  by (auto simp: SET_DIRTY_FLAG_def bit_simps)

definition hit :: "u8 list list \<Rightarrow> u8 list \<Rightarrow> nat option" where
  \<comment> \<open>the shortest entry at the beginning of the text \<open>s\<close>\<close>
  "hit W s = find (\<lambda>k. k \<le> length s \<and> flagged W s k \<and> listed W (take k s)) [1..<MAX_DIRTY_WORDS_LEN]"

lemma word_loop_ok:
  assumes R: "hash_rep ctx W (length W)" and s: "0 \<notin> set (take n s)" "n \<le> length s" "length s < 2 ^ 31" and j: "0 < j"
    and "\<forall>k \<in> {j..<MAX_DIRTY_WORDS_LEN}. bit key k \<longleftrightarrow> flagged W (take n s) k"
  shows "word_loop ctx s n [j..<MAX_DIRTY_WORDS_LEN] key
    = Some (find (\<lambda>k. k \<le> n \<and> flagged W (take n s) k \<and> listed W (take k s)) [j..<MAX_DIRTY_WORDS_LEN])"
  using j assms(6)
proof (induction "MAX_DIRTY_WORDS_LEN - j" arbitrary: j key)
  case (Suc d)
  let ?P = "\<lambda>k. k \<le> n \<and> flagged W (take n s) k \<and> listed W (take k s)"
  have j: "j < MAX_DIRTY_WORDS_LEN" "j < 32" using Suc.hyps(2) by (simp_all add: MAX_DIRTY_WORDS_LEN_def)
  have l: "[j..<MAX_DIRTY_WORDS_LEN] = j # [Suc j..<MAX_DIRTY_WORDS_LEN]" using j by (simp add: upt_conv_Cons)
  have IH: "word_loop ctx s n [Suc j..<MAX_DIRTY_WORDS_LEN] key' = Some (find ?P [Suc j..<MAX_DIRTY_WORDS_LEN])"
    if "\<forall>k \<in> {Suc j..<MAX_DIRTY_WORDS_LEN}. bit key' k \<longleftrightarrow> flagged W (take n s) k" for key'
    using Suc.hyps(2) that by (intro Suc.hyps(1)) auto
  have b: "bit key j \<longleftrightarrow> flagged W (take n s) j" using Suc.prems(2) j(1) by simp
  show ?case
  proof (cases "j \<le> n")
    case False
    then have "find ?P [j..<MAX_DIRTY_WORDS_LEN] = None" by (auto simp: find_None_iff)
    then show ?thesis unfolding l using False by simp
  next
    case True
    have f: "dirty_hash_find ctx s j = Some (if listed W (take j s) then 0 else -1)"
    proof (rule hash_find_ok [OF R])
      have "set (take j s) \<subseteq> set (take n s)" using True by (rule set_take_subset_set_take)
      then show "0 \<notin> set (take j s)" using s(1) by blast
    qed (use True Suc.prems(1) s in auto)
    let ?key = "RESET_DIRTY_FLAG key j"
    have K: "\<forall>k \<in> {Suc j..<MAX_DIRTY_WORDS_LEN}. bit ?key k \<longleftrightarrow> flagged W (take n s) k"
      using Suc.prems(2) by (auto simp: reset_flag [OF j(2)])
    have none: "find ?P [Suc j..<MAX_DIRTY_WORDS_LEN] = None" if "?key = 0"
      using K unfolding that by (auto simp: find_None_iff)
    have K': "\<forall>k \<in> {Suc j..<MAX_DIRTY_WORDS_LEN}. bit key k \<longleftrightarrow> flagged W (take n s) k" using Suc.prems(2) by simp
    show ?thesis
      unfolding l using True b f IH [OF K] IH [OF K'] none check_flag [OF j(2), of key]
      by (cases "listed W (take j s)") (simp_all add: Let_def)
  qed
qed simp

lemma flagged_head:
  assumes "s \<noteq> []" "hd s < GB_SPEC_CHAR"
  shows "flagged W s k = flagged W [hd s] k"
  using assms by (simp add: flagged_def same_head_def)

lemma flagged_pair:
  assumes "2 \<le> length s" "\<not> hd s < GB_SPEC_CHAR"
  shows "flagged W s k = flagged W [hd s, s ! 1] k"
  using assms by (simp add: flagged_def same_head_def)

definition char_len :: "u8 \<Rightarrow> nat" where
  "char_len c = (if c < GB_SPEC_CHAR then 1 else 2)"

lemma first_char_ok:
  assumes R: "flag_rep (d_index ctx) W" and i: "i < len" "len \<le> length low"
  shows "case first_char ctx low i len of None \<Rightarrow> False
    | Some None \<Rightarrow> len - i < char_len (low ! i)
    | Some (Some (key, step)) \<Rightarrow> step = char_len (low ! i) \<and> step \<le> len - i
        \<and> (\<forall>k < MAX_DIRTY_WORDS_LEN. bit key k \<longleftrightarrow> flagged W (take (len - i) (drop i low)) k)"
proof -
  let ?s = "take (len - i) (drop i low)"
  have h: "?s \<noteq> []" "hd ?s = low ! i" "length ?s = len - i" using i by (auto simp: hd_drop_conv_nth)
  show ?thesis
  proof (cases "low ! i < GB_SPEC_CHAR")
    case True
    then have "flagged W ?s k = flagged W [low ! i] k" for k using flagged_head [OF h(1)] h(2) by simp
    then show ?thesis using True R i by (simp add: first_char_def char_len_def flag_rep_def)
  next
    case False
    show ?thesis
    proof (cases "i + 1 < len")
      case True
      have "?s ! 1 = low ! (i + 1)" using True i by simp
      then have "flagged W ?s k = flagged W [low ! i, low ! (i + 1)] k" for k
        using flagged_pair [of ?s W k] h False True i by simp
      then show ?thesis using False True R i by (simp add: first_char_def char_len_def flag_rep_def)
    next
      case short: False
      then show ?thesis using False i by (simp add: first_char_def char_len_def)
    qed
  qed
qed

section \<open>The text\<close>

lemma tolower_nonzero: "tolower c = 0 \<longleftrightarrow> c = 0"
proof (cases "65 \<le> c \<and> c \<le> 90")
  case True
  then have "unat (c + 32) = unat c + 32" "unat c \<ge> 65" by (simp_all add: unat_plus_if_size word_le_nat_alt word_size)
  then show ?thesis using True by (auto simp: tolower_def)
qed (auto simp: tolower_def)

lemma lower_nonzero: "0 \<in> set (map tolower l) \<longleftrightarrow> 0 \<in> set l"
  by (induction l) (simp_all add: tolower_nonzero eq_commute [of 0])

lemma lowcase_ok:
  assumes "nat len \<le> length src" "nat len \<le> length low"
  shows "lowcase_loop src len low = Some (map tolower (take (nat len) src) @ drop (nat len) low)"
proof -
  have "foldM (\<lambda>i low. do { c \<leftarrow> rd src i; wr low i (tolower c) }) [0..<n] low = Some (map tolower (take n src) @ drop n low)"
    if "n \<le> nat len" for n
    using that
  proof (induction n)
    case (Suc n)
    then have n: "n < length src" "n < length low" using assms by simp_all
    then have "(map tolower (take n src) @ drop n low)[n := tolower (src ! n)] = map tolower (take (Suc n) src) @ drop (Suc n) low"
      by (simp add: list_update_append take_Suc_conv_app_nth Cons_nth_drop_Suc [symmetric])
    then show ?case using Suc n by (simp add: foldM_append)
  qed simp
  then show ?thesis by (simp add: lowcase_loop_def)
qed

function scrub :: "u8 list list \<Rightarrow> u8 list \<Rightarrow> u8 list \<times> int" where
  \<comment> \<open>the text with the entries masked, from left to right; -1 if it ends within a character\<close>
  "scrub W [] = ([], 0)"
| "scrub W (c # t) = (let s = map tolower (c # t); step = char_len (hd s) in
     if length s < step then (c # t, -1)
     else (case hit W s of
         Some k \<Rightarrow> (case scrub W (drop (Suc (k - 1)) (c # t)) of (o', r) \<Rightarrow> (replicate k DIRTY_REPLACE_CHAR @ o', r))
       | None \<Rightarrow> (case scrub W (drop (Suc (step - 1)) (c # t)) of (o', r) \<Rightarrow> (take step (c # t) @ o', r))))"
  by pat_completeness auto
termination
  by (relation "measure (\<lambda>(W, t). length t)") auto

lemma hit_bounds:
  assumes "hit W s = Some k"
  shows "0 < k \<and> k < MAX_DIRTY_WORDS_LEN \<and> k \<le> length s \<and> flagged W s k \<and> listed W (take k s)"
proof -
  have "k \<in> set [1..<MAX_DIRTY_WORDS_LEN]" "k \<le> length s \<and> flagged W s k \<and> listed W (take k s)"
    using assms unfolding hit_def by (auto dest: find_bound)
  then show ?thesis by simp
qed

lemma scrub_step:
  assumes "s \<noteq> []" "t = map tolower s"
  shows "scrub W s = (if length s < char_len (hd t) then (s, -1)
     else (case hit W t of
         Some k \<Rightarrow> (case scrub W (drop k s) of (o', r) \<Rightarrow> (replicate k DIRTY_REPLACE_CHAR @ o', r))
       | None \<Rightarrow> (case scrub W (drop (char_len (hd t)) s) of (o', r) \<Rightarrow> (take (char_len (hd t)) s @ o', r))))"
proof -
  obtain c u where s: "s = c # u" using assms(1) by (cases s) auto
  have "Suc (char_len x - 1) = char_len x" for x by (simp add: char_len_def)
  moreover have "Suc (k - 1) = k" if "hit W t = Some k" for k using hit_bounds [OF that] by simp
  ultimately show ?thesis unfolding assms(2) s scrub.simps Let_def by (auto split: option.splits)
qed

declare scrub.simps(2) [simp del]

lemma mask_ok:
  assumes "i + k \<le> length src"
  shows "foldM (\<lambda>j src. wr src (i + j) c) [0..<k] src = Some (take i src @ replicate k c @ drop (i + k) src)"
  using assms
proof (induction k)
  case (Suc k)
  then have "(take i src @ replicate k c @ drop (i + k) src)[i + k := c] = take i src @ replicate (Suc k) c @ drop (i + Suc k) src"
    by (simp add: list_update_append replicate_append_same Cons_nth_drop_Suc [symmetric])
  then show ?case using Suc by (simp add: foldM_append)
qed simp

lemma replace_loop_ok:
  assumes R: "dirty_rep ctx W" and l: "length src = length s0" "len \<le> length s0" "len \<le> 2 ^ 13" "length low = 2 ^ 13"
    and low: "take len low = map tolower (take len s0)" "0 \<notin> set (take len s0)" and i: "i \<le> len" "drop i src = drop i s0"
  shows "replace_loop ctx low len i src = (case scrub W (drop i (take len s0)) of (out, r) \<Rightarrow> Some (take i src @ out @ drop len s0, r))"
  using l(1) i
proof (induction "len - i" arbitrary: i src rule: less_induct)
  case less
  let ?s = "drop i (take len s0)" and ?t = "take (len - i) (drop i low)"
  have H: "hash_rep ctx W (length W)" "flag_rep (d_index ctx) W" using R by (simp_all add: dirty_rep_def)
  show ?case
  proof (cases "i < len")
    case False
    then show ?thesis using less.prems append_take_drop_id [of len src] by (subst replace_loop.simps) simp
  next
    case True
    have t: "?t = map tolower ?s" using low(1) by (simp add: drop_take [symmetric] drop_map)
    have hd: "?s \<noteq> []" "hd ?t = low ! i" using True l by (auto simp: hd_drop_conv_nth)
    have n: "length ?s = len - i" "length ?t = len - i" using l by simp_all
    have nz: "0 \<notin> set ?t" unfolding t using low(2) tolower_nonzero by (auto dest: in_set_dropD)
    have fc: "case first_char ctx low i len of None \<Rightarrow> False
      | Some None \<Rightarrow> len - i < char_len (low ! i)
      | Some (Some (key, step)) \<Rightarrow> step = char_len (low ! i) \<and> step \<le> len - i \<and> (\<forall>k < MAX_DIRTY_WORDS_LEN. bit key k \<longleftrightarrow> flagged W ?t k)"
      using first_char_ok [OF H(2) True] l by simp
    note step = scrub_step [OF hd(1) t, of W, unfolded hd(2) n(1)]
    have go: "replace_loop ctx low len (i + m) src' = (case scrub W (drop m ?s) of (out, r) \<Rightarrow> Some (take (i + m) src' @ out @ drop len s0, r))"
      if "0 < m" "m \<le> len - i" "length src' = length s0" "drop (i + m) src' = drop (i + m) s0" for m src'
      using less.hyps [of "i + m" src'] that True by (simp add: add.commute)
    obtain f where f: "first_char ctx low i len = Some f" using fc by (auto split: option.splits)
    show ?thesis
    proof (cases f)
      case None
      have "src = take i src @ ?s @ drop len s0" using less.prems True l
        by (metis append_take_drop_id drop_drop drop_take le_add_diff_inverse2 less_imp_le_nat)
      then show ?thesis using None f fc True unfolding step by (subst replace_loop.simps) simp
    next
      case (Some p)
      obtain key st where p: "p = (key, st)" by (cases p)
      have st: "st = char_len (low ! i)" "st \<le> len - i" "0 < st" and key: "\<forall>k < MAX_DIRTY_WORDS_LEN. bit key k \<longleftrightarrow> flagged W ?t k"
        using fc f Some p by (auto simp: char_len_def)
      have w: "word_loop ctx (drop i low) (len - i) [1..<MAX_DIRTY_WORDS_LEN] key = Some (hit W ?t)"
      proof -
        have "find (\<lambda>k. k \<le> len - i \<and> flagged W ?t k \<and> listed W (take k (drop i low))) [1..<MAX_DIRTY_WORDS_LEN] = hit W ?t"
          unfolding hit_def n by (rule find_cong_on) (auto simp: min_absorb1)
        then show ?thesis using word_loop_ok [OF H(1), of "len - i" "drop i low" 1 key] nz key l by simp
      qed
      have tk: "take (i + st) src @ out = take i src @ take st ?s @ out" for out
        using less.prems st True l by (simp add: take_add drop_take)
      have miss: "replace_loop ctx low len (i + st) src = (case scrub W (drop st ?s) of (out, r) \<Rightarrow> Some (take i src @ (take st ?s @ out) @ drop len s0, r))"
      proof -
        have "drop (i + st) src = drop (i + st) s0" using less.prems(3) by (metis add.commute drop_drop)
        then have "replace_loop ctx low len (i + st) src = (case scrub W (drop st ?s) of (out, r) \<Rightarrow> Some (take (i + st) src @ out @ drop len s0, r))"
          using go [of st src] st less.prems(1) by simp
        then show ?thesis by (simp add: tk split: prod.splits)
      qed
      show ?thesis
      proof (cases "hit W ?t")
        case None
        have "key = 0 \<or> key \<noteq> 0" by simp
        then show ?thesis using f Some p w None miss True st unfolding step
          by (subst replace_loop.simps) (auto simp: not_less split: prod.splits)
      next
        case (Some k)
        note b = hit_bounds [OF Some]
        have kn: "key \<noteq> 0" using key b by auto
        have k: "k \<le> len - i" "0 < k" using b n by auto
        let ?src = "take i src @ replicate k DIRTY_REPLACE_CHAR @ drop (i + k) src"
        have m: "foldM (\<lambda>j src. wr src (i + j) DIRTY_REPLACE_CHAR) [0..<k] src = Some ?src" using k True l less.prems by (intro mask_ok) simp
        have "drop (i + k) src = drop (i + k) s0" using less.prems(3) by (metis add.commute drop_drop)
        then have q: "length ?src = length s0" "drop (i + k) ?src = drop (i + k) s0" "take (i + k) ?src = take i src @ replicate k DIRTY_REPLACE_CHAR"
          using less.prems k True l by simp_all
        have "replace_loop ctx low len (i + k) ?src
            = (case scrub W (drop k ?s) of (out, r) \<Rightarrow> Some ((take i src @ replicate k DIRTY_REPLACE_CHAR) @ out @ drop len s0, r))"
          using go [OF k(2,1) q(1,2)] unfolding q(3) .
        then show ?thesis using f \<open>f = Some p\<close> p w Some kn m True st unfolding step
          by (subst replace_loop.simps) (simp add: not_less split: prod.splits)
      qed
    qed
  qed
qed

section \<open>Reading the file\<close>

lemma fgets_line: "fgets n f = (l, r) \<Longrightarrow> f = l @ r \<and> length l \<le> n"
  by (induction n f arbitrary: l r rule: fgets.induct) (auto split: if_splits prod.splits)

lemma fgets_rest:
  assumes "f \<noteq> []"
  shows "length (snd (fgets (Suc n) f)) < length f"
proof -
  obtain l r where lr: "fgets (Suc n) f = (l, r)" by fastforce
  moreover have "fst (fgets (Suc n) f) \<noteq> []" using assms by (cases f) (auto split: prod.split)
  ultimately show ?thesis using fgets_line [OF lr] by simp
qed

function dirty_lines :: "u8 list \<Rightarrow> u8 list list" where
  \<comment> \<open>the lines, those of more than 31 bytes in parts\<close>
  "dirty_lines f = (if f = [] then [] else fst (fgets (MAX_DIRTY_WORDS_LEN - 1) f) # dirty_lines (snd (fgets (MAX_DIRTY_WORDS_LEN - 1) f)))"
  by pat_completeness auto
termination
  using fgets_rest by (relation "measure length") (auto simp: MAX_DIRTY_WORDS_LEN_def numeral_eq_Suc)

declare dirty_lines.simps [simp del]

definition word_of :: "u8 list \<Rightarrow> u8 list" where
  \<comment> \<open>the word of a line: in lower case, without the end of the line\<close>
  "word_of l = rev (dropWhile (\<lambda>c. c = 13 \<or> c = 10) (rev (map tolower l)))"

definition holds_word :: "dirty_t \<Rightarrow> u8 list \<Rightarrow> bool" where
  "holds_word d w \<longleftrightarrow> (\<exists>r. d_word d = w @ 0 # r)"

lemma strnlen_word: "0 \<notin> set w \<Longrightarrow> length w < n \<Longrightarrow> strnlen (w @ 0 # r) n = Some (length w)"
  by (induction w n rule: strnlen.induct) auto

lemma lower_loop_ok:
  assumes "0 \<notin> set l" "length l < MAX_DIRTY_WORDS_LEN"
  shows "lower_loop [0..<MAX_DIRTY_WORDS_LEN] (l @ [0]) = Some (map tolower l @ [0])"
proof -
  have "lower_loop [i..<MAX_DIRTY_WORDS_LEN] (map tolower u @ v @ [0]) = Some (map tolower (u @ v) @ [0])"
    if "l = u @ v" "i = length u" for u v i
    using that
  proof (induction v arbitrary: u i)
    case Nil
    have "0 \<notin> set (map tolower u)" using Nil assms(1) lower_nonzero [of u] by simp
    then have "strnlen (map tolower u @ 0 # []) MAX_DIRTY_WORDS_LEN = Some (length u)"
      using strnlen_word [of "map tolower u" MAX_DIRTY_WORDS_LEN "[]"] Nil assms(2) by simp
    moreover have "[i..<MAX_DIRTY_WORDS_LEN] = i # [Suc i..<MAX_DIRTY_WORDS_LEN]" using Nil assms(2) by (simp add: upt_conv_Cons)
    ultimately show ?case using Nil by simp
  next
    case (Cons c v)
    have "0 \<notin> set (map tolower u)" "0 \<notin> set (c # v)" using Cons.prems assms(1) lower_nonzero [of u] by auto
    then have "0 \<notin> set (map tolower u @ c # v)" by simp
    then have "strnlen ((map tolower u @ c # v) @ 0 # []) MAX_DIRTY_WORDS_LEN = Some (length (map tolower u @ c # v))"
      using Cons.prems assms(2) by (intro strnlen_word) auto
    moreover have "[i..<MAX_DIRTY_WORDS_LEN] = i # [Suc i..<MAX_DIRTY_WORDS_LEN]" using Cons.prems assms(2) by (simp add: upt_conv_Cons)
    moreover have "lower_loop [Suc i..<MAX_DIRTY_WORDS_LEN] (map tolower (u @ [c]) @ v @ [0]) = Some (map tolower ((u @ [c]) @ v) @ [0])"
      using Cons.prems by (intro Cons.IH) auto
    ultimately show ?case using Cons.prems(2) by (simp add: nth_append list_update_append)
  qed
  from this [of "[]" l 0] show ?thesis by simp
qed

lemma trim_loop_ok:
  assumes "0 \<notin> set w" "length w < MAX_DIRTY_WORDS_LEN" "\<not> (\<forall>c \<in> set w. c = 13 \<or> c = 10)"
  shows "\<exists>r'. trim_loop (w @ 0 # r) = Some (rev (dropWhile (\<lambda>c. c = 13 \<or> c = 10) (rev w)) @ 0 # r')"
  using assms
proof (induction w arbitrary: r rule: rev_induct)
  case (snoc c w)
  have n: "strnlen ((w @ [c]) @ 0 # r) MAX_DIRTY_WORDS_LEN = Some (length (w @ [c]))" by (rule strnlen_word) (use snoc.prems in auto)
  show ?case
  proof (cases "c = 13 \<or> c = 10")
    case True
    then have "\<exists>r'. trim_loop (w @ 0 # 0 # r) = Some (rev (dropWhile (\<lambda>c. c = 13 \<or> c = 10) (rev w)) @ 0 # r')"
      using snoc.prems by (intro snoc.IH) auto
    then show ?thesis using n True by (subst trim_loop.simps) (simp add: rdi_def rd_def wri_def wr_def nth_append)
  next
    case False
    then show ?thesis using n by (subst trim_loop.simps) (simp add: rdi_def rd_def nth_append)
  qed
qed simp

lemma trim_loop_blank:
  assumes "\<forall>c \<in> set w. c = 13 \<or> c = 10" "length w < MAX_DIRTY_WORDS_LEN"
  shows "trim_loop (w @ 0 # r) = None"
  using assms
proof (induction w arbitrary: r rule: rev_induct)
  case Nil
  then show ?case by (subst trim_loop.simps) (simp add: rdi_def MAX_DIRTY_WORDS_LEN_def numeral_eq_Suc)
next
  case (snoc c w)
  have "strnlen ((w @ [c]) @ 0 # r) MAX_DIRTY_WORDS_LEN = Some (length (w @ [c]))" by (rule strnlen_word) (use snoc.prems in auto)
  moreover have "trim_loop (w @ 0 # 0 # r) = None" using snoc.prems by (intro snoc.IH) auto
  ultimately show ?case using snoc.prems(1) by (subst trim_loop.simps) (simp add: rdi_def rd_def wri_def wr_def nth_append)
qed

lemma table_loop_ok:
  assumes "0 \<notin> set f" "\<forall>l \<in> set (dirty_lines f). word_of l \<noteq> []" "length tab + length (dirty_lines f) \<le> MAX_DIRTY_WORDS_COUNT"
  shows "\<exists>tab'. table_loop f tab = Some (tab @ tab') \<and> list_all2 (\<lambda>d l. holds_word d (word_of l) \<and> d_next d = -1) tab' (dirty_lines f)"
  using assms
proof (induction "length f" arbitrary: f tab rule: less_induct)
  case less
  show ?case
  proof (cases "f = []")
    case True
    then show ?thesis by (subst table_loop.simps) (simp add: dirty_lines.simps)
  next
    case False
    obtain l g where lg: "fgets (MAX_DIRTY_WORDS_LEN - 1) f = (l, g)" by fastforce
    have L: "dirty_lines f = l # dirty_lines g" using False lg by (subst dirty_lines.simps) simp
    have f: "f = l @ g" "length l < MAX_DIRTY_WORDS_LEN" using fgets_line [OF lg] by (auto simp: MAX_DIRTY_WORDS_LEN_def)
    have nz: "0 \<notin> set l" "0 \<notin> set (map tolower l)" using f(1) less.prems(1) lower_nonzero [of l] by auto
    have "word_of l \<noteq> []" using less.prems(2) L by simp
    then have "\<not> (\<forall>c \<in> set (map tolower l). c = 13 \<or> c = 10)" by (auto simp: word_of_def dropWhile_eq_Nil_conv)
    then obtain r where r: "trim_loop (map tolower l @ [0]) = Some (word_of l @ 0 # r)"
      using trim_loop_ok [OF nz(2), of "[]"] f(2) by (auto simp: word_of_def)
    let ?d = "\<lparr>d_word = word_of l @ 0 # r, d_prev = -1, d_next = -1\<rparr>"
    have d: "holds_word ?d (word_of l)" by (simp add: holds_word_def)
    have go: "table_loop f tab = (if length (tab @ [?d]) \<ge> MAX_DIRTY_WORDS_COUNT then Some (tab @ [?d]) else table_loop g (tab @ [?d]))"
      using False lg lower_loop_ok [OF nz(1) f(2)] r by (subst table_loop.simps) (simp add: Let_def)
    have "length g < length f" using fgets_rest [OF False, of 30] lg by (simp add: MAX_DIRTY_WORDS_LEN_def)
    then obtain tab' where "table_loop g (tab @ [?d]) = Some ((tab @ [?d]) @ tab')"
        "list_all2 (\<lambda>d l. holds_word d (word_of l) \<and> d_next d = -1) tab' (dirty_lines g)"
      using less.hyps [of g "tab @ [?d]"] less.prems f(1) L by auto
    moreover have "dirty_lines g = []" if "length (tab @ [?d]) \<ge> MAX_DIRTY_WORDS_COUNT" using that less.prems(3) L by (cases "dirty_lines g") simp_all
    ultimately show ?thesis unfolding go L using d by (auto intro: exI [of _ "[?d]"] exI [of _ "?d # tab'"])
  qed
qed

section \<open>Building the tables\<close>

lemma chain_frame:
  "chain tab h is \<Longrightarrow> length tab' = length tab \<Longrightarrow> \<forall>i \<in> set is. d_next (tab' ! i) = d_next (tab ! i) \<Longrightarrow> chain tab' h is"
  by (induction "is" arbitrary: h) auto

lemma chain_end_ok:
  "chain tab h (is @ [j]) \<Longrightarrow> chain_end tab h = Some (int j)"
proof (induction "is" arbitrary: h)
  case Nil
  then show ?case by (subst chain_end.simps) auto
next
  case (Cons i "is")
  have "0 \<le> x" if "chain tab x (is @ [j])" for x using that by (cases "is") auto
  then show ?case using Cons by (subst chain_end.simps) auto
qed

lemma chain_extend:
  assumes "chain tab h (is @ [j])" "distinct (is @ [j])" "length tab' = length tab"
    and "\<forall>i \<in> set is. d_next (tab' ! i) = d_next (tab ! i)" "d_next (tab' ! j) = int n" "n < length tab" "d_next (tab' ! n) = -1"
  shows "chain tab' h (is @ [j, n])"
  using assms by (induction "is" arbitrary: h) auto

lemma hash_place_ok:
  assumes R: "hash_rep ctx W n" and n: "n < length W"
  shows "\<exists>ctx'. hash_place n ctx = Some ctx' \<and> hash_rep ctx' W (Suc n)"
proof -
  let ?b = "bucket (W ! n)" and ?chain = "\<lambda>b n. filter (\<lambda>j. bucket (W ! j) = b) [0..<n]"
  let ?tab = "d_table ctx"
  have T: "length ?tab = length W" "\<And>i. i < length W \<Longrightarrow> word_ok (W ! i) \<and> (\<exists>r. d_word (?tab ! i) = W ! i @ 0 # r)"
    "\<And>b. chain ?tab (d_hash ctx b) (?chain b n)" "\<And>i. i \<in> {n..<length W} \<Longrightarrow> d_next (?tab ! i) = -1"
    using R by (auto simp: hash_rep_def)
  obtain r where r: "d_word (?tab ! n) = W ! n @ 0 # r" using T(2) [OF n] by blast
  have w: "0 \<notin> set (W ! n)" "length (W ! n) < MAX_DIRTY_WORDS_LEN" using T(2) [OF n] by (auto simp: word_ok_def)
  have len: "strnlen (d_word (?tab ! n)) MAX_DIRTY_WORDS_LEN = Some (length (W ! n))" unfolding r by (rule strnlen_word [OF w])
  have hb: "hash_bucket (d_word (?tab ! n)) (length (W ! n)) = Some ?b" "?b < MAX_DIRTY_WORDS_HASH_COUNT"
  proof -
    obtain h where h: "hash_jhash (d_word (?tab ! n)) (of_nat (length (W ! n))) = Some h" "hash_jhash (W ! n) (of_nat (length (W ! n))) = Some h"
      using hash_jhash_safe [of "of_nat (length (W ! n))" "d_word (?tab ! n)"] w(2) unfolding r
      by (auto simp: unat_of_nat MAX_DIRTY_WORDS_LEN_def)
    then show "hash_bucket (d_word (?tab ! n)) (length (W ! n)) = Some ?b" by (simp add: hash_bucket_def bucket_def)
    show "?b < MAX_DIRTY_WORDS_HASH_COUNT" using hash_bucket_ok [of "length (W ! n)" "W ! n"] w(2) by (simp add: MAX_DIRTY_WORDS_LEN_def)
  qed
  note head = T(1) n len hb
  have next_chain: "?chain b (Suc n) = ?chain b n @ (if b = ?b then [n] else [])" for b by auto
  show ?thesis
  proof (cases "?chain ?b n = []")
    case True
    let ?ctx = "ctx\<lparr>d_hash := (d_hash ctx)(?b := int n)\<rparr>"
    have neg: "d_hash ctx ?b < 0" using T(3) [of ?b] True by simp
    have "chain ?tab (d_hash ?ctx b) (?chain b (Suc n))" for b
      using T(3) [of b] T(4) [of n] T(1) n True by (cases "b = ?b") (simp_all add: next_chain)
    then have "hash_rep ?ctx W (Suc n)" using T by (simp add: hash_rep_def)
    moreover have "hash_place n ctx = Some ?ctx" using head neg by (simp add: hash_place_def)
    ultimately show ?thesis by blast
  next
    case False
    then obtain "is" j where c: "?chain ?b n = is @ [j]" using rev_exhaust by metis
    have cj: "chain ?tab (d_hash ctx ?b) (is @ [j])" using T(3) [of ?b] c by simp
    have nn: "\<not> d_hash ctx ?b < 0" using cj by (cases "is") auto
    have "j \<in> set (?chain ?b n)" unfolding c by simp
    then have j: "j < n" "bucket (W ! j) = ?b" by auto
    let ?t1 = "?tab[j := (?tab ! j)\<lparr>d_next := int n\<rparr>]"
    let ?t2 = "?t1[n := (?t1 ! n)\<lparr>d_prev := int j\<rparr>]"
    have nx: "d_next (?t2 ! i) = (if i = j then int n else d_next (?tab ! i))" if "i < length W" for i
      using that j n T(1) by (auto simp: nth_list_update)
    have wd: "d_word (?t2 ! i) = d_word (?tab ! i)" if "i < length W" for i
      using that j n T(1) by (auto simp: nth_list_update)
    have "chain ?t2 (d_hash ctx b) (?chain b (Suc n))" for b
    proof (cases "b = ?b")
      case True
      have "distinct (is @ [j])" using c distinct_filter [of "[0..<n]"] by (metis distinct_upt)
      moreover have "i < n" if "i \<in> set is" for i
        using that arg_cong [OF c, of set] by auto
      moreover have "j \<notin> set is" using calculation(1) by simp
      moreover have "d_next (?t2 ! i) = d_next (?tab ! i)" if "i \<in> set is" for i
        using nx [of i] calculation(2,3) that n by (metis less_trans)
      ultimately have "chain ?t2 (d_hash ctx ?b) (is @ [j, n])"
        using cj j n T(1) T(4) [of n] nx by (intro chain_extend [OF cj]) auto
      then show ?thesis using True c by (simp add: next_chain)
    next
      case False
      have "chain ?t2 (d_hash ctx b) (?chain b n)"
      proof (rule chain_frame [OF T(3) [of b]])
        show "\<forall>i \<in> set (?chain b n). d_next (?t2 ! i) = d_next (?tab ! i)"
        proof
          fix i assume "i \<in> set (?chain b n)"
          then have "i < length W" "i \<noteq> j" using n False j by auto
          then show "d_next (?t2 ! i) = d_next (?tab ! i)" using nx [of i] by simp
        qed
      qed simp
      then show ?thesis using False by (simp add: next_chain)
    qed
    then have "hash_rep (ctx\<lparr>d_table := ?t2\<rparr>) W (Suc n)" using T j nx wd unfolding hash_rep_def by auto
    moreover have "hash_place n ctx = Some (ctx\<lparr>d_table := ?t2\<rparr>)"
      using head nn chain_end_ok [OF cj] j by (simp add: hash_place_def rdi_def wri_def wr_def rd_def)
    ultimately show ?thesis by blast
  qed
qed

lemma init_hash_ok:
  assumes "list_all2 (\<lambda>d w. holds_word d w \<and> d_next d = -1) (d_table ctx) W" "\<forall>w \<in> set W. word_ok w"
  shows "\<exists>ctx'. dirty_init_hash ctx = Some ctx' \<and> hash_rep ctx' W (length W)"
proof -
  let ?ctx = "ctx\<lparr>d_hash := (\<lambda>_. -1)\<rparr>"
  have "hash_rep ?ctx W 0" using assms by (auto simp: hash_rep_def holds_word_def list_all2_conv_all_nth)
  then have "\<exists>ctx'. foldM hash_place [0..<n] ?ctx = Some ctx' \<and> hash_rep ctx' W n" if "n \<le> length W" for n
    using that
  proof (induction n)
    case (Suc n)
    then obtain c where "foldM hash_place [0..<n] ?ctx = Some c" "hash_rep c W n" by auto
    then show ?case using hash_place_ok [of c W n] Suc.prems(2) by (auto simp: foldM_append)
  qed simp
  from this [of "length W"] show ?thesis using list_all2_lengthD [OF assms(1)] by (simp add: dirty_init_hash_def)
qed

lemma index_loop_ok:
  assumes "list_all2 holds_word tab W" "\<forall>w \<in> set W. word_ok w"
  shows "\<exists>index'. index_loop tab index = Some (index', 0) \<and> (\<forall>c e k. k < MAX_DIRTY_WORDS_LEN \<longrightarrow>
     (c < GB_SPEC_CHAR \<longrightarrow> (bit (index' 0 c) k \<longleftrightarrow> bit (index 0 c) k \<or> flagged W [c] k))
     \<and> (\<not> c < GB_SPEC_CHAR \<longrightarrow> (bit (index' c e) k \<longleftrightarrow> bit (index c e) k \<or> flagged W [c, e] k)))"
  using assms
proof (induction tab W arbitrary: index rule: list_all2_induct)
  case Nil
  then show ?case by (simp add: flagged_def)
next
  case (Cons d tab w W)
  obtain r where r: "d_word d = w @ 0 # r" using Cons.hyps(1) by (auto simp: holds_word_def)
  have w: "w \<noteq> []" "length w < 32" "0 \<notin> set w" "hd w < GB_SPEC_CHAR \<or> 2 \<le> length w"
    using Cons.prems by (auto simp: word_ok_def MAX_DIRTY_WORDS_LEN_def)
  have len: "strnlen (d_word d) MAX_DIRTY_WORDS_LEN = Some (length w)" unfolding r
    by (rule strnlen_word) (use w in \<open>simp_all add: MAX_DIRTY_WORDS_LEN_def\<close>)
  have c0: "rd (d_word d) 0 = Some (hd w)" using w(1) r by (simp add: nth_append hd_conv_nth)
  have W: "\<forall>w \<in> set W. word_ok w" using Cons.prems by simp
  have fl: "flagged (w # W) s k \<longleftrightarrow> length w = k \<and> same_head w s \<or> flagged W s k" for s k by (auto simp: flagged_def)
  show ?case
  proof (cases "hd w < GB_SPEC_CHAR")
    case True
    let ?index = "index(0 := (index 0)(hd w := SET_DIRTY_FLAG (index 0 (hd w)) (length w)))"
    have nz: "\<not> (0 :: u8) < GB_SPEC_CHAR \<Longrightarrow> False" by (simp add: GB_SPEC_CHAR_def)
    obtain index' where I: "index_loop tab ?index = Some (index', 0)"
      "\<forall>c e k. k < MAX_DIRTY_WORDS_LEN \<longrightarrow>
       (c < GB_SPEC_CHAR \<longrightarrow> (bit (index' 0 c) k \<longleftrightarrow> bit (?index 0 c) k \<or> flagged W [c] k))
       \<and> (\<not> c < GB_SPEC_CHAR \<longrightarrow> (bit (index' c e) k \<longleftrightarrow> bit (?index c e) k \<or> flagged W [c, e] k))"
      using Cons.IH [OF W, of ?index] by blast
    have "index_loop (d # tab) index = Some (index', 0)" using len c0 True I(1) by simp
    moreover have "\<not> c < GB_SPEC_CHAR \<Longrightarrow> c \<noteq> 0" for c using nz by auto
    ultimately show ?thesis using I(2) True w(2) by (auto simp: fl set_flag same_head_def)
  next
    case False
    have c1: "rd (d_word d) 1 = Some (w ! 1)" using w(1,4) False r by (simp add: rd_def nth_append)
    let ?index = "index(hd w := (index (hd w))(w ! 1 := SET_DIRTY_FLAG (index (hd w) (w ! 1)) (length w)))"
    obtain index' where I: "index_loop tab ?index = Some (index', 0)"
      "\<forall>c e k. k < MAX_DIRTY_WORDS_LEN \<longrightarrow>
       (c < GB_SPEC_CHAR \<longrightarrow> (bit (index' 0 c) k \<longleftrightarrow> bit (?index 0 c) k \<or> flagged W [c] k))
       \<and> (\<not> c < GB_SPEC_CHAR \<longrightarrow> (bit (index' c e) k \<longleftrightarrow> bit (?index c e) k \<or> flagged W [c, e] k))"
      using Cons.IH [OF W, of ?index] by blast
    have "index_loop (d # tab) index = Some (index', 0)" using len c0 c1 False w(4) I(1) by simp
    moreover have "hd w \<noteq> 0" using False by (auto simp: GB_SPEC_CHAR_def)
    ultimately show ?thesis using I(2) False w(2) by (auto simp: fl set_flag same_head_def)
  qed
qed

definition file_ok :: "u8 list \<Rightarrow> bool" where
  \<comment> \<open>no zero byte, not more lines than the table holds, a word in every line\<close>
  "file_ok f \<longleftrightarrow> 0 \<notin> set f \<and> length (dirty_lines f) \<le> MAX_DIRTY_WORDS_COUNT \<and> (\<forall>l \<in> set (dirty_lines f). word_ok (word_of l))"

lemma dirty_create_ok:
  assumes "file_ok f"
  shows "\<exists>ctx. dirty_create True (Some f) = Some (Some ctx) \<and> dirty_rep ctx (map word_of (dirty_lines f))"
proof -
  let ?W = "map word_of (dirty_lines f)"
  have F: "0 \<notin> set f" "\<forall>l \<in> set (dirty_lines f). word_of l \<noteq> []" "length (dirty_lines f) \<le> MAX_DIRTY_WORDS_COUNT"
      "\<forall>w \<in> set ?W. word_ok w" using assms by (auto simp: file_ok_def word_ok_def)
  obtain tab where tab: "table_loop f [] = Some tab" "list_all2 (\<lambda>d l. holds_word d (word_of l) \<and> d_next d = -1) tab (dirty_lines f)"
    using table_loop_ok [OF F(1,2), of "[]"] F(3) by auto
  let ?ctx = "\<lparr>d_table = tab, d_hash = (\<lambda>_. 0), d_index = (\<lambda>_ _. 0)\<rparr>"
  obtain ctx where ctx: "dirty_init_hash ?ctx = Some ctx" "hash_rep ctx ?W (length ?W)"
    using init_hash_ok [of ?ctx ?W] tab(2) F(4) by (auto simp: list_all2_map2)
  have "list_all2 holds_word (d_table ctx) ?W" using ctx(2) by (auto simp: hash_rep_def holds_word_def list_all2_conv_all_nth)
  then obtain index where I: "index_loop (d_table ctx) (\<lambda>_ _. 0) = Some (index, 0)" "flag_rep index ?W"
    using index_loop_ok [OF _ F(4), of "d_table ctx" "\<lambda>_ _. 0"] by (auto simp: flag_rep_def)
  let ?c = "ctx\<lparr>d_index := index\<rparr>"
  have "dirty_rep ?c ?W" using ctx(2) I(2) by (simp add: dirty_rep_def hash_rep_def)
  moreover have "dirty_create True (Some f) = Some (Some ?c)"
    using tab(1) ctx(1) I(1) by (simp add: dirty_create_def dirty_init_table_def dirty_init_index_def)
  ultimately show ?thesis by blast
qed

lemma check_loop_stuck:
  assumes "check_loop ctx low len step i = Some r"
  shows "step = 0 \<longrightarrow> i < len \<longrightarrow> r \<noteq> 0"
proof (rule check_loop.raw_induct [where P = "\<lambda>ctx low len step i r. step = 0 \<longrightarrow> i < len \<longrightarrow> r \<noteq> 0", OF _ assms])
  fix loop and ctx :: dirty_ctx_t and low :: "u8 list" and len step i :: nat and r :: int
  assume IH: "\<And>ctx low len step i r. loop ctx low len step i = Some r \<Longrightarrow> step = 0 \<longrightarrow> i < len \<longrightarrow> r \<noteq> 0"
    and r: "(if \<not> i < len then Some 0
      else do {
        r \<leftarrow> first_char ctx low i len;
        (case r of
           None \<Rightarrow> Some (-2)
         | Some (key, inner_step) \<Rightarrow>
             if key = 0 then loop ctx low len step (i + step)
             else do {
               k \<leftarrow> word_loop ctx (drop i low) (len - i) [1..<MAX_DIRTY_WORDS_LEN] key;
               (case k of Some _ \<Rightarrow> Some (-1) | None \<Rightarrow> loop ctx low len step (i + step)) }) }) = Some r"
  show "step = 0 \<longrightarrow> i < len \<longrightarrow> r \<noteq> 0"
  proof (intro impI)
    assume s: "step = 0" "i < len"
    have "loop ctx low len step (i + step) = Some r \<Longrightarrow> r \<noteq> 0" using IH [of ctx low len step "i + step" r] s by simp
    then show "r \<noteq> 0" using r s by (auto split: bind_splits option.splits prod.splits if_splits)
  qed
qed

section \<open>Properties\<close>



text \<open>A file that begins with an empty line is read outside the array: the end of the line is looked for before
  the first byte of the word.\<close>

lemma dirty_create_blank_line: "dirty_create True (Some (10 # f)) = None"
proof -
  have "fgets (MAX_DIRTY_WORDS_LEN - 1) (10 # f) = ([10], f)" by (simp add: MAX_DIRTY_WORDS_LEN_def numeral_eq_Suc)
  moreover have "lower_loop [0..<MAX_DIRTY_WORDS_LEN] ([10] @ [0]) = Some ([10] @ [0])"
    using lower_loop_ok [of "[10]"] by (simp add: MAX_DIRTY_WORDS_LEN_def tolower_def)
  moreover have "trim_loop ([10] @ 0 # []) = None" by (rule trim_loop_blank) (simp_all add: MAX_DIRTY_WORDS_LEN_def)
  ultimately have "table_loop (10 # f) [] = None" by (subst table_loop.simps) simp
  then show ?thesis by (simp add: dirty_create_def dirty_init_table_def)
qed

section \<open>An example\<close>

lemma find_one:
  assumes "n \<in> set ks"
  shows "find (\<lambda>k. k = n \<and> Q) ks = (if Q then Some n else None)"
proof (cases Q)
  case False
  then show ?thesis by (simp add: find_None_iff)
next
  case True
  then show ?thesis using assms by (induction ks) auto
qed

lemma fgets_Cons: "0 < n \<Longrightarrow> fgets n (c # f) = (if c = 10 then ([c], f) else (case fgets (n - 1) f of (l, r) \<Rightarrow> (c # l, r)))"
  by (cases n) simp_all

lemma hit_single:
  assumes "word_ok w"
  shows "hit [w] s = (if length w \<le> length s \<and> same_head w s \<and> take (length w) s = w then Some (length w) else None)"
proof -
  have "(k \<le> length s \<and> flagged [w] s k \<and> listed [w] (take k s))
     \<longleftrightarrow> (k = length w \<and> (length w \<le> length s \<and> same_head w s \<and> take (length w) s = w))" for k
    by (auto simp: flagged_def listed_def min_absorb2)
  then have "hit [w] s = find (\<lambda>k. k = length w \<and> (length w \<le> length s \<and> same_head w s \<and> take (length w) s = w)) [1..<MAX_DIRTY_WORDS_LEN]"
    unfolding hit_def by presburger
  moreover have "length w \<in> set [1..<MAX_DIRTY_WORDS_LEN]" using assms by (cases w) (auto simp: word_ok_def)
  ultimately show ?thesis by (simp add: find_one)
qed

lemma demo_lines: "dirty_lines [97, 66, 13, 10] = [[97, 66, 13, 10]]"
  by (subst dirty_lines.simps, subst dirty_lines.simps) (simp add: MAX_DIRTY_WORDS_LEN_def fgets_Cons)

lemma demo_word: "word_of [97, 66, 13, 10] = [97, 98]" "word_ok [97, 98]"
  by (simp_all add: word_of_def tolower_def word_ok_def MAX_DIRTY_WORDS_LEN_def GB_SPEC_CHAR_def)

lemma demo_bytes: "tolower 120 = 120" "tolower 65 = 97" "tolower 66 = 98" "tolower 121 = 121"
  "char_len 120 = 1" "char_len 97 = 1" "char_len 121 = 1"
  by (simp_all add: tolower_def char_len_def GB_SPEC_CHAR_def)

lemma demo_scrub: "scrub [[97, 98]] [120, 65, 66, 121] = ([120, 42, 42, 121], 0)"
proof -
  note s = hit_single [OF demo_word(2)] same_head_def demo_bytes
  have "scrub [[97, 98]] [121] = ([121], 0)" using scrub_step [of "[121]" _ "[[97, 98]]", OF _ refl] by (simp add: s)
  then have "scrub [[97, 98]] [65, 66, 121] = ([42, 42, 121], 0)"
    using scrub_step [of "[65, 66, 121]" _ "[[97, 98]]", OF _ refl] by (simp add: s GB_SPEC_CHAR_def DIRTY_REPLACE_CHAR_def replicate_Suc numeral_2_eq_2)
  then show ?thesis using scrub_step [of "[120, 65, 66, 121]" _ "[[97, 98]]", OF _ refl] by (simp add: s)
qed



end
