(* ===== verification/Logic_Task.thy ===== *)
theory Logic_Task
  imports Prelude Base_Timer
begin

text \<open>
  \<^verbatim>\<open>logic/task.c\<close>: asynchronous tasks, each a ring of steps that run one after the other.  Tasks and steps
  live in memories of addresses.  The callbacks are arguments; they may act on the whole state.  The
  identifier that \<^verbatim>\<open>timer_register\<close> returns is an argument.
\<close>

section \<open>State and operations\<close>

definition TASK_STEP_ID_MASK :: u32 where "TASK_STEP_ID_MASK = push_bit 30 1"
definition TASK_INVALID_ID :: u32 where "TASK_INVALID_ID = 0"
definition TASK_RET_FAIL :: int where "TASK_RET_FAIL = -1"
definition TASK_RET_SUCCESS :: int where "TASK_RET_SUCCESS = 0"
definition TASK_RET_NEXT :: int where "TASK_RET_NEXT = 1"
definition TASK_RET_RUNNING :: int where "TASK_RET_RUNNING = 2"

lemmas task_rets = TASK_RET_FAIL_def TASK_RET_SUCCESS_def TASK_RET_NEXT_def TASK_RET_RUNNING_def

record task_step_t =
  ts_id :: u32
  ts_t :: ptr
  ts_next :: ptr
  ts_prev :: ptr
  ts_run :: ptr
  ts_param :: ptr

record task_t =
  t_id :: u32
  t_current :: ptr
  t_head :: ptr
  t_success :: ptr
  t_fail :: ptr
  t_param :: ptr
  t_timer :: ptr
  t_timer_id :: int

record 'w sys =
  sy_tasks :: "ptr \<rightharpoonup> task_t"
  sy_steps :: "ptr \<rightharpoonup> task_step_t"
  sy_world :: 'w

record 'w calls =
  \<comment> \<open>the functions behind the addresses: of a step, of success and of failure\<close>
  c_run :: "ptr \<Rightarrow> ptr \<Rightarrow> 'w sys \<Rightarrow> ('w sys \<times> int) option"
  c_success :: "ptr \<Rightarrow> ptr \<Rightarrow> 'w sys \<Rightarrow> 'w sys option"
  c_fail :: "ptr \<Rightarrow> ptr \<Rightarrow> int \<Rightarrow> 'w sys \<Rightarrow> 'w sys option"

definition upd_task :: "ptr \<Rightarrow> (task_t \<Rightarrow> task_t) \<Rightarrow> 'w sys \<Rightarrow> 'w sys option" where
  "upd_task t f s = do { k \<leftarrow> sy_tasks s t; Some (s\<lparr>sy_tasks := (sy_tasks s)(t \<mapsto> f k)\<rparr>) }"

definition upd_step :: "ptr \<Rightarrow> (task_step_t \<Rightarrow> task_step_t) \<Rightarrow> 'w sys \<Rightarrow> 'w sys option" where
  "upd_step x f s = do { k \<leftarrow> sy_steps s x; Some (s\<lparr>sy_steps := (sy_steps s)(x \<mapsto> f k)\<rparr>) }"

definition task_step_create :: "ptr \<Rightarrow> ptr \<Rightarrow> ptr \<Rightarrow> ptr \<Rightarrow> u32 \<times> 'w sys \<Rightarrow> ((u32 \<times> 'w sys) \<times> ptr) option" where
  \<comment> \<open>\<open>a\<close>: the block from \<open>malloc\<close>, whose failure is not handled, \<open>t\<close>: what it holds as task; with the static \<open>id\<close>\<close>
  "task_step_create a t run param st = (case st of (n, s) \<Rightarrow> do {
     c_assert (a \<noteq> NULL);
     let n = n + 1;
     let n = (if n \<ge> TASK_STEP_ID_MASK then 1 else n);
     Some ((n, s\<lparr>sy_steps := (sy_steps s)(a \<mapsto> \<lparr>ts_id = n, ts_t = t, ts_next = NULL, ts_prev = NULL, ts_run = run, ts_param = param\<rparr>)\<rparr>), a) })"

definition task_step_release :: "ptr \<Rightarrow> 'w sys \<Rightarrow> 'w sys option" where
  "task_step_release x s = (if x \<noteq> NULL then do { k \<leftarrow> sy_steps s x; Some (s\<lparr>sy_steps := (sy_steps s)(x := None)\<rparr>) } else Some s)"

definition task_step_id :: "ptr \<Rightarrow> 'w sys \<Rightarrow> u32 option" where
  "task_step_id x s = (if x \<noteq> NULL then map_option ts_id (sy_steps s x) else Some TASK_INVALID_ID)"

definition task_step_task :: "ptr \<Rightarrow> 'w sys \<Rightarrow> ptr option" where
  "task_step_task x s = (if x \<noteq> NULL then map_option ts_t (sy_steps s x) else Some NULL)"

definition task_step_param :: "ptr \<Rightarrow> 'w sys \<Rightarrow> ptr option" where
  "task_step_param x s = (if x \<noteq> NULL then map_option ts_param (sy_steps s x) else Some NULL)"

definition task_step_run :: "'w calls \<Rightarrow> ptr \<Rightarrow> 'w sys \<Rightarrow> ('w sys \<times> int) option" where
  "task_step_run cb x s =
     (if x \<noteq> NULL then do {
        k \<leftarrow> sy_steps s x;
        if ts_run k \<noteq> NULL then c_run cb (ts_run k) x s else Some (s, TASK_RET_FAIL) }
      else Some (s, TASK_RET_FAIL))"

definition call_success :: "'w calls \<Rightarrow> ptr \<Rightarrow> 'w sys \<Rightarrow> 'w sys option" where
  "call_success cb t s = do { k \<leftarrow> sy_tasks s t; c_success cb (t_success k) t s }"

definition call_fail :: "'w calls \<Rightarrow> ptr \<Rightarrow> int \<Rightarrow> 'w sys \<Rightarrow> 'w sys option" where
  "call_fail cb t e s = do { k \<leftarrow> sy_tasks s t; c_fail cb (t_fail k) t e s }"

definition finished :: "ptr \<Rightarrow> 'w sys \<Rightarrow> 'w sys option" where
  "finished t = upd_task t (\<lambda>k. k\<lparr>t_current := NULL\<rparr>)"

partial_function (option) run_loop :: "'w calls \<Rightarrow> ptr \<Rightarrow> 'w sys \<Rightarrow> 'w sys option" where
  "run_loop cb t s = do {
     k \<leftarrow> sy_tasks s t;
     (s, ret) \<leftarrow> task_step_run cb (t_current k) s;
     if ret = TASK_RET_NEXT then do {
       k \<leftarrow> sy_tasks s t;
       x \<leftarrow> sy_steps s (t_current k);
       s \<leftarrow> upd_task t (\<lambda>k. k\<lparr>t_current := ts_next x\<rparr>) s;
       if ts_next x = t_head k then do { s \<leftarrow> call_success cb t s; finished t s } else run_loop cb t s }
     else if ret = TASK_RET_RUNNING then Some s
     else if ret = TASK_RET_SUCCESS then do { s \<leftarrow> call_success cb t s; finished t s }
     else do { s \<leftarrow> call_fail cb t TASK_RET_FAIL s; finished t s } }"

definition task_run_steps :: "'w calls \<Rightarrow> ptr \<Rightarrow> 'w sys \<Rightarrow> 'w sys option" where
  \<comment> \<open>\<^verbatim>\<open>_task_run\<close>\<close>
  "task_run_steps cb t s =
     (if t = NULL then Some s
      else do {
        k \<leftarrow> sy_tasks s t;
        if t_head k = NULL \<or> t_current k = NULL then Some s else run_loop cb t s })"

fun walk :: "(task_step_t \<Rightarrow> ptr) \<Rightarrow> ptr \<Rightarrow> nat \<Rightarrow> 'w sys \<Rightarrow> 'w sys option" where
  \<comment> \<open>\<open>n\<close> steps in a direction\<close>
  "walk dir t 0 s = Some s"
| "walk dir t (Suc n) s = do {
     k \<leftarrow> sy_tasks s t;
     x \<leftarrow> sy_steps s (t_current k);
     s \<leftarrow> upd_task t (\<lambda>k. k\<lparr>t_current := dir x\<rparr>) s;
     walk dir t n s }"

definition task_step_resume :: "'w calls \<Rightarrow> ptr \<Rightarrow> int \<Rightarrow> int \<Rightarrow> 'w sys \<Rightarrow> 'w sys option" where
  "task_step_resume cb x ret step s =
     (if x = NULL then Some s
      else if ret = TASK_RET_RUNNING then Some s
      else do {
        k \<leftarrow> sy_steps s x;
        if ret = TASK_RET_NEXT then do {
          s \<leftarrow> (if step > 0 then walk ts_next (ts_t k) (nat step) s
                else if step < 0 then walk ts_prev (ts_t k) (nat (- step)) s else Some s);
          task_run_steps cb (ts_t k) s }
        else do {
          s \<leftarrow> (if ret = TASK_RET_SUCCESS then call_success cb (ts_t k) s else call_fail cb (ts_t k) TASK_RET_FAIL s);
          k \<leftarrow> sy_steps s x;
          finished (ts_t k) s } })"

definition task_create :: "ptr \<Rightarrow> ptr \<Rightarrow> ptr \<Rightarrow> ptr \<Rightarrow> u32 \<times> 'w sys \<Rightarrow> ((u32 \<times> 'w sys) \<times> ptr) option" where
  "task_create a success fail param st = (case st of (n, s) \<Rightarrow>
     if success = NULL \<or> fail = NULL then Some (st, NULL)
     else do {
       c_assert (a \<noteq> NULL);
       let n = n + 1;
       let n = (if n < TASK_STEP_ID_MASK then TASK_STEP_ID_MASK + 1 else n);
       Some ((n, s\<lparr>sy_tasks := (sy_tasks s)(a \<mapsto> \<lparr>t_id = n, t_current = NULL, t_head = NULL, t_success = success, t_fail = fail,
         t_param = param, t_timer = NULL, t_timer_id = TIMER_INVALID_ID\<rparr>)\<rparr>), a) })"

definition task_is_finished :: "ptr \<Rightarrow> 'w sys \<Rightarrow> int option" where
  "task_is_finished t s = (if t \<noteq> NULL then do { k \<leftarrow> sy_tasks s t; Some (if t_current k = NULL then 0 else -1) } else Some (-1))"

definition task_id :: "ptr \<Rightarrow> 'w sys \<Rightarrow> u32 option" where
  "task_id t s = (if t \<noteq> NULL then map_option t_id (sy_tasks s t) else Some TASK_INVALID_ID)"

definition task_param :: "ptr \<Rightarrow> 'w sys \<Rightarrow> ptr option" where
  "task_param t s = (if t \<noteq> NULL then map_option t_param (sy_tasks s t) else Some NULL)"

definition task_push_back_step :: "ptr \<Rightarrow> ptr \<Rightarrow> 'w sys \<Rightarrow> 'w sys option" where
  "task_push_back_step t x s =
     (if t \<noteq> NULL \<and> x \<noteq> NULL then do {
        k \<leftarrow> sy_tasks s t;
        s \<leftarrow> (if t_head k = NULL then do {
              s \<leftarrow> upd_task t (\<lambda>k. k\<lparr>t_head := x\<rparr>) s;
              upd_step x (\<lambda>n. n\<lparr>ts_next := x, ts_prev := x\<rparr>) s }
            else do {
              h \<leftarrow> sy_steps s (t_head k);
              s \<leftarrow> upd_step (ts_prev h) (\<lambda>n. n\<lparr>ts_next := x\<rparr>) s;
              h \<leftarrow> sy_steps s (t_head k);
              s \<leftarrow> upd_step x (\<lambda>n. n\<lparr>ts_prev := ts_prev h\<rparr>) s;
              s \<leftarrow> upd_step (t_head k) (\<lambda>n. n\<lparr>ts_prev := x\<rparr>) s;
              upd_step x (\<lambda>n. n\<lparr>ts_next := t_head k\<rparr>) s });
        upd_step x (\<lambda>n. n\<lparr>ts_t := t\<rparr>) s }
      else Some s)"

definition task_erase_step :: "ptr \<Rightarrow> ptr \<Rightarrow> 'w sys \<Rightarrow> 'w sys option" where
  "task_erase_step t x s =
     (if t \<noteq> NULL \<and> x \<noteq> NULL then do {
        n \<leftarrow> sy_steps s x;
        s \<leftarrow> upd_step (ts_prev n) (\<lambda>p. p\<lparr>ts_next := ts_next n\<rparr>) s;
        n \<leftarrow> sy_steps s x;
        s \<leftarrow> upd_step (ts_next n) (\<lambda>p. p\<lparr>ts_prev := ts_prev n\<rparr>) s;
        upd_step x (\<lambda>n. n\<lparr>ts_prev := NULL, ts_next := NULL, ts_t := NULL\<rparr>) s }
      else Some s)"

partial_function (option) get_loop :: "ptr \<Rightarrow> u32 \<Rightarrow> ptr \<Rightarrow> 'w sys \<Rightarrow> ptr option" where
  "get_loop head n x s = do {
     i \<leftarrow> task_step_id x s;
     if i = n then Some x
     else do {
       k \<leftarrow> sy_steps s x;
       if ts_next k \<noteq> head then get_loop head n (ts_next k) s else Some (ts_next k) } }"

definition task_get_step :: "ptr \<Rightarrow> u32 \<Rightarrow> 'w sys \<Rightarrow> ptr option" where
  "task_get_step t n s =
     (if t \<noteq> NULL then do { k \<leftarrow> sy_tasks s t; if t_head k \<noteq> NULL then get_loop (t_head k) n (t_head k) s else Some NULL }
      else Some NULL)"

definition task_run :: "'w calls \<Rightarrow> ptr \<Rightarrow> ptr \<Rightarrow> bool \<Rightarrow> int \<Rightarrow> 'w sys \<Rightarrow> 'w sys option" where
  \<comment> \<open>\<open>timeout\<close>: whether one is given, \<open>tid\<close>: the identifier from \<^verbatim>\<open>timer_register\<close>\<close>
  "task_run cb t timer timeout tid s =
     (if t = NULL then Some s
      else do {
        k \<leftarrow> sy_tasks s t;
        if t_head k = NULL then Some s
        else do {
          s \<leftarrow> upd_task t (\<lambda>k. k\<lparr>t_current := t_head k\<rparr>) s;
          s \<leftarrow> (if timer \<noteq> NULL \<and> timeout then do {
                s \<leftarrow> upd_task t (\<lambda>k. k\<lparr>t_timer := timer, t_timer_id := tid\<rparr>) s;
                c_assert (tid \<noteq> TIMER_INVALID_ID);
                Some s }
              else Some s);
          task_run_steps cb t s } })"

definition task_timeout :: "'w calls \<Rightarrow> ptr \<Rightarrow> 'w sys \<Rightarrow> ('w sys \<times> int) option" where
  \<comment> \<open>what the timer calls\<close>
  "task_timeout cb t s = do {
     c_assert (t \<noteq> NULL);
     s \<leftarrow> call_fail cb t 0 s;
     s \<leftarrow> finished t s;
     s \<leftarrow> upd_task t (\<lambda>k. k\<lparr>t_timer_id := TIMER_INVALID_ID\<rparr>) s;
     Some (s, 0) }"

partial_function (option) release_steps :: "ptr \<Rightarrow> ptr \<Rightarrow> 'w sys \<Rightarrow> 'w sys option" where
  "release_steps head x s = do {
     k \<leftarrow> sy_steps s x;
     s \<leftarrow> task_step_release x s;
     if ts_next k \<noteq> head then release_steps head (ts_next k) s else Some s }"

definition task_release :: "ptr \<Rightarrow> 'w sys \<Rightarrow> ('w sys \<times> int option) option" where
  \<comment> \<open>with the timer that is unregistered\<close>
  "task_release t s = do {
     k \<leftarrow> sy_tasks s t;
     s \<leftarrow> (if t_head k \<noteq> NULL then release_steps (t_head k) (t_head k) s else Some s);
     Some (s\<lparr>sy_tasks := (sy_tasks s)(t := None)\<rparr>,
       if t_timer k \<noteq> NULL \<and> t_timer_id k \<noteq> TIMER_INVALID_ID then Some (t_timer_id k) else None) }"

section \<open>The ring of steps\<close>

definition ring :: "(ptr \<rightharpoonup> task_step_t) \<Rightarrow> ptr \<Rightarrow> ptr list \<Rightarrow> bool" where
  "ring m t xs \<longleftrightarrow> xs \<noteq> [] \<and> distinct xs \<and> NULL \<notin> set xs
     \<and> (\<forall>i < length xs. \<exists>k l. m (xs ! i) = Some k \<and> ts_t k = t \<and> m (xs ! (Suc i mod length xs)) = Some l
          \<and> ts_next k = xs ! (Suc i mod length xs) \<and> ts_prev l = xs ! i)"

definition holds_steps :: "'w sys \<Rightarrow> ptr \<Rightarrow> ptr list \<Rightarrow> bool" where
  "holds_steps s t xs \<longleftrightarrow> t \<noteq> NULL \<and> (\<exists>k. sy_tasks s t = Some k
     \<and> (if xs = [] then t_head k = NULL else t_head k = hd xs \<and> ring (sy_steps s) t xs))"

lemma ring_next:
  assumes "ring m t xs" "i < length xs"
  shows "\<exists>k. m (xs ! i) = Some k \<and> ts_t k = t \<and> ts_next k = xs ! (Suc i mod length xs)"
  using assms by (auto simp: ring_def)

lemma ring_prev:
  assumes "ring m t xs" "i < length xs"
  shows "\<exists>k. m (xs ! i) = Some k \<and> ts_prev k = xs ! ((i + length xs - 1) mod length xs)"
proof -
  let ?n = "length xs" and ?j = "(i + length xs - 1) mod length xs"
  have n: "0 < ?n" using assms(2) by linarith
  have "Suc ?j mod ?n = Suc (i + ?n - 1) mod ?n" by (rule mod_Suc_eq)
  also have "Suc (i + ?n - 1) = i + ?n" using n by linarith
  also have "\<dots> mod ?n = i" using assms(2) by simp
  finally have "Suc ?j mod ?n = i" .
  moreover have "?j < ?n" using n by (rule mod_less_divisor)
  ultimately obtain l where "m (xs ! i) = Some l" "ts_prev l = xs ! ?j" using assms(1) unfolding ring_def by metis
  then show ?thesis by blast
qed

lemma hd_nth: "xs \<noteq> [] \<Longrightarrow> hd xs = xs ! 0"
  by (cases xs) auto

section \<open>Running the steps\<close>

definition same :: "'w sys \<Rightarrow> 'w sys \<Rightarrow> bool" where
  "same s s' \<longleftrightarrow> sy_tasks s' = sy_tasks s \<and> sy_steps s' = sy_steps s"

definition tame :: "'w calls \<Rightarrow> bool" where
  \<comment> \<open>the callbacks return and leave tasks and steps alone\<close>
  "tame cb \<longleftrightarrow> (\<forall>f x s. \<exists>s' r. c_run cb f x s = Some (s', r) \<and> same s s') \<and> (\<forall>f t s. \<exists>s'. c_success cb f t s = Some s' \<and> same s s')
     \<and> (\<forall>f t e s. \<exists>s'. c_fail cb f t e s = Some s' \<and> same s s')"

fun exec :: "'w calls \<Rightarrow> ptr \<Rightarrow> ptr \<Rightarrow> ptr list \<Rightarrow> 'w sys \<Rightarrow> 'w sys option" where
  \<comment> \<open>the steps \<open>xs\<close> in order until one does not ask for the next; \<open>h\<close>: the head of the ring\<close>
  "exec cb t h [] s = do { s \<leftarrow> upd_task t (\<lambda>k. k\<lparr>t_current := h\<rparr>) s; s \<leftarrow> call_success cb t s; finished t s }"
| "exec cb t h (x # xs) s = do {
     s \<leftarrow> upd_task t (\<lambda>k. k\<lparr>t_current := x\<rparr>) s;
     (s, ret) \<leftarrow> task_step_run cb x s;
     if ret = TASK_RET_NEXT then exec cb t h xs s
     else if ret = TASK_RET_RUNNING then Some s
     else if ret = TASK_RET_SUCCESS then do { s \<leftarrow> call_success cb t s; finished t s }
     else do { s \<leftarrow> call_fail cb t TASK_RET_FAIL s; finished t s } }"

lemma upd_task_again:
  assumes "upd_task t (\<lambda>k. k\<lparr>t_current := x\<rparr>) s = Some s1"
  shows "upd_task t (\<lambda>k. k\<lparr>t_current := y\<rparr>) s1 = upd_task t (\<lambda>k. k\<lparr>t_current := y\<rparr>) s"
  using assms by (auto simp: upd_task_def split: bind_splits)

lemma upd_task_self:
  assumes "sy_tasks s t = Some k" "t_current k = x"
  shows "upd_task t (\<lambda>k. k\<lparr>t_current := x\<rparr>) s = Some s"
proof -
  have "k\<lparr>t_current := x\<rparr> = k" using assms(2) by auto
  then have "(sy_tasks s)(t \<mapsto> k\<lparr>t_current := x\<rparr>) = sy_tasks s" using assms(1) by auto
  then show ?thesis using assms(1) by (simp add: upd_task_def)
qed

lemma exec_again:
  assumes "upd_task t (\<lambda>k. k\<lparr>t_current := x\<rparr>) s = Some s1"
  shows "exec cb t h xs s1 = exec cb t h xs s"
  by (cases xs) (simp_all add: upd_task_again [OF assms])

lemma step_run_tame:
  assumes "tame cb" "sy_steps s x = Some k" "x \<noteq> NULL"
  shows "\<exists>s' r. task_step_run cb x s = Some (s', r) \<and> same s s'"
  using assms unfolding task_step_run_def by (auto simp: tame_def same_def)

lemma call_tame:
  assumes "tame cb" "sy_tasks s t = Some k"
  shows "\<exists>s'. call_success cb t s = Some s' \<and> same s s'" "\<exists>s'. call_fail cb t e s = Some s' \<and> same s s'"
  using assms by (simp_all add: tame_def call_success_def call_fail_def)

lemma run_loop_ok:
  assumes T: "tame cb" and "holds_steps s t xs" "sy_tasks s t = Some k" "t_current k = xs ! j" "j < length xs"
  shows "run_loop cb t s = exec cb t (hd xs) (drop j xs) s"
  using assms(2-)
proof (induction "length xs - j" arbitrary: j s k rule: less_induct)
  case less
  let ?x = "xs ! j" and ?n = "length xs"
  have ne: "xs \<noteq> []" using less.prems(4) by auto
  have R: "t_head k = hd xs" "ring (sy_steps s) t xs" "xs \<noteq> []" using less.prems(1,2) ne by (auto simp: holds_steps_def)
  have "NULL \<notin> set xs" using R(2) by (simp add: ring_def)
  then have x: "?x \<noteq> NULL" using nth_mem [OF less.prems(4)] by metis
  obtain u where u: "sy_steps s ?x = Some u" "ts_next u = xs ! (Suc j mod ?n)" using ring_next [OF R(2) less.prems(4)] by blast
  obtain s1 ret where s1: "task_step_run cb ?x s = Some (s1, ret)" "sy_tasks s1 = sy_tasks s" "sy_steps s1 = sy_steps s"
    using step_run_tame [OF T u(1) x] by (auto simp: same_def)
  have d: "drop j xs = ?x # drop (Suc j) xs" using less.prems(4) by (simp add: Cons_nth_drop_Suc)
  have self: "upd_task t (\<lambda>k. k\<lparr>t_current := ?x\<rparr>) s = Some s" using less.prems(2,3) by (rule upd_task_self)
  let ?s2 = "s1\<lparr>sy_tasks := (sy_tasks s1)(t \<mapsto> k\<lparr>t_current := xs ! (Suc j mod ?n)\<rparr>)\<rparr>"
  have up: "upd_task t (\<lambda>k. k\<lparr>t_current := xs ! (Suc j mod ?n)\<rparr>) s1 = Some ?s2" using less.prems(2) s1 by (simp add: upd_task_def)
  show ?case
  proof (cases "ret = TASK_RET_NEXT")
    case False
    then show ?thesis unfolding d using less.prems(2,3) s1 self by (subst run_loop.simps) simp
  next
    case True
    show ?thesis
    proof (cases "Suc j < ?n")
      case last: False
      then have "Suc j = ?n" using less.prems(4) by simp
      then show ?thesis unfolding d using less.prems(2,3) s1 self up u True R
        by (subst run_loop.simps) (simp add: hd_nth)
    next
      case more: True
      have "xs ! Suc j \<noteq> hd xs" using R(2,3) more by (simp add: ring_def hd_nth nth_eq_iff_index_eq)
      then have go: "run_loop cb t s = run_loop cb t ?s2" using less.prems(2,3) s1 up u True R(1) more by (subst run_loop.simps) simp
      have "holds_steps ?s2 t xs" using less.prems(1,2) s1 R by (auto simp: holds_steps_def)
      then have "run_loop cb t ?s2 = exec cb t (hd xs) (drop (Suc j) xs) ?s2"
        using more by (intro less.hyps [of "Suc j" ?s2 "k\<lparr>t_current := xs ! (Suc j mod ?n)\<rparr>"]) simp_all
      also have "\<dots> = exec cb t (hd xs) (drop (Suc j) xs) s1" by (rule exec_again [OF up])
      finally show ?thesis unfolding go d using s1 self True by simp
    qed
  qed
qed

lemma exec_total:
  assumes T: "tame cb"
  shows "sy_tasks s t = Some k \<Longrightarrow> \<forall>x \<in> set xs. x \<noteq> NULL \<and> sy_steps s x \<noteq> None \<Longrightarrow>
    \<exists>s' k'. exec cb t h xs s = Some s' \<and> sy_steps s' = sy_steps s \<and> sy_tasks s' = (sy_tasks s)(t \<mapsto> k')
      \<and> t_head k' = t_head k \<and> t_timer_id k' = t_timer_id k \<and> t_timer k' = t_timer k \<and> t_fail k' = t_fail k
      \<and> (t_current k' = NULL \<or> t_current k' \<in> set xs)"
proof (induction xs arbitrary: s k)
  case Nil
  let ?s = "s\<lparr>sy_tasks := (sy_tasks s)(t \<mapsto> k\<lparr>t_current := h\<rparr>)\<rparr>"
  obtain s1 where s1: "call_success cb t ?s = Some s1" "same ?s s1" using call_tame(1) [OF T, of ?s t "k\<lparr>t_current := h\<rparr>"] by auto
  then show ?case using Nil
    by (intro exI [of _ "s1\<lparr>sy_tasks := (sy_tasks s)(t \<mapsto> k\<lparr>t_current := NULL\<rparr>)\<rparr>"] exI [of _ "k\<lparr>t_current := NULL\<rparr>"])
       (simp add: upd_task_def finished_def same_def)
next
  case (Cons x xs)
  let ?k = "k\<lparr>t_current := x\<rparr>"
  let ?s = "s\<lparr>sy_tasks := (sy_tasks s)(t \<mapsto> ?k)\<rparr>"
  obtain u where u: "sy_steps ?s x = Some u" "x \<noteq> NULL" using Cons.prems(2) by auto
  obtain s1 r where s1: "task_step_run cb x ?s = Some (s1, r)" "sy_tasks s1 = (sy_tasks s)(t \<mapsto> ?k)" "sy_steps s1 = sy_steps s"
    using step_run_tame [OF T u] by (auto simp: same_def)
  have t1: "sy_tasks s1 t = Some ?k" using s1 by simp
  note e = upd_task_def finished_def same_def Cons.prems(1) s1
  obtain s2 where s2: "call_success cb t s1 = Some s2" "same s1 s2" using call_tame(1) [OF T t1] by blast
  obtain s3 where s3: "call_fail cb t TASK_RET_FAIL s1 = Some s3" "same s1 s3" using call_tame(2) [OF T t1] by blast
  consider (cont) "r = TASK_RET_NEXT" | (running) "r = TASK_RET_RUNNING" | (success) "r = TASK_RET_SUCCESS"
    | (fail) "r \<noteq> TASK_RET_NEXT" "r \<noteq> TASK_RET_RUNNING" "r \<noteq> TASK_RET_SUCCESS" by blast
  then show ?case
  proof cases
    case cont
    then have "exec cb t h (x # xs) s = exec cb t h xs s1" by (simp add: e)
    moreover have "\<forall>y \<in> set xs. y \<noteq> NULL \<and> sy_steps s1 y \<noteq> None" using Cons.prems(2) s1(3) by simp
    then obtain s' k' where "exec cb t h xs s1 = Some s'" "sy_steps s' = sy_steps s1" "sy_tasks s' = (sy_tasks s1)(t \<mapsto> k')"
      "t_head k' = t_head ?k" "t_timer_id k' = t_timer_id ?k" "t_timer k' = t_timer ?k" "t_fail k' = t_fail ?k" "t_current k' = NULL \<or> t_current k' \<in> set xs"
      using Cons.IH [OF t1] by blast
    ultimately show ?thesis using s1 by (intro exI [of _ s'] exI [of _ k']) auto
  next
    case running
    then have "exec cb t h (x # xs) s = Some s1" by (simp add: e task_rets)
    then show ?thesis using s1 by (intro exI [of _ s1] exI [of _ ?k]) auto
  next
    case success
    then have "exec cb t h (x # xs) s = finished t s2" by (simp add: e task_rets s2)
    then show ?thesis using s2 s1
      by (intro exI [of _ "s2\<lparr>sy_tasks := (sy_tasks s)(t \<mapsto> k\<lparr>t_current := NULL\<rparr>)\<rparr>"] exI [of _ "k\<lparr>t_current := NULL\<rparr>"])
         (simp add: upd_task_def finished_def same_def)
  next
    case fail
    then have "exec cb t h (x # xs) s = finished t s3" by (simp add: e s3)
    then show ?thesis using s3 s1
      by (intro exI [of _ "s3\<lparr>sy_tasks := (sy_tasks s)(t \<mapsto> k\<lparr>t_current := NULL\<rparr>)\<rparr>"] exI [of _ "k\<lparr>t_current := NULL\<rparr>"])
         (simp add: upd_task_def finished_def same_def)
  qed
qed

lemma ring_member:
  assumes "ring m t xs" "x \<in> set xs"
  shows "x \<noteq> NULL" "\<exists>k. m x = Some k \<and> ts_t k = t"
proof -
  show "x \<noteq> NULL" using assms by (metis ring_def)
  obtain i where "i < length xs" "x = xs ! i" using assms(2) by (metis in_set_conv_nth)
  then show "\<exists>k. m x = Some k \<and> ts_t k = t" using ring_next [OF assms(1)] by blast
qed

definition arm :: "ptr \<Rightarrow> ptr \<Rightarrow> bool \<Rightarrow> int \<Rightarrow> 'w sys \<Rightarrow> 'w sys option" where
  \<comment> \<open>the timer set when both it and a timeout are given\<close>
  "arm t timer timeout tid s = (if timer \<noteq> NULL \<and> timeout then upd_task t (\<lambda>k. k\<lparr>t_timer := timer, t_timer_id := tid\<rparr>) s else Some s)"

lemma task_run_eq:
  assumes T: "tame cb" and h: "holds_steps s t xs" "xs \<noteq> []" and "tid \<noteq> TIMER_INVALID_ID"
  shows "task_run cb t timer timeout tid s = do { s \<leftarrow> arm t timer timeout tid s; exec cb t (hd xs) xs s }"
proof -
  obtain k where k: "t \<noteq> NULL" "sy_tasks s t = Some k" "t_head k = hd xs" "ring (sy_steps s) t xs"
    using h by (auto simp: holds_steps_def)
  have hd: "hd xs \<noteq> NULL" using ring_member(1) [OF k(4), of "hd xs"] h(2) by simp
  let ?k = "k\<lparr>t_current := hd xs\<rparr>"
  let ?s = "s\<lparr>sy_tasks := (sy_tasks s)(t \<mapsto> ?k)\<rparr>"
  let ?ka = "?k\<lparr>t_timer := timer, t_timer_id := tid\<rparr>"
  let ?sa = "s\<lparr>sy_tasks := (sy_tasks s)(t \<mapsto> ?ka)\<rparr>"
  have up: "upd_task t (\<lambda>k. k\<lparr>t_current := t_head k\<rparr>) s = Some ?s" using k by (simp add: upd_task_def)
  have H: "holds_steps ?s t xs" "holds_steps ?sa t xs" using k h(2) by (auto simp: holds_steps_def)
  have run: "run_loop cb t s' = exec cb t (hd xs) xs s'" if "holds_steps s' t xs" "sy_tasks s' t = Some k'" "t_current k' = hd xs" for s' k'
    using run_loop_ok [OF T that(1,2), of 0] that(3) h(2) by (simp add: hd_nth)
  show ?thesis
  proof (cases "timer \<noteq> NULL \<and> timeout")
    case True
    then have "task_run cb t timer timeout tid s = run_loop cb t ?sa"
      using k hd assms(4) up by (simp add: task_run_def task_run_steps_def upd_task_def c_assert_def)
    also have "\<dots> = exec cb t (hd xs) xs ?sa" by (rule run [OF H(2), of ?ka]) simp_all
    also have "\<dots> = do { s \<leftarrow> arm t timer timeout tid s; exec cb t (hd xs) xs s }"
    proof -
      let ?sb = "s\<lparr>sy_tasks := (sy_tasks s)(t \<mapsto> k\<lparr>t_timer := timer, t_timer_id := tid\<rparr>)\<rparr>"
      have "upd_task t (\<lambda>k. k\<lparr>t_current := hd xs\<rparr>) ?sb = Some ?sa" by (cases k, cases s) (simp add: upd_task_def)
      then have "exec cb t (hd xs) xs ?sa = exec cb t (hd xs) xs ?sb" by (rule exec_again)
      then show ?thesis using True k by (simp add: arm_def upd_task_def)
    qed
    finally show ?thesis .
  next
    case False
    then have "task_run cb t timer timeout tid s = run_loop cb t ?s"
      using k hd up by (auto simp: task_run_def task_run_steps_def)
    also have "\<dots> = exec cb t (hd xs) xs ?s" by (rule run [OF H(1), of ?k]) simp_all
    also have "\<dots> = exec cb t (hd xs) xs s" by (rule exec_again [of t "hd xs"]) (use k in \<open>simp add: upd_task_def\<close>)
    finally show ?thesis using False by (auto simp: arm_def)
  qed
qed


section \<open>Resuming at another step\<close>

definition shift :: "nat \<Rightarrow> nat \<Rightarrow> int \<Rightarrow> nat" where
  \<comment> \<open>\<open>d\<close> places on in a ring of \<open>n\<close>\<close>
  "shift n j d = nat ((int j + d) mod int n)"

lemma shift_less: "0 < n \<Longrightarrow> shift n j d < n"
  by (simp add: shift_def nat_less_iff)

lemma shift_shift:
  assumes "0 < n"
  shows "shift n (shift n j d) e = shift n j (d + e)"
proof -
  have "int (nat ((int j + d) mod int n)) = (int j + d) mod int n" using assms by simp
  then show ?thesis unfolding shift_def by (simp only: mod_add_left_eq add.assoc)
qed

lemma shift_0: "j < n \<Longrightarrow> shift n j 0 = j"
  by (simp add: shift_def)

lemma shift_next: "Suc j mod n = shift n j 1"
  unfolding shift_def by (metis add.commute nat_int of_nat_Suc of_nat_mod)

lemma shift_prev:
  assumes "j < n"
  shows "(j + n - 1) mod n = shift n j (-1)"
proof -
  have "int ((j + n - 1) mod n) = (int j + int n - 1) mod int n" using assms by (simp add: zmod_int of_nat_diff)
  also have "\<dots> = (int j - 1 + int n) mod int n" by (simp add: algebra_simps)
  also have "\<dots> = (int j + -1) mod int n" by simp
  finally show ?thesis unfolding shift_def by (metis nat_int)
qed

lemma walk_eq:
  assumes dir: "\<And>j. j < length xs \<Longrightarrow> \<exists>u. sy_steps s (xs ! j) = Some u \<and> dir u = xs ! shift (length xs) j d"
    and "sy_tasks s t = Some k" "t_current k = xs ! j" "j < length xs"
  shows "walk dir t m s = upd_task t (\<lambda>k. k\<lparr>t_current := xs ! shift (length xs) j (d * int m)\<rparr>) s"
  using assms
proof (induction m arbitrary: j s k)
  case 0
  then show ?case using upd_task_self [OF 0(2,3)] by (simp add: shift_0)
next
  case (Suc m)
  let ?n = "length xs" and ?i = "shift (length xs) j d"
  have n: "0 < ?n" using Suc.prems(4) by linarith
  obtain u where u: "sy_steps s (xs ! j) = Some u" "dir u = xs ! ?i" using Suc.prems(1,4) by blast
  let ?k = "k\<lparr>t_current := xs ! ?i\<rparr>"
  let ?s = "s\<lparr>sy_tasks := (sy_tasks s)(t \<mapsto> ?k)\<rparr>"
  have up: "upd_task t (\<lambda>k. k\<lparr>t_current := xs ! ?i\<rparr>) s = Some ?s" using Suc.prems(2) by (simp add: upd_task_def)
  then have "walk dir t (Suc m) s = walk dir t m ?s" using Suc.prems(2,3) u by simp
  also have "\<dots> = upd_task t (\<lambda>k. k\<lparr>t_current := xs ! shift ?n ?i (d * int m)\<rparr>) ?s"
    by (rule Suc.IH [of ?s ?k]) (use Suc.prems(1) shift_less [OF n] in simp_all)
  also have "\<dots> = upd_task t (\<lambda>k. k\<lparr>t_current := xs ! shift ?n ?i (d * int m)\<rparr>) s" by (rule upd_task_again [OF up])
  also have "shift ?n ?i (d * int m) = shift ?n j (d * int (Suc m))" using n by (simp add: shift_shift algebra_simps)
  finally show ?case .
qed

text \<open>C21: a callback that answers later with NEXT and a number of steps makes the task go on exactly that many steps
  after (or, when negative, before) the pending one, around the ring, whichever step of the task it resumes
  with.\<close>

theorem task_step_resume_next:
  assumes "tame cb" "holds_steps s t xs" "sy_tasks s t = Some k" "j < length xs" "t_current k = xs ! j" "x \<in> set xs"
  shows "\<exists>s'. exec cb t (hd xs) (drop (shift (length xs) j step) xs) s = Some s'
    \<and> task_step_resume cb x TASK_RET_NEXT step s = Some s'"
proof -
  let ?n = "length xs" and ?i = "shift (length xs) j step"
  have ne: "xs \<noteq> []" and n: "0 < ?n" using assms(6) by (auto simp: length_pos_if_in_set)
  then have r: "t \<noteq> NULL" "t_head k = hd xs" "ring (sy_steps s) t xs" using assms(2,3) by (auto simp: holds_steps_def)
  obtain u where u: "x \<noteq> NULL" "sy_steps s x = Some u" "ts_t u = t" using ring_member [OF r(3) assms(6)] by blast
  let ?k = "k\<lparr>t_current := xs ! ?i\<rparr>"
  let ?s = "s\<lparr>sy_tasks := (sy_tasks s)(t \<mapsto> ?k)\<rparr>"
  have up: "upd_task t (\<lambda>k. k\<lparr>t_current := xs ! ?i\<rparr>) s = Some ?s" using assms(3) by (simp add: upd_task_def)
  have fwd: "\<exists>u. sy_steps s (xs ! j) = Some u \<and> ts_next u = xs ! shift ?n j 1" if "j < ?n" for j
    using ring_next [OF r(3) that] by (auto simp: shift_next)
  have bwd: "\<exists>u. sy_steps s (xs ! j) = Some u \<and> ts_prev u = xs ! shift ?n j (-1)" if "j < ?n" for j
    using ring_prev [OF r(3) that] shift_prev [OF that] by auto
  have w: "(if step > 0 then walk ts_next t (nat step) s else if step < 0 then walk ts_prev t (nat (- step)) s else Some s) = Some ?s"
    using walk_eq [OF fwd assms(3,5,4), of "nat step"] walk_eq [OF bwd assms(3,5,4), of "nat (- step)"]
      upd_task_self [OF assms(3,5)] assms(4) up by (auto simp: shift_0 not_less)
  have i: "?i < ?n" by (rule shift_less [OF n])
  have nn: "hd xs \<noteq> NULL" "xs ! ?i \<noteq> NULL" using ring_member(1) [OF r(3)] ne nth_mem [OF i] by auto
  have H: "holds_steps ?s t xs" using r ne by (auto simp: holds_steps_def)
  have "task_step_resume cb x TASK_RET_NEXT step s = task_run_steps cb t ?s"
    using u w by (auto simp: task_step_resume_def task_rets split: if_splits)
  also have "\<dots> = run_loop cb t ?s" using nn r by (simp add: task_run_steps_def)
  also have "\<dots> = exec cb t (hd xs) (drop ?i xs) ?s" by (rule run_loop_ok [OF assms(1) H, of ?k]) (use i in simp_all)
  also have "\<dots> = exec cb t (hd xs) (drop ?i xs) s" by (rule exec_again [OF up])
  finally have "task_step_resume cb x TASK_RET_NEXT step s = exec cb t (hd xs) (drop ?i xs) s" .
  moreover have "\<forall>x \<in> set (drop ?i xs). x \<noteq> NULL \<and> sy_steps s x \<noteq> None"
    using ring_member [OF r(3)] in_set_dropD [of _ ?i xs] by fastforce
  then have "\<exists>s'. exec cb t (hd xs) (drop ?i xs) s = Some s'" using exec_total [OF assms(1,3)] by blast
  ultimately show ?thesis by auto
qed

section \<open>Adding and removing steps\<close>

lemma ring_snoc:
  assumes r: "ring m t xs" and x: "x \<notin> set xs" "x \<noteq> NULL"
    and old: "\<And>y k. y \<in> set xs \<Longrightarrow> m y = Some k \<Longrightarrow>
      m' y = Some (k\<lparr>ts_next := if y = last xs then x else ts_next k, ts_prev := if y = hd xs then x else ts_prev k\<rparr>)"
    and new: "m' x = Some k'" "ts_t k' = t" "ts_next k' = hd xs" "ts_prev k' = last xs"
  shows "ring m' t (xs @ [x])"
proof -
  let ?n = "length xs" and ?ys = "xs @ [x]"
  have ne: "xs \<noteq> []" "distinct xs" "NULL \<notin> set xs" using r by (simp_all add: ring_def)
  have n: "0 < ?n" using ne(1) by simp
  have last: "last xs = xs ! (?n - 1)" and hd: "hd xs = xs ! 0" using ne(1) by (simp_all add: last_conv_nth hd_conv_nth)
  have ent: "\<exists>k. m' (xs ! i) = Some k \<and> ts_t k = t \<and> ts_next k = (if i = ?n - 1 then x else xs ! Suc i)
      \<and> ts_prev k = (if i = 0 then x else xs ! (i - 1))" if i: "i < ?n" for i
  proof -
    obtain k where k: "m (xs ! i) = Some k" "ts_t k = t" "ts_next k = xs ! (Suc i mod ?n)" using ring_next [OF r i] by blast
    have p: "ts_prev k = xs ! ((i + ?n - 1) mod ?n)" using ring_prev [OF r i] k(1) by auto
    have l: "xs ! i = last xs \<longleftrightarrow> i = ?n - 1" and h: "xs ! i = hd xs \<longleftrightarrow> i = 0"
      unfolding last hd using ne(2) i n by (simp_all add: nth_eq_iff_index_eq)
    let ?k = "k\<lparr>ts_next := if i = ?n - 1 then x else ts_next k, ts_prev := if i = 0 then x else ts_prev k\<rparr>"
    have m': "m' (xs ! i) = Some ?k" using old [OF nth_mem [OF i] k(1)] unfolding l h .
    have a: "Suc i mod ?n = Suc i" if "i \<noteq> ?n - 1" using i that by (intro mod_less) linarith
    have b: "(i + ?n - 1) mod ?n = i - 1" if "i \<noteq> 0"
    proof -
      have "i + ?n - 1 = i - 1 + ?n" using that by linarith
      then have "(i + ?n - 1) mod ?n = (i - 1 + ?n) mod ?n" by (rule arg_cong)
      also have "\<dots> = i - 1" using i by simp
      finally show ?thesis .
    qed
    have ka: "ts_next k = xs ! Suc i" if "i \<noteq> ?n - 1" using k(3) a [OF that] by metis
    have kb: "ts_prev k = xs ! (i - 1)" if "i \<noteq> 0" using p b [OF that] by metis
    have "ts_next ?k = (if i = ?n - 1 then x else xs ! Suc i)" using ka by simp
    moreover have "ts_prev ?k = (if i = 0 then x else xs ! (i - 1))" using kb by simp
    moreover have "ts_t ?k = t" using k(2) by simp
    ultimately show ?thesis using m' by blast
  qed
  have "\<exists>k l. m' (?ys ! i) = Some k \<and> ts_t k = t \<and> m' (?ys ! (Suc i mod Suc ?n)) = Some l
      \<and> ts_next k = ?ys ! (Suc i mod Suc ?n) \<and> ts_prev l = ?ys ! i" if i: "i < Suc ?n" for i
  proof -
    consider "Suc i < ?n" | "Suc i = ?n" | "i = ?n" using i by linarith
    then show ?thesis
    proof cases
      case 1
      then have "?ys ! i = xs ! i" "?ys ! (Suc i mod Suc ?n) = xs ! Suc i" by (simp_all add: nth_append)
      moreover obtain k where "m' (xs ! i) = Some k" "ts_t k = t" "ts_next k = xs ! Suc i"
      proof -
        have "i \<noteq> ?n - 1" "i < ?n" using 1 by linarith+
        then show ?thesis using ent [of i] that by auto
      qed
      moreover obtain l where "m' (xs ! Suc i) = Some l" "ts_prev l = xs ! i" using ent [of "Suc i"] 1 by auto
      ultimately show ?thesis by metis
    next
      case 2
      then have i: "i = ?n - 1" "i < ?n" by linarith+
      then have "last xs = xs ! i" using last by metis
      moreover have "?ys ! i = xs ! i" "?ys ! (Suc i mod Suc ?n) = x" using i(2) 2 by (simp_all add: nth_append)
      moreover obtain k where "m' (xs ! i) = Some k" "ts_t k = t" "ts_next k = x" using ent [OF i(2)] i(1) by auto
      ultimately show ?thesis using new by auto
    next
      case 3
      then have "?ys ! i = x" "?ys ! (Suc i mod Suc ?n) = xs ! 0" using n by (simp_all add: nth_append)
      then show ?thesis using ent [of 0] new n hd by auto
    qed
  qed
  then show ?thesis using ne x by (simp add: ring_def)
qed

text \<open>C22: \<^verbatim>\<open>task_push_back_step\<close> with a step that is not yet in the task keeps the ring closed in both directions and
  puts the step at its end, after the ones pushed before; no other task changes.\<close>

theorem task_push_back_spec:
  assumes "holds_steps s t xs" "x \<notin> set xs" "x \<noteq> NULL" "sy_steps s x = Some u"
  shows "\<exists>s'. task_push_back_step t x s = Some s' \<and> holds_steps s' t (xs @ [x]) \<and> (\<forall>t'. t' = t \<or> sy_tasks s' t' = sy_tasks s t')"
proof (cases "xs = []")
  case True
  then obtain k where k: "t \<noteq> NULL" "sy_tasks s t = Some k" "t_head k = NULL" using assms(1) by (auto simp: holds_steps_def)
  then show ?thesis using assms True
    by (simp add: task_push_back_step_def upd_task_def upd_step_def holds_steps_def ring_def)
next
  case False
  then obtain k where k: "t \<noteq> NULL" "sy_tasks s t = Some k" "t_head k = hd xs" "ring (sy_steps s) t xs"
    using assms(1) by (auto simp: holds_steps_def)
  let ?h = "hd xs" and ?l = "last xs"
  have n: "0 < length xs" using False by simp
  obtain h where h: "sy_steps s ?h = Some h" "ts_prev h = ?l"
    using ring_prev [OF k(4) n] False by (auto simp: hd_conv_nth last_conv_nth)
  obtain l where l: "sy_steps s ?l = Some l" using ring_member(2) [OF k(4), of ?l] False by auto
  have ne: "?h \<noteq> NULL" "?h \<noteq> x" "?l \<noteq> x" using assms(2) False ring_member(1) [OF k(4), of ?h] by auto
  have hl: "?h = ?l \<Longrightarrow> h = l" using h l by simp
  let ?m1 = "(sy_steps s)(?l \<mapsto> l\<lparr>ts_next := x\<rparr>)"
  let ?m2 = "?m1(x \<mapsto> u\<lparr>ts_prev := ?l\<rparr>)"
  let ?m3 = "?m2(?h \<mapsto> (the (?m2 ?h))\<lparr>ts_prev := x\<rparr>)"
  let ?m = "?m3(x \<mapsto> u\<lparr>ts_prev := ?l, ts_next := ?h, ts_t := t\<rparr>)"
  have "task_push_back_step t x s = Some (s\<lparr>sy_steps := ?m\<rparr>)"
    using assms(3,4) k h l ne hl by (cases "?h = ?l") (simp_all add: task_push_back_step_def upd_step_def)
  moreover have "ring ?m t (xs @ [x])"
  proof (rule ring_snoc [OF k(4) assms(2,3), where k' = "u\<lparr>ts_prev := ?l, ts_next := ?h, ts_t := t\<rparr>"])
    fix y v
    assume "y \<in> set xs" "sy_steps s y = Some v"
    moreover from this have "y \<noteq> x" using assms(2) by auto
    ultimately show "?m y = Some (v\<lparr>ts_next := if y = ?l then x else ts_next v, ts_prev := if y = ?h then x else ts_prev v\<rparr>)"
      using h l ne by auto
  qed (use ne in simp_all)
  ultimately show ?thesis using k False by (simp add: holds_steps_def)
qed

lemma task_erase_head_dangles:
  \<comment> \<open>nothing moves \<open>head\<close>: the step that was erased is still where the task starts, and no longer leads to the others\<close>
  assumes "holds_steps s t xs" "xs \<noteq> []" "length xs > 1"
  shows "\<exists>s' k u. task_erase_step t (hd xs) s = Some s' \<and> sy_tasks s' t = Some k \<and> t_head k = hd xs
    \<and> sy_steps s' (hd xs) = Some u \<and> ts_next u = NULL"
proof -
  obtain k where k: "t \<noteq> NULL" "sy_tasks s t = Some k" "t_head k = hd xs" "ring (sy_steps s) t xs"
    using assms(1,2) by (auto simp: holds_steps_def)
  have n: "0 < length xs" using assms(3) by linarith
  let ?p = "xs ! ((0 + length xs - 1) mod length xs)" and ?q = "xs ! (Suc 0 mod length xs)"
  obtain u where u: "sy_steps s (hd xs) = Some u" "ts_prev u = ?p" "ts_next u = ?q"
    using ring_prev [OF k(4) n] ring_next [OF k(4) n] assms(2) by (auto simp: hd_nth)
  obtain p' q' where pq: "sy_steps s ?p = Some p'" "sy_steps s ?q = Some q'"
    using ring_member(2) [OF k(4) nth_mem [OF mod_less_divisor [OF n]]] by blast
  have other: "xs ! i \<noteq> hd xs" if "0 < i" "i < length xs" for i
    using k(4) assms(2) that by (simp add: ring_def hd_nth nth_eq_iff_index_eq)
  have q: "Suc 0 mod length xs = Suc 0" by (rule mod_less) (use assms(3) in linarith)
  have p: "(0 + length xs - 1) mod length xs = 0 + length xs - 1" by (rule mod_less) (use n in linarith)
  have "?q \<noteq> hd xs" unfolding q by (rule other) (use assms(3) in linarith)+
  moreover have "?p \<noteq> hd xs" unfolding p by (rule other) (use assms(3) in linarith)+
  moreover have "hd xs \<noteq> NULL" using ring_member(1) [OF k(4), of "hd xs"] assms(2) by simp
  ultimately show ?thesis using k u pq unfolding task_erase_step_def upd_step_def
    by (cases "?p = ?q") (simp_all del: One_nat_def)
qed

section \<open>The timeout\<close>

datatype event = Ran ptr | Succeeded ptr | Failed ptr int

definition log_calls :: "(ptr \<Rightarrow> int) \<Rightarrow> event list calls" where
  \<comment> \<open>callbacks that record that they were called; \<open>res\<close>: what the steps answer\<close>
  "log_calls res = \<lparr>c_run = \<lambda>f x s. Some (s\<lparr>sy_world := sy_world s @ [Ran x]\<rparr>, res x),
     c_success = \<lambda>f t s. Some (s\<lparr>sy_world := sy_world s @ [Succeeded t]\<rparr>),
     c_fail = \<lambda>f t e s. Some (s\<lparr>sy_world := sy_world s @ [Failed t e]\<rparr>)\<rparr>"

lemma tame_log: "tame (log_calls res)"
  by (simp add: tame_def log_calls_def same_def)

lemma exec_log_next:
  assumes "\<forall>x \<in> set xs. res x = TASK_RET_NEXT \<and> x \<noteq> NULL \<and> (\<exists>u. sy_steps s x = Some u \<and> ts_run u \<noteq> NULL)" "sy_tasks s t = Some k"
  shows "exec (log_calls res) t h xs s = Some (s\<lparr>sy_tasks := (sy_tasks s)(t \<mapsto> k\<lparr>t_current := NULL\<rparr>),
    sy_world := sy_world s @ List.map Ran xs @ [Succeeded t]\<rparr>)"
  using assms
proof (induction xs arbitrary: s k)
  case Nil
  then show ?case by (cases s) (simp add: upd_task_def call_success_def finished_def log_calls_def, simp add: fun_upd_def)
next
  case (Cons x xs)
  let ?s = "s\<lparr>sy_tasks := (sy_tasks s)(t \<mapsto> k\<lparr>t_current := x\<rparr>), sy_world := sy_world s @ [Ran x]\<rparr>"
  have "exec (log_calls res) t h (x # xs) s = exec (log_calls res) t h xs ?s"
    using Cons.prems by (auto simp: upd_task_def task_step_run_def log_calls_def)
  also have "\<dots> = Some (?s\<lparr>sy_tasks := (sy_tasks ?s)(t \<mapsto> k\<lparr>t_current := x, t_current := NULL\<rparr>),
      sy_world := sy_world ?s @ List.map Ran xs @ [Succeeded t]\<rparr>)"
    by (rule Cons.IH) (use Cons.prems in auto)
  finally show ?case by (cases s) (simp del: exec.simps, simp del: exec.simps add: fun_upd_def)
qed

text \<open>C23: finishing a task leaves its timeout armed: after \<^verbatim>\<open>task_run\<close> has run every step and called \<^verbatim>\<open>on_success\<close>, the
  task counts as finished, but its timer identifier is still the registered one, and when the timer fires
  \<^verbatim>\<open>on_fail\<close> follows.\<close>

theorem task_timeout_after_success:
  assumes "holds_steps s t xs" "xs \<noteq> []" "timer \<noteq> NULL" "tid \<noteq> TIMER_INVALID_ID"
    "\<forall>x \<in> set xs. res x = TASK_RET_NEXT \<and> (\<exists>u. sy_steps s x = Some u \<and> ts_run u \<noteq> NULL)"
  shows "\<exists>s1 k s2. task_run (log_calls res) t timer True tid s = Some s1 \<and> task_is_finished t s1 = Some 0
    \<and> sy_tasks s1 t = Some k \<and> t_timer_id k = tid
    \<and> task_timeout (log_calls res) t s1 = Some (s2, 0) \<and> sy_world s2 = sy_world s @ List.map Ran xs @ [Succeeded t, Failed t 0]"
proof -
  obtain k where k: "t \<noteq> NULL" "sy_tasks s t = Some k" "ring (sy_steps s) t xs"
    using assms(1,2) by (auto simp: holds_steps_def)
  let ?k = "k\<lparr>t_timer := timer, t_timer_id := tid\<rparr>"
  let ?s = "s\<lparr>sy_tasks := (sy_tasks s)(t \<mapsto> ?k)\<rparr>"
  have arm: "arm t timer True tid s = Some ?s" using k assms(3) by (simp add: arm_def upd_task_def)
  have all: "\<forall>x \<in> set xs. res x = TASK_RET_NEXT \<and> x \<noteq> NULL \<and> (\<exists>u. sy_steps ?s x = Some u \<and> ts_run u \<noteq> NULL)"
    using assms(5) ring_member(1) [OF k(3)] by fastforce
  let ?s1 = "?s\<lparr>sy_tasks := (sy_tasks ?s)(t \<mapsto> ?k\<lparr>t_current := NULL\<rparr>), sy_world := sy_world ?s @ List.map Ran xs @ [Succeeded t]\<rparr>"
  have "task_run (log_calls res) t timer True tid s = Some ?s1"
    using task_run_eq [OF tame_log assms(1,2,4)] arm exec_log_next [OF all, of t ?k] by simp
  moreover have "task_is_finished t ?s1 = Some 0" using k by (simp add: task_is_finished_def)
  moreover have "sy_tasks ?s1 t = Some (?k\<lparr>t_current := NULL\<rparr>)" "t_timer_id (?k\<lparr>t_current := NULL\<rparr>) = tid" by simp_all
  moreover have "\<exists>s2. task_timeout (log_calls res) t ?s1 = Some (s2, 0)
      \<and> sy_world s2 = sy_world s @ List.map Ran xs @ [Succeeded t, Failed t 0]"
    using k by (simp add: task_timeout_def call_fail_def finished_def upd_task_def log_calls_def)
  ultimately show ?thesis by blast
qed

section \<open>Looking up, identifiers, release\<close>

lemma get_loop_spec:
  assumes "ring m t xs" "sy_steps s = m" "i < length xs"
  shows "get_loop (hd xs) n (xs ! i) s = Some (case List.find (\<lambda>x. \<exists>k. m x = Some k \<and> ts_id k = n) (drop i xs) of Some x \<Rightarrow> x | None \<Rightarrow> hd xs)"
  using assms(3)
proof (induction "length xs - i" arbitrary: i rule: less_induct)
  case less
  obtain k where k: "m (xs ! i) = Some k" "ts_next k = xs ! (Suc i mod length xs)" using ring_next [OF assms(1) less.prems] by blast
  have ne: "xs \<noteq> []" using less.prems by auto
  have x: "xs ! i \<noteq> NULL" using ring_member(1) [OF assms(1) nth_mem [OF less.prems]] .
  have d: "drop i xs = xs ! i # drop (Suc i) xs" using less.prems by (simp add: Cons_nth_drop_Suc)
  have step: "get_loop (hd xs) n (xs ! i) s = (if ts_id k = n then Some (xs ! i)
      else if ts_next k \<noteq> hd xs then get_loop (hd xs) n (ts_next k) s else Some (hd xs))"
    using k(1) x assms(2) by (subst get_loop.simps) (simp add: task_step_id_def)
  show ?case
  proof (cases "Suc i < length xs")
    case True
    then have "ts_next k = xs ! Suc i" "xs ! Suc i \<noteq> hd xs" using k(2) assms(1) ne by (simp_all add: hd_nth ring_def nth_eq_iff_index_eq)
    moreover have "get_loop (hd xs) n (xs ! Suc i) s = Some (case List.find (\<lambda>x. \<exists>k. m x = Some k \<and> ts_id k = n) (drop (Suc i) xs) of Some x \<Rightarrow> x | None \<Rightarrow> hd xs)"
      by (rule less.hyps) (use True in linarith)+
    ultimately show ?thesis unfolding step d using k(1) by simp
  next
    case False
    then have "Suc i = length xs" using less.prems by linarith
    then show ?thesis unfolding step d using k ne by (simp add: hd_nth)
  qed
qed

lemma task_get_step_spec:
  \<comment> \<open>the first step with the identifier; the head of the task when there is none\<close>
  assumes "holds_steps s t xs" "xs \<noteq> []"
  shows "task_get_step t n s = Some (case List.find (\<lambda>x. \<exists>k. sy_steps s x = Some k \<and> ts_id k = n) xs of Some x \<Rightarrow> x | None \<Rightarrow> hd xs)"
proof -
  obtain k where k: "t \<noteq> NULL" "sy_tasks s t = Some k" "t_head k = hd xs" "ring (sy_steps s) t xs"
    using assms by (auto simp: holds_steps_def)
  have "hd xs \<noteq> NULL" using ring_member(1) [OF k(4), of "hd xs"] assms(2) by simp
  then show ?thesis using k assms(2) get_loop_spec [OF k(4) refl, of 0 n] by (simp add: task_get_step_def hd_nth)
qed

lemma next_id_ok:
  assumes "n < m" "m > (1::u32)"
  shows "(if n + 1 \<ge> m then 1 else n + 1) \<noteq> 0 \<and> (if n + 1 \<ge> m then 1 else n + 1) < m"
proof -
  have "n + 1 \<noteq> 0" using assms(1) by unat_arith
  then show ?thesis using assms(2) by auto
qed

lemma task_step_create_id:
  \<comment> \<open>the identifiers stay in their range and are never the invalid one, also after the wrap-around\<close>
  assumes "task_step_create a t run param (n, s) = Some ((n', s'), x)" "n < TASK_STEP_ID_MASK"
  shows "n' \<noteq> TASK_INVALID_ID \<and> n' < TASK_STEP_ID_MASK \<and> task_step_id x s' = Some n'"
proof -
  have m: "(1::u32) < TASK_STEP_ID_MASK" by (simp add: TASK_STEP_ID_MASK_def push_bit_eq_mult)
  let ?n = "if n + 1 \<ge> TASK_STEP_ID_MASK then 1 else n + 1"
  have "a \<noteq> NULL" using assms(1) by (cases "a = NULL") (simp_all add: task_step_create_def)
  then have "n' = ?n" "x = a" "map_option ts_id (sy_steps s' a) = Some ?n"
    using assms(1) unfolding task_step_create_def Let_def by (cases "n + 1 \<ge> TASK_STEP_ID_MASK"; force)+
  then show ?thesis using next_id_ok [OF assms(2) m] \<open>a \<noteq> NULL\<close> by (simp only: task_step_id_def TASK_INVALID_ID_def if_True not_False_eq_True)
qed

lemma release_steps_spec:
  assumes "ring m t xs" "i < length xs" "\<forall>y \<in> set (drop i xs). sy_steps s y = m y"
  shows "release_steps (hd xs) (xs ! i) s = Some (s\<lparr>sy_steps := \<lambda>y. if y \<in> set (drop i xs) then None else sy_steps s y\<rparr>)"
  using assms(2,3)
proof (induction "length xs - i" arbitrary: i s rule: less_induct)
  case less
  have ne: "xs \<noteq> []" "distinct xs" using assms(1) by (simp_all add: ring_def)
  obtain k where k: "m (xs ! i) = Some k" "ts_next k = xs ! (Suc i mod length xs)" using ring_next [OF assms(1) less.prems(1)] by blast
  have x: "xs ! i \<noteq> NULL" using ring_member(1) [OF assms(1) nth_mem [OF less.prems(1)]] .
  have d: "drop i xs = xs ! i # drop (Suc i) xs" using less.prems(1) by (simp add: Cons_nth_drop_Suc)
  have nin: "xs ! i \<notin> set (drop (Suc i) xs)" using ne(2) distinct_drop [of xs i] unfolding d by simp
  have sx: "sy_steps s (xs ! i) = Some k" using less.prems(2) k(1) unfolding d by simp
  let ?s = "s\<lparr>sy_steps := (sy_steps s)(xs ! i := None)\<rparr>"
  have step: "release_steps (hd xs) (xs ! i) s = (if ts_next k \<noteq> hd xs then release_steps (hd xs) (ts_next k) ?s else Some ?s)"
    using sx x by (subst release_steps.simps) (simp add: task_step_release_def)
  show ?case
  proof (cases "Suc i < length xs")
    case True
    then have nx: "ts_next k = xs ! Suc i" "xs ! Suc i \<noteq> hd xs" using k(2) ne by (simp_all add: hd_nth nth_eq_iff_index_eq)
    have "\<forall>y \<in> set (drop (Suc i) xs). sy_steps ?s y = m y" using less.prems(2) nin unfolding d by auto
    then have "release_steps (hd xs) (xs ! Suc i) ?s
        = Some (?s\<lparr>sy_steps := \<lambda>y. if y \<in> set (drop (Suc i) xs) then None else sy_steps ?s y\<rparr>)"
      by (intro less.hyps) (use True in linarith)+
    then show ?thesis unfolding step d using nx by (auto intro!: arg_cong [where f = "\<lambda>z. s\<lparr>sy_steps := z\<rparr>"])
  next
    case False
    then have "Suc i = length xs" using less.prems(1) by linarith
    then show ?thesis unfolding step d using k(2) ne by (auto simp: hd_nth intro!: arg_cong [where f = "\<lambda>z. s\<lparr>sy_steps := z\<rparr>"])
  qed
qed

lemma task_release_spec:
  \<comment> \<open>releasing a task frees it and every step that it holds, and unregisters the timer that is armed\<close>
  assumes "holds_steps s t xs" "sy_tasks s t = Some k"
  shows "task_release t s = Some (s\<lparr>sy_steps := \<lambda>y. if y \<in> set xs then None else sy_steps s y, sy_tasks := (sy_tasks s)(t := None)\<rparr>,
    if t_timer k \<noteq> NULL \<and> t_timer_id k \<noteq> TIMER_INVALID_ID then Some (t_timer_id k) else None)"
proof (cases "xs = []")
  case True
  then show ?thesis using assms by (simp add: holds_steps_def task_release_def)
next
  case False
  then have r: "t_head k = hd xs" "ring (sy_steps s) t xs" using assms by (auto simp: holds_steps_def)
  then have "hd xs \<noteq> NULL" using ring_member(1) [OF r(2), of "hd xs"] False by simp
  moreover have "release_steps (hd xs) (xs ! 0) s = Some (s\<lparr>sy_steps := \<lambda>y. if y \<in> set (drop 0 xs) then None else sy_steps s y\<rparr>)"
    by (rule release_steps_spec [OF r(2)]) (use False in simp_all)
  ultimately show ?thesis using assms(2) r(1) False by (simp add: task_release_def hd_nth)
qed

section \<open>The properties on a task of two steps\<close>

definition demo :: "event list sys" where
  \<comment> \<open>a task with two steps, the second pending, and a step of its own\<close>
  "demo = \<lparr>sy_tasks = [9 \<mapsto> \<lparr>t_id = 7, t_current = 2, t_head = 1, t_success = 51, t_fail = 52, t_param = NULL, t_timer = NULL, t_timer_id = TIMER_INVALID_ID\<rparr>],
    sy_steps = [1 \<mapsto> \<lparr>ts_id = 1, ts_t = 9, ts_next = 2, ts_prev = 2, ts_run = 53, ts_param = NULL\<rparr>,
      2 \<mapsto> \<lparr>ts_id = 2, ts_t = 9, ts_next = 1, ts_prev = 1, ts_run = 54, ts_param = NULL\<rparr>,
      3 \<mapsto> \<lparr>ts_id = 3, ts_t = NULL, ts_next = NULL, ts_prev = NULL, ts_run = 55, ts_param = NULL\<rparr>], sy_world = []\<rparr>"

lemma demo_holds: "holds_steps demo 9 [1, 2]"
proof -
  have "ring (sy_steps demo) 9 [1, 2]"
    unfolding ring_def demo_def by (auto simp: less_Suc_eq)
  then show ?thesis by (simp add: holds_steps_def demo_def)
qed


lemma task_step_resume_next_witness:
  "\<exists>s'. exec (log_calls (\<lambda>x. TASK_RET_SUCCESS)) 9 1 [1, 2] demo = Some s'
    \<and> task_step_resume (log_calls (\<lambda>x. TASK_RET_SUCCESS)) 2 TASK_RET_NEXT (-3) demo = Some s'"
proof -
  have "\<exists>k. sy_tasks demo 9 = Some k \<and> t_current k = [1, 2] ! 1" by (simp add: demo_def)
  then obtain k where k: "sy_tasks demo 9 = Some k" "t_current k = [1, 2] ! 1" by blast
  show ?thesis using task_step_resume_next [OF tame_log demo_holds k(1) _ k(2), of 2 "\<lambda>x. TASK_RET_SUCCESS" "-3"]
    by (simp add: shift_def del: exec.simps)
qed

lemma task_push_back_spec_witness: "\<exists>s'. task_push_back_step 9 3 demo = Some s' \<and> holds_steps s' 9 [1, 2, 3]"
proof -
  have "\<exists>u. sy_steps demo 3 = Some u" by (simp add: demo_def)
  then obtain u where "sy_steps demo 3 = Some u" by blast
  then show ?thesis using task_push_back_spec [OF demo_holds, of 3 u] by auto
qed

lemma task_timeout_after_success_witness:
  "\<exists>s1 s2. task_run (log_calls (\<lambda>x. TASK_RET_NEXT)) 9 8 True 5 demo = Some s1
    \<and> task_timeout (log_calls (\<lambda>x. TASK_RET_NEXT)) 9 s1 = Some (s2, 0) \<and> sy_world s2 = [Ran 1, Ran 2, Succeeded 9, Failed 9 0]"
proof -
  have "\<forall>x \<in> set [1, 2]. TASK_RET_NEXT = TASK_RET_NEXT \<and> (\<exists>u. sy_steps demo x = Some u \<and> ts_run u \<noteq> NULL)" "sy_world demo = []"
    by (simp_all add: demo_def)
  then show ?thesis using task_timeout_after_success [OF demo_holds, of 8 5 "\<lambda>x. TASK_RET_NEXT"] by (auto simp: TIMER_INVALID_ID_def)
qed

end
