(* ===== verification/Mm_Buddy.thy ===== *)
theory Mm_Buddy
  imports Base_Rbuffer
begin

text \<open>
  \<^verbatim>\<open>mm/buddy.c\<close>: the buddy allocator.  Its index is a complete binary tree in an array
  (children of \<open>i\<close> at \<open>2 * i\<close> and \<open>2 * i + 1\<close>, element 0 unused); the address of an allocated
  block is its offset from the start of the pool.  Sizes are the C values, which are natural
  numbers below \<open>2 ^ 31\<close> wherever the code is defined; the loops are the recursive functions
  \<open>buddy_climb\<close>, \<open>buddy_set_full\<close>, \<open>buddy_alloc_loop\<close>, \<open>buddy_seek\<close>, \<open>buddy_merge\<close> and
  \<open>buddy_unfull\<close>.  The abstraction is a binary tree of free and allocated blocks.
\<close>

section \<open>State and operations\<close>

definition BUDDY_UNUSED :: int where "BUDDY_UNUSED = 0"
definition BUDDY_USED :: int where "BUDDY_USED = 1"
definition BUDDY_SPLIT :: int where "BUDDY_SPLIT = 2"
definition BUDDY_FULL :: int where "BUDDY_FULL = 3"
definition BUDDY_MIN_SIZE :: nat where "BUDDY_MIN_SIZE = 4"

lemmas buddy_status_defs = BUDDY_UNUSED_def BUDDY_USED_def BUDDY_SPLIT_def BUDDY_FULL_def

record buddy_t =
  b_pool_size :: nat
  b_min_size :: nat
  b_min_order :: nat
  b_max_order :: nat
  b_tree :: "int list"
  b_tree_size :: nat
  b_pool :: "u8 list"

definition ROUNDUP_size :: "nat \<Rightarrow> nat option" where
  \<comment> \<open>on a \<^verbatim>\<open>size_t\<close>: \<open>n - 1\<close> wraps at 0, and the shifted 1 is an \<^verbatim>\<open>int\<close>\<close>
  "ROUNDUP_size n = (if n = 1 then Some 1
     else let k = ILOG2 ((n + 2 ^ 64 - 1) mod 2 ^ 64) + 1 in if k < 31 then Some (2 ^ k) else None)"

definition BUDDY_SIZE_FROM_INDEX :: "buddy_t \<Rightarrow> nat \<Rightarrow> nat" where
  "BUDDY_SIZE_FROM_INDEX b index = b_pool_size b div 2 ^ ILOG2 index"

definition BUDDY_SHIFT_FROM_INDEX :: "buddy_t \<Rightarrow> nat \<Rightarrow> nat" where
  "BUDDY_SHIFT_FROM_INDEX b index = b_pool_size b div 2 ^ ILOG2 index * (index - 2 ^ ILOG2 index)"

definition buddy_init :: "bool \<Rightarrow> bool \<Rightarrow> (nat \<Rightarrow> u8 list option) \<Rightarrow> nat \<Rightarrow> nat \<Rightarrow> buddy_t option option" where
  \<comment> \<open>\<open>ok\<close>, \<open>okt\<close>, \<open>mp\<close>: the allocations of the handle, of the index and of the pool\<close>
  "buddy_init ok okt mp sz min_alloc_size = do {
     let min_alloc_size = (if min_alloc_size < BUDDY_MIN_SIZE then BUDDY_MIN_SIZE else min_alloc_size);
     real_size \<leftarrow> ROUNDUP_size sz;
     real_min_size \<leftarrow> ROUNDUP_size min_alloc_size;
     if real_min_size \<ge> real_size then Some None
     else if \<not> ok then Some None
     else do {
       c_assert (real_size * 2 < 2 ^ 31);
       let tree_size = real_size * 2 div real_min_size;
       if \<not> okt then Some None
       else (case mp real_size of
           None \<Rightarrow> Some None
         | Some pool \<Rightarrow> Some (Some \<lparr>b_pool_size = real_size, b_min_size = real_min_size,
             b_min_order = ILOG2 real_min_size, b_max_order = ILOG2 real_size,
             b_tree = replicate tree_size BUDDY_UNUSED, b_tree_size = tree_size, b_pool = pool\<rparr>)) } }"

function buddy_climb :: "nat \<Rightarrow> nat" where
  \<comment> \<open>\<^verbatim>\<open>while ((index & 1) && (index > 1)) index /= 2\<close>\<close>
  "buddy_climb index = (if odd index \<and> index > 1 then buddy_climb (index div 2) else index)"
  by pat_completeness auto
termination by (relation "measure id") auto

declare buddy_climb.simps [simp del]

definition buddy_busy :: "int list \<Rightarrow> nat \<Rightarrow> bool option" where
  "buddy_busy T i = do { x \<leftarrow> rd T i; Some (x = BUDDY_USED \<or> x = BUDDY_FULL) }"

function buddy_set_full :: "int list \<Rightarrow> nat \<Rightarrow> int list option" where
  "buddy_set_full T index =
     (if index > 1 then do {
        let left = 2 * (index div 2);
        l \<leftarrow> buddy_busy T left;
        r \<leftarrow> (if l then buddy_busy T (left + 1) else Some False);
        if l \<and> r then do {
          T' \<leftarrow> wr T (index div 2) BUDDY_FULL;
          buddy_set_full T' (index div 2) }
        else Some T }
      else Some T)"
  by pat_completeness auto
termination by (relation "measure snd") auto

declare buddy_set_full.simps [simp del]

partial_function (option) buddy_alloc_loop ::
  "buddy_t \<Rightarrow> nat \<Rightarrow> int list \<Rightarrow> nat \<Rightarrow> (int list \<times> nat option) option" where
  "buddy_alloc_loop b malloc_size T index =
     (if index < b_tree_size b then do {
        x \<leftarrow> rd T index;
        let mem_size = BUDDY_SIZE_FROM_INDEX b index;
        if x = BUDDY_UNUSED then
          (if mem_size = malloc_size then do {
             T1 \<leftarrow> wr T index BUDDY_USED;
             T2 \<leftarrow> buddy_set_full T1 index;
             Some (T2, Some (BUDDY_SHIFT_FROM_INDEX b index)) }
           else if mem_size > malloc_size then do {
             T1 \<leftarrow> wr T index BUDDY_SPLIT;
             buddy_alloc_loop b malloc_size T1 (index * 2) }
           else (let i = buddy_climb (index div 2) in
             if i = 1 then Some (T, None) else buddy_alloc_loop b malloc_size T (i + 1)))
        else if x = BUDDY_USED \<or> x = BUDDY_FULL then
          (let i = buddy_climb index in
             if i = 1 then Some (T, None) else buddy_alloc_loop b malloc_size T (i + 1))
        else if x = BUDDY_SPLIT then
          (if mem_size \<le> malloc_size then
             (let i = buddy_climb index in
               if i = 1 then Some (T, None) else buddy_alloc_loop b malloc_size T (i + 1))
           else buddy_alloc_loop b malloc_size T (index * 2))
        else buddy_alloc_loop b malloc_size T index }
      else Some (T, None))"

declare buddy_alloc_loop.simps [code]

fun buddy_alloc :: "buddy_t option \<Rightarrow> nat \<Rightarrow> (buddy_t option \<times> nat option) option" where
  "buddy_alloc None nbytes = Some (None, None)"
| "buddy_alloc (Some b) nbytes = do {
     malloc_size \<leftarrow> ROUNDUP_size nbytes;
     if nbytes > b_pool_size b then Some (Some b, None)
     else do {
       let malloc_size = (if malloc_size < b_min_size b then b_min_size b else malloc_size);
       (T, mem) \<leftarrow> buddy_alloc_loop b malloc_size (b_tree b) 1;
       Some (Some (b\<lparr>b_tree := T\<rparr>), mem) } }"

partial_function (option) buddy_seek :: "int list \<Rightarrow> nat \<Rightarrow> nat \<Rightarrow> nat \<Rightarrow> nat \<Rightarrow> (nat \<times> nat) option" where
  \<comment> \<open>the search for the used node over \<open>offset\<close>: its index and the offset it stands for\<close>
  "buddy_seek T offset index step current = do {
     x \<leftarrow> rd T index;
     if x = BUDDY_USED then Some (index, current)
     else (let step = step div 2; index = index * 2 in
       if offset \<ge> current + step then buddy_seek T offset (index + 1) step (current + step)
       else buddy_seek T offset index step current) }"

declare buddy_seek.simps [code]

function buddy_merge :: "int list \<Rightarrow> nat \<Rightarrow> int list option" where
  "buddy_merge T loop =
     (if loop > 1 then do {
        let left = 2 * (loop div 2);
        l \<leftarrow> rd T left;
        r \<leftarrow> (if l = BUDDY_UNUSED then rd T (left + 1) else Some BUDDY_USED);
        if l = BUDDY_UNUSED \<and> r = BUDDY_UNUSED then do {
          T' \<leftarrow> wr T (loop div 2) BUDDY_UNUSED;
          buddy_merge T' (loop div 2) }
        else Some T }
      else Some T)"
  by pat_completeness auto
termination by (relation "measure snd") auto

declare buddy_merge.simps [simp del]

function buddy_unfull :: "int list \<Rightarrow> nat \<Rightarrow> int list option" where
  "buddy_unfull T loop =
     (if loop > 1 then do {
        x \<leftarrow> rd T (loop div 2);
        if x = BUDDY_FULL then do {
          T' \<leftarrow> wr T (loop div 2) BUDDY_SPLIT;
          buddy_unfull T' (loop div 2) }
        else Some T }
      else Some T)"
  by pat_completeness auto
termination by (relation "measure snd") auto

declare buddy_unfull.simps [simp del]

fun buddy_free :: "buddy_t option \<Rightarrow> nat option \<Rightarrow> buddy_t option option" where
  \<comment> \<open>\<open>mem\<close> points into the pool\<close>
  "buddy_free (Some b) (Some offset) = do {
     c_assert (offset \<le> b_pool_size b);
     (index, current) \<leftarrow> buddy_seek (b_tree b) offset 1 (b_pool_size b) 0;
     c_assert (current = offset);
     T \<leftarrow> wr (b_tree b) index BUDDY_UNUSED;
     T \<leftarrow> buddy_merge T index;
     T \<leftarrow> buddy_unfull T index;
     Some (Some (b\<lparr>b_tree := T\<rparr>)) }"
| "buddy_free b mem = Some b"

fun buddy_realloc :: "buddy_t option \<Rightarrow> nat option \<Rightarrow> nat \<Rightarrow> (buddy_t option \<times> nat option) option" where
  "buddy_realloc None mem nbytes = Some (None, None)"
| "buddy_realloc (Some b) None nbytes = buddy_alloc (Some b) nbytes"
| "buddy_realloc (Some b) (Some offset) nbytes =
     (if nbytes = 0 then do { b' \<leftarrow> buddy_free (Some b) (Some offset); Some (b', None) }
      else do {
        c_assert (offset \<le> b_pool_size b);
        (index, current) \<leftarrow> buddy_seek (b_tree b) offset 1 (b_pool_size b) 0;
        let mem_size = BUDDY_SIZE_FROM_INDEX b index;
        (ba, new_mem) \<leftarrow> buddy_alloc (Some b) nbytes;
        bb \<leftarrow> (case (ba, new_mem) of
            (Some b1, Some new) \<Rightarrow> do {
              bytes \<leftarrow> rd_n (b_pool b1) offset (if mem_size < nbytes then mem_size else nbytes);
              pool \<leftarrow> blit (b_pool b1) new bytes;
              Some (Some (b1\<lparr>b_pool := pool\<rparr>)) }
          | _ \<Rightarrow> Some ba);
        bc \<leftarrow> buddy_free bb (Some offset);
        Some (bc, new_mem) })"

section \<open>The abstract tree of blocks\<close>

datatype blk = Free | Used | Pair blk blk

fun blk_full :: "blk \<Rightarrow> bool" where
  "blk_full Free = False"
| "blk_full Used = True"
| "blk_full (Pair l r) \<longleftrightarrow> blk_full l \<and> blk_full r"

fun blk_live :: "nat \<Rightarrow> nat \<Rightarrow> blk \<Rightarrow> (nat \<times> nat) list" where
  \<comment> \<open>offset and size of the allocated blocks of a tree of order \<open>n\<close> at an offset\<close>
  "blk_live n off Free = []"
| "blk_live n off Used = [(off, 2 ^ n)]"
| "blk_live n off (Pair l r) = blk_live (n - 1) off l @ blk_live (n - 1) (off + 2 ^ (n - 1)) r"

fun blk_alloc :: "nat \<Rightarrow> nat \<Rightarrow> nat \<Rightarrow> blk \<Rightarrow> (blk \<times> nat) option" where
  \<comment> \<open>the leftmost free block of order \<open>m\<close> or more, split down to order \<open>m\<close>\<close>
  "blk_alloc m n off Free = (if n = m then Some (Used, off)
     else if n > m then map_option (\<lambda>(l, p). (Pair l Free, p)) (blk_alloc m (n - 1) off Free) else None)"
| "blk_alloc m n off Used = None"
| "blk_alloc m n off (Pair l r) =
     (if n \<le> m then None
      else case blk_alloc m (n - 1) off l of
        Some (l', p) \<Rightarrow> Some (Pair l' r, p)
      | None \<Rightarrow> map_option (\<lambda>(r', p). (Pair l r', p)) (blk_alloc m (n - 1) (off + 2 ^ (n - 1)) r))"

definition blk_pair :: "blk \<Rightarrow> blk \<Rightarrow> blk" where
  "blk_pair l r = (if l = Free \<and> r = Free then Free else Pair l r)"

fun blk_free :: "nat \<Rightarrow> nat \<Rightarrow> nat \<Rightarrow> blk \<Rightarrow> blk option" where
  \<comment> \<open>release the block at offset \<open>p\<close> and merge free buddies\<close>
  "blk_free p n off Free = None"
| "blk_free p n off Used = (if p = off then Some Free else None)"
| "blk_free p n off (Pair l r) =
     (if p \<ge> off + 2 ^ (n - 1) then map_option (\<lambda>r'. blk_pair l r') (blk_free p (n - 1) (off + 2 ^ (n - 1)) r)
      else map_option (\<lambda>l'. blk_pair l' r) (blk_free p (n - 1) off l))"

fun blk_of :: "int list \<Rightarrow> nat \<Rightarrow> nat \<Rightarrow> blk" where
  \<comment> \<open>the tree that the index holds below \<open>i\<close>, \<open>k\<close> levels deep\<close>
  "blk_of T 0 i = (if T ! i = BUDDY_UNUSED then Free else Used)"
| "blk_of T (Suc k) i = (if T ! i = BUDDY_UNUSED then Free else if T ! i = BUDDY_USED then Used
     else Pair (blk_of T k (2 * i)) (blk_of T k (2 * i + 1)))"

fun blk_ok :: "nat \<Rightarrow> nat \<Rightarrow> blk \<Rightarrow> bool" where
  \<comment> \<open>no block is below the order \<open>m\<close> and free buddies are merged\<close>
  "blk_ok m n Free \<longleftrightarrow> m \<le> n"
| "blk_ok m n Used \<longleftrightarrow> m \<le> n"
| "blk_ok m n (Pair l r) \<longleftrightarrow> m < n \<and> blk_ok m (n - 1) l \<and> blk_ok m (n - 1) r \<and> \<not> (l = Free \<and> r = Free)"

fun blk_room :: "nat \<Rightarrow> blk \<Rightarrow> nat set" where
  \<comment> \<open>the orders of the free blocks\<close>
  "blk_room n Free = {n}"
| "blk_room n Used = {}"
| "blk_room n (Pair l r) = blk_room (n - 1) l \<union> blk_room (n - 1) r"

lemma pow_half: "m < n \<Longrightarrow> (2::nat) ^ n = 2 ^ (n - 1) + 2 ^ (n - 1)"
  by (cases n) auto

lemma blk_live_range:
  "blk_ok m n t \<Longrightarrow> (p, s) \<in> set (blk_live n off t) \<Longrightarrow> off \<le> p \<and> p + s \<le> off + 2 ^ n \<and> 0 < s"
proof (induction t arbitrary: n off)
  case (Pair l r)
  then show ?case using Pair.IH(1) [of "n - 1" off] Pair.IH(2) [of "n - 1" "off + 2 ^ (n - 1)"] pow_half [of m n]
    by fastforce
qed auto

lemma blk_live_aligned:
  "blk_ok m n t \<Longrightarrow> 2 ^ n dvd off \<Longrightarrow> (p, s) \<in> set (blk_live n off t) \<Longrightarrow> s dvd p"
proof (induction t arbitrary: n off)
  case (Pair l r)
  have "(2::nat) ^ (n - 1) dvd off"
    using Pair.prems(2) by (meson diff_le_self dvd_trans le_imp_power_dvd)
  then show ?case
    using Pair.IH(1) [of "n - 1" off] Pair.IH(2) [of "n - 1" "off + 2 ^ (n - 1)"] Pair.prems by auto
qed auto

lemma blk_live_apart:
  "blk_ok m n t \<Longrightarrow> sorted_wrt (\<lambda>(p, s) (q, u). p + s \<le> q) (blk_live n off t)"
proof (induction t arbitrary: n off)
  case (Pair l r)
  have "p + s \<le> q" if "(p, s) \<in> set (blk_live (n - 1) off l)" "(q, u) \<in> set (blk_live (n - 1) (off + 2 ^ (n - 1)) r)"
    for p s q u
    using blk_live_range [of m "n - 1" l p s off] blk_live_range [of m "n - 1" r q u "off + 2 ^ (n - 1)"] that Pair.prems
    by fastforce
  then show ?case using Pair by (auto simp: sorted_wrt_append)
qed auto

declare blk_alloc.simps(1) [simp del]

lemma blk_alloc_Some:
  "blk_alloc m n off t = Some (t', p) \<Longrightarrow> blk_ok m0 n t \<Longrightarrow> m0 \<le> m \<Longrightarrow>
     mset (blk_live n off t') = add_mset (p, 2 ^ m) (mset (blk_live n off t)) \<and> blk_ok m0 n t' \<and> t' \<noteq> Free"
proof (induction m n off t arbitrary: t' p rule: blk_alloc.induct)
  case (1 m n off)
  from 1(2) consider "n = m" "t' = Used" "p = off" | l where "n > m" "blk_alloc m (n - 1) off Free = Some (l, p)" "t' = Pair l Free"
    by (subst (asm) blk_alloc.simps) (auto split: if_splits)
  then show ?case
  proof cases
    case 1
    then show ?thesis using \<open>m0 \<le> m\<close> by simp
  next
    case 2
    then show ?thesis using 1(1) [of l p] 1(4) by auto
  qed
next
  case (3 m n off l r)
  then show ?case by (auto split: if_splits option.splits)
qed auto

lemma alloc_not_Free: "blk_alloc m n off t = Some (t', p) \<Longrightarrow> t' \<noteq> Free"
proof (induction t arbitrary: n off t' p)
  case Free
  then show ?case by (subst (asm) blk_alloc.simps) (auto split: if_splits)
next
  case (Pair l r)
  then show ?case by (auto split: if_splits option.splits)
qed simp

lemma blk_alloc_None: "blk_ok m0 n t \<Longrightarrow> blk_alloc m n off t = None \<longleftrightarrow> (\<forall>k \<in> blk_room n t. k < m)"
proof (induction m n off t rule: blk_alloc.induct)
  case (1 m n off)
  show ?case
  proof (cases "n > m")
    case True
    then have "blk_alloc m (n - 1) off Free \<noteq> None"
    proof (induction n)
      case (Suc n)
      then show ?case by (cases "n = m") (auto simp: blk_alloc.simps(1) [of m n] blk_alloc.simps(1) [of m m])
    qed simp
    then show ?thesis using True by (subst blk_alloc.simps) auto
  next
    case False
    then show ?thesis by (subst blk_alloc.simps) auto
  qed
next
  case (3 m n off l r)
  have room: "blk_ok m0 k t \<Longrightarrow> j \<in> blk_room k t \<Longrightarrow> j \<le> k" for k t j
    by (induction t arbitrary: k) fastforce+
  show ?case
  proof (cases "n \<le> m")
    case True
    have "j < n" if "j \<in> blk_room n (Pair l r)" for j
      using room [of "n - 1" l j] room [of "n - 1" r j] that 3(3) by fastforce
    then show ?thesis using True by (auto dest: less_le_trans)
  next
    case False
    then show ?thesis using 3 by (auto split: option.split)
  qed
qed auto

lemma blk_live_Free: "blk_live n off Free = []"
  by simp

lemma blk_free_Some:
  "(p, s) \<in> set (blk_live n off t) \<Longrightarrow> blk_ok m n t \<Longrightarrow>
     \<exists>t'. blk_free p n off t = Some t' \<and> mset (blk_live n off t) = add_mset (p, s) (mset (blk_live n off t')) \<and> blk_ok m n t'"
proof (induction t arbitrary: n off)
  case (Pair l r)
  have pair: "blk_live n off (blk_pair x y) = blk_live n off (Pair x y)"
    "blk_ok m (n - 1) x \<Longrightarrow> blk_ok m (n - 1) y \<Longrightarrow> blk_ok m n (blk_pair x y)" for x y
    using Pair.prems by (auto simp: blk_pair_def)
  show ?case
  proof (cases "p \<ge> off + 2 ^ (n - 1)")
    case True
    then have "(p, s) \<in> set (blk_live (n - 1) (off + 2 ^ (n - 1)) r)"
      using Pair.prems blk_live_range [of m "n - 1" l p s off] by fastforce
    then obtain r' where "blk_free p (n - 1) (off + 2 ^ (n - 1)) r = Some r'"
      "mset (blk_live (n - 1) (off + 2 ^ (n - 1)) r) = add_mset (p, s) (mset (blk_live (n - 1) (off + 2 ^ (n - 1)) r'))"
      "blk_ok m (n - 1) r'"
      using Pair.IH(2) Pair.prems by fastforce
    then show ?thesis using True pair [of l r'] Pair.prems by simp
  next
    case False
    then have "(p, s) \<in> set (blk_live (n - 1) off l)"
      using Pair.prems blk_live_range [of m "n - 1" r p s "off + 2 ^ (n - 1)"] by fastforce
    then obtain l' where "blk_free p (n - 1) off l = Some l'"
      "mset (blk_live (n - 1) off l) = add_mset (p, s) (mset (blk_live (n - 1) off l'))"
      "blk_ok m (n - 1) l'"
      using Pair.IH(1) Pair.prems by fastforce
    then show ?thesis using False pair [of l' r] Pair.prems by simp
  qed
qed auto

section \<open>The index array represents the tree\<close>

definition under :: "nat \<Rightarrow> nat \<Rightarrow> bool" where
  \<comment> \<open>\<open>j\<close> is \<open>i\<close> or below it\<close>
  "under i j \<longleftrightarrow> (\<exists>d. j div 2 ^ d = i)"

lemma under_refl [simp]: "under i i"
  by (auto simp: under_def intro: exI [of _ 0])

lemma under_child: "under (2 * i) j \<or> under (Suc (2 * i)) j \<Longrightarrow> under i j"
proof -
  assume "under (2 * i) j \<or> under (Suc (2 * i)) j"
  then obtain d where "j div 2 ^ d = 2 * i \<or> j div 2 ^ d = Suc (2 * i)" by (auto simp: under_def)
  then have "j div 2 ^ d div 2 = i" by auto
  then have "j div 2 ^ Suc d = i" by (metis div_mult2_eq mult.commute power_Suc)
  then show "under i j" unfolding under_def by blast
qed

lemma under_cases: "under i j \<Longrightarrow> j = i \<or> under (2 * i) j \<or> under (Suc (2 * i)) j"
proof -
  assume "under i j"
  then obtain d where d: "j div 2 ^ d = i" by (auto simp: under_def)
  show ?thesis
  proof (cases d)
    case 0
    then show ?thesis using d by simp
  next
    case (Suc e)
    then have "j div 2 ^ e div 2 = i" using d by (metis div_mult2_eq mult.commute power_Suc)
    moreover have "x div 2 = i \<Longrightarrow> x = 2 * i \<or> x = Suc (2 * i)" for x :: nat by presburger
    ultimately have "j div 2 ^ e = 2 * i \<or> j div 2 ^ e = Suc (2 * i)" by blast
    then show ?thesis unfolding under_def by blast
  qed
qed

lemma under_le: "under i j \<Longrightarrow> i \<le> j"
  by (auto simp: under_def)

lemma under_trans: "under i j \<Longrightarrow> under j k \<Longrightarrow> under i k"
proof -
  assume "under i j" "under j k"
  then obtain d e where "j div 2 ^ d = i" "k div 2 ^ e = j" by (auto simp: under_def)
  then have "k div 2 ^ (e + d) = i" by (simp add: power_add div_mult2_eq)
  then show ?thesis unfolding under_def by blast
qed

lemma under_half: "0 < i \<Longrightarrow> under i j \<Longrightarrow> under (i div 2) j"
proof -
  have "under (i div 2) i" unfolding under_def by (rule exI [of _ 1]) simp
  then show "under i j \<Longrightarrow> under (i div 2) j" by (rule under_trans)
qed

lemma not_under_half: "0 < i \<Longrightarrow> \<not> under i (i div 2)"
  using under_le [of i "i div 2"] by auto

lemma under_siblings: "0 < i \<Longrightarrow> under (2 * i) j \<Longrightarrow> \<not> under (Suc (2 * i)) j"
proof
  assume i: "0 < i" and "under (2 * i) j" "under (Suc (2 * i)) j"
  then obtain d e where d: "j div 2 ^ d = 2 * i" and e: "j div 2 ^ e = Suc (2 * i)" by (auto simp: under_def)
  have "d \<noteq> e" using d e by auto
  then consider x where "e = d + Suc x" | x where "d = e + Suc x"
    by (metis less_imp_Suc_add add_Suc_right nat_neq_iff)
  then show False
  proof cases
    case 1
    then have "2 * i div 2 ^ Suc x = Suc (2 * i)" using d e by (simp only: power_add div_mult2_eq)
    then show False by (metis Suc_n_not_le_n div_le_dividend)
  next
    case 2
    then have "Suc (2 * i) div 2 ^ Suc x = 2 * i" using d e by (simp only: power_add div_mult2_eq)
    moreover have "Suc (2 * i) div 2 ^ Suc x \<le> Suc (2 * i) div 2" by (intro div_le_mono2) auto
    ultimately show False using i by simp
  qed
qed

fun holds :: "int list \<Rightarrow> nat \<Rightarrow> nat \<Rightarrow> blk \<Rightarrow> bool" where
  \<comment> \<open>below \<open>i\<close> the array holds the tree, in \<open>k\<close> more levels\<close>
  "holds T k i Free \<longleftrightarrow> (\<forall>j < length T. under i j \<longrightarrow> T ! j = BUDDY_UNUSED)"
| "holds T k i Used \<longleftrightarrow> T ! i = BUDDY_USED \<and> (\<forall>j < length T. under i j \<and> j \<noteq> i \<longrightarrow> T ! j = BUDDY_UNUSED)"
| "holds T k i (Pair l r) \<longleftrightarrow> 0 < k \<and> T ! i = (if blk_full (Pair l r) then BUDDY_FULL else BUDDY_SPLIT)
     \<and> holds T (k - 1) (2 * i) l \<and> holds T (k - 1) (2 * i + 1) r \<and> \<not> (l = Free \<and> r = Free)"

lemma index_bound: "(i + 1) * 2 ^ k \<le> n \<Longrightarrow> i < (n :: nat)"
proof -
  assume a: "(i + 1) * 2 ^ k \<le> n"
  have "(i + 1) * 1 \<le> (i + 1) * 2 ^ k" by (rule mult_le_mono2) simp
  from le_trans [OF this a] show "i < n" by simp
qed

lemma index_children:
  assumes "(i + 1) * 2 ^ Suc k \<le> (n :: nat)"
  shows "(2 * i + 1) * 2 ^ k \<le> n" "(2 * i + 1 + 1) * 2 ^ k \<le> n"
proof -
  have "(2 * i + 1 + 1) * 2 ^ k = (i + 1) * 2 ^ Suc k" by simp
  then show 2: "(2 * i + 1 + 1) * 2 ^ k \<le> n" using assms by (simp only:)
  have "(2 * i + 1) * 2 ^ k \<le> (2 * i + 1 + 1) * 2 ^ k" by (rule mult_le_mono1) simp
  then show "(2 * i + 1) * 2 ^ k \<le> n" using 2 by (rule le_trans)
qed

lemma holds_cong:
  "holds T k i t \<Longrightarrow> length T' = length T \<Longrightarrow> (i + 1) * 2 ^ k \<le> length T \<Longrightarrow>
     (\<And>j. j < length T \<Longrightarrow> under i j \<Longrightarrow> T' ! j = T ! j) \<Longrightarrow> holds T' k i t"
proof (induction t arbitrary: k i)
  case Used
  have i: "i < length T" using Used(3) by (rule index_bound)
  then have "T' ! i = T ! i" using Used(4) by simp
  then show ?case using Used by simp
next
  case (Pair l r)
  obtain k' where k: "k = Suc k'" using Pair.prems(1) by (cases k) auto
  have i: "i < length T" using Pair.prems(3) by (rule index_bound)
  then have Ti: "T' ! i = T ! i" using Pair.prems(4) by simp
  note b = index_children [OF Pair.prems(3) [unfolded k]]
  have "holds T' k' (2 * i) l"
  proof (rule Pair.IH(1))
    show "holds T k' (2 * i) l" using Pair.prems(1) by (simp add: k)
    show "T' ! j = T ! j" if "j < length T" "under (2 * i) j" for j
      using Pair.prems(4) that under_child by blast
  qed (use Pair.prems(2) b(1) in \<open>simp_all only:\<close>)
  moreover have "holds T' k' (2 * i + 1) r"
  proof (rule Pair.IH(2))
    show "holds T k' (2 * i + 1) r" using Pair.prems(1) by (simp add: k)
    show "T' ! j = T ! j" if "j < length T" "under (2 * i + 1) j" for j
      using Pair.prems(4) that under_child by (metis Suc_eq_plus1)
  qed (use Pair.prems(2) b(2) in \<open>simp_all only:\<close>)
  ultimately show ?case using Pair.prems(1) Ti by (simp add: k)
qed simp

lemma holds_busy: "holds T k i t \<Longrightarrow> i < length T \<Longrightarrow> buddy_busy T i = Some (blk_full t)"
  by (cases t) (auto simp: buddy_busy_def buddy_status_defs)

lemma holds_Free_child:
  "holds T k i Free \<Longrightarrow> holds T k' (2 * i) Free \<and> holds T k' (2 * i + 1) Free"
  unfolding holds.simps Suc_eq_plus1 [symmetric] using under_child by blast

section \<open>Allocation\<close>

definition node_at :: "nat \<Rightarrow> nat \<Rightarrow> nat \<Rightarrow> nat \<Rightarrow> bool" where
  \<comment> \<open>\<open>i\<close> is an index at depth \<open>d\<close> of a tree of \<open>K\<close> levels below the root, over a pool of order \<open>P\<close>\<close>
  "node_at P K d i \<longleftrightarrow> 2 ^ d \<le> i \<and> i < 2 ^ (d + 1) \<and> d \<le> K \<and> K \<le> P \<and> P < 63"

definition blk_off :: "nat \<Rightarrow> nat \<Rightarrow> nat \<Rightarrow> nat" where
  "blk_off P d i = 2 ^ (P - d) * (i - 2 ^ d)"

lemma node_child:
  "node_at P K d i \<Longrightarrow> d < K \<Longrightarrow> node_at P K (d + 1) (2 * i) \<and> node_at P K (d + 1) (2 * i + 1)"
  unfolding node_at_def power_add by simp

lemma node_bound:
  assumes "node_at P K d i"
  shows "(i + 1) * 2 ^ (K - d) \<le> 2 ^ (K + 1)" and "i < 2 ^ (K + 1)" and "0 < i"
proof -
  have "i + 1 \<le> 2 ^ (d + 1)" "d \<le> K" using assms by (auto simp: node_at_def)
  then have "(i + 1) * 2 ^ (K - d) \<le> 2 ^ (d + 1) * 2 ^ (K - d)" by (intro mult_le_mono1)
  also have "\<dots> = 2 ^ (K + 1)" using \<open>d \<le> K\<close> by (simp flip: power_add)
  finally show b: "(i + 1) * 2 ^ (K - d) \<le> 2 ^ (K + 1)" .
  show "i < 2 ^ (K + 1)" using b by (rule index_bound)
  show "0 < i" using assms by (auto simp: node_at_def intro: less_le_trans [of 0 "2 ^ d"])
qed

lemma node_ILOG2: "node_at P K d i \<Longrightarrow> ILOG2 i = d"
  by (auto simp: node_at_def intro: ILOG2_eqI)

lemma node_size_shift:
  assumes "node_at P K d i" "b_pool_size b = 2 ^ P"
  shows "BUDDY_SIZE_FROM_INDEX b i = 2 ^ (P - d)" "BUDDY_SHIFT_FROM_INDEX b i = blk_off P d i"
proof -
  have "(2::nat) ^ P div 2 ^ d = 2 ^ (P - d)"
    using assms(1) by (intro power_diff [symmetric]) (auto simp: node_at_def)
  then show "BUDDY_SIZE_FROM_INDEX b i = 2 ^ (P - d)" "BUDDY_SHIFT_FROM_INDEX b i = blk_off P d i"
    by (simp_all add: BUDDY_SIZE_FROM_INDEX_def BUDDY_SHIFT_FROM_INDEX_def node_ILOG2 [OF assms(1)] assms(2) blk_off_def)
qed

lemma blk_off_child:
  assumes "node_at P K d i" "d < K"
  shows "blk_off P (d + 1) (2 * i) = blk_off P d i" "blk_off P (d + 1) (2 * i + 1) = blk_off P d i + 2 ^ (P - d - 1)"
proof -
  have lt: "d < P" and le: "2 ^ d \<le> i" using assms by (auto simp: node_at_def)
  obtain j where i: "i = 2 ^ d + j" using le by (metis le_iff_add)
  obtain q where P: "P - d = Suc q" using lt by (metis Suc_diff_Suc)
  then have "P - (d + 1) = q" "P - d - 1 = q" by auto
  then show "blk_off P (d + 1) (2 * i) = blk_off P d i" "blk_off P (d + 1) (2 * i + 1) = blk_off P d i + 2 ^ (P - d - 1)"
    unfolding blk_off_def P i by (simp_all add: algebra_simps)
qed

lemma climb_odd: "0 < i \<Longrightarrow> buddy_climb (2 * i + 1) = buddy_climb i"
  by (subst buddy_climb.simps) simp

lemma climb_even: "buddy_climb (2 * i) = 2 * i"
  by (subst buddy_climb.simps) simp

definition alloc_next :: "buddy_t \<Rightarrow> nat \<Rightarrow> int list \<Rightarrow> nat \<Rightarrow> (int list \<times> nat option) option" where
  \<comment> \<open>where the search goes on when nothing fits below \<open>i\<close>\<close>
  "alloc_next b ms T i = (if buddy_climb i = 1 then Some (T, None) else buddy_alloc_loop b ms T (buddy_climb i + 1))"

lemma alloc_next_left: "0 < i \<Longrightarrow> alloc_next b ms T (2 * i) = buddy_alloc_loop b ms T (2 * i + 1)"
  by (simp add: alloc_next_def climb_even)

lemma alloc_next_right: "0 < i \<Longrightarrow> alloc_next b ms T (2 * i + 1) = alloc_next b ms T i"
  using climb_odd [of i] by (simp add: alloc_next_def)

definition alloc_found :: "int list \<Rightarrow> nat \<Rightarrow> bool \<Rightarrow> nat \<Rightarrow> (int list \<times> nat option) option" where
  "alloc_found T i full p = do { T' \<leftarrow> (if full then buddy_set_full T i else Some T); Some (T', Some p) }"

lemma holds_update_off:
  assumes "holds T k i t" "\<not> under i j" "(i + 1) * 2 ^ k \<le> length T"
  shows "holds (T[j := v]) k i t"
proof (rule holds_cong [OF assms(1) _ assms(3)])
  show "T[j := v] ! a = T ! a" if "under i a" for a
    using that assms(2) by (cases "a = j") auto
qed simp

text \<open>A block found below a child of \<open>i\<close> is one found below \<open>i\<close>.\<close>

lemma alloc_found_up:
  assumes T: "holds T k (2 * i) l" "holds T k (2 * i + 1) r" "T ! i = BUDDY_SPLIT" "l \<noteq> Free \<or> r \<noteq> Free"
    and b: "(2 * i + 2) * 2 ^ k \<le> length T" and i: "0 < i" and c: "c = 2 * i \<and> fc = blk_full l \<or> c = 2 * i + 1 \<and> fc = blk_full r"
  obtains T2 where "alloc_found T c fc p = alloc_found T2 i (blk_full (Pair l r)) p" "holds T2 (Suc k) i (Pair l r)"
    "length T2 = length T" "\<And>j. \<not> under i j \<Longrightarrow> T2 ! j = T ! j"
proof -
  have c2: "2 * (c div 2) = 2 * i" "c div 2 = i" "1 < c" using c i by auto
  have "(2 * i + 1 + 1) * 2 ^ k \<le> length T" using b by simp
  from index_bound [OF this] have len: "2 * i + 1 < length T" "2 * i < length T" "i < length T" by auto
  have busy: "buddy_busy T (2 * i) = Some (blk_full l)" "buddy_busy T (2 * i + 1) = Some (blk_full r)"
    using holds_busy T(1,2) len by auto
  show thesis
  proof (cases "blk_full l \<and> blk_full r")
    case False
    then have "alloc_found T c fc p = alloc_found T i (blk_full (Pair l r)) p"
      using c busy c2 by (auto simp: alloc_found_def buddy_set_full.simps [of T c] simp del: One_nat_def add_Suc_right)
    moreover have "holds T (Suc k) i (Pair l r)" using T False by auto
    ultimately show thesis using that by blast
  next
    case True
    let ?T = "T[i := BUDDY_FULL]"
    have "alloc_found T c fc p = alloc_found ?T i (blk_full (Pair l r)) p"
      using c busy c2 len True by (auto simp: alloc_found_def buddy_set_full.simps [of T c] simp del: One_nat_def add_Suc_right)
    moreover have "holds ?T (Suc k) i (Pair l r)"
    proof -
      have ne: "\<not> under (2 * i) i" "\<not> under (2 * i + 1) i" using under_le [of "2 * i" i] under_le [of "2 * i + 1" i] i by auto
      have "(2 * i + 1) * 2 ^ k \<le> (2 * i + 2) * 2 ^ k" by (rule mult_le_mono1) simp
      then have b1: "(2 * i + 1) * 2 ^ k \<le> length T" and b2: "(2 * i + 1 + 1) * 2 ^ k \<le> length T" using b by auto
      have "holds ?T k (2 * i) l" by (rule holds_update_off [OF T(1) ne(1) b1])
      moreover have "holds ?T k (2 * i + 1) r" by (rule holds_update_off [OF T(2) ne(2) b2])
      ultimately show ?thesis using True len T(4) by simp
    qed
    moreover have "?T ! j = T ! j" if "\<not> under i j" for j using that by (cases "j = i") auto
    ultimately show thesis using that [of ?T] by simp
  qed
qed

text \<open>The search below an index: it finds what the abstract search finds, or goes on behind it.\<close>

lemma alloc_loop_spec:
  assumes "node_at P K d i" "K - d = k" "holds T k i t" "length T = 2 ^ (K + 1)" "P - K \<le> m" "m \<le> P - d"
    and b: "b_pool_size b = 2 ^ P" "b_tree_size b = 2 ^ (K + 1)"
  shows "(case blk_alloc m (P - d) (blk_off P d i) t of
      None \<Rightarrow> buddy_alloc_loop b (2 ^ m) T i = alloc_next b (2 ^ m) T i
    | Some (t', p) \<Rightarrow> (\<exists>T'. buddy_alloc_loop b (2 ^ m) T i = alloc_found T' i (blk_full t') p \<and> holds T' k i t' \<and>
        length T' = length T \<and> (\<forall>j. \<not> under i j \<longrightarrow> T' ! j = T ! j)))"
  using assms(1-6)
proof (induction k arbitrary: d i T t)
  case (0 d i T t)
  note nb = node_bound [OF 0(1)] and ss = node_size_shift [OF 0(1) b(1)]
  have i: "i < length T" "i < b_tree_size b" using nb 0(4) b(2) by simp_all
  have "d = K" using 0(1,2) by (simp add: node_at_def)
  then have m: "m = P - d" using 0(5,6) by simp
  show ?case
  proof (cases t)
    case Free
    then have z: "T ! i = BUDDY_UNUSED" using 0(3) i by simp
    let ?T = "T[i := BUDDY_USED]"
    have "buddy_alloc_loop b (2 ^ m) T i = alloc_found ?T i True (blk_off P d i)"
      by (subst buddy_alloc_loop.simps) (use z i ss m in \<open>simp add: alloc_found_def Let_def\<close>)
    moreover have "holds ?T 0 i Used" using 0(3) Free i by simp
    moreover have "?T ! j = T ! j" if "\<not> under i j" for j using that by (cases "j = i") auto
    moreover have "blk_alloc m (P - d) (blk_off P d i) Free = Some (Used, blk_off P d i)"
      by (subst blk_alloc.simps) (simp add: m)
    ultimately show ?thesis unfolding Free by (auto intro!: exI [of _ ?T] simp del: holds.simps)
  next
    case Used
    then have "T ! i = BUDDY_USED" using 0(3) by simp
    then have "buddy_alloc_loop b (2 ^ m) T i = alloc_next b (2 ^ m) T i"
      by (subst buddy_alloc_loop.simps) (use i in \<open>simp add: alloc_next_def Let_def buddy_status_defs\<close>)
    then show ?thesis using Used by simp
  next
    case (Pair l r)
    then show ?thesis using 0(3) by simp
  qed
next
  case (Suc k d i T t)
  note nb = node_bound [OF Suc.prems(1)] and ss = node_size_shift [OF Suc.prems(1) b(1)]
  have i: "i < length T" "i < b_tree_size b" "0 < i" using nb Suc.prems(4) b(2) by simp_all
  have d: "d < K" using Suc.prems(2) by simp
  have kk: "K - (d + 1) = k" using Suc.prems(2) by simp
  note ch = node_child [OF Suc.prems(1) d, THEN conjunct1] node_child [OF Suc.prems(1) d, THEN conjunct2]
  note off = blk_off_child [OF Suc.prems(1) d]
  have pd: "P - (d + 1) = P - d - 1" by simp
  have lenb: "(2 * i + 2) * 2 ^ k \<le> length T"
  proof -
    have "(2 * i + 2) * 2 ^ k = (i + 1) * 2 ^ (K - d)" using Suc.prems(2) by simp
    then show ?thesis using nb(1) Suc.prems(4) by simp
  qed
  have IH_l: "(case blk_alloc m (P - d - 1) (blk_off P d i) l of
      None \<Rightarrow> buddy_alloc_loop b (2 ^ m) U (2 * i) = alloc_next b (2 ^ m) U (2 * i)
    | Some (t', p) \<Rightarrow> (\<exists>T'. buddy_alloc_loop b (2 ^ m) U (2 * i) = alloc_found T' (2 * i) (blk_full t') p \<and> holds T' k (2 * i) t' \<and>
        length T' = length U \<and> (\<forall>j. \<not> under (2 * i) j \<longrightarrow> T' ! j = U ! j)))"
    if "holds U k (2 * i) l" "length U = 2 ^ (K + 1)" "m < P - d" for U l
    using Suc.IH [OF ch(1) kk that(1,2) Suc.prems(5)] that(3) unfolding off pd by simp
  have IH_r: "(case blk_alloc m (P - d - 1) (blk_off P d i + 2 ^ (P - d - 1)) r of
      None \<Rightarrow> buddy_alloc_loop b (2 ^ m) U (2 * i + 1) = alloc_next b (2 ^ m) U (2 * i + 1)
    | Some (t', p) \<Rightarrow> (\<exists>T'. buddy_alloc_loop b (2 ^ m) U (2 * i + 1) = alloc_found T' (2 * i + 1) (blk_full t') p \<and> holds T' k (2 * i + 1) t' \<and>
        length T' = length U \<and> (\<forall>j. \<not> under (2 * i + 1) j \<longrightarrow> T' ! j = U ! j)))"
    if "holds U k (2 * i + 1) r" "length U = 2 ^ (K + 1)" "m < P - d" for U r
    using Suc.IH [OF ch(2) kk that(1,2) Suc.prems(5)] that(3) unfolding off pd by simp
  have ne: "\<not> under (2 * i) i" "\<not> under (2 * i + 1) i" using under_le [of "2 * i" i] under_le [of "2 * i + 1" i] i by auto
  have left: "\<exists>T'. buddy_alloc_loop b (2 ^ m) U (2 * i) = alloc_found T' i (blk_full (Pair l' r)) p \<and> holds T' (Suc k) i (Pair l' r) \<and>
        length T' = length U \<and> (\<forall>j. \<not> under i j \<longrightarrow> T' ! j = U ! j)"
    if U: "holds U k (2 * i) l" "holds U k (2 * i + 1) r" "length U = 2 ^ (K + 1)" "U ! i = BUDDY_SPLIT" "m < P - d"
      and a: "blk_alloc m (P - d - 1) (blk_off P d i) l = Some (l', p)" and nf: "l' \<noteq> Free" for U l r l' p
  proof -
    obtain U1 where U1: "buddy_alloc_loop b (2 ^ m) U (2 * i) = alloc_found U1 (2 * i) (blk_full l') p"
      "holds U1 k (2 * i) l'" "length U1 = length U" "\<forall>j. \<not> under (2 * i) j \<longrightarrow> U1 ! j = U ! j"
      using IH_l [OF U(1,3,5)] a by auto
    have "(2 * i + 1 + 1) * 2 ^ k \<le> length U" using lenb Suc.prems(4) U(3) by simp
    then have "holds U1 k (2 * i + 1) r"
      using U1(3,4) under_siblings [OF i(3)] by (intro holds_cong [OF U(2)]) auto
    moreover have "U1 ! i = BUDDY_SPLIT" using U1(4) ne U(4) by simp
    moreover have "(2 * i + 2) * 2 ^ k \<le> length U1" using lenb Suc.prems(4) U(3) U1(3) by simp
    ultimately obtain T2 where "alloc_found U1 (2 * i) (blk_full l') p = alloc_found T2 i (blk_full (Pair l' r)) p"
      "holds T2 (Suc k) i (Pair l' r)" "length T2 = length U1" "\<And>j. \<not> under i j \<Longrightarrow> T2 ! j = U1 ! j"
      using alloc_found_up [OF U1(2), of r "2 * i" "blk_full l'" p] nf i(3) by blast
    then show ?thesis using U1 under_child by (metis)
  qed
  show ?case
  proof (cases t)
    case Used
    then have "T ! i = BUDDY_USED" using Suc.prems(3) by simp
    then have "buddy_alloc_loop b (2 ^ m) T i = alloc_next b (2 ^ m) T i"
      by (subst buddy_alloc_loop.simps) (use i in \<open>simp add: alloc_next_def Let_def buddy_status_defs\<close>)
    then show ?thesis using Used by simp
  next
    case Free
    then have z: "T ! i = BUDDY_UNUSED" using Suc.prems(3) i by simp
    show ?thesis
    proof (cases "m = P - d")
      case True
      let ?T = "T[i := BUDDY_USED]"
      have "buddy_alloc_loop b (2 ^ m) T i = alloc_found ?T i True (blk_off P d i)"
        by (subst buddy_alloc_loop.simps) (use z i ss True in \<open>simp add: alloc_found_def Let_def\<close>)
      moreover have "holds ?T (Suc k) i Used" using Suc.prems(3) Free i by simp
      moreover have "?T ! j = T ! j" if "\<not> under i j" for j using that by (cases "j = i") auto
      moreover have "blk_alloc m (P - d) (blk_off P d i) Free = Some (Used, blk_off P d i)"
        by (subst blk_alloc.simps) (simp add: True)
      ultimately show ?thesis unfolding Free by (auto intro!: exI [of _ ?T] simp del: holds.simps)
    next
      case False
      then have m: "m < P - d" using Suc.prems(6) by simp
      let ?T = "T[i := BUDDY_SPLIT]"
      have loop: "buddy_alloc_loop b (2 ^ m) T i = buddy_alloc_loop b (2 ^ m) ?T (2 * i)"
        by (subst buddy_alloc_loop.simps) (use z i ss m in \<open>simp add: Let_def mult.commute\<close>)
      have fr: "holds T k (2 * i) Free \<and> holds T k (2 * i + 1) Free" using holds_Free_child Suc.prems(3) Free by blast
      have U: "holds ?T k (2 * i) Free" "holds ?T k (2 * i + 1) Free"
        using fr ne lenb by (auto simp del: holds.simps intro!: holds_update_off)
      obtain l' p where a: "blk_alloc m (P - d - 1) (blk_off P d i) Free = Some (l', p)"
      proof -
        have "P - d - 1 \<ge> m" using m by simp
        then have "blk_alloc m (P - d - 1) (blk_off P d i) Free \<noteq> None"
          using blk_alloc_None [of 0 "P - d - 1" Free m "blk_off P d i"] by simp
        with that show thesis by fastforce
      qed
      have nf: "l' \<noteq> Free" using blk_alloc_Some [OF a, of 0] by simp
      have "blk_alloc m (P - d) (blk_off P d i) Free = Some (Pair l' Free, p)"
        using a m by (subst blk_alloc.simps) simp
      moreover obtain T' where "buddy_alloc_loop b (2 ^ m) ?T (2 * i) = alloc_found T' i (blk_full (Pair l' Free)) p"
        "holds T' (Suc k) i (Pair l' Free)" "length T' = length ?T" "\<forall>j. \<not> under i j \<longrightarrow> T' ! j = ?T ! j"
        using left [OF U _ _ m a nf] i Suc.prems(4) by auto
      moreover have "?T ! j = T ! j" if "\<not> under i j" for j using that by (cases "j = i") auto
      ultimately show ?thesis using Free loop by auto
    qed
  next
    case (Pair l r)
    note h = Suc.prems(3) [unfolded Pair]
    have lr: "holds T k (2 * i) l" "holds T k (2 * i + 1) r" "\<not> (l = Free \<and> r = Free)" using h by auto
    show ?thesis
    proof (cases "P - d \<le> m \<or> blk_full t")
      case True
      have none: "blk_alloc m n off u = None" if "blk_full u" for n off u
        using that by (induction u arbitrary: n off) auto
      have "buddy_alloc_loop b (2 ^ m) T i = alloc_next b (2 ^ m) T i"
        by (subst buddy_alloc_loop.simps)
           (use h i ss True Pair in \<open>auto simp: alloc_next_def Let_def buddy_status_defs\<close>)
      moreover have "blk_alloc m (P - d) (blk_off P d i) t = None" using True none Pair by auto
      ultimately show ?thesis by simp
    next
      case False
      then have m: "m < P - d" and sp: "T ! i = BUDDY_SPLIT" using h Pair by auto
      have loop: "buddy_alloc_loop b (2 ^ m) T i = buddy_alloc_loop b (2 ^ m) T (2 * i)"
        by (subst buddy_alloc_loop.simps) (use sp i ss m in \<open>simp add: Let_def buddy_status_defs mult.commute\<close>)
      show ?thesis
      proof (cases "blk_alloc m (P - d - 1) (blk_off P d i) l")
        case (Some lp)
        obtain l' p where lp: "lp = (l', p)" by (cases lp)
        have a: "blk_alloc m (P - d - 1) (blk_off P d i) l = Some (l', p)" using Some lp by simp
        obtain T' where "buddy_alloc_loop b (2 ^ m) T (2 * i) = alloc_found T' i (blk_full (Pair l' r)) p"
          "holds T' (Suc k) i (Pair l' r)" "length T' = length T" "\<forall>j. \<not> under i j \<longrightarrow> T' ! j = T ! j"
          using left [OF lr(1,2) Suc.prems(4) sp m a] alloc_not_Free [OF a] by blast
        then show ?thesis using Pair loop m a by auto
      next
        case None
        have ll: "buddy_alloc_loop b (2 ^ m) T (2 * i) = buddy_alloc_loop b (2 ^ m) T (2 * i + 1)"
          using IH_l [OF lr(1) Suc.prems(4) m] None alloc_next_left [OF i(3)] by simp
        show ?thesis
        proof (cases "blk_alloc m (P - d - 1) (blk_off P d i + 2 ^ (P - d - 1)) r")
          case none: None
          then have "buddy_alloc_loop b (2 ^ m) T (2 * i + 1) = alloc_next b (2 ^ m) T i"
            using IH_r [OF lr(2) Suc.prems(4) m] alloc_next_right [OF i(3)] by simp
          then show ?thesis using Pair loop ll m None none by simp
        next
          case (Some rp)
          obtain r' p where rp: "rp = (r', p)" by (cases rp)
          have a: "blk_alloc m (P - d - 1) (blk_off P d i + 2 ^ (P - d - 1)) r = Some (r', p)" using Some rp by simp
          obtain T1 where T1: "buddy_alloc_loop b (2 ^ m) T (2 * i + 1) = alloc_found T1 (2 * i + 1) (blk_full r') p"
            "holds T1 k (2 * i + 1) r'" "length T1 = length T" "\<forall>j. \<not> under (2 * i + 1) j \<longrightarrow> T1 ! j = T ! j"
            using IH_r [OF lr(2) Suc.prems(4) m] a by auto
          have "(2 * i + 1) * 2 ^ k \<le> (2 * i + 2) * 2 ^ k" by (rule mult_le_mono1) simp
          then have "holds T1 k (2 * i) l"
            using T1(3,4) under_siblings [OF i(3)] lenb by (intro holds_cong [OF lr(1)]) auto
          moreover have "T1 ! i = BUDDY_SPLIT" using T1(4) ne sp by simp
          moreover have "(2 * i + 2) * 2 ^ k \<le> length T1" using lenb T1(3) by simp
          ultimately obtain T2 where "alloc_found T1 (2 * i + 1) (blk_full r') p = alloc_found T2 i (blk_full (Pair l r')) p"
            "holds T2 (Suc k) i (Pair l r')" "length T2 = length T1" "\<And>j. \<not> under i j \<Longrightarrow> T2 ! j = T1 ! j"
            using alloc_found_up [of T1 k i l r' "2 * i + 1" "blk_full r'" p] T1(2) alloc_not_Free [OF a] i(3) by blast
          then have "\<exists>T'. buddy_alloc_loop b (2 ^ m) T i = alloc_found T' i (blk_full (Pair l r')) p \<and>
             holds T' (Suc k) i (Pair l r') \<and> length T' = length T \<and> (\<forall>j. \<not> under i j \<longrightarrow> T' ! j = T ! j)"
            using T1 loop ll under_child by (metis Suc_eq_plus1)
          then show ?thesis using Pair m None a by simp
        qed
      qed
    qed
  qed
qed

section \<open>Release\<close>

lemma holds_unused: "holds T k i t \<Longrightarrow> i < length T \<Longrightarrow> T ! i = BUDDY_UNUSED \<longleftrightarrow> t = Free"
  by (cases t) (auto simp: buddy_status_defs)

lemma merge_frame: "buddy_merge T i = Some T' \<Longrightarrow> length T' = length T \<and> (\<forall>j \<ge> i. T' ! j = T ! j)"
proof (induction T i arbitrary: T' rule: buddy_merge.induct)
  case (1 T i)
  show ?case
  proof (cases "i > 1")
    case True
    have half: "i div 2 < i" using True by simp
    show ?thesis
    proof (cases "T' = T")
      case False
      from 1(2) True False obtain l r where lr: "rd T (2 * (i div 2)) = Some l"
        "(if l = BUDDY_UNUSED then rd T (2 * (i div 2) + 1) else Some BUDDY_USED) = Some r"
        "l = BUDDY_UNUSED \<and> r = BUDDY_UNUSED" "i div 2 < length T"
        and m: "buddy_merge (T[i div 2 := BUDDY_UNUSED]) (i div 2) = Some T'"
        by (subst (asm) buddy_merge.simps) (auto simp: bind_eq_Some_conv Let_def wr_eq_Some split: if_splits)
      have w: "wr T (i div 2) BUDDY_UNUSED = Some (T[i div 2 := BUDDY_UNUSED])" using lr(4) by simp
      from 1(1) [OF True refl lr(1) lr(2) lr(3) w m]
      have "length T' = length T" "\<forall>j \<ge> i div 2. T' ! j = T[i div 2 := BUDDY_UNUSED] ! j" by simp_all
      then show ?thesis using half by auto
    qed simp
  next
    case False
    then show ?thesis using 1(2) by (subst (asm) buddy_merge.simps) simp
  qed
qed

definition free_rest :: "bool \<Rightarrow> bool \<Rightarrow> int list \<Rightarrow> nat \<Rightarrow> int list option" where
  \<comment> \<open>what is left to do above \<open>i\<close>: \<open>f\<close> when the tree there was full, \<open>z\<close> when it is free now\<close>
  "free_rest f z T i =
     (if z then (if f then do { T1 \<leftarrow> buddy_merge T i; buddy_unfull T1 i } else buddy_merge T i)
      else if f then buddy_unfull T i else Some T)"

lemma free_rest_up:
  assumes T: "holds T k (2 * i) x" "holds T k (2 * i + 1) y" "T ! i = (if f \<and> blk_full sib then BUDDY_FULL else BUDDY_SPLIT)"
    and c: "c = 2 * i \<and> nc = x \<and> sib = y \<or> c = 2 * i + 1 \<and> nc = y \<and> sib = x"
    and nc: "\<not> blk_full nc" and b: "(2 * i + 2) * 2 ^ k \<le> length T" and i: "0 < i"
  obtains T' where "free_rest f (nc = Free) T c = free_rest (f \<and> blk_full sib) (blk_pair x y = Free) T' i"
    "holds T' (Suc k) i (blk_pair x y)" "length T' = length T" "\<And>j. \<not> under i j \<Longrightarrow> T' ! j = T ! j"
proof -
  have c2: "2 * (c div 2) = 2 * i" "c div 2 = i" "1 < c" using c i by auto
  have "(2 * i + 1) * 2 ^ k \<le> (2 * i + 2) * 2 ^ k" by (rule mult_le_mono1) simp
  then have b1: "(2 * i + 1) * 2 ^ k \<le> length T" and b2: "(2 * i + 1 + 1) * 2 ^ k \<le> length T" using b by auto
  from index_bound [OF b2] have len: "2 * i + 1 < length T" "2 * i < length T" "i < length T" by auto
  have ne: "\<not> under (2 * i) i" "\<not> under (2 * i + 1) i" using under_le [of "2 * i" i] under_le [of "2 * i + 1" i] i by auto
  have upd: "holds (T[i := v]) k (2 * i) x" "holds (T[i := v]) k (2 * i + 1) y" for v
    using holds_update_off [OF T(1) ne(1) b1] holds_update_off [OF T(2) ne(2) b2] by auto
  have un: "T ! (2 * i) = BUDDY_UNUSED \<longleftrightarrow> x = Free" "T ! (2 * i + 1) = BUDDY_UNUSED \<longleftrightarrow> y = Free"
    using holds_unused T(1,2) len by blast+
  have merge: "buddy_merge T c = (if x = Free \<and> y = Free then buddy_merge (T[i := BUDDY_UNUSED]) i else Some T)"
    by (subst buddy_merge.simps) (use c2 len un in \<open>auto simp: Let_def buddy_status_defs\<close>)
  have unfull: "buddy_unfull U c = (if U ! i = BUDDY_FULL then buddy_unfull (U[i := BUDDY_SPLIT]) i else Some U)"
    if "length U = length T" for U
    by (subst buddy_unfull.simps) (use c2 len that in \<open>auto simp: buddy_status_defs\<close>)
  have frame: "T[i := v] ! j = T ! j" if "\<not> under i j" for v j using that by (cases "j = i") auto
  show thesis
  proof (cases "x = Free \<and> y = Free")
    case True
    let ?T = "T[i := BUDDY_UNUSED]"
    have nf: "\<not> blk_full sib" "nc = Free" using c True by auto
    have stop: "buddy_unfull U c = Some U" if "buddy_merge ?T i = Some U" for U
      using merge_frame [OF that] unfull [of U] len by (simp add: buddy_status_defs)
    have "free_rest f (nc = Free) T c = buddy_merge ?T i"
      using nf True stop by (cases "buddy_merge ?T i") (auto simp: free_rest_def merge)
    also have "\<dots> = free_rest (f \<and> blk_full sib) (blk_pair x y = Free) ?T i"
      using nf True by (simp add: free_rest_def blk_pair_def)
    finally have 1: "free_rest f (nc = Free) T c = free_rest (f \<and> blk_full sib) (blk_pair x y = Free) ?T i" .
    have "?T ! j = BUDDY_UNUSED" if j: "j < length T" "under i j" for j
    proof (cases "j = i")
      case False
      then have "under (2 * i) j \<or> under (2 * i + 1) j" using under_cases [OF j(2)] by simp
      then show ?thesis using T(1,2) True j(1) False by auto
    qed (use len in simp)
    then have "holds ?T (Suc k) i (blk_pair x y)" using True by (simp add: blk_pair_def)
    then show thesis using that [OF 1] frame by simp
  next
    case False
    have pair: "blk_pair x y = Pair x y" "\<not> blk_full (Pair x y)" using False c nc by (auto simp: blk_pair_def)
    have rest: "free_rest f (nc = Free) T c = (if f then buddy_unfull T c else Some T)"
      using False by (auto simp: free_rest_def merge)
    show thesis
    proof (cases "f \<and> blk_full sib")
      case True
      let ?T = "T[i := BUDDY_SPLIT]"
      have "free_rest f (nc = Free) T c = free_rest (f \<and> blk_full sib) (blk_pair x y = Free) ?T i"
        using rest True T(3) unfull [of T] pair by (simp add: free_rest_def)
      moreover have "holds ?T (Suc k) i (blk_pair x y)" using upd pair len False by auto
      ultimately show thesis using that [of ?T] frame by simp
    next
      case nfull: False
      then have "free_rest f (nc = Free) T c = free_rest (f \<and> blk_full sib) (blk_pair x y = Free) T i"
        using rest T(3) unfull [of T] pair by (auto simp: free_rest_def buddy_status_defs)
      moreover have "holds T (Suc k) i (blk_pair x y)" using T pair nfull False by (simp only: holds.simps) simp
      ultimately show thesis using that [of T] by simp
    qed
  qed
qed

lemma blk_free_not_full: "blk_free p n off t = Some t' \<Longrightarrow> \<not> blk_full t'"
proof (induction t arbitrary: n off t')
  case (Pair l r)
  then show ?case by (auto simp: blk_pair_def split: if_splits)
qed (auto split: if_splits)

lemma free_spec:
  assumes "node_at P K d i" "K - d = k" "holds T k i t" "length T = 2 ^ (K + 1)"
    "blk_free p (P - d) (blk_off P d i) t = Some t'"
  shows "\<exists>j T'. buddy_seek T p i (2 ^ (P - d)) (blk_off P d i) = Some (j, p) \<and> j < length T \<and> under i j \<and>
     do { T1 \<leftarrow> buddy_merge (T[j := BUDDY_UNUSED]) j; buddy_unfull T1 j } = free_rest (blk_full t) (t' = Free) T' i \<and>
     holds T' k i t' \<and> length T' = length T \<and> (\<forall>a. \<not> under i a \<longrightarrow> T' ! a = T ! a)"
  using assms
proof (induction k arbitrary: d i T t t')
  case (0 d i T t t')
  have i: "i < length T" using node_bound [OF 0(1)] 0(4) by simp
  show ?case
  proof (cases t)
    case Used
    then have "T ! i = BUDDY_USED" "p = blk_off P d i" "t' = Free" using 0 by (auto split: if_splits)
    then have "buddy_seek T p i (2 ^ (P - d)) (blk_off P d i) = Some (i, p)"
      by (subst buddy_seek.simps) (use i in simp)
    moreover have "holds (T[i := BUDDY_UNUSED]) 0 i Free" using 0(3) Used i by (auto simp: nth_list_update)
    moreover have "T[i := BUDDY_UNUSED] ! a = T ! a" if "\<not> under i a" for a using that by (cases "a = i") auto
    ultimately show ?thesis using Used i \<open>t' = Free\<close>
      by (intro exI [of _ i] exI [of _ "T[i := BUDDY_UNUSED]"]) (simp add: free_rest_def)
  qed (use 0 in simp_all)
next
  case (Suc k d i T t t')
  have i: "i < length T" "0 < i" using node_bound [OF Suc.prems(1)] Suc.prems(4) by simp_all
  have d: "d < K" and kk: "K - (d + 1) = k" using Suc.prems(2) by simp_all
  note ch = node_child [OF Suc.prems(1) d, THEN conjunct1] node_child [OF Suc.prems(1) d, THEN conjunct2]
  note off = blk_off_child [OF Suc.prems(1) d]
  have pd: "P - (d + 1) = P - d - 1" by simp
  have dP: "d < P" using Suc.prems(1) d by (simp add: node_at_def)
  have half: "(2::nat) ^ (P - d) div 2 = 2 ^ (P - d - 1)" using dP by (cases "P - d") auto
  have lenb: "(2 * i + 2) * 2 ^ k \<le> length T"
  proof -
    have "(2 * i + 2) * 2 ^ k = (i + 1) * 2 ^ (K - d)" using Suc.prems(2) by simp
    then show ?thesis using node_bound(1) [OF Suc.prems(1)] Suc.prems(4) by simp
  qed
  have "(2 * i + 1) * 2 ^ k \<le> (2 * i + 2) * 2 ^ k" by (rule mult_le_mono1) simp
  then have b1: "(2 * i + 1) * 2 ^ k \<le> length T" and b2: "(2 * i + 1 + 1) * 2 ^ k \<le> length T" using lenb by auto
  have ne: "\<not> under (2 * i) i" "\<not> under (2 * i + 1) i" using under_le [of "2 * i" i] under_le [of "2 * i + 1" i] i by auto
  show ?case
  proof (cases t)
    case Free
    then show ?thesis using Suc.prems(5) by simp
  next
    case Used
    then have "T ! i = BUDDY_USED" "p = blk_off P d i" "t' = Free" using Suc.prems by (auto split: if_splits)
    then have "buddy_seek T p i (2 ^ (P - d)) (blk_off P d i) = Some (i, p)"
      by (subst buddy_seek.simps) (use i in simp)
    moreover have "holds (T[i := BUDDY_UNUSED]) (Suc k) i Free" using Suc.prems(3) Used i by (auto simp: nth_list_update)
    moreover have "T[i := BUDDY_UNUSED] ! a = T ! a" if "\<not> under i a" for a using that by (cases "a = i") auto
    ultimately show ?thesis using Used i \<open>t' = Free\<close>
      by (intro exI [of _ i] exI [of _ "T[i := BUDDY_UNUSED]"]) (simp add: free_rest_def)
  next
    case (Pair l r)
    note h = Suc.prems(3) [unfolded Pair]
    have lr: "holds T k (2 * i) l" "holds T k (2 * i + 1) r"
      and Ti: "T ! i = (if blk_full l \<and> blk_full r then BUDDY_FULL else BUDDY_SPLIT)" using h by auto
    have seek: "buddy_seek T p i (2 ^ (P - d)) (blk_off P d i) =
      (if p \<ge> blk_off P d i + 2 ^ (P - d - 1) then buddy_seek T p (2 * i + 1) (2 ^ (P - d - 1)) (blk_off P d i + 2 ^ (P - d - 1))
       else buddy_seek T p (2 * i) (2 ^ (P - d - 1)) (blk_off P d i))"
      by (subst buddy_seek.simps) (use i Ti half in \<open>simp add: Let_def buddy_status_defs mult.commute\<close>)
    show ?thesis
    proof (cases "p \<ge> blk_off P d i + 2 ^ (P - d - 1)")
      case True
      then obtain r' where r': "blk_free p (P - d - 1) (blk_off P d i + 2 ^ (P - d - 1)) r = Some r'" "t' = blk_pair l r'"
        using Suc.prems(5) Pair by auto
      from Suc.IH [OF ch(2) kk lr(2) Suc.prems(4), of r', unfolded off pd, OF r'(1)]
      obtain j T1 where 1: "buddy_seek T p (2 * i + 1) (2 ^ (P - d - 1)) (blk_off P d i + 2 ^ (P - d - 1)) = Some (j, p)"
        "j < length T" "under (2 * i + 1) j"
        "do { T1 \<leftarrow> buddy_merge (T[j := BUDDY_UNUSED]) j; buddy_unfull T1 j } = free_rest (blk_full r) (r' = Free) T1 (2 * i + 1)"
        "holds T1 k (2 * i + 1) r'" "length T1 = length T" "\<forall>a. \<not> under (2 * i + 1) a \<longrightarrow> T1 ! a = T ! a"
        by blast
      have l1: "holds T1 k (2 * i) l" using 1(6,7) under_siblings [OF i(2)] by (intro holds_cong [OF lr(1) _ b1]) auto
      have t1: "T1 ! i = (if blk_full r \<and> blk_full l then BUDDY_FULL else BUDDY_SPLIT)" using 1(7) ne Ti by auto
      obtain T2 where "free_rest (blk_full r) (r' = Free) T1 (2 * i + 1) = free_rest (blk_full r \<and> blk_full l) (blk_pair l r' = Free) T2 i"
        "holds T2 (Suc k) i (blk_pair l r')" "length T2 = length T1" "\<And>a. \<not> under i a \<Longrightarrow> T2 ! a = T1 ! a"
        using free_rest_up [OF l1 1(5) t1, of "2 * i + 1" r'] blk_free_not_full [OF r'(1)] lenb 1(6) i(2) by (metis (no_types))
      moreover have "\<forall>a. \<not> under i a \<longrightarrow> T1 ! a = T ! a" "under i j"
        using 1(3,7) under_child [of i] by (metis Suc_eq_plus1)+
      ultimately show ?thesis
        using 1(1,2,4,6) True seek r'(2) Pair by (intro exI [of _ j] exI [of _ T2]) (simp add: conj_commute)
    next
      case False
      then obtain l' where l': "blk_free p (P - d - 1) (blk_off P d i) l = Some l'" "t' = blk_pair l' r"
        using Suc.prems(5) Pair by auto
      from Suc.IH [OF ch(1) kk lr(1) Suc.prems(4), of l', unfolded off pd, OF l'(1)]
      obtain j T1 where 1: "buddy_seek T p (2 * i) (2 ^ (P - d - 1)) (blk_off P d i) = Some (j, p)"
        "j < length T" "under (2 * i) j"
        "do { T1 \<leftarrow> buddy_merge (T[j := BUDDY_UNUSED]) j; buddy_unfull T1 j } = free_rest (blk_full l) (l' = Free) T1 (2 * i)"
        "holds T1 k (2 * i) l'" "length T1 = length T" "\<forall>a. \<not> under (2 * i) a \<longrightarrow> T1 ! a = T ! a"
        by blast
      have r1: "holds T1 k (2 * i + 1) r" using 1(6,7) under_siblings [OF i(2)] by (intro holds_cong [OF lr(2) _ b2]) auto
      have t1: "T1 ! i = (if blk_full l \<and> blk_full r then BUDDY_FULL else BUDDY_SPLIT)" using 1(7) ne Ti by auto
      obtain T2 where "free_rest (blk_full l) (l' = Free) T1 (2 * i) = free_rest (blk_full l \<and> blk_full r) (blk_pair l' r = Free) T2 i"
        "holds T2 (Suc k) i (blk_pair l' r)" "length T2 = length T1" "\<And>a. \<not> under i a \<Longrightarrow> T2 ! a = T1 ! a"
        using free_rest_up [OF 1(5) r1 t1, of "2 * i" l'] blk_free_not_full [OF l'(1)] lenb 1(6) i(2) by (metis (no_types))
      moreover have "\<forall>a. \<not> under i a \<longrightarrow> T1 ! a = T ! a" "under i j"
        using 1(3,7) under_child [of i] by (metis Suc_eq_plus1)+
      ultimately show ?thesis
        using 1(1,2,4,6) False seek l'(2) Pair by (intro exI [of _ j] exI [of _ T2]) simp
    qed
  qed
qed

section \<open>Properties\<close>

definition buddy_ok :: "nat \<Rightarrow> nat \<Rightarrow> buddy_t \<Rightarrow> blk \<Rightarrow> bool" where
  \<comment> \<open>a pool of order \<open>P\<close> in blocks of at least order \<open>M\<close> whose index holds the tree\<close>
  "buddy_ok P M b t \<longleftrightarrow> M < P \<and> P < 30 \<and> b_pool_size b = 2 ^ P \<and> b_min_size b = 2 ^ M
     \<and> b_tree_size b = 2 ^ (P - M + 1) \<and> length (b_tree b) = 2 ^ (P - M + 1) \<and> length (b_pool b) = 2 ^ P
     \<and> holds (b_tree b) (P - M) 1 t"

lemma holds_blk_ok: "holds T k i t \<Longrightarrow> blk_ok m (m + k) t"
proof (induction t arbitrary: k i)
  case (Pair l r)
  then obtain k' where k: "k = Suc k'" by (cases k) auto
  with Pair have "blk_ok m (m + k') l" "blk_ok m (m + k') r" by auto
  then show ?case using Pair.prems k by auto
qed auto

lemma node_root: "M < P \<Longrightarrow> P < 30 \<Longrightarrow> node_at P (P - M) 0 1"
  by (simp add: node_at_def)

lemma blk_off_root: "blk_off P 0 1 = 0" "blk_off P 0 (Suc 0) = 0"
  by (simp_all add: blk_off_def)

lemma ROUNDUP_size_least:
  assumes "0 < n" "n \<le> 2 ^ 30"
  obtains k where "ROUNDUP_size n = Some (2 ^ k)" "n \<le> 2 ^ k" "k \<le> 30" "\<And>j. n \<le> 2 ^ j \<Longrightarrow> k \<le> j"
proof (cases "n = 1")
  case True
  then show thesis using that [of 0] by (simp add: ROUNDUP_size_def)
next
  case False
  then have n1: "0 < n - 1" "n - 1 < 2 ^ 32" using assms by auto
  obtain k where k: "2 ^ k \<le> n - 1" "n - 1 < 2 ^ (k + 1)" "k < 32" using ilog2_ex [OF n1] .
  have "(2::nat) ^ k < 2 ^ 30" using k(1) assms n1 by linarith
  then have k30: "k < 30" by (rule power_less_imp_less_exp [rotated]) simp
  have "(n + 2 ^ 64 - 1) mod 2 ^ 64 = n - 1"
  proof -
    have "n + 2 ^ 64 - 1 = (n - 1) + 2 ^ 64" using assms(1) by simp
    then have "(n + 2 ^ 64 - 1) mod 2 ^ 64 = (n - 1) mod 2 ^ 64" by (simp only: mod_add_self2)
    also have "\<dots> = n - 1" using n1(2) by (intro mod_less) simp
    finally show ?thesis .
  qed
  then have "ROUNDUP_size n = Some (2 ^ (k + 1))"
    using False ILOG2_eqI [OF k(1,2)] k30 by (simp add: ROUNDUP_size_def)
  moreover have "k + 1 \<le> j" if "n \<le> 2 ^ j" for j
  proof -
    have "(2::nat) ^ k < 2 ^ j" using k(1) that n1 by linarith
    then have "k < j" by (rule power_less_imp_less_exp [rotated]) simp
    then show ?thesis by simp
  qed
  ultimately show thesis using that [of "k + 1"] k(2) k30 by simp
qed

lemma buddy_alloc_ok:
  assumes ok: "buddy_ok P M b t" and n: "0 < n" "n \<le> 2 ^ P" and k: "ROUNDUP_size n = Some (2 ^ k)" "k \<le> P"
  shows "\<exists>b' t' r. buddy_alloc (Some b) n = Some (Some b', r) \<and> buddy_ok P M b' t' \<and> b_pool b' = b_pool b \<and>
    (case blk_alloc (max M k) P 0 t of None \<Rightarrow> r = None \<and> b' = b \<and> t' = t | Some (u, p) \<Rightarrow> r = Some p \<and> t' = u)"
proof -
  let ?K = "P - M" and ?m = "max M k"
  have P: "M < P" "P < 30" and sizes: "b_pool_size b = 2 ^ P" "b_min_size b = 2 ^ M" "b_tree_size b = 2 ^ (?K + 1)"
    "length (b_tree b) = 2 ^ (?K + 1)" "holds (b_tree b) ?K 1 t" using ok by (auto simp: buddy_ok_def)
  have nd: "node_at P ?K 0 1" using node_root [OF P] .
  have ms: "(if (2::nat) ^ k < b_min_size b then b_min_size b else 2 ^ k) = 2 ^ ?m"
    unfolding sizes(2) max_def by (auto simp: not_less)
  have mp: "?m \<le> P - 0" "P - ?K \<le> ?m" using k(2) P by auto
  have "n \<le> b_pool_size b" using n sizes(1) by simp
  then have al: "buddy_alloc (Some b) n = do { (T, mem) \<leftarrow> buddy_alloc_loop b (2 ^ ?m) (b_tree b) 1; Some (Some (b\<lparr>b_tree := T\<rparr>), mem) }"
    using k(1) ms by (simp add: Let_def)
  have climb1: "buddy_climb (Suc 0) = Suc 0" by (simp add: buddy_climb.simps)
  have up1: "buddy_set_full U (Suc 0) = Some U" for U by (simp add: buddy_set_full.simps)
  have spec: "(case blk_alloc ?m P 0 t of
      None \<Rightarrow> buddy_alloc_loop b (2 ^ ?m) (b_tree b) 1 = alloc_next b (2 ^ ?m) (b_tree b) 1
    | Some (t', p) \<Rightarrow> (\<exists>T'. buddy_alloc_loop b (2 ^ ?m) (b_tree b) 1 = alloc_found T' 1 (blk_full t') p \<and> holds T' ?K 1 t' \<and>
        length T' = length (b_tree b) \<and> (\<forall>j. \<not> under 1 j \<longrightarrow> T' ! j = b_tree b ! j)))"
    using alloc_loop_spec [OF nd _ sizes(5,4) mp(2,1) sizes(1,3)] by (simp add: blk_off_root)
  show ?thesis
  proof (cases "blk_alloc ?m P 0 t")
    case None
    then have "buddy_alloc (Some b) n = Some (Some b, None)"
      using spec al by (simp add: alloc_next_def climb1)
    then show ?thesis using None ok by auto
  next
    case (Some up)
    obtain u p where up: "up = (u, p)" by (cases up)
    obtain T' where "buddy_alloc_loop b (2 ^ ?m) (b_tree b) 1 = alloc_found T' 1 (blk_full u) p" "holds T' ?K 1 u"
      "length T' = length (b_tree b)" using spec Some up by auto
    then have "buddy_alloc (Some b) n = Some (Some (b\<lparr>b_tree := T'\<rparr>), Some p)" "buddy_ok P M (b\<lparr>b_tree := T'\<rparr>) u"
      using al up1 ok by (auto simp: alloc_found_def buddy_ok_def)
    then show ?thesis using Some up by auto
  qed
qed

lemma buddy_free_ok:
  assumes ok: "buddy_ok P M b t" and live: "(p, s) \<in> set (blk_live P 0 t)"
  shows "\<exists>b' t'. buddy_free (Some b) (Some p) = Some (Some b') \<and> buddy_ok P M b' t' \<and> b_pool b' = b_pool b \<and>
    mset (blk_live P 0 t) = add_mset (p, s) (mset (blk_live P 0 t'))"
proof -
  let ?K = "P - M"
  have P: "M < P" "P < 30" and sizes: "b_pool_size b = 2 ^ P" "length (b_tree b) = 2 ^ (?K + 1)" "holds (b_tree b) ?K 1 t"
    using ok by (auto simp: buddy_ok_def)
  have nd: "node_at P ?K 0 1" using node_root [OF P] .
  have okt: "blk_ok M P t" using holds_blk_ok [OF sizes(3), of M] P by simp
  obtain t' where t': "blk_free p P 0 t = Some t'" "mset (blk_live P 0 t) = add_mset (p, s) (mset (blk_live P 0 t'))"
    using blk_free_Some [OF live okt] by blast
  have "p \<le> b_pool_size b" using blk_live_range [OF okt live] sizes(1) by simp
  moreover obtain j T' where j: "buddy_seek (b_tree b) p 1 (2 ^ P) 0 = Some (j, p)" "j < length (b_tree b)"
    "do { T1 \<leftarrow> buddy_merge ((b_tree b)[j := BUDDY_UNUSED]) j; buddy_unfull T1 j } = free_rest (blk_full t) (t' = Free) T' 1"
    "holds T' ?K 1 t'" "length T' = length (b_tree b)"
    using free_spec [OF nd _ sizes(3,2), of p t', unfolded blk_off_root minus_nat.diff_0] t'(1) by blast
  moreover have "free_rest f z T' 1 = Some T'" for f z
    by (simp add: free_rest_def buddy_merge.simps [of T' "Suc 0"] buddy_unfull.simps [of T' "Suc 0"])
  ultimately have "buddy_free (Some b) (Some p) = Some (Some (b\<lparr>b_tree := T'\<rparr>))"
    using sizes(1) by (auto simp: bind_eq_Some_conv)
  moreover have "buddy_ok P M (b\<lparr>b_tree := T'\<rparr>) t'" using j(4,5) ok by (simp add: buddy_ok_def)
  ultimately show ?thesis using t'(2) by auto
qed

lemma seek_size:
  assumes "node_at P K d i" "K - d = k" "holds T k i t" "length T = 2 ^ (K + 1)"
    "(p, s) \<in> set (blk_live (P - d) (blk_off P d i) t)" "b_pool_size b = 2 ^ P"
  shows "\<exists>j. buddy_seek T p i (2 ^ (P - d)) (blk_off P d i) = Some (j, p) \<and> BUDDY_SIZE_FROM_INDEX b j = s"
  using assms(1-5)
proof (induction k arbitrary: d i t)
  case (0 d i t)
  have i: "i < length T" using node_bound [OF 0(1)] 0(4) by simp
  show ?case
  proof (cases t)
    case Used
    then have "T ! i = BUDDY_USED" "p = blk_off P d i" "s = 2 ^ (P - d)" using 0 by auto
    then show ?thesis using i node_size_shift(1) [OF 0(1) assms(6)] by (subst buddy_seek.simps) simp
  qed (use 0 in simp_all)
next
  case (Suc k d i t)
  have i: "i < length T" "0 < i" using node_bound [OF Suc.prems(1)] Suc.prems(4) by simp_all
  have d: "d < K" and kk: "K - (d + 1) = k" using Suc.prems(2) by simp_all
  note ch = node_child [OF Suc.prems(1) d, THEN conjunct1] node_child [OF Suc.prems(1) d, THEN conjunct2]
  note off = blk_off_child [OF Suc.prems(1) d]
  have pd: "P - (d + 1) = P - d - 1" by simp
  have dP: "d < P" using Suc.prems(1) d by (simp add: node_at_def)
  have half: "(2::nat) ^ (P - d) div 2 = 2 ^ (P - d - 1)" using dP by (cases "P - d") auto
  show ?case
  proof (cases t)
    case Used
    then have "T ! i = BUDDY_USED" "p = blk_off P d i" "s = 2 ^ (P - d)" using Suc.prems by auto
    then show ?thesis using i node_size_shift(1) [OF Suc.prems(1) assms(6)] by (subst buddy_seek.simps) simp
  next
    case (Pair l r)
    note h = Suc.prems(3) [unfolded Pair]
    have lr: "holds T k (2 * i) l" "holds T k (2 * i + 1) r"
      and Ti: "T ! i = (if blk_full l \<and> blk_full r then BUDDY_FULL else BUDDY_SPLIT)" using h by auto
    have seek: "buddy_seek T p i (2 ^ (P - d)) (blk_off P d i) =
      (if p \<ge> blk_off P d i + 2 ^ (P - d - 1) then buddy_seek T p (2 * i + 1) (2 ^ (P - d - 1)) (blk_off P d i + 2 ^ (P - d - 1))
       else buddy_seek T p (2 * i) (2 ^ (P - d - 1)) (blk_off P d i))"
      by (subst buddy_seek.simps) (use i Ti half in \<open>simp add: Let_def buddy_status_defs mult.commute\<close>)
    have okk: "blk_ok 0 k l" "blk_ok 0 k r" using holds_blk_ok [of T k _ _ 0] lr by auto
    have up: "blk_ok 0 n u \<Longrightarrow> n \<le> n' \<Longrightarrow> blk_ok 0 n' u" for u n n'
      by (induction u arbitrary: n n') (auto intro: diff_le_mono)
    have kP: "k \<le> P - d - 1" using Suc.prems(1,2) by (auto simp: node_at_def)
    from Suc.prems(5) Pair consider "(p, s) \<in> set (blk_live (P - d - 1) (blk_off P d i) l)"
      | "(p, s) \<in> set (blk_live (P - d - 1) (blk_off P d i + 2 ^ (P - d - 1)) r)" by auto
    then show ?thesis
    proof cases
      case 1
      from Suc.IH [OF ch(1) kk lr(1) Suc.prems(4), unfolded off pd, OF 1]
      show ?thesis using seek blk_live_range [OF up [OF okk(1) kP] 1] by auto
    next
      case 2
      from Suc.IH [OF ch(2) kk lr(2) Suc.prems(4), unfolded off pd, OF 2]
      show ?thesis using seek blk_live_range [OF up [OF okk(2) kP] 2] by auto
    qed
  qed (use Suc.prems in simp)
qed

lemma buddy_init_ok:
  assumes "4 \<le> ms" "ms \<le> sz" "sz < 2 ^ 29" "\<And>n. \<exists>pool. mp n = Some pool \<and> length pool = n"
  shows "\<exists>P M. ROUNDUP_size sz = Some (2 ^ P) \<and> ROUNDUP_size ms = Some (2 ^ M) \<and>
    (if P \<le> M then buddy_init True True mp sz ms = Some None
     else \<exists>b. buddy_init True True mp sz ms = Some (Some b) \<and> buddy_ok P M b Free)"
proof -
  have "sz \<le> 2 ^ 30" "ms \<le> 2 ^ 30" "0 < sz" "0 < ms" using assms(1-3) by auto
  then obtain P M where P: "ROUNDUP_size sz = Some (2 ^ P)" "\<And>j. sz \<le> 2 ^ j \<Longrightarrow> P \<le> j"
    and M: "ROUNDUP_size ms = Some (2 ^ M)" "ms \<le> 2 ^ M"
    using ROUNDUP_size_least by metis
  have P29: "P \<le> 29" using P(2) [of 29] assms(3) by simp
  then have "(2::nat) ^ P \<le> 2 ^ 29" by (intro power_increasing) auto
  then have fits: "(2::nat) ^ P * 2 < 2 ^ 31" by simp
  obtain pool where pool: "mp (2 ^ P) = Some pool" "length pool = 2 ^ P" using assms(4) by metis
  have "(if P \<le> M then buddy_init True True mp sz ms = Some None
     else \<exists>b. buddy_init True True mp sz ms = Some (Some b) \<and> buddy_ok P M b Free)"
  proof (cases "P \<le> M")
    case True
    then have "(2::nat) ^ P \<le> 2 ^ M" by (intro power_increasing) auto
    then show ?thesis using True P M assms(1) by (simp add: buddy_init_def BUDDY_MIN_SIZE_def Let_def)
  next
    case False
    then have lt: "(2::nat) ^ M < 2 ^ P" by (intro power_strict_increasing) auto
    have ts: "2 ^ P * 2 div 2 ^ M = (2::nat) ^ (P - M + 1)"
    proof -
      have "2 ^ P * 2 = (2::nat) ^ (P - M + 1) * 2 ^ M" using False by (simp flip: power_add power_Suc2)
      then show ?thesis by (simp only: nonzero_mult_div_cancel_right) simp
    qed
    let ?b = "\<lparr>b_pool_size = 2 ^ P, b_min_size = 2 ^ M, b_min_order = ILOG2 (2 ^ M), b_max_order = ILOG2 (2 ^ P),
      b_tree = replicate (2 ^ (P - M + 1)) BUDDY_UNUSED, b_tree_size = 2 ^ (P - M + 1), b_pool = pool\<rparr>"
    have "buddy_init True True mp sz ms = Some (Some ?b)"
      using P(1) M(1) assms(1) lt fits pool(1) ts
      by (simp add: buddy_init_def BUDDY_MIN_SIZE_def Let_def del: power_Suc)
    moreover have "buddy_ok P M ?b Free" using False P29 pool(2) by (simp add: buddy_ok_def)
    ultimately show ?thesis using False by auto
  qed
  then show ?thesis using P(1) M(1) by blast
qed

text \<open>A client that allocates and releases its own blocks: the list of what it holds.\<close>

datatype buddy_op = BAlloc nat | BFree nat

fun buddy_client :: "buddy_op list \<Rightarrow> buddy_t \<times> (nat \<times> nat) list \<Rightarrow> (buddy_t \<times> (nat \<times> nat) list) option" where
  \<comment> \<open>the blocks held, with their requested sizes; \<open>BFree k\<close> releases the one at position \<open>k\<close>\<close>
  "buddy_client [] c = Some c"
| "buddy_client (BAlloc n # ops) (b, held) = do {
     (b', r) \<leftarrow> buddy_alloc (Some b) n;
     (case (b', r) of
        (Some b', Some p) \<Rightarrow> buddy_client ops (b', (p, n) # held)
      | (Some b', None) \<Rightarrow> buddy_client ops (b', held)
      | _ \<Rightarrow> None) }"
| "buddy_client (BFree k # ops) (b, held) =
     (if k < length held then do {
        b' \<leftarrow> buddy_free (Some b) (Some (fst (held ! k)));
        (case b' of Some b' \<Rightarrow> buddy_client ops (b', take k held @ drop (k + 1) held) | None \<Rightarrow> None) }
      else buddy_client ops (b, held))"

definition buddy_held :: "nat \<Rightarrow> (nat \<times> nat) list \<Rightarrow> blk \<Rightarrow> bool" where
  \<comment> \<open>the client holds exactly the allocated blocks, each at least as large as it was requested\<close>
  "buddy_held P held t \<longleftrightarrow> (\<exists>bs. length bs = length held \<and> mset bs = mset (blk_live P 0 t)
     \<and> (\<forall>k < length held. fst (bs ! k) = fst (held ! k) \<and> snd (held ! k) \<le> snd (bs ! k)))"

lemma mset_remove_at: "k < length xs \<Longrightarrow> mset xs = add_mset (xs ! k) (mset (take k xs @ drop (k + 1) xs))"
proof -
  assume "k < length xs"
  then have "xs = take k xs @ xs ! k # drop (k + 1) xs" using id_take_nth_drop by simp
  then have "mset xs = mset (take k xs @ xs ! k # drop (k + 1) xs)" by simp
  then show ?thesis by simp
qed

lemma nth_remove_at:
  "k < length xs \<Longrightarrow> a < length xs - 1 \<Longrightarrow> (take k xs @ drop (k + 1) xs) ! a = xs ! (if a < k then a else a + 1)"
  by (auto simp: nth_append min_def)

lemma buddy_client_ok:
  assumes "buddy_ok P M b t" "buddy_held P held t" "\<forall>n. BAlloc n \<in> set ops \<longrightarrow> 0 < n \<and> n \<le> 2 ^ 30"
  shows "\<exists>b' held' t'. buddy_client ops (b, held) = Some (b', held') \<and> buddy_ok P M b' t' \<and> buddy_held P held' t'"
  using assms
proof (induction ops arbitrary: b held t)
  case (Cons a ops)
  have P: "M < P" "P < 30" "b_pool_size b = 2 ^ P" using Cons.prems(1) by (auto simp: buddy_ok_def)
  have okt: "blk_ok M P t" using holds_blk_ok [of "b_tree b" "P - M" 1 t M] Cons.prems(1) by (auto simp: buddy_ok_def)
  obtain bs where bs: "length bs = length held" "mset bs = mset (blk_live P 0 t)"
    "\<forall>k < length held. fst (bs ! k) = fst (held ! k) \<and> snd (held ! k) \<le> snd (bs ! k)"
    using Cons.prems(2) by (auto simp: buddy_held_def)
  show ?case
  proof (cases a)
    case (BAlloc n)
    then have n: "0 < n" "n \<le> 2 ^ 30" using Cons.prems(3) by auto
    obtain k where k: "ROUNDUP_size n = Some (2 ^ k)" "n \<le> 2 ^ k" "\<And>j. n \<le> 2 ^ j \<Longrightarrow> k \<le> j"
      using ROUNDUP_size_least [OF n] by metis
    show ?thesis
    proof (cases "n \<le> 2 ^ P")
      case False
      then have "buddy_alloc (Some b) n = Some (Some b, None)" using k(1) P(3) by simp
      then show ?thesis using BAlloc Cons by simp
    next
      case True
      obtain b' t' r where 1: "buddy_alloc (Some b) n = Some (Some b', r)" "buddy_ok P M b' t'"
        "case blk_alloc (max M k) P 0 t of None \<Rightarrow> r = None \<and> b' = b \<and> t' = t | Some (u, p) \<Rightarrow> r = Some p \<and> t' = u"
        using buddy_alloc_ok [OF Cons.prems(1) n(1) True k(1) k(3) [OF True]] by blast
      show ?thesis
      proof (cases r)
        case None
        then show ?thesis using 1 BAlloc Cons by (auto split: option.splits)
      next
        case (Some p)
        then have al: "blk_alloc (max M k) P 0 t = Some (t', p)" using 1(3) by (auto split: option.splits)
        have live: "mset (blk_live P 0 t') = add_mset (p, 2 ^ max M k) (mset (blk_live P 0 t))"
          using blk_alloc_Some [OF al okt] by simp
        have "(2::nat) ^ k \<le> 2 ^ max M k" by (intro power_increasing) auto
        then have "n \<le> 2 ^ max M k" using k(2) by linarith
        then have "buddy_held P ((p, n) # held) t'"
          unfolding buddy_held_def using bs live
          by (intro exI [of _ "(p, 2 ^ max M k) # bs"]) (auto simp: less_Suc_eq_0_disj)
        then show ?thesis using 1(1,2) Some BAlloc Cons.IH [of b' t' "(p, n) # held"] Cons.prems(3)
          by (simp del: buddy_alloc.simps)
      qed
    qed
  next
    case (BFree k)
    show ?thesis
    proof (cases "k < length held")
      case False
      then show ?thesis using BFree Cons by simp
    next
      case True
      obtain p s' where ps: "bs ! k = (p, s')" by (cases "bs ! k")
      have in_live: "(p, s') \<in> set (blk_live P 0 t)"
        using True bs(1,2) ps by (metis nth_mem set_mset_mset)
      obtain b' t' where 1: "buddy_free (Some b) (Some p) = Some (Some b')" "buddy_ok P M b' t'"
        "mset (blk_live P 0 t) = add_mset (p, s') (mset (blk_live P 0 t'))"
        using buddy_free_ok [OF Cons.prems(1) in_live] by blast
      have hk: "fst (held ! k) = p" using bs(3) True ps by force
      have "buddy_held P (take k held @ drop (k + 1) held) t'"
        unfolding buddy_held_def
      proof (intro exI [of _ "take k bs @ drop (k + 1) bs"] conjI allI impI)
        show "length (take k bs @ drop (k + 1) bs) = length (take k held @ drop (k + 1) held)" using bs(1) by simp
        show "mset (take k bs @ drop (k + 1) bs) = mset (blk_live P 0 t')"
          using mset_remove_at [of k bs] True bs(1,2) ps 1(3) by simp
        fix j
        assume j: "j < length (take k held @ drop (k + 1) held)"
        then have j': "j < length held - 1" using True by simp
        show "fst ((take k bs @ drop (k + 1) bs) ! j) = fst ((take k held @ drop (k + 1) held) ! j)"
          "snd ((take k held @ drop (k + 1) held) ! j) \<le> snd ((take k bs @ drop (k + 1) bs) ! j)"
          using bs(3) j' True by (auto simp only: nth_remove_at bs(1) split: if_splits)
      qed
      then show ?thesis using 1(1,2) True hk BFree Cons.IH [of b' t' "take k held @ drop (k + 1) held"] Cons.prems(3)
        by (simp del: buddy_free.simps)
    qed
  qed
qed auto

lemma sorted_wrt_mset_sym:
  assumes "\<And>x y. R x y \<Longrightarrow> R y x" "mset xs = mset ys" "sorted_wrt R ys"
  shows "sorted_wrt R xs"
  using assms(2,3)
proof (induction xs arbitrary: ys)
  case (Cons x xs)
  then obtain us vs where ys: "ys = us @ x # vs" by (metis list.set_intros(1) set_mset_mset split_list)
  then have "mset xs = mset (us @ vs)" using Cons.prems(1) by simp
  moreover have "sorted_wrt R (us @ vs)" using Cons.prems(2) ys by (auto simp: sorted_wrt_append)
  ultimately have "sorted_wrt R xs" using Cons.IH by blast
  moreover have "R x y" if "y \<in> set xs" for y
  proof -
    have "y \<in> set us \<or> y \<in> set vs" using that \<open>mset xs = mset (us @ vs)\<close> by (metis set_append Un_iff set_mset_mset)
    then show ?thesis using Cons.prems(2) ys assms(1) by (auto simp: sorted_wrt_append)
  qed
  ultimately show ?case by simp
qed simp

lemma held_apart:
  assumes "blk_ok M P t" "buddy_held P held t"
  shows "\<forall>k < length held. fst (held ! k) + snd (held ! k) \<le> 2 ^ P"
    and "\<forall>j < length held. \<forall>k < length held. j \<noteq> k \<longrightarrow>
      fst (held ! j) + snd (held ! j) \<le> fst (held ! k) \<or> fst (held ! k) + snd (held ! k) \<le> fst (held ! j)"
proof -
  obtain bs where bs: "length bs = length held" "mset bs = mset (blk_live P 0 t)"
    "\<forall>k < length held. fst (bs ! k) = fst (held ! k) \<and> snd (held ! k) \<le> snd (bs ! k)"
    using assms(2) by (auto simp: buddy_held_def)
  show "\<forall>k < length held. fst (held ! k) + snd (held ! k) \<le> 2 ^ P"
  proof (intro allI impI)
    fix k
    assume k: "k < length held"
    then have "bs ! k \<in> set (blk_live P 0 t)" using bs(1,2) by (metis nth_mem set_mset_mset)
    then show "fst (held ! k) + snd (held ! k) \<le> 2 ^ P"
      using blk_live_range [OF assms(1), of "fst (bs ! k)" "snd (bs ! k)" 0] bs(3) k by fastforce
  qed
  let ?R = "\<lambda>x y. fst x + snd x \<le> fst y \<or> fst y + snd y \<le> fst (x :: nat \<times> nat)"
  have "sorted_wrt (\<lambda>(p, s) (q, u). p + s \<le> q) (blk_live P 0 t)" by (rule blk_live_apart [OF assms(1)])
  then have "sorted_wrt ?R (blk_live P 0 t)" by (rule sorted_wrt_mono_rel [rotated]) auto
  then have srt: "sorted_wrt ?R bs" by (rule sorted_wrt_mset_sym [rotated 2]) (use bs(2) in auto)
  show "\<forall>j < length held. \<forall>k < length held. j \<noteq> k \<longrightarrow>
      fst (held ! j) + snd (held ! j) \<le> fst (held ! k) \<or> fst (held ! k) + snd (held ! k) \<le> fst (held ! j)"
  proof (intro allI impI)
    fix j k
    assume jk: "j < length held" "k < length held" "j \<noteq> k"
    have nth: "?R (bs ! a) (bs ! c)" if "a < c" "c < length held" for a c
      using sorted_wrt_nth_less [OF srt that(1)] that(2) bs(1) by simp
    have "?R (bs ! j) (bs ! k)"
      using nth [of j k] nth [of k j] jk by (cases "j < k") auto
    then show "fst (held ! j) + snd (held ! j) \<le> fst (held ! k) \<or> fst (held ! k) + snd (held ! k) \<le> fst (held ! j)"
      using bs(3) [rule_format, OF jk(1)] bs(3) [rule_format, OF jk(2)] by linarith
  qed
qed

lemma blk_live_empty: "blk_ok M n t \<Longrightarrow> blk_live n off t = [] \<Longrightarrow> t = Free"
proof (induction t arbitrary: n off)
  case (Pair l r)
  then have "l = Free" "r = Free" by auto
  then show ?case using Pair.prems(1) by simp
qed auto

text \<open>C1: A buddy allocator created over a pool of less than 2 to the power 29 bytes serves any client
  that requests 1 to 2 to the power 30 bytes at a time and releases what it holds: no request or
  release fails an assertion, leaves the index array or spins; the blocks held stay inside the
  pool and apart from each other; and once everything is released the pool is one block again,
  so that a request for all of it succeeds.\<close>
theorem buddy_serves_clients:
  assumes "4 \<le> ms" "ms \<le> sz" "sz < 2 ^ 29" "\<And>n. \<exists>pool. mp n = Some pool \<and> length pool = n"
    and "\<forall>n. BAlloc n \<in> set ops \<longrightarrow> 0 < n \<and> n \<le> 2 ^ 30"
    and "buddy_init True True mp sz ms = Some (Some b)"
  shows "\<exists>b' held. buddy_client ops (b, []) = Some (b', held) \<and>
    (\<forall>k < length held. fst (held ! k) + snd (held ! k) \<le> b_pool_size b') \<and>
    (\<forall>j < length held. \<forall>k < length held. j \<noteq> k \<longrightarrow>
      fst (held ! j) + snd (held ! j) \<le> fst (held ! k) \<or> fst (held ! k) + snd (held ! k) \<le> fst (held ! j)) \<and>
    (held = [] \<longrightarrow> (\<exists>b''. buddy_alloc (Some b') (b_pool_size b') = Some (Some b'', Some 0)))"
proof -
  obtain P M where PM: "ROUNDUP_size sz = Some (2 ^ P)" "buddy_ok P M b Free"
    using buddy_init_ok [OF assms(1-4)] assms(6) by (auto split: if_splits)
  have "buddy_held P [] Free" by (simp add: buddy_held_def)
  from buddy_client_ok [OF PM(2) this assms(5)] obtain b' held t where
    1: "buddy_client ops (b, []) = Some (b', held)" "buddy_ok P M b' t" "buddy_held P held t" by blast
  have okt: "blk_ok M P t" using holds_blk_ok [of "b_tree b'" "P - M" 1 t M] 1(2) by (auto simp: buddy_ok_def)
  have pool: "b_pool_size b' = 2 ^ P" "P < 30" "M < P" using 1(2) by (auto simp: buddy_ok_def)
  have "\<exists>b''. buddy_alloc (Some b') (b_pool_size b') = Some (Some b'', Some 0)" if "held = []"
  proof -
    have "blk_live P 0 t = []" using 1(3) that by (simp add: buddy_held_def)
    then have t: "t = Free" using blk_live_empty [OF okt] by simp
    have "(2::nat) ^ P \<le> 2 ^ 30" using pool(2) by (intro power_increasing) auto
    then obtain k where k: "ROUNDUP_size (2 ^ P) = Some (2 ^ k)" "2 ^ P \<le> (2 :: nat) ^ k" "\<And>j. (2 :: nat) ^ P \<le> 2 ^ j \<Longrightarrow> k \<le> j"
      using ROUNDUP_size_least [of "2 ^ P"] by (metis zero_less_numeral zero_less_power)
    have "k = P" using k(2) k(3) [of P] by (simp add: power_increasing_iff)
    then obtain b'' t' r where "buddy_alloc (Some b') (2 ^ P) = Some (Some b'', r)"
      "case blk_alloc P P 0 t of None \<Rightarrow> r = None \<and> b'' = b' \<and> t' = t | Some (u, p) \<Rightarrow> r = Some p \<and> t' = u"
      using buddy_alloc_ok [OF 1(2) _ order_refl k(1)] pool(3) by (auto simp: max_def)
    moreover have "blk_alloc P P 0 Free = Some (Used, 0)" by (subst blk_alloc.simps) simp
    ultimately have "r = Some 0" using t by simp
    then show ?thesis using \<open>buddy_alloc (Some b') (2 ^ P) = Some (Some b'', r)\<close> pool(1)
      by (simp del: buddy_alloc.simps)
  qed
  then have "held = [] \<longrightarrow> (\<exists>b''. buddy_alloc (Some b') (b_pool_size b') = Some (Some b'', Some 0))" by (rule impI)
  with 1(1) held_apart [OF okt 1(3)] show ?thesis
    by (intro exI [of _ b'] exI [of _ held] conjI) (simp_all only: pool(1))
qed

lemma buddy_demo_init:
  "ROUNDUP_size 16 = Some 16" "ROUNDUP_size 4 = Some 4"
  "buddy_init True True (\<lambda>n. Some (replicate n 0)) 16 4 = Some (Some \<lparr>b_pool_size = 16, b_min_size = 4,
     b_min_order = 2, b_max_order = 4, b_tree = replicate 8 BUDDY_UNUSED, b_tree_size = 8, b_pool = replicate 16 0\<rparr>)"
proof -
  show r: "ROUNDUP_size 16 = Some 16" "ROUNDUP_size 4 = Some 4"
    using ILOG2_eqI [of 3 15] ILOG2_eqI [of 1 3] by (simp_all add: ROUNDUP_size_def)
  show "buddy_init True True (\<lambda>n. Some (replicate n 0)) 16 4 = Some (Some \<lparr>b_pool_size = 16, b_min_size = 4,
     b_min_order = 2, b_max_order = 4, b_tree = replicate 8 BUDDY_UNUSED, b_tree_size = 8, b_pool = replicate 16 0\<rparr>)"
    using r ILOG2_eqI [of 4 16] ILOG2_eqI [of 2 4] by (simp add: buddy_init_def BUDDY_MIN_SIZE_def Let_def)
qed

lemma buddy_serves_clients_witness:
  "\<exists>b b' held. buddy_init True True (\<lambda>n. Some (replicate n 0)) 16 4 = Some (Some b) \<and>
    buddy_client [BAlloc 4, BAlloc 5, BAlloc 3, BFree 1, BAlloc 4] (b, []) = Some (b', held) \<and>
    \<not> (\<exists>k < length held. fst (held ! k) + snd (held ! k) > b_pool_size b')"
proof -
  obtain b where b: "buddy_init True True (\<lambda>n. Some (replicate n 0)) 16 4 = Some (Some b)"
    using buddy_demo_init(3) by blast
  from buddy_serves_clients [of 4 16 "\<lambda>n. Some (replicate n 0)" "[BAlloc 4, BAlloc 5, BAlloc 3, BFree 1, BAlloc 4]" b] b
  show ?thesis by (fastforce simp: not_less simp del: buddy_client.simps)
qed

text \<open>A request within the pool is refused only when every free block is smaller than the request
  rounded up to a power of two and to the minimal block, and the refusal changes nothing;
  otherwise the block returned is aligned to its own size, large enough, and new: it is added to
  the allocated blocks, which stay where they are.\<close>
lemma buddy_alloc_first_fit:
  assumes "buddy_ok P M b t" "0 < n" "n \<le> 2 ^ P"
  shows "\<exists>k b' t' r. ROUNDUP_size n = Some (2 ^ k) \<and> n \<le> 2 ^ k \<and>
    buddy_alloc (Some b) n = Some (Some b', r) \<and> buddy_ok P M b' t' \<and>
    (case r of None \<Rightarrow> b' = b \<and> (\<forall>j \<in> blk_room P t. j < max M k)
     | Some p \<Rightarrow> (\<exists>j \<in> blk_room P t. max M k \<le> j) \<and> 2 ^ max M k dvd p \<and>
         mset (blk_live P 0 t') = add_mset (p, 2 ^ max M k) (mset (blk_live P 0 t)))"
proof -
  have P: "M < P" "P < 30" using assms(1) by (auto simp: buddy_ok_def)
  have "(2::nat) ^ P \<le> 2 ^ 30" using P(2) by (intro power_increasing) auto
  then have n30: "n \<le> 2 ^ 30" using assms(3) by linarith
  obtain k where k: "ROUNDUP_size n = Some (2 ^ k)" "n \<le> 2 ^ k" "\<And>j. n \<le> 2 ^ j \<Longrightarrow> k \<le> j"
    using ROUNDUP_size_least [OF assms(2) n30] by metis
  have okt: "blk_ok M P t" using holds_blk_ok [of "b_tree b" "P - M" 1 t M] assms(1) P by (auto simp: buddy_ok_def)
  obtain b' t' r where 1: "buddy_alloc (Some b) n = Some (Some b', r)" "buddy_ok P M b' t'"
    "case blk_alloc (max M k) P 0 t of None \<Rightarrow> r = None \<and> b' = b \<and> t' = t | Some (u, p) \<Rightarrow> r = Some p \<and> t' = u"
    using buddy_alloc_ok [OF assms k(1) k(3) [OF assms(3)]] by blast
  have "case r of None \<Rightarrow> b' = b \<and> (\<forall>j \<in> blk_room P t. j < max M k)
     | Some p \<Rightarrow> (\<exists>j \<in> blk_room P t. max M k \<le> j) \<and> 2 ^ max M k dvd p \<and>
         mset (blk_live P 0 t') = add_mset (p, 2 ^ max M k) (mset (blk_live P 0 t))"
  proof (cases r)
    case None
    then show ?thesis using 1(3) blk_alloc_None [OF okt, of "max M k" 0] by (auto split: option.splits)
  next
    case (Some p)
    then have al: "blk_alloc (max M k) P 0 t = Some (t', p)" using 1(3) by (auto split: option.splits)
    have live: "mset (blk_live P 0 t') = add_mset (p, 2 ^ max M k) (mset (blk_live P 0 t))" "blk_ok M P t'"
      using blk_alloc_Some [OF al okt] by auto
    then have "(p, 2 ^ max M k) \<in> set (blk_live P 0 t')" by (metis set_mset_mset union_single_eq_member)
    then have "2 ^ max M k dvd p" by (rule blk_live_aligned [OF live(2) dvd_0_right])
    moreover have "\<exists>j \<in> blk_room P t. max M k \<le> j"
      using blk_alloc_None [OF okt, of "max M k" 0] al by (auto simp: not_less)
    ultimately show ?thesis using Some live(1) by simp
  qed
  then show ?thesis using k(1,2) 1(1,2) by blast
qed

lemma buddy_demo_ok:
  obtains b where "buddy_init True True (\<lambda>n. Some (replicate n 0)) 16 4 = Some (Some b)" "buddy_ok 4 2 b Free"
proof -
  have "buddy_ok 4 2 \<lparr>b_pool_size = 16, b_min_size = 4,
     b_min_order = 2, b_max_order = 4, b_tree = replicate 8 BUDDY_UNUSED, b_tree_size = 8, b_pool = replicate 16 0\<rparr> Free"
    by (simp add: buddy_ok_def)
  then show thesis using buddy_demo_init(3) that by blast
qed

lemma buddy_alloc_first_fit_witness:
  "\<exists>b k b' t' r. buddy_init True True (\<lambda>n. Some (replicate n 0)) 16 4 = Some (Some b) \<and>
    ROUNDUP_size 5 = Some (2 ^ k) \<and> buddy_alloc (Some b) 5 = Some (Some b', r) \<and> buddy_ok 4 2 b' t'"
proof -
  obtain b where b: "buddy_init True True (\<lambda>n. Some (replicate n 0)) 16 4 = Some (Some b)" "buddy_ok 4 2 b Free"
    using buddy_demo_ok by blast
  from buddy_alloc_first_fit [OF b(2), of 5] b(1) show ?thesis by (auto simp del: buddy_alloc.simps)
qed

text \<open>Reallocating a block the client holds always releases it: when the new request succeeds, the
  new block starts with the old contents, as much of them as fits; when it fails, \<^verbatim>\<open>NULL\<close> is
  returned and the old block, with its contents, is gone all the same.\<close>
lemma buddy_realloc_spec:
  assumes "buddy_ok P M b t" "(p, s) \<in> set (blk_live P 0 t)" "0 < n" "n \<le> 2 ^ P"
  shows "\<exists>b' t' r. buddy_realloc (Some b) (Some p) n = Some (Some b', r) \<and> buddy_ok P M b' t' \<and>
    (case r of
       None \<Rightarrow> add_mset (p, s) (mset (blk_live P 0 t')) = mset (blk_live P 0 t)
     | Some q \<Rightarrow> (\<exists>u \<ge> n. add_mset (p, s) (mset (blk_live P 0 t')) = add_mset (q, u) (mset (blk_live P 0 t))) \<and>
         take (min s n) (drop q (b_pool b')) = take (min s n) (drop p (b_pool b)))"
proof -
  let ?K = "P - M"
  have P: "M < P" "P < 30" and sizes: "b_pool_size b = 2 ^ P" "length (b_tree b) = 2 ^ (?K + 1)" "holds (b_tree b) ?K 1 t"
    "length (b_pool b) = 2 ^ P"
    using assms(1) by (auto simp: buddy_ok_def)
  have nd: "node_at P ?K 0 1" using node_root [OF P] .
  have okt: "blk_ok M P t" using holds_blk_ok [OF sizes(3), of M] P by simp
  obtain j where j: "buddy_seek (b_tree b) p 1 (b_pool_size b) 0 = Some (j, p)" "BUDDY_SIZE_FROM_INDEX b j = s"
    using seek_size [OF nd _ sizes(3,2), of p s b, unfolded blk_off_root minus_nat.diff_0] assms(2) sizes(1) by auto
  have range: "p + s \<le> 2 ^ P" using blk_live_range [OF okt assms(2)] by simp
  then have le: "p \<le> b_pool_size b" using sizes(1) by simp
  have "(2::nat) ^ P \<le> 2 ^ 30" using P(2) by (intro power_increasing) auto
  then have n30: "n \<le> 2 ^ 30" using assms(4) by linarith
  obtain k where k: "ROUNDUP_size n = Some (2 ^ k)" "n \<le> 2 ^ k" "\<And>j. n \<le> 2 ^ j \<Longrightarrow> k \<le> j"
    using ROUNDUP_size_least [OF assms(3) n30] by metis
  obtain b1 t1 r where 1: "buddy_alloc (Some b) n = Some (Some b1, r)" "buddy_ok P M b1 t1" "b_pool b1 = b_pool b"
    "case blk_alloc (max M k) P 0 t of None \<Rightarrow> r = None \<and> b1 = b \<and> t1 = t | Some (u, p) \<Rightarrow> r = Some p \<and> t1 = u"
    using buddy_alloc_ok [OF assms(1,3,4) k(1) k(3) [OF assms(4)]] by blast
  have mn: "(if s < n then s else n) = min s n" by (simp add: min_def)
  show ?thesis
  proof (cases r)
    case None
    then have b1: "b1 = b" using 1(4) by (auto split: option.splits)
    obtain b' t' where f: "buddy_free (Some b) (Some p) = Some (Some b')" "buddy_ok P M b' t'"
      "mset (blk_live P 0 t) = add_mset (p, s) (mset (blk_live P 0 t'))"
      using buddy_free_ok [OF assms(1,2)] by blast
    have "buddy_realloc (Some b) (Some p) n = Some (Some b', None)"
      using assms(3) le j 1(1) None b1 f(1) by (simp add: Let_def del: buddy_alloc.simps buddy_free.simps)
    then show ?thesis using f(2,3) by auto
  next
    case (Some q)
    then have al: "blk_alloc (max M k) P 0 t = Some (t1, q)" using 1(4) by (auto split: option.splits)
    let ?u = "2 ^ max M k"
    have live: "mset (blk_live P 0 t1) = add_mset (q, ?u) (mset (blk_live P 0 t))" "blk_ok M P t1"
      using blk_alloc_Some [OF al okt] by auto
    then have q_in: "(q, ?u) \<in> set (blk_live P 0 t1)" by (metis set_mset_mset union_single_eq_member)
    have "(2::nat) ^ k \<le> ?u" by (intro power_increasing) auto
    then have un: "n \<le> ?u" using k(2) by linarith
    have qr: "q + ?u \<le> 2 ^ P" using blk_live_range [OF live(2) q_in] by simp
    let ?bytes = "take (min s n) (drop p (b_pool b))"
    let ?pool = "take q (b_pool b) @ ?bytes @ drop (q + min s n) (b_pool b)"
    have pn: "p + min s n \<le> length (b_pool b1)" using range sizes(4) 1(3) by simp
    have blen: "length ?bytes = min s n" using pn 1(3) by simp
    have qn: "q + min s n \<le> length (b_pool b)" using qr un sizes(4) by simp
    have ok2: "buddy_ok P M (b1\<lparr>b_pool := ?pool\<rparr>) t1"
      using 1(2) blen qn sizes(4) by (simp add: buddy_ok_def)
    have p_in: "(p, s) \<in> set (blk_live P 0 t1)" using live(1) assms(2) by (metis insert_iff set_mset_add_mset_insert set_mset_mset)
    obtain b' t' where f: "buddy_free (Some (b1\<lparr>b_pool := ?pool\<rparr>)) (Some p) = Some (Some b')" "buddy_ok P M b' t'"
      "b_pool b' = ?pool" "mset (blk_live P 0 t1) = add_mset (p, s) (mset (blk_live P 0 t'))"
      using buddy_free_ok [OF ok2 p_in] by auto
    have rdn: "rd_n (b_pool b1) p (min s n) = Some ?bytes" using pn 1(3) by (simp add: rd_n_Some)
    have "q + length ?bytes \<le> length (b_pool b1)" using blen qn 1(3) by simp
    from blit_Some [OF this] have bl: "blit (b_pool b1) q ?bytes = Some ?pool" using blen 1(3) by simp
    have "buddy_realloc (Some b) (Some p) n = Some (Some b', Some q)"
      using assms(3) le j 1(1) Some rdn bl f(1)
      by (cases "s < n") (simp_all add: Let_def del: buddy_alloc.simps buddy_free.simps)
    moreover have "take (min s n) (drop q ?pool) = ?bytes"
      using blen qn by simp
    ultimately show ?thesis using f(2,3,4) live(1) un
      by (intro exI [of _ b'] exI [of _ t'] exI [of _ "Some q"]) auto
  qed
qed

lemma buddy_realloc_spec_witness:
  "\<exists>b b1 p b' t' r. buddy_init True True (\<lambda>n. Some (replicate n 0)) 16 4 = Some (Some b) \<and>
    buddy_alloc (Some b) 4 = Some (Some b1, Some p) \<and>
    buddy_realloc (Some b1) (Some p) 16 = Some (Some b', r) \<and> buddy_ok 4 2 b' t'"
proof -
  obtain b where b: "buddy_init True True (\<lambda>n. Some (replicate n 0)) 16 4 = Some (Some b)" "buddy_ok 4 2 b Free"
    using buddy_demo_ok by blast
  have r4: "ROUNDUP_size 4 = Some (2 ^ 2)" using buddy_demo_init(2) by simp
  obtain b1 t1 r where 1: "buddy_alloc (Some b) 4 = Some (Some b1, r)" "buddy_ok 4 2 b1 t1"
    "case blk_alloc (max 2 2) 4 0 Free of None \<Rightarrow> r = None \<and> b1 = b \<and> t1 = Free | Some (u, p) \<Rightarrow> r = Some p \<and> t1 = u"
    using buddy_alloc_ok [OF b(2) _ _ r4] by auto
  have "blk_alloc 2 4 0 Free = Some (Pair (Pair Used Free) Free, 0)"
    by (simp add: blk_alloc.simps(1) [of 2 4] blk_alloc.simps(1) [of 2 3] blk_alloc.simps(1) [of 2 2])
  then have r: "r = Some 0" "t1 = Pair (Pair Used Free) Free" using 1(3) by auto
  have "(0, 4) \<in> set (blk_live 4 0 t1)" by (simp add: r(2))
  from buddy_realloc_spec [OF 1(2) this, of 16] obtain b' t' q where
    "buddy_realloc (Some b1) (Some 0) 16 = Some (Some b', q)" "buddy_ok 4 2 b' t'" by auto
  then show ?thesis using b(1) 1(1) r(1) by blast
qed

end
