(* ===== verification/Mm_Slab.thy ===== *)
theory Mm_Slab
  imports Prelude Base_List
begin

text \<open>
  \<^verbatim>\<open>mm/slab.c\<close>: blocks of up to 1024 bytes cut from pages of 4096.  Each block is preceded by a \<^verbatim>\<open>meta_t\<close> of 8 bytes; the free
  ones of a page are linked by their shifts in the page, in the order of their addresses.  Pages are kept in four
  lists by \<^verbatim>\<open>base/list.h\<close>, whose node is the first field of the page.  A pointer to a \<^verbatim>\<open>meta_t\<close> is its page and its
  shift; reading or writing one that does not lie in the page is undefined.  \<^verbatim>\<open>int16_t\<close> fields hold what the conversion \<open>i16\<close>
  leaves of a value.
\<close>

unbundle bit_operations_syntax

section \<open>State and operations\<close>

definition SLAB_SIZE_MINOR :: int where "SLAB_SIZE_MINOR = 128"
definition SLAB_SIZE_MAX :: int where "SLAB_SIZE_MAX = 1024"
definition SLAB_ALIGN :: "u64 \<Rightarrow> u64" where "SLAB_ALIGN sz = push_bit 3 (drop_bit 3 (sz + 7))"
definition META_COLOR_DEFAULT :: int where "META_COLOR_DEFAULT = 0"
definition META_COLOR_ALLOC :: int where "META_COLOR_ALLOC = 1"
definition META_SIZE :: int where "META_SIZE = uint (SLAB_ALIGN 8)"
definition PAGE_SIZE :: int where "PAGE_SIZE = 4096"
definition PAGE_HEAD_SIZE :: int where "PAGE_HEAD_SIZE = uint (SLAB_ALIGN 24)"

definition g_slab_minor :: ptr where "g_slab_minor = 16"
definition g_slab_common :: ptr where "g_slab_common = 32"
definition g_alloc_slab_minor :: ptr where "g_alloc_slab_minor = 48"
definition g_alloc_slab_common :: ptr where "g_alloc_slab_common = 64"

definition i16 :: "int \<Rightarrow> int" where
  "i16 x = (x + 32768) mod 65536 - 32768"

record meta_t =
  m_size :: int
  m_color :: int
  m_next :: int
  m_prev :: int

record page_t =
  pg_free :: int
  pg_remain :: int
  pg_metas :: "int \<rightharpoonup> meta_t"

record slab =
  sb_links :: links
  sb_pages :: "ptr \<rightharpoonup> page_t"

definition META_SHIFT :: "int \<Rightarrow> int" where "META_SHIFT a = i16 (a mod PAGE_SIZE)"

definition in_page :: "int \<Rightarrow> bool" where "in_page a \<longleftrightarrow> 0 \<le> a \<and> a + META_SIZE \<le> PAGE_SIZE"

definition meta_at :: "page_t \<Rightarrow> int \<Rightarrow> meta_t option" where
  "meta_at p a = (if in_page a then pg_metas p a else None)"

definition put_meta :: "int \<Rightarrow> meta_t \<Rightarrow> page_t \<Rightarrow> page_t option" where
  "put_meta a k p = (if in_page a then Some (p\<lparr>pg_metas := (pg_metas p)(a \<mapsto> k)\<rparr>) else None)"

definition upd_meta :: "int \<Rightarrow> (meta_t \<Rightarrow> meta_t) \<Rightarrow> page_t \<Rightarrow> page_t option" where
  "upd_meta a f p = do { k \<leftarrow> meta_at p a; put_meta a (f k) p }"

definition slab_free_page :: "int \<Rightarrow> ptr" where
  "slab_free_page sz = (if sz \<le> SLAB_SIZE_MINOR then g_slab_minor else if sz \<le> SLAB_SIZE_MAX then g_slab_common else NULL)"

definition slab_free_insert :: "int option \<Rightarrow> int option \<Rightarrow> page_t \<Rightarrow> page_t option" where
  "slab_free_insert meta ins p = (case (meta, ins) of
     (Some a, Some b) \<Rightarrow> do {
       k \<leftarrow> meta_at p a;
       p \<leftarrow> (if m_next k > 0 then do {
             p \<leftarrow> upd_meta b (\<lambda>j. j\<lparr>m_next := META_SHIFT (m_next k)\<rparr>) p;
             upd_meta (m_next k) (\<lambda>j. j\<lparr>m_prev := META_SHIFT b\<rparr>) p }
           else Some p);
       p \<leftarrow> upd_meta b (\<lambda>j. j\<lparr>m_prev := META_SHIFT a\<rparr>) p;
       upd_meta a (\<lambda>j. j\<lparr>m_next := META_SHIFT b\<rparr>) p }
   | _ \<Rightarrow> Some p)"

definition slab_free_erase :: "int option \<Rightarrow> page_t \<Rightarrow> (page_t \<times> int option) option" where
  "slab_free_erase meta p = (case meta of
     None \<Rightarrow> Some (p, None)
   | Some a \<Rightarrow> do {
       k \<leftarrow> meta_at p a;
       let prev = (if m_prev k > 0 then Some (m_prev k) else None);
       let nx = (if m_next k > 0 then Some (m_next k) else None);
       p \<leftarrow> (case nx of Some n \<Rightarrow> upd_meta n (\<lambda>j. j\<lparr>m_prev := (case prev of Some q \<Rightarrow> META_SHIFT q | None \<Rightarrow> -1)\<rparr>) p | None \<Rightarrow> Some p);
       p \<leftarrow> (case prev of Some q \<Rightarrow> upd_meta q (\<lambda>j. j\<lparr>m_next := (case nx of Some n \<Rightarrow> META_SHIFT n | None \<Rightarrow> -1)\<rparr>) p | None \<Rightarrow> Some p);
       p \<leftarrow> upd_meta a (\<lambda>j. j\<lparr>m_prev := -1\<rparr>) p;
       p \<leftarrow> upd_meta a (\<lambda>j. j\<lparr>m_next := -1\<rparr>) p;
       Some (p, nx) })"

definition slab_free_replace :: "int option \<Rightarrow> int option \<Rightarrow> page_t \<Rightarrow> page_t option" where
  "slab_free_replace meta rep p = (case (meta, rep) of
     (Some a, Some b) \<Rightarrow> do {
       k \<leftarrow> meta_at p a;
       p \<leftarrow> (if m_prev k > 0 then do {
             p \<leftarrow> upd_meta (m_prev k) (\<lambda>j. j\<lparr>m_next := META_SHIFT b\<rparr>) p;
             upd_meta b (\<lambda>j. j\<lparr>m_prev := META_SHIFT (m_prev k)\<rparr>) p }
           else upd_meta b (\<lambda>j. j\<lparr>m_prev := -1\<rparr>) p);
       k \<leftarrow> meta_at p a;
       if m_next k > 0 then do {
         p \<leftarrow> upd_meta (m_next k) (\<lambda>j. j\<lparr>m_prev := META_SHIFT b\<rparr>) p;
         upd_meta b (\<lambda>j. j\<lparr>m_next := META_SHIFT (m_next k)\<rparr>) p }
       else upd_meta b (\<lambda>j. j\<lparr>m_next := -1\<rparr>) p }
   | _ \<Rightarrow> Some p)"

definition slab_merge_prev :: "int \<Rightarrow> int \<Rightarrow> page_t \<Rightarrow> page_t option" where
  \<comment> \<open>the free block before the merged one, if it ends there\<close>
  "slab_merge_prev q a p = do {
     j \<leftarrow> meta_at p q;
     if META_SHIFT q + META_SIZE + m_size j = META_SHIFT a then do {
       k \<leftarrow> meta_at p a;
       p \<leftarrow> upd_meta q (\<lambda>j. j\<lparr>m_size := i16 (m_size j + (META_SIZE + m_size k))\<rparr>) p;
       k \<leftarrow> meta_at p a;
       p \<leftarrow> upd_meta q (\<lambda>j. j\<lparr>m_next := m_next k\<rparr>) p;
       k \<leftarrow> meta_at p a;
       if m_next k > 0 then upd_meta (m_next k) (\<lambda>j. j\<lparr>m_prev := META_SHIFT q\<rparr>) p else Some p }
     else Some p }"

definition slab_free_quick_merge :: "int \<Rightarrow> int \<Rightarrow> page_t \<Rightarrow> (page_t \<times> int) option" where
  "slab_free_quick_merge a replace_next p = do {
     k \<leftarrow> meta_at p a;
     let shift = META_SHIFT a + META_SIZE + m_size k;
     if shift < PAGE_SIZE then do {
       n \<leftarrow> meta_at p shift;
       if m_color n AND META_COLOR_ALLOC = 0 then do {
         let prev = (if m_prev n > 0 then Some (m_prev n) else None);
         p \<leftarrow> upd_meta a (\<lambda>j. j\<lparr>m_size := i16 (m_size j + (m_size n + META_SIZE))\<rparr>) p;
         p \<leftarrow> (if replace_next = 0 then do {
               p \<leftarrow> slab_free_replace (Some shift) (Some a) p;
               Some (if META_SHIFT shift = pg_free p then p\<lparr>pg_free := META_SHIFT a\<rparr> else p) }
             else Some p);
         p \<leftarrow> (case prev of None \<Rightarrow> Some p | Some q \<Rightarrow> slab_merge_prev q a p);
         Some (p, 0) }
       else Some (p, -1) }
     else Some (p, -1) }"

definition slab_meta_init :: "int \<Rightarrow> int \<Rightarrow> page_t \<Rightarrow> page_t option" where
  "slab_meta_init a sz = put_meta a \<lparr>m_size = i16 sz, m_color = META_COLOR_DEFAULT, m_next = -1, m_prev = -1\<rparr>"

definition slab_free_split :: "int \<Rightarrow> int \<Rightarrow> page_t \<Rightarrow> (page_t \<times> int) option" where
  "slab_free_split a used p = do {
     k \<leftarrow> meta_at p a;
     c_assert (m_size k > used + META_SIZE);
     let n = a + META_SIZE + used;
     p \<leftarrow> slab_meta_init n (m_size k - used - META_SIZE) p;
     p \<leftarrow> upd_meta a (\<lambda>j. j\<lparr>m_size := used\<rparr>) p;
     Some (p, n) }"

definition upd_links :: "(links \<Rightarrow> links option) \<Rightarrow> slab \<Rightarrow> slab option" where
  "upd_links f s = do { m \<leftarrow> f (sb_links s); Some (s\<lparr>sb_links := m\<rparr>) }"

definition slab_page_erase :: "ptr \<Rightarrow> ptr \<Rightarrow> slab \<Rightarrow> slab option" where
  "slab_page_erase pg head s = do {
     p \<leftarrow> sb_pages s pg;
     if head = g_slab_minor then
       (if pg_remain p < SLAB_SIZE_MINOR then do { s \<leftarrow> upd_links (list_del pg) s; upd_links (list_add pg g_alloc_slab_minor) s } else Some s)
     else if head = g_slab_common then
       (if pg_remain p < SLAB_SIZE_MAX then do { s \<leftarrow> upd_links (list_del pg) s; upd_links (list_add pg g_alloc_slab_common) s } else Some s)
     else Some s }"

definition slab_page_insert :: "ptr \<Rightarrow> int \<Rightarrow> slab \<Rightarrow> slab option" where
  "slab_page_insert pg a s = do {
     p \<leftarrow> sb_pages s pg;
     k \<leftarrow> meta_at p a;
     let head = slab_free_page (m_size k mod 2 ^ 64);
     if head = g_slab_minor then do { s \<leftarrow> upd_links (list_del pg) s; upd_links (list_add pg head) s }
     else if head = g_slab_common then do { s \<leftarrow> upd_links (list_del pg) s; upd_links (list_add pg head) s }
     else Some s }"

partial_function (option) slab_fit_loop :: "int \<Rightarrow> int \<Rightarrow> page_t \<Rightarrow> (page_t \<times> int option) option" where
  "slab_fit_loop sz shift p =
     (if shift > 0 then do {
        k \<leftarrow> meta_at p shift;
        if m_size k < sz then slab_fit_loop sz (m_next k) p
        else if m_size k \<le> sz + META_SIZE then do {
          (p, nx) \<leftarrow> slab_free_erase (Some shift) p;
          Some (if META_SHIFT shift = pg_free p then p\<lparr>pg_free := (case nx of Some n \<Rightarrow> META_SHIFT n | None \<Rightarrow> -1)\<rparr> else p, Some shift) }
        else do {
          (p, split) \<leftarrow> slab_free_split shift sz p;
          p \<leftarrow> slab_free_replace (Some shift) (Some split) p;
          Some (if META_SHIFT shift = pg_free p then p\<lparr>pg_free := META_SHIFT split\<rparr> else p, Some shift) } }
      else Some (p, None))"

definition slab_alloc_page :: "ptr \<Rightarrow> ptr \<Rightarrow> int \<Rightarrow> slab \<Rightarrow> (slab \<times> ptr) option" where
  \<comment> \<open>\<^verbatim>\<open>_slab_alloc\<close>\<close>
  "slab_alloc_page pg head sz s = do {
     p \<leftarrow> sb_pages s pg;
     if pg_free p \<le> 0 \<or> pg_remain p < sz + META_SIZE then Some (s, NULL)
     else do {
       (p, meta) \<leftarrow> slab_fit_loop sz (pg_free p) p;
       case meta of
         None \<Rightarrow> Some (s\<lparr>sb_pages := (sb_pages s)(pg \<mapsto> p)\<rparr>, NULL)
       | Some a \<Rightarrow> do {
           p \<leftarrow> upd_meta a (\<lambda>k. k\<lparr>m_color := m_color k OR META_COLOR_ALLOC\<rparr>) p;
           p \<leftarrow> upd_meta a (\<lambda>k. k\<lparr>m_next := -1, m_prev := -1\<rparr>) p;
           k \<leftarrow> meta_at p a;
           s \<leftarrow> slab_page_erase pg head (s\<lparr>sb_pages := (sb_pages s)(pg \<mapsto> p\<lparr>pg_remain := i16 (pg_remain p - (META_SIZE + m_size k))\<rparr>)\<rparr>);
           Some (s, pg + nat a + nat META_SIZE) } } }"

partial_function (option) slab_pages_loop :: "ptr \<Rightarrow> ptr \<Rightarrow> int \<Rightarrow> slab \<Rightarrow> (slab \<times> ptr) option" where
  "slab_pages_loop pg head sz s =
     (if pg = head then Some (s, NULL)
      else do {
        (s, memory) \<leftarrow> slab_alloc_page pg head sz s;
        if memory \<noteq> NULL then Some (s, memory)
        else do { k \<leftarrow> sb_links s pg; slab_pages_loop (lh_next k) head sz s } })"

definition slab_alloc :: "ptr \<Rightarrow> u64 \<Rightarrow> slab \<Rightarrow> (slab \<times> ptr) option" where
  \<comment> \<open>\<open>page\<close>: the page from \<^verbatim>\<open>posix_memalign\<close>, whose links are not set yet\<close>
  "slab_alloc page sz s =
     (if sz = 0 then Some (s, NULL)
      else do {
        let sz = uint (SLAB_ALIGN sz);
        let head = slab_free_page sz;
        if head = NULL then Some (s, NULL)
        else do {
          k \<leftarrow> sb_links s head;
          (s, memory) \<leftarrow> slab_pages_loop (lh_next k) head sz s;
          if memory \<noteq> NULL then Some (s, memory)
          else if page = NULL then Some (s, NULL)
          else do {
            let p = \<lparr>pg_free = PAGE_HEAD_SIZE, pg_remain = i16 (i16 PAGE_SIZE - PAGE_HEAD_SIZE), pg_metas = Map.empty\<rparr>;
            p \<leftarrow> slab_meta_init PAGE_HEAD_SIZE (PAGE_SIZE - PAGE_HEAD_SIZE - META_SIZE) p;
            s \<leftarrow> upd_links (list_add page head) (s\<lparr>sb_pages := (sb_pages s)(page \<mapsto> p), sb_links := (sb_links s)(page \<mapsto> \<lparr>lh_next = NULL, lh_prev = NULL\<rparr>)\<rparr>);
            slab_alloc_page page head sz s } } })"

partial_function (option) slab_seek_loop :: "int \<Rightarrow> int \<Rightarrow> page_t \<Rightarrow> int option" where
  \<comment> \<open>the last free block before \<open>shift\<close>\<close>
  "slab_seek_loop shift prev p = do {
     k \<leftarrow> meta_at p prev;
     if m_next k < 0 then Some prev
     else if shift < m_next k then Some prev
     else slab_seek_loop shift (m_next k) p }"

definition slab_unlink_free :: "int \<Rightarrow> page_t \<Rightarrow> page_t option" where
  \<comment> \<open>a block that is no longer used enters the free list\<close>
  "slab_unlink_free a p = do {
     (p, r) \<leftarrow> slab_free_quick_merge a 0 p;
     if r = 0 then Some p
     else do {
       let shift = META_SHIFT a;
       if pg_free p < 0 then do {
         p \<leftarrow> upd_meta a (\<lambda>k. k\<lparr>m_prev := -1, m_next := -1\<rparr>) p;
         Some (p\<lparr>pg_free := shift\<rparr>) }
       else do {
         let next_shift = pg_free p;
         if shift < next_shift then do {
           p \<leftarrow> upd_meta a (\<lambda>k. k\<lparr>m_prev := -1, m_next := next_shift\<rparr>) p;
           p \<leftarrow> upd_meta next_shift (\<lambda>k. k\<lparr>m_prev := shift\<rparr>) p;
           Some (p\<lparr>pg_free := shift\<rparr>) }
         else do {
           prev \<leftarrow> slab_seek_loop shift next_shift p;
           (p, r) \<leftarrow> slab_free_quick_merge prev (-1) p;
           if r \<noteq> 0 then slab_free_insert (Some prev) (Some a) p else Some p } } } }"

definition slab_free :: "ptr \<Rightarrow> slab \<Rightarrow> slab option" where
  "slab_free memory s =
     (if memory = NULL then Some s
      else do {
        c_assert (memory \<ge> nat META_SIZE);
        let pg = (memory - nat META_SIZE) div nat PAGE_SIZE * nat PAGE_SIZE;
        let a = int ((memory - nat META_SIZE) mod nat PAGE_SIZE);
        p \<leftarrow> sb_pages s pg;
        k \<leftarrow> meta_at p a;
        c_assert (m_color k AND META_COLOR_ALLOC \<noteq> 0);
        p \<leftarrow> upd_meta a (\<lambda>k. k\<lparr>m_color := m_color k AND NOT META_COLOR_ALLOC\<rparr>) p;
        s \<leftarrow> slab_page_insert pg a (s\<lparr>sb_pages := (sb_pages s)(pg \<mapsto> p)\<rparr>);
        let p = p\<lparr>pg_remain := i16 (pg_remain p + (m_size k + META_SIZE))\<rparr>;
        p \<leftarrow> slab_unlink_free a p;
        let s = s\<lparr>sb_pages := (sb_pages s)(pg \<mapsto> p)\<rparr>;
        if pg_remain p + PAGE_HEAD_SIZE = PAGE_SIZE then do {
          s \<leftarrow> upd_links (list_del pg) s;
          Some (s\<lparr>sb_pages := (sb_pages s)(pg := None), sb_links := (sb_links s)(pg := None)\<rparr>) }
        else Some s })"

definition slab_init :: slab where
  \<comment> \<open>the static lists\<close>
  "slab_init = \<lparr>sb_links = [g_slab_minor \<mapsto> \<lparr>lh_next = g_slab_minor, lh_prev = g_slab_minor\<rparr>,
     g_slab_common \<mapsto> \<lparr>lh_next = g_slab_common, lh_prev = g_slab_common\<rparr>,
     g_alloc_slab_minor \<mapsto> \<lparr>lh_next = g_alloc_slab_minor, lh_prev = g_alloc_slab_minor\<rparr>,
     g_alloc_slab_common \<mapsto> \<lparr>lh_next = g_alloc_slab_common, lh_prev = g_alloc_slab_common\<rparr>], sb_pages = Map.empty\<rparr>"

section \<open>The fields of the blocks of a page\<close>

definition fS :: "page_t \<Rightarrow> int \<Rightarrow> int option" where "fS p a = map_option m_size (meta_at p a)"
definition fC :: "page_t \<Rightarrow> int \<Rightarrow> int option" where "fC p a = map_option m_color (meta_at p a)"
definition fN :: "page_t \<Rightarrow> int \<Rightarrow> int option" where "fN p a = map_option m_next (meta_at p a)"
definition fP :: "page_t \<Rightarrow> int \<Rightarrow> int option" where "fP p a = map_option m_prev (meta_at p a)"

definition same_head :: "page_t \<Rightarrow> page_t \<Rightarrow> bool" where
  "same_head p p' \<longleftrightarrow> pg_free p' = pg_free p \<and> pg_remain p' = pg_remain p"

lemmas meta_fields = fS_def fC_def fN_def fP_def

lemma META_SIZE_eq [simp]: "META_SIZE = 8"
  by (simp add: META_SIZE_def SLAB_ALIGN_def)

lemma PAGE_HEAD_SIZE_eq [simp]: "PAGE_HEAD_SIZE = 24"
  by (simp add: PAGE_HEAD_SIZE_def SLAB_ALIGN_def)

lemma i16_id: "-32768 \<le> x \<Longrightarrow> x < 32768 \<Longrightarrow> i16 x = x"
  by (simp add: i16_def)

lemma META_SHIFT_id: "0 \<le> a \<Longrightarrow> a < 4096 \<Longrightarrow> META_SHIFT a = a"
  by (simp add: META_SHIFT_def PAGE_SIZE_def i16_id)

lemma meta_field_Some:
  "fS p a = Some v \<longleftrightarrow> (\<exists>k. meta_at p a = Some k \<and> m_size k = v)"
  "fC p a = Some v \<longleftrightarrow> (\<exists>k. meta_at p a = Some k \<and> m_color k = v)"
  "fN p a = Some v \<longleftrightarrow> (\<exists>k. meta_at p a = Some k \<and> m_next k = v)"
  "fP p a = Some v \<longleftrightarrow> (\<exists>k. meta_at p a = Some k \<and> m_prev k = v)"
  by (auto simp: meta_fields)

lemma meta_all:
  assumes "meta_at p a = Some k"
  shows "fS p a = Some (m_size k)" "fC p a = Some (m_color k)" "fN p a = Some (m_next k)" "fP p a = Some (m_prev k)"
  using assms by (simp_all add: meta_fields)

lemma upd_meta_eq:
  assumes "meta_at p a = Some k"
  shows "\<exists>p'. upd_meta a f p = Some p' \<and> meta_at p' = (meta_at p)(a := Some (f k)) \<and> same_head p p'"
  using assms by (auto simp: upd_meta_def put_meta_def meta_at_def same_head_def fun_eq_iff split: if_splits)

lemma set_N:
  assumes "fN p a \<noteq> None"
  shows "\<exists>p'. upd_meta a (\<lambda>j. j\<lparr>m_next := v\<rparr>) p = Some p' \<and> fN p' = (fN p)(a := Some v) \<and> fP p' = fP p \<and> fS p' = fS p
    \<and> fC p' = fC p \<and> same_head p p'"
proof -
  obtain k where k: "meta_at p a = Some k" using assms by (auto simp: fN_def)
  from upd_meta_eq [OF this] obtain p' where "upd_meta a (\<lambda>j. j\<lparr>m_next := v\<rparr>) p = Some p'"
    "meta_at p' = (meta_at p)(a := Some (k\<lparr>m_next := v\<rparr>))" "same_head p p'" by blast
  then show ?thesis using k by (intro exI [of _ p']) (auto simp: meta_fields)
qed

lemma set_P:
  assumes "fP p a \<noteq> None"
  shows "\<exists>p'. upd_meta a (\<lambda>j. j\<lparr>m_prev := v\<rparr>) p = Some p' \<and> fN p' = fN p \<and> fP p' = (fP p)(a := Some v) \<and> fS p' = fS p
    \<and> fC p' = fC p \<and> same_head p p'"
proof -
  obtain k where k: "meta_at p a = Some k" using assms by (auto simp: fP_def)
  from upd_meta_eq [OF this] obtain p' where "upd_meta a (\<lambda>j. j\<lparr>m_prev := v\<rparr>) p = Some p'"
    "meta_at p' = (meta_at p)(a := Some (k\<lparr>m_prev := v\<rparr>))" "same_head p p'" by blast
  then show ?thesis using k by (intro exI [of _ p']) (auto simp: meta_fields)
qed

lemma set_S:
  assumes "fS p a = Some z"
  shows "\<exists>p'. upd_meta a (\<lambda>j. j\<lparr>m_size := g (m_size j)\<rparr>) p = Some p' \<and> fN p' = fN p \<and> fP p' = fP p
    \<and> fS p' = (fS p)(a := Some (g z)) \<and> fC p' = fC p \<and> same_head p p'"
proof -
  obtain k where k: "meta_at p a = Some k" "m_size k = z" using assms by (auto simp: fS_def)
  from upd_meta_eq [OF this(1)] obtain p' where "upd_meta a (\<lambda>j. j\<lparr>m_size := g (m_size j)\<rparr>) p = Some p'"
    "meta_at p' = (meta_at p)(a := Some (k\<lparr>m_size := g (m_size k)\<rparr>))" "same_head p p'" by blast
  then show ?thesis using k by (intro exI [of _ p']) (auto simp: meta_fields)
qed

lemma set_C:
  assumes "fC p a = Some z"
  shows "\<exists>p'. upd_meta a (\<lambda>j. j\<lparr>m_color := g (m_color j)\<rparr>) p = Some p' \<and> fN p' = fN p \<and> fP p' = fP p
    \<and> fS p' = fS p \<and> fC p' = (fC p)(a := Some (g z)) \<and> same_head p p'"
proof -
  obtain k where k: "meta_at p a = Some k" "m_color k = z" using assms by (auto simp: fC_def)
  from upd_meta_eq [OF this(1)] obtain p' where "upd_meta a (\<lambda>j. j\<lparr>m_color := g (m_color j)\<rparr>) p = Some p'"
    "meta_at p' = (meta_at p)(a := Some (k\<lparr>m_color := g (m_color k)\<rparr>))" "same_head p p'" by blast
  then show ?thesis using k by (intro exI [of _ p']) (auto simp: meta_fields)
qed

lemma same_head_trans: "same_head p q \<Longrightarrow> same_head q r \<Longrightarrow> same_head p r"
  by (simp add: same_head_def)

lemma same_head_refl [simp]: "same_head p p"
  by (simp add: same_head_def)

lemma meta_dom: "fN p a = None \<longleftrightarrow> fS p a = None" "fP p a = None \<longleftrightarrow> fS p a = None" "fC p a = None \<longleftrightarrow> fS p a = None"
  by (simp_all add: meta_fields)

section \<open>The free list of a page\<close>

fun dl :: "page_t \<Rightarrow> int \<Rightarrow> int list \<Rightarrow> int \<Rightarrow> bool" where
  \<comment> \<open>the blocks at the shifts of the list are linked both ways, between \<open>u\<close> and \<open>v\<close>\<close>
  "dl p u [] v \<longleftrightarrow> True"
| "dl p u (x # xs) v \<longleftrightarrow> fP p x = Some u \<and> fN p x = Some (List.hd (xs @ [v])) \<and> dl p x xs v"

definition shifts :: "int list \<Rightarrow> bool" where
  "shifts xs \<longleftrightarrow> distinct xs \<and> (\<forall>x \<in> set xs. 0 < x \<and> x < 4096)"

lemma dl_append: "dl p u (xs @ ys) v \<longleftrightarrow> dl p u xs (List.hd (ys @ [v])) \<and> dl p (List.last (u # xs)) ys v"
  by (induction xs arbitrary: u) (auto simp: hd_append)

lemma dl_cong:
  assumes "\<And>x. x \<in> set xs \<Longrightarrow> fN p' x = fN p x \<and> fP p' x = fP p x"
  shows "dl p' u xs v = dl p u xs v"
  using assms by (induction xs arbitrary: u) auto

lemma dl_mem: "dl p u xs v \<Longrightarrow> x \<in> set xs \<Longrightarrow> fS p x \<noteq> None"
  by (induction xs arbitrary: u) (auto simp: meta_dom(1) [symmetric])

lemma dl_set_last:
  assumes "dl p u xs v" "distinct xs"
    and "\<And>x. x \<in> set xs \<Longrightarrow> fN p' x = (if x = List.last xs then Some v' else fN p x)" "\<And>x. x \<in> set xs \<Longrightarrow> fP p' x = fP p x"
  shows "dl p' u xs v'"
  using assms by (induction xs arbitrary: u) (auto split: if_splits)

lemma dl_set_first:
  assumes "dl p u xs v" "distinct xs"
    and "\<And>x. x \<in> set xs \<Longrightarrow> fP p' x = (if x = List.hd xs then Some u' else fP p x)" "\<And>x. x \<in> set xs \<Longrightarrow> fN p' x = fN p x"
  shows "dl p' u' xs v"
proof (cases xs)
  case Nil
  then show ?thesis by simp
next
  case (Cons x ys)
  have "dl p' x ys v = dl p x ys v" using assms(2,3,4) Cons by (intro dl_cong) auto
  then show ?thesis using assms Cons by auto
qed

lemma dl_relink:
  assumes "dl p (-1) xs q0" "dl p p0 ys (-1)" "distinct (xs @ ys)"
    and "\<And>x. x \<in> set (xs @ ys) \<Longrightarrow> fN p' x = (if xs \<noteq> [] \<and> x = List.last xs then Some u else fN p x)"
    and "\<And>x. x \<in> set (xs @ ys) \<Longrightarrow> fP p' x = (if ys \<noteq> [] \<and> x = List.hd ys then Some v else fP p x)"
  shows "dl p' (-1) xs u \<and> dl p' v ys (-1)"
proof
  have d: "x \<in> set xs \<Longrightarrow> x \<notin> set ys" for x using assms(3) by auto
  show "dl p' (-1) xs u"
  proof (rule dl_set_last [OF assms(1)])
    fix x
    assume x: "x \<in> set xs"
    then have "ys \<noteq> [] \<Longrightarrow> x \<noteq> List.hd ys" using d [OF x] by (metis hd_in_set)
    then show "fP p' x = fP p x" using assms(5) [of x] x by auto
    show "fN p' x = (if x = List.last xs then Some u else fN p x)" using assms(4) [of x] x by auto
  qed (use assms(3) in simp)
  show "dl p' v ys (-1)"
  proof (rule dl_set_first [OF assms(2)])
    fix x
    assume x: "x \<in> set ys"
    then have "xs \<noteq> [] \<Longrightarrow> x \<noteq> List.last xs" using d by (metis last_in_set)
    then show "fN p' x = fN p x" using assms(4) [of x] x by auto
    show "fP p' x = (if x = List.hd ys then Some v else fP p x)" using assms(5) [of x] x by auto
  qed (use assms(3) in simp)
qed

definition free_list :: "page_t \<Rightarrow> int list \<Rightarrow> bool" where
  "free_list p xs \<longleftrightarrow> shifts xs \<and> dl p (-1) xs (-1)"

lemma shifts_META: "shifts xs \<Longrightarrow> x \<in> set xs \<Longrightarrow> META_SHIFT x = x"
  by (rule META_SHIFT_id) (auto simp: shifts_def less_imp_le)

lemma free_list_node:
  assumes "free_list p (xs @ a # ys)"
  shows "\<exists>k. meta_at p a = Some k \<and> m_prev k = List.last (-1 # xs) \<and> m_next k = List.hd (ys @ [-1])"
  using assms by (auto simp: free_list_def dl_append meta_field_Some)

lemma last_sign: "shifts xs \<Longrightarrow> 0 < List.last (-1 # xs) \<longleftrightarrow> xs \<noteq> []"
  by (cases xs rule: rev_cases) (auto simp: shifts_def)

lemma hd_sign: "shifts ys \<Longrightarrow> 0 < List.hd (ys @ [-1]) \<longleftrightarrow> ys \<noteq> []"
  by (cases ys) (auto simp: shifts_def)

lemma shifts_append: "shifts (xs @ ys) \<longleftrightarrow> shifts xs \<and> shifts ys \<and> set xs \<inter> set ys = {}"
  by (auto simp: shifts_def)

lemma shifts_Cons: "shifts (x # ys) \<longleftrightarrow> 0 < x \<and> x < 4096 \<and> x \<notin> set ys \<and> shifts ys"
  by (auto simp: shifts_def)

lemma set_N_last:
  \<comment> \<open>the link of the predecessor, where there is one\<close>
  assumes "\<And>x. x \<in> set xs \<Longrightarrow> fN p x \<noteq> None"
  shows "\<exists>p'. (if xs \<noteq> [] then upd_meta (List.last xs) (\<lambda>j. j\<lparr>m_next := v\<rparr>) p else Some p) = Some p'
    \<and> (\<forall>x. fN p' x = (if xs \<noteq> [] \<and> x = List.last xs then Some v else fN p x)) \<and> fP p' = fP p \<and> fS p' = fS p \<and> fC p' = fC p \<and> same_head p p'"
proof (cases "xs = []")
  case False
  then have "fN p (List.last xs) \<noteq> None" using assms by simp
  from set_N [OF this, of v] False show ?thesis by auto
qed simp

lemma set_P_first:
  assumes "\<And>x. x \<in> set ys \<Longrightarrow> fP p x \<noteq> None"
  shows "\<exists>p'. (if ys \<noteq> [] then upd_meta (List.hd ys) (\<lambda>j. j\<lparr>m_prev := v\<rparr>) p else Some p) = Some p'
    \<and> (\<forall>x. fP p' x = (if ys \<noteq> [] \<and> x = List.hd ys then Some v else fP p x)) \<and> fN p' = fN p \<and> fS p' = fS p \<and> fC p' = fC p \<and> same_head p p'"
proof (cases "ys = []")
  case False
  then have "fP p (List.hd ys) \<noteq> None" using assms by simp
  from set_P [OF this, of v] False show ?thesis by auto
qed simp

lemma free_erase_spec:
  assumes fl: "free_list p (xs @ a # ys)"
  shows "\<exists>p'. slab_free_erase (Some a) p = Some (p', if ys = [] then None else Some (List.hd ys)) \<and> free_list p' (xs @ ys)
    \<and> fN p' a = Some (-1) \<and> fP p' a = Some (-1) \<and> fS p' = fS p \<and> fC p' = fC p \<and> same_head p p'
    \<and> (\<forall>b. b \<in> set (xs @ a # ys) \<or> fN p' b = fN p b \<and> fP p' b = fP p b)"
proof -
  let ?u = "List.last (-1 # xs)" and ?v = "List.hd (ys @ [-1])"
  have sh: "shifts xs" "shifts ys" "a \<notin> set xs" "a \<notin> set ys" "shifts (xs @ ys)" "distinct (xs @ ys)"
    using fl by (auto simp: free_list_def shifts_append shifts_Cons shifts_def)
  have dl: "dl p (-1) xs a" "dl p a ys (-1)" using fl by (auto simp: free_list_def dl_append)
  have ex: "x \<in> set (xs @ ys) \<Longrightarrow> fS p x \<noteq> None" for x using dl_mem [OF dl(1)] dl_mem [OF dl(2)] by auto
  obtain k where k: "meta_at p a = Some k" "m_prev k = ?u" "m_next k = ?v" using free_list_node [OF fl] by blast
  have nx: "(if m_next k > 0 then Some (m_next k) else None) = (if ys = [] then None else Some (List.hd ys))"
    using hd_sign [OF sh(2)] k(3) by (cases ys) auto
  have pv: "(if m_prev k > 0 then Some (m_prev k) else None) = (if xs = [] then None else Some (List.last xs))"
    using last_sign [OF sh(1)] k(2) by (cases xs) auto
  have M: "xs \<noteq> [] \<Longrightarrow> META_SHIFT (List.last xs) = List.last xs" "ys \<noteq> [] \<Longrightarrow> META_SHIFT (List.hd ys) = List.hd ys"
    using shifts_META [OF sh(1)] shifts_META [OF sh(2)] by simp_all
  have e: "\<And>x. x \<in> set ys \<Longrightarrow> fP p x \<noteq> None" using ex by (simp add: meta_dom)
  from set_P_first [OF e, of ys ?u] obtain p1 where 1: "(if ys \<noteq> [] then upd_meta (List.hd ys) (\<lambda>j. j\<lparr>m_prev := ?u\<rparr>) p else Some p) = Some p1"
    "\<forall>x. fP p1 x = (if ys \<noteq> [] \<and> x = List.hd ys then Some ?u else fP p x)" "fN p1 = fN p" "fS p1 = fS p" "fC p1 = fC p" "same_head p p1" by blast
  have e: "\<And>x. x \<in> set xs \<Longrightarrow> fN p1 x \<noteq> None" using ex 1(3) by (simp add: meta_dom)
  from set_N_last [OF e, of xs ?v] obtain p2 where 2: "(if xs \<noteq> [] then upd_meta (List.last xs) (\<lambda>j. j\<lparr>m_next := ?v\<rparr>) p1 else Some p1) = Some p2"
    "\<forall>x. fN p2 x = (if xs \<noteq> [] \<and> x = List.last xs then Some ?v else fN p1 x)" "fP p2 = fP p1" "fS p2 = fS p1" "fC p2 = fC p1" "same_head p1 p2" by blast
  have "fP p2 a \<noteq> None" using meta_all(1) [OF k(1)] 1(4) 2(4) by (simp add: meta_dom)
  from set_P [OF this, of "-1"] obtain p3 where 3: "upd_meta a (\<lambda>j. j\<lparr>m_prev := -1\<rparr>) p2 = Some p3" "fN p3 = fN p2" "fP p3 = (fP p2)(a := Some (-1))"
    "fS p3 = fS p2" "fC p3 = fC p2" "same_head p2 p3" by blast
  have "fN p3 a \<noteq> None" using meta_all(1) [OF k(1)] 1(4) 2(4) 3(4) by (simp add: meta_dom)
  from set_N [OF this, of "-1"] obtain p4 where 4: "upd_meta a (\<lambda>j. j\<lparr>m_next := -1\<rparr>) p3 = Some p4" "fN p4 = (fN p3)(a := Some (-1))" "fP p4 = fP p3"
    "fS p4 = fS p3" "fC p4 = fC p3" "same_head p3 p4" by blast
  have run: "slab_free_erase (Some a) p = Some (p4, if ys = [] then None else Some (List.hd ys))"
    unfolding slab_free_erase_def Let_def using k(1) 1(1) 2(1) 3(1) 4(1)
    by (simp add: nx pv) (cases "ys = []"; cases "xs = []"; simp add: M)
  have "dl p4 (-1) xs ?v \<and> dl p4 ?u ys (-1)"
    by (rule dl_relink [OF dl sh(6)]) (use 1 2 3 4 sh(3,4) in auto)
  then have "free_list p4 (xs @ ys)" using sh(5) by (simp add: free_list_def dl_append)
  moreover have "same_head p p4" using 1(6) 2(6) 3(6) 4(6) by (simp add: same_head_def)
  moreover have "b \<in> set (xs @ a # ys) \<or> fN p4 b = fN p b \<and> fP p4 b = fP p b" for b
    using 1(2,3) 2(2,3) 3(2,3) 4(2,3) hd_in_set [of ys] last_in_set [of xs] by auto
  ultimately show ?thesis using run 1(4,5) 2(4,5) 3 4 by auto
qed

lemma free_replace_spec:
  assumes fl: "free_list p (xs @ a # ys)" and b: "b \<notin> set (xs @ a # ys)" "0 < b" "b < 4096" "fS p b \<noteq> None"
  shows "\<exists>p'. slab_free_replace (Some a) (Some b) p = Some p' \<and> free_list p' (xs @ b # ys) \<and> fS p' = fS p \<and> fC p' = fC p \<and> same_head p p'
    \<and> (\<forall>c. c \<in> set (xs @ b # ys) \<or> fN p' c = fN p c \<and> fP p' c = fP p c)"
proof -
  let ?u = "List.last (-1 # xs)" and ?v = "List.hd (ys @ [-1])"
  have sh: "shifts xs" "shifts ys" "a \<notin> set xs" "a \<notin> set ys" "shifts (xs @ b # ys)" "distinct (xs @ ys)"
    using fl b by (auto simp: free_list_def shifts_append shifts_Cons shifts_def)
  have dl: "dl p (-1) xs a" "dl p a ys (-1)" using fl by (auto simp: free_list_def dl_append)
  have ex: "x \<in> set (xs @ ys) \<Longrightarrow> fS p x \<noteq> None" for x using dl_mem [OF dl(1)] dl_mem [OF dl(2)] by auto
  obtain k where k: "meta_at p a = Some k" "m_prev k = ?u" "m_next k = ?v" using free_list_node [OF fl] by blast
  have M: "xs \<noteq> [] \<Longrightarrow> META_SHIFT (List.last xs) = List.last xs" "ys \<noteq> [] \<Longrightarrow> META_SHIFT (List.hd ys) = List.hd ys" "META_SHIFT b = b"
    using shifts_META [OF sh(1)] shifts_META [OF sh(2)] b by (simp_all add: META_SHIFT_id)
  have e: "\<And>x. x \<in> set xs \<Longrightarrow> fN p x \<noteq> None" using ex by (simp add: meta_dom)
  from set_N_last [OF e, of xs b] obtain p1 where 1: "(if xs \<noteq> [] then upd_meta (List.last xs) (\<lambda>j. j\<lparr>m_next := b\<rparr>) p else Some p) = Some p1"
    "\<forall>x. fN p1 x = (if xs \<noteq> [] \<and> x = List.last xs then Some b else fN p x)" "fP p1 = fP p" "fS p1 = fS p" "fC p1 = fC p" "same_head p p1" by blast
  have "fP p1 b \<noteq> None" using b(4) 1(4) by (simp add: meta_dom)
  from set_P [OF this, of ?u] obtain p2 where 2: "upd_meta b (\<lambda>j. j\<lparr>m_prev := ?u\<rparr>) p1 = Some p2" "fN p2 = fN p1" "fP p2 = (fP p1)(b := Some ?u)"
    "fS p2 = fS p1" "fC p2 = fC p1" "same_head p1 p2" by blast
  have "fN p2 a = Some ?v" using meta_all(3) [OF k(1)] k(3) 1(2) 2(2) sh(3) by auto
  then obtain k2 where k2: "meta_at p2 a = Some k2" "m_next k2 = ?v" by (auto simp: meta_field_Some)
  have e: "\<And>x. x \<in> set ys \<Longrightarrow> fP p2 x \<noteq> None" using ex 1(4) 2(4) by (simp add: meta_dom)
  from set_P_first [OF e, of ys b] obtain p3 where 3: "(if ys \<noteq> [] then upd_meta (List.hd ys) (\<lambda>j. j\<lparr>m_prev := b\<rparr>) p2 else Some p2) = Some p3"
    "\<forall>x. fP p3 x = (if ys \<noteq> [] \<and> x = List.hd ys then Some b else fP p2 x)" "fN p3 = fN p2" "fS p3 = fS p2" "fC p3 = fC p2" "same_head p2 p3" by blast
  have "fN p3 b \<noteq> None" using b(4) 1(4) 2(4) 3(4) by (simp add: meta_dom)
  from set_N [OF this, of ?v] obtain p4 where 4: "upd_meta b (\<lambda>j. j\<lparr>m_next := ?v\<rparr>) p3 = Some p4" "fN p4 = (fN p3)(b := Some ?v)" "fP p4 = fP p3"
    "fS p4 = fS p3" "fC p4 = fC p3" "same_head p3 p4" by blast
  have run1: "(if m_prev k > 0 then do {
             p \<leftarrow> upd_meta (m_prev k) (\<lambda>j. j\<lparr>m_next := META_SHIFT b\<rparr>) p;
             upd_meta b (\<lambda>j. j\<lparr>m_prev := META_SHIFT (m_prev k)\<rparr>) p }
           else upd_meta b (\<lambda>j. j\<lparr>m_prev := -1\<rparr>) p) = Some p2"
    using 1(1) 2(1) k(2) last_sign [OF sh(1)] M by (cases "xs = []") simp_all
  have run2: "(if m_next k2 > 0 then do {
         p \<leftarrow> upd_meta (m_next k2) (\<lambda>j. j\<lparr>m_prev := META_SHIFT b\<rparr>) p2;
         upd_meta b (\<lambda>j. j\<lparr>m_next := META_SHIFT (m_next k2)\<rparr>) p }
       else upd_meta b (\<lambda>j. j\<lparr>m_next := -1\<rparr>) p2) = Some p4"
    using 3(1) 4(1) k2(2) hd_sign [OF sh(2)] M by (cases "ys = []") simp_all
  have run: "slab_free_replace (Some a) (Some b) p = Some p4"
    using k(1) k2(1) run1 run2 by (simp add: slab_free_replace_def)
  have "dl p4 (-1) xs b \<and> dl p4 b ys (-1)"
    by (rule dl_relink [OF dl sh(6)]) (use 1 2 3 4 b in auto)
  moreover have "fN p4 b = Some ?v" "fP p4 b = Some ?u" using 2(3) 3(2) 4(2,3) b(1) by auto
  ultimately have "free_list p4 (xs @ b # ys)" using sh(5) by (simp add: free_list_def dl_append)
  moreover have "same_head p p4" using 1(6) 2(6) 3(6) 4(6) by (simp add: same_head_def)
  moreover have "c \<in> set (xs @ b # ys) \<or> fN p4 c = fN p c \<and> fP p4 c = fP p c" for c
    using 1(2,3) 2(2,3) 3(2,3) 4(2,3) hd_in_set [of ys] last_in_set [of xs] by auto
  ultimately show ?thesis using run 1(4,5) 2(4,5) 3(4,5) 4(4,5) by auto
qed

lemma free_insert_spec:
  assumes fl: "free_list p (xs @ a # ys)" and b: "b \<notin> set (xs @ a # ys)" "0 < b" "b < 4096" "fN p b = Some (-1)"
  shows "\<exists>p'. slab_free_insert (Some a) (Some b) p = Some p' \<and> free_list p' (xs @ a # b # ys) \<and> fS p' = fS p \<and> fC p' = fC p \<and> same_head p p'
    \<and> (\<forall>c. c \<in> set (xs @ a # b # ys) \<or> fN p' c = fN p c \<and> fP p' c = fP p c)"
proof -
  let ?v = "List.hd (ys @ [-1])" and ?xs = "xs @ [a]"
  have sh: "shifts ?xs" "shifts ys" "shifts (?xs @ b # ys)" "distinct (?xs @ ys)"
    using fl b by (auto simp: free_list_def shifts_append shifts_Cons shifts_def)
  have dl: "dl p (-1) ?xs ?v" "dl p a ys (-1)" using fl by (auto simp: free_list_def dl_append)
  have ex: "x \<in> set (?xs @ ys) \<Longrightarrow> fS p x \<noteq> None" for x using dl_mem [OF dl(1)] dl_mem [OF dl(2)] by auto
  obtain k where k: "meta_at p a = Some k" "m_next k = ?v" using free_list_node [OF fl] by blast
  have M: "META_SHIFT a = a" "ys \<noteq> [] \<Longrightarrow> META_SHIFT (List.hd ys) = List.hd ys" "META_SHIFT b = b"
    using shifts_META [OF sh(1)] shifts_META [OF sh(2)] b by (simp_all add: META_SHIFT_id)
  have sb: "fS p b \<noteq> None" using b(4) by (auto simp: meta_dom(1) [symmetric])
  have "fN p b \<noteq> None" using b(4) by simp
  from set_N [OF this, of ?v] obtain p1 where 1: "upd_meta b (\<lambda>j. j\<lparr>m_next := ?v\<rparr>) p = Some p1" "fN p1 = (fN p)(b := Some ?v)" "fP p1 = fP p"
    "fS p1 = fS p" "fC p1 = fC p" "same_head p p1" by blast
  have e: "\<And>x. x \<in> set ys \<Longrightarrow> fP p1 x \<noteq> None" using ex 1(4) by (simp add: meta_dom)
  from set_P_first [OF e, of ys b] obtain p2 where 2: "(if ys \<noteq> [] then upd_meta (List.hd ys) (\<lambda>j. j\<lparr>m_prev := b\<rparr>) p1 else Some p1) = Some p2"
    "\<forall>x. fP p2 x = (if ys \<noteq> [] \<and> x = List.hd ys then Some b else fP p1 x)" "fN p2 = fN p1" "fS p2 = fS p1" "fC p2 = fC p1" "same_head p1 p2" by blast
  have start: "\<exists>p2'. (if m_next k > 0 then do {
             p \<leftarrow> upd_meta b (\<lambda>j. j\<lparr>m_next := META_SHIFT (m_next k)\<rparr>) p;
             upd_meta (m_next k) (\<lambda>j. j\<lparr>m_prev := META_SHIFT b\<rparr>) p }
           else Some p) = Some p2' \<and> fN p2' = fN p2 \<and> fP p2' = fP p2 \<and> fS p2' = fS p \<and> fC p2' = fC p \<and> same_head p p2'"
  proof (cases "ys = []")
    case True
    then have "fN p2 = fN p" "fP p2 = fP p" using 1(2,3) 2(1) b(4) by (auto simp: fun_eq_iff)
    then show ?thesis using True k(2) by simp
  next
    case False
    then show ?thesis using 1 2 k(2) hd_sign [OF sh(2)] M by (auto simp: same_head_def)
  qed
  then obtain p2' where B: "(if m_next k > 0 then do {
             p \<leftarrow> upd_meta b (\<lambda>j. j\<lparr>m_next := META_SHIFT (m_next k)\<rparr>) p;
             upd_meta (m_next k) (\<lambda>j. j\<lparr>m_prev := META_SHIFT b\<rparr>) p }
           else Some p) = Some p2'" "fN p2' = fN p2" "fP p2' = fP p2" "fS p2' = fS p" "fC p2' = fC p" "same_head p p2'" by blast
  have "fP p2' b \<noteq> None" using sb B(4) by (simp add: meta_dom)
  from set_P [OF this, of a] obtain p3 where 3: "upd_meta b (\<lambda>j. j\<lparr>m_prev := a\<rparr>) p2' = Some p3" "fN p3 = fN p2'" "fP p3 = (fP p2')(b := Some a)"
    "fS p3 = fS p2'" "fC p3 = fC p2'" "same_head p2' p3" by blast
  have "fN p3 a \<noteq> None" using ex [of a] B(4) 3(4) by (simp add: meta_dom)
  from set_N [OF this, of b] obtain p4 where 4: "upd_meta a (\<lambda>j. j\<lparr>m_next := b\<rparr>) p3 = Some p4" "fN p4 = (fN p3)(a := Some b)" "fP p4 = fP p3"
    "fS p4 = fS p3" "fC p4 = fC p3" "same_head p3 p4" by blast
  have run: "slab_free_insert (Some a) (Some b) p = Some p4"
    unfolding slab_free_insert_def using k(1) B(1) 3(1) 4(1) M by simp
  have "dl p4 (-1) ?xs b \<and> dl p4 b ys (-1)"
    by (rule dl_relink [OF dl sh(4)]) (use 1 2 B 3 4 b in auto)
  moreover have "fN p4 b = Some ?v" "fP p4 b = Some a" using 1(2) 2(3) B(2) 3(2,3) 4(2,3) b(1) by auto
  ultimately have "free_list p4 (?xs @ b # ys)" using sh(3) by (simp add: free_list_def dl_append)
  moreover have "same_head p p4" using B(6) 3(6) 4(6) by (simp add: same_head_def)
  moreover have "c \<in> set (xs @ a # b # ys) \<or> fN p4 c = fN p c \<and> fP p4 c = fP p c" for c
    using 1(2,3) 2(2,3) B(2,3) 3(2,3) 4(2,3) hd_in_set [of ys] by auto
  ultimately show ?thesis using run B(4,5) 3(4,5) 4(4,5) by auto
qed

section \<open>The blocks of a page\<close>

type_synonym chunk = "int \<times> bool"

fun clen :: "chunk list \<Rightarrow> int" where
  "clen [] = 0"
| "clen ((z, u) # cs) = 8 + z + clen cs"

fun fsum :: "chunk list \<Rightarrow> int" where
  "fsum [] = 0"
| "fsum ((z, u) # cs) = (if u then 0 else 8 + z) + fsum cs"

fun frees :: "int \<Rightarrow> chunk list \<Rightarrow> int list" where
  \<comment> \<open>the shifts of the free blocks, from shift \<open>i\<close> on\<close>
  "frees i [] = []"
| "frees i ((z, u) # cs) = (if u then [] else [i]) @ frees (i + 8 + z) cs"

fun used :: "int \<Rightarrow> chunk list \<Rightarrow> (int \<times> int) list" where
  "used i [] = []"
| "used i ((z, u) # cs) = (if u then [(i, z)] else []) @ used (i + 8 + z) cs"

fun chunks :: "page_t \<Rightarrow> int \<Rightarrow> chunk list \<Rightarrow> bool" where
  \<comment> \<open>the blocks lie one after the other from \<open>i\<close> on, and those in use are not linked\<close>
  "chunks p i [] \<longleftrightarrow> True"
| "chunks p i ((z, u) # cs) \<longleftrightarrow> fS p i = Some z \<and> fC p i = Some (if u then 1 else 0)
     \<and> (u \<longrightarrow> fN p i = Some (-1) \<and> fP p i = Some (-1)) \<and> chunks p (i + 8 + z) cs"

definition sizes :: "chunk list \<Rightarrow> bool" where "sizes cs \<longleftrightarrow> (\<forall>(z, u) \<in> set cs. 0 \<le> z \<and> 8 dvd z)"

definition tidy :: "chunk list \<Rightarrow> bool" where
  \<comment> \<open>no two free blocks next to each other\<close>
  "tidy cs \<longleftrightarrow> successively (\<lambda>c d. snd c \<or> snd d) cs"

definition laid :: "page_t \<Rightarrow> chunk list \<Rightarrow> bool" where
  "laid p cs \<longleftrightarrow> sizes cs \<and> 24 + clen cs = 4096 \<and> chunks p 24 cs \<and> tidy cs \<and> free_list p (frees 24 cs)
     \<and> pg_free p = List.hd (frees 24 cs @ [-1])"

definition page_ok :: "page_t \<Rightarrow> chunk list \<Rightarrow> bool" where
  "page_ok p cs \<longleftrightarrow> laid p cs \<and> pg_remain p = fsum cs"

definition hole :: "page_t \<Rightarrow> chunk list \<Rightarrow> int \<Rightarrow> chunk list \<Rightarrow> bool" where
  \<comment> \<open>a block between those of \<open>l\<close> and \<open>r\<close> that is not in the free list\<close>
  "hole p l z r \<longleftrightarrow> sizes (l @ (z, True) # r) \<and> 24 + clen (l @ (z, True) # r) = 4096 \<and> fS p (24 + clen l) = Some z
     \<and> chunks p 24 l \<and> chunks p (32 + clen l + z) r \<and> free_list p (frees 24 l @ frees (32 + clen l + z) r)
     \<and> pg_free p = List.hd (frees 24 l @ frees (32 + clen l + z) r @ [-1])"

lemma clen_append [simp]: "clen (l @ r) = clen l + clen r"
  by (induction l rule: clen.induct) auto

lemma fsum_append [simp]: "fsum (l @ r) = fsum l + fsum r"
  by (induction l rule: fsum.induct) auto

lemma frees_append: "frees i (l @ r) = frees i l @ frees (i + clen l) r"
  by (induction i l rule: frees.induct) (auto simp: add.assoc)

lemma used_append: "used i (l @ r) = used i l @ used (i + clen l) r"
  by (induction i l rule: used.induct) (auto simp: add.assoc)

lemma chunks_append: "chunks p i (l @ r) \<longleftrightarrow> chunks p i l \<and> chunks p (i + clen l) r"
  by (induction p i l rule: chunks.induct) (auto simp: add.assoc)

lemma sizes_append [simp]: "sizes (l @ r) \<longleftrightarrow> sizes l \<and> sizes r"
  by (auto simp: sizes_def)

lemma sizes_Cons [simp]: "sizes ((z, u) # r) \<longleftrightarrow> 0 \<le> z \<and> 8 dvd z \<and> sizes r"
  by (auto simp: sizes_def)

lemma sizes_Nil [simp]: "sizes []"
  by (simp add: sizes_def)

lemma clen_nonneg: "sizes cs \<Longrightarrow> 0 \<le> clen cs"
  by (induction cs rule: clen.induct) auto

lemma frees_range: "sizes cs \<Longrightarrow> x \<in> set (frees i cs) \<Longrightarrow> i \<le> x \<and> x + 8 \<le> i + clen cs"
proof (induction i cs rule: frees.induct)
  case (2 i z u cs)
  then have "0 \<le> z" "0 \<le> clen cs" by (simp_all add: clen_nonneg)
  then show ?case using 2 by (cases "x = i") (auto split: if_splits)
qed simp

lemma used_range: "sizes cs \<Longrightarrow> (x, z) \<in> set (used i cs) \<Longrightarrow> i \<le> x \<and> x + 8 + z \<le> i + clen cs \<and> 0 \<le> z \<and> 8 dvd z \<and> (8 dvd i \<longrightarrow> 8 dvd x)"
proof (induction i cs rule: used.induct)
  case (2 i w u cs)
  then have nn: "0 \<le> w" "8 dvd w" "0 \<le> clen cs" by (simp_all add: clen_nonneg)
  show ?case
  proof (cases "(x, z) = (i, w) \<and> u")
    case True
    then show ?thesis using nn by simp
  next
    case False
    then have "(x, z) \<in> set (used (i + 8 + w) cs)" using 2(3) by (auto split: if_splits)
    then have "i + 8 + w \<le> x \<and> x + 8 + z \<le> i + 8 + w + clen cs \<and> 0 \<le> z \<and> 8 dvd z \<and> (8 dvd i + 8 + w \<longrightarrow> 8 dvd x)"
      using 2(1,2) by simp
    moreover have "8 dvd i \<Longrightarrow> 8 dvd i + 8 + w" using nn by simp
    ultimately show ?thesis using nn by auto
  qed
qed simp

lemma chunks_cong:
  assumes "\<And>x. i \<le> x \<Longrightarrow> x + 8 \<le> i + clen cs \<Longrightarrow> fS p' x = fS p x \<and> fC p' x = fC p x"
    and "\<And>x. i \<le> x \<Longrightarrow> x + 8 \<le> i + clen cs \<Longrightarrow> x \<notin> set (frees i cs) \<Longrightarrow> fN p' x = fN p x \<and> fP p' x = fP p x"
    and "sizes cs"
  shows "chunks p' i cs = chunks p i cs"
  using assms
proof (induction p i cs rule: chunks.induct)
  case (2 p i z u cs)
  have nn: "0 \<le> z" "0 \<le> clen cs" "sizes cs" using 2(4) by (simp_all add: clen_nonneg)
  have fr: "x \<in> set (frees (i + 8 + z) cs) \<Longrightarrow> i + 8 + z \<le> x" for x using frees_range [OF nn(3)] by blast
  have "i \<notin> set (frees (i + 8 + z) cs)" using fr [of i] nn by auto
  then have "u \<Longrightarrow> i \<notin> set (frees i ((z, u) # cs))" by simp
  then have "fS p' i = fS p i" "fC p' i = fC p i" "u \<Longrightarrow> fN p' i = fN p i \<and> fP p' i = fP p i" using 2(2,3) [of i] nn by auto
  moreover have "chunks p' (i + 8 + z) cs = chunks p (i + 8 + z) cs"
  proof (rule 2(1))
    fix x
    assume x: "i + 8 + z \<le> x" "x + 8 \<le> i + 8 + z + clen cs"
    then show "fS p' x = fS p x \<and> fC p' x = fC p x" using 2(2) [of x] nn by simp
    assume "x \<notin> set (frees (i + 8 + z) cs)"
    then show "fN p' x = fN p x \<and> fP p' x = fP p x" using 2(3) [of x] x nn by auto
  qed (use nn in simp)
  ultimately show ?case by simp
qed simp

lemma chunks_free_color: "chunks p i cs \<Longrightarrow> x \<in> set (frees i cs) \<Longrightarrow> fC p x = Some 0"
  by (induction p i cs rule: chunks.induct) (auto split: if_splits)

section \<open>Taking a block\<close>

lemma fit_skip:
  assumes "free_list p (xs @ us @ vs)" "\<forall>x \<in> set us. \<exists>z. fS p x = Some z \<and> z < sz"
  shows "slab_fit_loop sz (List.hd (us @ vs @ [-1])) p = slab_fit_loop sz (List.hd (vs @ [-1])) p"
  using assms
proof (induction us arbitrary: xs)
  case (Cons a us)
  have fl: "free_list p (xs @ a # us @ vs)" using Cons.prems(1) by simp
  obtain k where k: "meta_at p a = Some k" "m_next k = List.hd (us @ vs @ [-1])" using free_list_node [OF fl] by auto
  have "m_size k < sz" using Cons.prems(2) k(1) by (auto simp: meta_field_Some)
  moreover have "0 < a" using fl by (auto simp: free_list_def shifts_def)
  ultimately have "slab_fit_loop sz a p = slab_fit_loop sz (List.hd (us @ vs @ [-1])) p"
    using k by (subst slab_fit_loop.simps) simp
  moreover have "slab_fit_loop sz (List.hd (us @ vs @ [-1])) p = slab_fit_loop sz (List.hd (vs @ [-1])) p"
    by (rule Cons.IH [of "xs @ [a]"]) (use Cons.prems in auto)
  ultimately show ?case by simp
qed simp

lemma laid_at:
  assumes "laid p (l @ (z, u) # r)"
  shows "fS p (24 + clen l) = Some z" "fC p (24 + clen l) = Some (if u then 1 else 0)" "chunks p 24 l" "chunks p (32 + clen l + z) r"
    "free_list p (frees 24 l @ (if u then [] else [24 + clen l]) @ frees (32 + clen l + z) r)"
    "pg_free p = List.hd (frees 24 l @ (if u then [] else [24 + clen l]) @ frees (32 + clen l + z) r @ [-1])"
    "sizes l" "sizes r" "0 \<le> z" "8 dvd z" "32 + clen l + z + clen r = 4096" "tidy (l @ (z, u) # r)" "0 \<le> clen l" "0 \<le> clen r"
    "u \<Longrightarrow> fN p (24 + clen l) = Some (-1) \<and> fP p (24 + clen l) = Some (-1)"
  using assms clen_nonneg [of l] clen_nonneg [of r] by (auto simp: laid_def chunks_append frees_append add.commute add.left_commute)

lemma between:
  assumes "sizes l" "x \<in> set (frees 24 l)"
  shows "x + 8 \<le> 24 + clen l"
  using frees_range [OF assms] by simp

lemma after:
  assumes "sizes r" "x \<in> set (frees i r)"
  shows "i \<le> x"
  using frees_range [OF assms] by simp

lemma chunks_keep:
  \<comment> \<open>blocks on both sides of those that change\<close>
  assumes "sizes l" "sizes r" "24 + clen l \<le> i" "chunks p 24 l" "chunks p i r"
    and S: "\<And>x. x + 8 \<le> 24 + clen l \<or> i \<le> x \<Longrightarrow> fS p' x = fS p x \<and> fC p' x = fC p x"
    and N: "\<And>x. x + 8 \<le> 24 + clen l \<or> i \<le> x \<Longrightarrow> x \<notin> set (frees 24 l @ frees i r) \<Longrightarrow> fN p' x = fN p x \<and> fP p' x = fP p x"
  shows "chunks p' 24 l \<and> chunks p' i r"
proof
  have cross: "x \<in> set (frees i r) \<Longrightarrow> i \<le> x" "x \<in> set (frees 24 l) \<Longrightarrow> x + 8 \<le> 24 + clen l" for x
    using after [OF assms(2)] between [OF assms(1)] by auto
  have "chunks p' 24 l = chunks p 24 l"
  proof (rule chunks_cong [OF _ _ assms(1)])
    fix x
    assume x: "24 \<le> x" "x + 8 \<le> 24 + clen l"
    then show "fS p' x = fS p x \<and> fC p' x = fC p x" using S by simp
    assume "x \<notin> set (frees 24 l)"
    then show "fN p' x = fN p x \<and> fP p' x = fP p x" using N [of x] x cross(1) [of x] assms(3) by auto
  qed
  then show "chunks p' 24 l" using assms(4) by simp
  have "chunks p' i r = chunks p i r"
  proof (rule chunks_cong [OF _ _ assms(2)])
    fix x
    assume x: "i \<le> x"
    then show "fS p' x = fS p x \<and> fC p' x = fC p x" using S by simp
    assume "x \<notin> set (frees i r)"
    then show "fN p' x = fN p x \<and> fP p' x = fP p x" using N [of x] x cross(2) [of x] assms(3) by auto
  qed
  then show "chunks p' i r" using assms(5) by simp
qed

lemma put_meta_fields:
  assumes "0 \<le> n" "n + 8 \<le> 4096"
  shows "\<exists>p'. put_meta n k p = Some p' \<and> fS p' = (fS p)(n := Some (m_size k)) \<and> fC p' = (fC p)(n := Some (m_color k))
    \<and> fN p' = (fN p)(n := Some (m_next k)) \<and> fP p' = (fP p)(n := Some (m_prev k)) \<and> same_head p p'"
  using assms by (auto simp: put_meta_def in_page_def PAGE_SIZE_def meta_fields meta_at_def same_head_def fun_eq_iff)

lemma free_split_spec:
  assumes "fS p a = Some z" "sz + 8 < z" "z < 4096" "0 \<le> sz" "0 \<le> a" "a + 8 + z \<le> 4096"
  shows "\<exists>p'. slab_free_split a sz p = Some (p', a + 8 + sz) \<and> fS p' = (fS p)(a + 8 + sz := Some (z - sz - 8), a := Some sz)
    \<and> fC p' = (fC p)(a + 8 + sz := Some 0) \<and> fN p' = (fN p)(a + 8 + sz := Some (-1)) \<and> fP p' = (fP p)(a + 8 + sz := Some (-1)) \<and> same_head p p'"
proof -
  let ?n = "a + 8 + sz" and ?k = "\<lparr>m_size = i16 (z - sz - 8), m_color = META_COLOR_DEFAULT, m_next = -1, m_prev = -1\<rparr>"
  obtain k where k: "meta_at p a = Some k" "m_size k = z" using assms(1) by (auto simp: meta_field_Some)
  have "0 \<le> ?n" "?n + 8 \<le> 4096" using assms by simp_all
  from put_meta_fields [OF this, of ?k p] obtain p1 where 1: "put_meta ?n ?k p = Some p1" "fS p1 = (fS p)(?n := Some (i16 (z - sz - 8)))"
    "fC p1 = (fC p)(?n := Some 0)" "fN p1 = (fN p)(?n := Some (-1))" "fP p1 = (fP p)(?n := Some (-1))" "same_head p p1"
    by (auto simp: META_COLOR_DEFAULT_def)
  have "fS p1 a = Some z" using 1(2) assms(1,4) by simp
  from set_S [OF this, of "\<lambda>z. sz"] obtain p2 where 2: "upd_meta a (\<lambda>j. j\<lparr>m_size := sz\<rparr>) p1 = Some p2" "fN p2 = fN p1" "fP p2 = fP p1"
    "fS p2 = (fS p1)(a := Some sz)" "fC p2 = fC p1" "same_head p1 p2" by blast
  have "i16 (z - sz - 8) = z - sz - 8" by (rule i16_id) (use assms in simp_all)
  then show ?thesis using k 1 2 assms(2)
    by (intro exI [of _ p2]) (auto simp: slab_free_split_def slab_meta_init_def same_head_def)
qed

lemma tidy_append: "tidy (l @ r) \<longleftrightarrow> tidy l \<and> tidy r \<and> (l = [] \<or> r = [] \<or> snd (List.last l) \<or> snd (List.hd r))"
  by (auto simp: tidy_def successively_append_iff)

lemma tidy_Cons: "tidy (c # r) \<longleftrightarrow> tidy r \<and> (r = [] \<or> snd c \<or> snd (List.hd r))"
  by (auto simp: tidy_def successively_Cons)

lemma tidy_used: "tidy (l @ (z, True) # r) \<longleftrightarrow> tidy l \<and> tidy r"
  by (simp add: tidy_append tidy_Cons)

lemma fit_exact:
  assumes L: "laid p (l @ (z, False) # r)" and z: "sz \<le> z" "z \<le> sz + 8"
  shows "\<exists>p'. slab_fit_loop sz (24 + clen l) p = Some (p', Some (24 + clen l)) \<and> hole p' l z r \<and> fC p' (24 + clen l) = Some 0
    \<and> pg_remain p' = pg_remain p"
proof -
  let ?a = "24 + clen l" and ?xs = "frees 24 l" and ?ys = "frees (32 + clen l + z) r"
  note A = laid_at [OF L, simplified]
  have fl: "free_list p (?xs @ ?a # ?ys)" using A(5) by simp
  have M: "META_SHIFT ?a = ?a" using A by (intro META_SHIFT_id) simp_all
  obtain k where k: "meta_at p ?a = Some k" "m_size k = z" using A(1) by (auto simp: meta_field_Some)
  have off: "?a \<notin> set ?xs" "?a \<notin> set ?ys" using fl by (auto simp: free_list_def shifts_def)
  obtain p1 where 1: "slab_free_erase (Some ?a) p = Some (p1, if ?ys = [] then None else Some (List.hd ?ys))" "free_list p1 (?xs @ ?ys)"
    "fS p1 = fS p" "fC p1 = fC p" "same_head p p1" "\<forall>b. b \<in> set (?xs @ ?a # ?ys) \<or> fN p1 b = fN p b \<and> fP p1 b = fP p b"
    using free_erase_spec [OF fl] by blast
  let ?f = "case (if ?ys = [] then None else Some (List.hd ?ys)) of Some n \<Rightarrow> META_SHIFT n | None \<Rightarrow> -1"
  let ?p = "if ?a = pg_free p1 then p1\<lparr>pg_free := ?f\<rparr> else p1"
  have run: "slab_fit_loop sz ?a p = Some (?p, Some ?a)"
    using k z 1(1) A(13) M by (subst slab_fit_loop.simps) simp
  have sh: "shifts ?ys" using fl by (auto simp: free_list_def shifts_append shifts_Cons)
  have f: "?f = List.hd (?ys @ [-1])"
    using shifts_META [OF sh] by (cases ?ys) simp_all
  have fields: "fS ?p = fS p1" "fC ?p = fC p1" "fN ?p = fN p1" "fP ?p = fP p1" by (auto simp: meta_fields meta_at_def fun_eq_iff)
  have "dl ?p u xs v = dl p1 u xs v" for u xs v by (rule dl_cong) (simp add: fields)
  then have "free_list ?p (?xs @ ?ys)" using 1(2) by (simp add: free_list_def)
  moreover have "chunks ?p 24 l \<and> chunks ?p (32 + clen l + z) r"
  proof (rule chunks_keep [OF A(7,8) _ A(3,4)])
    fix x
    assume x: "x + 8 \<le> 24 + clen l \<or> 32 + clen l + z \<le> x"
    show "fS ?p x = fS p x \<and> fC ?p x = fC p x" using 1(3,4) by (simp add: fields)
    assume "x \<notin> set (?xs @ ?ys)"
    moreover have "x \<noteq> ?a" using x A(9) by auto
    ultimately show "fN ?p x = fN p x \<and> fP ?p x = fP p x" using 1(6) by (simp add: fields) blast
  qed (use A(9) in simp)
  moreover have "pg_free ?p = List.hd (?xs @ ?ys @ [-1])"
  proof -
    have "pg_free p1 = List.hd (?xs @ [?a] @ ?ys @ [-1])" using 1(5) A(6) by (simp add: same_head_def)
    then show ?thesis using off f by (cases ?xs) auto
  qed
  moreover have "pg_remain ?p = pg_remain p" using 1(5) by (simp add: same_head_def)
  ultimately show ?thesis using run A 1(3,4) by (auto simp: hole_def fields)
qed

lemma fit_split:
  assumes L: "laid p (l @ (z, False) # r)" and z: "sz + 8 < z" "0 \<le> sz" "8 dvd sz"
  shows "\<exists>p'. slab_fit_loop sz (24 + clen l) p = Some (p', Some (24 + clen l)) \<and> hole p' l sz ((z - sz - 8, False) # r) \<and> fC p' (24 + clen l) = Some 0
    \<and> pg_remain p' = pg_remain p"
proof -
  let ?a = "24 + clen l" and ?n = "32 + clen l + sz" and ?xs = "frees 24 l" and ?ys = "frees (32 + clen l + z) r"
  note A = laid_at [OF L, simplified]
  have n: "?a + 8 + sz = ?n" by simp
  have fl: "free_list p (?xs @ ?a # ?ys)" using A(5) by simp
  have M: "META_SHIFT ?a = ?a" "META_SHIFT ?n = ?n" using A z by (intro META_SHIFT_id; simp)+
  obtain k where k: "meta_at p ?a = Some k" "m_size k = z" using A(1) by (auto simp: meta_field_Some)
  have off: "?a \<notin> set ?xs" "?n \<notin> set (?xs @ ?a # ?ys)"
    using fl between [OF A(7), of ?n] after [OF A(8), of ?n "32 + clen l + z"] z by (auto simp: free_list_def shifts_def)
  have "z < 4096" "0 \<le> ?a" "?a + 8 + z \<le> 4096" using A(9,11,13,14) by simp_all
  from free_split_spec [OF A(1) z(1) this(1) z(2) this(2,3)] obtain p1 where 1: "slab_free_split ?a sz p = Some (p1, ?n)"
    "fS p1 = (fS p)(?n := Some (z - sz - 8), ?a := Some sz)" "fC p1 = (fC p)(?n := Some 0)" "fN p1 = (fN p)(?n := Some (-1))"
    "fP p1 = (fP p)(?n := Some (-1))" "same_head p p1" unfolding n by blast
  have "dl p1 (-1) (?xs @ ?a # ?ys) (-1) = dl p (-1) (?xs @ ?a # ?ys) (-1)"
    by (rule dl_cong) (use 1(4,5) off(2) in auto)
  then have fl1: "free_list p1 (?xs @ ?a # ?ys)" using fl by (simp add: free_list_def)
  have "0 < ?n" "?n < 4096" "fS p1 ?n \<noteq> None" using A(9,11,13,14) z 1(2) by simp_all
  from free_replace_spec [OF fl1 off(2) this] obtain p2 where 2: "slab_free_replace (Some ?a) (Some ?n) p1 = Some p2"
    "free_list p2 (?xs @ ?n # ?ys)" "fS p2 = fS p1" "fC p2 = fC p1" "same_head p1 p2"
    "\<forall>c. c \<in> set (?xs @ ?n # ?ys) \<or> fN p2 c = fN p1 c \<and> fP p2 c = fP p1 c" by blast
  let ?p = "if ?a = pg_free p2 then p2\<lparr>pg_free := ?n\<rparr> else p2"
  have run: "slab_fit_loop sz ?a p = Some (?p, Some ?a)"
    using k z 1(1) 2(1) A(13) M by (subst slab_fit_loop.simps) simp
  have fields: "fS ?p = fS p2" "fC ?p = fC p2" "fN ?p = fN p2" "fP ?p = fP p2" by (auto simp: meta_fields meta_at_def fun_eq_iff)
  have "dl ?p u xs v = dl p2 u xs v" for u xs v by (rule dl_cong) (simp add: fields)
  then have fl': "free_list ?p (?xs @ ?n # ?ys)" using 2(2) by (simp add: free_list_def)
  have C: "chunks ?p 24 l \<and> chunks ?p (32 + clen l + z) r"
  proof (rule chunks_keep [OF A(7,8) _ A(3,4)])
    fix x
    assume "x + 8 \<le> 24 + clen l \<or> 32 + clen l + z \<le> x"
    then have x: "x \<noteq> ?a" "x \<noteq> ?n" using A(9) z by auto
    then show "fS ?p x = fS p x \<and> fC ?p x = fC p x" using 1(2,3) 2(3,4) by (simp add: fields)
    assume "x \<notin> set (?xs @ ?ys)"
    then have "x \<notin> set (?xs @ ?n # ?ys)" using x by auto
    then have "fN p2 x = fN p1 x \<and> fP p2 x = fP p1 x" using 2(6) by blast
    then show "fN ?p x = fN p x \<and> fP ?p x = fP p x" using x 1(4,5) by (simp add: fields)
  qed (use A(9) in simp)
  have F: "pg_free ?p = List.hd (?xs @ ?n # ?ys @ [-1])"
  proof -
    have "pg_free p2 = List.hd (?xs @ [?a] @ ?ys @ [-1])" using 1(6) 2(5) A(6) by (simp add: same_head_def)
    then show ?thesis using off(1) by (cases ?xs) auto
  qed
  have R: "pg_remain ?p = pg_remain p" using 1(6) 2(5) by (simp add: same_head_def)
  have S: "fS ?p ?a = Some sz" "fS ?p ?n = Some (z - sz - 8)" "fC ?p ?n = Some 0" "fC ?p ?a = Some 0"
    using 1(2,3) 2(3,4) z A(2) by (simp_all add: fields)
  have D: "8 dvd z - sz - 8" using A(10) z(3) by simp
  have e: "?n + 8 + (z - sz - 8) = 32 + clen l + z" by simp
  have Fr: "frees ?n ((z - sz - 8, False) # r) = ?n # ?ys" by (simp only: frees.simps e if_False append.simps)
  have Ch: "chunks ?p ?n ((z - sz - 8, False) # r)" using C S(2,3) by (simp only: chunks.simps e if_False simp_thms)
  have "sizes (l @ (sz, True) # (z - sz - 8, False) # r)" "24 + clen (l @ (sz, True) # (z - sz - 8, False) # r) = 4096"
    using A(7-11) z D by simp_all
  then have "hole ?p l sz ((z - sz - 8, False) # r)"
    unfolding hole_def Fr using C Ch F S(1) fl' by (simp only: append.simps simp_thms)
  then show ?thesis using run R S(4) by blast
qed

lemma set_links:
  assumes "fS p a \<noteq> None"
  shows "\<exists>p'. upd_meta a (\<lambda>j. j\<lparr>m_next := v, m_prev := u\<rparr>) p = Some p' \<and> fN p' = (fN p)(a := Some v) \<and> fP p' = (fP p)(a := Some u)
    \<and> fS p' = fS p \<and> fC p' = fC p \<and> same_head p p'"
proof -
  obtain k where k: "meta_at p a = Some k" using assms by (auto simp: fS_def)
  from upd_meta_eq [OF this] obtain p' where "upd_meta a (\<lambda>j. j\<lparr>m_next := v, m_prev := u\<rparr>) p = Some p'"
    "meta_at p' = (meta_at p)(a := Some (k\<lparr>m_next := v, m_prev := u\<rparr>))" "same_head p p'" by blast
  then show ?thesis using k by (intro exI [of _ p']) (auto simp: meta_fields)
qed

lemma fill_hole:
  \<comment> \<open>a block outside the free list that is marked\<close>
  assumes H: "hole p l z r" and t: "tidy l" "tidy r"
    and p': "fS p' = fS p" "\<And>x. x \<noteq> 24 + clen l \<Longrightarrow> fC p' x = fC p x \<and> fN p' x = fN p x \<and> fP p' x = fP p x"
      "fC p' (24 + clen l) = Some 1" "fN p' (24 + clen l) = Some (-1)" "fP p' (24 + clen l) = Some (-1)" "pg_free p' = pg_free p"
  shows "laid p' (l @ (z, True) # r)"
proof -
  let ?a = "24 + clen l" and ?ys = "frees (32 + clen l + z) r"
  have S: "sizes l" "sizes r" "0 \<le> z" "chunks p 24 l" "chunks p (32 + clen l + z) r" "fS p ?a = Some z" "free_list p (frees 24 l @ ?ys)"
    "pg_free p = List.hd (frees 24 l @ ?ys @ [-1])" "sizes (l @ (z, True) # r)" "24 + clen (l @ (z, True) # r) = 4096"
    using H by (simp_all add: hole_def)
  have off: "x \<in> set (frees 24 l @ ?ys) \<Longrightarrow> x \<noteq> ?a" for x
    using between [OF S(1), of x] after [OF S(2), of x "32 + clen l + z"] S(3) by auto
  have "chunks p' 24 l \<and> chunks p' (32 + clen l + z) r"
    by (rule chunks_keep [OF S(1,2) _ S(4,5)]) (use p' S(3) in auto)
  moreover have "dl p' (-1) (frees 24 l @ ?ys) (-1) = dl p (-1) (frees 24 l @ ?ys) (-1)"
    by (rule dl_cong) (use p'(2) off in blast)
  then have "free_list p' (frees 24 l @ ?ys)" using S(7) by (simp add: free_list_def)
  moreover have "?a + 8 + z = 32 + clen l + z" by simp
  then have fr: "frees 24 (l @ (z, True) # r) = frees 24 l @ ?ys" by (simp only: frees_append frees.simps if_True append.simps)
  moreover have "chunks p' 24 (l @ (z, True) # r) \<longleftrightarrow> chunks p' 24 l \<and> fS p' ?a = Some z \<and> fC p' ?a = Some 1
      \<and> (fN p' ?a = Some (-1) \<and> fP p' ?a = Some (-1)) \<and> chunks p' (32 + clen l + z) r"
    unfolding chunks_append chunks.simps \<open>?a + 8 + z = 32 + clen l + z\<close> by simp
  ultimately show ?thesis unfolding laid_def fr using S p' t by (simp add: tidy_used)
qed

definition taken :: "int \<Rightarrow> chunk list \<Rightarrow> int \<Rightarrow> int \<Rightarrow> chunk list \<Rightarrow> bool" where
  \<comment> \<open>a block of at least \<open>sz\<close> bytes is taken: of \<open>z\<close> bytes, at \<open>a\<close>\<close>
  "taken sz cs a z cs' \<longleftrightarrow> (\<exists>l w r r'. cs = l @ (w, False) # r \<and> a = 24 + clen l \<and> sz \<le> z \<and> cs' = l @ (z, True) # r'
     \<and> used (32 + clen l + z) r' = used (32 + clen l + w) r \<and> fsum r' + 8 + z = fsum r + 8 + w)"

lemma frees_small:
  assumes "chunks p i cs" "\<forall>(z, u) \<in> set cs. u \<or> z < sz"
  shows "\<forall>x \<in> set (frees i cs). \<exists>z. fS p x = Some z \<and> z < sz"
  using assms by (induction p i cs rule: chunks.induct) (auto split: if_splits)

lemma fsum_nonneg: "sizes cs \<Longrightarrow> 0 \<le> fsum cs"
  by (induction cs rule: fsum.induct) auto

lemma fit_none:
  assumes "laid p cs" "\<forall>(z, u) \<in> set cs. u \<or> z < sz"
  shows "slab_fit_loop sz (pg_free p) p = Some (p, None)"
proof -
  have L: "chunks p 24 cs" "free_list p ([] @ frees 24 cs @ [])" "pg_free p = List.hd (frees 24 cs @ [] @ [-1])" using assms(1) by (simp_all add: laid_def)
  have "slab_fit_loop sz (pg_free p) p = slab_fit_loop sz (List.hd ([] @ [-1])) p"
    unfolding L(3) by (rule fit_skip [OF L(2) frees_small [OF L(1) assms(2)]])
  also have "\<dots> = Some (p, None)" by (subst slab_fit_loop.simps) simp
  finally show ?thesis .
qed

lemma fit_some:
  assumes P: "laid p cs" and ex: "\<exists>(z, u) \<in> set cs. \<not> u \<and> sz \<le> z" and sz: "0 \<le> sz" "8 dvd sz"
  shows "\<exists>l w r z r' p'. cs = l @ (w, False) # r \<and> slab_fit_loop sz (pg_free p) p = Some (p', Some (24 + clen l)) \<and> hole p' l z r'
    \<and> fC p' (24 + clen l) = Some 0 \<and> pg_remain p' = pg_remain p \<and> sz \<le> z \<and> w \<ge> sz \<and> tidy l \<and> tidy r'
    \<and> used (32 + clen l + z) r' = used (32 + clen l + w) r \<and> fsum r' + 8 + z = fsum r + 8 + w"
proof -
  obtain l c r where c: "cs = l @ c # r" "(case c of (z, u) \<Rightarrow> \<not> u \<and> sz \<le> z)" "\<forall>d \<in> set l. \<not> (case d of (z, u) \<Rightarrow> \<not> u \<and> sz \<le> z)"
    using split_list_first_prop [of cs "\<lambda>c. case c of (z, u) \<Rightarrow> \<not> u \<and> sz \<le> z"] ex by auto
  then obtain w where w: "c = (w, False)" "sz \<le> w" by (cases c) auto
  have L: "laid p (l @ (w, False) # r)" using P c(1) w(1) by simp
  note A = laid_at [OF L, simplified]
  have t: "tidy l" "tidy r" using A(12) by (simp_all add: tidy_append tidy_Cons)
  have "\<forall>(z, u) \<in> set l. u \<or> z < sz" using c(3) by auto
  from frees_small [OF A(3) this] have small: "\<forall>x \<in> set (frees 24 l). \<exists>z. fS p x = Some z \<and> z < sz" .
  have fl: "free_list p ([] @ frees 24 l @ (24 + clen l) # frees (32 + clen l + w) r)" using A(5) by simp
  have "slab_fit_loop sz (pg_free p) p = slab_fit_loop sz (List.hd (((24 + clen l) # frees (32 + clen l + w) r) @ [-1])) p"
    using fit_skip [OF fl small] A(6) by simp
  then have go: "slab_fit_loop sz (pg_free p) p = slab_fit_loop sz (24 + clen l) p" by simp
  show ?thesis
  proof (cases "w \<le> sz + 8")
    case True
    from fit_exact [OF L w(2) this] obtain p' where "slab_fit_loop sz (24 + clen l) p = Some (p', Some (24 + clen l))" "hole p' l w r"
      "fC p' (24 + clen l) = Some 0" "pg_remain p' = pg_remain p" by blast
    then show ?thesis unfolding go using c(1) w t by blast
  next
    case False
    then have "sz + 8 < w" by simp
    from fit_split [OF L this sz] obtain p' where p': "slab_fit_loop sz (24 + clen l) p = Some (p', Some (24 + clen l))"
      "hole p' l sz ((w - sz - 8, False) # r)" "fC p' (24 + clen l) = Some 0" "pg_remain p' = pg_remain p" by blast
    have "tidy ((w - sz - 8, False) # r)" using A(12) by (auto simp: tidy_append tidy_Cons)
    moreover have "32 + clen l + sz + 8 + (w - sz - 8) = 32 + clen l + w" by simp
    then have "used (32 + clen l + sz) ((w - sz - 8, False) # r) = used (32 + clen l + w) r" by (simp only: used.simps if_False append.simps)
    moreover have "fsum ((w - sz - 8, False) # r) + 8 + sz = fsum r + 8 + w" by simp
    ultimately show ?thesis unfolding go using c(1) w t p' by blast
  qed
qed

section \<open>Giving a block back\<close>

definition laid0 :: "page_t \<Rightarrow> chunk list \<Rightarrow> bool" where
  "laid0 p cs \<longleftrightarrow> sizes cs \<and> 24 + clen cs = 4096 \<and> chunks p 24 cs \<and> free_list p (frees 24 cs) \<and> pg_free p = List.hd (frees 24 cs @ [-1])"

lemma laid_iff: "laid p cs \<longleftrightarrow> laid0 p cs \<and> tidy cs"
  by (auto simp: laid_def laid0_def)

lemma laid0_free:
  "laid0 p (l @ (z, False) # r) \<longleftrightarrow> sizes l \<and> sizes r \<and> 0 \<le> z \<and> 8 dvd z \<and> 32 + clen l + z + clen r = 4096 \<and> chunks p 24 l
     \<and> fS p (24 + clen l) = Some z \<and> fC p (24 + clen l) = Some 0 \<and> chunks p (32 + clen l + z) r
     \<and> free_list p (frees 24 l @ (24 + clen l) # frees (32 + clen l + z) r)
     \<and> pg_free p = List.hd (frees 24 l @ (24 + clen l) # frees (32 + clen l + z) r @ [-1])"
proof -
  have e: "24 + clen l + 8 + z = 32 + clen l + z" by simp
  show ?thesis unfolding laid0_def frees_append chunks_append frees.simps chunks.simps e by auto
qed

lemma frees_last_free:
  "frees 24 (l @ [(z, False)]) = frees 24 l @ [24 + clen l]"
  by (simp add: frees_append)

lemma merge_prev_spec:
  \<comment> \<open>two free blocks, the first just before the second, become one\<close>
  assumes L: "laid0 p (l @ (w, False) # (z, False) # r)"
  shows "\<exists>p'. slab_merge_prev (24 + clen l) (32 + clen l + w) p = Some p' \<and> laid0 p' (l @ (w + 8 + z, False) # r) \<and> pg_remain p' = pg_remain p"
proof -
  let ?q = "24 + clen l" and ?a = "32 + clen l + w" and ?xs = "frees 24 l" and ?i = "32 + clen l + (w + 8 + z)"
  let ?ys = "frees ?i r"
  note Q = L [unfolded laid0_free]
  have i: "32 + clen l + w + 8 + z = ?i" by simp
  have A: "sizes l" "sizes r" "0 \<le> w" "8 dvd w" "0 \<le> z" "8 dvd z" "32 + clen l + w + 8 + z + clen r = 4096" "chunks p 24 l" "fS p ?q = Some w" "fC p ?q = Some 0"
    "fS p ?a = Some z" "chunks p ?i r" "free_list p (?xs @ ?q # ?a # ?ys)" "pg_free p = List.hd (?xs @ ?q # ?a # ?ys @ [-1])"
    using Q unfolding chunks.simps frees.simps i by simp_all
  have nn: "0 \<le> clen l" "0 \<le> clen r" using A(1,2) by (simp_all add: clen_nonneg)
  have sh: "shifts (?xs @ ?q # ?a # ?ys)" "dl p (-1) (?xs @ [?q]) ?a" "dl p ?q [?a] (List.hd (?ys @ [-1]))" "dl p ?a ?ys (-1)"
    using A(13) unfolding free_list_def dl_append by (auto simp: dl_append)
  have M: "META_SHIFT ?q = ?q" "META_SHIFT ?a = ?a" using shifts_META [OF sh(1)] by simp_all
  have d: "distinct ((?xs @ [?q]) @ ?ys)" "?a \<notin> set (?xs @ ?q # ?ys)" using sh(1) by (auto simp: shifts_def)
  have ys: "shifts ?ys" using sh(1) by (auto simp: shifts_append shifts_Cons)
  obtain k where k: "meta_at p ?a = Some k" "m_size k = z" using A(11) by (auto simp: meta_field_Some)
  obtain j where j: "meta_at p ?q = Some j" "m_size j = w" using A(9) by (auto simp: meta_field_Some)
  have ov: "i16 (w + (8 + z)) = w + 8 + z" using A nn by (subst i16_id) simp_all
  from set_S [OF A(9), of "\<lambda>s. i16 (s + (8 + z))"] obtain p1 where 1: "upd_meta ?q (\<lambda>j. j\<lparr>m_size := i16 (m_size j + (8 + z))\<rparr>) p = Some p1"
    "fN p1 = fN p" "fP p1 = fP p" "fS p1 = (fS p)(?q := Some (w + 8 + z))" "fC p1 = fC p" "same_head p p1" unfolding ov by blast
  have next': "fN p ?a = Some (List.hd (?ys @ [-1]))" using sh(3) by simp
  then have "fN p1 ?a = Some (List.hd (?ys @ [-1]))" using 1(2) by metis
  then obtain k1 where k1: "meta_at p1 ?a = Some k1" "m_next k1 = List.hd (?ys @ [-1])" unfolding meta_field_Some by blast
  have "fN p1 ?q \<noteq> None" using A(9) 1(4) by (simp add: meta_dom)
  from set_N [OF this, of "List.hd (?ys @ [-1])"] obtain p2 where 2: "upd_meta ?q (\<lambda>j. j\<lparr>m_next := List.hd (?ys @ [-1])\<rparr>) p1 = Some p2"
    "fN p2 = (fN p1)(?q := Some (List.hd (?ys @ [-1])))" "fP p2 = fP p1" "fS p2 = fS p1" "fC p2 = fC p1" "same_head p1 p2" by blast
  have "fN p2 ?a = Some (List.hd (?ys @ [-1]))" using next' 1(2) 2(2) d(2) by auto
  then obtain k2 where k2: "meta_at p2 ?a = Some k2" "m_next k2 = List.hd (?ys @ [-1])" unfolding meta_field_Some by blast
  have e: "\<And>x. x \<in> set ?ys \<Longrightarrow> fP p2 x \<noteq> None" using dl_mem [OF sh(4)] A(3) 1(4) 2(4) by (auto simp: meta_dom)
  from set_P_first [OF e, of ?ys ?q] obtain p3 where 3: "(if ?ys \<noteq> [] then upd_meta (List.hd ?ys) (\<lambda>j. j\<lparr>m_prev := ?q\<rparr>) p2 else Some p2) = Some p3"
    "\<forall>x. fP p3 x = (if ?ys \<noteq> [] \<and> x = List.hd ?ys then Some ?q else fP p2 x)" "fN p3 = fN p2" "fS p3 = fS p2" "fC p3 = fC p2" "same_head p2 p3" by blast
  have run3: "(if m_next k2 > 0 then upd_meta (m_next k2) (\<lambda>j. j\<lparr>m_prev := ?q\<rparr>) p2 else Some p2) = Some p3"
    using 3(1) k2(2) hd_sign [OF ys] by (cases "?ys = []") simp_all
  have eq: "?q + 8 + w = ?a" by simp
  have run: "slab_merge_prev ?q ?a p = Some p3"
    unfolding slab_merge_prev_def M META_SIZE_eq j(2) using j k k1 k2(1) 1(1) 2(1) run3 by (simp add: eq)
  have "dl p3 (-1) (?xs @ [?q]) (List.hd (?ys @ [-1])) \<and> dl p3 ?q ?ys (-1)"
    by (rule dl_relink [OF sh(2,4) d(1)]) (use 1 2 3 d in auto)
  moreover have "shifts (?xs @ ?q # ?ys)" using sh(1) by (auto simp: shifts_append shifts_Cons)
  ultimately have fl: "free_list p3 (?xs @ ?q # ?ys)" by (simp add: free_list_def dl_append)
  have "chunks p3 24 l \<and> chunks p3 ?i r"
  proof (rule chunks_keep [OF A(1,2) _ A(8,12)])
    fix x
    assume x: "x + 8 \<le> 24 + clen l \<or> ?i \<le> x"
    have "x \<noteq> ?q" using x A(3,5) by auto
    then show "fS p3 x = fS p x \<and> fC p3 x = fC p x" using 1(4,5) 2(4,5) 3(4,5) by simp
    assume "x \<notin> set (?xs @ ?ys)"
    then have "?ys \<noteq> [] \<Longrightarrow> x \<noteq> List.hd ?ys" using hd_in_set [of ?ys] by auto
    then show "fN p3 x = fN p x \<and> fP p3 x = fP p x" using \<open>x \<noteq> ?q\<close> 1(2,3) 2(2,3) 3(2,3) by auto
  qed (use A(3,5) in simp)
  moreover have "pg_free p3 = List.hd (?xs @ ?q # ?ys @ [-1])" using A(14) 1(6) 2(6) 3(6) by (simp add: same_head_def hd_append)
  moreover have "fS p3 ?q = Some (w + 8 + z)" "fC p3 ?q = Some 0" using 1(4,5) 2(4,5) 3(4,5) A(10) by simp_all
  ultimately have "laid0 p3 (l @ (w + 8 + z, False) # r)" unfolding laid0_free using A(1-7) fl by auto
  moreover have "pg_remain p3 = pg_remain p" using 1(6) 2(6) 3(6) by (simp add: same_head_def)
  ultimately show ?thesis using run by blast
qed

definition freed :: "chunk list \<Rightarrow> int \<Rightarrow> chunk list \<Rightarrow> chunk list \<Rightarrow> bool" where
  \<comment> \<open>\<open>cs'\<close> has the used blocks of \<open>l\<close> and \<open>r\<close>, where they are, and the room of a block of \<open>z\<close> bytes between them\<close>
  "freed l z r cs' \<longleftrightarrow> used 24 cs' = used 24 l @ used (32 + clen l + z) r \<and> fsum cs' = fsum l + 8 + z + fsum r"

lemma freed_mid: "freed l z r (l @ (z, False) # r)"
proof -
  have e: "24 + clen l + 8 + z = 32 + clen l + z" by simp
  show ?thesis unfolding freed_def used_append used.simps e by simp
qed

lemma freed_next: "freed l z ((w, False) # r) (l @ (z + 8 + w, False) # r)"
proof -
  have e: "24 + clen l + 8 + (z + 8 + w) = 32 + clen l + z + 8 + w" by simp
  show ?thesis unfolding freed_def used_append used.simps e by simp
qed

lemma freed_prev: "freed l z r (k @ (w, False) # (v, False) # q) \<Longrightarrow> freed l z r (k @ (w + 8 + v, False) # q)"
proof -
  have e: "24 + clen k + 8 + (w + 8 + v) = 24 + clen k + 8 + w + 8 + v" by simp
  assume "freed l z r (k @ (w, False) # (v, False) # q)"
  then show ?thesis unfolding freed_def used_append used.simps e by simp
qed

lemma frees_extent:
  assumes "chunks p i cs" "sizes cs" "x \<in> set (frees i cs)"
  shows "\<exists>s. fS p x = Some s \<and> x + 8 + s \<le> i + clen cs"
  using assms
proof (induction p i cs rule: chunks.induct)
  case (2 p i z u cs)
  then have "0 \<le> clen cs" by (simp add: clen_nonneg)
  then show ?case using 2 by (fastforce split: if_splits)
qed simp

lemma merge_prev_apart:
  \<comment> \<open>the free block before \<open>l\<close> ends does not reach its end when the last block is in use\<close>
  assumes "chunks p 24 (l @ [(w, True)])" "sizes (l @ [(w, True)])" "frees 24 (l @ [(w, True)]) \<noteq> []" "clen (l @ [(w, True)]) < 4072"
  shows "slab_merge_prev (List.last (frees 24 (l @ [(w, True)]))) (24 + clen (l @ [(w, True)])) p = Some p"
proof -
  have eq: "frees 24 (l @ [(w, True)]) = frees 24 l" by (simp add: frees_append)
  let ?q = "List.last (frees 24 l)"
  have q: "?q \<in> set (frees 24 l)" using assms(3) unfolding eq by simp
  have s: "chunks p 24 l" "sizes l" "0 \<le> w" using assms(1,2) by (simp_all add: chunks_append)
  obtain s where s': "fS p ?q = Some s" "?q + 8 + s \<le> 24 + clen l" using frees_extent [OF s(1,2) q] by blast
  have r: "24 \<le> ?q" "?q + 8 \<le> 24 + clen l" using frees_range [OF s(2) q] by simp_all
  have len: "clen (l @ [(w, True)]) = clen l + 8 + w" by simp
  have M: "META_SHIFT ?q = ?q" "META_SHIFT (24 + clen (l @ [(w, True)])) = 24 + clen l + 8 + w"
    using r assms(4) s(3) unfolding len by (simp_all add: META_SHIFT_id)
  obtain j where j: "meta_at p ?q = Some j" "m_size j = s" using s'(1) unfolding meta_field_Some by blast
  have "?q + 8 + s \<noteq> 24 + clen l + 8 + w" using s' s(3) by linarith
  then show ?thesis unfolding eq slab_merge_prev_def M META_SIZE_eq using j by simp
qed

lemma qm_none:
  assumes "fS p (24 + clen l) = Some z" "chunks p (32 + clen l + z) r" "sizes l" "0 \<le> z" "sizes r" "32 + clen l + z + clen r = 4096"
    and "r = [] \<or> snd (List.hd r)"
  shows "slab_free_quick_merge (24 + clen l) e p = Some (p, -1)"
proof -
  have nn: "0 \<le> clen l" "0 \<le> clen r" using assms(3,5) by (simp_all add: clen_nonneg)
  then have M: "META_SHIFT (24 + clen l) = 24 + clen l" using assms(4,6) by (simp add: META_SHIFT_id)
  obtain k where k: "meta_at p (24 + clen l) = Some k" "m_size k = z" using assms(1) unfolding meta_field_Some by blast
  have e: "24 + clen l + META_SIZE + z = 32 + clen l + z" by simp
  show ?thesis
  proof (cases r)
    case Nil
    then have "\<not> 32 + clen l + z < PAGE_SIZE" using assms(6) by (simp add: PAGE_SIZE_def)
    then show ?thesis unfolding slab_free_quick_merge_def Let_def M using k e by simp
  next
    case (Cons c r')
    then obtain w where c: "r = (w, True) # r'" using assms(7) by (cases c) auto
    then have "fC p (32 + clen l + z) = Some 1" using assms(2) by simp
    then obtain n where n: "meta_at p (32 + clen l + z) = Some n" "m_color n = 1" unfolding meta_field_Some by blast
    then show ?thesis unfolding slab_free_quick_merge_def Let_def M using k e by (simp add: META_COLOR_ALLOC_def)
  qed
qed

lemma hole_at:
  assumes "hole p l z r"
  shows "sizes l" "sizes r" "0 \<le> z" "8 dvd z" "32 + clen l + z + clen r = 4096" "fS p (24 + clen l) = Some z" "chunks p 24 l"
    "chunks p (32 + clen l + z) r" "free_list p (frees 24 l @ frees (32 + clen l + z) r)"
    "pg_free p = List.hd (frees 24 l @ frees (32 + clen l + z) r @ [-1])" "0 \<le> clen l" "0 \<le> clen r"
  using assms clen_nonneg [of l] clen_nonneg [of r] by (auto simp: hole_def)

lemma merge_back:
  \<comment> \<open>the last part of the merge, when the merged block is in place\<close>
  assumes L: "laid0 p (l @ (v, False) # r)" and t: "tidy l" "r = [] \<or> snd (List.hd r)" "tidy r"
    and prev: "prev = (if frees 24 l = [] then None else Some (List.last (frees 24 l)))"
  shows "\<exists>p' cs'. (case prev of None \<Rightarrow> Some p | Some q \<Rightarrow> slab_merge_prev q (24 + clen l) p) = Some p' \<and> laid p' cs' \<and> pg_remain p' = pg_remain p
    \<and> (\<forall>z r0. freed l z r0 (l @ (v, False) # r) \<longrightarrow> freed l z r0 cs')"
proof (cases "l \<noteq> [] \<and> \<not> snd (List.last l)")
  case False
  have T: "tidy (l @ (v, False) # r)" using False t by (auto simp: tidy_append tidy_Cons)
  have "(case prev of None \<Rightarrow> Some p | Some q \<Rightarrow> slab_merge_prev q (24 + clen l) p) = Some p"
  proof (cases l rule: rev_cases)
    case Nil
    then show ?thesis using prev by simp
  next
    case (snoc l' c)
    then obtain w where c: "l = l' @ [(w, True)]" using False by (cases c) auto
    have "chunks p 24 l" "sizes l" "clen l < 4072" using L clen_nonneg [of r] by (auto simp: laid0_free)
    then show ?thesis using merge_prev_apart [of p l' w] prev c by simp
  qed
  then show ?thesis using L T by (intro exI [of _ p] exI [of _ "l @ (v, False) # r"]) (simp add: laid_iff)
next
  case True
  then obtain l' c where "l = l' @ [c]" by (cases l rule: rev_cases) auto
  then obtain w where l: "l = l' @ [(w, False)]" using True by (cases c) auto
  have a: "24 + clen l = 32 + clen l' + w" "frees 24 l \<noteq> []" "List.last (frees 24 l) = 24 + clen l'" using l by (simp_all add: frees_last_free)
  have "laid0 p (l' @ (w, False) # (v, False) # r)" using L l by simp
  from merge_prev_spec [OF this] obtain p' where p': "slab_merge_prev (24 + clen l') (32 + clen l' + w) p = Some p'"
    "laid0 p' (l' @ (w + 8 + v, False) # r)" "pg_remain p' = pg_remain p" by blast
  have "tidy (l' @ (w + 8 + v, False) # r)" using t l by (auto simp: tidy_append tidy_Cons)
  then have "laid p' (l' @ (w + 8 + v, False) # r)" using p'(2) by (simp add: laid_iff)
  moreover have "freed l z r0 (l @ (v, False) # r) \<Longrightarrow> freed l z r0 (l' @ (w + 8 + v, False) # r)" for z r0
    by (rule freed_prev) (simp add: l)
  moreover have "(case prev of None \<Rightarrow> Some p | Some q \<Rightarrow> slab_merge_prev q (24 + clen l) p) = Some p'"
    unfolding prev a(1,3) using p'(1) a(2) by (simp only: if_False option.case)
  ultimately show ?thesis using p'(3) by (intro exI [of _ p'] exI [of _ "l' @ (w + 8 + v, False) # r"]) blast
qed

lemma qm_next:
  assumes H: "hole p l z ((w, False) # r)" and C: "fC p (24 + clen l) = Some 0" and t: "tidy l" "tidy ((w, False) # r)"
  shows "\<exists>p' cs'. slab_free_quick_merge (24 + clen l) 0 p = Some (p', 0) \<and> laid p' cs' \<and> pg_remain p' = pg_remain p
    \<and> freed l z ((w, False) # r) cs'"
proof -
  let ?a = "24 + clen l" and ?n = "32 + clen l + z" and ?xs = "frees 24 l" and ?i = "32 + clen l + (z + 8 + w)"
  let ?ys = "frees ?i r"
  note A = hole_at [OF H]
  have i: "32 + clen l + z + 8 + w = ?i" by simp
  have B: "sizes r" "0 \<le> w" "8 dvd w" "fS p ?n = Some w" "fC p ?n = Some 0" "chunks p ?i r" "free_list p (?xs @ ?n # ?ys)"
    "pg_free p = List.hd (?xs @ ?n # ?ys @ [-1])" "0 \<le> clen r" "24 + clen l + 8 + z + 8 + w + clen r = 4096"
    using A(2,5,8,9,10) clen_nonneg [of r] unfolding chunks.simps frees.simps i by simp_all
  have M: "META_SHIFT ?a = ?a" "META_SHIFT ?n = ?n" using A(3,11) B(2,9,10) by (simp_all add: META_SHIFT_id)
  obtain k where k: "meta_at p ?a = Some k" "m_size k = z" using A(6) unfolding meta_field_Some by blast
  obtain n where n: "meta_at p ?n = Some n" "m_size n = w" "m_color n = 0" "m_prev n = List.last (-1 # ?xs)"
    using B(4,5) free_list_node [OF B(7)] unfolding meta_field_Some by auto
  have sh: "shifts ?xs" using B(7) by (auto simp: free_list_def shifts_append)
  have prev: "(if m_prev n > 0 then Some (m_prev n) else None) = (if ?xs = [] then None else Some (List.last ?xs))"
    using last_sign [OF sh] n(4) by (cases "?xs = []") auto
  have e: "?a + META_SIZE + m_size k = ?n" using k(2) by simp
  have lt: "?n < PAGE_SIZE" using A(3,11) B(2,9,10) by (simp add: PAGE_SIZE_def)
  have ov: "i16 (z + (w + 8)) = z + 8 + w" using A(3,11) B(2,9,10) by (subst i16_id) simp_all
  from set_S [OF A(6), of "\<lambda>s. i16 (s + (w + 8))"] obtain p1 where 1: "upd_meta ?a (\<lambda>j. j\<lparr>m_size := i16 (m_size j + (w + 8))\<rparr>) p = Some p1"
    "fN p1 = fN p" "fP p1 = fP p" "fS p1 = (fS p)(?a := Some (z + 8 + w))" "fC p1 = fC p" "same_head p p1" unfolding ov by blast
  have "dl p1 (-1) (?xs @ ?n # ?ys) (-1) = dl p (-1) (?xs @ ?n # ?ys) (-1)" by (rule dl_cong) (simp add: 1(2,3))
  then have fl1: "free_list p1 (?xs @ ?n # ?ys)" using B(7) by (simp add: free_list_def)
  have "x \<in> set (?xs @ ?n # ?ys) \<Longrightarrow> x \<noteq> ?a" for x
    using between [OF A(1), of x] after [OF B(1), of x ?i] A(3) B(2) by auto
  then have off: "?a \<notin> set (?xs @ ?n # ?ys)" by blast
  have "0 < ?a" "?a < 4096" "fS p1 ?a \<noteq> None" using A(3,11) B(2,9,10) 1(4) by simp_all
  from free_replace_spec [OF fl1 off this] obtain p2 where 2: "slab_free_replace (Some ?n) (Some ?a) p1 = Some p2"
    "free_list p2 (?xs @ ?a # ?ys)" "fS p2 = fS p1" "fC p2 = fC p1" "same_head p1 p2"
    "\<forall>c. c \<in> set (?xs @ ?a # ?ys) \<or> fN p2 c = fN p1 c \<and> fP p2 c = fP p1 c" by blast
  let ?p = "if ?n = pg_free p2 then p2\<lparr>pg_free := ?a\<rparr> else p2"
  have fields: "fS ?p = fS p2" "fC ?p = fC p2" "fN ?p = fN p2" "fP ?p = fP p2" by (auto simp: meta_fields meta_at_def fun_eq_iff)
  have "dl ?p u xs v = dl p2 u xs v" for u xs v by (rule dl_cong) (simp add: fields)
  then have fl': "free_list ?p (?xs @ ?a # ?ys)" using 2(2) by (simp add: free_list_def)
  have C': "chunks ?p 24 l \<and> chunks ?p ?i r"
  proof (rule chunks_keep [OF A(1) B(1) _ A(7) B(6)])
    fix x
    assume "x + 8 \<le> 24 + clen l \<or> ?i \<le> x"
    then have x: "x \<noteq> ?a" using A(3) B(2) by auto
    then show "fS ?p x = fS p x \<and> fC ?p x = fC p x" using 1(4,5) 2(3,4) by (simp add: fields)
    assume "x \<notin> set (?xs @ ?ys)"
    then have "x \<notin> set (?xs @ ?a # ?ys)" using x by auto
    then have "fN p2 x = fN p1 x \<and> fP p2 x = fP p1 x" using 2(6) by blast
    then show "fN ?p x = fN p x \<and> fP ?p x = fP p x" using 1(2,3) by (simp add: fields)
  qed (use A(3) B(2) in simp)
  have F: "pg_free ?p = List.hd (?xs @ ?a # ?ys @ [-1])"
  proof -
    have "pg_free p2 = List.hd (?xs @ [?n] @ ?ys @ [-1])" using 1(6) 2(5) B(8) by (simp add: same_head_def)
    moreover have "?n \<notin> set ?xs" using B(7) by (auto simp: free_list_def shifts_def)
    ultimately show ?thesis by (cases ?xs) auto
  qed
  have "laid0 ?p (l @ (z + 8 + w, False) # r)"
    unfolding laid0_free using A(1,3,4) B(1-3,10) C' F fl' 1(4,5) 2(3,4) C by (auto simp: fields)
  moreover have "tidy r" "r = [] \<or> snd (List.hd r)" using t(2) by (auto simp: tidy_Cons)
  ultimately obtain p' cs' where p': "(case (if ?xs = [] then None else Some (List.last ?xs)) of None \<Rightarrow> Some ?p | Some q \<Rightarrow> slab_merge_prev q ?a ?p) = Some p'"
    "laid p' cs'" "pg_remain p' = pg_remain ?p" "\<forall>z0 r0. freed l z0 r0 (l @ (z + 8 + w, False) # r) \<longrightarrow> freed l z0 r0 cs'"
    using merge_back [OF _ t(1) _ _ refl] by blast
  have "slab_free_quick_merge ?a 0 p = Some (p', 0)"
    unfolding slab_free_quick_merge_def Let_def M k(1) bind.simps e
    using lt n(1-3) 1(1) 2(1) p'(1) by (simp add: prev M META_COLOR_ALLOC_def split del: if_split)
  moreover have "pg_remain p' = pg_remain p" using p'(3) 1(6) 2(5) by (simp add: same_head_def)
  ultimately show ?thesis using p'(2,4) freed_next by blast
qed

lemma seek_spec:
  assumes "free_list p (xs @ q # us @ ys)" "\<forall>x \<in> set us. x < a" "ys = [] \<or> a < List.hd ys"
  shows "slab_seek_loop a q p = Some (List.last (q # us))"
  using assms
proof (induction us arbitrary: xs q)
  case Nil
  obtain k where "meta_at p q = Some k" "m_next k = List.hd (ys @ [-1])" using free_list_node [OF Nil(1)] by auto
  then show ?case using Nil(3) by (subst slab_seek_loop.simps) (cases ys; auto)
next
  case (Cons u us)
  obtain k where k: "meta_at p q = Some k" "m_next k = u" using free_list_node [OF Cons.prems(1)] by auto
  have u: "0 < u" "u < a" using Cons.prems(1,2) by (auto simp: free_list_def shifts_def)
  have fl: "free_list p ((xs @ [q]) @ u # us @ ys)" using Cons.prems(1) by simp
  have "slab_seek_loop a u p = Some (List.last (u # us))" by (rule Cons.IH [OF fl]) (use Cons.prems in auto)
  then show ?case using k u by (subst slab_seek_loop.simps) simp
qed

lemma laid0_insert:
  \<comment> \<open>the block of a hole, once it is linked\<close>
  assumes H: "hole p l z r" and C: "fC p (24 + clen l) = Some 0"
    and p': "fS p' = fS p" "fC p' = fC p" "free_list p' (frees 24 l @ (24 + clen l) # frees (32 + clen l + z) r)"
      "\<And>x. x \<noteq> 24 + clen l \<Longrightarrow> x \<notin> set (frees 24 l @ frees (32 + clen l + z) r) \<Longrightarrow> fN p' x = fN p x \<and> fP p' x = fP p x"
      "pg_free p' = List.hd (frees 24 l @ (24 + clen l) # frees (32 + clen l + z) r @ [-1])"
  shows "laid0 p' (l @ (z, False) # r)"
proof -
  note A = hole_at [OF H]
  have "chunks p' 24 l \<and> chunks p' (32 + clen l + z) r"
    by (rule chunks_keep [OF A(1,2) _ A(7,8)]) (use p'(1,2,4) A(3) in auto)
  then show ?thesis unfolding laid0_free using A p' C by simp
qed

lemma tidy_insert:
  assumes "tidy l" "tidy r" "l = [] \<or> snd (List.last l)" "r = [] \<or> snd (List.hd r)"
  shows "tidy (l @ (z, False) # r)"
  using assms by (auto simp: tidy_append tidy_Cons)

lemma frees_Nil_used: "frees i l = [] \<Longrightarrow> l = [] \<or> snd (List.last l)"
  by (induction i l rule: frees.induct) (auto split: if_splits)

lemma insert_first:
  \<comment> \<open>no free block before the one that is freed\<close>
  assumes H: "hole p l z r" and C: "fC p (24 + clen l) = Some 0" and t: "tidy l" "tidy r" "r = [] \<or> snd (List.hd r)" and f: "frees 24 l = []"
  shows "\<exists>p'. slab_unlink_free (24 + clen l) p = Some p' \<and> laid p' (l @ (z, False) # r) \<and> pg_remain p' = pg_remain p"
proof -
  let ?a = "24 + clen l" and ?ys = "frees (32 + clen l + z) r"
  note A = hole_at [OF H]
  have M: "META_SHIFT ?a = ?a" using A by (intro META_SHIFT_id) simp_all
  have q: "slab_free_quick_merge ?a 0 p = Some (p, -1)" by (rule qm_none [OF A(6,8,1,3,2,5) t(3)])
  have T: "tidy (l @ (z, False) # r)" using frees_Nil_used [OF f] t by (intro tidy_insert) auto
  have fl: "free_list p ?ys" "pg_free p = List.hd (?ys @ [-1])" using A(9,10) f by simp_all
  then have sh: "shifts ?ys" "dl p (-1) ?ys (-1)" by (simp_all add: free_list_def)
  have off: "?a \<notin> set ?ys" "0 < ?a" "?a < 4096" using after [OF A(2), of ?a "32 + clen l + z"] A by auto
  have ne: "fS p ?a \<noteq> None" using A(6) by simp
  from set_links [OF this, where v = "List.hd (?ys @ [-1])" and u = "-1"] obtain p1 where 1: "upd_meta ?a (\<lambda>j. j\<lparr>m_next := List.hd (?ys @ [-1]), m_prev := -1\<rparr>) p = Some p1"
    "fN p1 = (fN p)(?a := Some (List.hd (?ys @ [-1])))" "fP p1 = (fP p)(?a := Some (-1))" "fS p1 = fS p" "fC p1 = fC p" "same_head p p1" by blast
  have comm: "(\<lambda>k. k\<lparr>m_prev := -1, m_next := v\<rparr>) = (\<lambda>k. k\<lparr>m_next := v, m_prev := -1\<rparr>)" for v by (rule ext) simp
  have e: "\<And>x. x \<in> set ?ys \<Longrightarrow> fP p1 x \<noteq> None" using dl_mem [OF sh(2)] 1(4) by (simp add: meta_dom)
  from set_P_first [OF e, of ?ys ?a] obtain p2 where 2: "(if ?ys \<noteq> [] then upd_meta (List.hd ?ys) (\<lambda>j. j\<lparr>m_prev := ?a\<rparr>) p1 else Some p1) = Some p2"
    "\<forall>x. fP p2 x = (if ?ys \<noteq> [] \<and> x = List.hd ?ys then Some ?a else fP p1 x)" "fN p2 = fN p1" "fS p2 = fS p1" "fC p2 = fC p1" "same_head p1 p2" by blast
  let ?p = "p2\<lparr>pg_free := ?a\<rparr>"
  have fields: "fS ?p = fS p2" "fC ?p = fC p2" "fN ?p = fN p2" "fP ?p = fP p2" by (auto simp: meta_fields meta_at_def fun_eq_iff)
  have run: "slab_unlink_free ?a p = Some ?p"
  proof (cases "?ys = []")
    case True
    then show ?thesis using q 1(1) 2(1) fl(2) by (simp add: slab_unlink_free_def M comm)
  next
    case False
    then have h: "List.hd ?ys \<in> set ?ys" by simp
    then have "0 < List.hd ?ys" "?a < List.hd ?ys" using after [OF A(2) h] sh(1) A(3) by (auto simp: shifts_def)
    then show ?thesis using False q 1(1) 2(1) fl(2) by (simp add: slab_unlink_free_def M comm)
  qed
  have "dl ?p ?a ?ys (-1)"
    by (rule dl_set_first [OF sh(2)]) (use sh(1) off(1) 1 2 in \<open>auto simp: fields shifts_def\<close>)
  moreover have "fP ?p ?a = Some (-1)" "fN ?p ?a = Some (List.hd (?ys @ [-1]))"
    using 1(2,3) 2(2,3) off(1) hd_in_set [of ?ys] by (auto simp: fields)
  ultimately have "free_list ?p (frees 24 l @ ?a # ?ys)" using sh(1) off f by (simp add: free_list_def shifts_Cons)
  moreover have "fN ?p x = fN p x \<and> fP ?p x = fP p x" if "x \<noteq> ?a" "x \<notin> set (frees 24 l @ ?ys)" for x
  proof -
    have "?ys \<noteq> [] \<Longrightarrow> x \<noteq> List.hd ?ys" using that hd_in_set [of ?ys] by auto
    then show ?thesis using that 1(2,3) 2(2,3) by (auto simp: fields)
  qed
  ultimately have "laid0 ?p (l @ (z, False) # r)"
    by (intro laid0_insert [OF H C]) (use 1(4,5) 2(4,5) f in \<open>simp_all add: fields\<close>)
  moreover have "pg_remain ?p = pg_remain p" using 1(6) 2(6) by (simp add: same_head_def)
  ultimately show ?thesis using run T by (auto simp: laid_iff)
qed

lemma last_free:
  assumes "frees 24 l \<noteq> []"
  shows "\<exists>l1 w l2. l = l1 @ (w, False) # l2 \<and> frees (32 + clen l1 + w) l2 = [] \<and> List.last (frees 24 l) = 24 + clen l1
    \<and> frees 24 l = frees 24 l1 @ [24 + clen l1]"
proof -
  have nf: "(\<forall>c \<in> set k. snd c) \<Longrightarrow> frees i k = []" for i k by (induction i k rule: frees.induct) auto
  have "\<exists>c \<in> set l. \<not> snd c" using nf assms by blast
  then obtain l1 c l2 where c: "l = l1 @ c # l2" "\<not> snd c" "\<forall>d \<in> set l2. snd d"
    using split_list_last_prop [of l "\<lambda>c. \<not> snd c"] by auto
  then obtain w where w: "c = (w, False)" by (cases c) auto
  have "24 + clen l1 + 8 + w = 32 + clen l1 + w" by simp
  then have fr: "frees 24 l = frees 24 l1 @ (24 + clen l1) # frees (32 + clen l1 + w) l2"
    unfolding c(1) w frees_append frees.simps by simp
  have z: "frees (32 + clen l1 + w) l2 = []" by (rule nf [OF c(3)])
  have "List.last (frees 24 l) = 24 + clen l1" "frees 24 l = frees 24 l1 @ [24 + clen l1]" unfolding fr z by simp_all
  then show ?thesis using c(1) w z by blast
qed

lemma qm_hole:
  \<comment> \<open>a free block takes in the one behind it, which is not linked\<close>
  assumes H: "hole p (l @ [(w, False)]) z r" and C: "fC p (32 + clen l + w) = Some 0" "fP p (32 + clen l + w) = Some (-1)"
  shows "\<exists>p'. slab_free_quick_merge (24 + clen l) (-1) p = Some (p', 0) \<and> laid0 p' (l @ (w + 8 + z, False) # r) \<and> pg_remain p' = pg_remain p"
proof -
  let ?q = "24 + clen l" and ?a = "32 + clen l + w" and ?i = "32 + clen l + (w + 8 + z)"
  have len: "24 + clen (l @ [(w, False)]) = ?a" by simp
  have i: "32 + clen (l @ [(w, False)]) + z = ?i" by simp
  note A = hole_at [OF H, unfolded i len frees_last_free chunks_append, simplified]
  have B: "sizes l" "0 \<le> w" "8 dvd w" "fS p ?q = Some w" "fC p ?q = Some 0" "chunks p 24 l" "0 \<le> clen l" "fS p ?a = Some z" "chunks p ?i r"
    "free_list p (frees 24 l @ ?q # frees ?i r)" "pg_free p = List.hd (frees 24 l @ ?q # frees ?i r @ [-1])" "sizes r" "0 \<le> z" "8 dvd z"
    "?i + clen r = 4096" "0 \<le> clen r"
    using hole_at [OF H] clen_nonneg [of l] unfolding i len frees_last_free chunks_append by simp_all
  have M: "META_SHIFT ?q = ?q" using B by (intro META_SHIFT_id) simp_all
  obtain j where j: "meta_at p ?q = Some j" "m_size j = w" using B(4) unfolding meta_field_Some by blast
  obtain n where n: "meta_at p ?a = Some n" "m_size n = z" "m_color n = 0" "m_prev n = -1" using B(8) C unfolding meta_field_Some by auto
  have e: "?q + META_SIZE + m_size j = ?a" using j(2) by simp
  have lt: "?a < PAGE_SIZE" using B by (simp add: PAGE_SIZE_def)
  have ov: "i16 (w + (z + 8)) = w + 8 + z" using B by (subst i16_id) simp_all
  from set_S [OF B(4), of "\<lambda>s. i16 (s + (z + 8))"] obtain p1 where 1: "upd_meta ?q (\<lambda>j. j\<lparr>m_size := i16 (m_size j + (z + 8))\<rparr>) p = Some p1"
    "fN p1 = fN p" "fP p1 = fP p" "fS p1 = (fS p)(?q := Some (w + 8 + z))" "fC p1 = fC p" "same_head p p1" unfolding ov by blast
  have run: "slab_free_quick_merge ?q (-1) p = Some (p1, 0)"
    unfolding slab_free_quick_merge_def Let_def M j(1) bind.simps e using lt n 1(1) by (simp add: META_COLOR_ALLOC_def)
  have "dl p1 (-1) (frees 24 l @ ?q # frees ?i r) (-1) = dl p (-1) (frees 24 l @ ?q # frees ?i r) (-1)" by (rule dl_cong) (simp add: 1(2,3))
  then have fl: "free_list p1 (frees 24 l @ ?q # frees ?i r)" using B(10) by (simp add: free_list_def)
  have ch: "chunks p1 24 l \<and> chunks p1 ?i r"
    by (rule chunks_keep [OF B(1,12) _ B(6,9)]) (use 1 B(2,13) in auto)
  have "pg_free p1 = pg_free p" "pg_remain p1 = pg_remain p" using 1(6) by (simp_all add: same_head_def)
  then have "laid0 p1 (l @ (w + 8 + z, False) # r)" unfolding laid0_free using B fl ch 1(4,5) by auto
  then show ?thesis using run \<open>pg_remain p1 = pg_remain p\<close> by blast
qed

lemma insert_later:
  \<comment> \<open>after the last free block before the one that is freed\<close>
  assumes H: "hole p l z r" and C: "fC p (24 + clen l) = Some 0" "fN p (24 + clen l) = Some (-1)" "fP p (24 + clen l) = Some (-1)"
    and t: "tidy l" "tidy r" "r = [] \<or> snd (List.hd r)" and f: "frees 24 l \<noteq> []"
  shows "\<exists>p' cs'. slab_unlink_free (24 + clen l) p = Some p' \<and> laid p' cs' \<and> pg_remain p' = pg_remain p \<and> freed l z r cs'"
proof -
  let ?a = "24 + clen l" and ?ys = "frees (32 + clen l + z) r"
  note A = hole_at [OF H]
  have M: "META_SHIFT ?a = ?a" using A by (intro META_SHIFT_id) simp_all
  have qm: "slab_free_quick_merge ?a 0 p = Some (p, -1)" by (rule qm_none [OF A(6,8,1,3,2,5) t(3)])
  obtain l1 w l2 where l: "l = l1 @ (w, False) # l2" "frees (32 + clen l1 + w) l2 = []" "List.last (frees 24 l) = 24 + clen l1"
    "frees 24 l = frees 24 l1 @ [24 + clen l1]" using last_free [OF f] by blast
  let ?q = "24 + clen l1" and ?xs = "frees 24 l1"
  have ys: "?ys = [] \<or> ?a < List.hd ?ys"
  proof (cases "?ys = []")
    case False
    then show ?thesis using after [OF A(2) hd_in_set [OF False]] A(3) by simp
  qed simp
  have below: "x \<in> set (frees 24 l) \<Longrightarrow> x < ?a" for x using between [OF A(1), of x] by simp
  have sl: "free_list p (frees 24 l @ ?ys)" using A(9) .
  obtain h us where h: "frees 24 l = h # us" using f by (cases "frees 24 l") auto
  have hp: "pg_free p = h" "0 < h" "h < ?a" using A(10) h below [of h] sl by (auto simp: free_list_def shifts_def)
  have "slab_seek_loop ?a h p = Some (List.last (h # us))"
    by (rule seek_spec [of p "[]" h us ?ys]) (use sl h below ys in auto)
  then have seek: "slab_seek_loop ?a h p = Some ?q" using l(3) h by simp
  have go: "slab_unlink_free ?a p = do { (p, r) \<leftarrow> slab_free_quick_merge ?q (-1) p; if r \<noteq> 0 then slab_free_insert (Some ?q) (Some ?a) p else Some p }"
    using qm hp seek by (simp add: slab_unlink_free_def M)
  show ?thesis
  proof (cases l2)
    case Nil
    then have l': "l = l1 @ [(w, False)]" "?a = 32 + clen l1 + w" using l(1) by simp_all
    have "hole p (l1 @ [(w, False)]) z r" using H l'(1) by simp
    from qm_hole [OF this] C l'(2) obtain p' where p': "slab_free_quick_merge ?q (-1) p = Some (p', 0)" "laid0 p' (l1 @ (w + 8 + z, False) # r)"
      "pg_remain p' = pg_remain p" by auto
    have "tidy (l1 @ (w + 8 + z, False) # r)" using t l'(1) by (auto simp: tidy_append tidy_Cons)
    then have "laid p' (l1 @ (w + 8 + z, False) # r)" using p'(2) by (simp add: laid_iff)
    moreover have "freed l z r (l1 @ (w + 8 + z, False) # r)" using freed_mid [of l z r] by (intro freed_prev) (simp add: l'(1))
    ultimately show ?thesis using go p'(1,3) by auto
  next
    case (Cons c l3)
    have c: "snd c" using t(1) unfolding l(1) Cons by (auto simp: tidy_append tidy_Cons)
    have last: "snd (List.last l)" using frees_Nil_used [OF l(2)] Cons unfolding l(1) by simp
    let ?r = "l2 @ (z, False) # r"
    have e: "24 + clen l + 8 + z = 32 + clen l + z" "24 + clen l1 + 8 + w = 32 + clen l1 + w" by simp_all
    have "chunks p 24 (l @ (z, False) # r)" unfolding chunks_append chunks.simps e using A C by simp
    then have "chunks p 24 (l1 @ (w, False) # ?r)" using l(1) by simp
    then have ch: "fS p ?q = Some w" "chunks p (32 + clen l1 + w) ?r" unfolding chunks_append chunks.simps e by simp_all
    have S: "sizes l1" "0 \<le> w" "sizes l2" "clen l = clen l1 + 8 + w + clen l2" using A(1) unfolding l(1) by simp_all
    have "slab_free_quick_merge ?q (-1) p = Some (p, -1)"
    proof (rule qm_none [OF ch S(1,2)])
      show "sizes ?r" using S(3) A(2,3,4) by simp
      show "32 + clen l1 + w + clen ?r = 4096" using A(5) S(4) by simp
      show "?r = [] \<or> snd (List.hd ?r)" using Cons c by simp
    qed
    then have go2: "slab_unlink_free ?a p = slab_free_insert (Some ?q) (Some ?a) p" using go by simp
    have fl: "free_list p (?xs @ ?q # ?ys)" using sl l(4) by simp
    have "x \<in> set (?xs @ ?q # ?ys) \<Longrightarrow> x \<noteq> ?a" for x
      using below [of x] after [OF A(2), of x "32 + clen l + z"] A(3) l(4) by auto
    then have off: "?a \<notin> set (?xs @ ?q # ?ys)" by blast
    have "0 < ?a" "?a < 4096" using A by simp_all
    from free_insert_spec [OF fl off this C(2)] obtain p' where p': "slab_free_insert (Some ?q) (Some ?a) p = Some p'"
      "free_list p' (?xs @ ?q # ?a # ?ys)" "fS p' = fS p" "fC p' = fC p" "same_head p p'"
      "\<forall>c. c \<in> set (?xs @ ?q # ?a # ?ys) \<or> fN p' c = fN p c \<and> fP p' c = fP p c" by blast
    have "laid0 p' (l @ (z, False) # r)"
    proof (rule laid0_insert [OF H C(1) p'(3,4)])
      show "free_list p' (frees 24 l @ ?a # ?ys)" using p'(2) l(4) by simp
      show "fN p' x = fN p x \<and> fP p' x = fP p x" if "x \<noteq> ?a" "x \<notin> set (frees 24 l @ ?ys)" for x
        using p'(6) that l(4) by auto
      show "pg_free p' = List.hd (frees 24 l @ ?a # ?ys @ [-1])" using p'(5) hp h by (simp add: same_head_def)
    qed
    moreover have "tidy (l @ (z, False) # r)" using t last by (intro tidy_insert) auto
    ultimately have "laid p' (l @ (z, False) # r)" by (simp add: laid_iff)
    moreover have "pg_remain p' = pg_remain p" using p'(5) by (simp add: same_head_def)
    ultimately show ?thesis using go2 p'(1) freed_mid by auto
  qed
qed

lemma unlink_free_spec:
  assumes H: "hole p l z r" and C: "fC p (24 + clen l) = Some 0" "fN p (24 + clen l) = Some (-1)" "fP p (24 + clen l) = Some (-1)"
    and t: "tidy l" "tidy r"
  shows "\<exists>p' cs'. slab_unlink_free (24 + clen l) p = Some p' \<and> laid p' cs' \<and> pg_remain p' = pg_remain p \<and> freed l z r cs'"
proof (cases "r = [] \<or> snd (List.hd r)")
  case True
  show ?thesis
  proof (cases "frees 24 l = []")
    case f: True
    then show ?thesis using insert_first [OF H C(1) t True] freed_mid by blast
  next
    case False
    show ?thesis by (rule insert_later [OF H C t True False])
  qed
next
  case False
  then obtain c r' where "r = c # r'" "\<not> snd c" by (cases r) auto
  then obtain w where r: "r = (w, False) # r'" by (cases c) auto
  obtain p' cs' where "slab_free_quick_merge (24 + clen l) 0 p = Some (p', 0)" "laid p' cs'" "pg_remain p' = pg_remain p" "freed l z r cs'"
    using qm_next [OF H [unfolded r] C(1) t(1) t(2) [unfolded r]] r by blast
  then show ?thesis by (auto simp: slab_unlink_free_def)
qed

section \<open>The lists of pages\<close>

definition heads :: "ptr set" where "heads = {g_slab_minor, g_slab_common, g_alloc_slab_minor, g_alloc_slab_common}"

lemmas head_defs = g_slab_minor_def g_slab_common_def g_alloc_slab_minor_def g_alloc_slab_common_def

definition lists_ok :: "links \<Rightarrow> (ptr \<Rightarrow> ptr list) \<Rightarrow> bool" where
  \<comment> \<open>\<open>f\<close>: the pages of each list\<close>
  "lists_ok m f \<longleftrightarrow> (\<forall>h \<in> heads. circ m h (f h)) \<and> (\<forall>h \<in> heads. set (f h) \<inter> heads = {})
     \<and> (\<forall>h \<in> heads. \<forall>h' \<in> heads. h \<noteq> h' \<longrightarrow> set (f h) \<inter> set (f h') = {})"

definition listed :: "(ptr \<Rightarrow> ptr list) \<Rightarrow> ptr set" where "listed f = (\<Union>h \<in> heads. set (f h))"

lemma heads_mem [simp]:
  "g_slab_minor \<in> heads" "g_slab_common \<in> heads" "g_alloc_slab_minor \<in> heads" "g_alloc_slab_common \<in> heads"
  by (simp_all add: heads_def)

lemma lists_change:
  \<comment> \<open>one list changes, the nodes of the others do not\<close>
  assumes L: "lists_ok m f" and h: "h \<in> heads" and c: "circ m' h xs" and a: "agree m m' A" "A \<subseteq> insert x (set (h # f h))"
    and x: "x \<notin> heads" "\<forall>h' \<in> heads. h' \<noteq> h \<longrightarrow> x \<notin> set (f h')" and xs: "set xs \<subseteq> insert x (set (f h))"
  shows "lists_ok m' (f(h := xs))"
proof -
  have other: "circ m' h' (f h')" if "h' \<in> heads" "h' \<noteq> h" for h'
  proof (rule circ_frame [OF _ a(1)])
    show "circ m h' (f h')" using L that by (simp add: lists_ok_def)
    have "h' \<notin> A" using a(2) x(1) L h that by (auto simp: lists_ok_def)
    moreover have "set (f h') \<inter> A = {}"
    proof -
      have "set (f h') \<inter> set (f h) = {}" "h \<notin> set (f h')" "x \<notin> set (f h')" using L h that x(2) unfolding lists_ok_def by blast+
      then show ?thesis using a(2) by auto
    qed
    ultimately show "A \<inter> set (h' # f h') = {}" by auto
  qed
  have "set xs \<inter> heads = {}" using xs x(1) L h by (auto simp: lists_ok_def)
  moreover have "set xs \<inter> set (f h') = {}" if "h' \<in> heads" "h' \<noteq> h" for h'
  proof -
    have "set (f h) \<inter> set (f h') = {}" "x \<notin> set (f h')" using L h that x(2) by (auto simp: lists_ok_def)
    then show ?thesis using xs by blast
  qed
  ultimately show ?thesis using c other L by (auto simp: lists_ok_def)
qed

lemma lists_add:
  assumes L: "lists_ok m f" and h: "h \<in> heads" and x: "x \<notin> heads" "x \<notin> listed f" "m x \<noteq> None"
  shows "\<exists>m' f'. list_add x h m = Some m' \<and> lists_ok m' f' \<and> listed f' = insert x (listed f) \<and> dom m' = dom m \<and> x \<in> set (f' h)"
proof -
  have c: "circ m h (f h)" "x \<notin> set (h # f h)" using L h x by (auto simp: lists_ok_def listed_def)
  from list_add_circ [OF c x(3)] obtain m' where m': "list_add x h m = Some m'" "circ m' h (x # f h)" "agree m m' (set (x # h # f h))" "dom m' = dom m"
    by blast
  have "lists_ok m' (f(h := x # f h))" by (rule lists_change [OF L h m'(2,3)]) (use x in \<open>auto simp: listed_def\<close>)
  moreover have "listed (f(h := x # f h)) = insert x (listed f)" using h by (auto simp: listed_def split: if_splits)
  ultimately show ?thesis using m'(1,4) by (intro exI [of _ m'] exI [of _ "f(h := x # f h)"]) simp
qed

lemma lists_del:
  assumes L: "lists_ok m f" and x: "x \<in> listed f"
  shows "\<exists>m' f'. list_del x m = Some m' \<and> lists_ok m' f' \<and> listed f' = listed f - {x} \<and> dom m' = dom m \<and> m' x \<noteq> None \<and> x \<notin> heads"
proof -
  obtain h where h: "h \<in> heads" "x \<in> set (f h)" using x by (auto simp: listed_def)
  obtain l r where lr: "f h = l @ x # r" using split_list [OF h(2)] by blast
  have c: "circ m h (l @ x # r)" using L h(1) lr by (metis lists_ok_def)
  from list_del_circ [OF c] obtain m' where m': "list_del x m = Some m'" "circ m' h (l @ r)" "agree m m' (set (h # l @ x # r))" "dom m' = dom m" by blast
  have nh: "x \<notin> heads" using L h by (auto simp: lists_ok_def)
  have other: "x \<notin> set (f h')" if "h' \<in> heads" "h' \<noteq> h" for h' using L h that unfolding lists_ok_def by blast
  have "lists_ok m' (f(h := l @ r))" by (rule lists_change [OF L h(1) m'(2,3)]) (use nh other lr in auto)
  moreover have "listed (f(h := l @ r)) = listed f - {x}"
  proof -
    have "x \<notin> set (l @ r)" using c by (auto simp: circ_def)
    then have "set (l @ r) = set (f h) - {x}" using lr by auto
    moreover have "listed (f(h := l @ r)) = set (l @ r) \<union> (\<Union>h' \<in> heads - {h}. set (f h'))"
      using h(1) by (auto simp: listed_def split: if_splits)
    moreover have "listed f = set (f h) \<union> (\<Union>h' \<in> heads - {h}. set (f h'))" using h(1) by (auto simp: listed_def)
    ultimately show ?thesis using other by auto
  qed
  moreover have "m' x \<noteq> None" using circ_dom [OF c, of x] dom_None [OF m'(4)] by simp
  ultimately show ?thesis using m'(1,4) nh by blast
qed

definition in_lists :: "slab \<Rightarrow> ptr set \<Rightarrow> bool" where "in_lists s Q \<longleftrightarrow> (\<exists>f. lists_ok (sb_links s) f \<and> listed f = Q)"

lemma relist:
  assumes "in_lists s Q" "pg \<in> Q" "h \<in> heads"
  shows "\<exists>s1 s2. upd_links (list_del pg) s = Some s1 \<and> upd_links (list_add pg h) s1 = Some s2 \<and> in_lists s2 Q \<and> sb_pages s2 = sb_pages s"
proof -
  obtain f where f: "lists_ok (sb_links s) f" "listed f = Q" using assms(1) by (auto simp: in_lists_def)
  obtain m1 f1 where 1: "list_del pg (sb_links s) = Some m1" "lists_ok m1 f1" "listed f1 = Q - {pg}" "m1 pg \<noteq> None" "pg \<notin> heads"
    using lists_del [OF f(1)] f(2) assms(2) by blast
  obtain m2 f2 where 2: "list_add pg h m1 = Some m2" "lists_ok m2 f2" "listed f2 = insert pg (Q - {pg})"
    using lists_add [OF 1(2) assms(3) 1(5) _ 1(4)] 1(3) by blast
  have "insert pg (Q - {pg}) = Q" using assms(2) by blast
  then show ?thesis using 1(1) 2 by (auto simp: upd_links_def in_lists_def)
qed

lemma page_erase_ok:
  assumes "in_lists s Q" "pg \<in> Q" "sb_pages s pg = Some p"
  shows "\<exists>s'. slab_page_erase pg h s = Some s' \<and> in_lists s' Q \<and> sb_pages s' = sb_pages s"
proof -
  obtain s1 s2 where 1: "upd_links (list_del pg) s = Some s1" "upd_links (list_add pg g_alloc_slab_minor) s1 = Some s2" "in_lists s2 Q" "sb_pages s2 = sb_pages s"
    using relist [OF assms(1,2), of g_alloc_slab_minor] by auto
  obtain s3 s4 where 3: "upd_links (list_del pg) s = Some s3" "upd_links (list_add pg g_alloc_slab_common) s3 = Some s4" "in_lists s4 Q" "sb_pages s4 = sb_pages s"
    using relist [OF assms(1,2), of g_alloc_slab_common] by auto
  show ?thesis using 1 3 assms unfolding slab_page_erase_def by simp
qed

lemma page_insert_ok:
  assumes "in_lists s Q" "pg \<in> Q" "sb_pages s pg = Some p" "meta_at p a = Some k"
  shows "\<exists>s'. slab_page_insert pg a s = Some s' \<and> in_lists s' Q \<and> sb_pages s' = sb_pages s"
proof -
  let ?h = "slab_free_page (m_size k mod 2 ^ 64)"
  have "?h = g_slab_minor \<or> ?h = g_slab_common \<Longrightarrow> ?h \<in> heads" by (auto simp: heads_def)
  then show ?thesis using relist [OF assms(1,2), of ?h] assms unfolding slab_page_insert_def Let_def by auto
qed

section \<open>The whole allocator\<close>

definition slab_ok :: "slab \<Rightarrow> (ptr \<rightharpoonup> chunk list) \<Rightarrow> bool" where
  \<comment> \<open>\<open>cm\<close>: how each page is cut\<close>
  "slab_ok s cm \<longleftrightarrow> in_lists s (dom cm) \<and> dom (sb_pages s) = dom cm \<and> (\<forall>pg cs. cm pg = Some cs \<longrightarrow>
     pg \<noteq> NULL \<and> 4096 dvd pg \<and> used 24 cs \<noteq> [] \<and> (\<exists>p. sb_pages s pg = Some p \<and> page_ok p cs))"

definition blocks :: "(ptr \<rightharpoonup> chunk list) \<Rightarrow> (ptr \<times> int) set" where
  \<comment> \<open>what the client holds: addresses and sizes\<close>
  "blocks cm = {(pg + nat x + 8, z) | pg cs x z. cm pg = Some cs \<and> (x, z) \<in> set (used 24 cs)}"

lemma used_split: "(x, z) \<in> set (used i cs) \<Longrightarrow> \<exists>l r. cs = l @ (z, True) # r \<and> x = i + clen l"
proof (induction i cs rule: used.induct)
  case (2 i w u cs)
  show ?case
  proof (cases "u \<and> (x, z) = (i, w)")
    case True
    then show ?thesis by (intro exI [of _ "[]"] exI [of _ cs]) simp
  next
    case False
    then have "(x, z) \<in> set (used (i + 8 + w) cs)" using 2(2) by (auto split: if_splits)
    then obtain l r where "cs = l @ (z, True) # r" "x = i + 8 + w + clen l" using 2(1) by blast
    then show ?thesis by (intro exI [of _ "(w, u) # l"] exI [of _ r]) simp
  qed
qed simp

lemma used_mid: "used 24 (l @ (z, True) # r) = used 24 l @ (24 + clen l, z) # used (32 + clen l + z) r"
proof -
  have "24 + clen l + 8 + z = 32 + clen l + z" by simp
  then show ?thesis by (simp only: used_append used.simps if_True append.simps)
qed

lemma used_outside:
  assumes "sizes l" "sizes r" "0 \<le> z" "24 + clen l \<le> x" "x < 32 + clen l + z"
  shows "(x, v) \<notin> set (used 24 l) \<and> (x, v) \<notin> set (used (32 + clen l + z) r)"
  using used_range [OF assms(1), of x v 24] used_range [OF assms(2), of x v "32 + clen l + z"] assms(3-5) by auto

lemma fsum_used: "sizes cs \<Longrightarrow> fsum cs \<le> clen cs \<and> (fsum cs = clen cs \<longleftrightarrow> used i cs = [])"
  by (induction i cs rule: used.induct) (fastforce split: if_splits)+

lemma page_ok_bounds:
  assumes "page_ok p cs"
  shows "sizes cs" "clen cs = 4072" "0 \<le> pg_remain p" "pg_remain p \<le> 4072" "pg_remain p = fsum cs"
  using assms fsum_used [of cs 24] fsum_nonneg [of cs] by (auto simp: page_ok_def laid_def)

lemma fields_remain [simp]:
  "fS (p\<lparr>pg_remain := v\<rparr>) = fS p" "fC (p\<lparr>pg_remain := v\<rparr>) = fC p" "fN (p\<lparr>pg_remain := v\<rparr>) = fN p" "fP (p\<lparr>pg_remain := v\<rparr>) = fP p"
  "meta_at (p\<lparr>pg_remain := v\<rparr>) = meta_at p"
  by (auto simp: meta_fields meta_at_def fun_eq_iff)

lemma alloc_page_none:
  assumes "sb_pages s pg = Some p" "page_ok p cs" "\<forall>(z, u) \<in> set cs. u \<or> z < sz"
  shows "slab_alloc_page pg h sz s = Some (s, NULL)"
proof -
  have "(sb_pages s)(pg \<mapsto> p) = sb_pages s" using assms(1) by auto
  then have "s\<lparr>sb_pages := (sb_pages s)(pg \<mapsto> p)\<rparr> = s" by simp
  then show ?thesis using assms fit_none [of p cs sz] by (simp add: slab_alloc_page_def page_ok_def)
qed

lemma alloc_page_some:
  assumes s: "sb_pages s pg = Some p" "page_ok p cs" "in_lists s Q" "pg \<in> Q"
    and ex: "\<exists>(z, u) \<in> set cs. \<not> u \<and> sz \<le> z" and sz: "0 \<le> sz" "8 dvd sz"
  shows "\<exists>s' p' cs' x z. slab_alloc_page pg h sz s = Some (s', pg + nat x + 8) \<and> in_lists s' Q \<and> sb_pages s' = (sb_pages s)(pg \<mapsto> p')
    \<and> page_ok p' cs' \<and> sz \<le> z \<and> (x, z) \<notin> set (used 24 cs) \<and> set (used 24 cs') = insert (x, z) (set (used 24 cs)) \<and> 24 \<le> x"
proof -
  have P: "laid p cs" "pg_remain p = fsum cs" "sizes cs" "clen cs = 4072" "pg_remain p \<le> 4072"
    using page_ok_bounds [OF s(2)] s(2) by (simp_all add: page_ok_def)
  obtain l w r z r' p1 where F: "cs = l @ (w, False) # r" "slab_fit_loop sz (pg_free p) p = Some (p1, Some (24 + clen l))" "hole p1 l z r'"
    "fC p1 (24 + clen l) = Some 0" "pg_remain p1 = pg_remain p" "sz \<le> z" "sz \<le> w" "tidy l" "tidy r'"
    "used (32 + clen l + z) r' = used (32 + clen l + w) r" "fsum r' + 8 + z = fsum r + 8 + w"
    using fit_some [OF P(1) ex sz] by blast
  let ?x = "24 + clen l"
  note A = hole_at [OF F(3)]
  have nn: "0 \<le> clen l" "0 \<le> fsum l" "0 \<le> fsum r'" "sizes r" "0 \<le> w" using A(1,2,11) P(3) F(1) by (simp_all add: fsum_nonneg)
  note L = laid_at [OF P(1) [unfolded F(1)], simplified]
  have pos: "pg_free p > 0"
  proof -
    have "pg_free p \<in> set (frees 24 l @ [?x])" using L(6) by (cases "frees 24 l") auto
    then show ?thesis using L(5) by (auto simp: free_list_def shifts_def)
  qed
  have rem: "pg_remain p = fsum l + (fsum r + 8 + w)" using P(2) F(1) by simp
  then have room: "pg_remain p \<ge> sz + 8" using nn fsum_nonneg [OF nn(4)] F(7) by simp
  from set_C [OF F(4), of "\<lambda>c. c OR META_COLOR_ALLOC"] obtain p2 where 2: "upd_meta ?x (\<lambda>k. k\<lparr>m_color := m_color k OR META_COLOR_ALLOC\<rparr>) p1 = Some p2"
    "fN p2 = fN p1" "fP p2 = fP p1" "fS p2 = fS p1" "fC p2 = (fC p1)(?x := Some 1)" "same_head p1 p2" by (auto simp: META_COLOR_ALLOC_def)
  have "fS p2 ?x \<noteq> None" using A(6) 2(4) by simp
  from set_links [OF this, where v = "-1" and u = "-1"] obtain p3 where 3: "upd_meta ?x (\<lambda>k. k\<lparr>m_next := -1, m_prev := -1\<rparr>) p2 = Some p3"
    "fN p3 = (fN p2)(?x := Some (-1))" "fP p3 = (fP p2)(?x := Some (-1))" "fS p3 = fS p2" "fC p3 = fC p2" "same_head p2 p3" by blast
  have "fS p3 ?x = Some z" using A(6) 2(4) 3(4) by simp
  then obtain k where k: "meta_at p3 ?x = Some k" "m_size k = z" unfolding meta_field_Some by blast
  let ?p = "p3\<lparr>pg_remain := i16 (pg_remain p3 - (8 + m_size k))\<rparr>"
  let ?cs = "l @ (z, True) # r'"
  have "laid ?p ?cs"
    by (rule fill_hole [OF F(3,8,9)]) (use 2 3 in \<open>simp_all add: same_head_def\<close>)
  moreover have "pg_remain ?p = fsum ?cs"
  proof -
    have "pg_remain p3 - (8 + z) = fsum ?cs" using 2(6) 3(6) F(5,11) rem by (simp add: same_head_def)
    moreover have "fsum ?cs \<le> 4072" "0 \<le> fsum ?cs" using P(5) rem F(11) A(3) nn by simp_all
    ultimately show ?thesis using k(2) i16_id [of "fsum ?cs"] by simp
  qed
  ultimately have ok: "page_ok ?p ?cs" by (simp add: page_ok_def)
  let ?s = "s\<lparr>sb_pages := (sb_pages s)(pg \<mapsto> ?p)\<rparr>"
  have "in_lists ?s Q" using s(3) by (simp add: in_lists_def)
  moreover have "sb_pages ?s pg = Some ?p" by simp
  ultimately obtain s' where s': "slab_page_erase pg h ?s = Some s'" "in_lists s' Q" "sb_pages s' = sb_pages ?s"
    using page_erase_ok [OF _ s(4)] by blast
  have "slab_alloc_page pg h sz s = Some (s', pg + nat ?x + 8)"
    using pos room s(1) F(2) 2(1) 3(1) k s'(1) by (simp add: slab_alloc_page_def)
  moreover have "(?x, z) \<notin> set (used 24 cs)"
    unfolding F(1) using used_outside [OF A(1) nn(4,5), of ?x z] nn(5) by (simp add: used_append add.commute add.left_commute)
  moreover have "set (used 24 ?cs) = insert (?x, z) (set (used 24 cs))"
  proof -
    have "24 + clen l + 8 + w = 32 + clen l + w" by simp
    then have "used 24 cs = used 24 l @ used (32 + clen l + w) r" unfolding F(1) used_append used.simps by simp
    then show ?thesis unfolding used_mid F(10) by auto
  qed
  moreover have "24 \<le> ?x" using nn(1) by simp
  ultimately show ?thesis using s'(2,3) ok F(6)
    by (intro exI [of _ s'] exI [of _ ?p] exI [of _ ?cs] exI [of _ ?x] exI [of _ z]) simp
qed

lemma slab_ok_page:
  assumes "slab_ok s cm" "pg \<in> dom cm"
  shows "\<exists>cs p. cm pg = Some cs \<and> sb_pages s pg = Some p \<and> page_ok p cs \<and> 4096 dvd pg \<and> pg \<noteq> NULL"
  using assms unfolding slab_ok_def by blast

lemma slab_ok_upd:
  assumes "slab_ok s cm" "in_lists s' (insert pg (dom cm))" "sb_pages s' = (sb_pages s)(pg \<mapsto> p)" "page_ok p cs" "used 24 cs \<noteq> []" "4096 dvd pg" "pg \<noteq> NULL"
  shows "slab_ok s' (cm(pg \<mapsto> cs))"
  using assms by (auto simp: slab_ok_def)

lemma pages_loop:
  assumes "\<forall>pg \<in> set ps. \<exists>p cs. cm pg = Some cs \<and> sb_pages s pg = Some p \<and> page_ok p cs" "lseg (sb_links s) a ps h" "h \<notin> set ps" "nxt (sb_links s) a = Some q"
    and "\<And>pg p cs. pg \<in> set ps \<Longrightarrow> cm pg = Some cs \<Longrightarrow> sb_pages s pg = Some p \<Longrightarrow> page_ok p cs \<Longrightarrow> \<exists>(z, u) \<in> set cs. \<not> u \<and> sz \<le> z \<Longrightarrow>
      \<exists>s' r. slab_alloc_page pg h sz s = Some (s', r) \<and> r \<noteq> NULL \<and> R s' r"
  shows "slab_pages_loop q h sz s = Some (s, NULL) \<or> (\<exists>s' r. slab_pages_loop q h sz s = Some (s', r) \<and> r \<noteq> NULL \<and> R s' r)"
  using assms
proof (induction ps arbitrary: a q)
  case Nil
  then show ?case by (subst slab_pages_loop.simps) simp
next
  case (Cons pg ps)
  have q: "q = pg" "lseg (sb_links s) pg ps h" "pg \<noteq> h" using Cons.prems(2-4) by auto
  obtain p cs where p: "cm pg = Some cs" "sb_pages s pg = Some p" "page_ok p cs" using Cons.prems(1) by auto
  show ?case
  proof (cases "\<exists>(z, u) \<in> set cs. \<not> u \<and> sz \<le> z")
    case True
    from Cons.prems(5) [OF _ p True] obtain s' r where "slab_alloc_page pg h sz s = Some (s', r)" "r \<noteq> NULL" "R s' r" by auto
    then show ?thesis using q by (subst (2) slab_pages_loop.simps) auto
  next
    case False
    then have none: "slab_alloc_page pg h sz s = Some (s, NULL)" using alloc_page_none [OF p(2,3), of sz h] by force
    have "\<exists>q'. nxt (sb_links s) pg = Some q'" using lseg_first [OF q(2)] by blast
    then obtain k where k: "sb_links s pg = Some k" by (auto simp: nxt_Some)
    then have go: "slab_pages_loop q h sz s = slab_pages_loop (lh_next k) h sz s"
      using q none by (subst slab_pages_loop.simps) simp
    have "nxt (sb_links s) pg = Some (lh_next k)" using k by (simp add: nxt_def)
    from Cons.IH [OF _ q(2) _ this] show ?thesis unfolding go using Cons.prems(1,3,5) by simp
  qed
qed

lemma aligned:
  assumes "sz \<noteq> 0" "unat sz \<le> 1024"
  shows "0 \<le> uint (SLAB_ALIGN sz)" "8 dvd uint (SLAB_ALIGN sz)" "uint sz \<le> uint (SLAB_ALIGN sz)" "uint (SLAB_ALIGN sz) \<le> 1024"
proof -
  have u: "unat (sz + 7) = unat sz + 7" using assms(2) by (simp add: unat_word_ariths)
  have d: "unat (drop_bit 3 (sz + 7)) = (unat sz + 7) div 8" unfolding unsigned_drop_bit_eq u
    using assms(2) by (simp add: drop_bit_eq_div take_bit_eq_mod)
  have "(unat sz + 7) div 8 * 8 < 2 ^ 64" using assms(2) by simp
  then have a: "unat (SLAB_ALIGN sz) = (unat sz + 7) div 8 * 8"
    unfolding SLAB_ALIGN_def unsigned_push_bit_eq d by (simp add: push_bit_eq_mult take_bit_eq_mod)
  have "(unat sz + 7) div 8 < 129" using assms(2) by (simp add: div_less_iff_less_mult)
  then have m: "unat sz \<le> (unat sz + 7) div 8 * 8" "(unat sz + 7) div 8 * 8 \<le> 1024" by linarith+
  show "uint sz \<le> uint (SLAB_ALIGN sz)" unfolding uint_nat a using m(1) by (rule of_nat_mono)
  show "0 \<le> uint (SLAB_ALIGN sz)" "8 dvd uint (SLAB_ALIGN sz)" "uint (SLAB_ALIGN sz) \<le> 1024"
    unfolding uint_nat a using m(2) by auto
qed

lemma block_address:
  assumes "4096 dvd pg" "page_ok p cs" "(x, z) \<in> set (used 24 cs)"
  shows "(pg + nat x) div 4096 * 4096 = pg" "(pg + nat x) mod 4096 = nat x" "24 \<le> x" "x + 8 + z \<le> 4096" "0 \<le> z"
proof -
  show r: "24 \<le> x" "x + 8 + z \<le> 4096" "0 \<le> z" using used_range [OF page_ok_bounds(1) [OF assms(2)] assms(3)] page_ok_bounds(2) [OF assms(2)] by simp_all
  then have "nat x < 4096" by linarith
  moreover obtain n where "pg = 4096 * n" using assms(1) by blast
  ultimately show "(pg + nat x) div 4096 * 4096 = pg" "(pg + nat x) mod 4096 = nat x" by simp_all
qed

lemma blocks_split:
  "blocks cm = (\<lambda>(x, z). (pg + nat x + 8, z)) ` (case cm pg of None \<Rightarrow> {} | Some cs \<Rightarrow> set (used 24 cs)) \<union> blocks (cm(pg := None))"
  (is "_ = ?A \<union> ?B")
proof
  show "blocks cm \<subseteq> ?A \<union> ?B"
  proof
    fix b
    assume "b \<in> blocks cm"
    then obtain q cs x z where b: "b = (q + nat x + 8, z)" "cm q = Some cs" "(x, z) \<in> set (used 24 cs)" unfolding blocks_def by blast
    show "b \<in> ?A \<union> ?B"
    proof (cases "q = pg")
      case True
      then have "b \<in> ?A" using b by force
      then show ?thesis by blast
    next
      case False
      then have "b \<in> ?B" using b unfolding blocks_def by auto
      then show ?thesis by blast
    qed
  qed
  show "?A \<union> ?B \<subseteq> blocks cm"
  proof
    fix b
    assume "b \<in> ?A \<union> ?B"
    then show "b \<in> blocks cm"
    proof
      assume "b \<in> ?A"
      then show ?thesis unfolding blocks_def by (cases "cm pg") auto
    next
      assume "b \<in> ?B"
      then show ?thesis unfolding blocks_def by (auto split: if_splits)
    qed
  qed
qed

lemma slab_ok_at:
  assumes "slab_ok s cm" "cm pg = Some cs"
  shows "\<exists>p. sb_pages s pg = Some p \<and> page_ok p cs" "4096 dvd pg" "pg \<noteq> NULL"
  using assms unfolding slab_ok_def by blast+

lemma blocks_upd:
  assumes ok: "slab_ok s cm" and pg: "4096 dvd pg" "page_ok p' cs'" "set (used 24 cs') = insert (x, z) U"
    and U: "(case cm pg of None \<Rightarrow> {} | Some cs \<Rightarrow> set (used 24 cs)) = U" "(x, z) \<notin> U"
  shows "(pg + nat x + 8, z) \<notin> blocks cm" "blocks (cm(pg \<mapsto> cs')) = insert (pg + nat x + 8, z) (blocks cm)"
proof -
  have new: "(x, z) \<in> set (used 24 cs')" using pg(3) by simp
  note A = block_address [OF pg(1,2) new]
  show "(pg + nat x + 8, z) \<notin> blocks cm"
  proof
    assume "(pg + nat x + 8, z) \<in> blocks cm"
    then obtain q cs y where q: "pg + nat x = q + nat y" "cm q = Some cs" "(y, z) \<in> set (used 24 cs)" unfolding blocks_def by auto
    obtain p where "page_ok p cs" using slab_ok_at(1) [OF ok q(2)] by blast
    note B = block_address [OF slab_ok_at(2) [OF ok q(2)] this q(3)]
    have "pg = q" "nat x = nat y" using A(1,2) B(1,2) unfolding q(1) by simp_all
    then have "pg = q" "x = y" using A(3) B(3) by (simp_all add: eq_nat_nat_iff)
    then show False using q(2,3) U by simp
  qed
  show "blocks (cm(pg \<mapsto> cs')) = insert (pg + nat x + 8, z) (blocks cm)"
    using blocks_split [of cm pg] blocks_split [of "cm(pg \<mapsto> cs')" pg] pg(3) U(1) by simp
qed

definition granted :: "(ptr \<rightharpoonup> chunk list) \<Rightarrow> int \<Rightarrow> slab \<Rightarrow> ptr \<Rightarrow> bool" where
  \<comment> \<open>a new block of at least \<open>sz\<close> bytes at \<open>a\<close>\<close>
  "granted cm sz s' a \<longleftrightarrow> (\<exists>cm' z. slab_ok s' cm' \<and> sz \<le> z \<and> (a, z) \<notin> blocks cm \<and> blocks cm' = insert (a, z) (blocks cm))"

lemma alloc_page_granted:
  assumes ok: "slab_ok s cm" and pg: "4096 dvd pg" "pg \<noteq> NULL"
    and s1: "sb_pages s1 = (sb_pages s)(pg \<mapsto> p)" "in_lists s1 (insert pg (dom cm))" "page_ok p cs"
    and U: "(case cm pg of None \<Rightarrow> {} | Some cs \<Rightarrow> set (used 24 cs)) = set (used 24 cs)"
    and ex: "\<exists>(z, u) \<in> set cs. \<not> u \<and> sz \<le> z" and sz: "0 \<le> sz" "8 dvd sz"
  shows "\<exists>s' r. slab_alloc_page pg h sz s1 = Some (s', r) \<and> r \<noteq> NULL \<and> granted cm sz s' r"
proof -
  have "sb_pages s1 pg = Some p" using s1(1) by simp
  from alloc_page_some [OF this s1(3,2) _ ex sz, of h] obtain s' p' cs' x z where
    A: "slab_alloc_page pg h sz s1 = Some (s', pg + nat x + 8)" "in_lists s' (insert pg (dom cm))" "sb_pages s' = (sb_pages s1)(pg \<mapsto> p')"
      "page_ok p' cs'" "sz \<le> z" "(x, z) \<notin> set (used 24 cs)" "set (used 24 cs') = insert (x, z) (set (used 24 cs))" "24 \<le> x" by auto
  have "slab_ok s' (cm(pg \<mapsto> cs'))"
    by (rule slab_ok_upd [OF ok A(2) _ A(4) _ pg]) (use A(3,7) s1(1) in auto)
  then have "granted cm sz s' (pg + nat x + 8)"
    unfolding granted_def using blocks_upd [OF ok pg(1) A(4,7) U A(6)] A(5) by blast
  then show ?thesis using A(1) by auto
qed

lemma fresh_page:
  "\<exists>p. slab_meta_init PAGE_HEAD_SIZE (PAGE_SIZE - PAGE_HEAD_SIZE - META_SIZE)
      \<lparr>pg_free = PAGE_HEAD_SIZE, pg_remain = i16 (i16 PAGE_SIZE - PAGE_HEAD_SIZE), pg_metas = Map.empty\<rparr> = Some p \<and> page_ok p [(4064, False)]"
proof -
  let ?p0 = "\<lparr>pg_free = 24, pg_remain = 4072, pg_metas = Map.empty\<rparr>"
  have i: "i16 4096 = 4096" "i16 4072 = 4072" "i16 4064 = 4064" by (simp_all add: i16_id)
  have "(0::int) \<le> 24" "(24::int) + 8 \<le> 4096" by simp_all
  from put_meta_fields [OF this, of "\<lparr>m_size = 4064, m_color = 0, m_next = -1, m_prev = -1\<rparr>" ?p0] obtain p where
    p: "put_meta 24 \<lparr>m_size = 4064, m_color = 0, m_next = -1, m_prev = -1\<rparr> ?p0 = Some p" "fS p 24 = Some 4064" "fC p 24 = Some 0" "fN p 24 = Some (-1)"
    "fP p 24 = Some (-1)" "same_head ?p0 p" by auto
  have "page_ok p [(4064, False)]"
    using p by (simp add: page_ok_def laid_def tidy_def free_list_def shifts_def same_head_def)
  then show ?thesis using p(1) by (simp add: slab_meta_init_def PAGE_SIZE_def i META_COLOR_DEFAULT_def)
qed

lemma free_page_head:
  assumes "0 \<le> sz" "sz \<le> 1024"
  shows "slab_free_page sz \<in> heads" "slab_free_page sz \<noteq> NULL"
  using assms by (auto simp: slab_free_page_def SLAB_SIZE_MINOR_def SLAB_SIZE_MAX_def head_defs heads_def)

lemma heads_not_aligned: "4096 dvd pg \<Longrightarrow> pg \<notin> heads"
  by (auto simp: heads_def head_defs)

lemma slab_alloc_core:
  assumes ok: "slab_ok s cm" and sz: "sz \<noteq> 0"
    and z: "0 \<le> uint (SLAB_ALIGN sz)" "8 dvd uint (SLAB_ALIGN sz)" "uint (SLAB_ALIGN sz) \<le> 1024"
    and page: "page = NULL \<or> 4096 dvd page \<and> page \<notin> dom cm"
  shows "\<exists>s' a. slab_alloc page sz s = Some (s', a) \<and> (if a = NULL then page = NULL \<and> s' = s else granted cm (uint (SLAB_ALIGN sz)) s' a)"
proof -
  let ?z = "uint (SLAB_ALIGN sz)" and ?h = "slab_free_page (uint (SLAB_ALIGN sz))"
  have h: "?h \<in> heads" "?h \<noteq> NULL" using free_page_head [OF z(1,3)] by simp_all
  obtain f where f: "lists_ok (sb_links s) f" "listed f = dom cm" using ok by (auto simp: slab_ok_def in_lists_def)
  have c: "circ (sb_links s) ?h (f ?h)" "set (f ?h) \<subseteq> dom cm" using f h(1) by (auto simp: lists_ok_def listed_def)
  then have seg: "lseg (sb_links s) ?h (f ?h) ?h" "?h \<notin> set (f ?h)" by (simp_all add: circ_def)
  obtain k where k: "sb_links s ?h = Some k" using circ_dom [OF c(1), of ?h] by auto
  then have nx: "nxt (sb_links s) ?h = Some (lh_next k)" by (simp add: nxt_def)
  have "slab_pages_loop (lh_next k) ?h ?z s = Some (s, NULL)
    \<or> (\<exists>s' r. slab_pages_loop (lh_next k) ?h ?z s = Some (s', r) \<and> r \<noteq> NULL \<and> granted cm ?z s' r)"
  proof (rule pages_loop [OF _ seg nx])
    show "\<forall>pg \<in> set (f ?h). \<exists>p cs. cm pg = Some cs \<and> sb_pages s pg = Some p \<and> page_ok p cs" using slab_ok_page [OF ok] c(2) by blast
  next
    fix pg p cs
    assume pg: "pg \<in> set (f ?h)" "cm pg = Some cs" "sb_pages s pg = Some p" "page_ok p cs" and ex: "\<exists>(z, u) \<in> set cs. \<not> u \<and> ?z \<le> z"
    have "insert pg (dom cm) = dom cm" using pg(2) by auto
    then have inl: "in_lists s (insert pg (dom cm))" using ok by (simp add: slab_ok_def)
    have "sb_pages s = (sb_pages s)(pg \<mapsto> p)" using pg(3) by auto
    from alloc_page_granted [OF ok slab_ok_at(2,3) [OF ok pg(2)] this inl pg(4) _ ex z(1,2)] pg(2)
    show "\<exists>s' r. slab_alloc_page pg ?h ?z s = Some (s', r) \<and> r \<noteq> NULL \<and> granted cm ?z s' r" by simp
  qed
  then consider (none) "slab_pages_loop (lh_next k) ?h ?z s = Some (s, NULL)"
    | (some) s' r where "slab_pages_loop (lh_next k) ?h ?z s = Some (s', r)" "r \<noteq> NULL" "granted cm ?z s' r" by blast
  then show ?thesis
  proof cases
    case some
    then show ?thesis using sz h(2) k by (intro exI [of _ s'] exI [of _ r]) (simp add: slab_alloc_def Let_def)
  next
    case none
    show ?thesis
    proof (cases "page = NULL")
      case True
      then show ?thesis using none sz h(2) k by (simp add: slab_alloc_def Let_def)
    next
      case False
      then have pg: "4096 dvd page" "page \<noteq> NULL" "page \<notin> dom cm" using page by auto
      obtain p where p: "slab_meta_init PAGE_HEAD_SIZE (PAGE_SIZE - PAGE_HEAD_SIZE - META_SIZE)
          \<lparr>pg_free = PAGE_HEAD_SIZE, pg_remain = i16 (i16 PAGE_SIZE - PAGE_HEAD_SIZE), pg_metas = Map.empty\<rparr> = Some p" "page_ok p [(4064, False)]"
        using fresh_page by blast
      let ?m = "(sb_links s)(page \<mapsto> \<lparr>lh_next = NULL, lh_prev = NULL\<rparr>)"
      have nh: "page \<notin> heads" using heads_not_aligned [OF pg(1)] .
      have "lists_ok ?m f"
      proof -
        have "circ ?m h' (f h')" if "h' \<in> heads" for h'
          by (rule circ_frame [of "sb_links s" _ _ _ "{page}"])
             (use f that pg(3) nh in \<open>auto simp: lists_ok_def agree_def listed_def\<close>)
        then show ?thesis using f(1) by (simp add: lists_ok_def)
      qed
      from lists_add [OF this h(1) nh] f(2) pg(3) obtain m' f' where m': "list_add page ?h ?m = Some m'" "lists_ok m' f'" "listed f' = insert page (dom cm)"
        by auto
      let ?s = "s\<lparr>sb_pages := (sb_pages s)(page \<mapsto> p), sb_links := m'\<rparr>"
      have run: "slab_alloc page sz s = slab_alloc_page page ?h ?z ?s"
        using none sz h(2) k p(1) m'(1) False by (simp add: slab_alloc_def Let_def upd_links_def)
      obtain s' r where "slab_alloc_page page ?h ?z ?s = Some (s', r)" "r \<noteq> NULL" "granted cm ?z s' r"
      proof -
        have "\<exists>s' r. slab_alloc_page page ?h ?z ?s = Some (s', r) \<and> r \<noteq> NULL \<and> granted cm ?z s' r"
          by (rule alloc_page_granted [OF ok pg(1,2) _ _ p(2) _ _ z(1,2)]) (use m'(2,3) pg(3) z(3) in \<open>auto simp: in_lists_def split: option.splits\<close>)
        then show thesis using that by blast
      qed
      then show ?thesis unfolding run by (intro exI [of _ s'] exI [of _ r]) simp
    qed
  qed
qed

text \<open>C3: for every size up to 1024, \<^verbatim>\<open>slab_alloc\<close> returns a block of at least that size that nobody holds, takes it out of
  the free ones, leaves every other block as it is, and keeps pages, free lists and page lists well formed; only when
  the system gives no page it may return NULL, and then nothing has changed.\<close>

theorem slab_alloc_spec:
  assumes "slab_ok s cm" "sz \<noteq> 0" "unat sz \<le> 1024" "page = NULL \<or> 4096 dvd page \<and> page \<notin> dom cm"
  shows "\<exists>s' a. slab_alloc page sz s = Some (s', a) \<and> (if a = NULL then page = NULL \<and> s' = s else granted cm (uint sz) s' a)"
proof -
  note z = aligned [OF assms(2,3)]
  have "granted cm (uint (SLAB_ALIGN sz)) s' r \<Longrightarrow> granted cm (uint sz) s' r" for s' r using z(3) unfolding granted_def by (meson order_trans)
  moreover obtain s' a where "slab_alloc page sz s = Some (s', a)" "if a = NULL then page = NULL \<and> s' = s else granted cm (uint (SLAB_ALIGN sz)) s' a"
    using slab_alloc_core [OF assms(1,2) z(1,2,4) assms(4)] by blast
  ultimately show ?thesis by (intro exI [of _ s'] exI [of _ a]) (simp split: if_splits)
qed

lemma block_other_page:
  assumes ok: "slab_ok s cm" and c: "cm pg = Some cs" "(x, z) \<in> set (used 24 cs)"
  shows "(pg + nat x + 8, w) \<notin> blocks (cm(pg := None))"
proof
  assume "(pg + nat x + 8, w) \<in> blocks (cm(pg := None))"
  then obtain q ds y where q: "pg + nat x = q + nat y" "q \<noteq> pg" "cm q = Some ds" "(y, w) \<in> set (used 24 ds)"
    unfolding blocks_def by (auto split: if_splits)
  obtain p p' where p: "page_ok p cs" "page_ok p' ds" using slab_ok_at(1) [OF ok c(1)] slab_ok_at(1) [OF ok q(3)] by blast
  have "pg = q"
    using block_address(1) [OF slab_ok_at(2) [OF ok c(1)] p(1) c(2)] block_address(1) [OF slab_ok_at(2) [OF ok q(3)] p(2) q(4)] unfolding q(1) by simp
  then show False using q(2) by simp
qed

lemma blocks_remove:
  assumes ok: "slab_ok s cm" and c: "cm pg = Some cs" "(x, z) \<in> set (used 24 cs)" and u: "set (used 24 cs') = set (used 24 cs) - {(x, z)}"
  shows "blocks (cm(pg \<mapsto> cs')) = blocks cm - {(pg + nat x + 8, z)}" "used 24 cs' = [] \<Longrightarrow> blocks (cm(pg := None)) = blocks cm - {(pg + nat x + 8, z)}"
proof -
  let ?g = "\<lambda>(x, z). (pg + nat x + 8, z)" and ?B = "blocks (cm(pg := None))"
  obtain p where p: "page_ok p cs" using slab_ok_at(1) [OF ok c(1)] by blast
  have low: "24 \<le> y" if "(y, w) \<in> set (used 24 cs)" for y w using block_address(3) [OF slab_ok_at(2) [OF ok c(1)] p that] .
  have inj: "?g ` (set (used 24 cs) - {(x, z)}) = ?g ` set (used 24 cs) - {?g (x, z)}"
  proof -
    have "inj_on ?g (set (used 24 cs))"
    proof (rule inj_onI)
      fix b b'
      assume b: "b \<in> set (used 24 cs)" "b' \<in> set (used 24 cs)" "?g b = ?g b'"
      obtain y w y' w' where yw: "b = (y, w)" "b' = (y', w')" by (cases b; cases b') auto
      have "24 \<le> y" "24 \<le> y'" "nat y = nat y'" "w = w'" using b low unfolding yw by auto
      then show "b = b'" unfolding yw by (simp add: eq_nat_nat_iff)
    qed
    then show ?thesis using c(2) by (simp add: inj_on_image_set_diff)
  qed
  have all: "blocks cm = ?g ` set (used 24 cs) \<union> ?B" using blocks_split [of cm pg] c(1) by simp
  have out: "?g (x, z) \<notin> ?B" using block_other_page [OF ok c] by simp
  have all': "blocks (cm(pg \<mapsto> cs')) = ?g ` set (used 24 cs') \<union> ?B" using blocks_split [of "cm(pg \<mapsto> cs')" pg] by simp
  show "blocks (cm(pg \<mapsto> cs')) = blocks cm - {(pg + nat x + 8, z)}"
    unfolding all all' u inj using out by auto
  assume "used 24 cs' = []"
  then have "set (used 24 cs) - {(x, z)} = {}" using u by simp
  then have "?g ` set (used 24 cs) - {?g (x, z)} = {}" unfolding inj [symmetric] by simp
  then show "?B = blocks cm - {(pg + nat x + 8, z)}" unfolding all using out by auto
qed

lemma mark_free:
  assumes L: "laid p (l @ (z, True) # r)"
    and p1: "fN p1 = fN p" "fP p1 = fP p" "fS p1 = fS p" "fC p1 = (fC p)(24 + clen l := Some 0)" "pg_free p1 = pg_free p"
  shows "hole p1 l z r"
proof -
  note A = laid_at [OF L, simplified]
  have "chunks p1 24 l \<and> chunks p1 (32 + clen l + z) r"
    by (rule chunks_keep [OF A(7,8) _ A(3,4)]) (use p1 A(9) in auto)
  moreover have "dl p1 (-1) (frees 24 l @ frees (32 + clen l + z) r) (-1) = dl p (-1) (frees 24 l @ frees (32 + clen l + z) r) (-1)"
    by (rule dl_cong) (simp add: p1)
  ultimately show ?thesis using A p1 by (simp add: hole_def free_list_def)
qed

lemma unlist_page:
  assumes "in_lists s Q" "pg \<in> Q"
  shows "\<exists>s1. upd_links (list_del pg) s = Some s1 \<and> sb_pages s1 = sb_pages s
    \<and> in_lists (s1\<lparr>sb_pages := g, sb_links := (sb_links s1)(pg := None)\<rparr>) (Q - {pg})"
proof -
  obtain f where f: "lists_ok (sb_links s) f" "listed f = Q" using assms(1) by (auto simp: in_lists_def)
  then obtain m1 f1 where 1: "list_del pg (sb_links s) = Some m1" "lists_ok m1 f1" "listed f1 = Q - {pg}" "pg \<notin> heads"
    using lists_del [OF f(1)] assms(2) by blast
  have "circ (m1(pg := None)) h (f1 h)" if "h \<in> heads" for h
  proof (rule circ_frame [of m1 _ _ _ "{pg}"])
    show "circ m1 h (f1 h)" using 1(2) that by (simp add: lists_ok_def)
    show "agree m1 (m1(pg := None)) {pg}" by (simp add: agree_def)
    have "set (f1 h) \<subseteq> Q - {pg}" using 1(3) that by (auto simp: listed_def)
    then show "{pg} \<inter> set (h # f1 h) = {}" using 1(4) that by auto
  qed
  then have "lists_ok (m1(pg := None)) f1" using 1(2) by (simp add: lists_ok_def)
  then show ?thesis using 1(1,3) by (auto simp: upd_links_def in_lists_def)
qed

lemma slab_free_core:
  assumes ok: "slab_ok s cm" and b: "(a, z) \<in> blocks cm"
  shows "\<exists>s' cm'. slab_free a s = Some s' \<and> slab_ok s' cm' \<and> blocks cm' = blocks cm - {(a, z)}"
proof -
  obtain pg cs x where c: "a = pg + nat x + 8" "cm pg = Some cs" "(x, z) \<in> set (used 24 cs)" using b unfolding blocks_def by blast
  obtain p where p: "sb_pages s pg = Some p" "page_ok p cs" using slab_ok_at(1) [OF ok c(2)] by blast
  note pg = slab_ok_at(2,3) [OF ok c(2)]
  note X = block_address [OF pg(1) p(2) c(3)]
  obtain l r where cs: "cs = l @ (z, True) # r" "x = 24 + clen l" using used_split [OF c(3)] by blast
  have L: "laid p (l @ (z, True) # r)" "pg_remain p = fsum cs" using p(2) cs(1) by (simp_all add: page_ok_def)
  note A = laid_at [OF L(1), simplified]
  have t: "tidy l" "tidy r" using A(12) by (simp_all add: tidy_used)
  obtain k where k: "meta_at p x = Some k" "m_size k = z" "m_color k = 1" using A(1,2) unfolding cs(2) meta_field_Some by auto
  from set_C [OF A(2), of "\<lambda>c. c AND NOT META_COLOR_ALLOC"] obtain p1 where
    1: "upd_meta x (\<lambda>k. k\<lparr>m_color := m_color k AND NOT META_COLOR_ALLOC\<rparr>) p = Some p1" "fN p1 = fN p" "fP p1 = fP p" "fS p1 = fS p"
      "fC p1 = (fC p)(x := Some 0)" "same_head p p1" unfolding cs(2) by (auto simp: META_COLOR_ALLOC_def)
  have head: "pg_free p1 = pg_free p" "pg_remain p1 = fsum cs" using 1(6) L(2) by (simp_all add: same_head_def)
  obtain k1 where k1: "meta_at p1 x = Some k1" using k(1) 1(4) A(1) unfolding cs(2) by (metis meta_field_Some(1))
  have H: "hole p1 l z r" by (rule mark_free [OF L(1) 1(2-4) _ head(1)]) (use 1(5) cs(2) in simp)
  let ?p2 = "p1\<lparr>pg_remain := i16 (pg_remain p1 + (m_size k + 8))\<rparr>"
  have fl: "free_list ?p2 zs = free_list p1 zs" for zs unfolding free_list_def using dl_cong [of zs ?p2 p1] by simp
  have ch: "chunks ?p2 i zs = chunks p1 i zs" if "sizes zs" for i zs by (rule chunks_cong) (use that in simp_all)
  have H2: "hole ?p2 l z r" using H unfolding hole_def by (simp add: fl ch)
  have C: "fC ?p2 (24 + clen l) = Some 0" "fN ?p2 (24 + clen l) = Some (-1)" "fP ?p2 (24 + clen l) = Some (-1)"
    using 1(2,3,5) A(15) cs(2) by simp_all
  from unlink_free_spec [OF H2 C t] obtain p3 cs' where 3: "slab_unlink_free x ?p2 = Some p3" "laid p3 cs'" "pg_remain p3 = pg_remain ?p2" "freed l z r cs'"
    unfolding cs(2) by blast
  have sz: "sizes cs'" "clen cs' = 4072" using 3(2) by (simp_all add: laid_def)
  have tot: "fsum cs' = fsum cs + (z + 8)" using 3(4) cs(1) by (simp add: freed_def)
  have "pg_remain ?p2 = fsum cs'"
  proof -
    have "0 \<le> fsum cs'" "fsum cs' \<le> 4072" using fsum_nonneg [OF sz(1)] fsum_used [OF sz(1), of 24] sz(2) by simp_all
    then show ?thesis using tot head(2) k(2) by (simp add: i16_id)
  qed
  then have rem: "pg_remain p3 = fsum cs'" using 3(3) by simp
  then have ok3: "page_ok p3 cs'" using 3(2) by (simp add: page_ok_def)
  have "set (used 24 cs') = set (used 24 cs) - {(x, z)}"
    using 3(4) used_outside [OF A(7,8,9), of x z] A(9) unfolding freed_def cs used_mid by auto
  note B = blocks_remove [OF ok c(2,3) this]
  have inl: "in_lists s (dom cm)" "pg \<in> dom cm" using ok c(2) by (auto simp: slab_ok_def)
  let ?s = "s\<lparr>sb_pages := (sb_pages s)(pg \<mapsto> p1)\<rparr>"
  have "in_lists ?s (dom cm)" "sb_pages ?s pg = Some p1" using inl by (simp_all add: in_lists_def)
  from page_insert_ok [OF this(1) inl(2) this(2) k1] obtain s1 where 4: "slab_page_insert pg x ?s = Some s1" "in_lists s1 (dom cm)"
    "sb_pages s1 = sb_pages ?s" by blast
  let ?s2 = "s1\<lparr>sb_pages := (sb_pages s1)(pg \<mapsto> p3)\<rparr>"
  have nx: "int (nat x) = x" "nat META_SIZE = 8" "nat PAGE_SIZE = 4096" using X(3) by (simp_all add: PAGE_SIZE_def)
  have run: "slab_free a s = (if pg_remain p3 + PAGE_HEAD_SIZE = PAGE_SIZE
      then do { s \<leftarrow> upd_links (list_del pg) ?s2; Some (s\<lparr>sb_pages := (sb_pages s)(pg := None), sb_links := (sb_links s)(pg := None)\<rparr>) }
      else Some ?s2)"
    unfolding slab_free_def Let_def nx c(1) using X(1,2) nx(1) p(1) k 1(1) 4(1) 3(1) by (simp add: META_COLOR_ALLOC_def)
  show ?thesis
  proof (cases "used 24 cs' = []")
    case False
    then have "fsum cs' \<noteq> 4072" using fsum_used [OF sz(1), of 24] sz(2) by simp
    then have "slab_free a s = Some ?s2" using run rem by (simp add: PAGE_SIZE_def)
    moreover have "slab_ok ?s2 (cm(pg \<mapsto> cs'))"
    proof (rule slab_ok_upd [OF ok _ _ ok3 False pg])
      show "in_lists ?s2 (insert pg (dom cm))" using 4(2) inl(2) by (simp add: in_lists_def insert_absorb)
      show "sb_pages ?s2 = (sb_pages s)(pg \<mapsto> p3)" using 4(3) by simp
    qed
    ultimately show ?thesis using B(1) c(1) by blast
  next
    case True
    then have "fsum cs' = 4072" using fsum_used [OF sz(1), of 24] sz(2) by simp
    then have go: "slab_free a s = do { s \<leftarrow> upd_links (list_del pg) ?s2; Some (s\<lparr>sb_pages := (sb_pages s)(pg := None), sb_links := (sb_links s)(pg := None)\<rparr>) }"
      using run rem by (simp add: PAGE_SIZE_def)
    have "in_lists ?s2 (dom cm)" using 4(2) by (simp add: in_lists_def)
    from unlist_page [OF this inl(2), of "(sb_pages ?s2)(pg := None)"] obtain s3 where 5: "upd_links (list_del pg) ?s2 = Some s3" "sb_pages s3 = sb_pages ?s2"
      "in_lists (s3\<lparr>sb_pages := (sb_pages ?s2)(pg := None), sb_links := (sb_links s3)(pg := None)\<rparr>) (dom cm - {pg})" by blast
    let ?s4 = "s3\<lparr>sb_pages := (sb_pages s3)(pg := None), sb_links := (sb_links s3)(pg := None)\<rparr>"
    have "slab_free a s = Some ?s4" using go 5(1) by simp
    moreover have "slab_ok ?s4 (cm(pg := None))"
      using ok 5(2,3) 4(3) unfolding slab_ok_def by auto
    ultimately show ?thesis using B(2) [OF True] c(1) by blast
  qed
qed

text \<open>C4: \<^verbatim>\<open>slab_free\<close> of a block that is held returns, gives back exactly that block, leaves the others where they are and
  keeps everything well formed: neighbouring free blocks have been merged, and a page without blocks has gone back
  to the system.\<close>

theorem slab_free_spec:
  assumes "slab_ok s cm" "(a, z) \<in> blocks cm"
  shows "\<exists>s' cm'. slab_free a s = Some s' \<and> slab_ok s' cm' \<and> blocks cm' = blocks cm - {(a, z)}"
  by (rule slab_free_core [OF assms])

section \<open>What clients see\<close>

lemma slab_init_ok: "slab_ok slab_init Map.empty"
proof -
  have "lists_ok (sb_links slab_init) (\<lambda>h. [])"
    by (auto simp: lists_ok_def slab_init_def heads_def circ_def nxt_def prv_def head_defs)
  moreover have "listed (\<lambda>h. []) = {}" by (simp add: listed_def)
  ultimately have "in_lists slab_init {}" unfolding in_lists_def by blast
  then show ?thesis by (simp add: slab_ok_def slab_init_def)
qed

lemma used_apart:
  assumes "sizes cs" "(x, z) \<in> set (used i cs)" "(y, w) \<in> set (used i cs)" "(x, z) \<noteq> (y, w)"
  shows "x + 8 + z \<le> y \<or> y + 8 + w \<le> x"
  using assms
proof (induction i cs rule: used.induct)
  case (2 i v u cs)
  have r: "i + 8 + v \<le> x'" if "(x', z') \<in> set (used (i + 8 + v) cs)" for x' z' using used_range [OF _ that] 2(2) by simp
  consider (both) "(x, z) \<in> set (used (i + 8 + v) cs)" "(y, w) \<in> set (used (i + 8 + v) cs)"
    | (first) "(x, z) = (i, v)" "(y, w) \<in> set (used (i + 8 + v) cs)" | (second) "(x, z) \<in> set (used (i + 8 + v) cs)" "(y, w) = (i, v)"
    using 2(3-5) by (auto split: if_splits)
  then show ?case
  proof cases
    case both
    then show ?thesis using 2(1) 2(2,5) by simp
  next
    case first
    then show ?thesis using r [OF first(2)] by simp
  next
    case second
    then show ?thesis using r [OF second(1)] by simp
  qed
qed simp

lemma blocks_apart:
  assumes ok: "slab_ok s cm" and b: "(a, z) \<in> blocks cm" "(b, w) \<in> blocks cm" "(a, z) \<noteq> (b, w)"
  shows "a + nat z + 8 \<le> b \<or> b + nat w + 8 \<le> a"
proof -
  obtain pg cs x where 1: "a = pg + nat x + 8" "cm pg = Some cs" "(x, z) \<in> set (used 24 cs)" using b(1) unfolding blocks_def by blast
  obtain q ds y where 2: "b = q + nat y + 8" "cm q = Some ds" "(y, w) \<in> set (used 24 ds)" using b(2) unfolding blocks_def by blast
  obtain p p' where p: "page_ok p cs" "page_ok p' ds" using slab_ok_at(1) [OF ok 1(2)] slab_ok_at(1) [OF ok 2(2)] by blast
  note A = block_address [OF slab_ok_at(2) [OF ok 1(2)] p(1) 1(3)] and B = block_address [OF slab_ok_at(2) [OF ok 2(2)] p(2) 2(3)]
  have e: "int (nat x) = x" "int (nat y) = y" "int (nat z) = z" "int (nat w) = w" using A(3,5) B(3,5) by simp_all
  show ?thesis
  proof (cases "pg = q")
    case True
    then have "(y, w) \<in> set (used 24 cs)" "(x, z) \<noteq> (y, w)" using 1 2 b(3) by auto
    then have "x + 8 + z \<le> y \<or> y + 8 + w \<le> x" using used_apart [OF page_ok_bounds(1) [OF p(1)] 1(3)] by blast
    then have "nat x + 8 + nat z \<le> nat y \<or> nat y + 8 + nat w \<le> nat x" using e by linarith
    then show ?thesis using 1(1) 2(1) True by auto
  next
    case False
    obtain m n where mn: "pg = 4096 * m" "q = 4096 * n" using slab_ok_at(2) [OF ok 1(2)] slab_ok_at(2) [OF ok 2(2)] by (auto simp: dvd_def)
    have bd: "nat x + 8 + nat z \<le> 4096" "nat y + 8 + nat w \<le> 4096" "24 \<le> nat x" "24 \<le> nat y"
      using A(3,4) B(3,4) e by linarith+
    have "m < n \<or> n < m" using False mn by auto
    then have "4096 * m + 4096 \<le> 4096 * n \<or> 4096 * n + 4096 \<le> 4096 * m" by auto
    then show ?thesis using bd 1(1) 2(1) mn by linarith
  qed
qed

lemma block_aligned:
  assumes "slab_ok s cm" "(a, z) \<in> blocks cm"
  shows "8 dvd a" "0 \<le> z" "z \<le> 4064"
proof -
  obtain pg cs x where 1: "a = pg + nat x + 8" "cm pg = Some cs" "(x, z) \<in> set (used 24 cs)" using assms(2) unfolding blocks_def by blast
  obtain p where p: "page_ok p cs" using slab_ok_at(1) [OF assms(1) 1(2)] by blast
  have x: "24 \<le> x" "8 dvd x" "0 \<le> z" "x + 8 + z \<le> 4096" using used_range [OF page_ok_bounds(1) [OF p] 1(3)] page_ok_bounds(2) [OF p] by simp_all
  then obtain n where n: "x = 8 * n" by (auto simp: dvd_def)
  then have "nat x = 8 * nat n" using x(1) by simp
  moreover obtain m where "pg = 4096 * m" using slab_ok_at(2) [OF assms(1) 1(2)] by (auto simp: dvd_def)
  then have "pg = 8 * (512 * m)" by simp
  ultimately have "a = 8 * (512 * m + nat n + 1)" using 1(1) by simp
  then show "8 dvd a" "0 \<le> z" "z \<le> 4064" using x by auto
qed

inductive served :: "slab \<Rightarrow> (ptr \<rightharpoonup> u64) \<Rightarrow> bool" where
  \<comment> \<open>what clients may do: ask for up to 1024 bytes, give back what they hold; \<open>H\<close>: the blocks that are held, with the sizes asked for\<close>
  start: "served slab_init Map.empty"
| alloc: "served s H \<Longrightarrow> sz \<noteq> 0 \<Longrightarrow> unat sz \<le> 1024 \<Longrightarrow> page = NULL \<or> 4096 dvd page \<and> sb_pages s page = None \<Longrightarrow>
    slab_alloc page sz s = Some (s', a) \<Longrightarrow> served s' (if a = NULL then H else H(a \<mapsto> sz))"
| free: "served s H \<Longrightarrow> H a \<noteq> None \<Longrightarrow> slab_free a s = Some s' \<Longrightarrow> served s' (H(a := None))"

definition holds :: "(ptr \<rightharpoonup> u64) \<Rightarrow> (ptr \<rightharpoonup> chunk list) \<Rightarrow> bool" where
  "holds H cm \<longleftrightarrow> (\<forall>a. H a \<noteq> None \<longleftrightarrow> (\<exists>z. (a, z) \<in> blocks cm)) \<and> (\<forall>a sz. H a = Some sz \<longrightarrow> (\<exists>z. (a, z) \<in> blocks cm \<and> uint sz \<le> z))"

lemma served_ok:
  assumes "served s H"
  shows "\<exists>cm. slab_ok s cm \<and> holds H cm"
  using assms
proof induction
  case start
  have "holds Map.empty Map.empty" by (simp add: holds_def blocks_def)
  then show ?case using slab_init_ok by blast
next
  case (alloc s H sz page s' a)
  then obtain cm where cm: "slab_ok s cm" "holds H cm" by blast
  have "dom (sb_pages s) = dom cm" using cm(1) by (simp add: slab_ok_def)
  then have pg: "page = NULL \<or> 4096 dvd page \<and> page \<notin> dom cm" using alloc(4) by auto
  have "if a = NULL then page = NULL \<and> s' = s else granted cm (uint sz) s' a"
    using slab_alloc_core [OF cm(1) alloc(2) aligned(1,2,4) [OF alloc(2,3)] pg] alloc(5) aligned(3) [OF alloc(2,3)]
    unfolding granted_def by (auto split: if_splits) (meson order_trans)
  show ?case
  proof (cases "a = NULL")
    case True
    then show ?thesis using \<open>if a = NULL then page = NULL \<and> s' = s else granted cm (uint sz) s' a\<close> cm by auto
  next
    case False
    then obtain cm' z where g: "slab_ok s' cm'" "uint sz \<le> z" "(a, z) \<notin> blocks cm" "blocks cm' = insert (a, z) (blocks cm)"
      using \<open>if a = NULL then page = NULL \<and> s' = s else granted cm (uint sz) s' a\<close> unfolding granted_def by auto
    have "holds (H(a \<mapsto> sz)) cm'" using cm(2) g(2,4) unfolding holds_def by auto
    moreover have "(if a = NULL then H else H(a \<mapsto> sz)) = H(a \<mapsto> sz)" using False by simp
    ultimately show ?thesis using g(1) by metis
  qed
next
  case (free s H a s')
  then obtain cm where cm: "slab_ok s cm" "holds H cm" by blast
  then obtain z where z: "(a, z) \<in> blocks cm" using free(2) unfolding holds_def by blast
  obtain cm' where g: "slab_ok s' cm'" "blocks cm' = blocks cm - {(a, z)}" using slab_free_core [OF cm(1) z] free(3) by auto
  have "w = z" if "(a, w) \<in> blocks cm" for w using blocks_apart [OF cm(1) that z] by auto
  then have "holds (H(a := None)) cm'" using cm(2) g(2) unfolding holds_def by auto
  then show ?case using g(1) by blast
qed

lemma served_alloc:
  \<comment> \<open>a request is answered, and with a page from the system it is granted\<close>
  assumes "served s H" "sz \<noteq> 0" "unat sz \<le> 1024" "page = NULL \<or> 4096 dvd page \<and> sb_pages s page = None"
  shows "\<exists>s' a. slab_alloc page sz s = Some (s', a) \<and> (page \<noteq> NULL \<longrightarrow> a \<noteq> NULL) \<and> (a \<noteq> NULL \<longrightarrow> H a = None)"
proof -
  obtain cm where cm: "slab_ok s cm" "holds H cm" using served_ok [OF assms(1)] by blast
  have "dom (sb_pages s) = dom cm" using cm(1) by (simp add: slab_ok_def)
  then have "page = NULL \<or> 4096 dvd page \<and> page \<notin> dom cm" using assms(4) by auto
  from slab_alloc_core [OF cm(1) assms(2) aligned(1,2,4) [OF assms(2,3)] this] obtain s' a where
    a: "slab_alloc page sz s = Some (s', a)" "if a = NULL then page = NULL \<and> s' = s else granted cm (uint (SLAB_ALIGN sz)) s' a" by blast
  have "H a = None" if nz: "a \<noteq> NULL"
  proof (rule ccontr)
    assume "H a \<noteq> None"
    then obtain z where z: "(a, z) \<in> blocks cm" using cm(2) unfolding holds_def by blast
    obtain cm' w where g: "slab_ok s' cm'" "(a, w) \<notin> blocks cm" "blocks cm' = insert (a, w) (blocks cm)"
      using a(2) nz unfolding granted_def by auto
    then show False using blocks_apart [OF g(1), of a z a w] z by auto
  qed
  then show ?thesis using a by (auto split: if_splits)
qed

lemma slab_alloc_wraps:
  \<comment> \<open>a request of more than \<open>2 ^ 64 - 8\<close> bytes is rounded up to 0, and granted\<close>
  assumes "slab_ok s cm" "2 ^ 64 - 8 < unat sz" "page \<noteq> NULL" "4096 dvd page" "page \<notin> dom cm"
  shows "\<exists>s' a cm' z. slab_alloc page sz s = Some (s', a) \<and> a \<noteq> NULL \<and> slab_ok s' cm' \<and> (a, z) \<in> blocks cm' \<and> z \<le> 4064"
proof -
  have "unat (sz + 7) = (unat sz + 7) mod 2 ^ 64" by (simp add: unat_word_ariths)
  moreover have "unat sz < 2 ^ 64" using unsigned_less [of sz] by simp
  moreover have "(unat sz + 7) mod 2 ^ 64 = (unat sz + 7 - 2 ^ 64) mod 2 ^ 64" by (rule le_mod_geq) (use assms(2) in simp)
  moreover have "(unat sz + 7 - 2 ^ 64) mod 2 ^ 64 \<le> unat sz + 7 - 2 ^ 64" by (rule mod_less_eq_dividend)
  ultimately have u: "unat (sz + 7) < 8" by linarith
  have "unat (drop_bit 3 (sz + 7)) = unat (sz + 7) div 8"
    unfolding unsigned_drop_bit_eq using unsigned_less [of "sz + 7", where 'a = nat] by (simp add: drop_bit_eq_div take_bit_nat_eq_self)
  then have "unat (drop_bit 3 (sz + 7)) = 0" using u by simp
  then have "drop_bit 3 (sz + 7) = 0" by (rule unat_0_iff [THEN iffD1])
  then have z: "uint (SLAB_ALIGN sz) = 0" by (simp add: SLAB_ALIGN_def)
  have "sz \<noteq> 0" using assms(2) by auto
  from slab_alloc_core [OF assms(1) this, of page] obtain s' a where "slab_alloc page sz s = Some (s', a)" "a \<noteq> NULL" "granted cm 0 s' a"
    using assms(3-5) by (auto simp: z split: if_splits)
  then show ?thesis using block_aligned(3) unfolding granted_def by blast
qed

text \<open>C2: the allocator serves any sequence of requests of at most 1024 bytes and returns of blocks that are held: it never
  gets stuck, the blocks that are held are aligned to 8 and do not overlap, not even with the 8 bytes kept before each
  block, and when none is held no page is kept from the system.\<close>

theorem slab_clients_safe:
  assumes "served s H"
  shows "(\<forall>sz page. sz = 0 \<or> 1024 < unat sz \<or> page \<noteq> NULL \<and> (\<not> 4096 dvd page \<or> sb_pages s page \<noteq> None) \<or> slab_alloc page sz s \<noteq> None)
    \<and> (\<forall>a. H a = None \<or> slab_free a s \<noteq> None)
    \<and> (\<forall>a b m n. H a = Some m \<and> H b = Some n \<longrightarrow> 8 dvd a \<and> (a = b \<or> a + unat m + 8 \<le> b \<or> b + unat n + 8 \<le> a))
    \<and> (H = Map.empty \<longrightarrow> sb_pages s = Map.empty)"
proof (intro conjI allI impI)
  obtain cm where cm: "slab_ok s cm" "holds H cm" using served_ok [OF assms] by blast
  have dom: "dom (sb_pages s) = dom cm" using cm(1) by (simp add: slab_ok_def)
  show "sz = 0 \<or> 1024 < unat sz \<or> page \<noteq> NULL \<and> (\<not> 4096 dvd page \<or> sb_pages s page \<noteq> None) \<or> slab_alloc page sz s \<noteq> None" for sz page
  proof -
    have "slab_alloc page sz s \<noteq> None" if "sz \<noteq> 0" "unat sz \<le> 1024" "page = NULL \<or> 4096 dvd page \<and> sb_pages s page = None"
      using served_alloc [OF assms that] by blast
    then show ?thesis by (meson not_less)
  qed
  show "H a = None \<or> slab_free a s \<noteq> None" for a
    using cm(2) slab_free_core [OF cm(1)] unfolding holds_def by fastforce
  fix a b m n
  assume H: "H a = Some m \<and> H b = Some n"
  then obtain z w where z: "(a, z) \<in> blocks cm" "uint m \<le> z" "(b, w) \<in> blocks cm" "uint n \<le> w" using cm(2) unfolding holds_def by blast
  show "8 dvd a" using block_aligned(1) [OF cm(1) z(1)] .
  have "unat m \<le> nat z" "unat n \<le> nat w" unfolding unat_eq_nat_uint by (rule nat_mono [OF z(2)], rule nat_mono [OF z(4)])
  then show "a = b \<or> a + unat m + 8 \<le> b \<or> b + unat n + 8 \<le> a" proof (cases "a = b")
    case False
    then have "a + nat z + 8 \<le> b \<or> b + nat w + 8 \<le> a" using blocks_apart [OF cm(1) z(1,3)] by simp
    then show ?thesis using \<open>unat m \<le> nat z\<close> \<open>unat n \<le> nat w\<close> by linarith
  qed simp
next
  obtain cm where cm: "slab_ok s cm" "holds H cm" using served_ok [OF assms] by blast
  assume "H = Map.empty"
  then have no: "blocks cm = {}" using cm(2) unfolding holds_def by auto
  have "cm pg = None" for pg
  proof (rule ccontr)
    assume "cm pg \<noteq> None"
    then obtain cs where cs: "cm pg = Some cs" by blast
    then obtain b where "b \<in> set (used 24 cs)" using cm(1) unfolding slab_ok_def by (metis list.set_sel(1))
    then obtain x z where "(x, z) \<in> set (used 24 cs)" by (metis surj_pair)
    then have "(pg + nat x + 8, z) \<in> blocks cm" using cs unfolding blocks_def by blast
    then show False using no by simp
  qed
  then show "sb_pages s = Map.empty" using cm(1) by (auto simp: slab_ok_def dom_def fun_eq_iff)
qed

lemma slab_alloc_spec_witness: "\<exists>s' a. slab_alloc 4096 100 slab_init = Some (s', a) \<and> a \<noteq> NULL"
proof -
  obtain s' a where "slab_alloc 4096 100 slab_init = Some (s', a)"
    "if a = NULL then (4096 :: ptr) = NULL \<and> s' = slab_init else granted Map.empty (uint (100 :: u64)) s' a"
    using slab_alloc_spec [OF slab_init_ok, of 100 4096] by auto
  then show ?thesis by (auto split: if_splits)
qed

lemma slab_free_spec_witness:
  "\<exists>s' a s2. slab_alloc 4096 100 slab_init = Some (s', a) \<and> a \<noteq> NULL \<and> slab_free a s' = Some s2"
proof -
  have "unat (100 :: u64) \<le> 1024" "(100 :: u64) \<noteq> 0" by simp_all
  from slab_alloc_core [OF slab_init_ok this(2) aligned(1,2,4) [OF this(2,1)], of 4096] obtain s' a where
    a: "slab_alloc 4096 100 slab_init = Some (s', a)" "a \<noteq> NULL" "granted Map.empty (uint (SLAB_ALIGN 100)) s' a"
    by (auto split: if_splits)
  then obtain cm' z where g: "slab_ok s' cm'" "(a, z) \<in> blocks cm'" unfolding granted_def by auto
  show ?thesis using slab_free_spec [OF g] a by blast
qed

lemma slab_clients_safe_witness:
  "\<exists>s H a b. served s H \<and> a \<noteq> b \<and> H a = Some 100 \<and> H b = Some 200 \<and> slab_free a s \<noteq> None \<and> (a + 108 \<le> b \<or> b + 208 \<le> a)"
proof -
  have n: "(100 :: u64) \<noteq> 0" "unat (100 :: u64) \<le> 1024" "(200 :: u64) \<noteq> 0" "unat (200 :: u64) \<le> 1024" by simp_all
  have "(4096 :: ptr) = NULL \<or> 4096 dvd (4096 :: ptr) \<and> sb_pages slab_init 4096 = None" by (simp add: slab_init_def)
  from served_alloc [OF served.start n(1,2) this] obtain s1 a where a: "slab_alloc 4096 100 slab_init = Some (s1, a)" "a \<noteq> NULL" by auto
  have s1: "served s1 [a \<mapsto> 100]" using served.alloc [OF served.start n(1,2) _ a(1)] a(2) by (simp add: slab_init_def)
  obtain cm where cm: "slab_ok s1 cm" using served_ok [OF s1] by blast
  have "\<exists>q. q \<noteq> NULL \<and> 4096 dvd q \<and> sb_pages s1 q = None"
  proof -
    have "finite (dom (sb_pages s1))"
    proof -
      have "finite (listed f)" for f by (simp add: listed_def heads_def)
      moreover obtain f where "listed f = dom (sb_pages s1)" using cm by (auto simp: slab_ok_def in_lists_def)
      ultimately show ?thesis by metis
    qed
    then obtain n where "\<forall>x \<in> dom (sb_pages s1). x \<le> n" unfolding finite_nat_set_iff_bounded_le by blast
    then have "4096 * Suc n \<notin> dom (sb_pages s1)" by force
    then show ?thesis by (intro exI [of _ "4096 * Suc n"]) auto
  qed
  then obtain q where q: "q \<noteq> NULL" "q = NULL \<or> 4096 dvd q \<and> sb_pages s1 q = None" by blast
  from served_alloc [OF s1 n(3,4) q(2)] q(1) obtain s2 b where b: "slab_alloc q 200 s1 = Some (s2, b)" "b \<noteq> NULL" "b \<noteq> a" by (auto split: if_splits)
  have s2: "served s2 [a \<mapsto> 100, b \<mapsto> 200]" using served.alloc [OF s1 n(3,4) q(2) b(1)] b(2) by simp
  let ?H = "[a \<mapsto> 100, b \<mapsto> 200 :: u64]"
  have H: "?H a = Some 100" "?H b = Some 200" using b(3) by auto
  note C = slab_clients_safe [OF s2, THEN conjunct2]
  have "?H a = None \<or> slab_free a s2 \<noteq> None" by (rule C [THEN conjunct1, rule_format])
  moreover have "a = b \<or> a + unat (100 :: u64) + 8 \<le> b \<or> b + unat (200 :: u64) + 8 \<le> a"
    using C [THEN conjunct2, THEN conjunct1, rule_format, OF conjI [OF H]] by (rule conjunct2)
  ultimately show ?thesis using s2 H b(3) by (intro exI [of _ s2] exI [of _ ?H] exI [of _ a] exI [of _ b]) auto
qed

end
