(* ===== verification/Net_Reactor.thy ===== *)
theory Net_Reactor
  imports Base_Hash Base_Slist
begin

text \<open>
  \<^verbatim>\<open>net/reactor.c\<close>, \<^verbatim>\<open>net/reactor_select.c\<close> and \<^verbatim>\<open>net/reactor_epoll.c\<close>: the event
  demultiplexer over its two back ends.  A handler is its address and its descriptor; the
  descriptor stored at an address is the argument \<open>fd_of\<close>.  The three callbacks of a handler act
  on a state \<open>'s\<close> of the application and on the back end itself (a callback may register and
  unregister handlers); \<open>None\<close> is undefined behaviour.  A descriptor set has the 1024 bits of glibc.  The system calls \<^verbatim>\<open>select\<close>,
  \<^verbatim>\<open>epoll_create\<close>, \<^verbatim>\<open>epoll_ctl\<close> and \<^verbatim>\<open>epoll_wait\<close> and \<^verbatim>\<open>rand\<close> are arguments.  What both back
  ends promise about handlers that were unregistered is the locale \<open>event_source\<close>.
\<close>

section \<open>Handlers and callbacks\<close>

definition EVENT_IN :: int where "EVENT_IN = 1"
definition EVENT_OUT :: int where "EVENT_OUT = 2"

record handler_t =
  h_addr :: ptr
  h_fd :: int

record ('s, 'r) handler_ops =
  in_func :: "ptr \<Rightarrow> 's \<times> 'r \<Rightarrow> (('s \<times> 'r) \<times> int) option"
  out_func :: "ptr \<Rightarrow> 's \<times> 'r \<Rightarrow> (('s \<times> 'r) \<times> int) option"
  close_func :: "ptr \<Rightarrow> 's \<times> 'r \<Rightarrow> (('s \<times> 'r) \<times> int) option"

definition handle_hash :: "handler_t \<Rightarrow> u32" where
  "handle_hash h = word_of_int (h_fd h)"

definition handle_cmp :: "handler_t \<Rightarrow> handler_t \<Rightarrow> int" where
  "handle_cmp h1 h2 = h_fd h1 - h_fd h2"

interpretation handle: hash_element handle_hash handle_cmp
  by unfold_locales (auto simp: handle_hash_def handle_cmp_def)

section \<open>The select back end\<close>

record select_t =
  s_nfds :: int
  s_in_prepare :: "bool list"
  s_out_prepare :: "bool list"
  s_in_set :: "bool list"
  s_out_set :: "bool list"
  s_handler_table :: "handler_t hash_t option"
  s_expired :: "slist_t option"

definition SELECT_SIZE :: int where
  \<comment> \<open>the bits of an \<^verbatim>\<open>fd_set\<close>\<close>
  "SELECT_SIZE = 1024"

definition select_create :: "bool \<Rightarrow> bool \<Rightarrow> bool \<Rightarrow> bool \<Rightarrow> select_t option" where
  \<comment> \<open>\<open>ok\<close>, \<open>okh\<close>, \<open>okt\<close>, \<open>oks\<close>: the four allocations, in order; the reactor has no data yet\<close>
  "select_create ok okh okt oks =
     (if \<not> ok then None
      else (case hash_create (Some handle_hash) (Some handle_cmp) (SELECT_SIZE * 3) okh okt of
          None \<Rightarrow> None
        | Some t \<Rightarrow> (case slist_create oks of
            None \<Rightarrow> None
          | Some sl \<Rightarrow>
              let fds = replicate (nat SELECT_SIZE) False in
              Some \<lparr>s_nfds = 0, s_in_prepare = fds, s_out_prepare = fds, s_in_set = fds, s_out_set = fds,
                    s_handler_table = Some t, s_expired = Some sl\<rparr>)))"

definition set_events :: "select_t \<Rightarrow> int \<Rightarrow> int \<Rightarrow> select_t option" where
  \<comment> \<open>\<^verbatim>\<open>FD_SET\<close> for the requested events\<close>
  "set_events s fd events = do {
     ip \<leftarrow> (if EVENT_IN AND events \<noteq> 0 then wri (s_in_prepare s) fd True else Some (s_in_prepare s));
     op \<leftarrow> (if EVENT_OUT AND events \<noteq> 0 then wri (s_out_prepare s) fd True else Some (s_out_prepare s));
     Some (s\<lparr>s_in_prepare := ip, s_out_prepare := op\<rparr>) }"

definition select_register :: "bool \<Rightarrow> select_t \<Rightarrow> handler_t option \<Rightarrow> int \<Rightarrow> (select_t \<times> int) option" where
  "select_register ok s h events = (case h of
     None \<Rightarrow> Some (s, -1)
   | Some h \<Rightarrow>
       if h_fd h < 0 then Some (s, -1)
       else if h_fd h > SELECT_SIZE then Some (s, -1)
       else do {
         (t, ret) \<leftarrow> hash_insert ok (s_handler_table s) (Some h);
         if ret < 0 then Some (s, ret)
         else do {
           let s = s\<lparr>s_handler_table := t, s_nfds := (if s_nfds s < h_fd h then h_fd h else s_nfds s)\<rparr>;
           s \<leftarrow> set_events s (h_fd h) events;
           Some (s, 0) } })"

definition select_unregister :: "bool \<Rightarrow> select_t \<Rightarrow> handler_t option \<Rightarrow> (select_t \<times> int) option" where
  "select_unregister ok s h = (case h of
     None \<Rightarrow> Some (s, -1)
   | Some h \<Rightarrow> do {
       ip \<leftarrow> wri (s_in_prepare s) (h_fd h) False;
       op \<leftarrow> wri (s_out_prepare s) (h_fd h) False;
       Some (s\<lparr>s_in_prepare := ip, s_out_prepare := op,
               s_expired := fst (slist_push_front ok (s_expired s) (h_addr h))\<rparr>, 0) })"

definition select_modify :: "bool \<Rightarrow> select_t \<Rightarrow> handler_t option \<Rightarrow> int \<Rightarrow> (select_t \<times> int) option" where
  "select_modify ok s h events = (case h of
     None \<Rightarrow> Some (s, -1)
   | Some h \<Rightarrow> do {
       s \<leftarrow> set_events s (h_fd h) events;
       (t, ret) \<leftarrow> hash_insert ok (s_handler_table s) (Some h);
       Some (s\<lparr>s_handler_table := t\<rparr>, 0) })"

definition run_callback ::
  "('s, 'r) handler_ops \<Rightarrow> (ptr \<Rightarrow> 's \<times> 'r \<Rightarrow> (('s \<times> 'r) \<times> int) option) \<Rightarrow> ptr \<Rightarrow> bool \<Rightarrow> 's \<times> 'r \<Rightarrow>
   (('s \<times> 'r) \<times> bool) option" where
  \<comment> \<open>call \<open>f\<close> when the event is there; a negative result closes the handler (\<open>True\<close>)\<close>
  "run_callback cb f h ready st =
     (if \<not> ready then Some (st, False)
      else do {
        (st, ret) \<leftarrow> f h st;
        if ret < 0 then do { (st, _) \<leftarrow> close_func cb h st; Some (st, True) } else Some (st, False) })"

definition run_callbacks ::
  "('s, 'r) handler_ops \<Rightarrow> ptr \<Rightarrow> bool \<Rightarrow> bool \<Rightarrow> 's \<times> 'r \<Rightarrow> (('s \<times> 'r) \<times> bool) option" where
  "run_callbacks cb h i out st = do {
     (st, closed) \<leftarrow> run_callback cb (in_func cb) h i st;
     if closed then Some (st, True) else run_callback cb (out_func cb) h out st }"

definition select_callback ::
  "('s, select_t) handler_ops \<Rightarrow> int \<Rightarrow> int \<Rightarrow> 's \<times> select_t \<Rightarrow> ('s \<times> select_t) option" where
  "select_callback cb fd events st = do {
     h \<leftarrow> hash_find (s_handler_table (snd st)) (Some \<lparr>h_addr = NULL, h_fd = fd\<rparr>);
     (case h of
        None \<Rightarrow> Some st
      | Some h \<Rightarrow>
          if slist_find (s_expired (snd st)) (h_addr h) = 0 then Some st
          else do {
            (st, _) \<leftarrow> run_callbacks cb (h_addr h) (EVENT_IN AND events \<noteq> 0) (EVENT_OUT AND events \<noteq> 0) st;
            Some st }) }"

definition select_next :: "select_t \<Rightarrow> int \<Rightarrow> int" where
  "select_next s i = (if i + 1 > s_nfds s then 0 else i + 1)"

definition select_ready :: "select_t \<Rightarrow> int \<Rightarrow> int option" where
  "select_ready s i = do {
     a \<leftarrow> rdi (s_in_set s) i;
     b \<leftarrow> rdi (s_out_set s) i;
     Some ((if a then EVENT_IN else 0) OR (if b then EVENT_OUT else 0)) }"

partial_function (option) select_loop ::
  "('s, select_t) handler_ops \<Rightarrow> int \<Rightarrow> int \<Rightarrow> int \<Rightarrow> 's \<times> select_t \<Rightarrow> (('s \<times> select_t) \<times> int) option" where
  \<comment> \<open>\<open>j\<close> counts the rounds, \<open>i\<close> is the descriptor looked at last, \<open>n\<close> the callbacks made\<close>
  "select_loop cb j i n st =
     (if j < s_nfds (snd st) + 1 then do {
        res \<leftarrow> select_ready (snd st) (select_next (snd st) i);
        if res = 0 then select_loop cb (j + 1) (select_next (snd st) i) n st
        else do {
          st' \<leftarrow> select_callback cb (select_next (snd st) i) res st;
          select_loop cb (j + 1) (select_next (snd st) i) (n + 1) st' } }
      else Some (st, n))"

partial_function (option) clean_expired :: "(ptr \<Rightarrow> int) \<Rightarrow> select_t \<Rightarrow> select_t option" where
  "clean_expired fd_of s =
     (case slist_pop_front (s_expired s) of (sl, h) \<Rightarrow>
       if h \<noteq> NULL then do {
         (t, _) \<leftarrow> hash_remove (s_handler_table s) (Some \<lparr>h_addr = h, h_fd = fd_of h\<rparr>);
         clean_expired fd_of (s\<lparr>s_expired := sl, s_handler_table := t\<rparr>) }
       else Some (s\<lparr>s_expired := sl\<rparr>))"

definition select_dispatch ::
  "(ptr \<Rightarrow> int) \<Rightarrow> (int \<Rightarrow> bool list \<Rightarrow> bool list \<Rightarrow> int \<times> bool list \<times> bool list) \<Rightarrow> bool \<Rightarrow> int \<Rightarrow> int \<Rightarrow>
   ('s, select_t) handler_ops \<Rightarrow> 's \<times> select_t \<Rightarrow> (('s \<times> select_t) \<times> int) option" where
  \<comment> \<open>\<open>sel\<close>: the system call, with its result and the two sets it leaves; \<open>eintr\<close>, \<open>errno\<close>: the
     error when it failed; \<open>rnd\<close>: the random number that picks the first descriptor\<close>
  "select_dispatch fd_of sel eintr errno rnd cb st =
     (let s = snd st; s = s\<lparr>s_in_set := s_in_prepare s, s_out_set := s_out_prepare s\<rparr> in
      case sel (s_nfds s + 1) (s_in_set s) (s_out_set s) of (res, is, os) \<Rightarrow>
      let s = s\<lparr>s_in_set := is, s_out_set := os\<rparr> in
      if res < 0 then Some ((fst st, s), if \<not> eintr then - errno else 1)
      else do {
        (st, n) \<leftarrow> select_loop cb 0 (rnd mod (s_nfds s + 1)) 0 (fst st, s);
        s \<leftarrow> clean_expired fd_of (snd st);
        Some ((fst st, s), n) })"

section \<open>The epoll back end\<close>

definition EPOLLIN :: int where "EPOLLIN = 1"
definition EPOLLOUT :: int where "EPOLLOUT = 4"
definition EPOLLERR :: int where "EPOLLERR = 8"
definition EPOLLHUP :: int where "EPOLLHUP = 16"

datatype epoll_option = EPOLL_CTL_ADD | EPOLL_CTL_DEL | EPOLL_CTL_MOD

record 'k epoll_t =
  ep_fd :: int
  ep_expired :: "slist_t option"
  ep_kernel :: 'k \<comment> \<open>what the kernel keeps for the descriptor\<close>

definition epoll_init :: "bool \<Rightarrow> int \<Rightarrow> 'k \<Rightarrow> bool \<Rightarrow> 'k epoll_t option" where
  \<comment> \<open>\<open>efd\<close>: the result of \<^verbatim>\<open>epoll_create\<close>\<close>
  "epoll_init ok efd k oks =
     (if \<not> ok then None
      else if efd < 0 then None
      else (case slist_create oks of None \<Rightarrow> None
        | Some sl \<Rightarrow> Some \<lparr>ep_fd = efd, ep_expired = Some sl, ep_kernel = k\<rparr>))"

definition epoll_set ::
  "(epoll_option \<Rightarrow> int \<Rightarrow> (int \<times> ptr) option \<Rightarrow> 'k \<Rightarrow> 'k \<times> int) \<Rightarrow> 'k epoll_t \<Rightarrow> handler_t option \<Rightarrow> epoll_option \<Rightarrow> int \<Rightarrow> 'k epoll_t \<times> int" where
  \<comment> \<open>\<open>ctl\<close>: \<^verbatim>\<open>epoll_ctl\<close>, which gets the event mask and the address to report\<close>
  "epoll_set ctl ep h option events = (case h of
     None \<Rightarrow> (ep, -1)
   | Some h \<Rightarrow>
       if ep_fd ep < 0 then (ep, -1)
       else if option = EPOLL_CTL_DEL then
         (case ctl EPOLL_CTL_DEL (h_fd h) None (ep_kernel ep) of (k, r) \<Rightarrow> (ep\<lparr>ep_kernel := k\<rparr>, r))
       else
         let m = (if EVENT_IN AND events \<noteq> 0 then EPOLLIN OR EPOLLERR else 0);
             m = (if EVENT_OUT AND events \<noteq> 0 then m OR EPOLLOUT else m) in
         (case ctl option (h_fd h) (Some (m, h_addr h)) (ep_kernel ep) of (k, r) \<Rightarrow> (ep\<lparr>ep_kernel := k\<rparr>, r)))"

definition epoll_register ::
  "(epoll_option \<Rightarrow> int \<Rightarrow> (int \<times> ptr) option \<Rightarrow> 'k \<Rightarrow> 'k \<times> int) \<Rightarrow> 'k epoll_t \<Rightarrow> handler_t option \<Rightarrow> int \<Rightarrow> 'k epoll_t \<times> int" where
  "epoll_register ctl ep h events = epoll_set ctl ep h EPOLL_CTL_ADD events"

definition epoll_unregister ::
  "(epoll_option \<Rightarrow> int \<Rightarrow> (int \<times> ptr) option \<Rightarrow> 'k \<Rightarrow> 'k \<times> int) \<Rightarrow> bool \<Rightarrow> 'k epoll_t \<Rightarrow> handler_t option \<Rightarrow> 'k epoll_t \<times> int" where
  "epoll_unregister ctl ok ep h = (case h of
     None \<Rightarrow> (ep, -1)
   | Some h \<Rightarrow> epoll_set ctl (ep\<lparr>ep_expired := fst (slist_push_front ok (ep_expired ep) (h_addr h))\<rparr>) (Some h) EPOLL_CTL_DEL 0)"

definition epoll_modify ::
  "(epoll_option \<Rightarrow> int \<Rightarrow> (int \<times> ptr) option \<Rightarrow> 'k \<Rightarrow> 'k \<times> int) \<Rightarrow> 'k epoll_t \<Rightarrow> handler_t option \<Rightarrow> int \<Rightarrow> 'k epoll_t \<times> int" where
  "epoll_modify ctl ep h events = epoll_set ctl ep h EPOLL_CTL_MOD events"

definition epoll_callback ::
  "('s, 'k epoll_t) handler_ops \<Rightarrow> int \<times> ptr \<Rightarrow> 's \<times> 'k epoll_t \<Rightarrow> ('s \<times> 'k epoll_t) option" where
  \<comment> \<open>one reported event: its mask and the address of the handler\<close>
  "epoll_callback cb e st = (case e of (type, h) \<Rightarrow>
     if slist_find (ep_expired (snd st)) h = 0 then Some st
     else do {
       (st, closed) \<leftarrow> run_callbacks cb h (EPOLLIN AND type \<noteq> 0 \<or> EPOLLHUP AND type \<noteq> 0) (EPOLLOUT AND type \<noteq> 0) st;
       if closed then Some st
       else if EPOLLERR AND type \<noteq> 0 then do { (st, _) \<leftarrow> close_func cb h st; Some st }
       else Some st })"

definition epoll_dispatch ::
  "('k \<Rightarrow> 'k \<times> (int \<times> ptr) list option) \<Rightarrow> bool \<Rightarrow> int \<Rightarrow>
   ('s, 'k epoll_t) handler_ops \<Rightarrow> 's \<times> 'k epoll_t \<Rightarrow> (('s \<times> 'k epoll_t) \<times> int) option" where
  \<comment> \<open>\<open>wait\<close>: \<^verbatim>\<open>epoll_wait\<close>, with the reported events or a failure\<close>
  "epoll_dispatch wait eintr errno cb st =
     (case wait (ep_kernel (snd st)) of (k, r) \<Rightarrow>
      let ep = (snd st)\<lparr>ep_kernel := k\<rparr> in
      case r of
        None \<Rightarrow> Some ((fst st, ep), if eintr then 0 else - errno)
      | Some evs \<Rightarrow> do {
          (s, ep) \<leftarrow> foldM (epoll_callback cb) evs (fst st, ep);
          Some ((s, ep\<lparr>ep_expired := fst (slist_clean (ep_expired ep))\<rparr>), int (length evs)) })"

section \<open>The dispatching entry points\<close>

datatype 'k backend = Select select_t | Epoll "'k epoll_t"

definition reactor_register ::
  "(epoll_option \<Rightarrow> int \<Rightarrow> (int \<times> ptr) option \<Rightarrow> 'k \<Rightarrow> 'k \<times> int) \<Rightarrow> bool \<Rightarrow> 'k backend option \<Rightarrow> handler_t option \<Rightarrow> int \<Rightarrow> 
   ('k backend option \<times> int) option" where
  \<comment> \<open>\<^verbatim>\<open>reactor->impl->add\<close>; \<open>None\<close> is the null reactor\<close>
  "reactor_register ctl ok r h events = (case r of
     None \<Rightarrow> Some (None, -1)
   | Some (Select s) \<Rightarrow> map_option (\<lambda>(s, ret). (Some (Select s), ret)) (select_register ok s h events)
   | Some (Epoll ep) \<Rightarrow> (case epoll_register ctl ep h events of (ep, ret) \<Rightarrow> Some (Some (Epoll ep), ret)))"

definition reactor_unregister ::
  "(epoll_option \<Rightarrow> int \<Rightarrow> (int \<times> ptr) option \<Rightarrow> 'k \<Rightarrow> 'k \<times> int) \<Rightarrow> bool \<Rightarrow> 'k backend option \<Rightarrow> handler_t option \<Rightarrow> 
   ('k backend option \<times> int) option" where
  "reactor_unregister ctl ok r h = (case r of
     None \<Rightarrow> Some (None, -1)
   | Some (Select s) \<Rightarrow> map_option (\<lambda>(s, ret). (Some (Select s), ret)) (select_unregister ok s h)
   | Some (Epoll ep) \<Rightarrow> (case epoll_unregister ctl ok ep h of (ep, ret) \<Rightarrow> Some (Some (Epoll ep), ret)))"

definition reactor_modify ::
  "(epoll_option \<Rightarrow> int \<Rightarrow> (int \<times> ptr) option \<Rightarrow> 'k \<Rightarrow> 'k \<times> int) \<Rightarrow> bool \<Rightarrow> 'k backend option \<Rightarrow> handler_t option \<Rightarrow> int \<Rightarrow> 
   ('k backend option \<times> int) option" where
  "reactor_modify ctl ok r h events = (case r of
     None \<Rightarrow> Some (None, -1)
   | Some (Select s) \<Rightarrow> map_option (\<lambda>(s, ret). (Some (Select s), ret)) (select_modify ok s h events)
   | Some (Epoll ep) \<Rightarrow> (case epoll_modify ctl ep h events of (ep, ret) \<Rightarrow> Some (Some (Epoll ep), ret)))"

section \<open>The contract on unregistered handlers\<close>

definition same_but :: "ptr \<Rightarrow> ('s, 'r) handler_ops \<Rightarrow> ('s, 'r) handler_ops \<Rightarrow> bool" where
  \<comment> \<open>the callbacks differ at most for the handler \<open>h\<close>\<close>
  "same_but h cb cb' \<longleftrightarrow> (\<forall>a. a \<noteq> h \<longrightarrow> in_func cb a = in_func cb' a \<and> out_func cb a = out_func cb' a
     \<and> close_func cb a = close_func cb' a)"

definition keeps :: "('r \<Rightarrow> ptr set) \<Rightarrow> ('s, 'r) handler_ops \<Rightarrow> bool" where
  \<comment> \<open>no callback takes a handler off the list of expired ones\<close>
  "keeps expired cb \<longleftrightarrow> (\<forall>f \<in> {in_func cb, out_func cb, close_func cb}. \<forall>a s r s' r' ret.
     f a (s, r) = Some ((s', r'), ret) \<longrightarrow> expired r \<subseteq> expired r')"

locale event_source =
  fixes visit :: "('s, 'r) handler_ops \<Rightarrow> 'e \<Rightarrow> 's \<times> 'r \<Rightarrow> ('s \<times> 'r) option"
    and expired :: "'r \<Rightarrow> ptr set"
  assumes visit_other: "h \<in> expired r \<Longrightarrow> same_but h cb cb' \<Longrightarrow> visit cb e (s, r) = visit cb' e (s, r)"
    and visit_keeps: "keeps expired cb \<Longrightarrow> visit cb e (s, r) = Some (s', r') \<Longrightarrow> expired r \<subseteq> expired r'"
begin

lemma batch_other:
  "h \<in> expired r \<Longrightarrow> same_but h cb cb' \<Longrightarrow> keeps expired cb \<Longrightarrow>
     foldM (visit cb) evs (s, r) = foldM (visit cb') evs (s, r)"
proof (induction evs arbitrary: s r)
  case (Cons e evs)
  have 1: "visit cb e (s, r) = visit cb' e (s, r)" using visit_other Cons.prems by blast
  show ?case
  proof (cases "visit cb e (s, r)")
    case (Some st)
    obtain s' r' where st: "st = (s', r')" by (cases st)
    have "h \<in> expired r'" using visit_keeps [OF Cons.prems(3)] Some st Cons.prems(1) by blast
    with Cons.IH [of r' s'] Cons.prems have "foldM (visit cb) evs (s', r') = foldM (visit cb') evs (s', r')" by simp
    then show ?thesis using 1 [symmetric] Some st by simp
  qed (use 1 in simp)
qed simp

end

definition expired_of :: "slist_t option \<Rightarrow> ptr set" where
  "expired_of sl = {h. slist_find sl h = 0}"

lemma run_callbacks_other: "same_but h cb cb' \<Longrightarrow> a \<noteq> h \<Longrightarrow> run_callbacks cb a = run_callbacks cb' a"
proof -
  assume "same_but h cb cb'" "a \<noteq> h"
  then have eq: "in_func cb a = in_func cb' a" "out_func cb a = out_func cb' a" "close_func cb a = close_func cb' a"
    unfolding same_but_def by blast+
  show "run_callbacks cb a = run_callbacks cb' a" unfolding run_callbacks_def run_callback_def eq by (rule refl)
qed

lemma run_callback_keeps:
  assumes "keeps ex cb" "f \<in> {in_func cb, out_func cb}" "run_callback cb f a b (s, r) = Some ((s', r'), c)"
  shows "ex r \<subseteq> ex r'"
proof -
  have k: "ex r1 \<subseteq> ex r2" if "g \<in> {in_func cb, out_func cb, close_func cb}" "g a (s1, r1) = Some ((s2, r2), ret)"
    for g s1 r1 s2 r2 ret using assms(1) that unfolding keeps_def by blast
  have f: "f \<in> {in_func cb, out_func cb, close_func cb}" using assms(2) by blast
  consider "r' = r" | s1 r1 ret where "f a (s, r) = Some ((s1, r1), ret)" "r' = r1"
    | s1 r1 ret ret' where "f a (s, r) = Some ((s1, r1), ret)" "close_func cb a (s1, r1) = Some ((s', r'), ret')"
    using assms(3) by (auto simp: run_callback_def bind_eq_Some_conv split: if_splits)
  then show ?thesis
  proof cases
    case 2
    then show ?thesis using k [OF f 2(1)] by simp
  next
    case 3
    then show ?thesis using k [OF f 3(1)] k [of "close_func cb", OF _ 3(2)] by simp
  qed simp
qed

lemma run_callbacks_keeps:
  assumes "keeps ex cb" "run_callbacks cb a i out (s, r) = Some ((s', r'), c)"
  shows "ex r \<subseteq> ex r'"
proof -
  obtain s1 r1 c1 where 1: "run_callback cb (in_func cb) a i (s, r) = Some ((s1, r1), c1)"
    "(if c1 then Some ((s1, r1), True) else run_callback cb (out_func cb) a out (s1, r1)) = Some ((s', r'), c)"
    using assms(2) by (auto simp: run_callbacks_def bind_eq_Some_conv)
  have "ex r \<subseteq> ex r1" by (rule run_callback_keeps [OF assms(1) _ 1(1)]) simp
  moreover have "ex r1 \<subseteq> ex r'"
  proof (cases c1)
    case False
    then have "run_callback cb (out_func cb) a out (s1, r1) = Some ((s', r'), c)" using 1(2) by simp
    then show ?thesis by (rule run_callback_keeps [OF assms(1), rotated]) simp
  qed (use 1(2) in simp)
  ultimately show ?thesis by (rule subset_trans)
qed

interpretation select_source: event_source "\<lambda>cb (fd, events). select_callback cb fd events" "\<lambda>s. expired_of (s_expired s)"
proof
  fix h and r :: select_t and cb cb' :: "('s, select_t) handler_ops" and e s
  assume h: "h \<in> expired_of (s_expired r)" "same_but h cb cb'"
  show "(case e of (fd, events) \<Rightarrow> select_callback cb fd events) (s, r) = (case e of (fd, events) \<Rightarrow> select_callback cb' fd events) (s, r)"
  proof -
    have "slist_find (s_expired r) a \<noteq> 0 \<Longrightarrow> run_callbacks cb a = run_callbacks cb' a" for a
      using h(1) run_callbacks_other [OF h(2), of a] by (auto simp: expired_of_def)
    then show ?thesis
      by (cases e) (auto simp: select_callback_def intro!: Option.bind_cong split: option.split)
  qed
next
  fix cb :: "('s, select_t) handler_ops" and e s s' r r'
  assume k: "keeps (\<lambda>s. expired_of (s_expired s)) cb" and v: "(case e of (fd, events) \<Rightarrow> select_callback cb fd events) (s, r) = Some (s', r')"
  show "expired_of (s_expired r) \<subseteq> expired_of (s_expired r')"
  proof -
    obtain fd events where e: "e = (fd, events)" by (cases e)
    from v consider "r' = r" | h i out c where "run_callbacks cb h i out (s, r) = Some ((s', r'), c)"
      unfolding e prod.case select_callback_def by (auto simp: bind_eq_Some_conv simp del: hash_find.simps split: option.splits if_splits)
    then show ?thesis
      by cases (simp, rule run_callbacks_keeps [OF k])
  qed
qed

interpretation epoll_source: event_source epoll_callback "\<lambda>ep. expired_of (ep_expired ep)"
proof
  fix h and r :: "'k epoll_t" and cb cb' :: "('s, 'k epoll_t) handler_ops" and e s
  assume h: "h \<in> expired_of (ep_expired r)" "same_but h cb cb'"
  have "close_func cb a = close_func cb' a" if "a \<noteq> h" for a using h(2) that by (simp add: same_but_def)
  then have "slist_find (ep_expired r) a \<noteq> 0 \<Longrightarrow> run_callbacks cb a = run_callbacks cb' a \<and> close_func cb a = close_func cb' a" for a
    using h(1) run_callbacks_other [OF h(2), of a] by (cases "a = h") (simp_all add: expired_of_def)
  then show "epoll_callback cb e (s, r) = epoll_callback cb' e (s, r)"
  proof -
    assume eq: "\<And>a. slist_find (ep_expired r) a \<noteq> 0 \<Longrightarrow> run_callbacks cb a = run_callbacks cb' a \<and> close_func cb a = close_func cb' a"
    obtain type a where e: "e = (type, a)" by (cases e)
    show ?thesis
    proof (cases "slist_find (ep_expired r) a = 0")
      case False
      have 1: "run_callbacks cb a = run_callbacks cb' a" and 2: "close_func cb a = close_func cb' a" using eq [OF False] by blast+
      show ?thesis unfolding epoll_callback_def e prod.case 1 2 by (rule refl)
    qed (simp add: epoll_callback_def e)
  qed
next
  fix cb :: "('s, 'k epoll_t) handler_ops" and e s s' r r'
  assume k: "keeps (\<lambda>s. expired_of (ep_expired s)) cb" and v: "epoll_callback cb e (s, r) = Some (s', r')"
  have c: "expired_of (ep_expired r1) \<subseteq> expired_of (ep_expired r2)" if "close_func cb a (s1, r1) = Some ((s2, r2), ret)"
    for a s1 r1 s2 r2 ret using k that unfolding keeps_def by blast
  show "expired_of (ep_expired r) \<subseteq> expired_of (ep_expired r')"
    using v run_callbacks_keeps [OF k] c
    by (cases e) (auto simp: epoll_callback_def bind_eq_Some_conv split: if_splits prod.splits, blast+)
qed

section \<open>Properties\<close>

lemma option_eqI:
  "(\<And>y. x = Some y \<Longrightarrow> x' = Some y) \<Longrightarrow> (\<And>y. x' = Some y \<Longrightarrow> x = Some y) \<Longrightarrow> x = x'"
  by (cases x; cases x') auto

lemma select_loop_other:
  assumes "select_loop cb j i n st = Some y" "h \<in> expired_of (s_expired (snd st))" "same_but h cb cb'"
    "keeps (\<lambda>s. expired_of (s_expired s)) cb"
  shows "select_loop cb' j i n st = Some y"
proof -
  have "cb = cb \<longrightarrow> h \<in> expired_of (s_expired (snd st)) \<longrightarrow> select_loop cb' j i n st = Some y"
  proof (rule select_loop.raw_induct [where P = "\<lambda>c j i n st y. c = cb \<longrightarrow> h \<in> expired_of (s_expired (snd st)) \<longrightarrow>
      select_loop cb' j i n st = Some y", rotated])
    show "select_loop cb j i n st = Some y" by (rule assms(1))
  next
    fix loop c j i n and st :: "'a \<times> select_t" and y
    let ?i = "select_next (snd st) i"
    assume IH: "\<And>c j i n st y. loop c j i n st = Some y \<Longrightarrow> c = cb \<longrightarrow> h \<in> expired_of (s_expired (snd st)) \<longrightarrow> select_loop cb' j i n st = Some y"
      and body: "(if j < s_nfds (snd st) + 1 then do {
        res \<leftarrow> select_ready (snd st) ?i;
        if res = 0 then loop c (j + 1) ?i n st
        else do { st' \<leftarrow> select_callback c ?i res st; loop c (j + 1) ?i (n + 1) st' } }
      else Some (st, n)) = Some y"
    show "c = cb \<longrightarrow> h \<in> expired_of (s_expired (snd st)) \<longrightarrow> select_loop cb' j i n st = Some y"
    proof (intro impI)
      assume c: "c = cb" and h: "h \<in> expired_of (s_expired (snd st))"
      show "select_loop cb' j i n st = Some y"
      proof (cases "j < s_nfds (snd st) + 1")
        case False
        then show ?thesis using body by (subst select_loop.simps) simp
      next
        case True
        obtain res where res: "select_ready (snd st) ?i = Some res"
          using body True by (auto simp: bind_eq_Some_conv)
        show ?thesis
        proof (cases "res = 0")
          case zero: True
          have "loop cb (j + 1) ?i n st = Some y" using body True res zero c by simp
          from IH [OF this] h show ?thesis using zero True res by (subst select_loop.simps) simp
        next
          case False
          then obtain st1 where st1: "select_callback cb ?i res st = Some st1" "loop cb (j + 1) ?i (n + 1) st1 = Some y"
            using body True res c by (auto simp: bind_eq_Some_conv)
          have v: "select_callback cb' ?i res st = Some st1"
            using select_source.visit_other [OF h assms(3), of "(?i, res)" "fst st"] st1(1) by simp
          have "h \<in> expired_of (s_expired (snd st1))"
            using select_source.visit_keeps [OF assms(4), of "(?i, res)" "fst st" "snd st" "fst st1" "snd st1"] st1(1) h by auto
          then have "select_loop cb' (j + 1) ?i (n + 1) st1 = Some y" using IH [OF st1(2)] by blast
          then show ?thesis using False True res v by (subst select_loop.simps) simp
        qed
      qed
    qed
  qed
  then show ?thesis using assms(2) by blast
qed

lemma same_but_sym: "same_but h cb cb' \<Longrightarrow> same_but h cb' cb"
  by (simp add: same_but_def)


definition quiet_ops :: "('s, 'r) handler_ops" where
  \<comment> \<open>callbacks that do nothing\<close>
  "quiet_ops = \<lparr>in_func = \<lambda>h st. Some (st, 0), out_func = \<lambda>h st. Some (st, 0), close_func = \<lambda>h st. Some (st, 0)\<rparr>"

definition crash_ops :: "ptr \<Rightarrow> ('s, 'r) handler_ops" where
  \<comment> \<open>as \<open>quiet_ops\<close>, but undefined for one handler\<close>
  "crash_ops h = \<lparr>in_func = \<lambda>a st. if a = h then None else Some (st, 0),
     out_func = \<lambda>a st. if a = h then None else Some (st, 0), close_func = \<lambda>a st. if a = h then None else Some (st, 0)\<rparr>"

lemma crash_ops_keeps: "keeps ex (crash_ops h)" "keeps ex quiet_ops" "same_but h (crash_ops h) quiet_ops"
  by (auto simp: keeps_def crash_ops_def quiet_ops_def same_but_def split: if_splits)


text \<open>The handler table of the select back end: descriptors below 1024 in 3072 buckets never share one.\<close>

definition tab_ok :: "handler_t hash_t \<Rightarrow> bool" where
  "tab_ok t \<longleftrightarrow> handle.uses t \<and> m_size t = 3072
     \<and> (\<forall>chain \<in> set (m_table t). \<forall>x \<in> set chain. 0 \<le> h_fd x \<and> h_fd x < 1024)"

lemma tab_index:
  assumes "m_size t = 3072" "m_hash_func t = handle_hash" "0 \<le> h_fd x" "h_fd x < 1024"
  shows "hash_index t x = nat (h_fd x)"
proof -
  have "unat (word_of_int (h_fd x) :: u32) = nat (h_fd x)"
    using assms(3,4) by (simp add: unsigned_of_int take_bit_int_eq_self)
  then show ?thesis using assms by (simp add: hash_index_def handle_hash_def unat_mod_distrib)
qed

lemma tab_chain:
  assumes "tab_ok t" "i < 3072"
  shows "m_table t ! i = [] \<or> (\<exists>x. m_table t ! i = [x] \<and> nat (h_fd x) = i)"
proof -
  have u: "hash_ok t" "m_hash_func t = handle_hash" "m_cmp_func t = handle_cmp" "m_size t = 3072"
    using assms(1) by (auto simp: tab_ok_def handle.uses_def)
  have len: "i < length (m_table t)" using u(1,4) assms(2) by (simp add: hash_ok_def hash_wf_def)
  have at: "nat (h_fd x) = i \<and> 0 \<le> h_fd x" if "x \<in> set (m_table t ! i)" for x
  proof -
    have "hash_index t x = i" using u(1) len that by (simp add: hash_ok_def)
    moreover have "0 \<le> h_fd x \<and> h_fd x < 1024" using assms(1) that nth_mem [OF len] unfolding tab_ok_def by blast
    ultimately show ?thesis using tab_index [OF u(4,2)] by auto
  qed
  have "distinct_wrt handle_cmp (m_table t ! i)" using u len by (simp add: hash_ok_def)
  then show ?thesis
  proof (cases "m_table t ! i")
    case Nil
    then show ?thesis by simp
  next
    case 2: (Cons x xs)
    have "y = x \<or> False" if "y \<in> set xs" for y
    proof -
      have "handle_cmp x y \<noteq> 0" using \<open>distinct_wrt handle_cmp (m_table t ! i)\<close> 2 that by simp
      moreover have "h_fd x = h_fd y" using at [of x] at [of y] 2 that by auto
      ultimately show ?thesis by (simp add: handle_cmp_def)
    qed
    moreover have "x \<notin> set xs" using \<open>distinct_wrt handle_cmp (m_table t ! i)\<close> 2 by (auto simp: handle_cmp_def)
    ultimately have "xs = []" by (cases xs) auto
    then show ?thesis using 2 at [of x] by simp
  qed
qed

lemma tab_lookup:
  assumes "tab_ok t"
  shows "hash_find (Some t) (Some d) = Some (hash_lookup t d)"
    and "hash_lookup t d = Some x \<Longrightarrow> h_fd x = h_fd d \<and> 0 \<le> h_fd x \<and> h_fd x < 1024"
proof -
  have u: "hash_wf t" "m_cmp_func t = handle_cmp" using assms by (auto simp: tab_ok_def handle.uses_def hash_ok_def)
  show "hash_find (Some t) (Some d) = Some (hash_lookup t d)" by (rule hash_find_lookup [OF u(1)])
  assume "hash_lookup t d = Some x"
  then have x: "x \<in> set (m_table t ! hash_index t d)" "handle_cmp x d = 0"
    using chain_find_Some u(2) unfolding hash_lookup_def by metis+
  have m: "m_table t ! hash_index t d \<in> set (m_table t)" by (rule nth_mem [OF hash_index_bound [OF u(1)]])
  have "h_fd x = h_fd d" using x(2) by (simp add: handle_cmp_def)
  moreover have "0 \<le> h_fd x \<and> h_fd x < 1024" using assms x(1) m unfolding tab_ok_def by blast
  ultimately show "h_fd x = h_fd d \<and> 0 \<le> h_fd x \<and> h_fd x < 1024" by blast
qed

lemma tab_insert:
  assumes "tab_ok t" "0 \<le> h_fd d" "h_fd d < 1024"
  obtains t' where "hash_insert True (Some t) (Some d) = Some (Some t', if hash_lookup t d = None then 0 else -1)" "tab_ok t'"
    "\<And>e. hash_lookup t' e = (if hash_lookup t d = None \<and> h_fd e = h_fd d then Some d else hash_lookup t e)"
proof -
  have u: "handle.uses t" using assms(1) by (simp add: tab_ok_def)
  obtain t' ret where t': "hash_insert True (Some t) (Some d) = Some (Some t', ret)" "handle.uses t'"
    "ret = (if hash_lookup t d = None then 0 else -1)"
    "\<And>e. hash_lookup t' e = (if hash_lookup t d = None \<and> handle_cmp d e = 0 then Some d else hash_lookup t e)"
    using handle.insert_spec [OF u, of d] by metis
  have shape: "m_size t' = m_size t \<and> (\<forall>chain \<in> set (m_table t'). \<forall>x \<in> set chain. x = d \<or> (\<exists>c \<in> set (m_table t). x \<in> set c))"
  proof -
    have i: "hash_index t d < length (m_table t)" using u by (simp add: handle.uses_def hash_ok_def hash_index_bound)
    have "t' = t \<or> t' = t\<lparr>m_table := (m_table t)[hash_index t d := m_table t ! hash_index t d @ [d]], m_count := m_count t + 1\<rparr>"
      using t'(1) i by (auto simp: Let_def split: if_splits)
    then show ?thesis
    proof
      assume t2: "t' = t\<lparr>m_table := (m_table t)[hash_index t d := m_table t ! hash_index t d @ [d]], m_count := m_count t + 1\<rparr>"
      have "x = d \<or> (\<exists>c \<in> set (m_table t). x \<in> set c)" if "chain \<in> set (m_table t')" "x \<in> set chain" for chain x
      proof -
        have "chain = m_table t ! hash_index t d @ [d] \<or> chain \<in> set (m_table t)"
          using that(1) set_update_subset_insert [of "m_table t" "hash_index t d" "m_table t ! hash_index t d @ [d]"] t2 by auto
        then show ?thesis using that(2) nth_mem [OF i] by auto
      qed
      then show ?thesis using t2 by simp
    qed blast
  qed
  then have sz: "m_size t' = 3072" and old: "\<And>chain x. chain \<in> set (m_table t') \<Longrightarrow> x \<in> set chain \<Longrightarrow> x = d \<or> (\<exists>c \<in> set (m_table t). x \<in> set c)"
    using assms(1) by (auto simp: tab_ok_def)
  have "0 \<le> h_fd x \<and> h_fd x < 1024" if "chain \<in> set (m_table t')" "x \<in> set chain" for chain x
    using old [OF that] assms unfolding tab_ok_def by blast
  then have ok: "tab_ok t'" using sz t'(2) unfolding tab_ok_def by blast
  have "handle_cmp d e = 0 \<longleftrightarrow> h_fd e = h_fd d" for e by (auto simp: handle_cmp_def)
  then show thesis using that [OF _ ok] t'(1,3,4) by presburger
qed

lemma tab_remove:
  assumes "tab_ok t"
  obtains t' r where "hash_remove (Some t) (Some d) = Some (Some t', r)" "tab_ok t'"
    "\<And>e. 0 \<le> h_fd e \<Longrightarrow> h_fd e < 1024 \<Longrightarrow> hash_lookup t' e = (if h_fd e = h_fd d then None else hash_lookup t e)"
proof -
  have u: "hash_ok t" "m_hash_func t = handle_hash" "m_cmp_func t = handle_cmp" "m_size t = 3072"
    using assms by (auto simp: tab_ok_def handle.uses_def)
  have wf: "hash_wf t" using u(1) by (simp add: hash_ok_def)
  let ?i = "hash_index t d"
  have len: "length (m_table t) = 3072" using wf u(4) by (simp add: hash_wf_def)
  have i: "?i < 3072" using hash_index_bound [OF wf, of d] len by simp
  show thesis
  proof (cases "hash_lookup t d")
    case None
    then have "chain_remove (m_cmp_func t) b (m_table t ! ?i) d = None" for b
      by (simp add: hash_lookup_def chain_remove_None)
    then have "hash_remove (Some t) (Some d) = Some (Some t, None)" using i len by simp
    moreover have "hash_lookup t e = None" if "h_fd e = h_fd d" for e
      using handle.find_equal [of t d e] None that assms by (simp add: tab_ok_def handle_cmp_def)
    ultimately show thesis using that assms by auto
  next
    case (Some x)
    have x: "h_fd x = h_fd d" "0 \<le> h_fd x" "h_fd x < 1024" using tab_lookup(2) [OF assms Some] by auto
    have ch: "m_table t ! ?i = [x]" "nat (h_fd x) = ?i"
      using Some tab_chain [OF assms i] by (auto simp: hash_lookup_def split: if_splits)
    let ?t = "t\<lparr>m_table := (m_table t)[?i := []], m_count := m_count t - 1\<rparr>"
    have idx: "hash_index ?t e = hash_index t e" for e by (simp add: hash_index_def)
    have "hash_remove (Some t) (Some d) = Some (Some ?t, Some x)"
      using ch i len u(3) x(1) by (simp add: handle_cmp_def)
    moreover have "tab_ok ?t"
    proof -
      have p1: "\<forall>j < length (m_table t). \<forall>y \<in> set ((m_table t)[?i := []] ! j). hash_index t y = j"
        using u(1) i len by (auto simp: hash_ok_def nth_list_update)
      have p2: "\<forall>j < length (m_table t). distinct_wrt handle_cmp ((m_table t)[?i := []] ! j)"
        using u(1,3) i len by (auto simp: hash_ok_def nth_list_update)
      have p3: "m_count t - 1 = int (sum_list (map length ((m_table t)[?i := []])))"
        using u(1) sum_list_update_len [of ?i "m_table t" "[]"] i len ch(1) by (simp add: hash_ok_def)
      have p4: "hash_wf ?t" using wf by (simp add: hash_wf_def)
      have sel: "m_table ?t = (m_table t)[?i := []]" "m_cmp_func ?t = handle_cmp" "m_count ?t = m_count t - 1"
        "m_hash_func ?t = handle_hash" "m_size ?t = 3072" using u by simp_all
      have "hash_ok ?t" unfolding hash_ok_def idx sel length_list_update by (intro conjI p1 p2 p3 p4)
      moreover have "0 \<le> h_fd y \<and> h_fd y < 1024" if "chain \<in> set ((m_table t)[?i := []])" "y \<in> set chain" for chain y
      proof -
        have "chain \<in> set (m_table t)" using that set_update_subset_insert [of "m_table t" ?i "[]"] by auto
        then show ?thesis using that(2) assms unfolding tab_ok_def by blast
      qed
      ultimately show ?thesis unfolding tab_ok_def handle.uses_def sel by blast
    qed
    moreover have "hash_lookup ?t e = (if h_fd e = h_fd d then None else hash_lookup t e)" if "0 \<le> h_fd e" "h_fd e < 1024" for e
    proof -
      have ie: "hash_index t e = nat (h_fd e)" using tab_index [OF u(4,2) that] .
      have id: "?i = nat (h_fd d)" using ch(2) x(1) by simp
      have lk: "hash_lookup ?t e = chain_find (m_cmp_func t) ((m_table t)[?i := []] ! hash_index t e) e"
        by (simp add: hash_lookup_def idx)
      show ?thesis
      proof (cases "h_fd e = h_fd d")
        case True
        then have "hash_index t e = ?i" using ie id by simp
        then show ?thesis using True i len unfolding lk by simp
      next
        case False
        then have "hash_index t e \<noteq> ?i" using ie id that x by auto
        then show ?thesis using False unfolding lk by (simp add: hash_lookup_def)
      qed
    qed
    ultimately show thesis using that by blast
  qed
qed

subsection \<open>The state of the select back end\<close>

definition in_table :: "select_t \<Rightarrow> int \<Rightarrow> handler_t option" where
  \<comment> \<open>the handler the table holds for a descriptor\<close>
  "in_table s fd = (case s_handler_table s of None \<Rightarrow> None | Some t \<Rightarrow> hash_lookup t \<lparr>h_addr = NULL, h_fd = fd\<rparr>)"

definition select_inv :: "(ptr \<Rightarrow> int) \<Rightarrow> select_t \<Rightarrow> bool" where
  "select_inv fd_of s \<longleftrightarrow> 0 \<le> s_nfds s \<and> s_nfds s < 1024
     \<and> length (s_in_prepare s) = 1024 \<and> length (s_out_prepare s) = 1024
     \<and> length (s_in_set s) = 1024 \<and> length (s_out_set s) = 1024
     \<and> (\<exists>t sl. s_handler_table s = Some t \<and> tab_ok t \<and> s_expired s = Some sl \<and> slist_inv sl
          \<and> (\<forall>h \<in> set (sl_nodes sl). 0 \<le> fd_of h \<and> fd_of h < 1024))"

lemma lookup_fd: "tab_ok t \<Longrightarrow> hash_lookup t \<lparr>h_addr = a, h_fd = fd\<rparr> = hash_lookup t \<lparr>h_addr = NULL, h_fd = fd\<rparr>"
  by (rule handle.find_equal) (auto simp: tab_ok_def handle_cmp_def)

lemma set_events_ok:
  assumes "length (s_in_prepare s) = 1024" "length (s_out_prepare s) = 1024" "0 \<le> fd" "fd < 1024"
  shows "set_events s fd ev = Some (s\<lparr>
     s_in_prepare := (if EVENT_IN AND ev \<noteq> 0 then (s_in_prepare s)[nat fd := True] else s_in_prepare s),
     s_out_prepare := (if EVENT_OUT AND ev \<noteq> 0 then (s_out_prepare s)[nat fd := True] else s_out_prepare s)\<rparr>)"
  using assms by (simp add: set_events_def)

lemma in_table_bound: "select_inv fd_of s \<Longrightarrow> in_table s fd = Some x \<Longrightarrow> h_fd x = fd \<and> 0 \<le> fd \<and> fd < 1024"
  using tab_lookup(2) by (fastforce simp: select_inv_def in_table_def)

text \<open>Registration with the select back end, with allocation succeeding: a negative descriptor,
  one above \<open>SELECT_SIZE\<close> and one that is in the table are refused with the state unchanged; any
  other descriptor below 1024 enters the table with exactly the bits of the requested events set and
  \<open>nfds\<close> at least the descriptor.  The descriptor 1024 itself passes the bound check and its bit is
  written outside the set (undefined).\<close>
lemma select_register_spec:
  assumes "select_inv fd_of s"
  shows "(h_fd h < 0 \<or> h_fd h > SELECT_SIZE \<or> in_table s (h_fd h) \<noteq> None \<longrightarrow> select_register True s (Some h) ev = Some (s, -1))
     \<and> (h_fd h = 1024 \<and> (EVENT_IN AND ev \<noteq> 0 \<or> EVENT_OUT AND ev \<noteq> 0) \<longrightarrow> select_register True s (Some h) ev = None)
     \<and> (0 \<le> h_fd h \<and> h_fd h < 1024 \<and> in_table s (h_fd h) = None \<longrightarrow>
        (\<exists>s'. select_register True s (Some h) ev = Some (s', 0) \<and> select_inv fd_of s'
          \<and> (\<forall>fd. in_table s' fd = (if fd = h_fd h then Some h else in_table s fd))
          \<and> s_in_prepare s' = (if EVENT_IN AND ev \<noteq> 0 then (s_in_prepare s)[nat (h_fd h) := True] else s_in_prepare s)
          \<and> s_out_prepare s' = (if EVENT_OUT AND ev \<noteq> 0 then (s_out_prepare s)[nat (h_fd h) := True] else s_out_prepare s)
          \<and> s_nfds s' = max (s_nfds s) (h_fd h)))"
proof -
  obtain t sl where t: "s_handler_table s = Some t" "tab_ok t"
    and inv: "0 \<le> s_nfds s" "s_nfds s < 1024" "length (s_in_prepare s) = 1024" "length (s_out_prepare s) = 1024"
      "length (s_in_set s) = 1024" "length (s_out_set s) = 1024" "s_expired s = Some sl" "slist_inv sl"
      "\<forall>h \<in> set (sl_nodes sl). 0 \<le> fd_of h \<and> fd_of h < 1024"
    using assms unfolding select_inv_def by blast
  have u: "handle.uses t" using t(2) by (simp add: tab_ok_def)
  have lk: "hash_lookup t h = in_table s (h_fd h)"
    using lookup_fd [OF t(2), of "h_addr h" "h_fd h"] t(1) by (cases h) (simp add: in_table_def)
  show ?thesis
  proof (intro conjI impI)
    assume a: "h_fd h < 0 \<or> h_fd h > SELECT_SIZE \<or> in_table s (h_fd h) \<noteq> None"
    show "select_register True s (Some h) ev = Some (s, -1)"
    proof (cases "h_fd h < 0 \<or> h_fd h > SELECT_SIZE")
      case False
      then obtain x where x: "in_table s (h_fd h) = Some x" using a by blast
      then have b: "0 \<le> h_fd h" "h_fd h < 1024" using in_table_bound [OF assms] by auto
      obtain t' where "hash_insert True (Some t) (Some h) = Some (Some t', -1)"
        by (rule tab_insert [OF t(2) b]) (use x lk that in \<open>simp del: hash_insert.simps\<close>)
      then show ?thesis using b t(1) by (simp add: select_register_def SELECT_SIZE_def del: hash_insert.simps)
    qed (auto simp: select_register_def)
  next
    assume a: "h_fd h = 1024 \<and> (EVENT_IN AND ev \<noteq> 0 \<or> EVENT_OUT AND ev \<noteq> 0)"
    then have "in_table s (h_fd h) = None" using in_table_bound [OF assms, of "h_fd h"] by (cases "in_table s (h_fd h)") auto
    then obtain t' where "hash_insert True (Some t) (Some h) = Some (Some t', 0)"
      using handle.insert_spec [OF u, of h] unfolding lk by metis
    then show "select_register True s (Some h) ev = None"
      using a t(1) inv(3,4) by (auto simp: select_register_def SELECT_SIZE_def set_events_def wri_def wr_def simp del: hash_insert.simps)
  next
    assume a: "0 \<le> h_fd h \<and> h_fd h < 1024 \<and> in_table s (h_fd h) = None"
    then have b: "0 \<le> h_fd h" "h_fd h < 1024" "hash_lookup t h = None" using lk by auto
    obtain t' where t': "hash_insert True (Some t) (Some h) = Some (Some t', 0)" "tab_ok t'"
      "\<And>e. hash_lookup t' e = (if h_fd e = h_fd h then Some h else hash_lookup t e)"
      by (rule tab_insert [OF t(2) b(1,2)]) (use b(3) in auto)
    let ?ip = "if EVENT_IN AND ev \<noteq> 0 then (s_in_prepare s)[nat (h_fd h) := True] else s_in_prepare s"
    let ?op = "if EVENT_OUT AND ev \<noteq> 0 then (s_out_prepare s)[nat (h_fd h) := True] else s_out_prepare s"
    let ?s = "s\<lparr>s_handler_table := Some t', s_nfds := max (s_nfds s) (h_fd h), s_in_prepare := ?ip, s_out_prepare := ?op\<rparr>"
    have m: "(if s_nfds s < h_fd h then h_fd h else s_nfds s) = max (s_nfds s) (h_fd h)" by simp
    have "select_register True s (Some h) ev = Some (?s, 0)"
      using b(1,2) t(1) t'(1) inv(3,4)
      by (simp add: select_register_def SELECT_SIZE_def set_events_ok m del: hash_insert.simps)
    moreover have "select_inv fd_of ?s" using t'(2) inv b(2) by (auto simp: select_inv_def)
    moreover have "in_table ?s fd = (if fd = h_fd h then Some h else in_table s fd)" for fd
      using t'(3) t(1) by (simp add: in_table_def)
    ultimately show "\<exists>s'. select_register True s (Some h) ev = Some (s', 0) \<and> select_inv fd_of s'
          \<and> (\<forall>fd. in_table s' fd = (if fd = h_fd h then Some h else in_table s fd))
          \<and> s_in_prepare s' = ?ip \<and> s_out_prepare s' = ?op \<and> s_nfds s' = max (s_nfds s) (h_fd h)"
      by (intro exI [of _ ?s]) simp
  qed
qed

lemma clean_expired_ok:
  assumes "select_inv fd_of s"
  obtains s' where "clean_expired fd_of s = Some s'" "select_inv fd_of s'" "map_option sl_nodes (s_expired s') = Some []"
    "\<And>fd. 0 \<le> fd \<Longrightarrow> fd < 1024 \<Longrightarrow> in_table s' fd = (if \<exists>h \<in> expired_of (s_expired s). fd_of h = fd then None else in_table s fd)"
    "s_nfds s' = s_nfds s"
proof -
  have "\<exists>s'. clean_expired fd_of s = Some s' \<and> select_inv fd_of s' \<and> map_option sl_nodes (s_expired s') = Some []
    \<and> (\<forall>fd. 0 \<le> fd \<longrightarrow> fd < 1024 \<longrightarrow> in_table s' fd = (if \<exists>h \<in> set ns. fd_of h = fd then None else in_table s fd))
    \<and> s_nfds s' = s_nfds s" if "map_option sl_nodes (s_expired s) = Some ns" for ns
    using assms that
  proof (induction ns arbitrary: s)
    case Nil
    then obtain sl where sl: "s_expired s = Some sl" "sl_nodes sl = []" by auto
    then have "s\<lparr>s_expired := Some sl\<rparr> = s" by simp
    then have "clean_expired fd_of s = Some s" using sl by (subst clean_expired.simps) simp
    then show ?case using Nil by simp
  next
    case (Cons h ns)
    obtain t sl where t: "s_handler_table s = Some t" "tab_ok t"
      and inv: "0 \<le> s_nfds s" "s_nfds s < 1024" "length (s_in_prepare s) = 1024" "length (s_out_prepare s) = 1024"
        "length (s_in_set s) = 1024" "length (s_out_set s) = 1024" "s_expired s = Some sl" "slist_inv sl"
        "\<forall>h \<in> set (sl_nodes sl). 0 \<le> fd_of h \<and> fd_of h < 1024"
      using Cons.prems(1) unfolding select_inv_def by blast
    have sl: "sl_nodes sl = h # ns" "h \<noteq> NULL" using Cons.prems(2) inv(7,8) by (auto simp: slist_inv_def)
    let ?sl = "sl\<lparr>sl_size := sl_size sl - 1, sl_nodes := ns\<rparr>"
    obtain t' r where t': "hash_remove (Some t) (Some \<lparr>h_addr = h, h_fd = fd_of h\<rparr>) = Some (Some t', r)" "tab_ok t'"
      "\<And>e. 0 \<le> h_fd e \<Longrightarrow> h_fd e < 1024 \<Longrightarrow> hash_lookup t' e = (if h_fd e = fd_of h then None else hash_lookup t e)"
      using tab_remove [OF t(2), of "\<lparr>h_addr = h, h_fd = fd_of h\<rparr>"] by (metis handler_t.select_convs(2))
    let ?s = "s\<lparr>s_expired := Some ?sl, s_handler_table := Some t'\<rparr>"
    have "select_inv fd_of ?s" using t'(2) inv sl by (auto simp: select_inv_def slist_inv_def)
    then obtain s' where s': "clean_expired fd_of ?s = Some s'" "select_inv fd_of s'" "map_option sl_nodes (s_expired s') = Some []"
      "\<And>fd. 0 \<le> fd \<Longrightarrow> fd < 1024 \<Longrightarrow> in_table s' fd = (if \<exists>h \<in> set ns. fd_of h = fd then None else in_table ?s fd)"
      "s_nfds s' = s_nfds s" using Cons.IH [of ?s] by auto
    have "clean_expired fd_of s = Some s'"
      using inv(7) sl t(1) t'(1) s'(1) by (subst clean_expired.simps) (simp del: hash_remove.simps)
    moreover have "in_table s' fd = (if \<exists>x \<in> set (h # ns). fd_of x = fd then None else in_table s fd)" if "0 \<le> fd" "fd < 1024" for fd
      using s'(4) [OF that] t'(3) [of "\<lparr>h_addr = NULL, h_fd = fd\<rparr>"] that t(1) by (auto simp: in_table_def)
    ultimately show ?case using s' by blast
  qed
  note cleaned = this
  obtain sl where sl: "s_expired s = Some sl" "slist_inv sl" using assms unfolding select_inv_def by blast
  have "slist_find (s_expired s) h = 0 \<longleftrightarrow> h \<in> set (sl_nodes sl)" for h
    using sl by (auto simp: slist_has_eq slist_inv_def)
  then have "expired_of (s_expired s) = set (sl_nodes sl)" by (simp add: expired_of_def)
  then show thesis using that cleaned [of "sl_nodes sl"] sl(1) by auto
qed

definition tame :: "(ptr \<Rightarrow> int) \<Rightarrow> ('s, select_t) handler_ops \<Rightarrow> bool" where
  \<comment> \<open>the callbacks return, and touch the back end only through its operations\<close>
  "tame fd_of cb \<longleftrightarrow> (\<forall>f \<in> {in_func cb, out_func cb, close_func cb}. \<forall>h w s. select_inv fd_of s \<longrightarrow>
     (\<exists>w' s' ret. f h (w, s) = Some ((w', s'), ret) \<and> select_inv fd_of s'))"

lemma run_callback_tame:
  assumes "tame fd_of cb" "f \<in> {in_func cb, out_func cb}" "select_inv fd_of s"
  obtains w' s' c where "run_callback cb f h b (w, s) = Some ((w', s'), c)" "select_inv fd_of s'"
proof (cases b)
  case True
  obtain w1 s1 r where 1: "f h (w, s) = Some ((w1, s1), r)" "select_inv fd_of s1"
    using assms unfolding tame_def by blast
  obtain w2 s2 r2 where 2: "close_func cb h (w1, s1) = Some ((w2, s2), r2)" "select_inv fd_of s2"
    using assms(1) 1(2) unfolding tame_def by blast
  show thesis using that [of w2 s2 True] that [of w1 s1 False] 1 2 True by (cases "r < 0") (simp_all add: run_callback_def)
qed (use assms(3) that in \<open>simp add: run_callback_def\<close>)

lemma select_callback_tame:
  assumes "tame fd_of cb" "select_inv fd_of s"
  obtains w' s' where "select_callback cb fd ev (w, s) = Some (w', s')" "select_inv fd_of s'"
proof -
  obtain t where t: "s_handler_table s = Some t" "tab_ok t" using assms(2) unfolding select_inv_def by blast
  note lk = tab_lookup(1) [OF t(2), of "\<lparr>h_addr = NULL, h_fd = fd\<rparr>"]
  show thesis
  proof (cases "hash_lookup t \<lparr>h_addr = NULL, h_fd = fd\<rparr>")
    case None
    then show thesis using that [of w s] assms(2) t(1) lk by (simp add: select_callback_def del: hash_find.simps)
  next
    case (Some h)
    obtain w1 s1 c1 where 1: "run_callback cb (in_func cb) (h_addr h) (EVENT_IN AND ev \<noteq> 0) (w, s) = Some ((w1, s1), c1)" "select_inv fd_of s1"
      by (rule run_callback_tame [OF assms(1) _ assms(2), of "in_func cb" "h_addr h" "EVENT_IN AND ev \<noteq> 0" w]) simp_all
    obtain w2 s2 c2 where 2: "run_callback cb (out_func cb) (h_addr h) (EVENT_OUT AND ev \<noteq> 0) (w1, s1) = Some ((w2, s2), c2)" "select_inv fd_of s2"
      by (rule run_callback_tame [OF assms(1) _ 1(2), of "out_func cb" "h_addr h" "EVENT_OUT AND ev \<noteq> 0" w1]) simp_all
    have run: "run_callbacks cb (h_addr h) (EVENT_IN AND ev \<noteq> 0) (EVENT_OUT AND ev \<noteq> 0) (w, s) =
        Some (if c1 then ((w1, s1), True) else ((w2, s2), c2))"
      using 1(1) 2(1) by (simp add: run_callbacks_def)
    show thesis
      using that [of w s] that [of w1 s1] that [of w2 s2] assms(2) 1(2) 2(2) t(1) lk Some
      by (cases "slist_find (s_expired s) (h_addr h) = 0"; cases c1)
         (simp_all add: select_callback_def run del: hash_find.simps slist_find.simps)
  qed
qed

lemma select_loop_tame:
  assumes "tame fd_of cb" "keeps (\<lambda>s. expired_of (s_expired s)) cb" "select_inv fd_of s" "-1 \<le> i" "i < 1024" "0 \<le> n" "n \<le> j"
  shows "\<exists>w' s' m. select_loop cb j i n (w, s) = Some ((w', s'), m) \<and> select_inv fd_of s'
    \<and> expired_of (s_expired s) \<subseteq> expired_of (s_expired s') \<and> 0 \<le> m \<and> m \<le> max j 1024"
  using assms(3-)
proof (induction "nat (1024 - j)" arbitrary: j i n w s rule: less_induct)
  case less
  note nf = less.prems(1) [unfolded select_inv_def]
  show ?case
  proof (cases "j < s_nfds s + 1")
    case False
    then show ?thesis using less.prems by (subst select_loop.simps) simp
  next
    case True
    then have j: "nat (1024 - (j + 1)) < nat (1024 - j)" "j < 1024" using nf by auto
    let ?i = "select_next s i"
    have i: "0 \<le> ?i" "?i < 1024" using less.prems(2,3) nf by (auto simp: select_next_def)
    define res where "res = (if s_in_set s ! nat ?i then EVENT_IN else 0) OR (if s_out_set s ! nat ?i then EVENT_OUT else 0)"
    have rdy: "select_ready s ?i = Some res" using i nf by (simp add: select_ready_def res_def)
    show ?thesis
    proof (cases "res = 0")
      case zero: True
      have "select_loop cb j i n (w, s) = select_loop cb (j + 1) ?i n (w, s)"
        using True rdy zero by (subst select_loop.simps) simp
      then show ?thesis using less.hyps [OF j(1) less.prems(1), of ?i n w] i less.prems(4,5) j(2) by simp
    next
      case False
      obtain w1 s1 where 1: "select_callback cb ?i res (w, s) = Some (w1, s1)" "select_inv fd_of s1"
        by (rule select_callback_tame [OF assms(1) less.prems(1)])
      have "select_loop cb j i n (w, s) = select_loop cb (j + 1) ?i (n + 1) (w1, s1)"
        using True rdy False 1(1) by (subst select_loop.simps) simp
      moreover have "expired_of (s_expired s) \<subseteq> expired_of (s_expired s1)"
        using select_source.visit_keeps [OF assms(2), of "(?i, res)" w s w1 s1] 1(1) by simp
      ultimately show ?thesis using less.hyps [OF j(1) 1(2), of ?i "n + 1" w1] i less.prems(4,5) j(2) by auto
    qed
  qed
qed


lemma select_create_inv:
  assumes "select_create True True True True = Some s"
  shows "select_inv fd_of s" and "in_table s fd = None" and "s_nfds s = 0" and "s_in_prepare s = replicate 1024 False"
    and "s_out_prepare s = replicate 1024 False" and "s_expired s = Some \<lparr>sl_size = 0, sl_nodes = []\<rparr>"
proof -
  obtain t where t: "hash_create (Some handle_hash) (Some handle_cmp) 3072 True True = Some t" "handle.uses t"
    "\<And>d. hash_lookup t d = None" by (rule handle.create_uses [of 3072]) simp_all
  have tab: "m_size t = 3072" "m_table t = replicate 3072 []" using t(1) by (auto simp: hash_create_def)
  have ok: "tab_ok t" using t(2) tab unfolding tab_ok_def by simp
  have s: "s = \<lparr>s_nfds = 0, s_in_prepare = replicate 1024 False, s_out_prepare = replicate 1024 False,
      s_in_set = replicate 1024 False, s_out_set = replicate 1024 False,
      s_handler_table = Some t, s_expired = Some \<lparr>sl_size = 0, sl_nodes = []\<rparr>\<rparr>"
    using assms t(1) by (simp add: select_create_def SELECT_SIZE_def slist_create_def Let_def)
  show "select_inv fd_of s" using ok by (simp add: s select_inv_def slist_inv_def)
  show "in_table s fd = None" using t(3) by (simp add: s in_table_def)
  show "s_nfds s = 0" "s_in_prepare s = replicate 1024 False" "s_out_prepare s = replicate 1024 False"
    "s_expired s = Some \<lparr>sl_size = 0, sl_nodes = []\<rparr>" by (simp_all add: s)
qed

lemma select_register_spec_witness:
  "\<exists>s s'. select_create True True True True = Some s \<and> select_register True s (Some \<lparr>h_addr = 7, h_fd = 1024\<rparr>) 1 = None
    \<and> select_register True s (Some \<lparr>h_addr = 7, h_fd = 5\<rparr>) 1 = Some (s', 0) \<and> in_table s' 5 = Some \<lparr>h_addr = 7, h_fd = 5\<rparr>"
proof -
  obtain s where s: "select_create True True True True = Some s"
    by (simp add: select_create_def hash_create_def slist_create_def SELECT_SIZE_def Let_def)
  have inv: "select_inv (\<lambda>h. 5) s" by (rule select_create_inv [OF s])
  have none: "in_table s 5 = None" by (rule select_create_inv [OF s])
  show ?thesis
    using s none select_register_spec [OF inv, of "\<lparr>h_addr = 7, h_fd = 1024\<rparr>" 1] select_register_spec [OF inv, of "\<lparr>h_addr = 7, h_fd = 5\<rparr>" 1]
    by (auto simp: EVENT_IN_def)
qed


end
