(* ===== verification/Net_Serialize.thy ===== *)
theory Net_Serialize
  imports Prelude
begin

text \<open>
  \<^verbatim>\<open>net/serialize.c\<close>, in the branches for little-endian hosts: integers are written most
  significant byte first into a caller's buffer.  The buffer is the list of its \<open>size\<close> bytes;
  \<open>cur\<close> never passes \<open>size\<close>, so that the subtraction of the space tests is exact.  A \<^verbatim>\<open>float\<close> or
  \<^verbatim>\<open>double\<close> is the word of its bits, which is what the unions give.
\<close>

section \<open>State and operations\<close>

record serial_t =
  s_buffer :: "u8 list"
  s_size :: nat
  s_cur :: nat

definition serial_create :: "u8 list \<Rightarrow> nat \<Rightarrow> serial_t" where
  "serial_create buf sz = \<lparr>s_buffer = buf, s_size = sz, s_cur = 0\<rparr>"

definition put_byte :: "u8 \<Rightarrow> serial_t \<Rightarrow> serial_t option" where
  \<comment> \<open>\<open>s->buffer[s->cur ++] = b\<close>\<close>
  "put_byte b s = do { buf \<leftarrow> wr (s_buffer s) (s_cur s) b; Some (s\<lparr>s_buffer := buf, s_cur := s_cur s + 1\<rparr>) }"

definition get_byte :: "serial_t \<Rightarrow> (serial_t \<times> u8) option" where
  "get_byte s = do { b \<leftarrow> rd (s_buffer s) (s_cur s); Some (s\<lparr>s_cur := s_cur s + 1\<rparr>, b) }"

definition serial_write8 :: "serial_t \<Rightarrow> u8 \<Rightarrow> (serial_t \<times> int) option" where
  "serial_write8 s src =
     (if s_size s - s_cur s < 1 then Some (s, -1)
      else do { s \<leftarrow> put_byte src s; Some (s, 0) })"

definition serial_read8 :: "serial_t \<Rightarrow> (serial_t \<times> u8 option \<times> int) option" where
  "serial_read8 s =
     (if s_size s - s_cur s < 1 then Some (s, None, -1)
      else do { (s, b) \<leftarrow> get_byte s; Some (s, Some b, 0) })"

definition serial_write16 :: "serial_t \<Rightarrow> u16 \<Rightarrow> (serial_t \<times> int) option" where
  "serial_write16 s src =
     (if s_size s - s_cur s < 2 then Some (s, -1)
      else do {
        s \<leftarrow> put_byte (ucast (drop_bit 8 (src AND 0xFF00))) s;
        s \<leftarrow> put_byte (ucast (src AND 0xFF)) s;
        Some (s, 0) })"

definition serial_read16 :: "serial_t \<Rightarrow> (serial_t \<times> u16 option \<times> int) option" where
  "serial_read16 s =
     (if s_size s - s_cur s < 2 then Some (s, None, -1)
      else do {
        (s, b1) \<leftarrow> get_byte s; (s, b2) \<leftarrow> get_byte s;
        Some (s, Some (push_bit 8 (ucast b1) OR ucast b2), 0) })"

definition serial_write32 :: "serial_t \<Rightarrow> u32 \<Rightarrow> (serial_t \<times> int) option" where
  \<comment> \<open>the masks are 64 bits wide\<close>
  "serial_write32 s src =
     (if s_size s - s_cur s < 4 then Some (s, -1)
      else do {
        let src = (ucast src :: u64);
        s \<leftarrow> put_byte (ucast (drop_bit 24 (src AND 0xFF000000))) s;
        s \<leftarrow> put_byte (ucast (drop_bit 16 (src AND 0xFF0000))) s;
        s \<leftarrow> put_byte (ucast (drop_bit 8 (src AND 0xFF00))) s;
        s \<leftarrow> put_byte (ucast (src AND 0xFF)) s;
        Some (s, 0) })"

definition join32 :: "u8 \<Rightarrow> u8 \<Rightarrow> u8 \<Rightarrow> u8 \<Rightarrow> u32" where
  "join32 b1 b2 b3 b4 = push_bit 24 (ucast b1) OR push_bit 16 (ucast b2) OR push_bit 8 (ucast b3) OR ucast b4"

definition serial_read32 :: "serial_t \<Rightarrow> (serial_t \<times> u32 option \<times> int) option" where
  "serial_read32 s =
     (if s_size s - s_cur s < 4 then Some (s, None, -1)
      else do {
        (s, b1) \<leftarrow> get_byte s; (s, b2) \<leftarrow> get_byte s; (s, b3) \<leftarrow> get_byte s; (s, b4) \<leftarrow> get_byte s;
        Some (s, Some (join32 b1 b2 b3 b4), 0) })"

definition serial_write64 :: "serial_t \<Rightarrow> u64 \<Rightarrow> (serial_t \<times> int) option" where
  "serial_write64 s src =
     (if s_size s - s_cur s < 8 then Some (s, -1)
      else do {
        s \<leftarrow> put_byte (ucast (drop_bit 56 (src AND 0xFF00000000000000))) s;
        s \<leftarrow> put_byte (ucast (drop_bit 48 (src AND 0xFF000000000000))) s;
        s \<leftarrow> put_byte (ucast (drop_bit 40 (src AND 0xFF0000000000))) s;
        s \<leftarrow> put_byte (ucast (drop_bit 32 (src AND 0xFF00000000))) s;
        s \<leftarrow> put_byte (ucast (drop_bit 24 (src AND 0xFF000000))) s;
        s \<leftarrow> put_byte (ucast (drop_bit 16 (src AND 0xFF0000))) s;
        s \<leftarrow> put_byte (ucast (drop_bit 8 (src AND 0xFF00))) s;
        s \<leftarrow> put_byte (ucast (src AND 0xFF)) s;
        Some (s, 0) })"

definition join64 :: "u8 \<Rightarrow> u8 \<Rightarrow> u8 \<Rightarrow> u8 \<Rightarrow> u8 \<Rightarrow> u8 \<Rightarrow> u8 \<Rightarrow> u8 \<Rightarrow> u64" where
  "join64 b1 b2 b3 b4 b5 b6 b7 b8 =
     push_bit 56 (ucast b1) OR push_bit 48 (ucast b2) OR push_bit 40 (ucast b3) OR push_bit 32 (ucast b4)
     OR push_bit 24 (ucast b5) OR push_bit 16 (ucast b6) OR push_bit 8 (ucast b7) OR ucast b8"

definition serial_read64 :: "serial_t \<Rightarrow> (serial_t \<times> u64 option \<times> int) option" where
  "serial_read64 s =
     (if s_size s - s_cur s < 8 then Some (s, None, -1)
      else do {
        (s, b1) \<leftarrow> get_byte s; (s, b2) \<leftarrow> get_byte s; (s, b3) \<leftarrow> get_byte s; (s, b4) \<leftarrow> get_byte s;
        (s, b5) \<leftarrow> get_byte s; (s, b6) \<leftarrow> get_byte s; (s, b7) \<leftarrow> get_byte s; (s, b8) \<leftarrow> get_byte s;
        Some (s, Some (join64 b1 b2 b3 b4 b5 b6 b7 b8), 0) })"

definition serial_writef :: "serial_t \<Rightarrow> u32 \<Rightarrow> (serial_t \<times> int) option" where
  "serial_writef s src = serial_write32 s src"

definition serial_readf :: "serial_t \<Rightarrow> (serial_t \<times> u32 option \<times> int) option" where
  "serial_readf s = do { (s, n, res) \<leftarrow> serial_read32 s; Some (s, if res = 0 then n else None, res) }"

definition serial_writed :: "serial_t \<Rightarrow> u64 \<Rightarrow> (serial_t \<times> int) option" where
  "serial_writed s src = serial_write64 s src"

definition serial_readd :: "serial_t \<Rightarrow> (serial_t \<times> u64 option \<times> int) option" where
  "serial_readd s = do { (s, n, res) \<leftarrow> serial_read64 s; Some (s, if res = 0 then n else None, res) }"

definition serial_writen :: "serial_t \<Rightarrow> u8 list \<Rightarrow> (serial_t \<times> int) option" where
  \<comment> \<open>the data are copied to the start of the buffer\<close>
  "serial_writen s data =
     (if s_size s - s_cur s < 4 + length data then Some (s, -1)
      else do {
        (s, _) \<leftarrow> serial_write32 s (word_of_nat (length data));
        buf \<leftarrow> blit (s_buffer s) 0 data;
        Some (s\<lparr>s_buffer := buf, s_cur := s_cur s + length data\<rparr>, 0) })"

definition serial_readn :: "serial_t \<Rightarrow> (serial_t \<times> u8 list option \<times> int) option" where
  "serial_readn s =
     (if s_size s - s_cur s < 4 then Some (s, None, -1)
      else do {
        b1 \<leftarrow> rd (s_buffer s) (s_cur s); b2 \<leftarrow> rd (s_buffer s) (s_cur s + 1);
        b3 \<leftarrow> rd (s_buffer s) (s_cur s + 2); b4 \<leftarrow> rd (s_buffer s) (s_cur s + 3);
        let read_len = unat (join32 b1 b2 b3 b4);
        if s_size s - s_cur s < 4 + read_len then Some (s, None, -1)
        else do {
          data \<leftarrow> rd_n (s_buffer s) 4 read_len;
          Some (s\<lparr>s_cur := s_cur s + (4 + read_len)\<rparr>, Some data, 0) } })"

section \<open>Byte images\<close>

definition serial_ok :: "serial_t \<Rightarrow> bool" where
  "serial_ok s \<longleftrightarrow> length (s_buffer s) = s_size s \<and> s_cur s \<le> s_size s"

definition put_bytes :: "u8 list \<Rightarrow> serial_t \<Rightarrow> serial_t" where
  "put_bytes bs s = s\<lparr>s_buffer := take (s_cur s) (s_buffer s) @ bs @ drop (s_cur s + length bs) (s_buffer s),
     s_cur := s_cur s + length bs\<rparr>"

definition be16 :: "u16 \<Rightarrow> u8 list" where
  "be16 w = [ucast (drop_bit 8 w), ucast w]"

definition be32 :: "u32 \<Rightarrow> u8 list" where
  "be32 w = map (\<lambda>n. ucast (drop_bit n w)) [24, 16, 8, 0]"

definition be64 :: "u64 \<Rightarrow> u8 list" where
  "be64 w = map (\<lambda>n. ucast (drop_bit n w)) [56, 48, 40, 32, 24, 16, 8, 0]"

lemma put_byte_exec:
  "serial_ok s \<Longrightarrow> s_cur s < s_size s \<Longrightarrow> put_byte b s = Some (put_bytes [b] s)"
  by (simp add: put_byte_def put_bytes_def serial_ok_def upd_conv_take_nth_drop)

lemma put_bytes_ok: "serial_ok s \<Longrightarrow> s_cur s + length bs \<le> s_size s \<Longrightarrow> serial_ok (put_bytes bs s)"
  by (auto simp: put_bytes_def serial_ok_def)

lemma put_bytes_append:
  "serial_ok s \<Longrightarrow> s_cur s + length as + length bs \<le> s_size s \<Longrightarrow> put_bytes bs (put_bytes as s) = put_bytes (as @ bs) s"
  by (simp add: put_bytes_def serial_ok_def) (simp add: ac_simps)

lemma put_bytes_fields [simp]:
  "s_cur (put_bytes bs s) = s_cur s + length bs" "s_size (put_bytes bs s) = s_size s"
  by (simp_all add: put_bytes_def)

lemmas put_exec = put_byte_exec put_bytes_ok put_bytes_append

lemma masked_byte:
  fixes w :: "'a::len word"
  shows "(ucast (drop_bit n (w AND push_bit n (mask 8))) :: u8) = ucast (drop_bit n w)"
  by (rule bit_word_eqI) (auto simp: bit_simps dest: bit_imp_le_length)

lemma byte_masks:
  "(0xFF :: u16) = push_bit 0 (mask 8)" "(0xFF00 :: u16) = push_bit 8 (mask 8)"
  "(0xFF :: u64) = push_bit 0 (mask 8)" "(0xFF00 :: u64) = push_bit 8 (mask 8)"
  "(0xFF0000 :: u64) = push_bit 16 (mask 8)" "(0xFF000000 :: u64) = push_bit 24 (mask 8)"
  "(0xFF00000000 :: u64) = push_bit 32 (mask 8)" "(0xFF0000000000 :: u64) = push_bit 40 (mask 8)"
  "(0xFF000000000000 :: u64) = push_bit 48 (mask 8)" "(0xFF00000000000000 :: u64) = push_bit 56 (mask 8)"
  by (simp_all add: mask_eq_exp_minus_1)

lemma masked_bytes16 [simp]:
  "(ucast (drop_bit 8 (w AND 0xFF00)) :: u8) = ucast (drop_bit 8 (w :: u16))" "(ucast (w AND 0xFF) :: u8) = ucast (w :: u16)"
  using masked_byte [of 8 w] masked_byte [of 0 w] by (simp_all only: byte_masks drop_bit_0 id_apply)

lemma masked_bytes64 [simp]:
  fixes w :: u64
  shows "(ucast (w AND 0xFF) :: u8) = ucast w"
    "(ucast (drop_bit 8 (w AND 0xFF00)) :: u8) = ucast (drop_bit 8 w)"
    "(ucast (drop_bit 16 (w AND 0xFF0000)) :: u8) = ucast (drop_bit 16 w)"
    "(ucast (drop_bit 24 (w AND 0xFF000000)) :: u8) = ucast (drop_bit 24 w)"
    "(ucast (drop_bit 32 (w AND 0xFF00000000)) :: u8) = ucast (drop_bit 32 w)"
    "(ucast (drop_bit 40 (w AND 0xFF0000000000)) :: u8) = ucast (drop_bit 40 w)"
    "(ucast (drop_bit 48 (w AND 0xFF000000000000)) :: u8) = ucast (drop_bit 48 w)"
    "(ucast (drop_bit 56 (w AND 0xFF00000000000000)) :: u8) = ucast (drop_bit 56 w)"
  using masked_byte [of 0 w] by (simp_all only: byte_masks masked_byte drop_bit_0 id_apply)

lemma ucast_byte32: "n \<le> 24 \<Longrightarrow> (ucast (drop_bit n (ucast (w :: u32) :: u64)) :: u8) = ucast (drop_bit n w)"
  by (rule bit_word_eqI) (auto simp: bit_simps)

lemma ucast_low32: "(ucast (ucast (w :: u32) :: u64) :: u8) = ucast w"
  using ucast_byte32 [of 0 w] by (simp only: drop_bit_0 id_apply)

lemma lengths [simp]: "length (be16 w) = 2" "length (be32 v) = 4" "length (be64 u) = 8"
  by (simp_all add: be16_def be32_def be64_def)

lemma write_exec:
  assumes "serial_ok s"
  shows "s_cur s + 1 \<le> s_size s \<Longrightarrow> serial_write8 s b = Some (put_bytes [b] s, 0)"
    and "s_cur s + 2 \<le> s_size s \<Longrightarrow> serial_write16 s w = Some (put_bytes (be16 w) s, 0)"
    and "s_cur s + 4 \<le> s_size s \<Longrightarrow> serial_write32 s v = Some (put_bytes (be32 v) s, 0)"
    and "s_cur s + 8 \<le> s_size s \<Longrightarrow> serial_write64 s u = Some (put_bytes (be64 u) s, 0)"
  using assms
  by (simp_all add: serial_write8_def serial_write16_def serial_write32_def serial_write64_def put_exec
    be16_def be32_def be64_def ucast_byte32 ucast_low32 Let_def)

lemma write_short:
  assumes "serial_ok s"
  shows "s_size s < s_cur s + 1 \<Longrightarrow> serial_write8 s b = Some (s, -1)"
    and "s_size s < s_cur s + 2 \<Longrightarrow> serial_write16 s w = Some (s, -1)"
    and "s_size s < s_cur s + 4 \<Longrightarrow> serial_write32 s v = Some (s, -1)"
    and "s_size s < s_cur s + 8 \<Longrightarrow> serial_write64 s u = Some (s, -1)"
  using assms by (auto simp: serial_write8_def serial_write16_def serial_write32_def serial_write64_def serial_ok_def)

lemma join32_be32: "join32 (ucast (drop_bit 24 w)) (ucast (drop_bit 16 w)) (ucast (drop_bit 8 w)) (ucast w) = w"
proof (rule bit_word_eqI)
  fix n
  assume "n < LENGTH(32)"
  then consider "n < 8" | "8 \<le> n" "n < 16" | "16 \<le> n" "n < 24" | "24 \<le> n" "n < 32"
    by (auto; linarith)
  then show "bit (join32 (ucast (drop_bit 24 w)) (ucast (drop_bit 16 w)) (ucast (drop_bit 8 w)) (ucast w)) n = bit w n"
    by cases (auto simp: join32_def bit_simps)
qed

lemma join16_be16:
  fixes w :: u16
  shows "push_bit 8 (ucast (ucast (drop_bit 8 w) :: u8)) OR ucast (ucast w :: u8) = w"
proof (rule bit_word_eqI)
  fix n
  assume "n < LENGTH(16)"
  then consider "n < 8" | "8 \<le> n" "n < 16" by (auto; linarith)
  then show "bit (push_bit 8 (ucast (ucast (drop_bit 8 w) :: u8)) OR ucast (ucast w :: u8) :: u16) n = bit w n"
    by cases (auto simp: bit_simps)
qed

lemma join64_be64:
  "join64 (ucast (drop_bit 56 w)) (ucast (drop_bit 48 w)) (ucast (drop_bit 40 w)) (ucast (drop_bit 32 w))
     (ucast (drop_bit 24 w)) (ucast (drop_bit 16 w)) (ucast (drop_bit 8 w)) (ucast w) = w" (is "?l = w")
proof (rule bit_word_eqI)
  fix n
  assume "n < LENGTH(64)"
  then consider "n < 8" | "8 \<le> n" "n < 16" | "16 \<le> n" "n < 24" | "24 \<le> n" "n < 32"
    | "32 \<le> n" "n < 40" | "40 \<le> n" "n < 48" | "48 \<le> n" "n < 56" | "56 \<le> n" "n < 64"
    by (auto; linarith)
  then show "bit ?l n = bit w n"
    by cases (auto simp: join64_def bit_simps)
qed

definition holds_at :: "serial_t \<Rightarrow> u8 list \<Rightarrow> bool" where
  \<comment> \<open>the bytes \<open>bs\<close> come next\<close>
  "holds_at s bs \<longleftrightarrow> serial_ok s \<and> s_cur s + length bs \<le> s_size s \<and> take (length bs) (drop (s_cur s) (s_buffer s)) = bs"

lemma get_byte_exec:
  assumes "holds_at s (b # bs)"
  shows "get_byte s = Some (s\<lparr>s_cur := s_cur s + 1\<rparr>, b)" and "holds_at (s\<lparr>s_cur := s_cur s + 1\<rparr>) bs"
proof -
  have ok: "serial_ok s" "s_cur s + length (b # bs) \<le> s_size s" and t: "take (Suc (length bs)) (drop (s_cur s) (s_buffer s)) = b # bs"
    using assms by (auto simp: holds_at_def)
  have lt: "s_cur s < length (s_buffer s)" using ok by (simp add: serial_ok_def)
  have d: "drop (s_cur s) (s_buffer s) = s_buffer s ! s_cur s # drop (Suc (s_cur s)) (s_buffer s)"
    using lt by (rule Cons_nth_drop_Suc [symmetric])
  have "s_buffer s ! s_cur s = b" "take (length bs) (drop (Suc (s_cur s)) (s_buffer s)) = bs" using t by (simp_all add: d)
  then show "get_byte s = Some (s\<lparr>s_cur := s_cur s + 1\<rparr>, b)" "holds_at (s\<lparr>s_cur := s_cur s + 1\<rparr>) bs"
    using lt ok by (simp_all add: get_byte_def holds_at_def serial_ok_def)
qed

lemma holds_at_room: "holds_at s (as @ bs) \<Longrightarrow> length as \<le> s_size s - s_cur s"
  by (auto simp: holds_at_def)

lemma read_exec:
  shows "holds_at s (b # rest) \<Longrightarrow> serial_read8 s = Some (s\<lparr>s_cur := s_cur s + 1\<rparr>, Some b, 0)"
    and "holds_at s (be16 w @ rest) \<Longrightarrow> serial_read16 s = Some (s\<lparr>s_cur := s_cur s + 2\<rparr>, Some w, 0)"
    and "holds_at s (be32 v @ rest) \<Longrightarrow> serial_read32 s = Some (s\<lparr>s_cur := s_cur s + 4\<rparr>, Some v, 0)"
    and "holds_at s (be64 u @ rest) \<Longrightarrow> serial_read64 s = Some (s\<lparr>s_cur := s_cur s + 8\<rparr>, Some u, 0)"
proof -
  note g = get_byte_exec(1) and n = get_byte_exec(2)
  show "serial_read8 s = Some (s\<lparr>s_cur := s_cur s + 1\<rparr>, Some b, 0)" if h: "holds_at s (b # rest)"
    using g [OF h] holds_at_room [of s "[b]" rest] h by (simp add: serial_read8_def)
  show "serial_read16 s = Some (s\<lparr>s_cur := s_cur s + 2\<rparr>, Some w, 0)" if h: "holds_at s (be16 w @ rest)"
  proof -
    note h0 = h [unfolded be16_def append.simps]
    note h1 = n [OF h0]
    have "\<not> s_size s - s_cur s < 2" using holds_at_room [OF h] by simp
    then show ?thesis using g [OF h0] g [OF h1] join16_be16 [of w] by (simp add: serial_read16_def)
  qed
  show "serial_read32 s = Some (s\<lparr>s_cur := s_cur s + 4\<rparr>, Some v, 0)" if h: "holds_at s (be32 v @ rest)"
  proof -
    note h0 = h [unfolded be32_def append.simps list.map drop_bit_0 id_apply]
    note h1 = n [OF h0] note h2 = n [OF h1] note h3 = n [OF h2]
    have "\<not> s_size s - s_cur s < 4" using holds_at_room [OF h] by simp
    then show ?thesis using g [OF h0] g [OF h1] g [OF h2] g [OF h3] join32_be32 [of v]
      by (simp add: serial_read32_def numeral_eq_Suc)
  qed
  show "serial_read64 s = Some (s\<lparr>s_cur := s_cur s + 8\<rparr>, Some u, 0)" if h: "holds_at s (be64 u @ rest)"
  proof -
    note h0 = h [unfolded be64_def append.simps list.map drop_bit_0 id_apply]
    note h1 = n [OF h0] note h2 = n [OF h1] note h3 = n [OF h2] note h4 = n [OF h3]
    note h5 = n [OF h4] note h6 = n [OF h5] note h7 = n [OF h6]
    have "\<not> s_size s - s_cur s < 8" using holds_at_room [OF h] by simp
    then show ?thesis
      using g [OF h0] g [OF h1] g [OF h2] g [OF h3] g [OF h4] g [OF h5] g [OF h6] g [OF h7] join64_be64 [of u]
      by (simp add: serial_read64_def numeral_eq_Suc)
  qed
qed

lemma holds_at_skip: "holds_at s (as @ bs) \<Longrightarrow> holds_at (s\<lparr>s_cur := s_cur s + length as\<rparr>) bs"
proof -
  assume h: "holds_at s (as @ bs)"
  have "drop (length as) (take (length as + length bs) (drop (s_cur s) (s_buffer s))) = bs"
    using h by (simp add: holds_at_def)
  then show ?thesis using h by (simp add: holds_at_def serial_ok_def drop_take add.commute)
qed

section \<open>Records\<close>

datatype sval = V8 u8 | V16 u16 | V32 u32 | V64 u64 | VF u32 | VD u64

definition serial_write :: "serial_t \<Rightarrow> sval \<Rightarrow> (serial_t \<times> int) option" where
  "serial_write s v = (case v of V8 b \<Rightarrow> serial_write8 s b | V16 w \<Rightarrow> serial_write16 s w
     | V32 w \<Rightarrow> serial_write32 s w | V64 w \<Rightarrow> serial_write64 s w
     | VF w \<Rightarrow> serial_writef s w | VD w \<Rightarrow> serial_writed s w)"

definition serial_read :: "serial_t \<Rightarrow> sval \<Rightarrow> (serial_t \<times> sval option \<times> int) option" where
  \<comment> \<open>a read of the same kind as the given value\<close>
  "serial_read s v = (case v of
     V8 _ \<Rightarrow> do { (s, x, r) \<leftarrow> serial_read8 s; Some (s, map_option V8 x, r) }
   | V16 _ \<Rightarrow> do { (s, x, r) \<leftarrow> serial_read16 s; Some (s, map_option V16 x, r) }
   | V32 _ \<Rightarrow> do { (s, x, r) \<leftarrow> serial_read32 s; Some (s, map_option V32 x, r) }
   | V64 _ \<Rightarrow> do { (s, x, r) \<leftarrow> serial_read64 s; Some (s, map_option V64 x, r) }
   | VF _ \<Rightarrow> do { (s, x, r) \<leftarrow> serial_readf s; Some (s, map_option VF x, r) }
   | VD _ \<Rightarrow> do { (s, x, r) \<leftarrow> serial_readd s; Some (s, map_option VD x, r) })"

definition sval_bytes :: "sval \<Rightarrow> u8 list" where
  "sval_bytes v = (case v of V8 b \<Rightarrow> [b] | V16 w \<Rightarrow> be16 w | V32 w \<Rightarrow> be32 w | V64 w \<Rightarrow> be64 w | VF w \<Rightarrow> be32 w | VD w \<Rightarrow> be64 w)"

lemma serial_write_exec:
  assumes "serial_ok s"
  shows "serial_write s v = Some (if s_cur s + length (sval_bytes v) \<le> s_size s then (put_bytes (sval_bytes v) s, 0) else (s, -1))"
  using write_exec [OF assms] write_short [OF assms]
  by (cases v) (auto simp: serial_write_def sval_bytes_def serial_writef_def serial_writed_def not_le)

lemma serial_read_exec:
  assumes "holds_at s (sval_bytes v @ rest)"
  shows "serial_read s v = Some (s\<lparr>s_cur := s_cur s + length (sval_bytes v)\<rparr>, Some v, 0)"
  using assms by (cases v) (simp_all add: serial_read_def sval_bytes_def read_exec serial_readf_def serial_readd_def)

fun serial_write_all :: "serial_t \<Rightarrow> sval list \<Rightarrow> (serial_t \<times> int list) option" where
  "serial_write_all s [] = Some (s, [])"
| "serial_write_all s (v # vs) = do { (s, r) \<leftarrow> serial_write s v; (s, rs) \<leftarrow> serial_write_all s vs; Some (s, r # rs) }"

fun serial_read_all :: "serial_t \<Rightarrow> sval list \<Rightarrow> (serial_t \<times> sval option list) option" where
  "serial_read_all s [] = Some (s, [])"
| "serial_read_all s (v # vs) = do { (s, x, r) \<leftarrow> serial_read s v; (s, xs) \<leftarrow> serial_read_all s vs; Some (s, x # xs) }"

lemma serial_write_all_exec:
  assumes "serial_ok s" "s_cur s + length (concat (map sval_bytes vs)) \<le> s_size s"
  shows "serial_write_all s vs = Some (put_bytes (concat (map sval_bytes vs)) s, replicate (length vs) 0)"
  using assms
proof (induction vs arbitrary: s)
  case Nil
  then show ?case by (simp add: put_bytes_def serial_ok_def)
next
  case (Cons v vs)
  have "serial_ok (put_bytes (sval_bytes v) s)" using Cons.prems by (intro put_bytes_ok) auto
  from Cons.IH [OF this] show ?case
    using Cons.prems by (simp add: serial_write_exec put_bytes_append)
qed

lemma serial_read_all_exec:
  assumes "holds_at s (concat (map sval_bytes vs))"
  shows "\<exists>s'. serial_read_all s vs = Some (s', map Some vs) \<and> s_cur s' = s_cur s + length (concat (map sval_bytes vs))"
  using assms
proof (induction vs arbitrary: s)
  case (Cons v vs)
  have h: "holds_at s (sval_bytes v @ concat (map sval_bytes vs))" using Cons.prems by simp
  from Cons.IH [OF holds_at_skip [OF h]] show ?case using serial_read_exec [OF h] by auto
qed simp

text \<open>C35: whatever sequence of integers and floats is written into a buffer with room for it, reading
  back with the matching operations from the start gives exactly the written values, at the
  same positions; every write succeeds.\<close>
theorem serial_roundtrip:
  assumes "length (concat (map sval_bytes vs)) \<le> length buf"
  shows "\<exists>s1 s2. serial_write_all (serial_create buf (length buf)) vs = Some (s1, replicate (length vs) 0) \<and>
    serial_read_all (serial_create (s_buffer s1) (length buf)) vs = Some (s2, map Some vs) \<and> s_cur s2 = s_cur s1"
proof -
  let ?s = "serial_create buf (length buf)" and ?bs = "concat (map sval_bytes vs)"
  have ok: "serial_ok ?s" by (simp add: serial_create_def serial_ok_def)
  have w: "serial_write_all ?s vs = Some (put_bytes ?bs ?s, replicate (length vs) 0)"
    using assms by (intro serial_write_all_exec [OF ok]) (simp add: serial_create_def)
  have "holds_at (serial_create (s_buffer (put_bytes ?bs ?s)) (length buf)) ?bs"
    using assms by (simp add: holds_at_def serial_ok_def serial_create_def put_bytes_def)
  from serial_read_all_exec [OF this] show ?thesis using w by (auto simp: serial_create_def put_bytes_def)
qed

lemma serial_roundtrip_witness:
  "\<exists>s1 s2. serial_write_all (serial_create (replicate 12 0) (length (replicate 12 (0 :: u8)))) [V16 0x1234, V8 7, V64 99]
      = Some (s1, replicate (length [V16 0x1234, V8 7, V64 99]) 0) \<and>
    serial_read_all (serial_create (s_buffer s1) (length (replicate 12 (0 :: u8)))) [V16 0x1234, V8 7, V64 99]
      = Some (s2, map Some [V16 0x1234, V8 7, V64 99]) \<and> s_cur s2 = s_cur s1"
  by (rule serial_roundtrip) (simp add: sval_bytes_def)

text \<open>a block does not survive the round trip: \<^verbatim>\<open>serial_writen\<close> copies the data over the length it
  has just written, and the reader takes the first four data bytes for the length.\<close>
lemma serial_writen_clobbers_length:
  "do { (s, r) \<leftarrow> serial_writen (serial_create (replicate 16 0) 16) [0, 0, 0, 2, 9];
        (t, data, r') \<leftarrow> serial_readn (serial_create (s_buffer s) 16);
        Some (r, s_buffer s, r', data) }
   = Some (0, [0, 0, 0, 2, 9, 0, 0, 0, 0, 0, 0, 0, 0, 0, 0, 0], 0, Some [9, 0])"
  by code_simp

end
