(* ===== verification/Net_Wsconn.thy ===== *)
theory Net_Wsconn
  imports Net_Reactor Base_Buffer Net_Serialize
begin

text \<open>
  \<^verbatim>\<open>net/wsconn.c\<close>, the established connection: frames are decoded from the read buffer \<open>ws_rbuf\<close>,
  unmasked in place, collected in \<open>ws_rrbuf\<close> and handed to the read callback; messages are framed
  into the write buffer \<open>ws_wbuf\<close>.  The three buffers are distinct.  A callback is an address that
  \<open>ws_funcs\<close> gives a meaning; it acts on the state of the application, the reactor and the
  connection itself (it may send).  The results of \<^verbatim>\<open>read\<close>, \<^verbatim>\<open>write\<close> and \<^verbatim>\<open>close\<close> are arguments.
  The machine is little-endian.  The handshake and the read handler are in \<open>Net_Wshake\<close>.
\<close>

section \<open>State\<close>

definition WSCONN_BUFFER_SIZE :: int where "WSCONN_BUFFER_SIZE = 64 * 1024"
definition INVALID_SOCK :: int where "INVALID_SOCK = -1"

datatype ws_status = WS_INIT | WS_ESTABLISHED | WS_FINI

record wsconn_t =
  ws_addr :: ptr
  ws_fd :: int
  ws_flag_rbuf :: bool
  ws_flag_rrbuf :: bool
  ws_flag_wbuf :: bool
  ws_rbuf :: "buffer_t option"
  ws_rrbuf :: "buffer_t option"
  ws_wbuf :: "buffer_t option"
  ws_on_build :: ptr
  ws_build_arg :: ptr
  ws_on_read :: ptr
  ws_read_arg :: ptr
  ws_on_close :: ptr
  ws_close_arg :: ptr
  ws_status :: ws_status

type_synonym ('s, 'k) ws_state = "'s \<times> 'k backend option \<times> wsconn_t"

record ('s, 'k) ws_funcs =
  call_build :: "ptr \<Rightarrow> int \<Rightarrow> ptr \<Rightarrow> ('s, 'k) ws_state \<Rightarrow> ('s, 'k) ws_state option"
  call_read :: "ptr \<Rightarrow> int \<Rightarrow> ptr \<Rightarrow> u8 list \<Rightarrow> ('s, 'k) ws_state \<Rightarrow> (('s, 'k) ws_state \<times> int) option"
  call_close :: "ptr \<Rightarrow> int \<Rightarrow> ptr \<Rightarrow> ('s, 'k) ws_state \<Rightarrow> ('s, 'k) ws_state option"

type_synonym 'k ctl = "epoll_option \<Rightarrow> int \<Rightarrow> (int \<times> ptr) option \<Rightarrow> 'k \<Rightarrow> 'k \<times> int"

definition ws_handler :: "wsconn_t \<Rightarrow> handler_t" where
  "ws_handler con = \<lparr>h_addr = ws_addr con, h_fd = ws_fd con\<rparr>"

section \<open>Life cycle\<close>

definition wsconn_create :: "ptr \<Rightarrow> bool \<Rightarrow> wsconn_t option" where
  \<comment> \<open>\<open>a\<close>: the result of \<^verbatim>\<open>malloc\<close>; \<open>r\<close>: the reactor is there\<close>
  "wsconn_create a r =
     (if \<not> r then None
      else if a = NULL then None
      else Some \<lparr>ws_addr = a, ws_fd = INVALID_SOCK, ws_flag_rbuf = False, ws_flag_rrbuf = False,
        ws_flag_wbuf = False, ws_rbuf = None, ws_rrbuf = None, ws_wbuf = None, ws_on_build = NULL,
        ws_build_arg = NULL, ws_on_read = NULL, ws_read_arg = NULL, ws_on_close = NULL, ws_close_arg = NULL,
        ws_status = WS_INIT\<rparr>)"

fun wsconn_set_buffer ::
  "wsconn_t option \<Rightarrow> buffer_t option \<Rightarrow> buffer_t option \<Rightarrow> buffer_t option \<Rightarrow> wsconn_t option \<times> int" where
  "wsconn_set_buffer None rbuf wbuf rrbuf = (None, -1)"
| "wsconn_set_buffer (Some con) rbuf wbuf rrbuf =
     (if ws_rbuf con \<noteq> None \<or> ws_rbuf con \<noteq> None \<or> ws_wbuf con \<noteq> None then (Some con, -1)
      else (Some (con\<lparr>ws_rbuf := rbuf, ws_wbuf := wbuf, ws_rrbuf := rrbuf\<rparr>), 0))"

definition wsconn_set_build_func :: "wsconn_t option \<Rightarrow> ptr \<Rightarrow> ptr \<Rightarrow> wsconn_t option" where
  "wsconn_set_build_func con f arg = map_option (\<lambda>c. c\<lparr>ws_on_build := f, ws_build_arg := arg\<rparr>) con"

definition wsconn_set_read_func :: "wsconn_t option \<Rightarrow> ptr \<Rightarrow> ptr \<Rightarrow> wsconn_t option" where
  "wsconn_set_read_func con f arg = map_option (\<lambda>c. c\<lparr>ws_on_read := f, ws_read_arg := arg\<rparr>) con"

definition wsconn_set_close_func :: "wsconn_t option \<Rightarrow> ptr \<Rightarrow> ptr \<Rightarrow> wsconn_t option" where
  "wsconn_set_close_func con f arg = map_option (\<lambda>c. c\<lparr>ws_on_close := f, ws_close_arg := arg\<rparr>) con"

fun wsconn_fd :: "wsconn_t option \<Rightarrow> int" where
  "wsconn_fd None = INVALID_SOCK"
| "wsconn_fd (Some con) = ws_fd con"

definition wsconn_set_fd :: "wsconn_t option \<Rightarrow> int \<Rightarrow> wsconn_t option" where
  "wsconn_set_fd con fd = map_option (\<lambda>c. c\<lparr>ws_fd := fd\<rparr>) con"

fun wsconn_established :: "wsconn_t option \<Rightarrow> int" where
  "wsconn_established None = -1"
| "wsconn_established (Some con) = (if ws_status con = WS_ESTABLISHED then 0 else -1)"

definition ws_default_buffer ::
  "bool \<Rightarrow> (int \<Rightarrow> u8 list option) \<Rightarrow> bool \<Rightarrow> buffer_t option \<Rightarrow> (buffer_t option \<times> bool) option" where
  \<comment> \<open>create the buffer if it does not exist and flag it as owned\<close>
  "ws_default_buffer okb mal flag b = (case b of
     Some b \<Rightarrow> Some (Some b, flag)
   | None \<Rightarrow> do {
       b \<leftarrow> buffer_create okb WSCONN_BUFFER_SIZE mal;
       c_assert (b \<noteq> None);
       Some (b, True) })"

definition wsconn_start ::
  "'k ctl \<Rightarrow> bool \<Rightarrow> bool \<Rightarrow> (int \<Rightarrow> u8 list option) \<Rightarrow> 'k backend option \<Rightarrow> wsconn_t option \<Rightarrow>
   ('k backend option \<times> wsconn_t option \<times> int) option" where
  \<comment> \<open>\<open>ok\<close>: the allocation of the reactor; \<open>okb\<close>, \<open>mal\<close>: the allocations of the buffers\<close>
  "wsconn_start ctl ok okb mal r con = (case con of
     None \<Rightarrow> Some (r, con, -1)
   | Some c \<Rightarrow>
       if ws_fd c = INVALID_SOCK then Some (r, con, -1)
       else do {
         (rb, f1) \<leftarrow> ws_default_buffer okb mal (ws_flag_rbuf c) (ws_rbuf c);
         (rrb, f2) \<leftarrow> ws_default_buffer okb mal (ws_flag_rrbuf c) (ws_rrbuf c);
         (wb, f3) \<leftarrow> ws_default_buffer okb mal (ws_flag_wbuf c) (ws_wbuf c);
         let c = c\<lparr>ws_rbuf := rb, ws_flag_rbuf := f1, ws_rrbuf := rrb, ws_flag_rrbuf := f2,
                   ws_wbuf := wb, ws_flag_wbuf := f3\<rparr>;
         (r, ret) \<leftarrow> reactor_register ctl ok r (Some (ws_handler c)) EVENT_IN;
         Some (r, Some c, ret) })"

definition wsconn_stop ::
  "'k ctl \<Rightarrow> bool \<Rightarrow> 'k backend option \<Rightarrow> wsconn_t option \<Rightarrow> ('k backend option \<times> wsconn_t option \<times> int) option" where
  \<comment> \<open>the descriptor is closed here\<close>
  "wsconn_stop ctl ok r con = (case con of
     None \<Rightarrow> Some (r, con, -1)
   | Some c \<Rightarrow>
       if ws_fd c = INVALID_SOCK then Some (r, con, -1)
       else do {
         (r, _) \<leftarrow> reactor_unregister ctl ok r (Some (ws_handler c));
         Some (r, Some (c\<lparr>ws_fd := INVALID_SOCK\<rparr>), 0) })"

definition ws_owned :: "bool \<Rightarrow> buffer_t option \<Rightarrow> buffer_t option list" where
  "ws_owned flag b = (if flag then [b] else [])"

definition wsconn_release ::
  "'k ctl \<Rightarrow> bool \<Rightarrow> 'k backend option \<Rightarrow> wsconn_t option \<Rightarrow> ('k backend option \<times> buffer_t option list \<times> int) option" where
  \<comment> \<open>the result lists the buffers that are released; the connection is gone\<close>
  "wsconn_release ctl ok r con = (case con of
     None \<Rightarrow> Some (r, [], 0)
   | Some c \<Rightarrow> do {
       (r, _, _) \<leftarrow> wsconn_stop ctl ok r con;
       Some (r, ws_owned (ws_flag_rbuf c) (ws_rbuf c) @ ws_owned (ws_flag_rrbuf c) (ws_rrbuf c)
          @ ws_owned (ws_flag_wbuf c) (ws_wbuf c), 0) })"

section \<open>Receiving a frame\<close>

definition ws_length16 :: "u8 \<Rightarrow> u8 \<Rightarrow> u64" where
  \<comment> \<open>two \<^verbatim>\<open>uint16_t\<close>, shifted as \<^verbatim>\<open>int\<close>\<close>
  "ws_length16 c1 c2 = ucast ((push_bit 8 (ucast c1) OR ucast c2) :: u32)"

definition ws_payload_len :: "u8 list \<Rightarrow> nat \<Rightarrow> int \<Rightarrow> (u64 \<times> nat) option option" where
  \<comment> \<open>the payload length and \<open>mask_shift\<close>; the inner \<open>None\<close>: not enough data\<close>
  "ws_payload_len m p sz = do {
     b1 \<leftarrow> rd m (p + 1);
     let len = (ucast (b1 AND 0x7f) :: u64);
     (if len = 126 then
       (if sz < 2 + 2 then Some None
        else do {
          c1 \<leftarrow> rd m (p + 2);
          c2 \<leftarrow> rd m (p + 3);
          Some (Some (ws_length16 c1 c2, 4)) })
     else if len = 127 then
       (if sz < 2 + 8 then Some None
        else do {
          b1 \<leftarrow> rd m (p + 2);
          b2 \<leftarrow> rd m (p + 3);
          b3 \<leftarrow> rd m (p + 4);
          b4 \<leftarrow> rd m (p + 5);
          b5 \<leftarrow> rd m (p + 6);
          b6 \<leftarrow> rd m (p + 7);
          b7 \<leftarrow> rd m (p + 8);
          b8 \<leftarrow> rd m (p + 9);
          Some (Some (push_bit 56 (ucast b1) OR push_bit 48 (ucast b2) OR push_bit 40 (ucast b3)
             OR push_bit 32 (ucast b4) OR push_bit 24 (ucast b5) OR push_bit 16 (ucast b6)
             OR push_bit 8 (ucast b7) OR ucast b8, 10)) })
     else Some (Some (len, 2))) }"

function ws_unmask :: "u8 list \<Rightarrow> nat \<Rightarrow> u8 list \<Rightarrow> u64 \<Rightarrow> nat \<Rightarrow> u8 list option" where
  \<comment> \<open>the loop of the bytes \<open>i\<close>, \<open>i + 1\<close>, ... of a payload that starts at \<open>q\<close>\<close>
  "ws_unmask m q key len i =
     (if i < unat len then do {
        b \<leftarrow> rd m (q + i);
        k \<leftarrow> rd key (i mod 4);
        m \<leftarrow> wr m (q + i) (b XOR k);
        ws_unmask m q key len (i + 1) }
      else Some m)"
  by pat_completeness auto
termination
  by (relation "measure (\<lambda>(m, q, key, len, i). unat len - i)") auto

declare ws_unmask.simps [simp del]

definition ws_deliver ::
  "('s, 'k) ws_funcs \<Rightarrow> ('s, 'k) ws_state \<Rightarrow> u8 list \<Rightarrow> int \<Rightarrow> (('s, 'k) ws_state \<times> int \<times> bool) option" where
  \<comment> \<open>append the payload at the head of \<open>src\<close> to \<open>rrbuf\<close> and give all of it to the callback;
     \<open>True\<close>: the callback took some of it\<close>
  "ws_deliver fns st src len = (case st of (s, r, con) \<Rightarrow> do {
     (rrb, res) \<leftarrow> buffer_write (ws_rrbuf con) (Some src) len;
     let con = con\<lparr>ws_rrbuf := rrb\<rparr>;
     if res < 0 then Some ((s, r, con), -1, False)
     else do {
       b \<leftarrow> rrb;
       let nread = buffer_read_len rrb;
       c_assert (nread \<noteq> 0);
       bytes \<leftarrow> rd_n (b_mem b) (nat (b_read b)) (nat nread);
       ((s, r, con), res) \<leftarrow>
         (if ws_on_read con \<noteq> NULL then call_read fns (ws_on_read con) (ws_fd con) (ws_read_arg con) bytes (s, r, con)
          else Some ((s, r, con), res));
       if res > 0 then do {
         (rrb, _) \<leftarrow> buffer_read_nocopy (ws_rrbuf con) res;
         Some ((s, r, con\<lparr>ws_rrbuf := rrb\<rparr>), res, True) }
       else Some ((s, r, con), res, False) } })"

definition wsconn_frame ::
  "('s, 'k) ws_funcs \<Rightarrow> ('s, 'k) ws_state \<Rightarrow> int \<Rightarrow> (('s, 'k) ws_state \<times> int) option" where
  \<comment> \<open>\<open>data\<close> is the read position \<open>p\<close> of \<open>rbuf\<close>\<close>
  "wsconn_frame fns st sz = (case st of (s, r, con) \<Rightarrow>
     if sz < 2 then Some (st, 0)
     else do {
       rb \<leftarrow> ws_rbuf con;
       let p = nat (b_read rb);
       b0 \<leftarrow> rd (b_mem rb) p;
       if b0 AND 0x0f \<noteq> 1 then Some (st, -1)
       else do {
         b1 \<leftarrow> rd (b_mem rb) (p + 1);
         let is_masked = (b1 AND 0x80 \<noteq> 0);
         h \<leftarrow> ws_payload_len (b_mem rb) p sz;
         (case h of
            None \<Rightarrow> Some (st, 0)
          | Some (payload_len, mask_shift) \<Rightarrow>
              if word_of_int sz < (if is_masked then payload_len + of_nat mask_shift + 4
                                   else payload_len + of_nat mask_shift)
              then Some (st, 0)
              else do {
                let payload_shift = (if is_masked then mask_shift + 4 else mask_shift);
                m \<leftarrow> (if is_masked then do {
                        key \<leftarrow> rd_n (b_mem rb) (p + mask_shift) 4;
                        ws_unmask (b_mem rb) (p + payload_shift) key payload_len 0 }
                      else Some (b_mem rb));
                let len = sint (ucast payload_len :: u32);
                ((s, r, con), res, took) \<leftarrow> ws_deliver fns (s, r, con\<lparr>ws_rbuf := Some (rb\<lparr>b_mem := m\<rparr>)\<rparr>)
                    (drop (p + payload_shift) m) len;
                Some ((s, r, con), if took then len + int mask_shift + (if is_masked then 4 else 0) else res) }) } })"

section \<open>Sending\<close>

definition ws_put :: "buffer_t option \<Rightarrow> u8 list \<Rightarrow> buffer_t option option" where
  \<comment> \<open>write each of the bytes, one call a byte\<close>
  "ws_put wb bytes = foldM (\<lambda>x wb. map_option fst (buffer_write wb (Some [x]) 1)) bytes wb"

definition wsconn_send ::
  "'k ctl \<Rightarrow> bool \<Rightarrow> 'k backend option \<Rightarrow> wsconn_t option \<Rightarrow> u8 list option \<Rightarrow> int \<Rightarrow>
   ('k backend option \<times> wsconn_t option \<times> int) option" where
  "wsconn_send ctl ok r con buffer buflen = (case (con, buffer) of
     (Some c, Some s) \<Rightarrow>
       if buflen < 0 then Some (r, con, -1)
       else if wsconn_established con \<noteq> 0 then Some (r, con, -1)
       else do {
         let nwrite = buffer_write_len (ws_wbuf c);
         wb \<leftarrow> ws_put (ws_wbuf c) [0x81];
         let h = (if buflen < 126 then [word_of_int buflen]
                  else if buflen \<le> 65535 then [126, ucast (drop_bit 8 (word_of_int buflen :: u16)), ucast (word_of_int buflen :: u16)]
                  else 127 # map (\<lambda>n. ucast (drop_bit n (word_of_int buflen :: u64))) [56, 48, 40, 32, 24, 16, 8, 0]);
         c_assert (buflen + 1 + int (length h) < 2 ^ 31);
         if nwrite < buflen + 1 + int (length h) then Some (r, Some (c\<lparr>ws_wbuf := wb\<rparr>), -1)
         else do {
           wb \<leftarrow> ws_put wb h;
           (wb, _) \<leftarrow> buffer_write wb buffer buflen;
           let c = c\<lparr>ws_wbuf := wb\<rparr>;
           (r, _) \<leftarrow> reactor_modify ctl ok r (Some (ws_handler c)) (EVENT_IN OR EVENT_OUT);
           Some (r, Some c, 0) } }
   | _ \<Rightarrow> Some (r, con, -1))"

section \<open>The write and close handlers\<close>

definition EAGAIN :: int where "EAGAIN = 11"
definition EINTR :: int where "EINTR = 4"

definition wsconn_write ::
  "'k ctl \<Rightarrow> bool \<Rightarrow> (u8 list \<Rightarrow> int) \<Rightarrow> int \<Rightarrow> 'k backend option \<Rightarrow> wsconn_t \<Rightarrow>
   ('k backend option \<times> wsconn_t \<times> int) option" where
  \<comment> \<open>\<open>sys\<close>: \<^verbatim>\<open>write\<close> on the descriptor, with the number of bytes it took\<close>
  "wsconn_write ctl ok sys errno r con =
     (let nwrite = buffer_read_len (ws_wbuf con) in
      if nwrite \<le> 0 then Some (r, con, 0)
      else do {
        wb \<leftarrow> ws_wbuf con;
        bytes \<leftarrow> rd_n (b_mem wb) (nat (b_read wb)) (nat nwrite);
        let res = sys bytes;
        if res < 0 then Some (r, con, if EAGAIN = errno \<or> EINTR = errno then 0 else - errno)
        else if res = 0 then Some (r, con, -1)
        else do {
          (wb, _) \<leftarrow> buffer_read_nocopy (ws_wbuf con) res;
          let con = con\<lparr>ws_wbuf := wb\<rparr>;
          (if res = nwrite then do {
             (r, _) \<leftarrow> reactor_modify ctl ok r (Some (ws_handler con)) EVENT_IN;
             Some (r, con, 0) }
           else Some (r, con, 0)) } })"

definition wsconn_close :: "('s, 'k) ws_funcs \<Rightarrow> ('s, 'k) ws_state \<Rightarrow> (('s, 'k) ws_state \<times> int) option" where
  "wsconn_close fns st = (case st of (s, r, con) \<Rightarrow> do {
     st \<leftarrow> (if ws_on_close con \<noteq> NULL then call_close fns (ws_on_close con) (ws_fd con) (ws_close_arg con) st
            else Some st);
     Some (st, 0) })"

section \<open>The frame format\<close>

definition ws_xor :: "u8 list \<Rightarrow> u8 list \<Rightarrow> u8 list" where
  "ws_xor key s = map (\<lambda>i. s ! i XOR key ! (i mod 4)) [0..<length s]"

definition ws_head :: "bool \<Rightarrow> nat \<Rightarrow> u8 list" where
  \<comment> \<open>the second byte of a frame, with the extended length\<close>
  "ws_head masked n = (let m = (if masked then 0x80 else 0) in
     if n < 126 then [m OR of_nat n]
     else if n \<le> 65535 then (m OR 126) # be16 (of_nat n)
     else (m OR 127) # be64 (of_nat n))"

definition ws_encode :: "u8 list option \<Rightarrow> u8 list \<Rightarrow> u8 list" where
  \<comment> \<open>the text frame of a message, masked by a client\<close>
  "ws_encode key s = 0x81 # ws_head (key \<noteq> None) (length s) @
     (case key of None \<Rightarrow> s | Some k \<Rightarrow> k @ ws_xor k s)"

lemma length_ws_xor [simp]: "length (ws_xor key s) = length s"
  by (simp add: ws_xor_def)

lemma ws_xor_twice [simp]: "ws_xor key (ws_xor key s) = s"
  by (rule nth_equalityI) (auto simp: ws_xor_def xor.assoc)

section \<open>Decoding\<close>

lemma rd_content:
  assumes "buffer_inv b" "i < length (buffer_content b)"
  shows "rd (b_mem b) (nat (b_read b) + i) = Some (buffer_content b ! i)"
    and "nat (b_read b) + i < length (b_mem b)"
proof -
  have "nat (b_read b) + i < length (b_mem b)" using assms length_buffer_content [OF assms(1)] by (auto simp: buffer_inv_def)
  then show "rd (b_mem b) (nat (b_read b) + i) = Some (buffer_content b ! i)"
    and "nat (b_read b) + i < length (b_mem b)"
    using assms by (auto simp: buffer_content_def)
qed

lemma ws_payload_len_content:
  assumes "buffer_inv b" "2 \<le> length (buffer_content b)"
  shows "ws_payload_len (b_mem b) (nat (b_read b)) (int (length (buffer_content b)))
       = ws_payload_len (buffer_content b) 0 (int (length (buffer_content b)))"
    and "ws_payload_len (buffer_content b) 0 (int (length (buffer_content b))) \<noteq> None"
proof -
  let ?c = "buffer_content b" and ?p = "nat (b_read b)"
  have r: "rd (b_mem b) (?p + i) = Some (?c ! i)" if "i < length ?c" for i using rd_content [OF assms(1) that] by simp
  have r1: "rd (b_mem b) (Suc ?p) = Some (?c ! Suc 0)" using r [of 1] assms(2) by (simp del: rd_Some)
  show "ws_payload_len (b_mem b) ?p (int (length ?c)) = ws_payload_len ?c 0 (int (length ?c))"
    "ws_payload_len ?c 0 (int (length ?c)) \<noteq> None"
    using assms(2) by (simp_all add: ws_payload_len_def Let_def r1 r [of 2] r [of 3] r [of 4] r [of 5] r [of 6] r [of 7]
        r [of 8] r [of 9] cong: if_cong del: add_2_eq_Suc add_2_eq_Suc')
qed

lemma ws_unmask_ok:
  assumes "q + unat len \<le> length m" "length key = 4"
  shows "\<exists>m'. ws_unmask m q key len i = Some m' \<and> length m' = length m
    \<and> (\<forall>j < length m. m' ! j = (if q + i \<le> j \<and> j < q + unat len then m ! j XOR key ! ((j - q) mod 4) else m ! j))"
  using assms
proof (induction m q key len i rule: ws_unmask.induct)
  case (1 m q key len i)
  show ?case
  proof (cases "i < unat len")
    case True
    let ?b = "m ! (q + i) XOR key ! (i mod 4)"
    let ?m = "m[q + i := ?b]"
    have r: "rd m (q + i) = Some (m ! (q + i))" "rd key (i mod 4) = Some (key ! (i mod 4))" "wr m (q + i) ?b = Some ?m"
      using True 1(2,3) by simp_all
    obtain m' where m': "ws_unmask ?m q key len (i + 1) = Some m'" "length m' = length m"
        "\<forall>j < length m. m' ! j = (if q + (i + 1) \<le> j \<and> j < q + unat len then ?m ! j XOR key ! ((j - q) mod 4) else ?m ! j)"
      using 1(1) [OF True r] 1(2,3) by auto
    have "m' ! j = (if q + i \<le> j \<and> j < q + unat len then m ! j XOR key ! ((j - q) mod 4) else m ! j)" if "j < length m" for j
      using m'(3) that True by (cases "j = q + i") (auto simp: nth_list_update)
    then show ?thesis using m' True r by (subst ws_unmask.simps) simp
  qed (subst ws_unmask.simps, use assms in auto)
qed

lemma ws_unmask_out:
  "i < unat len \<Longrightarrow> length m < q + unat len \<Longrightarrow> ws_unmask m q key len i = None"
proof (induction m q key len i rule: ws_unmask.induct)
  case (1 m q key len i)
  show ?case
  proof (cases "q + i < length m \<and> i mod 4 < length key")
    case True
    let ?b = "m ! (q + i) XOR key ! (i mod 4)"
    have r: "rd m (q + i) = Some (m ! (q + i))" "rd key (i mod 4) = Some (key ! (i mod 4))" "wr m (q + i) ?b = Some (m[q + i := ?b])"
      using True by simp_all
    have "ws_unmask (m[q + i := ?b]) q key len (i + 1) = None"
      using 1(1) [OF 1(2) r] 1(2,3) True by (cases "i + 1 < unat len") auto
    then show ?thesis using 1(2) r by (subst ws_unmask.simps) simp
  next
    case False
    then show ?thesis by (subst ws_unmask.simps) (auto simp: rd_def 1(2))
  qed
qed

lemma unmask_content:
  assumes "buffer_inv b" "h + unat len \<le> length (buffer_content b)" "length key = 4"
  shows "\<exists>m. ws_unmask (b_mem b) (nat (b_read b) + h) key len 0 = Some m \<and> buffer_inv (b\<lparr>b_mem := m\<rparr>)
    \<and> buffer_content (b\<lparr>b_mem := m\<rparr>) = take h (buffer_content b)
        @ ws_xor key (take (unat len) (drop h (buffer_content b))) @ drop (h + unat len) (buffer_content b)"
proof -
  let ?c = "buffer_content b" and ?p = "nat (b_read b)"
  have len: "int (length ?c) = b_write b - b_read b" by (rule length_buffer_content [OF assms(1)])
  then have "?p + h + unat len \<le> length (b_mem b)" using assms by (auto simp: buffer_inv_def)
  then obtain m where m: "ws_unmask (b_mem b) (?p + h) key len 0 = Some m" "length m = length (b_mem b)"
      "\<forall>j < length (b_mem b). m ! j = (if ?p + h \<le> j \<and> j < ?p + h + unat len then b_mem b ! j XOR key ! ((j - (?p + h)) mod 4) else b_mem b ! j)"
    using ws_unmask_ok [of "?p + h" len "b_mem b" key 0] assms(3) by auto
  have inv: "buffer_inv (b\<lparr>b_mem := m\<rparr>)" using assms(1) m(2) by (auto simp: buffer_inv_def)
  have len': "length (buffer_content (b\<lparr>b_mem := m\<rparr>)) = length ?c"
    using m(2) by (simp add: buffer_content_def)
  have "buffer_content (b\<lparr>b_mem := m\<rparr>) = take h ?c @ ws_xor key (take (unat len) (drop h ?c)) @ drop (h + unat len) ?c"
  proof (rule nth_equalityI)
    show "length (buffer_content (b\<lparr>b_mem := m\<rparr>)) = length (take h ?c @ ws_xor key (take (unat len) (drop h ?c)) @ drop (h + unat len) ?c)"
      using assms(2) len' by simp
    fix j assume "j < length (buffer_content (b\<lparr>b_mem := m\<rparr>))"
    then have j: "j < length ?c" using len' by simp
    have "buffer_content (b\<lparr>b_mem := m\<rparr>) ! j = m ! (?p + j)" using rd_content [OF inv, of j] j len' by simp
    moreover have "?c ! j = b_mem b ! (?p + j)" and bound: "?p + j < length (b_mem b)"
      using rd_content [OF assms(1) j] by simp_all
    ultimately have "buffer_content (b\<lparr>b_mem := m\<rparr>) ! j = (if h \<le> j \<and> j < h + unat len then ?c ! j XOR key ! ((j - h) mod 4) else ?c ! j)"
      using m(3) by (simp add: add.assoc)
    then show "buffer_content (b\<lparr>b_mem := m\<rparr>) ! j = (take h ?c @ ws_xor key (take (unat len) (drop h ?c)) @ drop (h + unat len) ?c) ! j"
      using assms(2) j by (auto simp: nth_append ws_xor_def)
  qed
  with m inv show ?thesis by blast
qed

text \<open>The header that \<open>ws_encode\<close> writes is read back.\<close>

lemma ws_first_bits:
  "((if k then 0x80 else 0) OR 126) AND (0x7f :: u8) = 126" "((if k then 0x80 else 0) OR 127) AND (0x7f :: u8) = 127"
  "((if k then 0x80 else 0) OR 126) AND (0x80 :: u8) = (if k then 0x80 else 0)"
  "((if k then 0x80 else 0) OR 127) AND (0x80 :: u8) = (if k then 0x80 else 0)"
  by simp_all

lemma ws_short_bits:
  assumes "n < 126"
  shows "((if k then 0x80 else 0) OR of_nat n) AND (0x7f :: u8) = of_nat n"
    and "((if k then 0x80 else 0) OR of_nat n) AND (0x80 :: u8) = (if k then 0x80 else 0)"
proof -
  have "n \<in> set [0..<126]" using assms by simp
  moreover have "\<forall>n \<in> set [0..<126]. (0x80 OR of_nat n) AND (0x7f :: u8) = of_nat n \<and> of_nat n AND (0x7f :: u8) = of_nat n
      \<and> (0x80 OR of_nat n) AND (0x80 :: u8) = 0x80 \<and> of_nat n AND (0x80 :: u8) = 0"
    by (simp add: upt_rec)
  ultimately show "((if k then 0x80 else 0) OR of_nat n) AND (0x7f :: u8) = of_nat n"
    and "((if k then 0x80 else 0) OR of_nat n) AND (0x80 :: u8) = (if k then 0x80 else 0)" by auto
qed

lemma ws_length16_be16: "ws_length16 (ucast (drop_bit 8 w)) (ucast (w :: u16)) = ucast w"
proof (rule bit_word_eqI)
  fix n
  assume "n < LENGTH(64)"
  then consider "n < 8" | "8 \<le> n" "n < 16" | "16 \<le> n" "n < 32" | "32 \<le> n" "n < 64" by (auto; linarith)
  then show "bit (ws_length16 (ucast (drop_bit 8 w)) (ucast w)) n = bit (ucast w :: u64) n"
    by cases (auto simp: ws_length16_def bit_simps dest: bit_imp_le_length)
qed

lemma ws_payload_len_encode:
  fixes n :: nat
  assumes c: "c = x # ws_head k n @ t" and n: "n < 2 ^ 64"
  shows "ws_payload_len c 0 (int (length c)) = Some (Some (of_nat n, 1 + length (ws_head k n)))"
    and "c ! 1 AND 0x80 = (if k then 0x80 else 0)"
proof -
  have u8: "(ucast (of_nat n :: u8) :: u64) = of_nat n" if "n < 126"
    using that by (intro word_unat_eq_iff [THEN iffD2]) (simp add: unsigned_ucast_eq unsigned_of_nat take_bit_nat_eq_self)
  have u16: "(ucast (of_nat n :: u16) :: u64) = of_nat n" if "n \<le> 65535"
    using that by (intro word_unat_eq_iff [THEN iffD2]) (simp add: unsigned_ucast_eq unsigned_of_nat take_bit_nat_eq_self)
  have ne: "(of_nat n :: u64) \<noteq> 126 \<and> (of_nat n :: u64) \<noteq> 127" if "n < 126"
    using that by (auto simp: word_unat_eq_iff unsigned_of_nat take_bit_nat_eq_self)
  consider "n < 126" | "126 \<le> n" "n \<le> 65535" | "65535 < n" by linarith
  then show "ws_payload_len c 0 (int (length c)) = Some (Some (of_nat n, 1 + length (ws_head k n)))"
  proof cases
    case 1
    then show ?thesis unfolding c ws_payload_len_def ws_head_def Let_def using u8 ne by (simp add: ws_short_bits)
  next
    case 2
    then show ?thesis unfolding c ws_payload_len_def ws_head_def Let_def be16_def
      using u16 by (simp add: ws_first_bits ws_length16_be16 nth_Cons')
  next
    case 3
    then show ?thesis unfolding c ws_payload_len_def ws_head_def Let_def be64_def
      using join64_be64 [of "of_nat n", unfolded join64_def] by (simp add: ws_first_bits nth_Cons')
  qed
  show "c ! 1 AND 0x80 = (if k then 0x80 else 0)"
    unfolding c by (cases "n < 126") (auto simp: ws_head_def Let_def ws_first_bits ws_short_bits)
qed

lemma ws_payload_len_shift:
  "ws_payload_len c 0 (int (length c)) = Some (Some (len, sh)) \<Longrightarrow> sh = 2 \<or> sh = 4 \<or> sh = 10"
  by (auto simp: ws_payload_len_def Let_def bind_eq_Some_conv split: if_splits)

lemma ws_too_short:
  fixes len :: u64
  assumes "L < 2 ^ 64"
  shows "(word_of_int (int L) < len + of_nat sh) = (L < (unat len + sh) mod 2 ^ 64)"
    and "(word_of_int (int L) < len + of_nat sh + 4) = (L < (unat len + (sh + 4)) mod 2 ^ 64)"
proof -
  have e: "unat (word_of_int (int L) :: u64) = L" using assms by (simp add: unsigned_of_nat take_bit_nat_eq_self)
  show a: "(word_of_int (int L) < len + of_nat s) = (L < (unat len + s) mod 2 ^ 64)" for s
    using assms by (simp add: word_less_nat_alt e unat_word_ariths unsigned_of_nat take_bit_eq_mod mod_add_right_eq)
  show "(word_of_int (int L) < len + of_nat sh + 4) = (L < (unat len + (sh + 4)) mod 2 ^ 64)"
    using a [of "sh + 4"] by (simp add: add.assoc)
qed

lemma sint_small: "unat w < 2 ^ 31 \<Longrightarrow> sint (ucast (w :: u64) :: u32) = int (unat w)"
proof -
  assume "unat w < 2 ^ 31"
  then have "int (unat w) < int (2 ^ 31)" by (simp only: of_nat_less_iff)
  then have "uint w < 2 ^ 31" by simp
  moreover have "- (2 ^ 31) \<le> uint w" by (rule order_trans [of _ 0]) simp_all
  ultimately show ?thesis by (simp add: sint_uint unsigned_ucast_eq take_bit_int_eq_self signed_take_bit_int_eq_self)
qed

lemma sint_wrapped:
  assumes "2 ^ 64 - 10 \<le> unat (w :: u64)"
  shows "sint (ucast w :: u32) < 0"
proof -
  obtain j where j: "unat w = 2 ^ 64 - 10 + j" using assms le_Suc_ex by blast
  moreover have "unat w < 2 ^ 64" using unsigned_less [of w] by simp
  ultimately have "j < 10" by simp
  then have "j \<in> set [0..<10]" by simp
  moreover have "w = of_nat (2 ^ 64 - 10 + j)" unfolding j [symmetric] by simp
  ultimately show ?thesis by (auto simp: upt_rec)
qed

lemma buffer_write_prefix:
  assumes "0 \<le> n" "nat n \<le> length src"
  shows "buffer_write cb (Some src) n = buffer_write cb (Some (take (nat n) src)) n"
proof -
  have one: "buffer_write cb (Some src) k = buffer_write cb (Some (take (nat n) src)) k"
    if "k \<le> n" "\<not> buffer_write_len cb < k" for k
    using that assms
    by (subst (1 2) buffer_write.simps) (auto simp: rd_n_def min_def split: option.splits)
  show ?thesis
  proof (cases "buffer_write_len cb < n")
    case True
    then show ?thesis using one [of "buffer_write_len cb"] assms
      by (subst (1 2) buffer_write.simps) (auto split: option.splits)
  qed (use one [of n] in simp)
qed

lemma rd_n_content:
  assumes "buffer_inv b"
  shows "rd_n (b_mem b) (nat (b_read b)) (length (buffer_content b)) = Some (buffer_content b)"
  using assms length_buffer_content [OF assms] by (auto simp: rd_n_def buffer_content_def buffer_inv_def)

definition ws_consult ::
  "('s, 'k) ws_funcs \<Rightarrow> ('s, 'k) ws_state \<Rightarrow> u8 list \<Rightarrow> int \<Rightarrow> (('s, 'k) ws_state \<times> int \<times> bool) option" where
  \<comment> \<open>the second half of \<open>ws_deliver\<close>: the callback gets \<open>bytes\<close> and says how many it took\<close>
  "ws_consult fns st bytes n = do {
     ((s, r, con), res) \<leftarrow> (case st of (s, r, con) \<Rightarrow>
       if ws_on_read con \<noteq> NULL then call_read fns (ws_on_read con) (ws_fd con) (ws_read_arg con) bytes st
       else Some (st, n));
     if res > 0 then do {
       (rrb, _) \<leftarrow> buffer_read_nocopy (ws_rrbuf con) res;
       Some ((s, r, con\<lparr>ws_rrbuf := rrb\<rparr>), res, True) }
     else Some ((s, r, con), res, False) }"

lemma ws_deliver_stored:
  assumes "buffer_write (ws_rrbuf con) (Some src) n = Some (Some rrb, k)" "0 \<le> k" "buffer_inv rrb"
  shows "ws_deliver fns (s, r, con) src n = (if buffer_content rrb = [] then None
     else ws_consult fns (s, r, con\<lparr>ws_rrbuf := Some rrb\<rparr>) (buffer_content rrb) k)"
  using assms(1,2) buffer_read_len_content [OF assms(3)] rd_n_content [OF assms(3)]
  by (cases "buffer_content rrb = []") (simp_all add: ws_deliver_def ws_consult_def del: buffer_read_len.simps)

lemma ws_deliver_ok:
  assumes "ws_rrbuf con = Some rrb" "buffer_inv rrb" "n \<le> length src"
  shows "\<exists>rrb'. buffer_inv rrb' \<and> b_size rrb' = b_size rrb
    \<and> buffer_content rrb' = buffer_content rrb @ take (nat (buffer_write_len (Some rrb))) (take n src)
    \<and> ws_deliver fns (s, r, con) src (int n) =
        (if buffer_content rrb' = [] then None
         else ws_consult fns (s, r, con\<lparr>ws_rrbuf := Some rrb'\<rparr>) (buffer_content rrb') (min (int n) (buffer_write_len (Some rrb))))"
proof -
  have len: "length (take n src) = n" using assms(3) by simp
  obtain rrb' where w: "buffer_write (Some rrb) (Some (take n src)) (int n) =
      Some (Some rrb', min (int n) (buffer_write_len (Some rrb)))"
    and inv: "buffer_inv rrb'" and size: "b_size rrb' = b_size rrb"
    and c: "buffer_content rrb' = buffer_content rrb @ take (nat (buffer_write_len (Some rrb))) (take n src)"
    using buffer_write_ok [OF assms(2), of "take n src"] unfolding len by blast
  have "buffer_write (ws_rrbuf con) (Some src) (int n) = Some (Some rrb', min (int n) (buffer_write_len (Some rrb)))"
    using w buffer_write_prefix [of "int n" src "Some rrb"] assms(1,3) by simp
  moreover have "0 \<le> min (int n) (buffer_write_len (Some rrb))" using assms(2) by (simp add: buffer_inv_def)
  ultimately show ?thesis using inv size c ws_deliver_stored [OF _ _ inv] by (intro exI [of _ rrb'] conjI)
qed

lemma ws_deliver_refused:
  "n < 0 \<Longrightarrow> ws_deliver fns (s, r, con) src n = Some ((s, r, con), -1, False)"
  by (cases "ws_rrbuf con") (auto simp: ws_deliver_def buffer_write.simps)

definition ws_frame_head :: "u8 list \<Rightarrow> (bool \<times> u64 \<times> nat) option" where
  \<comment> \<open>the header of a text frame: the mask flag, the declared length, the offset of the masking key\<close>
  "ws_frame_head c = (if length c < 2 \<or> c ! 0 AND 0x0f \<noteq> 1 then None
     else map_option (\<lambda>(len, sh). (c ! 1 AND 0x80 \<noteq> 0, len, sh)) (the (ws_payload_len c 0 (int (length c)))))"

definition ws_frame_total :: "bool \<times> u64 \<times> nat \<Rightarrow> nat" where
  \<comment> \<open>the length of the whole frame, as a number\<close>
  "ws_frame_total h = (case h of (masked, len, sh) \<Rightarrow> unat len + sh + (if masked then 4 else 0))"

definition ws_body :: "u8 list \<Rightarrow> bool \<times> u64 \<times> nat \<Rightarrow> u8 list" where
  \<comment> \<open>the payload of a complete frame, unmasked\<close>
  "ws_body c h = (case h of (masked, len, sh) \<Rightarrow>
     if masked then ws_xor (take 4 (drop sh c)) (take (unat len) (drop (sh + 4) c)) else take (unat len) (drop sh c))"

lemma ws_frame_bytes:
  assumes "buffer_inv rb" "2 \<le> length (buffer_content rb)"
  shows "rd (b_mem rb) (nat (b_read rb)) = Some (buffer_content rb ! 0)"
    and "rd (b_mem rb) (Suc (nat (b_read rb))) = Some (buffer_content rb ! Suc 0)"
    and "ws_payload_len (b_mem rb) (nat (b_read rb)) (int (length (buffer_content rb))) =
      ws_payload_len (buffer_content rb) 0 (int (length (buffer_content rb)))"
  using rd_content(1) [OF assms(1), of 0] rd_content(1) [OF assms(1), of 1] assms(2) ws_payload_len_content [OF assms]
  by (simp_all del: rd_Some) (cases "buffer_content rb"; simp)

lemma wsconn_frame_ignored:
  assumes "ws_rbuf con = Some rb" "buffer_inv rb" "ws_frame_head (buffer_content rb) = None"
  shows "\<exists>res. wsconn_frame fns (s, r, con) (int (length (buffer_content rb))) = Some ((s, r, con), res) \<and> res \<le> 0"
proof (cases "length (buffer_content rb) < 2")
  case True
  then show ?thesis by (simp add: wsconn_frame_def)
next
  case False
  then have l: "2 \<le> length (buffer_content rb)" by simp
  show ?thesis
    using assms l ws_payload_len_content(2) [OF assms(2) l] unfolding wsconn_frame_def
    by (auto simp: ws_frame_bytes [OF assms(2) l] ws_frame_head_def Let_def simp del: rd_Some)
qed

lemma wsconn_frame_head:
  assumes "ws_rbuf con = Some rb" "buffer_inv rb"
    and h: "ws_frame_head (buffer_content rb) = Some (masked, len, sh)"
    and L: "length (buffer_content rb) < 2 ^ 31"
  shows "wsconn_frame fns (s, r, con) (int (length (buffer_content rb))) =
    (if length (buffer_content rb) < ws_frame_total (masked, len, sh) mod 2 ^ 64 then Some ((s, r, con), 0)
     else do {
       let payload_shift = (if masked then sh + 4 else sh);
       m \<leftarrow> (if masked then do {
               key \<leftarrow> rd_n (b_mem rb) (nat (b_read rb) + sh) 4;
               ws_unmask (b_mem rb) (nat (b_read rb) + payload_shift) key len 0 }
             else Some (b_mem rb));
       let len = sint (ucast len :: u32);
       ((s, r, con), res, took) \<leftarrow> ws_deliver fns (s, r, con\<lparr>ws_rbuf := Some (rb\<lparr>b_mem := m\<rparr>)\<rparr>)
           (drop (nat (b_read rb) + payload_shift) m) len;
       Some ((s, r, con), if took then len + int sh + (if masked then 4 else 0) else res) })"
proof -
  let ?c = "buffer_content rb"
  have c: "2 \<le> length ?c" "?c ! 0 AND 0x0f = 1" "masked = (?c ! 1 AND 0x80 \<noteq> 0)"
    using h by (auto simp: ws_frame_head_def split: if_splits)
  have p: "ws_payload_len (b_mem rb) (nat (b_read rb)) (int (length ?c)) = Some (Some (len, sh))"
    using h ws_payload_len_content [OF assms(2) c(1)] by (auto simp: ws_frame_head_def split: if_splits)
  have ts: "(word_of_int (int (length ?c)) < (if masked then len + of_nat sh + 4 else len + of_nat sh)) =
      (length ?c < ws_frame_total (masked, len, sh) mod 2 ^ 64)"
    using ws_too_short [of "length ?c" len sh] L by (cases masked) (simp_all add: ws_frame_total_def add.assoc)
  show ?thesis
    using c assms(1) unfolding wsconn_frame_def Let_def ts [symmetric]
    by (simp add: ws_frame_bytes [OF assms(2) c(1)] p [unfolded ws_frame_bytes [OF assms(2) c(1)]] del: rd_Some of_int_of_nat_eq)
qed

lemma ws_header_length:
  assumes "ws_frame_head c = Some (masked, len, sh)"
  shows "sh \<in> {2, 4, 10}"
  using assms ws_payload_len_shift [of c len sh]
  by (cases "ws_payload_len c 0 (int (length c))") (auto simp: ws_frame_head_def ws_payload_len_def Let_def split: if_splits)

lemma drop_content:
  assumes "buffer_inv b" "h + n \<le> length (buffer_content b)"
  shows "take n (drop (nat (b_read b) + h) (b_mem b)) = take n (drop h (buffer_content b))"
    and "n \<le> length (drop (nat (b_read b) + h) (b_mem b))"
proof -
  have len: "int (length (buffer_content b)) = b_write b - b_read b" by (rule length_buffer_content [OF assms(1)])
  then have "h + n \<le> nat (b_write b - b_read b)" using assms(2) by linarith
  then show "take n (drop (nat (b_read b) + h) (b_mem b)) = take n (drop h (buffer_content b))"
    unfolding buffer_content_def by (simp add: drop_take add.commute min_def)
  show "n \<le> length (drop (nat (b_read b) + h) (b_mem b))" using len assms by (auto simp: buffer_inv_def)
qed

lemma wsconn_frame_complete:
  assumes con: "ws_rbuf con = Some rb" "buffer_inv rb" "ws_rrbuf con = Some rrb" "buffer_inv rrb"
    and h: "ws_frame_head (buffer_content rb) = Some h"
    and L: "length (buffer_content rb) < 2 ^ 31" "ws_frame_total h \<le> length (buffer_content rb)"
  shows "\<exists>rb' rrb'. buffer_inv rb' \<and> length (buffer_content rb') = length (buffer_content rb)
    \<and> drop (ws_frame_total h) (buffer_content rb') = drop (ws_frame_total h) (buffer_content rb)
    \<and> buffer_inv rrb' \<and> b_size rrb' = b_size rrb
    \<and> buffer_content rrb' = buffer_content rrb @ take (nat (buffer_write_len (Some rrb))) (ws_body (buffer_content rb) h)
    \<and> wsconn_frame fns (s, r, con) (int (length (buffer_content rb))) =
        (if buffer_content rrb' = [] then None
         else do {
           ((s, r, con), res, took) \<leftarrow> ws_consult fns (s, r, con\<lparr>ws_rbuf := Some rb', ws_rrbuf := Some rrb'\<rparr>)
              (buffer_content rrb') (min (int (length (ws_body (buffer_content rb) h))) (buffer_write_len (Some rrb)));
           Some ((s, r, con), if took then int (ws_frame_total h) else res) })"
proof -
  let ?c = "buffer_content rb"
  obtain masked len sh where hd: "h = (masked, len, sh)" by (cases h)
  define p where "p = (if masked then sh + 4 else sh)"
  have tot: "ws_frame_total h = p + unat len" by (simp add: hd ws_frame_total_def p_def)
  have end_pos: "uint len + int sh + (if masked then 4 else 0) = int (ws_frame_total h)" by (auto simp: tot p_def)
  have small: "unat len < 2 ^ 31" using L tot by linarith
  define key where "key = take 4 (drop sh ?c)"
  define m where "m = (if masked then the (ws_unmask (b_mem rb) (nat (b_read rb) + p) key len 0) else b_mem rb)"
  have body: "ws_body ?c h = (if masked then ws_xor key (take (unat len) (drop p ?c)) else take (unat len) (drop p ?c))"
    by (simp add: ws_body_def hd key_def p_def)
  have key: "rd_n (b_mem rb) (nat (b_read rb) + sh) 4 = Some key" "length key = 4" if masked
    using drop_content [OF con(2), of sh 4] that L(2) by (auto simp: tot p_def rd_n_def key_def)
  have um: "(if masked then do { key \<leftarrow> rd_n (b_mem rb) (nat (b_read rb) + sh) 4;
        ws_unmask (b_mem rb) (nat (b_read rb) + p) key len 0 } else Some (b_mem rb)) = Some m \<and> buffer_inv (rb\<lparr>b_mem := m\<rparr>)
      \<and> buffer_content (rb\<lparr>b_mem := m\<rparr>) = take p ?c @ ws_body ?c h @ drop (ws_frame_total h) ?c"
  proof (cases masked)
    case True
    then show ?thesis using unmask_content [OF con(2), of p len key] L(2) key by (auto simp: m_def body tot)
  next
    case False
    moreover have "take p ?c @ take (unat len) (drop p ?c) @ drop (p + unat len) ?c = ?c"
      by (metis add.commute append_take_drop_id drop_drop)
    ultimately show ?thesis using con(2) L(2) by (simp add: m_def body tot)
  qed
  let ?rb = "rb\<lparr>b_mem := m\<rparr>"
  have lb: "length (ws_body ?c h) = unat len" using L(2) by (simp add: body tot)
  have lc: "length (buffer_content ?rb) = length ?c" using um lb L(2) by (simp add: tot)
  have src: "take (unat len) (drop (nat (b_read rb) + p) m) = ws_body ?c h" "unat len \<le> length (drop (nat (b_read rb) + p) m)"
    using drop_content [of ?rb p "unat len"] um L(2) lc lb by (auto simp: tot)
  have x: "ws_rrbuf (con\<lparr>ws_rbuf := Some ?rb\<rparr>) = Some rrb" using con(3) by simp
  obtain rrb' where rrb': "buffer_inv rrb'" "b_size rrb' = b_size rrb"
      "buffer_content rrb' = buffer_content rrb @ take (nat (buffer_write_len (Some rrb))) (ws_body ?c h)"
      "ws_deliver fns (s, r, con\<lparr>ws_rbuf := Some ?rb\<rparr>) (drop (nat (b_read rb) + p) m) (int (unat len)) =
        (if buffer_content rrb' = [] then None
         else ws_consult fns (s, r, con\<lparr>ws_rbuf := Some ?rb, ws_rrbuf := Some rrb'\<rparr>) (buffer_content rrb')
           (min (int (unat len)) (buffer_write_len (Some rrb))))"
    using ws_deliver_ok [OF x con(4) src(2), of fns s r, unfolded src(1)] by blast
  have "ws_frame_total h mod 2 ^ 64 = ws_frame_total h" using L by simp
  then have "wsconn_frame fns (s, r, con) (int (length ?c)) =
      (if buffer_content rrb' = [] then None
       else do {
         ((s, r, con), res, took) \<leftarrow> ws_consult fns (s, r, con\<lparr>ws_rbuf := Some ?rb, ws_rrbuf := Some rrb'\<rparr>)
            (buffer_content rrb') (min (int (length (ws_body ?c h))) (buffer_write_len (Some rrb)));
         Some ((s, r, con), if took then int (ws_frame_total h) else res) })"
    using wsconn_frame_head [OF con(1,2), of masked len sh fns s r, folded p_def] h L(1) um rrb'(4) lb sint_small [OF small] L(2)
    unfolding end_pos [symmetric]
    by (cases "buffer_content rrb' = []") (simp_all add: hd Let_def not_less split del: if_split)
  moreover have "drop (ws_frame_total h) (buffer_content ?rb) = drop (ws_frame_total h) ?c"
    using um lb L(2) by (simp add: tot)
  ultimately show ?thesis using um lc rrb' by blast
qed

lemma wsconn_frame_wrapped:
  assumes con: "ws_rbuf con = Some rb" "buffer_inv rb" "ws_rrbuf con = Some rrb"
    and h: "ws_frame_head (buffer_content rb) = Some h"
    and L: "b_size rb < 2 ^ 31" "2 ^ 64 \<le> ws_frame_total h" "ws_frame_total h - 2 ^ 64 \<le> length (buffer_content rb)"
  shows "wsconn_frame fns (s, r, con) (int (length (buffer_content rb))) = None \<longleftrightarrow> fst h"
proof -
  let ?c = "buffer_content rb"
  obtain masked len sh where hd: "h = (masked, len, sh)" by (cases h)
  have len: "unat len < 2 ^ 64" using unsigned_less [of len] by simp
  have "int (length ?c) \<le> b_size rb" using length_buffer_content [OF con(2)] con(2) by (auto simp: buffer_inv_def)
  then have lc: "length ?c < 2 ^ 31" using L(1) by simp
  have sh: "sh \<le> 10" using ws_header_length [of ?c masked len sh] h hd by auto
  have "ws_frame_total h mod 2 ^ 64 = ws_frame_total h - 2 ^ 64"
    using L(2) len sh by (simp add: hd ws_frame_total_def le_mod_geq)
  then have go: "\<not> length ?c < ws_frame_total h mod 2 ^ 64" using L(3) by simp
  show ?thesis
  proof (cases masked)
    case True
    have "length (b_mem rb) < 2 ^ 31" using con(2) L(1) by (auto simp: buffer_inv_def)
    moreover have "2 ^ 64 - 14 \<le> unat len" using L(2) sh True by (simp add: hd ws_frame_total_def)
    ultimately have "ws_unmask (b_mem rb) (nat (b_read rb) + (sh + 4)) k len 0 = None" for k
      by (intro ws_unmask_out) simp_all
    then show ?thesis
      using wsconn_frame_head [OF con(1,2), of masked len sh fns s r] h lc go True by (simp add: hd Let_def)
  next
    case False
    then have "2 ^ 64 - 10 \<le> unat len" using L(2) sh by (simp add: hd ws_frame_total_def)
    then show ?thesis
      using wsconn_frame_head [OF con(1,2), of masked len sh fns s r] h lc go False
      by (simp add: hd Let_def ws_deliver_refused [OF sint_wrapped])
  qed
qed

section \<open>Sending\<close>

lemma ws_put_ok:
  assumes "buffer_inv wb"
  shows "\<exists>wb'. ws_put (Some wb) bytes = Some (Some wb') \<and> buffer_inv wb' \<and> b_size wb' = b_size wb
    \<and> buffer_content wb' = buffer_content wb @ take (nat (buffer_write_len (Some wb))) bytes
    \<and> buffer_write_len (Some wb') = buffer_write_len (Some wb) - min (int (length bytes)) (buffer_write_len (Some wb))"
  using assms
proof (induction bytes arbitrary: wb)
  case Nil
  then show ?case by (auto simp: ws_put_def buffer_inv_def)
next
  case (Cons x bytes)
  let ?room = "buffer_write_len (Some wb)"
  have room: "0 \<le> ?room" using Cons.prems by (simp add: buffer_inv_def)
  obtain w where w: "buffer_write (Some wb) (Some [x]) 1 = Some (Some w, min 1 ?room)" "buffer_inv w"
      "buffer_content w = buffer_content wb @ take (nat ?room) [x]" "b_size w = b_size wb"
      "buffer_write_len (Some w) = ?room - min 1 ?room"
    using buffer_write_ok [OF Cons.prems, of "[x]"] by auto
  obtain w' where w': "ws_put (Some w) bytes = Some (Some w')" "buffer_inv w'" "b_size w' = b_size w"
      "buffer_content w' = buffer_content w @ take (nat (buffer_write_len (Some w))) bytes"
      "buffer_write_len (Some w') = buffer_write_len (Some w) - min (int (length bytes)) (buffer_write_len (Some w))"
    using Cons.IH [OF w(2)] by blast
  have "ws_put (Some wb) (x # bytes) = Some (Some w')" using w(1) w'(1) by (simp add: ws_put_def)
  moreover have "take (nat ?room) [x] @ take (nat (buffer_write_len (Some w))) bytes = take (nat ?room) (x # bytes)"
    using room w(5) by (cases "nat ?room") (auto simp: min_def nat_diff_distrib simp del: buffer_write_len.simps split: if_splits)
  moreover have "buffer_write_len (Some w') = ?room - min (int (length (x # bytes))) ?room"
    using w'(5) w(5) room by (auto simp: min_def simp del: buffer_write_len.simps split: if_splits)
  ultimately show ?case using w w' by (intro exI [of _ w']) (simp del: buffer_write_len.simps)
qed

lemma ws_head_bytes:
  "(if int n < 126 then [word_of_int (int n)]
    else if int n \<le> 65535 then [126, ucast (drop_bit 8 (word_of_int (int n) :: u16)), ucast (word_of_int (int n) :: u16)]
    else 127 # map (\<lambda>k. ucast (drop_bit k (word_of_int (int n) :: u64))) [56, 48, 40, 32, 24, 16, 8, 0]) = ws_head False n"
  by (simp add: ws_head_def be16_def be64_def)

lemma length_ws_head: "length (ws_head k n) \<in> {1, 3, 9}"
  by (simp add: ws_head_def Let_def)

lemma length_ws_encode_None: "length (ws_encode None s) = 1 + length (ws_head False (length s)) + length s"
  by (simp add: ws_encode_def)

lemma ws_send_exec:
  assumes "ws_wbuf con = Some wb" "buffer_inv wb" "ws_status con = WS_ESTABLISHED"
    and len: "length msg + 10 < 2 ^ 31"
  shows "\<exists>wb'. buffer_inv wb' \<and> b_size wb' = b_size wb
    \<and> (if int (length (ws_encode None msg)) \<le> buffer_write_len (Some wb)
       then buffer_content wb' = buffer_content wb @ ws_encode None msg
         \<and> wsconn_send ctl ok r (Some con) (Some msg) (int (length msg)) = do {
             (r', _) \<leftarrow> reactor_modify ctl ok r (Some (ws_handler con)) (EVENT_IN OR EVENT_OUT);
             Some (r', Some (con\<lparr>ws_wbuf := Some wb'\<rparr>), 0) }
       else buffer_content wb' = buffer_content wb @ take (nat (buffer_write_len (Some wb))) [0x81]
         \<and> wsconn_send ctl ok r (Some con) (Some msg) (int (length msg)) =
             Some (r, Some (con\<lparr>ws_wbuf := Some wb'\<rparr>), -1))"
proof -
  let ?room = "buffer_write_len (Some wb)" and ?h = "ws_head False (length msg)"
  have room: "0 \<le> ?room" using assms(2) by (simp add: buffer_inv_def)
  have fits: "int (length msg) + 1 + int (length ?h) < 2 ^ 31" using length_ws_head [of False "length msg"] len by auto
  obtain w1 where w1: "ws_put (Some wb) [0x81] = Some (Some w1)" "buffer_inv w1" "b_size w1 = b_size wb"
      "buffer_content w1 = buffer_content wb @ take (nat ?room) [0x81]" "buffer_write_len (Some w1) = ?room - min 1 ?room"
    using ws_put_ok [OF assms(2), of "[0x81]"] by auto
  have go: "wsconn_send ctl ok r (Some con) (Some msg) (int (length msg)) =
      (if ?room < int (length msg) + 1 + int (length ?h) then Some (r, Some (con\<lparr>ws_wbuf := Some w1\<rparr>), -1)
       else do {
         wb \<leftarrow> ws_put (Some w1) ?h;
         (wb, _) \<leftarrow> buffer_write wb (Some msg) (int (length msg));
         (r, _) \<leftarrow> reactor_modify ctl ok r (Some (ws_handler con)) (EVENT_IN OR EVENT_OUT);
         Some (r, Some (con\<lparr>ws_wbuf := wb\<rparr>), 0) })"
    using assms(1,3) w1(1) fits unfolding wsconn_send_def Let_def ws_head_bytes
    by (simp add: ws_handler_def del: buffer_write_len.simps)
  show ?thesis
  proof (cases "int (length (ws_encode None msg)) \<le> ?room")
    case False
    then have "?room < int (length msg) + 1 + int (length ?h)" by (simp add: length_ws_encode_None del: buffer_write_len.simps)
    then show ?thesis using False go w1 by (intro exI [of _ w1]) (simp del: buffer_write_len.simps)
  next
    case True
    then have ge: "int (length msg) + 1 + int (length ?h) \<le> ?room" by (simp add: length_ws_encode_None del: buffer_write_len.simps)
    then have r1: "1 \<le> ?room" "buffer_write_len (Some w1) = ?room - 1" using w1(5) by linarith+
    then have c1: "buffer_content w1 = buffer_content wb @ [0x81]" using w1(4) by (cases "nat ?room") (simp_all del: buffer_write_len.simps)
    obtain w2 where w2: "ws_put (Some w1) ?h = Some (Some w2)" "buffer_inv w2" "b_size w2 = b_size w1"
        "buffer_content w2 = buffer_content w1 @ ?h" "buffer_write_len (Some w2) = ?room - 1 - int (length ?h)"
      using ws_put_ok [OF w1(2), of ?h] r1 ge by (auto simp del: buffer_write_len.simps)
    obtain w3 where w3: "buffer_write (Some w2) (Some msg) (int (length msg)) = Some (Some w3, int (length msg))" "buffer_inv w3"
        "b_size w3 = b_size w2" "buffer_content w3 = buffer_content w2 @ msg"
      using buffer_write_ok [OF w2(2), of msg] w2(5) ge by (auto simp del: buffer_write_len.simps)
    have "buffer_content w3 = buffer_content wb @ ws_encode None msg" using w3(4) w2(4) c1 by (simp add: ws_encode_def)
    then show ?thesis using True go ge w1 w2 w3 by (intro exI [of _ w3]) (simp del: buffer_write_len.simps)
  qed
qed

section \<open>Properties\<close>

lemma drop_header: "length k = 4 \<Longrightarrow> drop (5 + length u) (x # u @ k @ t) = t"
  using append_eq_conv_conj [of "x # u @ k" t "x # u @ k @ t"] by (simp add: add.commute)

lemma ws_consult_none:
  assumes "\<forall>f fd arg bytes s r con. \<exists>s' r' con' res.
      call_read fns f fd arg bytes (s, r, con) = Some ((s', r', con'), res) \<and> ws_rrbuf con' = ws_rrbuf con"
    and "ws_rrbuf con = Some rrb" "buffer_inv rrb"
  shows "ws_consult fns (s, r, con) bytes n \<noteq> None"
proof -
  have "\<exists>s' r' con' res. (if ws_on_read con \<noteq> NULL
        then call_read fns (ws_on_read con) (ws_fd con) (ws_read_arg con) bytes (s, r, con) else Some ((s, r, con), n)) =
      Some ((s', r', con'), res) \<and> ws_rrbuf con' = Some rrb"
    using assms(1) [rule_format, of "ws_on_read con" "ws_fd con" "ws_read_arg con" bytes s r con] assms(2)
    by (cases "ws_on_read con = NULL") auto
  then obtain s' r' con' res where c: "(if ws_on_read con \<noteq> NULL
        then call_read fns (ws_on_read con) (ws_fd con) (ws_read_arg con) bytes (s, r, con) else Some ((s, r, con), n)) =
      Some ((s', r', con'), res)" "ws_rrbuf con' = Some rrb"
    by blast
  show ?thesis
    using c buffer_read_nocopy_ok [OF assms(3), of res] by (cases "res > 0") (auto simp: ws_consult_def)
qed

text \<open>C11: What the peer can do to the frame decoder, exactly.  With a read callback that returns and
  leaves the receive buffer alone, handling the pending bytes runs into undefined behaviour or a
  failed assertion in two cases only: a masked frame whose declared 64-bit length wraps the size
  test around (it is then unmasked far beyond the end of the buffer), and a complete frame with an
  empty payload when nothing else is pending.  Every other input, malformed or not, is handled
  within the buffers.\<close>

theorem wsconn_frame_crash_iff:
  assumes "ws_rbuf con = Some rb" "buffer_inv rb" "ws_rrbuf con = Some rrb" "buffer_inv rrb" "b_size rb < 2 ^ 31"
    and "\<forall>f fd arg bytes s r con. \<exists>s' r' con' res.
      call_read fns f fd arg bytes (s, r, con) = Some ((s', r', con'), res) \<and> ws_rrbuf con' = ws_rrbuf con"
  shows "wsconn_frame fns (s, r, con) (int (length (buffer_content rb))) = None \<longleftrightarrow>
    (\<exists>masked len sh. ws_frame_head (buffer_content rb) = Some (masked, len, sh)
      \<and> (masked \<and> unat len + sh + 4 \<in> {2 ^ 64 .. 2 ^ 64 + length (buffer_content rb)}
         \<or> len = 0 \<and> ws_frame_total (masked, len, sh) \<le> length (buffer_content rb) \<and> buffer_content rrb = []))"
proof (cases "ws_frame_head (buffer_content rb)")
  case None
  then show ?thesis using wsconn_frame_ignored [OF assms(1,2) None, of fns s r] by auto
next
  case (Some h)
  obtain masked len sh where h: "h = (masked, len, sh)" by (cases h)
  let ?c = "buffer_content rb"
  have "int (length ?c) \<le> b_size rb" using length_buffer_content [OF assms(2)] assms(2) by (auto simp: buffer_inv_def)
  then have lc: "length ?c < 2 ^ 31" using assms(5) by simp
  have len: "unat len < 2 ^ 64" using unsigned_less [of len] by simp
  have sh: "sh \<le> 10" using ws_header_length [of ?c masked len sh] Some h by auto
  have tot: "ws_frame_total h = unat len + sh + (if masked then 4 else 0)" by (simp add: h ws_frame_total_def)
  consider "ws_frame_total h \<le> length ?c" | "length ?c < ws_frame_total h" "ws_frame_total h < 2 ^ 64"
    | "2 ^ 64 \<le> ws_frame_total h" by linarith
  then show ?thesis
  proof cases
    case 1
    then have "(if masked then sh + 4 else sh) + unat len \<le> length ?c" by (simp add: tot split: if_splits)
    then have "length (ws_body ?c h) = unat len" by (cases masked) (auto simp: ws_body_def h)
    then have z: "ws_body ?c h = [] \<longleftrightarrow> len = 0" by (metis length_0_conv unsigned_eq_0_iff)
    have room: "0 < buffer_write_len (Some rrb)" if "buffer_content rrb = []"
    proof -
      have "b_write rrb = b_read rrb" using that length_buffer_content [OF assms(4)] by simp
      moreover have "b_read rrb \<le> b_size rrb div 2" "0 < b_size rrb" using assms(4) unfolding buffer_inv_def by linarith+
      ultimately show ?thesis by simp
    qed
    obtain rb' rrb' where f: "buffer_inv rrb'"
        "buffer_content rrb' = buffer_content rrb @ take (nat (buffer_write_len (Some rrb))) (ws_body ?c h)"
        "wsconn_frame fns (s, r, con) (int (length ?c)) =
          (if buffer_content rrb' = [] then None
           else do {
             ((s, r, con), res, took) \<leftarrow> ws_consult fns (s, r, con\<lparr>ws_rbuf := Some rb', ws_rrbuf := Some rrb'\<rparr>)
                (buffer_content rrb') (min (int (length (ws_body ?c h))) (buffer_write_len (Some rrb)));
             Some ((s, r, con), if took then int (ws_frame_total h) else res) })"
      using wsconn_frame_complete [OF assms(1-4) Some lc 1, of fns s r] by (elim exE conjE) (rule that; assumption)
    have "wsconn_frame fns (s, r, con) (int (length ?c)) = None \<longleftrightarrow> buffer_content rrb' = []"
      using f(3) ws_consult_none [OF assms(6) _ f(1)] by (auto simp: bind_eq_None_conv split: prod.splits)
    also have "\<dots> \<longleftrightarrow> buffer_content rrb = [] \<and> len = 0"
      using f(2) z room by (auto simp del: buffer_write_len.simps)
    finally show ?thesis using 1 Some h lc tot by (auto simp: ws_frame_total_def)
  next
    case 2
    then have "wsconn_frame fns (s, r, con) (int (length ?c)) = Some ((s, r, con), 0)"
      using wsconn_frame_head [OF assms(1,2) Some [unfolded h] lc, of fns s r] by (simp add: h)
    then show ?thesis using 2 Some h tot by auto
  next
    case 3
    then show ?thesis
    proof (cases "ws_frame_total h - 2 ^ 64 \<le> length ?c")
      case True
      then show ?thesis
        using wsconn_frame_wrapped [OF assms(1-3) Some assms(5) 3 True, of fns s r] 3 Some h tot lc by (auto simp: ws_frame_total_def)
    next
      case False
      have "ws_frame_total h mod 2 ^ 64 = ws_frame_total h - 2 ^ 64"
        using 3 len sh tot by (simp add: le_mod_geq)
      then have "wsconn_frame fns (s, r, con) (int (length ?c)) = Some ((s, r, con), 0)"
        using wsconn_frame_head [OF assms(1,2) Some [unfolded h] lc, of fns s r] False h by simp
      then show ?thesis using False 3 Some h tot lc by (auto simp: ws_frame_total_def)
    qed
  qed
qed


text \<open>Sending a message on an established connection appends its text frame to the write buffer
  and asks for write events when the frame fits, and is refused otherwise; the refused call has
  already put the first byte of the frame into the write buffer.\<close>

lemma wsconn_send_spec:
  assumes "ws_wbuf con = Some wb" "buffer_inv wb" "ws_status con = WS_ESTABLISHED" "length msg + 10 < 2 ^ 31"
  shows "\<exists>wb'. buffer_inv wb' \<and> b_size wb' = b_size wb
    \<and> (if int (length (ws_encode None msg)) \<le> buffer_write_len (Some wb)
       then buffer_content wb' = buffer_content wb @ ws_encode None msg
         \<and> wsconn_send ctl ok r (Some con) (Some msg) (int (length msg)) = do {
             (r', _) \<leftarrow> reactor_modify ctl ok r (Some (ws_handler con)) (EVENT_IN OR EVENT_OUT);
             Some (r', Some (con\<lparr>ws_wbuf := Some wb'\<rparr>), 0) }
       else buffer_content wb' = buffer_content wb @ take (nat (buffer_write_len (Some wb))) [0x81]
         \<and> wsconn_send ctl ok r (Some con) (Some msg) (int (length msg)) =
             Some (r, Some (con\<lparr>ws_wbuf := Some wb'\<rparr>), -1))"
  by (rule ws_send_exec [OF assms])

section \<open>Examples\<close>

definition ws_demo_buffer :: "u8 list \<Rightarrow> buffer_t" where
  "ws_demo_buffer bytes = \<lparr>b_mem = bytes @ replicate (64 - length bytes) 0, b_size = 64, b_read = 0,
     b_write = int (length bytes), b_drift = 32\<rparr>"

definition ws_demo :: "u8 list \<Rightarrow> wsconn_t" where
  \<comment> \<open>an established connection with pending input\<close>
  "ws_demo bytes = \<lparr>ws_addr = 1, ws_fd = 5, ws_flag_rbuf = True, ws_flag_rrbuf = True, ws_flag_wbuf = True,
     ws_rbuf = Some (ws_demo_buffer bytes), ws_rrbuf = Some (ws_demo_buffer []), ws_wbuf = Some (ws_demo_buffer []),
     ws_on_build = NULL, ws_build_arg = NULL, ws_on_read = 7, ws_read_arg = NULL, ws_on_close = NULL,
     ws_close_arg = NULL, ws_status = WS_ESTABLISHED\<rparr>"

definition ws_demo_funcs :: "(u8 list list, unit) ws_funcs" where
  \<comment> \<open>the callback keeps the messages and takes all of each\<close>
  "ws_demo_funcs = \<lparr>call_build = (\<lambda>f fd arg st. Some st),
     call_read = (\<lambda>f fd arg bytes (s, r, con). Some ((bytes # s, r, con), int (length bytes))),
     call_close = (\<lambda>f fd arg st. Some st)\<rparr>"

lemma ws_demo_buffer_ok:
  "length bytes \<le> 64 \<Longrightarrow> buffer_inv (ws_demo_buffer bytes) \<and> buffer_content (ws_demo_buffer bytes) = bytes"
  by (simp add: ws_demo_buffer_def buffer_inv_def buffer_content_def)

text \<open>A masked frame that declares 14 bytes less than the 64-bit range.\<close>

theorem wsconn_frame_crash_iff_witness:
  "wsconn_frame ws_demo_funcs ([], None, ws_demo ([0x81, 0xff] @ replicate 7 0xff @ [0xf2, 1, 2, 3, 4])) 14 = None"
proof -
  let ?c = "[0x81, 0xff] @ replicate 7 0xff @ [0xf2, 1, 2, 3, 4] :: u8 list"
  let ?n = "0xfffffffffffffff2 :: u64"
  have b: "buffer_inv (ws_demo_buffer ?c)" "buffer_content (ws_demo_buffer ?c) = ?c"
    "buffer_inv (ws_demo_buffer [])" "buffer_content (ws_demo_buffer []) = []"
    using ws_demo_buffer_ok [of ?c] ws_demo_buffer_ok [of "[]"] by simp_all
  have "ws_frame_head ?c = Some (True, ?n, 10)" by code_simp
  moreover have "unat ?n + 10 + 4 = 2 ^ 64" by simp
  ultimately have "\<exists>masked len sh. ws_frame_head ?c = Some (masked, len, sh)
      \<and> (masked \<and> unat len + sh + 4 \<in> {2 ^ 64 .. 2 ^ 64 + length ?c}
         \<or> len = 0 \<and> ws_frame_total (masked, len, sh) \<le> length ?c \<and> buffer_content (ws_demo_buffer []) = [])"
    by (intro exI [of _ True] exI [of _ ?n] exI [of _ "10 :: nat"]) simp
  moreover have "int (length ?c) = 14" by simp
  ultimately show ?thesis
    using wsconn_frame_crash_iff [of "ws_demo ?c" "ws_demo_buffer ?c" "ws_demo_buffer []" ws_demo_funcs "[]" None] b
    by (simp add: ws_demo_def ws_demo_funcs_def) (simp add: ws_demo_buffer_def)
qed


lemma wsconn_send_spec_witness:
  "\<exists>wb r. buffer_content wb = [0x81, 2, 72, 105]
     \<and> wsconn_send (\<lambda>op fd ev k. (k, 0)) True (Some (Epoll \<lparr>ep_fd = 3, ep_expired = None, ep_kernel = ()\<rparr>))
         (Some (ws_demo [])) (Some [72, 105]) 2 = Some (r, Some ((ws_demo [])\<lparr>ws_wbuf := Some wb\<rparr>), 0)"
proof -
  have b: "buffer_inv (ws_demo_buffer [])" "buffer_content (ws_demo_buffer []) = []"
    using ws_demo_buffer_ok [of "[]"] by simp_all
  have e: "ws_encode None [72, 105] = [0x81, 2, 72, 105]" by (simp add: ws_encode_def ws_head_def)
  have d: "ws_wbuf (ws_demo []) = Some (ws_demo_buffer [])" "ws_status (ws_demo []) = WS_ESTABLISHED" "ws_fd (ws_demo []) = 5"
    "buffer_write_len (Some (ws_demo_buffer [])) = 64"
    by (simp_all add: ws_demo_def ws_demo_buffer_def)
  show ?thesis
    using wsconn_send_spec [OF d(1) b(1) d(2), of "[72, 105]" "\<lambda>op fd ev k. (k, 0)" True
        "Some (Epoll \<lparr>ep_fd = 3, ep_expired = None, ep_kernel = ()\<rparr>)"] b e d
    by (auto simp: reactor_modify_def epoll_modify_def epoll_set_def ws_handler_def simp del: buffer_write_len.simps)
qed

end
