(* ===== verification/Util_Base64.thy ===== *)
theory Util_Base64
  imports Prelude
begin

text \<open>
  \<^verbatim>\<open>util/base64.c\<close>.  Strings are byte lists; what is written through the moving destination
  pointer is the output list, the terminating zero included.  The encoder stops at a zero
  byte.  The decoder looks padding zeros up with \<^verbatim>\<open>strchr\<close> in a table of 64 characters without a
  terminator; what it finds beyond the table is the parameter \<open>over\<close>.
\<close>

section \<open>Operations\<close>

definition base64_table :: "u8 list" where
  "base64_table = [
    65, 66, 67, 68, 69, 70, 71, 72, 73, 74, 75, 76, 77, 78, 79, 80, 81, 82, 83, 84, 85, 86, 87, 88, 89, 90,
    97, 98, 99, 100, 101, 102, 103, 104, 105, 106, 107, 108, 109, 110, 111, 112, 113, 114, 115, 116, 117, 118,
    119, 120, 121, 122, 48, 49, 50, 51, 52, 53, 54, 55, 56, 57, 43, 47]"

definition BASE64_ENCODE :: "u8 \<Rightarrow> u8 \<Rightarrow> u8 \<Rightarrow> u8 list" where
  "BASE64_ENCODE b0 b1 b2 =
     [drop_bit 2 (b0 AND 0xfc),
      push_bit 4 (b0 AND 0x03) OR drop_bit 4 (b1 AND 0xf0),
      push_bit 2 (b1 AND 0x0f) OR drop_bit 6 (b2 AND 0xc0),
      b2 AND 0x3f]"

fun table_chars :: "u8 list \<Rightarrow> u8 list option" where
  "table_chars [] = Some []"
| "table_chars (a # as) = do { c \<leftarrow> rd base64_table (unat a); cs \<leftarrow> table_chars as; Some (c # cs) }"

fun encode_loop :: "u8 list \<Rightarrow> nat \<Rightarrow> nat \<Rightarrow> u8 list \<Rightarrow> u8 list \<Rightarrow> (u8 list \<times> u8 list) option" where
  \<comment> \<open>\<open>b\<close>: the pending bytes \<open>b[0..i]\<close>\<close>
  "encode_loop src idx 0 b out = Some (b, out)"
| "encode_loop src idx (Suc sz) b out = do {
     c \<leftarrow> rd src idx;
     if c = 0 then Some (b, out)
     else if length b = 2 then do {
       cs \<leftarrow> table_chars (BASE64_ENCODE (b ! 0) (b ! 1) c);
       encode_loop src (idx + 1) sz [] (out @ cs) }
     else encode_loop src (idx + 1) sz (b @ [c]) out }"

definition encode_tail :: "u8 list \<Rightarrow> u8 list \<Rightarrow> u8 list option" where
  \<comment> \<open>what follows the loop, up to the terminator\<close>
  "encode_tail b out =
     (let i = length b in
      if i > 0 then do {
        let b = b @ replicate (3 - i) 0;
        cs \<leftarrow> table_chars (take (i + 1) (BASE64_ENCODE (b ! 0) (b ! 1) (b ! 2)));
        Some (out @ cs @ replicate (3 - i) 61) }
      else Some out)"

definition base64_encode :: "bool \<Rightarrow> u8 list option \<Rightarrow> nat \<Rightarrow> (u8 list \<times> int) option" where
  \<comment> \<open>\<open>dst\<close>: the destination is not \<open>NULL\<close>\<close>
  "base64_encode dst src sz =
     (case src of None \<Rightarrow> Some ([], -1)
      | Some src \<Rightarrow>
        if \<not> dst \<or> sz = 0 then Some ([], -1)
        else do {
          (b, out) \<leftarrow> encode_loop src 0 sz [] [];
          out \<leftarrow> encode_tail b out;
          Some (out @ [0], 0) })"

definition BASE64_C :: "u8 \<Rightarrow> bool" where
  "BASE64_C c \<longleftrightarrow> (65 \<le> c \<and> c \<le> 90 \<or> 97 \<le> c \<and> c \<le> 122 \<or> 48 \<le> c \<and> c \<le> 57) \<or> c = 43 \<or> c = 47"

definition table_pos :: "u8 \<Rightarrow> u8 \<Rightarrow> u8" where
  \<comment> \<open>\<open>strchr(_base64_table, c) - _base64_table\<close>\<close>
  "table_pos over c = (case find (\<lambda>j. base64_table ! j = c) [0..<64] of Some j \<Rightarrow> word_of_nat j | None \<Rightarrow> over)"

definition BASE64_DECODE :: "u8 \<Rightarrow> u8 \<Rightarrow> u8 \<Rightarrow> u8 \<Rightarrow> u8 list" where
  "BASE64_DECODE b0 b1 b2 b3 =
     [push_bit 2 b0 + drop_bit 4 (b1 AND 0x30),
      push_bit 4 (b1 AND 0x0f) + drop_bit 2 (b2 AND 0x3c),
      push_bit 6 (b2 AND 0x03) + b3]"

definition decode_group :: "u8 \<Rightarrow> u8 \<Rightarrow> u8 \<Rightarrow> u8 \<Rightarrow> u8 \<Rightarrow> u8 list" where
  "decode_group over b0 b1 b2 b3 =
     BASE64_DECODE (table_pos over b0) (table_pos over b1) (table_pos over b2) (table_pos over b3)"

fun decode_loop :: "u8 \<Rightarrow> u8 list \<Rightarrow> nat \<Rightarrow> nat \<Rightarrow> u8 list \<Rightarrow> u8 list \<Rightarrow> (u8 list option \<times> u8 list) option" where
  \<comment> \<open>a first component \<open>None\<close> is the early return\<close>
  "decode_loop over src idx 0 b out = Some (Some b, out)"
| "decode_loop over src idx (Suc sz) b out = do {
     c \<leftarrow> rd src idx;
     if c = 61 then Some (Some b, out)
     else if \<not> BASE64_C c then Some (None, out)
     else if length b = 3 then
       decode_loop over src (idx + 1) sz [] (out @ decode_group over (b ! 0) (b ! 1) (b ! 2) c)
     else decode_loop over src (idx + 1) sz (b @ [c]) out }"

definition decode_tail :: "u8 \<Rightarrow> u8 list \<Rightarrow> u8 list \<Rightarrow> u8 list" where
  "decode_tail over b out =
     (let i = length b in
      if i > 0 then
        (let b = b @ replicate (4 - i) 0 in
         out @ take (i - 1) (decode_group over (b ! 0) (b ! 1) (b ! 2) (b ! 3)))
      else out)"

definition base64_decode :: "u8 \<Rightarrow> bool \<Rightarrow> u8 list option \<Rightarrow> nat \<Rightarrow> (u8 list \<times> int) option" where
  "base64_decode over dst src sz =
     (case src of None \<Rightarrow> Some ([], -1)
      | Some src \<Rightarrow>
        if \<not> dst \<or> sz = 0 then Some ([], -1)
        else do {
          (b, out) \<leftarrow> decode_loop over src 0 sz [] [];
          Some (case b of None \<Rightarrow> (out, -1)
            | Some b \<Rightarrow> (decode_tail over b out @ [0], 0)) })"

section \<open>Groups\<close>

lemma table_lookup:
  assumes "a < 64"
  shows "\<exists>c. rd base64_table (unat a) = Some c \<and> table_pos over c = a \<and> BASE64_C c \<and> c \<noteq> 61 \<and> c \<noteq> 0"
proof -
  have "\<forall>n \<in> set [0..<64]. (let c = base64_table ! n in find (\<lambda>j. base64_table ! j = c) [0..<64] = Some n
      \<and> BASE64_C c \<and> c \<noteq> 61 \<and> c \<noteq> 0) \<and> n < length base64_table"
    by code_simp
  moreover have "unat a \<in> set [0..<64]" using assms by (simp add: word_less_nat_alt)
  ultimately have "find (\<lambda>j. base64_table ! j = base64_table ! unat a) [0..<64] = Some (unat a)"
    "BASE64_C (base64_table ! unat a)" "base64_table ! unat a \<noteq> 61" "base64_table ! unat a \<noteq> 0" "unat a < length base64_table"
    by (auto simp: Let_def)
  then show ?thesis by (intro exI [of _ "base64_table ! unat a"]) (simp add: table_pos_def)
qed

lemma masks: "(0xfc :: u8) = push_bit 2 (mask 6)" "(0x03 :: u8) = mask 2" "(0xf0 :: u8) = push_bit 4 (mask 4)"
  "(0x0f :: u8) = mask 4" "(0xc0 :: u8) = push_bit 6 (mask 2)" "(0x3f :: u8) = mask 6" "(0x30 :: u8) = push_bit 4 (mask 2)"
  "(0x3c :: u8) = push_bit 2 (mask 4)"
  by (simp_all add: mask_eq_exp_minus_1)

lemma sextets:
  "\<forall>a \<in> set (BASE64_ENCODE b0 b1 b2). a < 64"
proof -
  have lt: "w < 64" if "\<And>n. 6 \<le> n \<Longrightarrow> \<not> bit w n" for w :: u8
  proof -
    have "w = take_bit 6 w" by (rule bit_word_eqI) (use that in \<open>auto simp: bit_simps simp flip: not_le\<close>)
    then have "unat w = take_bit 6 (unat w)" by (simp only: unsigned_take_bit_eq [symmetric])
    also have "\<dots> < 64" using take_bit_nat_less_exp [of 6 "unat w"] by simp
    finally show ?thesis by (simp add: word_less_nat_alt)
  qed
  show ?thesis
    unfolding BASE64_ENCODE_def masks list.set ball_simps simp_thms
    by (intro conjI lt) (auto simp: bit_simps dest: bit_imp_le_length)
qed

lemma decode_encode:
  fixes b0 b1 b2 :: u8
  shows "push_bit 2 (drop_bit 2 (b0 AND 0xfc)) + drop_bit 4 ((push_bit 4 (b0 AND 0x03) OR drop_bit 4 (b1 AND 0xf0)) AND 0x30) = b0"
    and "push_bit 4 ((push_bit 4 (b0 AND 0x03) OR drop_bit 4 (b1 AND 0xf0)) AND 0x0f)
      + drop_bit 2 ((push_bit 2 (b1 AND 0x0f) OR drop_bit 6 (b2 AND 0xc0)) AND 0x3c) = b1"
    and "push_bit 6 ((push_bit 2 (b1 AND 0x0f) OR drop_bit 6 (b2 AND 0xc0)) AND 0x03) + (b2 AND 0x3f) = b2"
proof -
  have join: "x + y = z" if "\<And>n. n < 8 \<Longrightarrow> \<not> (bit x n \<and> bit y n) \<and> (bit x n \<or> bit y n \<longleftrightarrow> bit z n)" for x y z :: u8
  proof -
    have "x AND y = 0" by (rule bit_word_eqI) (use that in \<open>auto simp: bit_simps\<close>)
    then have "x + y = x OR y" by (rule disjunctive_add_eq_or)
    also have "\<dots> = z" by (rule bit_word_eqI) (use that in \<open>auto simp: bit_simps\<close>)
    finally show ?thesis .
  qed
  have c: "n = 0 \<or> n = 1 \<or> n = 2 \<or> n = 3 \<or> n = 4 \<or> n = 5 \<or> n = 6 \<or> n = 7" if "n < 8" for n :: nat
    using that by linarith
  show "push_bit 2 (drop_bit 2 (b0 AND 0xfc)) + drop_bit 4 ((push_bit 4 (b0 AND 0x03) OR drop_bit 4 (b1 AND 0xf0)) AND 0x30) = b0"
    unfolding masks by (rule join, drule c) (auto simp: bit_simps simp flip: numeral_2_eq_2)
  show "push_bit 4 ((push_bit 4 (b0 AND 0x03) OR drop_bit 4 (b1 AND 0xf0)) AND 0x0f)
      + drop_bit 2 ((push_bit 2 (b1 AND 0x0f) OR drop_bit 6 (b2 AND 0xc0)) AND 0x3c) = b1"
    unfolding masks by (rule join, drule c) (auto simp: bit_simps simp flip: numeral_2_eq_2)
  show "push_bit 6 ((push_bit 2 (b1 AND 0x0f) OR drop_bit 6 (b2 AND 0xc0)) AND 0x03) + (b2 AND 0x3f) = b2"
    unfolding masks by (rule join, drule c) (auto simp: bit_simps simp flip: numeral_2_eq_2)
qed

definition tchar :: "u8 \<Rightarrow> u8" where
  "tchar a = base64_table ! unat a"

lemma tchar:
  assumes "a < 64"
  shows "rd base64_table (unat a) = Some (tchar a)" "table_pos over (tchar a) = a" "BASE64_C (tchar a)" "tchar a \<noteq> 61"
  using table_lookup [OF assms, of over] by (auto simp: tchar_def rd_eq_Some)

lemma table_chars_map: "\<forall>a \<in> set as. a < 64 \<Longrightarrow> table_chars as = Some (map tchar as)"
  by (induction as) (auto simp: tchar)

fun enc_ref :: "u8 list \<Rightarrow> u8 list" where
  \<comment> \<open>the encoding, three bytes at a time\<close>
  "enc_ref [] = []"
| "enc_ref [a] = map tchar (take 2 (BASE64_ENCODE a 0 0)) @ [61, 61]"
| "enc_ref [a, b] = map tchar (take 3 (BASE64_ENCODE a b 0)) @ [61]"
| "enc_ref (a # b # c # r) = map tchar (BASE64_ENCODE a b c) @ enc_ref r"

lemma encode_chars:
  "table_chars (BASE64_ENCODE a b c) = Some (map tchar (BASE64_ENCODE a b c))"
  "table_chars (take n (BASE64_ENCODE a b c)) = Some (map tchar (take n (BASE64_ENCODE a b c)))"
  using sextets [of a b c] by (auto intro!: table_chars_map dest: in_set_takeD)

lemma encode_loop_ref:
  assumes "0 \<notin> set s"
  shows "\<exists>b o'. encode_loop (pre @ s @ post) (length pre) (length s) [] out = Some (b, o') \<and>
    encode_tail b o' = Some (out @ enc_ref s)"
  using assms
proof (induction s arbitrary: pre out rule: enc_ref.induct)
  case (4 a b c r)
  have "encode_loop (pre @ (a # b # c # r) @ post) (length pre) (length (a # b # c # r)) [] out
      = encode_loop ((pre @ [a, b, c]) @ r @ post) (length (pre @ [a, b, c])) (length r) [] (out @ map tchar (BASE64_ENCODE a b c))"
    using 4(2) by (simp add: nth_append encode_chars)
  then show ?case using 4(1) [of "pre @ [a, b, c]" "out @ map tchar (BASE64_ENCODE a b c)"] 4(2) by auto
qed (auto simp: nth_append encode_tail_def encode_chars numeral_2_eq_2 numeral_3_eq_3)

lemma enc_ref_nonzero: "0 \<notin> set (enc_ref s)"
proof -
  have "tchar a \<noteq> 0" if "a < 64" for a using tchar(3) [OF that] by (auto simp: BASE64_C_def)
  then have a: "0 \<notin> set (map tchar (BASE64_ENCODE a b c))" for a b c using sextets [of a b c] by auto
  then have t: "0 \<notin> set (map tchar (take n (BASE64_ENCODE a b c)))" for n a b c
    by (metis in_set_takeD take_map)
  from a t show ?thesis by (induction s rule: enc_ref.induct) simp_all
qed

lemma decode_group_ref:
  "decode_group over (tchar (BASE64_ENCODE a b c ! 0)) (tchar (BASE64_ENCODE a b c ! 1))
     (tchar (BASE64_ENCODE a b c ! 2)) (tchar (BASE64_ENCODE a b c ! 3)) = [a, b, c]"
proof -
  have l: "BASE64_ENCODE a b c ! i < 64" if "i < 4" for i
    using sextets [of a b c] that nth_mem [of i "BASE64_ENCODE a b c"] by (auto simp: BASE64_ENCODE_def)
  show ?thesis
    using l [of 0] l [of 1] l [of 2] l [of 3] decode_encode(1) [of a b] decode_encode(2) [of a b c] decode_encode(3) [of b c]
    by (simp add: decode_group_def tchar(2)) (simp add: BASE64_DECODE_def BASE64_ENCODE_def)
qed

lemma decode_group_ref2:
  "take 2 (decode_group over (tchar (BASE64_ENCODE a b 0 ! 0)) (tchar (BASE64_ENCODE a b 0 ! 1))
     (tchar (BASE64_ENCODE a b 0 ! 2)) x) = [a, b]"
proof -
  have "take 2 (decode_group over p q r x) = take 2 (decode_group over p q r y)" for p q r y
    by (simp add: decode_group_def BASE64_DECODE_def)
  then show ?thesis using decode_group_ref [of over a b 0] by (metis take0 take_Suc_Cons numeral_2_eq_2)
qed

lemma decode_group_ref1:
  "take 1 (decode_group over (tchar (BASE64_ENCODE a 0 0 ! 0)) (tchar (BASE64_ENCODE a 0 0 ! 1)) y x) = [a]"
proof -
  have "take 1 (decode_group over p q y x) = take 1 (decode_group over p q y' x')" for p q y' x'
    by (simp add: decode_group_def BASE64_DECODE_def)
  then show ?thesis using decode_group_ref [of over a 0 0] by (metis take0 take_Suc_Cons One_nat_def)
qed

lemma encode_nth: "\<exists>p q r t. BASE64_ENCODE a b c = [p, q, r, t] \<and> p < 64 \<and> q < 64 \<and> r < 64 \<and> t < 64"
  using sextets [of a b c] by (simp add: BASE64_ENCODE_def)

lemma decode_loop_ref:
  "\<exists>b o'. decode_loop over (pre @ enc_ref s @ post) (length pre) (length (enc_ref s)) [] out = Some (Some b, o') \<and>
    decode_tail over b o' = out @ s"
proof (induction s arbitrary: pre out rule: enc_ref.induct)
  case (2 a)
  obtain p q r t where e: "BASE64_ENCODE a 0 0 = [p, q, r, t]" "p < 64" "q < 64" using encode_nth [of a 0 0] by auto
  show ?case using decode_group_ref1 [of over a] e
    by (auto simp: nth_append tchar decode_tail_def)
next
  case (3 a b)
  obtain p q r t where e: "BASE64_ENCODE a b 0 = [p, q, r, t]" "p < 64" "q < 64" "r < 64" using encode_nth [of a b 0] by auto
  show ?case using decode_group_ref2 [of over a b] e
    by (auto simp: nth_append tchar decode_tail_def numeral_2_eq_2)
next
  case (4 a b c r)
  obtain p q u t where e: "BASE64_ENCODE a b c = [p, q, u, t]" "p < 64" "q < 64" "u < 64" "t < 64" using encode_nth [of a b c] by auto
  let ?g = "map tchar (BASE64_ENCODE a b c)"
  have "decode_loop over (pre @ enc_ref (a # b # c # r) @ post) (length pre) (length (enc_ref (a # b # c # r))) [] out
      = decode_loop over ((pre @ ?g) @ enc_ref r @ post) (length (pre @ ?g)) (length (enc_ref r)) [] (out @ [a, b, c])"
    using e decode_group_ref [of over a b c] by (simp add: nth_append tchar)
  then show ?case using 4 [of "pre @ ?g" "out @ [a, b, c]"] by auto
qed (simp add: decode_tail_def)

text \<open>C36: decoding what the encoder wrote gives back the bytes, for every text without zero bytes and
  whatever the decoder's lookup of its padding finds beyond the table.\<close>
theorem base64_roundtrip:
  assumes "0 \<notin> set s" "s \<noteq> []"
  shows "\<exists>e. base64_encode True (Some s) (length s) = Some (e @ [0], 0) \<and>
    base64_decode over True (Some (e @ [0])) (length e) = Some (s @ [0], 0)"
proof -
  obtain b o' where "encode_loop s 0 (length s) [] [] = Some (b, o')" "encode_tail b o' = Some (enc_ref s)"
    using encode_loop_ref [OF assms(1), of "[]" "[]" "[]"] by auto
  then have e: "base64_encode True (Some s) (length s) = Some (enc_ref s @ [0], 0)"
    using assms(2) by (simp add: base64_encode_def)
  have "enc_ref s \<noteq> []" using assms(2) by (cases s rule: enc_ref.cases) (auto simp: BASE64_ENCODE_def)
  moreover obtain b' o'' where "decode_loop over (enc_ref s @ [0]) 0 (length (enc_ref s)) [] [] = Some (Some b', o'')"
    "decode_tail over b' o'' = s"
    using decode_loop_ref [of over "[]" s "[0]" "[]"] by auto
  ultimately show ?thesis using e by (simp add: base64_decode_def)
qed

lemma base64_roundtrip_witness:
  "\<exists>e. base64_encode True (Some [104, 101, 108, 108, 111]) (length [104, 101, 108, 108, 111 :: u8]) = Some (e @ [0], 0) \<and>
    base64_decode 64 True (Some (e @ [0])) (length e) = Some ([104, 101, 108, 108, 111] @ [0], 0)"
  by (rule base64_roundtrip) auto

end
