(* ===== verification/Util_Str.thy ===== *)
theory Util_Str
  imports Prelude
begin

text \<open>
  \<^verbatim>\<open>util/util_str.c\<close>.  A string is the list of its bytes, what is written through a moving
  destination pointer is the output list.  \<^verbatim>\<open>char\<close> is signed, as on the platforms of the
  repository: a byte above 127 makes the index of a table lookup negative, an access outside it.
\<close>

section \<open>Numbers in keys\<close>

definition is_digit :: "u8 \<Rightarrow> bool" where
  "is_digit c \<longleftrightarrow> 48 \<le> c \<and> c \<le> 57"

partial_function (option) str2int_loop :: "u8 list \<Rightarrow> u8 \<Rightarrow> u8 list \<Rightarrow> u8 \<Rightarrow> (u8 list \<times> u8) option" where
  \<comment> \<open>\<open>key\<close>: the bytes with the terminator; the index is 8 bits wide and wraps; the digits go to an array
     of 15 with a terminator\<close>
  "str2int_loop key i res spaces = do {
     c \<leftarrow> rd key (unat i);
     res \<leftarrow> (if is_digit c then (if length res < 14 then Some (res @ [c]) else None) else Some res);
     let spaces = (if c = 32 then spaces + 1 else spaces);
     n \<leftarrow> rd key (unat (i + 1));
     if n \<noteq> 0 then str2int_loop key (i + 1) res spaces else Some (res, spaces) }"

declare str2int_loop.simps [code]

definition strtoul10 :: "u8 list \<Rightarrow> nat" where
  \<comment> \<open>\<^verbatim>\<open>strtoul\<close> on at most 14 digits, which fit\<close>
  "strtoul10 ds = foldl (\<lambda>n d. 10 * n + (unat d - 48)) 0 ds"

definition util_str2int :: "u8 list \<Rightarrow> u32 option" where
  "util_str2int key = do {
     (res, spaces) \<leftarrow> str2int_loop key 0 [] 0;
     c_assert (spaces \<noteq> 0);
     Some (word_of_nat (strtoul10 res) div ucast spaces) }"

section \<open>URI escapes\<close>

definition escape_uri :: "u32 list" where
  "escape_uri = [0xffffffff, 0x80000029, 0x00000000, 0x80000000, 0xffffffff, 0xffffffff, 0xffffffff, 0xffffffff]"
definition escape_args :: "u32 list" where
  "escape_args = [0xffffffff, 0x88000869, 0x00000000, 0x80000000, 0xffffffff, 0xffffffff, 0xffffffff, 0xffffffff]"
definition escape_component :: "u32 list" where
  "escape_component = [0xffffffff, 0xfc009fff, 0x78000001, 0xb8000001, 0xffffffff, 0xffffffff, 0xffffffff, 0xffffffff]"
definition escape_url :: "u32 list" where
  "escape_url = [0xffffffff, 0x000000ad, 0x00000000, 0x80000000, 0xffffffff, 0xffffffff, 0xffffffff, 0xffffffff]"
definition escape_mail :: "u32 list" where
  "escape_mail = [0xffffffff, 0x00000021, 0x00000000, 0x00000000, 0x00000000, 0x00000000, 0x00000000, 0x00000000]"

definition UTIL_ESCAPE_MAX :: int where "UTIL_ESCAPE_MAX = 5"

definition hex_lower :: "u8 list" where
  "hex_lower = [48, 49, 50, 51, 52, 53, 54, 55, 56, 57, 97, 98, 99, 100, 101, 102]"

definition escaped :: "u32 list \<Rightarrow> u8 \<Rightarrow> bool option" where
  \<comment> \<open>\<open>escape[*src >> 5] & (1 << (*src & 0x1f))\<close>\<close>
  "escaped tab c = do {
     w \<leftarrow> rdi tab (sint c div 32);
     Some (bit w (unat (c AND 0x1f))) }"

fun escape_count :: "u32 list \<Rightarrow> u8 list \<Rightarrow> nat \<Rightarrow> nat option" where
  "escape_count tab [] n = Some n"
| "escape_count tab (c # cs) n = do { e \<leftarrow> escaped tab c; escape_count tab cs (if e then n + 1 else n) }"

fun escape_loop :: "u32 list \<Rightarrow> u8 list \<Rightarrow> u8 list \<Rightarrow> nat \<Rightarrow> (u8 list \<times> nat) option" where
  "escape_loop tab [] dst n = Some (dst, n)"
| "escape_loop tab (c # cs) dst n = do {
     e \<leftarrow> escaped tab c;
     if e then do {
       h1 \<leftarrow> rdi hex_lower (sint c div 16);
       h2 \<leftarrow> rd hex_lower (unat (c AND 0xf));
       escape_loop tab cs (dst @ [37, h1, h2]) (n + 3) }
     else escape_loop tab cs (dst @ [c]) (n + 1) }"

definition util_uri_escape :: "bool \<Rightarrow> u8 list \<Rightarrow> int \<Rightarrow> (u8 list \<times> nat) option" where
  \<comment> \<open>\<open>dst\<close>: the destination is not \<open>NULL\<close>\<close>
  "util_uri_escape dst src type =
     (if type < 0 \<or> type \<ge> UTIL_ESCAPE_MAX then Some ([], 0)
      else do {
        tab \<leftarrow> rdi [escape_uri, escape_args, escape_component, escape_url, escape_mail] type;
        if \<not> dst then map_option (\<lambda>n. ([], n)) (escape_count tab src 0)
        else escape_loop tab src [] 0 })"

datatype sw_state = sw_usual | sw_quoted | sw_quoted_second

fun unescape_loop :: "u8 list \<Rightarrow> sw_state \<Rightarrow> u8 \<Rightarrow> u8 list \<Rightarrow> u8 list \<times> u8 list" where
  \<comment> \<open>the rest of the source and the output\<close>
  "unescape_loop [] st decoded d = ([], d)"
| "unescape_loop (ch # s) sw_usual decoded d =
     (if ch = 63 then (s, d @ [ch])
      else if ch = 37 then unescape_loop s sw_quoted decoded d
      else unescape_loop s sw_usual decoded (d @ [ch]))"
| "unescape_loop (ch # s) sw_quoted decoded d =
     (if 48 \<le> ch \<and> ch \<le> 57 then unescape_loop s sw_quoted_second (ch - 48) d
      else (let c = ch OR 0x20 in
        if 97 \<le> c \<and> c \<le> 102 then unescape_loop s sw_quoted_second (c - 97 + 10) d
        else unescape_loop s sw_usual decoded (d @ [ch])))"
| "unescape_loop (ch # s) sw_quoted_second decoded d =
     (if 48 \<le> ch \<and> ch \<le> 57 then unescape_loop s sw_usual decoded (d @ [push_bit 4 decoded + ch - 48])
      else (let c = ch OR 0x20 in
        if 97 \<le> c \<and> c \<le> 102 then
          (let ch = push_bit 4 decoded + c - 97 + 10 in
           if ch = 63 then (s, d @ [ch]) else unescape_loop s sw_usual decoded (d @ [ch]))
        else unescape_loop s sw_usual decoded d))"

definition util_uri_unescape :: "u8 list \<Rightarrow> u8 list \<times> u8 list" where
  "util_uri_unescape src = unescape_loop src sw_usual 0 []"

section \<open>HTML escapes and dumps\<close>

fun html_size :: "u8 list \<Rightarrow> nat \<Rightarrow> nat" where
  "html_size [] len = len"
| "html_size (c # cs) len = html_size cs
     (if c = 60 then len + 4 else if c = 62 then len + 4 else if c = 38 then len + 5
      else if c = 34 then len + 6 else len + 1)"

fun html_loop :: "u8 list \<Rightarrow> u8 list \<Rightarrow> nat \<Rightarrow> u8 list \<times> nat" where
  "html_loop [] dst len = (dst, len)"
| "html_loop (ch # cs) dst len =
     (if ch = 60 then html_loop cs (dst @ [38, 108, 116, 59]) (len + 4)
      else if ch = 62 then html_loop cs (dst @ [38, 103, 116, 59]) (len + 4)
      else if ch = 38 then html_loop cs (dst @ [38, 97, 109, 112, 59]) (len + 5)
      else if ch = 34 then html_loop cs (dst @ [38, 113, 117, 111, 116, 59]) (len + 6)
      else html_loop cs (dst @ [ch]) (len + 1))"

definition util_html_escape :: "bool \<Rightarrow> u8 list \<Rightarrow> u8 list \<times> nat" where
  "util_html_escape dst src = (if \<not> dst then ([], html_size src 0) else html_loop src [] 0)"

definition hex_upper :: "u8 list" where
  "hex_upper = [48, 49, 50, 51, 52, 53, 54, 55, 56, 57, 65, 66, 67, 68, 69, 70]"

fun util_hex_dump :: "u8 list \<Rightarrow> u8 list option" where
  "util_hex_dump [] = Some []"
| "util_hex_dump (c # cs) = do {
     h1 \<leftarrow> rdi hex_upper (sint c div 16);
     h2 \<leftarrow> rd hex_upper (unat (c AND 0xf));
     r \<leftarrow> util_hex_dump cs;
     Some (h1 # h2 # r) }"

section \<open>Escaping and back\<close>

definition escape_tab :: "int \<Rightarrow> u32 list" where
  "escape_tab type = [escape_uri, escape_args, escape_component, escape_url, escape_mail] ! nat type"

lemma all_ascii:
  assumes "\<forall>n \<in> set [0..<128]. P (word_of_nat n :: u8)" "c < 128"
  shows "P c"
proof -
  have "unat c \<in> set [0..<128]" using assms(2) by (simp add: word_less_nat_alt)
  with assms(1) have "P (word_of_nat (unat c))" by blast
  then show ?thesis by simp
qed

lemma escaped_ascii:
  assumes "c < 128" "0 \<le> type" "type < 5"
  obtains e where "escaped (escape_tab type) c = Some e" "c = 37 \<longrightarrow> e"
proof -
  have "\<forall>n \<in> set [0..<128]. \<forall>t \<in> set [escape_uri, escape_args, escape_component, escape_url, escape_mail].
      (case escaped t (word_of_nat n :: u8) of Some e \<Rightarrow> n = 37 \<longrightarrow> e | None \<Rightarrow> False)"
    by code_simp
  moreover have "unat c \<in> set [0..<128]" using assms(1) by (simp add: word_less_nat_alt)
  moreover have "escape_tab type \<in> set [escape_uri, escape_args, escape_component, escape_url, escape_mail]"
    unfolding escape_tab_def by (rule nth_mem) (use assms(2,3) in simp)
  ultimately have "case escaped (escape_tab type) (word_of_nat (unat c) :: u8) of Some e \<Rightarrow> unat c = 37 \<longrightarrow> e | None \<Rightarrow> False"
    by blast
  then show thesis using that by (auto split: option.splits)
qed

definition hexes :: "u8 \<Rightarrow> u8 \<times> u8" where
  "hexes c = (hex_lower ! nat (sint c div 16), hex_lower ! unat (c AND 0xf))"

definition hexes_ok :: "u8 \<Rightarrow> bool" where
  "hexes_ok c \<longleftrightarrow> (let (h1, h2) = hexes c; hi = h1 - 48 in
     rdi hex_lower (sint c div 16) = Some h1 \<and> rd hex_lower (unat (c AND 0xf)) = Some h2 \<and> 48 \<le> h1 \<and> h1 \<le> 57 \<and>
     (if 48 \<le> h2 \<and> h2 \<le> 57 then push_bit 4 hi + h2 - 48 = c \<and> c \<noteq> 63
      else 97 \<le> h2 OR 0x20 \<and> h2 OR 0x20 \<le> 102 \<and> push_bit 4 hi + (h2 OR 0x20) - 97 + 10 = c))"

lemma hexes_ascii:
  assumes "c < 128"
  shows "hexes_ok c"
proof -
  have "\<forall>n \<in> set [0..<128]. hexes_ok (word_of_nat n)" by code_simp
  then show ?thesis using all_ascii [of hexes_ok] assms by blast
qed

lemma unescape_decoded:
  "unescape_loop s sw_usual x d = unescape_loop s sw_usual y d \<and> unescape_loop s sw_quoted x d = unescape_loop s sw_quoted y d"
  by (induction s arbitrary: d) (simp_all add: Let_def)

lemma unescape_hex:
  assumes "c < 128" "hexes c = (h1, h2)"
  shows "unescape_loop (37 # h1 # h2 # s) sw_usual x d =
    (if c = 63 then (s, d @ [c]) else unescape_loop s sw_usual 0 (d @ [c]))"
  using hexes_ascii [OF assms(1)] unescape_decoded [of s "h1 - 48" "d @ [c]" 0] assms(2)
  by (auto simp: hexes_ok_def Let_def split: if_splits)

fun upto_question :: "u8 list \<Rightarrow> u8 list" where
  "upto_question [] = []"
| "upto_question (c # cs) = (if c = 63 then [c] else c # upto_question cs)"

lemma escape_loop_spec:
  assumes "\<forall>c \<in> set src. c < 128" "0 \<le> type" "type < 5"
  shows "\<exists>out k. escape_loop (escape_tab type) src dst n = Some (dst @ out, n + length out) \<and>
    escape_count (escape_tab type) src m = Some (m + k) \<and> length out = length src + 2 * k \<and>
    (\<forall>x d. snd (unescape_loop out sw_usual x d) = d @ upto_question src)"
  using assms(1)
proof (induction src arbitrary: dst n m)
  case (Cons c cs)
  have c: "c < 128" and cs: "\<forall>c \<in> set cs. c < 128" using Cons.prems by auto
  obtain e where e: "escaped (escape_tab type) c = Some e" "c = 37 \<longrightarrow> e" by (rule escaped_ascii [OF c assms(2,3)])
  obtain h1 h2 where h: "hexes c = (h1, h2)" by fastforce
  have hr: "rdi hex_lower (sint c div 16) = Some h1" "rd hex_lower (unat (c AND 0xf)) = Some h2"
    using hexes_ascii [OF c] h by (auto simp: hexes_ok_def Let_def)
  show ?case
  proof (cases e)
    case True
    from Cons.IH [OF cs, of "dst @ [37, h1, h2]" "n + 3" "m + 1"] obtain out k where
      o: "escape_loop (escape_tab type) cs (dst @ [37, h1, h2]) (n + 3) = Some ((dst @ [37, h1, h2]) @ out, n + 3 + length out)"
      "escape_count (escape_tab type) cs (m + 1) = Some (m + 1 + k)" "length out = length cs + 2 * k"
      "\<forall>x d. snd (unescape_loop out sw_usual x d) = d @ upto_question cs" by blast
    then show ?thesis using e(1) True hr unescape_hex [OF c h]
      by (intro exI [of _ "37 # h1 # h2 # out"] exI [of _ "k + 1"]) simp
  next
    case False
    from Cons.IH [OF cs, of "dst @ [c]" "n + 1" m] obtain out k where
      o: "escape_loop (escape_tab type) cs (dst @ [c]) (n + 1) = Some ((dst @ [c]) @ out, n + 1 + length out)"
      "escape_count (escape_tab type) cs m = Some (m + k)" "length out = length cs + 2 * k"
      "\<forall>x d. snd (unescape_loop out sw_usual x d) = d @ upto_question cs" by blast
    then show ?thesis using e False
      by (intro exI [of _ "c # out"] exI [of _ k]) auto
  qed
qed simp

text \<open>C38: for an ASCII text and each of the five escape sets, unescaping the escaped text gives the text
  back up to and including its first question mark, where the unescaper stops; the escaper
  returns the length of what it wrote, but its size query returns only the number of characters
  to escape, which is less by the length of the text and twice that number.\<close>
theorem uri_escape_roundtrip:
  assumes "\<forall>c \<in> set src. c < 128" "0 \<le> type" "type < UTIL_ESCAPE_MAX"
  shows "\<exists>out k. util_uri_escape True src type = Some (out, length out) \<and> util_uri_escape False src type = Some ([], k) \<and>
    length out = length src + 2 * k \<and> snd (util_uri_unescape out) = upto_question src"
proof -
  have t: "type < 5" using assms(3) by (simp add: UTIL_ESCAPE_MAX_def)
  then have "rdi [escape_uri, escape_args, escape_component, escape_url, escape_mail] type = Some (escape_tab type)"
    using assms(2) by (simp add: escape_tab_def del: nth.simps)
  then show ?thesis
    using escape_loop_spec [OF assms(1,2) t, of "[]" 0 0] assms(2,3) by (auto simp: util_uri_escape_def util_uri_unescape_def)
qed

lemma uri_escape_roundtrip_witness:
  "\<exists>out k. util_uri_escape True [97, 32, 37, 63, 98] 1 = Some (out, length out) \<and> util_uri_escape False [97, 32, 37, 63, 98] 1 = Some ([], k) \<and>
    length out = length [97, 32, 37, 63, 98 :: u8] + 2 * k \<and> snd (util_uri_unescape out) = upto_question [97, 32, 37, 63, 98]"
  by (rule uri_escape_roundtrip) (simp_all add: UTIL_ESCAPE_MAX_def)

definition html_char :: "u8 \<Rightarrow> u8 list" where
  "html_char ch = (if ch = 60 then [38, 108, 116, 59] else if ch = 62 then [38, 103, 116, 59]
     else if ch = 38 then [38, 97, 109, 112, 59] else if ch = 34 then [38, 113, 117, 111, 116, 59] else [ch])"

lemma html_loop_spec: "html_loop src dst len = (dst @ concat (map html_char src), len + length (concat (map html_char src)))"
  by (induction src arbitrary: dst len) (auto simp: html_char_def)

lemma html_size_spec: "html_size src len = len + length (concat (map html_char src))"
  by (induction src arbitrary: len) (auto simp: html_char_def)

lemma html_escape_spec:
  "util_html_escape True src = (concat (map html_char src), length (concat (map html_char src)))"
  "snd (util_html_escape False src) = length (concat (map html_char src))"
  "{60, 62, 34} \<inter> set (concat (map html_char src)) = {}"
  by (auto simp: util_html_escape_def html_loop_spec html_size_spec html_char_def split: if_splits)

lemma str2int_loop_spec:
  assumes "ks \<noteq> []" "0 \<notin> set ks" "length pre + length ks < 256" "length res + length (filter is_digit ks) \<le> 14"
  shows "str2int_loop (pre @ ks @ [0]) (word_of_nat (length pre)) res sp =
    Some (res @ filter is_digit ks, sp + word_of_nat (length (filter (\<lambda>c. c = 32) ks)))"
  using assms
proof (induction ks arbitrary: pre res sp)
  case (Cons c ks)
  have u: "unat (word_of_nat n :: u8) = n" if "n < 256" for n
    using that by (simp add: unsigned_of_nat take_bit_nat_eq_self)
  have c: "rd (pre @ (c # ks) @ [0]) (unat (word_of_nat (length pre) :: u8)) = Some c"
    using Cons.prems(3) by (simp add: u nth_append)
  have i1: "(word_of_nat (length pre) + 1 :: u8) = word_of_nat (length (pre @ [c]))" by simp
  have n: "rd (pre @ (c # ks) @ [0]) (unat (word_of_nat (length (pre @ [c])) :: u8)) = Some (hd (ks @ [0]))"
    using Cons.prems(3) by (subst u) (auto simp: nth_append rd_def hd_conv_nth)
  have room: "is_digit c \<Longrightarrow> length res < 14" using Cons.prems(4) by simp
  show ?case
  proof (cases ks)
    case Nil
    then have "filter is_digit ks = []" by simp
    with Nil room show ?thesis using c n
      by (subst str2int_loop.simps) (auto simp add: i1 Let_def simp del: length_append of_nat_add)
  next
    case (Cons k ks')
    then have "hd (ks @ [0]) \<noteq> 0" using Cons.prems(2) by auto
    then have "str2int_loop (pre @ (c # ks) @ [0]) (word_of_nat (length pre)) res sp =
        str2int_loop ((pre @ [c]) @ ks @ [0]) (word_of_nat (length (pre @ [c])))
          (if is_digit c then res @ [c] else res) (if c = 32 then sp + 1 else sp)"
      using c n room
      by (subst str2int_loop.simps) (auto simp add: i1 Let_def simp del: length_append of_nat_Suc of_nat_add)
    also have "\<dots> = Some ((if is_digit c then res @ [c] else res) @ filter is_digit ks,
        (if c = 32 then sp + 1 else sp) + word_of_nat (length (filter (\<lambda>c. c = 32) ks)))"
      by (rule Cons.IH) (use Cons Cons.prems in auto)
    finally show ?thesis by simp
  qed
qed simp

text \<open>a key of 1 to 255 characters with at most 14 digits and 1 to 255 spaces gives its digits, read
  as one decimal number and cut to 32 bits, divided by the number of spaces.\<close>
lemma str2int_spec:
  assumes "0 \<notin> set ks" "length ks < 256" "length (filter is_digit ks) \<le> 14" "32 \<in> set ks"
  shows "util_str2int (ks @ [0]) =
    Some (word_of_nat (strtoul10 (filter is_digit ks)) div word_of_nat (length (filter (\<lambda>c. c = 32) ks)))"
proof -
  let ?n = "length (filter (\<lambda>c. c = 32) ks)"
  have n: "0 < ?n" "?n < 256" using assms(2,4) by (auto simp: filter_empty_conv intro: le_less_trans [OF length_filter_le])
  then have "(word_of_nat ?n :: u8) \<noteq> 0" by (simp add: word_of_nat_eq_0_iff nat_dvd_not_less)
  moreover have "ucast (word_of_nat ?n :: u8) = (word_of_nat ?n :: u32)"
    using n by (simp add: unsigned_of_nat take_bit_nat_eq_self)
  ultimately show ?thesis
    using str2int_loop_spec [of ks "[]" "[]" 0] assms by (force simp: util_str2int_def)
qed

lemma str2int_spec_witness:
  "util_str2int ([49, 32, 50, 97] @ [0]) =
    Some (word_of_nat (strtoul10 (filter is_digit [49, 32, 50, 97])) div word_of_nat (length (filter (\<lambda>c. c = 32) [49, 32, 50, 97 :: u8])))"
  by (rule str2int_spec) (simp_all add: is_digit_def)

end
