(* ===== verification/Net_Wshake.thy ===== *)
theory Net_Wshake
  imports Net_Wsconn Util_Base64 Util_Str
begin

text \<open>
  \<^verbatim>\<open>net/wsconn.c\<close>, the handshake and the read handler.  The request is parsed in an array of 1024
  bytes on the stack, whose previous contents are the argument \<open>stack\<close>; the C string functions
  work on positions of that array and \<open>None\<close> is an access outside of it.  The digests \<^verbatim>\<open>sha1\<close> and
  \<^verbatim>\<open>md5\<close> (vendored code) are arguments, as is the result of \<^verbatim>\<open>read\<close>; what is printed is left out.
\<close>

section \<open>C strings\<close>

definition ascii :: "string \<Rightarrow> u8 list" where
  "ascii s = map of_char s"

definition seek :: "(u8 \<Rightarrow> bool) \<Rightarrow> u8 list \<Rightarrow> nat \<Rightarrow> nat option" where
  \<comment> \<open>the first position from \<open>p\<close> on whose byte satisfies \<open>P\<close>\<close>
  "seek P m p = (if list_ex P (drop p m) then Some (p + length (takeWhile (\<lambda>c. \<not> P c) (drop p m))) else None)"

definition cstr :: "u8 list \<Rightarrow> nat \<Rightarrow> u8 list option" where
  "cstr m p = do { e \<leftarrow> seek (\<lambda>c. c = 0) m p; rd_n m p (e - p) }"

definition strchr1 :: "u8 \<Rightarrow> u8 list \<Rightarrow> nat \<Rightarrow> nat option option" where
  \<comment> \<open>\<^verbatim>\<open>strstr\<close> for a string of one character\<close>
  "strchr1 x m p = do {
     e \<leftarrow> seek (\<lambda>c. c = 0 \<or> c = x) m p;
     c \<leftarrow> rd m e;
     Some (if c = x then Some e else None) }"

definition is_delim :: "u8 \<Rightarrow> bool" where
  "is_delim c \<longleftrightarrow> c = 13 \<or> c = 10"

definition strtok :: "u8 list \<Rightarrow> nat \<Rightarrow> (u8 list \<times> nat \<times> nat option) option" where
  \<comment> \<open>with the delimiters CR and LF: the array, where to go on, the token\<close>
  "strtok m pos = do {
     p \<leftarrow> seek (\<lambda>c. \<not> is_delim c) m pos;
     c \<leftarrow> rd m p;
     if c = 0 then Some (m, p, None)
     else do {
       e \<leftarrow> seek (\<lambda>c. c = 0 \<or> is_delim c) m p;
       c \<leftarrow> rd m e;
       if c = 0 then Some (m, e, Some p)
       else do { m \<leftarrow> wr m e 0; Some (m, e + 1, Some p) } } }"

definition strcaseeq :: "u8 list \<Rightarrow> u8 list \<Rightarrow> bool" where
  \<comment> \<open>\<^verbatim>\<open>strcasecmp\<close> gives 0\<close>
  "strcaseeq s t \<longleftrightarrow> map tolower s = map tolower t"

definition snprintf :: "u8 list \<Rightarrow> u8 list \<Rightarrow> u8 list" where
  \<comment> \<open>\<^verbatim>\<open>snprintf(arr, sizeof(arr), ...)\<close> of the text \<open>s\<close>\<close>
  "snprintf arr s = (let t = take (length arr - 1) s in t @ 0 # drop (length t + 1) arr)"

definition str_of :: "u8 list \<Rightarrow> u8 list" where
  \<comment> \<open>the string in an array that holds a terminator\<close>
  "str_of arr = takeWhile (\<lambda>c. c \<noteq> 0) arr"

definition atoi :: "u8 list \<Rightarrow> int option" where
  \<comment> \<open>undefined when the value is not an \<^verbatim>\<open>int\<close>\<close>
  "atoi s = (let t = dropWhile (\<lambda>c. c = 32 \<or> 9 \<le> c \<and> c \<le> 13) s;
       neg = (t \<noteq> [] \<and> hd t = 45);
       u = (if t \<noteq> [] \<and> (hd t = 45 \<or> hd t = 43) then tl t else t);
       v = foldl (\<lambda>n d. 10 * n + (uint d - 48)) 0 (takeWhile is_digit u);
       w = (if neg then - v else v)
     in if - (2 ^ 31) \<le> w \<and> w < 2 ^ 31 then Some w else None)"

section \<open>The request\<close>

definition WS_HANDSHAKE_MAX_SIZE :: nat where "WS_HANDSHAKE_MAX_SIZE = 1024"

definition WS_FLAG_UPGRAGE :: int where "WS_FLAG_UPGRAGE = 0x0001"
definition WS_FLAG_CONNECTION :: int where "WS_FLAG_CONNECTION = 0x0002"
definition WS_FLAG_HOST :: int where "WS_FLAG_HOST = 0x0004"
definition WS_FLAG_ORIGIN :: int where "WS_FLAG_ORIGIN = 0x0008"
definition WS_FLAG_SEC_ORIGIN :: int where "WS_FLAG_SEC_ORIGIN = 0x0010"
definition WS_FLAG_SEC_KEY :: int where "WS_FLAG_SEC_KEY = 0x0020"
definition WS_FLAG_SEC_VERSION :: int where "WS_FLAG_SEC_VERSION = 0x0040"
definition WS_FLAG_SEC_KEY1 :: int where "WS_FLAG_SEC_KEY1 = 0x0080"
definition WS_FLAG_SEC_KEY2 :: int where "WS_FLAG_SEC_KEY2 = 0x0100"
definition WS_FLAG_SEC_PROTOCOL :: int where "WS_FLAG_SEC_PROTOCOL = 0x0200"

lemmas ws_flags = WS_FLAG_UPGRAGE_def WS_FLAG_CONNECTION_def WS_FLAG_HOST_def WS_FLAG_ORIGIN_def
  WS_FLAG_SEC_ORIGIN_def WS_FLAG_SEC_KEY_def WS_FLAG_SEC_VERSION_def WS_FLAG_SEC_KEY1_def
  WS_FLAG_SEC_KEY2_def WS_FLAG_SEC_PROTOCOL_def

definition WS_FLASH :: int where
  "WS_FLASH = (WS_FLAG_UPGRAGE OR WS_FLAG_CONNECTION OR WS_FLAG_HOST OR WS_FLAG_ORIGIN)"

definition WS_SHA1 :: int where
  "WS_SHA1 = (WS_FLAG_UPGRAGE OR WS_FLAG_CONNECTION OR WS_FLAG_HOST OR WS_FLAG_SEC_ORIGIN OR WS_FLAG_SEC_KEY
     OR WS_FLAG_SEC_VERSION)"

definition WS_SHA1_EX :: int where
  "WS_SHA1_EX = (WS_FLAG_UPGRAGE OR WS_FLAG_CONNECTION OR WS_FLAG_HOST OR WS_FLAG_ORIGIN OR WS_FLAG_SEC_KEY
     OR WS_FLAG_SEC_VERSION)"

definition WS_MD5 :: int where
  "WS_MD5 = (WS_FLAG_HOST OR WS_FLAG_CONNECTION OR WS_FLAG_SEC_KEY1 OR WS_FLAG_SEC_KEY2 OR WS_FLAG_UPGRAGE
     OR WS_FLAG_ORIGIN OR WS_FLAG_SEC_PROTOCOL)"

record request_t =
  rq_flag :: int
  rq_version :: int
  rq_key :: "u8 list"
  rq_key1 :: "u8 list"
  rq_key2 :: "u8 list"
  rq_origin :: "u8 list"
  rq_protocol :: "u8 list"
  rq_host :: "u8 list"
  rq_location :: "u8 list"

definition request_zero :: request_t where
  \<comment> \<open>after the \<^verbatim>\<open>memset\<close>\<close>
  "request_zero = \<lparr>rq_flag = 0, rq_version = 0, rq_key = replicate 32 0, rq_key1 = replicate 32 0,
     rq_key2 = replicate 32 0, rq_origin = replicate 64 0, rq_protocol = replicate 64 0,
     rq_host = replicate 64 0, rq_location = replicate 64 0\<rparr>"

function copy_location :: "u8 list \<Rightarrow> nat \<Rightarrow> u8 list \<Rightarrow> nat \<Rightarrow> u8 list option" where
  \<comment> \<open>up to the next blank or the end of \<open>loc\<close>; the last byte copied becomes the terminator\<close>
  "copy_location m q loc i = do {
     c \<leftarrow> rd m q;
     loc \<leftarrow> wr loc i c;
     if c \<noteq> 32 \<and> i + 1 < length loc then copy_location m (q + 1) loc (i + 1) else wr loc i 0 }"
  by pat_completeness auto
termination
  by (relation "measure (\<lambda>(m, q, loc, i). length loc - i)") (auto simp: wr_def split: if_splits)

declare copy_location.simps [simp del]

definition ws_value :: "u8 list \<Rightarrow> nat \<Rightarrow> u8 list option" where
  \<comment> \<open>the value of a field whose colon is at \<open>q\<close>, without leading blanks\<close>
  "ws_value m q = do { q \<leftarrow> seek (\<lambda>c. c \<noteq> 32) m (q + 1); cstr m q }"

definition ws_field :: "u8 list \<Rightarrow> u8 list \<Rightarrow> nat \<Rightarrow> request_t \<Rightarrow> (request_t \<times> bool) option" where
  \<comment> \<open>one header field of the given name; \<open>False\<close>: the request is rejected\<close>
  "ws_field m name q rq =
     (if strcaseeq name (ascii ''connection'') then do {
        v \<leftarrow> ws_value m q;
        Some (rq\<lparr>rq_flag := rq_flag rq OR WS_FLAG_CONNECTION\<rparr>, strcaseeq v (ascii ''upgrade'')) }
      else if strcaseeq name (ascii ''upgrade'') then do {
        v \<leftarrow> ws_value m q;
        Some (rq\<lparr>rq_flag := rq_flag rq OR WS_FLAG_UPGRAGE\<rparr>, strcaseeq v (ascii ''websocket'')) }
      else if strcaseeq name (ascii ''host'') then do {
        v \<leftarrow> ws_value m q;
        Some (rq\<lparr>rq_flag := rq_flag rq OR WS_FLAG_HOST, rq_host := snprintf (rq_host rq) v\<rparr>, True) }
      else if strcaseeq name (ascii ''origin'') then do {
        v \<leftarrow> ws_value m q;
        Some (rq\<lparr>rq_flag := rq_flag rq OR WS_FLAG_ORIGIN, rq_origin := snprintf (rq_origin rq) v\<rparr>, True) }
      else if strcaseeq name (ascii ''sec-websocket-origin'') then do {
        v \<leftarrow> ws_value m q;
        Some (rq\<lparr>rq_flag := rq_flag rq OR WS_FLAG_SEC_ORIGIN, rq_origin := snprintf (rq_origin rq) v\<rparr>, True) }
      else if strcaseeq name (ascii ''sec-websocket-key'') then do {
        v \<leftarrow> ws_value m q;
        Some (rq\<lparr>rq_flag := rq_flag rq OR WS_FLAG_SEC_KEY, rq_key := snprintf (rq_key rq) v\<rparr>, True) }
      else if strcaseeq name (ascii ''sec-websocket-version'') then do {
        q \<leftarrow> seek (\<lambda>c. c \<noteq> 32) m q;
        v \<leftarrow> cstr m (q + 1);
        n \<leftarrow> atoi v;
        Some (rq\<lparr>rq_flag := rq_flag rq OR WS_FLAG_SEC_VERSION, rq_version := n\<rparr>, True) }
      else if strcaseeq name (ascii ''sec-websocket-key1'') then do {
        v \<leftarrow> ws_value m q;
        Some (rq\<lparr>rq_flag := rq_flag rq OR WS_FLAG_SEC_KEY1, rq_key1 := snprintf (rq_key1 rq) v\<rparr>, True) }
      else if strcaseeq name (ascii ''sec-websocket-key2'') then do {
        v \<leftarrow> ws_value m q;
        Some (rq\<lparr>rq_flag := rq_flag rq OR WS_FLAG_SEC_KEY1, rq_key2 := snprintf (rq_key2 rq) v\<rparr>, True) }
      else if strcaseeq name (ascii ''sec-websocket-protocol'') then do {
        v \<leftarrow> ws_value m q;
        Some (rq\<lparr>rq_flag := rq_flag rq OR WS_FLAG_SEC_PROTOCOL, rq_protocol := snprintf (rq_protocol rq) v\<rparr>, True) }
      else Some (rq, True))"

partial_function (option) ws_fields :: "u8 list \<Rightarrow> nat \<Rightarrow> request_t \<Rightarrow> request_t option option" where
  \<comment> \<open>the lines after the first; the inner \<open>None\<close>: the request is rejected\<close>
  "ws_fields m pos rq = do {
     (m, pos, p) \<leftarrow> strtok m pos;
     (case p of
        None \<Rightarrow> Some (Some rq)
      | Some p \<Rightarrow> do {
          colon \<leftarrow> strchr1 58 m p;
          (case colon of
             Some q \<Rightarrow> do {
               m \<leftarrow> wr m q 0;
               name \<leftarrow> cstr m p;
               (rq, good) \<leftarrow> ws_field m name q rq;
               if good then ws_fields m pos rq else Some None }
           | None \<Rightarrow>
               if hd (rq_key rq) = 0 then None \<comment> \<open>\<^verbatim>\<open>q\<close> is \<open>NULL\<close> in the \<^verbatim>\<open>snprintf\<close>\<close>
               else ws_fields m pos rq) }) }"

declare ws_fields.simps [code]

definition wsconn_parse_request :: "u8 list \<Rightarrow> u8 list \<Rightarrow> request_t option option" where
  \<comment> \<open>the first copy into the array comes before the test of the length\<close>
  "wsconn_parse_request stack data = do {
     m \<leftarrow> blit stack 0 data;
     if length data \<ge> WS_HANDSHAKE_MAX_SIZE then Some None
     else do {
       (m, pos, p) \<leftarrow> strtok m 0;
       (case p of
          None \<Rightarrow> Some None
        | Some p \<Rightarrow> do {
            blank \<leftarrow> strchr1 32 m p;
            (case blank of
               None \<Rightarrow> Some None
             | Some q \<Rightarrow> do {
                 loc \<leftarrow> copy_location m (q + 1) (rq_location request_zero) 0;
                 ws_fields m pos (request_zero\<lparr>rq_location := loc\<rparr>) }) }) } }"

section \<open>The replies\<close>

abbreviation CRLF :: "u8 list" where "CRLF \<equiv> [13, 10]"

definition ws_reply ::
  "'k ctl \<Rightarrow> bool \<Rightarrow> ('s, 'k) ws_state \<Rightarrow> u8 list \<Rightarrow> (('s, 'k) ws_state \<times> int) option" where
  \<comment> \<open>the end of each of the three: the text is in an array of 1024 bytes\<close>
  "ws_reply ctl ok st text = (case st of (s, r, con) \<Rightarrow>
     let res = take (WS_HANDSHAKE_MAX_SIZE - 1) text in
     if buffer_write_len (ws_wbuf con) < int (length res) then Some (st, -1)
     else do {
       (wb, _) \<leftarrow> buffer_write (ws_wbuf con) (Some res) (int (length res));
       let con = con\<lparr>ws_wbuf := wb\<rparr>;
       (r, _) \<leftarrow> reactor_modify ctl ok r (Some (ws_handler con)) (EVENT_IN OR EVENT_OUT);
       Some ((s, r, con), 0) })"

definition wsconn_proc_flash_req ::
  "'k ctl \<Rightarrow> bool \<Rightarrow> ('s, 'k) ws_state \<Rightarrow> request_t \<Rightarrow> (('s, 'k) ws_state \<times> int) option" where
  "wsconn_proc_flash_req ctl ok st rq = ws_reply ctl ok st
     (ascii ''HTTP/1.1 101 Web Socket Protocol Handshake'' @ CRLF @ ascii ''Upgrade: WebSocket'' @ CRLF
      @ ascii ''Connection: Upgrade'' @ CRLF @ ascii ''WebSocket-Origin: '' @ str_of (rq_origin rq) @ CRLF
      @ ascii ''WebSocket-Location: ws://'' @ str_of (rq_host rq) @ str_of (rq_location rq) @ CRLF @ CRLF)"

definition ws_guid :: "u8 list" where
  "ws_guid = ascii ''258EAFA5-E914-47DA-95CA-C5AB0DC85B11''"

definition wsconn_proc_sha1_req ::
  "(u8 list \<Rightarrow> u8 list) \<Rightarrow> 'k ctl \<Rightarrow> bool \<Rightarrow> ('s, 'k) ws_state \<Rightarrow> request_t \<Rightarrow> (('s, 'k) ws_state \<times> int) option" where
  \<comment> \<open>\<^verbatim>\<open>sha\<close> is zeroed before the digest is put into it; \<^verbatim>\<open>base64_code\<close> is not initialised\<close>
  "wsconn_proc_sha1_req sha1 ctl ok st rq = do {
     let key = take 63 (str_of (rq_key rq) @ ws_guid);
     sha \<leftarrow> blit (replicate 128 0) 0 (sha1 key);
     n \<leftarrow> cstr sha 0;
     (code, ret) \<leftarrow> base64_encode True (Some sha) (length n);
     code \<leftarrow> cstr code 0;
     ws_reply ctl ok st
       (ascii ''HTTP/1.1 101 Switching Protocols'' @ CRLF @ ascii ''Upgrade: websocket'' @ CRLF
        @ ascii ''Connection: Upgrade'' @ CRLF @ ascii ''Sec-WebSocket-Accept: '' @ code @ CRLF @ CRLF) }"

definition wsconn_proc_md5_req ::
  "(u8 list \<Rightarrow> u8 list) \<Rightarrow> 'k ctl \<Rightarrow> bool \<Rightarrow> ('s, 'k) ws_state \<Rightarrow> request_t \<Rightarrow> (('s, 'k) ws_state \<times> int) option" where
  "wsconn_proc_md5_req md5 ctl ok st rq = do {
     k1 \<leftarrow> util_str2int (rq_key1 rq);
     k2 \<leftarrow> util_str2int (rq_key2 rq);
     let keys = be32 k1 @ be32 k2 @ take 8 (rq_key rq);
     encrypt \<leftarrow> blit (replicate 17 0) 0 (md5 keys);
     encrypt \<leftarrow> wr encrypt 16 0;
     ws_reply ctl ok st
       (ascii ''HTTP/1.1 101 WebSocket Protocol Handshake'' @ ascii ''Upgrade: WebSocket'' @ CRLF
        @ ascii ''Connection: Upgrade'' @ CRLF @ ascii ''Sec-WebSocket-Origin: '' @ str_of (rq_origin rq) @ CRLF
        @ ascii ''Sec-WebSocket-Location: ws://'' @ str_of (rq_host rq) @ str_of (rq_location rq) @ CRLF
        @ ascii ''Sec-WebSocket-Protocol: '' @ str_of (rq_protocol rq) @ CRLF
        @ str_of encrypt @ CRLF @ CRLF) }"

section \<open>The handshake and the read handler\<close>

definition ws_has :: "request_t \<Rightarrow> int \<Rightarrow> bool" where
  "ws_has rq flags \<longleftrightarrow> rq_flag rq AND flags = flags"

definition wsconn_handshake ::
  "(u8 list \<Rightarrow> u8 list) \<Rightarrow> (u8 list \<Rightarrow> u8 list) \<Rightarrow> 'k ctl \<Rightarrow> bool \<Rightarrow> ('s, 'k) ws_funcs \<Rightarrow> u8 list \<Rightarrow>
   ('s, 'k) ws_state \<Rightarrow> u8 list \<Rightarrow> (('s, 'k) ws_state \<times> int) option" where
  \<comment> \<open>\<open>data\<close>: the request, up to and with the empty line\<close>
  "wsconn_handshake md5 sha1 ctl ok fns stack st data = do {
     rq \<leftarrow> wsconn_parse_request stack data;
     (case rq of
        None \<Rightarrow> Some (st, -1)
      | Some rq \<Rightarrow> do {
          (st, ret) \<leftarrow>
            (if ws_has rq WS_MD5 then wsconn_proc_md5_req md5 ctl ok st rq
             else if ws_has rq WS_SHA1 \<or> ws_has rq WS_SHA1_EX then wsconn_proc_sha1_req sha1 ctl ok st rq
             else if ws_has rq WS_FLASH then wsconn_proc_flash_req ctl ok st rq
             else Some (st, -1));
          if ret = 0 then (case st of (s, r, con) \<Rightarrow> do {
            let con = con\<lparr>ws_status := WS_ESTABLISHED\<rparr>;
            st \<leftarrow> (if ws_on_build con \<noteq> NULL
                   then call_build fns (ws_on_build con) (wsconn_fd (Some con)) (ws_build_arg con) (s, r, con)
                   else Some (s, r, con));
            Some (st, int (length data)) })
          else Some (st, -1) }) }"

function find_request :: "u8 list \<Rightarrow> nat \<Rightarrow> nat option" where
  \<comment> \<open>the end of the first empty line from \<open>i\<close> on\<close>
  "find_request data i =
     (if i + 4 \<le> length data then
        if take 4 (drop i data) = [13, 10, 13, 10] then Some (i + 4) else find_request data (i + 1)
      else None)"
  by pat_completeness auto
termination
  by (relation "measure (\<lambda>(data, i). length data - i)") auto

declare find_request.simps [simp del]

definition wsconn_read ::
  "(u8 list \<Rightarrow> u8 list) \<Rightarrow> (u8 list \<Rightarrow> u8 list) \<Rightarrow> 'k ctl \<Rightarrow> bool \<Rightarrow> ('s, 'k) ws_funcs \<Rightarrow> u8 list \<Rightarrow>
   (int \<Rightarrow> u8 list option) \<Rightarrow> int \<Rightarrow> ('s, 'k) ws_state \<Rightarrow> (('s, 'k) ws_state \<times> int) option" where
  \<comment> \<open>\<open>sys\<close>: \<^verbatim>\<open>read\<close> on the descriptor for at most so many bytes; \<open>None\<close>: it fails with \<open>errno\<close>\<close>
  "wsconn_read md5 sha1 ctl ok fns stack sys errno st = (case st of (s, r, con) \<Rightarrow>
     let nwrite = buffer_write_len (ws_rbuf con) in do {
       c_assert (nwrite \<ge> 0);
       if nwrite = 0 then Some (st, -1)
       else do {
         rb \<leftarrow> ws_rbuf con;
         (case sys nwrite of
            None \<Rightarrow> Some (st, if EAGAIN = errno \<or> EINTR = errno then 0 else - errno)
          | Some [] \<Rightarrow> Some (st, -1)
          | Some bytes \<Rightarrow> do {
              m \<leftarrow> blit (b_mem rb) (nat (b_write rb)) bytes;
              (rbuf, _) \<leftarrow> buffer_write_nocopy (Some (rb\<lparr>b_mem := m\<rparr>)) (int (length bytes));
              rb \<leftarrow> rbuf;
              let con = con\<lparr>ws_rbuf := rbuf\<rparr>;
              let nread = buffer_read_len rbuf;
              c_assert (nread \<noteq> 0);
              ((s, r, con), res) \<leftarrow>
                (if wsconn_established (Some con) \<noteq> 0 then do {
                   data \<leftarrow> rd_n (b_mem rb) (nat (b_read rb)) (nat nread);
                   (case find_request data 0 of
                      None \<Rightarrow> Some ((s, r, con), int (length bytes))
                    | Some n \<Rightarrow> wsconn_handshake md5 sha1 ctl ok fns stack (s, r, con) (take n data)) }
                 else wsconn_frame fns (s, r, con) nread);
              if res < 0 then Some ((s, r, con), res)
              else do {
                (rbuf, _) \<leftarrow> buffer_read_nocopy (ws_rbuf con) res;
                Some ((s, r, con\<lparr>ws_rbuf := rbuf\<rparr>), 0) } }) } })"

section \<open>The string functions on known text\<close>

lemma seek_at:
  "\<forall>x \<in> set xs. \<not> P x \<Longrightarrow> P c \<Longrightarrow> seek P (pre @ xs @ c # rest) (length pre) = Some (length pre + length xs)"
  by (simp add: seek_def takeWhile_append2 [where xs = xs])

lemma seek_at':
  "\<forall>x \<in> set xs. \<not> P x \<Longrightarrow> P c \<Longrightarrow> p = length pre \<Longrightarrow> m = pre @ xs @ c # rest \<Longrightarrow> seek P m p = Some (length pre + length xs)"
  by (simp add: seek_at)

lemma rd_at: "p = length pre \<Longrightarrow> m = pre @ c # rest \<Longrightarrow> rd m p = Some c"
  by simp

lemma wr_at: "p = length pre \<Longrightarrow> m = pre @ c # rest \<Longrightarrow> wr m p x = Some (pre @ x # rest)"
  by simp

definition plain :: "u8 list \<Rightarrow> bool" where
  \<comment> \<open>text inside a line\<close>
  "plain s \<longleftrightarrow> (\<forall>c \<in> set s. c \<noteq> 0 \<and> \<not> is_delim c)"

lemma cstr_at: "plain s \<Longrightarrow> p = length pre \<Longrightarrow> m = pre @ s @ 0 # rest \<Longrightarrow> cstr m p = Some s"
proof -
  assume a: "plain s" "p = length pre" "m = pre @ s @ 0 # rest"
  then have "seek (\<lambda>c. c = 0) m p = Some (length pre + length s)"
    by (intro seek_at' [where c = 0 and rest = rest]) (auto simp: plain_def)
  then show ?thesis using a by (simp add: cstr_def rd_n_def)
qed

lemma strtok_at:
  assumes "\<forall>c \<in> set ds. is_delim c" "plain t" "t \<noteq> []" "is_delim c"
    and "p = length pre" "m = pre @ ds @ t @ c # rest"
  shows "strtok m p = Some (pre @ ds @ t @ 0 # rest, length pre + length ds + length t + 1, Some (length pre + length ds))"
proof -
  obtain x t' where t: "t = x # t'" using assms(3) by (cases t) auto
  have x: "x \<noteq> 0" "\<not> is_delim x" using assms(2) t by (auto simp: plain_def)
  have 1: "seek (\<lambda>c. \<not> is_delim c) m p = Some (length pre + length ds)"
    using assms(1,5,6) x(2) t by (intro seek_at' [where c = x and rest = "t' @ c # rest"]) auto
  have 2: "seek (\<lambda>c. c = 0 \<or> is_delim c) m (length pre + length ds) = Some (length (pre @ ds) + length t)"
    using assms(2,4,6) by (intro seek_at' [where c = c and rest = rest]) (auto simp: plain_def)
  have 3: "rd m (length pre + length ds) = Some x" using assms(6) t by (intro rd_at [where pre = "pre @ ds"]) auto
  have 4: "rd m (length (pre @ ds) + length t) = Some c" "wr m (length (pre @ ds) + length t) 0 = Some (pre @ ds @ t @ 0 # rest)"
    using assms(6) rd_at [of "length (pre @ ds) + length t" "pre @ ds @ t" m c rest]
      wr_at [of "length (pre @ ds) + length t" "pre @ ds @ t" m c rest 0]
    by (auto simp del: rd_Some wr_Some)
  have "c \<noteq> 0" using assms(4) by (auto simp: is_delim_def)
  then show ?thesis using 1 2 3 4 x(1) by (simp add: strtok_def del: length_append) simp
qed

lemma strtok_end:
  assumes "\<forall>c \<in> set ds. is_delim c" "p = length pre" "m = pre @ ds @ 0 # rest"
  shows "strtok m p = Some (m, length pre + length ds, None)"
proof -
  have "seek (\<lambda>c. \<not> is_delim c) m p = Some (length pre + length ds)"
    using assms by (intro seek_at' [where c = 0 and rest = rest]) (auto simp: is_delim_def)
  moreover have "rd m (length pre + length ds) = Some 0" using assms(3) by (intro rd_at [where pre = "pre @ ds"]) auto
  ultimately show ?thesis by (simp add: strtok_def)
qed

lemma strchr1_at:
  assumes "plain s" "x \<notin> set s" "x \<noteq> 0" "p = length pre" "m = pre @ s @ x # rest"
  shows "strchr1 x m p = Some (Some (length pre + length s))"
proof -
  have "seek (\<lambda>c. c = 0 \<or> c = x) m p = Some (length pre + length s)"
    using assms by (intro seek_at' [where c = x and rest = rest]) (auto simp: plain_def)
  moreover have "rd m (length pre + length s) = Some x" using assms(5) by (intro rd_at [where pre = "pre @ s"]) auto
  ultimately show ?thesis by (simp add: strchr1_def)
qed

lemma plain_dropWhile: "plain v \<Longrightarrow> plain (dropWhile P v)"
  by (auto simp: plain_def dest: set_dropWhileD)

lemma ws_value_at:
  assumes "plain v" "q = length pre" "m = pre @ 0 # v @ 0 # rest"
  shows "ws_value m q = Some (dropWhile (\<lambda>c. c = 32) v)"
proof -
  let ?b = "takeWhile (\<lambda>c. c = 32) v" and ?t = "dropWhile (\<lambda>c. c = 32) v"
  obtain x u where x: "?t @ 0 # rest = x # u" "x \<noteq> 32"
    using hd_dropWhile [of "\<lambda>c. c = 32" v] by (cases ?t) auto
  have m: "m = (pre @ [0]) @ ?b @ ?t @ 0 # rest" using assms(3) by (simp add: append_assoc [symmetric] del: append_assoc)
  then have "seek (\<lambda>c. c \<noteq> 32) m (q + 1) = Some (length (pre @ [0]) + length ?b)"
    using x assms(2) by (intro seek_at' [where c = x and rest = u]) (auto dest: set_takeWhileD)
  moreover have "cstr m (length (pre @ [0]) + length ?b) = Some ?t"
    using plain_dropWhile [OF assms(1)] m by (intro cstr_at [where pre = "(pre @ [0]) @ ?b"]) auto
  ultimately show ?thesis by (simp add: ws_value_def)
qed

lemma copy_location_at:
  assumes "32 \<notin> set xs" "z \<noteq> []" "q = length p" "m = p @ xs @ 32 # rest"
  shows "copy_location m q (d @ z) (length d) = Some (d @ snprintf z xs)"
  using assms
proof (induction xs arbitrary: p q d z)
  case Nil
  then show ?case
    by (subst copy_location.simps, cases z) (simp_all add: rd_at [of _ p] wr_at [of _ d] snprintf_def)
next
  case (Cons x xs)
  obtain y z' where z: "z = y # z'" using Cons.prems(2) by (cases z) auto
  have "rd m q = Some x" using Cons.prems(3,4) by (intro rd_at [where pre = p]) auto
  moreover have "wr (d @ z) (length d) x = Some ((d @ [x]) @ z')" using z by simp
  moreover have "copy_location m (q + 1) ((d @ [x]) @ z') (length (d @ [x])) = Some ((d @ [x]) @ snprintf z' xs)" if "z' \<noteq> []"
    using Cons.prems(1,3,4) that by (intro Cons.IH [where p = "p @ [x]"]) auto
  moreover have "x \<noteq> 32" using Cons.prems(1) by auto
  ultimately show ?case
    using z by (subst copy_location.simps, cases z') (simp_all add: snprintf_def Let_def)
qed

section \<open>What a request means\<close>

definition ref_field :: "u8 list \<Rightarrow> u8 list \<Rightarrow> request_t \<Rightarrow> request_t option option" where
  \<comment> \<open>a field by its name and value; the inner \<open>None\<close>: the request is rejected\<close>
  "ref_field name val rq =
     (let v = dropWhile (\<lambda>c. c = 32) val; is = (\<lambda>s. strcaseeq name (ascii s));
          flagged = (\<lambda>f. rq\<lparr>rq_flag := rq_flag rq OR f\<rparr>) in
      if is ''connection'' then Some (if strcaseeq v (ascii ''upgrade'') then Some (flagged WS_FLAG_CONNECTION) else None)
      else if is ''upgrade'' then Some (if strcaseeq v (ascii ''websocket'') then Some (flagged WS_FLAG_UPGRAGE) else None)
      else if is ''host'' then Some (Some ((flagged WS_FLAG_HOST)\<lparr>rq_host := snprintf (rq_host rq) v\<rparr>))
      else if is ''origin'' then Some (Some ((flagged WS_FLAG_ORIGIN)\<lparr>rq_origin := snprintf (rq_origin rq) v\<rparr>))
      else if is ''sec-websocket-origin'' then Some (Some ((flagged WS_FLAG_SEC_ORIGIN)\<lparr>rq_origin := snprintf (rq_origin rq) v\<rparr>))
      else if is ''sec-websocket-key'' then Some (Some ((flagged WS_FLAG_SEC_KEY)\<lparr>rq_key := snprintf (rq_key rq) v\<rparr>))
      else if is ''sec-websocket-version'' then map_option (\<lambda>n. Some ((flagged WS_FLAG_SEC_VERSION)\<lparr>rq_version := n\<rparr>)) (atoi val)
      else if is ''sec-websocket-key1'' then Some (Some ((flagged WS_FLAG_SEC_KEY1)\<lparr>rq_key1 := snprintf (rq_key1 rq) v\<rparr>))
      else if is ''sec-websocket-key2'' then Some (Some ((flagged WS_FLAG_SEC_KEY1)\<lparr>rq_key2 := snprintf (rq_key2 rq) v\<rparr>))
      else if is ''sec-websocket-protocol'' then Some (Some ((flagged WS_FLAG_SEC_PROTOCOL)\<lparr>rq_protocol := snprintf (rq_protocol rq) v\<rparr>))
      else Some (Some rq))"

fun ref_fields :: "(u8 list \<times> u8 list) list \<Rightarrow> request_t \<Rightarrow> request_t option option" where
  "ref_fields [] rq = Some (Some rq)"
| "ref_fields ((name, val) # fs) rq = (case ref_field name val rq of
     None \<Rightarrow> None | Some None \<Rightarrow> Some None | Some (Some rq) \<Rightarrow> ref_fields fs rq)"

definition field_line :: "u8 list \<times> u8 list \<Rightarrow> u8 list" where
  "field_line f = fst f @ 58 # snd f @ CRLF"

lemma field_line_pair [simp]: "field_line (n, v) = n @ 58 # v @ CRLF"
  by (simp add: field_line_def)

definition field_ok :: "u8 list \<times> u8 list \<Rightarrow> bool" where
  "field_ok f \<longleftrightarrow> plain (fst f) \<and> 58 \<notin> set (fst f) \<and> plain (snd f)"

definition request_text :: "u8 list \<Rightarrow> u8 list \<Rightarrow> u8 list \<Rightarrow> (u8 list \<times> u8 list) list \<Rightarrow> u8 list" where
  "request_text meth loc proto fs = meth @ 32 # loc @ 32 # proto @ CRLF @ concat (map field_line fs) @ CRLF"

lemma ws_field_at:
  assumes v: "plain v" and q: "q = length pre" and m: "m = pre @ 0 # v @ 0 # rest"
  shows "ws_field m name q rq = (case ref_field name v rq of None \<Rightarrow> None
     | Some None \<Rightarrow> map_option (\<lambda>rq. (rq, False)) (map_option fst (ws_field m name q rq))
     | Some (Some rq') \<Rightarrow> Some (rq', True))"
    and "ref_field name v rq = Some None \<Longrightarrow> \<exists>rq'. ws_field m name q rq = Some (rq', False)"
proof -
  note val = ws_value_at [OF assms]
  have s: "seek (\<lambda>c. c \<noteq> 32) m q = Some q"
    using seek_at' [of "[]" "\<lambda>c. c \<noteq> 32" 0 q pre m "v @ 0 # rest"] q m by simp
  have c: "cstr m (q + 1) = Some v" using v q m by (intro cstr_at [where pre = "pre @ [0]"]) auto
  show "ws_field m name q rq = (case ref_field name v rq of None \<Rightarrow> None
     | Some None \<Rightarrow> map_option (\<lambda>rq. (rq, False)) (map_option fst (ws_field m name q rq))
     | Some (Some rq') \<Rightarrow> Some (rq', True))"
    by (cases "atoi v") (simp_all add: ws_field_def ref_field_def Let_def val s c [simplified])
  show "\<exists>rq'. ws_field m name q rq = Some (rq', False)" if "ref_field name v rq = Some None"
    using that by (auto simp: ws_field_def ref_field_def Let_def val split: if_splits)
qed

lemma ws_fields_at:
  assumes "\<forall>f \<in> set fs. field_ok f" "\<forall>c \<in> set ds. is_delim c" "p = length pre"
    and "m = pre @ ds @ concat (map field_line fs) @ CRLF @ 0 # rest"
  shows "ws_fields m p rq = ref_fields fs rq"
  using assms
proof (induction fs arbitrary: pre ds p m rq)
  case Nil
  then have "strtok m p = Some (m, length pre + length (ds @ CRLF), None)"
    by (intro strtok_end [where rest = rest]) (auto simp: is_delim_def)
  then show ?case by (subst ws_fields.simps) simp
next
  case (Cons f fs)
  obtain name v where f: "f = (name, v)" by (cases f)
  have ok: "plain name" "58 \<notin> set name" "plain v" using Cons.prems(1) f by (auto simp: field_ok_def)
  let ?t = "name @ 58 # v" and ?r = "10 # concat (map field_line fs) @ CRLF @ 0 # rest"
  let ?m1 = "pre @ ds @ ?t @ 0 # ?r" and ?m2 = "pre @ ds @ name @ 0 # v @ 0 # ?r"
  have "plain ?t" using ok by (auto simp: plain_def is_delim_def)
  then have tok: "strtok m p = Some (?m1, length pre + length ds + length ?t + 1, Some (length pre + length ds))"
    using Cons.prems(2-4) f by (intro strtok_at [where c = 13]) (auto simp: is_delim_def)
  have colon: "strchr1 58 ?m1 (length pre + length ds) = Some (Some (length (pre @ ds) + length name))"
    using ok by (intro strchr1_at [where pre = "pre @ ds" and rest = "v @ 0 # ?r"]) auto
  have cut: "wr ?m1 (length (pre @ ds) + length name) 0 = Some ?m2"
    using wr_at [of "length (pre @ ds) + length name" "pre @ ds @ name" ?m1 58 "v @ 0 # ?r" 0] by (simp del: wr_Some)
  have name: "cstr ?m2 (length pre + length ds) = Some name"
    using ok by (intro cstr_at [where pre = "pre @ ds" and rest = "v @ 0 # ?r"]) auto
  have q: "length (pre @ ds) + length name = length (pre @ ds @ name)" by simp
  have m2: "?m2 = (pre @ ds @ name) @ 0 # v @ 0 # ?r" by simp
  note field = ws_field_at [OF ok(3) q m2, of name rq]
  have more: "ws_fields ?m2 (length pre + length ds + length ?t + 1) rq' = ref_fields fs rq'" for rq'
    using Cons.prems(1) by (intro Cons.IH [where pre = "pre @ ds @ name @ 0 # v @ [0]" and ds = "[10]"]) (auto simp: is_delim_def)
  define pos1 where "pos1 = length pre + length ds + length ?t + 1"
  have go: "ws_fields m p rq = do {
      (rq, good) \<leftarrow> ws_field ?m2 name (length (pre @ ds) + length name) rq;
      if good then ws_fields ?m2 pos1 rq else Some None }"
    unfolding pos1_def by (subst ws_fields.simps, unfold tok) (simp only: colon cut name option.case prod.case Option.bind_lunit)
  show ?case
  proof (cases "ref_field name v rq")
    case None
    then show ?thesis using field(1) by (simp add: go f)
  next
    case (Some r)
    show ?thesis
    proof (cases r)
      case None
      then show ?thesis using Some field(2) by (auto simp: go f)
    next
      case (Some rq')
      then have "ws_fields m p rq = ws_fields ?m2 pos1 rq'" using field(1) \<open>ref_field name v rq = Some r\<close> by (simp add: go)
      also have "\<dots> = ref_fields fs rq'" unfolding pos1_def by (rule more)
      finally show ?thesis using Some \<open>ref_field name v rq = Some r\<close> by (simp add: f)
    qed
  qed
qed

lemma parse_request_text:
  assumes "plain meth" "32 \<notin> set meth" "plain loc" "32 \<notin> set loc" "plain proto" "meth @ loc \<noteq> []"
    and "\<forall>f \<in> set fs. field_ok f"
    and "length stack = WS_HANDSHAKE_MAX_SIZE" "length (request_text meth loc proto fs) < WS_HANDSHAKE_MAX_SIZE"
    and "stack ! length (request_text meth loc proto fs) = 0"
  shows "wsconn_parse_request stack (request_text meth loc proto fs) =
     ref_fields fs (request_zero\<lparr>rq_location := snprintf (replicate 64 0) loc\<rparr>)"
proof -
  let ?d = "request_text meth loc proto fs" and ?t = "meth @ 32 # loc @ 32 # proto"
  define rest where "rest = drop (Suc (length ?d)) stack"
  have st: "drop (length ?d) stack = 0 # rest" using assms(8-10) by (simp add: rest_def Cons_nth_drop_Suc [symmetric])
  let ?r = "10 # concat (map field_line fs) @ CRLF @ 0 # rest"
  let ?m = "?t @ 13 # ?r" and ?m1 = "?t @ 0 # ?r"
  have m: "blit stack 0 ?d = Some ?m" using assms(8,9) st by (simp add: blit_def request_text_def)
  have "plain ?t" using assms(1,3,5) by (auto simp: plain_def is_delim_def)
  then have tok: "strtok ?m 0 = Some (?m1, length ?t + 1, Some 0)"
    using strtok_at [of "[]" ?t 13 0 "[]" ?m ?r] by (simp add: is_delim_def)
  have blank: "strchr1 32 ?m1 0 = Some (Some (length meth))"
    using strchr1_at [of meth 32 0 "[]" ?m1 "loc @ 32 # proto @ 0 # ?r"] assms(1,2) by simp
  have loc: "copy_location ?m1 (length meth + 1) (replicate 64 0) 0 = Some (snprintf (replicate 64 0) loc)"
    using copy_location_at [OF assms(4), of "replicate 64 0" "length meth + 1" "meth @ [32]" ?m1 "proto @ 0 # ?r" "[]"] by simp
  have "ws_fields ?m1 (length ?t + 1) rq = ref_fields fs rq" for rq
    using assms(7) by (intro ws_fields_at [where pre = "?t @ [0]" and ds = "[10]"]) (auto simp: is_delim_def)
  with m tok blank loc assms(9) show ?thesis
    by (simp add: wsconn_parse_request_def request_zero_def del: length_append)
qed

text \<open>The flag of the second key is never set.\<close>

lemma ws_field_no_key2: "ws_field m name q rq = Some (rq', g) \<Longrightarrow> \<not> bit (rq_flag rq) 8 \<Longrightarrow> \<not> bit (rq_flag rq') 8"
  by (auto simp: ws_field_def ws_flags bind_eq_Some_conv bit_or_iff split: if_splits)

lemma ws_fields_no_key2:
  assumes "ws_fields m pos rq = Some r" "r = Some rq'" "\<not> bit (rq_flag rq) 8"
  shows "\<not> bit (rq_flag rq') 8"
proof -
  have "\<forall>rq'. r = Some rq' \<longrightarrow> \<not> bit (rq_flag rq) 8 \<longrightarrow> \<not> bit (rq_flag rq') 8"
  proof (rule ws_fields.raw_induct [where P = "\<lambda>m pos rq r. \<forall>rq'. r = Some rq' \<longrightarrow> \<not> bit (rq_flag rq) 8 \<longrightarrow> \<not> bit (rq_flag rq') 8",
        OF _ assms(1)], intro allI impI)
    fix F :: "u8 list \<Rightarrow> nat \<Rightarrow> request_t \<Rightarrow> request_t option option" and m pos rq r rq'
    assume IH: "\<And>m pos rq r. F m pos rq = Some r \<Longrightarrow> \<forall>rq'. r = Some rq' \<longrightarrow> \<not> bit (rq_flag rq) 8 \<longrightarrow> \<not> bit (rq_flag rq') 8"
    assume F: "do { (m, pos, p) \<leftarrow> strtok m pos;
       (case p of
          None \<Rightarrow> Some (Some rq)
        | Some p \<Rightarrow> do {
            colon \<leftarrow> strchr1 58 m p;
            (case colon of
               Some q \<Rightarrow> do {
                 m \<leftarrow> wr m q 0;
                 name \<leftarrow> cstr m p;
                 (rq, good) \<leftarrow> ws_field m name q rq;
                 if good then F m pos rq else Some None }
             | None \<Rightarrow> if hd (rq_key rq) = 0 then None else F m pos rq) }) } = Some r"
      and r: "r = Some rq'" "\<not> bit (rq_flag rq) 8"
    obtain m1 pos1 p where t: "strtok m pos = Some (m1, pos1, p)" using F by (auto simp: bind_eq_Some_conv)
    show "\<not> bit (rq_flag rq') 8"
    proof (cases p)
      case None
      then show ?thesis using F t r by simp
    next
      case (Some a)
      obtain colon where c: "strchr1 58 m1 a = Some colon" using F t Some by (auto simp: bind_eq_Some_conv)
      show ?thesis
      proof (cases colon)
        case None
        then have "F m1 pos1 rq = Some r" using F t Some c by (auto split: if_splits)
        then show ?thesis using IH r by blast
      next
        case (Some q)
        then obtain m2 name rq1 g where w: "ws_field m2 name q rq = Some (rq1, g)" "(if g then F m2 pos1 rq1 else Some None) = Some r"
          using F t \<open>p = Some a\<close> c by (auto simp: bind_eq_Some_conv)
        then have "F m2 pos1 rq1 = Some r" using r by (auto split: if_splits)
        then show ?thesis using IH ws_field_no_key2 [OF w(1) r(2)] r(1) by blast
      qed
    qed
  qed
  then show ?thesis using assms(2,3) by blast
qed

lemma parse_no_md5:
  assumes "wsconn_parse_request stack data = Some (Some rq)"
  shows "\<not> ws_has rq WS_MD5"
proof -
  have "\<not> bit (rq_flag rq) 8"
    using assms
    by (auto simp: wsconn_parse_request_def bind_eq_Some_conv request_zero_def split: if_splits option.splits
        dest!: ws_fields_no_key2 [OF _ refl])
  moreover have "bit (WS_MD5) 8" by (simp add: WS_MD5_def ws_flags)
  ultimately show ?thesis unfolding ws_has_def by (metis bit_and_iff)
qed

lemma find_request_none:
  assumes "\<And>u v. data \<noteq> u @ [13, 10, 13, 10] @ v"
  shows "find_request data i = None"
  using assms
proof (induction data i rule: find_request.induct)
  case (1 data i)
  have "take 4 (drop i data) \<noteq> [13, 10, 13, 10]"
  proof
    assume "take 4 (drop i data) = [13, 10, 13, 10]"
    then have "data = take i data @ [13, 10, 13, 10] @ drop 4 (drop i data)" by (metis append_take_drop_id)
    then show False using 1(2) by blast
  qed
  then show ?case using 1 by (subst find_request.simps) auto
qed

lemma read_stores:
  assumes "buffer_inv b" "bytes \<noteq> []" "int (length bytes) \<le> buffer_write_len (Some b)"
  obtains m b' where "blit (b_mem b) (nat (b_write b)) bytes = Some m"
    and "buffer_write_nocopy (Some (b\<lparr>b_mem := m\<rparr>)) (int (length bytes)) = Some (Some b', int (length bytes))"
    and "buffer_inv b'" "buffer_content b' = buffer_content b @ bytes"
proof -
  obtain b' where b': "buffer_write (Some b) (Some bytes) (int (length bytes)) = Some (Some b', int (length bytes))"
      "buffer_inv b'" "buffer_content b' = buffer_content b @ bytes"
    using buffer_write_ok [OF assms(1), of bytes] assms(3) by (auto simp del: buffer_write_len.simps)
  moreover have "buffer_write (Some b) (Some bytes) (int (length bytes)) = do {
      m \<leftarrow> blit (b_mem b) (nat (b_write b)) bytes;
      buffer_write_nocopy (Some (b\<lparr>b_mem := m\<rparr>)) (int (length bytes)) }"
    using assms(2,3) by (subst buffer_write.simps) (simp add: rd_n_def)
  ultimately show thesis using that by (auto simp: bind_eq_Some_conv)
qed

lemma ws_reply_ok:
  assumes "ws_wbuf con = Some wb" "buffer_inv wb"
    and "int (length page) \<le> buffer_write_len (Some wb)" "length page < WS_HANDSHAKE_MAX_SIZE"
    and "reactor_modify ctl ok r (Some (ws_handler con)) (EVENT_IN OR EVENT_OUT) = Some (r', ret)"
  shows "\<exists>wb'. ws_reply ctl ok (s, r, con) page = Some ((s, r', con\<lparr>ws_wbuf := Some wb'\<rparr>), 0) \<and> buffer_inv wb'
    \<and> buffer_content wb' = buffer_content wb @ page"
proof -
  obtain wb' where "buffer_write (Some wb) (Some page) (int (length page)) = Some (Some wb', int (length page))" "buffer_inv wb'"
      "buffer_content wb' = buffer_content wb @ page"
    using buffer_write_ok [OF assms(2), of page] assms(3) by (auto simp del: buffer_write_len.simps)
  then show ?thesis using assms by (intro exI [of _ wb']) (simp add: ws_reply_def ws_handler_def del: buffer_write_len.simps)
qed

lemma length_enc_ref: "3 * length (enc_ref s) \<le> 4 * length s + 8"
  by (induction s rule: enc_ref.induct) (auto simp: BASE64_ENCODE_def)

definition sha1_reply :: "u8 list \<Rightarrow> u8 list" where
  \<comment> \<open>the answer with the given value of \<^verbatim>\<open>Sec-WebSocket-Accept\<close>\<close>
  "sha1_reply code = ascii ''HTTP/1.1 101 Switching Protocols'' @ CRLF @ ascii ''Upgrade: websocket'' @ CRLF
     @ ascii ''Connection: Upgrade'' @ CRLF @ ascii ''Sec-WebSocket-Accept: '' @ code @ CRLF @ CRLF"

lemma accept_code:
  assumes "length d \<le> 127" "d \<noteq> []" "hd d \<noteq> 0"
  shows "\<exists>n code. (do { sha \<leftarrow> blit (replicate 128 0) 0 d; n \<leftarrow> cstr sha 0; base64_encode True (Some sha) (length n) }) = Some (code, 0)
     \<and> cstr code 0 = Some (enc_ref (takeWhile (\<lambda>c. c \<noteq> 0) d))"
proof -
  let ?t = "takeWhile (\<lambda>c. c \<noteq> 0) d" and ?sha = "d @ replicate (128 - length d) 0"
  obtain rest where sha: "?sha = ?t @ 0 # rest"
  proof (cases "dropWhile (\<lambda>c. c \<noteq> 0) d")
    case Nil
    then have "?t = d" by (metis append_Nil2 takeWhile_dropWhile_id)
    moreover obtain k where "128 - length d = Suc k" using assms(1) by (cases "128 - length d") auto
    ultimately show ?thesis using that [of "replicate k 0"] by (metis replicate_Suc)
  next
    case (Cons x u)
    then have "x = 0" using hd_dropWhile [of "\<lambda>c. c \<noteq> 0" d] by auto
    then have "d = ?t @ 0 # u" using Cons takeWhile_dropWhile_id [of "\<lambda>c. c \<noteq> 0" d] by simp
    then show ?thesis using that [of "u @ replicate (128 - length d) 0"] by (metis append_Cons append_assoc)
  qed
  have nz: "0 \<notin> set ?t" by (auto dest: set_takeWhileD)
  have ne: "?t \<noteq> []" using assms(2,3) by (cases d) auto
  have "seek (\<lambda>c. c = 0) ?sha 0 = Some (length ?t)"
    using seek_at' [of ?t "\<lambda>c. c = 0" 0 0 "[]" ?sha rest] nz sha by auto
  then have c: "cstr ?sha 0 = Some ?t" using sha by (simp add: cstr_def rd_n_def)
  obtain b o' where e: "encode_loop ?sha 0 (length ?t) [] [] = Some (b, o')" "encode_tail b o' = Some (enc_ref ?t)"
    using encode_loop_ref [OF nz, of "[]" "0 # rest" "[]"] sha by auto
  have "seek (\<lambda>c. c = 0) (enc_ref ?t @ [0]) 0 = Some (length (enc_ref ?t))"
    using seek_at' [of "enc_ref ?t" "\<lambda>c. c = 0" 0 0 "[]" "enc_ref ?t @ [0]" "[]"] enc_ref_nonzero [of ?t] by auto
  then have "cstr (enc_ref ?t @ [0]) 0 = Some (enc_ref ?t)" by (simp add: cstr_def rd_n_def)
  moreover have "blit (replicate 128 0) 0 d = Some ?sha" using assms(1) by (simp add: blit_def)
  ultimately show ?thesis using c e ne by (simp add: base64_encode_def)
qed

section \<open>Properties\<close>


text \<open>The MD5 handshake of the older protocol is dead code: the parser stores the second key under
  the flag of the first, so the reply to a request never depends on the digest.\<close>

lemma md5_handshake_unreachable:
  "wsconn_handshake md5 sha1 ctl ok fns stack st data = wsconn_handshake md5' sha1 ctl ok fns stack st data"
  using parse_no_md5 by (auto simp: wsconn_handshake_def split: bind_split option.split)



section \<open>Examples\<close>

definition demo_fields :: "(u8 list \<times> u8 list) list" where
  "demo_fields = [(ascii ''Host'', ascii '' a.b''), (ascii ''Upgrade'', ascii '' websocket''), (ascii ''Connection'', ascii '' Upgrade''),
     (ascii ''Origin'', ascii '' c''), (ascii ''Sec-WebSocket-Key'', ascii '' k''), (ascii ''Sec-WebSocket-Version'', ascii ''13'')]"

definition demo_request :: "u8 list" where
  "demo_request = request_text (ascii ''GET'') (ascii ''/ls'') (ascii ''HTTP/1.1'') demo_fields"

definition demo_parsed :: request_t where
  "demo_parsed = request_zero\<lparr>rq_flag := 111, rq_version := 13, rq_key := 107 # replicate 31 0, rq_origin := 99 # replicate 63 0,
     rq_host := [97, 46, 98] @ replicate 61 0, rq_location := [47, 108, 115] @ replicate 61 0\<rparr>"

lemma demo_fields_ok: "\<forall>f \<in> set demo_fields. field_ok f"
  by (simp add: demo_fields_def field_ok_def plain_def is_delim_def ascii_def)

lemma demo_ref: "ref_fields demo_fields (request_zero\<lparr>rq_location := snprintf (replicate 64 0) (ascii ''/ls'')\<rparr>) = Some (Some demo_parsed)"
  by code_simp


definition demo_wb :: buffer_t where
  "demo_wb = \<lparr>b_mem = replicate 1000 0, b_size = 1000, b_read = 0, b_write = 0, b_drift = 500\<rparr>"

definition demo_con :: wsconn_t where
  "demo_con = (ws_demo [])\<lparr>ws_wbuf := Some demo_wb, ws_status := WS_INIT\<rparr>"



end
