(* ===== verification/Util_Crc.thy ===== *)
theory Util_Crc
  imports Prelude
begin

text \<open>
  \<^verbatim>\<open>util/crc.c\<close>.  The running value is an \<^verbatim>\<open>int32_t\<close>, so that its shift is arithmetic: it repeats
  the sign bit, which the CRC-32 whose table this is does not do.
\<close>

section \<open>Operations\<close>

definition crc_literals :: "int list" where
  "crc_literals = [
    0x00000000, 0x77073096, 0xee0e612c, 0x990951ba, 0x076dc419, 0x706af48f, 0xe963a535, 0x9e6495a3,
    0x0edb8832, 0x79dcb8a4, 0xe0d5e91e, 0x97d2d988, 0x09b64c2b, 0x7eb17cbd, 0xe7b82d07, 0x90bf1d91,
    0x1db71064, 0x6ab020f2, 0xf3b97148, 0x84be41de, 0x1adad47d, 0x6ddde4eb, 0xf4d4b551, 0x83d385c7,
    0x136c9856, 0x646ba8c0, 0xfd62f97a, 0x8a65c9ec, 0x14015c4f, 0x63066cd9, 0xfa0f3d63, 0x8d080df5,
    0x3b6e20c8, 0x4c69105e, 0xd56041e4, 0xa2677172, 0x3c03e4d1, 0x4b04d447, 0xd20d85fd, 0xa50ab56b,
    0x35b5a8fa, 0x42b2986c, 0xdbbbc9d6, 0xacbcf940, 0x32d86ce3, 0x45df5c75, 0xdcd60dcf, 0xabd13d59,
    0x26d930ac, 0x51de003a, 0xc8d75180, 0xbfd06116, 0x21b4f4b5, 0x56b3c423, 0xcfba9599, 0xb8bda50f,
    0x2802b89e, 0x5f058808, 0xc60cd9b2, 0xb10be924, 0x2f6f7c87, 0x58684c11, 0xc1611dab, 0xb6662d3d,
    0x76dc4190, 0x01db7106, 0x98d220bc, 0xefd5102a, 0x71b18589, 0x06b6b51f, 0x9fbfe4a5, 0xe8b8d433,
    0x7807c9a2, 0x0f00f934, 0x9609a88e, 0xe10e9818, 0x7f6a0dbb, 0x086d3d2d, 0x91646c97, 0xe6635c01,
    0x6b6b51f4, 0x1c6c6162, 0x856530d8, 0xf262004e, 0x6c0695ed, 0x1b01a57b, 0x8208f4c1, 0xf50fc457,
    0x65b0d9c6, 0x12b7e950, 0x8bbeb8ea, 0xfcb9887c, 0x62dd1ddf, 0x15da2d49, 0x8cd37cf3, 0xfbd44c65,
    0x4db26158, 0x3ab551ce, 0xa3bc0074, 0xd4bb30e2, 0x4adfa541, 0x3dd895d7, 0xa4d1c46d, 0xd3d6f4fb,
    0x4369e96a, 0x346ed9fc, 0xad678846, 0xda60b8d0, 0x44042d73, 0x33031de5, 0xaa0a4c5f, 0xdd0d7cc9,
    0x5005713c, 0x270241aa, 0xbe0b1010, 0xc90c2086, 0x5768b525, 0x206f85b3, 0xb966d409, 0xce61e49f,
    0x5edef90e, 0x29d9c998, 0xb0d09822, 0xc7d7a8b4, 0x59b33d17, 0x2eb40d81, 0xb7bd5c3b, 0xc0ba6cad,
    0xedb88320, 0x9abfb3b6, 0x03b6e20c, 0x74b1d29a, 0xead54739, 0x9dd277af, 0x04db2615, 0x73dc1683,
    0xe3630b12, 0x94643b84, 0x0d6d6a3e, 0x7a6a5aa8, 0xe40ecf0b, 0x9309ff9d, 0x0a00ae27, 0x7d079eb1,
    0xf00f9344, 0x8708a3d2, 0x1e01f268, 0x6906c2fe, 0xf762575d, 0x806567cb, 0x196c3671, 0x6e6b06e7,
    0xfed41b76, 0x89d32be0, 0x10da7a5a, 0x67dd4acc, 0xf9b9df6f, 0x8ebeeff9, 0x17b7be43, 0x60b08ed5,
    0xd6d6a3e8, 0xa1d1937e, 0x38d8c2c4, 0x4fdff252, 0xd1bb67f1, 0xa6bc5767, 0x3fb506dd, 0x48b2364b,
    0xd80d2bda, 0xaf0a1b4c, 0x36034af6, 0x41047a60, 0xdf60efc3, 0xa867df55, 0x316e8eef, 0x4669be79,
    0xcb61b38c, 0xbc66831a, 0x256fd2a0, 0x5268e236, 0xcc0c7795, 0xbb0b4703, 0x220216b9, 0x5505262f,
    0xc5ba3bbe, 0xb2bd0b28, 0x2bb45a92, 0x5cb36a04, 0xc2d7ffa7, 0xb5d0cf31, 0x2cd99e8b, 0x5bdeae1d,
    0x9b64c2b0, 0xec63f226, 0x756aa39c, 0x026d930a, 0x9c0906a9, 0xeb0e363f, 0x72076785, 0x05005713,
    0x95bf4a82, 0xe2b87a14, 0x7bb12bae, 0x0cb61b38, 0x92d28e9b, 0xe5d5be0d, 0x7cdcefb7, 0x0bdbdf21,
    0x86d3d2d4, 0xf1d4e242, 0x68ddb3f8, 0x1fda836e, 0x81be16cd, 0xf6b9265b, 0x6fb077e1, 0x18b74777,
    0x88085ae6, 0xff0f6a70, 0x66063bca, 0x11010b5c, 0x8f659eff, 0xf862ae69, 0x616bffd3, 0x166ccf45,
    0xa00ae278, 0xd70dd2ee, 0x4e048354, 0x3903b3c2, 0xa7672661, 0xd06016f7, 0x4969474d, 0x3e6e77db,
    0xaed16a4a, 0xd9d65adc, 0x40df0b66, 0x37d83bf0, 0xa9bcae53, 0xdebb9ec5, 0x47b2cf7f, 0x30b5ffe9,
    0xbdbdf21c, 0xcabac28a, 0x53b39330, 0x24b4a3a6, 0xbad03605, 0xcdd70693, 0x54de5729, 0x23d967bf,
    0xb3667a2e, 0xc4614ab8, 0x5d681b02, 0x2a6f2b94, 0xb40bbe37, 0xc30c8ea1, 0x5a05df1b, 0x2d02ef8d]"

definition crc_c :: "u32 list" where
  "crc_c = map word_of_int crc_literals"

definition CRC32C :: "u32 \<Rightarrow> u8 \<Rightarrow> u32 option" where
  "CRC32C c d = do {
     t \<leftarrow> rd crc_c (unat ((c XOR ucast d) AND 0xFF));
     Some (signed_drop_bit 8 c XOR t) }"

fun crc_loop :: "u32 \<Rightarrow> u8 list \<Rightarrow> u32 option" where
  "crc_loop c [] = Some c"
| "crc_loop c (b # bs) = do { c' \<leftarrow> CRC32C c b; crc_loop c' bs }"

definition crc32 :: "u8 list \<Rightarrow> u32 option" where
  \<comment> \<open>the result as the 32 bits of the \<^verbatim>\<open>int32_t\<close>\<close>
  "crc32 buffer = map_option (\<lambda>c. NOT c) (crc_loop (NOT 0) buffer)"

section \<open>The table\<close>

definition crc_step :: "u32 \<Rightarrow> u32" where
  \<comment> \<open>division by the reflected CRC-32 polynomial, one bit\<close>
  "crc_step x = (if bit x 0 then drop_bit 1 x XOR 0xEDB88320 else drop_bit 1 x)"

definition crc_byte :: "u32 \<Rightarrow> u32" where
  "crc_byte x = crc_step (crc_step (crc_step (crc_step (crc_step (crc_step (crc_step (crc_step x)))))))"

definition int_step :: "int \<Rightarrow> int" where
  "int_step x = (if odd x then (x div 2) XOR 0xEDB88320 else x div 2)"

definition int_byte :: "int \<Rightarrow> int" where
  "int_byte x = int_step (int_step (int_step (int_step (int_step (int_step (int_step (int_step x)))))))"

lemma int_step_simps:
  "int_step (numeral (Num.Bit0 k)) = numeral k"
  "int_step (numeral (Num.Bit1 k)) = numeral k XOR 0xEDB88320"
  "int_step 1 = 0xEDB88320" "int_step 0 = 0"
  by (simp_all add: int_step_def)

lemma int_table: "map int_byte [0..255] = crc_literals"
  by (simp add: upto_rec1 int_byte_def int_step_simps crc_literals_def)

lemma uint_step: "uint (crc_step x) = int_step (uint x)"
proof -
  have "uint (drop_bit 1 x) = uint x div 2" by (simp add: drop_bit_eq_div uint_div_distrib)
  moreover have "bit x 0 \<longleftrightarrow> bit (uint x) 0" by (simp add: bit_unsigned_iff del: bit_0)
  then have "bit x 0 \<longleftrightarrow> odd (uint x)" by (simp only: bit_0 [of "uint x"])
  ultimately show ?thesis by (simp add: crc_step_def int_step_def unsigned_xor_eq)
qed

lemma uint_byte: "uint (crc_byte x) = int_byte (uint x)"
  by (simp add: crc_byte_def int_byte_def uint_step)

lemma crc_table:
  assumes "i < 256"
  shows "rd crc_c (unat i) = Some (crc_byte i)"
proof -
  have i: "unat i < 256" using assms by (simp add: word_less_nat_alt)
  have len: "length crc_literals = 256" unfolding int_table [symmetric] by simp
  have "crc_literals ! unat i = int_byte ([0..255] ! unat i)"
    unfolding int_table [symmetric] using i by (intro nth_map) simp
  also have "[0..255] ! unat i = uint i"
  proof -
    have "[0..255] ! unat i = 0 + int (unat i)" by (rule nth_upto) (use i in linarith)
    also have "\<dots> = uint i" by simp
    finally show ?thesis .
  qed
  finally show ?thesis using i len by (simp add: crc_c_def uint_byte [symmetric])
qed

lemma crc_step_xor: "crc_step (x XOR y) = crc_step x XOR crc_step y"
  by (simp add: crc_step_def bit_xor_iff drop_bit_xor ac_simps)

lemma crc_byte_xor: "crc_byte (x XOR y) = crc_byte x XOR crc_byte y"
  by (simp add: crc_byte_def crc_step_xor)

lemma crc_byte_0 [simp]: "crc_byte 0 = 0"
  by (simp add: crc_byte_def crc_step_def)

lemma high_literals: "list_all (\<lambda>x. 2 ^ 24 \<le> x) (tl crc_literals)"
  by (simp add: crc_literals_def)

lemma crc_byte_top:
  assumes "i < 256" "drop_bit 24 (crc_byte i) = 0"
  shows "i = 0"
proof (rule ccontr)
  assume "i \<noteq> 0"
  then have u: "1 \<le> uint i" "uint i \<le> 255"
    using assms(1) by (auto simp: word_less_alt word_neq_0_conv)
  have "tl crc_literals = map int_byte [1..255]"
    unfolding int_table [symmetric] by (simp add: upto_rec1 [of 0])
  then have "2 ^ 24 \<le> int_byte (uint i)" using high_literals u by (simp add: list_all_iff)
  moreover have "uint (drop_bit 24 (crc_byte i)) = uint (crc_byte i) div 2 ^ 24"
    by (simp add: drop_bit_eq_div uint_div_distrib)
  then have "int_byte (uint i) div 2 ^ 24 = 0" using assms(2) by (simp add: uint_byte)
  moreover have "0 \<le> int_byte (uint i)" by (simp add: uint_byte [symmetric])
  ultimately show False by simp
qed

lemma and_255: "(x :: u32) AND 0xFF < 256"
  by (rule order.strict_trans1 [OF word_and_le1]) simp

lemma CRC32C_eq: "CRC32C c d = Some (signed_drop_bit 8 c XOR crc_byte ((c XOR ucast d) AND 0xFF))"
proof -
  show ?thesis by (simp add: CRC32C_def crc_table [OF and_255])
qed

lemma low_byte_bits: "bit (0xFF :: u32) n \<longleftrightarrow> n < 8"
proof -
  have "(0xFF :: u32) = mask 8" by (simp add: mask_eq_exp_minus_1)
  then show ?thesis by (simp only: bit_mask_iff) auto
qed

lemma bit_ucast8: "bit (ucast (d :: u8) :: u32) n \<longleftrightarrow> n < 8 \<and> bit d n"
  using bit_imp_le_length [of d n] by (auto simp: bit_ucast_iff)

lemma ucast_low: "(ucast (d :: u8) :: u32) AND 0xFF = ucast d"
  by (rule bit_word_eqI, unfold bit_and_iff bit_ucast8 low_byte_bits) blast

lemma byte_217: "bit (217 :: u32) n \<Longrightarrow> n < 8"
proof -
  assume b: "bit (217 :: u32) n"
  have "(217 :: u32) = 217 AND 0xFF" by simp
  then have "bit (217 AND 0xFF :: u32) n" using b by metis
  then show "n < 8" unfolding bit_and_iff low_byte_bits by blast
qed

text \<open>A step can be undone: the state before it and the byte are determined by the state after it
  and the other of the two.\<close>

lemma signed_shift8:
  fixes c :: u32
  assumes "n < 32"
  shows "bit (signed_drop_bit 8 c) n \<longleftrightarrow> bit c (if n + 8 < 32 then n + 8 else 31)"
proof -
  have "(if LENGTH(32) - 8 \<le> n \<and> n < LENGTH(32) then LENGTH(32) - 1 else 8 + n) = (if n + 8 < 32 then n + 8 else 31)"
    using assms by auto
  then show ?thesis unfolding bit_signed_drop_bit_iff by (simp only:)
qed

lemma CRC32C_inj_state:
  assumes "CRC32C c d = CRC32C c' d"
  shows "c = c'"
proof -
  define D where "D = c XOR c'"
  define k where "k = D AND 0xFF"
  define S where "S = signed_drop_bit 8 c XOR signed_drop_bit 8 c'"
  have k: "k = ((c XOR ucast d) AND 0xFF) XOR ((c' XOR ucast d) AND 0xFF)"
    by (rule bit_word_eqI) (auto simp: k_def D_def bit_simps)
  have SK: "S = crc_byte k"
    using assms unfolding CRC32C_eq option.inject k crc_byte_xor S_def by (rule xor_exchange)
  have bits: "bit S n \<longleftrightarrow> bit D (if n + 8 < 32 then n + 8 else 31)" if "n < 32" for n
    using that by (simp add: S_def D_def bit_xor_iff signed_shift8)
  have highS: "bit S (24 + n) \<longleftrightarrow> n < 8 \<and> bit D 31" for n
    using bits [of "24 + n"] bit_imp_le_length [of S "24 + n"] by auto
  have k256: "k < 256" by (simp add: k_def and_255)
  show ?thesis
  proof (cases "bit D 31")
    case False
    have "drop_bit 24 S = 0" by (rule bit_word_eqI) (use highS False in \<open>simp add: bit_drop_bit_eq\<close>)
    then have "k = 0" using crc_byte_top [OF k256] SK by simp
    then have "S = 0" using SK by simp
    have "D = 0"
    proof (rule bit_word_eqI)
      fix n
      assume n: "n < LENGTH(32)"
      show "bit D n = bit 0 n"
      proof (cases "n < 8")
        case True
        have "bit k n = bit D n" unfolding k_def bit_and_iff low_byte_bits using True by blast
        then show ?thesis using \<open>k = 0\<close> by simp
      next
        case ge: False
        then show ?thesis using bits [of "n - 8"] n \<open>S = 0\<close> by simp
      qed
    qed
    then show ?thesis by (simp add: D_def xor_eq_0D)
  next
    case True
    have top: "drop_bit 24 S = 0xFF"
      by (rule bit_word_eqI, unfold bit_drop_bit_eq low_byte_bits) (use highS True in simp)
    have "crc_byte 217 = 0xff0f6a70" by (rule word_uint_eqI) (simp add: uint_byte int_byte_def int_step_simps)
    then have "crc_byte (k XOR 217) = S XOR 0xff0f6a70" using SK by (simp add: crc_byte_xor)
    then have "drop_bit 24 (crc_byte (k XOR 217)) = 0" by (simp add: drop_bit_xor top)
    moreover have "k XOR 217 < 256"
    proof -
      have "k XOR 217 = (D XOR 217) AND 0xFF"
        unfolding k_def by (rule bit_word_eqI, unfold bit_and_iff bit_xor_iff low_byte_bits) (use byte_217 in blast)
      then show ?thesis by (simp only: and_255)
    qed
    ultimately have "k XOR 217 = 0" using crc_byte_top by blast
    then have "k = 217" by (rule xor_eq_0D)
    then have "S = 0xff0f6a70" using SK \<open>crc_byte 217 = 0xff0f6a70\<close> by simp
    then have "\<not> bit S 23" by simp
    then show ?thesis using bits [of 23] True by simp
  qed
qed

lemma CRC32C_inj_byte:
  assumes "CRC32C c d = CRC32C c e"
  shows "d = e"
proof -
  let ?i = "(c XOR ucast d) AND 0xFF" and ?j = "(c XOR ucast e) AND 0xFF"
  have "crc_byte ?i = crc_byte ?j"
    using assms unfolding CRC32C_eq option.inject by (metis xor.commute xor_right_cancel)
  then have "crc_byte (?i XOR ?j) = 0" by (simp add: crc_byte_xor)
  moreover have ij: "?i XOR ?j = ucast (d XOR e)"
    by (rule bit_word_eqI, unfold bit_and_iff bit_xor_iff bit_ucast8 low_byte_bits) blast
  moreover have "(ucast (d XOR e) :: u32) < 256"
    using and_255 [of "ucast (d XOR e)"] by (simp only: ucast_low)
  ultimately have "(ucast (d XOR e) :: u32) = 0" using crc_byte_top by (metis drop_bit_of_0)
  then have "\<not> (n < 8 \<and> bit (d XOR e) n)" for n using bit_ucast8 [of "d XOR e" n] by simp
  then have "d XOR e = 0" by (intro bit_word_eqI) simp
  then show ?thesis by (rule xor_eq_0D)
qed

lemma crc_loop_total: "\<exists>c'. crc_loop c bs = Some c'"
  by (induction bs arbitrary: c) (simp_all add: CRC32C_eq)

lemma crc_loop_append: "crc_loop c (xs @ ys) = do { c' \<leftarrow> crc_loop c xs; crc_loop c' ys }"
  by (induction xs arbitrary: c) (auto split: bind_split)

lemma crc_loop_inj: "crc_loop c bs = crc_loop c' bs \<Longrightarrow> c = c'"
proof (induction bs arbitrary: c c')
  case (Cons b bs)
  obtain d d' where d: "CRC32C c b = Some d" "CRC32C c' b = Some d'" by (simp add: CRC32C_eq)
  then have "d = d'" using Cons by simp
  then show ?case using d CRC32C_inj_state [of c b c'] by simp
qed simp

lemma not_inj: "(NOT x :: u32) = NOT y \<Longrightarrow> x = y"
  by (metis bit.double_compl)

text \<open>the checksum never reads outside its table and detects the change of any one byte of a buffer,
  but because of its signed shift it is not the CRC-32 of its table: the check value of the
  nine digits is 206AF85B and not CBF43926.\<close>
lemma crc32_detects_byte_change:
  shows "crc32 (xs @ a # ys) \<noteq> None \<and> (crc32 (xs @ a # ys) = crc32 (xs @ b # ys) \<longleftrightarrow> a = b) \<and>
    crc32 [49, 50, 51, 52, 53, 54, 55, 56, 57] = Some 0x206AF85B"
proof (intro conjI)
  show "crc32 (xs @ a # ys) \<noteq> None" using crc_loop_total by (fastforce simp: crc32_def)
  obtain c where c: "crc_loop (NOT 0) xs = Some c" using crc_loop_total by blast
  obtain da db where d: "CRC32C c a = Some da" "CRC32C c b = Some db" by (simp add: CRC32C_eq)
  obtain ea eb where e: "crc_loop da ys = Some ea" "crc_loop db ys = Some eb" using crc_loop_total by metis
  show "crc32 (xs @ a # ys) = crc32 (xs @ b # ys) \<longleftrightarrow> a = b"
    using c d e crc_loop_inj [of da ys db] CRC32C_inj_byte [of c a b] not_inj [of ea eb]
    by (auto simp: crc32_def crc_loop_append)
  show "crc32 [49, 50, 51, 52, 53, 54, 55, 56, 57] = Some 0x206AF85B"
    by code_simp
qed

end
