(* ===== verification/Util_Random.thy ===== *)
theory Util_Random
  imports Prelude
begin

text \<open>
  \<^verbatim>\<open>util/random.c\<close>: the Mersenne twister with the seeding of its first edition, and the shuffle
  built on it.  The two static variables are the state; every array access is checked.
\<close>

section \<open>State and operations\<close>

record rand_state =
  mt :: "u32 list"
  mti :: int

abbreviation N :: nat where "N \<equiv> 624"
abbreviation M :: nat where "M \<equiv> 397"

definition UPPER_MASK :: u32 where "UPPER_MASK = 0x80000000"
definition LOWER_MASK :: u32 where "LOWER_MASK = 0x7fffffff"
definition TEMPERING_MASK_B :: u32 where "TEMPERING_MASK_B = 0x9d2c5680"
definition TEMPERING_MASK_C :: u32 where "TEMPERING_MASK_C = 0xefc60000"

definition rand_init :: rand_state where
  \<comment> \<open>the state at program start\<close>
  "rand_init = \<lparr>mt = replicate N 0, mti = int N + 1\<rparr>"

definition rand_seed :: "u32 \<Rightarrow> rand_state \<Rightarrow> rand_state option" where
  "rand_seed seed st = do {
     m \<leftarrow> wr (mt st) 0 seed;
     m \<leftarrow> foldM (\<lambda>i m. do { p \<leftarrow> rd m (i - 1); wr m i ((69069 * p) AND 0xffffffff) }) [1..<N] m;
     Some (st\<lparr>mt := m, mti := int N\<rparr>) }"

definition mag01 :: "u32 list" where "mag01 = [0, 0x9908b0df]"

definition twist :: "nat \<Rightarrow> nat \<Rightarrow> nat \<Rightarrow> u32 list \<Rightarrow> u32 list option" where
  \<comment> \<open>\<open>mt[i]\<close> from the bits of \<open>mt[i]\<close> and \<open>mt[j]\<close> and from \<open>mt[k]\<close>\<close>
  "twist i j k m = do {
     a \<leftarrow> rd m i; b \<leftarrow> rd m j;
     let y = (a AND UPPER_MASK) OR (b AND LOWER_MASK);
     c \<leftarrow> rd m k;
     g \<leftarrow> rd mag01 (unat (y AND 1));
     wr m i (c XOR drop_bit 1 y XOR g) }"

definition generate :: "u32 list \<Rightarrow> u32 list option" where
  \<comment> \<open>the three parts of the block that refills the state\<close>
  "generate m = do {
     m \<leftarrow> foldM (\<lambda>kk. twist kk (kk + 1) (kk + M)) [0..<N - M] m;
     m \<leftarrow> foldM (\<lambda>kk. twist kk (kk + 1) (kk + M - N)) [N - M..<N - 1] m;
     twist (N - 1) 0 (M - 1) m }"

definition temper :: "u32 \<Rightarrow> u32" where
  "temper y = (
     let y = y XOR drop_bit 11 y;
         y = y XOR (push_bit 7 y AND TEMPERING_MASK_B);
         y = y XOR (push_bit 15 y AND TEMPERING_MASK_C)
     in y XOR drop_bit 18 y)"

definition rand_gen :: "rand_state \<Rightarrow> (rand_state \<times> u32) option" where
  "rand_gen st = do {
     st \<leftarrow> (if mti st \<ge> int N then do {
         st \<leftarrow> (if mti st = int N + 1 then rand_seed 4357 st else Some st);
         m \<leftarrow> generate (mt st);
         Some (st\<lparr>mt := m, mti := 0\<rparr>) }
       else Some st);
     y \<leftarrow> rdi (mt st) (mti st);
     Some (st\<lparr>mti := mti st + 1\<rparr>, temper y) }"

definition xor_swap :: "u32 list \<Rightarrow> nat \<Rightarrow> nat \<Rightarrow> u32 list option" where
  "xor_swap src i j = do {
     a \<leftarrow> rd src i; b \<leftarrow> rd src j; src \<leftarrow> wr src i (a XOR b);
     a \<leftarrow> rd src i; b \<leftarrow> rd src j; src \<leftarrow> wr src j (b XOR a);
     a \<leftarrow> rd src i; b \<leftarrow> rd src j; wr src i (a XOR b) }"

definition shuffle_step :: "nat \<Rightarrow> nat \<Rightarrow> rand_state \<times> u32 list \<Rightarrow> (rand_state \<times> u32 list) option" where
  "shuffle_step sz i s = do {
     let (st, src) = s;
     (st, r) \<leftarrow> rand_gen st;
     let index = unat (r mod word_of_nat sz);
     src \<leftarrow> (if index \<noteq> i then xor_swap src i index else Some src);
     Some (st, src) }"

definition rand_shuffle :: "u32 list \<Rightarrow> int \<Rightarrow> rand_state \<Rightarrow> (rand_state \<times> u32 list) option" where
  "rand_shuffle src sz st = foldM (shuffle_step (nat sz)) (rev [0..<nat sz]) (st, src)"

section \<open>The generator stays in its array\<close>

definition rand_ok :: "rand_state \<Rightarrow> bool" where
  "rand_ok st \<longleftrightarrow> length (mt st) = N \<and> 0 \<le> mti st \<and> mti st \<le> int N + 1"

lemma rand_init_ok: "rand_ok rand_init"
  by (simp add: rand_ok_def rand_init_def)

lemma rand_seed_ok:
  assumes "length (mt st) = N"
  shows "\<exists>st'. rand_seed seed st = Some st' \<and> rand_ok st'"
proof -
  have "\<exists>m'. foldM (\<lambda>i m. do { p \<leftarrow> rd m (i - 1); wr m i ((69069 * p) AND 0xffffffff) }) [1..<N] m = Some m' \<and> length m' = N"
    if "length m = N" for m
    by (rule foldM_inv [where I = "\<lambda>m. length m = N"]) (use that in auto)
  from this [of "(mt st)[0 := seed]"] show ?thesis
    using assms by (auto simp: rand_seed_def rand_ok_def)
qed

lemma mag01_bit: "unat (y AND 1 :: u32) < length mag01"
proof -
  have "y AND 1 \<le> 1" by (rule word_and_le1)
  then show ?thesis by (simp add: mag01_def word_le_nat_alt)
qed

lemma twist_ok:
  assumes "i < length m" "j < length m" "k < length m"
  shows "\<exists>m'. twist i j k m = Some m' \<and> length m' = length m"
  using assms mag01_bit by (simp add: twist_def Let_def)

lemma twist_loop_ok:
  assumes "length m = N" "\<And>kk. kk \<in> set ks \<Longrightarrow> kk < N \<and> kk + 1 < N \<and> f kk < N"
  shows "\<exists>m'. foldM (\<lambda>kk. twist kk (kk + 1) (f kk)) ks m = Some m' \<and> length m' = N"
proof (rule foldM_inv [where I = "\<lambda>m. length m = N"])
  fix kk and m :: "u32 list"
  assume "kk \<in> set ks" "length m = N"
  then show "\<exists>m'. twist kk (kk + 1) (f kk) m = Some m' \<and> length m' = N"
    using twist_ok [of kk m "kk + 1" "f kk"] assms(2) [of kk] by simp
qed (rule assms(1))

lemma generate_ok:
  assumes "length m = N"
  shows "\<exists>m'. generate m = Some m' \<and> length m' = N"
proof -
  obtain m1 where m1: "foldM (\<lambda>kk. twist kk (kk + 1) (kk + M)) [0..<N - M] m = Some m1" "length m1 = N"
    by (rule exE [OF twist_loop_ok [OF assms, of "[0..<N - M]" "\<lambda>kk. kk + M"]]) (auto simp only: set_upt atLeastLessThan_iff)
  obtain m2 where m2: "foldM (\<lambda>kk. twist kk (kk + 1) (kk + M - N)) [N - M..<N - 1] m1 = Some m2" "length m2 = N"
    by (rule exE [OF twist_loop_ok [OF m1(2), of "[N - M..<N - 1]" "\<lambda>kk. kk + M - N"]]) (auto simp only: set_upt atLeastLessThan_iff)
  obtain m3 where m3: "twist (N - 1) 0 (M - 1) m2 = Some m3" "length m3 = N"
    using twist_ok [of "N - 1" m2 0 "M - 1"] m2(2) by auto
  show ?thesis unfolding generate_def m1(1) m2(1) Option.bind_lunit m3(1) using m3(2) by blast
qed

lemma rand_gen_ok:
  assumes "rand_ok st"
  shows "\<exists>st' y. rand_gen st = Some (st', y) \<and> rand_ok st'"
proof -
  have "\<exists>st1. (if mti st \<ge> int N then do {
         st \<leftarrow> (if mti st = int N + 1 then rand_seed 4357 st else Some st);
         m \<leftarrow> generate (mt st);
         Some (st\<lparr>mt := m, mti := 0\<rparr>) }
       else Some st) = Some st1 \<and> length (mt st1) = N \<and> 0 \<le> mti st1 \<and> mti st1 < int N"
  proof (cases "mti st \<ge> int N")
    case True
    obtain st0 where st0: "(if mti st = int N + 1 then rand_seed 4357 st else Some st) = Some st0" "length (mt st0) = N"
      using rand_seed_ok [of st 4357] assms unfolding rand_ok_def by (cases "mti st = int N + 1") (auto split del: if_split)
    obtain m where m: "generate (mt st0) = Some m" "length m = N" using generate_ok [OF st0(2)] by blast
    show ?thesis unfolding st0(1) Option.bind_lunit m(1) using True m(2) by simp
  next
    case False
    then show ?thesis using assms by (simp add: rand_ok_def)
  qed
  then obtain st1 where st1: "(if mti st \<ge> int N then do {
         st \<leftarrow> (if mti st = int N + 1 then rand_seed 4357 st else Some st);
         m \<leftarrow> generate (mt st);
         Some (st\<lparr>mt := m, mti := 0\<rparr>) }
       else Some st) = Some st1" "length (mt st1) = N" "0 \<le> mti st1" "mti st1 < int N" by blast
  have "rdi (mt st1) (mti st1) = Some (mt st1 ! nat (mti st1))" using st1(2-4) by simp
  then show ?thesis
    unfolding rand_gen_def st1(1) Option.bind_lunit using st1(2-4) by (simp add: rand_ok_def)
qed

section \<open>The shuffle\<close>

lemma xor_swap_exec:
  assumes "i < length src" "j < length src" "i \<noteq> j"
  shows "xor_swap src i j = Some (src[i := src ! j, j := src ! i])"
proof -
  have x: "b XOR (a XOR b) = a" "(a XOR b) XOR a = b" for a b :: u32
    by (rule bit_word_eqI; auto simp: bit_xor_iff)+
  have "src[i := src ! i XOR src ! j, j := src ! j XOR (src ! i XOR src ! j), i := (src ! i XOR src ! j) XOR (src ! j XOR (src ! i XOR src ! j))]
      = src[i := src ! j, j := src ! i]"
    unfolding x using assms by (simp add: list_update_swap)
  then show ?thesis using assms by (simp add: xor_swap_def x)
qed

lemma shuffle_step_ok:
  assumes "rand_ok st" "length src = sz" "i < sz" "sz < 2 ^ 31"
  shows "\<exists>st' src'. shuffle_step sz i (st, src) = Some (st', src') \<and> rand_ok st' \<and> mset src' = mset src"
proof -
  obtain st' r where r: "rand_gen st = Some (st', r)" "rand_ok st'" using rand_gen_ok [OF assms(1)] by blast
  define index where "index = unat (r mod word_of_nat sz)"
  have "unat (word_of_nat sz :: u32) = sz" using assms(4) by (simp add: unsigned_of_nat take_bit_nat_eq_self)
  then have index: "index < length src" using assms(2,3) by (simp add: index_def unat_mod_distrib)
  show ?thesis
  proof (cases "index = i")
    case True
    then show ?thesis using r by (simp add: shuffle_step_def index_def Let_def)
  next
    case False
    then have "xor_swap src i index = Some (src[i := src ! index, index := src ! i])"
      using index assms(2,3) by (intro xor_swap_exec) auto
    moreover have "mset (src[i := src ! index, index := src ! i]) = mset src"
      using index assms(2,3) by (intro mset_swap_nth) auto
    ultimately show ?thesis using r False by (simp add: shuffle_step_def index_def Let_def)
  qed
qed

text \<open>C37: from any state the program can be in, seeded or not, the generator never reads or writes
  outside its array, and the shuffle of any array, swapping by exclusive or, terminates with a
  permutation of it.\<close>
theorem rand_shuffle_permutes:
  assumes "rand_ok st" "length src < 2 ^ 31"
  shows "\<exists>st' src'. rand_shuffle src (int (length src)) st = Some (st', src') \<and> rand_ok st' \<and> mset src' = mset src"
proof -
  let ?I = "\<lambda>s. rand_ok (fst s) \<and> mset (snd s) = mset src"
  have "\<exists>s'. foldM (shuffle_step (length src)) (rev [0..<length src]) (st, src) = Some s' \<and> ?I s'"
  proof (rule foldM_inv)
    fix i and s :: "rand_state \<times> u32 list"
    assume i: "i \<in> set (rev [0..<length src])" and s: "?I s"
    then have "length (snd s) = length src" by (metis size_mset)
    then show "\<exists>s'. shuffle_step (length src) i s = Some s' \<and> ?I s'"
      using shuffle_step_ok [of "fst s" "snd s" "length src" i] i s assms(2) by auto
  qed (use assms in simp)
  then show ?thesis by (auto simp: rand_shuffle_def)
qed

lemma rand_shuffle_permutes_witness:
  "\<exists>st' src'. rand_shuffle [3, 1, 4, 1, 5] (int (length [3, 1, 4, 1, 5 :: u32])) rand_init = Some (st', src') \<and>
    rand_ok st' \<and> mset src' = mset [3, 1, 4, 1, 5]"
  by (rule rand_shuffle_permutes [OF rand_init_ok]) simp

end
