(* ===== verification/Spec2Isabelle.thy ===== *)
theory Spec2Isabelle
  imports
    Base_Array
    Base_Bitset
    Base_Buffer
    Base_Conhash
    Base_Hash
    Base_Heap
    Base_Idtable
    Base_Kv
    Base_List
    Base_Rbtree
    Base_Rbuffer
    Base_Rqueue
    Base_Skiplist
    Base_Slist
    Base_Timer
    Core_Coroutine
    Core_Fsm
    Logic_Dirty
    Logic_Task
    Mm_Buddy
    Mm_Slab
    Net_Reactor
    Net_Serialize
    Net_Wsconn
    Net_Wshake
    Util_Base64
    Util_Crc
    Util_Random
    Util_Str
    Util_Time
begin

text \<open>
  A verification library for gbase, a C library for network servers: containers (\<^verbatim>\<open>src/base\<close>),
  concurrency and state machines (\<^verbatim>\<open>src/core\<close>), allocators (\<^verbatim>\<open>src/mm\<close>), the event reactor and
  the serializer (\<^verbatim>\<open>src/net\<close>), and codecs, checksums and helpers (\<^verbatim>\<open>src/util\<close>).

  \<^bold>\<open>How the code is modelled.\<close>  \<open>Prelude\<close> fixes the conventions.  A C struct is a record with the
  names of its members (prefixed where they clash), a C function is a HOL function of the same name
  on that record that returns the new record and the result.  A handle the code tests against
  \<^verbatim>\<open>NULL\<close> is an \<open>option\<close>; pointers that are only stored are numbers with \<open>NULL = 0\<close>.  Undefined
  behaviour, a failed \<^verbatim>\<open>assert\<close> and a loop that does not end are the value \<open>None\<close> of the outermost
  \<open>option\<close>, so that \<open>f x = Some y\<close> says that the code returns and that no access leaves its array.
  Machine integers of fixed width whose wrap-around matters are words; \<^verbatim>\<open>int\<close> is \<open>int\<close> where the
  theorems bound it.  Results of \<^verbatim>\<open>MALLOC\<close>, system calls, callbacks and \<^verbatim>\<open>rand\<close> are arguments.  Loops are
  structural recursions, functions with a measure, or \<open>partial_function (option)\<close>, whose
  termination is then part of the theorems; no fuel is used.

  \<^bold>\<open>Containers.\<close>
  \<^item> \<open>Base_Bitset\<close> (\<^verbatim>\<open>bitset.c\<close>): the bytes refine a finite set, the table-driven count its size.
  \<^item> \<open>Base_Array\<close>, \<open>Base_Slist\<close>, \<open>Base_Kv\<close> (\<^verbatim>\<open>array.c\<close>, \<^verbatim>\<open>slist.c\<close>, \<^verbatim>\<open>kv.c\<close>): list and map views.
  \<^item> \<open>Base_Idtable\<close> (\<^verbatim>\<open>idtable.c\<close>): linear probing; a bounded map as long as nothing is removed.
  \<^item> \<open>Base_Buffer\<close> (\<^verbatim>\<open>buffer.c\<close>): the shifting byte buffer; the locale \<open>byte_fifo\<close> states the contract
    of a byte queue and derives stream integrity, interpreted on the buffer.
  \<^item> \<open>Base_Rqueue\<close> (\<^verbatim>\<open>rqueue.c\<close>): the ring of pointers, sequentially and as the step relation of a
    pushing and a popping thread.
  \<^item> \<open>Base_Rbuffer\<close> (\<^verbatim>\<open>rbuffer.c\<close>): the ring of length-prefixed messages with wrapping positions.
  \<^item> \<open>Base_Hash\<close> (\<^verbatim>\<open>hash.c\<close>): chained buckets; the locale \<open>hash_element\<close> is the contract of the
    callers' hash and comparison, interpreted on the reactor's handlers; the Jenkins hash.
  \<^item> \<open>Base_Conhash\<close> (\<^verbatim>\<open>conhash.c\<close>): the ring of a consistent hash.
  \<^item> \<open>Base_Heap\<close>, \<open>Base_Timer\<close> (\<^verbatim>\<open>heap.c\<close>, \<^verbatim>\<open>timer.c\<close>): the indexed heap with its key table; the
    locale \<open>heap_order\<close> is the contract of the comparison, interpreted on the timers' order.
  \<^item> \<open>Base_Rbtree\<close> (\<^verbatim>\<open>rbtree.c\<close>): the red-black tree on a memory of nodes with parent pointers.
    \<open>holds t T X\<close> relates the memory to a tree with addresses; \<open>recolor\<close>, \<open>rot_spec\<close>, \<open>link_leaf\<close>
    and \<open>unlink_ok\<close> lift every pointer operation to it, and the loops of the two repairs are then
    inductions over the frames above the focus (\<open>insert_adjust_loop_ok\<close>, \<open>delete_loop_ok\<close>).

  \<^bold>\<open>Core, allocator, network, utilities.\<close>
  \<^item> \<open>Core_Fsm\<close> (\<^verbatim>\<open>fsm.c\<close>): the table-driven state machine over the id tables and the hash table.
  \<^item> \<open>Mm_Buddy\<close> (\<^verbatim>\<open>buddy.c\<close>): the buddy allocator over its index array, related to a tree of blocks.
  \<^item> \<open>Net_Reactor\<close> (\<^verbatim>\<open>reactor.c\<close>, \<^verbatim>\<open>reactor_select.c\<close>, \<^verbatim>\<open>reactor_epoll.c\<close>): both back ends with the
    system calls as arguments and callbacks that act on the reactor; the locale \<open>event_source\<close> is
    what both promise about unregistered handlers.
  \<^item> \<open>Net_Serialize\<close> (\<^verbatim>\<open>serialize.c\<close>): integers and floats in network order.
  \<^item> \<open>Util_Base64\<close>, \<open>Util_Crc\<close>, \<open>Util_Random\<close>, \<open>Util_Str\<close>, \<open>Util_Time\<close>: the codecs, the checksum,
    the Mersenne twister with the shuffle, the escapes and the time arithmetic.

  \<^bold>\<open>What the lemmas show.\<close>  For every container an abstract view (a set, a map, a list, a queue of
  messages) and that each operation is the abstract one on every branch, failures included; for the
  heap, the timer, the tree and the allocator also the invariants that make them efficient; round
  trips for the codecs; safety of the state machine, the reactor and the queue under any sequence of
  calls or steps.  Where the code departs from what it promises the theorem says what it does
  (\<open>idtable_remove_loses_entry\<close>, \<open>hash_remove_spec\<close>, \<open>heap_erase_breaks_order\<close>, and others).

  \<^bold>\<open>Bounds.\<close>  Sizes are below the limits of \<^verbatim>\<open>int\<close> (\<open>2 ^ 31\<close> for the hash and the ring buffer,
  \<open>2 ^ 29\<close> for the pool of the allocator); a descriptor set has the 1024 bits of glibc.

  \<^bold>\<open>Not modelled.\<close>  The release functions of most containers (they only free memory) and the debug
  printers; \<^verbatim>\<open>slab.c\<close>, which keeps its lists inside raw pages; sockets, connectors, shared memory, curl,
  logging and files, which are sequences of system calls; \<^verbatim>\<open>cjson.c\<close>, which is third-party code;
  the wrappers of threads and locks.  Planned: \<^verbatim>\<open>skiplist.c\<close>, \<^verbatim>\<open>task.c\<close>, \<^verbatim>\<open>dirty.c\<close>, \<^verbatim>\<open>cmd.c\<close>,
  the frames of \<^verbatim>\<open>wsconn.c\<close>, \<^verbatim>\<open>md5.c\<close> and \<^verbatim>\<open>sha1.c\<close>, \<^verbatim>\<open>bus.c\<close> and the scheduler of \<^verbatim>\<open>coroutine.c\<close>.
\<close>

end
